(* ===== verification/Prelude.thy ===== *)
theory Prelude
  imports Main "HOL-Library.Word" "HOL-Library.Monad_Syntax"
begin

text \<open>
  Shared vocabulary of the development: the C integer types at their widths on a 64-bit
  platform, memory cells of an array of machine words read and written with a bounds check
  (the value None is C's undefined behaviour, or a loop that does not return), and the
  generic facts about bits of words that the component theories share.
\<close>

unbundle bit_operations_syntax

section \<open>Machine integers and constants\<close>

type_synonym u8 = "8 word"
type_synonym u16 = "16 word"
type_synonym u32 = "32 word"
type_synonym u64 = "64 word"
type_synonym usize = "64 word"

text \<open>Facts about the bits of a word, used wherever a mask is built.\<close>

named_theorems word_bits

text \<open>Facts that unfold the checked array accesses.\<close>

named_theorems mem_simps

section \<open>Checked access to an array of words\<close>

definition load :: "'a list \<Rightarrow> nat \<Rightarrow> 'a option" where
  "load xs i = (if i < length xs then Some (xs ! i) else None)"

definition store :: "'a list \<Rightarrow> nat \<Rightarrow> 'a \<Rightarrow> 'a list option" where
  "store xs i v = (if i < length xs then Some (xs[i := v]) else None)"

lemma load_in [mem_simps]: "i < length xs \<Longrightarrow> load xs i = Some (xs ! i)"
  by (simp add: load_def)

lemma store_in [mem_simps]: "i < length xs \<Longrightarrow> store xs i v = Some (xs[i := v])"
  by (simp add: store_def)

lemma load_Some_iff: "load xs i = Some v \<longleftrightarrow> i < length xs \<and> v = xs ! i"
  by (auto simp: load_def)

lemma store_Some_iff: "store xs i v = Some ys \<longleftrightarrow> i < length xs \<and> ys = xs[i := v]"
  by (auto simp: store_def)

section \<open>Bits of words\<close>

lemma word_eq_bits: "(a :: 'a::len word) = b \<longleftrightarrow> (\<forall>n < LENGTH('a). bit a n = bit b n)"
  by (auto simp: bit_eq_iff dest: bit_imp_le_length)

lemma word_zero_bits: "(a :: 'a::len word) = 0 \<longleftrightarrow> (\<forall>n < LENGTH('a). \<not> bit a n)"
  by (simp add: word_eq_bits)

lemma word_nonzero_bit: "(a :: 'a::len word) \<noteq> 0 \<Longrightarrow> \<exists>n < LENGTH('a). bit a n"
  by (simp add: word_zero_bits)

lemma bit_usize_lt: "bit (x :: usize) n \<Longrightarrow> n < 64"
  using bit_imp_le_length [of x n] by simp

lemma bit_minus_one_usize [word_bits]: "bit (- 1 :: usize) n \<longleftrightarrow> n < 64"
  by (simp add: bit_minus_1_iff)

lemma bit_push_mask [word_bits]:
  "bit (push_bit k (mask c) :: usize) n \<longleftrightarrow> k \<le> n \<and> n < k + c \<and> n < 64"
  by (auto simp: bit_push_bit_iff bit_mask_iff)

lemma word_and_eq_zero_iff:
  "(a AND b :: 'a::len word) = 0 \<longleftrightarrow> (\<forall>n < LENGTH('a). \<not> (bit a n \<and> bit b n))"
  by (simp add: word_zero_bits bit_and_iff)

lemma word_and_eq_iff:
  "(a AND b :: 'a::len word) = b \<longleftrightarrow> (\<forall>n < LENGTH('a). bit b n \<longrightarrow> bit a n)"
  by (auto simp: word_eq_bits bit_and_iff)

section \<open>Values of words\<close>

lemma unat_usize_lt: "unat (x :: usize) < 18446744073709551616"
proof -
  have "unat x < 2 ^ LENGTH(64)" by (rule unsigned_less)
  then show ?thesis by simp
qed

lemma unat_u32_lt: "unat (x :: u32) < 4294967296"
proof -
  have "unat x < 2 ^ LENGTH(32)" by (rule unsigned_less)
  then show ?thesis by simp
qed

lemma unat_of_nat_usize: "n < 2 ^ 64 \<Longrightarrow> unat (of_nat n :: usize) = n"
  by (simp add: unsigned_of_nat take_bit_eq_mod)

lemma unat_minus_one_usize: "unat (- 1 :: usize) = 2 ^ 64 - 1"
  by (simp add: unsigned_minus_1_eq_mask mask_eq_exp_minus_1)

lemma unat_push_bit_usize: "unat (push_bit k x :: usize) = (unat x * 2 ^ k) mod 2 ^ 64"
proof -
  have "unat (push_bit k x) = take_bit 64 (push_bit k (unat x))"
    by (simp add: unsigned_push_bit_eq)
  then show ?thesis by (simp add: take_bit_eq_mod push_bit_eq_mult)
qed

lemma unat_drop_bit_usize: "unat (drop_bit k x :: usize) = unat x div 2 ^ k"
proof -
  have "unat (drop_bit k x) = drop_bit k (take_bit 64 (unat x))"
    by (simp add: unsigned_drop_bit_eq)
  then show ?thesis using unat_usize_lt [of x] by (simp add: take_bit_eq_mod drop_bit_eq_div)
qed

lemma nat_pow2_of_and: "0 < n \<Longrightarrow> and n (n - 1) = 0 \<Longrightarrow> \<exists>k. n = 2 ^ k" for n :: nat
proof (induction n rule: less_induct)
  case (less n)
  show ?case
  proof (cases "even n")
    case True
    with less.prems obtain j where j: "n = 2 * Suc j"
      by (metis evenE gr0_implies_Suc mult_0_right not_gr0)
    define m where "m = Suc j"
    have m: "n = 2 * m" "m > 0" and e: "n - 1 = 2 * (m - 1) + 1" using j m_def by simp_all
    have "and n (n - 1) = 2 * and m (m - 1)"
      unfolding e unfolding m by (subst and_nat_rec) simp
    with less.prems have "and m (m - 1) = 0" by simp
    with less.IH [of m] m obtain k where "m = 2 ^ k" by auto
    with m(1) have "n = 2 ^ Suc k" by simp
    then show ?thesis by blast
  next
    case False
    then obtain m where m: "n = 2 * m + 1" by (auto elim: oddE)
    have "and n (n - 1) = 2 * m"
      unfolding m by (subst and_nat_rec) simp
    with less.prems m have "n = 2 ^ 0" by simp
    then show ?thesis by blast
  qed
qed

lemma usize_pow2_cases:
  fixes a :: usize
  assumes "a \<noteq> 0" "a AND (a - 1) = 0"
  obtains k where "k < 64" "a = 2 ^ k" "unat a = 2 ^ k"
proof -
  have pos: "0 < unat a" using assms(1) by (simp add: unat_gt_0)
  have u1: "unat (a - 1) = unat a - 1"
    using assms(1) by (simp add: unat_minus_one)
  have "and (unat a) (unat a - 1) = 0"
    using assms(2) by (metis u1 unsigned_and_eq unsigned_0)
  then obtain k where k: "unat a = 2 ^ k" using nat_pow2_of_and [OF pos] by blast
  have "unat a < 2 ^ 64" using unat_usize_lt [of a] by simp
  then have "k < 64" using k by (metis nat_power_less_imp_less zero_less_numeral)
  moreover have "a = 2 ^ k" proof -
    have "a = of_nat (unat a)" by simp
    then show ?thesis unfolding k by simp
  qed
  ultimately show thesis using k that by blast
qed

lemma and_not_mask_div:
  "k < 64 \<Longrightarrow> unat (x AND NOT (2 ^ k - 1) :: usize) = unat x div 2 ^ k * 2 ^ k"
proof -
  assume k: "k < 64"
  have "x AND NOT (mask k) = push_bit k (drop_bit k x)"
    by (rule bit_eqI) (auto simp: bit_and_iff bit_not_iff bit_mask_iff bit_push_bit_iff bit_drop_bit_eq)
  then have "unat (x AND NOT (2 ^ k - 1)) = unat (push_bit k (drop_bit k x))"
    by (simp add: mask_eq_exp_minus_1)
  moreover have "unat x div 2 ^ k * 2 ^ k < 2 ^ 64"
  proof -
    have "unat x div 2 ^ k * 2 ^ k \<le> unat x" by (rule div_times_less_eq_dividend)
    moreover have "unat x < 2 ^ 64" using unat_usize_lt [of x] by simp
    ultimately show ?thesis by (rule le_less_trans)
  qed
  ultimately show ?thesis by (simp add: unat_push_bit_usize unat_drop_bit_usize)
qed

lemma word_isolate_low_bit:
  fixes x :: "'a::len word"
  assumes k: "bit x k" and low: "\<And>j. j < k \<Longrightarrow> \<not> bit x j"
  shows "x AND (- x) = 2 ^ k"
proof -
  have kl: "k < LENGTH('a)" using k by (rule bit_imp_le_length)
  define h where "h = push_bit (Suc k) (drop_bit (Suc k) x)"
  have bh: "bit h n \<longleftrightarrow> k < n \<and> bit x n" for n
    unfolding h_def bit_push_bit_iff bit_drop_bit_eq using bit_imp_le_length [of x n]
    by (auto simp: possible_bit_def)
  have "x = h OR 2 ^ k"
  proof (rule bit_eqI)
    fix n
    show "bit x n = bit (h OR 2 ^ k) n"
      using k low [of n] bit_imp_le_length [of x n] kl
      by (cases n k rule: linorder_cases)
        (auto simp: bit_or_iff bh bit_exp_iff)
  qed
  also have "\<dots> = h + 2 ^ k"
    by (rule disjunctive_add [symmetric]) (auto simp: bh bit_exp_iff)
  finally have "x - 1 = h + (2 ^ k - 1)" by (metis add_diff_eq)
  also have "\<dots> = h OR mask k"
    unfolding mask_eq_exp_minus_1 [symmetric]
    by (rule disjunctive_add) (auto simp: bh bit_mask_iff)
  finally have "- x = NOT (h OR mask k)" by (metis not_eq_complement minus_diff_eq diff_minus_eq_add minus_eq_not_minus_1)
  then have m: "x AND (- x) = x AND NOT (h OR mask k)" by simp
  show ?thesis unfolding m
  proof (rule bit_eqI)
    fix n
    show "bit (x AND NOT (h OR mask k)) n = bit (2 ^ k :: 'a word) n"
      using k low [of n] bit_imp_le_length [of x n] kl
      by (cases n k rule: linorder_cases)
        (auto simp: bit_and_iff bit_not_iff bit_or_iff bh bit_mask_iff bit_exp_iff)
  qed
qed

lemma xorshift_inj:
  fixes x y :: "'a::len word"
  assumes "0 < k" and eq: "x XOR drop_bit k x = y XOR drop_bit k y"
  shows "x = y"
proof -
  define z where "z = x XOR y"
  have "(x XOR drop_bit k x) XOR (y XOR drop_bit k y) = 0" unfolding eq by (rule xor_self_eq)
  then have "z XOR drop_bit k z = 0" unfolding z_def
    by (metis (no_types, lifting) drop_bit_xor xor.assoc xor.left_commute)
  then have zz: "z = drop_bit k z" by (metis xor.assoc xor.right_neutral xor_self_eq)
  have "\<not> bit z n" for n
  proof (induction "LENGTH('a) - n" arbitrary: n rule: less_induct)
    case less
    show ?case
    proof (cases "n < LENGTH('a)")
      case True
      then have "\<not> bit z (k + n)" using less [of "k + n"] assms(1) by simp
      moreover have "bit z n \<longleftrightarrow> bit z (k + n)" by (subst zz) (simp add: bit_drop_bit_eq)
      ultimately show ?thesis by simp
    next
      case False then show ?thesis using bit_imp_le_length by blast
    qed
  qed
  then have "z = 0" by (simp add: bit_eq_iff)
  then show ?thesis unfolding z_def by (metis xor.assoc xor.left_neutral xor_self_eq)
qed

lemma mul_unit_inj: "c * c' = 1 \<Longrightarrow> x * c = y * c \<Longrightarrow> x = y" for c :: usize
proof -
  assume u: "c * c' = 1" and eq: "x * c = y * c"
  have "x * c * c' = y * c * c'" by (simp only: eq)
  then show "x = y" by (simp only: mult.assoc u mult.right_neutral)
qed

lemma unat_exp_u32: "k < 32 \<Longrightarrow> unat (2 ^ k :: u32) = 2 ^ k"
proof -
  assume k: "k < 32"
  have "unat (of_nat (2 ^ k) :: u32) = 2 ^ k mod 2 ^ 32" by (simp only: unat_of_nat) simp
  also have "\<dots> = 2 ^ k" using k by (intro mod_less power_strict_increasing) simp_all
  finally show ?thesis by simp
qed

lemma unat_mask_u32: "k \<le> 32 \<Longrightarrow> unat (mask k :: u32) = 2 ^ k - 1"
proof -
  assume k: "k \<le> 32"
  have "unat (mask k :: u32) = mask k"
    by (rule bit_eqI) (use k in \<open>auto simp: bit_unsigned_iff bit_mask_iff\<close>)
  then show ?thesis by (simp add: mask_eq_exp_minus_1)
qed

lemma smear_step:
  fixes x :: "'a::len word"
  assumes "\<And>n. bit y n \<longleftrightarrow> (\<exists>j < s. bit x (n + j))"
  shows "bit (y OR drop_bit s y) n \<longleftrightarrow> (\<exists>j < 2 * s. bit x (n + j))"
proof
  assume "bit (y OR drop_bit s y) n"
  then consider j where "j < s" "bit x (n + j)" | j where "j < s" "bit x (s + n + j)"
    by (auto simp: bit_or_iff bit_drop_bit_eq assms)
  then show "\<exists>j < 2 * s. bit x (n + j)"
  proof cases
    case 1 then show ?thesis by (intro exI [of _ j]) simp
  next
    case 2 then show ?thesis by (intro exI [of _ "s + j"]) (simp add: ac_simps)
  qed
next
  assume "\<exists>j < 2 * s. bit x (n + j)"
  then obtain j where j: "j < 2 * s" "bit x (n + j)" by blast
  show "bit (y OR drop_bit s y) n"
  proof (cases "j < s")
    case True then show ?thesis using j by (auto simp: bit_or_iff assms)
  next
    case False
    then have "bit x (s + n + (j - s))" "j - s < s" using j by (simp_all add: ac_simps)
    then show ?thesis by (auto simp: bit_or_iff bit_drop_bit_eq assms)
  qed
qed

end
