(* ===== verification/Internal.thy ===== *)
theory Internal
  imports Prelude
begin

text \<open>
  The inline arithmetic of mimalloc's include/mimalloc/internal.h and the size constants of
  include/mimalloc/types.h, on a 64-bit platform (MI_INTPTR_SHIFT = 3): alignment, division
  and size computations on size_t, overflow-checked multiplication, the free-list pointer
  encoding, the tagged thread-free word, the splitmix shuffle and the bit scans.
  Sizes and addresses are 64-bit words, so that every wrap-around of the code is one of the
  model; bit positions and counts of bits are natural numbers.
\<close>

section \<open>Platform and size constants (types.h)\<close>

definition MI_INTPTR_SIZE :: nat where [simp]: "MI_INTPTR_SIZE = 2 ^ 3"
definition MI_INTPTR_BITS :: nat where [simp]: "MI_INTPTR_BITS = MI_INTPTR_SIZE * 8"
definition MI_SIZE_BITS :: nat where [simp]: "MI_SIZE_BITS = 2 ^ 3 * 8"
definition MI_KiB :: nat where [simp]: "MI_KiB = 1024"
definition MI_MiB :: nat where [simp]: "MI_MiB = MI_KiB * MI_KiB"
definition MI_GiB :: nat where [simp]: "MI_GiB = MI_MiB * MI_KiB"
definition MI_MAX_ALIGN_SIZE :: nat where [simp]: "MI_MAX_ALIGN_SIZE = 16"
definition MI_SEGMENT_SLICE_SHIFT :: nat where [simp]: "MI_SEGMENT_SLICE_SHIFT = 13 + 3"
definition MI_SEGMENT_SHIFT :: nat where [simp]: "MI_SEGMENT_SHIFT = 9 + MI_SEGMENT_SLICE_SHIFT"
definition MI_SMALL_PAGE_SHIFT :: nat where [simp]: "MI_SMALL_PAGE_SHIFT = MI_SEGMENT_SLICE_SHIFT"
definition MI_MEDIUM_PAGE_SHIFT :: nat where [simp]: "MI_MEDIUM_PAGE_SHIFT = 3 + MI_SMALL_PAGE_SHIFT"
definition MI_SEGMENT_SIZE :: nat where [simp]: "MI_SEGMENT_SIZE = 2 ^ MI_SEGMENT_SHIFT"
definition MI_SEGMENT_SLICE_SIZE :: nat where [simp]: "MI_SEGMENT_SLICE_SIZE = 2 ^ MI_SEGMENT_SLICE_SHIFT"
definition MI_SLICES_PER_SEGMENT :: nat where
  [simp]: "MI_SLICES_PER_SEGMENT = MI_SEGMENT_SIZE div MI_SEGMENT_SLICE_SIZE"
definition MI_SMALL_PAGE_SIZE :: nat where [simp]: "MI_SMALL_PAGE_SIZE = 2 ^ MI_SMALL_PAGE_SHIFT"
definition MI_MEDIUM_PAGE_SIZE :: nat where [simp]: "MI_MEDIUM_PAGE_SIZE = 2 ^ MI_MEDIUM_PAGE_SHIFT"
definition MI_SMALL_OBJ_SIZE_MAX :: nat where [simp]: "MI_SMALL_OBJ_SIZE_MAX = MI_SMALL_PAGE_SIZE div 4"
definition MI_MEDIUM_OBJ_SIZE_MAX :: nat where [simp]: "MI_MEDIUM_OBJ_SIZE_MAX = MI_MEDIUM_PAGE_SIZE div 4"
definition MI_MEDIUM_OBJ_WSIZE_MAX :: nat where
  [simp]: "MI_MEDIUM_OBJ_WSIZE_MAX = MI_MEDIUM_OBJ_SIZE_MAX div MI_INTPTR_SIZE"
definition MI_LARGE_OBJ_SIZE_MAX :: nat where [simp]: "MI_LARGE_OBJ_SIZE_MAX = MI_SEGMENT_SIZE div 2"
definition MI_BIN_HUGE :: nat where [simp]: "MI_BIN_HUGE = 73"
definition MI_BIN_FULL :: nat where [simp]: "MI_BIN_FULL = MI_BIN_HUGE + 1"
definition MI_HUGE_BLOCK_SIZE :: nat where [simp]: "MI_HUGE_BLOCK_SIZE = 2 * MI_GiB"
definition MI_ALIGNMENT_MAX :: nat where [simp]: "MI_ALIGNMENT_MAX = MI_SEGMENT_SIZE div 2"
definition MI_MAX_SLICE_OFFSET :: nat where
  [simp]: "MI_MAX_SLICE_OFFSET = MI_ALIGNMENT_MAX div MI_SEGMENT_SLICE_SIZE - 1"
definition MI_SEGMENT_MASK :: usize where [simp]: "MI_SEGMENT_MASK = of_nat MI_SEGMENT_SIZE - 1"

section \<open>Alignment, division and sizes\<close>

definition mi_is_power_of_two :: "usize \<Rightarrow> bool" where
  "mi_is_power_of_two x \<longleftrightarrow> x AND (x - 1) = 0"

definition mi_is_aligned :: "usize \<Rightarrow> usize \<Rightarrow> bool" where
  "mi_is_aligned p alignment \<longleftrightarrow> p mod alignment = 0"

definition mi_align_up :: "usize \<Rightarrow> usize \<Rightarrow> usize" where
  "mi_align_up sz alignment =
     (let msk = alignment - 1
      in if alignment AND msk = 0 then (sz + msk) AND NOT msk
         else ((sz + msk) div alignment) * alignment)"

definition mi_align_down :: "usize \<Rightarrow> usize \<Rightarrow> usize" where
  "mi_align_down sz alignment =
     (let msk = alignment - 1
      in if alignment AND msk = 0 then sz AND NOT msk
         else (sz div alignment) * alignment)"

definition mi_divide_up :: "usize \<Rightarrow> usize \<Rightarrow> usize" where
  "mi_divide_up sz divider = (if divider = 0 then sz else (sz + divider - 1) div divider)"

definition mi_mem_is_zero :: "u8 list \<Rightarrow> bool" where
  "mi_mem_is_zero bytes \<longleftrightarrow> list_all (\<lambda>b. b = 0) bytes"

definition mi_wsize_from_size :: "usize \<Rightarrow> usize" where
  "mi_wsize_from_size sz = (sz + 8 - 1) div 8"

text \<open>
  The portable branch of mi_mul_overflow (the other one is a compiler builtin): the product
  wraps, and the flag is computed by a division that a comparison with 2^32 guards.
  The result is the pair of the overflow flag and *total.
\<close>

definition mi_mul_overflow :: "usize \<Rightarrow> usize \<Rightarrow> bool \<times> usize" where
  "mi_mul_overflow count sz =
     (let MI_MUL_NO_OVERFLOW = push_bit (4 * 8) (1 :: usize)
      in ((sz \<ge> MI_MUL_NO_OVERFLOW \<or> count \<ge> MI_MUL_NO_OVERFLOW) \<and> sz > 0
            \<and> (- 1) div sz < count,
          count * sz))"

definition mi_count_size_overflow :: "usize \<Rightarrow> usize \<Rightarrow> bool \<times> usize" where
  "mi_count_size_overflow count sz =
     (if count = 1 then (False, sz)
      else case mi_mul_overflow count sz of
             (True, _) \<Rightarrow> (True, - 1)
           | (False, tot) \<Rightarrow> (False, tot))"

section \<open>Segments of pointers and tagged thread-free words\<close>

definition mi_ptr_segment :: "usize \<Rightarrow> usize" where
  "mi_ptr_segment p = (p - 1) AND NOT MI_SEGMENT_MASK"

datatype mi_delayed =
  MI_USE_DELAYED_FREE | MI_DELAYED_FREEING | MI_NO_DELAYED_FREE | MI_NEVER_DELAYED_FREE

fun mi_delayed_enc :: "mi_delayed \<Rightarrow> usize" where
  "mi_delayed_enc MI_USE_DELAYED_FREE = 0"
| "mi_delayed_enc MI_DELAYED_FREEING = 1"
| "mi_delayed_enc MI_NO_DELAYED_FREE = 2"
| "mi_delayed_enc MI_NEVER_DELAYED_FREE = 3"

definition mi_delayed_of :: "usize \<Rightarrow> mi_delayed" where
  "mi_delayed_of w =
     (if w = 0 then MI_USE_DELAYED_FREE else if w = 1 then MI_DELAYED_FREEING
      else if w = 2 then MI_NO_DELAYED_FREE else MI_NEVER_DELAYED_FREE)"

definition mi_tf_block :: "usize \<Rightarrow> usize" where
  "mi_tf_block tf = tf AND NOT 0x03"

definition mi_tf_delayed :: "usize \<Rightarrow> mi_delayed" where
  "mi_tf_delayed tf = mi_delayed_of (tf AND 0x03)"

definition mi_tf_make :: "usize \<Rightarrow> mi_delayed \<Rightarrow> usize" where
  "mi_tf_make block delayed = block OR mi_delayed_enc delayed"

definition mi_tf_set_delayed :: "usize \<Rightarrow> mi_delayed \<Rightarrow> usize" where
  "mi_tf_set_delayed tf delayed = mi_tf_make (mi_tf_block tf) delayed"

definition mi_tf_set_block :: "usize \<Rightarrow> usize \<Rightarrow> usize" where
  "mi_tf_set_block tf block = mi_tf_make block (mi_tf_delayed tf)"

section \<open>Free-list encoding\<close>

definition mi_rotl :: "usize \<Rightarrow> usize \<Rightarrow> usize" where
  "mi_rotl x shift =
     (let s = unat (shift mod 64)
      in if s = 0 then x else push_bit s x OR drop_bit (MI_INTPTR_BITS - s) x)"

definition mi_rotr :: "usize \<Rightarrow> usize \<Rightarrow> usize" where
  "mi_rotr x shift =
     (let s = unat (shift mod 64)
      in if s = 0 then x else drop_bit s x OR push_bit (MI_INTPTR_BITS - s) x)"

text \<open>The two keys of a page or heap are the pair (keys[0], keys[1]).\<close>

definition mi_ptr_decode :: "usize \<Rightarrow> usize \<Rightarrow> usize \<times> usize \<Rightarrow> usize" where
  "mi_ptr_decode null x keys =
     (let p = mi_rotr (x - fst keys) (fst keys) XOR snd keys
      in if p = null then 0 else p)"

definition mi_ptr_encode :: "usize \<Rightarrow> usize \<Rightarrow> usize \<times> usize \<Rightarrow> usize" where
  "mi_ptr_encode null p keys =
     (let x = (if p = 0 then null else p)
      in mi_rotl (x XOR snd keys) (fst keys) + fst keys)"

section \<open>Random shuffle\<close>

definition mi_random_shuffle :: "usize \<Rightarrow> usize" where
  "mi_random_shuffle x0 =
     (let x = (if x0 = 0 then 17 else x0);
          x = x XOR drop_bit 30 x;
          x = x * 0xbf58476d1ce4e5b9;
          x = x XOR drop_bit 27 x;
          x = x * 0x94d049bb133111eb
      in x XOR drop_bit 31 x)"

section \<open>Bit scans\<close>

text \<open>
  The compiler builtins count the zero bits below the lowest, or above the highest set bit;
  their result is undefined on zero, which the callers test first.
\<close>

definition builtin_ctzl :: "usize \<Rightarrow> nat" where
  "builtin_ctzl x = length (takeWhile (\<lambda>i. \<not> bit x i) [0..<64])"

definition builtin_clzl :: "usize \<Rightarrow> nat" where
  "builtin_clzl x = length (takeWhile (\<lambda>i. \<not> bit x i) (rev [0..<64]))"

definition mi_clz :: "usize \<Rightarrow> nat" where
  "mi_clz x = (if x = 0 then MI_INTPTR_BITS else builtin_clzl x)"

definition mi_ctz :: "usize \<Rightarrow> nat" where
  "mi_ctz x = (if x = 0 then MI_INTPTR_BITS else builtin_ctzl x)"

definition mi_bsr :: "usize \<Rightarrow> nat" where
  "mi_bsr x = (if x = 0 then MI_INTPTR_BITS else MI_INTPTR_BITS - 1 - mi_clz x)"

text \<open>
  The portable fallback multiplies by a de Bruijn constant with suffix UL, whose width is
  that of unsigned long: the product is computed at that width (ul_bits), and only
  mi_clz32 casts it back to 32 bits. None is a read outside the table.
\<close>

definition mi_ctz32_debruijn :: "nat list" where
  "mi_ctz32_debruijn =
    [0, 1, 28, 2, 29, 14, 24, 3, 30, 22, 20, 15, 25, 17, 4, 8,
     31, 27, 13, 23, 21, 19, 16, 7, 26, 12, 18, 6, 11, 5, 10, 9]"

definition mi_ctz32 :: "nat \<Rightarrow> u32 \<Rightarrow> nat option" where
  "mi_ctz32 ul_bits x =
     (if x = 0 then Some 32
      else load mi_ctz32_debruijn
             (((unat (x AND (- x)) * 0x077CB531) mod 2 ^ ul_bits) div 2 ^ 27))"

definition mi_clz32_debruijn :: "nat list" where
  "mi_clz32_debruijn =
    [31, 22, 30, 21, 18, 10, 29, 2, 20, 17, 15, 13, 9, 6, 28, 1,
     23, 19, 11, 3, 16, 14, 7, 24, 12, 4, 8, 25, 5, 26, 27, 0]"

definition mi_clz32 :: "nat \<Rightarrow> u32 \<Rightarrow> nat option" where
  "mi_clz32 ul_bits x0 =
     (if x0 = 0 then Some 32
      else
        let x = x0 OR drop_bit 1 x0;
            x = x OR drop_bit 2 x;
            x = x OR drop_bit 4 x;
            x = x OR drop_bit 8 x;
            x = x OR drop_bit 16 x
        in load mi_clz32_debruijn
             ((((unat x * 0x07C4ACDD) mod 2 ^ ul_bits) mod 2 ^ 32) div 2 ^ 27))"

section \<open>Arithmetic of sizes: the word operations against natural-number arithmetic\<close>

lemma mi_align_up_spec:
  fixes sz a :: usize
  assumes "a \<noteq> 0" "unat sz + unat a \<le> 2 ^ 64"
  shows "unat (mi_align_up sz a) = (unat sz + unat a - 1) div unat a * unat a"
proof -
  have pos: "0 < unat a" using assms(1) by (simp add: unat_gt_0)
  have u1: "unat (a - 1) = unat a - 1" using assms(1) by (simp add: unat_minus_one)
  have s: "unat (sz + (a - 1)) = unat sz + unat a - 1"
    using assms(2) pos u1 by (simp add: unat_word_ariths(1))
  show ?thesis
  proof (cases "a AND (a - 1) = 0")
    case True
    then obtain k where k: "k < 64" "a = 2 ^ k" "unat a = 2 ^ k"
      using usize_pow2_cases assms(1) by blast
    then show ?thesis using True s and_not_mask_div [OF k(1), of "sz + (a - 1)"]
      by (simp add: mi_align_up_def Let_def)
  next
    case False
    have "(unat sz + unat a - 1) div unat a * unat a \<le> unat sz + unat a - 1" by simp
    also have "\<dots> < 2 ^ 64" using assms(2) pos by linarith
    finally show ?thesis using False s
      by (simp add: mi_align_up_def Let_def unat_word_ariths(2) unat_div)
  qed
qed

lemma mi_align_down_spec:
  fixes sz a :: usize
  assumes "a \<noteq> 0"
  shows "unat (mi_align_down sz a) = unat sz div unat a * unat a"
proof (cases "a AND (a - 1) = 0")
  case True
  then obtain k where k: "k < 64" "a = 2 ^ k" "unat a = 2 ^ k"
    using usize_pow2_cases assms(1) by blast
  then show ?thesis using True and_not_mask_div [OF k(1), of sz]
    by (simp add: mi_align_down_def Let_def)
next
  case False
  have "unat sz div unat a * unat a \<le> unat sz" by simp
  also have "\<dots> < 2 ^ 64" using unat_usize_lt [of sz] by simp
  finally show ?thesis using False
    by (simp add: mi_align_down_def Let_def unat_word_ariths(2) unat_div)
qed

lemma mi_mul_overflow_spec:
  "mi_mul_overflow count sz = (unat count * unat sz \<ge> 2 ^ 64, count * sz)"
proof -
  have e: "push_bit (4 * 8) (1 :: usize) = 2 ^ 32" by (simp add: push_bit_eq_mult)
  have u: "unat (2 ^ 32 :: usize) = 2 ^ 32" by simp
  have m1: "unat ((- 1) div sz) = (2 ^ 64 - 1) div unat sz"
    by (simp add: unat_div unat_minus_one_usize)
  have "(((sz \<ge> 2 ^ 32 \<or> count \<ge> 2 ^ 32) \<and> sz > 0 \<and> (- 1) div sz < count))
      \<longleftrightarrow> unat count * unat sz \<ge> 2 ^ 64"
  proof (cases "sz = 0")
    case True then show ?thesis by simp
  next
    case False
    then have pos: "0 < unat sz" by (simp add: unat_gt_0)
    have "(- 1) div sz < count \<longleftrightarrow> (2 ^ 64 - 1) div unat sz < unat count"
      by (simp only: word_less_nat_alt m1)
    also have "\<dots> \<longleftrightarrow> 2 ^ 64 - 1 < unat count * unat sz"
      using pos by (simp add: div_less_iff_less_mult)
    also have "\<dots> \<longleftrightarrow> unat count * unat sz \<ge> 2 ^ 64" by auto
    finally have d: "(- 1) div sz < count \<longleftrightarrow> unat count * unat sz \<ge> 2 ^ 64" .
    have small: "unat count * unat sz < 2 ^ 64" if "\<not> sz \<ge> 2 ^ 32" "\<not> count \<ge> 2 ^ 32"
    proof -
      have "unat count < 2 ^ 32" "unat sz < 2 ^ 32"
        using that by (simp_all add: word_less_nat_alt not_le)
      then have "unat count * unat sz < 2 ^ 32 * 2 ^ 32" by (intro mult_strict_mono) auto
      then show ?thesis by simp
    qed
    show ?thesis
    proof (cases "sz \<ge> 2 ^ 32 \<or> count \<ge> 2 ^ 32")
      case True
      with d False show ?thesis by (simp add: word_gt_0)
    next
      case big: False
      then have "\<not> unat count * unat sz \<ge> 2 ^ 64" using small by fastforce
      with big show ?thesis by blast
    qed
  qed
  then show ?thesis unfolding mi_mul_overflow_def Let_def e by simp
qed

section \<open>Rotation and pointer encoding\<close>

lemma bit_mi_rotl:
  "bit (mi_rotl x s) n \<longleftrightarrow> n < 64 \<and> bit x ((n + 64 - unat (s mod 64)) mod 64)"
proof (cases "n < 64")
  case n: True
  define k where "k = unat (s mod 64)"
  have k: "k < 64" by (simp add: k_def unat_mod)
  have m: "(n + 64 - k) mod 64 = (if k \<le> n then n - k else n + 64 - k)"
    using n k by (auto simp: mod_if)
  have "bit (mi_rotl x s) n \<longleftrightarrow> bit x (if k \<le> n then n - k else n + 64 - k)"
    using n k bit_usize_lt [of x "n + k"] bit_usize_lt [of x "n + 64 - k"]
    by (auto simp: mi_rotl_def Let_def k_def [symmetric] bit_or_iff bit_push_bit_iff
        bit_drop_bit_eq add.commute)
  with m n show ?thesis by (simp add: k_def [symmetric])
next
  case False
  then show ?thesis using bit_usize_lt by blast
qed

lemma bit_mi_rotr:
  "bit (mi_rotr x s) n \<longleftrightarrow> n < 64 \<and> bit x ((n + unat (s mod 64)) mod 64)"
proof (cases "n < 64")
  case n: True
  define k where "k = unat (s mod 64)"
  have k: "k < 64" by (simp add: k_def unat_mod)
  have m: "(n + k) mod 64 = (if n + k < 64 then n + k else n + k - 64)"
    using n k by (auto simp: mod_if)
  have "bit (mi_rotr x s) n \<longleftrightarrow> bit x (if n + k < 64 then n + k else n + k - 64)"
    using n k bit_usize_lt [of x "n + k"] bit_usize_lt [of x "n + 64 - k"]
    by (auto simp: mi_rotr_def Let_def k_def [symmetric] bit_or_iff bit_push_bit_iff
        bit_drop_bit_eq add.commute)
  with m n show ?thesis by (simp add: k_def [symmetric])
next
  case False
  then show ?thesis using bit_usize_lt by blast
qed

lemma mi_rotr_rotl: "mi_rotr (mi_rotl x s) s = x"
proof (rule bit_eqI)
  fix n
  have k: "unat (s mod 64) < 64" by (simp add: unat_mod)
  have "((n + unat (s mod 64)) mod 64 + 64 - unat (s mod 64)) mod 64 = n" if "n < 64"
    using that k by (auto simp: mod_if)
  then show "bit (mi_rotr (mi_rotl x s) s) n \<longleftrightarrow> bit x n"
    using bit_usize_lt [of x n] by (cases "n < 64") (auto simp: bit_mi_rotr bit_mi_rotl)
qed

lemma mi_ptr_decode_encode:
  assumes "p \<noteq> null"
  shows "mi_ptr_decode null (mi_ptr_encode null p keys) keys = p"
  using assms by (auto simp: mi_ptr_decode_def mi_ptr_encode_def Let_def mi_rotr_rotl xor.assoc)

section \<open>Bit scans\<close>

lemma mi_ctz_bit: "x \<noteq> 0 \<Longrightarrow> bit x (mi_ctz x)"
  and mi_ctz_lt: "x \<noteq> 0 \<Longrightarrow> mi_ctz x < 64"
  and mi_ctz_below: "n < mi_ctz x \<Longrightarrow> \<not> bit x n"
proof -
  let ?P = "\<lambda>i. \<not> bit x i" and ?n = "length (takeWhile (\<lambda>i. \<not> bit x i) [0..<64])"
  { assume "x \<noteq> 0"
    then obtain i where i: "i < 64" "bit x i" using word_nonzero_bit [of x] by auto
    have "?n < length [0..<64]"
    proof (rule ccontr)
      assume "\<not> ?n < length [0..<64]"
      then have "takeWhile ?P [0..<64] = [0..<64]"
        by (metis length_takeWhile_le not_less nat_less_le takeWhile_eq_take take_all)
      then have "?P i" using i(1) by (metis atLeastLessThan_iff le0 set_takeWhileD set_upt)
      with i(2) show False by simp
    qed
    then show "mi_ctz x < 64" and "bit x (mi_ctz x)"
      using nth_length_takeWhile [of ?P "[0..<64]"] \<open>x \<noteq> 0\<close>
      by (simp_all add: mi_ctz_def builtin_ctzl_def) }
  show "\<not> bit x n" if "n < mi_ctz x"
  proof (cases "x = 0")
    case False
    then have n: "n < ?n" using that by (simp add: mi_ctz_def builtin_ctzl_def)
    then have "n < 64" using length_takeWhile_le [of ?P "[0..<64]"] by simp
    with n show ?thesis
      by (metis add_0 nth_mem nth_upt set_takeWhileD takeWhile_nth)
  qed simp
qed

lemma mi_clz_spec:
  assumes "x \<noteq> 0"
  shows "mi_clz x < 64" and "bit x (63 - mi_clz x)" and "63 - mi_clz x < n \<Longrightarrow> \<not> bit x n"
proof -
  let ?P = "\<lambda>i. \<not> bit x i" and ?l = "rev [0..<64::nat]"
  let ?n = "length (takeWhile ?P ?l)"
  have c: "mi_clz x = ?n" using assms by (simp add: mi_clz_def builtin_clzl_def)
  have nth: "?l ! j = 63 - j" if "j < 64" for j
    using that by (simp add: rev_nth)
  obtain i where i: "i < 64" "bit x i" using word_nonzero_bit [OF assms] by auto
  show lt: "mi_clz x < 64"
  proof (rule ccontr)
    assume "\<not> mi_clz x < 64"
    then have "takeWhile ?P ?l = ?l"
      using c by (metis length_rev length_upt diff_zero takeWhile_eq_take take_all not_less)
    then have "?P i" using i(1) by (metis atLeastLessThan_iff le0 set_rev set_takeWhileD set_upt)
    with i(2) show False by simp
  qed
  have "?n < length ?l" using lt c by simp
  then show "bit x (63 - mi_clz x)"
    using nth_length_takeWhile [of ?P ?l] nth [of ?n] lt c by simp
  show "\<not> bit x n" if "63 - mi_clz x < n"
  proof (cases "n < 64")
    case True
    then have j: "63 - n < ?n" using that lt c by arith
    then have "takeWhile ?P ?l ! (63 - n) = n" using nth [of "63 - n"] True
      by (simp add: takeWhile_nth)
    then show ?thesis using j by (metis nth_mem set_takeWhileD)
  next
    case False
    then show ?thesis using bit_usize_lt by blast
  qed
qed

lemma mi_bsr_spec:
  assumes "x \<noteq> 0"
  shows "mi_bsr x < 64" and "bit x (mi_bsr x)" and "mi_bsr x < n \<Longrightarrow> \<not> bit x n"
  using mi_clz_spec [OF assms] assms by (simp_all add: mi_bsr_def)

lemma mi_bsr_bounds:
  assumes "x \<noteq> 0"
  shows "2 ^ mi_bsr x \<le> unat x" and "unat x < 2 ^ Suc (mi_bsr x)"
proof -
  have "bit (unat x) (mi_bsr x)" using mi_bsr_spec(2) [OF assms] by (simp add: bit_unsigned_iff)
  then show "2 ^ mi_bsr x \<le> unat x"
    by (metis bit_iff_odd div_less even_zero not_le)
  have "take_bit (Suc (mi_bsr x)) (unat x) = unat x"
    by (rule bit_eqI) (use mi_bsr_spec(3) [OF assms] in
        \<open>auto simp: bit_take_bit_iff bit_unsigned_iff\<close>, metis not_less_eq)
  then show "unat x < 2 ^ Suc (mi_bsr x)" by (metis take_bit_nat_less_exp)
qed

lemma mi_bsr_eqI: "2 ^ k \<le> unat x \<Longrightarrow> unat x < 2 ^ Suc k \<Longrightarrow> mi_bsr x = k"
proof -
  assume a: "2 ^ k \<le> unat x" "unat x < 2 ^ Suc k"
  then have nz: "x \<noteq> 0" by auto
  note b = mi_bsr_bounds [OF nz]
  have "2 ^ k < (2 :: nat) ^ Suc (mi_bsr x)" using a(1) b(2) by (rule le_less_trans)
  then have "k < Suc (mi_bsr x)" by (rule power_less_imp_less_exp [rotated]) simp
  moreover have "2 ^ mi_bsr x < (2 :: nat) ^ Suc k" using b(1) a(2) by (rule le_less_trans)
  then have "mi_bsr x < Suc k" by (rule power_less_imp_less_exp [rotated]) simp
  ultimately show ?thesis by simp
qed

section \<open>The shuffle\<close>

lemma mi_random_shuffle_inj:
  assumes "x \<noteq> 0" "y \<noteq> 0" "mi_random_shuffle x = mi_random_shuffle y"
  shows "x = y"
proof -
  have i1: "(0xbf58476d1ce4e5b9 :: usize) * 0x96de1b173f119089 = 1" by simp
  have i2: "(0x94d049bb133111eb :: usize) * 0x319642b2d24d8ec3 = 1" by simp
  define a :: "usize \<Rightarrow> usize" where "a z = (z XOR drop_bit 30 z) * 0xbf58476d1ce4e5b9" for z
  define b :: "usize \<Rightarrow> usize" where "b z = (z XOR drop_bit 27 z) * 0x94d049bb133111eb" for z
  have s: "mi_random_shuffle z = b (a z) XOR drop_bit 31 (b (a z))" if "z \<noteq> 0" for z
    using that by (simp add: mi_random_shuffle_def Let_def a_def b_def)
  have "b (a x) = b (a y)"
    using assms(3) unfolding s [OF assms(1)] s [OF assms(2)] by (rule xorshift_inj [rotated]) simp
  then have "a x XOR drop_bit 27 (a x) = a y XOR drop_bit 27 (a y)"
    unfolding b_def by (rule mul_unit_inj [OF i2])
  then have "a x = a y" by (rule xorshift_inj [rotated]) simp
  then have "x XOR drop_bit 30 x = y XOR drop_bit 30 y"
    unfolding a_def by (rule mul_unit_inj [OF i1])
  then show ?thesis by (rule xorshift_inj [rotated]) simp
qed

lemma mi_random_shuffle_nonzero: "mi_random_shuffle x \<noteq> 0"
proof -
  have i1: "(0xbf58476d1ce4e5b9 :: usize) * 0x96de1b173f119089 = 1" by simp
  have i2: "(0x94d049bb133111eb :: usize) * 0x319642b2d24d8ec3 = 1" by simp
  have xs: "z XOR drop_bit k z \<noteq> 0" if "z \<noteq> 0" "0 < k" for z :: usize and k
    using xorshift_inj [OF that(2), of z 0] that(1) by auto
  have ml: "z * c \<noteq> 0" if "z \<noteq> 0" "c * c' = 1" for z c c' :: usize
    using mul_unit_inj [OF that(2), of z 0] that(1) by auto
  define z :: usize where "z = (if x = 0 then 17 else x)"
  have "z \<noteq> 0" by (simp add: z_def)
  then show ?thesis
    unfolding mi_random_shuffle_def Let_def z_def [symmetric]
    by (intro xs ml [OF _ i1] ml [OF _ i2]) simp_all
qed

section \<open>The portable bit scans\<close>

lemma mi_ctz32_table:
  "\<forall>k \<in> set [0..<32]. load mi_ctz32_debruijn ((2 ^ k * 0x077CB531) mod 2 ^ 32 div 2 ^ 27) = Some k"
  by (simp add: load_def mi_ctz32_debruijn_def upt_rec)

lemma mi_ctz32_correct:
  assumes "bit x k" "\<And>j. j < k \<Longrightarrow> \<not> bit x j"
  shows "mi_ctz32 32 x = Some k"
proof -
  have k: "k < 32" using bit_imp_le_length [OF assms(1)] by simp
  have "x \<noteq> 0" using assms(1) by auto
  moreover have "unat (x AND (- x)) = 2 ^ k"
    by (simp only: word_isolate_low_bit [OF assms] unat_exp_u32 [OF k])
  ultimately show ?thesis using mi_ctz32_table k by (simp add: mi_ctz32_def)
qed

lemma mi_clz32_table:
  "\<forall>h \<in> set [0..<32]. load mi_clz32_debruijn
     (((2 ^ Suc h - 1) * 0x07C4ACDD) mod 2 ^ 32 div 2 ^ 27) = Some (31 - h)"
  by (simp add: load_def mi_clz32_debruijn_def upt_rec)

definition mi_smear32 :: "u32 \<Rightarrow> u32" where
  "mi_smear32 x0 =
     (let x = x0 OR drop_bit 1 x0;
          x = x OR drop_bit 2 x;
          x = x OR drop_bit 4 x;
          x = x OR drop_bit 8 x
      in x OR drop_bit 16 x)"

lemma mi_smear32_mask:
  assumes "bit x h" "\<And>j. h < j \<Longrightarrow> \<not> bit x j"
  shows "mi_smear32 x = mask (Suc h)"
proof -
  have h: "h < 32" using bit_imp_le_length [OF assms(1)] by simp
  have b1: "bit x n \<longleftrightarrow> (\<exists>j < 1. bit x (n + j))" for n by simp
  note b2 = smear_step [OF b1, simplified mult_1_right]
  note b4 = smear_step [OF b2]
  note b8 = smear_step [OF b4]
  note b16 = smear_step [OF b8]
  have "bit (mi_smear32 x) n \<longleftrightarrow> (\<exists>j < 32. bit x (n + j))" for n
    unfolding mi_smear32_def Let_def using smear_step [OF b16, of n] by simp
  moreover have "(\<exists>j < 32. bit x (n + j)) \<longleftrightarrow> n \<le> h" for n
  proof
    assume "\<exists>j < 32. bit x (n + j)"
    then obtain j where "bit x (n + j)" by blast
    then have "n + j \<le> h" using assms(2) not_less by blast
    then show "n \<le> h" by simp
  next
    assume "n \<le> h"
    then have "n + (h - n) = h" "h - n < 32" using h by simp_all
    then show "\<exists>j < 32. bit x (n + j)" using assms(1) by metis
  qed
  ultimately show ?thesis using h by (intro bit_eqI) (auto simp: bit_mask_iff)
qed

lemma mi_clz32_correct:
  assumes "bit x h" "\<And>j. h < j \<Longrightarrow> \<not> bit x j" "ul_bits = 32 \<or> ul_bits = 64"
  shows "mi_clz32 ul_bits x = Some (31 - h)"
proof -
  have h: "h < 32" using bit_imp_le_length [OF assms(1)] by simp
  have nz: "x \<noteq> 0" using assms(1) by auto
  have "mi_clz32 ul_bits x = load mi_clz32_debruijn
     ((((unat (mi_smear32 x) * 0x07C4ACDD) mod 2 ^ ul_bits) mod 2 ^ 32) div 2 ^ 27)"
    using nz by (simp add: mi_clz32_def mi_smear32_def Let_def)
  also have "unat (mi_smear32 x) = 2 ^ Suc h - 1"
    using h by (simp only: mi_smear32_mask [OF assms(1,2)] unat_mask_u32 Suc_leI)
  also have "(((2 ^ Suc h - 1) * 0x07C4ACDD) mod 2 ^ ul_bits) mod 2 ^ 32
      = ((2 ^ Suc h - 1) * 0x07C4ACDD) mod (2 ^ 32 :: nat)"
    using assms(3) by (auto simp: mod_mod_cancel)
  finally show ?thesis using mi_clz32_table h by simp
qed

section \<open>Properties\<close>

lemma round_up_least:
  fixes n a :: nat
  assumes "0 < a"
  shows "n \<le> (n + a - 1) div a * a" "(n + a - 1) div a * a < n + a"
    and "a dvd m \<Longrightarrow> n \<le> m \<Longrightarrow> (n + a - 1) div a * a \<le> m"
proof -
  have e: "(n + a - 1) div a * a + (n + a - 1) mod a = n + a - 1" by simp
  have r: "(n + a - 1) mod a < a" using assms by simp
  show up: "(n + a - 1) div a * a < n + a" using e assms by linarith
  show "n \<le> (n + a - 1) div a * a" using e r by linarith
  show "(n + a - 1) div a * a \<le> m" if "a dvd m" "n \<le> m"
  proof -
    from that(1) obtain k where k: "m = a * k" by blast
    have "(n + a - 1) div a * a < (k + 1) * a" using up that(2) k by (simp add: algebra_simps)
    then have "(n + a - 1) div a < k + 1" using assms by (simp only: mult_less_cancel2)
    then have "(n + a - 1) div a * a \<le> k * a" by simp
    then show ?thesis using k by (simp add: mult.commute)
  qed
qed

text \<open>
  Rounding a size up to an alignment gives the least multiple of the alignment that is
  not below the size, on the power-of-two branch (mask) and on the division branch alike,
  whenever the sum of both fits in a size_t.
\<close>

theorem mi_align_up_least:
  assumes "a \<noteq> 0" and "unat sz + unat a \<le> 2 ^ 64"
  shows "unat a dvd unat (mi_align_up sz a) \<and> unat sz \<le> unat (mi_align_up sz a)
    \<and> unat (mi_align_up sz a) < unat sz + unat a
    \<and> (\<forall>m. unat a dvd m \<and> unat sz \<le> m \<longrightarrow> unat (mi_align_up sz a) \<le> m)"
proof -
  have "0 < unat a" using assms(1) by (simp add: unat_gt_0)
  note least = round_up_least [OF this, where n = "unat sz"]
  show ?thesis
    unfolding mi_align_up_spec [OF assms] using least by simp
qed

theorem mi_align_up_least_witness:
  "unat (8 :: usize) dvd unat (mi_align_up 13 8) \<and> mi_align_up 13 8 = 16
   \<and> mi_align_up 13 12 = 24"
  using mi_align_up_least [of 8 13] by (simp add: mi_align_up_def)

text \<open>
  The guarded multiplication of element count and element size reports an overflow
  exactly when the mathematical product does not fit in 64 bits; the total is then
  SIZE_MAX, and the exact product otherwise.
\<close>

theorem mi_count_size_overflow_exact:
  "mi_count_size_overflow count sz =
     (if unat count * unat sz \<ge> 2 ^ 64 then (True, - 1) else (False, count * sz))
   \<and> (fst (mi_count_size_overflow count sz) \<or>
      unat (snd (mi_count_size_overflow count sz)) = unat count * unat sz)"
proof -
  have "mi_count_size_overflow count sz =
     (if unat count * unat sz \<ge> 2 ^ 64 then (True, - 1) else (False, count * sz))"
    using unat_usize_lt [of sz]
    by (auto simp: mi_count_size_overflow_def mi_mul_overflow_spec)
  moreover have "unat (count * sz) = unat count * unat sz" if "unat count * unat sz < 2 ^ 64"
    using that by (simp add: unat_word_ariths(2))
  ultimately show ?thesis by (simp add: not_le)
qed

text \<open>
  a free-list pointer that was encoded with a page's keys decodes to itself, the null
  pointer included, for every choice of the two keys; the only value that cannot be told
  from NULL is the sentinel itself.
\<close>

theorem mi_ptr_encode_roundtrip:
  "mi_ptr_decode null (mi_ptr_encode null p keys) keys = (if p = null then 0 else p)"
  by (cases "p = null")
    (simp_all add: mi_ptr_decode_encode, simp add: mi_ptr_decode_def mi_ptr_encode_def
      Let_def mi_rotr_rotl xor.assoc)

text \<open>
  The splitmix shuffle never returns zero, whatever its input, and different nonzero
  seeds are shuffled to different values (it permutes the nonzero words).
\<close>

theorem mi_random_shuffle_permutes:
  "mi_random_shuffle x \<noteq> 0 \<and> inj_on mi_random_shuffle (- {0})"
  by (auto simp: mi_random_shuffle_nonzero inj_on_def dest: mi_random_shuffle_inj)

lemma lowest_bit_exists:
  fixes x :: "'a::len word"
  assumes "x \<noteq> 0"
  obtains k where "k < LENGTH('a)" "bit x k" "\<And>j. j < k \<Longrightarrow> \<not> bit x j"
proof -
  obtain i where "bit x i" using word_nonzero_bit [OF assms] by blast
  then have "bit x (LEAST k. bit x k)" by (rule LeastI)
  with that show thesis using not_less_Least bit_imp_le_length by blast
qed

lemma mi_ctz32_lp64_table:
  "\<forall>k \<in> set [0..<32]. load mi_ctz32_debruijn ((2 ^ k * 0x077CB531) mod 2 ^ 64 div 2 ^ 27)
     = (if k < 6 then Some k else None)"
  by (simp add: load_def mi_ctz32_debruijn_def upt_rec)

text \<open>
  the portable trailing-zero count agrees with the position of the lowest set bit when
  unsigned long has 32 bits; when it has 64 bits the product is not cut to 32 bits and the
  table is read out of its bounds for every word whose lowest set bit is 6 or higher.
\<close>

theorem mi_ctz32_width:
  assumes "x \<noteq> 0"
  shows "\<exists>k < 32. bit x k \<and> (\<forall>j < k. \<not> bit x j) \<and> mi_ctz32 32 x = Some k
     \<and> mi_ctz32 64 x = (if k < 6 then Some k else None)"
proof -
  obtain k where k: "k < 32" "bit x k" "\<And>j. j < k \<Longrightarrow> \<not> bit x j"
    using lowest_bit_exists [OF assms] by auto
  have "mi_ctz32 64 x = (if k < 6 then Some k else None)"
    using assms k(1) mi_ctz32_lp64_table
    by (simp add: mi_ctz32_def word_isolate_low_bit [OF k(2,3)] unat_exp_u32)
  with k mi_ctz32_correct [OF k(2,3)] show ?thesis by blast
qed

theorem mi_ctz32_width_witness: "mi_ctz32 32 64 = Some 6 \<and> mi_ctz32 64 64 = None"
proof -
  have b: "bit (64 :: u32) k \<longleftrightarrow> k = 6" for k
    using bit_exp_iff [of 6 k, where 'a = u32] by auto
  obtain k where k: "bit (64 :: u32) k" "mi_ctz32 32 64 = Some k"
      "mi_ctz32 64 64 = (if k < 6 then Some k else None)"
    using mi_ctz32_width [of 64] by auto
  then have "k = 6" using b by blast
  with k show ?thesis by simp
qed

end
