(* ===== verification/Bitmap.thy ===== *)
theory Bitmap
  imports Internal
begin

text \<open>
  mimalloc's concurrent bitmap (mimalloc/src/bitmap.c, bitmap.h): an array of machine words
  in which sequences of bits are claimed (set) and unclaimed (cleared). The functions are
  those of one thread between two interferences: an atomic operation reads and writes its
  word in one step, so a compare-and-swap that follows the load of the same word succeeds.
  A read or write outside the array is None, and so is a loop that does not end; the
  theorems show that neither happens. A function that writes *bitmap_idx returns the index
  in an option that is None where the C function returns false.
\<close>

section \<open>Indices and masks (bitmap.h, bitmap.c)\<close>

definition MI_BITMAP_FIELD_BITS :: nat where [simp]: "MI_BITMAP_FIELD_BITS = 8 * 2 ^ 3"

definition MI_BITMAP_FIELD_FULL :: usize where [simp]: "MI_BITMAP_FIELD_FULL = NOT 0"

type_synonym mi_bitmap = "usize list"

definition mi_bitmap_index_create :: "nat \<Rightarrow> nat \<Rightarrow> nat" where
  "mi_bitmap_index_create idx bitidx = idx * MI_BITMAP_FIELD_BITS + bitidx"

definition mi_bitmap_index_field :: "nat \<Rightarrow> nat" where
  "mi_bitmap_index_field bitmap_idx = bitmap_idx div MI_BITMAP_FIELD_BITS"

definition mi_bitmap_index_bit_in_field :: "nat \<Rightarrow> nat" where
  "mi_bitmap_index_bit_in_field bitmap_idx = bitmap_idx mod MI_BITMAP_FIELD_BITS"

definition mi_bitmap_index_create_from_bit :: "nat \<Rightarrow> nat" where
  "mi_bitmap_index_create_from_bit full_bitidx =
     mi_bitmap_index_create (full_bitidx div MI_BITMAP_FIELD_BITS)
       (full_bitidx mod MI_BITMAP_FIELD_BITS)"

definition mi_bitmap_mask :: "nat \<Rightarrow> nat \<Rightarrow> usize" where
  "mi_bitmap_mask count bitidx =
     (if count \<ge> MI_BITMAP_FIELD_BITS then MI_BITMAP_FIELD_FULL
      else if count = 0 then 0
      else push_bit bitidx (push_bit count 1 - 1))"

section \<open>Operations within one field\<close>

text \<open>
  The scan of _mi_bitmap_try_find_claim_field with the fast bit scan: the loop variables are
  bitidx and the shifted mask m. The result is the bit index and the new field, or no index
  when bitidx passes bitidx_max.
\<close>

partial_function (option) mi_find_claim_loop ::
    "usize \<Rightarrow> nat \<Rightarrow> nat \<Rightarrow> nat \<Rightarrow> usize \<Rightarrow> (nat \<times> usize) option option" where
  "mi_find_claim_loop mp count bitidx_max bitidx m =
     (if bitidx \<le> bitidx_max then
        let mapm = mp AND m
        in if mapm = 0 then Some (Some (bitidx, mp OR m))
           else let shift = (if count = 1 then 1 else MI_INTPTR_BITS - mi_clz mapm - bitidx)
                in mi_find_claim_loop mp count bitidx_max (bitidx + shift) (push_bit shift m)
      else Some None)"

definition mi_bitmap_try_find_claim_field ::
    "mi_bitmap \<Rightarrow> nat \<Rightarrow> nat \<Rightarrow> (nat option \<times> mi_bitmap) option" where
  "mi_bitmap_try_find_claim_field bitmap idx count = do {
     mp \<leftarrow> load bitmap idx;
     if mp = MI_BITMAP_FIELD_FULL then Some (None, bitmap)
     else do {
       let msk = mi_bitmap_mask count 0;
       let bitidx_max = MI_BITMAP_FIELD_BITS - count;
       let bitidx = mi_ctz (NOT mp);
       r \<leftarrow> mi_find_claim_loop mp count bitidx_max bitidx (push_bit bitidx msk);
       case r of
         None \<Rightarrow> Some (None, bitmap)
       | Some (bi, newmap) \<Rightarrow> do {
           bitmap' \<leftarrow> store bitmap idx newmap;
           Some (Some (mi_bitmap_index_create idx bi), bitmap') }
     }
   }"

fun mi_find_from_claim_loop ::
    "nat \<Rightarrow> mi_bitmap \<Rightarrow> nat \<Rightarrow> nat \<Rightarrow> nat \<Rightarrow> (nat option \<times> mi_bitmap) option" where
  "mi_find_from_claim_loop 0 bitmap bitmap_fields idx count = Some (None, bitmap)"
| "mi_find_from_claim_loop (Suc remaining) bitmap bitmap_fields idx count = do {
     let idx = (if idx \<ge> bitmap_fields then 0 else idx);
     (r, bitmap) \<leftarrow> mi_bitmap_try_find_claim_field bitmap idx count;
     case r of
       Some bi \<Rightarrow> Some (Some bi, bitmap)
     | None \<Rightarrow> mi_find_from_claim_loop remaining bitmap bitmap_fields (idx + 1) count
   }"

definition mi_bitmap_try_find_from_claim ::
    "mi_bitmap \<Rightarrow> nat \<Rightarrow> nat \<Rightarrow> nat \<Rightarrow> (nat option \<times> mi_bitmap) option" where
  "mi_bitmap_try_find_from_claim bitmap bitmap_fields start_field_idx count =
     mi_find_from_claim_loop bitmap_fields bitmap bitmap_fields start_field_idx count"

definition mi_bitmap_unclaim :: "mi_bitmap \<Rightarrow> nat \<Rightarrow> nat \<Rightarrow> (bool \<times> mi_bitmap) option" where
  "mi_bitmap_unclaim bitmap count bitmap_idx = do {
     let idx = mi_bitmap_index_field bitmap_idx;
     let bitidx = mi_bitmap_index_bit_in_field bitmap_idx;
     let msk = mi_bitmap_mask count bitidx;
     prev \<leftarrow> load bitmap idx;
     bitmap' \<leftarrow> store bitmap idx (prev AND NOT msk);
     Some (prev AND msk = msk, bitmap')
   }"

text \<open>The predicate pred_fn is an option: None is a null function pointer.\<close>

fun mi_find_from_claim_pred_loop ::
    "nat \<Rightarrow> mi_bitmap \<Rightarrow> nat \<Rightarrow> nat \<Rightarrow> nat \<Rightarrow> (nat \<Rightarrow> bool) option
      \<Rightarrow> (nat option \<times> mi_bitmap) option" where
  "mi_find_from_claim_pred_loop 0 bitmap bitmap_fields idx count pred_fn = Some (None, bitmap)"
| "mi_find_from_claim_pred_loop (Suc remaining) bitmap bitmap_fields idx count pred_fn = do {
     let idx = (if idx \<ge> bitmap_fields then 0 else idx);
     (r, bitmap) \<leftarrow> mi_bitmap_try_find_claim_field bitmap idx count;
     case r of
       Some bi \<Rightarrow>
         (if pred_fn = None \<or> the pred_fn bi then Some (Some bi, bitmap)
          else do {
            (_, bitmap) \<leftarrow> mi_bitmap_unclaim bitmap count bi;
            mi_find_from_claim_pred_loop remaining bitmap bitmap_fields (idx + 1) count pred_fn })
     | None \<Rightarrow>
         mi_find_from_claim_pred_loop remaining bitmap bitmap_fields (idx + 1) count pred_fn
   }"

definition mi_bitmap_try_find_from_claim_pred ::
    "mi_bitmap \<Rightarrow> nat \<Rightarrow> nat \<Rightarrow> nat \<Rightarrow> (nat \<Rightarrow> bool) option
      \<Rightarrow> (nat option \<times> mi_bitmap) option" where
  "mi_bitmap_try_find_from_claim_pred bitmap bitmap_fields start_field_idx count pred_fn =
     mi_find_from_claim_pred_loop bitmap_fields bitmap bitmap_fields start_field_idx count pred_fn"

text \<open>The result is (all were zero, any_zero, bitmap).\<close>

definition mi_bitmap_claim :: "mi_bitmap \<Rightarrow> nat \<Rightarrow> nat \<Rightarrow> (bool \<times> bool \<times> mi_bitmap) option" where
  "mi_bitmap_claim bitmap count bitmap_idx = do {
     let idx = mi_bitmap_index_field bitmap_idx;
     let bitidx = mi_bitmap_index_bit_in_field bitmap_idx;
     let msk = mi_bitmap_mask count bitidx;
     prev \<leftarrow> load bitmap idx;
     bitmap' \<leftarrow> store bitmap idx (prev OR msk);
     Some (prev AND msk = 0, prev AND msk \<noteq> msk, bitmap')
   }"

text \<open>The result is (all are one, any_ones).\<close>

definition mi_bitmap_is_claimedx :: "mi_bitmap \<Rightarrow> nat \<Rightarrow> nat \<Rightarrow> (bool \<times> bool) option" where
  "mi_bitmap_is_claimedx bitmap count bitmap_idx = do {
     let idx = mi_bitmap_index_field bitmap_idx;
     let bitidx = mi_bitmap_index_bit_in_field bitmap_idx;
     let msk = mi_bitmap_mask count bitidx;
     field \<leftarrow> load bitmap idx;
     Some (field AND msk = msk, field AND msk \<noteq> 0)
   }"

definition mi_bitmap_try_claim :: "mi_bitmap \<Rightarrow> nat \<Rightarrow> nat \<Rightarrow> (bool \<times> mi_bitmap) option" where
  "mi_bitmap_try_claim bitmap count bitmap_idx = do {
     let idx = mi_bitmap_index_field bitmap_idx;
     let bitidx = mi_bitmap_index_bit_in_field bitmap_idx;
     let msk = mi_bitmap_mask count bitidx;
     expected \<leftarrow> load bitmap idx;
     if expected AND msk \<noteq> 0 then Some (False, bitmap)
     else do {
       bitmap' \<leftarrow> store bitmap idx (expected OR msk);
       Some (True, bitmap') }
   }"

definition mi_bitmap_is_claimed :: "mi_bitmap \<Rightarrow> nat \<Rightarrow> nat \<Rightarrow> bool option" where
  "mi_bitmap_is_claimed bitmap count bitmap_idx =
     map_option fst (mi_bitmap_is_claimedx bitmap count bitmap_idx)"

definition mi_bitmap_is_any_claimed :: "mi_bitmap \<Rightarrow> nat \<Rightarrow> nat \<Rightarrow> bool option" where
  "mi_bitmap_is_any_claimed bitmap count bitmap_idx =
     map_option snd (mi_bitmap_is_claimedx bitmap count bitmap_idx)"

section \<open>Operations that cross fields\<close>

text \<open>
  The scan ahead of mi_bitmap_try_find_claim_field_across: from the field before fld with
  found bits, Some (Some (final field, final mask)) or Some None when a part is claimed.
\<close>

partial_function (option) mi_across_scan ::
    "mi_bitmap \<Rightarrow> nat \<Rightarrow> nat \<Rightarrow> nat \<Rightarrow> usize \<Rightarrow> (nat \<times> usize) option option" where
  "mi_across_scan bitmap count field found msk =
     (if found < count then do {
        mp \<leftarrow> load bitmap (field + 1);
        let mask_bits = (if found + MI_BITMAP_FIELD_BITS \<le> count then MI_BITMAP_FIELD_BITS
                         else count - found);
        let msk' = mi_bitmap_mask mask_bits 0;
        if mp AND msk' \<noteq> 0 then Some None
        else mi_across_scan bitmap count (field + 1) (found + mask_bits) msk'
      } else Some (Some (field, msk)))"

text \<open>
  The intermediate fields: a compare-and-swap from 0 to full for each field before the final
  one. The flag is False when one of them was not 0; the field reached is returned.
\<close>

function mi_across_claim_mid :: "mi_bitmap \<Rightarrow> nat \<Rightarrow> nat \<Rightarrow> (bool \<times> nat \<times> mi_bitmap) option" where
  "mi_across_claim_mid bitmap field final_field =
     (if field < final_field then do {
        mp \<leftarrow> load bitmap field;
        if mp \<noteq> 0 then Some (False, field, bitmap)
        else do {
          bitmap \<leftarrow> store bitmap field MI_BITMAP_FIELD_FULL;
          mi_across_claim_mid bitmap (field + 1) final_field }
      } else Some (True, field, bitmap))"
  by pat_completeness auto
termination
  by (relation "measure (\<lambda>(bitmap, field, final_field). final_field - field)") auto

declare mi_across_claim_mid.simps [simp del]

text \<open>The rollback: intermediate fields are reset to 0, then the initial mask is cleared.\<close>

fun mi_across_rollback :: "mi_bitmap \<Rightarrow> nat \<Rightarrow> nat \<Rightarrow> usize \<Rightarrow> mi_bitmap option" where
  "mi_across_rollback bitmap 0 initial_field initial_mask = Some bitmap"
| "mi_across_rollback bitmap (Suc field) initial_field initial_mask =
     (if field > initial_field then do {
        bitmap \<leftarrow> store bitmap field 0;
        mi_across_rollback bitmap field initial_field initial_mask }
      else if field = initial_field then do {
        mp \<leftarrow> load bitmap field;
        store bitmap field (mp AND NOT initial_mask) }
      else Some bitmap)"

text \<open>
  One attempt: Inl is a result, Inr the bitmap after a rollback (the code then retries).
  The parameter env is what other threads do to the bitmap between the scan ahead and the
  first compare-and-swap: the reason why the code checks the bits again and may roll back.
\<close>

type_synonym mi_env = "mi_bitmap \<Rightarrow> mi_bitmap"

definition mi_try_find_claim_field_across_once ::
    "mi_env \<Rightarrow> mi_bitmap \<Rightarrow> nat \<Rightarrow> nat \<Rightarrow> nat
      \<Rightarrow> ((nat option \<times> mi_bitmap) + mi_bitmap) option" where
  "mi_try_find_claim_field_across_once env bitmap bitmap_fields idx count = do {
     mp \<leftarrow> load bitmap idx;
     let initial = mi_clz mp;
     if initial = 0 then Some (Inl (None, bitmap))
     else if initial \<ge> count then
       map_option Inl (mi_bitmap_try_find_claim_field bitmap idx count)
     else if unat (mi_divide_up (of_nat (count - initial)) (of_nat MI_BITMAP_FIELD_BITS))
               \<ge> bitmap_fields - idx
       then Some (Inl (None, bitmap))
     else do {
       scan \<leftarrow> mi_across_scan bitmap count idx initial 0;
       case scan of
         None \<Rightarrow> Some (Inl (None, bitmap))
       | Some (final_field, final_mask) \<Rightarrow> do {
           let initial_idx = MI_BITMAP_FIELD_BITS - initial;
           let initial_mask = mi_bitmap_mask initial initial_idx;
           let bitmap = env bitmap;
           mp \<leftarrow> load bitmap idx;
           if mp AND initial_mask \<noteq> 0 then
             map_option Inr (mi_across_rollback bitmap idx idx initial_mask)
           else do {
             bitmap \<leftarrow> store bitmap idx (mp OR initial_mask);
             (ok, field, bitmap) \<leftarrow> mi_across_claim_mid bitmap (idx + 1) final_field;
             if \<not> ok then map_option Inr (mi_across_rollback bitmap field idx initial_mask)
             else do {
               mp \<leftarrow> load bitmap field;
               if mp AND final_mask \<noteq> 0 then
                 map_option Inr (mi_across_rollback bitmap field idx initial_mask)
               else do {
                 bitmap \<leftarrow> store bitmap field (mp OR final_mask);
                 Some (Inl (Some (mi_bitmap_index_create idx initial_idx), bitmap)) }
             }
           }
         }
     }
   }"

text \<open>The interference of each attempt is given by the number of retries before it.\<close>

function mi_bitmap_try_find_claim_field_across ::
    "(nat \<Rightarrow> mi_env) \<Rightarrow> mi_bitmap \<Rightarrow> nat \<Rightarrow> nat \<Rightarrow> nat \<Rightarrow> nat \<Rightarrow> (nat option \<times> mi_bitmap) option" where
  "mi_bitmap_try_find_claim_field_across env bitmap bitmap_fields idx count retries =
     (case mi_try_find_claim_field_across_once (env retries) bitmap bitmap_fields idx count of
        None \<Rightarrow> None
      | Some (Inl r) \<Rightarrow> Some r
      | Some (Inr bitmap') \<Rightarrow>
          (if retries \<le> 2 then
             mi_bitmap_try_find_claim_field_across env bitmap' bitmap_fields idx count (retries + 1)
           else Some (None, bitmap')))"
  by pat_completeness auto
termination
  by (relation "measure (\<lambda>(env, bitmap, bitmap_fields, idx, count, retries). 3 - retries)") auto

declare mi_bitmap_try_find_claim_field_across.simps [simp del]

fun mi_find_from_claim_across_loop ::
    "nat \<Rightarrow> (nat \<Rightarrow> nat \<Rightarrow> mi_env) \<Rightarrow> mi_bitmap \<Rightarrow> nat \<Rightarrow> nat \<Rightarrow> nat \<Rightarrow> (nat option \<times> mi_bitmap) option" where
  "mi_find_from_claim_across_loop 0 env bitmap bitmap_fields idx count = Some (None, bitmap)"
| "mi_find_from_claim_across_loop (Suc remaining) env bitmap bitmap_fields idx count = do {
     let idx = (if idx \<ge> bitmap_fields then 0 else idx);
     (r, bitmap) \<leftarrow> (if count \<le> MI_BITMAP_FIELD_BITS
                       then mi_bitmap_try_find_claim_field bitmap idx count
                       else Some (None, bitmap));
     case r of
       Some bi \<Rightarrow> Some (Some bi, bitmap)
     | None \<Rightarrow> do {
         (r, bitmap) \<leftarrow> mi_bitmap_try_find_claim_field_across (env idx) bitmap bitmap_fields idx count 0;
         case r of
           Some bi \<Rightarrow> Some (Some bi, bitmap)
         | None \<Rightarrow> mi_find_from_claim_across_loop remaining env bitmap bitmap_fields (idx + 1) count }
   }"

definition mi_bitmap_try_find_from_claim_across ::
    "(nat \<Rightarrow> nat \<Rightarrow> mi_env) \<Rightarrow> mi_bitmap \<Rightarrow> nat \<Rightarrow> nat \<Rightarrow> nat \<Rightarrow> (nat option \<times> mi_bitmap) option" where
  "mi_bitmap_try_find_from_claim_across env bitmap bitmap_fields start_field_idx count =
     (if count \<le> 2 then mi_bitmap_try_find_from_claim bitmap bitmap_fields start_field_idx count
      else mi_find_from_claim_across_loop bitmap_fields env bitmap bitmap_fields start_field_idx count)"

text \<open>The result is (mid_count, pre_mask, mid_mask, post_mask).\<close>

definition mi_bitmap_mask_across :: "nat \<Rightarrow> nat \<Rightarrow> nat \<times> usize \<times> usize \<times> usize" where
  "mi_bitmap_mask_across bitmap_idx count =
     (let bitidx = mi_bitmap_index_bit_in_field bitmap_idx
      in if bitidx + count \<le> MI_BITMAP_FIELD_BITS then (0, mi_bitmap_mask count bitidx, 0, 0)
         else let pre_bits = MI_BITMAP_FIELD_BITS - bitidx;
                  pre_mask = mi_bitmap_mask pre_bits bitidx;
                  count' = count - pre_bits;
                  mid_count = count' div MI_BITMAP_FIELD_BITS;
                  rest = count' mod MI_BITMAP_FIELD_BITS;
                  post_mask = (if rest = 0 then 0 else mi_bitmap_mask rest 0)
              in (mid_count, pre_mask, MI_BITMAP_FIELD_FULL, post_mask))"

text \<open>
  The three across operations visit the same fields: one with pre_mask, mid_count with
  mid_mask, and one with post_mask unless that is 0.
\<close>

definition mi_across_masks :: "nat \<Rightarrow> nat \<Rightarrow> usize list" where
  "mi_across_masks bitmap_idx count =
     (case mi_bitmap_mask_across bitmap_idx count of
        (mid_count, pre_mask, mid_mask, post_mask) \<Rightarrow>
          pre_mask # replicate mid_count mid_mask @ (if post_mask \<noteq> 0 then [post_mask] else []))"

fun mi_unclaim_fields :: "mi_bitmap \<Rightarrow> nat \<Rightarrow> usize list \<Rightarrow> bool \<Rightarrow> (bool \<times> mi_bitmap) option" where
  "mi_unclaim_fields bitmap field [] all_one = Some (all_one, bitmap)"
| "mi_unclaim_fields bitmap field (msk # ms) all_one = do {
     prev \<leftarrow> load bitmap field;
     bitmap \<leftarrow> store bitmap field (prev AND NOT msk);
     mi_unclaim_fields bitmap (field + 1) ms (if prev AND msk \<noteq> msk then False else all_one)
   }"

definition mi_bitmap_unclaim_across :: "mi_bitmap \<Rightarrow> nat \<Rightarrow> nat \<Rightarrow> (bool \<times> mi_bitmap) option" where
  "mi_bitmap_unclaim_across bitmap count bitmap_idx =
     mi_unclaim_fields bitmap (mi_bitmap_index_field bitmap_idx)
       (mi_across_masks bitmap_idx count) True"

fun mi_claim_fields ::
    "mi_bitmap \<Rightarrow> nat \<Rightarrow> usize list \<Rightarrow> bool \<Rightarrow> bool \<Rightarrow> (bool \<times> bool \<times> mi_bitmap) option" where
  "mi_claim_fields bitmap field [] all_zero any_zero = Some (all_zero, any_zero, bitmap)"
| "mi_claim_fields bitmap field (msk # ms) all_zero any_zero = do {
     prev \<leftarrow> load bitmap field;
     bitmap \<leftarrow> store bitmap field (prev OR msk);
     mi_claim_fields bitmap (field + 1) ms
       (if prev AND msk \<noteq> 0 then False else all_zero)
       (if prev AND msk \<noteq> msk then True else any_zero)
   }"

definition mi_bitmap_claim_across ::
    "mi_bitmap \<Rightarrow> nat \<Rightarrow> nat \<Rightarrow> (bool \<times> bool \<times> mi_bitmap) option" where
  "mi_bitmap_claim_across bitmap count bitmap_idx =
     mi_claim_fields bitmap (mi_bitmap_index_field bitmap_idx)
       (mi_across_masks bitmap_idx count) True False"

fun mi_is_claimed_fields ::
    "mi_bitmap \<Rightarrow> nat \<Rightarrow> usize list \<Rightarrow> bool \<Rightarrow> bool \<Rightarrow> (bool \<times> bool) option" where
  "mi_is_claimed_fields bitmap field [] all_ones any_ones = Some (all_ones, any_ones)"
| "mi_is_claimed_fields bitmap field (msk # ms) all_ones any_ones = do {
     prev \<leftarrow> load bitmap field;
     mi_is_claimed_fields bitmap (field + 1) ms
       (if prev AND msk \<noteq> msk then False else all_ones)
       (if prev AND msk \<noteq> 0 then True else any_ones)
   }"

definition mi_bitmap_is_claimedx_across :: "mi_bitmap \<Rightarrow> nat \<Rightarrow> nat \<Rightarrow> (bool \<times> bool) option" where
  "mi_bitmap_is_claimedx_across bitmap count bitmap_idx =
     mi_is_claimed_fields bitmap (mi_bitmap_index_field bitmap_idx)
       (mi_across_masks bitmap_idx count) True False"

definition mi_bitmap_is_claimed_across :: "mi_bitmap \<Rightarrow> nat \<Rightarrow> nat \<Rightarrow> bool option" where
  "mi_bitmap_is_claimed_across bitmap count bitmap_idx =
     map_option fst (mi_bitmap_is_claimedx_across bitmap count bitmap_idx)"

definition mi_bitmap_is_any_claimed_across :: "mi_bitmap \<Rightarrow> nat \<Rightarrow> nat \<Rightarrow> bool option" where
  "mi_bitmap_is_any_claimed_across bitmap count bitmap_idx =
     map_option snd (mi_bitmap_is_claimedx_across bitmap count bitmap_idx)"

section \<open>The set of claimed bits\<close>

definition claimed :: "mi_bitmap \<Rightarrow> nat set" where
  "claimed bm = {b. b div 64 < length bm \<and> bit (bm ! (b div 64)) (b mod 64)}"

definition field_free :: "usize \<Rightarrow> nat \<Rightarrow> nat \<Rightarrow> bool" where
  "field_free w p count \<longleftrightarrow> (\<forall>n. p \<le> n \<and> n < p + count \<longrightarrow> \<not> bit w n)"

lemma claimed_iff: "b \<in> claimed bm \<longleftrightarrow> b div 64 < length bm \<and> bit (bm ! (b div 64)) (b mod 64)"
  by (simp add: claimed_def)

lemma claimed_update:
  "b \<in> claimed (bm[i := w]) \<longleftrightarrow> b div 64 < length bm \<and>
     (if b div 64 = i then bit w (b mod 64) else bit (bm ! (b div 64)) (b mod 64))"
  by (auto simp: claimed_iff nth_list_update)

lemma bit_mi_bitmap_mask [word_bits]:
  assumes "bitidx + count \<le> 64"
  shows "bit (mi_bitmap_mask count bitidx) n \<longleftrightarrow> bitidx \<le> n \<and> n < bitidx + count"
proof -
  have m: "push_bit count 1 - 1 = (mask count :: usize)"
    by (simp add: mask_eq_exp_minus_1 push_bit_eq_mult)
  show ?thesis
  proof (cases "count \<ge> 64")
    case True
    then have "count = 64" "bitidx = 0" using assms by simp_all
    then show ?thesis by (simp add: mi_bitmap_mask_def bit_minus_one_usize)
  next
    case False
    then show ?thesis using assms
      by (auto simp: mi_bitmap_mask_def m bit_push_mask simp del: push_bit_of_1)
  qed
qed

lemma mi_bitmap_mask_shift:
  "0 < count \<Longrightarrow> count \<le> 64 \<Longrightarrow> p + count \<le> 64 \<Longrightarrow>
    push_bit p (mi_bitmap_mask count 0) = mi_bitmap_mask count p"
  by (rule bit_eqI) (auto simp: bit_push_bit_iff bit_mi_bitmap_mask)

lemma field_free_mask:
  "p + count \<le> 64 \<Longrightarrow> w AND mi_bitmap_mask count p = 0 \<longleftrightarrow> field_free w p count"
  by (auto simp: word_and_eq_zero_iff bit_mi_bitmap_mask field_free_def dest: bit_usize_lt)

section \<open>The scan of one field\<close>

lemma mi_find_claim_loop_spec:
  assumes "0 < count" "count \<le> 64" "bitidx \<le> 64"
  shows "\<exists>r. mi_find_claim_loop w count (64 - count) bitidx (push_bit bitidx (mi_bitmap_mask count 0)) = Some r
    \<and> (case r of
         None \<Rightarrow> \<forall>p. bitidx \<le> p \<and> p + count \<le> 64 \<longrightarrow> \<not> field_free w p count
       | Some (p, nw) \<Rightarrow> bitidx \<le> p \<and> p + count \<le> 64 \<and> field_free w p count
           \<and> nw = w OR mi_bitmap_mask count p
           \<and> (\<forall>q. bitidx \<le> q \<and> q < p \<longrightarrow> \<not> field_free w q count))"
  using assms
proof (induction "64 - bitidx" arbitrary: bitidx rule: less_induct)
  case less
  let ?m = "push_bit bitidx (mi_bitmap_mask count 0)"
  show ?case
  proof (cases "bitidx \<le> 64 - count")
    case False
    then show ?thesis using less.prems by (subst mi_find_claim_loop.simps) auto
  next
    case in_range: True
    then have fits: "bitidx + count \<le> 64" using less.prems by simp
    have m: "?m = mi_bitmap_mask count bitidx"
      using mi_bitmap_mask_shift [OF less.prems(1,2) fits] .
    show ?thesis
    proof (cases "w AND ?m = 0")
      case True
      then have "field_free w bitidx count" using field_free_mask [OF fits] m by simp
      then show ?thesis using True in_range fits m
        by (subst mi_find_claim_loop.simps) (auto simp: Let_def)
    next
      case False
      define h where "h = 63 - mi_clz (w AND ?m)"
      have c: "mi_clz (w AND ?m) < 64" using mi_clz_spec(1) [OF False] .
      have "bit (w AND ?m) h" unfolding h_def by (rule mi_clz_spec(2) [OF False])
      then have h: "bit w h" "bitidx \<le> h" "h < bitidx + count"
        by (simp_all add: bit_and_iff m bit_mi_bitmap_mask [OF fits])
      define shift where "shift = (if count = 1 then 1 else MI_INTPTR_BITS - mi_clz (w AND ?m) - bitidx)"
      have shift: "bitidx + shift = Suc h" using h c by (auto simp: shift_def h_def)
      have busy: "\<not> field_free w q count" if "bitidx \<le> q" "q < Suc h" for q
        using that h by (auto simp: field_free_def intro!: exI [of _ h])
      have push: "push_bit shift ?m = push_bit (Suc h) (mi_bitmap_mask count 0)"
        using shift by (metis push_bit_push_bit add.commute)
      have "mi_find_claim_loop w count (64 - count) bitidx ?m
          = mi_find_claim_loop w count (64 - count) (bitidx + shift) (push_bit shift ?m)"
        using False in_range
        by (subst mi_find_claim_loop.simps) (simp only: Let_def shift_def if_True if_False)
      then have eq: "mi_find_claim_loop w count (64 - count) bitidx ?m
          = mi_find_claim_loop w count (64 - count) (Suc h) (push_bit (Suc h) (mi_bitmap_mask count 0))"
        by (simp only: shift push)
      have "64 - Suc h < 64 - bitidx" "Suc h \<le> 64" using h fits by simp_all
      from less.hyps [OF this(1) less.prems(1,2) this(2)] obtain r where
        r: "mi_find_claim_loop w count (64 - count) (Suc h) (push_bit (Suc h) (mi_bitmap_mask count 0)) = Some r"
        and post: "case r of
         None \<Rightarrow> \<forall>p. Suc h \<le> p \<and> p + count \<le> 64 \<longrightarrow> \<not> field_free w p count
       | Some (p, nw) \<Rightarrow> Suc h \<le> p \<and> p + count \<le> 64 \<and> field_free w p count
           \<and> nw = w OR mi_bitmap_mask count p
           \<and> (\<forall>q. Suc h \<le> q \<and> q < p \<longrightarrow> \<not> field_free w q count)" by blast
      show ?thesis
      proof (cases r)
        case None
        have "\<not> field_free w p count" if "bitidx \<le> p" "p + count \<le> 64" for p
          using that post busy None by (cases "p < Suc h") auto
        then show ?thesis using None r eq by auto
      next
        case (Some pn)
        obtain p nw where pn: "pn = (p, nw)" by fastforce
        have "\<not> field_free w q count" if "bitidx \<le> q" "q < p" for q
          using that post busy Some pn by (cases "q < Suc h") auto
        then show ?thesis using Some pn post r eq h by auto
      qed
    qed
  qed
qed

section \<open>One field: claim, unclaim, query\<close>

lemma range_in_field:
  fixes bi b :: nat
  assumes "bi mod 64 + count \<le> 64"
  shows "b \<in> {bi..<bi + count} \<longleftrightarrow>
    b div 64 = bi div 64 \<and> bi mod 64 \<le> b mod 64 \<and> b mod 64 < bi mod 64 + count"
proof -
  have e: "bi = 64 * (bi div 64) + bi mod 64" "b = 64 * (b div 64) + b mod 64" by simp_all
  have "b mod 64 < 64" "bi mod 64 < 64" by simp_all
  show ?thesis
  proof
    assume "b \<in> {bi..<bi + count}"
    then have "bi \<le> b" "b < bi + count" by simp_all
    then have "b div 64 = bi div 64" using e assms \<open>b mod 64 < 64\<close> by linarith
    then show "b div 64 = bi div 64 \<and> bi mod 64 \<le> b mod 64 \<and> b mod 64 < bi mod 64 + count"
      using e \<open>bi \<le> b\<close> \<open>b < bi + count\<close> by linarith
  next
    assume "b div 64 = bi div 64 \<and> bi mod 64 \<le> b mod 64 \<and> b mod 64 < bi mod 64 + count"
    then have q: "b div 64 = bi div 64" "bi mod 64 \<le> b mod 64" "b mod 64 < bi mod 64 + count"
      by blast+
    have "bi \<le> b" "b < bi + count" using e(1) e(2) [unfolded q(1)] q(2,3) by linarith+
    then show "b \<in> {bi..<bi + count}" by simp
  qed
qed

lemma range_bit_mask:
  assumes "bi mod 64 + count \<le> 64"
  shows "b \<in> {bi..<bi + count} \<longleftrightarrow>
    b div 64 = bi div 64 \<and> bit (mi_bitmap_mask count (bi mod 64)) (b mod 64)"
  using range_in_field [OF assms] bit_mi_bitmap_mask [OF assms] by blast

lemma claimed_or:
  assumes "bi mod 64 + count \<le> 64" "bi div 64 < length bm"
  shows "claimed (bm[bi div 64 := bm ! (bi div 64) OR mi_bitmap_mask count (bi mod 64)])
     = claimed bm \<union> {bi..<bi + count}"
proof (rule set_eqI)
  fix b
  show "b \<in> claimed (bm[bi div 64 := bm ! (bi div 64) OR mi_bitmap_mask count (bi mod 64)])
    \<longleftrightarrow> b \<in> claimed bm \<union> {bi..<bi + count}"
    unfolding claimed_update using assms(2) by (auto simp: range_bit_mask [OF assms(1)] claimed_iff bit_or_iff
        simp del: atLeastLessThan_iff)
qed

lemma claimed_and_not:
  assumes "bi mod 64 + count \<le> 64" "bi div 64 < length bm"
  shows "claimed (bm[bi div 64 := bm ! (bi div 64) AND NOT (mi_bitmap_mask count (bi mod 64))])
     = claimed bm - {bi..<bi + count}"
proof (rule set_eqI)
  fix b :: nat
  have "b mod 64 < 64" by simp
  then show "b \<in> claimed (bm[bi div 64 := bm ! (bi div 64) AND NOT (mi_bitmap_mask count (bi mod 64))])
    \<longleftrightarrow> b \<in> claimed bm - {bi..<bi + count}"
    unfolding claimed_update using assms(2) by (auto simp: range_bit_mask [OF assms(1)] claimed_iff
        bit_and_iff bit_not_iff simp del: atLeastLessThan_iff)
qed

lemma field_bits_in_range:
  assumes "bi mod 64 + count \<le> 64" "bi div 64 < length bm" "n < 64"
  shows "bit (mi_bitmap_mask count (bi mod 64)) n \<longleftrightarrow> 64 * (bi div 64) + n \<in> {bi..<bi + count}"
    and "bit (bm ! (bi div 64)) n \<longleftrightarrow> 64 * (bi div 64) + n \<in> claimed bm"
  using range_bit_mask [OF assms(1), of "64 * (bi div 64) + n"] assms(2,3)
  by (simp_all add: claimed_iff div_add1_eq [of "64 * _"] mod_add_eq)

lemma range_to_field:
  assumes "bi mod 64 + count \<le> 64"
  shows "(\<forall>b \<in> {bi..<bi + count}. P b) \<longleftrightarrow>
     (\<forall>n < 64. bit (mi_bitmap_mask count (bi mod 64)) n \<longrightarrow> P (64 * (bi div 64) + n))"
proof -
  have "b = 64 * (bi div 64) + b mod 64" if "b div 64 = bi div 64" for b
    using that by (metis mult_div_mod_eq)
  then have "\<exists>n < 64. bit (mi_bitmap_mask count (bi mod 64)) n \<and> b = 64 * (bi div 64) + n"
    if "b \<in> {bi..<bi + count}" for b
    using that unfolding range_bit_mask [OF assms]
    by (intro exI [of _ "b mod 64"]) auto
  moreover have "64 * (bi div 64) + n \<in> {bi..<bi + count}"
    if "n < 64" "bit (mi_bitmap_mask count (bi mod 64)) n" for n
    using that unfolding range_bit_mask [OF assms] by (simp add: div_add1_eq [of "64 * _"] mod_add_eq)
  ultimately show ?thesis by blast
qed

lemma and_mask_zero_iff:
  assumes "bi mod 64 + count \<le> 64" "bi div 64 < length bm"
  shows "bm ! (bi div 64) AND mi_bitmap_mask count (bi mod 64) = 0 \<longleftrightarrow>
     claimed bm \<inter> {bi..<bi + count} = {}"
proof -
  have "claimed bm \<inter> {bi..<bi + count} = {} \<longleftrightarrow> (\<forall>b \<in> {bi..<bi + count}. b \<notin> claimed bm)" by blast
  then show ?thesis unfolding range_to_field [OF assms(1)] word_and_eq_zero_iff
    using field_bits_in_range(2) [OF assms] by auto
qed

lemma and_mask_full_iff:
  assumes "bi mod 64 + count \<le> 64" "bi div 64 < length bm"
  shows "bm ! (bi div 64) AND mi_bitmap_mask count (bi mod 64) = mi_bitmap_mask count (bi mod 64) \<longleftrightarrow>
     {bi..<bi + count} \<subseteq> claimed bm"
proof -
  have "{bi..<bi + count} \<subseteq> claimed bm \<longleftrightarrow> (\<forall>b \<in> {bi..<bi + count}. b \<in> claimed bm)" by blast
  then show ?thesis unfolding range_to_field [OF assms(1)] word_and_eq_iff
    using field_bits_in_range(2) [OF assms] by auto
qed

lemmas field_ops = mi_bitmap_index_field_def mi_bitmap_index_bit_in_field_def Let_def
  and_mask_zero_iff and_mask_full_iff claimed_or claimed_and_not mem_simps

lemma mi_bitmap_claim_spec:
  assumes "bi mod 64 + count \<le> 64" "bi div 64 < length bm"
  obtains bm' where
    "mi_bitmap_claim bm count bi =
       Some (claimed bm \<inter> {bi..<bi + count} = {}, \<not> {bi..<bi + count} \<subseteq> claimed bm, bm')"
    "claimed bm' = claimed bm \<union> {bi..<bi + count}" "length bm' = length bm"
  using that assms by (simp add: mi_bitmap_claim_def field_ops)

lemma mi_bitmap_unclaim_spec:
  assumes "bi mod 64 + count \<le> 64" "bi div 64 < length bm"
  obtains bm' where "mi_bitmap_unclaim bm count bi = Some ({bi..<bi + count} \<subseteq> claimed bm, bm')"
    "claimed bm' = claimed bm - {bi..<bi + count}" "length bm' = length bm"
  using that assms by (simp add: mi_bitmap_unclaim_def field_ops)

lemma mi_bitmap_is_claimedx_spec:
  assumes "bi mod 64 + count \<le> 64" "bi div 64 < length bm"
  shows "mi_bitmap_is_claimedx bm count bi =
     Some ({bi..<bi + count} \<subseteq> claimed bm, claimed bm \<inter> {bi..<bi + count} \<noteq> {})"
  using assms by (simp add: mi_bitmap_is_claimedx_def field_ops)

lemma mi_bitmap_try_claim_spec:
  assumes "bi mod 64 + count \<le> 64" "bi div 64 < length bm"
  obtains bm' where
    "mi_bitmap_try_claim bm count bi = Some (claimed bm \<inter> {bi..<bi + count} = {}, bm')"
    "claimed bm' = (if claimed bm \<inter> {bi..<bi + count} = {} then claimed bm \<union> {bi..<bi + count}
                    else claimed bm)" "length bm' = length bm"
  using that assms by (cases "claimed bm \<inter> {bi..<bi + count} = {}")
    (simp_all add: mi_bitmap_try_claim_def field_ops)

lemma claimed_inject: "claimed bm = claimed bm' \<Longrightarrow> length bm = length bm' \<Longrightarrow> bm = bm'"
proof (rule nth_equalityI)
  fix i
  assume eq: "claimed bm = claimed bm'" and len: "length bm = length bm'" and i: "i < length bm"
  show "bm ! i = bm' ! i"
  proof (rule bit_eqI)
    fix n
    show "bit (bm ! i) n = bit (bm' ! i) n"
    proof (cases "n < 64")
      case True
      then have "64 * i + n \<in> claimed bm \<longleftrightarrow> bit (bm ! i) n" "64 * i + n \<in> claimed bm' \<longleftrightarrow> bit (bm' ! i) n"
        using i len by (simp_all add: claimed_iff div_add1_eq [of "64 * _"] mod_add_eq)
      then show ?thesis using eq by simp
    next
      case False
      then show ?thesis using bit_usize_lt by blast
    qed
  qed
qed

text \<open>No free sequence of count bits lies within field i.\<close>

definition field_full :: "mi_bitmap \<Rightarrow> nat \<Rightarrow> nat \<Rightarrow> bool" where
  "field_full bm i count \<longleftrightarrow>
     (\<forall>p. p + count \<le> 64 \<longrightarrow> claimed bm \<inter> {64 * i + p..<64 * i + p + count} \<noteq> {})"

lemma field_free_range:
  assumes "p + count \<le> 64" "0 < count" "i < length bm"
  shows "field_free (bm ! i) p count \<longleftrightarrow> claimed bm \<inter> {64 * i + p..<64 * i + p + count} = {}"
proof -
  have p: "p < 64" using assms by simp
  then show ?thesis
    using and_mask_zero_iff [of "64 * i + p" count bm] assms field_free_mask [OF assms(1)]
    by (simp add: div_add1_eq [of "64 * _"] mod_add_eq)
qed

lemma mi_bitmap_try_find_claim_field_spec:
  assumes "idx < length bm" "0 < count" "count \<le> 64"
  shows "\<exists>r bm'. mi_bitmap_try_find_claim_field bm idx count = Some (r, bm') \<and> length bm' = length bm
    \<and> (case r of
         None \<Rightarrow> bm' = bm \<and> field_full bm idx count
       | Some bi \<Rightarrow> bi div 64 = idx \<and> bi mod 64 + count \<le> 64
           \<and> claimed bm \<inter> {bi..<bi + count} = {} \<and> claimed bm' = claimed bm \<union> {bi..<bi + count}
           \<and> (\<forall>q < bi mod 64. claimed bm \<inter> {64 * idx + q..<64 * idx + q + count} \<noteq> {}))"
proof (cases "bm ! idx = MI_BITMAP_FIELD_FULL")
  case True
  then have "\<not> field_free (bm ! idx) p count" if "p + count \<le> 64" for p
    using that assms by (auto simp: field_free_def bit_minus_one_usize intro!: exI [of _ p])
  then have "field_full bm idx count" unfolding field_full_def
    using assms field_free_range [of _ count idx bm] by blast
  then show ?thesis using True assms
    by (simp add: mi_bitmap_try_find_claim_field_def mem_simps)
next
  case False
  define b0 where "b0 = mi_ctz (NOT (bm ! idx))"
  have nz: "NOT (bm ! idx) \<noteq> 0" using False by (metis MI_BITMAP_FIELD_FULL_def bit.double_compl)
  have b0: "b0 < 64" using mi_ctz_lt [OF nz] by (simp add: b0_def)
  have below: "bit (bm ! idx) n" if "n < b0" for n
    using mi_ctz_below [of n "NOT (bm ! idx)"] that b0 by (auto simp: b0_def bit_not_iff)
  have busy: "claimed bm \<inter> {64 * idx + q..<64 * idx + q + count} \<noteq> {}" if "q < b0" "q + count \<le> 64" for q
    using below [OF that(1)] assms field_free_range [OF that(2) assms(2,1)] by (auto simp: field_free_def)
  obtain r where r: "mi_find_claim_loop (bm ! idx) count (64 - count) b0
        (push_bit b0 (mi_bitmap_mask count 0)) = Some r"
    and post: "case r of None \<Rightarrow> \<forall>p. b0 \<le> p \<and> p + count \<le> 64 \<longrightarrow> \<not> field_free (bm ! idx) p count
       | Some (p, nw) \<Rightarrow> b0 \<le> p \<and> p + count \<le> 64 \<and> field_free (bm ! idx) p count
           \<and> nw = bm ! idx OR mi_bitmap_mask count p
           \<and> (\<forall>q. b0 \<le> q \<and> q < p \<longrightarrow> \<not> field_free (bm ! idx) q count)"
    using mi_find_claim_loop_spec [OF assms(2,3), of b0 "bm ! idx"] b0 by auto
  show ?thesis
  proof (cases r)
    case None
    have "claimed bm \<inter> {64 * idx + p..<64 * idx + p + count} \<noteq> {}" if "p + count \<le> 64" for p
      using that busy [of p] post None field_free_range [OF that assms(2,1)] by (cases "p < b0") auto
    then have "field_full bm idx count" by (simp add: field_full_def)
    then show ?thesis using False assms r None
      by (simp add: mi_bitmap_try_find_claim_field_def mem_simps Let_def b0_def [symmetric])
  next
    case (Some pn)
    obtain p nw where pn: "pn = (p, nw)" by fastforce
    have p: "b0 \<le> p" "p + count \<le> 64" "field_free (bm ! idx) p count"
        "nw = bm ! idx OR mi_bitmap_mask count p"
      using post Some pn by simp_all
    have p64: "p < 64" using p assms by simp
    define bi where "bi = 64 * idx + p"
    have bi: "bi div 64 = idx" "bi mod 64 = p" using p64 by (simp_all add: bi_def)
    have first: "claimed bm \<inter> {64 * idx + q..<64 * idx + q + count} \<noteq> {}" if "q < p" for q
      using that busy [of q] post Some pn p field_free_range [OF _ assms(2,1), of q]
      by (cases "q < b0") auto
    have "claimed bm \<inter> {bi..<bi + count} = {}"
      using p(3) field_free_range [OF p(2) assms(2,1)] by (simp add: bi_def)
    moreover have "claimed (bm[idx := nw]) = claimed bm \<union> {bi..<bi + count}"
      using claimed_or [of bi count bm] p bi assms(1) by simp
    moreover have "mi_bitmap_try_find_claim_field bm idx count = Some (Some bi, bm[idx := nw])"
      using False assms r Some pn
      by (simp add: mi_bitmap_try_find_claim_field_def mem_simps Let_def b0_def [symmetric]
          mi_bitmap_index_create_def bi_def)
    ultimately show ?thesis using bi p first by simp
  qed
qed

section \<open>The search over all fields\<close>

text \<open>The fields that n iterations visit, from idx with wrap-around.\<close>

definition visited :: "nat \<Rightarrow> nat \<Rightarrow> nat \<Rightarrow> nat set" where
  "visited n fields idx = {((if idx \<ge> fields then 0 else idx) + k) mod fields | k. k < n}"

lemma visited_Suc:
  assumes "0 < fields"
  shows "visited (Suc n) fields idx =
     insert (if idx \<ge> fields then 0 else idx) (visited n fields ((if idx \<ge> fields then 0 else idx) + 1))"
proof -
  define i where "i = (if idx \<ge> fields then 0 else idx)"
  have i: "i < fields" using assms by (simp add: i_def)
  have step: "((if i + 1 \<ge> fields then 0 else i + 1) + k) mod fields = (i + Suc k) mod fields" for k
    using i by (cases "i + 1 = fields") (simp_all add: mod_simps, metis add.commute add_Suc_right mod_add_self1 plus_1_eq_Suc)
  have "visited (Suc n) fields idx = (\<lambda>k. (i + k) mod fields) ` {0..<Suc n}"
    by (auto simp: visited_def i_def [symmetric])
  also have "{0..<Suc n} = insert 0 (Suc ` {0..<n})" by (auto simp: image_iff less_Suc_eq_0_disj)
  also have "(\<lambda>k. (i + k) mod fields) ` insert 0 (Suc ` {0..<n})
      = insert i ((\<lambda>k. (i + Suc k) mod fields) ` {0..<n})"
    unfolding image_insert image_image using i by simp
  also have "(\<lambda>k. (i + Suc k) mod fields) ` {0..<n} = visited n fields (i + 1)"
    unfolding visited_def step by auto
  finally show ?thesis by (simp add: i_def)
qed

lemma visited_all: "0 < fields \<Longrightarrow> i < fields \<Longrightarrow> i \<in> visited fields fields idx"
proof -
  assume f: "0 < fields" "i < fields"
  define j where "j = (if idx \<ge> fields then 0 else idx)"
  have j: "j < fields" using f by (simp add: j_def)
  have "(j + (i + fields - j) mod fields) mod fields = i"
  proof -
    have "(j + (i + fields - j) mod fields) mod fields = (j + (i + fields - j)) mod fields"
      by (simp add: mod_add_right_eq)
    then show ?thesis using j f by simp
  qed
  moreover have "(i + fields - j) mod fields < fields" using f by simp
  ultimately show ?thesis unfolding visited_def j_def [symmetric] mem_Collect_eq by metis
qed

lemma visited_lt: "0 < fields \<Longrightarrow> i \<in> visited n fields idx \<Longrightarrow> i < fields"
  by (auto simp: visited_def)

lemma mi_find_from_claim_loop_spec:
  assumes "fields \<le> length bm" "0 < fields" "0 < count" "count \<le> 64"
  shows "\<exists>r bm'. mi_find_from_claim_loop n bm fields idx count = Some (r, bm') \<and> length bm' = length bm
    \<and> (case r of
         None \<Rightarrow> bm' = bm \<and> (\<forall>i \<in> visited n fields idx. field_full bm i count)
       | Some bi \<Rightarrow> bi div 64 < fields \<and> bi mod 64 + count \<le> 64
           \<and> claimed bm \<inter> {bi..<bi + count} = {} \<and> claimed bm' = claimed bm \<union> {bi..<bi + count})"
proof (induction n arbitrary: idx)
  case 0
  then show ?case by (simp add: visited_def)
next
  case (Suc n)
  define i where "i = (if idx \<ge> fields then 0 else idx)"
  have i: "i < fields" using assms(2) by (simp add: i_def)
  obtain r bm' where f: "mi_bitmap_try_find_claim_field bm i count = Some (r, bm')"
      "length bm' = length bm"
    and post: "case r of None \<Rightarrow> bm' = bm \<and> field_full bm i count
       | Some bi \<Rightarrow> bi div 64 = i \<and> bi mod 64 + count \<le> 64
           \<and> claimed bm \<inter> {bi..<bi + count} = {} \<and> claimed bm' = claimed bm \<union> {bi..<bi + count}
           \<and> (\<forall>q < bi mod 64. claimed bm \<inter> {64 * i + q..<64 * i + q + count} \<noteq> {})"
    using mi_bitmap_try_find_claim_field_spec [OF _ assms(3,4), of i bm] i assms(1) by auto
  show ?case
  proof (cases r)
    case None
    then have "bm' = bm" "field_full bm i count" using post by simp_all
    moreover have "mi_find_from_claim_loop (Suc n) bm fields idx count =
        mi_find_from_claim_loop n bm' fields (i + 1) count"
      using f None by (simp add: Let_def i_def [symmetric])
    moreover obtain r2 bm2 where "mi_find_from_claim_loop n bm fields (i + 1) count = Some (r2, bm2)"
        "length bm2 = length bm"
      and "case r2 of None \<Rightarrow> bm2 = bm \<and> (\<forall>i \<in> visited n fields (i + 1). field_full bm i count)
       | Some bi \<Rightarrow> bi div 64 < fields \<and> bi mod 64 + count \<le> 64
           \<and> claimed bm \<inter> {bi..<bi + count} = {} \<and> claimed bm2 = claimed bm \<union> {bi..<bi + count}"
      using Suc.IH [of "i + 1"] by blast
    ultimately show ?thesis unfolding visited_Suc [OF assms(2)] i_def [symmetric]
      by (cases r2) auto
  next
    case (Some bi)
    then show ?thesis using f post i by (simp add: Let_def i_def [symmetric])
  qed
qed

text \<open>With a predicate: a rejected candidate is unclaimed again and its field is left.\<close>

lemma mi_find_from_claim_pred_loop_spec:
  assumes "fields \<le> length bm" "0 < fields" "0 < count" "count \<le> 64"
  shows "\<exists>r bm'. mi_find_from_claim_pred_loop n bm fields idx count pred_fn = Some (r, bm')
    \<and> length bm' = length bm
    \<and> (case r of
         None \<Rightarrow> bm' = bm
       | Some bi \<Rightarrow> (\<forall>p. pred_fn = Some p \<longrightarrow> p bi) \<and> bi div 64 < fields \<and> bi mod 64 + count \<le> 64
           \<and> claimed bm \<inter> {bi..<bi + count} = {} \<and> claimed bm' = claimed bm \<union> {bi..<bi + count})"
proof (induction n arbitrary: idx)
  case 0
  then show ?case by simp
next
  case (Suc n)
  define i where "i = (if idx \<ge> fields then 0 else idx)"
  have i: "i < fields" using assms(2) by (simp add: i_def)
  obtain r bm' where f: "mi_bitmap_try_find_claim_field bm i count = Some (r, bm')"
      "length bm' = length bm"
    and post: "case r of None \<Rightarrow> bm' = bm \<and> field_full bm i count
       | Some bi \<Rightarrow> bi div 64 = i \<and> bi mod 64 + count \<le> 64
           \<and> claimed bm \<inter> {bi..<bi + count} = {} \<and> claimed bm' = claimed bm \<union> {bi..<bi + count}
           \<and> (\<forall>q < bi mod 64. claimed bm \<inter> {64 * i + q..<64 * i + q + count} \<noteq> {})"
    using mi_bitmap_try_find_claim_field_spec [OF _ assms(3,4), of i bm] i assms(1) by auto
  show ?case
  proof (cases r)
    case None
    then show ?thesis using f post Suc.IH [of "i + 1"] by (simp add: Let_def i_def [symmetric])
  next
    case (Some bi)
    show ?thesis
    proof (cases "pred_fn = None \<or> the pred_fn bi")
      case True
      then show ?thesis using Some f post i by (auto simp: Let_def i_def [symmetric])
    next
      case False
      obtain bm'' where u: "mi_bitmap_unclaim bm' count bi = Some ({bi..<bi + count} \<subseteq> claimed bm', bm'')"
          "claimed bm'' = claimed bm' - {bi..<bi + count}" "length bm'' = length bm'"
        using mi_bitmap_unclaim_spec [of bi count bm'] post Some f i assms(1) by auto
      have "claimed bm'' = claimed bm" using u(2) post Some by auto
      then have "bm'' = bm" using u(3) f(2) by (intro claimed_inject) simp_all
      obtain p where "pred_fn = Some p" "\<not> p bi" using False by auto
      with \<open>bm'' = bm\<close> have "mi_find_from_claim_pred_loop (Suc n) bm fields idx count pred_fn =
          mi_find_from_claim_pred_loop n bm fields (i + 1) count pred_fn"
        using Some f u(1) by (simp add: Let_def i_def [symmetric])
      then show ?thesis using Suc.IH [of "i + 1"] by simp
    qed
  qed
qed

section \<open>Claiming across fields\<close>

lemma div_up_64: "0 < n \<Longrightarrow> (n + 64 - 1) div 64 = Suc ((n - 1) div 64)" for n :: nat
  by simp

lemma mid_field_zero_iff:
  "i < length bm \<Longrightarrow> bm ! i = 0 \<longleftrightarrow> claimed bm \<inter> {64 * i..<64 * i + 64} = {}"
  using and_mask_zero_iff [of "64 * i" 64 bm] by (simp add: mi_bitmap_mask_def)

lemma mi_across_claim_mid_spec:
  assumes "field \<le> ff" "ff \<le> length bm"
  shows "\<exists>ok fld bm'. mi_across_claim_mid bm field ff = Some (ok, fld, bm') \<and> length bm' = length bm
    \<and> field \<le> fld \<and> fld \<le> ff \<and> (ok \<longleftrightarrow> fld = ff)
    \<and> claimed bm \<inter> {64 * field..<64 * fld} = {}
    \<and> claimed bm' = claimed bm \<union> {64 * field..<64 * fld}
    \<and> (\<not> ok \<longrightarrow> claimed bm \<inter> {64 * fld..<64 * fld + 64} \<noteq> {})"
  using assms
proof (induction bm field ff rule: mi_across_claim_mid.induct)
  case (1 bm field ff)
  show ?case
  proof (cases "field < ff")
    case False
    then show ?thesis using "1.prems" by (subst mi_across_claim_mid.simps) auto
  next
    case lt: True
    then have fl: "field < length bm" using "1.prems" by simp
    show ?thesis
    proof (cases "bm ! field = 0")
      case False
      then show ?thesis using lt fl mid_field_zero_iff [OF fl]
        by (subst mi_across_claim_mid.simps) (auto simp: mem_simps)
    next
      case zero: True
      define bm1 where "bm1 = bm[field := MI_BITMAP_FIELD_FULL]"
      have free: "claimed bm \<inter> {64 * field..<64 * field + 64} = {}"
        using mid_field_zero_iff [OF fl] zero by simp
      have c1: "claimed bm1 = claimed bm \<union> {64 * field..<64 * field + 64}"
        using claimed_or [of "64 * field" 64 bm] fl zero by (simp add: bm1_def mi_bitmap_mask_def)
      have l1: "length bm1 = length bm" by (simp add: bm1_def)
      obtain ok fld bm' where r: "mi_across_claim_mid bm1 (field + 1) ff = Some (ok, fld, bm')"
        "length bm' = length bm" "field + 1 \<le> fld" "fld \<le> ff" "ok \<longleftrightarrow> fld = ff"
        "claimed bm1 \<inter> {64 * (field + 1)..<64 * fld} = {}"
        "claimed bm' = claimed bm1 \<union> {64 * (field + 1)..<64 * fld}"
        "\<not> ok \<longrightarrow> claimed bm1 \<inter> {64 * fld..<64 * fld + 64} \<noteq> {}"
        using "1.IH" [of "bm ! field" bm1] lt fl zero "1.prems" l1
        by (auto simp: mem_simps bm1_def)
      have eq: "mi_across_claim_mid bm field ff = mi_across_claim_mid bm1 (field + 1) ff"
        using lt fl zero by (subst mi_across_claim_mid.simps) (simp add: mem_simps bm1_def)
      have split: "{64 * field..<64 * fld} = {64 * field..<64 * field + 64} \<union> {64 * (field + 1)..<64 * fld}"
        using r(3) by auto
      have "claimed bm \<inter> {64 * field..<64 * fld} = {}"
        unfolding split using free r(6) unfolding c1 by blast
      moreover have "claimed bm' = claimed bm \<union> {64 * field..<64 * fld}"
        unfolding split r(7) c1 by blast
      moreover have "\<not> ok \<longrightarrow> claimed bm \<inter> {64 * fld..<64 * fld + 64} \<noteq> {}"
        using r(3,8) unfolding c1 by auto
      ultimately show ?thesis using eq r(1-5) by auto
    qed
  qed
qed

lemma mi_across_rollback_spec:
  assumes "initial \<le> 64" "0 < initial" "idx < length bm" "idx \<le> f" "f < length bm"
  shows "\<exists>bm'. mi_across_rollback bm (Suc f) idx (mi_bitmap_mask initial (64 - initial)) = Some bm'
     \<and> length bm' = length bm
     \<and> claimed bm' = claimed bm - {64 * idx + 64 - initial..<64 * f + 64}"
  using assms
proof (induction f arbitrary: bm)
  case 0
  have "claimed (bm[0 := bm ! 0 AND NOT (mi_bitmap_mask initial (64 - initial))])
      = claimed bm - {64 - initial..<64}"
    using claimed_and_not [of "64 - initial" initial bm] 0 by simp
  then show ?case using 0 by (auto simp: mem_simps)
next
  case (Suc f)
  show ?case
  proof (cases "idx = Suc f")
    case True
    have "claimed (bm[Suc f := bm ! Suc f AND NOT (mi_bitmap_mask initial (64 - initial))])
        = claimed bm - {64 * Suc f + 64 - initial..<64 * Suc f + 64}"
    proof -
      define z where "z = 64 - initial"
      have z: "z < 64" using Suc.prems by (simp add: z_def)
      define bi where "bi = 64 * Suc f + z"
      have "bi div 64 = Suc f" "bi mod 64 = z" using z unfolding bi_def by (simp_all del: mult_Suc_right)
      then have "bi div 64 = Suc f" "bi mod 64 = 64 - initial" "bi + initial = 64 * Suc f + 64"
        using Suc.prems by (simp_all add: bi_def z_def)
      then show ?thesis using claimed_and_not [of bi initial bm] Suc.prems by (simp add: bi_def z_def)
    qed
    then show ?thesis using True Suc.prems by (auto simp: mem_simps)
  next
    case False
    then have lt: "idx \<le> f" using Suc.prems by simp
    define bm1 where "bm1 = bm[Suc f := 0]"
    have c1: "claimed bm1 = claimed bm - {64 * Suc f..<64 * Suc f + 64}"
    proof -
      have "bm1 = bm[Suc f := bm ! Suc f AND NOT (mi_bitmap_mask 64 0)]"
        by (simp add: bm1_def mi_bitmap_mask_def)
      then show ?thesis using claimed_and_not [of "64 * Suc f" 64 bm] Suc.prems by simp
    qed
    obtain bm' where r: "mi_across_rollback bm1 (Suc f) idx (mi_bitmap_mask initial (64 - initial)) = Some bm'"
      "length bm' = length bm1" "claimed bm' = claimed bm1 - {64 * idx + 64 - initial..<64 * f + 64}"
      using Suc.IH [of bm1] Suc.prems lt by (auto simp: bm1_def)
    have "claimed bm' = claimed bm - {64 * idx + 64 - initial..<64 * Suc f + 64}"
      unfolding r(3) c1 using lt assms(2) by auto
    then show ?thesis using r lt Suc.prems by (auto simp: mem_simps bm1_def)
  qed
qed

lemma ceil_div_step: "64 < n \<Longrightarrow> (n + 63) div 64 = Suc ((n - 64 + 63) div 64)" for n :: nat
  by (simp add: nat_diff_split)

lemma mi_across_scan_spec:
  assumes "found < count" "field + (count - found + 63) div 64 < length bm"
  shows "\<exists>r. mi_across_scan bm count field found msk = Some r
    \<and> (case r of
         None \<Rightarrow> claimed bm \<inter> {64 * field + 64..<64 * field + 64 + (count - found)} \<noteq> {}
       | Some (ff, fm) \<Rightarrow> field < ff \<and> ff < length bm
           \<and> claimed bm \<inter> {64 * field + 64..<64 * field + 64 + (count - found)} = {}
           \<and> (\<exists>rest. 0 < rest \<and> rest \<le> 64 \<and> 64 * ff + rest = 64 * field + 64 + (count - found)
                \<and> fm = mi_bitmap_mask rest 0))"
  using assms
proof (induction "count - found" arbitrary: field found msk rule: less_induct)
  case less
  define need where "need = count - found"
  have need: "0 < need" "field + (need + 63) div 64 < length bm" using less.prems by (simp_all add: need_def)
  define bits where "bits = (if found + 64 \<le> count then 64 else need)"
  have bits: "0 < bits" "bits \<le> 64" "bits \<le> need" using need(1) by (auto simp: bits_def need_def)
  have fl: "Suc field < length bm" using need by simp
  have free: "bm ! Suc field AND mi_bitmap_mask bits 0 = 0 \<longleftrightarrow>
      claimed bm \<inter> {64 * field + 64..<64 * field + 64 + bits} = {}"
    using and_mask_zero_iff [of "64 * Suc field" bits bm] bits fl by (simp add: add.commute)
  have unf: "mi_across_scan bm count field found msk =
     (if bm ! Suc field AND mi_bitmap_mask bits 0 \<noteq> 0 then Some None
      else mi_across_scan bm count (Suc field) (found + bits) (mi_bitmap_mask bits 0))"
    using less.prems fl by (subst mi_across_scan.simps) (simp add: Let_def mem_simps bits_def need_def)
  show ?case
  proof (cases "claimed bm \<inter> {64 * field + 64..<64 * field + 64 + bits} = {}")
    case False
    then show ?thesis using unf free bits(3) by (auto simp: need_def)
  next
    case True
    show ?thesis
    proof (cases "need \<le> 64")
      case le: True
      then have b: "bits = need" "found + bits = count"
        using less.prems by (auto simp: bits_def need_def)
      then have "mi_across_scan bm count (Suc field) (found + bits) (mi_bitmap_mask bits 0)
          = Some (Some (Suc field, mi_bitmap_mask bits 0))"
        by (subst mi_across_scan.simps) simp
      then show ?thesis using unf free True fl b bits
        by (auto simp: need_def intro!: exI [of _ bits])
    next
      case gt: False
      then have b: "bits = 64" "found + bits < count" by (auto simp: bits_def need_def)
      have "count - (found + bits) < count - found" using b less.prems by simp
      moreover have "Suc field + (count - (found + bits) + 63) div 64 < length bm"
        using ceil_div_step [of need] gt need(2) b(1) by (simp add: need_def)
      ultimately obtain r where r: "mi_across_scan bm count (Suc field) (found + bits) (mi_bitmap_mask bits 0) = Some r"
        and post: "case r of
         None \<Rightarrow> claimed bm \<inter> {64 * Suc field + 64..<64 * Suc field + 64 + (count - (found + bits))} \<noteq> {}
       | Some (ff, fm) \<Rightarrow> Suc field < ff \<and> ff < length bm
           \<and> claimed bm \<inter> {64 * Suc field + 64..<64 * Suc field + 64 + (count - (found + bits))} = {}
           \<and> (\<exists>rest. 0 < rest \<and> rest \<le> 64
                \<and> 64 * ff + rest = 64 * Suc field + 64 + (count - (found + bits))
                \<and> fm = mi_bitmap_mask rest 0)"
        using less.hyps [of "found + bits" "Suc field" "mi_bitmap_mask bits 0"] b(2) by blast
      have split: "{64 * field + 64..<64 * field + 64 + (count - found)} =
          {64 * field + 64..<64 * field + 64 + bits}
          \<union> {64 * Suc field + 64..<64 * Suc field + 64 + (count - (found + bits))}"
        using b by auto
      have e: "64 * Suc field + 64 + (count - (found + bits)) = 64 * field + 64 + (count - found)"
        using b by simp
      have rec: "mi_across_scan bm count field found msk = Some r" using unf free True r by simp
      show ?thesis
      proof (cases r)
        case None
        then show ?thesis using rec post unfolding split by auto
      next
        case (Some x)
        obtain ff fm where x: "x = (ff, fm)" by fastforce
        have "claimed bm \<inter> {64 * field + 64..<64 * field + 64 + (count - found)} = {}"
          using post Some x True unfolding split by auto
        then show ?thesis using rec post Some x unfolding e by auto
      qed
    qed
  qed
qed

lemma mi_clz_top_free:
  assumes "idx < length bm" "k \<le> mi_clz (bm ! idx)"
  shows "claimed bm \<inter> {64 * idx + 64 - k..<64 * idx + 64} = {}"
proof (cases "bm ! idx = 0")
  case True
  then have "claimed bm \<inter> {64 * idx..<64 * idx + 64} = {}" using mid_field_zero_iff assms(1) by blast
  moreover have "k \<le> 64" using assms(2) True by (simp add: mi_clz_def)
  ultimately show ?thesis by fastforce
next
  case False
  have lt: "mi_clz (bm ! idx) < 64" using mi_clz_spec(1) [OF False] .
  have "b \<notin> claimed bm" if "b \<in> {64 * idx + 64 - k..<64 * idx + 64}" for b
  proof -
    have bd: "b div 64 = idx" using that lt assms(2) by auto
    moreover have "b = 64 * (b div 64) + b mod 64" by simp
    ultimately have b: "b div 64 = idx" "64 - k \<le> b mod 64" using that by (simp, simp add: le_diff_conv)
    have "\<not> bit (bm ! idx) (b mod 64)"
      using mi_clz_spec(3) [OF False, of "b mod 64"] b(2) assms(2) lt by fastforce
    then show ?thesis using b by (simp add: claimed_iff)
  qed
  then show ?thesis by blast
qed

lemma mi_clz_le: "mi_clz x \<le> 64"
  using mi_clz_spec(1) [of x] by (cases "x = 0") (simp_all add: mi_clz_def)

lemma mi_divide_up_small:
  assumes "n < 2 ^ 63"
  shows "unat (mi_divide_up (of_nat n) (of_nat MI_BITMAP_FIELD_BITS)) = (n + 63) div 64"
proof -
  have "unat (of_nat n :: usize) = n" using assms by (simp add: unat_of_nat)
  then have "unat (of_nat n + 63 :: usize) = n + 63"
    using assms by (simp add: unat_word_ariths(1))
  moreover have "(of_nat MI_BITMAP_FIELD_BITS :: usize) = 64" by simp
  moreover have "of_nat n + 64 - 1 = (of_nat n + 63 :: usize)" by simp
  moreover have "unat (64 :: usize) = 64" by simp
  ultimately show ?thesis by (simp only: mi_divide_up_def) (simp add: unat_div)
qed

lemma range_fits:
  fixes bi n :: nat
  assumes "bi div 64 < n" "bi mod 64 + count \<le> 64"
  shows "bi + count \<le> 64 * n"
proof -
  have "bi = 64 * (bi div 64) + bi mod 64" by simp
  then show ?thesis using assms by linarith
qed

text \<open>No free sequence of count bits starts in field i and crosses into the next one.\<close>

definition cross_full :: "mi_bitmap \<Rightarrow> nat \<Rightarrow> nat \<Rightarrow> bool" where
  "cross_full bm i count \<longleftrightarrow>
     (\<forall>p. p < 64 \<and> 64 < p + count \<and> 64 * i + p + count \<le> 64 * length bm \<longrightarrow>
        claimed bm \<inter> {64 * i + p..<64 * i + p + count} \<noteq> {})"

lemma mi_clz_top_bit:
  assumes "idx < length bm" "p < 64" "64 < p + count"
    and free: "claimed bm \<inter> {64 * idx + p..<64 * idx + p + count} = {}"
  shows "64 - mi_clz (bm ! idx) \<le> p"
proof (rule ccontr)
  assume lt: "\<not> 64 - mi_clz (bm ! idx) \<le> p"
  have nz: "bm ! idx \<noteq> 0" using lt by (auto simp: mi_clz_def)
  define h where "h = 63 - mi_clz (bm ! idx)"
  have h: "p \<le> h" "h < 64" "bit (bm ! idx) h"
    using lt mi_clz_spec(1,2) [OF nz] by (simp_all add: h_def)
  have "64 * idx + h \<in> claimed bm" using h assms(1) by (simp add: claimed_iff)
  moreover have "64 * idx + h \<in> {64 * idx + p..<64 * idx + p + count}" using h assms(3) by simp
  ultimately show False using free by blast
qed

lemma mi_across_once_spec:
  assumes "idx < length bm" "0 < count" "count < 2 ^ 63" and env: "length (env bm) = length bm"
  shows "\<exists>r. mi_try_find_claim_field_across_once env bm (length bm) idx count = Some r
    \<and> (case r of
         Inl (None, bm') \<Rightarrow> bm' = bm \<and> cross_full bm idx count
       | Inl (Some bi, bm') \<Rightarrow> length bm' = length bm \<and> bi + count \<le> 64 * length bm
           \<and> (\<exists>bm0 \<in> {bm, env bm}. claimed bm0 \<inter> {bi..<bi + count} = {}
               \<and> claimed bm' = claimed bm0 \<union> {bi..<bi + count})
       | Inr bm' \<Rightarrow> bm' = env bm \<and> env bm \<noteq> bm)"
proof -
  define initial where "initial = mi_clz (bm ! idx)"
  have il: "initial \<le> 64" by (simp add: initial_def mi_clz_le)
  have top: "64 - initial \<le> p" if "p < 64" "64 < p + count"
      "claimed bm \<inter> {64 * idx + p..<64 * idx + p + count} = {}" for p
    using mi_clz_top_bit [OF assms(1) that] by (simp add: initial_def)
  note unf = mi_try_find_claim_field_across_once_def [of env bm "length bm" idx count]
  consider (zero) "initial = 0" | (inside) "initial \<noteq> 0" "count \<le> initial"
    | (short) "0 < initial" "initial < count" "length bm - idx \<le> (count - initial + 63) div 64"
    | (across) "0 < initial" "initial < count" "(count - initial + 63) div 64 < length bm - idx"
    by fastforce
  then show ?thesis
  proof cases
    case zero
    then have "cross_full bm idx count" using top by (fastforce simp: cross_full_def)
    then show ?thesis using assms zero by (simp add: unf mem_simps initial_def)
  next
    case inside
    then have c64: "count \<le> 64" using il by simp
    obtain r bm' where f: "mi_bitmap_try_find_claim_field bm idx count = Some (r, bm')"
        "length bm' = length bm"
      and post: "case r of None \<Rightarrow> bm' = bm \<and> field_full bm idx count
       | Some bi \<Rightarrow> bi div 64 = idx \<and> bi mod 64 + count \<le> 64
           \<and> claimed bm \<inter> {bi..<bi + count} = {} \<and> claimed bm' = claimed bm \<union> {bi..<bi + count}
           \<and> (\<forall>q < bi mod 64. claimed bm \<inter> {64 * idx + q..<64 * idx + q + count} \<noteq> {})"
      using mi_bitmap_try_find_claim_field_spec [OF assms(1,2) c64] by blast
    have "mi_try_find_claim_field_across_once env bm (length bm) idx count = Some (Inl (r, bm'))"
      using inside assms f by (simp add: unf mem_simps initial_def)
    moreover have "bi + count \<le> 64 * length bm" if "r = Some bi" for bi
      using post that assms(1) by (intro range_fits) auto
    moreover have "r \<noteq> None"
    proof
      assume "r = None"
      then have full: "field_full bm idx count" using post by simp
      have "(64 - count) + count \<le> 64" using c64 by simp
      then have "claimed bm \<inter> {64 * idx + (64 - count)..<64 * idx + (64 - count) + count} \<noteq> {}"
        using full unfolding field_full_def by blast
      then show False using mi_clz_top_free [OF assms(1), of count] inside(2) c64
        by (simp add: initial_def)
    qed
    ultimately show ?thesis using post f by (cases r) auto
  next
    case short
    have "cross_full bm idx count" unfolding cross_full_def
    proof (intro allI impI notI)
      fix p
      assume "p < 64 \<and> 64 < p + count \<and> 64 * idx + p + count \<le> 64 * length bm"
        "claimed bm \<inter> {64 * idx + p..<64 * idx + p + count} = {}"
      then have "64 - initial \<le> p" "64 * idx + p + count \<le> 64 * length bm" using top by simp_all
      then have "(count - initial + 63) div 64 < length bm - idx" using short il by linarith
      then show False using short by simp
    qed
    then show ?thesis using assms short mi_divide_up_small [of "count - initial"]
      by (simp add: unf mem_simps initial_def)
  next
    case across
    define base where "base = 64 * idx + 64 - initial"
    have fin: "base + count = 64 * idx + 64 + (count - initial)" using across il by (simp add: base_def)
    obtain scan where s: "mi_across_scan bm count idx initial 0 = Some scan"
      and post: "case scan of
         None \<Rightarrow> claimed bm \<inter> {64 * idx + 64..<64 * idx + 64 + (count - initial)} \<noteq> {}
       | Some (ff, fm) \<Rightarrow> idx < ff \<and> ff < length bm
           \<and> claimed bm \<inter> {64 * idx + 64..<64 * idx + 64 + (count - initial)} = {}
           \<and> (\<exists>rest. 0 < rest \<and> rest \<le> 64 \<and> 64 * ff + rest = 64 * idx + 64 + (count - initial)
                \<and> fm = mi_bitmap_mask rest 0)"
      using mi_across_scan_spec [of initial count idx bm 0] across by fastforce
    show ?thesis
    proof (cases scan)
      case None
      then have busy: "claimed bm \<inter> {64 * idx + 64..<base + count} \<noteq> {}" using post fin by simp
      have "cross_full bm idx count" unfolding cross_full_def
      proof (intro allI impI notI)
        fix p
        assume p: "p < 64 \<and> 64 < p + count \<and> 64 * idx + p + count \<le> 64 * length bm"
          "claimed bm \<inter> {64 * idx + p..<64 * idx + p + count} = {}"
        then have "base + count \<le> 64 * idx + p + count" using top [of p] il by (simp add: base_def)
        then have "{64 * idx + 64..<base + count} \<subseteq> {64 * idx + p..<64 * idx + p + count}"
          using p by auto
        then show False using busy p(2) by blast
      qed
      with None show ?thesis using across assms s mi_divide_up_small [of "count - initial"]
        by (simp add: unf mem_simps initial_def [symmetric])
    next
      case (Some x)
      have free_bm: "claimed bm \<inter> {base..<base + count} = {}"
      proof -
        have "claimed bm \<inter> {64 * idx + 64..<base + count} = {}"
          using Some post fin by (cases x) simp
        moreover have "claimed bm \<inter> {base..<64 * idx + 64} = {}"
          using mi_clz_top_free [OF assms(1), of initial] by (simp add: initial_def base_def)
        moreover have "{base..<base + count} \<subseteq> {base..<64 * idx + 64} \<union> {64 * idx + 64..<base + count}"
          by auto
        ultimately show ?thesis by blast
      qed
      from Some obtain ff fm rest where x: "scan = Some (ff, fm)" "idx < ff" "ff < length bm"
          "0 < rest" "rest \<le> 64" "64 * ff + rest = base + count" "fm = mi_bitmap_mask rest 0"
        using post fin by (cases x) auto
      define bm0 where "bm0 = env bm"
      have l0: "length bm0 = length bm" using env by (simp add: bm0_def)
      define im where "im = mi_bitmap_mask initial (64 - initial)"
      have i64: "base div 64 = idx" "base mod 64 = 64 - initial" "base + initial = 64 * idx + 64"
      proof -
        have "base = 64 * idx + (64 - initial)" using il by (simp add: base_def)
        then show "base div 64 = idx" "base mod 64 = 64 - initial" using across by simp_all
        show "base + initial = 64 * idx + 64" using il by (simp add: base_def)
      qed
      have imz: "bm0 ! idx AND im = 0 \<longleftrightarrow> claimed bm0 \<inter> {base..<64 * idx + 64} = {}"
        using and_mask_zero_iff [of base initial bm0] i64 il l0 assms(1) by (simp add: im_def)
      define rb :: "mi_bitmap \<Rightarrow> nat \<Rightarrow> ((nat option \<times> mi_bitmap) + mi_bitmap) option"
        where "rb b f = map_option Inr (mi_across_rollback b f idx im)" for b f
      have body: "mi_try_find_claim_field_across_once env bm (length bm) idx count =
          (if bm0 ! idx AND im \<noteq> 0 then rb bm0 idx
           else (case mi_across_claim_mid (bm0[idx := bm0 ! idx OR im]) (idx + 1) ff of
              None \<Rightarrow> None
            | Some (ok, field, b) \<Rightarrow>
                if \<not> ok then rb b field
                else (case load b field of None \<Rightarrow> None | Some mp \<Rightarrow>
                       if mp AND fm \<noteq> 0 then rb b field
                       else (case store b field (mp OR fm) of None \<Rightarrow> None
                             | Some b' \<Rightarrow> Some (Inl (Some base, b'))))))"
      proof -
        have cz: "mi_clz (bm ! idx) = initial" by (simp add: initial_def)
        have ix: "mi_bitmap_index_create idx (64 - initial) = base"
          using il by (simp add: mi_bitmap_index_create_def base_def)
        show ?thesis using across assms s x(1) mi_divide_up_small [of "count - initial"] l0 il
          by (simp add: unf mem_simps cz Let_def bm0_def [symmetric] im_def [symmetric] ix rb_def
              split: option.splits prod.splits)
      qed
      show ?thesis
      proof (cases "claimed bm0 \<inter> {base..<64 * idx + 64} = {}")
        case False
        have "{base..<64 * idx + 64} \<subseteq> {base..<base + count}" using fin by auto
        then have "bm0 \<noteq> bm" using False free_bm by blast
        moreover have "mi_across_rollback bm0 idx idx im = Some bm0" by (cases idx) simp_all
        ultimately show ?thesis using False imz body by (simp add: rb_def bm0_def)
      next
        case free0: True
        define bm1 where "bm1 = bm0[idx := bm0 ! idx OR im]"
        have l1: "length bm1 = length bm" by (simp add: bm1_def l0)
        have c1: "claimed bm1 = claimed bm0 \<union> {base..<64 * idx + 64}"
          using claimed_or [of base initial bm0] i64 il l0 assms(1) by (simp add: bm1_def im_def)
        obtain ok fld b where m: "mi_across_claim_mid bm1 (idx + 1) ff = Some (ok, fld, b)"
            "length b = length bm1" "idx + 1 \<le> fld" "fld \<le> ff" "ok \<longleftrightarrow> fld = ff"
            "claimed bm1 \<inter> {64 * (idx + 1)..<64 * fld} = {}"
            "claimed b = claimed bm1 \<union> {64 * (idx + 1)..<64 * fld}"
            "\<not> ok \<longrightarrow> claimed bm1 \<inter> {64 * fld..<64 * fld + 64} \<noteq> {}"
          using mi_across_claim_mid_spec [of "idx + 1" ff bm1] x l1 by auto
        have free1: "claimed bm0 \<inter> {base..<64 * fld} = {}"
          using free0 m(6) unfolding c1 by fastforce
        have cb: "claimed b = claimed bm0 \<union> {base..<64 * fld}"
          unfolding m(7) c1 using m(3) il by (auto simp: base_def)
        have undo: "rb b fld = Some (Inr bm0)"
        proof -
          obtain f where f: "fld = Suc f" using m(3) by (cases fld) auto
          have "\<exists>b2. mi_across_rollback b (Suc f) idx im = Some b2 \<and> length b2 = length b
              \<and> claimed b2 = claimed b - {64 * idx + 64 - initial..<64 * f + 64}"
            unfolding im_def using f il across m(2-4) x(3) l1 assms(1)
            by (intro mi_across_rollback_spec) simp_all
          then obtain b2 where b2: "mi_across_rollback b fld idx im = Some b2" "length b2 = length b"
              "claimed b2 = claimed b - {base..<64 * fld}"
            using f by (auto simp: base_def add.commute simp del: mi_across_rollback.simps)
          have "claimed b2 = claimed bm0" unfolding b2(3) cb using free1 by blast
          then have "b2 = bm0" using b2(2) m(2) l1 l0 by (intro claimed_inject) simp_all
          then show ?thesis using b2(1) by (simp add: rb_def)
        qed
        show ?thesis
        proof (cases "ok \<and> b ! ff AND fm = 0")
          case False
          then have "mi_try_find_claim_field_across_once env bm (length bm) idx count = Some (Inr bm0)"
            using body free0 imz m(1,2,5) undo l1 x(3) by (auto simp: bm1_def [symmetric] mem_simps)
          moreover have "bm0 \<noteq> bm"
          proof
            assume same: "bm0 = bm"
            have ffb: "64 * ff \<le> base + count" "base \<le> 64 * fld"
              using x(6) m(3) il by (simp_all add: base_def)
            show False
            proof (cases ok)
              case False
              have "64 * fld + 64 \<le> 64 * ff" using m(4,5) False by simp
              then have "{64 * fld..<64 * fld + 64} \<subseteq> {base..<base + count} - {base..<64 * idx + 64}"
                using ffb m(3) by auto
              then show False using m(8) False free_bm unfolding c1 same by blast
            next
              case ok: True
              then have fld: "fld = ff" using m(5) by simp
              have "claimed b \<inter> {64 * ff..<base + count} \<noteq> {}"
                using and_mask_zero_iff [of "64 * ff" rest b] False ok x(3,5,6,7) m(2) l1 by simp
              moreover have "{64 * ff..<base + count} \<subseteq> {base..<base + count} - {base..<64 * fld}"
                using ffb fld by auto
              ultimately show False using free_bm unfolding cb same by blast
            qed
          qed
          ultimately show ?thesis by (simp add: bm0_def)
        next
          case True
          then have fld: "fld = ff" using m(5) by simp
          have lb: "ff < length b" using m(2) l1 x(3) by simp
          have fz: "claimed b \<inter> {64 * ff..<base + count} = {}"
            using and_mask_zero_iff [of "64 * ff" rest b] True x(5,6,7) lb by simp
          define b3 where "b3 = b[ff := b ! ff OR fm]"
          have c3: "claimed b3 = claimed b \<union> {64 * ff..<base + count}"
            using claimed_or [of "64 * ff" rest b] x(5,6,7) lb by (simp add: b3_def)
          have res: "mi_try_find_claim_field_across_once env bm (length bm) idx count
              = Some (Inl (Some base, b3))"
            using body free0 imz m(1) fld True lb m(5)
            by (simp add: bm1_def [symmetric] mem_simps b3_def)
          have "base \<le> 64 * ff" using x(2) il by (simp add: base_def)
          moreover have "64 * ff \<le> base + count" using x(6) by simp
          ultimately have split: "{base..<base + count} = {base..<64 * ff} \<union> {64 * ff..<base + count}"
            by (simp add: ivl_disj_un_two(3))
          have "claimed bm0 \<inter> {base..<base + count} = {}"
            unfolding split using free1 fz fld unfolding cb by blast
          moreover have "claimed b3 = claimed bm0 \<union> {base..<base + count}"
            unfolding split c3 cb fld by blast
          moreover have "base + count \<le> 64 * length bm" using x(3,5,6) by simp
          ultimately show ?thesis using res m(2) l1 by (auto simp: b3_def bm0_def)
        qed
      qed
    qed
  qed
qed

section \<open>Retries and the search across fields\<close>

text \<open>The bitmap after n interferences, the first of them that of attempt k.\<close>

fun interfered :: "(nat \<Rightarrow> mi_env) \<Rightarrow> mi_bitmap \<Rightarrow> nat \<Rightarrow> nat \<Rightarrow> mi_bitmap" where
  "interfered env bm k 0 = bm"
| "interfered env bm k (Suc n) = interfered env (env k bm) (k + 1) n"

lemma interfered_id: "(\<And>k. env k bm = bm) \<Longrightarrow> interfered env bm k n = bm"
  by (induction n arbitrary: k) simp_all

lemma mi_across_retry_spec:
  assumes "idx < length bm" "0 < count" "count < 2 ^ 63" "retries \<le> 3"
    and env: "\<And>k b. length b = length bm \<Longrightarrow> length (env k b) = length bm"
  shows "\<exists>r bm' n. mi_bitmap_try_find_claim_field_across env bm (length bm) idx count retries = Some (r, bm')
    \<and> length bm' = length bm \<and> n \<le> 4 - retries
    \<and> (case r of
         None \<Rightarrow> bm' = interfered env bm retries n
           \<and> ((\<forall>k. env k bm = bm) \<longrightarrow> cross_full bm idx count)
       | Some bi \<Rightarrow> bi + count \<le> 64 * length bm
           \<and> claimed (interfered env bm retries n) \<inter> {bi..<bi + count} = {}
           \<and> claimed bm' = claimed (interfered env bm retries n) \<union> {bi..<bi + count})"
  using assms
proof (induction "3 - retries" arbitrary: bm retries rule: less_induct)
  case less
  note once = mi_across_once_spec [where env = "env retries", OF less.prems(1-3) less.prems(5) [OF refl]]
  then obtain r where o: "mi_try_find_claim_field_across_once (env retries) bm (length bm) idx count = Some r"
    and post: "case r of
         Inl (None, bm') \<Rightarrow> bm' = bm \<and> cross_full bm idx count
       | Inl (Some bi, bm') \<Rightarrow> length bm' = length bm \<and> bi + count \<le> 64 * length bm
           \<and> (\<exists>bm0 \<in> {bm, env retries bm}. claimed bm0 \<inter> {bi..<bi + count} = {}
               \<and> claimed bm' = claimed bm0 \<union> {bi..<bi + count})
       | Inr bm' \<Rightarrow> bm' = env retries bm \<and> env retries bm \<noteq> bm" by blast
  note unf = mi_bitmap_try_find_claim_field_across.simps [of env bm "length bm" idx count retries]
  show ?case
  proof (cases r)
    case (Inl res)
    obtain b bm' where res: "res = (b, bm')" by fastforce
    show ?thesis
    proof (cases b)
      case None
      then show ?thesis using o post Inl res unf
        by (intro exI [of _ None] exI [of _ bm] exI [of _ 0]) simp
    next
      case (Some bi)
      then obtain bm0 where bm0: "bm0 \<in> {bm, env retries bm}" "claimed bm0 \<inter> {bi..<bi + count} = {}"
          "claimed bm' = claimed bm0 \<union> {bi..<bi + count}"
        using post Inl res by auto
      obtain n where n: "bm0 = interfered env bm retries n" "n \<le> 1"
        using bm0(1) that [of 0] that [of 1] by auto
      then show ?thesis using o post Inl res Some bm0 unf less.prems(4)
        by (intro exI [of _ "Some bi"] exI [of _ bm'] exI [of _ n]) simp
    qed
  next
    case (Inr bm1)
    then have bm1: "bm1 = env retries bm" "env retries bm \<noteq> bm" using post by simp_all
    have l1: "length bm1 = length bm" using bm1 less.prems(5) by simp
    show ?thesis
    proof (cases "retries \<le> 2")
      case False
      then show ?thesis using o Inr bm1 unf l1 less.prems(4)
        by (intro exI [of _ None] exI [of _ bm1] exI [of _ 1]) auto
    next
      case True
      have ih: "\<exists>r bm' n. mi_bitmap_try_find_claim_field_across env bm1 (length bm1) idx count (retries + 1) = Some (r, bm')
        \<and> length bm' = length bm1 \<and> n \<le> 4 - (retries + 1)
        \<and> (case r of
             None \<Rightarrow> bm' = interfered env bm1 (retries + 1) n
               \<and> ((\<forall>k. env k bm1 = bm1) \<longrightarrow> cross_full bm1 idx count)
           | Some bi \<Rightarrow> bi + count \<le> 64 * length bm1
               \<and> claimed (interfered env bm1 (retries + 1) n) \<inter> {bi..<bi + count} = {}
               \<and> claimed bm' = claimed (interfered env bm1 (retries + 1) n) \<union> {bi..<bi + count})"
        using True less.prems l1 by (intro less.hyps) simp_all
      then obtain r2 bm2 n where rec:
          "mi_bitmap_try_find_claim_field_across env bm1 (length bm1) idx count (retries + 1) = Some (r2, bm2)"
          "length bm2 = length bm1" "n \<le> 4 - (retries + 1)"
        and post2: "case r2 of
             None \<Rightarrow> bm2 = interfered env bm1 (retries + 1) n
               \<and> ((\<forall>k. env k bm1 = bm1) \<longrightarrow> cross_full bm1 idx count)
           | Some bi \<Rightarrow> bi + count \<le> 64 * length bm1
               \<and> claimed (interfered env bm1 (retries + 1) n) \<inter> {bi..<bi + count} = {}
               \<and> claimed bm2 = claimed (interfered env bm1 (retries + 1) n) \<union> {bi..<bi + count}"
        by blast
      have "interfered env bm retries (Suc n) = interfered env bm1 (retries + 1) n" by (simp add: bm1(1))
      moreover have "mi_bitmap_try_find_claim_field_across env bm (length bm) idx count retries = Some (r2, bm2)"
        using o Inr True rec(1) l1 unf by simp
      moreover have "Suc n \<le> 4 - retries" using rec(3) True by simp
      ultimately show ?thesis using rec(2) post2 l1 bm1
        by (intro exI [of _ r2] exI [of _ bm2] exI [of _ "Suc n"]) (cases r2, auto)
    qed
  qed
qed

lemma mi_find_from_claim_across_loop_spec:
  assumes "bm \<noteq> []" "0 < count" "count < 2 ^ 63"
    and "idle = (\<lambda>_ _ b. b)"
  shows "\<exists>r bm'. mi_find_from_claim_across_loop n idle bm (length bm) idx count = Some (r, bm')
    \<and> length bm' = length bm
    \<and> (case r of
         None \<Rightarrow> bm' = bm \<and> (\<forall>i \<in> visited n (length bm) idx. field_full bm i count \<and> cross_full bm i count)
       | Some bi \<Rightarrow> bi + count \<le> 64 * length bm
           \<and> claimed bm \<inter> {bi..<bi + count} = {} \<and> claimed bm' = claimed bm \<union> {bi..<bi + count})"
proof (induction n arbitrary: idx)
  case 0
  then show ?case by (simp add: visited_def)
next
  case (Suc n)
  define i where "i = (if idx \<ge> length bm then 0 else idx)"
  have fields: "0 < length bm" using assms(1) by simp
  have i: "i < length bm" using fields by (simp add: i_def)
  obtain r bm' where f: "(if count \<le> MI_BITMAP_FIELD_BITS then mi_bitmap_try_find_claim_field bm i count
        else Some (None, bm)) = Some (r, bm')" "length bm' = length bm"
    and post: "case r of None \<Rightarrow> bm' = bm \<and> field_full bm i count
       | Some bi \<Rightarrow> bi + count \<le> 64 * length bm
           \<and> claimed bm \<inter> {bi..<bi + count} = {} \<and> claimed bm' = claimed bm \<union> {bi..<bi + count}"
  proof (cases "count \<le> 64")
    case False
    then have "field_full bm i count" by (simp add: field_full_def)
    then show thesis using that [of None bm] False by simp
  next
    case True
    obtain r bm' where "mi_bitmap_try_find_claim_field bm i count = Some (r, bm')" "length bm' = length bm"
      and p: "case r of None \<Rightarrow> bm' = bm \<and> field_full bm i count
       | Some bi \<Rightarrow> bi div 64 = i \<and> bi mod 64 + count \<le> 64
           \<and> claimed bm \<inter> {bi..<bi + count} = {} \<and> claimed bm' = claimed bm \<union> {bi..<bi + count}
           \<and> (\<forall>q < bi mod 64. claimed bm \<inter> {64 * i + q..<64 * i + q + count} \<noteq> {})"
      using mi_bitmap_try_find_claim_field_spec [OF i assms(2) True] by blast
    moreover have "bi + count \<le> 64 * length bm" if "r = Some bi" for bi
      using p that i by (intro range_fits) auto
    ultimately show thesis using that [of r bm'] True by (cases r) auto
  qed
  show ?case
  proof (cases r)
    case (Some bi)
    then show ?thesis using f post by (simp add: Let_def i_def [symmetric])
  next
    case None
    then have same: "bm' = bm" "field_full bm i count" using post by simp_all
    obtain r2 bm2 k where a: "mi_bitmap_try_find_claim_field_across (idle i) bm (length bm) i count 0 = Some (r2, bm2)"
        "length bm2 = length bm"
      and post2: "case r2 of
         None \<Rightarrow> bm2 = interfered (idle i) bm 0 k
           \<and> ((\<forall>k. idle i k bm = bm) \<longrightarrow> cross_full bm i count)
       | Some bi \<Rightarrow> bi + count \<le> 64 * length bm
           \<and> claimed (interfered (idle i) bm 0 k) \<inter> {bi..<bi + count} = {}
           \<and> claimed bm2 = claimed (interfered (idle i) bm 0 k) \<union> {bi..<bi + count}"
      using mi_across_retry_spec [of i bm count 0 "idle i"] i assms by auto
    have idle: "interfered (idle i) bm 0 k = bm" by (rule interfered_id) (simp add: assms(4))
    show ?thesis
    proof (cases r2)
      case (Some bi)
      then show ?thesis using f same None a post2 idle by (simp add: Let_def i_def [symmetric])
    next
      case None2: None
      then have "bm2 = bm" "cross_full bm i count" using post2 idle assms(4) by simp_all
      moreover have "mi_find_from_claim_across_loop (Suc n) idle bm (length bm) idx count =
          mi_find_from_claim_across_loop n idle bm2 (length bm) (i + 1) count"
        using f same None a None2 by (simp add: Let_def i_def [symmetric])
      moreover obtain r3 bm3 where
          "mi_find_from_claim_across_loop n idle bm (length bm) (i + 1) count = Some (r3, bm3)"
          "length bm3 = length bm"
        and "case r3 of
         None \<Rightarrow> bm3 = bm \<and> (\<forall>i \<in> visited n (length bm) (i + 1). field_full bm i count \<and> cross_full bm i count)
       | Some bi \<Rightarrow> bi + count \<le> 64 * length bm
           \<and> claimed bm \<inter> {bi..<bi + count} = {} \<and> claimed bm3 = claimed bm \<union> {bi..<bi + count}"
        using Suc.IH [of "i + 1"] by blast
      ultimately show ?thesis unfolding visited_Suc [OF fields] i_def [symmetric]
        using same(2) by (cases r3) auto
    qed
  qed
qed

section \<open>Operations across fields as set operations\<close>

fun maskset :: "nat \<Rightarrow> usize list \<Rightarrow> nat set" where
  "maskset f [] = {}"
| "maskset f (m # ms) = {b. b div 64 = f \<and> bit m (b mod 64)} \<union> maskset (f + 1) ms"

lemma maskset_field: "b \<in> maskset f ms \<Longrightarrow> f \<le> b div 64 \<and> b div 64 < f + length ms"
  by (induction ms arbitrary: f) fastforce+

lemma mask_field_range:
  assumes "bi mod 64 + count \<le> 64" "bi div 64 = f"
  shows "{b. b div 64 = f \<and> bit (mi_bitmap_mask count (bi mod 64)) (b mod 64)} = {bi..<bi + count}"
proof (rule set_eqI)
  fix b
  show "b \<in> {b. b div 64 = f \<and> bit (mi_bitmap_mask count (bi mod 64)) (b mod 64)} \<longleftrightarrow> b \<in> {bi..<bi + count}"
    unfolding range_bit_mask [OF assms(1)] assms(2) mem_Collect_eq by (rule refl)
qed

lemma full_field_range: "{b. b div 64 = f \<and> bit (NOT 0 :: usize) (b mod 64)} = {64 * f..<64 * f + 64}"
  using mask_field_range [of "64 * f" 64 f] by (simp add: mi_bitmap_mask_def)

lemma maskset_full:
  "maskset f (replicate n MI_BITMAP_FIELD_FULL @ ms) = {64 * f..<64 * (f + n)} \<union> maskset (f + n) ms"
proof (induction n arbitrary: f)
  case (Suc n)
  have "{64 * f..<64 * (f + Suc n)} = {64 * f..<64 * f + 64} \<union> {64 * (f + 1)..<64 * (f + 1 + n)}"
    by auto
  then show ?case using Suc.IH [of "f + 1"] full_field_range [of f]
    by (simp del: bit.compl_zero) blast
qed simp

lemma mi_across_masks_spec:
  assumes "0 < count" "bi + count \<le> 64 * fields"
  shows "maskset (mi_bitmap_index_field bi) (mi_across_masks bi count) = {bi..<bi + count}"
    and "mi_bitmap_index_field bi + length (mi_across_masks bi count) \<le> fields"
proof -
  define f where "f = bi div 64"
  have b: "bi = 64 * f + bi mod 64" "bi mod 64 < 64" by (simp_all add: f_def)
  have "maskset f (mi_across_masks bi count) = {bi..<bi + count} \<and>
      f + length (mi_across_masks bi count) \<le> fields"
  proof (cases "bi mod 64 + count \<le> 64")
    case True
    then have "mi_across_masks bi count = [mi_bitmap_mask count (bi mod 64)]"
      by (simp add: mi_across_masks_def mi_bitmap_mask_across_def mi_bitmap_index_bit_in_field_def)
    moreover have "f < fields" using b assms by linarith
    ultimately show ?thesis using mask_field_range [OF True, of f] by (simp add: f_def)
  next
    case False
    define pre where "pre = 64 - bi mod 64"
    define rest where "rest = (count - pre) mod 64"
    define mid where "mid = (count - pre) div 64"
    have pre: "pre < count" "0 < pre" "bi + pre = 64 * (f + 1)" "bi mod 64 + pre \<le> 64"
      using False b by (simp_all add: pre_def)
    have count: "count = pre + 64 * mid + rest" "rest < 64" using pre by (simp_all add: mid_def rest_def)
    have post_nz: "mi_bitmap_mask rest 0 \<noteq> 0" if "rest \<noteq> 0"
      using bit_mi_bitmap_mask [of 0 rest 0] that count(2) by auto
    have ms: "mi_across_masks bi count = mi_bitmap_mask pre (bi mod 64)
        # replicate mid MI_BITMAP_FIELD_FULL @ (if rest = 0 then [] else [mi_bitmap_mask rest 0])"
      using False post_nz
      by (simp add: mi_across_masks_def mi_bitmap_mask_across_def mi_bitmap_index_bit_in_field_def
          Let_def pre_def [symmetric] rest_def [symmetric] mid_def [symmetric])
    have tail: "maskset (f + 1 + mid) (if rest = 0 then [] else [mi_bitmap_mask rest 0])
        = {64 * (f + 1 + mid)..<64 * (f + 1 + mid) + rest}"
      using mask_field_range [of "64 * (f + 1 + mid)" rest "f + 1 + mid"] count(2) by simp
    have "maskset f (mi_across_masks bi count) =
        {bi..<bi + pre} \<union> ({64 * (f + 1)..<64 * (f + 1 + mid)} \<union> {64 * (f + 1 + mid)..<64 * (f + 1 + mid) + rest})"
      unfolding ms maskset.simps(2) maskset_full tail
      using mask_field_range [OF pre(4), of f] by (simp add: f_def)
    also have "\<dots> = {bi..<bi + count}"
      using pre(2,3) count(1) by auto
    finally have "maskset f (mi_across_masks bi count) = {bi..<bi + count}" .
    moreover have "f + length (mi_across_masks bi count) \<le> fields"
    proof -
      have "64 * (f + 1 + mid) + rest = bi + count" using pre(3) count(1) by (simp add: algebra_simps)
      then have "64 * (f + 1 + mid) + rest \<le> 64 * fields" using assms(2) by simp
      then show ?thesis unfolding ms by (cases "rest = 0") auto
    qed
    ultimately show ?thesis by blast
  qed
  then show "maskset (mi_bitmap_index_field bi) (mi_across_masks bi count) = {bi..<bi + count}"
    and "mi_bitmap_index_field bi + length (mi_across_masks bi count) \<le> fields"
    by (simp_all add: mi_bitmap_index_field_def f_def)
qed

lemma field_mask_word:
  assumes "f < length bm"
  shows "bm ! f AND m = 0 \<longleftrightarrow> claimed bm \<inter> {b. b div 64 = f \<and> bit m (b mod 64)} = {}"
    and "bm ! f AND m = m \<longleftrightarrow> {b. b div 64 = f \<and> bit m (b mod 64)} \<subseteq> claimed bm"
proof -
  have r: "(\<forall>b. b div 64 = f \<and> bit m (b mod 64) \<longrightarrow> P b) \<longleftrightarrow> (\<forall>n < 64. bit m n \<longrightarrow> P (64 * f + n))" for P
  proof
    assume a: "\<forall>b. b div 64 = f \<and> bit m (b mod 64) \<longrightarrow> P b"
    show "\<forall>n < 64. bit m n \<longrightarrow> P (64 * f + n)" using a by (auto intro!: a [rule_format])
  next
    assume a: "\<forall>n < 64. bit m n \<longrightarrow> P (64 * f + n)"
    show "\<forall>b. b div 64 = f \<and> bit m (b mod 64) \<longrightarrow> P b"
      using a by (metis mod_less_divisor mult_div_mod_eq zero_less_numeral)
  qed
  have c: "64 * f + n \<in> claimed bm \<longleftrightarrow> bit (bm ! f) n" if "n < 64" for n
    using that assms by (simp add: claimed_iff)
  have "claimed bm \<inter> {b. b div 64 = f \<and> bit m (b mod 64)} = {} \<longleftrightarrow>
      (\<forall>b. b div 64 = f \<and> bit m (b mod 64) \<longrightarrow> b \<notin> claimed bm)" by blast
  then show "bm ! f AND m = 0 \<longleftrightarrow> claimed bm \<inter> {b. b div 64 = f \<and> bit m (b mod 64)} = {}"
    unfolding r word_and_eq_zero_iff using c by auto
  have "{b. b div 64 = f \<and> bit m (b mod 64)} \<subseteq> claimed bm \<longleftrightarrow>
      (\<forall>b. b div 64 = f \<and> bit m (b mod 64) \<longrightarrow> b \<in> claimed bm)" by blast
  then show "bm ! f AND m = m \<longleftrightarrow> {b. b div 64 = f \<and> bit m (b mod 64)} \<subseteq> claimed bm"
    unfolding r word_and_eq_iff using c by auto
qed

lemma claimed_field_or:
  "f < length bm \<Longrightarrow> claimed (bm[f := bm ! f OR m]) = claimed bm \<union> {b. b div 64 = f \<and> bit m (b mod 64)}"
  by (rule set_eqI, unfold claimed_update) (auto simp: claimed_iff bit_or_iff)

lemma claimed_field_and_not:
  assumes "f < length bm"
  shows "claimed (bm[f := bm ! f AND NOT m]) = claimed bm - {b. b div 64 = f \<and> bit m (b mod 64)}"
proof (rule set_eqI)
  fix b :: nat
  have "b mod 64 < 64" by simp
  then show "b \<in> claimed (bm[f := bm ! f AND NOT m])
      \<longleftrightarrow> b \<in> claimed bm - {b. b div 64 = f \<and> bit m (b mod 64)}"
    unfolding claimed_update using assms by (auto simp: claimed_iff bit_and_iff bit_not_iff)
qed

lemma mi_claim_fields_spec:
  assumes "f + length ms \<le> length bm"
  shows "\<exists>bm'. mi_claim_fields bm f ms az anyz =
      Some (az \<and> claimed bm \<inter> maskset f ms = {}, anyz \<or> \<not> maskset f ms \<subseteq> claimed bm, bm')
    \<and> length bm' = length bm \<and> claimed bm' = claimed bm \<union> maskset f ms"
  using assms
proof (induction ms arbitrary: bm f az anyz)
  case (Cons m ms)
  let ?M = "{b. b div 64 = f \<and> bit m (b mod 64)}"
  define bm1 where "bm1 = bm[f := bm ! f OR m]"
  have f: "f < length bm" using Cons.prems by simp
  have c1: "claimed bm1 = claimed bm \<union> ?M" "length bm1 = length bm"
    using claimed_field_or [OF f] by (simp_all add: bm1_def)
  have dis: "?M \<inter> maskset (f + 1) ms = {}" using maskset_field [of _ "f + 1" ms] by fastforce
  obtain bm' where r: "mi_claim_fields bm1 (f + 1) ms (if bm ! f AND m \<noteq> 0 then False else az)
        (if bm ! f AND m \<noteq> m then True else anyz) =
      Some ((if bm ! f AND m \<noteq> 0 then False else az) \<and> claimed bm1 \<inter> maskset (f + 1) ms = {},
        (if bm ! f AND m \<noteq> m then True else anyz) \<or> \<not> maskset (f + 1) ms \<subseteq> claimed bm1, bm')"
      "length bm' = length bm1" "claimed bm' = claimed bm1 \<union> maskset (f + 1) ms"
    using Cons.IH [of "f + 1" bm1] Cons.prems c1(2) by force
  have 1: "(if bm ! f AND m \<noteq> 0 then False else az) \<and> claimed bm1 \<inter> maskset (f + 1) ms = {}
      \<longleftrightarrow> az \<and> claimed bm \<inter> maskset f (m # ms) = {}"
    using field_mask_word(1) [OF f, of m] dis unfolding c1 by auto
  have 2: "(if bm ! f AND m \<noteq> m then True else anyz) \<or> \<not> maskset (f + 1) ms \<subseteq> claimed bm1
      \<longleftrightarrow> anyz \<or> \<not> maskset f (m # ms) \<subseteq> claimed bm"
    using field_mask_word(2) [OF f, of m] dis unfolding c1 by auto
  have "mi_claim_fields bm f (m # ms) az anyz = mi_claim_fields bm1 (f + 1) ms
      (if bm ! f AND m \<noteq> 0 then False else az) (if bm ! f AND m \<noteq> m then True else anyz)"
    using f by (simp add: mem_simps bm1_def)
  moreover have "claimed bm1 \<union> maskset (f + 1) ms = claimed bm \<union> maskset f (m # ms)"
    unfolding c1 by auto
  ultimately show ?case using r unfolding 1 2 by (auto simp only: c1)
qed simp

lemma mi_unclaim_fields_spec:
  assumes "f + length ms \<le> length bm"
  shows "\<exists>bm'. mi_unclaim_fields bm f ms ao = Some (ao \<and> maskset f ms \<subseteq> claimed bm, bm')
    \<and> length bm' = length bm \<and> claimed bm' = claimed bm - maskset f ms"
  using assms
proof (induction ms arbitrary: bm f ao)
  case (Cons m ms)
  let ?M = "{b. b div 64 = f \<and> bit m (b mod 64)}"
  define bm1 where "bm1 = bm[f := bm ! f AND NOT m]"
  have f: "f < length bm" using Cons.prems by simp
  have c1: "claimed bm1 = claimed bm - ?M" "length bm1 = length bm"
    using claimed_field_and_not [OF f] by (simp_all add: bm1_def)
  have dis: "?M \<inter> maskset (f + 1) ms = {}" using maskset_field [of _ "f + 1" ms] by fastforce
  obtain bm' where r: "mi_unclaim_fields bm1 (f + 1) ms (if bm ! f AND m \<noteq> m then False else ao) =
      Some ((if bm ! f AND m \<noteq> m then False else ao) \<and> maskset (f + 1) ms \<subseteq> claimed bm1, bm')"
      "length bm' = length bm1" "claimed bm' = claimed bm1 - maskset (f + 1) ms"
    using Cons.IH [of "f + 1" bm1] Cons.prems c1(2) by force
  have 1: "(if bm ! f AND m \<noteq> m then False else ao) \<and> maskset (f + 1) ms \<subseteq> claimed bm1
      \<longleftrightarrow> ao \<and> maskset f (m # ms) \<subseteq> claimed bm"
    using field_mask_word(2) [OF f, of m] dis unfolding c1 by auto
  have "mi_unclaim_fields bm f (m # ms) ao =
      mi_unclaim_fields bm1 (f + 1) ms (if bm ! f AND m \<noteq> m then False else ao)"
    using f by (simp add: mem_simps bm1_def)
  moreover have "claimed bm1 - maskset (f + 1) ms = claimed bm - maskset f (m # ms)"
    unfolding c1 by auto
  ultimately show ?case using r unfolding 1 by (auto simp only: c1)
qed simp

lemma mi_is_claimed_fields_spec:
  assumes "f + length ms \<le> length bm"
  shows "mi_is_claimed_fields bm f ms ao anyo =
      Some (ao \<and> maskset f ms \<subseteq> claimed bm, anyo \<or> claimed bm \<inter> maskset f ms \<noteq> {})"
  using assms
proof (induction ms arbitrary: f ao anyo)
  case (Cons m ms)
  have f: "f < length bm" using Cons.prems by simp
  show ?case using field_mask_word [OF f, of m] Cons.IH [of "f + 1"] Cons.prems f
    by (auto simp: mem_simps)
qed simp

section \<open>The interface the arena uses\<close>

text \<open>
  A store of bits with ranges that are claimed, unclaimed and queried: the laws that the
  clients of the bitmap rely on, over the abstraction bits (the set of claimed indices).
\<close>

locale bit_claims =
  fixes bits :: "'b \<Rightarrow> nat set"
    and capacity :: "'b \<Rightarrow> nat"
    and claim :: "'b \<Rightarrow> nat \<Rightarrow> nat \<Rightarrow> (bool \<times> bool \<times> 'b) option"
    and unclaim :: "'b \<Rightarrow> nat \<Rightarrow> nat \<Rightarrow> (bool \<times> 'b) option"
    and query :: "'b \<Rightarrow> nat \<Rightarrow> nat \<Rightarrow> (bool \<times> bool) option"
  assumes bits_inject: "bits b = bits b' \<Longrightarrow> capacity b = capacity b' \<Longrightarrow> b = b'"
    and claim_law: "0 < count \<Longrightarrow> i + count \<le> capacity b \<Longrightarrow>
      \<exists>b'. claim b count i = Some (bits b \<inter> {i..<i + count} = {}, \<not> {i..<i + count} \<subseteq> bits b, b')
        \<and> bits b' = bits b \<union> {i..<i + count} \<and> capacity b' = capacity b"
    and unclaim_law: "0 < count \<Longrightarrow> i + count \<le> capacity b \<Longrightarrow>
      \<exists>b'. unclaim b count i = Some ({i..<i + count} \<subseteq> bits b, b')
        \<and> bits b' = bits b - {i..<i + count} \<and> capacity b' = capacity b"
    and query_law: "0 < count \<Longrightarrow> i + count \<le> capacity b \<Longrightarrow>
      query b count i = Some ({i..<i + count} \<subseteq> bits b, bits b \<inter> {i..<i + count} \<noteq> {})"
begin

lemma claim_then_unclaim:
  assumes "0 < count" "i + count \<le> capacity b" "claim b count i = Some (True, any_zero, b')"
  shows "unclaim b' count i = Some (True, b)"
proof -
  have b': "bits b \<inter> {i..<i + count} = {}" "bits b' = bits b \<union> {i..<i + count}" "capacity b' = capacity b"
    using claim_law [OF assms(1,2)] assms(3) by auto
  obtain b2 where b2: "unclaim b' count i = Some ({i..<i + count} \<subseteq> bits b', b2)"
      "bits b2 = bits b' - {i..<i + count}" "capacity b2 = capacity b'"
    using unclaim_law [of count i b'] assms(1,2) b'(3) by auto
  have "b2 = b" by (rule bits_inject) (use b2 b' in auto)
  then show ?thesis using b2 b' by auto
qed

lemma claim_exclusive:
  assumes "0 < count" "i + count \<le> capacity b" "claim b count i = Some (z, any_zero, b')"
    and "0 < count2" "i2 + count2 \<le> capacity b" "{i..<i + count} \<inter> {i2..<i2 + count2} \<noteq> {}"
  shows "\<exists>az b2. claim b' count2 i2 = Some (False, az, b2)"
proof -
  have b': "bits b' = bits b \<union> {i..<i + count}" "capacity b' = capacity b"
    using claim_law [OF assms(1,2)] assms(3) by auto
  then show ?thesis using claim_law [of count2 i2 b'] assms(4-6) by fastforce
qed

lemma claim_then_query:
  assumes "0 < count" "i + count \<le> capacity b" "claim b count i = Some (z, any_zero, b')"
  shows "query b' count i = Some (True, True)"
proof -
  have b': "bits b' = bits b \<union> {i..<i + count}" "capacity b' = capacity b"
    using claim_law [OF assms(1,2)] assms(3) by auto
  then show ?thesis using query_law [of count i b'] assms(1,2) by auto
qed

end

text \<open>With a search that claims the range it returns, or proves that there is none.\<close>

locale bit_search = bit_claims bits capacity claim unclaim query
  for bits :: "'b \<Rightarrow> nat set" and capacity and claim and unclaim and query +
  fixes search :: "'b \<Rightarrow> nat \<Rightarrow> nat \<Rightarrow> (nat option \<times> 'b) option"
  assumes search_law: "0 < capacity b \<Longrightarrow> 2 < count \<Longrightarrow> count < 2 ^ 63 \<Longrightarrow>
      \<exists>r b'. search b start count = Some (r, b') \<and> capacity b' = capacity b
        \<and> (case r of
             None \<Rightarrow> b' = b \<and> (\<forall>i. i + count \<le> capacity b \<longrightarrow> bits b \<inter> {i..<i + count} \<noteq> {})
           | Some i \<Rightarrow> i + count \<le> capacity b \<and> bits b \<inter> {i..<i + count} = {}
               \<and> bits b' = bits b \<union> {i..<i + count})"
begin

lemma search_then_unclaim:
  assumes "0 < capacity b" "2 < count" "count < 2 ^ 63" "search b start count = Some (Some i, b')"
  shows "unclaim b' count i = Some (True, b)"
proof -
  have s: "i + count \<le> capacity b" "bits b \<inter> {i..<i + count} = {}"
      "bits b' = bits b \<union> {i..<i + count}" "capacity b' = capacity b"
    using search_law [OF assms(1-3), of start] assms(4) by auto
  have "0 < count" using assms(2) by simp
  then obtain b2 where b2: "unclaim b' count i = Some ({i..<i + count} \<subseteq> bits b', b2)"
      "bits b2 = bits b' - {i..<i + count}" "capacity b2 = capacity b'"
    using unclaim_law [of count i b'] s by auto
  have "b2 = b" by (rule bits_inject) (use b2 s in auto)
  then show ?thesis using b2 s by auto
qed

end

definition bitmap_capacity :: "mi_bitmap \<Rightarrow> nat" where
  "bitmap_capacity bm = 64 * length bm"

text \<open>The search of the whole bitmap, undisturbed by other threads.\<close>

definition mi_bitmap_search :: "mi_bitmap \<Rightarrow> nat \<Rightarrow> nat \<Rightarrow> (nat option \<times> mi_bitmap) option" where
  "mi_bitmap_search bm start count =
     mi_bitmap_try_find_from_claim_across (\<lambda>_ _ b. b) bm (length bm) start count"

lemma full_everywhere:
  assumes "\<forall>i < length bm. field_full bm i count \<and> cross_full bm i count"
    and "i + count \<le> 64 * length bm" "0 < count"
  shows "claimed bm \<inter> {i..<i + count} \<noteq> {}"
proof -
  have e: "64 * (i div 64) + i mod 64 = i" by simp
  have lt: "i div 64 < length bm" using assms(2,3) by auto
  show ?thesis
  proof (cases "i mod 64 + count \<le> 64")
    case True
    then show ?thesis using assms(1) lt e by (metis field_full_def)
  next
    case False
    have "i mod 64 < 64" by simp
    then show ?thesis using False assms(1,2) lt e unfolding cross_full_def by (metis not_le)
  qed
qed

lemma mi_bitmap_search_law:
  assumes "0 < bitmap_capacity bm" "2 < count" "count < 2 ^ 63"
  shows "\<exists>r bm'. mi_bitmap_search bm start count = Some (r, bm') \<and> bitmap_capacity bm' = bitmap_capacity bm
    \<and> (case r of
         None \<Rightarrow> bm' = bm \<and> (\<forall>i. i + count \<le> bitmap_capacity bm \<longrightarrow> claimed bm \<inter> {i..<i + count} \<noteq> {})
       | Some i \<Rightarrow> i + count \<le> bitmap_capacity bm \<and> claimed bm \<inter> {i..<i + count} = {}
           \<and> claimed bm' = claimed bm \<union> {i..<i + count})"
proof -
  have ne: "bm \<noteq> []" "0 < length bm" using assms(1) by (auto simp: bitmap_capacity_def)
  have c: "0 < count" using assms(2) by simp
  obtain r bm' where s: "mi_find_from_claim_across_loop (length bm) (\<lambda>_ _ b. b) bm (length bm) start count = Some (r, bm')"
      "length bm' = length bm"
    and post: "case r of
         None \<Rightarrow> bm' = bm \<and> (\<forall>i \<in> visited (length bm) (length bm) start. field_full bm i count \<and> cross_full bm i count)
       | Some bi \<Rightarrow> bi + count \<le> 64 * length bm
           \<and> claimed bm \<inter> {bi..<bi + count} = {} \<and> claimed bm' = claimed bm \<union> {bi..<bi + count}"
    using mi_find_from_claim_across_loop_spec [OF ne(1) c assms(3) refl] by blast
  have "mi_bitmap_search bm start count = Some (r, bm')"
    using s(1) assms(2) by (simp add: mi_bitmap_search_def mi_bitmap_try_find_from_claim_across_def)
  moreover have "\<forall>i. i + count \<le> 64 * length bm \<longrightarrow> claimed bm \<inter> {i..<i + count} \<noteq> {}" if "r = None"
    using post that visited_all [OF ne(2)] full_everywhere [of bm count] c by (simp del: Int_atLeastLessThan)
  ultimately show ?thesis using post s(2) by (cases r) (auto simp: bitmap_capacity_def)
qed

lemma mi_bitmap_claim_across_law:
  assumes "0 < count" "i + count \<le> bitmap_capacity bm"
  shows "\<exists>bm'. mi_bitmap_claim_across bm count i =
      Some (claimed bm \<inter> {i..<i + count} = {}, \<not> {i..<i + count} \<subseteq> claimed bm, bm')
    \<and> claimed bm' = claimed bm \<union> {i..<i + count} \<and> bitmap_capacity bm' = bitmap_capacity bm"
  using mi_claim_fields_spec [of "mi_bitmap_index_field i" "mi_across_masks i count" bm True False]
    mi_across_masks_spec [OF assms(1), of i "length bm"] assms(2)
  by (auto simp: mi_bitmap_claim_across_def bitmap_capacity_def)

lemma mi_bitmap_unclaim_across_law:
  assumes "0 < count" "i + count \<le> bitmap_capacity bm"
  shows "\<exists>bm'. mi_bitmap_unclaim_across bm count i = Some ({i..<i + count} \<subseteq> claimed bm, bm')
    \<and> claimed bm' = claimed bm - {i..<i + count} \<and> bitmap_capacity bm' = bitmap_capacity bm"
  using mi_unclaim_fields_spec [of "mi_bitmap_index_field i" "mi_across_masks i count" bm True]
    mi_across_masks_spec [OF assms(1), of i "length bm"] assms(2)
  by (auto simp: mi_bitmap_unclaim_across_def bitmap_capacity_def)

lemma mi_bitmap_query_across_law:
  assumes "0 < count" "i + count \<le> bitmap_capacity bm"
  shows "mi_bitmap_is_claimedx_across bm count i =
    Some ({i..<i + count} \<subseteq> claimed bm, claimed bm \<inter> {i..<i + count} \<noteq> {})"
  using mi_is_claimed_fields_spec [of "mi_bitmap_index_field i" "mi_across_masks i count" bm True False]
    mi_across_masks_spec [OF assms(1), of i "length bm"] assms(2)
  by (auto simp: mi_bitmap_is_claimedx_across_def bitmap_capacity_def)

lemma bitmap_inject: "claimed b = claimed b' \<Longrightarrow> bitmap_capacity b = bitmap_capacity b' \<Longrightarrow> b = b'"
  by (rule claimed_inject) (simp_all add: bitmap_capacity_def)

interpretation bm: bit_search claimed bitmap_capacity mi_bitmap_claim_across
  mi_bitmap_unclaim_across mi_bitmap_is_claimedx_across mi_bitmap_search
  by unfold_locales
    (rule bitmap_inject, assumption, assumption, rule mi_bitmap_claim_across_law, assumption,
      assumption, rule mi_bitmap_unclaim_across_law, assumption, assumption,
      rule mi_bitmap_query_across_law, assumption, assumption, rule mi_bitmap_search_law)

section \<open>Properties\<close>

text \<open>
  claiming a sequence within one field is a first-fit search: with a count of 1 to 64
  bits it always returns, without leaving the array; it returns the lowest bit index at
  which the field has count zero bits, sets exactly these bits, and fails, changing
  nothing, only when the field has no such sequence. In particular the jumps over the
  highest conflicting bit never miss a free sequence.
\<close>

theorem try_find_claim_field_first_fit:
  assumes "idx < length bm" "0 < count" "count \<le> 64"
  shows "\<exists>r bm'. mi_bitmap_try_find_claim_field bm idx count = Some (r, bm') \<and> length bm' = length bm
    \<and> (case r of
         None \<Rightarrow> bm' = bm \<and>
           (\<forall>p. p + count \<le> 64 \<longrightarrow> claimed bm \<inter> {64 * idx + p..<64 * idx + p + count} \<noteq> {})
       | Some bi \<Rightarrow> bi div 64 = idx \<and> bi mod 64 + count \<le> 64
           \<and> claimed bm \<inter> {bi..<bi + count} = {} \<and> claimed bm' = claimed bm \<union> {bi..<bi + count}
           \<and> (\<forall>q < bi mod 64. claimed bm \<inter> {64 * idx + q..<64 * idx + q + count} \<noteq> {}))"
  using mi_bitmap_try_find_claim_field_spec [OF assms] unfolding field_full_def .

theorem try_find_claim_field_first_fit_witness:
  "\<exists>r bm'. mi_bitmap_try_find_claim_field [0, 0xF7] 1 3 = Some (r, bm') \<and> length bm' = 2"
  using try_find_claim_field_first_fit [of 1 "[0, 0xF7]" 3] by auto

text \<open>
  C10: the search for a sequence of more than two bits that may cross fields, undisturbed by
  other threads, returns within the array's bounds; it finds a sequence exactly when the
  bitmap has count consecutive zero bits anywhere, and then sets those and no other bits.
\<close>

theorem try_find_from_claim_across_complete:
  assumes "bm \<noteq> []" "2 < count" "count < 2 ^ 63"
  shows "\<exists>r bm'. mi_bitmap_try_find_from_claim_across (\<lambda>_ _ b. b) bm (length bm) start count = Some (r, bm')
    \<and> length bm' = length bm
    \<and> (r = None \<longleftrightarrow> (\<forall>i. i + count \<le> 64 * length bm \<longrightarrow> claimed bm \<inter> {i..<i + count} \<noteq> {}))
    \<and> (r = None \<longrightarrow> bm' = bm)
    \<and> (\<forall>i. r = Some i \<longrightarrow> i + count \<le> 64 * length bm \<and> claimed bm \<inter> {i..<i + count} = {}
         \<and> claimed bm' = claimed bm \<union> {i..<i + count})"
proof -
  have "0 < bitmap_capacity bm" using assms(1) by (simp add: bitmap_capacity_def)
  then obtain r bm' where r: "mi_bitmap_search bm start count = Some (r, bm')"
      "bitmap_capacity bm' = bitmap_capacity bm"
      "case r of
         None \<Rightarrow> bm' = bm \<and> (\<forall>i. i + count \<le> bitmap_capacity bm \<longrightarrow> claimed bm \<inter> {i..<i + count} \<noteq> {})
       | Some i \<Rightarrow> i + count \<le> bitmap_capacity bm \<and> claimed bm \<inter> {i..<i + count} = {}
           \<and> claimed bm' = claimed bm \<union> {i..<i + count}"
    using bm.search_law [OF _ assms(2,3)] by blast
  then show ?thesis unfolding mi_bitmap_search_def bitmap_capacity_def by (cases r) auto
qed

theorem try_find_from_claim_across_complete_witness:
  "\<exists>r bm'. mi_bitmap_try_find_from_claim_across (\<lambda>_ _ b. b) [0x7FFFFFFFFFFFFFFF, 0xFF]
        (length [0x7FFFFFFFFFFFFFFF, 0xFF :: usize]) 1 5 = Some (r, bm')
     \<and> length bm' = length [0x7FFFFFFFFFFFFFFF, 0xFF :: usize]"
proof -
  have h: "[0x7FFFFFFFFFFFFFFF, 0xFF :: usize] \<noteq> []" "2 < (5::nat)" "5 < (2::nat) ^ 63" by simp_all
  show ?thesis using try_find_from_claim_across_complete [OF h, of 1] by blast
qed

text \<open>
  C28: claiming across fields while other threads change the bitmap between the scan and the
  claim: the call returns after at most four attempts, and a failed call leaves no bit
  behind (the bitmap is what the other threads made of it), while a successful one sets
  exactly a range that was free in the bitmap which the last attempt worked on.
\<close>

theorem try_find_claim_field_across_rollback:
  assumes "idx < length bm" "0 < count" "count < 2 ^ 63"
    and env: "\<And>k b. length b = length bm \<Longrightarrow> length (env k b) = length bm"
  shows "\<exists>r bm' n. mi_bitmap_try_find_claim_field_across env bm (length bm) idx count 0 = Some (r, bm')
    \<and> n \<le> 4 \<and>
    (case r of
       None \<Rightarrow> bm' = interfered env bm 0 n
     | Some bi \<Rightarrow> bi + count \<le> 64 * length bm
         \<and> claimed (interfered env bm 0 n) \<inter> {bi..<bi + count} = {}
         \<and> claimed bm' = claimed (interfered env bm 0 n) \<union> {bi..<bi + count})"
proof -
  obtain r bm' n where "mi_bitmap_try_find_claim_field_across env bm (length bm) idx count 0 = Some (r, bm')"
    "n \<le> 4 - 0" "case r of
         None \<Rightarrow> bm' = interfered env bm 0 n \<and> ((\<forall>k. env k bm = bm) \<longrightarrow> cross_full bm idx count)
       | Some bi \<Rightarrow> bi + count \<le> 64 * length bm
           \<and> claimed (interfered env bm 0 n) \<inter> {bi..<bi + count} = {}
           \<and> claimed bm' = claimed (interfered env bm 0 n) \<union> {bi..<bi + count}"
    using mi_across_retry_spec [where env = env and retries = 0, OF assms(1-3) le0 assms(4)] by blast
  then show ?thesis by (intro exI [of _ r] exI [of _ bm'] exI [of _ n]) (cases r, auto)
qed

theorem try_find_claim_field_across_rollback_witness:
  "\<exists>r bm' n. mi_bitmap_try_find_claim_field_across (\<lambda>_ b. b[1 := 1]) [0, 0] (length [0, 0 :: usize]) 0 70 0
      = Some (r, bm') \<and> n \<le> 4 \<and>
    (case r of
       None \<Rightarrow> bm' = interfered (\<lambda>_ b. b[1 := 1]) [0, 0] 0 n
     | Some bi \<Rightarrow> bi + 70 \<le> 64 * length [0, 0 :: usize]
         \<and> claimed (interfered (\<lambda>_ b. b[1 := 1]) [0, 0] 0 n) \<inter> {bi..<bi + 70} = {}
         \<and> claimed bm' = claimed (interfered (\<lambda>_ b. b[1 := 1]) [0, 0] 0 n) \<union> {bi..<bi + 70})"
  by (rule try_find_claim_field_across_rollback) simp_all

text \<open>
  C29: on any range inside the bitmap, crossing fields or not, claim, query and unclaim act on
  exactly that range of bits and report exactly what they found there (all zero, some zero;
  all one, some one; all one).
\<close>

theorem bitmap_across_ranges:
  assumes "0 < count" "i + count \<le> 64 * length bm"
  shows "\<exists>bm1 bm2.
      mi_bitmap_claim_across bm count i =
        Some (claimed bm \<inter> {i..<i + count} = {}, \<not> {i..<i + count} \<subseteq> claimed bm, bm1)
    \<and> claimed bm1 = claimed bm \<union> {i..<i + count} \<and> length bm1 = length bm
    \<and> mi_bitmap_unclaim_across bm count i = Some ({i..<i + count} \<subseteq> claimed bm, bm2)
    \<and> claimed bm2 = claimed bm - {i..<i + count} \<and> length bm2 = length bm
    \<and> mi_bitmap_is_claimed_across bm count i = Some ({i..<i + count} \<subseteq> claimed bm)
    \<and> mi_bitmap_is_any_claimed_across bm count i = Some (claimed bm \<inter> {i..<i + count} \<noteq> {})"
proof -
  have c: "i + count \<le> bitmap_capacity bm" using assms(2) by (simp add: bitmap_capacity_def)
  show ?thesis
    using bm.claim_law [OF assms(1) c] bm.unclaim_law [OF assms(1) c] bm.query_law [OF assms(1) c]
    by (auto simp: bitmap_capacity_def mi_bitmap_is_claimed_across_def
        mi_bitmap_is_any_claimed_across_def)
qed

theorem bitmap_across_ranges_witness:
  "mi_bitmap_is_claimed_across [0, 0, 1] 60 100 = Some ({100..<100 + 60} \<subseteq> claimed [0, 0, 1])
   \<and> (\<exists>z. mi_bitmap_claim_across [0, 0, 1] 60 100 = Some z)"
proof -
  have h: "0 < (60::nat)" "100 + 60 \<le> 64 * length [0, 0, 1 :: usize]" by simp_all
  show ?thesis using bitmap_across_ranges [OF h] by blast
qed

text \<open>
  a range that was claimed as free is given back by unclaim: the call reports that all
  bits were set and restores the bitmap word for word, and until then every other claim of
  an overlapping range reports that it was not free.
\<close>

theorem bitmap_claim_roundtrip:
  assumes "0 < count" "i + count \<le> 64 * length bm"
    and "mi_bitmap_claim_across bm count i = Some (True, any_zero, bm')"
  shows "mi_bitmap_unclaim_across bm' count i = Some (True, bm) \<and>
    (\<forall>count2 i2. 0 < count2 \<and> i2 + count2 \<le> 64 * length bm \<and> {i..<i + count} \<inter> {i2..<i2 + count2} \<noteq> {}
       \<longrightarrow> (\<exists>az b2. mi_bitmap_claim_across bm' count2 i2 = Some (False, az, b2)))"
  using bm.claim_then_unclaim [of count i bm] bm.claim_exclusive [of count i bm] assms
  unfolding bitmap_capacity_def by blast

theorem bitmap_claim_roundtrip_witness:
  "\<exists>bm'. mi_bitmap_claim_across [0, 0] 70 3 = Some (True, True, bm')
     \<and> mi_bitmap_unclaim_across bm' 70 3 = Some (True, [0, 0])"
proof -
  have c: "mi_bitmap_claim_across [0, 0] 70 3 = Some (True, True, [0xFFFFFFFFFFFFFFF8, 0x1FF])"
    by code_simp
  have h: "0 < (70::nat)" "3 + 70 \<le> 64 * length [0, 0 :: usize]" by simp_all
  show ?thesis using c bitmap_claim_roundtrip [OF h c] by blast
qed

end
