(* ===== verification/CommitMask.thy ===== *)
theory CommitMask
  imports Bitmap
begin

text \<open>
  The commit masks of segments (include/mimalloc/internal.h and src/segment.c): sets of slices
  as eight 64-bit fields, the operations on them, the search for the next run of ones that
  mi_commit_mask_foreach iterates, and the commit, purge and delayed purge of ranges of a
  segment. Addresses and sizes in this part are natural numbers (a segment lies below 2^47).
  The operating system's answers, the clock and the options are an environment; the
  statistics are left out.
\<close>

section \<open>Commit masks\<close>

type_synonym mi_commit_mask = "usize list"

definition MI_COMMIT_SIZE :: nat where [simp]: "MI_COMMIT_SIZE = MI_SEGMENT_SLICE_SIZE"
definition MI_MINIMAL_COMMIT_SIZE :: nat where [simp]: "MI_MINIMAL_COMMIT_SIZE = 1 * MI_SEGMENT_SLICE_SIZE"
definition MI_COMMIT_MASK_BITS :: nat where [simp]: "MI_COMMIT_MASK_BITS = MI_SEGMENT_SIZE div MI_COMMIT_SIZE"
definition MI_COMMIT_MASK_FIELD_BITS :: nat where [simp]: "MI_COMMIT_MASK_FIELD_BITS = MI_SIZE_BITS"
definition MI_COMMIT_MASK_FIELD_COUNT :: nat where
  [simp]: "MI_COMMIT_MASK_FIELD_COUNT = MI_COMMIT_MASK_BITS div MI_COMMIT_MASK_FIELD_BITS"

definition mi_commit_mask_create_empty :: mi_commit_mask where
  "mi_commit_mask_create_empty = replicate MI_COMMIT_MASK_FIELD_COUNT 0"

definition mi_commit_mask_create_full :: mi_commit_mask where
  "mi_commit_mask_create_full = replicate MI_COMMIT_MASK_FIELD_COUNT (NOT 0)"

definition mi_commit_mask_is_empty :: "mi_commit_mask \<Rightarrow> bool" where
  "mi_commit_mask_is_empty cm = list_all (\<lambda>i. cm ! i = 0) [0..<MI_COMMIT_MASK_FIELD_COUNT]"

definition mi_commit_mask_is_full :: "mi_commit_mask \<Rightarrow> bool" where
  "mi_commit_mask_is_full cm = list_all (\<lambda>i. cm ! i = NOT 0) [0..<MI_COMMIT_MASK_FIELD_COUNT]"

definition mi_commit_mask_all_set :: "mi_commit_mask \<Rightarrow> mi_commit_mask \<Rightarrow> bool" where
  "mi_commit_mask_all_set commit cm =
     list_all (\<lambda>i. commit ! i AND cm ! i = cm ! i) [0..<MI_COMMIT_MASK_FIELD_COUNT]"

definition mi_commit_mask_any_set :: "mi_commit_mask \<Rightarrow> mi_commit_mask \<Rightarrow> bool" where
  "mi_commit_mask_any_set commit cm =
     list_ex (\<lambda>i. commit ! i AND cm ! i \<noteq> 0) [0..<MI_COMMIT_MASK_FIELD_COUNT]"

definition mi_commit_mask_create_intersect :: "mi_commit_mask \<Rightarrow> mi_commit_mask \<Rightarrow> mi_commit_mask" where
  "mi_commit_mask_create_intersect commit cm =
     map (\<lambda>i. commit ! i AND cm ! i) [0..<MI_COMMIT_MASK_FIELD_COUNT]"

definition mi_commit_mask_clear :: "mi_commit_mask \<Rightarrow> mi_commit_mask \<Rightarrow> mi_commit_mask" where
  "mi_commit_mask_clear res cm = map (\<lambda>i. res ! i AND NOT (cm ! i)) [0..<MI_COMMIT_MASK_FIELD_COUNT]"

definition mi_commit_mask_set :: "mi_commit_mask \<Rightarrow> mi_commit_mask \<Rightarrow> mi_commit_mask" where
  "mi_commit_mask_set res cm = map (\<lambda>i. res ! i OR cm ! i) [0..<MI_COMMIT_MASK_FIELD_COUNT]"

text \<open>The loop of mi_commit_mask_create; a write outside the eight fields is None.\<close>

partial_function (option) mi_commit_mask_fill ::
  "nat \<Rightarrow> nat \<Rightarrow> nat \<Rightarrow> mi_commit_mask \<Rightarrow> mi_commit_mask option" where
  "mi_commit_mask_fill i ofs bitcount cm =
     (if bitcount > 0 then do {
        let avail = MI_COMMIT_MASK_FIELD_BITS - ofs;
        let count = (if bitcount > avail then avail else bitcount);
        let msk = (if count \<ge> MI_COMMIT_MASK_FIELD_BITS then NOT 0
                   else push_bit ofs (push_bit count 1 - 1));
        cm \<leftarrow> store cm i msk;
        mi_commit_mask_fill (i + 1) 0 (bitcount - count) cm }
      else Some cm)"

definition mi_commit_mask_create :: "nat \<Rightarrow> nat \<Rightarrow> mi_commit_mask option" where
  "mi_commit_mask_create bitidx bitcount =
     (if bitcount = MI_COMMIT_MASK_BITS then Some mi_commit_mask_create_full
      else if bitcount = 0 then Some mi_commit_mask_create_empty
      else mi_commit_mask_fill (bitidx div MI_COMMIT_MASK_FIELD_BITS) (bitidx mod MI_COMMIT_MASK_FIELD_BITS)
             bitcount mi_commit_mask_create_empty)"

text \<open>for (; mask != 0; mask >>= 1) if ((mask\&1) != 0) count++;\<close>

function mi_count_ones :: "usize \<Rightarrow> nat \<Rightarrow> nat" where
  "mi_count_ones msk count =
     (if msk \<noteq> 0 then mi_count_ones (drop_bit 1 msk) (if msk AND 1 \<noteq> 0 then count + 1 else count)
      else count)"
  by auto
termination
  by (relation "measure (\<lambda>(msk, count). unat msk)") (auto simp: unat_drop_bit_usize unat_gt_0 div_less_dividend)

definition mi_commit_mask_committed_size :: "mi_commit_mask \<Rightarrow> nat \<Rightarrow> nat" where
  "mi_commit_mask_committed_size cm tot =
     (tot div MI_COMMIT_MASK_BITS) *
       fold (\<lambda>i count. if NOT (cm ! i) = 0 then count + MI_COMMIT_MASK_FIELD_BITS
                       else mi_count_ones (cm ! i) count) [0..<MI_COMMIT_MASK_FIELD_COUNT] 0"

section \<open>The next run of ones\<close>

text \<open>while ((mask\&1) == 0) \{ mask >>= 1; ofs++; \} is only entered with mask != 0.\<close>

function mi_skip_zeros :: "usize \<Rightarrow> nat \<Rightarrow> usize \<times> nat" where
  "mi_skip_zeros msk ofs =
     (if msk \<noteq> 0 \<and> msk AND 1 = 0 then mi_skip_zeros (drop_bit 1 msk) (ofs + 1) else (msk, ofs))"
  by auto
termination
  by (relation "measure (\<lambda>(msk, ofs). unat msk)") (auto simp: unat_drop_bit_usize unat_gt_0 div_less_dividend)

text \<open>The first loop: the field, the remaining mask and the offset of the first one, if any.\<close>

function mi_next_run_find :: "mi_commit_mask \<Rightarrow> nat \<Rightarrow> nat \<Rightarrow> (nat \<times> usize \<times> nat) option" where
  "mi_next_run_find cm i ofs =
     (if i < MI_COMMIT_MASK_FIELD_COUNT then
        let msk = drop_bit ofs (cm ! i)
        in if msk \<noteq> 0 then Some (i, mi_skip_zeros msk ofs) else mi_next_run_find cm (i + 1) 0
      else None)"
  by auto
termination by (relation "measure (\<lambda>(cm, i, ofs). MI_COMMIT_MASK_FIELD_COUNT - i)") auto

text \<open>do \{ count++; mask >>= 1; \} while ((mask\&1) == 1);\<close>

function mi_run_ones :: "usize \<Rightarrow> nat \<Rightarrow> usize \<times> nat" where
  "mi_run_ones msk count =
     (let count' = count + 1; msk' = drop_bit 1 msk
      in if msk' AND 1 = 1 then mi_run_ones msk' count' else (msk', count'))"
  by auto
termination
proof (relation "measure (\<lambda>(msk, count). unat msk)")
  fix msk :: usize and count x y :: nat and z
  assume z: "z = drop_bit 1 msk" and one: "z AND 1 = 1"
  have "msk \<noteq> 0" using z one by auto
  then show "((z, x), msk, count) \<in> measure (\<lambda>(msk, count). unat msk)"
    unfolding z by (simp add: unat_drop_bit_usize unat_gt_0 div_less_dividend)
qed simp

function mi_next_run_count :: "mi_commit_mask \<Rightarrow> nat \<Rightarrow> nat \<Rightarrow> usize \<Rightarrow> nat \<Rightarrow> nat" where
  "mi_next_run_count cm idx i msk count =
     (case mi_run_ones msk count of (msk', count') \<Rightarrow>
        if (idx + count') mod MI_COMMIT_MASK_FIELD_BITS = 0 then
          if i + 1 \<ge> MI_COMMIT_MASK_FIELD_COUNT then count'
          else if cm ! (i + 1) AND 1 = 1 then mi_next_run_count cm idx (i + 1) (cm ! (i + 1)) count'
          else count'
        else count')"
  by auto
termination by (relation "measure (\<lambda>(cm, idx, i, msk, count). MI_COMMIT_MASK_FIELD_COUNT - i)") auto

text \<open>The result is *idx and the length of the run.\<close>

definition mi_commit_mask_next_run :: "mi_commit_mask \<Rightarrow> nat \<Rightarrow> nat \<times> nat" where
  "mi_commit_mask_next_run cm idx =
     (case mi_next_run_find cm (idx div MI_COMMIT_MASK_FIELD_BITS) (idx mod MI_COMMIT_MASK_FIELD_BITS) of
        None \<Rightarrow> (MI_COMMIT_MASK_BITS, 0)
      | Some (i, msk, ofs) \<Rightarrow>
          let idx = i * MI_COMMIT_MASK_FIELD_BITS + ofs
          in (idx, mi_next_run_count cm idx i msk 0))"

text \<open>
  mi_commit_mask_foreach: the body is run on every run (its index and its length) until
  next_run returns 0. None is a loop that does not end.
\<close>

partial_function (option) mi_commit_mask_foreach ::
  "mi_commit_mask \<Rightarrow> nat \<Rightarrow> (nat \<Rightarrow> nat \<Rightarrow> 's \<Rightarrow> 's option) \<Rightarrow> 's \<Rightarrow> 's option" where
  "mi_commit_mask_foreach cm idx body s =
     (case mi_commit_mask_next_run cm idx of (idx, count) \<Rightarrow>
        if count > 0 then do { s \<leftarrow> body idx count s; mi_commit_mask_foreach cm (idx + count) body s }
        else Some s)"

section \<open>Masks as sets of slices\<close>

declare mi_skip_zeros.simps [simp del] mi_next_run_find.simps [simp del] mi_run_ones.simps [simp del]
  mi_next_run_count.simps [simp del] mi_count_ones.simps [simp del]

abbreviation cm_ok :: "mi_commit_mask \<Rightarrow> bool" where
  "cm_ok cm \<equiv> length cm = 8"

lemma div_lt_8: "b div 64 < 8 \<longleftrightarrow> b < (512 :: nat)"
  by auto

lemma claimed_lt: "cm_ok cm \<Longrightarrow> b \<in> claimed cm \<Longrightarrow> b < 512"
  by (auto simp: claimed_iff)

lemma nth_upt8: "i < 8 \<Longrightarrow> map f [0..<8] ! i = f i" for i :: nat
  by simp

lemma mod_lt_64: "b mod 64 < (64 :: nat)"
  by simp

named_theorems cm_sets

lemma claimed_empty [cm_sets]: "claimed mi_commit_mask_create_empty = {}" "cm_ok mi_commit_mask_create_empty"
  by (auto simp: mi_commit_mask_create_empty_def claimed_iff)

lemma claimed_full [cm_sets]: "claimed mi_commit_mask_create_full = {..<512}" "cm_ok mi_commit_mask_create_full"
  by (auto simp: mi_commit_mask_create_full_def claimed_iff div_lt_8 bit_not_iff)

lemma claimed_set [cm_sets]:
  "cm_ok a \<Longrightarrow> cm_ok b \<Longrightarrow> claimed (mi_commit_mask_set a b) = claimed a \<union> claimed b"
  "cm_ok (mi_commit_mask_set a b)"
  by (auto simp: mi_commit_mask_set_def claimed_iff bit_or_iff)

lemma claimed_clear [cm_sets]:
  "cm_ok a \<Longrightarrow> cm_ok b \<Longrightarrow> claimed (mi_commit_mask_clear a b) = claimed a - claimed b"
  "cm_ok (mi_commit_mask_clear a b)"
  by (auto simp: mi_commit_mask_clear_def claimed_iff bit_and_iff bit_not_iff)

lemma claimed_intersect [cm_sets]:
  "cm_ok a \<Longrightarrow> cm_ok b \<Longrightarrow> claimed (mi_commit_mask_create_intersect a b) = claimed a \<inter> claimed b"
  "cm_ok (mi_commit_mask_create_intersect a b)"
  by (auto simp: mi_commit_mask_create_intersect_def claimed_iff bit_and_iff)

lemma field_quant: "(\<forall>i < 8. \<forall>n < 64. P (64 * i + n)) \<longleftrightarrow> (\<forall>b < 512. P b)" for P :: "nat \<Rightarrow> bool"
proof
  assume a: "\<forall>i < 8. \<forall>n < 64. P (64 * i + n)"
  show "\<forall>b < 512. P b"
  proof (intro allI impI)
    fix b :: nat assume "b < 512"
    then have "b div 64 < 8" "b mod 64 < 64" by auto
    then have "P (64 * (b div 64) + b mod 64)" using a by blast
    then show "P b" by simp
  qed
qed auto

lemma claimed_at: "cm_ok a \<Longrightarrow> i < 8 \<Longrightarrow> n < 64 \<Longrightarrow> 64 * i + n \<in> claimed a \<longleftrightarrow> bit (a ! i) n"
  by (simp add: claimed_iff)

lemma all_set_iff [cm_sets]:
  assumes "cm_ok a" "cm_ok b"
  shows "mi_commit_mask_all_set a b \<longleftrightarrow> claimed b \<subseteq> claimed a"
proof -
  have "mi_commit_mask_all_set a b \<longleftrightarrow> (\<forall>i < 8. \<forall>n < 64. 64 * i + n \<in> claimed b \<longrightarrow> 64 * i + n \<in> claimed a)"
    using assms by (simp add: mi_commit_mask_all_set_def list_all_iff word_and_eq_iff claimed_at Ball_def)
  then show ?thesis using field_quant [of "\<lambda>b'. b' \<in> claimed b \<longrightarrow> b' \<in> claimed a"] claimed_lt assms by blast
qed

lemma any_set_iff [cm_sets]:
  assumes "cm_ok a" "cm_ok b"
  shows "mi_commit_mask_any_set a b \<longleftrightarrow> claimed a \<inter> claimed b \<noteq> {}"
proof -
  have "\<not> mi_commit_mask_any_set a b \<longleftrightarrow> (\<forall>i < 8. \<forall>n < 64. \<not> (64 * i + n \<in> claimed a \<and> 64 * i + n \<in> claimed b))"
    using assms by (auto simp: mi_commit_mask_any_set_def list_ex_iff word_and_eq_zero_iff claimed_at Ball_def)
  then show ?thesis using field_quant [of "\<lambda>x. \<not> (x \<in> claimed a \<and> x \<in> claimed b)"] claimed_lt assms by blast
qed

lemma is_empty_iff [cm_sets]:
  assumes "cm_ok a" shows "mi_commit_mask_is_empty a \<longleftrightarrow> claimed a = {}"
proof -
  have "mi_commit_mask_is_empty a \<longleftrightarrow> (\<forall>i < 8. \<forall>n < 64. 64 * i + n \<notin> claimed a)"
    using assms by (simp add: mi_commit_mask_is_empty_def list_all_iff word_zero_bits claimed_at Ball_def)
  then show ?thesis using field_quant [of "\<lambda>x. x \<notin> claimed a"] claimed_lt assms by blast
qed

lemma is_full_iff_claimed [cm_sets]:
  assumes "cm_ok a" shows "mi_commit_mask_is_full a \<longleftrightarrow> claimed a = {..<512}"
proof -
  have "mi_commit_mask_is_full a \<longleftrightarrow> (\<forall>i < 8. \<forall>n < 64. 64 * i + n \<in> claimed a)"
    using assms by (simp add: mi_commit_mask_is_full_def list_all_iff word_eq_bits claimed_at Ball_def bit_not_iff)
  then show ?thesis using field_quant [of "\<lambda>x. x \<in> claimed a"] claimed_lt [OF assms] by auto
qed

lemma fill_spec:
  assumes "cm_ok cm" "ofs < 64" "64 * i + ofs + bitcount \<le> 512" "\<forall>b \<in> claimed cm. b < 64 * i"
  shows "\<exists>cm'. mi_commit_mask_fill i ofs bitcount cm = Some cm' \<and> cm_ok cm'
     \<and> claimed cm' = claimed cm \<union> {64 * i + ofs..<64 * i + ofs + bitcount}"
  using assms
proof (induction bitcount arbitrary: i ofs cm rule: less_induct)
  case (less bitcount)
  show ?case
  proof (cases "bitcount = 0")
    case True
    then show ?thesis using less.prems by (subst mi_commit_mask_fill.simps) simp
  next
    case False
    define count where "count = min bitcount (64 - ofs)"
    define w where "w = mi_bitmap_mask count ofs"
    have c: "0 < count" "ofs + count \<le> 64" "count \<le> bitcount" using False less.prems(2) by (auto simp: count_def)
    have i: "i < 8" using less.prems(2,3) False by linarith
    have w': "(if count \<ge> 64 then NOT 0 else push_bit ofs (push_bit count 1 - 1)) = w"
      using c by (auto simp: w_def mi_bitmap_mask_def)
    have step: "mi_commit_mask_fill i ofs bitcount cm = mi_commit_mask_fill (i + 1) 0 (bitcount - count) (cm[i := w])"
      using False i less.prems(1) w'
      by (subst mi_commit_mask_fill.simps) (simp add: count_def min_def store_in Let_def split: if_splits)
    have cl: "claimed (cm[i := w]) = claimed cm \<union> {64 * i + ofs..<64 * i + ofs + count}"
    proof (rule set_eqI)
      fix b
      have rng: "b \<in> {64 * i + ofs..<64 * i + ofs + count} \<longleftrightarrow> b div 64 = i \<and> bit w (b mod 64)"
      proof -
        have "(64 * i + ofs) mod 64 = ofs" "(64 * i + ofs) div 64 = i" using less.prems(2) by simp_all
        then have "{b. b div 64 = i \<and> bit (mi_bitmap_mask count ofs) (b mod 64)} = {64 * i + ofs..<64 * i + ofs + count}"
          using mask_field_range [of "64 * i + ofs" count i] c(2) by simp
        then show ?thesis unfolding w_def by (metis (mono_tags, lifting) mem_Collect_eq)
      qed
      have low: "b \<in> claimed cm \<Longrightarrow> b div 64 \<noteq> i" using less.prems(4) by auto
      show "b \<in> claimed (cm[i := w]) \<longleftrightarrow> b \<in> claimed cm \<union> {64 * i + ofs..<64 * i + ofs + count}"
        using low i less.prems(1) unfolding Un_iff rng claimed_update by (auto simp: claimed_iff)
    qed
    show ?thesis
    proof (cases "count = bitcount")
      case True
      then show ?thesis using step cl less.prems(1)
        by (simp add: mi_commit_mask_fill.simps [of "Suc i"])
    next
      case False
      then have full: "ofs + count = 64" using c by (auto simp: count_def min_def split: if_splits)
      have "\<exists>cm'. mi_commit_mask_fill (i + 1) 0 (bitcount - count) (cm[i := w]) = Some cm' \<and> cm_ok cm'
         \<and> claimed cm' = claimed (cm[i := w]) \<union> {64 * (i + 1) + 0..<64 * (i + 1) + 0 + (bitcount - count)}"
        by (rule less.IH) (use c full less.prems(1,3,4) cl in auto)
      then show ?thesis unfolding step cl using full c(3) by (auto simp: algebra_simps)
    qed
  qed
qed

lemma create_spec:
  assumes "bitidx + bitcount \<le> 512"
  obtains cm where "mi_commit_mask_create bitidx bitcount = Some cm" "cm_ok cm"
    "claimed cm = {bitidx..<bitidx + bitcount}"
proof -
  consider "bitcount = 512" | "bitcount = 0" | "0 < bitcount" "bitcount < 512" using assms by linarith
  then show ?thesis
  proof cases
    case 1
    then show ?thesis using that assms claimed_full by (simp add: mi_commit_mask_create_def lessThan_atLeast0)
  next
    case 2
    then show ?thesis using that claimed_empty by (simp add: mi_commit_mask_create_def)
  next
    case 3
    have "\<exists>cm'. mi_commit_mask_fill (bitidx div 64) (bitidx mod 64) bitcount mi_commit_mask_create_empty = Some cm'
       \<and> cm_ok cm' \<and> claimed cm' = claimed mi_commit_mask_create_empty
          \<union> {64 * (bitidx div 64) + bitidx mod 64..<64 * (bitidx div 64) + bitidx mod 64 + bitcount}"
      by (rule fill_spec) (use assms in \<open>simp_all add: claimed_empty\<close>)
    then show ?thesis using that 3 by (auto simp: mi_commit_mask_create_def claimed_empty)
  qed
qed

section \<open>The next run is the next maximal run\<close>

lemma field_bit:
  fixes b :: nat
  assumes "64 * i \<le> b" "b < 64 * i + 64"
  shows "b div 64 = i" "b mod 64 = b - 64 * i"
proof -
  obtain k where "b = 64 * i + k" "k < 64" using assms by (metis le_Suc_ex nat_add_left_cancel_less)
  then show "b div 64 = i" "b mod 64 = b - 64 * i" by simp_all
qed

lemma and_one_iff: "w AND 1 = (0 :: usize) \<longleftrightarrow> \<not> bit w 0" "w AND 1 = (1 :: usize) \<longleftrightarrow> bit w 0"
  by (simp_all add: and_one_eq odd_iff_mod_2_eq_one [symmetric] even_iff_mod_2_eq_zero [symmetric] bit_0)

lemma skip_zeros_spec:
  assumes "msk \<noteq> 0"
  shows "\<exists>k. mi_skip_zeros msk ofs = (drop_bit k msk, ofs + k) \<and> bit msk k \<and> (\<forall>j < k. \<not> bit msk j)"
  using assms
proof (induction msk ofs rule: mi_skip_zeros.induct)
  case (1 msk ofs)
  show ?case
  proof (cases "bit msk 0")
    case True
    then show ?thesis by (intro exI [of _ 0]) (simp add: mi_skip_zeros.simps [of msk] and_one_iff)
  next
    case False
    obtain b where b: "bit msk b" using word_nonzero_bit [OF 1(2)] by blast
    then have "bit (drop_bit 1 msk) (b - 1)" using False by (cases b) (simp_all add: bit_drop_bit_eq)
    then have "drop_bit 1 msk \<noteq> 0" by auto
    moreover have c: "msk \<noteq> 0 \<and> msk AND 1 = 0" using False 1(2) by (simp add: and_one_iff)
    ultimately obtain k where k: "mi_skip_zeros (drop_bit 1 msk) (ofs + 1) = (drop_bit k (drop_bit 1 msk), ofs + 1 + k)"
       "bit (drop_bit 1 msk) k" "\<forall>j < k. \<not> bit (drop_bit 1 msk) j"
      using 1(1) by blast
    have "\<not> bit msk j" if "j < Suc k" for j using that False k(3) by (cases j) (auto simp: bit_drop_bit_eq)
    then show ?thesis using k c
      by (intro exI [of _ "Suc k"]) (simp add: mi_skip_zeros.simps [of msk] bit_drop_bit_eq ac_simps)
  qed
qed

lemma run_ones_spec:
  assumes "bit msk 0"
  shows "\<exists>n. mi_run_ones msk count = (drop_bit n msk, count + n) \<and> 0 < n \<and> (\<forall>j < n. bit msk j) \<and> \<not> bit msk n"
  using assms
proof (induction msk count rule: mi_run_ones.induct)
  case (1 msk count)
  show ?case
  proof (cases "bit (drop_bit 1 msk) 0")
    case True
    then obtain n where n: "mi_run_ones (drop_bit 1 msk) (count + 1) = (drop_bit n (drop_bit 1 msk), count + 1 + n)"
       "0 < n" "\<forall>j < n. bit (drop_bit 1 msk) j" "\<not> bit (drop_bit 1 msk) n"
      using 1(1) [of "count + 1" "drop_bit 1 msk"] by (auto simp: and_one_iff)
    have "bit msk j" if "j < Suc n" for j using that 1(2) n(3) by (cases j) (auto simp: bit_drop_bit_eq)
    then show ?thesis using n True
      by (intro exI [of _ "Suc n"]) (simp add: mi_run_ones.simps [of msk] Let_def and_one_iff bit_drop_bit_eq ac_simps)
  next
    case False
    then show ?thesis using 1(2)
      by (intro exI [of _ 1]) (simp add: mi_run_ones.simps [of msk] Let_def and_one_iff bit_drop_bit_eq)
  qed
qed

lemma run_find_spec:
  assumes "cm_ok cm" "ofs < 64"
  shows "case mi_next_run_find cm i ofs of
      None \<Rightarrow> \<forall>b \<in> claimed cm. b < 64 * i + ofs
    | Some (i', msk, ofs') \<Rightarrow> i' < 8 \<and> ofs' < 64 \<and> msk = drop_bit ofs' (cm ! i') \<and> bit (cm ! i') ofs'
        \<and> 64 * i + ofs \<le> 64 * i' + ofs' \<and> (\<forall>b \<in> claimed cm. 64 * i + ofs \<le> b \<longrightarrow> 64 * i' + ofs' \<le> b)"
  using assms
proof (induction cm i ofs rule: mi_next_run_find.induct)
  case (1 cm i ofs)
  note ok = 1(2) and ofs = 1(3)
  show ?case
  proof (cases "i < 8")
    case False
    then show ?thesis using claimed_lt [OF ok] by (subst mi_next_run_find.simps) fastforce
  next
    case i: True
    show ?thesis
    proof (cases "drop_bit ofs (cm ! i) = 0")
      case True
      have none: "\<not> bit (cm ! i) n" if "ofs \<le> n" for n
      proof -
        have "\<not> bit (drop_bit ofs (cm ! i)) (n - ofs)" using True by simp
        then show ?thesis using that by (simp add: bit_drop_bit_eq)
      qed
      have below: "64 * (i + 1) \<le> b" if "b \<in> claimed cm" "64 * i + ofs \<le> b" for b
      proof (rule ccontr)
        assume "\<not> 64 * (i + 1) \<le> b"
        then have "b div 64 = i" "ofs \<le> b mod 64" using that(2) field_bit [of i b] by simp_all
        then show False using that(1) none by (auto simp: claimed_iff)
      qed
      have e: "mi_next_run_find cm i ofs = mi_next_run_find cm (i + 1) 0"
        using True i by (subst mi_next_run_find.simps) (simp add: Let_def)
      have ih: "case mi_next_run_find cm (i + 1) 0 of
          None \<Rightarrow> \<forall>b \<in> claimed cm. b < 64 * (i + 1) + 0
        | Some (i', msk, ofs') \<Rightarrow> i' < 8 \<and> ofs' < 64 \<and> msk = drop_bit ofs' (cm ! i') \<and> bit (cm ! i') ofs'
            \<and> 64 * (i + 1) + 0 \<le> 64 * i' + ofs' \<and> (\<forall>b \<in> claimed cm. 64 * (i + 1) + 0 \<le> b \<longrightarrow> 64 * i' + ofs' \<le> b)"
        by (rule 1(1)) (use i True ok in simp_all)
      have lt: "b < 64 * i + ofs" if "b \<in> claimed cm" "b < 64 * (i + 1)" for b
        using below [of b] that by linarith
      show ?thesis unfolding e
      proof (cases "mi_next_run_find cm (i + 1) 0")
        case None
        then have "\<forall>b \<in> claimed cm. b < 64 * (i + 1)" using ih by simp
        then show "case mi_next_run_find cm (i + 1) 0 of
            None \<Rightarrow> \<forall>b \<in> claimed cm. b < 64 * i + ofs
          | Some (i', msk, ofs') \<Rightarrow> i' < 8 \<and> ofs' < 64 \<and> msk = drop_bit ofs' (cm ! i') \<and> bit (cm ! i') ofs'
              \<and> 64 * i + ofs \<le> 64 * i' + ofs' \<and> (\<forall>b \<in> claimed cm. 64 * i + ofs \<le> b \<longrightarrow> 64 * i' + ofs' \<le> b)"
          using None lt by simp
      next
        case (Some z)
        obtain i' msk ofs' where z: "z = (i', msk, ofs')" by (cases z)
        have h: "i' < 8" "ofs' < 64" "msk = drop_bit ofs' (cm ! i')" "bit (cm ! i') ofs'" "64 * (i + 1) \<le> 64 * i' + ofs'"
          and le: "\<And>b. b \<in> claimed cm \<Longrightarrow> 64 * (i + 1) \<le> b \<Longrightarrow> 64 * i' + ofs' \<le> b"
          using ih unfolding Some z by simp_all
        have "64 * i' + ofs' \<le> b" if "b \<in> claimed cm" "64 * i + ofs \<le> b" for b
          using le [OF that(1) below [OF that]] .
        then show "case mi_next_run_find cm (i + 1) 0 of
            None \<Rightarrow> \<forall>b \<in> claimed cm. b < 64 * i + ofs
          | Some (i', msk, ofs') \<Rightarrow> i' < 8 \<and> ofs' < 64 \<and> msk = drop_bit ofs' (cm ! i') \<and> bit (cm ! i') ofs'
              \<and> 64 * i + ofs \<le> 64 * i' + ofs' \<and> (\<forall>b \<in> claimed cm. 64 * i + ofs \<le> b \<longrightarrow> 64 * i' + ofs' \<le> b)"
          using h ofs unfolding Some z by simp
      qed
    next
      case False
      obtain k where k: "mi_skip_zeros (drop_bit ofs (cm ! i)) ofs = (drop_bit k (drop_bit ofs (cm ! i)), ofs + k)"
          "bit (drop_bit ofs (cm ! i)) k" "\<forall>j < k. \<not> bit (drop_bit ofs (cm ! i)) j"
        using skip_zeros_spec [OF False] by blast
      have bk: "bit (cm ! i) (ofs + k)" using k(2) by (simp add: bit_drop_bit_eq)
      have e: "mi_next_run_find cm i ofs = Some (i, drop_bit (ofs + k) (cm ! i), ofs + k)"
        using False i k(1) by (subst mi_next_run_find.simps) (simp add: Let_def ac_simps)
      have "64 * i + (ofs + k) \<le> b" if "b \<in> claimed cm" "64 * i + ofs \<le> b" for b
      proof (rule ccontr)
        assume "\<not> 64 * i + (ofs + k) \<le> b"
        then have b: "b div 64 = i" "ofs \<le> b mod 64" "b mod 64 - ofs < k"
          using that(2) bit_usize_lt [OF bk] field_bit [of i b] by simp_all
        then have "\<not> bit (cm ! i) (b mod 64)" using k(3) b(2) by (auto simp: bit_drop_bit_eq)
        then show False using that(1) b(1) by (auto simp: claimed_iff)
      qed
      then show ?thesis using e i bk bit_usize_lt [OF bk] by simp
    qed
  qed
qed

lemma run_count_spec:
  assumes "cm_ok cm" "i < 8" "ofs < 64" "idx + count = 64 * i + ofs" "msk = drop_bit ofs (cm ! i)"
    "bit (cm ! i) ofs" "{idx..<idx + count} \<subseteq> claimed cm"
  shows "count < mi_next_run_count cm idx i msk count
     \<and> {idx..<idx + mi_next_run_count cm idx i msk count} \<subseteq> claimed cm
     \<and> idx + mi_next_run_count cm idx i msk count \<notin> claimed cm"
  using assms
proof (induction cm idx i msk count arbitrary: ofs rule: mi_next_run_count.induct)
  case (1 cm idx i msk count)
  have "bit msk 0" using 1(6,7) by (simp add: bit_drop_bit_eq)
  then obtain n where n: "mi_run_ones msk count = (drop_bit n msk, count + n)" "0 < n"
      "\<forall>j < n. bit (cm ! i) (ofs + j)" "\<not> bit (cm ! i) (ofs + n)"
    using run_ones_spec [of msk count] 1(6) by (auto simp: bit_drop_bit_eq)
  have "bit (cm ! i) (ofs + (n - 1))" using n(2,3) by (metis diff_less zero_less_one)
  then have lt: "ofs + n \<le> 64" using bit_usize_lt n(2) by fastforce
  have sub: "{idx..<idx + (count + n)} \<subseteq> claimed cm"
  proof
    fix b assume b: "b \<in> {idx..<idx + (count + n)}"
    show "b \<in> claimed cm"
    proof (cases "b < idx + count")
      case True then show ?thesis using b 1(8) by auto
    next
      case False
      then have "64 * i + ofs \<le> b" "b < 64 * i + ofs + n" using b 1(5) by auto
      define k where "k = b - (64 * i + ofs)"
      have k: "b = 64 * i + (ofs + k)" "k < n"
        using \<open>64 * i + ofs \<le> b\<close> \<open>b < 64 * i + ofs + n\<close> unfolding k_def by linarith+
      have "64 * i + (ofs + k) \<in> claimed cm"
        using claimed_at [OF 1(2,3), of "ofs + k"] n(3) k(2) lt by simp
      then show ?thesis using k(1) by simp
    qed
  qed
  have m: "(idx + (count + n)) mod 64 = 0 \<longleftrightarrow> ofs + n = 64" 
  proof -
    have e: "idx + (count + n) = 64 * i + (ofs + n)" using 1(5) by simp
    have "(64 * i + (ofs + n)) mod 64 = (ofs + n) mod 64" by simp
    then show ?thesis unfolding e using n(2) lt by (cases "ofs + n = 64") simp_all
  qed
  show ?case
  proof (cases "ofs + n = 64")
    case False
    then have "mi_next_run_count cm idx i msk count = count + n"
      using n(1) m by (subst mi_next_run_count.simps) simp
    moreover have "idx + (count + n) \<notin> claimed cm"
    proof -
      have e: "idx + (count + n) = 64 * i + (ofs + n)" using 1(5) by simp
      show ?thesis unfolding e using n(4) claimed_at [OF 1(2,3), of "ofs + n"] False lt by simp
    qed
    ultimately show ?thesis using sub n(2) by simp
  next
    case full: True
    have nxt: "idx + (count + n) = 64 * (i + 1)" using full 1(5) by simp
    show ?thesis
    proof (cases "i + 1 < 8 \<and> bit (cm ! (i + 1)) 0")
      case True
      have e: "mi_next_run_count cm idx i msk count = mi_next_run_count cm idx (i + 1) (cm ! (i + 1)) (count + n)"
        using n(1) m full True by (subst mi_next_run_count.simps) (simp add: and_one_iff)
      have "count + n < mi_next_run_count cm idx (i + 1) (cm ! (i + 1)) (count + n)
        \<and> {idx..<idx + mi_next_run_count cm idx (i + 1) (cm ! (i + 1)) (count + n)} \<subseteq> claimed cm
        \<and> idx + mi_next_run_count cm idx (i + 1) (cm ! (i + 1)) (count + n) \<notin> claimed cm"
        by (rule 1(1) [OF n(1) [symmetric], where ofs = 0])
          (use True m full 1(2) nxt sub in \<open>simp_all add: and_one_iff\<close>)
      then show ?thesis unfolding e by simp
    next
      case False
      then have e: "mi_next_run_count cm idx i msk count = count + n"
        using n(1) m full by (subst mi_next_run_count.simps) (auto simp: and_one_iff)
      have "idx + (count + n) \<notin> claimed cm"
        using False 1(2) unfolding nxt by (auto simp: claimed_iff)
      then show ?thesis using sub n(2) e by simp
    qed
  qed
qed

lemma next_run_none:
  assumes "cm_ok cm" "\<forall>b \<in> claimed cm. b < idx"
  shows "mi_commit_mask_next_run cm idx = (512, 0)"
proof -
  have i: "64 * (idx div 64) + idx mod 64 = idx" by simp
  show ?thesis
  proof (cases "mi_next_run_find cm (idx div 64) (idx mod 64)")
    case None then show ?thesis by (simp add: mi_commit_mask_next_run_def)
  next
    case (Some z)
    obtain i' msk ofs' where z: "z = (i', msk, ofs')" by (cases z)
    have "64 * i' + ofs' \<in> claimed cm \<and> idx \<le> 64 * i' + ofs'"
      using run_find_spec [of cm "idx mod 64" "idx div 64"] Some z claimed_at [OF assms(1)] i assms(1) by simp
    then show ?thesis using assms(2) by fastforce
  qed
qed

lemma next_run_some:
  assumes "cm_ok cm" "b \<in> claimed cm" "idx \<le> b"
  obtains j n where "mi_commit_mask_next_run cm idx = (j, n)" "0 < n" "idx \<le> j" "j + n \<le> 512"
    "{j..<j + n} \<subseteq> claimed cm" "j + n \<notin> claimed cm" "\<forall>c \<in> claimed cm. idx \<le> c \<longrightarrow> j \<le> c"
proof -
  have i: "64 * (idx div 64) + idx mod 64 = idx" by simp
  obtain i' msk ofs' where z: "mi_next_run_find cm (idx div 64) (idx mod 64) = Some (i', msk, ofs')"
  proof (cases "mi_next_run_find cm (idx div 64) (idx mod 64)")
    case None
    then show ?thesis using run_find_spec [of cm "idx mod 64" "idx div 64"] assms i by fastforce
  next
    case (Some z) then show ?thesis using that by (cases z) auto
  qed
  have f: "i' < 8" "ofs' < 64" "msk = drop_bit ofs' (cm ! i')" "bit (cm ! i') ofs'" "idx \<le> 64 * i' + ofs'"
     "\<forall>c \<in> claimed cm. idx \<le> c \<longrightarrow> 64 * i' + ofs' \<le> c"
    using run_find_spec [of cm "idx mod 64" "idx div 64"] z i assms(1) by simp_all
  define j n where "j = i' * 64 + ofs'" and "n = mi_next_run_count cm (i' * 64 + ofs') i' msk 0"
  have c: "0 < n \<and> {j..<j + n} \<subseteq> claimed cm \<and> j + n \<notin> claimed cm"
    unfolding n_def j_def by (rule run_count_spec [OF assms(1) f(1,2) _ f(3,4)]) simp_all
  have "j + n - 1 \<in> claimed cm" using c by auto
  then have "j + n \<le> 512" using claimed_lt [OF assms(1)] by fastforce
  moreover have "mi_commit_mask_next_run cm idx = (j, n)"
    using z by (simp add: mi_commit_mask_next_run_def j_def n_def Let_def)
  ultimately show thesis using c f(5,6) by (intro that [of j n]) (simp_all add: j_def mult.commute)
qed

section \<open>Iterating over the runs\<close>

primrec run_all :: "(nat \<Rightarrow> nat \<Rightarrow> 's \<Rightarrow> 's option) \<Rightarrow> (nat \<times> nat) list \<Rightarrow> 's \<Rightarrow> 's option" where
  "run_all body [] s = Some s"
| "run_all body (r # rs) s = do { s \<leftarrow> body (fst r) (snd r) s; run_all body rs s }"

abbreviation run_slices :: "nat \<times> nat \<Rightarrow> nat set" where
  "run_slices r \<equiv> {fst r..<fst r + snd r}"

text \<open>The list of the maximal runs of a set from an index on, in ascending order.\<close>

definition maximal_runs :: "nat set \<Rightarrow> nat \<Rightarrow> (nat \<times> nat) list \<Rightarrow> bool" where
  "maximal_runs A idx rs \<longleftrightarrow>
     (\<Union>r \<in> set rs. run_slices r) = {b \<in> A. idx \<le> b}
     \<and> (\<forall>r \<in> set rs. 0 < snd r \<and> fst r + snd r \<notin> A \<and> (idx < fst r \<longrightarrow> fst r - 1 \<notin> A))
     \<and> sorted_wrt (\<lambda>r q. fst r + snd r < fst q) rs"

lemma foreach_runs:
  assumes "cm_ok cm"
  shows "\<exists>rs. maximal_runs (claimed cm) idx rs \<and> (\<forall>body (s :: 's). mi_commit_mask_foreach cm idx body s = run_all body rs s)"
proof (induction "512 - idx" arbitrary: idx rule: less_induct)
  case less
  show ?case
  proof (cases "\<exists>b \<in> claimed cm. idx \<le> b")
    case False
    then have "mi_commit_mask_next_run cm idx = (512, 0)" by (intro next_run_none assms) auto
    then have "mi_commit_mask_foreach cm idx body s = Some s" for body and s :: 's
      by (subst mi_commit_mask_foreach.simps) simp
    then show ?thesis using False by (intro exI [of _ "[]"]) (auto simp: maximal_runs_def)
  next
    case True
    then obtain b where b: "b \<in> claimed cm" "idx \<le> b" by blast
    obtain j n where r: "mi_commit_mask_next_run cm idx = (j, n)" "0 < n" "idx \<le> j" "j + n \<le> 512"
        "{j..<j + n} \<subseteq> claimed cm" "j + n \<notin> claimed cm" "\<forall>c \<in> claimed cm. idx \<le> c \<longrightarrow> j \<le> c"
      by (rule next_run_some [OF assms b]) (rule that; assumption)
    have "512 - (j + n) < 512 - idx" using r(2,3,4) by linarith
    then obtain rs where rs: "maximal_runs (claimed cm) (j + n) rs"
        "\<And>body s :: 's. mi_commit_mask_foreach cm (j + n) body s = run_all body rs s"
      using less by blast
    have e: "mi_commit_mask_foreach cm idx body s = run_all body ((j, n) # rs) s" for body and s :: 's
    proof -
      have "mi_commit_mask_foreach cm (j + n) body = run_all body rs" by (rule ext) (rule rs(2))
      then show ?thesis using r(1,2) by (subst mi_commit_mask_foreach.simps) simp
    qed
    have U: "(\<Union>r \<in> set rs. run_slices r) = {b \<in> claimed cm. j + n \<le> b}"
      and M: "\<And>r. r \<in> set rs \<Longrightarrow> 0 < snd r \<and> fst r + snd r \<notin> claimed cm \<and> (j + n < fst r \<longrightarrow> fst r - 1 \<notin> claimed cm)"
      and S: "sorted_wrt (\<lambda>r q. fst r + snd r < fst q) rs"
      using rs(1) unfolding maximal_runs_def by blast+
    have first: "j + n < fst q \<and> fst q - 1 \<notin> claimed cm" if q: "q \<in> set rs" for q
    proof -
      have "fst q \<in> (\<Union>r \<in> set rs. run_slices r)" using q M [OF q] by force
      then have "fst q \<in> claimed cm" "j + n \<le> fst q" using U by auto
      then have "j + n < fst q" using r(6) le_neq_implies_less by metis
      then show ?thesis using M [OF q] by blast
    qed
    have "(\<Union>r \<in> set ((j, n) # rs). run_slices r) = {b \<in> claimed cm. idx \<le> b}"
    proof -
      have "{j..<j + n} = {b \<in> claimed cm. idx \<le> b \<and> b < j + n}"
        using r(3,5,7) by (auto intro: order_trans)
      then have "(\<Union>r \<in> set ((j, n) # rs). run_slices r)
          = {b \<in> claimed cm. idx \<le> b \<and> b < j + n} \<union> {b \<in> claimed cm. j + n \<le> b}" using U by simp
      also have "\<dots> = {b \<in> claimed cm. idx \<le> b}" using r(3) by auto
      finally show ?thesis .
    qed
    moreover have "idx < j \<longrightarrow> j - 1 \<notin> claimed cm" using r(7) by fastforce
    ultimately have "maximal_runs (claimed cm) idx ((j, n) # rs)"
      using r(2,6) M first S by (auto simp: maximal_runs_def)
    then show ?thesis using e by blast
  qed
qed

text \<open>
  Iterating over a commit mask always ends, and runs the body on the maximal runs of set
  bits, each exactly once and in ascending order: together they are the set bits, no two of
  them touch, and the body sees nothing else, whatever it does with its state.
\<close>

theorem mi_commit_mask_foreach_runs:
  assumes "cm_ok cm"
  shows "\<exists>rs. (\<forall>body (s :: 's). mi_commit_mask_foreach cm 0 body s = run_all body rs s)
    \<and> (\<Union>r \<in> set rs. run_slices r) = claimed cm
    \<and> sorted_wrt (\<lambda>r q. fst r + snd r < fst q) rs \<and> list_all (\<lambda>r. 0 < snd r) rs"
proof -
  obtain rs where "maximal_runs (claimed cm) 0 rs" "\<And>body s :: 's. mi_commit_mask_foreach cm 0 body s = run_all body rs s"
    using foreach_runs [OF assms, of 0] by blast
  then show ?thesis by (intro exI [of _ rs]) (simp add: maximal_runs_def list_all_iff)
qed

theorem mi_commit_mask_foreach_runs_witness:
  "\<exists>cm rs. mi_commit_mask_create 60 8 = Some cm
     \<and> mi_commit_mask_foreach cm 0 (\<lambda>i n s. Some (s @ [(i, n)])) [] = Some rs \<and> (\<Union>r \<in> set rs. run_slices r) = {60..<68}"
proof -
  obtain cm where cm: "mi_commit_mask_create 60 8 = Some cm" "cm_ok cm" "claimed cm = {60..<60 + 8}"
    using create_spec [of 60 8] by auto
  obtain rs where rs: "\<forall>body (s :: (nat \<times> nat) list). mi_commit_mask_foreach cm 0 body s = run_all body rs s"
      "(\<Union>r \<in> set rs. run_slices r) = claimed cm"
    using mi_commit_mask_foreach_runs [OF cm(2)] by (elim exE conjE) (rule that; assumption)
  have "run_all (\<lambda>i n s. Some (s @ [(i, n)])) rs s = Some (s @ rs)" for rs and s :: "(nat \<times> nat) list"
    by (induction rs arbitrary: s) simp_all
  then show ?thesis using cm rs by auto
qed

end
