(* ===== verification/Options.thy ===== *)
theory Options
  imports Internal
begin

text \<open>
  The run-time options of mimalloc (src/options.c): the table of options with their defaults,
  the small string functions, the parsing of an option from the environment, and get, set and
  set_default. What the platform's _mi_prim_getenv finds is a parameter; messages are only
  counted. A long has 64 bits. Strings have no zero character; reading the zero at the
  end of a C string is reading past the list.
\<close>

section \<open>The table of options\<close>

datatype mi_init = UNINIT | DEFAULTED | INITIALIZED

datatype mi_option =
    mi_option_show_errors | mi_option_show_stats | mi_option_verbose
  | mi_option_eager_commit | mi_option_arena_eager_commit | mi_option_purge_decommits
  | mi_option_allow_large_os_pages | mi_option_reserve_huge_os_pages
  | mi_option_reserve_huge_os_pages_at | mi_option_reserve_os_memory
  | mi_option_deprecated_segment_cache | mi_option_deprecated_page_reset
  | mi_option_abandoned_page_purge | mi_option_deprecated_segment_reset
  | mi_option_eager_commit_delay | mi_option_purge_delay | mi_option_use_numa_nodes
  | mi_option_limit_os_alloc | mi_option_os_tag | mi_option_max_errors | mi_option_max_warnings
  | mi_option_max_segment_reclaim | mi_option_destroy_on_exit | mi_option_arena_reserve
  | mi_option_arena_purge_mult | mi_option_purge_extend_delay

record mi_option_desc =
  opt_value :: int
  opt_init :: mi_init
  opt_name :: string
  opt_legacy_name :: "string option"

definition MI_OPTION :: "int \<Rightarrow> string \<Rightarrow> mi_option_desc" where
  "MI_OPTION v name = \<lparr>opt_value = v, opt_init = UNINIT, opt_name = name, opt_legacy_name = None\<rparr>"

definition MI_OPTION_LEGACY :: "int \<Rightarrow> string \<Rightarrow> string \<Rightarrow> mi_option_desc" where
  "MI_OPTION_LEGACY v name legacy =
     \<lparr>opt_value = v, opt_init = UNINIT, opt_name = name, opt_legacy_name = Some legacy\<rparr>"

text \<open>A release build on a 64-bit platform that is not NetBSD.\<close>

fun mi_options_table :: "mi_option \<Rightarrow> mi_option_desc" where
  "mi_options_table mi_option_show_errors = MI_OPTION 0 ''show_errors''"
| "mi_options_table mi_option_show_stats = MI_OPTION 0 ''show_stats''"
| "mi_options_table mi_option_verbose = MI_OPTION 0 ''verbose''"
| "mi_options_table mi_option_eager_commit = MI_OPTION 1 ''eager_commit''"
| "mi_options_table mi_option_arena_eager_commit = MI_OPTION_LEGACY 2 ''arena_eager_commit'' ''eager_region_commit''"
| "mi_options_table mi_option_purge_decommits = MI_OPTION_LEGACY 1 ''purge_decommits'' ''reset_decommits''"
| "mi_options_table mi_option_allow_large_os_pages = MI_OPTION_LEGACY 0 ''allow_large_os_pages'' ''large_os_pages''"
| "mi_options_table mi_option_reserve_huge_os_pages = MI_OPTION 0 ''reserve_huge_os_pages''"
| "mi_options_table mi_option_reserve_huge_os_pages_at = MI_OPTION (-1) ''reserve_huge_os_pages_at''"
| "mi_options_table mi_option_reserve_os_memory = MI_OPTION 0 ''reserve_os_memory''"
| "mi_options_table mi_option_deprecated_segment_cache = MI_OPTION 0 ''deprecated_segment_cache''"
| "mi_options_table mi_option_deprecated_page_reset = MI_OPTION 0 ''deprecated_page_reset''"
| "mi_options_table mi_option_abandoned_page_purge = MI_OPTION_LEGACY 0 ''abandoned_page_purge'' ''abandoned_page_reset''"
| "mi_options_table mi_option_deprecated_segment_reset = MI_OPTION 0 ''deprecated_segment_reset''"
| "mi_options_table mi_option_eager_commit_delay = MI_OPTION 1 ''eager_commit_delay''"
| "mi_options_table mi_option_purge_delay = MI_OPTION_LEGACY 10 ''purge_delay'' ''reset_delay''"
| "mi_options_table mi_option_use_numa_nodes = MI_OPTION 0 ''use_numa_nodes''"
| "mi_options_table mi_option_limit_os_alloc = MI_OPTION 0 ''limit_os_alloc''"
| "mi_options_table mi_option_os_tag = MI_OPTION 100 ''os_tag''"
| "mi_options_table mi_option_max_errors = MI_OPTION 16 ''max_errors''"
| "mi_options_table mi_option_max_warnings = MI_OPTION 16 ''max_warnings''"
| "mi_options_table mi_option_max_segment_reclaim = MI_OPTION 8 ''max_segment_reclaim''"
| "mi_options_table mi_option_destroy_on_exit = MI_OPTION 0 ''destroy_on_exit''"
| "mi_options_table mi_option_arena_reserve = MI_OPTION (1024 * 1024) ''arena_reserve''"
| "mi_options_table mi_option_arena_purge_mult = MI_OPTION 10 ''arena_purge_mult''"
| "mi_options_table mi_option_purge_extend_delay = MI_OPTION_LEGACY 1 ''purge_extend_delay'' ''decommit_extend_delay''"

section \<open>String functions\<close>

definition mi_toupper :: "char \<Rightarrow> char" where
  "mi_toupper c =
     (let n = (of_char c :: nat) in if 97 \<le> n \<and> n \<le> 122 then char_of (n - 97 + 65) else c)"

text \<open>The value of a (signed) char.\<close>

definition char_val :: "char \<Rightarrow> int" where
  "char_val c = (let n = (of_char c :: int) in if n < 128 then n else n - 256)"

definition first_val :: "string \<Rightarrow> int" where
  "first_val s = (case s of [] \<Rightarrow> 0 | c # _ \<Rightarrow> char_val c)"

fun mi_strnicmp_loop :: "string \<Rightarrow> string \<Rightarrow> nat \<Rightarrow> int" where
  "mi_strnicmp_loop (c # s) (d # t) (Suc n) =
     (if mi_toupper c \<noteq> mi_toupper d then char_val c - char_val d else mi_strnicmp_loop s t n)"
| "mi_strnicmp_loop s t n = (if n = 0 then 0 else first_val s - first_val t)"

definition mi_strnicmp :: "string \<Rightarrow> string \<Rightarrow> nat \<Rightarrow> int" where
  "mi_strnicmp s t n = (if n = 0 then 0 else mi_strnicmp_loop s t n)"

fun mi_strlcpy_loop :: "string \<Rightarrow> nat \<Rightarrow> string" where
  "mi_strlcpy_loop (c # src) dest_size =
     (if dest_size > 1 then c # mi_strlcpy_loop src (dest_size - 1) else [])"
| "mi_strlcpy_loop [] dest_size = []"

text \<open>The string in dest afterwards.\<close>

definition mi_strlcpy :: "string \<Rightarrow> string \<Rightarrow> nat \<Rightarrow> string" where
  "mi_strlcpy dest src dest_size = (if dest_size = 0 then dest else mi_strlcpy_loop src dest_size)"

fun mi_strlcat_loop :: "string \<Rightarrow> string \<Rightarrow> nat \<Rightarrow> string" where
  "mi_strlcat_loop (d # dest) src dest_size =
     (if dest_size > 1 then d # mi_strlcat_loop dest src (dest_size - 1)
      else mi_strlcpy (d # dest) src dest_size)"
| "mi_strlcat_loop [] src dest_size = mi_strlcpy [] src dest_size"

definition mi_strlcat :: "string \<Rightarrow> string \<Rightarrow> nat \<Rightarrow> string" where
  "mi_strlcat dest src dest_size = (if dest_size = 0 then dest else mi_strlcat_loop dest src dest_size)"

fun mi_strlen :: "string \<Rightarrow> nat" where
  "mi_strlen [] = 0"
| "mi_strlen (c # s) = mi_strlen s + 1"

fun mi_strnlen :: "string \<Rightarrow> nat \<Rightarrow> nat" where
  "mi_strnlen (c # s) (Suc max_len) = mi_strnlen s max_len + 1"
| "mi_strnlen s max_len = 0"

text \<open>strstr and strtol of the C library.\<close>

definition strstr :: "string \<Rightarrow> string \<Rightarrow> bool" where
  "strstr haystack needle =
     list_ex (\<lambda>n. take (mi_strlen needle) (drop n haystack) = needle) [0..<Suc (mi_strlen haystack)]"

definition is_digit :: "char \<Rightarrow> bool" where
  "is_digit c \<longleftrightarrow> (let n = (of_char c :: nat) in 48 \<le> n \<and> n \<le> 57)"

definition is_space :: "char \<Rightarrow> bool" where
  "is_space c \<longleftrightarrow> (let n = (of_char c :: nat) in n = 32 \<or> 9 \<le> n \<and> n \<le> 13)"

definition digits_value :: "string \<Rightarrow> int" where
  "digits_value ds = foldl (\<lambda>v c. 10 * v + (of_char c - 48)) 0 ds"

definition LONG_MAX :: int where "LONG_MAX = 2 ^ 63 - 1"
definition LONG_MIN :: int where "LONG_MIN = - (2 ^ 63)"

definition clamp_long :: "int \<Rightarrow> int" where
  "clamp_long v = (if v < LONG_MIN then LONG_MIN else if v > LONG_MAX then LONG_MAX else v)"

definition strtol :: "string \<Rightarrow> int \<times> string" where
  "strtol nptr =
     (let s = dropWhile is_space nptr;
          neg = (case s of c # _ \<Rightarrow> c = CHR ''-'' | [] \<Rightarrow> False);
          s = (case s of c # r \<Rightarrow> (if c = CHR ''-'' \<or> c = CHR ''+'' then r else s) | [] \<Rightarrow> s);
          ds = takeWhile is_digit s;
          v = digits_value ds
      in if ds = [] then (0, nptr) else (clamp_long (if neg then - v else v), dropWhile is_digit s))"

section \<open>Parsing\<close>

text \<open>The conversions between long and the unsigned type of MI_KiB.\<close>

definition to_long :: "int \<Rightarrow> int" where
  "to_long v = (v + 2 ^ 63) mod 2 ^ 64 - 2 ^ 63"

definition to_ulong :: "int \<Rightarrow> int" where
  "to_ulong v = v mod 2 ^ 64"

fun mi_skip_iB :: "string \<Rightarrow> string" where
  "mi_skip_iB (c # d # r) =
     (if c = CHR ''I'' \<and> d = CHR ''B'' then r else if c = CHR ''B'' then d # r else c # d # r)"
| "mi_skip_iB [c] = (if c = CHR ''B'' then [] else [c])"
| "mi_skip_iB [] = []"

definition mi_parse_KiB :: "int \<Rightarrow> string \<Rightarrow> int \<times> string" where
  "mi_parse_KiB value end =
     (let (value, end) =
        (case end of
           c # r \<Rightarrow>
             if c = CHR ''K'' then (value, r)
             else if c = CHR ''M'' then (to_long (to_ulong value * int MI_KiB), r)
             else if c = CHR ''G'' then (to_long (to_ulong value * int MI_MiB), r)
             else (to_long ((to_ulong (to_ulong value + int MI_KiB - 1)) div int MI_KiB), end)
         | [] \<Rightarrow> (to_long ((to_ulong (to_ulong value + int MI_KiB - 1)) div int MI_KiB), end))
      in (value, mi_skip_iB end))"

text \<open>The value of an option found as s, or None when it is invalid.\<close>

definition mi_option_parse :: "mi_option \<Rightarrow> string \<Rightarrow> int option" where
  "mi_option_parse option s =
     (let len = mi_strnlen s 64;
          buf = map mi_toupper (take len s)
      in if buf = [] \<or> strstr ''1;TRUE;YES;ON'' buf then Some 1
         else if strstr ''0;FALSE;NO;OFF'' buf then Some 0
         else let (value, end) = strtol buf;
                  (value, end) =
                    (if option = mi_option_reserve_os_memory \<or> option = mi_option_arena_reserve
                     then mi_parse_KiB value end else (value, end))
              in if end = [] then Some value else None)"

section \<open>Reading and writing options\<close>

record mi_options =
  opts :: "mi_option \<Rightarrow> mi_option_desc"
  warning_count :: nat
  max_warning_count :: int
  warnings_shown :: nat

text \<open>What the environment of the process is: the variables and whether it is still loading.\<close>

record mi_process_env =
  prim_getenv :: "string \<Rightarrow> string option"
  preloading :: bool

definition set_desc :: "mi_option \<Rightarrow> int \<Rightarrow> mi_init \<Rightarrow> mi_options \<Rightarrow> mi_options" where
  "set_desc option v i st =
     st\<lparr>opts := (opts st)(option := (opts st option)\<lparr>opt_value := v, opt_init := i\<rparr>)\<rparr>"

definition mi_getenv :: "mi_process_env \<Rightarrow> string \<Rightarrow> nat \<Rightarrow> string option" where
  "mi_getenv env name result_size =
     (if result_size < 64 then None
      else map_option (\<lambda>s. mi_strlcpy [] s result_size) (prim_getenv env name))"

text \<open>_mi_warning_message, with the function that reads an option as a parameter.\<close>

definition mi_warning_message ::
  "(mi_option \<Rightarrow> mi_options \<Rightarrow> (int \<times> mi_options) option) \<Rightarrow> mi_options \<Rightarrow> mi_options option" where
  "mi_warning_message get st = do {
     (verbose, st) \<leftarrow> get mi_option_verbose st;
     if verbose = 0 then do {
       (show, st) \<leftarrow> get mi_option_show_errors st;
       if show = 0 then Some st
       else if max_warning_count st \<ge> 0 then
         (let old = warning_count st; st = st\<lparr>warning_count := old + 1\<rparr>
          in if int old > max_warning_count st then Some st
             else Some (st\<lparr>warnings_shown := warnings_shown st + 1\<rparr>))
       else Some (st\<lparr>warnings_shown := warnings_shown st + 1\<rparr>) }
     else Some (st\<lparr>warnings_shown := warnings_shown st + 1\<rparr>) }"

definition mi_option_env_name :: "string \<Rightarrow> string" where
  "mi_option_env_name name = mi_strlcat (mi_strlcpy [] ''mimalloc_'' 65) name 65"

definition mi_option_lookup :: "mi_process_env \<Rightarrow> mi_option_desc \<Rightarrow> string option \<times> bool" where
  "mi_option_lookup env desc =
     (case mi_getenv env (mi_option_env_name (opt_name desc)) 65 of
        Some s \<Rightarrow> (Some s, False)
      | None \<Rightarrow>
          (case opt_legacy_name desc of
             None \<Rightarrow> (None, False)
           | Some legacy \<Rightarrow>
               (let r = mi_getenv env (mi_option_env_name legacy) 65 in (r, r \<noteq> None))))"

definition mi_option_init ::
  "mi_process_env \<Rightarrow> (mi_option \<Rightarrow> mi_options \<Rightarrow> (int \<times> mi_options) option) \<Rightarrow> mi_option \<Rightarrow> mi_options
     \<Rightarrow> mi_options option" where
  "mi_option_init env get option st =
     (case mi_option_lookup env (opts st option) of
        (None, _) \<Rightarrow>
          (if \<not> preloading env then Some (set_desc option (opt_value (opts st option)) DEFAULTED st)
           else Some st)
      | (Some s, legacy) \<Rightarrow> do {
          st \<leftarrow> (if legacy then mi_warning_message get st else Some st);
          case mi_option_parse option s of
            Some v \<Rightarrow> Some (set_desc option v INITIALIZED st)
          | None \<Rightarrow>
              (let st = set_desc option (opt_value (opts st option)) DEFAULTED st
               in if option = mi_option_verbose \<and> opt_value (opts st option) = 0 then do {
                    st \<leftarrow> mi_warning_message get (set_desc option 1 DEFAULTED st);
                    Some (set_desc option 0 (opt_init (opts st option)) st) }
                  else mi_warning_message get st) })"

text \<open>
  Initialising an option may warn, and a warning reads two options: the depth of this
  recursion is the fuel, and running out of it is None.
\<close>

fun mi_option_get_fuel ::
  "nat \<Rightarrow> mi_process_env \<Rightarrow> mi_option \<Rightarrow> mi_options \<Rightarrow> (int \<times> mi_options) option" where
  "mi_option_get_fuel 0 env option st = None"
| "mi_option_get_fuel (Suc n) env option st = do {
     st \<leftarrow> (if opt_init (opts st option) = UNINIT
           then mi_option_init env (mi_option_get_fuel n env) option st else Some st);
     Some (opt_value (opts st option), st) }"

definition mi_option_get :: "mi_process_env \<Rightarrow> mi_option \<Rightarrow> mi_options \<Rightarrow> (int \<times> mi_options) option" where
  "mi_option_get env option st = mi_option_get_fuel 3 env option st"

definition mi_option_get_clamp ::
  "mi_process_env \<Rightarrow> mi_option \<Rightarrow> int \<Rightarrow> int \<Rightarrow> mi_options \<Rightarrow> (int \<times> mi_options) option" where
  "mi_option_get_clamp env option lo hi st = do {
     (x, st) \<leftarrow> mi_option_get env option st;
     Some (if x < lo then lo else if x > hi then hi else x, st) }"

definition mi_option_get_size :: "mi_process_env \<Rightarrow> mi_option \<Rightarrow> mi_options \<Rightarrow> (nat \<times> mi_options) option" where
  "mi_option_get_size env option st = do {
     (x, st) \<leftarrow> mi_option_get env option st;
     Some (if x < 0 then 0 else (nat x * MI_KiB) mod 2 ^ 64, st) }"

definition mi_option_set :: "mi_option \<Rightarrow> int \<Rightarrow> mi_options \<Rightarrow> mi_options" where
  "mi_option_set option value st = set_desc option value INITIALIZED st"

definition mi_option_set_default :: "mi_option \<Rightarrow> int \<Rightarrow> mi_options \<Rightarrow> mi_options" where
  "mi_option_set_default option value st =
     (if opt_init (opts st option) \<noteq> INITIALIZED
      then set_desc option value (opt_init (opts st option)) st else st)"

definition mi_option_is_enabled ::
  "mi_process_env \<Rightarrow> mi_option \<Rightarrow> mi_options \<Rightarrow> (bool \<times> mi_options) option" where
  "mi_option_is_enabled env option st = do { (x, st) \<leftarrow> mi_option_get env option st; Some (x \<noteq> 0, st) }"

definition mi_option_set_enabled :: "mi_option \<Rightarrow> bool \<Rightarrow> mi_options \<Rightarrow> mi_options" where
  "mi_option_set_enabled option enable st = mi_option_set option (if enable then 1 else 0) st"

definition mi_option_set_enabled_default :: "mi_option \<Rightarrow> bool \<Rightarrow> mi_options \<Rightarrow> mi_options" where
  "mi_option_set_enabled_default option enable st = mi_option_set_default option (if enable then 1 else 0) st"

definition mi_option_enable :: "mi_option \<Rightarrow> mi_options \<Rightarrow> mi_options" where
  "mi_option_enable option st = mi_option_set_enabled option True st"

definition mi_option_disable :: "mi_option \<Rightarrow> mi_options \<Rightarrow> mi_options" where
  "mi_option_disable option st = mi_option_set_enabled option False st"


section \<open>Initialising never recurses more than three levels deep\<close>

text \<open>The names in the table are those of the source.\<close>

definition opts_wf :: "mi_options \<Rightarrow> bool" where
  "opts_wf st \<longleftrightarrow> (\<forall>o'. opt_name (opts st o') = opt_name (mi_options_table o')
     \<and> opt_legacy_name (opts st o') = opt_legacy_name (mi_options_table o'))"

text \<open>What a call leaves of the table: names stay, options once initialised stay as they are.\<close>

definition opts_step :: "mi_options \<Rightarrow> mi_options \<Rightarrow> bool" where
  "opts_step st st' \<longleftrightarrow> (\<forall>o'. opt_name (opts st' o') = opt_name (opts st o')
     \<and> opt_legacy_name (opts st' o') = opt_legacy_name (opts st o')
     \<and> (opt_init (opts st o') \<noteq> UNINIT \<longrightarrow> opts st' o' = opts st o'))"

lemma opts_step_refl [simp]: "opts_step st st"
  by (simp add: opts_step_def)

lemma opts_step_trans: "opts_step a b \<Longrightarrow> opts_step b c \<Longrightarrow> opts_step a c"
  by (simp add: opts_step_def)

lemma opts_step_set: "opt_init (opts st o') = UNINIT \<Longrightarrow> opts_step st (set_desc o' v i st)"
  by (simp add: opts_step_def set_desc_def)

lemma opts_step_set2:
  "opts_step st st1 \<Longrightarrow> opt_init (opts st o') = UNINIT \<Longrightarrow> opts_step st (set_desc o' v i st1)"
  by (simp add: opts_step_def set_desc_def)

lemma opts_step_wf: "opts_step st st' \<Longrightarrow> opts_wf st \<Longrightarrow> opts_wf st'"
  by (simp add: opts_step_def opts_wf_def)

lemma opts_step_same: "opts st' = opts st \<Longrightarrow> opts_step st st'"
  by (simp add: opts_step_def)

lemma lookup_same:
  assumes "opts_step st st'"
  shows "mi_option_lookup env (opts st' o') = mi_option_lookup env (opts st o')"
proof -
  have e: "opt_name (opts st' o') = opt_name (opts st o')" "opt_legacy_name (opts st' o') = opt_legacy_name (opts st o')"
    using assms by (simp_all add: opts_step_def)
  show ?thesis unfolding mi_option_lookup_def e by (rule refl)
qed

lemma lookup_no_legacy: "opt_legacy_name d = None \<Longrightarrow> \<not> snd (mi_option_lookup env d)"
  by (simp add: mi_option_lookup_def split: option.splits)


text \<open>Options whose reading needs no warning: initialised, or not in the environment.\<close>

definition opt_quiet :: "mi_process_env \<Rightarrow> mi_option \<Rightarrow> mi_options \<Rightarrow> bool" where
  "opt_quiet env o' st \<longleftrightarrow> opt_init (opts st o') \<noteq> UNINIT \<or> fst (mi_option_lookup env (opts st o')) = None"

lemma quiet_step: "opts_step st st' \<Longrightarrow> opt_quiet env o' st \<Longrightarrow> opt_quiet env o' st'"
  using lookup_same [of st st' env o'] by (auto simp: opt_quiet_def opts_step_def)

abbreviation opt_returns :: "nat \<Rightarrow> mi_process_env \<Rightarrow> mi_option \<Rightarrow> mi_options \<Rightarrow> bool" where
  "opt_returns n env o' st \<equiv>
     \<exists>st'. mi_option_get_fuel n env o' st = Some (opt_value (opts st' o'), st') \<and> opts_step st st'
       \<and> (\<not> preloading env \<longrightarrow> opt_init (opts st' o') \<noteq> UNINIT) \<and> opt_quiet env o' st'"

lemma returns_quiet:
  assumes "opt_quiet env o' st" shows "opt_returns (Suc n) env o' st"
proof (cases "opt_init (opts st o') = UNINIT")
  case False
  then show ?thesis using assms by simp
next
  case True
  then have l: "fst (mi_option_lookup env (opts st o')) = None" using assms by (simp add: opt_quiet_def)
  define st' where "st' = (if \<not> preloading env then set_desc o' (opt_value (opts st o')) DEFAULTED st else st)"
  have i: "mi_option_init env (mi_option_get_fuel n env) o' st = Some st'"
    using l by (cases "mi_option_lookup env (opts st o')") (simp add: mi_option_init_def st'_def)
  have s: "opts_step st st'" using True by (simp add: st'_def opts_step_set)
  show ?thesis using True i s quiet_step [OF s assms] by (intro exI [of _ st']) (simp add: st'_def set_desc_def)
qed

text \<open>An option found in the environment, from what its two warnings do.\<close>

lemma returns_found:
  assumes un: "opt_init (opts st o') = UNINIT" and l: "mi_option_lookup env (opts st o') = (Some s, legacy)"
    and w1: "legacy \<Longrightarrow> \<exists>st1. mi_warning_message (mi_option_get_fuel n env) st = Some st1 \<and> opts_step st st1"
    and w2: "\<And>st1. opts_step st st1 \<Longrightarrow> opt_init (opts st1 o') = DEFAULTED \<Longrightarrow>
              (o' = mi_option_verbose \<longrightarrow> opt_value (opts st1 o') \<noteq> 0) \<Longrightarrow>
              \<exists>st2. mi_warning_message (mi_option_get_fuel n env) st1 = Some st2 \<and> opts_step st1 st2"
  shows "opt_returns (Suc n) env o' st"
proof -
  obtain st1 where st1: "(if legacy then mi_warning_message (mi_option_get_fuel n env) st else Some st) = Some st1"
      "opts_step st st1"
    using w1 by (cases legacy) auto
  have "\<exists>st'. mi_option_init env (mi_option_get_fuel n env) o' st = Some st' \<and> opts_step st st'
     \<and> opt_init (opts st' o') \<noteq> UNINIT"
  proof (cases "mi_option_parse o' s")
    case (Some v)
    then have "mi_option_init env (mi_option_get_fuel n env) o' st = Some (set_desc o' v INITIALIZED st1)"
      using l st1(1) by (simp add: mi_option_init_def)
    then show ?thesis using opts_step_set2 [OF st1(2) un] by (auto simp: set_desc_def)
  next
    case None
    let ?v = "opt_value (opts st1 o')"
    let ?d = "set_desc o' ?v DEFAULTED st1"
    show ?thesis
    proof (cases "o' = mi_option_verbose \<and> ?v = 0")
      case True
      let ?d1 = "set_desc o' 1 DEFAULTED st1"
      have d1: "set_desc o' 1 DEFAULTED ?d = ?d1" by (simp add: set_desc_def)
      have s1: "opts_step st ?d1" by (rule opts_step_set2 [OF st1(2) un])
      obtain st2 where st2: "mi_warning_message (mi_option_get_fuel n env) ?d1 = Some st2" "opts_step ?d1 st2"
        using w2 [OF s1] by (auto simp: set_desc_def)
      have u: "opt_init (opts st2 o') \<noteq> UNINIT" using st2(2) by (auto simp: opts_step_def set_desc_def)
      have i: "mi_option_init env (mi_option_get_fuel n env) o' st
          = Some (set_desc o' 0 (opt_init (opts st2 o')) st2)"
      proof -
        have v: "o' = mi_option_verbose \<and> opt_value (opts ?d o') = 0" using True by (auto simp: set_desc_def)
        have v': "opt_value (opts (set_desc mi_option_verbose (opt_value (opts st1 mi_option_verbose)) DEFAULTED st1)
            mi_option_verbose) = 0"
          using v by auto
        show ?thesis using l st1(1) None True v' st2(1) d1 by (simp add: mi_option_init_def Let_def)
      qed
      have "opts_step st (set_desc o' 0 (opt_init (opts st2 o')) st2)"
        using un opts_step_trans [OF s1 st2(2)] by (auto simp: opts_step_def set_desc_def)
      then show ?thesis using i u by (auto simp: set_desc_def)
    next
      case False
      have s1: "opts_step st ?d" by (rule opts_step_set2 [OF st1(2) un])
      obtain st2 where st2: "mi_warning_message (mi_option_get_fuel n env) ?d = Some st2" "opts_step ?d st2"
        using w2 [OF s1] False by (auto simp: set_desc_def)
      have v: "\<not> (o' = mi_option_verbose \<and> opt_value (opts ?d o') = 0)" using False by (auto simp: set_desc_def)
      have "mi_option_init env (mi_option_get_fuel n env) o' st = Some st2"
        using l st1(1) None v st2(1) by (auto simp: mi_option_init_def Let_def)
      then show ?thesis using opts_step_trans [OF s1 st2(2)] st2(2) by (auto simp: opts_step_def set_desc_def)
    qed
  qed
  then show ?thesis using un by (auto simp: opt_quiet_def)
qed

lemma warning_ok:
  assumes "\<exists>st1. get mi_option_verbose st = Some (v, st1) \<and> opts_step st st1
      \<and> (v = 0 \<longrightarrow> (\<exists>e st2. get mi_option_show_errors st1 = Some (e, st2) \<and> opts_step st1 st2))"
  shows "\<exists>st'. mi_warning_message get st = Some st' \<and> opts_step st st'"
proof -
  obtain st1 where 1: "get mi_option_verbose st = Some (v, st1)" "opts_step st st1"
    using assms by blast
  show ?thesis
  proof (cases "v = 0")
    case False
    then show ?thesis using 1 opts_step_trans [OF 1(2) opts_step_same]
      by (simp add: mi_warning_message_def opts_step_def)
  next
    case True
    then obtain e st2 where 2: "get mi_option_show_errors st1 = Some (e, st2)" "opts_step st1 st2"
      using assms 1 by auto
    have s: "opts_step st st2" by (rule opts_step_trans [OF 1(2) 2(2)])
    show ?thesis using 1 2(1) True s by (simp add: mi_warning_message_def Let_def opts_step_def)
  qed
qed

lemma returns_verbose:
  assumes "opts_wf st" shows "opt_returns (Suc (Suc n)) env mi_option_verbose st"
proof (cases "opt_quiet env mi_option_verbose st")
  case True then show ?thesis by (rule returns_quiet)
next
  case False
  then obtain s legacy where un: "opt_init (opts st mi_option_verbose) = UNINIT"
      and l: "mi_option_lookup env (opts st mi_option_verbose) = (Some s, legacy)"
    by (cases "mi_option_lookup env (opts st mi_option_verbose)") (auto simp: opt_quiet_def)
  have "opt_legacy_name (opts st mi_option_verbose) = None"
    using assms by (simp add: opts_wf_def MI_OPTION_def)
  then have "\<not> legacy" using lookup_no_legacy [of "opts st mi_option_verbose" env] l by simp
  moreover have "\<exists>st2. mi_warning_message (mi_option_get_fuel (Suc n) env) st1 = Some st2 \<and> opts_step st1 st2"
    if "opt_init (opts st1 mi_option_verbose) = DEFAULTED" "opt_value (opts st1 mi_option_verbose) \<noteq> 0" for st1
    by (rule warning_ok [of _ _ "opt_value (opts st1 mi_option_verbose)"])
      (use that in \<open>auto intro!: exI [of _ st1]\<close>)
  ultimately show ?thesis by (intro returns_found [OF un l]) auto
qed

lemma warning_two:
  assumes "opt_returns n env mi_option_verbose st"
    and "\<And>st1. opts_step st st1 \<Longrightarrow> opt_quiet env mi_option_verbose st1 \<Longrightarrow> opt_returns n env mi_option_show_errors st1"
  shows "\<exists>st'. mi_warning_message (mi_option_get_fuel n env) st = Some st' \<and> opts_step st st'"
proof -
  obtain st1 where 1: "mi_option_get_fuel n env mi_option_verbose st = Some (opt_value (opts st1 mi_option_verbose), st1)"
      "opts_step st st1" "opt_quiet env mi_option_verbose st1"
    using assms(1) by blast
  then obtain st2 where "mi_option_get_fuel n env mi_option_show_errors st1 = Some (opt_value (opts st2 mi_option_show_errors), st2)"
      "opts_step st1 st2"
    using assms(2) by blast
  then show ?thesis using 1 by (intro warning_ok) blast
qed

lemma returns_show_errors:
  assumes "opts_wf st" "opt_quiet env mi_option_verbose st"
  shows "opt_returns (Suc (Suc n)) env mi_option_show_errors st"
proof (cases "opt_quiet env mi_option_show_errors st")
  case True then show ?thesis by (rule returns_quiet)
next
  case False
  then obtain s legacy where un: "opt_init (opts st mi_option_show_errors) = UNINIT"
      and l: "mi_option_lookup env (opts st mi_option_show_errors) = (Some s, legacy)"
    by (cases "mi_option_lookup env (opts st mi_option_show_errors)") (auto simp: opt_quiet_def)
  have "opt_legacy_name (opts st mi_option_show_errors) = None"
    using assms by (simp add: opts_wf_def MI_OPTION_def)
  then have nl: "\<not> legacy" using lookup_no_legacy [of "opts st mi_option_show_errors" env] l by simp
  have w: "\<exists>st2. mi_warning_message (mi_option_get_fuel (Suc n) env) st1 = Some st2 \<and> opts_step st1 st2"
    if s: "opts_step st st1" and d: "opt_init (opts st1 mi_option_show_errors) = DEFAULTED" for st1
  proof (rule warning_two)
    show "opt_returns (Suc n) env mi_option_verbose st1"
      by (rule returns_quiet) (rule quiet_step [OF s assms(2)])
    fix st2 assume "opts_step st1 st2"
    then have "opt_quiet env mi_option_show_errors st2" using d by (simp add: opt_quiet_def opts_step_def)
    then show "opt_returns (Suc n) env mi_option_show_errors st2" by (rule returns_quiet)
  qed
  show ?thesis by (rule returns_found [OF un l]) (use nl w in auto)
qed

lemma returns_any:
  assumes wf: "opts_wf st" shows "opt_returns (Suc (Suc (Suc n))) env o' st"
proof (cases "opt_quiet env o' st")
  case True then show ?thesis by (rule returns_quiet)
next
  case False
  then obtain s legacy where un: "opt_init (opts st o') = UNINIT"
      and l: "mi_option_lookup env (opts st o') = (Some s, legacy)"
    by (cases "mi_option_lookup env (opts st o')") (auto simp: opt_quiet_def)
  have w: "\<exists>st2. mi_warning_message (mi_option_get_fuel (Suc (Suc n)) env) st1 = Some st2 \<and> opts_step st1 st2"
    if "opts_step st st1" for st1
    by (rule warning_two)
      (rule returns_verbose returns_show_errors; use that wf in \<open>blast intro: opts_step_wf\<close>)+
  show ?thesis by (rule returns_found [OF un l]) (use w in auto)
qed


text \<open>More fuel gives the same result.\<close>

definition gets_more ::
  "(mi_option \<Rightarrow> mi_options \<Rightarrow> (int \<times> mi_options) option) \<Rightarrow> (mi_option \<Rightarrow> mi_options \<Rightarrow> (int \<times> mi_options) option) \<Rightarrow> bool" where
  "gets_more f g \<longleftrightarrow> (\<forall>o' st r. f o' st = Some r \<longrightarrow> g o' st = Some r)"

lemma warning_more:
  assumes "gets_more f g" "mi_warning_message f st = Some r"
  shows "mi_warning_message g st = Some r"
proof -
  have m: "f o' st' = Some q \<Longrightarrow> g o' st' = Some q" for o' st' q
    using assms(1) unfolding gets_more_def by blast
  obtain v st1 where 1: "f mi_option_verbose st = Some (v, st1)"
    using assms(2) by (cases "f mi_option_verbose st") (auto simp: mi_warning_message_def)
  show ?thesis
  proof (cases "v = 0")
    case False then show ?thesis using assms(2) 1 m [OF 1] by (simp add: mi_warning_message_def)
  next
    case True
    then obtain e st2 where 2: "f mi_option_show_errors st1 = Some (e, st2)"
      using assms(2) 1 by (cases "f mi_option_show_errors st1") (auto simp: mi_warning_message_def)
    show ?thesis using True assms(2) 1 m [OF 1] 2 m [OF 2] by (simp add: mi_warning_message_def)
  qed
qed

lemma init_more: "gets_more f g \<Longrightarrow> mi_option_init env f o' st = Some r \<Longrightarrow> mi_option_init env g o' st = Some r"
  unfolding mi_option_init_def
  by (auto simp: Option.bind_eq_Some_conv Let_def warning_more split: if_splits prod.splits option.splits)

lemma fuel_more: "gets_more (mi_option_get_fuel n env) (mi_option_get_fuel (Suc n) env)"
proof (induction n)
  case 0 then show ?case by (simp add: gets_more_def)
next
  case (Suc n)
  have "mi_option_get_fuel (Suc (Suc n)) env o' st = Some r" if a: "mi_option_get_fuel (Suc n) env o' st = Some r" for o' st r
  proof (cases "opt_init (opts st o') = UNINIT")
    case False
    then show ?thesis using a by simp
  next
    case True
    then obtain st1 where 1: "mi_option_init env (mi_option_get_fuel n env) o' st = Some st1"
        "r = (opt_value (opts st1 o'), st1)"
      using a by (cases "mi_option_init env (mi_option_get_fuel n env) o' st") simp_all
    show ?thesis unfolding mi_option_get_fuel.simps(2) [of "Suc n"] init_more [OF Suc 1(1)] using 1(2) True
      init_more [OF Suc 1(1)] by (simp del: mi_option_get_fuel.simps)
  qed
  then show ?case by (simp add: gets_more_def)
qed

lemma fuel_enough:
  "mi_option_get_fuel k env o' st = Some r \<Longrightarrow> mi_option_get_fuel (k + n) env o' st = Some r"
proof (induction n)
  case (Suc n)
  then show ?case using fuel_more [of "k + n" env] unfolding gets_more_def add_Suc_right by blast
qed simp

section \<open>Properties\<close>

text \<open>
  C39: Reading an option always returns, although reading one may read others: three levels of
  recursion are enough from any state of the table, in any environment, and more change
  nothing. Options that were initialised before keep their value, the option that was read
  is initialised unless the process is still loading, and it is what the call returns.
\<close>

theorem mi_option_get_returns:
  assumes "opts_wf st"
  shows "\<exists>st'. (\<forall>n. mi_option_get_fuel (3 + n) env o' st = Some (opt_value (opts st' o'), st'))
    \<and> mi_option_get env o' st = Some (opt_value (opts st' o'), st')
    \<and> opts_step st st' \<and> opts_wf st' \<and> (\<not> preloading env \<longrightarrow> opt_init (opts st' o') \<noteq> UNINIT)"
proof -
  obtain st' where st': "mi_option_get_fuel 3 env o' st = Some (opt_value (opts st' o'), st')" "opts_step st st'"
      "\<not> preloading env \<longrightarrow> opt_init (opts st' o') \<noteq> UNINIT"
    using returns_any [OF assms, of 0 env o'] by (auto simp: numeral_3_eq_3)
  show ?thesis
    using fuel_enough [OF st'(1)] st' opts_step_wf [OF st'(2) assms]
    by (intro exI [of _ st']) (simp add: mi_option_get_def)
qed

definition mi_options_initial :: mi_options where
  "mi_options_initial = \<lparr>opts = mi_options_table, warning_count = 0, max_warning_count = 16, warnings_shown = 0\<rparr>"

lemma initial_wf: "opts_wf mi_options_initial"
  by (simp add: opts_wf_def mi_options_initial_def)

text \<open>An environment that spells the legacy name of purge_delay and gives verbose a bogus value.\<close>

definition sample_env :: mi_process_env where
  "sample_env = \<lparr>prim_getenv = (\<lambda>s. if s = ''mimalloc_reset_delay'' then Some ''25''
     else if s = ''mimalloc_verbose'' then Some ''maybe'' else None), preloading = False\<rparr>"

theorem mi_option_get_returns_witness:
  "\<exists>st'. mi_option_get sample_env mi_option_purge_delay mi_options_initial
      = Some (opt_value (opts st' mi_option_purge_delay), st') \<and> opts_wf st'"
  using mi_option_get_returns [OF initial_wf, of sample_env mi_option_purge_delay] by blast


definition mi_true_word :: "string \<Rightarrow> bool" where
  "mi_true_word s = (let buf = map mi_toupper (take (mi_strnlen s 64) s) in buf = [] \<or> strstr ''1;TRUE;YES;ON'' buf)"

definition mi_false_word :: "string \<Rightarrow> bool" where
  "mi_false_word s = (let buf = map mi_toupper (take (mi_strnlen s 64) s) in strstr ''0;FALSE;NO;OFF'' buf)"

lemma parse_true: "mi_true_word s \<Longrightarrow> mi_option_parse o' s = Some 1"
  by (simp add: mi_option_parse_def mi_true_word_def Let_def)

lemma parse_false: "\<not> mi_true_word s \<Longrightarrow> mi_false_word s \<Longrightarrow> mi_option_parse o' s = Some 0"
  by (simp add: mi_option_parse_def mi_true_word_def mi_false_word_def Let_def)

lemma sample_words:
  "mi_true_word ''yes''" "mi_true_word ''n''" "mi_true_word ''o''" "mi_true_word ''s;on''"
  "\<not> mi_true_word ''no''" "\<not> mi_true_word ''f''" "mi_false_word ''no''" "mi_false_word ''f''"
  by code_simp+

lemma mi_parse_KiB_eval [code]:
  "mi_parse_KiB value end =
     (let (value, end) =
        (case end of
           c # r \<Rightarrow>
             if c = CHR ''K'' then (value, r)
             else if c = CHR ''M'' then (to_long (to_ulong value * 1024), r)
             else if c = CHR ''G'' then (to_long (to_ulong value * 1048576), r)
             else (to_long ((to_ulong (to_ulong value + 1023)) div 1024), end)
         | [] \<Rightarrow> (to_long ((to_ulong (to_ulong value + 1023)) div 1024), end))
      in (value, mi_skip_iB end))"
proof -
  have e: "int MI_KiB = 1024" "int MI_MiB = 1048576" by simp_all
  have m: "x + 1024 - 1 = x + (1023 :: int)" for x by simp
  show ?thesis unfolding mi_parse_KiB_def e m by (rule refl)
qed

lemma sample_sizes:
  "mi_option_parse mi_option_arena_reserve ''2GiB'' = Some (2 * 1024 * 1024)"
  "mi_option_parse mi_option_arena_reserve ''-1'' = Some 0"
  "mi_option_parse mi_option_purge_delay ''2GiB'' = None"
  by code_simp+

text \<open>
  The words of an option are looked for as parts of a list of words: every part of that
  list counts. The letter n, and o, s and e as well, switch an option on, as yes does; only f
  and a few others switch it off.
\<close>

theorem mi_option_parse_parts:
  "mi_option_parse o' ''yes'' = Some 1 \<and> mi_option_parse o' ''no'' = Some 0
   \<and> mi_option_parse o' ''n'' = Some 1 \<and> mi_option_parse o' ''o'' = Some 1
   \<and> mi_option_parse o' ''f'' = Some 0 \<and> mi_option_parse o' ''s;on'' = Some 1
   \<and> mi_option_parse mi_option_arena_reserve ''2GiB'' = Some (2 * 1024 * 1024)
   \<and> mi_option_parse mi_option_arena_reserve ''-1'' = Some 0
   \<and> mi_option_parse mi_option_purge_delay ''2GiB'' = None"
  by (simp add: parse_true parse_false sample_words sample_sizes)

lemma set_get:
  "opt_init (opts st o') = INITIALIZED \<Longrightarrow> mi_option_get env o' st = Some (opt_value (opts st o'), st)"
  by (simp add: mi_option_get_def numeral_3_eq_3)

text \<open>
  What is set explicitly is what every later read returns, a later default does not
  change it, and a default given before the first read holds only when the environment says
  nothing; reading an option twice gives the same value and changes nothing the second time.
\<close>

theorem mi_option_set_get:
  assumes "opts_wf st" "\<not> preloading env" "mi_option_get env o' st = Some (w, st1)"
  shows "mi_option_get env o' (mi_option_set o' v st) = Some (v, mi_option_set o' v st)
    \<and> mi_option_get env o' (mi_option_set_default o' d (mi_option_set o' v st)) = Some (v, mi_option_set o' v st)
    \<and> mi_option_get env o' st1 = Some (w, st1)"
proof -
  obtain st' where st': "mi_option_get env o' st = Some (opt_value (opts st' o'), st')" "opt_init (opts st' o') \<noteq> UNINIT"
    using mi_option_get_fuel.simps returns_any [OF assms(1), of 0 env o'] assms(2)
    by (auto simp: mi_option_get_def numeral_3_eq_3)
  then have "st' = st1" "w = opt_value (opts st1 o')" using assms(3) by auto
  then have "mi_option_get env o' st1 = Some (w, st1)"
    using st'(2) by (simp add: mi_option_get_def numeral_3_eq_3)
  then show ?thesis
    using set_get [of "mi_option_set o' v st" o' env]
    by (simp add: mi_option_set_def mi_option_set_default_def set_desc_def)
qed


theorem mi_option_set_get_witness:
  "\<exists>w st1. mi_option_get sample_env mi_option_purge_delay mi_options_initial = Some (w, st1)
    \<and> mi_option_get sample_env mi_option_purge_delay st1 = Some (w, st1)"
proof -
  obtain st' where "mi_option_get sample_env mi_option_purge_delay mi_options_initial
      = Some (opt_value (opts st' mi_option_purge_delay), st')"
    using returns_any [OF initial_wf, of 0 sample_env mi_option_purge_delay]
    by (auto simp: mi_option_get_def numeral_3_eq_3)
  then show ?thesis
    using mi_option_set_get [OF initial_wf, of sample_env mi_option_purge_delay _ st' 0 0] by (auto simp: sample_env_def)
qed

end
