(* ===== verification/Os.thy ===== *)
theory Os
  imports Options
begin

text \<open>
  The interface to the operating system (src/os.c): page-aligned ranges, primitive, aligned and
  offset-aligned allocation with its fallback to over-allocation, freeing, commit, decommit,
  reset, purge and protect, the reservation of huge pages, the address hint and the NUMA node.
  The platform primitives (src/prim) are an environment whose answers may depend on everything
  that happened before; the state holds the log of the calls that succeeded. Addresses and
  sizes are natural numbers (user addresses are below 2^47); statistics and messages are
  left out.
\<close>

section \<open>Memory identifiers (types.h, internal.h)\<close>

datatype mi_memkind =
    MI_MEM_NONE | MI_MEM_EXTERNAL | MI_MEM_STATIC | MI_MEM_OS | MI_MEM_OS_HUGE | MI_MEM_OS_REMAP | MI_MEM_ARENA

fun memkind_index :: "mi_memkind \<Rightarrow> nat" where
  "memkind_index MI_MEM_NONE = 0"
| "memkind_index MI_MEM_EXTERNAL = 1"
| "memkind_index MI_MEM_STATIC = 2"
| "memkind_index MI_MEM_OS = 3"
| "memkind_index MI_MEM_OS_HUGE = 4"
| "memkind_index MI_MEM_OS_REMAP = 5"
| "memkind_index MI_MEM_ARENA = 6"

lemma memkind_index_inj: "memkind_index a = memkind_index b \<Longrightarrow> a = b"
  by (cases a; cases b) simp_all

instantiation mi_memkind :: linorder
begin

definition less_eq_mi_memkind :: "mi_memkind \<Rightarrow> mi_memkind \<Rightarrow> bool" where
  "less_eq_mi_memkind a b \<longleftrightarrow> memkind_index a \<le> memkind_index b"

definition less_mi_memkind :: "mi_memkind \<Rightarrow> mi_memkind \<Rightarrow> bool" where
  "less_mi_memkind a b \<longleftrightarrow> memkind_index a < memkind_index b"

instance
  by standard (auto simp: less_eq_mi_memkind_def less_mi_memkind_def memkind_index_inj)

end

definition mi_memkind_is_os :: "mi_memkind \<Rightarrow> bool" where
  "mi_memkind_is_os memkind \<longleftrightarrow> memkind \<ge> MI_MEM_OS \<and> memkind \<le> MI_MEM_OS_REMAP"

text \<open>The two members of the union are kept side by side; the code reads one by the kind.\<close>

record mi_memid =
  mem_os_base :: nat
  mem_os_alignment :: nat
  mem_arena_block_index :: nat
  mem_arena_id :: int
  mem_arena_is_exclusive :: bool
  is_pinned :: bool
  initially_committed :: bool
  initially_zero :: bool
  memkind :: mi_memkind

definition mi_memid_create :: "mi_memkind \<Rightarrow> mi_memid" where
  "mi_memid_create kind = \<lparr>mem_os_base = 0, mem_os_alignment = 0, mem_arena_block_index = 0, mem_arena_id = 0,
     mem_arena_is_exclusive = False, is_pinned = False, initially_committed = False, initially_zero = False,
     memkind = kind\<rparr>"

definition mi_memid_none :: mi_memid where
  "mi_memid_none = mi_memid_create MI_MEM_NONE"

definition mi_memid_create_os :: "bool \<Rightarrow> bool \<Rightarrow> bool \<Rightarrow> mi_memid" where
  "mi_memid_create_os committed is_zero is_large =
     (mi_memid_create MI_MEM_OS)\<lparr>initially_committed := committed, initially_zero := is_zero, is_pinned := is_large\<rparr>"

section \<open>The environment and the state\<close>

datatype os_event =
    Ev_alloc nat nat
  | Ev_free nat nat
  | Ev_commit nat nat
  | Ev_decommit nat nat
  | Ev_reset nat nat
  | Ev_protect nat nat bool

record os_env =
  page_size :: nat
  large_page_size :: nat
  alloc_granularity :: nat
  has_overcommit :: bool
  must_free_whole :: bool
  has_virtual_reserve :: bool
  os_preloading :: bool
  optv :: "mi_option \<Rightarrow> int"
  clock :: "os_event list \<Rightarrow> int"
  prim_alloc :: "os_event list \<Rightarrow> nat \<Rightarrow> nat \<Rightarrow> bool \<Rightarrow> bool \<Rightarrow> bool \<times> bool \<times> nat"
  prim_free :: "os_event list \<Rightarrow> nat \<Rightarrow> nat \<Rightarrow> int"
  prim_commit :: "os_event list \<Rightarrow> nat \<Rightarrow> nat \<Rightarrow> int \<times> bool"
  prim_decommit :: "os_event list \<Rightarrow> nat \<Rightarrow> nat \<Rightarrow> int \<times> bool"
  prim_reset :: "os_event list \<Rightarrow> nat \<Rightarrow> nat \<Rightarrow> int"
  prim_protect :: "os_event list \<Rightarrow> nat \<Rightarrow> nat \<Rightarrow> bool \<Rightarrow> int"
  prim_alloc_huge :: "os_event list \<Rightarrow> nat \<Rightarrow> nat \<Rightarrow> int \<Rightarrow> int \<times> bool \<times> nat"
  prim_numa_node_count :: nat
  prim_numa_node :: nat

record mi_os =
  os_log :: "os_event list"
  aligned_base :: nat
  huge_start :: nat
  numa_node_count :: nat

definition os_event_add :: "os_event \<Rightarrow> mi_os \<Rightarrow> mi_os" where
  "os_event_add ev st = st\<lparr>os_log := ev # os_log st\<rparr>"

definition SIZE_MAX :: nat where "SIZE_MAX = 2 ^ 64 - 1"

text \<open>_mi_align_up and _mi_align_down where nothing overflows.\<close>

definition align_up :: "nat \<Rightarrow> nat \<Rightarrow> nat" where
  "align_up sz alignment = (sz + alignment - 1) div alignment * alignment"

definition align_down :: "nat \<Rightarrow> nat \<Rightarrow> nat" where
  "align_down sz alignment = sz div alignment * alignment"

section \<open>Sizes and hints\<close>

definition mi_os_page_size :: "os_env \<Rightarrow> nat" where
  "mi_os_page_size env = page_size env"

definition mi_os_large_page_size :: "os_env \<Rightarrow> nat" where
  "mi_os_large_page_size env = (if large_page_size env \<noteq> 0 then large_page_size env else mi_os_page_size env)"

definition mi_os_use_large_page :: "os_env \<Rightarrow> nat \<Rightarrow> nat \<Rightarrow> bool" where
  "mi_os_use_large_page env sz alignment =
     (if large_page_size env = 0 \<or> optv env mi_option_allow_large_os_pages = 0 then False
      else sz mod large_page_size env = 0 \<and> alignment mod large_page_size env = 0)"

definition mi_os_good_alloc_size :: "os_env \<Rightarrow> nat \<Rightarrow> nat" where
  "mi_os_good_alloc_size env sz =
     (let align_size =
        (if sz < 512 * MI_KiB then mi_os_page_size env
         else if sz < 2 * MI_MiB then 64 * MI_KiB
         else if sz < 8 * MI_MiB then 256 * MI_KiB
         else if sz < 32 * MI_MiB then 1 * MI_MiB
         else 4 * MI_MiB)
      in if sz \<ge> SIZE_MAX - align_size then sz else align_up sz align_size)"

definition MI_HINT_BASE :: nat where "MI_HINT_BASE = 2 * 2 ^ 40"
definition MI_HINT_AREA :: nat where "MI_HINT_AREA = 4 * 2 ^ 40"
definition MI_HINT_MAX :: nat where "MI_HINT_MAX = 30 * 2 ^ 40"

text \<open>r is the next random number; the exchange of aligned_base succeeds without interference.\<close>

definition mi_os_get_aligned_hint :: "nat \<Rightarrow> nat \<Rightarrow> nat \<Rightarrow> mi_os \<Rightarrow> nat \<times> mi_os" where
  "mi_os_get_aligned_hint r try_alignment sz st =
     (if try_alignment \<le> 1 \<or> try_alignment > MI_SEGMENT_SIZE then (0, st)
      else let sz = align_up sz MI_SEGMENT_SIZE
        in if sz > 1 * MI_GiB then (0, st)
           else let hint = aligned_base st;
                    st = st\<lparr>aligned_base := hint + sz\<rparr>;
                    (hint, st) =
                      (if hint = 0 \<or> hint > MI_HINT_MAX
                       then let init = MI_HINT_BASE + (MI_SEGMENT_SIZE * (r div 2 ^ 17 mod 2 ^ 20)) mod MI_HINT_AREA
                            in (init, st\<lparr>aligned_base := init + sz\<rparr>)
                       else (hint, st))
                in if hint mod try_alignment \<noteq> 0 then (0, st) else (hint, st))"

section \<open>Free and allocate\<close>

definition mi_os_prim_free :: "os_env \<Rightarrow> nat \<Rightarrow> nat \<Rightarrow> mi_os \<Rightarrow> mi_os" where
  "mi_os_prim_free env addr sz st =
     (if addr = 0 \<or> sz = 0 then st
      else if prim_free env (os_log st) addr sz = 0 then os_event_add (Ev_free addr sz) st else st)"

definition MI_HUGE_OS_PAGE_SIZE :: nat where [simp]: "MI_HUGE_OS_PAGE_SIZE = MI_GiB"

function mi_free_huge_loop :: "os_env \<Rightarrow> nat \<Rightarrow> nat \<Rightarrow> mi_os \<Rightarrow> mi_os" where
  "mi_free_huge_loop env base sz st =
     (if sz \<ge> MI_HUGE_OS_PAGE_SIZE
      then mi_free_huge_loop env (base + MI_HUGE_OS_PAGE_SIZE) (sz - MI_HUGE_OS_PAGE_SIZE)
             (mi_os_prim_free env base MI_HUGE_OS_PAGE_SIZE st)
      else st)"
  by auto
termination by (relation "measure (\<lambda>(env, base, sz, st). sz)") auto

definition mi_os_free_huge_os_pages :: "os_env \<Rightarrow> nat \<Rightarrow> nat \<Rightarrow> mi_os \<Rightarrow> mi_os" where
  "mi_os_free_huge_os_pages env p sz st = (if p = 0 \<or> sz = 0 then st else mi_free_huge_loop env p sz st)"

definition mi_os_free_ex :: "os_env \<Rightarrow> nat \<Rightarrow> nat \<Rightarrow> bool \<Rightarrow> mi_memid \<Rightarrow> mi_os \<Rightarrow> mi_os" where
  "mi_os_free_ex env addr sz still_committed memid st =
     (if mi_memkind_is_os (memkind memid) then
        let csize = mi_os_good_alloc_size env sz;
            (base, csize) =
              (if mem_os_base memid \<noteq> 0 then (mem_os_base memid, csize + (addr - mem_os_base memid))
               else (addr, csize))
        in if memkind memid = MI_MEM_OS_HUGE then mi_os_free_huge_os_pages env base csize st
           else mi_os_prim_free env base csize st
      else st)"

definition mi_os_free :: "os_env \<Rightarrow> nat \<Rightarrow> nat \<Rightarrow> mi_memid \<Rightarrow> mi_os \<Rightarrow> mi_os" where
  "mi_os_free env p sz memid st = mi_os_free_ex env p sz True memid st"

text \<open>The result is the address, whether the pages are large, and whether they are zero.\<close>

definition mi_os_prim_alloc ::
  "os_env \<Rightarrow> nat \<Rightarrow> nat \<Rightarrow> bool \<Rightarrow> bool \<Rightarrow> mi_os \<Rightarrow> (nat \<times> bool \<times> bool) \<times> mi_os" where
  "mi_os_prim_alloc env sz try_alignment commit allow_large st =
     (if sz = 0 then ((0, False, False), st)
      else let allow_large = (if \<not> commit then False else allow_large);
               try_alignment = (if try_alignment = 0 then 1 else try_alignment)
           in case prim_alloc env (os_log st) sz try_alignment commit allow_large of
                (is_large, is_zero, p) \<Rightarrow>
                  if p = 0 then ((0, is_large, is_zero), st)
                  else ((p, is_large, is_zero), os_event_add (Ev_alloc p sz) st))"

definition mi_os_page_align_areax :: "os_env \<Rightarrow> bool \<Rightarrow> nat \<Rightarrow> nat \<Rightarrow> nat \<times> nat" where
  "mi_os_page_align_areax env conservative addr sz =
     (if sz = 0 \<or> addr = 0 then (0, 0)
      else let start = (if conservative then align_up addr (mi_os_page_size env)
                        else align_down addr (mi_os_page_size env));
               end = (if conservative then align_down (addr + sz) (mi_os_page_size env)
                      else align_up (addr + sz) (mi_os_page_size env))
           in if end \<le> start then (0, 0) else (start, end - start))"

definition mi_os_page_align_area_conservative :: "os_env \<Rightarrow> nat \<Rightarrow> nat \<Rightarrow> nat \<times> nat" where
  "mi_os_page_align_area_conservative env addr sz = mi_os_page_align_areax env True addr sz"

text \<open>The result is the returned bool and *is_zero.\<close>

definition mi_os_commit :: "os_env \<Rightarrow> nat \<Rightarrow> nat \<Rightarrow> mi_os \<Rightarrow> (bool \<times> bool) \<times> mi_os" where
  "mi_os_commit env addr sz st =
     (case mi_os_page_align_areax env False addr sz of (start, csize) \<Rightarrow>
        if csize = 0 then ((True, False), st)
        else case prim_commit env (os_log st) start csize of (err, os_is_zero) \<Rightarrow>
          if err \<noteq> 0 then ((False, False), st)
          else ((True, os_is_zero), os_event_add (Ev_commit start csize) st))"

definition mi_os_prim_alloc_aligned ::
  "os_env \<Rightarrow> nat \<Rightarrow> nat \<Rightarrow> bool \<Rightarrow> bool \<Rightarrow> mi_os \<Rightarrow> (nat \<times> nat \<times> bool \<times> bool) \<times> mi_os" where
  "mi_os_prim_alloc_aligned env sz alignment commit allow_large st =
     (let allow_large = (if \<not> commit then False else allow_large)
      in if \<not> (alignment \<ge> mi_os_page_size env \<and> and alignment (alignment - 1) = 0)
         then ((0, 0, False, False), st)
         else let sz = align_up sz (mi_os_page_size env)
           in case mi_os_prim_alloc env sz alignment commit allow_large st of ((p, is_large, is_zero), st) \<Rightarrow>
             if p = 0 then ((0, 0, is_large, is_zero), st)
             else if p mod alignment = 0 then ((p, p, is_large, is_zero), st)
             else let st = mi_os_prim_free env p sz st
               in if sz \<ge> SIZE_MAX - alignment then ((0, 0, is_large, is_zero), st)
                  else let over_size = sz + alignment
                    in if must_free_whole env then
                         (case mi_os_prim_alloc env over_size 1 False False st of ((p, is_large, is_zero), st) \<Rightarrow>
                            if p = 0 then ((0, 0, is_large, is_zero), st)
                            else let base = p; p = align_up p alignment;
                                     st = (if commit then snd (mi_os_commit env p sz st) else st)
                                 in ((p, base, is_large, is_zero), st))
                       else
                         (case mi_os_prim_alloc env over_size 1 commit False st of ((p, is_large, is_zero), st) \<Rightarrow>
                            if p = 0 then ((0, 0, is_large, is_zero), st)
                            else let aligned_p = align_up p alignment;
                                     pre_size = aligned_p - p;
                                     mid_size = align_up sz (mi_os_page_size env);
                                     post_size = over_size - pre_size - mid_size;
                                     st = (if pre_size > 0 then mi_os_prim_free env p pre_size st else st);
                                     st = (if post_size > 0
                                           then mi_os_prim_free env (aligned_p + mid_size) post_size st else st)
                                 in ((aligned_p, aligned_p, is_large, is_zero), st)))"

definition mi_os_alloc :: "os_env \<Rightarrow> nat \<Rightarrow> mi_os \<Rightarrow> (nat \<times> mi_memid) \<times> mi_os" where
  "mi_os_alloc env sz st =
     (if sz = 0 then ((0, mi_memid_none), st)
      else let sz = mi_os_good_alloc_size env sz
        in case mi_os_prim_alloc env sz 0 True False st of ((p, os_is_large, os_is_zero), st) \<Rightarrow>
          if p \<noteq> 0 then ((p, mi_memid_create_os True os_is_zero os_is_large), st)
          else ((p, mi_memid_none), st))"

definition mi_os_alloc_aligned ::
  "os_env \<Rightarrow> nat \<Rightarrow> nat \<Rightarrow> bool \<Rightarrow> bool \<Rightarrow> mi_os \<Rightarrow> (nat \<times> mi_memid) \<times> mi_os" where
  "mi_os_alloc_aligned env sz alignment commit allow_large st =
     (if sz = 0 then ((0, mi_memid_none), st)
      else let sz = mi_os_good_alloc_size env sz;
               alignment = align_up alignment (mi_os_page_size env)
        in case mi_os_prim_alloc_aligned env sz alignment commit allow_large st of
             ((p, os_base, os_is_large, os_is_zero), st) \<Rightarrow>
               if p \<noteq> 0 then
                 ((p, (mi_memid_create_os commit os_is_zero os_is_large)
                        \<lparr>mem_os_base := os_base, mem_os_alignment := alignment\<rparr>), st)
               else ((p, mi_memid_none), st))"

section \<open>Decommit, reset, purge, protect\<close>

text \<open>The result is the returned bool and *needs_recommit, given its value before.\<close>

definition mi_os_decommit_ex :: "os_env \<Rightarrow> nat \<Rightarrow> nat \<Rightarrow> bool \<Rightarrow> mi_os \<Rightarrow> (bool \<times> bool) \<times> mi_os" where
  "mi_os_decommit_ex env addr sz needs_recommit st =
     (case mi_os_page_align_area_conservative env addr sz of (start, csize) \<Rightarrow>
        if csize = 0 then ((True, needs_recommit), st)
        else case prim_decommit env (os_log st) start csize of (err, needs_recommit) \<Rightarrow>
          ((err = 0, needs_recommit), if err = 0 then os_event_add (Ev_decommit start csize) st else st))"

definition mi_os_decommit :: "os_env \<Rightarrow> nat \<Rightarrow> nat \<Rightarrow> mi_os \<Rightarrow> bool \<times> mi_os" where
  "mi_os_decommit env addr sz st =
     (case mi_os_decommit_ex env addr sz True st of ((r, _), st) \<Rightarrow> (r, st))"

definition mi_os_reset :: "os_env \<Rightarrow> nat \<Rightarrow> nat \<Rightarrow> mi_os \<Rightarrow> bool \<times> mi_os" where
  "mi_os_reset env addr sz st =
     (case mi_os_page_align_area_conservative env addr sz of (start, csize) \<Rightarrow>
        if csize = 0 then (True, st)
        else let err = prim_reset env (os_log st) start csize
          in (err = 0, if err = 0 then os_event_add (Ev_reset start csize) st else st))"

definition mi_os_purge_ex :: "os_env \<Rightarrow> nat \<Rightarrow> nat \<Rightarrow> bool \<Rightarrow> mi_os \<Rightarrow> bool \<times> mi_os" where
  "mi_os_purge_ex env p sz allow_reset st =
     (if optv env mi_option_purge_delay < 0 then (False, st)
      else if optv env mi_option_purge_decommits \<noteq> 0 \<and> \<not> os_preloading env then
        (case mi_os_decommit_ex env p sz True st of ((_, needs_recommit), st) \<Rightarrow> (needs_recommit, st))
      else (False, if allow_reset then snd (mi_os_reset env p sz st) else st))"

definition mi_os_purge :: "os_env \<Rightarrow> nat \<Rightarrow> nat \<Rightarrow> mi_os \<Rightarrow> bool \<times> mi_os" where
  "mi_os_purge env p sz st = mi_os_purge_ex env p sz True st"

definition mi_os_protectx :: "os_env \<Rightarrow> nat \<Rightarrow> nat \<Rightarrow> bool \<Rightarrow> mi_os \<Rightarrow> bool \<times> mi_os" where
  "mi_os_protectx env addr sz protect st =
     (case mi_os_page_align_area_conservative env addr sz of (start, csize) \<Rightarrow>
        if csize = 0 then (False, st)
        else let err = prim_protect env (os_log st) start csize protect
          in (err = 0, if err = 0 then os_event_add (Ev_protect start csize protect) st else st))"

definition mi_os_protect :: "os_env \<Rightarrow> nat \<Rightarrow> nat \<Rightarrow> mi_os \<Rightarrow> bool \<times> mi_os" where
  "mi_os_protect env addr sz st = mi_os_protectx env addr sz True st"

definition mi_os_unprotect :: "os_env \<Rightarrow> nat \<Rightarrow> nat \<Rightarrow> mi_os \<Rightarrow> bool \<times> mi_os" where
  "mi_os_unprotect env addr sz st = mi_os_protectx env addr sz False st"

definition mi_os_alloc_aligned_at_offset ::
  "os_env \<Rightarrow> nat \<Rightarrow> nat \<Rightarrow> nat \<Rightarrow> bool \<Rightarrow> bool \<Rightarrow> mi_os \<Rightarrow> (nat \<times> mi_memid) \<times> mi_os" where
  "mi_os_alloc_aligned_at_offset env sz alignment offset commit allow_large st =
     (if offset > MI_SEGMENT_SIZE then ((0, mi_memid_none), st)
      else if offset = 0 then mi_os_alloc_aligned env sz alignment commit allow_large st
      else let extra = align_up offset alignment - offset;
               oversize = sz + extra
        in case mi_os_alloc_aligned env oversize alignment commit allow_large st of ((start, memid), st) \<Rightarrow>
             if start = 0 then ((0, memid), st)
             else let p = start + extra;
                      st = (if commit \<and> extra > mi_os_page_size env
                            then snd (mi_os_decommit env start extra st) else st)
                  in ((p, memid), st))"

section \<open>Huge pages and NUMA nodes\<close>

text \<open>r is the next random number; the result is the start and the total size.\<close>

definition mi_os_claim_huge_pages :: "nat \<Rightarrow> nat \<Rightarrow> mi_os \<Rightarrow> (nat \<times> nat) \<times> mi_os" where
  "mi_os_claim_huge_pages r page_count st =
     (let sz = page_count * MI_HUGE_OS_PAGE_SIZE;
          start = (if huge_start st = 0
                   then 32 * 2 ^ 40 + MI_HUGE_OS_PAGE_SIZE * (r div 2 ^ 17 mod 2 ^ 12) else huge_start st)
      in ((start, sz), st\<lparr>huge_start := start + sz\<rparr>))"

text \<open>The loop of _mi_os_alloc_huge_os_pages: the result is the number of pages and all_zero.\<close>

function mi_alloc_huge_loop ::
  "os_env \<Rightarrow> nat \<Rightarrow> nat \<Rightarrow> int \<Rightarrow> int \<Rightarrow> int \<Rightarrow> nat \<Rightarrow> bool \<Rightarrow> mi_os \<Rightarrow> (nat \<times> bool) \<times> mi_os" where
  "mi_alloc_huge_loop env start page_count numa_node max_msecs start_t page all_zero st =
     (if page < page_count then
        let addr = start + page * MI_HUGE_OS_PAGE_SIZE
        in case prim_alloc_huge env (os_log st) addr MI_HUGE_OS_PAGE_SIZE numa_node of (err, is_zero, p) \<Rightarrow>
          let all_zero = (if \<not> is_zero then False else all_zero)
          in if err \<noteq> 0 then ((page, all_zero), st)
             else if p \<noteq> addr then
               ((page, all_zero),
                if p \<noteq> 0 then mi_os_prim_free env p MI_HUGE_OS_PAGE_SIZE (os_event_add (Ev_alloc p MI_HUGE_OS_PAGE_SIZE) st)
                else st)
             else let st = os_event_add (Ev_alloc p MI_HUGE_OS_PAGE_SIZE) st; page = page + 1;
                      elapsed = clock env (os_log st) - start_t;
                      estimate = to_long (to_ulong (to_ulong elapsed div int (page + 1) * int page_count));
                      elapsed = (if page \<ge> 1 \<and> estimate > 2 * max_msecs then max_msecs + 1 else elapsed)
                  in if max_msecs > 0 \<and> elapsed > max_msecs then ((page, all_zero), st)
                     else mi_alloc_huge_loop env start page_count numa_node max_msecs start_t page all_zero st
      else ((page, all_zero), st))"
  by auto
termination
  by (relation "measure (\<lambda>(env, start, page_count, numa_node, max_msecs, start_t, page, all_zero, st). page_count - page)") auto

text \<open>The result is the address, *pages_reserved, *psize and *memid.\<close>

definition mi_os_alloc_huge_os_pages ::
  "os_env \<Rightarrow> nat \<Rightarrow> nat \<Rightarrow> int \<Rightarrow> int \<Rightarrow> mi_os \<Rightarrow> (nat \<times> nat \<times> nat \<times> mi_memid) \<times> mi_os" where
  "mi_os_alloc_huge_os_pages env r page_count numa_node max_msecs st =
     (case mi_os_claim_huge_pages r page_count st of ((start, sz), st) \<Rightarrow>
        if start = 0 then ((0, 0, 0, mi_memid_none), st)
        else case mi_alloc_huge_loop env start page_count numa_node max_msecs (clock env (os_log st)) 0 True st of
          ((page, all_zero), st) \<Rightarrow>
            ((if page = 0 then 0 else start, page, page * MI_HUGE_OS_PAGE_SIZE,
              if page \<noteq> 0 then (mi_memid_create_os True all_zero True)\<lparr>memkind := MI_MEM_OS_HUGE\<rparr>
              else mi_memid_none), st))"

definition mi_os_numa_node_count_get :: "os_env \<Rightarrow> mi_os \<Rightarrow> nat \<times> mi_os" where
  "mi_os_numa_node_count_get env st =
     (let count = numa_node_count st
      in if count \<le> 0 then
           let ncount = optv env mi_option_use_numa_nodes;
               count = (if ncount > 0 then nat ncount
                        else if prim_numa_node_count env = 0 then 1 else prim_numa_node_count env)
           in (count, st\<lparr>numa_node_count := count\<rparr>)
         else (count, st))"

definition mi_os_numa_node_get :: "os_env \<Rightarrow> mi_os \<Rightarrow> nat \<times> mi_os" where
  "mi_os_numa_node_get env st =
     (case mi_os_numa_node_count_get env st of (numa_count, st) \<Rightarrow>
        if numa_count \<le> 1 then (0, st)
        else let numa_node = prim_numa_node env
          in (if numa_node \<ge> numa_count then numa_node mod numa_count else numa_node, st))"

declare mi_free_huge_loop.simps [simp del] mi_alloc_huge_loop.simps [simp del]

section \<open>Alignment of numbers\<close>

lemma align_up_props:
  assumes "0 < a"
  shows "a dvd align_up x a" "x \<le> align_up x a" "align_up x a < x + a"
proof -
  have d: "(x + a - 1) div a * a + (x + a - 1) mod a = x + a - 1" by simp
  have m: "(x + a - 1) mod a < a" using assms by simp
  show "a dvd align_up x a" by (simp add: align_up_def)
  show "x \<le> align_up x a" "align_up x a < x + a" using d m assms unfolding align_up_def by linarith+
qed

lemma align_up_id: "0 < a \<Longrightarrow> a dvd x \<Longrightarrow> align_up x a = x"
proof -
  assume a: "0 < a" "a dvd x"
  then obtain k where k: "x = a * k" by blast
  have "(a * k + (a - 1)) div a = k + (a - 1) div a" using a(1) by (intro div_mult_self4) simp
  also have "(a - 1) div a = 0" using a(1) by simp
  finally have "(a * k + a - 1) div a = k" using a(1) by (metis Nat.add_diff_assoc One_nat_def Suc_leI add_0_right)
  then show ?thesis using k by (simp add: align_up_def mult.commute)
qed

lemma align_down_props:
  assumes "0 < a"
  shows "a dvd align_down x a" "align_down x a \<le> x" "x < align_down x a + a"
proof -
  have d: "x div a * a + x mod a = x" by simp
  have m: "x mod a < a" using assms by simp
  show "a dvd align_down x a" by (simp add: align_down_def)
  show "align_down x a \<le> x" "x < align_down x a + a" using d m unfolding align_down_def by linarith+
qed

text \<open>They are the operations on words of internal.h where those do not wrap.\<close>

lemma align_up_word:
  assumes "a \<noteq> 0" "unat sz + unat a \<le> 2 ^ 64"
  shows "unat (mi_align_up sz a) = align_up (unat sz) (unat a)"
  using mi_align_up_spec [of a sz] assms by (simp add: align_up_def)

section \<open>What is committed and what is given up\<close>

text \<open>The bytes that the calls of a piece of the log commit, and those whose contents they give up.\<close>

fun committed_by :: "os_event list \<Rightarrow> nat set" where
  "committed_by [] = {}"
| "committed_by (Ev_commit p n # l) = committed_by l \<union> {p..<p + n}"
| "committed_by (_ # l) = committed_by l"

fun given_up :: "os_event list \<Rightarrow> nat set" where
  "given_up [] = {}"
| "given_up (Ev_free p n # l) = given_up l \<union> {p..<p + n}"
| "given_up (Ev_decommit p n # l) = given_up l \<union> {p..<p + n}"
| "given_up (Ev_reset p n # l) = given_up l \<union> {p..<p + n}"
| "given_up (_ # l) = given_up l"

lemma committed_by_append [simp]: "committed_by (a @ b) = committed_by a \<union> committed_by b"
  by (induction a rule: committed_by.induct) auto

lemma given_up_append [simp]: "given_up (a @ b) = given_up a \<union> given_up b"
  by (induction a rule: given_up.induct) auto

text \<open>
  Between two states the calls gave up nothing outside R; or they gave up nothing and committed
  all of R.
\<close>

definition gave_up_within :: "mi_os \<Rightarrow> mi_os \<Rightarrow> nat set \<Rightarrow> bool" where
  "gave_up_within os os' R \<longleftrightarrow> (\<exists>evs. os_log os' = evs @ os_log os \<and> given_up evs \<subseteq> R)"

definition did_commit :: "mi_os \<Rightarrow> mi_os \<Rightarrow> nat set \<Rightarrow> bool" where
  "did_commit os os' R \<longleftrightarrow> (\<exists>evs. os_log os' = evs @ os_log os \<and> given_up evs = {} \<and> R \<subseteq> committed_by evs)"

lemma gave_up_refl: "gave_up_within os os R"
  by (simp add: gave_up_within_def)

lemma gave_up_trans:
  "gave_up_within os os1 R \<Longrightarrow> gave_up_within os1 os2 R' \<Longrightarrow> R \<union> R' \<subseteq> S \<Longrightarrow> gave_up_within os os2 S"
  unfolding gave_up_within_def by (elim exE conjE, rule_tac x = "evsa @ evs" in exI) auto

lemma gave_up_mono: "gave_up_within os os' R \<Longrightarrow> R \<subseteq> S \<Longrightarrow> gave_up_within os os' S"
  unfolding gave_up_within_def by blast

lemma did_commit_none: "did_commit os os {}"
  by (simp add: did_commit_def)

lemma did_commit_mono: "did_commit os os' R \<Longrightarrow> S \<subseteq> R \<Longrightarrow> did_commit os os' S"
  unfolding did_commit_def by blast

lemma did_commit_keeps: "did_commit os os' R \<Longrightarrow> gave_up_within os os' {}"
  unfolding did_commit_def gave_up_within_def by blast

text \<open>The bytes of the chunks I of s bytes each from base on.\<close>

definition chunk_bytes :: "nat \<Rightarrow> nat \<Rightarrow> nat set \<Rightarrow> nat set" where
  "chunk_bytes base s I = {b. base \<le> b \<and> (b - base) div s \<in> I}"

lemma chunk_bytes_mono: "I \<subseteq> J \<Longrightarrow> chunk_bytes base s I \<subseteq> chunk_bytes base s J"
  unfolding chunk_bytes_def by blast

lemma chunk_bytes_Un: "chunk_bytes base s (I \<union> J) = chunk_bytes base s I \<union> chunk_bytes base s J"
  unfolding chunk_bytes_def by blast

lemma chunk_bytes_empty [simp]: "chunk_bytes base s {} = {}"
  by (simp add: chunk_bytes_def)

lemma chunk_bytes_interval:
  assumes "0 < s"
  shows "chunk_bytes base s {lo..<hi} = {base + lo * s..<base + lo * s + (hi - lo) * s}"
proof (rule set_eqI)
  fix b
  have "lo \<le> (b - base) div s \<longleftrightarrow> lo * s \<le> b - base" "(b - base) div s < hi \<longleftrightarrow> b - base < hi * s"
    using assms by (simp_all add: less_eq_div_iff_mult_less_eq div_less_iff_less_mult)
  moreover have "hi * s = lo * s + (hi - lo) * s" if "lo \<le> hi" using that by (simp flip: add_mult_distrib)
  moreover have "hi * s \<le> lo * s" if "hi \<le> lo" using that by simp
  ultimately show "b \<in> chunk_bytes base s {lo..<hi} \<longleftrightarrow> b \<in> {base + lo * s..<base + lo * s + (hi - lo) * s}"
    unfolding chunk_bytes_def by (cases "lo \<le> hi") auto
qed

lemma conservative_inside:
  assumes "mi_os_page_align_area_conservative env p sz = (start, csize)"
  shows "{start..<start + csize} \<subseteq> {p..<p + sz}"
proof (cases "csize = 0")
  case False
  then have c: "start = align_up p (page_size env)" "start + csize = align_down (p + sz) (page_size env)"
    using assms by (auto simp: mi_os_page_align_area_conservative_def mi_os_page_align_areax_def Let_def
      mi_os_page_size_def split: if_splits)
  have "0 < page_size env"
  proof (rule ccontr)
    assume "\<not> 0 < page_size env"
    then show False using c(2) False by (simp add: align_down_def)
  qed
  then have "p \<le> start" "start + csize \<le> p + sz"
    using align_up_props(2) [of "page_size env" p] align_down_props(2) [of "page_size env" "p + sz"]
    by (simp_all add: c(1) c(2) [unfolded c(1)])
  then show ?thesis by auto
qed simp

lemma purge_ex_within: "gave_up_within os (snd (mi_os_purge_ex env p sz allow_reset os)) {p..<p + sz}"
proof -
  obtain start csize where c: "mi_os_page_align_area_conservative env p sz = (start, csize)" by fastforce
  note i = conservative_inside [OF c]
  have d: "gave_up_within os (snd (mi_os_decommit_ex env p sz b os)) {p..<p + sz}" for b
    using i unfolding mi_os_decommit_ex_def c prod.case gave_up_within_def
    by (auto simp: os_event_add_def split: prod.splits)
  have r: "gave_up_within os (snd (mi_os_reset env p sz os)) {p..<p + sz}"
    using i unfolding mi_os_reset_def c prod.case gave_up_within_def
    by (auto simp: os_event_add_def Let_def)
  show ?thesis
    using d [of True] r gave_up_refl [of os "{p..<p + sz}"]
    by (auto simp: mi_os_purge_ex_def split: prod.splits)
qed

lemma purge_within: "gave_up_within os (snd (mi_os_purge env p sz os)) {p..<p + sz}"
  unfolding mi_os_purge_def by (rule purge_ex_within)

lemma os_commit_did:
  assumes "0 < page_size env" "0 < p" "mi_os_commit env p sz os = ((r, z), os')"
  shows "did_commit os os' (if r then {p..<p + sz} else {})"
proof (cases "sz = 0")
  case True
  then show ?thesis using assms(3) by (auto simp: mi_os_commit_def mi_os_page_align_areax_def did_commit_none)
next
  case False
  let ?s = "align_down p (page_size env)" and ?e = "align_up (p + sz) (page_size env)"
  have i: "?s \<le> p" "p + sz \<le> ?e"
    using align_down_props(2) [OF assms(1)] align_up_props(2) [OF assms(1)] by auto
  then have "mi_os_page_align_areax env False p sz = (?s, ?e - ?s)" "?e - ?s \<noteq> 0"
    using False assms(2) by (auto simp: mi_os_page_align_areax_def Let_def mi_os_page_size_def)
  then show ?thesis using assms(3) i
    by (auto simp: mi_os_commit_def did_commit_def os_event_add_def split: prod.splits if_splits)
qed

section \<open>What is allocated\<close>

fun live :: "os_event list \<Rightarrow> nat set" where
  "live [] = {}"
| "live (Ev_alloc p n # l) = live l \<union> {p..<p + n}"
| "live (Ev_free p n # l) = live l - {p..<p + n}"
| "live (_ # l) = live l"

text \<open>An operating system with mmap: it can free anywhere, and hands out free memory.\<close>

definition os_mmap :: "os_env \<Rightarrow> bool" where
  "os_mmap env \<longleftrightarrow> \<not> must_free_whole env \<and> 0 < page_size env \<and> page_size env dvd 2 ^ 16
     \<and> (\<forall>log sz al c la l z p. prim_alloc env log sz al c la = (l, z, p) \<longrightarrow> p \<noteq> 0 \<longrightarrow> {p..<p + sz} \<inter> live log = {})
     \<and> (\<forall>log p n. {p..<p + n} \<subseteq> live log \<longrightarrow> prim_free env log p n = 0)"

lemma prim_free_live:
  assumes "os_mmap env" "{p..<p + n} \<subseteq> live (os_log st)" "p \<noteq> 0"
  shows "live (os_log (mi_os_prim_free env p n st)) = live (os_log st) - {p..<p + n}"
  using assms by (auto simp: mi_os_prim_free_def os_mmap_def os_event_add_def)

lemma prim_alloc_live:
  assumes "os_mmap env" "mi_os_prim_alloc env sz al c la st = ((p, l, z), st')"
  shows "(p = 0 \<and> st' = st)
    \<or> (p \<noteq> 0 \<and> live (os_log st') = live (os_log st) \<union> {p..<p + sz} \<and> {p..<p + sz} \<inter> live (os_log st) = {})"
proof -
  obtain l' z' q where q: "prim_alloc env (os_log st) sz (if al = 0 then 1 else al) c (if \<not> c then False else la) = (l', z', q)"
    by (metis prod_cases3)
  have "q \<noteq> 0 \<longrightarrow> {q..<q + sz} \<inter> live (os_log st) = {}"
    using assms(1) q unfolding os_mmap_def by blast
  then show ?thesis using assms(2) q
    by (auto simp: mi_os_prim_alloc_def Let_def os_event_add_def split: if_splits)
qed

lemma good_alloc_size_ge:
  assumes "os_mmap env" shows "sz \<le> mi_os_good_alloc_size env sz"
proof -
  have u: "sz \<le> (if sz \<ge> SIZE_MAX - al then sz else align_up sz al)" if "0 < al" for al
    using align_up_props(2) [OF that] by simp
  show ?thesis unfolding mi_os_good_alloc_size_def Let_def mi_os_page_size_def
    by (rule u) (use assms in \<open>auto simp: os_mmap_def\<close>)
qed

lemma good_alloc_size_dvd:
  assumes "os_mmap env" "sz < 2 ^ 47"
  shows "page_size env dvd mi_os_good_alloc_size env sz"
proof -
  have p: "page_size env dvd 2 ^ 16" "0 < page_size env" using assms(1) by (simp_all add: os_mmap_def)
  have le: "page_size env \<le> 2 ^ 16" by (rule dvd_imp_le [OF p(1)]) simp
  have "page_size env dvd 64 * MI_KiB" "page_size env dvd 256 * MI_KiB" "page_size env dvd 1 * MI_MiB"
     "page_size env dvd 4 * MI_MiB"
    using p(1) by (auto intro: dvd_trans [of _ "2 ^ 16"])
  then have a: "page_size env dvd al \<and> 0 < al \<and> al \<le> 4 * MI_MiB"
    if "al \<in> {page_size env, 64 * MI_KiB, 256 * MI_KiB, 1 * MI_MiB, 4 * MI_MiB}" for al
    using that p(2) le by auto
  have u: "page_size env dvd (if sz \<ge> SIZE_MAX - al then sz else align_up sz al)"
    if "al \<in> {page_size env, 64 * MI_KiB, 256 * MI_KiB, 1 * MI_MiB, 4 * MI_MiB}" for al
  proof -
    have "\<not> sz \<ge> SIZE_MAX - al" proof -
      have "al \<le> 2 ^ 22" "sz < 2 ^ 47" using a [OF that] assms(2) by simp_all
      then show ?thesis by (simp add: SIZE_MAX_def)
    qed
    then show ?thesis using a [OF that] dvd_trans [OF _ align_up_props(1)] by auto
  qed
  show ?thesis unfolding mi_os_good_alloc_size_def Let_def mi_os_page_size_def by (rule u) auto
qed

lemma alloc_aligned_live:
  assumes os: "os_mmap env" and sz: "page_size env dvd sz"
    and run: "mi_os_prim_alloc_aligned env sz alignment commit large st = ((p, base, l, z), st')"
  shows "(p = 0 \<and> live (os_log st') = live (os_log st))
    \<or> (p \<noteq> 0 \<and> base = p \<and> alignment dvd p \<and> live (os_log st') = live (os_log st) \<union> {p..<p + sz}
        \<and> {p..<p + sz} \<inter> live (os_log st) = {})"
proof -
  have ps: "0 < page_size env" "\<not> must_free_whole env" using os by (simp_all add: os_mmap_def)
  have az: "align_up sz (page_size env) = sz" by (rule align_up_id [OF ps(1) sz])
  show ?thesis
  proof (cases "alignment \<ge> page_size env \<and> and alignment (alignment - 1) = 0")
    case False
    then show ?thesis using run by (auto simp: mi_os_prim_alloc_aligned_def mi_os_page_size_def)
  next
    case al: True
    let ?la = "if \<not> commit then False else large"
    obtain p1 l1 z1 st1 where 1: "mi_os_prim_alloc env sz alignment commit ?la st = ((p1, l1, z1), st1)"
      by (metis prod_cases3 surj_pair)
    note live1 = prim_alloc_live [OF os 1]
    show ?thesis
    proof (cases "p1 = 0 \<or> p1 mod alignment = 0")
      case True
      then show ?thesis using run 1 al az live1
        by (auto simp: mi_os_prim_alloc_aligned_def mi_os_page_size_def Let_def)
    next
      case False
      define st2 where "st2 = mi_os_prim_free env p1 sz st1"
      have live2: "live (os_log st2) = live (os_log st)"
        using prim_free_live [OF os, of p1 sz st1] live1 False by (auto simp: st2_def)
      show ?thesis
      proof (cases "sz \<ge> SIZE_MAX - alignment")
        case True
        then show ?thesis using run 1 al az False live2
          by (auto simp: mi_os_prim_alloc_aligned_def mi_os_page_size_def Let_def st2_def)
      next
        case small: False
        obtain p3 l3 z3 st3 where 3: "mi_os_prim_alloc env (sz + alignment) 1 commit False st2 = ((p3, l3, z3), st3)"
          by (metis prod_cases3 surj_pair)
        note live3 = prim_alloc_live [OF os 3]
        show ?thesis
        proof (cases "p3 = 0")
          case True
          then show ?thesis using run 1 al az False small 3 live2 live3 ps(2)
            by (auto simp: mi_os_prim_alloc_aligned_def mi_os_page_size_def Let_def st2_def)
        next
          case p3: False
          define a where "a = align_up p3 alignment"
          have a0: "0 < alignment" using al ps(1) by linarith
          note ap = align_up_props [OF a0, of p3, folded a_def]
          define post where "post = sz + alignment - (a - p3) - sz"
          have post: "0 < post" "a + sz + post = p3 + (sz + alignment)" using ap by (simp_all add: post_def)
          define st4 where "st4 = (if a - p3 > 0 then mi_os_prim_free env p3 (a - p3) st3 else st3)"
          have live4: "live (os_log st4) = live (os_log st2) \<union> {a..<p3 + (sz + alignment)}"
          proof -
            have l3: "live (os_log st3) = live (os_log st2) \<union> {p3..<p3 + (sz + alignment)}"
              "{p3..<p3 + (sz + alignment)} \<inter> live (os_log st2) = {}" using live3 p3 by auto
            have e: "p3 + (a - p3) = a" using ap(2) by simp
            have "{p3..<p3 + (a - p3)} \<subseteq> live (os_log st3)" unfolding e l3(1) using ap by auto
            then have f: "live (os_log (mi_os_prim_free env p3 (a - p3) st3)) = live (os_log st3) - {p3..<a}"
              using prim_free_live [OF os _ p3, of "a - p3" st3] e by simp
            have "live (os_log st4) = live (os_log st3) - {p3..<a}" using f ap(2) by (auto simp: st4_def)
            then show ?thesis using l3 ap by fastforce
          qed
          define st5 where "st5 = mi_os_prim_free env (a + sz) post st4"
          have "live (os_log st5) = live (os_log st4) - {a + sz..<a + sz + post}"
            unfolding st5_def by (rule prim_free_live [OF os]) (use live4 post ap p3 in auto)
          then have live5: "live (os_log st5) = live (os_log st) \<union> {a..<a + sz}"
          proof -
            have "x < p3 \<or> p3 + (sz + alignment) \<le> x" if "x \<in> live (os_log st)" for x
              using live3 p3 live2 that by (metis IntI atLeastLessThan_iff empty_iff not_le_imp_less)
            then have "{a + sz..<p3 + (sz + alignment)} \<inter> live (os_log st) = {}" using ap(2) by fastforce
            moreover have "live (os_log st5) = (live (os_log st) \<union> {a..<p3 + (sz + alignment)}) - {a + sz..<p3 + (sz + alignment)}"
              using \<open>live (os_log st5) = _\<close> live4 live2 post(2) by simp
            ultimately show ?thesis using ap by auto
          qed
          have "((p, base, l, z), st') = ((a, a, l3, z3), st5)"
            using run 1 al az False small 3 p3 ps(2) post(1) a0
            by (auto simp: mi_os_prim_alloc_aligned_def mi_os_page_size_def Let_def st2_def a_def st4_def st5_def post_def simp del: Nat.diff_diff_right)
          moreover have "{a..<a + sz} \<inter> live (os_log st) = {}"
          proof -
            have "{a..<a + sz} \<subseteq> {p3..<p3 + (sz + alignment)}" using ap by auto
            then show ?thesis using live3 p3 live2 by blast
          qed
          ultimately show ?thesis using live5 p3 ap by auto
        qed
      qed
    qed
  qed
qed


section \<open>Properties\<close>

lemma os_alloc_aligned_live:
  assumes os: "os_mmap env" and sz: "0 < sz" "sz < 2 ^ 47" and al: "page_size env dvd alignment"
    and run: "mi_os_alloc_aligned env sz alignment commit large st = ((p, memid), st')"
  shows "(p = 0 \<and> live (os_log st') = live (os_log st) \<and> memid = mi_memid_none)
    \<or> (p \<noteq> 0 \<and> mem_os_base memid = p \<and> memkind memid = MI_MEM_OS \<and> alignment dvd p
        \<and> live (os_log st') = live (os_log st) \<union> {p..<p + mi_os_good_alloc_size env sz}
        \<and> {p..<p + mi_os_good_alloc_size env sz} \<inter> live (os_log st) = {})"
proof -
  have "0 < page_size env" using os by (simp add: os_mmap_def)
  then have a: "align_up alignment (mi_os_page_size env) = alignment"
    using align_up_id [OF _ al] by (simp add: mi_os_page_size_def)
  obtain p1 b1 l1 z1 st1 where 1: "mi_os_prim_alloc_aligned env (mi_os_good_alloc_size env sz) alignment commit large st
      = ((p1, b1, l1, z1), st1)"
    by (metis prod_cases4 surj_pair)
  have "st1 = st' \<and> p1 = p \<and> (if p = 0 then memid = mi_memid_none
      else mem_os_base memid = b1 \<and> memkind memid = MI_MEM_OS)"
    using run sz(1) 1 a
    by (auto simp: mi_os_alloc_aligned_def Let_def mi_memid_create_os_def mi_memid_create_def split: if_splits)
  then show ?thesis
    using alloc_aligned_live [OF os good_alloc_size_dvd [OF os sz(2)] 1] by (auto split: if_splits)
qed

text \<open>
  C33: With an operating system that can unmap any part of what it gave out (not one that must
  free a whole allocation at once), an aligned
  allocation returns an aligned range that was free, of at least the size asked for, whichever
  of the two ways such a system leaves it took: directly, or by over-allocating and unmapping what is before and behind. What
  is left allocated is exactly that range, also when the call fails, and freeing the result
  with the size asked for gives back exactly what the allocation took.
\<close>

theorem mi_os_alloc_aligned_free:
  assumes "os_mmap env" "0 < sz" "sz < 2 ^ 47" "page_size env dvd alignment"
    "mi_os_alloc_aligned env sz alignment commit large st = ((p, memid), st')"
  shows "live (os_log (mi_os_free env p sz memid st')) = live (os_log st)
    \<and> (p = 0 \<longrightarrow> live (os_log st') = live (os_log st))
    \<and> (p \<noteq> 0 \<longrightarrow> alignment dvd p \<and> {p..<p + sz} \<subseteq> live (os_log st') \<and> {p..<p + sz} \<inter> live (os_log st) = {}
         \<and> live (os_log st') = live (os_log st) \<union> {p..<p + mi_os_good_alloc_size env sz})"
proof -
  note a = os_alloc_aligned_live [OF assms]
  have ge: "{p..<p + sz} \<subseteq> {p..<p + mi_os_good_alloc_size env sz}"
    using good_alloc_size_ge [OF assms(1), of sz] by auto
  have "live (os_log (mi_os_free env p sz memid st')) = live (os_log st)"
  proof (cases "p = 0")
    case True
    then show ?thesis using a
      by (auto simp: mi_os_free_def mi_os_free_ex_def mi_memid_none_def mi_memid_create_def mi_memkind_is_os_def
          less_eq_mi_memkind_def)
  next
    case False
    then have "mi_os_free env p sz memid st' = mi_os_prim_free env p (mi_os_good_alloc_size env sz) st'"
      using a by (auto simp: mi_os_free_def mi_os_free_ex_def mi_memkind_is_os_def less_eq_mi_memkind_def Let_def)
    then show ?thesis
      using a False prim_free_live [OF assms(1) _ False, of "mi_os_good_alloc_size env sz" st'] by auto
  qed
  moreover have "p \<noteq> 0 \<Longrightarrow> {p..<p + sz} \<inter> live (os_log st) = {}" using a ge by blast
  ultimately show ?thesis using a ge by auto
qed

text \<open>A system that hands out addresses from the bottom up, never twice.\<close>

fun used_up_to :: "os_event list \<Rightarrow> nat" where
  "used_up_to [] = 4096"
| "used_up_to (Ev_alloc p n # l) = max (used_up_to l) (p + n)"
| "used_up_to (_ # l) = used_up_to l"

definition sample_os :: os_env where
  "sample_os = \<lparr>page_size = 4096, large_page_size = 0, alloc_granularity = 4096, has_overcommit = True,
     must_free_whole = False, has_virtual_reserve = True, os_preloading = False,
     optv = (\<lambda>o'. opt_value (mi_options_table o')), clock = (\<lambda>log. int (length log)),
     prim_alloc = (\<lambda>log sz al c la. (False, True, used_up_to log)),
     prim_free = (\<lambda>log p n. 0), prim_commit = (\<lambda>log p n. (0, False)), prim_decommit = (\<lambda>log p n. (0, True)),
     prim_reset = (\<lambda>log p n. 0), prim_protect = (\<lambda>log p n b. 0),
     prim_alloc_huge = (\<lambda>log p n node. (0, True, p)), prim_numa_node_count = 1, prim_numa_node = 0\<rparr>"

definition sample_st :: mi_os where
  "sample_st = \<lparr>os_log = [], aligned_base = 0, huge_start = 0, numa_node_count = 0\<rparr>"

lemma live_used: "p \<in> live log \<Longrightarrow> p < used_up_to log"
  by (induction log rule: live.induct) (auto simp: less_max_iff_disj)

lemma sample_os_mmap: "os_mmap sample_os"
proof -
  have "(4096 :: nat) dvd 2 ^ 16" by simp
  then show ?thesis by (force simp: os_mmap_def sample_os_def dest: live_used)
qed

theorem mi_os_alloc_aligned_free_witness:
  "\<exists>p memid st'. mi_os_alloc_aligned sample_os 70000 1048576 True False sample_st = ((p, memid), st')
     \<and> p = 1048576 \<and> live (os_log (mi_os_free sample_os p 70000 memid st')) = {}"
proof -
  obtain p memid st' where r: "mi_os_alloc_aligned sample_os 70000 1048576 True False sample_st = ((p, memid), st')"
    by (metis prod.exhaust)
  have d: "page_size sample_os dvd 1048576" by (simp add: sample_os_def)
  have "p = 1048576"
    using r by (simp add: mi_os_alloc_aligned_def mi_os_good_alloc_size_def mi_os_prim_alloc_aligned_def
        mi_os_prim_alloc_def mi_os_prim_free_def sample_os_def sample_st_def SIZE_MAX_def os_event_add_def align_up_def
        mi_os_page_size_def mi_memid_none_def)
  then show ?thesis
    using mi_os_alloc_aligned_free [OF sample_os_mmap _ _ d r] r by (auto simp: sample_st_def)
qed

text \<open>
  The offset-aligned allocation rounds up the size with the room in front of the range,
  and freeing its result rounds up the size without it: the two differ, and a part of what was
  allocated stays allocated after the range was freed. Here 65 MiB are allocated so that the
  address 64 KiB behind the start is aligned to 32 MiB; 64 KiB are never given back.
\<close>

theorem mi_os_offset_leak:
  "\<exists>p memid st'. mi_os_alloc_aligned_at_offset sample_os (65 * 1048576) (32 * 1048576) 65536 False False sample_st
       = ((p, memid), st') \<and> p \<noteq> 0
     \<and> live (os_log (mi_os_free sample_os p (65 * 1048576) memid st')) = {239075328 - 65536..<239075328}"
proof -
  obtain p memid st' where r: "mi_os_alloc_aligned_at_offset sample_os (65 * 1048576) (32 * 1048576) 65536 False False sample_st
       = ((p, memid), st')"
    by (metis prod.exhaust)
  have "p = 167706624 \<and> live (os_log (mi_os_free sample_os p (65 * 1048576) memid st')) = {239009792..<239075328}"
    using r by (auto simp add: mi_os_alloc_aligned_at_offset_def mi_os_alloc_aligned_def mi_os_good_alloc_size_def mi_os_prim_alloc_aligned_def
        mi_os_prim_alloc_def mi_os_prim_free_def sample_os_def sample_st_def SIZE_MAX_def os_event_add_def align_up_def
        mi_os_page_size_def mi_memid_none_def mi_os_free_def mi_os_free_ex_def mi_memid_create_os_def mi_memid_create_def mi_memkind_is_os_def less_eq_mi_memkind_def)
  then show ?thesis using r by auto
qed

end
