(* ===== verification/Commit.thy ===== *)
theory Commit
  imports CommitMask Os
begin

text \<open>
  Segments (mi_segment_t in include/mimalloc/types.h) and what src/segment.c does to their
  memory: commit of a range before use, purge of a range, the delayed purge with its
  expiration, and the purge of what was scheduled. A segment is named by its number, its
  address divided by the size of a segment; the slices are kept with the pages. Times are
  integers; None is a write outside a commit mask or a loop that does not end.
\<close>

section \<open>Segments\<close>

datatype mi_segment_kind = MI_SEGMENT_NORMAL | MI_SEGMENT_HUGE

record mi_segment =
  memid :: mi_memid
  allow_decommit :: bool
  allow_purge :: bool
  segment_size :: nat
  purge_expire :: int
  purge_mask :: mi_commit_mask
  commit_mask :: mi_commit_mask
  abandoned_next :: nat
  abandoned :: nat
  abandoned_visits :: nat
  seg_used :: nat
  segment_slices :: nat
  segment_info_slices :: nat
  kind :: mi_segment_kind
  slice_entries :: nat
  thread_id :: nat

definition seg_addr :: "nat \<Rightarrow> nat" where
  "seg_addr n = n * MI_SEGMENT_SIZE"

definition mi_segment_size :: "mi_segment \<Rightarrow> nat" where
  "mi_segment_size seg = segment_slices seg * MI_SEGMENT_SLICE_SIZE"

definition mi_segment_info_size :: "mi_segment \<Rightarrow> nat" where
  "mi_segment_info_size seg = segment_info_slices seg * MI_SEGMENT_SLICE_SIZE"

section \<open>Commit and purge\<close>

text \<open>The result is *start_p, *full_size and the mask; the callers initialise the first two with 0.\<close>

definition mi_segment_commit_mask ::
  "nat \<Rightarrow> mi_segment \<Rightarrow> bool \<Rightarrow> nat \<Rightarrow> nat \<Rightarrow> (nat \<times> nat \<times> mi_commit_mask) option" where
  "mi_segment_commit_mask n seg conservative p sz =
     (if sz = 0 \<or> sz > MI_SEGMENT_SIZE \<or> kind seg = MI_SEGMENT_HUGE then Some (0, 0, mi_commit_mask_create_empty)
      else let segstart = mi_segment_info_size seg;
               segsize = mi_segment_size seg
        in if p \<ge> seg_addr n + segsize then Some (0, 0, mi_commit_mask_create_empty)
           else let pstart = p - seg_addr n;
                    (start, end) =
                      (if conservative then (align_up pstart MI_COMMIT_SIZE, align_down (pstart + sz) MI_COMMIT_SIZE)
                       else (align_down pstart MI_MINIMAL_COMMIT_SIZE, align_up (pstart + sz) MI_MINIMAL_COMMIT_SIZE));
                    start = (if pstart \<ge> segstart \<and> start < segstart then segstart else start);
                    end = (if end > segsize then segsize else end);
                    full_size = (if end > start then end - start else 0)
             in if full_size = 0 then Some (seg_addr n + start, full_size, mi_commit_mask_create_empty)
                else let bitidx = start div MI_COMMIT_SIZE;
                         bitcount = full_size div MI_COMMIT_SIZE
                  in do { cm \<leftarrow> mi_commit_mask_create bitidx bitcount;
                          Some (seg_addr n + start, full_size, cm) })"

definition mi_segment_commit ::
  "os_env \<Rightarrow> nat \<Rightarrow> nat \<Rightarrow> nat \<Rightarrow> mi_segment \<Rightarrow> mi_os \<Rightarrow> (bool \<times> mi_segment \<times> mi_os) option" where
  "mi_segment_commit env n p sz seg os = do {
     (start, full_size, msk) \<leftarrow> mi_segment_commit_mask n seg False p sz;
     if mi_commit_mask_is_empty msk \<or> full_size = 0 then Some (True, seg, os)
     else let (ok, seg, os) =
            (if \<not> mi_commit_mask_all_set (commit_mask seg) msk then
               (case mi_os_commit env start full_size os of ((r, is_zero), os) \<Rightarrow>
                  if \<not> r then (False, seg, os)
                  else (True, seg\<lparr>commit_mask := mi_commit_mask_set (commit_mask seg) msk\<rparr>, os))
             else (True, seg, os))
       in if \<not> ok then Some (False, seg, os)
          else let seg =
                 (if mi_commit_mask_any_set (purge_mask seg) msk
                  then seg\<lparr>purge_expire := clock env (os_log os) + optv env mi_option_purge_delay\<rparr> else seg)
            in Some (True, seg\<lparr>purge_mask := mi_commit_mask_clear (purge_mask seg) msk\<rparr>, os) }"

definition mi_segment_ensure_committed ::
  "os_env \<Rightarrow> nat \<Rightarrow> nat \<Rightarrow> nat \<Rightarrow> mi_segment \<Rightarrow> mi_os \<Rightarrow> (bool \<times> mi_segment \<times> mi_os) option" where
  "mi_segment_ensure_committed env n p sz seg os =
     (if mi_commit_mask_is_full (commit_mask seg) \<and> mi_commit_mask_is_empty (purge_mask seg)
      then Some (True, seg, os) else mi_segment_commit env n p sz seg os)"

text \<open>The result, which is always true, is left out.\<close>

definition mi_segment_purge ::
  "os_env \<Rightarrow> nat \<Rightarrow> nat \<Rightarrow> nat \<Rightarrow> mi_segment \<Rightarrow> mi_os \<Rightarrow> (mi_segment \<times> mi_os) option" where
  "mi_segment_purge env n p sz seg os =
     (if \<not> allow_purge seg then Some (seg, os)
      else do {
        (start, full_size, msk) \<leftarrow> mi_segment_commit_mask n seg True p sz;
        if mi_commit_mask_is_empty msk \<or> full_size = 0 then Some (seg, os)
        else let (seg, os) =
               (if mi_commit_mask_any_set (commit_mask seg) msk then
                  (case mi_os_purge env start full_size os of (decommitted, os) \<Rightarrow>
                     if decommitted then (seg\<lparr>commit_mask := mi_commit_mask_clear (commit_mask seg) msk\<rparr>, os)
                     else (seg, os))
                else (seg, os))
          in Some (seg\<lparr>purge_mask := mi_commit_mask_clear (purge_mask seg) msk\<rparr>, os) })"

definition mi_segment_try_purge ::
  "os_env \<Rightarrow> nat \<Rightarrow> bool \<Rightarrow> mi_segment \<Rightarrow> mi_os \<Rightarrow> (mi_segment \<times> mi_os) option" where
  "mi_segment_try_purge env n force seg os =
     (if \<not> allow_purge seg \<or> mi_commit_mask_is_empty (purge_mask seg) then Some (seg, os)
      else let now = clock env (os_log os)
        in if \<not> force \<and> now < purge_expire seg then Some (seg, os)
           else let msk = purge_mask seg;
                    seg = seg\<lparr>purge_expire := 0, purge_mask := mi_commit_mask_create_empty\<rparr>
             in mi_commit_mask_foreach msk 0
                  (\<lambda>idx count (seg, os).
                     if count > 0
                     then mi_segment_purge env n (seg_addr n + idx * MI_COMMIT_SIZE) (count * MI_COMMIT_SIZE) seg os
                     else Some (seg, os))
                  (seg, os))"

definition mi_segment_schedule_purge ::
  "os_env \<Rightarrow> nat \<Rightarrow> nat \<Rightarrow> nat \<Rightarrow> mi_segment \<Rightarrow> mi_os \<Rightarrow> (mi_segment \<times> mi_os) option" where
  "mi_segment_schedule_purge env n p sz seg os =
     (if \<not> allow_purge seg then Some (seg, os)
      else if optv env mi_option_purge_delay = 0 then mi_segment_purge env n p sz seg os
      else do {
        (start, full_size, msk) \<leftarrow> mi_segment_commit_mask n seg True p sz;
        if mi_commit_mask_is_empty msk \<or> full_size = 0 then Some (seg, os)
        else let cmask = mi_commit_mask_create_intersect (commit_mask seg) msk;
                 seg = seg\<lparr>purge_mask := mi_commit_mask_set (purge_mask seg) cmask\<rparr>;
                 now = clock env (os_log os)
          in if purge_expire seg = 0
             then Some (seg\<lparr>purge_expire := now + optv env mi_option_purge_delay\<rparr>, os)
             else if purge_expire seg \<le> now then
               if purge_expire seg + optv env mi_option_purge_extend_delay \<le> now
               then mi_segment_try_purge env n True seg os
               else Some (seg\<lparr>purge_expire := now + optv env mi_option_purge_extend_delay\<rparr>, os)
             else Some (seg\<lparr>purge_expire := purge_expire seg + optv env mi_option_purge_extend_delay\<rparr>, os) })"

section \<open>What the masks of a segment say\<close>

text \<open>
  The slices a range of sz bytes at offset ofs touches, and those that lie inside it; both
  as the sets of their indices.
\<close>

definition touched :: "nat \<Rightarrow> nat \<Rightarrow> nat set" where
  "touched ofs sz = {i. \<exists>b. ofs \<le> b \<and> b < ofs + sz \<and> b div MI_COMMIT_SIZE = i}"

definition inside :: "nat \<Rightarrow> nat \<Rightarrow> nat set" where
  "inside ofs sz = {i. ofs \<le> i * MI_COMMIT_SIZE \<and> (i + 1) * MI_COMMIT_SIZE \<le> ofs + sz}"

text \<open>A segment with pages whose masks are sound: only what is committed waits for a purge.\<close>

definition seg_ok :: "mi_segment \<Rightarrow> bool" where
  "seg_ok seg \<longleftrightarrow> cm_ok (commit_mask seg) \<and> cm_ok (purge_mask seg)
     \<and> claimed (purge_mask seg) \<subseteq> claimed (commit_mask seg)
     \<and> kind seg = MI_SEGMENT_NORMAL \<and> segment_slices seg = MI_SLICES_PER_SEGMENT"

abbreviation in_segment :: "nat \<Rightarrow> nat \<Rightarrow> nat \<Rightarrow> bool" where
  "in_segment n p sz \<equiv> seg_addr n \<le> p \<and> p + sz \<le> seg_addr n + MI_SEGMENT_SIZE \<and> 0 < sz"

text \<open>The bytes of slices.\<close>

abbreviation slice_bytes :: "nat \<Rightarrow> nat set \<Rightarrow> nat set" where
  "slice_bytes n \<equiv> chunk_bytes (seg_addr n) MI_COMMIT_SIZE"

lemma touched_interval: "0 < sz \<Longrightarrow> touched ofs sz = {ofs div 65536..<(ofs + sz + 65535) div 65536}"
proof (rule set_eqI)
  fix i assume sz: "0 < sz"
  show "i \<in> touched ofs sz \<longleftrightarrow> i \<in> {ofs div 65536..<(ofs + sz + 65535) div 65536}"
  proof
    assume "i \<in> touched ofs sz"
    then obtain b where b: "ofs \<le> b" "b < ofs + sz" "b div 65536 = i" by (auto simp: touched_def)
    have "ofs div 65536 \<le> i" using b(1,3) div_le_mono by blast
    moreover have "(b + 65536) div 65536 \<le> (ofs + sz + 65535) div 65536" using b(2) by (intro div_le_mono) simp
    moreover have "(b + 65536) div 65536 = b div 65536 + 1" by simp
    ultimately show "i \<in> {ofs div 65536..<(ofs + sz + 65535) div 65536}" using b(3) by simp
  next
    assume i: "i \<in> {ofs div 65536..<(ofs + sz + 65535) div 65536}"
    define b where "b = max ofs (i * 65536)"
    have "i + 1 \<le> (ofs + sz + 65535) div 65536" using i by simp
    then have "(i + 1) * 65536 \<le> (ofs + sz + 65535) div 65536 * 65536" by simp
    also have "\<dots> \<le> ofs + sz + 65535" by simp
    finally have le: "i * 65536 < ofs + sz" by simp
    have "ofs < (i + 1) * 65536" using i by (simp add: dividend_less_div_times less_eq_div_iff_mult_less_eq div_less_iff_less_mult flip: less_Suc_eq_le)
    then have "b div 65536 = i" unfolding b_def by (simp add: max_def div_nat_eqI)
    then show "i \<in> touched ofs sz" using le sz by (auto simp: touched_def b_def intro!: exI [of _ b])
  qed
qed

lemma inside_interval: "inside ofs sz = {(ofs + 65535) div 65536..<(ofs + sz) div 65536}"
proof (rule set_eqI)
  fix i
  have 1: "ofs \<le> i * 65536 \<longleftrightarrow> (ofs + 65535) div 65536 \<le> i"
  proof -
    have "(ofs + 65535) div 65536 \<le> i \<longleftrightarrow> (ofs + 65535) div 65536 < i + 1" unfolding Suc_eq_plus1 [symmetric] by (rule less_Suc_eq_le [symmetric])
    also have "\<dots> \<longleftrightarrow> ofs + 65535 < (i + 1) * 65536" by (simp add: div_less_iff_less_mult)
    finally show ?thesis by auto
  qed
  have 2: "(i + 1) * 65536 \<le> ofs + sz \<longleftrightarrow> i + 1 \<le> (ofs + sz) div 65536"
    by (simp add: less_eq_div_iff_mult_less_eq)
  show "i \<in> inside ofs sz \<longleftrightarrow> i \<in> {(ofs + 65535) div 65536..<(ofs + sz) div 65536}"
    unfolding inside_def using 1 2 by (simp add: Suc_le_eq)
qed

lemma commit_mask_spec:
  assumes seg: "kind seg = MI_SEGMENT_NORMAL" "segment_slices seg = MI_SLICES_PER_SEGMENT"
    and r: "in_segment n p sz"
  obtains start full cm where "mi_segment_commit_mask n seg conservative p sz = Some (start, full, cm)" "cm_ok cm"
    "claimed cm = (if conservative then inside (p - seg_addr n) sz else touched (p - seg_addr n) sz)"
    "full = 0 \<longleftrightarrow> claimed cm = {}" "{start..<start + full} = slice_bytes n (claimed cm)" "0 < n \<longrightarrow> 0 < start"
proof -
  define ofs where "ofs = p - seg_addr n"
  have ofs: "ofs + sz \<le> 33554432" "0 < sz" using r by (auto simp: ofs_def)
  define lo hi where "lo = (if conservative then (ofs + 65535) div 65536 else ofs div 65536)"
    and "hi = (if conservative then (ofs + sz) div 65536 else (ofs + sz + 65535) div 65536)"
  have hi: "hi \<le> 512"
  proof -
    have "(ofs + sz) div 65536 \<le> 33554432 div 65536" "(ofs + sz + 65535) div 65536 \<le> (33554432 + 65535) div 65536"
      using ofs by (intro div_le_mono; simp)+
    then show ?thesis by (simp add: hi_def)
  qed
  have set: "(if conservative then inside ofs sz else touched ofs sz) = {lo..<hi}"
    using touched_interval inside_interval ofs by (simp add: lo_def hi_def)
  have st: "(if conservative then align_up ofs MI_COMMIT_SIZE else align_down ofs MI_MINIMAL_COMMIT_SIZE) = lo * 65536"
    "(if conservative then align_down (ofs + sz) MI_COMMIT_SIZE else align_up (ofs + sz) MI_MINIMAL_COMMIT_SIZE) = hi * 65536"
    by (simp_all add: lo_def hi_def align_up_def align_down_def add.commute)
  have info: "\<not> (ofs \<ge> mi_segment_info_size seg \<and> lo * 65536 < mi_segment_info_size seg)"
  proof
    assume a: "ofs \<ge> mi_segment_info_size seg \<and> lo * 65536 < mi_segment_info_size seg"
    then have "segment_info_slices seg \<le> ofs div 65536" "lo < segment_info_slices seg"
      by (simp_all add: mi_segment_info_size_def less_eq_div_iff_mult_less_eq)
    moreover have "ofs div 65536 \<le> lo" by (simp add: lo_def div_le_mono)
    ultimately show False by simp
  qed
  let ?full = "if hi > lo then (hi - lo) * 65536 else 0"
  have e: "mi_segment_commit_mask n seg conservative p sz =
      (if ?full = 0 then Some (seg_addr n + lo * 65536, ?full, mi_commit_mask_create_empty)
       else do { cm \<leftarrow> mi_commit_mask_create lo (hi - lo); Some (seg_addr n + lo * 65536, ?full, cm) })"
  proof -
    have z: "(if conservative then (align_up ofs MI_COMMIT_SIZE, align_down (ofs + sz) MI_COMMIT_SIZE)
        else (align_down ofs MI_MINIMAL_COMMIT_SIZE, align_up (ofs + sz) MI_MINIMAL_COMMIT_SIZE)) = (lo * 65536, hi * 65536)"
      using st by (cases conservative) simp_all
    have c: "\<not> (sz = 0 \<or> sz > MI_SEGMENT_SIZE \<or> kind seg = MI_SEGMENT_HUGE)" "\<not> p \<ge> seg_addr n + mi_segment_size seg"
      using r seg by (auto simp: mi_segment_size_def)
    have h: "(if hi * 65536 > mi_segment_size seg then mi_segment_size seg else hi * 65536) = hi * 65536"
      using hi seg(2) by (simp add: mi_segment_size_def)
    have f: "(if hi * 65536 > lo * 65536 then hi * 65536 - lo * 65536 else 0) = ?full"
      by (simp add: diff_mult_distrib)
    have d: "lo * 65536 div MI_COMMIT_SIZE = lo" "?full div MI_COMMIT_SIZE = (if hi > lo then hi - lo else 0)" by simp_all
    show ?thesis
      unfolding mi_segment_commit_mask_def Let_def if_not_P [OF c(1)] if_not_P [OF c(2)] ofs_def [symmetric] z prod.case
        if_not_P [OF info] h f d by simp
  qed
  have bytes: "{seg_addr n + lo * 65536..<seg_addr n + lo * 65536 + ?full} = slice_bytes n {lo..<hi}"
    "0 < n \<longrightarrow> 0 < seg_addr n + lo * 65536"
    by (auto simp: chunk_bytes_interval seg_addr_def)
  show thesis
  proof (cases "hi > lo")
    case False
    then show thesis using that e set [unfolded ofs_def] claimed_empty bytes by simp
  next
    case True
    then obtain cm where cm: "mi_commit_mask_create lo (hi - lo) = Some cm" "cm_ok cm" "claimed cm = {lo..<hi}"
      using create_spec [of lo "hi - lo"] hi by auto
    then show thesis using that e set [unfolded ofs_def] True bytes by simp
  qed
qed

text \<open>Two states of a segment that differ at most in the masks and the expiration.\<close>

definition only_masks :: "mi_segment \<Rightarrow> mi_segment \<Rightarrow> bool" where
  "only_masks seg seg' \<longleftrightarrow> seg'\<lparr>purge_mask := [], commit_mask := [], purge_expire := 0\<rparr>
     = seg\<lparr>purge_mask := [], commit_mask := [], purge_expire := 0\<rparr>"

lemma only_masks_trans: "only_masks a b \<Longrightarrow> only_masks b c \<Longrightarrow> only_masks a c"
  by (simp add: only_masks_def)

lemma only_masks_field: "only_masks a b \<Longrightarrow> allow_purge b = allow_purge a"
  unfolding only_masks_def by (drule arg_cong [where f = allow_purge]) simp

section \<open>Commit covers what it is asked for\<close>

lemma commit_masks:
  assumes ok: "seg_ok seg" and r: "in_segment n p sz"
  shows "\<exists>r seg' os'. mi_segment_commit env n p sz seg os = Some (r, seg', os') \<and> seg_ok seg'
     \<and> (r \<longrightarrow> claimed (commit_mask seg') = claimed (commit_mask seg) \<union> touched (p - seg_addr n) sz
           \<and> claimed (purge_mask seg') = claimed (purge_mask seg) - touched (p - seg_addr n) sz)
     \<and> (\<not> r \<longrightarrow> seg' = seg) \<and> only_masks seg seg'
     \<and> (0 < n \<and> 0 < page_size env \<longrightarrow>
          did_commit os os' (slice_bytes n (claimed (commit_mask seg') - claimed (commit_mask seg))))"
proof -
  note k = ok [unfolded seg_ok_def]
  obtain start full cm where c: "mi_segment_commit_mask n seg False p sz = Some (start, full, cm)" "cm_ok cm"
      "claimed cm = touched (p - seg_addr n) sz" "full = 0 \<longleftrightarrow> claimed cm = {}"
      "{start..<start + full} = slice_bytes n (claimed cm)" "0 < n \<longrightarrow> 0 < start"
    using commit_mask_spec [of seg n p sz False] k r by auto
  have ne: "claimed cm \<noteq> {}" unfolding c(3) using r touched_interval [of sz] by (auto simp: touched_def intro!: exI [of _ "p - seg_addr n"])
  then have go: "\<not> (mi_commit_mask_is_empty cm \<or> full = 0)" using c(2,4) by (simp add: is_empty_iff)
  define fin :: "mi_os \<Rightarrow> mi_segment \<Rightarrow> mi_segment" where "fin = (\<lambda>os sg. let sg = (if mi_commit_mask_any_set (purge_mask sg) cm
       then sg\<lparr>purge_expire := clock env (os_log os) + optv env mi_option_purge_delay\<rparr> else sg)
     in sg\<lparr>purge_mask := mi_commit_mask_clear (purge_mask sg) cm\<rparr>)"
  have fin: "commit_mask (fin os sg) = commit_mask sg" "purge_mask (fin os sg) = mi_commit_mask_clear (purge_mask sg) cm"
     "seg_ok (fin os sg) \<longleftrightarrow> cm_ok (commit_mask sg) \<and> cm_ok (mi_commit_mask_clear (purge_mask sg) cm)
        \<and> claimed (mi_commit_mask_clear (purge_mask sg) cm) \<subseteq> claimed (commit_mask sg)
        \<and> kind sg = MI_SEGMENT_NORMAL \<and> segment_slices sg = MI_SLICES_PER_SEGMENT"
     "only_masks seg (fin os sg) \<longleftrightarrow> only_masks seg sg"
    for os sg by (simp_all add: fin_def Let_def seg_ok_def only_masks_def)
  have om: "only_masks seg seg" "only_masks seg (seg\<lparr>commit_mask := x\<rparr>)" for x by (simp_all add: only_masks_def)
  show ?thesis
  proof (cases "mi_commit_mask_all_set (commit_mask seg) cm")
    case True
    then have sub: "claimed cm \<subseteq> claimed (commit_mask seg)" using k c(2) by (simp add: all_set_iff)
    have e: "mi_segment_commit env n p sz seg os = Some (True, fin os seg, os)"
      using c(1) go True by (simp add: mi_segment_commit_def Let_def fin_def)
    have "commit_mask (fin os seg) = commit_mask seg" by (simp add: fin)
    then have "did_commit os os (slice_bytes n (claimed (commit_mask (fin os seg)) - claimed (commit_mask seg)))"
      by (simp add: did_commit_none)
    then show ?thesis unfolding e using k c(2,3) sub claimed_clear
      by (intro exI [of _ True] exI [of _ "fin os seg"] exI [of _ os]) (auto simp: fin om)
  next
    case False
    obtain rr z os1 where m: "mi_os_commit env start full os = ((rr, z), os1)" by (metis surj_pair)
    show ?thesis
    proof (cases rr)
      case False
      then have "mi_segment_commit env n p sz seg os = Some (False, seg, os1)"
        using c(1) go \<open>\<not> mi_commit_mask_all_set _ _\<close> m by (simp add: mi_segment_commit_def Let_def)
      moreover have "0 < n \<and> 0 < page_size env \<longrightarrow>
          did_commit os os1 (slice_bytes n (claimed (commit_mask seg) - claimed (commit_mask seg)))"
        using os_commit_did [OF _ _ m] c(6) False by simp
      ultimately show ?thesis using ok om by blast
    next
      case True
      let ?sg = "seg\<lparr>commit_mask := mi_commit_mask_set (commit_mask seg) cm\<rparr>"
      have e: "mi_segment_commit env n p sz seg os = Some (True, fin os1 ?sg, os1)"
        using c(1) go False m True by (simp add: mi_segment_commit_def Let_def fin_def)
      have "claimed (commit_mask (fin os1 ?sg)) - claimed (commit_mask seg) \<subseteq> claimed cm"
        using k c(2) claimed_set [of "commit_mask seg" cm] by (auto simp: fin)
      note sub = chunk_bytes_mono [OF this]
      have "0 < n \<and> 0 < page_size env \<longrightarrow> did_commit os os1 (slice_bytes n (claimed cm))"
        using os_commit_did [OF _ _ m] c(5,6) True by simp
      then have d: "0 < n \<and> 0 < page_size env \<longrightarrow>
          did_commit os os1 (slice_bytes n (claimed (commit_mask (fin os1 ?sg)) - claimed (commit_mask seg)))"
        using did_commit_mono [OF _ sub] by blast
      have f: "seg_ok (fin os1 ?sg)" "claimed (commit_mask (fin os1 ?sg)) = claimed (commit_mask seg) \<union> touched (p - seg_addr n) sz"
        "claimed (purge_mask (fin os1 ?sg)) = claimed (purge_mask seg) - touched (p - seg_addr n) sz" "only_masks seg (fin os1 ?sg)"
        using k c(2,3) claimed_clear [of "purge_mask seg" cm] claimed_set [of "commit_mask seg" cm]
        by (auto simp: fin om)
      show ?thesis unfolding e using f d by blast
    qed
  qed
qed

section \<open>Purge takes only what lies inside\<close>

lemma purge_masks:
  assumes ok: "seg_ok seg" and r: "in_segment n p sz" and al: "allow_purge seg"
  shows "\<exists>seg' os'. mi_segment_purge env n p sz seg os = Some (seg', os') \<and> seg_ok seg'
     \<and> (claimed (commit_mask seg') = claimed (commit_mask seg)
         \<or> claimed (commit_mask seg') = claimed (commit_mask seg) - inside (p - seg_addr n) sz)
     \<and> claimed (purge_mask seg') = claimed (purge_mask seg) - inside (p - seg_addr n) sz
     \<and> only_masks seg seg' \<and> purge_expire seg' = purge_expire seg
     \<and> gave_up_within os os' (slice_bytes n (inside (p - seg_addr n) sz))"
proof -
  note k = ok [unfolded seg_ok_def]
  obtain start full cm where c: "mi_segment_commit_mask n seg True p sz = Some (start, full, cm)" "cm_ok cm"
      "claimed cm = inside (p - seg_addr n) sz" "full = 0 \<longleftrightarrow> claimed cm = {}"
      "{start..<start + full} = slice_bytes n (claimed cm)" "0 < n \<longrightarrow> 0 < start"
    using commit_mask_spec [of seg n p sz True] k r by auto
  show ?thesis
  proof (cases "mi_commit_mask_is_empty cm \<or> full = 0")
    case True
    then have "mi_segment_purge env n p sz seg os = Some (seg, os)" "inside (p - seg_addr n) sz = {}"
      using al c by (auto simp: mi_segment_purge_def is_empty_iff)
    then show ?thesis using ok gave_up_refl [of os] by (auto simp: only_masks_def)
  next
    case False
    define sg os1 where "sg = (if mi_commit_mask_any_set (commit_mask seg) cm \<and> fst (mi_os_purge env start full os)
        then seg\<lparr>commit_mask := mi_commit_mask_clear (commit_mask seg) cm\<rparr> else seg)"
      and "os1 = (if mi_commit_mask_any_set (commit_mask seg) cm then snd (mi_os_purge env start full os) else os)"
    have e: "mi_segment_purge env n p sz seg os = Some (sg\<lparr>purge_mask := mi_commit_mask_clear (purge_mask sg) cm\<rparr>, os1)"
      using al c(1) False by (simp add: mi_segment_purge_def Let_def sg_def os1_def split: prod.splits)
    have s: "purge_mask sg = purge_mask seg" "kind sg = kind seg" "segment_slices sg = segment_slices seg" "cm_ok (commit_mask sg)"
      "claimed (commit_mask sg) = claimed (commit_mask seg) \<or> claimed (commit_mask sg) = claimed (commit_mask seg) - claimed cm"
      "only_masks seg sg" "purge_expire sg = purge_expire seg"
      using k c(2) claimed_clear [of "commit_mask seg" cm] by (auto simp: sg_def only_masks_def)
    let ?seg' = "sg\<lparr>purge_mask := mi_commit_mask_clear (purge_mask sg) cm\<rparr>"
    have "seg_ok ?seg'" using k s(1-5) claimed_clear [of "purge_mask seg" cm] c(2) by (auto simp: seg_ok_def)
    moreover have "only_masks seg ?seg'" "purge_expire ?seg' = purge_expire seg" using s(6,7) by (simp_all add: only_masks_def)
    moreover have "claimed (purge_mask ?seg') = claimed (purge_mask seg) - inside (p - seg_addr n) sz"
      using claimed_clear [of "purge_mask seg" cm] k c(2,3) s(1) by simp
    moreover have "claimed (commit_mask ?seg') = claimed (commit_mask seg)
        \<or> claimed (commit_mask ?seg') = claimed (commit_mask seg) - inside (p - seg_addr n) sz" using s(5) c(3) by simp
    moreover have "gave_up_within os os1 (slice_bytes n (inside (p - seg_addr n) sz))"
      using purge_within [of os env start full] gave_up_refl [of os] by (simp add: os1_def c(5) c(3))
    ultimately show ?thesis using e by blast
  qed
qed


lemma inside_run: "inside (i * 65536) (c * 65536) = {i..<i + c}"
proof -
  have "i * 65536 + c * 65536 = (i + c) * 65536" by simp
  then have "(i * 65536 + c * 65536) div 65536 = i + c" by (simp only: nonzero_mult_div_cancel_right)
  moreover have "(i * 65536 + 65535) div 65536 = i" by simp
  ultimately show ?thesis unfolding inside_interval by simp
qed

lemma purge_runs:
  assumes "seg_ok seg" "allow_purge seg" "claimed (purge_mask seg) = {}"
    "\<forall>r \<in> set rs. 0 < snd r \<and> fst r + snd r \<le> 512"
  shows "\<exists>seg' os'. run_all (\<lambda>idx count (seg, os).
      if count > 0 then mi_segment_purge env n (seg_addr n + idx * MI_COMMIT_SIZE) (count * MI_COMMIT_SIZE) seg os
      else Some (seg, os)) rs (seg, os) = Some (seg', os') \<and> seg_ok seg' \<and> claimed (purge_mask seg') = {}
    \<and> claimed (commit_mask seg) - (\<Union>r \<in> set rs. run_slices r) \<subseteq> claimed (commit_mask seg')
    \<and> claimed (commit_mask seg') \<subseteq> claimed (commit_mask seg) \<and> only_masks seg seg' \<and> purge_expire seg' = purge_expire seg
    \<and> gave_up_within os os' (slice_bytes n (\<Union>r \<in> set rs. run_slices r))"
  using assms
proof (induction rs arbitrary: seg os)
  case Nil then show ?case by (simp add: only_masks_def gave_up_refl)
next
  case (Cons r rs)
  obtain i c where r: "r = (i, c)" by (cases r)
  have c: "0 < c" "i + c \<le> 512" using Cons.prems(4) by (simp_all add: r)
  have "in_segment n (seg_addr n + i * MI_COMMIT_SIZE) (c * MI_COMMIT_SIZE)" using c by simp
  then obtain sg os1 where 1: "mi_segment_purge env n (seg_addr n + i * MI_COMMIT_SIZE) (c * MI_COMMIT_SIZE) seg os = Some (sg, os1)"
      "seg_ok sg" "claimed (commit_mask sg) = claimed (commit_mask seg)
         \<or> claimed (commit_mask sg) = claimed (commit_mask seg) - {i..<i + c}"
      "claimed (purge_mask sg) = {}" "only_masks seg sg" "purge_expire sg = purge_expire seg"
      "gave_up_within os os1 (slice_bytes n {i..<i + c})"
    using purge_masks [OF Cons.prems(1) _ Cons.prems(2), of n "seg_addr n + i * MI_COMMIT_SIZE" "c * MI_COMMIT_SIZE" env os]
      Cons.prems(3) inside_run [of i c] by auto
  have "allow_purge sg" using only_masks_field [OF 1(5)] Cons.prems(2) by simp
  then obtain seg' os' where 2: "run_all (\<lambda>idx count (seg, os).
      if count > 0 then mi_segment_purge env n (seg_addr n + idx * MI_COMMIT_SIZE) (count * MI_COMMIT_SIZE) seg os
      else Some (seg, os)) rs (sg, os1) = Some (seg', os')" "seg_ok seg'" "claimed (purge_mask seg') = {}"
    "claimed (commit_mask sg) - (\<Union>r \<in> set rs. run_slices r) \<subseteq> claimed (commit_mask seg')"
    "claimed (commit_mask seg') \<subseteq> claimed (commit_mask sg)" "only_masks sg seg'" "purge_expire seg' = purge_expire sg"
    "gave_up_within os1 os' (slice_bytes n (\<Union>r \<in> set rs. run_slices r))"
    using Cons.IH [OF 1(2) _ 1(4), of os1] Cons.prems(4) by auto
  have "gave_up_within os os' (slice_bytes n (\<Union>r \<in> set (r # rs). run_slices r))"
    by (rule gave_up_trans [OF 1(7) 2(8)]) (auto simp: r chunk_bytes_def)
  then show ?case using 1 2 c only_masks_trans [OF 1(5) 2(6)] by (fastforce simp: r)
qed


lemma try_purge_masks:
  assumes ok: "seg_ok seg"
  shows "\<exists>seg' os'. mi_segment_try_purge env n force seg os = Some (seg', os') \<and> seg_ok seg' \<and> only_masks seg seg'
    \<and> claimed (commit_mask seg) - claimed (purge_mask seg) \<subseteq> claimed (commit_mask seg')
    \<and> claimed (commit_mask seg') \<subseteq> claimed (commit_mask seg)
    \<and> (seg' = seg \<or> claimed (purge_mask seg') = {} \<and> purge_expire seg' = 0)
    \<and> (allow_purge seg \<and> (force \<or> purge_expire seg \<le> clock env (os_log os)) \<longrightarrow> claimed (purge_mask seg') = {})
    \<and> gave_up_within os os' (slice_bytes n (claimed (purge_mask seg)))"
proof (cases "\<not> allow_purge seg \<or> mi_commit_mask_is_empty (purge_mask seg) \<or> \<not> force \<and> clock env (os_log os) < purge_expire seg")
  case True
  then have "mi_segment_try_purge env n force seg os = Some (seg, os)" by (auto simp: mi_segment_try_purge_def Let_def)
  moreover have "mi_commit_mask_is_empty (purge_mask seg) \<Longrightarrow> claimed (purge_mask seg) = {}"
    using ok by (simp add: seg_ok_def is_empty_iff)
  ultimately show ?thesis using ok True gave_up_refl by (auto simp: only_masks_def)
next
  case False
  let ?sg = "seg\<lparr>purge_expire := 0, purge_mask := mi_commit_mask_create_empty\<rparr>"
  let ?body = "\<lambda>idx count (seg, os).
      if count > 0 then mi_segment_purge env n (seg_addr n + idx * MI_COMMIT_SIZE) (count * MI_COMMIT_SIZE) seg os
      else Some (seg, os)"
  have k: "cm_ok (purge_mask seg)" "seg_ok ?sg" "allow_purge ?sg" "claimed (purge_mask ?sg) = {}" "only_masks seg ?sg"
    using ok False claimed_empty by (simp_all add: seg_ok_def only_masks_def)
  obtain rs where rs: "maximal_runs (claimed (purge_mask seg)) 0 rs"
      "mi_commit_mask_foreach (purge_mask seg) 0 ?body (?sg, os) = run_all ?body rs (?sg, os)"
  proof -
    obtain rs where "maximal_runs (claimed (purge_mask seg)) 0 rs"
        "\<forall>body (s :: mi_segment \<times> mi_os). mi_commit_mask_foreach (purge_mask seg) 0 body s = run_all body rs s"
      using foreach_runs [OF k(1), of 0] by (elim exE conjE) (rule that; assumption)
    then show ?thesis by (intro that [of rs]) simp_all
  qed
  have U: "(\<Union>r \<in> set rs. run_slices r) = claimed (purge_mask seg)" and pos: "\<forall>r \<in> set rs. 0 < snd r"
    using rs(1) by (simp_all add: maximal_runs_def)
  have "0 < snd r \<and> fst r + snd r \<le> 512" if "r \<in> set rs" for r
  proof -
    have p: "0 < snd r" using pos that by blast
    then have "fst r + snd r - 1 \<in> run_slices r" by auto
    then have "fst r + snd r - 1 < 512" using U that claimed_lt [OF k(1)] by blast
    then show ?thesis using p by simp
  qed
  then obtain seg' os' where "run_all ?body rs (?sg, os) = Some (seg', os')" "seg_ok seg'" "claimed (purge_mask seg') = {}"
      "claimed (commit_mask ?sg) - (\<Union>r \<in> set rs. run_slices r) \<subseteq> claimed (commit_mask seg')"
      "claimed (commit_mask seg') \<subseteq> claimed (commit_mask ?sg)" "only_masks ?sg seg'" "purge_expire seg' = purge_expire ?sg"
      "gave_up_within os os' (slice_bytes n (\<Union>r \<in> set rs. run_slices r))"
    using purge_runs [OF k(2-4), of rs env n os] by blast
  moreover have "mi_segment_try_purge env n force seg os = run_all ?body rs (?sg, os)"
  proof -
    have f: "\<not> (\<not> allow_purge seg \<or> mi_commit_mask_is_empty (purge_mask seg))"
      "\<not> (\<not> force \<and> clock env (os_log os) < purge_expire seg)" using False by blast+
    show ?thesis unfolding mi_segment_try_purge_def Let_def if_not_P [OF f(1)] if_not_P [OF f(2)] by (rule rs(2))
  qed
  ultimately show ?thesis using U only_masks_trans [OF k(5)] by auto
qed

lemma schedule_purge_masks:
  assumes ok: "seg_ok seg" and r: "in_segment n p sz"
  shows "\<exists>seg' os'. mi_segment_schedule_purge env n p sz seg os = Some (seg', os') \<and> seg_ok seg' \<and> only_masks seg seg'
    \<and> claimed (commit_mask seg) - (claimed (purge_mask seg) \<union> inside (p - seg_addr n) sz) \<subseteq> claimed (commit_mask seg')
    \<and> claimed (commit_mask seg') \<subseteq> claimed (commit_mask seg)
    \<and> claimed (purge_mask seg') \<subseteq> claimed (purge_mask seg) \<union> inside (p - seg_addr n) sz
    \<and> gave_up_within os os' (slice_bytes n (claimed (purge_mask seg) \<union> inside (p - seg_addr n) sz))"
proof -
  note k = ok [unfolded seg_ok_def]
  obtain start full cm where c: "mi_segment_commit_mask n seg True p sz = Some (start, full, cm)" "cm_ok cm"
      "claimed cm = inside (p - seg_addr n) sz" "full = 0 \<longleftrightarrow> claimed cm = {}"
      "{start..<start + full} = slice_bytes n (claimed cm)" "0 < n \<longrightarrow> 0 < start"
    using commit_mask_spec [of seg n p sz True] k r by auto
  consider "\<not> allow_purge seg" | "allow_purge seg" "optv env mi_option_purge_delay = 0"
    | "allow_purge seg" "optv env mi_option_purge_delay \<noteq> 0" "mi_commit_mask_is_empty cm \<or> full = 0"
    | "allow_purge seg" "optv env mi_option_purge_delay \<noteq> 0" "\<not> (mi_commit_mask_is_empty cm \<or> full = 0)" by blast
  then show ?thesis
  proof cases
    case 1
    then show ?thesis using ok gave_up_refl by (auto simp: mi_segment_schedule_purge_def only_masks_def)
  next
    case 2
    obtain seg' os' where "mi_segment_purge env n p sz seg os = Some (seg', os')" "seg_ok seg'"
      "claimed (commit_mask seg') = claimed (commit_mask seg)
         \<or> claimed (commit_mask seg') = claimed (commit_mask seg) - inside (p - seg_addr n) sz"
      "claimed (purge_mask seg') = claimed (purge_mask seg) - inside (p - seg_addr n) sz" "only_masks seg seg'"
      and g: "gave_up_within os os' (slice_bytes n (inside (p - seg_addr n) sz))"
      using purge_masks [OF ok r 2(1), of env os] by blast
    moreover have "gave_up_within os os' (slice_bytes n (claimed (purge_mask seg) \<union> inside (p - seg_addr n) sz))"
      by (rule gave_up_mono [OF g chunk_bytes_mono]) simp
    ultimately show ?thesis using 2 by (auto simp: mi_segment_schedule_purge_def)
  next
    case 3
    then show ?thesis using ok c(1) gave_up_refl by (auto simp: mi_segment_schedule_purge_def only_masks_def)
  next
    case 4
    let ?cm = "mi_commit_mask_create_intersect (commit_mask seg) cm"
    define sg where "sg = seg\<lparr>purge_mask := mi_commit_mask_set (purge_mask seg) ?cm\<rparr>"
    have i: "claimed ?cm = claimed (commit_mask seg) \<inter> claimed cm" "cm_ok ?cm"
      using claimed_intersect [of "commit_mask seg" cm] k c(2) by auto
    have pm: "claimed (purge_mask sg) = claimed (purge_mask seg) \<union> (claimed (commit_mask seg) \<inter> claimed cm)"
      "cm_ok (purge_mask sg)" "commit_mask sg = commit_mask seg"
      using claimed_set [of "purge_mask seg" ?cm] k i by (auto simp: sg_def)
    have sg: "seg_ok sg" "only_masks seg sg" using k pm by (auto simp: seg_ok_def sg_def only_masks_def)
    have sgt: "seg_ok (sg\<lparr>purge_expire := t\<rparr>)" "only_masks seg (sg\<lparr>purge_expire := t\<rparr>)" for t
      using sg by (simp_all add: seg_ok_def only_masks_def)
    let ?e = "mi_segment_schedule_purge env n p sz seg os"
    have "(\<exists>t. ?e = Some (sg\<lparr>purge_expire := t\<rparr>, os)) \<or> ?e = mi_segment_try_purge env n True sg os"
      using 4 c(1) unfolding mi_segment_schedule_purge_def sg_def Let_def by (auto split: if_splits)
    then show ?thesis
    proof
      assume "\<exists>t. ?e = Some (sg\<lparr>purge_expire := t\<rparr>, os)"
      then obtain t where "?e = Some (sg\<lparr>purge_expire := t\<rparr>, os)" by blast
      then show ?thesis using sgt [of t] pm c(3) gave_up_refl [of os]
        by (intro exI [of _ "sg\<lparr>purge_expire := t\<rparr>"] exI [of _ os]) auto
    next
      assume e: "?e = mi_segment_try_purge env n True sg os"
      obtain seg' os' where t: "mi_segment_try_purge env n True sg os = Some (seg', os')" "seg_ok seg'" "only_masks sg seg'"
          "claimed (commit_mask sg) - claimed (purge_mask sg) \<subseteq> claimed (commit_mask seg')"
          "claimed (commit_mask seg') \<subseteq> claimed (commit_mask sg)" "seg' = sg \<or> claimed (purge_mask seg') = {}"
          and g: "gave_up_within os os' (slice_bytes n (claimed (purge_mask sg)))"
        using try_purge_masks [OF sg(1), of env n True os] by blast
      moreover have "gave_up_within os os' (slice_bytes n (claimed (purge_mask seg) \<union> inside (p - seg_addr n) sz))"
        by (rule gave_up_mono [OF g chunk_bytes_mono]) (use pm c(3) in auto)
      ultimately show ?thesis using e pm c(3) only_masks_trans [OF sg(2) t(3)]
        by (intro exI [of _ seg'] exI [of _ os']) auto
    qed
  qed
qed

lemma ensure_committed_masks:
  assumes "seg_ok seg" "in_segment n p sz"
  shows "\<exists>r seg' os'. mi_segment_ensure_committed env n p sz seg os = Some (r, seg', os') \<and> seg_ok seg'
     \<and> (if r then claimed (commit_mask seg') = claimed (commit_mask seg) \<union> touched (p - seg_addr n) sz
           \<and> claimed (purge_mask seg') = claimed (purge_mask seg) - touched (p - seg_addr n) sz else seg' = seg)
     \<and> only_masks seg seg'
     \<and> (0 < n \<and> 0 < page_size env \<longrightarrow>
          did_commit os os' (slice_bytes n (claimed (commit_mask seg') - claimed (commit_mask seg))))"
proof (cases "mi_commit_mask_is_full (commit_mask seg) \<and> mi_commit_mask_is_empty (purge_mask seg)")
  case True
  have "touched (p - seg_addr n) sz \<subseteq> {..<512}"
  proof
    fix i assume "i \<in> touched (p - seg_addr n) sz"
    then obtain b where "b < p - seg_addr n + sz" "b div 65536 = i" by (auto simp: touched_def)
    moreover have "p - seg_addr n + sz \<le> 512 * 65536" using assms(2) by auto
    ultimately show "i \<in> {..<512}" by (auto simp: div_less_iff_less_mult)
  qed
  then show ?thesis using True assms(1)
    by (intro exI [of _ True] exI [of _ seg] exI [of _ os])
      (auto simp: mi_segment_ensure_committed_def seg_ok_def is_empty_iff is_full_iff_claimed only_masks_def
        did_commit_none)
next
  case False
  then have "mi_segment_ensure_committed env n p sz seg os = mi_segment_commit env n p sz seg os"
    unfolding mi_segment_ensure_committed_def by (rule if_not_P)
  moreover obtain r seg' os' where "mi_segment_commit env n p sz seg os = Some (r, seg', os')" "seg_ok seg'"
     "r \<longrightarrow> claimed (commit_mask seg') = claimed (commit_mask seg) \<union> touched (p - seg_addr n) sz
           \<and> claimed (purge_mask seg') = claimed (purge_mask seg) - touched (p - seg_addr n) sz"
     "\<not> r \<longrightarrow> seg' = seg" "only_masks seg seg'" "0 < n \<and> 0 < page_size env \<longrightarrow>
          did_commit os os' (slice_bytes n (claimed (commit_mask seg') - claimed (commit_mask seg)))"
    using commit_masks [OF assms, of env os] by blast
  ultimately show ?thesis by (cases r) auto
qed

section \<open>Properties\<close>


text \<open>
  C32: Scheduling the purge of a range, and the purges it may cause on the way, never give up
  memory of a slice that is not wholly inside the range and was not already scheduled: neither in
  the masks nor in a call to the operating system. They never
  schedule such a slice either, and keep what is scheduled a part of what is committed. A forced purge
  of what is scheduled, or one after the expiration, leaves nothing scheduled.
\<close>

theorem mi_segment_purge_only_inside:
  assumes "seg_ok seg" "in_segment n p sz" "allow_purge seg"
  shows "\<exists>seg1 os1 seg2 os2. mi_segment_schedule_purge env n p sz seg os = Some (seg1, os1)
     \<and> mi_segment_try_purge env n True seg1 os1 = Some (seg2, os2) \<and> seg_ok seg1 \<and> seg_ok seg2
     \<and> claimed (commit_mask seg) - (claimed (purge_mask seg) \<union> inside (p - seg_addr n) sz) \<subseteq> claimed (commit_mask seg2)
     \<and> claimed (commit_mask seg2) \<subseteq> claimed (commit_mask seg1) \<and> claimed (commit_mask seg1) \<subseteq> claimed (commit_mask seg)
     \<and> claimed (purge_mask seg1) \<subseteq> claimed (purge_mask seg) \<union> inside (p - seg_addr n) sz
     \<and> claimed (purge_mask seg2) = {} \<and> only_masks seg seg2
     \<and> gave_up_within os os2 (slice_bytes n (claimed (purge_mask seg) \<union> inside (p - seg_addr n) sz))"
proof -
  obtain seg1 os1 where 1: "mi_segment_schedule_purge env n p sz seg os = Some (seg1, os1)" "seg_ok seg1" "only_masks seg seg1"
    "claimed (commit_mask seg) - (claimed (purge_mask seg) \<union> inside (p - seg_addr n) sz) \<subseteq> claimed (commit_mask seg1)"
    "claimed (commit_mask seg1) \<subseteq> claimed (commit_mask seg)"
    "claimed (purge_mask seg1) \<subseteq> claimed (purge_mask seg) \<union> inside (p - seg_addr n) sz"
    "gave_up_within os os1 (slice_bytes n (claimed (purge_mask seg) \<union> inside (p - seg_addr n) sz))"
    using schedule_purge_masks [OF assms(1,2), of env os] by blast
  obtain seg2 os2 where 2: "mi_segment_try_purge env n True seg1 os1 = Some (seg2, os2)" "seg_ok seg2" "only_masks seg1 seg2"
    "claimed (commit_mask seg1) - claimed (purge_mask seg1) \<subseteq> claimed (commit_mask seg2)"
    "claimed (commit_mask seg2) \<subseteq> claimed (commit_mask seg1)"
    "allow_purge seg1 \<longrightarrow> claimed (purge_mask seg2) = {}" "gave_up_within os1 os2 (slice_bytes n (claimed (purge_mask seg1)))"
    using try_purge_masks [OF 1(2), of env n True os1] by blast
  have "allow_purge seg1" using only_masks_field [OF 1(3)] assms(3) by simp
  moreover have "claimed (commit_mask seg) - (claimed (purge_mask seg) \<union> inside (p - seg_addr n) sz) \<subseteq> claimed (commit_mask seg2)"
    using 1(4,6) 2(4) by blast
  moreover have "gave_up_within os os2 (slice_bytes n (claimed (purge_mask seg) \<union> inside (p - seg_addr n) sz))"
    by (rule gave_up_trans [OF 1(7) 2(7)]) (use chunk_bytes_mono [OF 1(6)] in blast)
  ultimately show ?thesis using 1 2 only_masks_trans [OF 1(3) 2(3)] by blast
qed

text \<open>A segment whose first three slices are committed, on the sample system.\<close>

definition sample_seg :: mi_segment where
  "sample_seg = \<lparr>memid = mi_memid_none, allow_decommit = True, allow_purge = True, segment_size = MI_SEGMENT_SIZE,
     purge_expire = 0, purge_mask = mi_commit_mask_create_empty,
     commit_mask = [7, 0, 0, 0, 0, 0, 0, 0], abandoned_next = 0, abandoned = 0, abandoned_visits = 0,
     seg_used = 1, segment_slices = MI_SLICES_PER_SEGMENT, segment_info_slices = 1, kind = MI_SEGMENT_NORMAL,
     slice_entries = MI_SLICES_PER_SEGMENT, thread_id = 1\<rparr>"

lemma sample_seg_ok: "seg_ok sample_seg"
  using claimed_empty by (simp add: seg_ok_def sample_seg_def)


theorem mi_segment_purge_only_inside_witness:
  "\<exists>seg1 os1 seg2 os2. mi_segment_schedule_purge sample_os 1 (seg_addr 1 + 65536) 131072 sample_seg sample_st = Some (seg1, os1)
     \<and> mi_segment_try_purge sample_os 1 True seg1 os1 = Some (seg2, os2) \<and> claimed (purge_mask seg2) = {}"
proof -
  have "allow_purge sample_seg" by (simp add: sample_seg_def)
  then show ?thesis
    using mi_segment_purge_only_inside [OF sample_seg_ok, of 1 "seg_addr 1 + 65536" 131072 sample_os sample_st] by auto
qed

end
