(* ===== verification/Arena.thy ===== *)
theory Arena
  imports Commit
begin

text \<open>
  Arenas (src/arena.c): large areas of memory divided into blocks of the size of a segment,
  with bitmaps for the blocks that are in use, possibly dirty, committed, and scheduled for a
  purge. Allocation and free of blocks, the delayed purge, and the reservation of new arenas.
  The bitmaps are those of theory Bitmap, the system calls those of theory Os. The operations
  run undisturbed by other threads; None is a bitmap access out of bounds.
  An arena lies at the address of its metadata; statistics and messages are left out.
\<close>

section \<open>Arenas and their identifiers\<close>

definition MI_ARENA_BLOCK_SIZE :: nat where [simp]: "MI_ARENA_BLOCK_SIZE = MI_SEGMENT_SIZE"
definition MI_ARENA_MIN_OBJ_SIZE :: nat where [simp]: "MI_ARENA_MIN_OBJ_SIZE = MI_ARENA_BLOCK_SIZE div 2"
definition MI_MAX_ARENAS :: nat where [simp]: "MI_MAX_ARENAS = 112"
definition MI_ARENA_STATIC_MAX :: nat where [simp]: "MI_ARENA_STATIC_MAX = MI_INTPTR_SIZE * MI_KiB"

record mi_arena =
  arena_id :: int
  arena_memid :: mi_memid
  arena_start :: nat
  block_count :: nat
  field_count :: nat
  meta_size :: nat
  meta_memid :: mi_memid
  numa_node :: int
  exclusive :: bool
  is_large :: bool
  search_idx :: nat
  arena_purge_expire :: int
  blocks_dirty :: mi_bitmap
  blocks_committed :: "mi_bitmap option"
  blocks_purge :: "mi_bitmap option"
  blocks_inuse :: mi_bitmap

text \<open>sizeof(mi_arena_t) on a 64-bit platform.\<close>

definition sizeof_mi_arena :: nat where "sizeof_mi_arena = 144"

text \<open>The array mi_arenas, with the address of each arena, and the static area.\<close>

record mi_arenas =
  arena_ptr :: "nat \<Rightarrow> nat option"
  arena_mem :: "nat \<Rightarrow> mi_arena"
  arena_count :: nat
  static_base :: nat
  static_top :: nat
  ar_os :: mi_os

definition mi_arena_id_index :: "int \<Rightarrow> nat" where
  "mi_arena_id_index aid = (if aid \<le> 0 then MI_MAX_ARENAS else nat (aid - 1))"

definition mi_arena_id_create :: "nat \<Rightarrow> int" where
  "mi_arena_id_create arena_index = int arena_index + 1"

definition mi_arena_id_none :: int where
  "mi_arena_id_none = 0"

definition mi_arena_id_is_suitable :: "int \<Rightarrow> bool \<Rightarrow> int \<Rightarrow> bool" where
  "mi_arena_id_is_suitable aid arena_is_exclusive req_arena_id \<longleftrightarrow>
     \<not> arena_is_exclusive \<and> req_arena_id = mi_arena_id_none \<or> aid = req_arena_id"

definition mi_arena_memid_is_suitable :: "mi_memid \<Rightarrow> int \<Rightarrow> bool" where
  "mi_arena_memid_is_suitable mid request_arena_id =
     (if memkind mid = MI_MEM_ARENA
      then mi_arena_id_is_suitable (mem_arena_id mid) (mem_arena_is_exclusive mid) request_arena_id
      else mi_arena_id_is_suitable 0 False request_arena_id)"

definition mi_arena_memid_is_os_allocated :: "mi_memid \<Rightarrow> bool" where
  "mi_arena_memid_is_os_allocated mid \<longleftrightarrow> memkind mid = MI_MEM_OS"

definition divide_up :: "nat \<Rightarrow> nat \<Rightarrow> nat" where
  "divide_up sz divider = (if divider = 0 then sz else (sz + divider - 1) div divider)"

definition mi_block_count_of_size :: "nat \<Rightarrow> nat" where
  "mi_block_count_of_size sz = divide_up sz MI_ARENA_BLOCK_SIZE"

definition mi_arena_block_size :: "nat \<Rightarrow> nat" where
  "mi_arena_block_size bcount = bcount * MI_ARENA_BLOCK_SIZE"

definition mi_arena_size :: "mi_arena \<Rightarrow> nat" where
  "mi_arena_size arena = mi_arena_block_size (block_count arena)"

definition mi_memid_create_arena :: "int \<Rightarrow> bool \<Rightarrow> nat \<Rightarrow> mi_memid" where
  "mi_memid_create_arena aid is_exclusive bitmap_index =
     (mi_memid_create MI_MEM_ARENA)\<lparr>mem_arena_id := aid, mem_arena_block_index := bitmap_index,
       mem_arena_is_exclusive := is_exclusive\<rparr>"

definition mi_arena_memid_indices :: "mi_memid \<Rightarrow> bool \<times> nat \<times> nat" where
  "mi_arena_memid_indices mid =
     (mem_arena_is_exclusive mid, mi_arena_id_index (mem_arena_id mid), mem_arena_block_index mid)"

definition mi_arena_block_start :: "mi_arena \<Rightarrow> nat \<Rightarrow> nat" where
  "mi_arena_block_start arena bindex = arena_start arena + mi_arena_block_size bindex"

section \<open>Metadata\<close>

definition mi_arena_static_zalloc :: "nat \<Rightarrow> nat \<Rightarrow> mi_arenas \<Rightarrow> (nat \<times> mi_memid) \<times> mi_arenas" where
  "mi_arena_static_zalloc sz alignment st =
     (if sz = 0 \<or> sz > MI_ARENA_STATIC_MAX then ((0, mi_memid_none), st)
      else if static_top st + sz > MI_ARENA_STATIC_MAX then ((0, mi_memid_none), st)
      else let alignment = (if alignment = 0 then 1 else alignment);
               oversize = sz + alignment - 1
        in if oversize > MI_ARENA_STATIC_MAX then ((0, mi_memid_none), st)
           else let oldtop = static_top st;
                    top = oldtop + oversize
             in if top > MI_ARENA_STATIC_MAX then ((0, mi_memid_none), st)
                else ((static_base st + align_up oldtop alignment, mi_memid_create MI_MEM_STATIC),
                      st\<lparr>static_top := top\<rparr>))"

definition mi_arena_meta_zalloc :: "os_env \<Rightarrow> nat \<Rightarrow> mi_arenas \<Rightarrow> (nat \<times> mi_memid) \<times> mi_arenas" where
  "mi_arena_meta_zalloc env sz st =
     (case mi_arena_static_zalloc sz MI_ALIGNMENT_MAX st of ((p, mid), st) \<Rightarrow>
        if p \<noteq> 0 then ((p, mid), st)
        else case mi_os_alloc env sz (ar_os st) of (r, os) \<Rightarrow> (r, st\<lparr>ar_os := os\<rparr>))"

definition mi_arena_meta_free :: "os_env \<Rightarrow> nat \<Rightarrow> mi_memid \<Rightarrow> nat \<Rightarrow> mi_arenas \<Rightarrow> mi_arenas" where
  "mi_arena_meta_free env p mid sz st =
     (if mi_memkind_is_os (memkind mid) then st\<lparr>ar_os := mi_os_free env p sz mid (ar_os st)\<rparr> else st)"

section \<open>Allocation in an arena\<close>

definition mi_arena_try_claim :: "mi_arena \<Rightarrow> nat \<Rightarrow> (nat option \<times> mi_arena) option" where
  "mi_arena_try_claim arena blocks = do {
     (r, inuse) \<leftarrow> mi_bitmap_try_find_from_claim_across (\<lambda>_ _ b. b) (blocks_inuse arena) (field_count arena) 0 blocks;
     case r of
       Some bitmap_idx \<Rightarrow>
         Some (Some bitmap_idx, arena\<lparr>blocks_inuse := inuse, search_idx := mi_bitmap_index_field bitmap_idx\<rparr>)
     | None \<Rightarrow> Some (None, arena\<lparr>blocks_inuse := inuse\<rparr>) }"

definition mi_arena_try_alloc_at ::
  "os_env \<Rightarrow> mi_arena \<Rightarrow> nat \<Rightarrow> bool \<Rightarrow> mi_os \<Rightarrow> ((nat \<times> mi_memid) \<times> mi_arena \<times> mi_os) option" where
  "mi_arena_try_alloc_at env arena needed_bcount commit os = do {
     (r, arena) \<leftarrow> mi_arena_try_claim arena needed_bcount;
     case r of
       None \<Rightarrow> Some ((0, mi_memid_none), arena, os)
     | Some bitmap_index \<Rightarrow> do {
         let p = mi_arena_block_start arena bitmap_index;
         let mid = (mi_memid_create_arena (arena_id arena) (exclusive arena) bitmap_index)
                     \<lparr>is_pinned := is_pinned (arena_memid arena)\<rparr>;
         arena \<leftarrow> (case blocks_purge arena of
             None \<Rightarrow> Some arena
           | Some bm \<Rightarrow> do {
               (_, bm) \<leftarrow> mi_bitmap_unclaim_across bm needed_bcount bitmap_index;
               Some (arena\<lparr>blocks_purge := Some bm\<rparr>) });
         (mid, arena) \<leftarrow>
           (if initially_zero (arena_memid arena) then do {
              (all_zero, _, bm) \<leftarrow> mi_bitmap_claim_across (blocks_dirty arena) needed_bcount bitmap_index;
              Some (mid\<lparr>initially_zero := all_zero\<rparr>, arena\<lparr>blocks_dirty := bm\<rparr>) }
            else Some (mid, arena));
         case blocks_committed arena of
           None \<Rightarrow> Some ((p, mid\<lparr>initially_committed := True\<rparr>), arena, os)
         | Some bm \<Rightarrow>
             if commit then do {
               let mid = mid\<lparr>initially_committed := True\<rparr>;
               (_, any_uncommitted, bm) \<leftarrow> mi_bitmap_claim_across bm needed_bcount bitmap_index;
               let arena = arena\<lparr>blocks_committed := Some bm\<rparr>;
               if any_uncommitted then
                 (case mi_os_commit env p (mi_arena_block_size needed_bcount) os of ((ok, commit_zero), os) \<Rightarrow>
                    if \<not> ok then Some ((p, mid\<lparr>initially_committed := False\<rparr>), arena, os)
                    else if commit_zero then Some ((p, mid\<lparr>initially_zero := True\<rparr>), arena, os)
                    else Some ((p, mid), arena, os))
               else Some ((p, mid), arena, os) }
             else do {
               c \<leftarrow> mi_bitmap_is_claimed_across bm needed_bcount bitmap_index;
               Some ((p, mid\<lparr>initially_committed := c\<rparr>), arena, os) } } }"

definition upd_arena :: "nat \<Rightarrow> mi_arena \<Rightarrow> mi_os \<Rightarrow> mi_arenas \<Rightarrow> mi_arenas" where
  "upd_arena i arena os st = st\<lparr>arena_mem := (arena_mem st)(i := arena), ar_os := os\<rparr>"

definition mi_arena_try_alloc_at_id ::
  "os_env \<Rightarrow> int \<Rightarrow> bool \<Rightarrow> int \<Rightarrow> nat \<Rightarrow> bool \<Rightarrow> bool \<Rightarrow> int \<Rightarrow> mi_arenas \<Rightarrow> ((nat \<times> mi_memid) \<times> mi_arenas) option" where
  "mi_arena_try_alloc_at_id env aid match_numa_node node sz commit allow_large req_arena_id st =
     (let bcount = mi_block_count_of_size sz;
          arena_index = mi_arena_id_index aid
      in if arena_ptr st arena_index = None then Some ((0, mi_memid_none), st)
         else let arena = arena_mem st arena_index
           in if \<not> allow_large \<and> is_large arena then Some ((0, mi_memid_none), st)
              else if \<not> mi_arena_id_is_suitable (arena_id arena) (exclusive arena) req_arena_id
              then Some ((0, mi_memid_none), st)
              else let numa_suitable = (node < 0 \<or> numa_node arena < 0 \<or> numa_node arena = node)
                in if req_arena_id = mi_arena_id_none \<and>
                      (if match_numa_node then \<not> numa_suitable else numa_suitable)
                   then Some ((0, mi_memid_none), st)
                   else do {
                     (r, arena, os) \<leftarrow> mi_arena_try_alloc_at env arena bcount commit (ar_os st);
                     Some (r, upd_arena arena_index arena os st) })"

text \<open>The loop over the arenas from index i on, of n arenas.\<close>

fun mi_arena_try_loop ::
  "os_env \<Rightarrow> nat list \<Rightarrow> bool \<Rightarrow> int \<Rightarrow> nat \<Rightarrow> bool \<Rightarrow> bool \<Rightarrow> int \<Rightarrow> mi_arenas \<Rightarrow> ((nat \<times> mi_memid) \<times> mi_arenas) option" where
  "mi_arena_try_loop env [] match node sz commit allow_large req_arena_id st = Some ((0, mi_memid_none), st)"
| "mi_arena_try_loop env (i # is) match node sz commit allow_large req_arena_id st = do {
     ((p, mid), st) \<leftarrow>
       mi_arena_try_alloc_at_id env (mi_arena_id_create i) match node sz commit allow_large req_arena_id st;
     if p \<noteq> 0 then Some ((p, mid), st)
     else mi_arena_try_loop env is match node sz commit allow_large req_arena_id st }"

definition mi_arena_try_alloc ::
  "os_env \<Rightarrow> int \<Rightarrow> nat \<Rightarrow> bool \<Rightarrow> bool \<Rightarrow> int \<Rightarrow> mi_arenas \<Rightarrow> ((nat \<times> mi_memid) \<times> mi_arenas) option" where
  "mi_arena_try_alloc env node sz commit allow_large req_arena_id st =
     (let max_arena = arena_count st
      in if max_arena = 0 then Some ((0, mi_memid_none), st)
         else if req_arena_id \<noteq> mi_arena_id_none then
           (if mi_arena_id_index req_arena_id < max_arena
            then mi_arena_try_alloc_at_id env req_arena_id True node sz commit allow_large req_arena_id st
            else Some ((0, mi_memid_none), st))
         else do {
           ((p, mid), st) \<leftarrow> mi_arena_try_loop env [0..<max_arena] True node sz commit allow_large req_arena_id st;
           if p \<noteq> 0 then Some ((p, mid), st)
           else if node \<ge> 0
           then mi_arena_try_loop env [0..<max_arena] False node sz commit allow_large req_arena_id st
           else Some ((0, mi_memid_none), st) })"


section \<open>Adding arenas\<close>

text \<open>The arena at address p; the result is the returned bool and *arena_id.\<close>

definition mi_arena_add :: "nat \<Rightarrow> mi_arena \<Rightarrow> mi_arenas \<Rightarrow> (bool \<times> int) \<times> mi_arenas" where
  "mi_arena_add p arena st =
     (let i = arena_count st
      in if i \<ge> MI_MAX_ARENAS then ((False, -1), st)
         else ((True, mi_arena_id_create i),
               st\<lparr>arena_count := i + 1, arena_ptr := (arena_ptr st)(i := Some p),
                  arena_mem := (arena_mem st)(i := arena\<lparr>arena_id := mi_arena_id_create i\<rparr>)\<rparr>))"

definition mi_manage_os_memory_ex2 ::
  "os_env \<Rightarrow> nat \<Rightarrow> nat \<Rightarrow> bool \<Rightarrow> int \<Rightarrow> bool \<Rightarrow> mi_memid \<Rightarrow> mi_arenas \<Rightarrow> ((bool \<times> int) \<times> mi_arenas) option" where
  "mi_manage_os_memory_ex2 env start sz large node excl mid st =
     (if sz < MI_ARENA_BLOCK_SIZE then Some ((False, mi_arena_id_none), st)
      else let bcount = sz div MI_ARENA_BLOCK_SIZE;
               fields = divide_up bcount MI_BITMAP_FIELD_BITS;
               bitmaps = (if is_pinned mid then 2 else 4);
               asize = sizeof_mi_arena + bitmaps * fields * 8
        in case mi_arena_meta_zalloc env asize st of ((p, mmid), st) \<Rightarrow>
          if p = 0 then Some ((False, mi_arena_id_none), st)
          else let zeros = replicate fields 0;
                   arena = \<lparr>arena_id = mi_arena_id_none, arena_memid = mid, arena_start = start, block_count = bcount,
                     field_count = fields, meta_size = asize, meta_memid = mmid, numa_node = node, exclusive = excl,
                     is_large = large, search_idx = 0, arena_purge_expire = 0, blocks_dirty = zeros,
                     blocks_committed =
                       (if is_pinned mid then None
                        else Some (if initially_committed mid then replicate fields MI_BITMAP_FIELD_FULL else zeros)),
                     blocks_purge = (if is_pinned mid then None else Some zeros), blocks_inuse = zeros\<rparr>;
                   post = fields * MI_BITMAP_FIELD_BITS - bcount
            in do {
              arena \<leftarrow> (if post > 0 then do {
                  let postidx = mi_bitmap_index_create (fields - 1) (MI_BITMAP_FIELD_BITS - post);
                  (_, _, bm) \<leftarrow> mi_bitmap_claim (blocks_inuse arena) post postidx;
                  Some (arena\<lparr>blocks_inuse := bm\<rparr>) }
                else Some arena);
              Some (mi_arena_add p arena st) })"

definition mi_manage_os_memory_ex ::
  "os_env \<Rightarrow> nat \<Rightarrow> nat \<Rightarrow> bool \<Rightarrow> bool \<Rightarrow> bool \<Rightarrow> int \<Rightarrow> bool \<Rightarrow> mi_arenas \<Rightarrow> ((bool \<times> int) \<times> mi_arenas) option" where
  "mi_manage_os_memory_ex env start sz is_committed large is_zero node excl st =
     (let mid = (mi_memid_create MI_MEM_EXTERNAL)\<lparr>initially_committed := is_committed, initially_zero := is_zero,
            is_pinned := large\<rparr>
      in mi_manage_os_memory_ex2 env start sz large node excl mid st)"

definition mi_manage_os_memory ::
  "os_env \<Rightarrow> nat \<Rightarrow> nat \<Rightarrow> bool \<Rightarrow> bool \<Rightarrow> bool \<Rightarrow> int \<Rightarrow> mi_arenas \<Rightarrow> (bool \<times> mi_arenas) option" where
  "mi_manage_os_memory env start sz is_committed large is_zero node st = do {
     ((ok, _), st) \<leftarrow> mi_manage_os_memory_ex env start sz is_committed large is_zero node False st;
     Some (ok, st) }"

definition ENOMEM :: int where "ENOMEM = 12"

text \<open>The result is the error code and *arena_id.\<close>

definition mi_reserve_os_memory_ex ::
  "os_env \<Rightarrow> nat \<Rightarrow> bool \<Rightarrow> bool \<Rightarrow> bool \<Rightarrow> mi_arenas \<Rightarrow> ((int \<times> int) \<times> mi_arenas) option" where
  "mi_reserve_os_memory_ex env sz commit allow_large excl st =
     (let sz = align_up sz MI_ARENA_BLOCK_SIZE
      in case mi_os_alloc_aligned env sz MI_SEGMENT_SIZE commit allow_large (ar_os st) of ((start, mid), os) \<Rightarrow>
        let st = st\<lparr>ar_os := os\<rparr>
        in if start = 0 then Some ((ENOMEM, mi_arena_id_none), st)
           else do {
             ((ok, aid), st) \<leftarrow> mi_manage_os_memory_ex2 env start sz (is_pinned mid) (-1) excl mid st;
             if \<not> ok then Some ((ENOMEM, aid), st\<lparr>ar_os := mi_os_free_ex env start sz commit mid (ar_os st)\<rparr>)
             else Some ((0, aid), st) })"

definition mi_reserve_os_memory :: "os_env \<Rightarrow> nat \<Rightarrow> bool \<Rightarrow> bool \<Rightarrow> mi_arenas \<Rightarrow> (int \<times> mi_arenas) option" where
  "mi_reserve_os_memory env sz commit allow_large st = do {
     ((err, _), st) \<leftarrow> mi_reserve_os_memory_ex env sz commit allow_large False st;
     Some (err, st) }"

text \<open>arena_reserve is what mi_option_get_size returns for the option.\<close>

definition mi_arena_reserve ::
  "os_env \<Rightarrow> nat \<Rightarrow> bool \<Rightarrow> int \<Rightarrow> mi_arenas \<Rightarrow> ((bool \<times> int) \<times> mi_arenas) option" where
  "mi_arena_reserve env req_size allow_large req_arena_id st =
     (if os_preloading env then Some ((False, 0), st)
      else if req_arena_id \<noteq> mi_arena_id_none then Some ((False, 0), st)
      else let count = arena_count st
        in if count > MI_MAX_ARENAS - 4 then Some ((False, 0), st)
           else let reserve = (let x = optv env mi_option_arena_reserve in if x < 0 then 0 else nat x * MI_KiB)
             in if reserve = 0 then Some ((False, 0), st)
                else let reserve = (if \<not> has_virtual_reserve env then reserve div 4 else reserve);
                         reserve = align_up reserve MI_ARENA_BLOCK_SIZE;
                         reserve = (if count \<ge> 8 \<and> count \<le> 128 then 2 ^ (count div 8) * reserve else reserve)
                  in if reserve < req_size then Some ((False, 0), st)
                     else let commit =
                            (if optv env mi_option_arena_eager_commit = 2 then has_overcommit env
                             else optv env mi_option_arena_eager_commit = 1)
                       in do {
                         ((err, aid), st) \<leftarrow> mi_reserve_os_memory_ex env reserve commit allow_large False st;
                         Some ((err = 0, aid), st) })"

definition mi_arena_alloc_aligned ::
  "os_env \<Rightarrow> nat \<Rightarrow> nat \<Rightarrow> nat \<Rightarrow> bool \<Rightarrow> bool \<Rightarrow> int \<Rightarrow> mi_arenas \<Rightarrow> ((nat \<times> mi_memid) \<times> mi_arenas) option" where
  "mi_arena_alloc_aligned env sz alignment align_offset commit allow_large req_arena_id st =
     (case mi_os_numa_node_get env (ar_os st) of (node, os) \<Rightarrow>
        let st = st\<lparr>ar_os := os\<rparr>
        in do {
          ((p, mid), st) \<leftarrow>
            (if sz \<ge> MI_ARENA_MIN_OBJ_SIZE \<and> alignment \<le> MI_SEGMENT_SIZE \<and> align_offset = 0 then do {
               ((p, mid), st) \<leftarrow> mi_arena_try_alloc env (int node) sz commit allow_large req_arena_id st;
               if p \<noteq> 0 then Some ((p, mid), st)
               else if req_arena_id = mi_arena_id_none then do {
                 ((ok, aid), st) \<leftarrow> mi_arena_reserve env sz allow_large req_arena_id st;
                 if ok then mi_arena_try_alloc_at_id env aid True (int node) sz commit allow_large req_arena_id st
                 else Some ((0, mi_memid_none), st) }
               else Some ((0, mi_memid_none), st) }
             else Some ((0, mi_memid_none), st));
          if p \<noteq> 0 then Some ((p, mid), st)
          else if optv env mi_option_limit_os_alloc \<noteq> 0 \<or> req_arena_id \<noteq> mi_arena_id_none
          then Some ((0, mi_memid_none), st)
          else if align_offset > 0 then
            (case mi_os_alloc_aligned_at_offset env sz alignment align_offset commit allow_large (ar_os st) of
               (r, os) \<Rightarrow> Some (r, st\<lparr>ar_os := os\<rparr>))
          else
            (case mi_os_alloc_aligned env sz alignment commit allow_large (ar_os st) of
               (r, os) \<Rightarrow> Some (r, st\<lparr>ar_os := os\<rparr>)) })"

definition mi_arena_alloc ::
  "os_env \<Rightarrow> nat \<Rightarrow> bool \<Rightarrow> bool \<Rightarrow> int \<Rightarrow> mi_arenas \<Rightarrow> ((nat \<times> mi_memid) \<times> mi_arenas) option" where
  "mi_arena_alloc env sz commit allow_large req_arena_id st =
     mi_arena_alloc_aligned env sz MI_ARENA_BLOCK_SIZE 0 commit allow_large req_arena_id st"

definition mi_arena_area :: "int \<Rightarrow> mi_arenas \<Rightarrow> nat \<times> nat" where
  "mi_arena_area aid st =
     (let arena_index = mi_arena_id_index aid
      in if arena_index \<ge> MI_MAX_ARENAS then (0, 0)
         else if arena_ptr st arena_index = None then (0, 0)
         else (arena_start (arena_mem st arena_index), mi_arena_block_size (block_count (arena_mem st arena_index))))"

section \<open>Purging\<close>

definition mi_arena_purge_delay :: "os_env \<Rightarrow> int" where
  "mi_arena_purge_delay env = optv env mi_option_purge_delay * optv env mi_option_arena_purge_mult"

definition mi_arena_purge :: "os_env \<Rightarrow> mi_arena \<Rightarrow> nat \<Rightarrow> nat \<Rightarrow> mi_os \<Rightarrow> (mi_arena \<times> mi_os) option" where
  "mi_arena_purge env arena bitmap_idx blocks os =
     (case (blocks_committed arena, blocks_purge arena) of
        (Some committed, Some purge) \<Rightarrow> do {
          let sz = mi_arena_block_size blocks;
          let p = mi_arena_block_start arena bitmap_idx;
          all_committed \<leftarrow> mi_bitmap_is_claimed_across committed blocks bitmap_idx;
          let (needs_recommit, os) =
            (if all_committed then mi_os_purge env p sz os else mi_os_purge_ex env p sz False os);
          (_, purge) \<leftarrow> mi_bitmap_unclaim_across purge blocks bitmap_idx;
          let arena = arena\<lparr>blocks_purge := Some purge\<rparr>;
          if needs_recommit then do {
            (_, committed) \<leftarrow> mi_bitmap_unclaim_across committed blocks bitmap_idx;
            Some (arena\<lparr>blocks_committed := Some committed\<rparr>, os) }
          else Some (arena, os) }
      | _ \<Rightarrow> None)"

definition mi_arena_schedule_purge ::
  "os_env \<Rightarrow> mi_arena \<Rightarrow> nat \<Rightarrow> nat \<Rightarrow> mi_os \<Rightarrow> (mi_arena \<times> mi_os) option" where
  "mi_arena_schedule_purge env arena bitmap_idx blocks os =
     (let delay = mi_arena_purge_delay env
      in if delay < 0 then Some (arena, os)
         else if os_preloading env \<or> delay = 0 then mi_arena_purge env arena bitmap_idx blocks os
         else let arena =
                (if arena_purge_expire arena \<noteq> 0
                 then arena\<lparr>arena_purge_expire := arena_purge_expire arena + delay div 10\<rparr>
                 else arena\<lparr>arena_purge_expire := clock env (os_log os) + delay\<rparr>)
           in case blocks_purge arena of
                None \<Rightarrow> None
              | Some purge \<Rightarrow> do {
                  (_, _, purge) \<leftarrow> mi_bitmap_claim_across purge blocks bitmap_idx;
                  Some (arena\<lparr>blocks_purge := Some purge\<rparr>, os) })"

text \<open>while (bitidx + count < endidx \&\& (purge \& (1 << (bitidx + count))) != 0) count++;\<close>

function mi_count_run :: "usize \<Rightarrow> nat \<Rightarrow> nat \<Rightarrow> nat \<Rightarrow> nat" where
  "mi_count_run purge endidx bitidx count =
     (if bitidx + count < endidx \<and> purge AND push_bit (bitidx + count) 1 \<noteq> 0
      then mi_count_run purge endidx bitidx (count + 1) else count)"
  by auto
termination by (relation "measure (\<lambda>(purge, endidx, bitidx, count). endidx - (bitidx + count))") auto

declare mi_count_run.simps [simp del]

function mi_arena_purge_range_loop ::
  "os_env \<Rightarrow> mi_arena \<Rightarrow> nat \<Rightarrow> nat \<Rightarrow> nat \<Rightarrow> nat \<Rightarrow> usize \<Rightarrow> bool \<Rightarrow> mi_os \<Rightarrow> (bool \<times> mi_arena \<times> mi_os) option" where
  "mi_arena_purge_range_loop env arena idx bitidx endidx bitlen purge all_purged os =
     (if bitidx < endidx then
        let count = mi_count_run purge endidx bitidx 0
        in do {
          (all_purged, arena, os) \<leftarrow>
            (if count > 0 then do {
               (arena, os) \<leftarrow> mi_arena_purge env arena (mi_bitmap_index_create idx bitidx) count os;
               Some (if count = bitlen then True else all_purged, arena, os) }
             else Some (all_purged, arena, os));
          mi_arena_purge_range_loop env arena idx (bitidx + (count + 1)) endidx bitlen purge all_purged os }
      else Some (all_purged, arena, os))"
  by auto
termination
  by (relation "measure (\<lambda>(env, arena, idx, bitidx, endidx, bitlen, purge, all_purged, os). endidx - bitidx)") auto

declare mi_arena_purge_range_loop.simps [simp del]

definition mi_arena_purge_range ::
  "os_env \<Rightarrow> mi_arena \<Rightarrow> nat \<Rightarrow> nat \<Rightarrow> nat \<Rightarrow> usize \<Rightarrow> mi_os \<Rightarrow> (bool \<times> mi_arena \<times> mi_os) option" where
  "mi_arena_purge_range env arena idx startidx bitlen purge os =
     mi_arena_purge_range_loop env arena idx startidx (startidx + bitlen) bitlen purge False os"

text \<open>while (bitlen > 0) \{ if (try_claim) break; bitlen--; \}\<close>

fun mi_claim_longest :: "mi_bitmap \<Rightarrow> nat \<Rightarrow> nat \<Rightarrow> (nat \<times> mi_bitmap) option" where
  "mi_claim_longest inuse 0 bitmap_index = Some (0, inuse)"
| "mi_claim_longest inuse (Suc bitlen) bitmap_index = do {
     (ok, inuse') \<leftarrow> mi_bitmap_try_claim inuse (Suc bitlen) bitmap_index;
     if ok then Some (Suc bitlen, inuse') else mi_claim_longest inuse' bitlen bitmap_index }"

function mi_arena_try_purge_field ::
  "os_env \<Rightarrow> mi_arena \<Rightarrow> nat \<Rightarrow> nat \<Rightarrow> usize \<Rightarrow> bool \<Rightarrow> bool \<Rightarrow> mi_os \<Rightarrow> (bool \<times> bool \<times> mi_arena \<times> mi_os) option" where
  "mi_arena_try_purge_field env arena i bitidx purge any_purged full_purge os =
     (if bitidx < MI_BITMAP_FIELD_BITS then
        let bitlen = mi_count_run purge MI_BITMAP_FIELD_BITS bitidx 0;
            bitmap_index = mi_bitmap_index_create i bitidx
        in do {
          (bitlen, inuse) \<leftarrow> mi_claim_longest (blocks_inuse arena) bitlen bitmap_index;
          let arena = arena\<lparr>blocks_inuse := inuse\<rparr>;
          (purge, any_purged, full_purge, arena, os) \<leftarrow>
            (if bitlen > 0 then do {
               purge \<leftarrow> (case blocks_purge arena of Some bm \<Rightarrow> load bm i | None \<Rightarrow> None);
               (all_purged, arena, os) \<leftarrow> mi_arena_purge_range env arena i bitidx bitlen purge os;
               (_, inuse) \<leftarrow> mi_bitmap_unclaim (blocks_inuse arena) bitlen bitmap_index;
               Some (purge, True, if \<not> all_purged then False else full_purge, arena\<lparr>blocks_inuse := inuse\<rparr>, os) }
             else Some (purge, any_purged, full_purge, arena, os));
          mi_arena_try_purge_field env arena i (bitidx + (bitlen + 1)) purge any_purged full_purge os }
      else Some (any_purged, full_purge, arena, os))"
  by auto
termination
  by (relation "measure (\<lambda>(env, arena, i, bitidx, purge, any_purged, full_purge, os). MI_BITMAP_FIELD_BITS - bitidx)") auto

declare mi_arena_try_purge_field.simps [simp del]

fun mi_arena_try_purge_fields ::
  "os_env \<Rightarrow> mi_arena \<Rightarrow> nat list \<Rightarrow> bool \<Rightarrow> bool \<Rightarrow> mi_os \<Rightarrow> (bool \<times> bool \<times> mi_arena \<times> mi_os) option" where
  "mi_arena_try_purge_fields env arena [] any_purged full_purge os = Some (any_purged, full_purge, arena, os)"
| "mi_arena_try_purge_fields env arena (i # is) any_purged full_purge os = do {
     purge \<leftarrow> (case blocks_purge arena of Some bm \<Rightarrow> load bm i | None \<Rightarrow> None);
     (any_purged, full_purge, arena, os) \<leftarrow>
       (if purge \<noteq> 0 then mi_arena_try_purge_field env arena i 0 purge any_purged full_purge os
        else Some (any_purged, full_purge, arena, os));
     mi_arena_try_purge_fields env arena is any_purged full_purge os }"

definition mi_arena_try_purge ::
  "os_env \<Rightarrow> mi_arena \<Rightarrow> int \<Rightarrow> bool \<Rightarrow> mi_os \<Rightarrow> (bool \<times> mi_arena \<times> mi_os) option" where
  "mi_arena_try_purge env arena now force os =
     (if is_pinned (arena_memid arena) \<or> blocks_purge arena = None then Some (False, arena, os)
      else let expire = arena_purge_expire arena
        in if expire = 0 then Some (False, arena, os)
           else if \<not> force \<and> expire > now then Some (False, arena, os)
           else do {
             (any_purged, full_purge, arena, os) \<leftarrow>
               mi_arena_try_purge_fields env (arena\<lparr>arena_purge_expire := 0\<rparr>) [0..<field_count arena] False True os;
             let arena =
               (if \<not> full_purge \<and> arena_purge_expire arena = 0
                then arena\<lparr>arena_purge_expire := clock env (os_log os) + mi_arena_purge_delay env\<rparr> else arena);
             Some (any_purged, arena, os) })"

fun mi_arenas_try_purge_loop ::
  "os_env \<Rightarrow> int \<Rightarrow> bool \<Rightarrow> nat list \<Rightarrow> nat \<Rightarrow> mi_arenas \<Rightarrow> mi_arenas option" where
  "mi_arenas_try_purge_loop env now force [] max_purge_count st = Some st"
| "mi_arenas_try_purge_loop env now force (i # is) max_purge_count st =
     (if arena_ptr st i = None then mi_arenas_try_purge_loop env now force is max_purge_count st
      else do {
        (purged, arena, os) \<leftarrow> mi_arena_try_purge env (arena_mem st i) now force (ar_os st);
        let st = upd_arena i arena os st;
        if purged then
          (if max_purge_count \<le> 1 then Some st
           else mi_arenas_try_purge_loop env now force is (max_purge_count - 1) st)
        else mi_arenas_try_purge_loop env now force is max_purge_count st })"

text \<open>The guard that lets one thread at a time purge is free.\<close>

definition mi_arenas_try_purge :: "os_env \<Rightarrow> bool \<Rightarrow> bool \<Rightarrow> mi_arenas \<Rightarrow> mi_arenas option" where
  "mi_arenas_try_purge env force visit_all st =
     (if os_preloading env \<or> mi_arena_purge_delay env \<le> 0 then Some st
      else let max_arena = arena_count st
        in if max_arena = 0 then Some st
           else mi_arenas_try_purge_loop env (clock env (os_log (ar_os st))) force [0..<max_arena]
                  (if visit_all then max_arena else 1) st)"

section \<open>Free, collect, destroy\<close>

definition mi_arena_free :: "os_env \<Rightarrow> nat \<Rightarrow> nat \<Rightarrow> nat \<Rightarrow> mi_memid \<Rightarrow> mi_arenas \<Rightarrow> mi_arenas option" where
  "mi_arena_free env p sz committed_size mid st =
     (if p = 0 then Some st
      else if sz = 0 then Some st
      else let all_committed = (committed_size = sz)
        in if mi_memkind_is_os (memkind mid)
           then mi_arenas_try_purge env False False (st\<lparr>ar_os := mi_os_free env p sz mid (ar_os st)\<rparr>)
           else if memkind mid = MI_MEM_ARENA then
             (case mi_arena_memid_indices mid of (_, arena_idx, bitmap_idx) \<Rightarrow>
                let blocks = mi_block_count_of_size sz
                in if arena_ptr st arena_idx = None then Some st
                   else let arena = arena_mem st arena_idx
                     in if field_count arena \<le> mi_bitmap_index_field bitmap_idx then Some st
                        else do {
                          (arena, os) \<leftarrow>
                            (case blocks_committed arena of
                               None \<Rightarrow> Some (arena, ar_os st)
                             | Some committed \<Rightarrow>
                                 if is_pinned (arena_memid arena) then Some (arena, ar_os st)
                                 else do {
                                   arena \<leftarrow> (if \<not> all_committed then do {
                                       (_, committed) \<leftarrow> mi_bitmap_unclaim_across committed blocks bitmap_idx;
                                       Some (arena\<lparr>blocks_committed := Some committed\<rparr>) }
                                     else Some arena);
                                   mi_arena_schedule_purge env arena bitmap_idx blocks (ar_os st) });
                          (all_inuse, inuse) \<leftarrow> mi_bitmap_unclaim_across (blocks_inuse arena) blocks bitmap_idx;
                          let st = upd_arena arena_idx (arena\<lparr>blocks_inuse := inuse\<rparr>) os st;
                          if \<not> all_inuse then Some st
                          else mi_arenas_try_purge env False False st })
           else mi_arenas_try_purge env False False st)"

definition mi_arena_collect :: "os_env \<Rightarrow> bool \<Rightarrow> mi_arenas \<Rightarrow> mi_arenas option" where
  "mi_arena_collect env force_purge st = mi_arenas_try_purge env force_purge True st"

fun mi_arenas_unsafe_destroy_loop :: "os_env \<Rightarrow> nat list \<Rightarrow> nat \<Rightarrow> mi_arenas \<Rightarrow> nat \<times> mi_arenas" where
  "mi_arenas_unsafe_destroy_loop env [] new_max_arena st = (new_max_arena, st)"
| "mi_arenas_unsafe_destroy_loop env (i # is) new_max_arena st =
     (case arena_ptr st i of
        None \<Rightarrow> mi_arenas_unsafe_destroy_loop env is new_max_arena st
      | Some p \<Rightarrow>
          let arena = arena_mem st i;
              (new_max_arena, st) =
                (if arena_start arena \<noteq> 0 \<and> mi_memkind_is_os (memkind (arena_memid arena))
                 then (new_max_arena,
                       st\<lparr>arena_ptr := (arena_ptr st)(i := None),
                          ar_os := mi_os_free env (arena_start arena) (mi_arena_size arena) (arena_memid arena) (ar_os st)\<rparr>)
                 else (i, st))
          in mi_arenas_unsafe_destroy_loop env is new_max_arena
               (mi_arena_meta_free env p (meta_memid arena) (meta_size arena) st))"

definition mi_arenas_unsafe_destroy :: "os_env \<Rightarrow> mi_arenas \<Rightarrow> mi_arenas" where
  "mi_arenas_unsafe_destroy env st =
     (case mi_arenas_unsafe_destroy_loop env [0..<arena_count st] 0 st of (new_max_arena, st) \<Rightarrow>
        st\<lparr>arena_count := new_max_arena\<rparr>)"

definition mi_arena_unsafe_destroy_all :: "os_env \<Rightarrow> mi_arenas \<Rightarrow> mi_arenas option" where
  "mi_arena_unsafe_destroy_all env st = mi_arena_collect env True (mi_arenas_unsafe_destroy env st)"

definition mi_arena_contains :: "nat \<Rightarrow> mi_arenas \<Rightarrow> bool" where
  "mi_arena_contains p st =
     list_ex (\<lambda>i. arena_ptr st i \<noteq> None \<and> arena_start (arena_mem st i) \<le> p
        \<and> arena_start (arena_mem st i) + mi_arena_block_size (block_count (arena_mem st i)) > p) [0..<arena_count st]"

section \<open>Huge pages\<close>

text \<open>r is the next random number.\<close>

definition mi_reserve_huge_os_pages_at_ex ::
  "os_env \<Rightarrow> nat \<Rightarrow> nat \<Rightarrow> int \<Rightarrow> int \<Rightarrow> bool \<Rightarrow> mi_arenas \<Rightarrow> ((int \<times> int) \<times> mi_arenas) option" where
  "mi_reserve_huge_os_pages_at_ex env r page_count node timeout_msecs excl st =
     (if page_count = 0 then Some ((0, -1), st)
      else let node = (if node < -1 then -1 else node);
               (node, os) = (if node \<ge> 0 then (case mi_os_numa_node_count_get env (ar_os st) of
                                 (c, os) \<Rightarrow> (node mod int c, os)) else (node, ar_os st))
        in case mi_os_alloc_huge_os_pages env r page_count node timeout_msecs os of
             ((p, pages_reserved, hsize, mid), os) \<Rightarrow>
               let st = st\<lparr>ar_os := os\<rparr>
               in if p = 0 \<or> pages_reserved = 0 then Some ((ENOMEM, -1), st)
                  else do {
                    ((ok, aid), st) \<leftarrow> mi_manage_os_memory_ex2 env p hsize True node excl mid st;
                    if \<not> ok then Some ((ENOMEM, aid), st\<lparr>ar_os := mi_os_free env p hsize mid (ar_os st)\<rparr>)
                    else Some ((0, aid), st) })"

definition mi_reserve_huge_os_pages_at ::
  "os_env \<Rightarrow> nat \<Rightarrow> nat \<Rightarrow> int \<Rightarrow> int \<Rightarrow> mi_arenas \<Rightarrow> (int \<times> mi_arenas) option" where
  "mi_reserve_huge_os_pages_at env r page_count node timeout_msecs st = do {
     ((err, _), st) \<leftarrow> mi_reserve_huge_os_pages_at_ex env r page_count node timeout_msecs False st;
     Some (err, st) }"

fun mi_reserve_interleave_loop ::
  "os_env \<Rightarrow> nat \<Rightarrow> nat list \<Rightarrow> nat \<Rightarrow> nat \<Rightarrow> nat \<Rightarrow> int \<Rightarrow> mi_arenas \<Rightarrow> (int \<times> mi_arenas) option" where
  "mi_reserve_interleave_loop env r [] page_count pages_per pages_mod timeout_per st = Some (0, st)"
| "mi_reserve_interleave_loop env r (node # nodes) page_count pages_per pages_mod timeout_per st =
     (if page_count > 0 then do {
        let node_pages = (if node < pages_mod then pages_per + 1 else pages_per);
        (err, st) \<leftarrow> mi_reserve_huge_os_pages_at env r node_pages (int node) timeout_per st;
        if err \<noteq> 0 then Some (err, st)
        else mi_reserve_interleave_loop env r nodes
               (if page_count < node_pages then 0 else page_count - node_pages) pages_per pages_mod timeout_per st }
      else Some (0, st))"

definition mi_reserve_huge_os_pages_interleave ::
  "os_env \<Rightarrow> nat \<Rightarrow> nat \<Rightarrow> nat \<Rightarrow> nat \<Rightarrow> mi_arenas \<Rightarrow> (int \<times> mi_arenas) option" where
  "mi_reserve_huge_os_pages_interleave env r page_count numa_nodes timeout_msecs st =
     (if page_count = 0 then Some (0, st)
      else let (numa_count, os) =
             (if numa_nodes > 0 then (numa_nodes, ar_os st) else mi_os_numa_node_count_get env (ar_os st));
               numa_count = (if numa_count \<le> 0 then 1 else numa_count);
               timeout_per = (if timeout_msecs = 0 then 0 else timeout_msecs div numa_count + 50)
        in mi_reserve_interleave_loop env r [0..<numa_count] page_count (page_count div numa_count)
             (page_count mod numa_count) (int timeout_per) (st\<lparr>ar_os := os\<rparr>))"

section \<open>Well-formed arenas\<close>

definition arena_ok :: "mi_arena \<Rightarrow> bool" where
  "arena_ok a \<longleftrightarrow> 0 < field_count a \<and> field_count a < 2 ^ 50 \<and> length (blocks_inuse a) = field_count a
     \<and> length (blocks_dirty a) = field_count a
     \<and> (\<forall>bm. blocks_committed a = Some bm \<longrightarrow> length bm = field_count a)
     \<and> (\<forall>bm. blocks_purge a = Some bm \<longrightarrow> length bm = field_count a)
     \<and> (blocks_committed a = None \<longleftrightarrow> blocks_purge a = None)
     \<and> (blocks_purge a = None \<longleftrightarrow> is_pinned (arena_memid a))
     \<and> {block_count a..<64 * field_count a} \<subseteq> claimed (blocks_inuse a) \<and> block_count a \<le> 64 * field_count a"

text \<open>The committed and the scheduled blocks.\<close>

definition committed_blocks :: "mi_arena \<Rightarrow> nat set" where
  "committed_blocks a = (case blocks_committed a of None \<Rightarrow> {..<block_count a} | Some bm \<Rightarrow> claimed bm)"

definition purge_blocks :: "mi_arena \<Rightarrow> nat set" where
  "purge_blocks a = (case blocks_purge a of None \<Rightarrow> {} | Some bm \<Rightarrow> claimed bm)"

text \<open>Two arenas that differ at most in their bitmaps and times.\<close>

definition same_area :: "mi_arena \<Rightarrow> mi_arena \<Rightarrow> bool" where
  "same_area a b \<longleftrightarrow> arena_start b = arena_start a \<and> block_count b = block_count a \<and> field_count b = field_count a
     \<and> arena_id b = arena_id a \<and> arena_memid b = arena_memid a \<and> exclusive b = exclusive a"

lemma same_area_refl [simp]: "same_area a a"
  by (simp add: same_area_def)

lemma same_area_trans: "same_area a b \<Longrightarrow> same_area b c \<Longrightarrow> same_area a c"
  by (simp add: same_area_def)

lemma claimed_bound: "b \<in> claimed bm \<Longrightarrow> b < 64 * length bm"
  by (auto simp: claimed_iff)

lemma search_sound:
  assumes "bm \<noteq> []" "0 < n" "n < 2 ^ 63"
  shows "\<exists>r bm'. mi_bitmap_try_find_from_claim_across (\<lambda>_ _ b. b) bm (length bm) start n = Some (r, bm')
    \<and> length bm' = length bm
    \<and> (case r of None \<Rightarrow> bm' = bm
       | Some i \<Rightarrow> i + n \<le> 64 * length bm \<and> claimed bm \<inter> {i..<i + n} = {} \<and> claimed bm' = claimed bm \<union> {i..<i + n})"
proof (cases "n \<le> 2")
  case True
  obtain r bm' where r: "mi_find_from_claim_loop (length bm) bm (length bm) start n = Some (r, bm')" "length bm' = length bm"
     "case r of
         None \<Rightarrow> bm' = bm \<and> (\<forall>i \<in> visited (length bm) (length bm) start. field_full bm i n)
       | Some bi \<Rightarrow> bi div 64 < length bm \<and> bi mod 64 + n \<le> 64
           \<and> claimed bm \<inter> {bi..<bi + n} = {} \<and> claimed bm' = claimed bm \<union> {bi..<bi + n}"
    using mi_find_from_claim_loop_spec [of "length bm" bm n "length bm" start] assms True by auto
  have "i + n \<le> 64 * length bm" if "i div 64 < length bm" "i mod 64 + n \<le> 64" for i
  proof -
    have "i = 64 * (i div 64) + i mod 64" by simp
    moreover have "64 * (i div 64) + 64 \<le> 64 * length bm" using that(1) by simp
    ultimately show ?thesis using that(2) by linarith
  qed
  then show ?thesis using r True
    by (auto simp: mi_bitmap_try_find_from_claim_across_def mi_bitmap_try_find_from_claim_def split: option.splits)
next
  case False
  obtain r bm' where "mi_bitmap_search bm start n = Some (r, bm')" "bitmap_capacity bm' = bitmap_capacity bm"
     "case r of None \<Rightarrow> bm' = bm \<and> (\<forall>i. i + n \<le> bitmap_capacity bm \<longrightarrow> claimed bm \<inter> {i..<i + n} \<noteq> {})
      | Some i \<Rightarrow> i + n \<le> bitmap_capacity bm \<and> claimed bm \<inter> {i..<i + n} = {} \<and> claimed bm' = claimed bm \<union> {i..<i + n}"
    using bm.search_law [of bm n start] assms False by (auto simp: bitmap_capacity_def)
  then show ?thesis by (auto simp: mi_bitmap_search_def bitmap_capacity_def split: option.splits)
qed

lemma across_laws:
  assumes "0 < n" "i + n \<le> 64 * length bm"
  shows "\<exists>bm'. mi_bitmap_claim_across bm n i = Some (claimed bm \<inter> {i..<i + n} = {}, \<not> {i..<i + n} \<subseteq> claimed bm, bm')
      \<and> claimed bm' = claimed bm \<union> {i..<i + n} \<and> length bm' = length bm"
    "\<exists>bm'. mi_bitmap_unclaim_across bm n i = Some ({i..<i + n} \<subseteq> claimed bm, bm')
      \<and> claimed bm' = claimed bm - {i..<i + n} \<and> length bm' = length bm"
    "mi_bitmap_is_claimed_across bm n i = Some ({i..<i + n} \<subseteq> claimed bm)"
  using bm.claim_law [of n i bm] bm.unclaim_law [of n i bm] bm.query_law [of n i bm] assms
  by (auto simp: bitmap_capacity_def mi_bitmap_is_claimed_across_def)

section \<open>Purging touches only what is scheduled and free\<close>

text \<open>The bytes of blocks.\<close>

abbreviation block_bytes :: "mi_arena \<Rightarrow> nat set \<Rightarrow> nat set" where
  "block_bytes a \<equiv> chunk_bytes (arena_start a) MI_ARENA_BLOCK_SIZE"

lemma block_range:
  "{mi_arena_block_start a i..<mi_arena_block_start a i + mi_arena_block_size n} = block_bytes a {i..<i + n}"
  by (simp add: chunk_bytes_interval mi_arena_block_start_def mi_arena_block_size_def)

lemma arena_purge_masks:
  assumes ok: "arena_ok a" "blocks_purge a = Some pm" and r: "0 < n" "i + n \<le> 64 * field_count a"
  shows "\<exists>a' os'. mi_arena_purge env a i n os = Some (a', os') \<and> arena_ok a' \<and> same_area a a'
    \<and> blocks_inuse a' = blocks_inuse a \<and> blocks_purge a' \<noteq> None
    \<and> purge_blocks a' = purge_blocks a - {i..<i + n}
    \<and> committed_blocks a - {i..<i + n} \<subseteq> committed_blocks a' \<and> committed_blocks a' \<subseteq> committed_blocks a
    \<and> gave_up_within os os' (block_bytes a {i..<i + n})"
proof -
  obtain cm where cm: "blocks_committed a = Some cm" "length cm = field_count a" "length pm = field_count a"
    using ok by (cases "blocks_committed a") (auto simp: arena_ok_def)
  have rc: "i + n \<le> 64 * length cm" "i + n \<le> 64 * length pm" using r(2) cm by simp_all
  obtain pm' where pm': "mi_bitmap_unclaim_across pm n i = Some ({i..<i + n} \<subseteq> claimed pm, pm')"
      "claimed pm' = claimed pm - {i..<i + n}" "length pm' = length pm"
    using across_laws(2) [OF r(1) rc(2)] by blast
  obtain cm' where cm': "mi_bitmap_unclaim_across cm n i = Some ({i..<i + n} \<subseteq> claimed cm, cm')"
      "claimed cm' = claimed cm - {i..<i + n}" "length cm' = length cm"
    using across_laws(2) [OF r(1) rc(1)] by blast
  define pr where "pr = (if {i..<i + n} \<subseteq> claimed cm
      then mi_os_purge env (mi_arena_block_start a i) (mi_arena_block_size n) os
      else mi_os_purge_ex env (mi_arena_block_start a i) (mi_arena_block_size n) False os)"
  define a' where "a' = (if fst pr then a\<lparr>blocks_purge := Some pm', blocks_committed := Some cm'\<rparr> else a\<lparr>blocks_purge := Some pm'\<rparr>)"
  have e: "mi_arena_purge env a i n os = Some (a', snd pr)"
    unfolding mi_arena_purge_def cm(1) ok(2) prod.case option.case Let_def across_laws(3) [OF r(1) rc(1)]
      Option.bind.bind_lunit pr_def [symmetric]
    using pm'(1) cm'(1) by (cases pr) (simp add: a'_def)
  have "arena_ok a'" using ok cm pm'(3) cm'(3) by (simp add: arena_ok_def a'_def)
  moreover have "gave_up_within os (snd pr) (block_bytes a {i..<i + n})"
    unfolding pr_def block_range [symmetric] using purge_within purge_ex_within by simp
  ultimately show ?thesis using e ok(2) cm(1) pm'(2) cm'(2)
    by (intro exI [of _ a'] exI [of _ "snd pr"]) (auto simp: a'_def same_area_def purge_blocks_def committed_blocks_def)
qed

lemma bit_test: "k < 64 \<Longrightarrow> (w :: usize) AND push_bit k 1 \<noteq> 0 \<longleftrightarrow> bit w k"
  by (auto simp: word_and_eq_zero_iff bit_exp_iff)

lemma count_run_spec:
  assumes "b + n \<le> e" "e \<le> 64"
  shows "\<exists>m. mi_count_run w e b n = n + m \<and> b + (n + m) \<le> e \<and> (\<forall>j. n \<le> j \<and> j < n + m \<longrightarrow> bit w (b + j))
    \<and> (b + (n + m) < e \<longrightarrow> \<not> bit w (b + (n + m)))"
  using assms
proof (induction w e b n rule: mi_count_run.induct)
  case (1 w e b n)
  show ?case
  proof (cases "b + n < e \<and> w AND push_bit (b + n) 1 \<noteq> 0")
    case False
    then have "mi_count_run w e b n = n" by (subst mi_count_run.simps) (rule if_not_P)
    then show ?thesis using False 1(2,3) bit_test [of "b + n" w] by (intro exI [of _ 0]) auto
  next
    case True
    then obtain m where m: "mi_count_run w e b (n + 1) = n + 1 + m" "b + (n + 1 + m) \<le> e"
        "\<forall>j. n + 1 \<le> j \<and> j < n + 1 + m \<longrightarrow> bit w (b + j)" "b + (n + 1 + m) < e \<longrightarrow> \<not> bit w (b + (n + 1 + m))"
      using 1 by auto
    have "bit w (b + n)" using True bit_test [of "b + n" w] 1(3) by auto
    then have "\<forall>j. n \<le> j \<and> j < n + Suc m \<longrightarrow> bit w (b + j)" using m(3) le_less_Suc_eq
      by (metis Suc_eq_plus1 add_Suc_right add_Suc_shift le_antisym not_less_eq_eq)
    then show ?thesis using m True by (intro exI [of _ "Suc m"]) (simp add: mi_count_run.simps [of w e b n])
  qed
qed


text \<open>The bits of field i from b on that the word w has.\<close>

definition field_bits :: "nat \<Rightarrow> usize \<Rightarrow> nat \<Rightarrow> nat \<Rightarrow> nat set" where
  "field_bits i w b e = {64 * i + k | k. b \<le> k \<and> k < e \<and> bit w k}"

text \<open>What one purge of a part of an arena may do.\<close>

definition purges :: "mi_arena \<Rightarrow> mi_os \<Rightarrow> nat set \<Rightarrow> mi_arena \<Rightarrow> mi_os \<Rightarrow> bool" where
  "purges a os A a' os' \<longleftrightarrow> gave_up_within os os' (block_bytes a A) \<and> arena_ok a' \<and> same_area a a' \<and> blocks_inuse a' = blocks_inuse a \<and> blocks_purge a' \<noteq> None
     \<and> purge_blocks a' = purge_blocks a - A
     \<and> committed_blocks a - A \<subseteq> committed_blocks a' \<and> committed_blocks a' \<subseteq> committed_blocks a"

lemma purges_nothing: "arena_ok a \<Longrightarrow> blocks_purge a \<noteq> None \<Longrightarrow> purges a os {} a os"
  by (simp add: purges_def gave_up_refl)

lemma purges_trans:
  assumes "purges a os A b os1" "purges b os1 B c os2"
  shows "purges a os (A \<union> B) c os2"
proof -
  have "arena_start b = arena_start a" using assms(1) by (simp add: purges_def same_area_def)
  then have "gave_up_within os1 os2 (block_bytes a B)" using assms(2) by (simp add: purges_def)
  then have "gave_up_within os os2 (block_bytes a (A \<union> B))"
    using assms(1) by (auto simp: purges_def chunk_bytes_Un intro: gave_up_trans)
  then show ?thesis using assms same_area_trans [of a b c] unfolding purges_def by auto
qed

lemma arena_purge_range_masks:
  assumes "arena_ok a" "blocks_purge a \<noteq> None" "i < field_count a" "e \<le> 64"
  shows "\<exists>r a' os'. mi_arena_purge_range_loop env a i b e bitlen w all os = Some (r, a', os') \<and> purges a os (field_bits i w b e) a' os'"
  using assms
proof (induction "e - b" arbitrary: a b all os rule: less_induct)
  case less
  show ?case
  proof (cases "b < e")
    case False
    then have "field_bits i w b e = {}" by (auto simp: field_bits_def)
    then show ?thesis using False less.prems purges_nothing
      by (subst mi_arena_purge_range_loop.simps) simp
  next
    case True
    define n where "n = mi_count_run w e b 0"
    have n: "b + n \<le> e" "\<forall>j < n. bit w (b + j)" "b + n < e \<longrightarrow> \<not> bit w (b + n)"
      using count_run_spec [of b 0 e w] True less.prems(4) by (auto simp: n_def)
    define R where "R = {64 * i + b..<64 * i + b + n}"
    obtain a1 os1 where 1: "(if n > 0 then do {
               (arena, os) \<leftarrow> mi_arena_purge env a (mi_bitmap_index_create i b) n os;
               Some (if n = bitlen then True else all, arena, os) }
             else Some (all, a, os)) = Some (if n > 0 \<and> n = bitlen then True else all, a1, os1)" "purges a os R a1 os1"
    proof (cases "n > 0")
      case False
      then show ?thesis using that purges_nothing [OF less.prems(1,2)] by (simp add: R_def)
    next
      case pos: True
      have "64 * i + b + n \<le> 64 * field_count a" using less.prems(3,4) n(1) by linarith
      then obtain a1 os1 where "mi_arena_purge env a (64 * i + b) n os = Some (a1, os1)" "arena_ok a1" "same_area a a1"
          "blocks_inuse a1 = blocks_inuse a" "blocks_purge a1 \<noteq> None" "purge_blocks a1 = purge_blocks a - R"
          "committed_blocks a - R \<subseteq> committed_blocks a1" "committed_blocks a1 \<subseteq> committed_blocks a"
          "gave_up_within os os1 (block_bytes a R)"
        using arena_purge_masks [OF less.prems(1) _ pos, of _ "64 * i + b" env os] less.prems(2) unfolding R_def by auto
      then show ?thesis using that [of a1 os1] pos
        by (simp add: mi_bitmap_index_create_def purges_def mult.commute)
    qed
    have a1: "arena_ok a1" "blocks_purge a1 \<noteq> None" "i < field_count a1"
      using 1(2) less.prems(3) by (auto simp: purges_def same_area_def)
    have "e - (b + (n + 1)) < e - b" using True by simp
    then obtain r a2 os2 where 2: "mi_arena_purge_range_loop env a1 i (b + (n + 1)) e bitlen w
          (if n > 0 \<and> n = bitlen then True else all) os1 = Some (r, a2, os2)" "purges a1 os1 (field_bits i w (b + (n + 1)) e) a2 os2"
      using less.hyps a1 less.prems(4) by blast
    have "field_bits i w b e = R \<union> field_bits i w (b + (n + 1)) e"
    proof
      show "field_bits i w b e \<subseteq> R \<union> field_bits i w (b + (n + 1)) e"
      proof
        fix x assume "x \<in> field_bits i w b e"
        then obtain k where k: "x = 64 * i + k" "b \<le> k" "k < e" "bit w k" by (auto simp: field_bits_def)
        have "k \<noteq> b + n" using n(3) k(3,4) by auto
        then show "x \<in> R \<union> field_bits i w (b + (n + 1)) e" using k by (cases "k < b + n") (auto simp: R_def field_bits_def)
      qed
      have "x \<in> field_bits i w b e" if "x \<in> R" for x
      proof -
        have "x = 64 * i + (b + (x - (64 * i + b)))" "x - (64 * i + b) < n" using that by (auto simp: R_def)
        then show ?thesis using n(1,2) unfolding field_bits_def by force
      qed
      then show "R \<union> field_bits i w (b + (n + 1)) e \<subseteq> field_bits i w b e" by (auto simp: field_bits_def)
    qed
    then have "purges a os (field_bits i w b e) a2 os2" using purges_trans [OF 1(2) 2(2)] by simp
    moreover have "mi_arena_purge_range_loop env a i b e bitlen w all os = Some (r, a2, os2)"
      using True 1(1) 2(1) by (subst mi_arena_purge_range_loop.simps) (simp add: n_def [symmetric] Let_def)
    ultimately show ?thesis by blast
  qed
qed

lemma claim_longest_spec:
  assumes "bi mod 64 + bitlen \<le> 64" "bi div 64 < length bm"
  shows "\<exists>n bm'. mi_claim_longest bm bitlen bi = Some (n, bm') \<and> n \<le> bitlen \<and> length bm' = length bm
    \<and> claimed bm \<inter> {bi..<bi + n} = {} \<and> claimed bm' = claimed bm \<union> {bi..<bi + n} \<and> (n < bitlen \<longrightarrow> bi + n \<in> claimed bm)"
  using assms
proof (induction bitlen)
  case 0 then show ?case by simp
next
  case (Suc m)
  obtain bm1 where 1: "mi_bitmap_try_claim bm (Suc m) bi = Some (claimed bm \<inter> {bi..<bi + Suc m} = {}, bm1)"
      "claimed bm1 = (if claimed bm \<inter> {bi..<bi + Suc m} = {} then claimed bm \<union> {bi..<bi + Suc m} else claimed bm)"
      "length bm1 = length bm"
    using mi_bitmap_try_claim_spec [OF Suc.prems] by blast
  show ?case
  proof (cases "claimed bm \<inter> {bi..<bi + Suc m} = {}")
    case True
    then show ?thesis using 1 by (intro exI [of _ "Suc m"] exI [of _ bm1]) simp
  next
    case False
    then have same: "bm1 = bm" using 1 claimed_inject by simp
    obtain n bm' where n: "mi_claim_longest bm m bi = Some (n, bm')" "n \<le> m" "length bm' = length bm"
      "claimed bm \<inter> {bi..<bi + n} = {}" "claimed bm' = claimed bm \<union> {bi..<bi + n}" "n < m \<longrightarrow> bi + n \<in> claimed bm"
      using Suc by auto
    have "bi + n \<in> claimed bm"
    proof (cases "n < m")
      case False
      then have "n = m" using n(2) by simp
      then have "{bi..<bi + Suc m} = {bi..<bi + n} \<union> {bi + n}" by auto
      then show ?thesis using \<open>claimed bm \<inter> {bi..<bi + Suc m} \<noteq> {}\<close> n(4) by auto
    qed (use n(6) in simp)
    then show ?thesis using n 1(1) same False by (intro exI [of _ n] exI [of _ bm']) simp
  qed
qed

lemma claimed_field: "i < length bm \<Longrightarrow> k < 64 \<Longrightarrow> 64 * i + k \<in> claimed bm \<longleftrightarrow> bit (bm ! i) k"
  by (simp add: claimed_iff)

abbreviation field_from :: "nat \<Rightarrow> nat \<Rightarrow> nat set" where
  "field_from i b \<equiv> {64 * i + b..<64 * i + 64}"

lemma arena_try_purge_field_masks:
  assumes "arena_ok a" "blocks_purge a \<noteq> None" "i < field_count a"
    "\<forall>k. b \<le> k \<and> k < 64 \<longrightarrow> (bit w k \<longleftrightarrow> 64 * i + k \<in> purge_blocks a)"
  shows "\<exists>any' full' a' os'. mi_arena_try_purge_field env a i b w any full os = Some (any', full', a', os')
    \<and> purges a os (field_from i b \<inter> purge_blocks a - claimed (blocks_inuse a)) a' os'"
  using assms
proof (induction "64 - b" arbitrary: a b w any full os rule: less_induct)
  case less
  note ok = less.prems(1) and pu = less.prems(2) and i = less.prems(3) and w = less.prems(4)
  show ?case
  proof (cases "b < 64")
    case False
    then have "field_from i b = {}" by auto
    then show ?thesis using False purges_nothing [OF ok pu] by (subst mi_arena_try_purge_field.simps) simp
  next
    case True
    define n0 where "n0 = mi_count_run w 64 b 0"
    have n0: "b + n0 \<le> 64" "\<forall>j < n0. bit w (b + j)" "b + n0 < 64 \<longrightarrow> \<not> bit w (b + n0)"
      using count_run_spec [of b 0 64 w] True by (auto simp: n0_def)
    have len: "length (blocks_inuse a) = field_count a" using ok by (simp add: arena_ok_def)
    have bi: "(64 * i + b) mod 64 + n0 \<le> 64" "(64 * i + b) div 64 < length (blocks_inuse a)" using True n0(1) len i by simp_all
    obtain n inuse where c: "mi_claim_longest (blocks_inuse a) n0 (64 * i + b) = Some (n, inuse)" "n \<le> n0"
        "length inuse = length (blocks_inuse a)" "claimed (blocks_inuse a) \<inter> {64 * i + b..<64 * i + b + n} = {}"
        "claimed inuse = claimed (blocks_inuse a) \<union> {64 * i + b..<64 * i + b + n}"
        "n < n0 \<longrightarrow> 64 * i + b + n \<in> claimed (blocks_inuse a)"
      using claim_longest_spec [OF bi] by blast
    define R where "R = {64 * i + b..<64 * i + b + n}"
    have RP: "R \<subseteq> purge_blocks a"
    proof
      fix x assume "x \<in> R"
      then have x: "x = 64 * i + (b + (x - (64 * i + b)))" "x - (64 * i + b) < n" by (auto simp: R_def)
      then show "x \<in> purge_blocks a" using n0(1,2) w c(2)
        by (metis add_less_cancel_left le_add1 order_less_le_trans)
    qed
    have stop: "64 * i + (b + n) \<notin> purge_blocks a - claimed (blocks_inuse a)" if "b + n < 64"
    proof (cases "n < n0")
      case True then show ?thesis using c(6) by (simp add: add.assoc)
    next
      case False
      then have "n = n0" using c(2) by simp
      then show ?thesis using n0(3) w that by auto
    qed
    let ?a0 = "a\<lparr>blocks_inuse := inuse\<rparr>"
    have ok0: "arena_ok ?a0" using ok c(3,5) by (auto simp: arena_ok_def)
    obtain w' any1 full1 a1 os1 where 1:
      "(if n > 0 then do {
               purge \<leftarrow> (case blocks_purge ?a0 of Some bm \<Rightarrow> load bm i | None \<Rightarrow> None);
               (all_purged, arena, os) \<leftarrow> mi_arena_purge_range env ?a0 i b n purge os;
               (_, inuse) \<leftarrow> mi_bitmap_unclaim (blocks_inuse arena) n (64 * i + b);
               Some (purge, True, if \<not> all_purged then False else full, arena\<lparr>blocks_inuse := inuse\<rparr>, os) }
             else Some (w, any, full, ?a0, os)) = Some (w', any1, full1, a1, os1)"
      "purges a os R a1 os1" "\<forall>k. b + (n + 1) \<le> k \<and> k < 64 \<longrightarrow> (bit w' k \<longleftrightarrow> 64 * i + k \<in> purge_blocks a)"
    proof (cases "n > 0")
      case False
      then have "inuse = blocks_inuse a" using c(3,5) claimed_inject by simp
      then have "?a0 = a" by simp
      then show ?thesis using that [of w any full a os] False purges_nothing [OF ok pu] w by (simp add: R_def)
    next
      case pos: True
      obtain pm where pm: "blocks_purge a = Some pm" "length pm = field_count a" using ok pu by (auto simp: arena_ok_def)
      have ld: "load pm i = Some (pm ! i)" using pm(2) i by (simp add: load_def)
      obtain r a1 os1 where p: "mi_arena_purge_range_loop env ?a0 i b (b + n) n (pm ! i) False os = Some (r, a1, os1)"
          "purges ?a0 os (field_bits i (pm ! i) b (b + n)) a1 os1"
        using arena_purge_range_masks [OF ok0, of i "b + n" env b n "pm ! i" False os] pu i n0(1) c(2) by auto
      have fb: "field_bits i (pm ! i) b (b + n) = R"
      proof
        show "field_bits i (pm ! i) b (b + n) \<subseteq> R" by (auto simp: field_bits_def R_def)
        show "R \<subseteq> field_bits i (pm ! i) b (b + n)"
        proof
          fix x assume x: "x \<in> R"
          define k where "k = x - 64 * i"
          have k: "x = 64 * i + k" "b \<le> k" "k < b + n" "k < 64" using x n0(1) c(2) by (auto simp: R_def k_def)
          have "x \<in> claimed pm" using RP x pm by (auto simp: purge_blocks_def)
          then have "bit (pm ! i) k" using claimed_field [of i pm k] i pm(2) k by simp
          then show "x \<in> field_bits i (pm ! i) b (b + n)" using k by (auto simp: field_bits_def)
        qed
      qed
      have in1: "blocks_inuse a1 = inuse" using p(2) by (simp add: purges_def)
      obtain inuse2 where u: "mi_bitmap_unclaim inuse n (64 * i + b) = Some (R \<subseteq> claimed inuse, inuse2)"
          "claimed inuse2 = claimed inuse - R" "length inuse2 = length inuse"
        using mi_bitmap_unclaim_spec [of "64 * i + b" n inuse] bi c(2,3) n0(1) unfolding R_def by auto
      have restored: "inuse2 = blocks_inuse a"
        by (rule claimed_inject) (use u c(3,4,5) in \<open>auto simp: R_def\<close>)
      let ?a2 = "a1\<lparr>blocks_inuse := inuse2\<rparr>"
      have "purges a os R ?a2 os1"
        using p(2) ok restored len unfolding purges_def fb
        by (auto simp: arena_ok_def same_area_def purge_blocks_def committed_blocks_def)
      moreover have "\<forall>k. b + (n + 1) \<le> k \<and> k < 64 \<longrightarrow> (bit (pm ! i) k \<longleftrightarrow> 64 * i + k \<in> purge_blocks a)"
        using claimed_field [of i pm] i pm by (simp add: purge_blocks_def)
      ultimately show ?thesis using that [of "pm ! i" True "if \<not> r then False else full" ?a2 os1] pos pm(1) ld p(1) in1 u(1)
        by (simp add: mi_arena_purge_range_def)
    qed
    have a1: "arena_ok a1" "blocks_purge a1 \<noteq> None" "i < field_count a1" "blocks_inuse a1 = blocks_inuse a"
        "purge_blocks a1 = purge_blocks a - R"
      using 1(2) i by (auto simp: purges_def same_area_def)
    have w1: "\<forall>k. b + (n + 1) \<le> k \<and> k < 64 \<longrightarrow> (bit w' k \<longleftrightarrow> 64 * i + k \<in> purge_blocks a1)"
      using 1(3) unfolding a1(5) by (auto simp: R_def)
    have "64 - (b + (n + 1)) < 64 - b" using True by simp
    then obtain any2 full2 a2 os2 where 2: "mi_arena_try_purge_field env a1 i (b + (n + 1)) w' any1 full1 os1 = Some (any2, full2, a2, os2)"
        "purges a1 os1 (field_from i (b + (n + 1)) \<inter> purge_blocks a1 - claimed (blocks_inuse a1)) a2 os2"
      using less.hyps a1(1-3) w1 by blast
    have U: "R \<union> (field_from i (b + (n + 1)) \<inter> purge_blocks a1 - claimed (blocks_inuse a1))
        = field_from i b \<inter> purge_blocks a - claimed (blocks_inuse a)"
    proof (rule set_eqI)
      fix x
      have R1: "x \<in> R \<longleftrightarrow> 64 * i + b \<le> x \<and> x < 64 * i + b + n" by (simp add: R_def)
      have R2: "x \<in> R \<Longrightarrow> x \<notin> claimed (blocks_inuse a)" using c(4) unfolding R_def by blast
      have S: "x = 64 * i + (b + n) \<Longrightarrow> b + n < 64 \<Longrightarrow> x \<notin> purge_blocks a - claimed (blocks_inuse a)" using stop by simp
      have le: "b + n \<le> 64" using n0(1) c(2) by simp
      show "x \<in> R \<union> (field_from i (b + (n + 1)) \<inter> purge_blocks a1 - claimed (blocks_inuse a1))
          \<longleftrightarrow> x \<in> field_from i b \<inter> purge_blocks a - claimed (blocks_inuse a)"
      proof (cases "x \<in> R")
        case True
        then show ?thesis using RP R1 R2 le by auto
      next
        case False
        then have "64 * i + (b + (n + 1)) \<le> x \<longleftrightarrow> 64 * i + b \<le> x \<and> x \<noteq> 64 * i + (b + n)" using R1 by auto
        then show ?thesis using False S a1(4,5) by auto
      qed
    qed
    have "mi_arena_try_purge_field env a i b w any full os = Some (any2, full2, a2, os2)"
      using True c(1) 1(1) 2(1)
      by (subst mi_arena_try_purge_field.simps)
        (simp add: n0_def [symmetric] Let_def mi_bitmap_index_create_def mult.commute [of i 64])
    then show ?thesis using purges_trans [OF 1(2) 2(2)] unfolding U by blast
  qed
qed

lemma arena_try_purge_fields_masks:
  assumes "arena_ok a" "blocks_purge a \<noteq> None" "set is \<subseteq> {..<field_count a}"
  shows "\<exists>any' full' a' os'. mi_arena_try_purge_fields env a is any full os = Some (any', full', a', os')
    \<and> purges a os ((\<Union>i \<in> set is. field_from i 0) \<inter> purge_blocks a - claimed (blocks_inuse a)) a' os'"
  using assms
proof (induction "is" arbitrary: a any full os)
  case Nil
  then show ?case using purges_nothing by simp
next
  case (Cons i "is")
  obtain pm where pm: "blocks_purge a = Some pm" "length pm = field_count a" using Cons.prems by (auto simp: arena_ok_def)
  have i: "i < length pm" using Cons.prems(3) pm(2) by simp
  let ?A = "field_from i 0 \<inter> purge_blocks a - claimed (blocks_inuse a)"
  obtain any1 full1 a1 os1 where 1: "(if pm ! i \<noteq> 0 then mi_arena_try_purge_field env a i 0 (pm ! i) any full os
      else Some (any, full, a, os)) = Some (any1, full1, a1, os1)" "purges a os ?A a1 os1"
  proof (cases "pm ! i = 0")
    case True
    have "x \<notin> purge_blocks a" if x: "x \<in> field_from i 0" for x
    proof -
      define k where "k = x - 64 * i"
      have "x = 64 * i + k" "k < 64" using x by (auto simp: k_def)
      then show ?thesis using claimed_field [OF i] True pm by (simp add: purge_blocks_def)
    qed
    then have e: "?A = {}" by blast
    show ?thesis
    proof (rule that [of any full a os])
      show "purges a os ?A a os" unfolding e by (rule purges_nothing [OF Cons.prems(1,2)])
    qed (use True in simp)
  next
    case False
    have "\<forall>k. 0 \<le> k \<and> k < 64 \<longrightarrow> (bit (pm ! i) k \<longleftrightarrow> 64 * i + k \<in> purge_blocks a)"
      using claimed_field [OF i] pm by (simp add: purge_blocks_def)
    then show ?thesis
      using arena_try_purge_field_masks [OF Cons.prems(1,2), of i 0 "pm ! i" env any full os] False that i pm(2) by auto
  qed
  have a1: "arena_ok a1" "blocks_purge a1 \<noteq> None" "set is \<subseteq> {..<field_count a1}"
      "blocks_inuse a1 = blocks_inuse a" "purge_blocks a1 = purge_blocks a - ?A"
    using 1(2) Cons.prems(3) by (auto simp: purges_def same_area_def)
  obtain any2 full2 a2 os2 where 2: "mi_arena_try_purge_fields env a1 is any1 full1 os1 = Some (any2, full2, a2, os2)"
      "purges a1 os1 ((\<Union>i \<in> set is. field_from i 0) \<inter> purge_blocks a1 - claimed (blocks_inuse a1)) a2 os2"
    using Cons.IH [OF a1(1-3)] by blast
  have "?A \<union> ((\<Union>i \<in> set is. field_from i 0) \<inter> purge_blocks a1 - claimed (blocks_inuse a1))
      = (\<Union>i \<in> set (i # is). field_from i 0) \<inter> purge_blocks a - claimed (blocks_inuse a)"
    unfolding a1(4,5) by auto
  then have "purges a os ((\<Union>i \<in> set (i # is). field_from i 0) \<inter> purge_blocks a - claimed (blocks_inuse a)) a2 os2"
    using purges_trans [OF 1(2) 2(2)] by simp
  moreover have "mi_arena_try_purge_fields env a (i # is) any full os = Some (any2, full2, a2, os2)"
    using pm(1) i 1(1) 2(1) by (simp add: load_def)
  ultimately show ?case by blast
qed

lemma purge_blocks_bound: "arena_ok a \<Longrightarrow> purge_blocks a \<subseteq> (\<Union>i \<in> set [0..<field_count a]. field_from i 0)"
proof
  fix x assume ok: "arena_ok a" and x: "x \<in> purge_blocks a"
  then obtain pm where "blocks_purge a = Some pm" "length pm = field_count a" "x \<in> claimed pm"
    by (auto simp: purge_blocks_def arena_ok_def split: option.splits)
  then have "x div 64 < field_count a" using claimed_iff by simp
  then show "x \<in> (\<Union>i \<in> set [0..<field_count a]. field_from i 0)" by (auto intro!: bexI [of _ "x div 64"])
qed

lemma expire_blocks:
  "committed_blocks (a\<lparr>arena_purge_expire := t\<rparr>) = committed_blocks a"
  "purge_blocks (a\<lparr>arena_purge_expire := t\<rparr>) = purge_blocks a"
  by (cases "blocks_committed a"; simp add: committed_blocks_def purge_blocks_def)+

lemma arena_try_purge_masks:
  assumes ok: "arena_ok a"
  shows "\<exists>any a' os'. mi_arena_try_purge env a now force os = Some (any, a', os') \<and> arena_ok a' \<and> same_area a a'
    \<and> blocks_inuse a' = blocks_inuse a
    \<and> committed_blocks a - (purge_blocks a - claimed (blocks_inuse a)) \<subseteq> committed_blocks a'
    \<and> committed_blocks a' \<subseteq> committed_blocks a
    \<and> (purge_blocks a' = purge_blocks a \<or> purge_blocks a' = purge_blocks a \<inter> claimed (blocks_inuse a))
    \<and> (arena_purge_expire a \<noteq> 0 \<and> (force \<or> arena_purge_expire a \<le> now)
        \<longrightarrow> purge_blocks a' = purge_blocks a \<inter> claimed (blocks_inuse a))
    \<and> gave_up_within os os' (block_bytes a (purge_blocks a - claimed (blocks_inuse a)))"
proof (cases "is_pinned (arena_memid a) \<or> blocks_purge a = None \<or> arena_purge_expire a = 0 \<or> \<not> force \<and> now < arena_purge_expire a")
  case True
  then have "mi_arena_try_purge env a now force os = Some (False, a, os)" by (auto simp: mi_arena_try_purge_def Let_def)
  moreover have "is_pinned (arena_memid a) \<or> blocks_purge a = None \<Longrightarrow> purge_blocks a = {}"
    using ok by (auto simp: purge_blocks_def arena_ok_def)
  ultimately show ?thesis using ok True gave_up_refl by auto
next
  case False
  let ?a0 = "a\<lparr>arena_purge_expire := 0\<rparr>"
  have ok0: "arena_ok ?a0" "blocks_purge ?a0 \<noteq> None" "set [0..<field_count a] \<subseteq> {..<field_count ?a0}"
    using ok False by (auto simp: arena_ok_def)
  obtain any full a1 os1 where 1: "mi_arena_try_purge_fields env ?a0 [0..<field_count a] False True os = Some (any, full, a1, os1)"
      "purges ?a0 os ((\<Union>i \<in> set [0..<field_count a]. field_from i 0) \<inter> purge_blocks ?a0 - claimed (blocks_inuse ?a0)) a1 os1"
    using arena_try_purge_fields_masks [OF ok0, of env False True os] by auto
  define A where "A = purge_blocks a - claimed (blocks_inuse a)"
  have A: "(\<Union>i \<in> set [0..<field_count a]. field_from i 0) \<inter> purge_blocks ?a0 - claimed (blocks_inuse ?a0) = A"
  proof -
    have "purge_blocks ?a0 = purge_blocks a" by (simp add: purge_blocks_def)
    then show ?thesis using purge_blocks_bound [OF ok] unfolding A_def by auto
  qed
  define a' where "a' = (if \<not> full \<and> arena_purge_expire a1 = 0
      then a1\<lparr>arena_purge_expire := clock env (os_log os1) + mi_arena_purge_delay env\<rparr> else a1)"
  have e: "mi_arena_try_purge env a now force os = Some (any, a', os1)"
  proof -
    have f: "\<not> (is_pinned (arena_memid a) \<or> blocks_purge a = None)" "arena_purge_expire a \<noteq> 0"
      "\<not> (\<not> force \<and> arena_purge_expire a > now)" using False by blast+
    show ?thesis unfolding mi_arena_try_purge_def Let_def if_not_P [OF f(1)] if_not_P [OF f(2)] if_not_P [OF f(3)] 1(1)
      by (simp add: a'_def)
  qed
  have p: "arena_ok a1" "same_area a a1" "blocks_inuse a1 = blocks_inuse a" "purge_blocks a1 = purge_blocks a - A"
      "committed_blocks a - A \<subseteq> committed_blocks a1" "committed_blocks a1 \<subseteq> committed_blocks a"
      "gave_up_within os os1 (block_bytes a A)"
  proof -
    have u: "purge_blocks ?a0 = purge_blocks a" "committed_blocks ?a0 = committed_blocks a" "blocks_inuse ?a0 = blocks_inuse a"
      "same_area ?a0 a1 = same_area a a1" "arena_start ?a0 = arena_start a"
      by (simp_all add: purge_blocks_def committed_blocks_def same_area_def split: option.splits)
    show "arena_ok a1" "same_area a a1" "blocks_inuse a1 = blocks_inuse a" "purge_blocks a1 = purge_blocks a - A"
      "committed_blocks a - A \<subseteq> committed_blocks a1" "committed_blocks a1 \<subseteq> committed_blocks a"
      "gave_up_within os os1 (block_bytes a A)"
      using 1(2) [unfolded purges_def u A [unfolded u]] by (simp_all only: simp_thms)
  qed
  have a': "arena_ok a' = arena_ok a1" "same_area a a' = same_area a a1" "blocks_inuse a' = blocks_inuse a1"
      "purge_blocks a' = purge_blocks a1" "committed_blocks a' = committed_blocks a1"
    by (simp_all add: a'_def arena_ok_def same_area_def expire_blocks)
  have "purge_blocks a - A = purge_blocks a \<inter> claimed (blocks_inuse a)" by (auto simp: A_def)
  then show ?thesis using e p unfolding a' [symmetric] A_def [symmetric] by (intro exI [of _ any] exI [of _ a'] exI [of _ os1]) auto
qed

section \<open>Allocation\<close>

lemma arena_alloc_at:
  assumes ok: "arena_ok a" and n: "0 < n" "n < 2 ^ 63"
  shows "\<exists>p mid a' os'. mi_arena_try_alloc_at env a n commit os = Some ((p, mid), a', os') \<and> arena_ok a' \<and> same_area a a'
    \<and> ((p = 0 \<and> mid = mi_memid_none \<and> a' = a \<and> os' = os)
       \<or> (\<exists>i. i + n \<le> block_count a \<and> claimed (blocks_inuse a) \<inter> {i..<i + n} = {}
            \<and> claimed (blocks_inuse a') = claimed (blocks_inuse a) \<union> {i..<i + n}
            \<and> p = arena_start a + i * MI_ARENA_BLOCK_SIZE
            \<and> memkind mid = MI_MEM_ARENA \<and> mem_arena_id mid = arena_id a \<and> mem_arena_block_index mid = i
            \<and> purge_blocks a' = purge_blocks a - {i..<i + n} \<and> committed_blocks a \<subseteq> committed_blocks a'
            \<and> (initially_committed mid \<longrightarrow> {i..<i + n} \<subseteq> committed_blocks a')
            \<and> (0 < arena_start a \<and> 0 < page_size env \<longrightarrow> did_commit os os'
                 (if initially_committed mid then block_bytes a ({i..<i + n} - committed_blocks a) else {}))))"
proof -
  let ?bm = "blocks_inuse a"
  have len: "length ?bm = field_count a" "?bm \<noteq> []" using ok by (auto simp: arena_ok_def)
  obtain r bm' where s: "mi_bitmap_try_find_from_claim_across (\<lambda>_ _ b. b) ?bm (field_count a) 0 n = Some (r, bm')"
      "length bm' = field_count a"
      "case r of None \<Rightarrow> bm' = ?bm
       | Some i \<Rightarrow> i + n \<le> 64 * length ?bm \<and> claimed ?bm \<inter> {i..<i + n} = {} \<and> claimed bm' = claimed ?bm \<union> {i..<i + n}"
    using search_sound [OF len(2) n, of 0] len(1) by auto
  show ?thesis
  proof (cases r)
    case None
    then have "mi_arena_try_alloc_at env a n commit os = Some ((0, mi_memid_none), a, os)"
      using s by (simp add: mi_arena_try_alloc_at_def mi_arena_try_claim_def)
    then show ?thesis using ok by auto
  next
    case (Some i)
    have i: "i + n \<le> 64 * field_count a" "claimed ?bm \<inter> {i..<i + n} = {}" "claimed bm' = claimed ?bm \<union> {i..<i + n}"
      using s Some len by auto
    have inb: "i + n \<le> block_count a"
    proof (rule ccontr)
      assume "\<not> i + n \<le> block_count a"
      then have "i + n - 1 \<in> {block_count a..<64 * field_count a}" using i(1) n(1) by auto
      then have "i + n - 1 \<in> claimed ?bm" using ok unfolding arena_ok_def by blast
      then show False using i(2) n(1) by auto
    qed
    define a1 where "a1 = a\<lparr>blocks_inuse := bm', search_idx := mi_bitmap_index_field i\<rparr>"
    have cl: "mi_arena_try_claim a n = Some (Some i, a1)" using s(1) Some by (simp add: mi_arena_try_claim_def a1_def)
    let ?mid0 = "(mi_memid_create_arena (arena_id a) (exclusive a) i)\<lparr>is_pinned := is_pinned (arena_memid a)\<rparr>"
    obtain pm where pm: "(case blocks_purge a of None \<Rightarrow> Some a1 | Some bm \<Rightarrow> do {
          (_, bm) \<leftarrow> mi_bitmap_unclaim_across bm n i; Some (a1\<lparr>blocks_purge := Some bm\<rparr>) }) = Some (a1\<lparr>blocks_purge := pm\<rparr>)"
        "pm = None \<longleftrightarrow> blocks_purge a = None" "\<forall>x. pm = Some x \<longrightarrow> length x = field_count a"
        "(case pm of None \<Rightarrow> {} | Some x \<Rightarrow> claimed x) = purge_blocks a - {i..<i + n}"
    proof (cases "blocks_purge a")
      case None
      then show ?thesis using that [of None] by (simp add: a1_def purge_blocks_def)
    next
      case (Some q)
      then have "length q = field_count a" using ok by (simp add: arena_ok_def)
      then obtain q' where "mi_bitmap_unclaim_across q n i = Some ({i..<i + n} \<subseteq> claimed q, q')"
          "claimed q' = claimed q - {i..<i + n}" "length q' = field_count a"
        using across_laws(2) [OF n(1), of i q] i(1) by auto
      then show ?thesis using that [of "Some q'"] Some by (simp add: purge_blocks_def)
    qed
    define a2 where "a2 = a1\<lparr>blocks_purge := pm\<rparr>"
    obtain mid2 d where d: "(if initially_zero (arena_memid a) then do {
          (all_zero, _, bm) \<leftarrow> mi_bitmap_claim_across (blocks_dirty a) n i;
          Some (?mid0\<lparr>initially_zero := all_zero\<rparr>, a2\<lparr>blocks_dirty := bm\<rparr>) } else Some (?mid0, a2)) = Some (mid2, a2\<lparr>blocks_dirty := d\<rparr>)"
        "length d = field_count a" "memkind mid2 = MI_MEM_ARENA" "mem_arena_id mid2 = arena_id a" "mem_arena_block_index mid2 = i"
    proof (cases "initially_zero (arena_memid a)")
      case False
      then show ?thesis using that [of ?mid0 "blocks_dirty a"] ok
        by (simp add: a2_def a1_def arena_ok_def mi_memid_create_arena_def mi_memid_create_def)
    next
      case True
      have "length (blocks_dirty a) = field_count a" using ok by (simp add: arena_ok_def)
      then obtain d where "mi_bitmap_claim_across (blocks_dirty a) n i
          = Some (claimed (blocks_dirty a) \<inter> {i..<i + n} = {}, \<not> {i..<i + n} \<subseteq> claimed (blocks_dirty a), d)" "length d = field_count a"
        using across_laws(1) [OF n(1), of i "blocks_dirty a"] i(1) by auto
      then show ?thesis using that [OF _ _ _ _ _, of "?mid0\<lparr>initially_zero := claimed (blocks_dirty a) \<inter> {i..<i + n} = {}\<rparr>" d] True
        by (simp add: mi_memid_create_arena_def mi_memid_create_def)
    qed
    define a3 where "a3 = a2\<lparr>blocks_dirty := d\<rparr>"
    have sel: "blocks_purge a1 = blocks_purge a" "arena_memid a2 = arena_memid a" "blocks_dirty a2 = blocks_dirty a"
       "blocks_committed a3 = blocks_committed a" "mi_arena_block_start a1 i = arena_start a + i * MI_ARENA_BLOCK_SIZE"
       "arena_id a1 = arena_id a" "exclusive a1 = exclusive a" "arena_memid a1 = arena_memid a"
      by (simp_all add: a3_def a2_def a1_def mi_arena_block_start_def mi_arena_block_size_def)
    define p where "p = arena_start a + i * MI_ARENA_BLOCK_SIZE"
    define fin where "fin = (case blocks_committed a of
           None \<Rightarrow> Some ((p, mid2\<lparr>initially_committed := True\<rparr>), a3, os)
         | Some bm \<Rightarrow>
             if commit then do {
               let mid = mid2\<lparr>initially_committed := True\<rparr>;
               (_, any_uncommitted, bm) \<leftarrow> mi_bitmap_claim_across bm n i;
               let arena = a3\<lparr>blocks_committed := Some bm\<rparr>;
               if any_uncommitted then
                 (case mi_os_commit env p (mi_arena_block_size n) os of ((ok, commit_zero), os) \<Rightarrow>
                    if \<not> ok then Some ((p, mid\<lparr>initially_committed := False\<rparr>), arena, os)
                    else if commit_zero then Some ((p, mid\<lparr>initially_zero := True\<rparr>), arena, os)
                    else Some ((p, mid), arena, os))
               else Some ((p, mid), arena, os) }
             else do {
               c \<leftarrow> mi_bitmap_is_claimed_across bm n i;
               Some ((p, mid2\<lparr>initially_committed := c\<rparr>), a3, os) })"
    have e: "mi_arena_try_alloc_at env a n commit os = fin"
      unfolding mi_arena_try_alloc_at_def cl Option.bind.bind_lunit prod.case option.case Let_def sel pm(1)
        a2_def [symmetric] d(1) a3_def [symmetric] p_def [symmetric] fin_def by (rule refl)
    obtain mid os' c where f: "fin = Some ((p, mid), a3\<lparr>blocks_committed := c\<rparr>, os')"
        "memkind mid = MI_MEM_ARENA" "mem_arena_id mid = arena_id a" "mem_arena_block_index mid = i"
        "c = None \<longleftrightarrow> blocks_committed a = None" "\<forall>x. c = Some x \<longrightarrow> length x = field_count a"
        "committed_blocks a \<subseteq> committed_blocks (a3\<lparr>blocks_committed := c\<rparr>)"
        "initially_committed mid \<longrightarrow> {i..<i + n} \<subseteq> committed_blocks (a3\<lparr>blocks_committed := c\<rparr>)"
        "0 < arena_start a \<and> 0 < page_size env \<longrightarrow> did_commit os os'
           (if initially_committed mid then block_bytes a ({i..<i + n} - committed_blocks a) else {})"
    proof (cases "blocks_committed a")
      case None
      have "{i..<i + n} \<subseteq> {..<block_count a}" using inb by auto
      moreover from this have e: "{i..<i + n} - committed_blocks a = {}" using None by (simp add: committed_blocks_def)
      have "did_commit os os (block_bytes a ({i..<i + n} - committed_blocks a))"
        unfolding e by (simp add: did_commit_none)
      ultimately show ?thesis using None that [of "mid2\<lparr>initially_committed := True\<rparr>" None os] d(3-5) sel(4)
        by (simp add: fin_def committed_blocks_def a3_def a2_def a1_def)
    next
      case c: (Some q)
      have q: "length q = field_count a" using ok c by (simp add: arena_ok_def)
      obtain q' where q': "mi_bitmap_claim_across q n i = Some (claimed q \<inter> {i..<i + n} = {}, \<not> {i..<i + n} \<subseteq> claimed q, q')"
          "claimed q' = claimed q \<union> {i..<i + n}" "length q' = field_count a"
        using across_laws(1) [OF n(1), of i q] i(1) q by auto
      have same: "a3\<lparr>blocks_committed := Some q\<rparr> = a3" using c sel(4) by simp
      show ?thesis
      proof (cases commit)
        case False
        then have "fin = Some ((p, mid2\<lparr>initially_committed := {i..<i + n} \<subseteq> claimed q\<rparr>), a3\<lparr>blocks_committed := Some q\<rparr>, os)"
          unfolding same using c across_laws(3) [OF n(1), of i q] i(1) q by (simp add: fin_def)
        moreover have "did_commit os os (block_bytes a ({i..<i + n} - committed_blocks a))" if "{i..<i + n} \<subseteq> claimed q"
        proof -
          have e: "{i..<i + n} - committed_blocks a = {}" using c that by (simp add: committed_blocks_def)
          show ?thesis unfolding e by (simp add: did_commit_none)
        qed
        ultimately show ?thesis using c q d(3-5) did_commit_none [of os]
          by (intro that [of "mid2\<lparr>initially_committed := {i..<i + n} \<subseteq> claimed q\<rparr>" "Some q" os]) (auto simp: committed_blocks_def)
      next
        case True
        obtain ok' cz os1 where m: "mi_os_commit env p (mi_arena_block_size n) os = ((ok', cz), os1)" by (metis surj_pair)
        define mid where "mid = (if {i..<i + n} \<subseteq> claimed q then mid2\<lparr>initially_committed := True\<rparr>
           else if \<not> ok' then mid2\<lparr>initially_committed := False\<rparr>
           else if cz then mid2\<lparr>initially_committed := True, initially_zero := True\<rparr> else mid2\<lparr>initially_committed := True\<rparr>)"
        have "fin = Some ((p, mid), a3\<lparr>blocks_committed := Some q'\<rparr>, if {i..<i + n} \<subseteq> claimed q then os else os1)"
          unfolding fin_def c option.case if_P [OF True] q'(1) Let_def Option.bind.bind_lunit prod.case m
          by (simp add: mid_def)
        moreover have "memkind mid = MI_MEM_ARENA" "mem_arena_id mid = arena_id a" "mem_arena_block_index mid = i"
          using d(3-5) by (simp_all add: mid_def)
        moreover have "did_commit os (if {i..<i + n} \<subseteq> claimed q then os else os1)
           (if initially_committed mid then block_bytes a ({i..<i + n} - committed_blocks a) else {})"
          if "0 < arena_start a" "0 < page_size env"
        proof (cases "{i..<i + n} \<subseteq> claimed q")
          case True
          then have e: "{i..<i + n} - committed_blocks a = {}" using c by (simp add: committed_blocks_def)
          show ?thesis unfolding e if_P [OF True] by (simp add: did_commit_none)
        next
          case False
          have pe: "p = mi_arena_block_start a i" by (simp add: p_def mi_arena_block_start_def mi_arena_block_size_def)
          have "0 < p" using that(1) by (simp add: p_def)
          then have "did_commit os os1 (if ok' then block_bytes a {i..<i + n} else {})"
            using os_commit_did [OF that(2) _ m] unfolding pe block_range by blast
          moreover have "initially_committed mid = ok'" using False by (simp add: mid_def)
          moreover have "block_bytes a ({i..<i + n} - committed_blocks a) \<subseteq> block_bytes a {i..<i + n}"
            by (rule chunk_bytes_mono) blast
          ultimately show ?thesis using False did_commit_mono [of os os1] by (cases ok') auto
        qed
        ultimately show ?thesis using q'(2,3) c by (intro that [of mid "Some q'"]) (auto simp: committed_blocks_def)
      qed
    qed
    define a4 where "a4 = a3\<lparr>blocks_committed := c\<rparr>"
    have "arena_ok a4" "same_area a a4" "blocks_inuse a4 = bm'" "purge_blocks a4 = purge_blocks a - {i..<i + n}"
      using ok s(2) i(3) pm(2-4) d(2) f(5,6)
      by (auto simp: a4_def a3_def a2_def a1_def arena_ok_def same_area_def purge_blocks_def)
    then show ?thesis
      unfolding e f(1) a4_def [symmetric] using inb i f(2-4,7-9) [folded a4_def] p_def
      by (intro exI [of _ p] exI [of _ mid] exI [of _ a4] exI [of _ os']) auto
  qed
qed

section \<open>Properties\<close>

text \<open>
  C17: Allocating blocks in an arena either fails and changes nothing, or returns the address
  of consecutive blocks inside the arena none of which was in use; exactly these become used,
  none of them stays scheduled for a purge, nothing that was committed is forgotten, and when
  the result says that the memory is committed, every block of it is: it is marked so, and every
  byte of the blocks that were not marked before was committed by successful calls to the operating
  system. No call gives memory up.
\<close>

theorem mi_arena_alloc_sound:
  assumes "arena_ok a" "0 < n" "n < 2 ^ 63" "0 < arena_start a" "0 < page_size env"
  shows "\<exists>p mid a' os'. mi_arena_try_alloc_at env a n commit os = Some ((p, mid), a', os') \<and> arena_ok a'
    \<and> (if p = 0 then a' = a \<and> os' = os
       else let i = mem_arena_block_index mid in
         i + n \<le> block_count a \<and> p = arena_start a + i * MI_ARENA_BLOCK_SIZE
         \<and> claimed (blocks_inuse a) \<inter> {i..<i + n} = {} \<and> claimed (blocks_inuse a') = claimed (blocks_inuse a) \<union> {i..<i + n}
         \<and> purge_blocks a' = purge_blocks a - {i..<i + n} \<and> committed_blocks a \<subseteq> committed_blocks a'
         \<and> (if initially_committed mid
            then {i..<i + n} \<subseteq> committed_blocks a' \<and> did_commit os os' (block_bytes a ({i..<i + n} - committed_blocks a))
            else did_commit os os' {}))"
proof -
  obtain p mid a' os' where r: "mi_arena_try_alloc_at env a n commit os = Some ((p, mid), a', os')" "arena_ok a'"
    "(p = 0 \<and> mid = mi_memid_none \<and> a' = a \<and> os' = os)
       \<or> (\<exists>i. i + n \<le> block_count a \<and> claimed (blocks_inuse a) \<inter> {i..<i + n} = {}
            \<and> claimed (blocks_inuse a') = claimed (blocks_inuse a) \<union> {i..<i + n}
            \<and> p = arena_start a + i * MI_ARENA_BLOCK_SIZE
            \<and> memkind mid = MI_MEM_ARENA \<and> mem_arena_id mid = arena_id a \<and> mem_arena_block_index mid = i
            \<and> purge_blocks a' = purge_blocks a - {i..<i + n} \<and> committed_blocks a \<subseteq> committed_blocks a'
            \<and> (initially_committed mid \<longrightarrow> {i..<i + n} \<subseteq> committed_blocks a')
            \<and> (0 < arena_start a \<and> 0 < page_size env \<longrightarrow> did_commit os os'
                 (if initially_committed mid then block_bytes a ({i..<i + n} - committed_blocks a) else {})))"
    using arena_alloc_at [OF assms(1-3), of env commit os] by (elim exE conjE) (rule that; assumption)
  show ?thesis
    by (intro exI [of _ p] exI [of _ mid] exI [of _ a'] exI [of _ os'])
      (use r assms(4,5) in \<open>auto simp: Let_def\<close>)
qed

text \<open>
  C30: Purging an arena gives memory back to the system only for blocks that are scheduled and
  not in use: every byte that the calls to the operating system decommit or reset belongs to such
  a block. It leaves the blocks in use as they are, and, once the expiration has passed or when
  forced, leaves nothing scheduled but the blocks it had to skip because they are in use.
\<close>

theorem mi_arena_try_purge_free_only:
  assumes "arena_ok a" "arena_purge_expire a \<noteq> 0" "force \<or> arena_purge_expire a \<le> now"
  shows "\<exists>any a' os'. mi_arena_try_purge env a now force os = Some (any, a', os') \<and> arena_ok a' \<and> same_area a a'
    \<and> blocks_inuse a' = blocks_inuse a \<and> purge_blocks a' = purge_blocks a \<inter> claimed (blocks_inuse a)
    \<and> committed_blocks a - (purge_blocks a - claimed (blocks_inuse a)) \<subseteq> committed_blocks a'
    \<and> committed_blocks a' \<subseteq> committed_blocks a
    \<and> gave_up_within os os' (block_bytes a (purge_blocks a - claimed (blocks_inuse a)))"
  using arena_try_purge_masks [OF assms(1), of env now force os] assms(2,3) by auto

text \<open>An arena of three blocks: the first in use, the first two scheduled for a purge.\<close>

definition sample_arena :: mi_arena where
  "sample_arena = \<lparr>arena_id = 1, arena_memid = mi_memid_create_os True True False, arena_start = 2 ^ 30,
     block_count = 3, field_count = 1, meta_size = 176, meta_memid = mi_memid_none, numa_node = -1, exclusive = False,
     is_large = False, search_idx = 0, arena_purge_expire = 5, blocks_dirty = [0], blocks_committed = Some [NOT 0],
     blocks_purge = Some [3], blocks_inuse = [0xFFFFFFFFFFFFFFF9]\<rparr>"

lemma sample_arena_ok: "arena_ok sample_arena"
proof -
  have "{3..<64} \<subseteq> claimed [0xFFFFFFFFFFFFFFF9 :: usize]"
  proof
    fix x :: nat assume x: "x \<in> {3..<64}"
    have "list_all (\<lambda>x. bit (0xFFFFFFFFFFFFFFF9 :: usize) x) [3..<64]" by code_simp
    then have "bit (0xFFFFFFFFFFFFFFF9 :: usize) x" using x unfolding list_all_iff set_upt by (rule bspec)
    then show "x \<in> claimed [0xFFFFFFFFFFFFFFF9 :: usize]" using x by (simp add: claimed_iff)
  qed
  then show ?thesis by (simp add: arena_ok_def sample_arena_def mi_memid_create_os_def mi_memid_create_def)
qed

theorem mi_arena_alloc_sound_witness:
  "\<exists>p mid a' os'. mi_arena_try_alloc_at sample_os sample_arena 2 True sample_st = Some ((p, mid), a', os') \<and> arena_ok a'"
proof -
  have "0 < arena_start sample_arena" "0 < page_size sample_os" by (simp_all add: sample_arena_def sample_os_def)
  then show ?thesis using mi_arena_alloc_sound [OF sample_arena_ok, of 2 sample_os True sample_st] by auto
qed

theorem mi_arena_try_purge_free_only_witness:
  "\<exists>any a' os'. mi_arena_try_purge sample_os sample_arena 5 False sample_st = Some (any, a', os')
     \<and> purge_blocks a' = claimed [3] \<inter> claimed [0xFFFFFFFFFFFFFFF9]"
proof -
  have "arena_purge_expire sample_arena \<noteq> 0" "False \<or> arena_purge_expire sample_arena \<le> 5"
     "purge_blocks sample_arena = claimed [3]" "blocks_inuse sample_arena = [0xFFFFFFFFFFFFFFF9]"
    by (simp_all add: sample_arena_def purge_blocks_def)
  then show ?thesis using mi_arena_try_purge_free_only [OF sample_arena_ok, of False 5 sample_os sample_st] by auto
qed

text \<open>
  The static area for metadata is asked with an alignment that is larger than the area: it is
  never used, and the metadata of every arena comes from the operating system.
\<close>

lemma mi_arena_static_never_used:
  "mi_arena_static_zalloc sz MI_ALIGNMENT_MAX st = ((0, mi_memid_none), st)"
  by (simp add: mi_arena_static_zalloc_def Let_def)


text \<open>
  Destroying the arenas at exit: an arena that the caller provided is kept, but the number of
  arenas becomes its index, so that it is no longer among them, and its metadata is freed
  although its entry still points there.
\<close>

lemma mi_arenas_unsafe_destroy_external:
  assumes "arena_count st = 1" "arena_ptr st 0 = Some p" "memkind (arena_memid (arena_mem st 0)) = MI_MEM_EXTERNAL"
    "memkind (meta_memid (arena_mem st 0)) = MI_MEM_OS"
  shows "arena_count (mi_arenas_unsafe_destroy env st) = 0 \<and> arena_ptr (mi_arenas_unsafe_destroy env st) 0 = Some p
    \<and> ar_os (mi_arenas_unsafe_destroy env st)
        = mi_os_free env p (meta_size (arena_mem st 0)) (meta_memid (arena_mem st 0)) (ar_os st)"
  using assms by (simp add: mi_arenas_unsafe_destroy_def mi_arena_meta_free_def mi_memkind_is_os_def less_eq_mi_memkind_def Let_def)

end
