(* ===== verification/ChaCha.thy ===== *)
theory ChaCha
  imports Internal
begin

text \<open>
  mimalloc's random numbers (mimalloc/src/random.c): ChaCha20 on sixteen 32-bit words, the
  generator that hands out one block word by word, its initialisation from the operating
  system or from a weak seed, and splitting. The operating system's buffer (None when
  _mi_prim_random_buf fails), the clock and the addresses that the code uses as entropy are
  parameters. The platform is little-endian, as the cast of key to uint32_t* shows.
\<close>

section \<open>ChaCha20\<close>

record mi_random_ctx =
  input :: "u32 list"
  out_words :: "u32 list"
  output_available :: int
  weak :: bool

definition MI_CHACHA_ROUNDS :: nat where [simp]: "MI_CHACHA_ROUNDS = 20"

definition rotl :: "u32 \<Rightarrow> nat \<Rightarrow> u32" where
  "rotl x shift = push_bit shift x OR drop_bit (32 - shift) x"

definition qround :: "u32 list \<Rightarrow> nat \<Rightarrow> nat \<Rightarrow> nat \<Rightarrow> nat \<Rightarrow> u32 list" where
  "qround x a b c d =
     (let x = x[a := x ! a + x ! b]; x = x[d := rotl (x ! d XOR x ! a) 16];
          x = x[c := x ! c + x ! d]; x = x[b := rotl (x ! b XOR x ! c) 12];
          x = x[a := x ! a + x ! b]; x = x[d := rotl (x ! d XOR x ! a) 8];
          x = x[c := x ! c + x ! d]; x = x[b := rotl (x ! b XOR x ! c) 7]
      in x)"

definition chacha_double_round :: "u32 list \<Rightarrow> u32 list" where
  "chacha_double_round x =
     (let x = qround x 0 4 8 12;
          x = qround x 1 5 9 13;
          x = qround x 2 6 10 14;
          x = qround x 3 7 11 15;
          x = qround x 0 5 10 15;
          x = qround x 1 6 11 12;
          x = qround x 2 7 8 13;
          x = qround x 3 4 9 14
      in x)"

text \<open>The loop for (i = 0; i < MI_CHACHA_ROUNDS; i += 2), by the number of iterations left.\<close>

fun chacha_rounds :: "nat \<Rightarrow> u32 list \<Rightarrow> u32 list" where
  "chacha_rounds 0 x = x"
| "chacha_rounds (Suc n) x = chacha_rounds n (chacha_double_round x)"

definition chacha_increment :: "u32 list \<Rightarrow> u32 list" where
  "chacha_increment inp =
     (let inp = inp[12 := inp ! 12 + 1]
      in if inp ! 12 = 0 then
           let inp = inp[13 := inp ! 13 + 1]
           in if inp ! 13 = 0 then inp[14 := inp ! 14 + 1] else inp
         else inp)"

definition chacha_block :: "mi_random_ctx \<Rightarrow> mi_random_ctx" where
  "chacha_block ctx =
     (let x = chacha_rounds (MI_CHACHA_ROUNDS div 2) (input ctx)
      in ctx\<lparr>out_words := map (\<lambda>i. x ! i + input ctx ! i) [0..<16],
             output_available := 16,
             input := chacha_increment (input ctx)\<rparr>)"

definition chacha_next32 :: "mi_random_ctx \<Rightarrow> u32 \<times> mi_random_ctx" where
  "chacha_next32 ctx =
     (let ctx = (if output_available ctx \<le> 0
                 then (chacha_block ctx)\<lparr>output_available := 16\<rparr> else ctx);
          i = nat (16 - output_available ctx);
          x = out_words ctx ! i
      in (x, ctx\<lparr>out_words := (out_words ctx)[i := 0],
                 output_available := output_available ctx - 1\<rparr>))"

definition read32 :: "u8 list \<Rightarrow> nat \<Rightarrow> u32" where
  "read32 p idx32 =
     (let i = 4 * idx32
      in ucast (p ! (i + 0)) OR push_bit 8 (ucast (p ! (i + 1)))
         OR push_bit 16 (ucast (p ! (i + 2))) OR push_bit 24 (ucast (p ! (i + 3))))"

text \<open>The bytes of the string literal ''expand 32-byte k''.\<close>

definition chacha_sigma :: "u8 list" where
  "chacha_sigma = [0x65, 0x78, 0x70, 0x61, 0x6e, 0x64, 0x20, 0x33,
                   0x32, 0x2d, 0x62, 0x79, 0x74, 0x65, 0x20, 0x6b]"

definition chacha_zeroed :: mi_random_ctx where
  "chacha_zeroed = \<lparr>input = replicate 16 0, out_words = replicate 16 0, output_available = 0,
                    weak = False\<rparr>"

definition chacha_init :: "u8 list \<Rightarrow> u64 \<Rightarrow> mi_random_ctx" where
  "chacha_init key nonce =
     chacha_zeroed\<lparr>input := map (read32 chacha_sigma) [0..<4] @ map (read32 key) [0..<8]
        @ [0, 0, ucast nonce, ucast (drop_bit 32 nonce)]\<rparr>"

definition chacha_split :: "mi_random_ctx \<Rightarrow> u64 \<Rightarrow> mi_random_ctx" where
  "chacha_split ctx nonce =
     chacha_block (chacha_zeroed\<lparr>input := (input ctx)
       [12 := 0, 13 := 0, 14 := ucast nonce, 15 := ucast (drop_bit 32 nonce)]\<rparr>)"

section \<open>The interface\<close>

definition mi_random_is_initialized :: "mi_random_ctx \<Rightarrow> bool" where
  "mi_random_is_initialized ctx \<longleftrightarrow> input ctx ! 0 \<noteq> 0"

text \<open>The nonce of a split is the address of the new context.\<close>

definition mi_random_split :: "mi_random_ctx \<Rightarrow> usize \<Rightarrow> mi_random_ctx" where
  "mi_random_split ctx ctx_new_addr = chacha_split ctx ctx_new_addr"

definition mi_random_next :: "mi_random_ctx \<Rightarrow> usize \<times> mi_random_ctx" where
  "mi_random_next ctx =
     (let (hi, ctx) = chacha_next32 ctx;
          (lo, ctx) = chacha_next32 ctx
      in (push_bit 32 (ucast hi) OR ucast lo, ctx))"

definition mi_os_random_weak :: "usize \<Rightarrow> usize \<Rightarrow> usize \<Rightarrow> usize" where
  "mi_os_random_weak fn_addr clock_now extra_seed =
     (let x = (fn_addr XOR extra_seed) XOR clock_now;
          mx = ((x XOR drop_bit 17 x) AND 0x0F) + 1
      in (mi_random_shuffle ^^ unat mx) x)"

definition u32_le_bytes :: "u32 \<Rightarrow> u8 list" where
  "u32_le_bytes w = map (\<lambda>k. ucast (drop_bit (8 * k) w)) [0..<4]"

fun mi_weak_key :: "nat \<Rightarrow> usize \<Rightarrow> u8 list" where
  "mi_weak_key 0 x = []"
| "mi_weak_key (Suc n) x =
     (let x = mi_random_shuffle x in u32_le_bytes (ucast x) @ mi_weak_key n x)"

record os_entropy =
  random_buf :: "u8 list option"
  fn_address :: usize
  clock_time :: usize

definition mi_random_init_ex :: "os_entropy \<Rightarrow> usize \<Rightarrow> mi_random_ctx \<Rightarrow> bool \<Rightarrow> mi_random_ctx" where
  "mi_random_init_ex os ctx_addr ctx use_weak =
     (let (ctx, key) =
        (if use_weak \<or> random_buf os = None then
           (ctx\<lparr>weak := True\<rparr>, mi_weak_key 8 (mi_os_random_weak (fn_address os) (clock_time os) 0))
         else (ctx\<lparr>weak := False\<rparr>, the (random_buf os)))
      in chacha_init key ctx_addr)"

definition mi_random_init :: "os_entropy \<Rightarrow> usize \<Rightarrow> mi_random_ctx \<Rightarrow> mi_random_ctx" where
  "mi_random_init os ctx_addr ctx = mi_random_init_ex os ctx_addr ctx False"

definition mi_random_init_weak :: "os_entropy \<Rightarrow> usize \<Rightarrow> mi_random_ctx \<Rightarrow> mi_random_ctx" where
  "mi_random_init_weak os ctx_addr ctx = mi_random_init_ex os ctx_addr ctx True"

definition mi_random_reinit_if_weak :: "os_entropy \<Rightarrow> usize \<Rightarrow> mi_random_ctx \<Rightarrow> mi_random_ctx" where
  "mi_random_reinit_if_weak os ctx_addr ctx =
     (if weak ctx then mi_random_init os ctx_addr ctx else ctx)"

section \<open>The permutation\<close>

text \<open>The quarter round on four words, without the array.\<close>

definition quarter :: "u32 \<times> u32 \<times> u32 \<times> u32 \<Rightarrow> u32 \<times> u32 \<times> u32 \<times> u32" where
  "quarter = (\<lambda>(a, b, c, d).
     let a = a + b; d = rotl (d XOR a) 16; c = c + d; b = rotl (b XOR c) 12;
         a = a + b; d = rotl (d XOR a) 8; c = c + d; b = rotl (b XOR c) 7
     in (a, b, c, d))"

lemma qround_quarter:
  assumes "distinct [a, b, c, d]" "a < length x" "b < length x" "c < length x" "d < length x"
    "quarter (x ! a, x ! b, x ! c, x ! d) = (p, q, r, s)"
  shows "qround x a b c d = x[a := p, b := q, c := r, d := s]"
proof (rule nth_equalityI)
  show "length (qround x a b c d) = length (x[a := p, b := q, c := r, d := s])"
    by (simp add: qround_def Let_def)
next
  fix i
  assume "i < length (qround x a b c d)"
  then have "i < length x" by (simp add: qround_def Let_def)
  then show "qround x a b c d ! i = x[a := p, b := q, c := r, d := s] ! i"
    using assms by (auto simp: qround_def quarter_def Let_def nth_list_update)
qed

lemma length_qround [simp]: "length (qround x a b c d) = length x"
  by (simp add: qround_def Let_def)

lemma length_double_round [simp]: "length (chacha_double_round x) = length x"
  by (simp add: chacha_double_round_def Let_def)

lemma length_rounds [simp]: "length (chacha_rounds n x) = length x"
  by (induction n arbitrary: x) simp_all

lemma rotl_inj:
  assumes "s \<le> 32" "rotl x s = rotl y s"
  shows "x = y"
proof (rule bit_eqI)
  have b: "bit (rotl z s) n \<longleftrightarrow> n < 32 \<and> (if n < s then bit z (n + 32 - s) else bit z (n - s))" for z n
    using assms(1) bit_imp_le_length [of z "n + 32 - s"]
    by (auto simp: rotl_def bit_or_iff bit_push_bit_iff bit_drop_bit_eq add.commute)
  fix n
  show "bit x n = bit y n"
  proof (cases "n < 32")
    case True
    define m where "m = (if n + s < 32 then n + s else n + s - 32)"
    have m: "m < 32" "(if m < s then m + 32 - s else m - s) = n" using True assms(1) by (auto simp: m_def)
    have "bit (rotl x s) m = bit (rotl y s) m" using assms(2) by simp
    then show ?thesis using m unfolding b by (metis (full_types))
  next
    case False
    then show ?thesis using bit_imp_le_length [of x n] bit_imp_le_length [of y n] by auto
  qed
qed

lemma rotl_eq_iff: "s \<le> 32 \<Longrightarrow> rotl x s = rotl y s \<longleftrightarrow> x = y"
  using rotl_inj by blast

lemma xor_cancel_right: "x XOR z = y XOR z \<longleftrightarrow> x = y" for x :: "'a::len word"
  by (metis xor.assoc xor.right_neutral xor_self_eq)

lemma quarter_inj: "quarter t = quarter t' \<Longrightarrow> t = t'"
  by (cases t; cases t')
    (auto simp: quarter_def Let_def rotl_eq_iff xor_cancel_right)

lemma qround_inj:
  assumes "distinct [a, b, c, d]" "a < length x" "b < length x" "c < length x" "d < length x"
    "length x = length y" "qround x a b c d = qround y a b c d"
  shows "x = y"
proof -
  obtain p q r s where q: "quarter (x ! a, x ! b, x ! c, x ! d) = (p, q, r, s)" by (metis prod_cases4)
  obtain p' q' r' s' where q': "quarter (y ! a, y ! b, y ! c, y ! d) = (p', q', r', s')" by (metis prod_cases4)
  have eq: "x[a := p, b := q, c := r, d := s] = y[a := p', b := q', c := r', d := s']"
    using qround_quarter [OF assms(1-5) q] qround_quarter [OF assms(1) _ _ _ _ q'] assms by simp
  have nth: "x[a := p, b := q, c := r, d := s] ! i = y[a := p', b := q', c := r', d := s'] ! i" for i
    using eq by simp
  have "p = p'" "q = q'" "r = r'" "s = s'"
    using nth [of a] nth [of b] nth [of c] nth [of d] assms(1-6) by (auto simp: nth_list_update)
  then have "quarter (x ! a, x ! b, x ! c, x ! d) = quarter (y ! a, y ! b, y ! c, y ! d)" using q q' by simp
  then have four: "x ! a = y ! a" "x ! b = y ! b" "x ! c = y ! c" "x ! d = y ! d"
    using quarter_inj by blast+
  show ?thesis
  proof (rule nth_equalityI)
    show "length x = length y" by fact
    fix i assume i: "i < length x"
    show "x ! i = y ! i"
      using four nth [of i] i assms(6) by (cases "i \<in> {a, b, c, d}") (auto simp: nth_list_update)
  qed
qed

lemma qround_inj16:
  "qround x a b c d = qround y a b c d \<Longrightarrow> distinct [a, b, c, d] \<Longrightarrow> a < 16 \<Longrightarrow> b < 16 \<Longrightarrow> c < 16 \<Longrightarrow> d < 16
   \<Longrightarrow> length x = 16 \<Longrightarrow> length y = 16 \<Longrightarrow> x = y"
  by (rule qround_inj) simp_all

lemma double_round_inj:
  assumes l: "length x = 16" "length y = 16" and "chacha_double_round x = chacha_double_round y"
  shows "x = y"
proof -
  note e = assms(3) [unfolded chacha_double_round_def Let_def]
  note e = qround_inj16 [OF e, simplified l length_qround, simplified]
  note e = qround_inj16 [OF e, simplified l length_qround, simplified]
  note e = qround_inj16 [OF e, simplified l length_qround, simplified]
  note e = qround_inj16 [OF e, simplified l length_qround, simplified]
  note e = qround_inj16 [OF e, simplified l length_qround, simplified]
  note e = qround_inj16 [OF e, simplified l length_qround, simplified]
  note e = qround_inj16 [OF e, simplified l length_qround, simplified]
  note e = qround_inj16 [OF e, simplified l length_qround, simplified]
  show ?thesis by (rule e)
qed

lemma rounds_inj:
  "length x = 16 \<Longrightarrow> length y = 16 \<Longrightarrow> chacha_rounds n x = chacha_rounds n y \<Longrightarrow> x = y"
proof (induction n arbitrary: x y)
  case (Suc n)
  have "chacha_double_round x = chacha_double_round y"
    by (rule Suc.IH) (simp_all only: length_double_round Suc.prems(1,2) Suc.prems(3) [unfolded chacha_rounds.simps])
  then show ?case by (rule double_round_inj [OF Suc.prems(1,2)])
qed simp

section \<open>The stream of words\<close>

definition wf_ctx :: "mi_random_ctx \<Rightarrow> bool" where
  "wf_ctx ctx \<longleftrightarrow> length (input ctx) = 16 \<and> length (out_words ctx) = 16
     \<and> 0 \<le> output_available ctx \<and> output_available ctx \<le> 16
     \<and> (\<forall>i < nat (16 - output_available ctx). out_words ctx ! i = 0)"

definition block_words :: "u32 list \<Rightarrow> u32 list" where
  "block_words inp = map (\<lambda>i. chacha_rounds 10 inp ! i + inp ! i) [0..<16]"

definition pending :: "mi_random_ctx \<Rightarrow> u32 list" where
  "pending ctx = drop (nat (16 - output_available ctx)) (out_words ctx)"

lemma length_block_words [simp]: "length (block_words inp) = 16"
  by (simp add: block_words_def)

lemma length_increment [simp]: "length (chacha_increment inp) = length inp"
  by (simp add: chacha_increment_def Let_def)

lemma chacha_block_fields:
  "out_words (chacha_block ctx) = block_words (input ctx)"
  "output_available (chacha_block ctx) = 16"
  "input (chacha_block ctx) = chacha_increment (input ctx)"
  "weak (chacha_block ctx) = weak ctx"
  by (simp_all add: chacha_block_def Let_def block_words_def)

lemma wf_chacha_block: "length (input ctx) = 16 \<Longrightarrow> wf_ctx (chacha_block ctx)"
  by (simp add: wf_ctx_def chacha_block_fields)

lemma next32_step:
  assumes "wf_ctx ctx" "chacha_next32 ctx = (x, ctx')"
  shows "wf_ctx ctx'" and "weak ctx' = weak ctx"
    and "x # pending ctx' = (if pending ctx = [] then block_words (input ctx) else pending ctx)"
    and "input ctx' = (if pending ctx = [] then chacha_increment (input ctx) else input ctx)"
proof -
  define c where "c = (if output_available ctx \<le> 0
                 then (chacha_block ctx)\<lparr>output_available := 16\<rparr> else ctx)"
  define i where "i = nat (16 - output_available c)"
  have pe: "pending ctx = [] \<longleftrightarrow> output_available ctx \<le> 0"
    using assms(1) by (auto simp: pending_def wf_ctx_def)
  have c: "wf_ctx c" "0 < output_available c" "weak c = weak ctx"
    "pending c = (if pending ctx = [] then block_words (input ctx) else pending ctx)"
    "input c = (if pending ctx = [] then chacha_increment (input ctx) else input ctx)"
    using assms(1) pe unfolding c_def
    by (auto simp: wf_ctx_def pending_def chacha_block_fields)
  have i: "i < 16" using c(1,2) by (auto simp: i_def wf_ctx_def)
  have r: "x = out_words c ! i" "ctx' = c\<lparr>out_words := (out_words c)[i := 0],
      output_available := output_available c - 1\<rparr>"
    using assms(2) unfolding chacha_next32_def Let_def c_def [symmetric] i_def [symmetric] by auto
  have i': "nat (16 - (output_available c - 1)) = Suc i"
    using c(1,2) unfolding i_def wf_ctx_def by linarith
  have l: "length (out_words c) = 16" using c(1) by (simp add: wf_ctx_def)
  show "wf_ctx ctx'" using c(1,2) l i i' unfolding r(2)
    by (auto simp: wf_ctx_def nth_list_update less_Suc_eq i_def [symmetric])
  show "weak ctx' = weak ctx" using r c by simp
  have "x # pending ctx' = pending c"
    using l i i' unfolding r by (simp add: pending_def i_def [symmetric] Cons_nth_drop_Suc)
  then show "x # pending ctx' = (if pending ctx = [] then block_words (input ctx) else pending ctx)"
    using c(4) by simp
  show "input ctx' = (if pending ctx = [] then chacha_increment (input ctx) else input ctx)"
    using r c(5) by simp
qed

text \<open>The outputs of n calls, and the key stream of m blocks from an input.\<close>

fun chacha_outputs :: "nat \<Rightarrow> mi_random_ctx \<Rightarrow> u32 list" where
  "chacha_outputs 0 ctx = []"
| "chacha_outputs (Suc n) ctx = (case chacha_next32 ctx of (x, ctx') \<Rightarrow> x # chacha_outputs n ctx')"

fun keystream :: "u32 list \<Rightarrow> nat \<Rightarrow> u32 list" where
  "keystream inp 0 = []"
| "keystream inp (Suc m) = block_words inp @ keystream (chacha_increment inp) m"

lemma chacha_outputs_stream:
  assumes "wf_ctx ctx" "n \<le> length (pending ctx) + 16 * m"
  shows "chacha_outputs n ctx = take n (pending ctx @ keystream (input ctx) m)"
  using assms
proof (induction n arbitrary: ctx m)
  case (Suc n)
  obtain x ctx' where nx: "chacha_next32 ctx = (x, ctx')" by fastforce
  note st = next32_step [OF Suc.prems(1) nx]
  show ?case
  proof (cases "pending ctx = []")
    case True
    then obtain m' where m: "m = Suc m'" using Suc.prems(2) by (cases m) auto
    have "x # pending ctx' = block_words (input ctx)" using st(3) True by simp
    moreover have "length (pending ctx') = 15"
      using arg_cong [OF calculation, of length] by simp
    moreover have "input ctx' = chacha_increment (input ctx)" using st(4) True by simp
    ultimately have IH: "chacha_outputs n ctx'
        = take n (pending ctx' @ keystream (chacha_increment (input ctx)) m')"
      using Suc.IH [OF st(1), of m'] Suc.prems(2) m True by simp
    have "pending ctx @ keystream (input ctx) m
        = x # pending ctx' @ keystream (chacha_increment (input ctx)) m'"
      using \<open>x # pending ctx' = block_words (input ctx)\<close> True m by (simp flip: append_Cons)
    then show ?thesis using IH nx by simp
  next
    case False
    then have p: "pending ctx = x # pending ctx'" "input ctx' = input ctx" using st by simp_all
    show ?thesis using Suc.IH [OF st(1), of m] Suc.prems(2) nx by (simp add: p)
  qed
qed simp

section \<open>The counter\<close>

definition chacha_counter :: "u32 list \<Rightarrow> nat" where
  "chacha_counter inp = unat (inp ! 12) + 2 ^ 32 * unat (inp ! 13) + 2 ^ 64 * unat (inp ! 14)"

lemma unat_u32_inc: "w + 1 \<noteq> 0 \<Longrightarrow> unat (w + 1 :: u32) = unat w + 1"
  using unatSuc [of w] by (simp add: add.commute)

lemma u32_wrap: "w + 1 = 0 \<Longrightarrow> unat w = 4294967295" for w :: u32
  by (simp add: add_eq_0_iff2 unsigned_minus_1_eq_mask mask_eq_exp_minus_1)

lemma chacha_counter_increment:
  assumes l: "length inp = 16"
  shows "chacha_counter (chacha_increment inp) = (chacha_counter inp + 1) mod 2 ^ 96"
proof -
  note bounds = unat_u32_lt [of "inp ! 12"] unat_u32_lt [of "inp ! 13"] unat_u32_lt [of "inp ! 14"]
  consider (low) "inp ! 12 + 1 \<noteq> 0" | (mid) "inp ! 12 + 1 = 0" "inp ! 13 + 1 \<noteq> 0"
    | (high) "inp ! 12 + 1 = 0" "inp ! 13 + 1 = 0" "inp ! 14 + 1 \<noteq> 0"
    | (wrap) "inp ! 12 + 1 = 0" "inp ! 13 + 1 = 0" "inp ! 14 + 1 = 0" by blast
  then show ?thesis
  proof cases
    case low
    then have u: "unat (inp ! 12 + 1) = unat (inp ! 12) + 1" by (simp add: unat_u32_inc)
    have "chacha_counter (chacha_increment inp) = chacha_counter inp + 1"
      using low l u by (simp add: chacha_increment_def chacha_counter_def)
    moreover have "chacha_counter inp + 1 < 2 ^ 96"
      using bounds unat_u32_lt [of "inp ! 12 + 1"] u unfolding chacha_counter_def by simp
    ultimately show ?thesis by simp
  next
    case mid
    then have u: "unat (inp ! 13 + 1) = unat (inp ! 13) + 1" by (simp add: unat_u32_inc)
    have "chacha_counter (chacha_increment inp) = chacha_counter inp + 1"
      using mid l u u32_wrap [OF mid(1)] by (simp add: chacha_increment_def chacha_counter_def)
    moreover have "chacha_counter inp + 1 < 2 ^ 96"
      using bounds unat_u32_lt [of "inp ! 13 + 1"] u unfolding chacha_counter_def by simp
    ultimately show ?thesis by simp
  next
    case high
    then have u: "unat (inp ! 14 + 1) = unat (inp ! 14) + 1" by (simp add: unat_u32_inc)
    have "chacha_counter (chacha_increment inp) = chacha_counter inp + 1"
      using high l u u32_wrap [OF high(1)] u32_wrap [OF high(2)]
      by (simp add: chacha_increment_def chacha_counter_def)
    moreover have "chacha_counter inp + 1 < 2 ^ 96"
      using bounds unat_u32_lt [of "inp ! 14 + 1"] u unfolding chacha_counter_def by simp
    ultimately show ?thesis by simp
  next
    case wrap
    have "chacha_counter (chacha_increment inp) = 0"
      using wrap l by (simp add: chacha_increment_def chacha_counter_def)
    moreover have "chacha_counter inp + 1 = 2 ^ 96"
      using u32_wrap [OF wrap(1)] u32_wrap [OF wrap(2)] u32_wrap [OF wrap(3)]
      by (simp add: chacha_counter_def)
    ultimately show ?thesis by simp
  qed
qed

lemma chacha_increment_other:
  "i \<notin> {12, 13, 14} \<Longrightarrow> chacha_increment inp ! i = inp ! i"
  by (auto simp: chacha_increment_def Let_def nth_list_update)

lemma funpow_increment_other:
  "i \<notin> {12, 13, 14} \<Longrightarrow> (chacha_increment ^^ n) inp ! i = inp ! i"
  by (induction n) (simp_all add: chacha_increment_other)

lemma length_funpow_increment [simp]: "length ((chacha_increment ^^ n) inp) = length inp"
  by (induction n) simp_all

lemma chacha_counter_funpow:
  assumes "length inp = 16" "chacha_counter inp < 2 ^ 96"
  shows "chacha_counter ((chacha_increment ^^ n) inp) = (chacha_counter inp + n) mod 2 ^ 96"
proof (induction n)
  case (Suc n)
  have "chacha_counter ((chacha_increment ^^ Suc n) inp)
      = (chacha_counter ((chacha_increment ^^ n) inp) + 1) mod 2 ^ 96"
    using chacha_counter_increment assms(1) by simp
  also have "\<dots> = (chacha_counter inp + Suc n) mod 2 ^ 96"
    unfolding Suc mod_add_left_eq by simp
  finally show ?case .
qed (use assms(2) in simp)

lemma chacha_counter_lt: "chacha_counter inp < 2 ^ 96"
  using unat_u32_lt [of "inp ! 12"] unat_u32_lt [of "inp ! 13"] unat_u32_lt [of "inp ! 14"]
  unfolding chacha_counter_def by simp

lemma base_digit_eq: "a = a' \<and> q = q'" if "a + k * q = a' + k * q'" "a < k" "a' < k" for a q a' q' k :: nat
proof -
  have "a = a'" using arg_cong [OF that(1), of "\<lambda>v. v mod k"] that(2,3) by simp
  then show ?thesis using that by auto
qed

lemma chacha_counter_inj:
  assumes "chacha_counter x = chacha_counter y"
  shows "x ! 12 = y ! 12" "x ! 13 = y ! 13" "x ! 14 = y ! 14"
proof -
  note b = unat_u32_lt [of "x ! 12"] unat_u32_lt [of "x ! 13"] unat_u32_lt [of "x ! 14"]
    unat_u32_lt [of "y ! 12"] unat_u32_lt [of "y ! 13"] unat_u32_lt [of "y ! 14"]
  have split: "a = a' \<and> b = b' \<and> c = c'"
    if "a + 4294967296 * b + 18446744073709551616 * c = a' + 4294967296 * b' + 18446744073709551616 * c'"
      "a < 4294967296" "a' < 4294967296" "b < 4294967296" "b' < 4294967296" for a b c a' b' c' :: nat
  proof -
    have e: "a + 4294967296 * (b + 4294967296 * c) = a' + 4294967296 * (b' + 4294967296 * c')"
      using that(1) by simp
    have "a = a'" "b + 4294967296 * c = b' + 4294967296 * c'"
      using base_digit_eq [OF e that(2,3)] by simp_all
    moreover have "b = b' \<and> c = c'" by (rule base_digit_eq [OF calculation(2) that(4,5)])
    ultimately show ?thesis by simp
  qed
  have "unat (x ! 12) = unat (y ! 12) \<and> unat (x ! 13) = unat (y ! 13) \<and> unat (x ! 14) = unat (y ! 14)"
    by (rule split) (use assms b in \<open>simp_all add: chacha_counter_def\<close>)
  then show "x ! 12 = y ! 12" "x ! 13 = y ! 13" "x ! 14 = y ! 14"
    by (simp_all add: word_unat_eq_iff)
qed

lemma mod_shift_eq_iff: "((a + i) mod m = (a + j) mod m) = (i mod m = j mod m)" for a i j m :: nat
proof -
  have "int (a + i) mod int m = int (a + j) mod int m \<longleftrightarrow> int i mod int m = int j mod int m"
    unfolding mod_eq_dvd_iff by simp
  then show ?thesis by (simp only: of_nat_mod [symmetric] of_nat_eq_iff)
qed

lemma mi_os_random_weak_nonzero: "mi_os_random_weak f c s \<noteq> 0"
proof -
  define x where "x = (f XOR s) XOR c"
  define y where "y = (x XOR drop_bit 17 x) AND 0x0F"
  have "y \<le> 0x0F" unfolding y_def by (rule word_and_le1)
  then have "unat y \<le> unat (0x0F :: usize)" by (simp only: word_le_nat_alt)
  then have "unat (y + 1) = Suc (unat y)" by (simp add: unat_word_ariths(1))
  then have "(mi_random_shuffle ^^ unat (y + 1)) x = mi_random_shuffle ((mi_random_shuffle ^^ unat y) x)" by simp
  then show ?thesis using mi_random_shuffle_nonzero
    unfolding mi_os_random_weak_def Let_def x_def [symmetric] y_def [symmetric] by simp
qed

lemma chacha_vector_1:
  "chacha_double_round
     [0x61707865, 0x3320646e, 0x79622d32, 0x6b206574, 0x03020100, 0x07060504, 0x0b0a0908, 0x0f0e0d0c,
      0x13121110, 0x17161514, 0x1b1a1918, 0x1f1e1d1c, 0x00000001, 0x09000000, 0x4a000000, 0x00000000]
   = [0xcd52e917, 0x85ab03b4, 0xb3457395, 0xf96de7dd, 0xc4b7cd22, 0x5c2e187a, 0xc95eb461, 0x316c801a,
      0x7bf7d740, 0x7eddd644, 0xf1a1bdf5, 0x761246ca, 0x6b0d58a3, 0x6798471a, 0xd737f167, 0xf173888d]"
  by code_simp

lemma chacha_vector_2:
  "chacha_double_round
     [0xcd52e917, 0x85ab03b4, 0xb3457395, 0xf96de7dd, 0xc4b7cd22, 0x5c2e187a, 0xc95eb461, 0x316c801a,
      0x7bf7d740, 0x7eddd644, 0xf1a1bdf5, 0x761246ca, 0x6b0d58a3, 0x6798471a, 0xd737f167, 0xf173888d]
   = [0xcf1a7584, 0x048927ec, 0x54051fda, 0xc244ff28, 0x901d2f40, 0x7974b81c, 0x378dcfb4, 0xcd47fd0e,
      0x2dafb216, 0x27c89cd6, 0xcd3c9aa0, 0x79fc89c7, 0x10aef18d, 0x16218765, 0x68f76705, 0x04d6ee22]"
  by code_simp

lemma chacha_vector_3:
  "chacha_double_round
     [0xcf1a7584, 0x048927ec, 0x54051fda, 0xc244ff28, 0x901d2f40, 0x7974b81c, 0x378dcfb4, 0xcd47fd0e,
      0x2dafb216, 0x27c89cd6, 0xcd3c9aa0, 0x79fc89c7, 0x10aef18d, 0x16218765, 0x68f76705, 0x04d6ee22]
   = [0x03a14032, 0x66b15927, 0x9d6b6b42, 0xb84c4109, 0xa7143ae0, 0xa09b33dd, 0xa5daaf88, 0x2fd91a73,
      0xc90c6b18, 0x5a202413, 0xc20e01b6, 0x72cd6b74, 0xba35d777, 0xb360f1bf, 0x8178315b, 0x2cd11b1a]"
  by code_simp

lemma chacha_vector_4:
  "chacha_double_round
     [0x03a14032, 0x66b15927, 0x9d6b6b42, 0xb84c4109, 0xa7143ae0, 0xa09b33dd, 0xa5daaf88, 0x2fd91a73,
      0xc90c6b18, 0x5a202413, 0xc20e01b6, 0x72cd6b74, 0xba35d777, 0xb360f1bf, 0x8178315b, 0x2cd11b1a]
   = [0x9a2d3589, 0x0b23fc4e, 0x40af3b6b, 0xceea8144, 0x0a1bffc6, 0x5e5993f7, 0x9904c2e7, 0x0d334718,
      0xe46c6354, 0xc9503229, 0x04fef5aa, 0xf8933f72, 0x2687d476, 0x54e65231, 0x3594ffc5, 0x2b3bb2ca]"
  by code_simp

lemma chacha_vector_5:
  "chacha_double_round
     [0x9a2d3589, 0x0b23fc4e, 0x40af3b6b, 0xceea8144, 0x0a1bffc6, 0x5e5993f7, 0x9904c2e7, 0x0d334718,
      0xe46c6354, 0xc9503229, 0x04fef5aa, 0xf8933f72, 0x2687d476, 0x54e65231, 0x3594ffc5, 0x2b3bb2ca]
   = [0xc53318c5, 0xca325d96, 0x7e7d11cb, 0x3404e2ca, 0x26d7cf73, 0x6088d379, 0xc0f0e9bd, 0xe310cdb9,
      0xae2ca8db, 0x42f67c72, 0x71669aca, 0x975c171d, 0x9e5ec228, 0x7d85a9f3, 0x201d0756, 0x63fa6953]"
  by code_simp

lemma chacha_vector_6:
  "chacha_double_round
     [0xc53318c5, 0xca325d96, 0x7e7d11cb, 0x3404e2ca, 0x26d7cf73, 0x6088d379, 0xc0f0e9bd, 0xe310cdb9,
      0xae2ca8db, 0x42f67c72, 0x71669aca, 0x975c171d, 0x9e5ec228, 0x7d85a9f3, 0x201d0756, 0x63fa6953]
   = [0x04a3131a, 0x66176309, 0x0415bab1, 0x61b880a2, 0x36cc86c7, 0xbf8a4465, 0xf77dd720, 0xfc0bdc90,
      0x07d13aca, 0xeb0be9af, 0x61599491, 0x918512dc, 0x33b6686d, 0x795cc671, 0xc0049972, 0xa0a81bde]"
  by code_simp

lemma chacha_vector_7:
  "chacha_double_round
     [0x04a3131a, 0x66176309, 0x0415bab1, 0x61b880a2, 0x36cc86c7, 0xbf8a4465, 0xf77dd720, 0xfc0bdc90,
      0x07d13aca, 0xeb0be9af, 0x61599491, 0x918512dc, 0x33b6686d, 0x795cc671, 0xc0049972, 0xa0a81bde]
   = [0x9b70f51f, 0x7ea8ac11, 0x21e54da9, 0xca393b2f, 0x93b08686, 0x6a4c50ae, 0x19212a5a, 0x9b032958,
      0xd839165e, 0x4c06e28a, 0xd3fde99e, 0x26acc13d, 0xa609f555, 0x2c246549, 0x95151853, 0x2c847a0d]"
  by code_simp

lemma chacha_vector_8:
  "chacha_double_round
     [0x9b70f51f, 0x7ea8ac11, 0x21e54da9, 0xca393b2f, 0x93b08686, 0x6a4c50ae, 0x19212a5a, 0x9b032958,
      0xd839165e, 0x4c06e28a, 0xd3fde99e, 0x26acc13d, 0xa609f555, 0x2c246549, 0x95151853, 0x2c847a0d]
   = [0xca5c85dd, 0x93a4f90e, 0xd9f0df58, 0x26dd82dd, 0x982563f8, 0x712aa9ff, 0x279a61e8, 0x970f72bd,
      0x1c25931a, 0x5180bb10, 0x779c27e7, 0x54077e08, 0xa9b751fb, 0x382f3ce2, 0x8db1757d, 0xcc38080b]"
  by code_simp

lemma chacha_vector_9:
  "chacha_double_round
     [0xca5c85dd, 0x93a4f90e, 0xd9f0df58, 0x26dd82dd, 0x982563f8, 0x712aa9ff, 0x279a61e8, 0x970f72bd,
      0x1c25931a, 0x5180bb10, 0x779c27e7, 0x54077e08, 0xa9b751fb, 0x382f3ce2, 0x8db1757d, 0xcc38080b]
   = [0xb6b87de6, 0x9a016148, 0x93859815, 0x4915e6cc, 0xdc33c122, 0x98e18fa3, 0x5ffbe8fc, 0xf7154b8b,
      0x28c1fcb3, 0xc4b38f9d, 0x83e2f5d7, 0x7d24b98b, 0x21078b22, 0xb193e7a3, 0xb2f49389, 0x6cde6026]"
  by code_simp

lemma chacha_vector_10:
  "chacha_double_round
     [0xb6b87de6, 0x9a016148, 0x93859815, 0x4915e6cc, 0xdc33c122, 0x98e18fa3, 0x5ffbe8fc, 0xf7154b8b,
      0x28c1fcb3, 0xc4b38f9d, 0x83e2f5d7, 0x7d24b98b, 0x21078b22, 0xb193e7a3, 0xb2f49389, 0x6cde6026]
   = [0x837778ab, 0xe238d763, 0xa67ae21e, 0x5950bb2f, 0xc4f2d0c7, 0xfc62bb2f, 0x8fa018fc, 0x3f5ec7b7,
      0x335271c2, 0xf29489f3, 0xeabda8fc, 0x82e46ebd, 0xd19c12b4, 0xb04e16de, 0x9e83d0cb, 0x4e3c50a2]"
  by code_simp

section \<open>Initialised contexts\<close>

lemma chacha_init_wf:
  "wf_ctx (chacha_init key nonce)" "pending (chacha_init key nonce) = []"
  "mi_random_is_initialized (chacha_init key nonce)" "\<not> weak (chacha_init key nonce)"
proof -
  have first: "read32 chacha_sigma 0 \<noteq> 0" by code_simp
  then show "mi_random_is_initialized (chacha_init key nonce)"
    by (simp add: chacha_init_def mi_random_is_initialized_def nth_append)
qed (simp_all add: chacha_init_def chacha_zeroed_def wf_ctx_def pending_def)

lemma mi_random_init_ex_wf:
  "wf_ctx (mi_random_init_ex os addr ctx w)" "pending (mi_random_init_ex os addr ctx w) = []"
  "mi_random_is_initialized (mi_random_init_ex os addr ctx w)"
  "\<not> weak (mi_random_init_ex os addr ctx w)"
  unfolding mi_random_init_ex_def Let_def prod.case_eq_if by (rule chacha_init_wf)+

section \<open>The block function of RFC 8439\<close>

text \<open>
  The definition of the RFC in matrix form: the state is a matrix of four rows of four words,
  a column round applies the quarter round to all columns at once, and a diagonal round is a column round
  between a rotation of the rows, row r by r places, and its inverse.
\<close>

type_synonym u32_matrix = "nat \<Rightarrow> nat \<Rightarrow> u32"

definition ref_quarter :: "u32 \<times> u32 \<times> u32 \<times> u32 \<Rightarrow> u32 \<times> u32 \<times> u32 \<times> u32" where
  "ref_quarter = (\<lambda>(a, b, c, d).
     let a = a + b; d = word_rotl 16 (d XOR a); c = c + d; b = word_rotl 12 (b XOR c);
         a = a + b; d = word_rotl 8 (d XOR a); c = c + d; b = word_rotl 7 (b XOR c)
     in (a, b, c, d))"

definition word4 :: "u32 \<times> u32 \<times> u32 \<times> u32 \<Rightarrow> nat \<Rightarrow> u32" where
  "word4 = (\<lambda>(a, b, c, d) k. [a, b, c, d] ! k)"

definition ref_columns :: "u32_matrix \<Rightarrow> u32_matrix" where
  "ref_columns M = (\<lambda>r c. word4 (ref_quarter (M 0 c, M 1 c, M 2 c, M 3 c)) r)"

definition ref_shift :: "u32_matrix \<Rightarrow> u32_matrix" where
  "ref_shift M = (\<lambda>r c. M r ((c + r) mod 4))"

definition ref_unshift :: "u32_matrix \<Rightarrow> u32_matrix" where
  "ref_unshift M = (\<lambda>r c. M r ((c + 4 - r) mod 4))"

definition ref_double_round :: "u32_matrix \<Rightarrow> u32_matrix" where
  "ref_double_round M = ref_unshift (ref_columns (ref_shift (ref_columns M)))"

definition ref_matrix :: "u32 list \<Rightarrow> u32_matrix" where
  "ref_matrix x = (\<lambda>r c. x ! (4 * r + c))"

definition ref_block :: "u32 list \<Rightarrow> u32 list" where
  "ref_block inp = (let M = ref_matrix inp; N = (ref_double_round ^^ 10) M
     in map (\<lambda>i. N (i div 4) (i mod 4) + M (i div 4) (i mod 4)) [0..<16])"

lemma rotl_word_rotl: "s < 32 \<Longrightarrow> rotl x s = word_rotl s x"
proof (rule bit_word_eqI)
  fix n assume s: "s < 32" and "n < LENGTH(32)"
  then have n: "n < 32" by simp
  have b: "bit (rotl x s) n \<longleftrightarrow> (if n < s then bit x (n + 32 - s) else bit x (n - s))"
    using s n bit_imp_le_length [of x "n + 32 - s"]
    by (auto simp: rotl_def bit_or_iff bit_push_bit_iff bit_drop_bit_eq add.commute)
  have "(n + (32 - s)) mod 32 = (if n < s then n + 32 - s else n - s)"
  proof (cases "n < s")
    case False
    then have e: "n + (32 - s) = (n - s) + 32" using s by simp
    have "(n + (32 - s)) mod 32 = (n - s) mod 32" unfolding e by (rule mod_add_self2)
    then show ?thesis using False n by simp
  qed (use s in simp)
  then show "bit (rotl x s) n = bit (word_rotl s x) n"
    using s n unfolding b by (simp add: bit_word_rotl_iff)
qed

lemma quarter_ref: "quarter = ref_quarter"
  by (simp add: quarter_def ref_quarter_def rotl_word_rotl)

lemma qround_word:
  assumes "length x = 16" "distinct [a, b, c, d]" "a < 16" "b < 16" "c < 16" "d < 16"
  shows "qround x a b c d ! i = (if i = a then word4 (ref_quarter (x ! a, x ! b, x ! c, x ! d)) 0
     else if i = b then word4 (ref_quarter (x ! a, x ! b, x ! c, x ! d)) 1
     else if i = c then word4 (ref_quarter (x ! a, x ! b, x ! c, x ! d)) 2
     else if i = d then word4 (ref_quarter (x ! a, x ! b, x ! c, x ! d)) 3 else x ! i)"
proof -
  obtain p q r s where q: "quarter (x ! a, x ! b, x ! c, x ! d) = (p, q, r, s)" by (metis prod_cases4)
  then have "qround x a b c d = x[a := p, b := q, c := r, d := s]"
    using qround_quarter [OF assms(2) _ _ _ _ q] assms by simp
  then show ?thesis using assms q by (auto simp: quarter_ref word4_def nth_list_update)
qed

lemma less_4: "r < 4 \<longleftrightarrow> r = 0 \<or> r = 1 \<or> r = 2 \<or> r = (3 :: nat)"
  by auto

definition column_rounds :: "u32 list \<Rightarrow> u32 list" where
  "column_rounds x = qround (qround (qround (qround x 0 4 8 12) 1 5 9 13) 2 6 10 14) 3 7 11 15"

definition diagonal_rounds :: "u32 list \<Rightarrow> u32 list" where
  "diagonal_rounds x = qround (qround (qround (qround x 0 5 10 15) 1 6 11 12) 2 7 8 13) 3 4 9 14"

lemma column_rounds_ref:
  assumes "length x = 16" "r < 4" "c < 4"
  shows "column_rounds x ! (4 * r + c) = ref_columns (ref_matrix x) r c"
  using assms(2,3) assms(1) unfolding less_4
  by (elim disjE) (simp_all add: column_rounds_def qround_word ref_columns_def ref_matrix_def)

lemma diagonal_rounds_ref:
  assumes "length x = 16" "r < 4" "c < 4"
  shows "diagonal_rounds x ! (4 * r + c) = ref_unshift (ref_columns (ref_shift (ref_matrix x))) r c"
  using assms(2,3) assms(1) unfolding less_4
  by (elim disjE) (simp_all add: diagonal_rounds_def qround_word ref_columns_def ref_matrix_def ref_shift_def ref_unshift_def
    flip: numeral_2_eq_2)

lemma length_parts [simp]: "length (column_rounds x) = length x" "length (diagonal_rounds x) = length x"
  by (simp_all add: column_rounds_def diagonal_rounds_def)

definition same_matrix :: "u32_matrix \<Rightarrow> u32_matrix \<Rightarrow> bool" where
  "same_matrix M N \<longleftrightarrow> (\<forall>r < 4. \<forall>c < 4. M r c = N r c)"

lemma same_columns: "same_matrix M N \<Longrightarrow> same_matrix (ref_columns M) (ref_columns N)"
  by (simp add: same_matrix_def ref_columns_def)

lemma same_shift: "same_matrix M N \<Longrightarrow> same_matrix (ref_shift M) (ref_shift N)"
  by (simp add: same_matrix_def ref_shift_def)

lemma same_unshift: "same_matrix M N \<Longrightarrow> same_matrix (ref_unshift M) (ref_unshift N)"
  by (simp add: same_matrix_def ref_unshift_def)

lemma double_round_ref:
  assumes x: "length x = 16" and m: "same_matrix (ref_matrix x) M"
  shows "same_matrix (ref_matrix (chacha_double_round x)) (ref_double_round M)"
proof -
  have e: "chacha_double_round x = diagonal_rounds (column_rounds x)"
    by (simp add: chacha_double_round_def diagonal_rounds_def column_rounds_def)
  have "same_matrix (ref_matrix (column_rounds x)) (ref_columns (ref_matrix x))"
    using column_rounds_ref [OF x] by (simp add: same_matrix_def ref_matrix_def)
  then have "same_matrix (ref_matrix (column_rounds x)) (ref_columns M)"
    using same_columns [OF m] by (simp add: same_matrix_def)
  then have "same_matrix (ref_unshift (ref_columns (ref_shift (ref_matrix (column_rounds x))))) (ref_double_round M)"
    unfolding ref_double_round_def by (intro same_unshift same_columns same_shift)
  moreover have "same_matrix (ref_matrix (diagonal_rounds (column_rounds x)))
      (ref_unshift (ref_columns (ref_shift (ref_matrix (column_rounds x)))))"
    using diagonal_rounds_ref [of "column_rounds x"] x by (simp add: same_matrix_def ref_matrix_def)
  ultimately show ?thesis unfolding e by (simp add: same_matrix_def)
qed

lemma rounds_ref:
  "length x = 16 \<Longrightarrow> same_matrix (ref_matrix x) M \<Longrightarrow>
   same_matrix (ref_matrix (chacha_rounds n x)) ((ref_double_round ^^ n) M)"
proof (induction n arbitrary: x M)
  case (Suc n)
  have "same_matrix (ref_matrix (chacha_rounds n (chacha_double_round x))) ((ref_double_round ^^ n) (ref_double_round M))"
    by (rule Suc.IH) (simp_all add: Suc.prems double_round_ref)
  then show ?case by (simp add: funpow_swap1)
qed simp

lemma block_words_ref:
  assumes "length inp = 16"
  shows "block_words inp = ref_block inp"
proof -
  have m: "same_matrix (ref_matrix (chacha_rounds 10 inp)) ((ref_double_round ^^ 10) (ref_matrix inp))"
    by (rule rounds_ref [OF assms]) (simp add: same_matrix_def)
  have "chacha_rounds 10 inp ! i + inp ! i =
      (ref_double_round ^^ 10) (ref_matrix inp) (i div 4) (i mod 4) + ref_matrix inp (i div 4) (i mod 4)" if "i < 16" for i
  proof -
    have "i div 4 < 4" "i mod 4 < 4" "4 * (i div 4) + i mod 4 = i" using that by auto
    then show ?thesis using m unfolding same_matrix_def ref_matrix_def by metis
  qed
  then show ?thesis unfolding block_words_def ref_block_def Let_def by (intro map_cong refl) simp
qed

section \<open>Properties\<close>

text \<open>
  C34: words are handed out in key-stream order, each exactly once: from a well-formed context
  the first n calls of chacha_next32 return the n first words of what is left of the current
  block followed by the blocks of the successive counters, and a call leaves the context
  well-formed, which says in particular that every word already handed out has been reset to 0.
\<close>

theorem chacha_stream:
  assumes "wf_ctx ctx" "n \<le> length (pending ctx) + 16 * m"
  shows "chacha_outputs n ctx = take n (pending ctx @ keystream (input ctx) m)
     \<and> wf_ctx (snd (chacha_next32 ctx))"
  using chacha_outputs_stream [OF assms] next32_step(1) [OF assms(1)]
  by (cases "chacha_next32 ctx") auto

lemma chacha_stream_witness:
  "chacha_outputs 40 (chacha_init (replicate 32 7) 5)
      = take 40 (pending (chacha_init (replicate 32 7) 5) @ keystream (input (chacha_init (replicate 32 7) 5)) 3)
   \<and> wf_ctx (snd (chacha_next32 (chacha_init (replicate 32 7) 5)))"
  by (rule chacha_stream) (simp_all add: chacha_init_wf)

text \<open>
  a generator does not repeat a block input within 2^96 blocks, and then returns to the
  first one: the counter of words 12 to 14 is incremented with its carries, the other words
  never change; and the twenty rounds permute the states, so different inputs are scrambled
  to different values.
\<close>

theorem chacha_blocks_distinct:
  assumes "length inp = 16"
  shows "((chacha_increment ^^ i) inp = (chacha_increment ^^ j) inp \<longleftrightarrow> i mod 2 ^ 96 = j mod 2 ^ 96)
     \<and> inj_on (chacha_rounds (MI_CHACHA_ROUNDS div 2)) {x. length x = 16}"
proof -
  have counter: "chacha_counter ((chacha_increment ^^ n) inp) = (chacha_counter inp + n) mod 2 ^ 96" for n
    by (rule chacha_counter_funpow [OF assms chacha_counter_lt])
  have "(chacha_increment ^^ i) inp = (chacha_increment ^^ j) inp
      \<longleftrightarrow> chacha_counter ((chacha_increment ^^ i) inp) = chacha_counter ((chacha_increment ^^ j) inp)"
  proof
    assume eq: "chacha_counter ((chacha_increment ^^ i) inp) = chacha_counter ((chacha_increment ^^ j) inp)"
    show "(chacha_increment ^^ i) inp = (chacha_increment ^^ j) inp"
    proof (rule nth_equalityI)
      show "(chacha_increment ^^ i) inp ! k = (chacha_increment ^^ j) inp ! k" for k
        using chacha_counter_inj [OF eq] funpow_increment_other [of k]
        by (cases "k \<in> {12, 13, 14}") auto
    qed simp
  qed simp
  then show ?thesis unfolding counter mod_shift_eq_iff
    using rounds_inj by (auto intro!: inj_onI)
qed

lemma chacha_blocks_distinct_witness:
  "((chacha_increment ^^ 3) (replicate 16 7) = (chacha_increment ^^ 5) (replicate 16 7)
      \<longleftrightarrow> (3::nat) mod 2 ^ 96 = 5 mod 2 ^ 96)
   \<and> inj_on (chacha_rounds (MI_CHACHA_ROUNDS div 2)) {x. length x = 16}"
  by (rule chacha_blocks_distinct) simp

text \<open>
  The test vector of RFC 8439, section 2.3.2 (the one in the comment at the end of random.c).
\<close>

lemma chacha_block_rfc8439:
  "out_words (chacha_block \<lparr>input =
     [0x61707865, 0x3320646e, 0x79622d32, 0x6b206574, 0x03020100, 0x07060504, 0x0b0a0908, 0x0f0e0d0c,
      0x13121110, 0x17161514, 0x1b1a1918, 0x1f1e1d1c, 0x00000001, 0x09000000, 0x4a000000, 0x00000000],
     out_words = replicate 16 0, output_available = 0, weak = False\<rparr>)
   = [0xe4e7f110, 0x15593bd1, 0x1fdd0f50, 0xc47120a3, 0xc7f4d1c7, 0x0368c033, 0x9aaa2204, 0x4e6cd4c3,
      0x466482d2, 0x09aa9f07, 0x05d7c214, 0xa2028bd9, 0xd19c12b5, 0xb94e16de, 0xe883d0cb, 0x4e3c50a2]"
proof -
  note vectors = chacha_vector_1 chacha_vector_2 chacha_vector_3 chacha_vector_4 chacha_vector_5
    chacha_vector_6 chacha_vector_7 chacha_vector_8 chacha_vector_9 chacha_vector_10
  have "chacha_rounds (Suc (Suc (Suc (Suc (Suc (Suc (Suc (Suc (Suc (Suc 0))))))))))
     [0x61707865, 0x3320646e, 0x79622d32, 0x6b206574, 0x03020100, 0x07060504, 0x0b0a0908, 0x0f0e0d0c,
      0x13121110, 0x17161514, 0x1b1a1918, 0x1f1e1d1c, 0x00000001, 0x09000000, 0x4a000000, 0x00000000]
    = [0x837778ab, 0xe238d763, 0xa67ae21e, 0x5950bb2f, 0xc4f2d0c7, 0xfc62bb2f, 0x8fa018fc, 0x3f5ec7b7,
      0x335271c2, 0xf29489f3, 0xeabda8fc, 0x82e46ebd, 0xd19c12b4, 0xb04e16de, 0x9e83d0cb, 0x4e3c50a2]"
    unfolding chacha_rounds.simps vectors ..
  moreover have "Suc (Suc (Suc (Suc (Suc (Suc (Suc (Suc (Suc (Suc 0))))))))) = 10" by simp
  moreover have "[0..<16] = [0, 1, 2, 3, 4, 5, 6, 7, 8, 9, 10, 11, 12, 13, 14, 15 :: nat]" by code_simp
  ultimately show ?thesis by (simp add: chacha_block_fields block_words_def)
qed

text \<open>
  C35: the block function is that of RFC 8439, for every input: the words produced are those of
  the RFC's definition in matrix form (ten double rounds of column and diagonal rounds, added to
  the input), all sixteen become available, and the next block uses the same key with the counter
  one higher, modulo 2^96 (the RFC has a counter of 32 bits and leaves its overflow to the caller).
\<close>

theorem chacha_block_reference:
  assumes "length (input ctx) = 16"
  shows "out_words (chacha_block ctx) = ref_block (input ctx) \<and> output_available (chacha_block ctx) = 16 \<and>
    chacha_counter (input (chacha_block ctx)) = (chacha_counter (input ctx) + 1) mod 2 ^ 96 \<and>
    length (input (chacha_block ctx)) = 16 \<and>
    (\<forall>k. k \<notin> {12, 13, 14} \<longrightarrow> input (chacha_block ctx) ! k = input ctx ! k)"
  using block_words_ref [OF assms] chacha_counter_increment [OF assms] chacha_increment_other assms
  by (simp add: chacha_block_fields)

text \<open>So the definition in matrix form has the test vector of the RFC.\<close>

lemma chacha_block_reference_witness:
  "ref_block [0x61707865, 0x3320646e, 0x79622d32, 0x6b206574, 0x03020100, 0x07060504, 0x0b0a0908, 0x0f0e0d0c,
      0x13121110, 0x17161514, 0x1b1a1918, 0x1f1e1d1c, 0x00000001, 0x09000000, 0x4a000000, 0x00000000]
   = [0xe4e7f110, 0x15593bd1, 0x1fdd0f50, 0xc47120a3, 0xc7f4d1c7, 0x0368c033, 0x9aaa2204, 0x4e6cd4c3,
      0x466482d2, 0x09aa9f07, 0x05d7c214, 0xa2028bd9, 0xd19c12b5, 0xb94e16de, 0xe883d0cb, 0x4e3c50a2]"
proof -
  let ?ctx = "\<lparr>input =
     [0x61707865, 0x3320646e, 0x79622d32, 0x6b206574, 0x03020100, 0x07060504, 0x0b0a0908, 0x0f0e0d0c,
      0x13121110, 0x17161514, 0x1b1a1918, 0x1f1e1d1c, 0x00000001, 0x09000000, 0x4a000000, 0x00000000],
     out_words = replicate 16 0, output_available = 0, weak = False\<rparr>"
  have l: "length (input ?ctx) = 16" by simp
  have "input ?ctx = [0x61707865, 0x3320646e, 0x79622d32, 0x6b206574, 0x03020100, 0x07060504, 0x0b0a0908, 0x0f0e0d0c,
      0x13121110, 0x17161514, 0x1b1a1918, 0x1f1e1d1c, 0x00000001, 0x09000000, 0x4a000000, 0x00000000]" by simp
  from chacha_block_reference [OF l, THEN conjunct1, unfolded chacha_block_rfc8439 this]
  show ?thesis by (rule sym)
qed

text \<open>
  every way of initialising a context gives a well-formed context, recognised as
  initialised, with no word available, so that the first call computes a block; splitting one
  keeps the key, starts a block at counter 0 under the nonce of the new context's address, and
  is again well-formed. The weak seed the fallback key is derived from is never 0.
\<close>

theorem mi_random_init_split_wf:
  assumes "wf_ctx parent" "mi_random_is_initialized parent"
  shows "wf_ctx (mi_random_init_ex os addr ctx w) \<and> mi_random_is_initialized (mi_random_init_ex os addr ctx w)
     \<and> pending (mi_random_init_ex os addr ctx w) = []
     \<and> wf_ctx (mi_random_split parent a) \<and> mi_random_is_initialized (mi_random_split parent a)
     \<and> pending (mi_random_split parent a) = block_words ((input parent)
          [12 := 0, 13 := 0, 14 := ucast a, 15 := ucast (drop_bit 32 a)])
     \<and> mi_os_random_weak (fn_address os) (clock_time os) 0 \<noteq> 0"
proof -
  have l: "length (input parent) = 16" using assms(1) by (simp add: wf_ctx_def)
  have "input (mi_random_split parent a) ! 0 = input parent ! 0"
    by (simp add: mi_random_split_def chacha_split_def chacha_block_fields chacha_increment_other)
  moreover have "wf_ctx (mi_random_split parent a)"
    unfolding mi_random_split_def chacha_split_def by (rule wf_chacha_block) (simp add: l)
  ultimately show ?thesis
    using assms mi_random_init_ex_wf [of os addr ctx w] mi_os_random_weak_nonzero
    by (simp add: mi_random_is_initialized_def pending_def mi_random_split_def chacha_split_def
        chacha_block_fields)
qed

lemma mi_random_init_split_wf_witness:
  "wf_ctx (mi_random_init_ex \<lparr>random_buf = Some (replicate 32 3), fn_address = 9, clock_time = 4\<rparr> 64
        (chacha_init (replicate 32 7) 5) False) \<and> mi_random_is_initialized (mi_random_init_ex \<lparr>random_buf = Some (replicate 32 3), fn_address = 9, clock_time = 4\<rparr> 64
        (chacha_init (replicate 32 7) 5) False)
     \<and> pending (mi_random_init_ex \<lparr>random_buf = Some (replicate 32 3), fn_address = 9, clock_time = 4\<rparr> 64
        (chacha_init (replicate 32 7) 5) False) = []
     \<and> wf_ctx (mi_random_split (chacha_init (replicate 32 7) 5) 8) \<and> mi_random_is_initialized (mi_random_split (chacha_init (replicate 32 7) 5) 8)
     \<and> pending (mi_random_split (chacha_init (replicate 32 7) 5) 8) = block_words ((input (chacha_init (replicate 32 7) 5))
          [12 := 0, 13 := 0, 14 := ucast (8 :: 64 word), 15 := ucast (drop_bit 32 (8 :: 64 word))])
     \<and> mi_os_random_weak (fn_address \<lparr>random_buf = Some (replicate 32 3), fn_address = 9, clock_time = 4\<rparr>) (clock_time \<lparr>random_buf = Some (replicate 32 3), fn_address = 9, clock_time = 4\<rparr>) 0 \<noteq> 0"
  by (rule mi_random_init_split_wf) (simp_all only: chacha_init_wf)

text \<open>
  The weak flag does not survive initialisation. mi_random_init_ex sets it before it calls
  chacha_init, which clears the whole context, so it is false for a context that was seeded
  from the clock, and _mi_random_reinit_if_weak, which is meant to seed such a context again
  when the operating system's randomness is available, returns it unchanged.
\<close>

theorem mi_random_weak_flag_lost:
  "\<not> weak (mi_random_init_weak os addr ctx)
   \<and> mi_random_reinit_if_weak os' addr (mi_random_init_weak os addr ctx) = mi_random_init_weak os addr ctx"
  using mi_random_init_ex_wf(4) [of os addr ctx True]
  by (simp add: mi_random_reinit_if_weak_def mi_random_init_weak_def)

end
