(* ===== verification/Wire.thy ===== *)
theory Wire
  imports Prelude
begin

text \<open>
  The wire format of TraceLog (Public/Trace/Detail/Transport.h, Protocols/Protocol5.h and
  Protocol6.h): little-endian fields, packet headers and the numbers of the transport and
  the protocol, together with a reader of packet streams. The reader is the specification
  the theories of the writer refer to; the repository holds the writing side only.
\<close>

section \<open>Little-endian fields\<close>

definition le16 :: "u16 \<Rightarrow> u8 list" where
  "le16 w = [ucast w, ucast (drop_bit 8 w)]"

definition le32 :: "u32 \<Rightarrow> u8 list" where
  "le32 w = [ucast w, ucast (drop_bit 8 w), ucast (drop_bit 16 w), ucast (drop_bit 24 w)]"

definition le64 :: "u64 \<Rightarrow> u8 list" where
  "le64 w = [ucast w, ucast (drop_bit 8 w), ucast (drop_bit 16 w), ucast (drop_bit 24 w),
     ucast (drop_bit 32 w), ucast (drop_bit 40 w), ucast (drop_bit 48 w), ucast (drop_bit 56 w)]"

definition of_le16 :: "u8 \<Rightarrow> u8 \<Rightarrow> u16" where
  "of_le16 a b = ucast a OR push_bit 8 (ucast b)"

lemma length_le [simp]: "length (le16 w) = 2" "length (le32 v) = 4" "length (le64 u) = 8"
  by (simp_all add: le16_def le32_def le64_def)

lemma of_le16_le16 [simp]: "of_le16 (ucast w) (ucast (drop_bit 8 w)) = w"
  unfolding of_le16_def
  by (rule bit_word_eqI) (auto simp: bit_simps)

lemma of_le16_nat: "n < 2 ^ 16 \<Longrightarrow>
    unat (of_le16 (le16 (of_nat n) ! 0) (le16 (of_nat n) ! 1)) = n"
  by (simp add: le16_def unat_of_nat)

section \<open>Transport.h\<close>

definition ETransport_TidPacketSync :: u8 where "ETransport_TidPacketSync = 4"
definition ETransportTid_Events :: u32 where "ETransportTid_Events = 0"
definition ETransportTid_Internal :: u32 where "ETransportTid_Internal = 1"
definition ETransportTid_Importants :: u32 where "ETransportTid_Importants = ETransportTid_Internal"
definition ETransportTid_Bias :: u32 where "ETransportTid_Bias = 2"
definition ETransportTid_Sync :: u32 where "ETransportTid_Sync = 0x3fff"

definition EncodedMarker :: u16 where "EncodedMarker = 0x8000"
definition PartialMarker :: u16 where "PartialMarker = 0x4000"
definition ThreadIdMask :: u16 where "ThreadIdMask = PartialMarker - 1"

text \<open>FTidPacketBase and FTidPacket have 4 bytes, FTidPacketEncoded has 6.\<close>

definition sizeof_FTidPacket :: nat where "sizeof_FTidPacket = 4"
definition sizeof_FTidPacketEncoded :: nat where "sizeof_FTidPacketEncoded = 6"

definition tid_packet :: "u16 \<Rightarrow> u16 \<Rightarrow> u8 list \<Rightarrow> u8 list" where
  "tid_packet psize tid data = le16 psize @ le16 tid @ data"

definition tid_packet_encoded :: "u16 \<Rightarrow> u16 \<Rightarrow> u16 \<Rightarrow> u8 list \<Rightarrow> u8 list" where
  "tid_packet_encoded psize tid decoded data = le16 psize @ le16 tid @ le16 decoded @ data"

section \<open>Protocol5.h and Protocol6.h\<close>

definition EProtocol_Id :: u8 where "EProtocol_Id = 6"

definition UidShift :: nat where "UidShift = 1"
definition Flag_TwoByteUid :: u16 where "Flag_TwoByteUid = 1"
definition Uid_NewEvent :: u16 where "Uid_NewEvent = 0"
definition Uid_AuxData :: u16 where "Uid_AuxData = 1"
definition Uid_AuxDataTerminal :: u16 where "Uid_AuxDataTerminal = 3"
definition Uid_EnterScope :: u16 where "Uid_EnterScope = 4"
definition Uid_LeaveScope :: u16 where "Uid_LeaveScope = 5"
definition Uid_EnterScope_T :: u16 where "Uid_EnterScope_T = 8"
definition Uid_LeaveScope_T :: u16 where "Uid_LeaveScope_T = 12"
definition Uid_User :: u16 where "Uid_User = 16"
definition Uid_Max :: u16 where "Uid_Max = push_bit (16 - UidShift) 1 - 1"
definition Uid_Invalid :: u16 where "Uid_Invalid = Uid_Max"

definition FieldShift :: nat where "FieldShift = 8"
definition FieldBits :: nat where "FieldBits = 5"
definition FieldMask :: u32 where "FieldMask = push_bit FieldBits 1 - 1"
definition SizeShift :: nat where "SizeShift = FieldShift + FieldBits"
definition SizeLimit :: nat where "SizeLimit = 2 ^ (32 - SizeShift)"
definition sizeof_FAuxHeader :: nat where "sizeof_FAuxHeader = 4"
definition sizeof_FImportantEventHeader :: nat where "sizeof_FImportantEventHeader = 4"

lemmas wire_consts = ETransport_TidPacketSync_def ETransportTid_Events_def
  ETransportTid_Internal_def ETransportTid_Importants_def ETransportTid_Bias_def
  ETransportTid_Sync_def EncodedMarker_def PartialMarker_def ThreadIdMask_def
  sizeof_FTidPacket_def sizeof_FTidPacketEncoded_def

section \<open>Reading packets\<close>

text \<open>
  A packet starts with its size, header included. One step of the reader takes a packet off
  the front of a byte stream: its thread number (the two upper bits removed), its marker bits
  and its payload.
\<close>

definition packet_size_at :: "u8 list \<Rightarrow> nat \<Rightarrow> nat option" where
  "packet_size_at d i =
     (if Suc i < length d then Some (unat (of_le16 (d ! i) (d ! Suc i))) else None)"

text \<open>
  A list of whole packets: each has a header, and its size field is its length.
\<close>

definition packet_ok :: "u8 list \<Rightarrow> bool" where
  "packet_ok p \<longleftrightarrow> 4 \<le> length p \<and> length p < 2 ^ 16 \<and> take 2 p = le16 (of_nat (length p))"

lemma packet_ok_pos: "packet_ok p \<Longrightarrow> 0 < length p"
  by (auto simp: packet_ok_def)

lemma packet_ok_ne [simp]: "\<not> packet_ok []"
  by (simp add: packet_ok_def)

lemma packet_size_at_packet:
  assumes "packet_ok p"
  shows "packet_size_at (xs @ p @ ys) (length xs) = Some (length p)"
proof -
  have l: "4 \<le> length p" "length p < 2 ^ 16" and t: "take 2 p = le16 (of_nat (length p))"
    using assms by (auto simp: packet_ok_def)
  have "p ! 0 = le16 (of_nat (length p)) ! 0" "p ! 1 = le16 (of_nat (length p)) ! 1"
    using t l by (metis nth_take zero_less_numeral, metis nth_take one_less_numeral_iff semiring_norm(76))
  then have "unat (of_le16 (p ! 0) (p ! 1)) = length p"
    using of_le16_nat [OF l(2)] by simp
  moreover have "(xs @ p @ ys) ! length xs = p ! 0" "(xs @ p @ ys) ! Suc (length xs) = p ! 1"
    using l by (auto simp: nth_append)
  ultimately show ?thesis
    using l by (simp add: packet_size_at_def)
qed

text \<open>
  What a packet says: the thread number and the payload. The payload of an encoded packet is
  decoded with \<open>dec\<close>, which stands for LZ4 on the reading side, and has the length that the
  packet announces.
\<close>

definition packet_tid :: "u8 list \<Rightarrow> u16" where
  "packet_tid p = of_le16 (p ! 2) (p ! 3)"

definition packet_payload :: "(u8 list \<Rightarrow> u8 list option) \<Rightarrow> u8 list \<Rightarrow> u8 list option" where
  "packet_payload dec p =
     (if packet_tid p AND EncodedMarker = 0 then Some (drop 4 p)
      else (case dec (drop 6 p) of None \<Rightarrow> None
            | Some x \<Rightarrow> if length x = unat (of_le16 (p ! 4) (p ! 5)) then Some x else None))"

definition packet_means :: "(u8 list \<Rightarrow> u8 list option) \<Rightarrow> u16 \<Rightarrow> u8 list \<Rightarrow> u8 list \<Rightarrow> bool" where
  "packet_means dec tid data p \<longleftrightarrow>
     packet_ok p \<and> packet_tid p AND ThreadIdMask = tid AND ThreadIdMask \<and>
     packet_payload dec p = Some data"

lemma tid_packet_ok:
  assumes "length data + 4 < 2 ^ 16"
  shows "packet_ok (tid_packet (of_nat (length data + 4)) tid data)"
  using assms by (simp add: packet_ok_def tid_packet_def le16_def add.commute)

lemma tid_packet_encoded_ok:
  assumes "length data + 6 < 2 ^ 16"
  shows "packet_ok (tid_packet_encoded (of_nat (length data + 6)) tid n data)"
  using assms by (simp add: packet_ok_def tid_packet_encoded_def le16_def add.commute)

lemma tid_packet_means:
  assumes "length data + 4 < 2 ^ 16" and "tid AND EncodedMarker = 0"
  shows "packet_means dec tid data (tid_packet (of_nat (length data + 4)) tid data)"
proof -
  have "packet_tid (tid_packet (of_nat (length data + 4)) tid data) = tid"
    by (simp add: packet_tid_def tid_packet_def le16_def)
  moreover have "drop 4 (tid_packet (of_nat (length data + 4)) tid data) = data"
    by (simp add: tid_packet_def le16_def)
  ultimately show ?thesis
    using assms tid_packet_ok [OF assms(1)] by (simp add: packet_means_def packet_payload_def)
qed

lemma tid_packet_encoded_means:
  assumes "length enc + 6 < 2 ^ 16" and "dec enc = Some data" and "length data < 2 ^ 16"
    and "tid AND EncodedMarker \<noteq> 0"
  shows "packet_means dec tid data
           (tid_packet_encoded (of_nat (length enc + 6)) tid (of_nat (length data)) enc)"
    (is "packet_means _ _ _ ?p")
proof -
  have "packet_tid ?p = tid"
    by (simp add: packet_tid_def tid_packet_encoded_def le16_def)
  moreover have "drop 6 ?p = enc"
    by (simp add: tid_packet_encoded_def le16_def)
  moreover have "of_le16 (?p ! 4) (?p ! 5) = (of_nat (length data) :: u16)"
    by (simp add: tid_packet_encoded_def le16_def)
  ultimately show ?thesis
    using assms tid_packet_encoded_ok [OF assms(1)]
    by (simp add: packet_means_def packet_payload_def unat_of_nat)
qed

end
