(* ===== verification/ThreadBuffers.thy ===== *)
theory ThreadBuffers
  imports Wire
begin

text \<open>
  The write buffers of the tracing threads (Private/Trace/TlsBuffer.cpp, Detail/Writer.inl).
  Each thread writes events into a buffer of its own and links a new one when it is full; one
  worker drains all buffers and gives the finished ones back to the pool. A buffer is named by
  its address, and the pointers into it, Cursor, Committed and Reaped, are offsets from that
  address: the data of a buffer lies before its header, so that the offsets run from minus Size
  up, and past zero into the eight bytes of overflow. None is a null pointer read or written.
\<close>

section \<open>State\<close>

record write_buffer =
  PrevTimestamp :: u64
  NextThread :: "nat option"
  NextBuffer :: "nat option"
  Cursor :: int
  Committed :: int
  Reaped :: int
  EtxOffset :: int
  bufSize :: nat
  ThreadId :: u16
  bmem :: "int \<Rightarrow> u8"

text \<open>
  GTlsWriteBuffer is thread-local: one value for each thread, None for the null buffer.
\<close>

record thread_buffers =
  buf_at :: "nat \<Rightarrow> write_buffer"
  GTlsWriteBuffer :: "nat \<Rightarrow> nat option"
  GNewThreadList :: "nat option"
  GActiveThreadList :: "nat option"

definition sizeof_FWriteBuffer :: nat where "sizeof_FWriteBuffer = 64"
definition sizeof_Overflow :: nat where "sizeof_Overflow = 8"

definition upd_buf :: "nat \<Rightarrow> (write_buffer \<Rightarrow> write_buffer) \<Rightarrow> 'a thread_buffers_scheme \<Rightarrow> 'a thread_buffers_scheme" where
  "upd_buf b f s = s\<lparr>buf_at := (buf_at s)(b := f (buf_at s b))\<rparr>"

text \<open>The bytes of a buffer between two offsets, and a copy into it.\<close>

definition bytes_between :: "write_buffer \<Rightarrow> int \<Rightarrow> int \<Rightarrow> u8 list" where
  "bytes_between x i j = map (bmem x) [i..j - 1]"

definition put_bytes :: "int \<Rightarrow> u8 list \<Rightarrow> (int \<Rightarrow> u8) \<Rightarrow> int \<Rightarrow> u8" where
  "put_bytes i xs m = (\<lambda>k. if i \<le> k \<and> k < i + int (length xs) then xs ! nat (k - i) else m k)"

text \<open>Writing at the cursor: the code stores the bytes and moves Cursor.\<close>

definition emit :: "nat \<Rightarrow> u8 list \<Rightarrow> 'a thread_buffers_scheme \<Rightarrow> 'a thread_buffers_scheme" where
  "emit b xs = upd_buf b (\<lambda>x. x\<lparr>bmem := put_bytes (Cursor x) xs (bmem x),
     Cursor := Cursor x + int (length xs)\<rparr>)"

definition commit :: "nat \<Rightarrow> 'a thread_buffers_scheme \<Rightarrow> 'a thread_buffers_scheme" where
  "commit b = upd_buf b (\<lambda>x. x\<lparr>Committed := Cursor x\<rparr>)"

section \<open>A new buffer\<close>

text \<open>
  Writer_NextBufferInternal on the block \<open>nb\<close> that came from the pool, in the pieces that other
  threads can see one after the other: the set-up of the block, with the events \<open>redirected\<close>
  that were traced while the pool allocated memory; the switch of the thread to it; and then
  either its publication as a new thread or the retirement of the current buffer.
\<close>

definition nextbuf_setup :: "nat \<Rightarrow> u8 list \<Rightarrow> 'a thread_buffers_scheme \<Rightarrow> 'a thread_buffers_scheme" where
  "nextbuf_setup nb redirected s =
     (let s = upd_buf nb (\<lambda>x. x\<lparr>Cursor := - int (bufSize x)\<rparr>) s;
          s = upd_buf nb (\<lambda>x. x\<lparr>Reaped := Cursor x, EtxOffset := 0 - int sizeof_FWriteBuffer, NextBuffer := None\<rparr>) s;
          s = (if redirected = [] then s else emit nb redirected s)
      in upd_buf nb (\<lambda>x. x\<lparr>Committed := Cursor x\<rparr>) s)"

definition set_tls :: "nat \<Rightarrow> nat \<Rightarrow> 'a thread_buffers_scheme \<Rightarrow> 'a thread_buffers_scheme" where
  "set_tls t nb s = s\<lparr>GTlsWriteBuffer := (GTlsWriteBuffer s)(t := Some nb)\<rparr>"

text \<open>
  The first buffer of a thread gets its number and the time, traces the event ThreadTiming
  (here its bytes, \<open>timing\<close>, which fit in any new buffer) and is pushed on the list of new threads.
\<close>

definition nextbuf_first :: "nat \<Rightarrow> u16 \<Rightarrow> u64 \<Rightarrow> u8 list \<Rightarrow> 'a thread_buffers_scheme \<Rightarrow> 'a thread_buffers_scheme" where
  "nextbuf_first nb tid now timing s =
     (let s = upd_buf nb (\<lambda>x. x\<lparr>ThreadId := tid, PrevTimestamp := now\<rparr>) s
      in commit nb (emit nb timing s))"

definition nextbuf_publish :: "nat \<Rightarrow> 'a thread_buffers_scheme \<Rightarrow> 'a thread_buffers_scheme" where
  "nextbuf_publish nb s =
     (let s = upd_buf nb (\<lambda>x. x\<lparr>NextThread := GNewThreadList s\<rparr>) s
      in s\<lparr>GNewThreadList := Some nb\<rparr>)"

definition nextbuf_link :: "nat \<Rightarrow> nat \<Rightarrow> 'a thread_buffers_scheme \<Rightarrow> 'a thread_buffers_scheme" where
  "nextbuf_link cur nb s =
     (let s = upd_buf cur (\<lambda>x. x\<lparr>NextBuffer := Some nb\<rparr>) s
      in upd_buf nb (\<lambda>x. x\<lparr>ThreadId := ThreadId (buf_at s cur),
             PrevTimestamp := PrevTimestamp (buf_at s cur)\<rparr>) s)"

definition retire_current :: "nat \<Rightarrow> 'a thread_buffers_scheme \<Rightarrow> 'a thread_buffers_scheme" where
  "retire_current cur = upd_buf cur (\<lambda>x. x\<lparr>EtxOffset := 0 - Cursor x\<rparr>)"

definition Writer_NextBufferInternal ::
  "nat \<Rightarrow> nat option \<Rightarrow> nat \<Rightarrow> u8 list \<Rightarrow> u16 \<Rightarrow> u64 \<Rightarrow> u8 list \<Rightarrow> 'a thread_buffers_scheme \<Rightarrow> 'a thread_buffers_scheme" where
  "Writer_NextBufferInternal t CurrentBuffer nb redirected tid now timing s =
     (let s = set_tls t nb (nextbuf_setup nb redirected s) in
      case CurrentBuffer of
        None \<Rightarrow> nextbuf_publish nb (nextbuf_first nb tid now timing s)
      | Some cur \<Rightarrow> retire_current cur (nextbuf_link cur nb s))"

definition Writer_NextBuffer ::
  "nat \<Rightarrow> nat \<Rightarrow> u8 list \<Rightarrow> u16 \<Rightarrow> u64 \<Rightarrow> u8 list \<Rightarrow> 'a thread_buffers_scheme \<Rightarrow> 'a thread_buffers_scheme" where
  "Writer_NextBuffer t nb redirected tid now timing s =
     Writer_NextBufferInternal t (GTlsWriteBuffer s t) nb redirected tid now timing s"

definition Writer_EndThreadBuffer :: "nat \<Rightarrow> 'a thread_buffers_scheme \<Rightarrow> 'a thread_buffers_scheme" where
  "Writer_EndThreadBuffer t s =
     (case GTlsWriteBuffer s t of None \<Rightarrow> s | Some b \<Rightarrow> retire_current b s)"

section \<open>Draining\<close>

text \<open>
  Writer_DrainBuffer reads Committed once, hands the new bytes to Writer_TailAppend and then
  looks whether the buffer is still in use. What is handed on is returned as a list.
\<close>

definition drain_reap :: "u16 \<Rightarrow> nat \<Rightarrow> 'a thread_buffers_scheme \<Rightarrow> int \<times> (u16 \<times> u8 list) list \<times> 'a thread_buffers_scheme" where
  "drain_reap tid b s =
     (let x = buf_at s b; committed = Committed x in
      if committed = Reaped x then (committed, [], s)
      else (committed, [(tid, bytes_between x (Reaped x) committed)],
            upd_buf b (\<lambda>x. x\<lparr>Reaped := committed\<rparr>) s))"

definition drain_in_use :: "nat \<Rightarrow> int \<Rightarrow> 'a thread_buffers_scheme \<Rightarrow> bool" where
  "drain_in_use b committed s \<longleftrightarrow> 0 - EtxOffset (buf_at s b) > committed"

definition Writer_DrainBuffer :: "u16 \<Rightarrow> nat \<Rightarrow> 'a thread_buffers_scheme \<Rightarrow> bool \<times> (u16 \<times> u8 list) list \<times> 'a thread_buffers_scheme" where
  "Writer_DrainBuffer tid b s =
     (let (committed, out, s) = drain_reap tid b s in (drain_in_use b committed s, out, s))"

text \<open>The list of retired buffers, linked through NextBuffer.\<close>

definition retire_insert :: "nat \<Rightarrow> (nat option \<times> nat option) \<times> 'a thread_buffers_scheme \<Rightarrow>
    (nat option \<times> nat option) \<times> 'a thread_buffers_scheme" where
  "retire_insert b rs =
     (let ((head, last_b), s) = rs;
          s = upd_buf b (\<lambda>x. x\<lparr>NextBuffer := head\<rparr>) s
      in ((Some b, (case last_b of None \<Rightarrow> Some b | Some t \<Rightarrow> Some t)), s))"

text \<open>The buffers of one thread, then the threads of a list. The number of the thread is read
  once, from its first buffer.\<close>

type_synonym 'a drain_state = "(u16 \<times> u8 list) list \<times> (nat option \<times> nat option) \<times> 'a thread_buffers_scheme"

partial_function (option) drain_chain :: "u16 \<Rightarrow> nat option \<Rightarrow> 'a drain_state \<Rightarrow> (nat option \<times> 'a drain_state) option" where
  "drain_chain tid b st =
     (case b of None \<Rightarrow> Some (None, st)
      | Some b \<Rightarrow>
          let (out, rl, s) = st;
              (used, o1, s) = Writer_DrainBuffer tid b s
          in if used then Some (Some b, (out @ o1, rl, s))
             else let n = NextBuffer (buf_at s b); (rl, s) = retire_insert b (rl, s)
                  in drain_chain tid n (out @ o1, rl, s))"

definition keep_thread :: "nat option \<Rightarrow> 'a thread_buffers_scheme \<Rightarrow> 'a thread_buffers_scheme" where
  "keep_thread b s =
     (case b of None \<Rightarrow> s
      | Some b \<Rightarrow> (upd_buf b (\<lambda>x. x\<lparr>NextThread := GActiveThreadList s\<rparr>) s)\<lparr>GActiveThreadList := Some b\<rparr>)"

partial_function (option) drain_threads :: "nat option \<Rightarrow> 'a drain_state \<Rightarrow> 'a drain_state option" where
  "drain_threads b st =
     (case b of None \<Rightarrow> Some st
      | Some b \<Rightarrow> do {
          let (out, rl, s) = st;
          let next_thread = NextThread (buf_at s b);
          (b, out, rl, s) \<leftarrow> drain_chain (ThreadId (buf_at s b)) (Some b) (out, rl, s);
          drain_threads next_thread (out, rl, keep_thread b s) })"

partial_function (option) reverse_threads :: "nat option \<Rightarrow> nat option \<Rightarrow> 'a thread_buffers_scheme \<Rightarrow>
    (nat option \<times> 'a thread_buffers_scheme) option" where
  "reverse_threads cursor acc s =
     (case cursor of None \<Rightarrow> Some (acc, s)
      | Some b \<Rightarrow>
          let next_thread = NextThread (buf_at s b) in
          reverse_threads next_thread (Some b) (upd_buf b (\<lambda>x. x\<lparr>NextThread := acc\<rparr>) s))"

text \<open>
  The result is what was handed to Writer_TailAppend, in order, and the list given to
  Writer_FreeBlockListToPool, when there is one.
\<close>

definition Writer_DrainBuffers :: "'a thread_buffers_scheme \<Rightarrow> 'a drain_state option" where
  "Writer_DrainBuffers s = do {
     let new_list = GNewThreadList s;
     let s = s\<lparr>GNewThreadList := None\<rparr>;
     (new_list, s) \<leftarrow> reverse_threads new_list None s;
     let active = GActiveThreadList s;
     let s = s\<lparr>GActiveThreadList := None\<rparr>;
     st \<leftarrow> drain_threads active ([], (None, None), s);
     drain_threads new_list st }"

text \<open>The same for the active threads with the number of the calling thread only.\<close>

partial_function (option) drain_local_threads :: "u16 \<Rightarrow> nat option \<Rightarrow> 'a drain_state \<Rightarrow> 'a drain_state option" where
  "drain_local_threads tid b st =
     (case b of None \<Rightarrow> Some st
      | Some b \<Rightarrow> do {
          let (out, rl, s) = st;
          let next_thread = NextThread (buf_at s b);
          (b, out, rl, s) \<leftarrow> (if ThreadId (buf_at s b) = tid then drain_chain tid (Some b) (out, rl, s)
                            else Some (Some b, (out, rl, s)));
          drain_local_threads tid next_thread (out, rl, keep_thread b s) })"

definition Writer_DrainLocalBuffers :: "nat \<Rightarrow> 'a thread_buffers_scheme \<Rightarrow> 'a drain_state option" where
  "Writer_DrainLocalBuffers t s =
     (case GTlsWriteBuffer s t of None \<Rightarrow> Some ([], (None, None), s)
      | Some cur \<Rightarrow>
          drain_local_threads (ThreadId (buf_at s cur)) (GActiveThreadList s)
            ([], (None, None), s\<lparr>GActiveThreadList := None\<rparr>))"

section \<open>Threads and worker, interleaved\<close>

text \<open>
  The steps that the threads and the worker take, each with at most one access that another
  thread can observe. Beside the code's state, a configuration records where each thread is,
  the buffer at which the worker will next visit a thread (the worker's lists, one entry for
  each thread), the buffers taken from the pool and not yet given back with the thread they
  were taken for, and, for the statement of the properties, the bytes each thread has written
  and the bytes sent for it.
\<close>

datatype thread_pc = T_idle | T_run | T_linked nat | T_ended
datatype worker_pc = W_idle | W_reaped nat nat int

record tb_conc = thread_buffers +
  tpc :: "nat \<Rightarrow> thread_pc"
  wpc :: worker_pc
  entry :: "nat \<Rightarrow> nat option"
  live :: "nat set"
  owner :: "nat \<Rightarrow> nat"
  emitted :: "nat \<Rightarrow> u8 list"
  sent :: "nat \<Rightarrow> u8 list"

definition add_emitted :: "nat \<Rightarrow> u8 list \<Rightarrow> tb_conc \<Rightarrow> tb_conc" where
  "add_emitted t xs s = s\<lparr>emitted := (emitted s)(t := emitted s t @ xs)\<rparr>"

definition take_buffer :: "nat \<Rightarrow> nat \<Rightarrow> tb_conc \<Rightarrow> tb_conc" where
  "take_buffer t nb s = s\<lparr>live := insert nb (live s), owner := (owner s)(nb := t)\<rparr>"

text \<open>
  The rules \<open>put\<close> and \<open>commit\<close> state what the event macros (Detail/LogScope.inl) keep to: a
  thread writes into its current buffer, no further than the overflow; it commits its current
  buffer or one that still has uncommitted bytes.
\<close>

inductive tb_step :: "tb_conc \<Rightarrow> tb_conc \<Rightarrow> bool" where
  first: "tpc s t = T_idle \<Longrightarrow> nb \<notin> live s \<Longrightarrow>
    int (length red) + int (length timing) \<le> int (bufSize (buf_at s nb)) \<Longrightarrow>
    s1 = nextbuf_publish nb (nextbuf_first nb tid now timing (set_tls t nb (nextbuf_setup nb red s))) \<Longrightarrow>
    tb_step s ((add_emitted t (red @ timing) (take_buffer t nb s1))
      \<lparr>tpc := (tpc s)(t := T_run), entry := (entry s)(t := Some nb)\<rparr>)"
| put: "tpc s t = T_run \<Longrightarrow> GTlsWriteBuffer s t = Some b \<Longrightarrow>
    Cursor (buf_at s b) + int (length xs) \<le> int sizeof_Overflow \<Longrightarrow>
    tb_step s (add_emitted t xs (emit b xs s))"
| commit: "tpc s t = T_run \<Longrightarrow> b \<in> live s \<Longrightarrow> owner s b = t \<Longrightarrow>
    GTlsWriteBuffer s t = Some b \<or> Committed (buf_at s b) \<noteq> Cursor (buf_at s b) \<Longrightarrow>
    tb_step s (commit b s)"
| link: "tpc s t = T_run \<Longrightarrow> GTlsWriteBuffer s t = Some cur \<Longrightarrow> nb \<notin> live s \<Longrightarrow>
    int (length red) \<le> int (bufSize (buf_at s nb)) \<Longrightarrow>
    s1 = nextbuf_link cur nb (set_tls t nb (nextbuf_setup nb red s)) \<Longrightarrow>
    tb_step s ((add_emitted t red (take_buffer t nb s1))\<lparr>tpc := (tpc s)(t := T_linked cur)\<rparr>)"
| retire: "tpc s t = T_linked cur \<Longrightarrow>
    tb_step s ((retire_current cur s)\<lparr>tpc := (tpc s)(t := T_run)\<rparr>)"
| finish: "tpc s t = T_run \<Longrightarrow>
    tb_step s ((Writer_EndThreadBuffer t s)\<lparr>tpc := (tpc s)(t := T_ended)\<rparr>)"
| reap: "wpc s = W_idle \<Longrightarrow> entry s t = Some b \<Longrightarrow> drain_reap tid b s = (cv, out, s1) \<Longrightarrow>
    tb_step s (s1\<lparr>wpc := W_reaped t b cv, sent := (sent s)(t := sent s t @ concat (map snd out))\<rparr>)"
| keep: "wpc s = W_reaped t b cv \<Longrightarrow> drain_in_use b cv s \<Longrightarrow> tb_step s (s\<lparr>wpc := W_idle\<rparr>)"
| give_back: "wpc s = W_reaped t b cv \<Longrightarrow> \<not> drain_in_use b cv s \<Longrightarrow>
    retire_insert b (rl, s) = (rl', s1) \<Longrightarrow>
    tb_step s (s1\<lparr>wpc := W_idle, entry := (entry s)(t := NextBuffer (buf_at s b)), live := live s - {b}\<rparr>)"

inductive tb_reachable :: "tb_conc \<Rightarrow> tb_conc \<Rightarrow> bool" for s0 where
  start: "tb_reachable s0 s0"
| step: "tb_reachable s0 s \<Longrightarrow> tb_step s s' \<Longrightarrow> tb_reachable s0 s'"

definition tb_init :: "(nat \<Rightarrow> write_buffer) \<Rightarrow> tb_conc" where
  "tb_init bufs = \<lparr>buf_at = bufs, GTlsWriteBuffer = (\<lambda>_. None), GNewThreadList = None,
     GActiveThreadList = None, tpc = (\<lambda>_. T_idle), wpc = W_idle, entry = (\<lambda>_. None), live = {},
     owner = (\<lambda>_. 0), emitted = (\<lambda>_. []), sent = (\<lambda>_. [])\<rparr>"

section \<open>The invariant\<close>

definition buf_inv :: "write_buffer \<Rightarrow> bool" where
  "buf_inv x \<longleftrightarrow> Reaped x \<le> Committed x \<and> Committed x \<le> Cursor x \<and> Cursor x \<le> 8"

definition unsent :: "write_buffer \<Rightarrow> u8 list" where
  "unsent x = bytes_between x (Reaped x) (Cursor x)"

definition open_buf :: "write_buffer \<Rightarrow> bool" where "open_buf x \<longleftrightarrow> EtxOffset x = - 64"
definition closed_buf :: "write_buffer \<Rightarrow> bool" where "closed_buf x \<longleftrightarrow> EtxOffset x = - Cursor x"

fun links :: "(nat \<Rightarrow> write_buffer) \<Rightarrow> nat list \<Rightarrow> bool" where
  "links f [] \<longleftrightarrow> True"
| "links f [b] \<longleftrightarrow> NextBuffer (f b) = None"
| "links f (b # c # bs) \<longleftrightarrow> NextBuffer (f b) = Some c \<and> links f (c # bs)"

definition pc_ok :: "(nat \<Rightarrow> write_buffer) \<Rightarrow> thread_pc \<Rightarrow> nat option \<Rightarrow> nat list \<Rightarrow> bool" where
  "pc_ok f pc tls bs \<longleftrightarrow>
     (case pc of
        T_idle \<Rightarrow> bs = []
      | T_run \<Rightarrow> (\<exists>xs b. bs = xs @ [b] \<and> tls = Some b \<and> open_buf (f b) \<and> (\<forall>x \<in> set xs. closed_buf (f x)))
      | T_linked cur \<Rightarrow> (\<exists>xs b. bs = xs @ [cur, b] \<and> tls = Some b \<and> open_buf (f cur) \<and> open_buf (f b) \<and>
          (\<forall>x \<in> set xs. closed_buf (f x)))
      | T_ended \<Rightarrow> (\<forall>x \<in> set bs. closed_buf (f x)))"

definition thread_ok :: "tb_conc \<Rightarrow> nat \<Rightarrow> nat list \<Rightarrow> bool" where
  "thread_ok s t bs \<longleftrightarrow>
     entry s t = (case bs of [] \<Rightarrow> None | b # _ \<Rightarrow> Some b) \<and> distinct bs \<and>
     set bs = {b \<in> live s. owner s b = t} \<and> links (buf_at s) bs \<and>
     (\<forall>b \<in> set bs. buf_inv (buf_at s b)) \<and>
     emitted s t = sent s t @ concat (map (\<lambda>b. unsent (buf_at s b)) bs) \<and>
     pc_ok (buf_at s) (tpc s t) (GTlsWriteBuffer s t) bs"

definition tb_inv :: "tb_conc \<Rightarrow> bool" where
  "tb_inv s \<longleftrightarrow> (\<forall>t. \<exists>bs. thread_ok s t bs) \<and>
     (\<forall>t b cv. wpc s = W_reaped t b cv \<longrightarrow> entry s t = Some b \<and> Reaped (buf_at s b) = cv)"

lemma bytes_between_split:
  assumes "i \<le> j" and "j \<le> k"
  shows "bytes_between x i k = bytes_between x i j @ bytes_between x j k"
proof -
  have "[i..k - 1] = [i..j - 1] @ [j..k - 1]"
    using upto_split1 [of i "j" "k - 1"] assms upto_split2 [of i "j - 1" "k - 1"]
    by (cases "i = j") auto
  then show ?thesis by (simp add: bytes_between_def)
qed

lemma bytes_between_empty [simp]: "bytes_between x i i = []"
  by (simp add: bytes_between_def)

lemma links_cong: "(\<And>b. b \<in> set bs \<Longrightarrow> NextBuffer (f b) = NextBuffer (g b)) \<Longrightarrow> links f bs = links g bs"
  by (induction f bs rule: links.induct) auto

lemma links_append: "links f (xs @ [b]) \<Longrightarrow> NextBuffer (f b) = None"
  by (induction f xs rule: links.induct) auto

lemma links_snoc:
  assumes "links f (xs @ [b])" and "distinct (xs @ [b, c])"
    and "\<And>x. x \<in> set xs \<Longrightarrow> NextBuffer (g x) = NextBuffer (f x)"
    and "NextBuffer (g b) = Some c" and "NextBuffer (g c) = None"
  shows "links g (xs @ [b, c])"
  using assms
proof (induction xs)
  case (Cons x xs)
  then show ?case by (cases xs) auto
qed simp

lemma pc_ok_cong:
  assumes "\<And>b. b \<in> set bs \<Longrightarrow> f b = g b"
  shows "pc_ok f pc tls bs = pc_ok g pc tls bs"
  using assms unfolding pc_ok_def by (cases pc) auto

text \<open>What another thread's step does not touch stays as it is.\<close>

lemma thread_ok_frame:
  assumes ok: "thread_ok s t bs"
    and same: "entry s' t = entry s t" "tpc s' t = tpc s t" "GTlsWriteBuffer s' t = GTlsWriteBuffer s t"
      "emitted s' t = emitted s t" "sent s' t = sent s t"
      "{b \<in> live s'. owner s' b = t} = {b \<in> live s. owner s b = t}"
    and bufs: "\<And>b. b \<in> live s \<Longrightarrow> owner s b = t \<Longrightarrow> buf_at s' b = buf_at s b"
  shows "thread_ok s' t bs"
proof -
  have b: "b \<in> set bs \<Longrightarrow> buf_at s' b = buf_at s b" for b
    using ok bufs by (auto simp: thread_ok_def)
  have l: "links (buf_at s') bs = links (buf_at s) bs" by (rule links_cong) (simp add: b)
  have p: "pc_ok (buf_at s') pc tl bs = pc_ok (buf_at s) pc tl bs" for pc tl
    by (rule pc_ok_cong) (simp add: b)
  have m: "map (\<lambda>b. unsent (buf_at s' b)) bs = map (\<lambda>b. unsent (buf_at s b)) bs"
    by (rule map_cong) (simp_all add: b)
  show ?thesis
    using ok b unfolding thread_ok_def same l p m by simp
qed


text \<open>The effect of each primitive on the buffers.\<close>

lemma buf_prims [simp]:
  "buf_at (emit b xs s) = (buf_at s)(b := (buf_at s b)\<lparr>bmem := put_bytes (Cursor (buf_at s b)) xs (bmem (buf_at s b)),
     Cursor := Cursor (buf_at s b) + int (length xs)\<rparr>)"
  "buf_at (commit b s) = (buf_at s)(b := (buf_at s b)\<lparr>Committed := Cursor (buf_at s b)\<rparr>)"
  "buf_at (retire_current b s) = (buf_at s)(b := (buf_at s b)\<lparr>EtxOffset := - Cursor (buf_at s b)\<rparr>)"
  "buf_at (set_tls t nb s) = buf_at s"
  "buf_at (add_emitted t xs c) = buf_at c" "buf_at (take_buffer t nb c) = buf_at c"
  by (simp_all add: emit_def commit_def retire_current_def set_tls_def upd_buf_def add_emitted_def take_buffer_def)

lemma conc_prims [simp]:
  "GTlsWriteBuffer (upd_buf b f s) = GTlsWriteBuffer s" "GTlsWriteBuffer (emit b xs s) = GTlsWriteBuffer s"
  "GTlsWriteBuffer (commit b s) = GTlsWriteBuffer s" "GTlsWriteBuffer (retire_current b s) = GTlsWriteBuffer s"
  "tpc (upd_buf b f c) = tpc c" "tpc (emit b xs c) = tpc c" "tpc (commit b c) = tpc c" "tpc (retire_current b c) = tpc c"
  "wpc (upd_buf b f c) = wpc c" "wpc (emit b xs c) = wpc c" "wpc (commit b c) = wpc c" "wpc (retire_current b c) = wpc c"
  "entry (upd_buf b f c) = entry c" "entry (emit b xs c) = entry c" "entry (commit b c) = entry c" "entry (retire_current b c) = entry c"
  "live (upd_buf b f c) = live c" "live (emit b xs c) = live c" "live (commit b c) = live c" "live (retire_current b c) = live c"
  "owner (upd_buf b f c) = owner c" "owner (emit b xs c) = owner c" "owner (commit b c) = owner c" "owner (retire_current b c) = owner c"
  "emitted (upd_buf b f c) = emitted c" "emitted (emit b xs c) = emitted c" "emitted (commit b c) = emitted c" "emitted (retire_current b c) = emitted c"
  "sent (upd_buf b f c) = sent c" "sent (emit b xs c) = sent c" "sent (commit b c) = sent c" "sent (retire_current b c) = sent c"
  by (simp_all add: emit_def commit_def retire_current_def upd_buf_def)

lemma ghost_prims [simp]:
  "GTlsWriteBuffer (set_tls t nb s) = (GTlsWriteBuffer s)(t := Some nb)"
  "tpc (set_tls t nb c) = tpc c" "wpc (set_tls t nb c) = wpc c" "entry (set_tls t nb c) = entry c"
  "live (set_tls t nb c) = live c" "owner (set_tls t nb c) = owner c"
  "emitted (set_tls t nb c) = emitted c" "sent (set_tls t nb c) = sent c"
  "GTlsWriteBuffer (add_emitted t xs c) = GTlsWriteBuffer c" "tpc (add_emitted t xs c) = tpc c"
  "wpc (add_emitted t xs c) = wpc c" "entry (add_emitted t xs c) = entry c"
  "live (add_emitted t xs c) = live c" "owner (add_emitted t xs c) = owner c"
  "emitted (add_emitted t xs c) = (emitted c)(t := emitted c t @ xs)" "sent (add_emitted t xs c) = sent c"
  "GTlsWriteBuffer (take_buffer t nb c) = GTlsWriteBuffer c" "tpc (take_buffer t nb c) = tpc c"
  "wpc (take_buffer t nb c) = wpc c" "entry (take_buffer t nb c) = entry c"
  "live (take_buffer t nb c) = insert nb (live c)" "owner (take_buffer t nb c) = (owner c)(nb := t)"
  "emitted (take_buffer t nb c) = emitted c" "sent (take_buffer t nb c) = sent c"
  by (simp_all add: set_tls_def add_emitted_def take_buffer_def)

lemma nextbuf_conc [simp]:
  "GTlsWriteBuffer (nextbuf_setup nb red s) = GTlsWriteBuffer s"
  "tpc (nextbuf_setup nb red c) = tpc c" "wpc (nextbuf_setup nb red c) = wpc c"
  "entry (nextbuf_setup nb red c) = entry c" "live (nextbuf_setup nb red c) = live c"
  "owner (nextbuf_setup nb red c) = owner c" "emitted (nextbuf_setup nb red c) = emitted c"
  "sent (nextbuf_setup nb red c) = sent c"
  "GTlsWriteBuffer (nextbuf_first nb tid now timing s) = GTlsWriteBuffer s"
  "tpc (nextbuf_first nb tid now timing c) = tpc c" "wpc (nextbuf_first nb tid now timing c) = wpc c"
  "entry (nextbuf_first nb tid now timing c) = entry c" "live (nextbuf_first nb tid now timing c) = live c"
  "owner (nextbuf_first nb tid now timing c) = owner c" "emitted (nextbuf_first nb tid now timing c) = emitted c"
  "sent (nextbuf_first nb tid now timing c) = sent c"
  "GTlsWriteBuffer (nextbuf_publish nb s) = GTlsWriteBuffer s"
  "tpc (nextbuf_publish nb c) = tpc c" "wpc (nextbuf_publish nb c) = wpc c"
  "entry (nextbuf_publish nb c) = entry c" "live (nextbuf_publish nb c) = live c"
  "owner (nextbuf_publish nb c) = owner c" "emitted (nextbuf_publish nb c) = emitted c"
  "sent (nextbuf_publish nb c) = sent c"
  "GTlsWriteBuffer (nextbuf_link cur nb s) = GTlsWriteBuffer s"
  "tpc (nextbuf_link cur nb c) = tpc c" "wpc (nextbuf_link cur nb c) = wpc c"
  "entry (nextbuf_link cur nb c) = entry c" "live (nextbuf_link cur nb c) = live c"
  "owner (nextbuf_link cur nb c) = owner c" "emitted (nextbuf_link cur nb c) = emitted c"
  "sent (nextbuf_link cur nb c) = sent c"
  by (simp_all add: nextbuf_setup_def nextbuf_first_def nextbuf_publish_def nextbuf_link_def Let_def)

lemma nextbuf_setup_frame: "b \<noteq> nb \<Longrightarrow> buf_at (nextbuf_setup nb red s) b = buf_at s b"
  by (simp add: nextbuf_setup_def upd_buf_def Let_def)

lemma nextbuf_setup_new:
  "Cursor (buf_at (nextbuf_setup nb red s) nb) = int (length red) - int (bufSize (buf_at s nb))"
  "Committed (buf_at (nextbuf_setup nb red s) nb) = int (length red) - int (bufSize (buf_at s nb))"
  "Reaped (buf_at (nextbuf_setup nb red s) nb) = - int (bufSize (buf_at s nb))"
  "EtxOffset (buf_at (nextbuf_setup nb red s) nb) = - 64"
  "NextBuffer (buf_at (nextbuf_setup nb red s) nb) = None"
  "unsent (buf_at (nextbuf_setup nb red s) nb) = red"
proof -
  have "map (put_bytes i xs m) [i..i + int (length xs) - 1] = xs" for i m and xs :: "u8 list"
    by (rule nth_equalityI) (auto simp: put_bytes_def nth_upto)
  from this [of "- int (bufSize (buf_at s nb))" red]
  show "unsent (buf_at (nextbuf_setup nb red s) nb) = red"
    by (auto simp: nextbuf_setup_def upd_buf_def Let_def unsent_def bytes_between_def algebra_simps)
qed (simp_all add: nextbuf_setup_def upd_buf_def Let_def sizeof_FWriteBuffer_def)

text \<open>Writing at the cursor adds to the unsent bytes.\<close>

lemma unsent_emit:
  assumes "Reaped x \<le> Cursor x"
  shows "unsent (x\<lparr>bmem := put_bytes (Cursor x) xs (bmem x), Cursor := Cursor x + int (length xs)\<rparr>) = unsent x @ xs"
proof -
  let ?y = "x\<lparr>bmem := put_bytes (Cursor x) xs (bmem x), Cursor := Cursor x + int (length xs)\<rparr>"
  have "bytes_between ?y (Reaped x) (Cursor x) = bytes_between x (Reaped x) (Cursor x)"
    by (simp add: bytes_between_def put_bytes_def)
  moreover have "bytes_between ?y (Cursor x) (Cursor x + int (length xs)) = xs"
    by (rule nth_equalityI) (auto simp: bytes_between_def put_bytes_def nth_upto)
  ultimately show ?thesis
    using bytes_between_split [of "Reaped x" "Cursor x" "Cursor x + int (length xs)" ?y] assms
    by (simp add: unsent_def)
qed


lemma tb_inv_thread: "tb_inv s \<Longrightarrow> \<exists>bs. thread_ok s t bs"
  by (simp add: tb_inv_def)

lemma tb_inv_worker: "tb_inv s \<Longrightarrow> wpc s = W_reaped t b cv \<Longrightarrow> entry s t = Some b \<and> Reaped (buf_at s b) = cv"
  by (simp add: tb_inv_def)

lemma tb_inv_update:
  assumes inv: "tb_inv s" and new: "thread_ok s' t bs"
    and others: "\<And>u. u \<noteq> t \<Longrightarrow> entry s' u = entry s u \<and> tpc s' u = tpc s u \<and>
      GTlsWriteBuffer s' u = GTlsWriteBuffer s u \<and> emitted s' u = emitted s u \<and> sent s' u = sent s u \<and>
      {b \<in> live s'. owner s' b = u} = {b \<in> live s. owner s b = u}"
    and bufs: "\<And>b. b \<in> live s \<Longrightarrow> owner s b \<noteq> t \<Longrightarrow> buf_at s' b = buf_at s b"
    and worker: "\<And>u b cv. wpc s' = W_reaped u b cv \<Longrightarrow> entry s' u = Some b \<and> Reaped (buf_at s' b) = cv"
  shows "tb_inv s'"
  unfolding tb_inv_def
proof (intro conjI allI)
  fix u
  obtain us where us: "thread_ok s u us" using tb_inv_thread [OF inv] by blast
  show "\<exists>bs. thread_ok s' u bs"
  proof (cases "u = t")
    case True
    then show ?thesis using new by blast
  next
    case False
    have "thread_ok s' u us"
      by (rule thread_ok_frame [OF us]) (use others [OF False] bufs False in auto)
    then show ?thesis ..
  qed
qed (use worker in blast)

lemma thread_ok_same:
  assumes ok: "thread_ok s t bs"
    and same: "entry s' t = entry s t" "tpc s' t = tpc s t" "GTlsWriteBuffer s' t = GTlsWriteBuffer s t"
      "emitted s' t = emitted s t" "sent s' t = sent s t" "live s' = live s" "owner s' = owner s"
    and bufs: "\<And>b. b \<in> set bs \<Longrightarrow> unsent (buf_at s' b) = unsent (buf_at s b) \<and>
      NextBuffer (buf_at s' b) = NextBuffer (buf_at s b) \<and> EtxOffset (buf_at s' b) = EtxOffset (buf_at s b) \<and>
      Cursor (buf_at s' b) = Cursor (buf_at s b) \<and> buf_inv (buf_at s' b)"
  shows "thread_ok s' t bs"
proof -
  have l: "links (buf_at s') bs = links (buf_at s) bs" by (rule links_cong) (simp add: bufs)
  have p: "pc_ok (buf_at s') pc tl bs = pc_ok (buf_at s) pc tl bs" for pc tl
    using bufs unfolding pc_ok_def open_buf_def closed_buf_def by (cases pc) auto
  have m: "map (\<lambda>b. unsent (buf_at s' b)) bs = map (\<lambda>b. unsent (buf_at s b)) bs"
    by (rule map_cong) (simp_all add: bufs)
  show ?thesis
    using ok bufs unfolding thread_ok_def same l p m by simp
qed

lemma step_commit:
  assumes inv: "tb_inv s" and b: "b \<in> live s" "owner s b = t"
  shows "tb_inv (commit b s)"
proof -
  obtain bs where ok: "thread_ok s t bs" using tb_inv_thread [OF inv] by blast
  have "buf_inv (buf_at s c)" if "c \<in> set bs" for c using ok that by (simp add: thread_ok_def)
  then have "buf_inv (buf_at (commit b s) c)" if "c \<in> set bs" for c
    using that by (fastforce simp: buf_inv_def)
  then have "thread_ok (commit b s) t bs"
    by (intro thread_ok_same [OF ok]) (auto simp: unsent_def bytes_between_def)
  then show ?thesis
    by (rule tb_inv_update [OF inv]) (use b tb_inv_worker [OF inv] in auto)
qed

lemma run_chain:
  assumes "thread_ok s t bs" and "tpc s t = T_run"
  obtains xs b where "bs = xs @ [b]" "GTlsWriteBuffer s t = Some b" "open_buf (buf_at s b)"
    "\<forall>x \<in> set xs. closed_buf (buf_at s x)" "b \<notin> set xs" "b \<in> live s" "owner s b = t"
    "buf_inv (buf_at s b)"
proof -
  obtain xs b where x: "bs = xs @ [b]" "GTlsWriteBuffer s t = Some b" "open_buf (buf_at s b)"
      "\<forall>x \<in> set xs. closed_buf (buf_at s x)"
    using assms by (auto simp: thread_ok_def pc_ok_def)
  moreover have "b \<in> set bs" using x by simp
  ultimately show ?thesis using assms(1) that by (auto simp: thread_ok_def)
qed

lemma step_put:
  assumes inv: "tb_inv s" and pc: "tpc s t = T_run" and tls: "GTlsWriteBuffer s t = Some b"
    and fit: "Cursor (buf_at s b) + int (length xs) \<le> int sizeof_Overflow"
  shows "tb_inv (add_emitted t xs (emit b xs s))" (is "tb_inv ?s'")
proof -
  obtain bs where ok: "thread_ok s t bs" using tb_inv_thread [OF inv] by blast
  obtain ys c where c: "bs = ys @ [c]" "GTlsWriteBuffer s t = Some c" "open_buf (buf_at s c)"
      "\<forall>x \<in> set ys. closed_buf (buf_at s x)" "c \<notin> set ys" "c \<in> live s" "owner s c = t" "buf_inv (buf_at s c)"
    by (rule run_chain [OF ok pc])
  have "c = b" using tls c(2) by simp
  note ys = c(1,3-8) [unfolded this]
  have un: "unsent (buf_at ?s' b) = unsent (buf_at s b) @ xs"
    using unsent_emit [of "buf_at s b" xs] ys(7) by (simp add: buf_inv_def)
  have l: "links (buf_at ?s') bs = links (buf_at s) bs" by (rule links_cong) simp
  have m: "map (\<lambda>b. unsent (buf_at ?s' b)) ys = map (\<lambda>b. unsent (buf_at s b)) ys"
    by (rule map_cong) (use ys(4) in auto)
  have "thread_ok ?s' t bs"
    unfolding thread_ok_def
  proof (intro conjI)
    show "emitted ?s' t = sent ?s' t @ concat (map (\<lambda>b. unsent (buf_at ?s' b)) bs)"
      unfolding ys(1) map_append m concat_append using ok un by (simp add: thread_ok_def ys(1))
    show "links (buf_at ?s') bs" unfolding l using ok by (simp add: thread_ok_def)
    show "pc_ok (buf_at ?s') (tpc ?s' t) (GTlsWriteBuffer ?s' t) bs"
      using ys pc tls by (auto simp: pc_ok_def open_buf_def closed_buf_def)
    show "\<forall>c \<in> set bs. buf_inv (buf_at ?s' c)"
    proof
      fix c assume "c \<in> set bs"
      then have "buf_inv (buf_at s c)" using ok by (simp add: thread_ok_def)
      then show "buf_inv (buf_at ?s' c)"
        using fit by (cases "c = b") (auto simp: buf_inv_def sizeof_Overflow_def)
    qed
  qed (use ok in \<open>simp_all add: thread_ok_def\<close>)
  then show ?thesis
    by (rule tb_inv_update [OF inv]) (use ys tb_inv_worker [OF inv] in auto)
qed

lemma step_finish:
  assumes inv: "tb_inv s" and pc: "tpc s t = T_run"
  shows "tb_inv ((Writer_EndThreadBuffer t s)\<lparr>tpc := (tpc s)(t := T_ended)\<rparr>)" (is "tb_inv ?s'")
proof -
  obtain bs where ok: "thread_ok s t bs" using tb_inv_thread [OF inv] by blast
  obtain ys b where ys: "bs = ys @ [b]" "GTlsWriteBuffer s t = Some b" "open_buf (buf_at s b)"
      "\<forall>x \<in> set ys. closed_buf (buf_at s x)" "b \<notin> set ys" "b \<in> live s" "owner s b = t" "buf_inv (buf_at s b)"
    by (rule run_chain [OF ok pc])
  let ?s1 = "retire_current b s"
  have s': "?s' = ?s1\<lparr>tpc := (tpc s)(t := T_ended)\<rparr>"
    using ys(2) by (simp add: Writer_EndThreadBuffer_def)
  have l: "links (buf_at ?s') bs = links (buf_at s) bs" unfolding s' by (rule links_cong) simp
  have m: "map (\<lambda>b. unsent (buf_at ?s' b)) bs = map (\<lambda>b. unsent (buf_at s b)) bs"
    unfolding s' by (rule map_cong) (auto simp: unsent_def bytes_between_def)
  have "thread_ok ?s' t bs"
    unfolding thread_ok_def l m
    using ok ys unfolding s' thread_ok_def pc_ok_def
    by (auto simp: closed_buf_def buf_inv_def)
  then show ?thesis
    by (rule tb_inv_update [OF inv]) (use ys tb_inv_worker [OF inv] s' in auto)
qed

lemma step_retire:
  assumes inv: "tb_inv s" and pc: "tpc s t = T_linked cur"
  shows "tb_inv ((retire_current cur s)\<lparr>tpc := (tpc s)(t := T_run)\<rparr>)" (is "tb_inv ?s'")
proof -
  obtain bs where ok: "thread_ok s t bs" using tb_inv_thread [OF inv] by blast
  obtain ys b where ys: "bs = ys @ [cur, b]" "GTlsWriteBuffer s t = Some b" "open_buf (buf_at s cur)"
      "open_buf (buf_at s b)" "\<forall>x \<in> set ys. closed_buf (buf_at s x)"
    using ok pc by (auto simp: thread_ok_def pc_ok_def)
  have d: "cur \<notin> set ys" "cur \<noteq> b" "cur \<in> live s" "owner s cur = t" "b \<notin> set ys"
    using ok ys(1) by (auto simp: thread_ok_def)
  have l: "links (buf_at ?s') bs = links (buf_at s) bs" by (rule links_cong) simp
  have m: "map (\<lambda>b. unsent (buf_at ?s' b)) bs = map (\<lambda>b. unsent (buf_at s b)) bs"
    by (rule map_cong) (auto simp: unsent_def bytes_between_def)
  have pcok: "pc_ok (buf_at ?s') T_run (GTlsWriteBuffer s t) bs"
    unfolding pc_ok_def using ys d
    by (auto intro!: exI [of _ "ys @ [cur]"] exI [of _ b] simp: closed_buf_def open_buf_def)
  have "thread_ok ?s' t bs"
    unfolding thread_ok_def l m using ok pcok by (auto simp: thread_ok_def buf_inv_def)
  then show ?thesis
    by (rule tb_inv_update [OF inv]) (use d tb_inv_worker [OF inv] in auto)
qed


lemma step_link:
  assumes inv: "tb_inv s" and pc: "tpc s t = T_run" and tls: "GTlsWriteBuffer s t = Some cur"
    and nb: "nb \<notin> live s" and red: "int (length red) \<le> int (bufSize (buf_at s nb))"
  defines "s1 \<equiv> nextbuf_link cur nb (set_tls t nb (nextbuf_setup nb red s))"
  shows "tb_inv ((add_emitted t red (take_buffer t nb s1))\<lparr>tpc := (tpc s)(t := T_linked cur)\<rparr>)" (is "tb_inv ?s'")
proof -
  obtain bs where ok: "thread_ok s t bs" using tb_inv_thread [OF inv] by blast
  obtain ys c where c: "bs = ys @ [c]" "GTlsWriteBuffer s t = Some c" "open_buf (buf_at s c)"
      "\<forall>x \<in> set ys. closed_buf (buf_at s x)" "c \<notin> set ys" "c \<in> live s" "owner s c = t" "buf_inv (buf_at s c)"
    by (rule run_chain [OF ok pc])
  have "c = cur" using tls c(2) by simp
  note ys = c(1,3-8) [unfolded this]
  have nbne: "nb \<notin> set bs" "nb \<noteq> cur" using ok nb ys by (auto simp: thread_ok_def)
  have at: "buf_at s1 b = (if b = nb then (buf_at (nextbuf_setup nb red s) nb)
              \<lparr>ThreadId := ThreadId (buf_at s cur), PrevTimestamp := PrevTimestamp (buf_at s cur)\<rparr>
            else if b = cur then (buf_at s cur)\<lparr>NextBuffer := Some nb\<rparr> else buf_at s b)" for b
    using nbne nextbuf_setup_frame [of _ nb red s]
    by (simp add: s1_def nextbuf_link_def upd_buf_def Let_def)
  have s1: "GTlsWriteBuffer s1 = (GTlsWriteBuffer s)(t := Some nb)" "tpc s1 = tpc s" "wpc s1 = wpc s"
    "entry s1 = entry s" "live s1 = live s" "owner s1 = owner s" "emitted s1 = emitted s" "sent s1 = sent s"
    by (simp_all add: s1_def)
  have un: "unsent (buf_at ?s' nb) = red"
    using nextbuf_setup_new(6) [of nb red s] by (simp add: at unsent_def bytes_between_def)
  have old: "unsent (buf_at ?s' b) = unsent (buf_at s b)" if "b \<in> set bs" for b
    using that nbne by (auto simp: at unsent_def bytes_between_def)
  have m: "map (\<lambda>b. unsent (buf_at ?s' b)) bs = map (\<lambda>b. unsent (buf_at s b)) bs"
    by (rule map_cong) (use old in simp_all)
  have dist: "distinct (ys @ [cur, nb])" using ok nbne ys(1) by (auto simp: thread_ok_def)
  have l: "links (buf_at ?s') (ys @ [cur, nb])"
  proof (rule links_snoc [where f = "buf_at s"])
    show "links (buf_at s) (ys @ [cur])" using ok ys(1) by (simp add: thread_ok_def)
  qed (use dist nbne ys nextbuf_setup_new(5) [of nb red s] in \<open>auto simp: at\<close>)
  have nbinv: "buf_inv (buf_at ?s' nb)"
    using nextbuf_setup_new [of nb red s] red by (simp add: at buf_inv_def)
  have binv: "buf_inv (buf_at ?s' b)" if "b \<in> set bs" for b
    using ok that nbne by (auto simp: at thread_ok_def buf_inv_def)
  have "thread_ok ?s' t (bs @ [nb])"
    unfolding thread_ok_def
  proof (intro conjI)
    show "entry ?s' t = (case bs @ [nb] of [] \<Rightarrow> None | b # _ \<Rightarrow> Some b)"
      using ok ys(1) by (cases ys) (simp_all add: thread_ok_def s1)
    show "distinct (bs @ [nb])" "links (buf_at ?s') (bs @ [nb])"
      using dist l ys(1) by simp_all
    show "set (bs @ [nb]) = {b \<in> live ?s'. owner ?s' b = t}"
      using ok nb by (auto simp: thread_ok_def s1)
    show "\<forall>b \<in> set (bs @ [nb]). buf_inv (buf_at ?s' b)" using nbinv binv by auto
    show "emitted ?s' t = sent ?s' t @ concat (map (\<lambda>b. unsent (buf_at ?s' b)) (bs @ [nb]))"
      unfolding map_append m concat_append using ok un by (simp add: thread_ok_def s1)
    show "pc_ok (buf_at ?s') (tpc ?s' t) (GTlsWriteBuffer ?s' t) (bs @ [nb])"
      using ys nbne nextbuf_setup_new(4) [of nb red s]
      by (auto simp: pc_ok_def at open_buf_def closed_buf_def s1)
  qed
  moreover have "\<And>u. u \<noteq> t \<Longrightarrow> {b \<in> live ?s'. owner ?s' b = u} = {b \<in> live s. owner s b = u}"
    using nb by (auto simp: s1)
  moreover have "Reaped (buf_at ?s' b) = Reaped (buf_at s b)" if "b \<in> live s" for b
    using that nb by (auto simp: at)
  moreover have "b \<in> live s" if "entry s u = Some b" for u b
  proof -
    obtain us where "thread_ok s u us" using tb_inv_thread [OF inv] by blast
    then show ?thesis using that by (cases us) (auto simp: thread_ok_def)
  qed
  ultimately show ?thesis
    by (intro tb_inv_update [OF inv, of ?s' t "bs @ [nb]"])
      (use ys nb tb_inv_worker [OF inv] in \<open>auto simp: at s1\<close>)
qed

lemma pc_ok_fields:
  assumes "\<And>b. b \<in> set bs \<Longrightarrow> EtxOffset (f b) = EtxOffset (g b) \<and> Cursor (f b) = Cursor (g b)"
  shows "pc_ok f pc tls bs = pc_ok g pc tls bs"
  using assms unfolding pc_ok_def open_buf_def closed_buf_def by (cases pc) auto

lemma entry_live:
  assumes "tb_inv s" and "entry s u = Some b"
  shows "b \<in> live s \<and> owner s b = u"
proof -
  obtain us where "thread_ok s u us" using tb_inv_thread [OF assms(1)] by blast
  then show ?thesis using assms(2) by (cases us) (auto simp: thread_ok_def)
qed

lemma nextbuf_first_new:
  assumes "Reaped (buf_at s nb) \<le> Cursor (buf_at s nb)"
  shows "unsent (buf_at (nextbuf_first nb tid now timing s) nb) = unsent (buf_at s nb) @ timing"
    "Cursor (buf_at (nextbuf_first nb tid now timing s) nb) = Cursor (buf_at s nb) + int (length timing)"
    "Committed (buf_at (nextbuf_first nb tid now timing s) nb) = Cursor (buf_at s nb) + int (length timing)"
    "Reaped (buf_at (nextbuf_first nb tid now timing s) nb) = Reaped (buf_at s nb)"
    "EtxOffset (buf_at (nextbuf_first nb tid now timing s) nb) = EtxOffset (buf_at s nb)"
    "NextBuffer (buf_at (nextbuf_first nb tid now timing s) nb) = NextBuffer (buf_at s nb)"
proof -
  let ?x = "(buf_at s nb)\<lparr>ThreadId := tid, PrevTimestamp := now\<rparr>"
  have "unsent ?x = unsent (buf_at s nb)" by (simp add: unsent_def bytes_between_def)
  then show "unsent (buf_at (nextbuf_first nb tid now timing s) nb) = unsent (buf_at s nb) @ timing"
    using unsent_emit [of ?x timing] assms
    by (simp add: nextbuf_first_def upd_buf_def Let_def unsent_def bytes_between_def)
qed (simp_all add: nextbuf_first_def upd_buf_def Let_def)

lemma nextbuf_frames:
  "b \<noteq> nb \<Longrightarrow> buf_at (nextbuf_first nb tid now timing s) b = buf_at s b"
  "b \<noteq> nb \<Longrightarrow> buf_at (nextbuf_publish nb s) b = buf_at s b"
  "buf_at (nextbuf_publish nb s) nb = (buf_at s nb)\<lparr>NextThread := GNewThreadList s\<rparr>"
  by (simp_all add: nextbuf_first_def nextbuf_publish_def upd_buf_def Let_def)

lemma step_first:
  assumes inv: "tb_inv s" and pc: "tpc s t = T_idle" and nb: "nb \<notin> live s"
    and fit: "int (length red) + int (length timing) \<le> int (bufSize (buf_at s nb))"
    and s1_def: "s1 = nextbuf_publish nb (nextbuf_first nb tid now timing (set_tls t nb (nextbuf_setup nb red s)))"
  shows "tb_inv ((add_emitted t (red @ timing) (take_buffer t nb s1))
      \<lparr>tpc := (tpc s)(t := T_run), entry := (entry s)(t := Some nb)\<rparr>)" (is "tb_inv ?s'")
proof -
  obtain bs where ok: "thread_ok s t bs" using tb_inv_thread [OF inv] by blast
  have bs: "bs = []" "{b \<in> live s. owner s b = t} = {}" "emitted s t = sent s t"
    using ok pc by (auto simp: thread_ok_def pc_ok_def)
  let ?s0 = "set_tls t nb (nextbuf_setup nb red s)"
  have s1: "GTlsWriteBuffer s1 = (GTlsWriteBuffer s)(t := Some nb)" "tpc s1 = tpc s" "wpc s1 = wpc s"
    "entry s1 = entry s" "live s1 = live s" "owner s1 = owner s" "emitted s1 = emitted s" "sent s1 = sent s"
    by (simp_all add: s1_def)
  have le: "Reaped (buf_at ?s0 nb) \<le> Cursor (buf_at ?s0 nb)"
    using nextbuf_setup_new [of nb red s] by simp
  have frame: "buf_at s1 b = buf_at s b" if "b \<noteq> nb" for b
    unfolding s1_def nextbuf_frames(2) [OF that] nextbuf_frames(1) [OF that]
    using nextbuf_setup_frame [OF that, of red s] by simp
  have new: "unsent (buf_at s1 nb) = red @ timing" "NextBuffer (buf_at s1 nb) = None"
      "EtxOffset (buf_at s1 nb) = - 64" "buf_inv (buf_at s1 nb)"
    using nextbuf_first_new [OF le, of tid now timing] nextbuf_setup_new [of nb red s] fit
    unfolding s1_def nextbuf_frames(3)
    by (simp_all add: unsent_def bytes_between_def buf_inv_def)
  have "thread_ok ?s' t [nb]"
    using new bs nb by (auto simp: thread_ok_def s1 pc_ok_def open_buf_def)
  moreover have "buf_at s1 b = buf_at s b" if "b \<in> live s" for b
    using frame that nb by metis
  moreover have "entry s u = Some b \<and> u \<noteq> t \<and> b \<in> live s" if "wpc s = W_reaped u b cv" for u b cv
    using tb_inv_worker [OF inv that] entry_live [OF inv] bs(2) by blast
  ultimately show ?thesis
    by (intro tb_inv_update [OF inv, of ?s' t "[nb]"])
      (use nb tb_inv_worker [OF inv] in \<open>auto simp: s1\<close>)
qed

lemma step_reap:
  assumes inv: "tb_inv s" and w: "wpc s = W_idle" and e: "entry s t = Some b"
    and d: "drain_reap tid b s = (cv, out, s1)"
  shows "tb_inv (s1\<lparr>wpc := W_reaped t b cv, sent := (sent s)(t := sent s t @ concat (map snd out))\<rparr>)" (is "tb_inv ?s'")
proof -
  obtain bs where ok: "thread_ok s t bs" using tb_inv_thread [OF inv] by blast
  let ?x = "buf_at s b"
  obtain ys where bs: "bs = b # ys" using ok e by (cases bs) (auto simp: thread_ok_def)
  have bi: "buf_inv ?x" "b \<notin> set ys" using ok bs by (auto simp: thread_ok_def)
  have cv: "cv = Committed ?x" using d by (auto simp: drain_reap_def Let_def split: if_splits)
  have out: "concat (map snd out) = bytes_between ?x (Reaped ?x) (Committed ?x)"
    using d by (auto simp: drain_reap_def Let_def split: if_splits)
  have s1: "s1 = upd_buf b (\<lambda>x. x\<lparr>Reaped := Committed x\<rparr>) s \<or> s1 = s \<and> Committed ?x = Reaped ?x"
    using d by (auto simp: drain_reap_def upd_buf_def Let_def split: if_splits)
  have at: "buf_at s1 c = (if c = b then ?x\<lparr>Reaped := Committed ?x\<rparr> else buf_at s c)" for c
    using s1 by (cases "c = b") (auto simp: upd_buf_def)
  have gh: "GTlsWriteBuffer s1 = GTlsWriteBuffer s" "tpc s1 = tpc s"
    "entry s1 = entry s" "live s1 = live s" "owner s1 = owner s" "emitted s1 = emitted s" "sent s1 = sent s"
    using s1 by auto
  have split: "unsent ?x = bytes_between ?x (Reaped ?x) (Committed ?x) @ unsent (buf_at s1 b)"
    using bytes_between_split [of "Reaped ?x" "Committed ?x" "Cursor ?x" ?x] bi(1)
    by (simp add: at unsent_def buf_inv_def bytes_between_def)
  have l: "links (buf_at s1) bs = links (buf_at s) bs" by (rule links_cong) (simp add: at)
  have m: "map (\<lambda>b. unsent (buf_at s1 b)) ys = map (\<lambda>b. unsent (buf_at s b)) ys"
    by (rule map_cong) (use bi(2) in \<open>auto simp: at\<close>)
  have p: "pc_ok (buf_at s1) pc tl bs = pc_ok (buf_at s) pc tl bs" for pc tl
    by (rule pc_ok_fields) (simp add: at)
  have binv: "\<forall>c \<in> set bs. buf_inv (buf_at s1 c)"
    using ok bi(1) by (auto simp: thread_ok_def at buf_inv_def)
  have "emitted s t = (sent s t @ concat (map snd out)) @ concat (map (\<lambda>b. unsent (buf_at s1 b)) bs)"
  proof -
    have "emitted s t = sent s t @ unsent ?x @ concat (map (\<lambda>b. unsent (buf_at s b)) ys)"
      using ok bs by (simp add: thread_ok_def)
    also have "\<dots> = sent s t @ concat (map snd out) @ unsent (buf_at s1 b) @ concat (map (\<lambda>b. unsent (buf_at s b)) ys)"
      unfolding split out by simp
    also have "\<dots> = (sent s t @ concat (map snd out)) @ concat (map (\<lambda>b. unsent (buf_at s1 b)) bs)"
      unfolding bs list.map m [symmetric] by simp
    finally show ?thesis .
  qed
  then have "thread_ok ?s' t bs"
    unfolding thread_ok_def using ok binv l p by (simp add: gh thread_ok_def)
  then show ?thesis
    by (rule tb_inv_update [OF inv])
      (use e cv entry_live [OF inv e] in \<open>auto simp: gh at\<close>)
qed

lemma step_keep: "tb_inv s \<Longrightarrow> tb_inv (s\<lparr>wpc := W_idle\<rparr>)"
  by (simp add: tb_inv_def thread_ok_def)

lemma chain_head_closed:
  assumes ok: "thread_ok s t (b # ys)" and r: "Reaped (buf_at s b) = cv" and d: "\<not> drain_in_use b cv s"
  shows "closed_buf (buf_at s b) \<and> unsent (buf_at s b) = [] \<and>
     pc_ok (buf_at s) (tpc s t) (GTlsWriteBuffer s t) ys"
proof -
  have bi: "buf_inv (buf_at s b)" and p: "pc_ok (buf_at s) (tpc s t) (GTlsWriteBuffer s t) (b # ys)"
    using ok by (auto simp: thread_ok_def)
  have no: "\<not> open_buf (buf_at s b)"
    using d r bi by (auto simp: drain_in_use_def open_buf_def buf_inv_def)
  have pc: "closed_buf (buf_at s b) \<and> pc_ok (buf_at s) (tpc s t) (GTlsWriteBuffer s t) ys"
  proof (cases "tpc s t")
    case T_run
    then obtain xs c where x: "b # ys = xs @ [c]" "GTlsWriteBuffer s t = Some c" "open_buf (buf_at s c)"
        "\<forall>x \<in> set xs. closed_buf (buf_at s x)"
      using p by (auto simp: pc_ok_def)
    then obtain zs where "xs = b # zs" using no by (cases xs) auto
    then show ?thesis using x T_run by (auto simp: pc_ok_def)
  next
    case (T_linked cur)
    then obtain xs c where x: "b # ys = xs @ [cur, c]" "GTlsWriteBuffer s t = Some c" "open_buf (buf_at s cur)"
        "open_buf (buf_at s c)" "\<forall>x \<in> set xs. closed_buf (buf_at s x)"
      using p by (auto simp: pc_ok_def)
    then obtain zs where "xs = b # zs" using no by (cases xs) auto
    then show ?thesis using x T_linked by (auto simp: pc_ok_def)
  qed (use p in \<open>auto simp: pc_ok_def\<close>)
  then have "Cursor (buf_at s b) \<le> Reaped (buf_at s b)"
    using d r by (simp add: drain_in_use_def closed_buf_def)
  then have "unsent (buf_at s b) = []"
    by (simp add: unsent_def bytes_between_def)
  with pc show ?thesis by simp
qed

lemma step_give_back:
  assumes inv: "tb_inv s" and w: "wpc s = W_reaped t b cv" and d: "\<not> drain_in_use b cv s"
    and r: "retire_insert b (rl, s) = (rl', s1)"
  shows "tb_inv (s1\<lparr>wpc := W_idle, entry := (entry s)(t := NextBuffer (buf_at s b)), live := live s - {b}\<rparr>)" (is "tb_inv ?s'")
proof -
  obtain bs where ok: "thread_ok s t bs" using tb_inv_thread [OF inv] by blast
  have e: "entry s t = Some b" "Reaped (buf_at s b) = cv" using tb_inv_worker [OF inv w] by auto
  obtain ys where bs: "bs = b # ys" using ok e by (cases bs) (auto simp: thread_ok_def)
  have h: "unsent (buf_at s b) = []" "pc_ok (buf_at s) (tpc s t) (GTlsWriteBuffer s t) ys"
    using chain_head_closed [OF ok [unfolded bs] e(2) d] by auto
  have bn: "b \<notin> set ys" "set (b # ys) = {b \<in> live s. owner s b = t}" using ok bs by (auto simp: thread_ok_def)
  have gh: "GTlsWriteBuffer s1 = GTlsWriteBuffer s" "tpc s1 = tpc s"
    "owner s1 = owner s" "emitted s1 = emitted s" "sent s1 = sent s" "buf_at s1 = (buf_at s)(b := (buf_at s b)\<lparr>NextBuffer := fst rl\<rparr>)"
    using r by (auto simp: retire_insert_def Let_def upd_buf_def split: prod.splits)
  have same: "buf_at s1 c = buf_at s c" if "c \<noteq> b" for c using that gh(6) by simp
  have same_ys: "buf_at s1 c = buf_at s c" if "c \<in> set ys" for c using that bn(1) same by metis
  have nx: "NextBuffer (buf_at s b) = (case ys of [] \<Rightarrow> None | c # _ \<Rightarrow> Some c)" and lys: "links (buf_at s) ys"
    using ok bs by (cases ys; auto simp: thread_ok_def)+
  have l: "links (buf_at s1) ys = links (buf_at s) ys" by (rule links_cong) (simp add: same_ys)
  have p: "pc_ok (buf_at s1) pc tl ys = pc_ok (buf_at s) pc tl ys" for pc tl
    by (rule pc_ok_cong) (simp add: same_ys)
  have m: "map (\<lambda>b. unsent (buf_at s1 b)) ys = map (\<lambda>b. unsent (buf_at s b)) ys"
    by (rule map_cong) (simp_all add: same_ys)
  have "thread_ok ?s' t ys"
    unfolding thread_ok_def
  proof (intro conjI)
    show "emitted ?s' t = sent ?s' t @ concat (map (\<lambda>b. unsent (buf_at ?s' b)) ys)"
      using ok bs h(1) by (simp add: thread_ok_def gh(4,5) same_ys cong: map_cong)
    show "set ys = {b \<in> live ?s'. owner ?s' b = t}" using bn by (auto simp: gh)
    show "\<forall>c \<in> set ys. buf_inv (buf_at ?s' c)" using ok bs same_ys by (simp add: thread_ok_def)
    show "entry ?s' t = (case ys of [] \<Rightarrow> None | b # _ \<Rightarrow> Some b)" using nx by simp
    show "links (buf_at ?s') ys" using l lys by simp
    show "pc_ok (buf_at ?s') (tpc ?s' t) (GTlsWriteBuffer ?s' t) ys" using p h(2) gh(1,2) by simp
    show "distinct ys" using ok bs by (simp add: thread_ok_def)
  qed
  moreover have "buf_at s1 c = buf_at s c" if "owner s c \<noteq> t" for c
    using that same entry_live [OF inv e(1)] by metis
  ultimately show ?thesis
    by (intro tb_inv_update [OF inv, of ?s' t ys])
      (use entry_live [OF inv e(1)] in \<open>auto simp: gh(1-5)\<close>)
qed


text \<open>The invariant holds in every reachable configuration, by rule induction.\<close>

lemma tb_step_inv: "tb_step s s' \<Longrightarrow> tb_inv s \<Longrightarrow> tb_inv s'"
proof (induction rule: tb_step.induct)
  case (first s t nb red timing s1 tid now)
  then show ?case using step_first [of s t nb red timing s1 tid now] by blast
next
  case (put s t b xs)
  then show ?case using step_put by blast
next
  case (commit s t b)
  then show ?case using step_commit by blast
next
  case (link s t cur nb red s1)
  then show ?case using step_link [of s t cur nb red] by blast
next
  case (retire s t cur)
  then show ?case using step_retire by blast
next
  case (finish s t)
  then show ?case using step_finish by blast
next
  case (reap s t b tid cv out s1)
  then show ?case using step_reap by blast
next
  case (keep s t b cv)
  then show ?case using step_keep by blast
next
  case (give_back s t b cv rl rl' s1)
  then show ?case using step_give_back by blast
qed

lemma tb_init_inv: "tb_inv (tb_init bufs)"
  by (auto simp: tb_inv_def thread_ok_def tb_init_def pc_ok_def intro!: exI [of _ "[]"])

lemma tb_reachable_inv: "tb_reachable (tb_init bufs) s \<Longrightarrow> tb_inv s"
  by (induction rule: tb_reachable.induct) (auto intro: tb_init_inv tb_step_inv)

text \<open>
  Steps of the worker alone, and progress: when all that a thread wrote is committed, and it
  is not in the middle of changing buffers, the worker sends it all.
\<close>

inductive worker_steps :: "tb_conc \<Rightarrow> tb_conc \<Rightarrow> bool" where
  done_w: "worker_steps s s"
| more_w: "tb_step s s' \<Longrightarrow> (\<forall>t. tpc s' t = tpc s t \<and> emitted s' t = emitted s t) \<Longrightarrow>
    worker_steps s' s'' \<Longrightarrow> worker_steps s s''"

lemma worker_steps_trans: "worker_steps a b \<Longrightarrow> worker_steps b c \<Longrightarrow> worker_steps a c"
  by (induction rule: worker_steps.induct) (auto intro: worker_steps.more_w)

definition quiescent :: "nat \<Rightarrow> tb_conc \<Rightarrow> bool" where
  "quiescent t s \<longleftrightarrow> (\<forall>cur. tpc s t \<noteq> T_linked cur) \<and>
     (\<forall>b \<in> live s. owner s b = t \<longrightarrow> Committed (buf_at s b) = Cursor (buf_at s b))"

lemma drain_reap_facts:
  assumes "drain_reap tid b s = (cv, out, s1)"
  shows "cv = Committed (buf_at s b)"
    "buf_at s1 c = (if c = b then (buf_at s b)\<lparr>Reaped := Committed (buf_at s b)\<rparr> else buf_at s c)"
    "GTlsWriteBuffer s1 = GTlsWriteBuffer s"
proof -
  have s1: "s1 = upd_buf b (\<lambda>x. x\<lparr>Reaped := Committed x\<rparr>) s \<or> s1 = s \<and> Committed (buf_at s b) = Reaped (buf_at s b)"
    using assms by (auto simp: drain_reap_def upd_buf_def Let_def split: if_splits)
  show "cv = Committed (buf_at s b)" using assms by (auto simp: drain_reap_def Let_def split: if_splits)
  show "buf_at s1 c = (if c = b then (buf_at s b)\<lparr>Reaped := Committed (buf_at s b)\<rparr> else buf_at s c)"
    using s1 by (cases "c = b") (auto simp: upd_buf_def)
  show "GTlsWriteBuffer s1 = GTlsWriteBuffer s" using s1 by auto
qed

lemma drain_reap_conc:
  assumes "drain_reap tid b s = (cv, out, s1)"
  shows "tpc s1 = tpc s" "entry s1 = entry s" "live s1 = live s" "owner s1 = owner s"
    "emitted s1 = emitted s" "sent s1 = sent s" "wpc s1 = wpc s"
  using assms by (auto simp: drain_reap_def Let_def split: if_splits)

lemma retire_insert_conc:
  assumes "retire_insert b (rl, s) = (rl', s1)"
  shows "tpc s1 = tpc s" "entry s1 = entry s" "live s1 = live s" "owner s1 = owner s"
    "emitted s1 = emitted s" "sent s1 = sent s" "c \<noteq> b \<Longrightarrow> buf_at s1 c = buf_at s c"
  using assms by (auto simp: retire_insert_def Let_def upd_buf_def split: prod.splits)

lemma worker_drains:
  assumes "tb_inv s" and "quiescent t s" and "wpc s = W_idle"
  shows "\<exists>s'. worker_steps s s' \<and> wpc s' = W_idle \<and> emitted s' t = emitted s t \<and> sent s' t = emitted s t"
  using assms
proof (induction "card {b \<in> live s. owner s b = t}" arbitrary: s rule: less_induct)
  case less
  obtain bs where ok: "thread_ok s t bs" using tb_inv_thread [OF less.prems(1)] by blast
  show ?case
  proof (cases bs)
    case Nil
    then have "sent s t = emitted s t" using ok by (simp add: thread_ok_def)
    then show ?thesis using less.prems(3) by (blast intro: worker_steps.done_w)
  next
    case (Cons b ys)
    have e: "entry s t = Some b" and lv: "b \<in> live s" "owner s b = t" and fin: "finite {b \<in> live s. owner s b = t}"
      using ok Cons by (auto simp: thread_ok_def intro: finite_subset [of _ "set bs"])
    have com: "Committed (buf_at s b) = Cursor (buf_at s b)"
      using less.prems(2) lv by (simp add: quiescent_def)
    obtain cv out s1 where d: "drain_reap 0 b s = (cv, out, s1)" by (metis prod_cases3)
    let ?s2 = "s1\<lparr>wpc := W_reaped t b cv, sent := (sent s)(t := sent s t @ concat (map snd out))\<rparr>"
    have st2: "tb_step s ?s2" using tb_step.reap [OF less.prems(3) e d] .
    have inv2: "tb_inv ?s2" using tb_step_inv [OF st2 less.prems(1)] .
    note f = drain_reap_facts [OF d] and g = drain_reap_conc [OF d]
    have q2: "quiescent t ?s2" using less.prems(2) by (auto simp: quiescent_def f(2) g)
    have w2: "wpc ?s2 = W_reaped t b cv" by simp
    have r2: "Reaped (buf_at ?s2 b) = Cursor (buf_at ?s2 b)" "cv = Cursor (buf_at ?s2 b)"
      using com f(1) by (simp_all add: f(2))
    have same2: "\<forall>u. tpc ?s2 u = tpc s u \<and> emitted ?s2 u = emitted s u" by (simp add: g)
    show ?thesis
    proof (cases "drain_in_use b cv ?s2")
      case True
      let ?s3 = "?s2\<lparr>wpc := W_idle\<rparr>"
      have st3: "tb_step ?s2 ?s3" using tb_step.keep [OF w2 True] .
      obtain bs2 where ok2: "thread_ok ?s2 t bs2" using tb_inv_thread [OF inv2] by blast
      have e2: "entry ?s2 t = Some b" using e by (simp add: g)
      obtain zs where zs: "bs2 = b # zs" using ok2 e2 by (cases bs2) (auto simp: thread_ok_def)
      have nc: "\<not> closed_buf (buf_at ?s2 b)" using True r2(2) by (auto simp: drain_in_use_def closed_buf_def)
      have "zs = []"
      proof -
        have p: "pc_ok (buf_at ?s2) (tpc ?s2 t) (GTlsWriteBuffer ?s2 t) (b # zs)"
          using ok2 zs by (simp add: thread_ok_def)
        have nl: "tpc ?s2 t \<noteq> T_linked cur" for cur using q2 by (simp add: quiescent_def)
        show ?thesis
        proof (cases "tpc ?s2 t")
          case T_run
          then obtain xs c where x: "b # zs = xs @ [c]" "\<forall>x \<in> set xs. closed_buf (buf_at ?s2 x)"
            using p by (auto simp: pc_ok_def)
          then show ?thesis using nc by (cases xs) auto
        qed (use p nc nl in \<open>auto simp: pc_ok_def\<close>)
      qed
      then have "emitted ?s2 t = sent ?s2 t @ unsent (buf_at ?s2 b)"
        using ok2 zs by (simp add: thread_ok_def)
      moreover have "unsent (buf_at ?s2 b) = []" using r2(1) by (simp add: unsent_def)
      ultimately have fin3: "sent ?s3 t = emitted s t" using same2 by simp
      have "worker_steps s ?s3"
        by (rule worker_steps.more_w [OF st2 same2]) (rule worker_steps.more_w [OF st3 _ worker_steps.done_w], simp)
      then show ?thesis using fin3 g by (intro exI [of _ ?s3]) simp
    next
      case False
      obtain rl' s3 where r: "retire_insert b ((None, None), ?s2) = (rl', s3)" by (metis prod.exhaust)
      let ?s4 = "s3\<lparr>wpc := W_idle, entry := (entry ?s2)(t := NextBuffer (buf_at ?s2 b)), live := live ?s2 - {b}\<rparr>"
      have st4: "tb_step ?s2 ?s4" using tb_step.give_back [OF w2 False r] .
      have inv4: "tb_inv ?s4" using tb_step_inv [OF st4 inv2] .
      note h = retire_insert_conc [OF r]
      have same4: "\<forall>u. tpc ?s4 u = tpc ?s2 u \<and> emitted ?s4 u = emitted ?s2 u" by (simp add: h)
      have q4: "quiescent t ?s4" using q2 h(7) by (auto simp: quiescent_def h(1-6))
      have set4: "{c \<in> live ?s4. owner ?s4 c = t} = {c \<in> live s. owner s c = t} - {b}"
        by (auto simp: h g)
      have "card {c \<in> live ?s4. owner ?s4 c = t} < card {c \<in> live s. owner s c = t}"
        unfolding set4 using fin lv by (intro card_Diff1_less) auto
      from less.hyps [OF this inv4 q4] obtain s' where s': "worker_steps ?s4 s'" "wpc s' = W_idle"
          "emitted s' t = emitted ?s4 t" "sent s' t = emitted ?s4 t" by auto
      have "worker_steps s s'"
        by (rule worker_steps.more_w [OF st2 same2]) (rule worker_steps.more_w [OF st4 same4 s'(1)])
      moreover have "emitted ?s4 t = emitted s t" using same2 same4 by simp
      ultimately show ?thesis using s' by (intro exI [of _ s']) simp
    qed
  qed
qed

text \<open>
  C3: The buffers of the threads lose and reorder nothing, whatever the interleaving. In every
  reachable configuration the bytes sent for a thread are a prefix of the bytes it has
  written; the buffer a running thread writes into has not been given back to the pool, nor
  has any buffer with uncommitted bytes; and once a thread has committed all it wrote, steps
  of the worker alone bring the bytes sent up to the bytes written.
\<close>

theorem thread_buffers_deliver:
  assumes "tb_reachable (tb_init bufs) s"
  shows "(\<exists>rest. emitted s t = sent s t @ rest) \<and>
    (tpc s t = T_run \<longrightarrow> (\<exists>b. GTlsWriteBuffer s t = Some b \<and> b \<in> live s \<and> owner s b = t)) \<and>
    (\<forall>b. entry s t = Some b \<longrightarrow> b \<in> live s \<and> owner s b = t) \<and>
    (quiescent t s \<and> wpc s = W_idle \<longrightarrow>
       (\<exists>s'. worker_steps s s' \<and> emitted s' t = emitted s t \<and> sent s' t = emitted s t))"
proof (intro conjI impI allI)
  have inv: "tb_inv s" using tb_reachable_inv [OF assms] .
  obtain bs where ok: "thread_ok s t bs" using tb_inv_thread [OF inv] by blast
  then show "\<exists>rest. emitted s t = sent s t @ rest" unfolding thread_ok_def by blast
  show "\<exists>b. GTlsWriteBuffer s t = Some b \<and> b \<in> live s \<and> owner s b = t" if "tpc s t = T_run"
    using run_chain [OF ok that] by metis
  show "b \<in> live s" "owner s b = t" if "entry s t = Some b" for b
    using entry_live [OF inv that] by auto
  show "\<exists>s'. worker_steps s s' \<and> emitted s' t = emitted s t \<and> sent s' t = emitted s t"
    if "quiescent t s \<and> wpc s = W_idle"
    using worker_drains [OF inv] that by blast
qed

definition sample_bufs :: "nat \<Rightarrow> write_buffer" where
  "sample_bufs = (\<lambda>_. \<lparr>PrevTimestamp = 0, NextThread = None, NextBuffer = None, Cursor = 0,
     Committed = 0, Reaped = 0, EtxOffset = 0, bufSize = 4028, ThreadId = 0, bmem = (\<lambda>_. 0)\<rparr>)"

theorem thread_buffers_deliver_witness:
  "\<exists>s s'. tb_reachable (tb_init sample_bufs) s \<and> emitted s 3 = [5, 6, 7, 8] \<and> sent s 3 = [] \<and>
     worker_steps s s' \<and> sent s' 3 = [5, 6, 7, 8]"
proof -
  let ?s0 = "tb_init sample_bufs"
  let ?s1 = "(add_emitted 3 ([] @ [5, 6]) (take_buffer 3 10
      (nextbuf_publish 10 (nextbuf_first 10 2 0 [5, 6] (set_tls 3 10 (nextbuf_setup 10 [] ?s0))))))
      \<lparr>tpc := (tpc ?s0)(3 := T_run), entry := (entry ?s0)(3 := Some 10)\<rparr>"
  have t1: "tb_step ?s0 ?s1"
    by (rule tb_step.first [OF _ _ _ refl]) (simp_all add: tb_init_def sample_bufs_def)
  have g1: "tpc ?s1 3 = T_run" "GTlsWriteBuffer ?s1 3 = Some 10" "wpc ?s1 = W_idle" "live ?s1 = {10}"
      "owner ?s1 10 = 3" "emitted ?s1 3 = [5, 6]" "sent ?s1 3 = []" "Cursor (buf_at ?s1 10) = -4026"
    by (simp_all add: tb_init_def sample_bufs_def nextbuf_publish_def nextbuf_first_def nextbuf_setup_def
        upd_buf_def Let_def)
  let ?s2 = "add_emitted 3 [7, 8] (emit 10 [7, 8] ?s1)"
  have t2: "tb_step ?s1 ?s2"
    by (rule tb_step.put [OF g1(1,2)]) (use g1(8) in \<open>simp add: sizeof_Overflow_def\<close>)
  let ?s3 = "commit 10 ?s2"
  have t3: "tb_step ?s2 ?s3"
    by (rule tb_step.commit [where t = 3]) (use g1 in simp_all)
  have r: "tb_reachable ?s0 ?s3"
    using t1 t2 t3 by (blast intro: tb_reachable.intros)
  have q: "quiescent 3 ?s3" using g1 by (auto simp: quiescent_def)
  have e: "emitted ?s3 3 = [5, 6, 7, 8]" "sent ?s3 3 = []" "wpc ?s3 = W_idle" using g1 by simp_all
  obtain s' where "worker_steps ?s3 s'" "sent s' 3 = emitted ?s3 3"
    using thread_buffers_deliver [OF r, of 3] q e(3) by blast
  then show ?thesis using r e by (intro exI [of _ ?s3] exI [of _ s']) simp
qed

end
