(* ===== verification/Send.thy ===== *)
theory Send
  imports Wire
begin

text \<open>
  The sending end of Private/Trace/Writer.cpp and Private/Trace/Codec.cpp: the data handle,
  the packets Writer_SendData makes, and the sync packets. The platform (Platform.h: IoWrite,
  IoClose) and the LZ4 codec (a third-party library kept in Private/Trace/LZ4) are parameters.
  TRACE_PRIVATE_BUFFER_SEND is off, its default.
\<close>

section \<open>State and environment\<close>

datatype io_event = Io_write u64 "u8 list" | Io_close u64

record trace_link =
  GDataHandle :: u64
  GPendingDataHandle :: u64
  GSyncPacketCountdown :: int
  BytesSent :: u64
  BytesTraced :: u64
  io_log :: "io_event list"

text \<open>
  The environment: whether a write succeeds may depend on all that happened before; encode
  is LZ4_compress_fast, whose result is empty when the output does not fit in the given size.
\<close>

record trace_env =
  io_ok :: "io_event list \<Rightarrow> u64 \<Rightarrow> u8 list \<Rightarrow> bool"
  encode :: "u8 list \<Rightarrow> nat \<Rightarrow> u8 list"

definition LZ4_COMPRESSBOUND :: "nat \<Rightarrow> nat" where
  "LZ4_COMPRESSBOUND isize = (if isize > 0x7E000000 then 0 else isize + isize div 255 + 16)"

definition GetEncodeMaxSize :: "nat \<Rightarrow> nat" where
  "GetEncodeMaxSize InputSize = LZ4_COMPRESSBOUND InputSize"

definition Encode :: "trace_env \<Rightarrow> u8 list \<Rightarrow> nat \<Rightarrow> u8 list" where
  "Encode env src DestSize = encode env src DestSize"

text \<open>
  What LZ4 documents: the output never exceeds the room it is given, a nonempty output decodes
  to the input, and there is an output whenever the room is at least the compress bound.
\<close>

definition codec_ok :: "trace_env \<Rightarrow> (u8 list \<Rightarrow> u8 list option) \<Rightarrow> bool" where
  "codec_ok env dec \<longleftrightarrow>
     (\<forall>x n. length (encode env x n) \<le> n) \<and>
     (\<forall>x n. encode env x n \<noteq> [] \<longrightarrow> dec (encode env x n) = Some x) \<and>
     (\<forall>x n. x \<noteq> [] \<and> length x \<le> 0x7E000000 \<and> LZ4_COMPRESSBOUND (length x) \<le> n \<longrightarrow> encode env x n \<noteq> [])"

section \<open>Writing to the handle\<close>

definition IoWrite :: "trace_env \<Rightarrow> u64 \<Rightarrow> u8 list \<Rightarrow> 'a trace_link_scheme \<Rightarrow> bool \<times> 'a trace_link_scheme" where
  "IoWrite env h data s = (io_ok env (io_log s) h data, s\<lparr>io_log := io_log s @ [Io_write h data]\<rparr>)"

definition IoClose :: "u64 \<Rightarrow> 'a trace_link_scheme \<Rightarrow> 'a trace_link_scheme" where
  "IoClose h s = s\<lparr>io_log := io_log s @ [Io_close h]\<rparr>"

definition Writer_SendDataImpl :: "trace_env \<Rightarrow> u8 list \<Rightarrow> 'a trace_link_scheme \<Rightarrow> 'a trace_link_scheme" where
  "Writer_SendDataImpl env data s =
     (let s = s\<lparr>BytesSent := BytesSent s + of_nat (length data)\<rparr>;
          (ok, s) = IoWrite env (GDataHandle s) data s
      in if ok then s else (IoClose (GDataHandle s) s)\<lparr>GDataHandle := 0\<rparr>)"

definition Writer_SendDataRaw :: "trace_env \<Rightarrow> u8 list \<Rightarrow> 'a trace_link_scheme \<Rightarrow> 'a trace_link_scheme" where
  "Writer_SendDataRaw env data s =
     (if GDataHandle s = 0 then s else Writer_SendDataImpl env data s)"

text \<open>
  Small data is sent with its header written over the four bytes before it; larger data goes
  through a packet on the stack with room for 8192 + 64 encoded bytes. The size passed to the
  encoder is the 16-bit field DecodedSize.
\<close>

definition Writer_SendData :: "trace_env \<Rightarrow> u32 \<Rightarrow> u8 list \<Rightarrow> 'a trace_link_scheme \<Rightarrow> 'a trace_link_scheme" where
  "Writer_SendData env ThreadId data s =
     (if GDataHandle s = 0 then s
      else if length data \<le> 384 then
        Writer_SendDataImpl env
          (tid_packet (of_nat (length data + sizeof_FTidPacket))
             (ucast (ThreadId AND ucast ThreadIdMask)) data) s
      else
        let decoded = (of_nat (length data) :: u16);
            out = Encode env (take (unat decoded) data) (8192 + 64)
        in Writer_SendDataImpl env
             (tid_packet_encoded (of_nat (length out) + of_nat sizeof_FTidPacketEncoded)
                (EncodedMarker OR ucast (ThreadId AND ucast ThreadIdMask)) decoded out) s)"

definition GNumSyncPackets :: int where "GNumSyncPackets = 3"

definition Writer_SendSync :: "trace_env \<Rightarrow> 'a trace_link_scheme \<Rightarrow> 'a trace_link_scheme" where
  "Writer_SendSync env s =
     (if GSyncPacketCountdown s \<le> 0 then s
      else let s = Writer_SendDataImpl env (le16 4 @ le16 (ucast ETransportTid_Sync)) s
           in s\<lparr>GSyncPacketCountdown := GSyncPacketCountdown s - 1\<rparr>)"

definition Writer_Close :: "'a trace_link_scheme \<Rightarrow> 'a trace_link_scheme" where
  "Writer_Close s =
     (let s = (if GDataHandle s \<noteq> 0 then IoClose (GDataHandle s) s else s)
      in s\<lparr>GDataHandle := 0\<rparr>)"

section \<open>What is sent\<close>

text \<open>
  The successful writes to a handle, in order; and the fate of one write: it is logged, and the
  handle stays open when it succeeds and is closed and forgotten when it fails.
\<close>

lemma Writer_SendDataImpl_log:
  "io_log (Writer_SendDataImpl env data s) =
     io_log s @ Io_write (GDataHandle s) data #
       (if io_ok env (io_log s) (GDataHandle s) data then [] else [Io_close (GDataHandle s)])"
  "GDataHandle (Writer_SendDataImpl env data s) =
     (if io_ok env (io_log s) (GDataHandle s) data then GDataHandle s else 0)"
  "GPendingDataHandle (Writer_SendDataImpl env data s) = GPendingDataHandle s"
  "GSyncPacketCountdown (Writer_SendDataImpl env data s) = GSyncPacketCountdown s"
  "trace_link.more (Writer_SendDataImpl env data s) = trace_link.more s"
  by (simp_all add: Writer_SendDataImpl_def IoWrite_def IoClose_def Let_def)

lemma LZ4_COMPRESSBOUND_ge: "n \<le> 0x7E000000 \<Longrightarrow> n < LZ4_COMPRESSBOUND n"
  by (simp add: LZ4_COMPRESSBOUND_def)

lemma tid_mask_low:
  "ThreadIdMask AND ThreadIdMask = ThreadIdMask"
  "(ucast (t AND ucast ThreadIdMask) :: u16) AND EncodedMarker = 0"
  "(EncodedMarker OR ucast (t AND ucast ThreadIdMask)) AND EncodedMarker \<noteq> 0"
  "(ucast (t AND ucast ThreadIdMask) :: u16) AND ThreadIdMask = ucast t AND ThreadIdMask"
  "(EncodedMarker OR ucast (t AND ucast ThreadIdMask)) AND ThreadIdMask = ucast t AND ThreadIdMask"
  for t :: u32
proof -
  have m: "bit ThreadIdMask n \<longleftrightarrow> n < 14" for n
  proof -
    have "ThreadIdMask = mask 14"
      by (simp add: ThreadIdMask_def PartialMarker_def mask_eq_exp_minus_1)
    show ?thesis
      unfolding \<open>ThreadIdMask = mask 14\<close> bit_mask_iff possible_bit_word by auto
  qed
  have e: "bit EncodedMarker n \<longleftrightarrow> n = 15" for n
  proof -
    have "EncodedMarker = push_bit 15 1" by (simp add: EncodedMarker_def)
    show ?thesis
      unfolding \<open>EncodedMarker = push_bit 15 1\<close> bit_push_bit_iff bit_1_iff possible_bit_word by auto
  qed
  show "ThreadIdMask AND ThreadIdMask = ThreadIdMask" by simp
  show "(ucast (t AND ucast ThreadIdMask) :: u16) AND EncodedMarker = 0"
    by (rule bit_word_eqI) (auto simp: bit_simps m e)
  have "bit ((EncodedMarker OR ucast (t AND ucast ThreadIdMask)) AND EncodedMarker) 15"
    by (simp add: bit_simps e)
  then show "(EncodedMarker OR ucast (t AND ucast ThreadIdMask)) AND EncodedMarker \<noteq> 0"
    by auto
  show "(ucast (t AND ucast ThreadIdMask) :: u16) AND ThreadIdMask = ucast t AND ThreadIdMask"
    by (rule bit_word_eqI) (auto simp: bit_simps m)
  show "(EncodedMarker OR ucast (t AND ucast ThreadIdMask)) AND ThreadIdMask = ucast t AND ThreadIdMask"
    by (rule bit_word_eqI) (auto simp: bit_simps m e)
qed

text \<open>The packet that Writer_SendData hands to the platform.\<close>

definition sent_packet :: "trace_env \<Rightarrow> u32 \<Rightarrow> u8 list \<Rightarrow> u8 list" where
  "sent_packet env t data =
     (if length data \<le> 384
      then tid_packet (of_nat (length data + 4)) (ucast (t AND ucast ThreadIdMask)) data
      else (let n = (of_nat (length data) :: u16); out = encode env (take (unat n) data) (8192 + 64)
            in tid_packet_encoded (of_nat (length out + 6))
                 (EncodedMarker OR ucast (t AND ucast ThreadIdMask)) n out))"

lemma Writer_SendData_packet:
  "Writer_SendData env t data s =
     (if GDataHandle s = 0 then s else Writer_SendDataImpl env (sent_packet env t data) s)"
  by (simp add: Writer_SendData_def sent_packet_def Encode_def Let_def sizeof_FTidPacket_def
      sizeof_FTidPacketEncoded_def)

lemma sent_packet_means:
  assumes "codec_ok env dec" and "length data < 2 ^ 16"
    and "length data \<le> 384 \<or> LZ4_COMPRESSBOUND (length data) \<le> 8192 + 64"
  shows "packet_means dec (ucast t) data (sent_packet env t data)"
proof (cases "length data \<le> 384")
  case True
  have "packet_means dec (ucast (t AND ucast ThreadIdMask)) data
      (tid_packet (of_nat (length data + 4)) (ucast (t AND ucast ThreadIdMask)) data)"
    by (rule tid_packet_means) (use True tid_mask_low(2) in simp_all)
  then show ?thesis
    using True tid_mask_low(4) by (simp add: sent_packet_def packet_means_def)
next
  case False
  let ?out = "encode env data (8192 + 64)"
  have n: "unat (of_nat (length data) :: u16) = length data"
    using assms(2) by (simp add: unat_of_nat)
  have ne: "data \<noteq> []" and b: "LZ4_COMPRESSBOUND (length data) \<le> 8192 + 64"
    using False assms(3) by auto
  then have "?out \<noteq> []"
    using assms(1,2) by (simp add: codec_ok_def)
  then have d: "dec ?out = Some data" and l: "length ?out \<le> 8192 + 64"
    using assms(1) by (auto simp: codec_ok_def)
  have "packet_means dec (EncodedMarker OR ucast (t AND ucast ThreadIdMask)) data
      (tid_packet_encoded (of_nat (length ?out + 6))
        (EncodedMarker OR ucast (t AND ucast ThreadIdMask)) (of_nat (length data)) ?out)"
    by (rule tid_packet_encoded_means) (use d l assms(2) tid_mask_low(3) in simp_all)
  then show ?thesis
    using False n tid_mask_low(5) by (simp add: sent_packet_def packet_means_def Let_def)
qed

text \<open>
  C24: Writer_SendData. On an open handle one packet goes out, and it says exactly what was
  traced, the thread number (14 bits) and the data, as long as the data has fewer than 65536
  bytes and its LZ4 bound fits the packet on the stack; the handle survives exactly when the
  write succeeds. Without a handle nothing happens. Larger data whose encoding does not fit is
  lost: what goes out is a packet of six bytes with no payload at all.
\<close>

theorem Writer_SendData_delivers:
  assumes "codec_ok env dec"
  shows "(GDataHandle s = 0 \<longrightarrow> Writer_SendData env t data s = s) \<and>
    (GDataHandle s \<noteq> 0 \<longrightarrow> (\<exists>p.
       io_log (Writer_SendData env t data s) = io_log s @ Io_write (GDataHandle s) p #
         (if io_ok env (io_log s) (GDataHandle s) p then [] else [Io_close (GDataHandle s)]) \<and>
       GDataHandle (Writer_SendData env t data s) =
         (if io_ok env (io_log s) (GDataHandle s) p then GDataHandle s else 0) \<and>
       (length data < 2 ^ 16 \<and> (length data \<le> 384 \<or> LZ4_COMPRESSBOUND (length data) \<le> 8192 + 64)
          \<longrightarrow> packet_means dec (ucast t) data p) \<and>
       (384 < length data \<and> encode env (take (length data mod 2 ^ 16) data) (8192 + 64) = []
          \<longrightarrow> length p = 6)))"
proof (intro conjI impI)
  show "GDataHandle s = 0 \<Longrightarrow> Writer_SendData env t data s = s"
    by (simp add: Writer_SendData_def)
next
  assume h: "GDataHandle s \<noteq> 0"
  have lost: "384 < length data \<Longrightarrow> encode env (take (length data mod 2 ^ 16) data) (8192 + 64) = [] \<Longrightarrow>
      length (sent_packet env t data) = 6"
    by (simp add: sent_packet_def Let_def tid_packet_encoded_def unat_of_nat)
  show "\<exists>p. io_log (Writer_SendData env t data s) = io_log s @ Io_write (GDataHandle s) p #
             (if io_ok env (io_log s) (GDataHandle s) p then [] else [Io_close (GDataHandle s)]) \<and>
          GDataHandle (Writer_SendData env t data s) =
             (if io_ok env (io_log s) (GDataHandle s) p then GDataHandle s else 0) \<and>
          (length data < 2 ^ 16 \<and> (length data \<le> 384 \<or> LZ4_COMPRESSBOUND (length data) \<le> 8192 + 64)
             \<longrightarrow> packet_means dec (ucast t) data p) \<and>
          (384 < length data \<and> encode env (take (length data mod 2 ^ 16) data) (8192 + 64) = []
             \<longrightarrow> length p = 6)"
    using h lost sent_packet_means [OF assms, of data t]
    by (intro exI [of _ "sent_packet env t data"] conjI impI)
      (simp_all add: Writer_SendData_packet Writer_SendDataImpl_log)
qed

text \<open>A codec that stores its input after a zero byte, and a platform that never fails.\<close>

definition stored_env :: trace_env where
  "stored_env = \<lparr>io_ok = (\<lambda>_ _ _. True), encode = (\<lambda>x n. if length x + 1 \<le> n then 0 # x else [])\<rparr>"

definition stored_dec :: "u8 list \<Rightarrow> u8 list option" where
  "stored_dec y = (case y of [] \<Rightarrow> None | _ # x \<Rightarrow> Some x)"

lemma stored_codec_ok: "codec_ok stored_env stored_dec"
  using LZ4_COMPRESSBOUND_ge by (fastforce simp: codec_ok_def stored_env_def stored_dec_def)

definition sample_link :: trace_link where
  "sample_link = \<lparr>GDataHandle = 7, GPendingDataHandle = 0, GSyncPacketCountdown = 0,
     BytesSent = 0, BytesTraced = 0, io_log = []\<rparr>"

theorem Writer_SendData_delivers_witness:
  "Writer_SendData stored_env 2 [1, 2, 3] (sample_link\<lparr>GDataHandle := 0\<rparr>) = sample_link\<lparr>GDataHandle := 0\<rparr> \<and>
   (\<exists>p. io_log (Writer_SendData stored_env 2 (replicate 400 9) sample_link) = [Io_write 7 p] \<and>
        packet_means stored_dec 2 (replicate 400 9) p)"
proof -
  let ?d = "replicate 400 (9::u8)"
  have l: "length ?d < 2 ^ 16 \<and> (length ?d \<le> 384 \<or> LZ4_COMPRESSBOUND (length ?d) \<le> 8192 + 64)"
    by (simp add: LZ4_COMPRESSBOUND_def)
  have ok: "io_ok stored_env l h p" for l h p
    by (simp add: stored_env_def)
  have h: "GDataHandle sample_link = 7" "io_log sample_link = []"
    by (simp_all add: sample_link_def)
  have nz: "(7::u64) \<noteq> 0" by simp
  obtain p where "io_log (Writer_SendData stored_env 2 ?d sample_link) = [Io_write 7 p]"
      and "packet_means stored_dec (ucast (2::u32)) ?d p"
    using conjunct2 [OF Writer_SendData_delivers [OF stored_codec_ok, of sample_link 2 ?d]] l
    by (simp only: ok h nz if_True append_Nil simp_thms) blast
  moreover have "Writer_SendData stored_env 2 [1, 2, 3] (sample_link\<lparr>GDataHandle := 0\<rparr>) = sample_link\<lparr>GDataHandle := 0\<rparr>"
    using Writer_SendData_delivers [OF stored_codec_ok, of "sample_link\<lparr>GDataHandle := 0\<rparr>" 2 "[1, 2, 3]"]
    by simp
  ultimately show ?thesis by auto
qed

end
