(* ===== verification/Chains.thy ===== *)
theory Chains
  imports Prelude
begin

text \<open>
  Singly linked lists of addresses, of which 0 is the null pointer, as the trace log keeps its
  events and its channels: the list that begins at an address, and linking a list behind another.
\<close>

fun slist :: "(u64 \<Rightarrow> u64) \<Rightarrow> u64 \<Rightarrow> u64 list \<Rightarrow> bool" where
  "slist nx a [] = (a = 0)"
| "slist nx a (x # xs) = (a = x \<and> x \<noteq> 0 \<and> slist nx (nx x) xs)"

lemma slist_cong: "(\<And>x. x \<in> set xs \<Longrightarrow> nx x = nx' x) \<Longrightarrow> slist nx a xs = slist nx' a xs"
  by (induction xs arbitrary: a) auto

lemma slist_start: "slist nx a xs \<Longrightarrow> a = 0 \<longleftrightarrow> xs = []"
  by (cases xs) auto

lemma slist_nonnull: "slist nx a xs \<Longrightarrow> 0 \<notin> set xs"
  by (induction xs arbitrary: a) auto

text \<open>Linking another list behind the last node.\<close>

lemma slist_link:
  assumes "slist nx a xs" "xs \<noteq> []" "slist nx b ys" "distinct (xs @ ys)"
    and nx': "nx' (last xs) = b" "\<And>x. x \<noteq> last xs \<Longrightarrow> nx' x = nx x"
  shows "slist nx' a (xs @ ys)"
  using assms
proof (induction xs arbitrary: a)
  case (Cons x xs)
  show ?case
  proof (cases "xs = []")
    case True
    have "nx' y = nx y" if "y \<in> set ys" for y using Cons.prems(4,6) True that by (metis append.simps distinct.simps(2) in_set_conv_decomp last_ConsL append_Cons)
    then have "slist nx' b ys = slist nx b ys" by (rule slist_cong)
    then show ?thesis using Cons.prems True by simp
  next
    case False
    then have "x \<noteq> last (x # xs)" using Cons.prems(4) last_in_set [OF False] by auto
    then have "nx' x = nx x" by (rule Cons.prems(6))
    then show ?thesis using Cons False by auto
  qed
qed simp

text \<open>The list of an address is determined by the addresses.\<close>

lemma slist_unique: "slist nx a xs \<Longrightarrow> slist nx a ys \<Longrightarrow> xs = ys"
proof (induction xs arbitrary: a ys)
  case Nil
  then show ?case by (cases ys) auto
next
  case (Cons x xs)
  then show ?case by (cases ys) auto
qed

end
