(* ===== verification/Events.thy ===== *)
theory Events
  imports Send Chains "HOL-Library.Multiset"
begin

text \<open>
  The events of the trace log (Private/Trace/EventNode.cpp): their numbers, the lists of new
  and of described events, the description of an event in the log stream, and
  Writer_DescribeEvents of Private/Trace/Writer.cpp, which sends the descriptions. The nodes
  are addresses in a store; the threads that initialise events interleave with the writer.
\<close>


section \<open>Events and their nodes\<close>

record field_desc =
  fd_name :: "u8 list"
  fd_offset :: u16
  fd_size :: u16
  fd_type :: u8
  fd_reference :: u32

record event_info =
  ei_logger :: "u8 list"
  ei_event :: "u8 list"
  ei_fields :: "field_desc list"
  ei_flags :: u16

definition Flag_Important :: u16 where "Flag_Important = 1"
definition Flag_MaybeHasAux :: u16 where "Flag_MaybeHasAux = 2"
definition Flag_NoSync :: u16 where "Flag_NoSync = 4"
definition DefinitionBits :: u16 where "DefinitionBits = 8 OR 16 OR 32 OR 64"

record event_node =
  en_next :: u64
  en_info :: event_info
  en_uid :: u32

text \<open>The nodes by their addresses, of which 0 is the null pointer, and the globals.\<close>

record event_lists =
  ev_node :: "u64 \<Rightarrow> event_node"
  GNewEventList :: u64
  GEventListHead :: u64
  GEventListTail :: u64
  EventUidCounter :: u32

definition set_next :: "u64 \<Rightarrow> u64 \<Rightarrow> event_lists \<Rightarrow> event_lists" where
  "set_next n m s = s\<lparr>ev_node := (ev_node s)(n := (ev_node s n)\<lparr>en_next := m\<rparr>)\<rparr>"

section \<open>The lists\<close>

text \<open>An iterator is the address of the next node. None is a write through a null pointer.\<close>

definition FIter_GetNext :: "u64 \<Rightarrow> event_lists \<Rightarrow> u64 \<times> u64 \<times> event_lists" where
  "FIter_GetNext it s =
     (if it = 0 then (0, 0, s)
      else let inner = en_next (ev_node s it)
        in (it, inner, if inner = 0 then s\<lparr>GEventListTail := it\<rparr> else s))"

definition FEventNode_Read :: "event_lists \<Rightarrow> u64" where
  "FEventNode_Read s =
     (if GEventListHead s \<noteq> 0 then GEventListHead s
      else if GNewEventList s \<noteq> 0 then GNewEventList s
      else 0)"

definition FEventNode_ReadNew :: "event_lists \<Rightarrow> (u64 \<times> event_lists) option" where
  "FEventNode_ReadNew s =
     (let EventList = GNewEventList s; s = s\<lparr>GNewEventList := 0\<rparr>
      in if EventList = 0 then Some (0, s)
         else if GEventListHead s = 0 then Some (EventList, s\<lparr>GEventListHead := EventList\<rparr>)
         else if GEventListTail s = 0 then None
         else Some (EventList, set_next (GEventListTail s) EventList s))"

definition pack_uid :: "u32 \<Rightarrow> u32" where
  "pack_uid NewUid =
     (let UidFlags = (if NewUid \<ge> push_bit (8 - UidShift) 1 then ucast Flag_TwoByteUid else 0)
      in push_bit UidShift NewUid OR UidFlags)"

definition FEventNode_Initialize :: "u64 \<Rightarrow> event_info \<Rightarrow> event_lists \<Rightarrow> u32 \<times> event_lists" where
  "FEventNode_Initialize n InInfo s =
     (if en_uid (ev_node s n) \<noteq> 0 then (en_uid (ev_node s n), s)
      else
        let NewUid = EventUidCounter s + ucast Uid_User;
            s = s\<lparr>EventUidCounter := EventUidCounter s + 1\<rparr>
        in if NewUid \<ge> ucast Uid_Max then
             (ucast Uid_Invalid, s\<lparr>ev_node := (ev_node s)(n := (ev_node s n)\<lparr>en_uid := ucast Uid_Invalid\<rparr>)\<rparr>)
           else
             let uid = ucast (ucast (pack_uid NewUid) :: u16)
             in (uid, s\<lparr>ev_node := (ev_node s)(n := \<lparr>en_next = GNewEventList s, en_info = InInfo, en_uid = uid\<rparr>),
                        GNewEventList := n\<rparr>))"

text \<open>
  OnConnect, in the two pieces that another thread can see: the exchange that publishes the
  known events as new ones, and the link from the last of them to the events that were new.
\<close>

definition onconnect_exchange :: "event_lists \<Rightarrow> u64 \<times> event_lists" where
  "onconnect_exchange s = (GNewEventList s, s\<lparr>GNewEventList := GEventListHead s\<rparr>)"

definition onconnect_link :: "u64 \<Rightarrow> event_lists \<Rightarrow> event_lists option" where
  "onconnect_link old s =
     (if GEventListTail s = 0 then None
      else Some ((set_next (GEventListTail s) old s)\<lparr>GEventListHead := 0, GEventListTail := 0\<rparr>))"

definition FEventNode_OnConnect :: "event_lists \<Rightarrow> event_lists option" where
  "FEventNode_OnConnect s =
     (if GEventListHead s = 0 then Some s
      else case onconnect_exchange s of (old, s) \<Rightarrow> onconnect_link old s)"

section \<open>The description of an event\<close>

text \<open>
  A field takes 8 bytes, of which the code leaves the padding after the field's type unset,
  and more of the last field of a definition; such bytes are those that were in the buffer, junk.
\<close>

datatype EFieldFamily = Regular | Reference | DefinitionId

primrec family_code :: "EFieldFamily \<Rightarrow> u8" where
  "family_code Regular = 0"
| "family_code Reference = 1"
| "family_code DefinitionId = 2"

definition DefinitionIdFieldIdx :: "event_info \<Rightarrow> u32" where
  "DefinitionIdFieldIdx i =
     of_nat (length (ei_fields i)) - (if ei_flags i AND DefinitionBits \<noteq> 0 then 1 else 0)"

definition describe_field :: "event_info \<Rightarrow> (nat \<Rightarrow> u8) \<Rightarrow> nat \<Rightarrow> u8 list" where
  "describe_field i junk k =
     (let Field = ei_fields i ! k; name_size = (of_nat (length (fd_name Field)) :: u8)
      in if of_nat k = DefinitionIdFieldIdx i then
           [family_code DefinitionId, junk (8 * k + 1)] @ le16 (fd_offset Field) @ [junk (8 * k + 4), junk (8 * k + 5), junk (8 * k + 6), fd_type Field]
         else if fd_reference Field \<noteq> 0 then
           [family_code Reference, junk (8 * k + 1)] @ le16 (fd_offset Field) @ le16 (drop_bit UidShift (ucast (fd_reference Field))) @
           [fd_type Field, name_size]
         else
           [family_code Regular, junk (8 * k + 1)] @ le16 (fd_offset Field) @ le16 (fd_size Field) @ [fd_type Field, name_size])"

definition event_flags :: "event_info \<Rightarrow> u8" where
  "event_flags i =
     (if ei_flags i AND Flag_Important \<noteq> 0 then 1 else 0) OR
     (if ei_flags i AND Flag_MaybeHasAux \<noteq> 0 then 2 else 0) OR
     (if ei_flags i AND Flag_NoSync \<noteq> 0 then 4 else 0) OR
     (if ei_flags i AND DefinitionBits \<noteq> 0 then 8 else 0)"

definition names_size :: "event_info \<Rightarrow> nat" where
  "names_size i = length (ei_logger i) + length (ei_event i) + (\<Sum>f \<leftarrow> ei_fields i. length (fd_name f))"

text \<open>The bytes an event's description takes in the log stream, its header included.\<close>

definition Describe :: "(nat \<Rightarrow> u8) \<Rightarrow> event_node \<Rightarrow> u8 list" where
  "Describe junk e =
     (let i = en_info e; EventSize = 6 + 8 * length (ei_fields i) + names_size i
      in le16 Uid_NewEvent @ le16 (of_nat EventSize) @
         le16 (drop_bit UidShift (ucast (en_uid e))) @
         [of_nat (length (ei_fields i)), event_flags i, of_nat (length (ei_logger i)), of_nat (length (ei_event i))] @
         concat (map (describe_field i junk) [0..<length (ei_fields i)]) @
         ei_logger i @ ei_event i @ concat (map fd_name (ei_fields i)))"

section \<open>Sending the descriptions\<close>

text \<open>
  The redirected buffer has 4096 bytes, of which the first 4 are kept for a packet header. A
  description that does not fit in the rest is outside the model: the code then traces into
  a block of the pool that nobody sends.
\<close>

definition redirect_capacity :: nat where "redirect_capacity = 4096"

partial_function (option) describe_loop ::
  "trace_env \<Rightarrow> (u64 \<Rightarrow> nat \<Rightarrow> u8) \<Rightarrow> u64 \<Rightarrow> u8 list \<Rightarrow> event_lists \<Rightarrow> 'a trace_link_scheme \<Rightarrow>
   (u8 list \<times> event_lists \<times> 'a trace_link_scheme) option" where
  "describe_loop env junk it data s l =
     (case FIter_GetNext it s of (Event, it, s) \<Rightarrow>
        if Event = 0 then Some (data, s, l)
        else let d = Describe (junk Event) (ev_node s Event)
          in if 4 + length data + length d > redirect_capacity then None
             else if length (data @ d) \<ge> redirect_capacity - 512
               then describe_loop env junk it [] s (Writer_SendData env ETransportTid_Events (data @ d) l)
             else describe_loop env junk it (data @ d) s l)"

definition Writer_DescribeEvents ::
  "trace_env \<Rightarrow> (u64 \<Rightarrow> nat \<Rightarrow> u8) \<Rightarrow> u64 \<Rightarrow> event_lists \<Rightarrow> 'a trace_link_scheme \<Rightarrow> (event_lists \<times> 'a trace_link_scheme) option" where
  "Writer_DescribeEvents env junk it s l = do {
     (data, s, l) \<leftarrow> describe_loop env junk it [] s l;
     Some (s, if data \<noteq> [] then Writer_SendData env ETransportTid_Events data l else l) }"

section \<open>Reading a description\<close>

text \<open>
  What a reader of the stream makes of a description: the number of the event, its flags, its
  two names, and its fields with their names. The identifier of a definition has no size of
  its name in the stream, its name is what is left of the description.
\<close>

datatype field_read = Read_Regular u16 u16 u8 | Read_Reference u16 u16 u8 | Read_DefinitionId u16 u8

definition read_field :: "u8 list \<Rightarrow> field_read \<times> nat option" where
  "read_field b =
     (if b ! 0 = 0 then (Read_Regular (of_le16 (b ! 2) (b ! 3)) (of_le16 (b ! 4) (b ! 5)) (b ! 6), Some (unat (b ! 7)))
      else if b ! 0 = 1 then (Read_Reference (of_le16 (b ! 2) (b ! 3)) (of_le16 (b ! 4) (b ! 5)) (b ! 6), Some (unat (b ! 7)))
      else (Read_DefinitionId (of_le16 (b ! 2) (b ! 3)) (b ! 7), None))"

fun read_names :: "nat option list \<Rightarrow> u8 list \<Rightarrow> u8 list list" where
  "read_names [] b = []"
| "read_names (None # ns) b = b # read_names ns []"
| "read_names (Some n # ns) b = take n b # read_names ns (drop n b)"

definition read_event :: "u8 list \<Rightarrow> (u16 \<times> u8 \<times> u8 list \<times> u8 list \<times> (field_read \<times> u8 list) list) option" where
  "read_event b =
     (if of_le16 (b ! 0) (b ! 1) \<noteq> Uid_NewEvent \<or> length b \<noteq> 4 + unat (of_le16 (b ! 2) (b ! 3)) then None
      else
        let n = unat (b ! 6); l = unat (b ! 8); e = unat (b ! 9); names = drop (10 + 8 * n) b;
            fields = map (\<lambda>k. read_field (take 8 (drop (10 + 8 * k) b))) [0..<n]
        in Some (of_le16 (b ! 4) (b ! 5), b ! 7, take l names, take e (drop l names),
             zip (map fst fields) (read_names (map snd fields) (drop (l + e) names))))"

text \<open>The fields that an event has, as a reader should see them.\<close>

definition field_meant :: "event_info \<Rightarrow> nat \<Rightarrow> field_read" where
  "field_meant i k =
     (let f = ei_fields i ! k
      in if ei_flags i AND DefinitionBits \<noteq> 0 \<and> Suc k = length (ei_fields i) then Read_DefinitionId (fd_offset f) (fd_type f)
         else if fd_reference f \<noteq> 0 then Read_Reference (fd_offset f) (drop_bit 1 (ucast (fd_reference f))) (fd_type f)
         else Read_Regular (fd_offset f) (fd_size f) (fd_type f))"

text \<open>
  The names are literals of fewer than 256 bytes (a static assertion of FLiteralName), there are
  at most 255 fields, and the whole has a 16-bit size.
\<close>

definition describable :: "event_info \<Rightarrow> bool" where
  "describable i \<longleftrightarrow> length (ei_fields i) < 256 \<and> length (ei_logger i) < 256 \<and> length (ei_event i) < 256 \<and>
     list_all (\<lambda>f. length (fd_name f) < 256) (ei_fields i) \<and> 6 + 8 * length (ei_fields i) + names_size i < 65536"

lemma length_describe_field [simp]: "length (describe_field i junk k) = 8"
  by (simp add: describe_field_def Let_def)

lemma take_drop_blocks:
  "(\<And>k. length (f k) = 8) \<Longrightarrow> k < n \<Longrightarrow> take 8 (drop (8 * k) (concat (map f [0..<n]) @ r)) = f k"
proof (induction n arbitrary: r)
  case (Suc n)
  have l: "length (concat (map f [0..<n])) = 8 * n" using Suc.prems(1) by (simp add: length_concat comp_def sum_list_triv)
  show ?case
  proof (cases "k < n")
    case True
    then show ?thesis using Suc.IH [OF Suc.prems(1) True, of "f n @ r"] by simp
  next
    case False
    then have "k = n" using Suc.prems(2) by simp
    then show ?thesis using l Suc.prems(1) by simp
  qed
qed simp

lemma definition_idx:
  assumes "length (ei_fields i) < 256" "k < length (ei_fields i)"
  shows "of_nat k = DefinitionIdFieldIdx i \<longleftrightarrow> ei_flags i AND DefinitionBits \<noteq> 0 \<and> Suc k = length (ei_fields i)"
proof -
  let ?n = "length (ei_fields i)"
  have n1: "(of_nat ?n :: u32) - 1 = of_nat (?n - 1)" using assms(2) by (simp add: of_nat_diff)
  have "(of_nat k :: u32) = of_nat m \<longleftrightarrow> k = m" if "m \<le> 256" for m
    using assms that by (simp add: word_unat_eq_iff unat_of_nat)
  note e = this
  have "(of_nat k :: u32) = of_nat ?n \<longleftrightarrow> False" "(of_nat k :: u32) = of_nat (?n - 1) \<longleftrightarrow> Suc k = ?n"
    using e [of ?n] e [of "?n - 1"] assms by auto
  with n1 show ?thesis by (simp add: DefinitionIdFieldIdx_def)
qed

lemma read_describe_field:
  assumes "describable i" "k < length (ei_fields i)"
  shows "read_field (describe_field i junk k) = (field_meant i k,
    case field_meant i k of Read_DefinitionId _ _ \<Rightarrow> None | _ \<Rightarrow> Some (length (fd_name (ei_fields i ! k))))"
proof -
  have f: "length (fd_name (ei_fields i ! k)) < 256" "length (ei_fields i) < 256"
    using assms by (auto simp: describable_def list_all_length)
  have "unat (of_nat (length (fd_name (ei_fields i ! k))) :: u8) = length (fd_name (ei_fields i ! k))"
    using f by (simp add: unat_of_nat)
  then show ?thesis
    by (simp add: read_field_def describe_field_def field_meant_def definition_idx [OF f(2) assms(2)] le16_def UidShift_def Let_def
        del: drop_bit_drop_bit)
qed

text \<open>The flags, bit by bit: important, auxiliary data, not synchronised, and a definition of any kind.\<close>

definition flags_meant :: "u16 \<Rightarrow> u8 \<Rightarrow> bool" where
  "flags_meant f fl \<longleftrightarrow> (bit fl 0 \<longleftrightarrow> bit f 0) \<and> (bit fl 1 \<longleftrightarrow> bit f 1) \<and> (bit fl 2 \<longleftrightarrow> bit f 2) \<and>
     (bit fl 3 \<longleftrightarrow> bit f 3 \<or> bit f 4 \<or> bit f 5 \<or> bit f 6) \<and> fl < 16"

lemma and_bit_iff: "w AND push_bit k 1 \<noteq> 0 \<longleftrightarrow> bit w k" for w :: u16
  by (auto simp: bit_iff_and_push_bit_not_eq_0)

lemma event_flags_meant: "flags_meant (ei_flags i) (event_flags i)"
proof -
  let ?f = "ei_flags i"
  have b: "?f AND 1 \<noteq> 0 \<longleftrightarrow> bit ?f 0" "?f AND 2 \<noteq> 0 \<longleftrightarrow> bit ?f 1" "?f AND 4 \<noteq> 0 \<longleftrightarrow> bit ?f 2"
    "?f AND 8 \<noteq> 0 \<longleftrightarrow> bit ?f 3" "?f AND 16 \<noteq> 0 \<longleftrightarrow> bit ?f 4" "?f AND 32 \<noteq> 0 \<longleftrightarrow> bit ?f 5" "?f AND 64 \<noteq> 0 \<longleftrightarrow> bit ?f 6"
    using and_bit_iff [of ?f 0] and_bit_iff [of ?f 1] and_bit_iff [of ?f 2] and_bit_iff [of ?f 3]
      and_bit_iff [of ?f 4] and_bit_iff [of ?f 5] and_bit_iff [of ?f 6] by simp_all
  have "?f AND DefinitionBits = 0 \<longleftrightarrow> ?f AND 8 = 0 \<and> ?f AND 16 = 0 \<and> ?f AND 32 = 0 \<and> ?f AND 64 = 0"
    unfolding DefinitionBits_def by (simp only: bit.conj_disj_distrib or_eq_0_iff conj_assoc)
  then show ?thesis
    using b by (auto simp: flags_meant_def event_flags_def Flag_Important_def Flag_MaybeHasAux_def Flag_NoSync_def bit_numeral_rec)
qed

lemma read_names_all:
  assumes "length ns = length ws" "\<forall>k < length ws. ns ! k = Some (length (ws ! k)) \<or> ns ! k = None \<and> Suc k = length ws"
  shows "read_names ns (concat ws) = ws"
  using assms
proof (induction ns arbitrary: ws)
  case (Cons n ns)
  then obtain w ws' where ws: "ws = w # ws'" by (cases ws) auto
  have "n = Some (length w) \<or> n = None \<and> ws' = []" using Cons.prems(2) [rule_format, of 0] ws by auto
  moreover have "read_names ns (concat ws') = ws'"
  proof (rule Cons.IH)
    show "\<forall>k < length ws'. ns ! k = Some (length (ws' ! k)) \<or> ns ! k = None \<and> Suc k = length ws'"
    proof (intro allI impI)
      fix k assume "k < length ws'"
      then show "ns ! k = Some (length (ws' ! k)) \<or> ns ! k = None \<and> Suc k = length ws'"
        using Cons.prems(2) [rule_format, of "Suc k"] ws by simp
    qed
  qed (use Cons.prems ws in simp)
  ultimately show ?case using ws Cons.prems(1) by auto
qed simp

text \<open>The blocks of the fields in a description, behind a header of ten bytes, and the names behind them.\<close>

lemma read_fields_back:
  assumes d: "describable i" and h: "length h = 10" and n: "n = length (ei_fields i)"
    and B_def: "B = h @ concat (map (describe_field i junk) [0..<n]) @ names"
  shows "map (\<lambda>k. read_field (take 8 (drop (10 + 8 * k) B))) [0..<n] =
      map (\<lambda>k. (field_meant i k, case field_meant i k of Read_DefinitionId _ _ \<Rightarrow> None | _ \<Rightarrow> Some (length (fd_name (ei_fields i ! k))))) [0..<n]"
    and "drop (10 + 8 * n) B = names" and "length B = 10 + 8 * n + length names"
proof -
  have lb: "length (concat (map (describe_field i junk) [0..<n])) = 8 * n" by (simp add: length_concat comp_def sum_list_triv)
  show "drop (10 + 8 * n) B = names" "length B = 10 + 8 * n + length names" using h lb by (simp_all add: B_def)
  show "map (\<lambda>k. read_field (take 8 (drop (10 + 8 * k) B))) [0..<n] =
      map (\<lambda>k. (field_meant i k, case field_meant i k of Read_DefinitionId _ _ \<Rightarrow> None | _ \<Rightarrow> Some (length (fd_name (ei_fields i ! k))))) [0..<n]"
  proof (rule map_cong [OF refl])
    fix k assume k: "k \<in> set [0..<n]"
    have "drop (10 + 8 * k) B = drop (8 * k) (concat (map (describe_field i junk) [0..<n]) @ names)" using h by (simp add: B_def)
    then have "take 8 (drop (10 + 8 * k) B) = describe_field i junk k"
      using take_drop_blocks [of "describe_field i junk" k n names] k by simp
    then show "read_field (take 8 (drop (10 + 8 * k) B)) = (field_meant i k,
        case field_meant i k of Read_DefinitionId _ _ \<Rightarrow> None | _ \<Rightarrow> Some (length (fd_name (ei_fields i ! k))))"
      using read_describe_field [OF d, of k junk] k n by simp
  qed
qed

text \<open>
  C12: An event's description is read back from the log stream, whatever was in the buffer
  before: the number of the event, its flags (important, auxiliary data, not synchronised, and one
  for a definition of any kind, with no other bit set), the name of its logger and its own, and for
  each field its kind, its place and type and its name.
\<close>

theorem Describe_roundtrip:
  assumes "describable (en_info e)"
  shows "\<exists>fl. read_event (Describe junk e) =
      Some (drop_bit 1 (ucast (en_uid e)), fl, ei_logger (en_info e), ei_event (en_info e),
        map (\<lambda>k. (field_meant (en_info e) k, fd_name (ei_fields (en_info e) ! k))) [0..<length (ei_fields (en_info e))]) \<and>
    flags_meant (ei_flags (en_info e)) fl"
proof -
  define i n where "i = en_info e" and "n = length (ei_fields i)"
  have d: "describable i" using assms by (simp add: i_def)
  define size where "size = 6 + 8 * n + names_size i"
  define blocks where "blocks = concat (map (describe_field i junk) [0..<n])"
  define names where "names = ei_logger i @ ei_event i @ concat (map fd_name (ei_fields i))"
  have ln: "length names = names_size i" by (simp add: names_def names_size_def length_concat comp_def)
  define hd4 where "hd4 = le16 Uid_NewEvent @ le16 (of_nat size) @ le16 (drop_bit UidShift (ucast (en_uid e))) @
    [of_nat n, event_flags i, of_nat (length (ei_logger i)), of_nat (length (ei_event i))]"
  have lh: "length hd4 = 10" by (simp add: hd4_def)
  have b: "Describe junk e = hd4 @ blocks @ names"
    by (simp add: Describe_def Let_def hd4_def blocks_def names_def size_def n_def i_def)
  have at: "hd4 ! 0 = ucast Uid_NewEvent" "hd4 ! 1 = ucast (drop_bit 8 Uid_NewEvent)" "of_le16 (hd4 ! 2) (hd4 ! 3) = of_nat size"
    "of_le16 (hd4 ! 4) (hd4 ! 5) = drop_bit UidShift (ucast (en_uid e))" "hd4 ! 6 = of_nat n" "hd4 ! 7 = event_flags i"
    "hd4 ! 8 = of_nat (length (ei_logger i))" "hd4 ! 9 = of_nat (length (ei_event i))"
    by (simp_all add: hd4_def le16_def del: drop_bit_drop_bit)
  have un: "unat (of_nat n :: u8) = n" "unat (of_nat (length (ei_logger i)) :: u8) = length (ei_logger i)"
    "unat (of_nat (length (ei_event i)) :: u8) = length (ei_event i)"
    using d by (simp_all add: describable_def unat_of_nat n_def)
  have us: "unat (of_nat size :: u16) = size"
  proof -
    have "size < 65536" using d by (simp add: describable_def n_def size_def)
    then show ?thesis unfolding unat_of_nat by simp
  qed
  define B where "B = hd4 @ blocks @ names"
  have nth: "B ! j = hd4 ! j" if "j < 10" for j using lh that by (simp add: B_def nth_append)
  have field: "map (\<lambda>k. read_field (take 8 (drop (10 + 8 * k) B))) [0..<n] =
      map (\<lambda>k. (field_meant i k, case field_meant i k of Read_DefinitionId _ _ \<Rightarrow> None | _ \<Rightarrow> Some (length (fd_name (ei_fields i ! k))))) [0..<n]"
    and nm: "drop (10 + 8 * n) B = names" and len: "length B = 4 + size"
    using read_fields_back [OF d lh n_def B_def [unfolded blocks_def]] by (simp_all add: size_def ln)
  have rn: "read_names (map (\<lambda>k. case field_meant i k of Read_DefinitionId _ _ \<Rightarrow> None | _ \<Rightarrow> Some (length (fd_name (ei_fields i ! k)))) [0..<n])
      (concat (map fd_name (ei_fields i))) = map fd_name (ei_fields i)"
    by (rule read_names_all) (auto simp: n_def field_meant_def Let_def)
  have "read_event (Describe junk e) = Some (drop_bit UidShift (ucast (en_uid e)), event_flags i, ei_logger i, ei_event i,
      zip (map (field_meant i) [0..<n]) (map fd_name (ei_fields i)))"
  proof -
    have ok: "\<not> (of_le16 (B ! 0) (B ! 1) \<noteq> Uid_NewEvent \<or> length B \<noteq> 4 + unat (of_le16 (B ! 2) (B ! 3)))"
      using nth at us len by simp
    have c: "of_le16 (B ! 4) (B ! 5) = drop_bit UidShift (ucast (en_uid e))" "unat (B ! 6) = n" "B ! 7 = event_flags i"
      "unat (B ! 8) = length (ei_logger i)" "unat (B ! 9) = length (ei_event i)"
      using nth at un by simp_all
    show ?thesis unfolding b [folded B_def] read_event_def Let_def if_not_P [OF ok] c nm field
      using rn by (simp add: names_def comp_def)
  qed
  moreover have "zip (map (field_meant i) [0..<n]) (map fd_name (ei_fields i)) =
      map (\<lambda>k. (field_meant i k, fd_name (ei_fields i ! k))) [0..<n]"
    by (rule nth_equalityI) (simp_all add: n_def)
  ultimately show ?thesis using event_flags_meant [of i] by (simp add: i_def n_def UidShift_def)
qed

definition sample_event :: event_info where
  "sample_event = \<lparr>ei_logger = [36, 84], ei_event = [65, 66, 67],
     ei_fields = [\<lparr>fd_name = [88], fd_offset = 0, fd_size = 4, fd_type = 2, fd_reference = 0\<rparr>,
       \<lparr>fd_name = [89, 90], fd_offset = 4, fd_size = 8, fd_type = 3, fd_reference = 34\<rparr>,
       \<lparr>fd_name = [73, 100], fd_offset = 12, fd_size = 4, fd_type = 2, fd_reference = 0\<rparr>], ei_flags = 33\<rparr>"

lemma Describe_roundtrip_witness:
  "\<exists>b fl. read_event b = Some (17, fl, [36, 84], [65, 66, 67],
     [(Read_Regular 0 4 2, [88]), (Read_Reference 4 17 3, [89, 90]), (Read_DefinitionId 12 2, [73, 100])]) \<and>
     bit fl 0 \<and> \<not> bit fl 1 \<and> \<not> bit fl 2 \<and> bit fl 3"
proof -
  let ?e = "\<lparr>en_next = 0, en_info = sample_event, en_uid = 34\<rparr>"
  have "describable (en_info ?e)" by (simp add: describable_def sample_event_def names_size_def)
  moreover have sel: "en_info ?e = sample_event" "en_uid ?e = 34" "ei_logger sample_event = [36, 84]" "ei_event sample_event = [65, 66, 67]"
    "length (ei_fields sample_event) = 3" by (simp_all add: sample_event_def)
  ultimately obtain fl where fl: "read_event (Describe (\<lambda>_. 0) ?e) = Some (drop_bit 1 (ucast (34 :: u32)), fl, [36, 84], [65, 66, 67],
      map (\<lambda>k. (field_meant sample_event k, fd_name (ei_fields sample_event ! k))) [0..<3])" "flags_meant (ei_flags sample_event) fl"
    using Describe_roundtrip [of ?e "\<lambda>_. 0", unfolded sel] by (auto simp only: sel)
  have mp: "map (\<lambda>k. (field_meant sample_event k, fd_name (ei_fields sample_event ! k))) [0..<3] =
     [(Read_Regular 0 4 2, [88]), (Read_Reference 4 17 3, [89, 90]), (Read_DefinitionId 12 2, [73, 100])]" by code_simp
  have dr: "drop_bit 1 (ucast (34 :: u32)) = (17 :: u16)" by code_simp
  have "bit fl 0 \<and> \<not> bit fl 1 \<and> \<not> bit fl 2 \<and> bit fl 3"
    using fl(2) by (simp add: flags_meant_def sample_event_def bit_numeral_rec)
  then show ?thesis using fl(1) unfolding mp dr by blast
qed

section \<open>What is sent\<close>

text \<open>The list of nodes that begins at an address.\<close>

abbreviation nodes_from :: "(u64 \<Rightarrow> event_node) \<Rightarrow> u64 \<Rightarrow> u64 list \<Rightarrow> bool" where
  "nodes_from nd \<equiv> slist (\<lambda>n. en_next (nd n))"

definition described_bytes :: "(u64 \<Rightarrow> nat \<Rightarrow> u8) \<Rightarrow> (u64 \<Rightarrow> event_node) \<Rightarrow> u64 list \<Rightarrow> u8 list" where
  "described_bytes junk nd xs = concat (map (\<lambda>x. Describe (junk x) (nd x)) xs)"

definition tail_at :: "u64 list \<Rightarrow> event_lists \<Rightarrow> event_lists" where
  "tail_at xs s = (if xs = [] then s else s\<lparr>GEventListTail := last xs\<rparr>)"

lemma describe_loop_spec:
  "nodes_from (ev_node s) it xs \<Longrightarrow> list_all (\<lambda>x. length (Describe (junk x) (ev_node s x)) \<le> 509) xs \<Longrightarrow> length data < 3584 \<Longrightarrow>
   \<exists>chunks rest. describe_loop env junk it data s (l :: 'a trace_link_scheme) = Some (rest, tail_at xs s, fold (Writer_SendData env ETransportTid_Events) chunks l) \<and>
     concat chunks @ rest = data @ described_bytes junk (ev_node s) xs \<and>
     list_all (\<lambda>c. c \<noteq> [] \<and> length c \<le> 4092) chunks \<and> length rest < 3584"
proof (induction xs arbitrary: it data l s)
  case Nil
  then show ?case
    by (subst describe_loop.simps) (auto simp: FIter_GetNext_def described_bytes_def tail_at_def intro: exI [of _ "[]"])
next
  case (Cons x xs)
  let ?d = "Describe (junk x) (ev_node s x)" and ?n = "en_next (ev_node s x)"
  let ?s = "if ?n = 0 then s\<lparr>GEventListTail := x\<rparr> else s"
  have it: "it = x" "x \<noteq> 0" "nodes_from (ev_node s) ?n xs" using Cons.prems(1) by simp_all
  have g: "FIter_GetNext it s = (x, ?n, ?s)" using it by (simp add: FIter_GetNext_def)
  have nd: "ev_node ?s = ev_node s" by simp
  have d: "length ?d \<le> 509" using Cons.prems(2) by simp
  have fit: "\<not> redirect_capacity < 4 + length data + length ?d" using d Cons.prems(3) by (simp add: redirect_capacity_def)
  have tl: "tail_at xs ?s = tail_at (x # xs) s" using it(3) by (cases xs) (auto simp: tail_at_def)
  have db: "described_bytes junk (ev_node s) (x # xs) = ?d @ described_bytes junk (ev_node s) xs" by (simp add: described_bytes_def)
  have ih: "\<exists>chunks rest. describe_loop env junk ?n data' ?s l' = Some (rest, tail_at (x # xs) s, fold (Writer_SendData env ETransportTid_Events) chunks l') \<and>
     concat chunks @ rest = data' @ described_bytes junk (ev_node s) xs \<and>
     list_all (\<lambda>c. c \<noteq> [] \<and> length c \<le> 4092) chunks \<and> length rest < 3584" if "length data' < 3584" for data' and l' :: "'a trace_link_scheme"
    using Cons.IH [of ?s ?n data' l'] it(3) Cons.prems(2) that unfolding nd tl by simp
  show ?case
  proof (cases "redirect_capacity - 512 \<le> length (data @ ?d)")
    case True
    have "describe_loop env junk it data s l = describe_loop env junk ?n [] ?s (Writer_SendData env ETransportTid_Events (data @ ?d) l)"
      by (subst describe_loop.simps, unfold g prod.case nd Let_def if_not_P [OF it(2)] if_not_P [OF fit] if_P [OF True]) (rule refl)
    moreover obtain chunks rest where c: "describe_loop env junk ?n [] ?s (Writer_SendData env ETransportTid_Events (data @ ?d) l) =
        Some (rest, tail_at (x # xs) s, fold (Writer_SendData env ETransportTid_Events) chunks (Writer_SendData env ETransportTid_Events (data @ ?d) l))"
      "concat chunks @ rest = described_bytes junk (ev_node s) xs" "list_all (\<lambda>c. c \<noteq> [] \<and> length c \<le> 4092) chunks" "length rest < 3584"
      using ih [of "[]" "Writer_SendData env ETransportTid_Events (data @ ?d) l"] by auto
    moreover have "data @ ?d \<noteq> []" "length (data @ ?d) \<le> 4092" using True d Cons.prems(3) by (auto simp: redirect_capacity_def)
    ultimately show ?thesis unfolding db by (intro exI [of _ "(data @ ?d) # chunks"] exI [of _ rest]) simp
  next
    case False
    have "describe_loop env junk it data s l = describe_loop env junk ?n (data @ ?d) ?s l"
      by (subst describe_loop.simps, unfold g prod.case nd Let_def if_not_P [OF it(2)] if_not_P [OF fit] if_not_P [OF False]) (rule refl)
    moreover have "length (data @ ?d) < 3584" using False by (simp add: redirect_capacity_def)
    ultimately show ?thesis using ih [of "data @ ?d" l] unfolding db by simp
  qed
qed

lemma Writer_DescribeEvents_spec:
  assumes "nodes_from (ev_node s) it xs" "list_all (\<lambda>x. length (Describe (junk x) (ev_node s x)) \<le> 509) xs"
  shows "\<exists>chunks. Writer_DescribeEvents env junk it s l = Some (tail_at xs s, fold (Writer_SendData env ETransportTid_Events) chunks l) \<and>
    concat chunks = described_bytes junk (ev_node s) xs \<and> list_all (\<lambda>c. c \<noteq> [] \<and> length c \<le> 4092) chunks"
proof -
  obtain chunks rest where c: "describe_loop env junk it [] s l = Some (rest, tail_at xs s, fold (Writer_SendData env ETransportTid_Events) chunks l)"
     "concat chunks @ rest = described_bytes junk (ev_node s) xs"
     "list_all (\<lambda>c. c \<noteq> [] \<and> length c \<le> 4092) chunks" "length rest < 3584"
    using describe_loop_spec [OF assms, of "[]" env l] by auto
  show ?thesis
    by (rule exI [of _ "chunks @ (if rest = [] then [] else [rest])"]) (use c in \<open>auto simp: Writer_DescribeEvents_def\<close>)
qed

lemma send_chunks:
  assumes "codec_ok env dec" "\<forall>log data. io_ok env log h data" "h \<noteq> 0"
  shows "GDataHandle l = h \<Longrightarrow> list_all (\<lambda>c. length c \<le> 4092) chunks \<Longrightarrow>
    \<exists>ps. io_log (fold (Writer_SendData env t) chunks l) = io_log l @ map (Io_write h) ps \<and>
      GDataHandle (fold (Writer_SendData env t) chunks l) = h \<and> list_all2 (packet_means dec (ucast t)) chunks ps"
proof (induction chunks arbitrary: l)
  case (Cons c cs)
  let ?l = "Writer_SendData env t c l" and ?p = "sent_packet env t c"
  have s: "io_log ?l = io_log l @ [Io_write h ?p]" "GDataHandle ?l = h"
    using Cons.prems(1) assms(2,3) by (simp_all add: Writer_SendData_packet Writer_SendDataImpl_log)
  have "packet_means dec (ucast t) c ?p"
    by (rule sent_packet_means [OF assms(1)]) (use Cons.prems(2) in \<open>auto simp: LZ4_COMPRESSBOUND_def\<close>)
  moreover obtain ps where "io_log (fold (Writer_SendData env t) cs ?l) = io_log ?l @ map (Io_write h) ps"
    "GDataHandle (fold (Writer_SendData env t) cs ?l) = h" "list_all2 (packet_means dec (ucast t)) cs ps"
    using Cons.IH [OF s(2)] Cons.prems(2) by auto
  ultimately show ?case using s(1) by (intro exI [of _ "?p # ps"]) simp
qed simp

text \<open>
  Writer_DescribeEvents returns, and over a connection that holds it sends packets of the
  events' thread that decode to the descriptions of the nodes of its list, one after the
  other, each packet cut between two events; afterwards the tail is the last node. Every
  description has to fit in 509 bytes with its header, what a buffer that was not flushed has left.
\<close>

theorem Writer_DescribeEvents_sends:
  assumes "nodes_from (ev_node s) it xs" "list_all (\<lambda>x. length (Describe (junk x) (ev_node s x)) \<le> 509) xs"
    and "codec_ok env dec" "\<forall>log data. io_ok env log (GDataHandle l) data" "GDataHandle l \<noteq> 0"
  shows "\<exists>l' chunks ps. Writer_DescribeEvents env junk it s l = Some (if xs = [] then s else s\<lparr>GEventListTail := last xs\<rparr>, l') \<and>
    io_log l' = io_log l @ map (Io_write (GDataHandle l)) ps \<and> GDataHandle l' = GDataHandle l \<and>
    list_all2 (packet_means dec (ucast ETransportTid_Events)) chunks ps \<and>
    concat chunks = concat (map (\<lambda>x. Describe (junk x) (ev_node s x)) xs)"
proof -
  obtain chunks where c: "Writer_DescribeEvents env junk it s l = Some (tail_at xs s, fold (Writer_SendData env ETransportTid_Events) chunks l)"
    "concat chunks = described_bytes junk (ev_node s) xs" "list_all (\<lambda>c. c \<noteq> [] \<and> length c \<le> 4092) chunks"
    using Writer_DescribeEvents_spec [OF assms(1,2)] by blast
  have "list_all (\<lambda>c. length c \<le> 4092) chunks" using c(3) by (auto simp: list_all_iff)
  from send_chunks [OF assms(3-5) refl this, of ETransportTid_Events]
  show ?thesis using c(1,2) by (auto simp: tail_at_def described_bytes_def)
qed

definition sample_lists :: event_lists where
  "sample_lists = snd (FEventNode_Initialize 200 sample_event (snd (FEventNode_Initialize 100 sample_event
     \<lparr>ev_node = \<lambda>_. \<lparr>en_next = 0, en_info = sample_event, en_uid = 0\<rparr>, GNewEventList = 0, GEventListHead = 0,
       GEventListTail = 0, EventUidCounter = 0\<rparr>)))"

lemma Writer_DescribeEvents_sends_witness:
  "\<exists>l' ps. Writer_DescribeEvents stored_env (\<lambda>_ _. 0) 200 sample_lists sample_link = Some (sample_lists\<lparr>GEventListTail := 100\<rparr>, l') \<and>
    io_log l' = map (Io_write 7) ps"
proof -
  have n: "nodes_from (ev_node sample_lists) 200 [200, 100]" by code_simp
  have d: "list_all (\<lambda>x. length (Describe ((\<lambda>_ _. 0) x) (ev_node sample_lists x)) \<le> 509) [200, 100 :: u64]" by code_simp
  have o: "\<forall>log data. io_ok stored_env log (GDataHandle sample_link) data" "GDataHandle sample_link \<noteq> 0"
    by (simp_all add: stored_env_def sample_link_def)
  show ?thesis
    using Writer_DescribeEvents_sends [OF n d stored_codec_ok o] by (auto simp: sample_link_def)
qed

section \<open>The writer and the threads that initialise events\<close>

text \<open>
  The writer describes a list of events after each connection and at each update; other threads
  initialise events at any point between its steps. The events described since the writer
  connected, and those initialised with a number of their own, are kept in order.
\<close>

datatype pump_state = Pump_idle | Pump_linking u64 | Pump_reading u64

record pump =
  pump_lists :: event_lists
  pump_state :: pump_state
  pump_described :: "u64 list"
  pump_initialised :: "u64 list"

inductive pump_step :: "pump \<Rightarrow> pump \<Rightarrow> bool" where
  initialise: "n \<noteq> 0 \<Longrightarrow> en_uid (ev_node (pump_lists p) n) = 0 \<Longrightarrow> unat (EventUidCounter (pump_lists p)) < 2 ^ 32 - 32 \<Longrightarrow>
    FEventNode_Initialize n i (pump_lists p) = (uid, s) \<Longrightarrow>
    pump_step p (p\<lparr>pump_lists := s, pump_initialised := (if EventUidCounter (pump_lists p) + ucast Uid_User \<ge> ucast Uid_Max then pump_initialised p else n # pump_initialised p)\<rparr>)"
| connect_first: "pump_state p = Pump_idle \<Longrightarrow> GEventListHead (pump_lists p) = 0 \<Longrightarrow> pump_step p (p\<lparr>pump_described := []\<rparr>)"
| connect_exchange: "pump_state p = Pump_idle \<Longrightarrow> GEventListHead (pump_lists p) \<noteq> 0 \<Longrightarrow> onconnect_exchange (pump_lists p) = (old, s) \<Longrightarrow>
    pump_step p (p\<lparr>pump_lists := s, pump_state := Pump_linking old, pump_described := []\<rparr>)"
| connect_link: "pump_state p = Pump_linking old \<Longrightarrow> onconnect_link old (pump_lists p) = Some s \<Longrightarrow>
    pump_step p (p\<lparr>pump_lists := s, pump_state := Pump_idle\<rparr>)"
| read_new: "pump_state p = Pump_idle \<Longrightarrow> FEventNode_ReadNew (pump_lists p) = Some (it, s) \<Longrightarrow>
    pump_step p (p\<lparr>pump_lists := s, pump_state := Pump_reading it\<rparr>)"
| get_next: "pump_state p = Pump_reading it \<Longrightarrow> FIter_GetNext it (pump_lists p) = (e, it', s) \<Longrightarrow>
    pump_step p (p\<lparr>pump_lists := s, pump_state := (if e = 0 then Pump_idle else Pump_reading it'),
      pump_described := (if e = 0 then pump_described p else pump_described p @ [e])\<rparr>)"

inductive_cases pump_stepE: "pump_step p q"

text \<open>No event is initialised before the first step.\<close>

definition pump_initial :: "pump \<Rightarrow> bool" where
  "pump_initial p \<longleftrightarrow> GNewEventList (pump_lists p) = 0 \<and> GEventListHead (pump_lists p) = 0 \<and>
     EventUidCounter (pump_lists p) = 0 \<and> (\<forall>n. en_uid (ev_node (pump_lists p) n) = 0) \<and>
     pump_state p = Pump_idle \<and> pump_described p = [] \<and> pump_initialised p = []"

inductive pump_reach :: "pump \<Rightarrow> pump \<Rightarrow> bool" where
  start: "pump_reach p p"
| step: "pump_reach p q \<Longrightarrow> pump_step q r \<Longrightarrow> pump_reach p r"

section \<open>The numbers\<close>

text \<open>An event's number is what its uid says above the flag of two bytes.\<close>

lemma small_bits: "unat (c :: 'a::len word) < 2 ^ k \<Longrightarrow> k \<le> n \<Longrightarrow> \<not> bit c n"
proof -
  assume a: "unat c < 2 ^ k" "k \<le> n"
  then have "unat c < 2 ^ n" by (meson order_less_le_trans one_le_numeral power_increasing)
  then have "\<not> bit (unat c) n" by (simp add: bit_iff_odd)
  then show ?thesis by (simp add: bit_unsigned_iff bit_imp_le_length)
qed

lemma pack_uid_number:
  assumes "unat c < 32767"
  shows "drop_bit UidShift (ucast (ucast (ucast (pack_uid c) :: u16) :: u32) :: u16) = ucast c"
proof (rule bit_word_eqI)
  fix n assume "n < LENGTH(16)"
  moreover have "n < 15 \<or> \<not> bit c n" using small_bits [of c 15 n] assms by (cases "n < 15") simp_all
  ultimately show "bit (drop_bit UidShift (ucast (ucast (ucast (pack_uid c) :: u16) :: u32) :: u16)) n = bit (ucast c :: u16) n"
    by (simp add: pack_uid_def Flag_TwoByteUid_def bit_simps Let_def) (auto simp: UidShift_def bit_simps)
qed

section \<open>The invariant\<close>

definition numbered :: "event_lists \<Rightarrow> u64 list \<Rightarrow> bool" where
  "numbered s ns \<longleftrightarrow> distinct ns \<and> 0 \<notin> set ns \<and> length ns = min (unat (EventUidCounter s)) 32751 \<and>
     map (\<lambda>n. drop_bit UidShift (ucast (en_uid (ev_node s n)) :: u16)) ns = rev (map (\<lambda>k. of_nat (k + 16)) [0..<length ns]) \<and>
     (\<forall>n \<in> set ns. en_uid (ev_node s n) \<noteq> 0)"

fun pump_lists_ok :: "pump_state \<Rightarrow> event_lists \<Rightarrow> u64 list \<Rightarrow> u64 list \<Rightarrow> bool" where
  "pump_lists_ok Pump_idle s described ns = (\<exists>new. nodes_from (ev_node s) (GNewEventList s) new \<and>
     nodes_from (ev_node s) (GEventListHead s) described \<and> (described \<noteq> [] \<longrightarrow> GEventListTail s = last described) \<and>
     mset (new @ described) = mset ns)"
| "pump_lists_ok (Pump_linking old) s described ns = (\<exists>new known olds. nodes_from (ev_node s) (GNewEventList s) (new @ known) \<and>
     known \<noteq> [] \<and> nodes_from (ev_node s) (GEventListHead s) known \<and> GEventListTail s = last known \<and>
     nodes_from (ev_node s) old olds \<and> described = [] \<and> mset (new @ known @ olds) = mset ns)"
| "pump_lists_ok (Pump_reading it) s described ns = (\<exists>new rest. nodes_from (ev_node s) (GNewEventList s) new \<and>
     nodes_from (ev_node s) it rest \<and> nodes_from (ev_node s) (GEventListHead s) (described @ rest) \<and>
     (rest = [] \<and> described \<noteq> [] \<longrightarrow> GEventListTail s = last described) \<and> mset (new @ described @ rest) = mset ns)"

lemma idle_okI:
  "nodes_from (ev_node s) (GNewEventList s) new \<Longrightarrow> nodes_from (ev_node s) (GEventListHead s) described \<Longrightarrow>
   (described \<noteq> [] \<Longrightarrow> GEventListTail s = last described) \<Longrightarrow> mset new + mset described = mset ns \<Longrightarrow> pump_lists_ok Pump_idle s described ns"
  by auto

lemma linking_okI:
  "nodes_from (ev_node s) (GNewEventList s) (new @ known) \<Longrightarrow> known \<noteq> [] \<Longrightarrow> nodes_from (ev_node s) (GEventListHead s) known \<Longrightarrow>
   GEventListTail s = last known \<Longrightarrow> nodes_from (ev_node s) old olds \<Longrightarrow> mset new + (mset known + mset olds) = mset ns \<Longrightarrow>
   pump_lists_ok (Pump_linking old) s [] ns"
  by (simp only: pump_lists_ok.simps) (intro exI conjI, assumption+, simp_all)

lemma reading_okI:
  "nodes_from (ev_node s) (GNewEventList s) new \<Longrightarrow> nodes_from (ev_node s) it rest \<Longrightarrow> nodes_from (ev_node s) (GEventListHead s) (described @ rest) \<Longrightarrow>
   (rest = [] \<Longrightarrow> described \<noteq> [] \<Longrightarrow> GEventListTail s = last described) \<Longrightarrow> mset new + (mset described + mset rest) = mset ns \<Longrightarrow>
   pump_lists_ok (Pump_reading it) s described ns"
  by (simp only: pump_lists_ok.simps) (intro exI conjI, assumption+, simp_all)

text \<open>A new event.\<close>

lemma initialize_step:
  assumes "en_uid (ev_node s n) = 0" "n \<noteq> 0" "unat (EventUidCounter s) < 2 ^ 32 - 32" "FEventNode_Initialize n i s = (uid, t)"
  shows "EventUidCounter t = EventUidCounter s + 1 \<and> GEventListHead t = GEventListHead s \<and> GEventListTail t = GEventListTail s \<and>
    (\<forall>m. m \<noteq> n \<longrightarrow> ev_node t m = ev_node s m) \<and> unat (EventUidCounter t) = unat (EventUidCounter s) + 1 \<and>
    (if EventUidCounter s + ucast Uid_User \<ge> ucast Uid_Max then GNewEventList t = GNewEventList s \<and> unat (EventUidCounter s) + 16 \<ge> 32767
     else unat (EventUidCounter s) + 16 < 32767 \<and> GNewEventList t = n \<and> en_next (ev_node t n) = GNewEventList s \<and> en_uid (ev_node t n) \<noteq> 0 \<and>
       drop_bit UidShift (ucast (en_uid (ev_node t n)) :: u16) = of_nat (unat (EventUidCounter s) + 16))"
proof -
  let ?c = "EventUidCounter s + ucast Uid_User"
  have u: "unat ?c = unat (EventUidCounter s) + 16"
  proof -
    have "?c = EventUidCounter s + 16" by (simp add: Uid_User_def)
    then show ?thesis using assms(3) by (simp add: unat_word_ariths)
  qed
  have c1: "unat (EventUidCounter s + 1) = unat (EventUidCounter s) + 1"
    using assms(3) by (simp add: unat_word_ariths)
  have m: "ucast Uid_Max \<le> ?c \<longleftrightarrow> 32767 \<le> unat ?c"
  proof -
    have "unat (ucast Uid_Max :: u32) = 32767" by (simp add: Uid_Max_def UidShift_def)
    then show ?thesis by (simp add: word_le_nat_alt)
  qed
  have init: "FEventNode_Initialize n i s = (if ucast Uid_Max \<le> ?c
      then (ucast Uid_Invalid, s\<lparr>EventUidCounter := EventUidCounter s + 1, ev_node := (ev_node s)(n := (ev_node s n)\<lparr>en_uid := ucast Uid_Invalid\<rparr>)\<rparr>)
      else let uid = ucast (ucast (pack_uid ?c) :: u16) in (uid, s\<lparr>EventUidCounter := EventUidCounter s + 1,
         ev_node := (ev_node s)(n := \<lparr>en_next = GNewEventList s, en_info = i, en_uid = uid\<rparr>), GNewEventList := n\<rparr>))"
    using assms(1) by (simp add: FEventNode_Initialize_def Let_def)
  show ?thesis
  proof (cases "ucast Uid_Max \<le> ?c")
    case True
    then show ?thesis using assms(4) m u c1 unfolding init by auto
  next
    case False
    let ?uid = "ucast (ucast (pack_uid ?c) :: u16) :: u32"
    have lt: "unat ?c < 32767" using False m by simp
    have num: "drop_bit UidShift (ucast ?uid :: u16) = ucast ?c" by (rule pack_uid_number [OF lt])
    have "(ucast ?c :: u16) = of_nat (unat ?c)" by simp
    then have num2: "drop_bit UidShift (ucast ?uid :: u16) = of_nat (unat (EventUidCounter s) + 16)" using num u by simp
    have "of_nat (unat (EventUidCounter s) + 16) \<noteq> (0 :: u16)"
    proof
      assume "of_nat (unat (EventUidCounter s) + 16) = (0 :: u16)"
      then have "unat (of_nat (unat (EventUidCounter s) + 16) :: u16) = 0" by (simp only: unat_0)
      then show False using lt u by (simp add: unat_of_nat del: of_nat_add)
    qed
    then have nz: "?uid \<noteq> 0" using num2 by auto
    have t: "t = s\<lparr>EventUidCounter := EventUidCounter s + 1,
         ev_node := (ev_node s)(n := \<lparr>en_next = GNewEventList s, en_info = i, en_uid = ?uid\<rparr>), GNewEventList := n\<rparr>"
      using assms(4) False unfolding init Let_def by auto
    show ?thesis unfolding t using False lt u c1 nz num2 by simp
  qed
qed


definition pump_ok :: "pump \<Rightarrow> bool" where
  "pump_ok p \<longleftrightarrow> numbered (pump_lists p) (pump_initialised p) \<and>
     pump_lists_ok (pump_state p) (pump_lists p) (pump_described p) (pump_initialised p)"

lemma lists_frame:
  assumes "pump_lists_ok st s described ns" "\<And>m. m \<in> set ns \<Longrightarrow> ev_node t m = ev_node s m"
    and "GNewEventList t = GNewEventList s" "GEventListHead t = GEventListHead s" "GEventListTail t = GEventListTail s"
  shows "pump_lists_ok st t described ns"
proof -
  have c: "nodes_from (ev_node t) a xs = nodes_from (ev_node s) a xs" if "set xs \<subseteq> set ns" for a xs
    by (rule slist_cong) (use that assms(2) in auto)
  have m: "mset xs = mset ns \<Longrightarrow> set xs = set ns" for xs by (rule mset_eq_setD)
  show ?thesis
  proof (cases st)
    case Pump_idle
    then obtain new where n: "nodes_from (ev_node s) (GNewEventList s) new" "nodes_from (ev_node s) (GEventListHead s) described"
      "described \<noteq> [] \<longrightarrow> GEventListTail s = last described" "mset (new @ described) = mset ns" using assms(1) by auto
    have "set new \<subseteq> set ns" "set described \<subseteq> set ns" using m [OF n(4)] unfolding set_append by blast+
    then show ?thesis unfolding Pump_idle using n by (intro idle_okI [of _ new]) (simp_all add: c assms(3-5))
  next
    case (Pump_linking old)
    then obtain new known olds where n: "nodes_from (ev_node s) (GNewEventList s) (new @ known)" "known \<noteq> []"
      "nodes_from (ev_node s) (GEventListHead s) known" "GEventListTail s = last known" "nodes_from (ev_node s) old olds" "described = []"
      "mset (new @ known @ olds) = mset ns" using assms(1) by auto
    have "set (new @ known) \<subseteq> set ns" "set known \<subseteq> set ns" "set olds \<subseteq> set ns" using m [OF n(7)] by auto
    then show ?thesis unfolding Pump_linking n(6) using n by (intro linking_okI [of _ new known _ olds]) (simp_all add: c assms(3-5))
  next
    case (Pump_reading it)
    then obtain new rest where n: "nodes_from (ev_node s) (GNewEventList s) new" "nodes_from (ev_node s) it rest"
      "nodes_from (ev_node s) (GEventListHead s) (described @ rest)" "rest = [] \<and> described \<noteq> [] \<longrightarrow> GEventListTail s = last described"
      "mset (new @ described @ rest) = mset ns" using assms(1) by auto
    have "set new \<subseteq> set ns" "set rest \<subseteq> set ns" "set (described @ rest) \<subseteq> set ns" using m [OF n(5)] by auto
    then show ?thesis unfolding Pump_reading using n by (intro reading_okI [of _ new _ rest]) (simp_all add: c assms(3-5))
  qed
qed

lemma lists_push:
  assumes "pump_lists_ok st s described ns" "n \<noteq> 0" "n \<notin> set ns" "en_next (ev_node s n) = GNewEventList s"
    and t: "ev_node t = ev_node s" "GNewEventList t = n" "GEventListHead t = GEventListHead s" "GEventListTail t = GEventListTail s"
  shows "pump_lists_ok st t described (n # ns)"
proof (cases st)
  case Pump_idle
  then obtain new where "nodes_from (ev_node s) (GNewEventList s) new" "nodes_from (ev_node s) (GEventListHead s) described"
    "described \<noteq> [] \<longrightarrow> GEventListTail s = last described" "mset (new @ described) = mset ns" using assms(1) by auto
  then show ?thesis unfolding Pump_idle using assms(2,4) by (intro idle_okI [of _ "n # new"]) (simp_all add: t)
next
  case (Pump_linking old)
  then obtain new known olds where "nodes_from (ev_node s) (GNewEventList s) (new @ known)" "known \<noteq> []"
    "nodes_from (ev_node s) (GEventListHead s) known" "GEventListTail s = last known" "nodes_from (ev_node s) old olds" and d: "described = []"
    and "mset (new @ known @ olds) = mset ns" using assms(1) by auto
  then show ?thesis unfolding Pump_linking d using assms(2,4) by (intro linking_okI [of _ "n # new" known _ olds]) (simp_all add: t)
next
  case (Pump_reading it)
  then obtain new rest where "nodes_from (ev_node s) (GNewEventList s) new" "nodes_from (ev_node s) it rest"
    "nodes_from (ev_node s) (GEventListHead s) (described @ rest)" "rest = [] \<and> described \<noteq> [] \<longrightarrow> GEventListTail s = last described"
    "mset (new @ described @ rest) = mset ns" using assms(1) by auto
  then show ?thesis unfolding Pump_reading using assms(2,4) by (intro reading_okI [of _ "n # new" _ rest]) (simp_all add: t)
qed


lemma numbered_frame:
  assumes "numbered s ns" "\<And>m. m \<in> set ns \<Longrightarrow> en_uid (ev_node t m) = en_uid (ev_node s m)" "EventUidCounter t = EventUidCounter s"
  shows "numbered t ns"
proof -
  have "map (\<lambda>n. drop_bit UidShift (ucast (en_uid (ev_node t n)) :: u16)) ns = map (\<lambda>n. drop_bit UidShift (ucast (en_uid (ev_node s n)) :: u16)) ns"
    by (rule map_cong) (use assms(2) in auto)
  then show ?thesis using assms unfolding numbered_def by simp
qed

lemma pump_initialise:
  assumes "pump_ok p" "n \<noteq> 0" "en_uid (ev_node (pump_lists p) n) = 0" "unat (EventUidCounter (pump_lists p)) < 2 ^ 32 - 32"
    "FEventNode_Initialize n i (pump_lists p) = (uid, t)"
  shows "pump_ok (p\<lparr>pump_lists := t, pump_initialised := (if EventUidCounter (pump_lists p) + ucast Uid_User \<ge> ucast Uid_Max
    then pump_initialised p else n # pump_initialised p)\<rparr>)"
proof -
  let ?s = "pump_lists p" and ?ns = "pump_initialised p"
  note st = initialize_step [OF assms(3,2,4,5)]
  have num: "numbered ?s ?ns" and ls: "pump_lists_ok (pump_state p) ?s (pump_described p) ?ns"
    using assms(1) by (simp_all add: pump_ok_def)
  have new: "n \<notin> set ?ns" using num assms(3) by (auto simp: numbered_def)
  have fr: "ev_node t m = ev_node ?s m" if "m \<in> set ?ns" for m using st new that by metis
  have rest: "GEventListHead t = GEventListHead ?s" "GEventListTail t = GEventListTail ?s" "unat (EventUidCounter t) = unat (EventUidCounter ?s) + 1"
    using st by blast+
  show ?thesis
  proof (cases "EventUidCounter ?s + ucast Uid_User \<ge> ucast Uid_Max")
    case True
    have g: "GNewEventList t = GNewEventList ?s" "unat (EventUidCounter ?s) + 16 \<ge> 32767" using st True by simp_all
    have "pump_lists_ok (pump_state p) t (pump_described p) ?ns" by (rule lists_frame [OF ls fr g(1) rest(1,2)])
    moreover have "numbered t ?ns"
    proof -
      have "numbered (t\<lparr>EventUidCounter := EventUidCounter ?s\<rparr>) ?ns" by (rule numbered_frame [OF num]) (simp_all add: fr)
      then show ?thesis using g(2) rest(3) unfolding numbered_def by simp
    qed
    ultimately show ?thesis using True by (simp add: pump_ok_def)
  next
    case False
    have g: "unat (EventUidCounter ?s) + 16 < 32767" "GNewEventList t = n" "en_next (ev_node t n) = GNewEventList ?s" "en_uid (ev_node t n) \<noteq> 0"
      "drop_bit UidShift (ucast (en_uid (ev_node t n)) :: u16) = of_nat (unat (EventUidCounter ?s) + 16)" using st False by simp_all
    have len: "length ?ns = unat (EventUidCounter ?s)" using num g(1) by (simp add: numbered_def)
    have "pump_lists_ok (pump_state p) (t\<lparr>GNewEventList := GNewEventList ?s\<rparr>) (pump_described p) ?ns"
      by (rule lists_frame [OF ls]) (simp_all add: fr rest)
    then have "pump_lists_ok (pump_state p) t (pump_described p) (n # ?ns)"
      by (rule lists_push) (simp_all add: assms(2) new g)
    moreover have "numbered t (n # ?ns)"
    proof -
      have "numbered (t\<lparr>EventUidCounter := EventUidCounter ?s\<rparr>) ?ns" by (rule numbered_frame [OF num]) (simp_all add: fr)
      then show ?thesis using g(1,4,5) rest(3) len new assms(2) unfolding numbered_def by simp
    qed
    ultimately show ?thesis using False by (simp add: pump_ok_def)
  qed
qed

lemma linking_ok:
  assumes ls: "pump_lists_ok (Pump_linking old) s described ns" and l: "onconnect_link old s = Some t" and ds: "distinct ns"
  shows "pump_lists_ok Pump_idle t described ns"
proof -
  obtain new known olds where n: "nodes_from (ev_node s) (GNewEventList s) (new @ known)" "known \<noteq> []"
    "nodes_from (ev_node s) (GEventListHead s) known" "GEventListTail s = last known" "nodes_from (ev_node s) old olds" "described = []"
    "mset (new @ known @ olds) = mset ns" using ls by auto
  have d: "distinct ((new @ known) @ olds)" using mset_eq_imp_distinct_iff [OF n(7)] ds by simp
  have "t = (set_next (last known) old s)\<lparr>GEventListHead := 0, GEventListTail := 0\<rparr>"
    using l n(4) by (auto simp: onconnect_link_def split: if_splits)
  then have t: "ev_node t = (ev_node s)(last (new @ known) := (ev_node s (last (new @ known)))\<lparr>en_next := old\<rparr>)"
    "GNewEventList t = GNewEventList s" "GEventListHead t = 0" using n(2) by (simp_all add: set_next_def)
  have "nodes_from (ev_node t) (GNewEventList t) ((new @ known) @ olds)"
    unfolding t by (rule slist_link [OF n(1) _ n(5) d]) (simp_all add: n(2))
  then show ?thesis using n(6,7) t(3) by (intro idle_okI [of _ "(new @ known) @ olds"]) simp_all
qed

lemma read_new_ok:
  assumes ls: "pump_lists_ok Pump_idle s described ns" and r: "FEventNode_ReadNew s = Some (it, t)" and ds: "distinct ns"
  shows "pump_lists_ok (Pump_reading it) t described ns"
proof -
  obtain new where n: "nodes_from (ev_node s) (GNewEventList s) new" "nodes_from (ev_node s) (GEventListHead s) described"
    "described \<noteq> [] \<longrightarrow> GEventListTail s = last described" "mset (new @ described) = mset ns" using ls by auto
  have d: "distinct (described @ new)" using mset_eq_imp_distinct_iff [OF n(4)] ds by auto
  show ?thesis
  proof (cases "new = []")
    case True
    then have "GNewEventList s = 0" using n(1) by simp
    then have "it = 0" "t = s\<lparr>GNewEventList := 0\<rparr>" using r by (simp_all add: FEventNode_ReadNew_def)
    then show ?thesis using n True by (intro reading_okI [of _ "[]" _ "[]"]) simp_all
  next
    case False
    then have g: "GNewEventList s \<noteq> 0" using slist_start [OF n(1)] by simp
    show ?thesis
    proof (cases "described = []")
      case True
      then have "GEventListHead s = 0" using n(2) by simp
      then have "it = GNewEventList s" "t = s\<lparr>GNewEventList := 0, GEventListHead := GNewEventList s\<rparr>"
        using r g by (auto simp: FEventNode_ReadNew_def Let_def)
      then show ?thesis using n True False by (intro reading_okI [of _ "[]" _ new]) simp_all
    next
      case ne: False
      then have h: "GEventListHead s \<noteq> 0" using slist_start [OF n(2)] by simp
      have it: "it = GNewEventList s" and t: "t = set_next (last described) (GNewEventList s) (s\<lparr>GNewEventList := 0\<rparr>)"
        using r g h n(3) ne by (auto simp: FEventNode_ReadNew_def Let_def split: if_splits)
      have nd: "ev_node t = (ev_node s)(last described := (ev_node s (last described))\<lparr>en_next := it\<rparr>)" "GNewEventList t = 0" "GEventListHead t = GEventListHead s"
        by (simp_all add: t it set_next_def)
      have "nodes_from (ev_node t) (GEventListHead s) (described @ new)"
        unfolding nd it by (rule slist_link [OF n(2) ne n(1) d]) simp_all
      moreover have "nodes_from (ev_node t) it new"
        unfolding nd it using n(1) d last_in_set [OF ne] by (subst slist_cong [where nx' = "\<lambda>n. en_next (ev_node s n)"]) auto
      ultimately show ?thesis using n(4) False nd by (intro reading_okI [of _ "[]" _ new]) (simp_all add: add.commute)
    qed
  qed
qed

lemma get_next_ok:
  assumes ls: "pump_lists_ok (Pump_reading it) s described ns" and g: "FIter_GetNext it s = (e, it', t)"
  shows "pump_lists_ok (if e = 0 then Pump_idle else Pump_reading it') t (if e = 0 then described else described @ [e]) ns"
proof -
  obtain new rest where n: "nodes_from (ev_node s) (GNewEventList s) new" "nodes_from (ev_node s) it rest"
    "nodes_from (ev_node s) (GEventListHead s) (described @ rest)" "rest = [] \<and> described \<noteq> [] \<longrightarrow> GEventListTail s = last described"
    "mset (new @ described @ rest) = mset ns" using ls by auto
  show ?thesis
  proof (cases rest)
    case Nil
    then have "e = 0" "t = s" using g n(2) by (simp_all add: FIter_GetNext_def)
    moreover have "pump_lists_ok Pump_idle s described ns" using n Nil by (intro idle_okI [of _ new]) simp_all
    ultimately show ?thesis by simp
  next
    case (Cons x xs)
    have e: "e = x" "x \<noteq> 0" "it' = en_next (ev_node s x)" and t: "t = (if it' = 0 then s\<lparr>GEventListTail := x\<rparr> else s)"
      using g n(2) Cons by (auto simp: FIter_GetNext_def Let_def)
    have "nodes_from (ev_node s) it' xs" using n(2) Cons e by simp
    then have "pump_lists_ok (Pump_reading it') t (described @ [x]) ns"
      using n Cons e t slist_start [of "\<lambda>n. en_next (ev_node s n)" it' xs] by (intro reading_okI [of _ new _ xs]) auto
    then show ?thesis using e by simp
  qed
qed

lemma pump_step_ok: "pump_step p q \<Longrightarrow> pump_ok p \<Longrightarrow> pump_ok q"
proof (induction rule: pump_step.induct)
  case (initialise n p i uid s)
  then show ?case using pump_initialise by blast
next
  case (connect_first p)
  then show ?case by (cases "pump_described p") (auto simp: pump_ok_def)
next
  case (connect_exchange p old s)
  then have s: "old = GNewEventList (pump_lists p)" "s = (pump_lists p)\<lparr>GNewEventList := GEventListHead (pump_lists p)\<rparr>"
    by (simp_all add: onconnect_exchange_def)
  have n: "numbered s (pump_initialised p)" using connect_exchange.prems s(2) by (simp add: pump_ok_def numbered_def)
  obtain new where o: "nodes_from (ev_node (pump_lists p)) (GNewEventList (pump_lists p)) new"
    "nodes_from (ev_node (pump_lists p)) (GEventListHead (pump_lists p)) (pump_described p)"
    "pump_described p \<noteq> [] \<longrightarrow> GEventListTail (pump_lists p) = last (pump_described p)"
    "mset (new @ pump_described p) = mset (pump_initialised p)"
    using connect_exchange.prems connect_exchange.hyps(1) by (auto simp: pump_ok_def)
  have "pump_described p \<noteq> []" using slist_start [OF o(2)] connect_exchange.hyps(2) by simp
  then have "pump_lists_ok (Pump_linking old) s [] (pump_initialised p)"
    using o s by (intro linking_okI [of _ "[]" "pump_described p" _ new]) (simp_all add: add.commute)
  then show ?case using n by (simp add: pump_ok_def)
next
  case (connect_link p old s)
  have "numbered s (pump_initialised p)"
  proof (rule numbered_frame)
    show "numbered (pump_lists p) (pump_initialised p)" using connect_link.prems by (simp add: pump_ok_def)
  qed (use connect_link.hyps(2) in \<open>auto simp: onconnect_link_def set_next_def split: if_splits\<close>)
  then show ?case using linking_ok [of old "pump_lists p" "pump_described p" "pump_initialised p" s] connect_link
    by (simp add: pump_ok_def numbered_def)
next
  case (read_new p it s)
  have "numbered s (pump_initialised p)"
  proof (rule numbered_frame)
    show "numbered (pump_lists p) (pump_initialised p)" using read_new.prems by (simp add: pump_ok_def)
  qed (use read_new.hyps(2) in \<open>auto simp: FEventNode_ReadNew_def set_next_def Let_def split: if_splits\<close>)
  then show ?case using read_new_ok [of "pump_lists p" "pump_described p" "pump_initialised p" it s] read_new
    by (simp add: pump_ok_def numbered_def)
next
  case (get_next p it e it' s)
  have "numbered s (pump_initialised p)"
    using get_next by (auto simp: pump_ok_def FIter_GetNext_def numbered_def Let_def split: if_splits)
  then show ?case using get_next_ok [of it "pump_lists p" "pump_described p" "pump_initialised p" e it' s] get_next
    by (simp add: pump_ok_def)
qed


lemma pump_initial_ok: "pump_initial p \<Longrightarrow> pump_ok p"
  by (simp add: pump_initial_def pump_ok_def numbered_def)

lemma pump_reach_ok: "pump_reach p q \<Longrightarrow> pump_initial p \<Longrightarrow> pump_ok q"
  by (induction rule: pump_reach.induct) (auto intro: pump_initial_ok pump_step_ok)

text \<open>
  C8: However initialisations interleave with the writer, whenever the writer has read a list to
  its end, each event that was initialised with a number of its own has been described exactly
  once since the last connection, or is still in the list of new events; the numbers are 16, 17
  and on, in the order of initialisation. Events that are initialised after the numbers are used up
  have no number and are on neither list. What a snapshot would describe are the events that the
  writer has described, the others being missing from it; when it has described none since the last
  connection, a snapshot describes those on the list of new events. No list operation follows a null pointer.
\<close>

theorem events_described_once:
  assumes "pump_initial p" "pump_reach p q" "pump_state q = Pump_idle"
  shows "\<exists>new. nodes_from (ev_node (pump_lists q)) (GNewEventList (pump_lists q)) new \<and>
    mset (pump_described q) + mset new = mset (pump_initialised q) \<and> distinct (pump_initialised q) \<and>
    map (\<lambda>n. drop_bit UidShift (ucast (en_uid (ev_node (pump_lists q) n)) :: u16)) (rev (pump_initialised q)) =
      map (\<lambda>k. of_nat (k + 16)) [0..<length (pump_initialised q)] \<and>
    nodes_from (ev_node (pump_lists q)) (FEventNode_Read (pump_lists q)) (if pump_described q = [] then new else pump_described q) \<and>
    FEventNode_ReadNew (pump_lists q) \<noteq> None \<and> FEventNode_OnConnect (pump_lists q) \<noteq> None"
proof -
  let ?s = "pump_lists q" and ?ns = "pump_initialised q"
  have ok: "numbered ?s ?ns" "pump_lists_ok Pump_idle ?s (pump_described q) ?ns"
    using pump_reach_ok [OF assms(2,1)] assms(3) by (simp_all add: pump_ok_def)
  obtain new where n: "nodes_from (ev_node ?s) (GNewEventList ?s) new" "nodes_from (ev_node ?s) (GEventListHead ?s) (pump_described q)"
    "pump_described q \<noteq> [] \<longrightarrow> GEventListTail ?s = last (pump_described q)" "mset (new @ pump_described q) = mset ?ns"
    using ok(2) by auto
  have h: "GEventListHead ?s = 0 \<longleftrightarrow> pump_described q = []" by (rule slist_start [OF n(2)])
  have tl: "GEventListHead ?s \<noteq> 0 \<Longrightarrow> GEventListTail ?s \<noteq> 0"
    using h n(3) slist_nonnull [OF n(2)] last_in_set by metis
  have nums: "map (\<lambda>n. drop_bit UidShift (ucast (en_uid (ev_node ?s n)) :: u16)) (rev ?ns) = map (\<lambda>k. of_nat (k + 16)) [0..<length ?ns]"
    "distinct ?ns" using ok(1) unfolding numbered_def rev_map [symmetric] by (metis rev_rev_ident rev_map, simp)
  have rd: "nodes_from (ev_node ?s) (FEventNode_Read ?s) (if pump_described q = [] then new else pump_described q)"
    using n(1,2) h by (auto simp: FEventNode_Read_def)
  have rn: "FEventNode_ReadNew ?s \<noteq> None" using tl by (simp add: FEventNode_ReadNew_def Let_def)
  have oc: "FEventNode_OnConnect ?s \<noteq> None" using tl by (simp add: FEventNode_OnConnect_def onconnect_exchange_def onconnect_link_def)
  show ?thesis using n(1,4) nums rd rn oc by (intro exI [of _ new]) (simp add: add.commute)
qed

definition sample_pump :: pump where
  "sample_pump = \<lparr>pump_lists = \<lparr>ev_node = \<lambda>_. \<lparr>en_next = 0, en_info = sample_event, en_uid = 0\<rparr>, GNewEventList = 0,
     GEventListHead = 0, GEventListTail = 0, EventUidCounter = 0\<rparr>, pump_state = Pump_idle, pump_described = [], pump_initialised = []\<rparr>"

lemma events_described_once_witness:
  "\<exists>q new. pump_reach sample_pump q \<and> pump_initialised q = [100] \<and> mset (pump_described q) + mset new = {#100#}"
proof -
  let ?s = "pump_lists sample_pump"
  let ?q = "sample_pump\<lparr>pump_lists := snd (FEventNode_Initialize 100 sample_event ?s), pump_initialised := [100]\<rparr>"
  have c: "\<not> (ucast Uid_Max :: u32) \<le> EventUidCounter ?s + ucast Uid_User" by (simp add: sample_pump_def Uid_Max_def Uid_User_def UidShift_def)
  have "pump_step sample_pump (sample_pump\<lparr>pump_lists := snd (FEventNode_Initialize 100 sample_event ?s),
      pump_initialised := (if EventUidCounter ?s + ucast Uid_User \<ge> ucast Uid_Max then pump_initialised sample_pump else 100 # pump_initialised sample_pump)\<rparr>)"
    by (rule pump_step.initialise [OF _ _ _ prod.collapse [symmetric]]) (simp_all add: sample_pump_def)
  then have "pump_step sample_pump ?q" unfolding if_not_P [OF c] by (simp add: sample_pump_def)
  then have r: "pump_reach sample_pump ?q" by (rule pump_reach.step [OF pump_reach.start])
  have "pump_initial sample_pump" "pump_state ?q = Pump_idle" by (simp_all add: pump_initial_def sample_pump_def)
  then obtain new where "mset (pump_described ?q) + mset new = mset (pump_initialised ?q)"
    using events_described_once [OF _ r] by blast
  then show ?thesis using r by (intro exI [of _ ?q] exI [of _ new]) simp
qed

end
