(* ===== verification/LogScope.thy ===== *)
theory LogScope
  imports ThreadBuffers Events
begin

text \<open>
  Tracing an event (Public/Trace/Detail/LogScope.h, LogScope.inl, Field.h, Trace.h and
  Private/Trace/Field.cpp): what the macros UE_TRACE_LOG and UE_TRACE_LOG_SCOPED write into the
  buffers of the calling thread, from the layout of the fields to the commit. The operations
  work on the buffers of ThreadBuffers. The second half holds a reader of the stream of a
  thread, which is the specification: what a thread traced is read back from its bytes.
\<close>

section \<open>Fields of an event (Field.h, Protocol0.h)\<close>

datatype field_type = F_Bool | F_Int8 | F_Int16 | F_Int32 | F_Int64 | F_Uint8 | F_Uint16 | F_Uint32
  | F_Uint64 | F_Pointer | F_Float32 | F_Float64 | F_Array field_type | F_AnsiString | F_WideString

definition Field_Integer :: u8 where "Field_Integer = 0"
definition Field_Float :: u8 where "Field_Float = 64"
definition Field_Array :: u8 where "Field_Array = 128"
definition Field_8 :: u8 where "Field_8 = 0"
definition Field_16 :: u8 where "Field_16 = 1"
definition Field_32 :: u8 where "Field_32 = 2"
definition Field_64 :: u8 where "Field_64 = 3"
definition Field_Ptr :: u8 where "Field_Ptr = Field_64"
definition Field_Pod :: u8 where "Field_Pod = 0"
definition Field_String :: u8 where "Field_String = 8"
definition Field_Signed :: u8 where "Field_Signed = 16"

fun TFieldType_Tid :: "field_type \<Rightarrow> u8" where
  "TFieldType_Tid F_Bool = Field_Pod OR Field_Integer OR Field_8"
| "TFieldType_Tid F_Int8 = Field_Pod OR Field_Integer OR Field_Signed OR Field_8"
| "TFieldType_Tid F_Int16 = Field_Pod OR Field_Integer OR Field_Signed OR Field_16"
| "TFieldType_Tid F_Int32 = Field_Pod OR Field_Integer OR Field_Signed OR Field_32"
| "TFieldType_Tid F_Int64 = Field_Pod OR Field_Integer OR Field_Signed OR Field_64"
| "TFieldType_Tid F_Uint8 = Field_Pod OR Field_Integer OR Field_8"
| "TFieldType_Tid F_Uint16 = Field_Pod OR Field_Integer OR Field_16"
| "TFieldType_Tid F_Uint32 = Field_Pod OR Field_Integer OR Field_32"
| "TFieldType_Tid F_Uint64 = Field_Pod OR Field_Integer OR Field_64"
| "TFieldType_Tid F_Pointer = Field_Pod OR Field_Integer OR Field_Ptr"
| "TFieldType_Tid F_Float32 = Field_Pod OR Field_Float OR Field_32"
| "TFieldType_Tid F_Float64 = Field_Pod OR Field_Float OR Field_64"
| "TFieldType_Tid (F_Array T) = TFieldType_Tid T OR Field_Array"
| "TFieldType_Tid F_AnsiString = Field_String OR Field_Integer OR Field_Array OR Field_8"
| "TFieldType_Tid F_WideString = Field_String OR Field_Integer OR Field_Array OR Field_16"

fun TFieldType_Size :: "field_type \<Rightarrow> nat" where
  "TFieldType_Size F_Bool = 1"
| "TFieldType_Size F_Int8 = 1"
| "TFieldType_Size F_Int16 = 2"
| "TFieldType_Size F_Int32 = 4"
| "TFieldType_Size F_Int64 = 8"
| "TFieldType_Size F_Uint8 = 1"
| "TFieldType_Size F_Uint16 = 2"
| "TFieldType_Size F_Uint32 = 4"
| "TFieldType_Size F_Uint64 = 8"
| "TFieldType_Size F_Pointer = 8"
| "TFieldType_Size F_Float32 = 4"
| "TFieldType_Size F_Float64 = 8"
| "TFieldType_Size (F_Array T) = 0"
| "TFieldType_Size F_AnsiString = 0"
| "TFieldType_Size F_WideString = 0"

text \<open>The fields whose data follows the event: TField adds AuxFieldCounter to their index.\<close>

fun is_aux_field :: "field_type \<Rightarrow> bool" where
  "is_aux_field (F_Array T) \<longleftrightarrow> True"
| "is_aux_field F_AnsiString \<longleftrightarrow> True"
| "is_aux_field F_WideString \<longleftrightarrow> True"
| "is_aux_field _ \<longleftrightarrow> False"

definition NumFieldsMax :: nat where "NumFieldsMax = 2 ^ FieldBits"
definition NumFieldsShift :: nat where "NumFieldsShift = 8"
definition NumFieldsMask :: nat where "NumFieldsMask = 2 ^ NumFieldsShift - 1"
definition AuxFieldCounter :: nat where "AuxFieldCounter = 2 ^ NumFieldsShift"

text \<open>A declared field: its index with the count of auxiliary fields above it, offset and type.\<close>

record field_meta =
  fm_Index :: nat
  fm_Offset :: nat
  fm_type :: field_type

definition TField :: "nat \<Rightarrow> nat \<Rightarrow> field_type \<Rightarrow> field_meta" where
  "TField InIndex InOffset T = \<lparr>fm_Index = (if is_aux_field T then InIndex + AuxFieldCounter else InIndex),
     fm_Offset = InOffset, fm_type = T\<rparr>"

text \<open>
  The chain of typedefs that UE_TRACE_EVENT_FIELD builds: each field begins with the index and
  offset after the field before it. The result also has the index and offset at the end.
\<close>

fun field_chain :: "nat \<Rightarrow> nat \<Rightarrow> field_type list \<Rightarrow> field_meta list \<times> nat \<times> nat" where
  "field_chain i off [] = ([], i, off)"
| "field_chain i off (T # Ts) =
     (let fm = TField i off T;
          (fms, n, size) = field_chain (fm_Index fm + 1) (fm_Offset fm + TFieldType_Size T) Ts
      in (fm # fms, n, size))"

text \<open>
  A declaration: the types of its fields and its flags. The identifier of a definition is one
  more field at the end (DefinitionId_Meta, UE_TRACE_EVENT_END).
\<close>

record event_decl =
  ed_fields :: "field_type list"
  ed_definition :: "field_type option"
  ed_flags :: u16

definition ed_metas :: "event_decl \<Rightarrow> field_meta list \<times> nat \<times> nat" where
  "ed_metas d = field_chain 0 0 (ed_fields d @ (case ed_definition d of None \<Rightarrow> [] | Some T \<Rightarrow> [T]))"

definition EventProps_NumFields :: "event_decl \<Rightarrow> nat" where
  "EventProps_NumFields d = (let (_, n, _) = ed_metas d in n mod 2 ^ NumFieldsShift)"

definition EventProps_Size :: "event_decl \<Rightarrow> nat" where
  "EventProps_Size d = (let (_, _, size) = ed_metas d in size)"

definition EventProps_NumAuxFields :: "event_decl \<Rightarrow> nat" where
  "EventProps_NumAuxFields d = (let (_, n, _) = ed_metas d in (n div 2 ^ NumFieldsShift) mod 2 ^ NumFieldsShift)"

definition EventFlags :: "event_decl \<Rightarrow> u16" where
  "EventFlags d = ed_flags d OR (if EventProps_NumAuxFields d \<noteq> 0 then Flag_MaybeHasAux else 0)"

section \<open>State\<close>

text \<open>
  The blocks that Writer_NextBuffer will get from the pool are a sequence in the environment,
  with the events that the pool traced meanwhile and, for the first buffer of a thread, the
  number of the thread, the time and the event ThreadTiming. GLogSerial is shared by all threads.
\<close>

record new_block =
  nb_addr :: nat
  nb_redirected :: "u8 list"
  nb_tid :: u16
  nb_now :: u64
  nb_timing :: "u8 list"

record log_state = thread_buffers +
  GLogSerial :: u32
  blocks_taken :: nat

definition next_buffer :: "(nat \<Rightarrow> new_block) \<Rightarrow> nat \<Rightarrow> log_state \<Rightarrow> nat \<times> log_state" where
  "next_buffer env t s =
     (let a = env (blocks_taken s);
          s = Writer_NextBuffer t (nb_addr a) (nb_redirected a) (nb_tid a) (nb_now a) (nb_timing a) s
      in (nb_addr a, s\<lparr>blocks_taken := blocks_taken s + 1\<rparr>))"

text \<open>
  The current buffer if it has room for \<open>n\<close> bytes, or a new one. GNullWriteBuffer, here None, is
  a buffer whose Cursor is its own address: it has no room.
\<close>

definition buffer_for :: "(nat \<Rightarrow> new_block) \<Rightarrow> nat \<Rightarrow> nat \<Rightarrow> log_state \<Rightarrow> nat \<times> log_state" where
  "buffer_for env t n s =
     (case GTlsWriteBuffer s t of
        None \<Rightarrow> next_buffer env t s
      | Some b \<Rightarrow> if 0 - Cursor (buf_at s b) < int n then next_buffer env t s else (b, s))"

definition store_at :: "nat \<Rightarrow> int \<Rightarrow> u8 list \<Rightarrow> 'a thread_buffers_scheme \<Rightarrow> 'a thread_buffers_scheme" where
  "store_at b i xs = upd_buf b (\<lambda>x. x\<lparr>bmem := put_bytes i xs (bmem x)\<rparr>)"

section \<open>Entering an event (LogScope.inl)\<close>

record log_scope =
  Ptr :: int
  Buffer :: nat

definition EnterPrelude :: "(nat \<Rightarrow> new_block) \<Rightarrow> nat \<Rightarrow> nat \<Rightarrow> nat \<Rightarrow> log_state \<Rightarrow> log_scope \<times> log_state" where
  "EnterPrelude env t sizeof_header Size s =
     (let AllocSize = sizeof_header + Size;
          (b, s) = buffer_for env t AllocSize s;
          ptr = Cursor (buf_at s b) + int sizeof_header;
          s = upd_buf b (\<lambda>x. x\<lparr>Cursor := Cursor x + int AllocSize\<rparr>) s
      in (\<lparr>Ptr = ptr, Buffer = b\<rparr>, s))"

definition sizeof_FEventHeaderSync :: nat where "sizeof_FEventHeaderSync = 5"
definition sizeof_FEventHeader :: nat where "sizeof_FEventHeader = 2"

text \<open>The serial number is stored as 32 bits, of which the last byte is the first of the fields.\<close>

definition FLogScope_Enter :: "(nat \<Rightarrow> new_block) \<Rightarrow> nat \<Rightarrow> u32 \<Rightarrow> nat \<Rightarrow> log_state \<Rightarrow> log_scope \<times> log_state" where
  "FLogScope_Enter env t Uid Size s =
     (let (sc, s) = EnterPrelude env t sizeof_FEventHeaderSync Size s;
          s = store_at (Buffer sc) (Ptr sc - 3) (le32 (GLogSerial s)) s;
          s = s\<lparr>GLogSerial := GLogSerial s + 1\<rparr>;
          s = store_at (Buffer sc) (Ptr sc - 5) (le16 (ucast Uid OR Flag_TwoByteUid)) s
      in (sc, s))"

definition FLogScope_EnterNoSync :: "(nat \<Rightarrow> new_block) \<Rightarrow> nat \<Rightarrow> u32 \<Rightarrow> nat \<Rightarrow> log_state \<Rightarrow> log_scope \<times> log_state" where
  "FLogScope_EnterNoSync env t Uid Size s =
     (let (sc, s) = EnterPrelude env t sizeof_FEventHeader Size s;
          s = store_at (Buffer sc) (Ptr sc - 2) (le16 (ucast Uid OR Flag_TwoByteUid)) s
      in (sc, s))"

definition FLogScope_EnterImpl :: "(nat \<Rightarrow> new_block) \<Rightarrow> nat \<Rightarrow> u16 \<Rightarrow> u32 \<Rightarrow> nat \<Rightarrow> log_state \<Rightarrow> log_scope \<times> log_state" where
  "FLogScope_EnterImpl env t Flags Uid Size s =
     (if Flags AND Flag_NoSync \<noteq> 0 then FLogScope_EnterNoSync env t Uid Size s
      else FLogScope_Enter env t Uid Size s)"

text \<open>The end of the statement, operator +=. The current buffer is never null there.\<close>

definition FLogScope_Commit :: "log_scope \<Rightarrow> nat \<Rightarrow> log_state \<Rightarrow> log_state" where
  "FLogScope_Commit sc LatestBuffer s =
     (let s = (if LatestBuffer \<noteq> Buffer sc then commit LatestBuffer s else s) in commit (Buffer sc) s)"

definition log_scope_end :: "nat \<Rightarrow> bool \<Rightarrow> log_scope \<Rightarrow> log_state \<Rightarrow> log_state option" where
  "log_scope_end t bMaybeHasAux sc s =
     (if \<not> bMaybeHasAux then Some (commit (Buffer sc) s)
      else case GTlsWriteBuffer s t of None \<Rightarrow> None
           | Some b \<Rightarrow>
               let s = emit b [ucast (push_bit UidShift Uid_AuxDataTerminal)] s
               in Some (FLogScope_Commit sc b s))"

section \<open>Auxiliary data (Field.cpp)\<close>

definition aux_header :: "nat \<Rightarrow> nat \<Rightarrow> u8 list" where
  "aux_header Index SegmentSize =
     (let Pack = push_bit SizeShift (of_nat SegmentSize :: u32) OR push_bit FieldShift (of_nat Index :: u32)
      in ucast (push_bit UidShift Uid_AuxData) # tl (le32 Pack))"

text \<open>
  The loop of Field_WriteAuxData. What the callback copies are the next bytes of \<open>data\<close>, so that
  Size is the number of bytes left. A negative number of bytes to copy is undefined.
\<close>

partial_function (option) write_aux_loop ::
  "(nat \<Rightarrow> new_block) \<Rightarrow> nat \<Rightarrow> nat \<Rightarrow> u8 list \<Rightarrow> bool \<Rightarrow> nat \<Rightarrow> log_state \<Rightarrow> log_state option" where
  "write_aux_loop env t Index data bCommit b s =
     (let Remaining = 0 - Cursor (buf_at s b) + int sizeof_Overflow - 1 - int sizeof_FAuxHeader;
          SegmentSize = (if Remaining < int (length data) then Remaining else int (length data))
      in if SegmentSize < 0 then None
         else
           let s = emit b (aux_header Index (nat SegmentSize)) s;
               s = emit b (take (nat SegmentSize) data) s;
               data = drop (nat SegmentSize) data
           in if data = [] then Some (if bCommit then commit b s else s)
              else
                let s = (if bCommit then commit b s else s);
                    (b, s) = next_buffer env t s
                in write_aux_loop env t Index data True b s)"

definition Field_WriteAuxData :: "(nat \<Rightarrow> new_block) \<Rightarrow> nat \<Rightarrow> nat \<Rightarrow> u8 list \<Rightarrow> log_state \<Rightarrow> log_state option" where
  "Field_WriteAuxData env t Index data s =
     (if data = [] then Some s
      else case GTlsWriteBuffer s t of
        None \<Rightarrow> (let (b, s) = next_buffer env t s in write_aux_loop env t Index data True b s)
      | Some b \<Rightarrow>
          let bCommit = (Cursor (buf_at s b) = Committed (buf_at s b)) in
          if 0 - Cursor (buf_at s b) \<le> 0
          then let s = (if bCommit then commit b s else s);
                   (b, s) = next_buffer env t s
               in write_aux_loop env t Index data True b s
          else write_aux_loop env t Index data bCommit b s)"

text \<open>The sizes are clamped by cutting off their upper bits. Reading past the data is undefined.\<close>

definition aux_prefix :: "u32 \<Rightarrow> u8 list \<Rightarrow> u8 list option" where
  "aux_prefix Size data = (if unat Size \<le> length data then Some (take (unat Size) data) else None)"

definition array_size :: "int \<Rightarrow> nat \<Rightarrow> u32" where
  "array_size Num sizeof_Type =
     (of_int Num * of_nat sizeof_Type) AND (of_nat SizeLimit - 1) AND NOT (of_nat sizeof_Type - 1)"

definition string_size :: "int \<Rightarrow> nat \<Rightarrow> u32" where
  "string_size Length sizeof_char = (of_int Length * of_nat sizeof_char) AND (of_nat SizeLimit - 1)"

text \<open>The length of a string that is ended by a zero.\<close>

fun strlen :: "'c::zero list \<Rightarrow> nat option" where
  "strlen [] = None"
| "strlen (c # cs) = (if c = 0 then Some 0 else map_option Suc (strlen cs))"

definition string_length :: "int \<Rightarrow> 'c::zero list \<Rightarrow> int option" where
  "string_length Length String = (if Length < 0 then map_option int (strlen String) else Some Length)"

text \<open>WIDECHAR is wchar_t, which has four bytes on the modelled platforms.\<close>

definition sizeof_WIDECHAR :: nat where "sizeof_WIDECHAR = 4"

definition Field_WriteStringAnsi :: "(nat \<Rightarrow> new_block) \<Rightarrow> nat \<Rightarrow> nat \<Rightarrow> u8 list \<Rightarrow> int \<Rightarrow> log_state \<Rightarrow> log_state option" where
  "Field_WriteStringAnsi env t Index String Length s = do {
     data \<leftarrow> aux_prefix (string_size Length 1) String;
     Field_WriteAuxData env t Index data s }"

definition Field_WriteStringAnsi_wide :: "(nat \<Rightarrow> new_block) \<Rightarrow> nat \<Rightarrow> nat \<Rightarrow> u32 list \<Rightarrow> int \<Rightarrow> log_state \<Rightarrow> log_state option" where
  "Field_WriteStringAnsi_wide env t Index String Length s = do {
     data \<leftarrow> aux_prefix (string_size Length 1) (map (\<lambda>c. ucast (c AND 0x7f)) String);
     Field_WriteAuxData env t Index data s }"

definition Field_WriteStringWide :: "(nat \<Rightarrow> new_block) \<Rightarrow> nat \<Rightarrow> nat \<Rightarrow> u32 list \<Rightarrow> int \<Rightarrow> log_state \<Rightarrow> log_state option" where
  "Field_WriteStringWide env t Index String Length s = do {
     data \<leftarrow> aux_prefix (string_size Length sizeof_WIDECHAR) (concat (map le32 String));
     Field_WriteAuxData env t Index data s }"

section \<open>Setting a field\<close>

text \<open>
  The values a statement gives to its fields: the bytes of a plain value, the elements of an
  array with their number, and strings of narrow or wide characters with a length, which is
  negative when the string ends with a zero.
\<close>

datatype field_value = V_plain "u8 list" | V_array "u8 list" int | V_ansi "u8 list" int | V_wide "u32 list" int

definition FFieldSet :: "(nat \<Rightarrow> new_block) \<Rightarrow> nat \<Rightarrow> log_scope \<Rightarrow> field_meta \<Rightarrow> field_value \<Rightarrow> log_state \<Rightarrow> log_state option" where
  "FFieldSet env t sc fm v s =
     (let Index = fm_Index fm mod 2 ^ NumFieldsShift in
      case (fm_type fm, v) of
        (F_Array T, V_array data num) \<Rightarrow> do {
          data \<leftarrow> aux_prefix (array_size num (TFieldType_Size T)) data;
          Field_WriteAuxData env t Index data s }
      | (F_AnsiString, V_ansi String Length) \<Rightarrow> do {
          Length \<leftarrow> string_length Length String;
          Field_WriteStringAnsi env t Index String Length s }
      | (F_AnsiString, V_wide String Length) \<Rightarrow> do {
          Length \<leftarrow> string_length Length String;
          Field_WriteStringAnsi_wide env t Index String Length s }
      | (F_WideString, V_wide String Length) \<Rightarrow> do {
          Length \<leftarrow> string_length Length String;
          Field_WriteStringWide env t Index String Length s }
      | (T, V_plain value) \<Rightarrow>
          if is_aux_field T \<or> length value \<noteq> TFieldType_Size T then None
          else Some (store_at (Buffer sc) (Ptr sc + int (fm_Offset fm)) value s)
      | _ \<Rightarrow> None)"

text \<open>
  The statement UE_TRACE_LOG: the operands of the shift operators set fields one after the
  other. A field is given by its position in the declaration. No field of that position, or a
  value that is not of its type, is a program that does not compile; it is None here.
\<close>

fun set_fields :: "(nat \<Rightarrow> new_block) \<Rightarrow> nat \<Rightarrow> event_decl \<Rightarrow> log_scope \<Rightarrow> (nat \<times> field_value) list \<Rightarrow> log_state \<Rightarrow> log_state option" where
  "set_fields env t d sc [] s = Some s"
| "set_fields env t d sc ((k, v) # kvs) s = do {
     fm \<leftarrow> load (fst (ed_metas d)) k;
     s \<leftarrow> FFieldSet env t sc fm v s;
     set_fields env t d sc kvs s }"

definition UE_TRACE_LOG :: "(nat \<Rightarrow> new_block) \<Rightarrow> nat \<Rightarrow> event_decl \<Rightarrow> u32 \<Rightarrow> bool \<Rightarrow> (nat \<times> field_value) list \<Rightarrow> log_state \<Rightarrow> log_state option" where
  "UE_TRACE_LOG env t d Uid enabled kvs s =
     (if \<not> enabled then Some s
      else do {
        let (sc, s) = FLogScope_EnterImpl env t (EventFlags d) Uid (EventProps_Size d) s;
        s \<leftarrow> set_fields env t d sc kvs s;
        log_scope_end t (EventFlags d AND Flag_MaybeHasAux \<noteq> 0) sc s })"

section \<open>Scopes\<close>

definition scope_mark :: "(nat \<Rightarrow> new_block) \<Rightarrow> nat \<Rightarrow> u16 \<Rightarrow> log_state \<Rightarrow> log_state" where
  "scope_mark env t known s =
     (let (b, s) = buffer_for env t 1 s in commit b (emit b [ucast (push_bit UidShift known)] s))"

definition FLogScope_ScopedEnter :: "(nat \<Rightarrow> new_block) \<Rightarrow> nat \<Rightarrow> log_state \<Rightarrow> log_state" where
  "FLogScope_ScopedEnter env t s = scope_mark env t Uid_EnterScope s"

definition FScopedLogScope_leave :: "(nat \<Rightarrow> new_block) \<Rightarrow> nat \<Rightarrow> bool \<Rightarrow> log_state \<Rightarrow> log_state" where
  "FScopedLogScope_leave env t bActive s = (if \<not> bActive then s else scope_mark env t Uid_LeaveScope s)"

text \<open>The time now is an argument. The stamp is the time since the last one of the thread.\<close>

definition Writer_GetTimestamp :: "u64 \<Rightarrow> nat \<Rightarrow> log_state \<Rightarrow> u64 \<times> log_state" where
  "Writer_GetTimestamp now b s =
     (let Ret = now - PrevTimestamp (buf_at s b)
      in (Ret, upd_buf b (\<lambda>x. x\<lparr>PrevTimestamp := PrevTimestamp x + Ret\<rparr>) s))"

definition stamp_bytes :: "u64 \<Rightarrow> u16 \<Rightarrow> u8 list" where
  "stamp_bytes Stamp known = le64 (push_bit 8 Stamp + ucast (push_bit UidShift known))"

definition FLogScope_ScopedStampedEnter :: "(nat \<Rightarrow> new_block) \<Rightarrow> nat \<Rightarrow> u64 \<Rightarrow> log_state \<Rightarrow> log_state" where
  "FLogScope_ScopedStampedEnter env t now s =
     (let (b, s) = buffer_for env t 8 s;
          (Stamp, s) = Writer_GetTimestamp now b s
      in commit b (emit b (stamp_bytes Stamp Uid_EnterScope_T) s))"

text \<open>
  On leaving, the stamp is taken from the buffer before the one it may be written to. A scope is
  active only after an event of the same thread, so the buffer is not the null buffer.
\<close>

definition FScopedStampedLogScope_leave :: "(nat \<Rightarrow> new_block) \<Rightarrow> nat \<Rightarrow> bool \<Rightarrow> u64 \<Rightarrow> log_state \<Rightarrow> log_state option" where
  "FScopedStampedLogScope_leave env t bActive now s =
     (if \<not> bActive then Some s
      else case GTlsWriteBuffer s t of None \<Rightarrow> None
      | Some b \<Rightarrow>
          let (Stamp, s) = Writer_GetTimestamp now b s;
              (b, s) = buffer_for env t 8 s
          in Some (commit b (emit b (stamp_bytes Stamp Uid_LeaveScope_T) s)))"

end
