(* ===== verification/LogStream.thy ===== *)
theory LogStream
  imports LogScope
begin

text \<open>
  The stream of bytes that a thread writes, and its reader. The chain of a thread is the list
  of its buffers that the worker has not given back, oldest first; the stream is what the
  worker has still to reap of them. The reader is the specification of LogScope: the events,
  their fields and the scopes that the statements of a thread trace are read back.
\<close>

section \<open>The chain of a thread\<close>

definition chain_ok :: "'a thread_buffers_scheme \<Rightarrow> nat \<Rightarrow> nat list \<Rightarrow> bool" where
  "chain_ok s t bs \<longleftrightarrow>
     bs \<noteq> [] \<and> GTlsWriteBuffer s t = Some (last bs) \<and> distinct bs \<and> links (buf_at s) bs \<and>
     (\<forall>b \<in> set bs. buf_inv (buf_at s b) \<and> - int (bufSize (buf_at s b)) \<le> Reaped (buf_at s b)) \<and>
     (\<forall>b \<in> set (butlast bs). closed_buf (buf_at s b)) \<and> open_buf (buf_at s (last bs))"

definition stream :: "'a thread_buffers_scheme \<Rightarrow> nat list \<Rightarrow> u8 list" where
  "stream s bs = concat (map (\<lambda>b. unsent (buf_at s b)) bs)"

lemma stream_simps [simp]: "stream s [] = []" "stream s (b # bs) = unsent (buf_at s b) @ stream s bs"
  "stream s (as @ bs) = stream s as @ stream s bs"
  by (simp_all add: stream_def)

lemma stream_cong: "(\<And>b. b \<in> set bs \<Longrightarrow> buf_at s b = buf_at s' b) \<Longrightarrow> stream s bs = stream s' bs"
  unfolding stream_def by (rule arg_cong [where f = concat], rule map_cong) simp_all

lemma chain_ok_inv: "chain_ok s t bs \<Longrightarrow> b \<in> set bs \<Longrightarrow> buf_inv (buf_at s b)"
  by (simp add: chain_ok_def)

lemma chain_ok_tls: "chain_ok s t bs \<Longrightarrow> GTlsWriteBuffer s t = Some (last bs)"
  by (simp add: chain_ok_def)

lemma chain_ok_ne: "chain_ok s t bs \<Longrightarrow> bs \<noteq> []"
  by (simp add: chain_ok_def)

text \<open>
  The blocks to come: fresh ones, large enough for \<open>n\<close> bytes, and nothing is traced while the
  pool hands them out.
\<close>

definition blocks_ok :: "(nat \<Rightarrow> new_block) \<Rightarrow> log_state \<Rightarrow> nat \<Rightarrow> nat list \<Rightarrow> bool" where
  "blocks_ok env s n bs \<longleftrightarrow>
     (\<forall>i \<ge> blocks_taken s. nb_redirected (env i) = [] \<and> n \<le> bufSize (buf_at s (nb_addr (env i))) \<and>
        nb_addr (env i) \<notin> set bs \<and> (\<forall>j \<ge> blocks_taken s. nb_addr (env i) = nb_addr (env j) \<longrightarrow> i = j))"

text \<open>Changes to a buffer of the chain that keep its links and marks.\<close>

lemma chain_ok_upd:
  assumes ok: "chain_ok s t bs" and tls: "GTlsWriteBuffer s' t = GTlsWriteBuffer s t"
    and buf: "buf_at s' = (buf_at s)(b := x)"
    and x: "NextBuffer x = NextBuffer (buf_at s b)" "bufSize x = bufSize (buf_at s b)"
      "Reaped x = Reaped (buf_at s b)" "EtxOffset x = EtxOffset (buf_at s b)"
    and b: "b \<in> set bs" "buf_inv x" "b \<noteq> last bs \<Longrightarrow> Cursor x = Cursor (buf_at s b)"
  shows "chain_ok s' t bs"
proof -
  have ne: "bs \<noteq> []" and d: "distinct bs" using ok by (auto simp: chain_ok_def)
  have l: "links (buf_at s') bs = links (buf_at s) bs"
    by (rule links_cong) (simp add: buf x)
  have nb: "last bs \<notin> set (butlast bs)"
    using d ne by (cases bs rule: rev_cases) auto
  have i: "buf_inv (buf_at s' c) \<and> - int (bufSize (buf_at s' c)) \<le> Reaped (buf_at s' c)" if "c \<in> set bs" for c
    using ok that b(2) by (cases "c = b") (simp_all add: chain_ok_def buf x)
  have c: "closed_buf (buf_at s' c)" if "c \<in> set (butlast bs)" for c
  proof (cases "c = b")
    case True
    then have "b \<noteq> last bs" using that nb by auto
    then show ?thesis using ok that True b(3) by (simp add: chain_ok_def buf x closed_buf_def)
  next
    case False
    then show ?thesis using ok that by (simp add: chain_ok_def buf closed_buf_def)
  qed
  have o: "open_buf (buf_at s' (last bs))"
    using ok by (cases "last bs = b") (simp_all add: chain_ok_def buf x open_buf_def)
  have l': "links (buf_at s') bs" using ok unfolding l by (simp add: chain_ok_def)
  have t: "GTlsWriteBuffer s' t = Some (last bs)" using ok by (simp add: chain_ok_def tls)
  show ?thesis
    unfolding chain_ok_def by (intro conjI ballI ne d l' t o) (simp_all only: i c)
qed

lemma blocks_ok_upd:
  assumes "blocks_ok env s n bs" and "blocks_taken s' = blocks_taken s"
    and "buf_at s' = (buf_at s)(b := x)" and "bufSize x = bufSize (buf_at s b)"
  shows "blocks_ok env s' n bs"
proof -
  have "bufSize (buf_at s' c) = bufSize (buf_at s c)" for c
    by (simp add: assms(3,4))
  then show ?thesis
    using assms(1) by (simp add: blocks_ok_def assms(2))
qed

lemma log_prims [simp]:
  "buf_at (store_at b i xs s) = (buf_at s)(b := (buf_at s b)\<lparr>bmem := put_bytes i xs (bmem (buf_at s b))\<rparr>)"
  "GTlsWriteBuffer (store_at b i xs s) = GTlsWriteBuffer s"
  "blocks_taken (store_at b i xs l) = blocks_taken l" "GLogSerial (store_at b i xs l) = GLogSerial l"
  "blocks_taken (emit b xs l) = blocks_taken l" "GLogSerial (emit b xs l) = GLogSerial l"
  "blocks_taken (commit b l) = blocks_taken l" "GLogSerial (commit b l) = GLogSerial l"
  "blocks_taken (upd_buf b f l) = blocks_taken l" "GLogSerial (upd_buf b f l) = GLogSerial l"
  by (simp_all add: store_at_def emit_def commit_def upd_buf_def)

section \<open>A new buffer\<close>

definition same_data :: "write_buffer \<Rightarrow> write_buffer \<Rightarrow> bool" where
  "same_data y x \<longleftrightarrow> Cursor y = Cursor x \<and> Committed y = Committed x \<and> Reaped y = Reaped x \<and>
     bmem y = bmem x \<and> bufSize y = bufSize x"

lemma same_data_bytes: "same_data y x \<Longrightarrow> bytes_between y i j = bytes_between x i j"
  by (simp add: same_data_def bytes_between_def)

text \<open>What a fresh block looks like, and the chain with it.\<close>

lemma next_buffer_buf:
  assumes tls: "GTlsWriteBuffer s t = Some cur" and red: "nb_redirected (env (blocks_taken s)) = []"
    and ne: "nb_addr (env (blocks_taken s)) \<noteq> cur"
  shows "\<exists>s' x y. next_buffer env t s = (nb_addr (env (blocks_taken s)), s') \<and>
    buf_at s' = (buf_at s)(nb_addr (env (blocks_taken s)) := y, cur := x) \<and>
    x = (buf_at s cur)\<lparr>NextBuffer := Some (nb_addr (env (blocks_taken s))), EtxOffset := - Cursor (buf_at s cur)\<rparr> \<and>
    y = (buf_at s (nb_addr (env (blocks_taken s))))\<lparr>Cursor := - int (bufSize (buf_at s (nb_addr (env (blocks_taken s))))),
          Reaped := - int (bufSize (buf_at s (nb_addr (env (blocks_taken s))))), EtxOffset := - 64, NextBuffer := None,
          Committed := - int (bufSize (buf_at s (nb_addr (env (blocks_taken s))))),
          ThreadId := ThreadId (buf_at s cur), PrevTimestamp := PrevTimestamp (buf_at s cur)\<rparr> \<and>
    GTlsWriteBuffer s' t = Some (nb_addr (env (blocks_taken s))) \<and>
    blocks_taken s' = Suc (blocks_taken s) \<and> GLogSerial s' = GLogSerial s"
  using assms
  by (simp add: next_buffer_def Let_def Writer_NextBuffer_def Writer_NextBufferInternal_def nextbuf_setup_def
      nextbuf_link_def retire_current_def set_tls_def upd_buf_def sizeof_FWriteBuffer_def fun_eq_iff)

lemma next_buffer_chain:
  assumes ok: "chain_ok s t bs" and blk: "blocks_ok env s n bs"
  obtains s' nb where "next_buffer env t s = (nb, s')" "chain_ok s' t (bs @ [nb])" "blocks_ok env s' n (bs @ [nb])"
    "nb \<notin> set bs" "stream s' (bs @ [nb]) = stream s bs"
    "\<And>b. b \<in> set bs \<Longrightarrow> same_data (buf_at s' b) (buf_at s b)"
    "Cursor (buf_at s' nb) = - int (bufSize (buf_at s' nb))" "Committed (buf_at s' nb) = Cursor (buf_at s' nb)"
    "Reaped (buf_at s' nb) = Cursor (buf_at s' nb)" "n \<le> bufSize (buf_at s' nb)"
    "PrevTimestamp (buf_at s' nb) = PrevTimestamp (buf_at s (last bs))" "GLogSerial s' = GLogSerial s"
proof -
  define nb where "nb = nb_addr (env (blocks_taken s))"
  obtain xs cur where bs: "bs = xs @ [cur]"
    using chain_ok_ne [OF ok] by (metis append_butlast_last_id)
  have tls: "GTlsWriteBuffer s t = Some cur" using ok by (simp add: chain_ok_def bs)
  have nb: "nb \<notin> set bs" and red: "nb_redirected (env (blocks_taken s)) = []" and sz: "n \<le> bufSize (buf_at s nb)"
    using blk by (auto simp: blocks_ok_def nb_def)
  then have ne: "nb \<noteq> cur" by (auto simp: bs)
  have d: "distinct (xs @ [cur])" using ok by (simp add: chain_ok_def bs)
  obtain s' x y where e: "next_buffer env t s = (nb, s')" and bf: "buf_at s' = (buf_at s)(nb := y, cur := x)"
    and x: "x = (buf_at s cur)\<lparr>NextBuffer := Some nb, EtxOffset := - Cursor (buf_at s cur)\<rparr>"
    and y: "y = (buf_at s nb)\<lparr>Cursor := - int (bufSize (buf_at s nb)),
          Reaped := - int (bufSize (buf_at s nb)), EtxOffset := - 64, NextBuffer := None,
          Committed := - int (bufSize (buf_at s nb)),
          ThreadId := ThreadId (buf_at s cur), PrevTimestamp := PrevTimestamp (buf_at s cur)\<rparr>"
    and tls': "GTlsWriteBuffer s' t = Some nb" and bt: "blocks_taken s' = Suc (blocks_taken s)"
    and ser: "GLogSerial s' = GLogSerial s"
    using next_buffer_buf [where env = env, OF tls red ne [unfolded nb_def]] unfolding nb_def [symmetric] by blast
  have old: "buf_at s' b = buf_at s b" if "b \<in> set xs" for b
    using that d nb by (auto simp: bf bs)
  have new: "buf_at s' nb = y" using ne by (simp add: bf)
  have cur: "buf_at s' cur = x" by (simp add: bf)
  have l: "links (buf_at s') (xs @ [cur, nb])"
  proof (rule links_snoc [where f = "buf_at s"])
    show "links (buf_at s) (xs @ [cur])" using ok by (simp add: chain_ok_def bs)
    show "distinct (xs @ [cur, nb])" using d nb by (auto simp: bs)
  qed (simp_all add: old new cur x y)
  have "buf_inv x" "- int (bufSize x) \<le> Reaped x" "closed_buf x"
    using ok by (auto simp: chain_ok_def bs x buf_inv_def closed_buf_def)
  moreover have "buf_inv y" "- int (bufSize y) \<le> Reaped y" "open_buf y"
    by (simp_all add: y buf_inv_def open_buf_def)
  ultimately have ch: "chain_ok s' t (bs @ [nb])"
    using ok l d nb by (auto simp: chain_ok_def bs tls' old new cur butlast_append)
  have st: "stream s' (bs @ [nb]) = stream s bs"
  proof -
    have "stream s' xs = stream s xs" by (rule stream_cong) (rule old)
    moreover have "unsent y = []" "unsent x = unsent (buf_at s cur)"
      by (simp_all add: y x unsent_def bytes_between_def)
    ultimately show ?thesis by (simp add: bs cur new)
  qed
  have bl: "blocks_ok env s' n (bs @ [nb])"
    unfolding blocks_ok_def
  proof (intro allI impI)
    fix i assume i: "blocks_taken s' \<le> i"
    then have i2: "blocks_taken s \<le> i" "i \<noteq> blocks_taken s" by (simp_all add: bt)
    have B: "nb_redirected (env i) = [] \<and> n \<le> bufSize (buf_at s (nb_addr (env i))) \<and> nb_addr (env i) \<notin> set bs \<and>
        (\<forall>j\<ge>blocks_taken s. nb_addr (env i) = nb_addr (env j) \<longrightarrow> i = j)"
      using blk i2(1) unfolding blocks_ok_def by blast
    then have "nb_addr (env i) \<noteq> nb" using i2 unfolding nb_def by auto
    then show "nb_redirected (env i) = [] \<and> n \<le> bufSize (buf_at s' (nb_addr (env i))) \<and>
        nb_addr (env i) \<notin> set (bs @ [nb]) \<and> (\<forall>j\<ge>blocks_taken s'. nb_addr (env i) = nb_addr (env j) \<longrightarrow> i = j)"
      using B by (auto simp: bf bt bs)
  qed
  have keep: "same_data (buf_at s' b) (buf_at s b)" if "b \<in> set bs" for b
  proof (cases "b = cur")
    case True
    then show ?thesis by (simp add: cur x same_data_def)
  next
    case False
    then have "buf_at s' b = buf_at s b" using that old by (auto simp: bs)
    then show ?thesis by (simp add: same_data_def)
  qed
  show ?thesis
    by (rule that [OF e ch bl nb st keep _ _ _ _ _ ser]) (simp_all add: new y sz bs)
qed

section \<open>Writing at the end of the chain\<close>

text \<open>Everything that the thread has written is committed.\<close>

definition thread_log :: "log_state \<Rightarrow> nat \<Rightarrow> nat list \<Rightarrow> bool" where
  "thread_log s t bs \<longleftrightarrow> chain_ok s t bs \<and> (\<forall>b \<in> set bs. Committed (buf_at s b) = Cursor (buf_at s b))"

lemma put_bytes_append:
  "put_bytes (i + int (length xs)) ys (put_bytes i xs m) = put_bytes i (xs @ ys) m"
proof
  fix k
  show "put_bytes (i + int (length xs)) ys (put_bytes i xs m) k = put_bytes i (xs @ ys) m k"
  proof (cases "i \<le> k \<and> k < i + int (length xs)")
    case True
    then have "nat (k - i) < length xs" by linarith
    then show ?thesis using True by (simp add: put_bytes_def nth_append)
  next
    case False
    moreover have "nat (k - (i + int (length xs))) = nat (k - i) - length xs" by simp
    ultimately show ?thesis by (auto simp: put_bytes_def nth_append)
  qed
qed

lemma emit_append: "emit b ys (emit b xs s) = emit b (xs @ ys) s"
  by (simp add: emit_def upd_buf_def put_bytes_append add.assoc)

lemma emit_chain:
  assumes ok: "chain_ok s t (bs @ [b])" and fit: "Cursor (buf_at s b) + int (length d) \<le> 8"
  shows "chain_ok (emit b d s) t (bs @ [b])" and "stream (emit b d s) (bs @ [b]) = stream s (bs @ [b]) @ d"
proof -
  have i: "buf_inv (buf_at s b)" by (rule chain_ok_inv [OF ok]) simp
  show "chain_ok (emit b d s) t (bs @ [b])"
    by (rule chain_ok_upd [OF ok _ buf_prims(1)]) (use i fit in \<open>auto simp: buf_inv_def\<close>)
  have "b \<notin> set bs" using ok by (auto simp: chain_ok_def)
  then have "stream (emit b d s) bs = stream s bs" by (intro stream_cong) auto
  then show "stream (emit b d s) (bs @ [b]) = stream s (bs @ [b]) @ d"
    using i unsent_emit [of "buf_at s b" d] by (simp add: buf_inv_def)
qed

lemma commit_chain:
  assumes ok: "chain_ok s t bs" and b: "b \<in> set bs"
  shows "chain_ok (commit b s) t bs" and "stream (commit b s) bs = stream s bs"
proof -
  have i: "buf_inv (buf_at s b)" by (rule chain_ok_inv [OF ok b])
  show "chain_ok (commit b s) t bs"
    by (rule chain_ok_upd [OF ok _ buf_prims(2)]) (use i b in \<open>auto simp: buf_inv_def\<close>)
  have "unsent (buf_at (commit b s) c) = unsent (buf_at s c)" for c
    by (simp add: unsent_def bytes_between_def)
  then show "stream (commit b s) bs = stream s bs" by (simp add: stream_def)
qed

lemma blocks_ok_cong:
  assumes "blocks_taken s' = blocks_taken s" and "\<And>c. bufSize (buf_at s' c) = bufSize (buf_at s c)"
  shows "blocks_ok env s' n bs = blocks_ok env s n bs"
  by (simp add: blocks_ok_def assms)

lemma blocks_ok_prims [simp]:
  "blocks_ok env (emit b d s) n bs = blocks_ok env s n bs"
  "blocks_ok env (commit b s) n bs = blocks_ok env s n bs"
  "blocks_ok env (store_at b i d s) n bs = blocks_ok env s n bs"
  by (auto intro!: blocks_ok_cong)

text \<open>A buffer with room, possibly a new one at the end of the chain.\<close>

lemma buffer_for_log:
  assumes ok: "thread_log s t bs" and blk: "blocks_ok env s m bs" and n: "n \<le> m"
  obtains b s' new where "buffer_for env t n s = (b, s')" "thread_log s' t (bs @ new)" "last (bs @ new) = b"
    "blocks_ok env s' m (bs @ new)" "stream s' (bs @ new) = stream s bs" "Cursor (buf_at s' b) + int n \<le> 0"
    "PrevTimestamp (buf_at s' b) = PrevTimestamp (buf_at s (last bs))" "GLogSerial s' = GLogSerial s"
proof -
  have ch: "chain_ok s t bs" using ok by (simp add: thread_log_def)
  note tls = chain_ok_tls [OF ch]
  show ?thesis
  proof (cases "0 - Cursor (buf_at s (last bs)) < int n")
    case False
    have e: "buffer_for env t n s = (last bs, s)" using False by (simp add: buffer_for_def tls)
    show ?thesis by (rule that [OF e, of "[]"]) (use ok blk False in simp_all)
  next
    case True
    obtain s' nb where nx: "next_buffer env t s = (nb, s')" "chain_ok s' t (bs @ [nb])" "blocks_ok env s' m (bs @ [nb])"
      "nb \<notin> set bs" "stream s' (bs @ [nb]) = stream s bs"
      "\<And>b. b \<in> set bs \<Longrightarrow> same_data (buf_at s' b) (buf_at s b)"
      "Cursor (buf_at s' nb) = - int (bufSize (buf_at s' nb))" "Committed (buf_at s' nb) = Cursor (buf_at s' nb)"
      "Reaped (buf_at s' nb) = Cursor (buf_at s' nb)" "m \<le> bufSize (buf_at s' nb)" "PrevTimestamp (buf_at s' nb) = PrevTimestamp (buf_at s (last bs))"
      "GLogSerial s' = GLogSerial s"
      using next_buffer_chain [OF ch blk] by blast
    have e: "buffer_for env t n s = (nb, s')" using True by (simp add: buffer_for_def tls nx(1))
    have "Committed (buf_at s' b) = Cursor (buf_at s' b)" if b: "b \<in> set bs" for b
      using nx(6) [OF b] ok b by (simp add: thread_log_def same_data_def)
    then have l: "thread_log s' t (bs @ [nb])"
      using nx(2,8) by (simp add: thread_log_def)
    show ?thesis
      by (rule that [OF e l]) (use nx n in simp_all)
  qed
qed

lemma log_mark:
  assumes ok: "thread_log s t bs" and ne: "last bs = b" and fit: "Cursor (buf_at s b) + int (length d) \<le> 8"
  shows "thread_log (commit b (emit b d s)) t bs" and "stream (commit b (emit b d s)) bs = stream s bs @ d"
proof -
  obtain xs where bs: "bs = xs @ [b]"
    using ok ne by (metis append_butlast_last_id chain_ok_ne thread_log_def)
  have ch: "chain_ok s t (xs @ [b])" using ok by (simp add: thread_log_def bs)
  note e = emit_chain [OF ch fit]
  have b: "b \<in> set (xs @ [b])" by simp
  note c = commit_chain [OF e(1) b]
  show "thread_log (commit b (emit b d s)) t bs"
    using c(1) ok by (auto simp: thread_log_def bs)
  show "stream (commit b (emit b d s)) bs = stream s bs @ d"
    using c(2) e(2) by (simp only: bs)
qed

section \<open>An event under way\<close>

text \<open>The time of the last stamp of a thread.\<close>

definition thread_time :: "log_state \<Rightarrow> nat \<Rightarrow> u64" where
  "thread_time s t = (case GTlsWriteBuffer s t of None \<Rightarrow> 0 | Some b \<Rightarrow> PrevTimestamp (buf_at s b))"

lemma thread_time_prims [simp]:
  "thread_time (emit b xs s) t = thread_time s t" "thread_time (commit b s) t = thread_time s t"
  "thread_time (store_at b i xs s) t = thread_time s t"
  by (auto simp: thread_time_def split: option.splits)

text \<open>
  Between entering an event and its end the chain is \<open>bs @ a # later\<close>: the event is in the
  buffer \<open>a\<close> from before \<open>ptr\<close>, nothing of it is committed there, and the buffers \<open>later\<close> hold
  auxiliary data only. The stream is cut into what lies before the fields, the \<open>sz\<close> bytes of
  the fields, and the auxiliary data. One byte is left for the terminal.
\<close>

definition open_event :: "log_state \<Rightarrow> nat \<Rightarrow> nat list \<Rightarrow> nat \<Rightarrow> nat list \<Rightarrow> int \<Rightarrow> int \<Rightarrow> nat \<Rightarrow>
    u8 list \<Rightarrow> u8 list \<Rightarrow> u8 list \<Rightarrow> bool" where
  "open_event s t bs a later c0 ptr sz pre pay aux \<longleftrightarrow>
     chain_ok s t (bs @ a # later) \<and> Committed (buf_at s a) = c0 \<and> c0 < ptr \<and>
     ptr + int sz \<le> Cursor (buf_at s a) \<and>
     stream s bs @ bytes_between (buf_at s a) (Reaped (buf_at s a)) ptr = pre \<and>
     bytes_between (buf_at s a) ptr (ptr + int sz) = pay \<and>
     bytes_between (buf_at s a) (ptr + int sz) (Cursor (buf_at s a)) @ stream s later = aux \<and>
     (\<forall>b \<in> set bs \<union> set later. Committed (buf_at s b) = Cursor (buf_at s b)) \<and>
     Cursor (buf_at s (last (a # later))) \<le> 7"

lemma open_event_chain: "open_event s t bs a later c0 ptr sz pre pay aux \<Longrightarrow> chain_ok s t (bs @ a # later)"
  by (simp add: open_event_def)

lemma open_event_distinct:
  assumes "open_event s t bs a later c0 ptr sz pre pay aux"
  shows "a \<notin> set bs" "a \<notin> set later" "set bs \<inter> set later = {}" "distinct later"
  using open_event_chain [OF assms] by (auto simp: chain_ok_def)

lemma open_event_last:
  assumes "open_event s t bs a later c0 ptr sz pre pay aux"
  shows "GTlsWriteBuffer s t = Some (last (a # later))"
  using chain_ok_tls [OF open_event_chain [OF assms]] by simp

lemma open_event_reaped:
  assumes "open_event s t bs a later c0 ptr sz pre pay aux"
  shows "Reaped (buf_at s a) < ptr"
  using chain_ok_inv [OF open_event_chain [OF assms], of a] assms
  by (auto simp: open_event_def buf_inv_def)

lemma open_event_stream:
  assumes ev: "open_event s t bs a later c0 ptr sz pre pay aux"
  shows "stream s (bs @ a # later) = pre @ pay @ aux"
proof -
  let ?x = "buf_at s a"
  have r: "Reaped ?x \<le> ptr" using open_event_reaped [OF ev] by simp
  have c: "ptr + int sz \<le> Cursor ?x" using ev by (simp add: open_event_def)
  have "unsent ?x = bytes_between ?x (Reaped ?x) ptr @ bytes_between ?x ptr (Cursor ?x)"
    unfolding unsent_def by (rule bytes_between_split) (use r c in simp_all)
  also have "bytes_between ?x ptr (Cursor ?x) = bytes_between ?x ptr (ptr + int sz) @ bytes_between ?x (ptr + int sz) (Cursor ?x)"
    by (rule bytes_between_split) (use c in simp_all)
  finally show ?thesis using ev by (auto simp: open_event_def)
qed

lemma open_event_pay: "open_event s t bs a later c0 ptr sz pre pay aux \<Longrightarrow> length pay = sz"
  by (auto simp: open_event_def bytes_between_def)

text \<open>Storing a plain field changes its bytes and nothing else.\<close>

definition patch :: "'a list \<Rightarrow> nat \<Rightarrow> 'a list \<Rightarrow> 'a list" where
  "patch xs off v = take off xs @ v @ drop (off + length v) xs"

lemma bytes_put_outside:
  assumes "j \<le> i \<or> i + int (length v) \<le> k"
  shows "bytes_between (x\<lparr>bmem := put_bytes i v (bmem x)\<rparr>) k j = bytes_between x k j"
  using assms by (auto simp: bytes_between_def put_bytes_def)

lemma bytes_put_inside:
  assumes "off + length v \<le> sz"
  shows "bytes_between (x\<lparr>bmem := put_bytes (ptr + int off) v (bmem x)\<rparr>) ptr (ptr + int sz) =
    patch (bytes_between x ptr (ptr + int sz)) off v"
  using assms
  by (intro nth_equalityI) (auto simp: bytes_between_def put_bytes_def patch_def nth_append nat_diff_distrib
      intro!: arg_cong [where f = "nth v"])

lemma store_field:
  assumes ev: "open_event s t bs a later c0 ptr sz pre pay aux" and fit: "off + length v \<le> sz"
  shows "open_event (store_at a (ptr + int off) v s) t bs a later c0 ptr sz pre (patch pay off v) aux"
proof -
  let ?x = "buf_at s a" and ?y = "(buf_at s a)\<lparr>bmem := put_bytes (ptr + int off) v (bmem (buf_at s a))\<rparr>"
  note d = open_event_distinct [OF ev]
  have i: "buf_inv ?x" by (rule chain_ok_inv [OF open_event_chain [OF ev]]) simp
  have ch: "chain_ok (store_at a (ptr + int off) v s) t (bs @ a # later)"
    by (rule chain_ok_upd [OF open_event_chain [OF ev] _ log_prims(1)]) (use i in \<open>simp_all add: buf_inv_def\<close>)
  have s1: "stream (store_at a (ptr + int off) v s) bs = stream s bs"
    "stream (store_at a (ptr + int off) v s) later = stream s later"
    using d by (auto intro!: stream_cong)
  have b: "bytes_between ?y k ptr = bytes_between ?x k ptr"
    "bytes_between ?y (ptr + int sz) k = bytes_between ?x (ptr + int sz) k"
    "bytes_between ?y ptr (ptr + int sz) = patch (bytes_between ?x ptr (ptr + int sz)) off v" for k
    using fit by (auto intro!: bytes_put_outside bytes_put_inside)
  show ?thesis
    using ev ch d unfolding open_event_def by (auto simp: s1 b)
qed

text \<open>Auxiliary data in the current buffer, with the commit that Field.cpp makes, and a new buffer.\<close>

lemma emit_aux:
  assumes ev: "open_event s t bs a later c0 ptr sz pre pay aux" and b: "b = last (a # later)"
    and fit: "Cursor (buf_at s b) + int (length d) \<le> 7"
    and s': "s' = (if later \<noteq> [] then commit b (emit b d s) else emit b d s)"
  shows "open_event s' t bs a later c0 ptr sz pre pay (aux @ d)"
proof (cases "later = []")
  case True
  then have ba: "b = a" and e: "s' = emit a d s" using b s' by simp_all
  let ?x = "buf_at s a"
  have ch: "chain_ok s t (bs @ [a])" using open_event_chain [OF ev] True by simp
  have ch': "chain_ok (emit a d s) t (bs @ [a])" by (rule emit_chain(1) [OF ch]) (use fit ba in simp)
  have sb: "stream (emit a d s) bs = stream s bs" using open_event_distinct [OF ev] by (auto intro!: stream_cong)
  have p: "ptr + int sz \<le> Cursor ?x" "c0 < ptr" using ev by (simp_all add: open_event_def)
  have lo: "bytes_between (buf_at (emit a d s) a) k m = bytes_between ?x k m" if "m \<le> Cursor ?x" for k m
    using that bytes_put_outside [of m "Cursor ?x" d k ?x] by (simp add: bytes_between_def)
  have hi: "bytes_between (buf_at (emit a d s) a) (ptr + int sz) (Cursor ?x + int (length d)) =
      bytes_between ?x (ptr + int sz) (Cursor ?x) @ d"
  proof -
    have "unsent ((?x\<lparr>Reaped := ptr + int sz\<rparr>)\<lparr>bmem := put_bytes (Cursor ?x) d (bmem ?x), Cursor := Cursor ?x + int (length d)\<rparr>) =
        unsent (?x\<lparr>Reaped := ptr + int sz\<rparr>) @ d"
      using unsent_emit [of "?x\<lparr>Reaped := ptr + int sz\<rparr>" d] p by simp
    then show ?thesis by (simp add: unsent_def bytes_between_def)
  qed
  have "bytes_between (buf_at (emit a d s) a) k ptr = bytes_between ?x k ptr" for k by (rule lo) (use p in simp)
  moreover have "bytes_between (buf_at (emit a d s) a) ptr (ptr + int sz) = bytes_between ?x ptr (ptr + int sz)"
    by (rule lo) (use p in simp)
  ultimately show ?thesis
    using ev ch' hi sb fit open_event_distinct [OF ev] unfolding open_event_def by (auto simp: True e ba)
next
  case False
  then obtain ms where l: "later = ms @ [b]" using b by (metis append_butlast_last_id last_ConsR)
  have e: "s' = commit b (emit b d s)" using s' False by simp
  note ds = open_event_distinct [OF ev]
  have ba: "b \<noteq> a" "b \<notin> set bs" "b \<notin> set ms" using ds by (auto simp: l)
  have ch: "chain_ok s t ((bs @ a # ms) @ [b])" using open_event_chain [OF ev] by (simp add: l)
  have fit8: "Cursor (buf_at s b) + int (length d) \<le> 8" using fit by simp
  note em = emit_chain [OF ch fit8]
  have bin: "b \<in> set ((bs @ a # ms) @ [b])" by simp
  note co = commit_chain [OF em(1) bin]
  have oth: "buf_at s' c = buf_at s c" if "c \<noteq> b" for c using that by (simp add: e)
  have st: "stream s' bs = stream s bs" "stream s' ms = stream s ms"
    by (rule stream_cong, rule oth, use ba in blast)+
  have a: "buf_at s' a = buf_at s a" by (rule oth) (use ba in simp)
  have u: "unsent (buf_at s' b) = unsent (buf_at s b) @ d"
    using co(2) em(2) st a by (simp add: e)
  have cm: "Committed (buf_at s' c) = Cursor (buf_at s' c)" if "c \<in> set bs \<union> set later" for c
    using that ev by (cases "c = b") (auto simp: open_event_def e oth)
  have "Cursor (buf_at s' b) \<le> 7" using fit by (simp add: e)
  then show ?thesis
    using ev co(1) st u cm unfolding open_event_def by (simp add: l a flip: e)
qed

lemma next_aux:
  assumes ev: "open_event s t bs a later c0 ptr sz pre pay aux" and blk: "blocks_ok env s n (bs @ a # later)"
  obtains nb s' where "next_buffer env t s = (nb, s')" "open_event s' t bs a (later @ [nb]) c0 ptr sz pre pay aux"
    "blocks_ok env s' n (bs @ a # later @ [nb])" "Cursor (buf_at s' nb) + int n \<le> 0"
    "thread_time s' t = thread_time s t" "GLogSerial s' = GLogSerial s"
proof -
  obtain s' nb where nx: "next_buffer env t s = (nb, s')" "chain_ok s' t ((bs @ a # later) @ [nb])"
      "blocks_ok env s' n ((bs @ a # later) @ [nb])" "nb \<notin> set (bs @ a # later)"
      "\<And>b. b \<in> set (bs @ a # later) \<Longrightarrow> same_data (buf_at s' b) (buf_at s b)"
      "Cursor (buf_at s' nb) = - int (bufSize (buf_at s' nb))" "Committed (buf_at s' nb) = Cursor (buf_at s' nb)"
      "Reaped (buf_at s' nb) = Cursor (buf_at s' nb)" "n \<le> bufSize (buf_at s' nb)"
      "PrevTimestamp (buf_at s' nb) = PrevTimestamp (buf_at s (last (bs @ a # later)))" "GLogSerial s' = GLogSerial s"
    using next_buffer_chain [OF open_event_chain [OF ev] blk] by metis
  have u: "unsent (buf_at s' b) = unsent (buf_at s b)" if "b \<in> set (bs @ a # later)" for b
    using nx(5) [OF that] by (simp add: unsent_def same_data_def bytes_between_def)
  have st: "stream s' bs = stream s bs" "stream s' later = stream s later"
    unfolding stream_def using u by (auto intro!: arg_cong [where f = concat] map_cong)
  have a: "same_data (buf_at s' a) (buf_at s a)" by (rule nx(5)) simp
  have cm: "Committed (buf_at s' b) = Cursor (buf_at s' b)" if "b \<in> set bs \<union> set later" for b
    using nx(5) [of b] that ev by (auto simp: same_data_def open_event_def)
  have un: "unsent (buf_at s' nb) = []" using nx(8) by (simp add: unsent_def)
  have "open_event s' t bs a (later @ [nb]) c0 ptr sz pre pay aux"
    using ev nx(2) a st un cm nx(6-8) unfolding open_event_def
    by (auto simp: same_data_bytes [OF a]) (simp_all add: same_data_def)
  moreover have "thread_time s' t = thread_time s t"
    using chain_ok_tls [OF nx(2)] chain_ok_tls [OF open_event_chain [OF ev]] nx(10) by (simp add: thread_time_def)
  ultimately show ?thesis
    by (intro that [OF nx(1)]) (use nx(3,6,9,11) in simp_all)
qed

section \<open>The loop of Field.cpp\<close>

text \<open>A field of auxiliary data is one or more fragments, each with its own header.\<close>

definition fragment :: "nat \<Rightarrow> u8 list \<Rightarrow> u8 list" where
  "fragment Index d = aux_header Index (length d) @ d"

lemma emit_Nil: "emit b [] s = s"
proof -
  have p: "put_bytes i [] m = m" for i m by (auto simp: put_bytes_def fun_eq_iff)
  have "(buf_at s b)\<lparr>bmem := bmem (buf_at s b), Cursor := Cursor (buf_at s b)\<rparr> = buf_at s b" by simp
  then show ?thesis by (simp add: emit_def upd_buf_def p)
qed

lemma length_aux_header [simp]: "length (aux_header i n) = 4"
  by (simp add: aux_header_def Let_def)

lemma write_aux_loop_fragments:
  assumes "open_event s t bs a later c0 ptr sz pre pay aux" and "blocks_ok env s n (bs @ a # later)" and "1 \<le> n"
    and "b = last (a # later)" and "Cursor (buf_at s b) < 0" and "data \<noteq> []"
  shows "\<exists>s' later' frs. write_aux_loop env t Index data (later \<noteq> []) b s = Some s' \<and>
    open_event s' t bs a (later @ later') c0 ptr sz pre pay (aux @ concat (map (fragment Index) frs)) \<and>
    blocks_ok env s' n (bs @ a # later @ later') \<and> concat frs = data \<and> [] \<notin> set frs \<and>
    thread_time s' t = thread_time s t \<and> GLogSerial s' = GLogSerial s"
  using assms
proof (induction data arbitrary: s later b aux rule: length_induct)
  case (1 data)
  note ev = 1(2) and blk = 1(3) and n = 1(4) and b = 1(5) and room = 1(6) and ne = 1(7)
  define Remaining where "Remaining = 0 - Cursor (buf_at s b) + int sizeof_Overflow - 1 - int sizeof_FAuxHeader"
  define Seg where "Seg = (if Remaining < int (length data) then Remaining else int (length data))"
  define d where "d = take (nat Seg) data"
  define s1 where "s1 = emit b (fragment Index d) s"
  define s2 where "s2 = (if later \<noteq> [] then commit b s1 else s1)"
  have R: "4 \<le> Remaining" "Remaining = 3 - Cursor (buf_at s b)"
    using room by (simp_all add: Remaining_def sizeof_Overflow_def sizeof_FAuxHeader_def)
  have S: "0 < Seg" "Seg \<le> Remaining" "nat Seg \<le> length data" "\<not> Seg < 0"
    using R ne by (auto simp: Seg_def)
  have ld: "length d = nat Seg" "d \<noteq> []" using S by (auto simp: d_def)
  have e1: "emit b (take (nat Seg) data) (emit b (aux_header Index (nat Seg)) s) = s1"
    by (simp add: emit_append s1_def fragment_def d_def [symmetric] ld)
  have "Cursor (buf_at s b) + int (length (fragment Index d)) \<le> 7"
    using R S by (simp add: fragment_def ld)
  then have ev2: "open_event s2 t bs a later c0 ptr sz pre pay (aux @ fragment Index d)"
    by (rule emit_aux [OF ev b]) (simp add: s2_def s1_def)
  have blk2: "blocks_ok env s2 n (bs @ a # later)"
    using blk by (cases "later = []") (simp_all add: s2_def s1_def)
  have t2: "thread_time s2 t = thread_time s t" "GLogSerial s2 = GLogSerial s" by (simp_all add: s2_def s1_def)
  have step: "write_aux_loop env t Index data (later \<noteq> []) b s =
     (if drop (nat Seg) data = [] then Some s2
      else let (b, s) = next_buffer env t s2 in write_aux_loop env t Index (drop (nat Seg) data) True b s)"
    by (subst write_aux_loop.simps)
      (simp only: Let_def Remaining_def [symmetric] Seg_def [symmetric] S(4) if_False e1 s2_def [symmetric])
  show ?case
  proof (cases "drop (nat Seg) data = []")
    case True
    then have "d = data" by (simp add: d_def)
    then show ?thesis
      using True ev2 blk2 ld(2) t2
      by (intro exI [of _ s2] exI [of _ "[]"] exI [of _ "[d]"]) (simp add: step)
  next
    case False
    obtain nb s3 where nx: "next_buffer env t s2 = (nb, s3)"
        "open_event s3 t bs a (later @ [nb]) c0 ptr sz pre pay (aux @ fragment Index d)"
        "blocks_ok env s3 n (bs @ a # later @ [nb])" "Cursor (buf_at s3 nb) + int n \<le> 0"
        "thread_time s3 t = thread_time s2 t" "GLogSerial s3 = GLogSerial s2"
      by (rule next_aux [OF ev2 blk2])
    have lt: "length (drop (nat Seg) data) < length data" using S ne by simp
    have "Cursor (buf_at s3 nb) < 0" using nx(4) n by simp
    then obtain s' later' frs where
      ih: "write_aux_loop env t Index (drop (nat Seg) data) (later @ [nb] \<noteq> []) nb s3 = Some s'"
        "open_event s' t bs a ((later @ [nb]) @ later') c0 ptr sz pre pay ((aux @ fragment Index d) @ concat (map (fragment Index) frs))"
        "blocks_ok env s' n (bs @ a # (later @ [nb]) @ later')" "concat frs = drop (nat Seg) data" "[] \<notin> set frs"
        "thread_time s' t = thread_time s3 t" "GLogSerial s' = GLogSerial s3"
      using 1(1) [rule_format, OF lt, of s3 "later @ [nb]" "aux @ fragment Index d" nb] nx(2,3) n False by auto
    have "concat (d # frs) = data" using ih(4) by (simp add: d_def)
    then show ?thesis
      using ih nx(1,5,6) t2 False ld(2)
      by (intro exI [of _ s'] exI [of _ "nb # later'"] exI [of _ "d # frs"]) (simp add: step)
  qed
qed

text \<open>A field of auxiliary data, from any point of an event.\<close>

lemma Field_WriteAuxData_fragments:
  assumes ev: "open_event s t bs a later c0 ptr sz pre pay aux" and blk: "blocks_ok env s n (bs @ a # later)" and n: "1 \<le> n"
  shows "\<exists>s' later' frs. Field_WriteAuxData env t Index data s = Some s' \<and>
    open_event s' t bs a (later @ later') c0 ptr sz pre pay (aux @ concat (map (fragment Index) frs)) \<and>
    blocks_ok env s' n (bs @ a # later @ later') \<and> concat frs = data \<and> [] \<notin> set frs \<and>
    thread_time s' t = thread_time s t \<and> GLogSerial s' = GLogSerial s"
proof (cases "data = []")
  case True
  then show ?thesis
    using ev blk by (intro exI [of _ s] exI [of _ "[]"]) (simp add: Field_WriteAuxData_def)
next
  case ne: False
  define b where "b = last (a # later)"
  have tls: "GTlsWriteBuffer s t = Some b" unfolding b_def by (rule open_event_last [OF ev])
  have c: "(Cursor (buf_at s b) = Committed (buf_at s b)) = (later \<noteq> [])"
  proof (cases "later = []")
    case True
    then show ?thesis using ev by (auto simp: b_def open_event_def)
  next
    case False
    then have "b \<in> set later" by (simp add: b_def)
    then show ?thesis using ev False by (simp add: open_event_def)
  qed
  have go: "Field_WriteAuxData env t Index data s =
     (if 0 - Cursor (buf_at s b) \<le> 0
      then let (b, s) = next_buffer env t (if later \<noteq> [] then commit b s else s) in write_aux_loop env t Index data True b s
      else write_aux_loop env t Index data (later \<noteq> []) b s)"
    using ne by (simp add: Field_WriteAuxData_def tls c Let_def)
  show ?thesis
  proof (cases "0 - Cursor (buf_at s b) \<le> 0")
    case False
    then show ?thesis
      using write_aux_loop_fragments [OF ev blk n b_def _ ne, of Index] unfolding go by auto
  next
    case True
    define s2 where "s2 = (if later \<noteq> [] then commit b s else s)"
    have "s2 = (if later \<noteq> [] then commit b (emit b [] s) else emit b [] s)"
      by (simp add: s2_def emit_Nil)
    moreover have "Cursor (buf_at s b) + int (length ([] :: u8 list)) \<le> 7" using ev by (simp add: open_event_def b_def)
    ultimately have ev2: "open_event s2 t bs a later c0 ptr sz pre pay aux"
      using emit_aux [OF ev b_def, of "[]" s2] by simp
    have blk2: "blocks_ok env s2 n (bs @ a # later)" using blk by (cases "later = []") (simp_all add: s2_def)
    obtain nb s3 where nx: "next_buffer env t s2 = (nb, s3)"
        "open_event s3 t bs a (later @ [nb]) c0 ptr sz pre pay aux"
        "blocks_ok env s3 n (bs @ a # later @ [nb])" "Cursor (buf_at s3 nb) + int n \<le> 0"
        "thread_time s3 t = thread_time s2 t" "GLogSerial s3 = GLogSerial s2"
      by (rule next_aux [OF ev2 blk2])
    have "Cursor (buf_at s3 nb) < 0" using nx(4) n by simp
    then obtain s' later' frs where
      ih: "write_aux_loop env t Index data True nb s3 = Some s'"
        "open_event s' t bs a ((later @ [nb]) @ later') c0 ptr sz pre pay (aux @ concat (map (fragment Index) frs))"
        "blocks_ok env s' n (bs @ a # (later @ [nb]) @ later')" "concat frs = data" "[] \<notin> set frs"
        "thread_time s' t = thread_time s3 t" "GLogSerial s' = GLogSerial s3"
      using write_aux_loop_fragments [OF nx(2) _ n _ _ ne, of env nb Index] nx(3) by auto
    have "thread_time s2 t = thread_time s t" "GLogSerial s2 = GLogSerial s" by (simp_all add: s2_def)
    then show ?thesis
      using ih nx(1,5,6) True
      by (intro exI [of _ s'] exI [of _ "nb # later'"] exI [of _ frs]) (simp add: go s2_def [symmetric])
  qed
qed

section \<open>Entering and ending an event\<close>

lemma open_event_start:
  assumes ok: "thread_log s t (bs @ [a])" and tls: "GTlsWriteBuffer s' t = GTlsWriteBuffer s t"
    and buf: "buf_at s' = (buf_at s)(a := (buf_at s a)\<lparr>Cursor := Cursor (buf_at s a) + int (h + sz), bmem := m\<rparr>)"
    and old: "\<And>k. k < Cursor (buf_at s a) \<Longrightarrow> m k = bmem (buf_at s a) k"
    and room: "Cursor (buf_at s a) + int (h + sz) \<le> 0" and h: "0 < h"
    and hdr: "hdr = map m [Cursor (buf_at s a)..Cursor (buf_at s a) + int h - 1]"
  shows "\<exists>pay. open_event s' t bs a [] (Cursor (buf_at s a)) (Cursor (buf_at s a) + int h) sz (stream s (bs @ [a]) @ hdr) pay []"
proof -
  let ?C = "Cursor (buf_at s a)" and ?y = "buf_at s' a"
  have ch: "chain_ok s t (bs @ [a])" and cm: "\<forall>b \<in> set bs. Committed (buf_at s b) = Cursor (buf_at s b)"
    "Committed (buf_at s a) = ?C" using ok by (simp_all add: thread_log_def)
  have i: "buf_inv (buf_at s a)" by (rule chain_ok_inv [OF ch]) simp
  have na: "a \<notin> set bs" using ch by (auto simp: chain_ok_def)
  have ch': "chain_ok s' t (bs @ [a])"
    by (rule chain_ok_upd [OF ch tls buf]) (use i room in \<open>auto simp: buf_inv_def\<close>)
  have st: "stream s' bs = stream s bs" using na by (intro stream_cong) (auto simp: buf)
  have r: "Reaped ?y = Reaped (buf_at s a)" "Reaped ?y \<le> ?C" using i by (simp_all add: buf buf_inv_def)
  have "bytes_between ?y (Reaped ?y) (?C + int h) = bytes_between ?y (Reaped ?y) ?C @ bytes_between ?y ?C (?C + int h)"
    by (rule bytes_between_split) (use r in simp_all)
  moreover have "bytes_between ?y (Reaped ?y) ?C = unsent (buf_at s a)"
    using old r by (auto simp: unsent_def bytes_between_def buf)
  moreover have "bytes_between ?y ?C (?C + int h) = hdr" by (simp add: bytes_between_def buf hdr)
  ultimately have pre: "stream s' bs @ bytes_between ?y (Reaped ?y) (?C + int h) = stream s (bs @ [a]) @ hdr"
    by (simp add: st)
  have c: "Cursor ?y = ?C + int h + int sz" "Committed ?y = ?C" "\<forall>b \<in> set bs. Committed (buf_at s' b) = Cursor (buf_at s' b)"
    using cm na by (auto simp: buf)
  show ?thesis
    using ch' pre c h room by (simp add: open_event_def)
qed

lemma thread_time_cong:
  assumes "\<And>c. PrevTimestamp (buf_at s' c) = PrevTimestamp (buf_at s c)" and "GTlsWriteBuffer s' t = GTlsWriteBuffer s t"
  shows "thread_time s' t = thread_time s t"
  by (simp add: thread_time_def assms split: option.split)

definition event_header :: "u16 \<Rightarrow> u32 \<Rightarrow> u32 \<Rightarrow> u8 list" where
  "event_header Flags Uid serial = le16 (ucast Uid OR Flag_TwoByteUid) @
     (if Flags AND Flag_NoSync \<noteq> 0 then [] else take 3 (le32 serial))"

definition header_size :: "u16 \<Rightarrow> nat" where
  "header_size Flags = (if Flags AND Flag_NoSync \<noteq> 0 then sizeof_FEventHeader else sizeof_FEventHeaderSync)"

definition serial_after :: "u16 \<Rightarrow> u32 \<Rightarrow> u32" where
  "serial_after Flags serial = (if Flags AND Flag_NoSync \<noteq> 0 then serial else serial + 1)"

lemma upto_2: "[i..i + 1] = [i, i + 1]" "[i..1 + i] = [i, i + 1]" and upto_5: "[i..i + 4] = [i, i + 1, i + 2, i + 3, i + 4]"
    "[i..4 + i] = [i, i + 1, i + 2, i + 3, i + 4]" for i :: int
  by (simp_all add: upto_rec1)

lemma EnterImpl_open:
  assumes ok: "thread_log s t bs" and blk: "blocks_ok env s m bs" and n: "header_size Flags + sz \<le> m"
  shows "\<exists>sc s' bs1 new pay. FLogScope_EnterImpl env t Flags Uid sz s = (sc, s') \<and>
    open_event s' t bs1 (Buffer sc) [] (Ptr sc - int (header_size Flags)) (Ptr sc) sz
      (stream s bs @ event_header Flags Uid (GLogSerial s)) pay [] \<and>
    bs @ new = bs1 @ [Buffer sc] \<and> blocks_ok env s' m (bs @ new) \<and> thread_time s' t = thread_time s t \<and>
    GLogSerial s' = serial_after Flags (GLogSerial s)"
proof -
  obtain a s1 new where bf: "buffer_for env t (header_size Flags + sz) s = (a, s1)" "thread_log s1 t (bs @ new)"
      "last (bs @ new) = a" "blocks_ok env s1 m (bs @ new)" "stream s1 (bs @ new) = stream s bs"
      "Cursor (buf_at s1 a) + int (header_size Flags + sz) \<le> 0"
      "PrevTimestamp (buf_at s1 a) = PrevTimestamp (buf_at s (last bs))" "GLogSerial s1 = GLogSerial s"
    using buffer_for_log [OF ok blk n] by metis
  have ch: "chain_ok s t bs" and ch1: "chain_ok s1 t (bs @ new)" using ok bf(2) by (simp_all add: thread_log_def)
  obtain bs1 where bs1: "bs @ new = bs1 @ [a]"
    using chain_ok_ne [OF ch1] bf(3) by (metis append_butlast_last_id)
  let ?C = "Cursor (buf_at s1 a)"
  have tm: "thread_time s1 t = thread_time s t"
    using chain_ok_tls [OF ch] chain_ok_tls [OF ch1] bf(3,7) by (simp add: thread_time_def)
  define s2 where "s2 = upd_buf a (\<lambda>x. x\<lparr>Cursor := Cursor x + int (header_size Flags + sz)\<rparr>) s1"
  have b2: "buf_at s2 = (buf_at s1)(a := (buf_at s1 a)\<lparr>Cursor := ?C + int (header_size Flags + sz)\<rparr>)"
    by (simp add: s2_def upd_buf_def)
  define P where "P = ?C + int (header_size Flags)"
  have pre: "EnterPrelude env t (header_size Flags) sz s = (\<lparr>Ptr = P, Buffer = a\<rparr>, s2)"
    by (simp add: EnterPrelude_def Let_def bf(1) P_def s2_def)
  define w where "w = le16 (ucast Uid OR Flag_TwoByteUid)"
  obtain w0 w1 where w: "w = [w0, w1]" by (simp add: w_def le16_def)
  show ?thesis
  proof (cases "Flags AND Flag_NoSync \<noteq> 0")
    case True
    then have h: "header_size Flags = 2" by (simp add: header_size_def sizeof_FEventHeader_def)
    define s3 where "s3 = store_at a (P - 2) w s2"
    have P: "P - 2 = ?C" by (simp add: P_def h)
    have e: "FLogScope_EnterImpl env t Flags Uid sz s = (\<lparr>Ptr = P, Buffer = a\<rparr>, s3)"
      using True pre by (simp add: FLogScope_EnterImpl_def FLogScope_EnterNoSync_def h sizeof_FEventHeader_def s3_def w_def)
    define m' where "m' = put_bytes ?C w (bmem (buf_at s1 a))"
    have b3: "buf_at s3 = (buf_at s1)(a := (buf_at s1 a)\<lparr>Cursor := ?C + int (2 + sz), bmem := m'\<rparr>)"
      by (simp add: s3_def b2 P m'_def h)
    have o: "\<exists>pay. open_event s3 t bs1 a [] ?C (?C + int 2) sz (stream s1 (bs1 @ [a]) @ w) pay []"
    proof (rule open_event_start [OF _ _ b3])
      show "thread_log s1 t (bs1 @ [a])" using bf(2) bs1 by simp
      show "GTlsWriteBuffer s3 t = GTlsWriteBuffer s1 t" by (simp add: s3_def s2_def)
      show "Cursor (buf_at s1 a) + int (2 + sz) \<le> 0" using bf(6) h by simp
      show "w = map m' [?C..?C + int 2 - 1]" by (simp add: upto_2 m'_def put_bytes_def w)
    qed (simp_all add: m'_def put_bytes_def)
    have bl: "blocks_ok env s3 m (bs @ new)"
    proof -
      have "blocks_taken s3 = blocks_taken s1" by (simp add: s3_def s2_def)
      moreover have "bufSize (buf_at s3 c) = bufSize (buf_at s1 c)" for c by (simp add: b3)
      ultimately have "blocks_ok env s3 m (bs @ new) = blocks_ok env s1 m (bs @ new)" by (rule blocks_ok_cong)
      then show ?thesis using bf(4) by (simp only:)
    qed
    have tt: "thread_time s3 t = thread_time s1 t" 
      by (rule thread_time_cong) (simp_all add: b3, simp add: s3_def s2_def)
    have "GLogSerial s3 = serial_after Flags (GLogSerial s)"
      by (simp add: s3_def serial_after_def s2_def True bf(8))
    moreover have "event_header Flags Uid (GLogSerial s) = w"
      by (simp add: event_header_def w_def True)
    moreover obtain pay where "open_event s3 t bs1 a [] ?C (?C + int 2) sz (stream s1 (bs1 @ [a]) @ (w)) pay []"
      using o by blast
    moreover have "stream s1 (bs1 @ [a]) = stream s bs" using bf(5) by (simp only: bs1)
    moreover have "?C = P - int (header_size Flags)" "?C + int 2 = P" by (simp_all add: P_def h)
    ultimately have "open_event s3 t bs1 a [] (P - int (header_size Flags)) P sz
        (stream s bs @ event_header Flags Uid (GLogSerial s)) pay [] \<and> GLogSerial s3 = serial_after Flags (GLogSerial s)"
      by (simp only: simp_thms)
    then show ?thesis
      using e tm tt bl bs1
      by (intro exI [of _ "\<lparr>Ptr = P, Buffer = a\<rparr>"] exI [of _ s3] exI [of _ bs1] exI [of _ new] exI [of _ pay])
        (simp only: log_scope.simps simp_thms)
  next
    case False
    then have h: "header_size Flags = 5" by (simp add: header_size_def sizeof_FEventHeaderSync_def)
    define v where "v = le32 (GLogSerial s)"
    obtain v0 v1 v2 v3 where v: "v = [v0, v1, v2, v3]" by (simp add: v_def le32_def)
    define s3 where "s3 = store_at a (P - 5) w ((store_at a (P - 3) v s2)\<lparr>GLogSerial := GLogSerial s2 + 1\<rparr>)"
    have P: "P - 5 = ?C" "P - 3 = ?C + 2" by (simp_all add: P_def h)
    have g: "GLogSerial s2 = GLogSerial s" by (simp add: s2_def bf(8))
    have e: "FLogScope_EnterImpl env t Flags Uid sz s = (\<lparr>Ptr = P, Buffer = a\<rparr>, s3)"
      using False pre by (simp add: FLogScope_EnterImpl_def FLogScope_Enter_def h sizeof_FEventHeaderSync_def s3_def w_def v_def g)
    define m' where "m' = put_bytes ?C w (put_bytes (?C + 2) v (bmem (buf_at s1 a)))"
    have b3: "buf_at s3 = (buf_at s1)(a := (buf_at s1 a)\<lparr>Cursor := ?C + int (5 + sz), bmem := m'\<rparr>)"
      by (simp add: s3_def b2 P m'_def h)
    have o: "\<exists>pay. open_event s3 t bs1 a [] ?C (?C + int 5) sz (stream s1 (bs1 @ [a]) @ (w @ take 3 v)) pay []"
    proof (rule open_event_start [OF _ _ b3])
      show "thread_log s1 t (bs1 @ [a])" using bf(2) bs1 by simp
      show "GTlsWriteBuffer s3 t = GTlsWriteBuffer s1 t" by (simp add: s3_def s2_def)
      show "Cursor (buf_at s1 a) + int (5 + sz) \<le> 0" using bf(6) h by simp
      show "w @ take 3 v = map m' [?C..?C + int 5 - 1]" by (simp add: upto_5 m'_def put_bytes_def w v)
    qed (simp_all add: m'_def put_bytes_def)
    have bl: "blocks_ok env s3 m (bs @ new)"
    proof -
      have "blocks_taken s3 = blocks_taken s1" by (simp add: s3_def s2_def)
      moreover have "bufSize (buf_at s3 c) = bufSize (buf_at s1 c)" for c by (simp add: b3)
      ultimately have "blocks_ok env s3 m (bs @ new) = blocks_ok env s1 m (bs @ new)" by (rule blocks_ok_cong)
      then show ?thesis using bf(4) by (simp only:)
    qed
    have tt: "thread_time s3 t = thread_time s1 t" 
      by (rule thread_time_cong) (simp_all add: b3, simp add: s3_def s2_def)
    have "GLogSerial s3 = serial_after Flags (GLogSerial s)"
      by (simp add: s3_def serial_after_def g False)
    moreover have "event_header Flags Uid (GLogSerial s) = w @ take 3 v"
      by (simp add: event_header_def w_def v_def False)
    moreover obtain pay where "open_event s3 t bs1 a [] ?C (?C + int 5) sz (stream s1 (bs1 @ [a]) @ (w @ take 3 v)) pay []"
      using o by blast
    moreover have "stream s1 (bs1 @ [a]) = stream s bs" using bf(5) by (simp only: bs1)
    moreover have "?C = P - int (header_size Flags)" "?C + int 5 = P" by (simp_all add: P_def h)
    ultimately have "open_event s3 t bs1 a [] (P - int (header_size Flags)) P sz
        (stream s bs @ event_header Flags Uid (GLogSerial s)) pay [] \<and> GLogSerial s3 = serial_after Flags (GLogSerial s)"
      by (simp only: simp_thms)
    then show ?thesis
      using e tm tt bl bs1
      by (intro exI [of _ "\<lparr>Ptr = P, Buffer = a\<rparr>"] exI [of _ s3] exI [of _ bs1] exI [of _ new] exI [of _ pay])
        (simp only: log_scope.simps simp_thms)
  qed
qed

text \<open>The end of the statement: a terminal where the event may have auxiliary data.\<close>

lemma log_scope_end_log:
  assumes ev: "open_event s t bs a later c0 ptr sz pre pay aux" and sc: "Buffer sc = a"
    and none: "\<not> ma \<Longrightarrow> later = []"
  shows "\<exists>s'. log_scope_end t ma sc s = Some s' \<and> thread_log s' t (bs @ a # later) \<and>
    stream s' (bs @ a # later) = pre @ pay @ aux @ (if ma then [6] else []) \<and>
    (\<forall>env n. blocks_ok env s n (bs @ a # later) \<longrightarrow> blocks_ok env s' n (bs @ a # later)) \<and>
    thread_time s' t = thread_time s t \<and> GLogSerial s' = GLogSerial s"
proof (cases ma)
  case False
  then have l: "later = []" using none by simp
  have ch: "chain_ok s t (bs @ [a])" using open_event_chain [OF ev] l by simp
  have c: "chain_ok (commit a s) t (bs @ [a])" "stream (commit a s) (bs @ [a]) = stream s (bs @ [a])"
    by (rule commit_chain [OF ch], simp)+
  have "thread_log (commit a s) t (bs @ [a])"
    using c(1) ev l by (auto simp: thread_log_def open_event_def)
  then show ?thesis
    using False l c(2) open_event_stream [OF ev] by (simp add: log_scope_end_def sc)
next
  case True
  define b where "b = last (a # later)"
  have tls: "GTlsWriteBuffer s t = Some b" unfolding b_def by (rule open_event_last [OF ev])
  have k: "ucast (push_bit UidShift Uid_AuxDataTerminal) = (6 :: u8)" by (simp add: UidShift_def Uid_AuxDataTerminal_def)
  define s1 where "s1 = emit b [6] s"
  define s2 where "s2 = (if b \<noteq> a then commit b s1 else s1)"
  obtain ms where bs: "bs @ a # later = ms @ [b]"
    unfolding b_def by (metis append_butlast_last_id last_appendR list.distinct(1) append_is_Nil_conv)
  have ch: "chain_ok s t (ms @ [b])" using open_event_chain [OF ev] bs by simp
  have fit: "Cursor (buf_at s b) + int (length [6 :: u8]) \<le> 8" using ev by (simp add: open_event_def b_def)
  note em = emit_chain [OF ch fit]
  have c2: "chain_ok s2 t (ms @ [b])" "stream s2 (ms @ [b]) = stream s1 (ms @ [b])"
  proof -
    have "s2 = commit b s1 \<or> s2 = s1" by (simp add: s2_def)
    moreover have "chain_ok (commit b s1) t (ms @ [b])" "stream (commit b s1) (ms @ [b]) = stream s1 (ms @ [b])"
      unfolding s1_def by (rule commit_chain [OF em(1)], simp)+
    ultimately show "chain_ok s2 t (ms @ [b])" "stream s2 (ms @ [b]) = stream s1 (ms @ [b])"
      using em(1) by (auto simp only: s1_def)
  qed
  have a: "a \<in> set (ms @ [b])" using bs by (metis in_set_conv_decomp)
  note c3 = commit_chain [OF c2(1) a]
  have e: "log_scope_end t ma sc s = Some (commit a s2)"
    using True by (simp add: log_scope_end_def tls k FLogScope_Commit_def sc s2_def s1_def Let_def)
  have cm: "Committed (buf_at (commit a s2) c) = Cursor (buf_at (commit a s2) c)" if "c \<in> set (bs @ a # later)" for c
  proof -
    have "c = a \<or> Committed (buf_at s c) = Cursor (buf_at s c)" using that ev by (auto simp: open_event_def)
    then show ?thesis by (auto simp: s2_def s1_def)
  qed
  have "thread_log (commit a s2) t (bs @ a # later)"
    unfolding thread_log_def using c3(1) cm by (simp only: bs) blast
  moreover have "stream (commit a s2) (bs @ a # later) = pre @ pay @ aux @ [6]"
    using c3(2) c2(2) em(2) open_event_stream [OF ev] by (simp add: bs s1_def)
  moreover have "thread_time (commit a s2) t = thread_time s t" "GLogSerial (commit a s2) = GLogSerial s"
    by (simp_all add: s2_def s1_def)
  moreover have "blocks_ok env (commit a s2) n (bs @ a # later)" if "blocks_ok env s n (bs @ a # later)" for env n
    using that by (cases "b = a") (simp_all add: s2_def s1_def)
  ultimately show ?thesis using e True by simp
qed

section \<open>The reader\<close>

text \<open>A little-endian number of any width.\<close>

definition of_le :: "u8 list \<Rightarrow> 'a::len word" where
  "of_le bs = foldr (\<lambda>b w. ucast b OR push_bit 8 w) bs 0"

lemma of_le_step: "ucast (ucast (drop_bit k w) :: u8) OR push_bit 8 (drop_bit (k + 8) w) = (drop_bit k w :: 'a::len word)"
proof (rule bit_word_eqI)
  fix n assume n: "n < LENGTH('a)"
  show "bit (ucast (ucast (drop_bit k w) :: u8) OR push_bit 8 (drop_bit (k + 8) w)) n = bit (drop_bit k w) n"
  proof (cases "n < 8")
    case True
    then show ?thesis using n by (simp add: bit_simps)
  next
    case False
    then have "k + 8 + (n - 8) = k + n" by simp
    then show ?thesis using n False by (simp add: bit_simps)
  qed
qed

lemma of_le32_le32 [simp]: "of_le (le32 w) = w"
  using of_le_step [of 24 w] of_le_step [of 16 w] of_le_step [of 8 w] of_le_step [of 0 w]
  by (simp add: of_le_def le32_def)

lemma of_le64_le64 [simp]: "of_le (le64 w) = w"
  using of_le_step [of 56 w] of_le_step [of 48 w] of_le_step [of 40 w] of_le_step [of 32 w]
    of_le_step [of 24 w] of_le_step [of 16 w] of_le_step [of 8 w] of_le_step [of 0 w]
  by (simp add: of_le_def le64_def)

text \<open>The fragments of auxiliary data up to their terminal: the field each is for, and its bytes.\<close>

function read_aux :: "u8 list \<Rightarrow> ((nat \<times> u8 list) list \<times> u8 list) option" where
  "read_aux [] = None"
| "read_aux (b # bs) =
     (if b = ucast (push_bit UidShift Uid_AuxDataTerminal) then Some ([], bs)
      else if b = ucast (push_bit UidShift Uid_AuxData) \<and> 3 \<le> length bs then
        let Pack = of_le (b # take 3 bs) :: u32;
            n = unat (drop_bit SizeShift Pack);
            i = unat (drop_bit FieldShift Pack AND FieldMask);
            bs = drop 3 bs
        in if n \<le> length bs
           then (case read_aux (drop n bs) of None \<Rightarrow> None
                 | Some (frs, rest) \<Rightarrow> Some ((i, take n bs) # frs, rest))
           else None
      else None)"
  by pat_completeness auto
termination by (relation "measure length") auto

text \<open>What the description of an event announces of its layout.\<close>

record event_type =
  et_size :: nat
  et_sync :: bool
  et_aux :: bool

text \<open>What is read: scopes with the time since the last stamp, and events with their number,
  24 bits of serial number, fields and auxiliary data.\<close>

datatype log_item = I_enter | I_leave | I_enter_T u64 | I_leave_T u64
  | I_event u16 "u32 option" "u8 list" "(nat \<times> u8 list) list"

definition read_event_data :: "event_type \<Rightarrow> u16 \<Rightarrow> u8 list \<Rightarrow> (log_item \<times> u8 list) option" where
  "read_event_data ty Uid bs =
     (let h = (if et_sync ty then 3 else 0) in
      if length bs < h + et_size ty then None
      else
        let serial = (if et_sync ty then Some (of_le (take 3 bs)) else None);
            pay = take (et_size ty) (drop h bs);
            bs = drop (h + et_size ty) bs
        in if et_aux ty
           then (case read_aux bs of None \<Rightarrow> None
                 | Some (frs, rest) \<Rightarrow> Some (I_event Uid serial pay frs, rest))
           else Some (I_event Uid serial pay [], bs))"

definition read_item :: "(u16 \<Rightarrow> event_type option) \<Rightarrow> u8 list \<Rightarrow> (log_item \<times> u8 list) option" where
  "read_item types bs =
     (case bs of [] \<Rightarrow> None
      | b # rest \<Rightarrow>
          if bit b 0 then
            (case rest of [] \<Rightarrow> None
             | c # rest \<Rightarrow>
                 let Uid = drop_bit UidShift (of_le16 b c) in
                 case types Uid of None \<Rightarrow> None | Some ty \<Rightarrow> read_event_data ty Uid rest)
          else
            let known = ucast (drop_bit UidShift b) in
            if known = Uid_EnterScope then Some (I_enter, rest)
            else if known = Uid_LeaveScope then Some (I_leave, rest)
            else if length bs < 8 then None
            else if known = Uid_EnterScope_T then Some (I_enter_T (drop_bit 8 (of_le (take 8 bs))), drop 8 bs)
            else if known = Uid_LeaveScope_T then Some (I_leave_T (drop_bit 8 (of_le (take 8 bs))), drop 8 bs)
            else None)"

section \<open>Reading back what is written\<close>

lemma nat_bit_high: "n < 2 ^ j \<Longrightarrow> j \<le> k \<Longrightarrow> \<not> bit n k" for n :: nat
  by (metis bit_take_bit_iff linorder_not_le take_bit_nat_eq_self)

lemma aux_header_read:
  assumes i: "i < 32" and n: "n < 2 ^ 19"
  shows "aux_header i n = 2 # tl (aux_header i n)"
    and "unat (drop_bit SizeShift (of_le (2 # tl (aux_header i n)) :: u32)) = n"
    and "unat (drop_bit FieldShift (of_le (2 # tl (aux_header i n)) :: u32) AND FieldMask) = i"
proof -
  define P where "P = push_bit 13 (of_nat n :: u32) OR push_bit 8 (of_nat i :: u32)"
  have h: "tl (aux_header i n) = tl (le32 P)" "aux_header i n = 2 # tl (le32 P)"
    by (simp_all add: aux_header_def P_def SizeShift_def FieldShift_def FieldBits_def UidShift_def Uid_AuxData_def)
  show "aux_header i n = 2 # tl (aux_header i n)" by (simp add: h)
  define Q where "Q = (of_le (2 # tl (le32 P)) :: u32)"
  have Q: "Q = 2 OR push_bit 8 (drop_bit 8 P)"
    using of_le_step [of 24 P] of_le_step [of 16 P] of_le_step [of 8 P]
    by (simp add: Q_def of_le_def le32_def)
  have nh: "\<not> bit n k" if "19 \<le> k" for k by (rule nat_bit_high [OF n that])
  have ih: "\<not> bit i k" if "5 \<le> k" for k by (rule nat_bit_high [of i 5, OF _ that]) (use i in simp)
  have "drop_bit 13 Q = of_nat n"
  proof (rule bit_word_eqI)
    fix k assume k: "k < LENGTH(32)"
    have "13 + k - 8 = k + 5" by simp
    then show "bit (drop_bit 13 Q) k = bit (of_nat n :: u32) k"
      using k nh [of k] ih [of "5 + k"] by (cases "k < 19") (auto simp: Q P_def bit_simps bit_numeral_rec)
  qed
  then show "unat (drop_bit SizeShift (of_le (2 # tl (aux_header i n)) :: u32)) = n"
    using n by (simp add: h Q_def [symmetric] SizeShift_def FieldShift_def FieldBits_def unat_of_nat)
  have "drop_bit 8 Q AND mask 5 = of_nat i"
  proof (rule bit_word_eqI)
    fix k assume k: "k < LENGTH(32)"
    show "bit (drop_bit 8 Q AND mask 5) k = bit (of_nat i :: u32) k"
      using k ih [of k] by (cases "k < 5") (auto simp: Q P_def bit_simps bit_numeral_rec)
  qed
  moreover have "FieldMask = (mask 5 :: u32)" by (simp add: FieldMask_def FieldBits_def mask_eq_decr_exp)
  ultimately show "unat (drop_bit FieldShift (of_le (2 # tl (aux_header i n)) :: u32) AND FieldMask) = i"
    using i by (simp add: h Q_def [symmetric] FieldShift_def unat_of_nat)
qed

text \<open>Auxiliary data as the writer makes it: fragments of one or more bytes of a field.\<close>

definition frags_ok :: "(nat \<times> u8 list) list \<Rightarrow> bool" where
  "frags_ok frs \<longleftrightarrow> list_all (\<lambda>(i, d). i < 32 \<and> length d < 2 ^ 19) frs"

definition frags_bytes :: "(nat \<times> u8 list) list \<Rightarrow> u8 list" where
  "frags_bytes frs = concat (map (\<lambda>(i, d). fragment i d) frs)"

lemma read_aux_fragment:
  assumes "i < 32" and "length d < 2 ^ 19"
  shows "read_aux (fragment i d @ xs) = (case read_aux xs of None \<Rightarrow> None | Some (frs, rest) \<Rightarrow> Some ((i, d) # frs, rest))"
proof -
  note r = aux_header_read [OF assms]
  define hd where "hd = tl (aux_header i (length d))"
  have l: "length hd = 3" by (simp add: hd_def)
  have e: "fragment i d @ xs = 2 # hd @ d @ xs"
    unfolding fragment_def hd_def using r(1) by (metis append_Cons append_assoc)
  have k: "ucast (push_bit UidShift Uid_AuxDataTerminal) = (6 :: u8)" "ucast (push_bit UidShift Uid_AuxData) = (2 :: u8)"
    by (simp_all add: UidShift_def Uid_AuxDataTerminal_def Uid_AuxData_def)
  have t: "take 3 (hd @ d @ xs) = hd" "drop 3 (hd @ d @ xs) = d @ xs" "3 \<le> length (hd @ d @ xs)" using l by simp_all
  have u: "take (length d) (d @ xs) = d" "drop (length d) (d @ xs) = xs" "length d \<le> length (d @ xs)" "((2 :: u8) = 6) = False"
    by simp_all
  show ?thesis
    unfolding e by (subst read_aux.simps) (simp only: k t u Let_def r(2,3) [folded hd_def] if_True if_False simp_thms)
qed

lemma read_aux_frags:
  assumes "frags_ok frs"
  shows "read_aux (frags_bytes frs @ 6 # rest) = Some (frs, rest)"
  using assms
proof (induction frs)
  case Nil
  then show ?case by (simp add: frags_bytes_def UidShift_def Uid_AuxDataTerminal_def)
next
  case (Cons f frs)
  obtain i d where f: "f = (i, d)" by (cases f)
  show ?case
    using Cons read_aux_fragment [of i d "frags_bytes frs @ 6 # rest"]
    by (simp add: frags_bytes_def f frags_ok_def)
qed

text \<open>The numbers of events are given with their flag already set (FEventNode::Initialize).\<close>

definition event_uid :: "u32 \<Rightarrow> u16" where "event_uid Uid = drop_bit UidShift (ucast Uid OR Flag_TwoByteUid)"

definition type_of_event :: "event_decl \<Rightarrow> event_type" where
  "type_of_event d = \<lparr>et_size = EventProps_Size d, et_sync = (EventFlags d AND Flag_NoSync = 0),
     et_aux = (EventFlags d AND Flag_MaybeHasAux \<noteq> 0)\<rparr>"

definition event_serial :: "u16 \<Rightarrow> u32 \<Rightarrow> u32 option" where
  "event_serial Flags serial = (if Flags AND Flag_NoSync \<noteq> 0 then None else Some (serial AND mask 24))"

lemma of_le_3: "of_le (take 3 (le32 w)) = (w AND mask 24 :: u32)"
proof (rule bit_word_eqI)
  fix n assume n: "n < LENGTH(32)"
  have e: "of_le (take 3 (le32 w)) = ucast (ucast w :: u8) OR push_bit 8 (ucast (ucast (drop_bit 8 w) :: u8) OR push_bit 8 (ucast (ucast (drop_bit 16 w) :: u8)))"
    by (simp add: of_le_def le32_def)
  have "8 + (n - 8) = n" if "8 \<le> n" using that by simp
  moreover have "16 + (n - 16) = n" if "16 \<le> n" using that by simp
  moreover have "n < 8 \<or> 8 \<le> n \<and> n - 8 < 8 \<or> 16 \<le> n \<and> \<not> n - 8 < 8 \<and> \<not> n < 8" by linarith
  ultimately show "bit (of_le (take 3 (le32 w)) :: u32) n = bit (w AND mask 24) n"
    using n unfolding e by (auto simp: bit_simps)
qed

lemma read_event_back:
  assumes ty: "types (event_uid Uid) = Some (type_of_event d)" and pay: "length pay = EventProps_Size d"
    and fr: "frags_ok frs" and no: "EventFlags d AND Flag_MaybeHasAux = 0 \<Longrightarrow> frs = []"
  shows "read_item types (event_header (EventFlags d) Uid serial @ pay @ frags_bytes frs @
      (if EventFlags d AND Flag_MaybeHasAux \<noteq> 0 then [6] else []) @ rest) =
    Some (I_event (event_uid Uid) (event_serial (EventFlags d) serial) pay frs, rest)"
proof -
  define w where "w = (ucast Uid OR Flag_TwoByteUid :: u16)"
  have b0: "bit (ucast w :: u8) 0" by (simp add: w_def bit_simps Flag_TwoByteUid_def)
  define hs where "hs = (if EventFlags d AND Flag_NoSync \<noteq> 0 then [] else take 3 (le32 serial))"
  have hl: "length hs = (if EventFlags d AND Flag_NoSync \<noteq> 0 then 0 else 3)" by (simp add: hs_def)
  define q where "q = frags_bytes frs @ (if EventFlags d AND Flag_MaybeHasAux \<noteq> 0 then [6] else []) @ rest"
  have "read_item types (event_header (EventFlags d) Uid serial @ pay @ q) =
      read_event_data (type_of_event d) (event_uid Uid) (hs @ pay @ q)"
    using b0 ty by (simp add: read_item_def event_header_def le16_def w_def [symmetric] hs_def [symmetric] event_uid_def)
  moreover have "read_event_data (type_of_event d) (event_uid Uid) (hs @ pay @ q) =
      (if EventFlags d AND Flag_MaybeHasAux \<noteq> 0
       then (case read_aux q of None \<Rightarrow> None
             | Some (frs, rest) \<Rightarrow> Some (I_event (event_uid Uid) (event_serial (EventFlags d) serial) pay frs, rest))
       else Some (I_event (event_uid Uid) (event_serial (EventFlags d) serial) pay [], q))"
    using hl pay by (cases "EventFlags d AND Flag_NoSync = 0")
      (simp_all add: read_event_data_def type_of_event_def event_serial_def hs_def of_le_3 split: option.split)
  moreover have "q = rest" if "EventFlags d AND Flag_MaybeHasAux = 0"
    using that no by (simp add: q_def frags_bytes_def)
  moreover have "read_aux q = Some (frs, rest)" if "EventFlags d AND Flag_MaybeHasAux \<noteq> 0"
    using that read_aux_frags [OF fr] by (simp add: q_def)
  ultimately show ?thesis
    using no by (cases "EventFlags d AND Flag_MaybeHasAux = 0") (simp_all add: q_def)
qed

lemma read_scope_back:
  "read_item types (8 # rest) = Some (I_enter, rest)"
  "read_item types (10 # rest) = Some (I_leave, rest)"
  by (simp_all add: read_item_def UidShift_def Uid_EnterScope_def Uid_LeaveScope_def)

lemma read_stamp_back:
  assumes st: "Stamp < 2 ^ 56"
  shows "read_item types (stamp_bytes Stamp Uid_EnterScope_T @ rest) = Some (I_enter_T Stamp, rest)"
    and "read_item types (stamp_bytes Stamp Uid_LeaveScope_T @ rest) = Some (I_leave_T Stamp, rest)"
proof -
  have hi: "\<not> bit Stamp n" if "56 \<le> n" for n
  proof -
    have "unat Stamp < 2 ^ 56" using st by (simp add: word_less_nat_alt)
    then have "\<not> bit (unat Stamp) n" using that by (rule nat_bit_high)
    then show ?thesis by (simp add: bit_unsigned_iff)
  qed
  have lo: "n < 56" if "bit Stamp n" for n using hi that linorder_not_le by blast
  have b: "bit (16 :: u64) n \<longleftrightarrow> n = 4" "bit (24 :: u64) n \<longleftrightarrow> n = 3 \<or> n = 4" for n
    by (auto simp: bit_numeral_rec bit_1_iff split: nat.splits)
  have a: "push_bit 8 Stamp + 16 = push_bit 8 Stamp OR 16" "push_bit 8 Stamp + 24 = push_bit 8 Stamp OR 24"
  proof -
    have "push_bit 8 Stamp AND 16 = 0"
    proof (rule bit_word_eqI)
      fix n show "bit (push_bit 8 Stamp AND 16) n = bit (0 :: u64) n"
        unfolding bit_and_iff b(1) by (auto simp: bit_simps)
    qed
    then show "push_bit 8 Stamp + 16 = push_bit 8 Stamp OR 16" by (rule disjunctive_add_eq_or)
    have "push_bit 8 Stamp AND 24 = 0"
    proof (rule bit_word_eqI)
      fix n show "bit (push_bit 8 Stamp AND 24) n = bit (0 :: u64) n"
        unfolding bit_and_iff b(2) by (auto simp: bit_simps)
    qed
    then show "push_bit 8 Stamp + 24 = push_bit 8 Stamp OR 24" by (rule disjunctive_add_eq_or)
  qed
  have d: "drop_bit 8 (push_bit 8 Stamp + 16) = Stamp" "drop_bit 8 (push_bit 8 Stamp + 24) = Stamp"
    "ucast (push_bit 8 Stamp + 16) = (16 :: u8)" "ucast (push_bit 8 Stamp + 24) = (24 :: u8)"
    unfolding a by (auto intro!: bit_word_eqI intro: lo simp: b bit_simps)
  have t: "take 8 (le64 w @ rest) = le64 w" "drop 8 (le64 w @ rest) = rest" "8 \<le> length (le64 w @ rest)" for w by simp_all
  have c: "\<exists>w1 w2 w3 w4 w5 w6 w7. le64 w = [ucast w, w1, w2, w3, w4, w5, w6, w7]" for w by (simp add: le64_def)
  have e: "stamp_bytes Stamp Uid_EnterScope_T = le64 (push_bit 8 Stamp + 16)"
    "stamp_bytes Stamp Uid_LeaveScope_T = le64 (push_bit 8 Stamp + 24)"
    by (simp_all add: stamp_bytes_def UidShift_def Uid_EnterScope_T_def Uid_LeaveScope_T_def)
  have r: "read_item types (le64 w @ rest) = (if bit (ucast w :: u8) 0 then read_item types (le64 w @ rest)
      else let known = ucast (drop_bit UidShift (ucast w :: u8)) in
            if known = Uid_EnterScope then Some (I_enter, tl (le64 w) @ rest)
            else if known = Uid_LeaveScope then Some (I_leave, tl (le64 w) @ rest)
            else if known = Uid_EnterScope_T then Some (I_enter_T (drop_bit 8 w), rest)
            else if known = Uid_LeaveScope_T then Some (I_leave_T (drop_bit 8 w), rest)
            else None)" for w
  proof -
    obtain ws where ws: "le64 w = ucast w # ws" using c [of w] by blast
    have "of_le (ucast w # ws) = w" using ws of_le64_le64 [of w] by metis
    then show ?thesis using ws t [of w] by (simp add: read_item_def Let_def)
  qed
  show "read_item types (stamp_bytes Stamp Uid_EnterScope_T @ rest) = Some (I_enter_T Stamp, rest)"
    unfolding e by (subst r) (simp add: d UidShift_def Uid_EnterScope_def Uid_LeaveScope_def Uid_EnterScope_T_def bit_numeral_rec)
  show "read_item types (stamp_bytes Stamp Uid_LeaveScope_T @ rest) = Some (I_leave_T Stamp, rest)"
    unfolding e by (subst r) (simp add: d UidShift_def Uid_EnterScope_def Uid_LeaveScope_def Uid_EnterScope_T_def
      Uid_LeaveScope_T_def bit_numeral_rec)
qed

section \<open>The layout of an event\<close>

definition sizes :: "field_type list \<Rightarrow> nat" where "sizes Ts = sum_list (map TFieldType_Size Ts)"
definition auxs :: "field_type list \<Rightarrow> nat" where "auxs Ts = length (filter is_aux_field Ts)"

lemma sizes_simps [simp]: "sizes [] = 0" "sizes (T # Ts) = TFieldType_Size T + sizes Ts" "sizes (as @ bs) = sizes as + sizes bs"
  by (simp_all add: sizes_def)
lemma auxs_simps [simp]: "auxs [] = 0" "auxs (T # Ts) = (if is_aux_field T then 1 else 0) + auxs Ts" "auxs (as @ bs) = auxs as + auxs bs"
  by (simp_all add: auxs_def)

lemma field_chain_spec:
  assumes "field_chain i off Ts = (fms, n, sz)"
  shows "length fms = length Ts \<and> n = i + length Ts + 256 * auxs Ts \<and> sz = off + sizes Ts \<and>
    (\<forall>k < length Ts. fm_type (fms ! k) = Ts ! k \<and> fm_Offset (fms ! k) = off + sizes (take k Ts) \<and>
       fm_Index (fms ! k) = i + k + 256 * auxs (take (Suc k) Ts))"
  using assms
proof (induction Ts arbitrary: i off fms n sz)
  case Nil
  then show ?case by simp
next
  case (Cons T Ts)
  define fm where "fm = TField i off T"
  obtain fms' n' sz' where r: "field_chain (fm_Index fm + 1) (fm_Offset fm + TFieldType_Size T) Ts = (fms', n', sz')"
    by (metis prod_cases3)
  have e: "fms = fm # fms'" "n = n'" "sz = sz'" using Cons.prems r by (simp_all add: fm_def [symmetric] Let_def)
  have fm: "fm_Index fm = i + (if is_aux_field T then 256 else 0)" "fm_Offset fm = off" "fm_type fm = T"
    by (simp_all add: fm_def TField_def AuxFieldCounter_def NumFieldsShift_def)
  note ih = Cons.IH [OF r]
  have "fm_type (fms ! k) = (T # Ts) ! k \<and> fm_Offset (fms ! k) = off + sizes (take k (T # Ts)) \<and>
       fm_Index (fms ! k) = i + k + 256 * auxs (take (Suc k) (T # Ts))" if "k < Suc (length Ts)" for k
    using that ih fm by (cases k) (auto simp: e)
  then show ?case using ih fm by (auto simp: e)
qed

definition ed_types :: "event_decl \<Rightarrow> field_type list" where
  "ed_types d = ed_fields d @ (case ed_definition d of None \<Rightarrow> [] | Some T \<Rightarrow> [T])"

lemma ed_metas_spec:
  shows "length (fst (ed_metas d)) = length (ed_types d)"
    and "EventProps_Size d = sizes (ed_types d)"
    and "EventProps_NumFields d = length (ed_types d) mod 256"
    and "EventProps_NumAuxFields d = (length (ed_types d) div 256 + auxs (ed_types d)) mod 256"
    and "k < length (ed_types d) \<Longrightarrow> fm_type (fst (ed_metas d) ! k) = ed_types d ! k"
    and "k < length (ed_types d) \<Longrightarrow> fm_Offset (fst (ed_metas d) ! k) = sizes (take k (ed_types d))"
    and "k < length (ed_types d) \<Longrightarrow> fm_Index (fst (ed_metas d) ! k) mod 256 = k mod 256"
proof -
  obtain fms n sz where e: "ed_metas d = (fms, n, sz)" by (metis prod_cases3)
  then have "field_chain 0 0 (ed_types d) = (fms, n, sz)" by (simp add: ed_metas_def ed_types_def)
  note s = field_chain_spec [OF this]
  show "length (fst (ed_metas d)) = length (ed_types d)" "EventProps_Size d = sizes (ed_types d)"
    "EventProps_NumFields d = length (ed_types d) mod 256"
    "EventProps_NumAuxFields d = (length (ed_types d) div 256 + auxs (ed_types d)) mod 256"
    using s by (simp_all add: e EventProps_Size_def EventProps_NumFields_def EventProps_NumAuxFields_def
        NumFieldsShift_def add.commute)
  show "k < length (ed_types d) \<Longrightarrow> fm_type (fst (ed_metas d) ! k) = ed_types d ! k"
    "k < length (ed_types d) \<Longrightarrow> fm_Offset (fst (ed_metas d) ! k) = sizes (take k (ed_types d))"
    "k < length (ed_types d) \<Longrightarrow> fm_Index (fst (ed_metas d) ! k) mod 256 = k mod 256"
    using s by (simp_all add: e)
qed

lemma sizes_take_Suc: "k < length Ts \<Longrightarrow> sizes (take (Suc k) Ts) = sizes (take k Ts) + TFieldType_Size (Ts ! k)"
  by (simp add: take_Suc_conv_app_nth)

lemma sizes_take_mono: "j \<le> k \<Longrightarrow> sizes (take j Ts) \<le> sizes (take k Ts)"
proof -
  assume "j \<le> k"
  then have "take k Ts = take j Ts @ drop j (take k Ts)" by (metis append_take_drop_id min.absorb1 take_take)
  then have "sizes (take k Ts) = sizes (take j Ts) + sizes (drop j (take k Ts))" by (metis sizes_simps(3))
  then show ?thesis by simp
qed

lemma sizes_take_le: "sizes (take k Ts) \<le> sizes Ts"
  by (metis append_take_drop_id le_add1 sizes_simps(3))

lemma aux_field_size: "is_aux_field T \<Longrightarrow> TFieldType_Size T = 0" and plain_field_size: "\<not> is_aux_field T \<Longrightarrow> 0 < TFieldType_Size T"
  by (cases T; simp)+

section \<open>Setting fields\<close>

text \<open>The bytes that the code writes for a value: of a plain field, or the auxiliary data of one.\<close>

definition value_bytes :: "field_type \<Rightarrow> field_value \<Rightarrow> u8 list option" where
  "value_bytes T v =
     (case (T, v) of
        (F_Array U, V_array data num) \<Rightarrow> aux_prefix (array_size num (TFieldType_Size U)) data
      | (F_AnsiString, V_ansi String Length) \<Rightarrow>
          Option.bind (string_length Length String) (\<lambda>n. aux_prefix (string_size n 1) String)
      | (F_AnsiString, V_wide String Length) \<Rightarrow>
          Option.bind (string_length Length String) (\<lambda>n. aux_prefix (string_size n 1) (map (\<lambda>c. ucast (c AND 0x7f)) String))
      | (F_WideString, V_wide String Length) \<Rightarrow>
          Option.bind (string_length Length String) (\<lambda>n. aux_prefix (string_size n sizeof_WIDECHAR) (concat (map le32 String)))
      | (T, V_plain value) \<Rightarrow> if is_aux_field T \<or> length value \<noteq> TFieldType_Size T then None else Some value
      | _ \<Rightarrow> None)"

text \<open>The sizes that the code computes, where they are below the limit.\<close>

lemma array_size_exact:
  assumes "0 \<le> num" "nat num * k < 512 * 1024" "k = 0 \<or> k = 2 ^ j"
  shows "unat (array_size num k) = nat num * k"
proof -
  have lim: "of_nat SizeLimit - 1 = (mask 19 :: u32)"
    by (simp add: SizeLimit_def SizeShift_def FieldShift_def FieldBits_def mask_numeral)
  define n where "n = nat num"
  have num: "num = int n" using assms(1) by (simp add: n_def)
  have w: "of_int num * of_nat k = (of_nat (n * k) :: u32)" by (simp add: num)
  have u: "unat (of_nat (n * k) :: u32) = n * k" unfolding unat_of_nat using assms(2) by (simp add: n_def)
  have m: "(of_nat (n * k) :: u32) AND mask 19 = of_nat (n * k)"
    using assms(2) unfolding take_bit_eq_mask [symmetric] word_unat_eq_iff unsigned_take_bit_eq u
    by (intro take_bit_nat_eq_self) (simp add: n_def)
  have "(of_nat (n * k) :: u32) AND NOT (of_nat k - 1) = of_nat (n * k)"
  proof (cases "k = 0")
    case False
    then have k: "k = 2 ^ j" using assms(3) by simp
    have "(of_nat (n * k) :: u32) = push_bit j (of_nat n)" by (simp add: k push_bit_eq_mult)
    moreover have "of_nat k - 1 = (mask j :: u32)" by (simp add: k mask_eq_exp_minus_1)
    ultimately show ?thesis by (auto intro!: bit_word_eqI simp: bit_simps)
  qed simp
  then show ?thesis unfolding array_size_def w lim and.assoc [symmetric] m by (simp only: u) (simp add: n_def)
qed

lemma string_size_exact:
  assumes "n * k < 512 * 1024"
  shows "unat (string_size (int n) k) = n * k"
proof -
  have lim: "of_nat SizeLimit - 1 = (mask 19 :: u32)"
    by (simp add: SizeLimit_def SizeShift_def FieldShift_def FieldBits_def mask_numeral)
  have u: "unat (of_nat (n * k) :: u32) = n * k" unfolding unat_of_nat using assms by simp
  have m: "(of_nat (n * k) :: u32) AND mask 19 = of_nat (n * k)"
    using assms unfolding take_bit_eq_mask [symmetric] word_unat_eq_iff unsigned_take_bit_eq u
    by (intro take_bit_nat_eq_self) simp
  have w: "of_int (int n) * of_nat k = (of_nat (n * k) :: u32)" by simp
  show ?thesis unfolding string_size_def w lim m by (rule u)
qed

text \<open>
  What a reader should see of a value, said of the data alone: an array of num elements and a
  string of Length characters, or up to its ending zero when Length is negative, are their bytes,
  where they are fewer than 512 KiB; narrowed characters keep their lower seven bits.
\<close>

definition string_meant :: "int \<Rightarrow> 'c::zero list \<Rightarrow> 'c list option" where
  "string_meant Length String =
     (if Length < 0 then if 0 \<in> set String then Some (takeWhile (\<lambda>c. c \<noteq> 0) String) else None
      else if nat Length \<le> length String then Some (take (nat Length) String) else None)"

definition data_meant :: "u8 list \<Rightarrow> u8 list option" where
  "data_meant data = (if length data < 512 * 1024 then Some data else None)"

definition value_meant :: "field_type \<Rightarrow> field_value \<Rightarrow> u8 list option" where
  "value_meant T v =
     (case (T, v) of
        (F_Array U, V_array data num) \<Rightarrow>
          if 0 \<le> num \<and> nat num * TFieldType_Size U \<le> length data then data_meant (take (nat num * TFieldType_Size U) data) else None
      | (F_AnsiString, V_ansi String Length) \<Rightarrow> Option.bind (string_meant Length String) data_meant
      | (F_AnsiString, V_wide String Length) \<Rightarrow>
          Option.bind (string_meant Length String) (\<lambda>cs. data_meant (map (\<lambda>c. ucast (take_bit 7 c)) cs))
      | (F_WideString, V_wide String Length) \<Rightarrow>
          Option.bind (string_meant Length String) (\<lambda>cs. data_meant (concat (map le32 cs)))
      | (T, V_plain value) \<Rightarrow> if is_aux_field T \<or> length value \<noteq> TFieldType_Size T then None else Some value
      | _ \<Rightarrow> None)"

lemma strlen_takeWhile:
  "strlen String = (if 0 \<in> set String then Some (length (takeWhile (\<lambda>c. c \<noteq> 0) String)) else None)"
  by (induction String) auto

lemma string_meant_length:
  assumes "string_meant Length String = Some cs"
  shows "string_length Length String = Some (int (length cs)) \<and> cs = take (length cs) String \<and> length cs \<le> length String"
  using assms takeWhile_eq_take [of "\<lambda>c. c \<noteq> 0" String] length_takeWhile_le [of "\<lambda>c. c \<noteq> 0" String]
  by (auto simp: string_meant_def string_length_def strlen_takeWhile split: if_splits)

lemma aux_prefix_string:
  assumes "data_meant (take (n * k) data) = Some bytes" "n * k \<le> length data"
  shows "aux_prefix (string_size (int n) k) data = Some bytes"
proof -
  have "n * k < 512 * 1024" "bytes = take (n * k) data" using assms by (auto simp: data_meant_def split: if_splits)
  then show ?thesis using assms(2) string_size_exact [of n k] by (simp add: aux_prefix_def)
qed

lemma field_size_power: "TFieldType_Size T = 0 \<or> (\<exists>j. TFieldType_Size T = 2 ^ j)"
proof -
  have "TFieldType_Size T \<in> {0, 2 ^ 0, 2 ^ 1, 2 ^ 2, 2 ^ 3}" by (cases T) simp_all
  then show ?thesis by blast
qed

lemma concat_le32_take: "n \<le> length cs \<Longrightarrow> take (n * 4) (concat (map le32 cs)) = concat (map le32 (take n cs))"
proof (induction n arbitrary: cs)
  case (Suc n)
  then obtain c cs' where "cs = c # cs'" by (cases cs) auto
  with Suc show ?case by simp
qed simp

lemma concat_le32_length [simp]: "length (concat (map le32 cs)) = length cs * 4"
  by (induction cs) simp_all

lemma data_meant_Some [simp]: "data_meant d = Some b \<longleftrightarrow> b = d \<and> length d < 512 * 1024"
  by (auto simp: data_meant_def)

lemma string_meant_bytes:
  assumes "string_meant Length String = Some cs" "f (take (length cs) String) = bytes" "length bytes < 512 * 1024"
    and "f (take (length cs) String) = take (length cs * k) (f String)" "length cs * k \<le> length (f String)"
  shows "Option.bind (string_length Length String) (\<lambda>n. aux_prefix (string_size n k) (f String)) = Some bytes"
  using string_meant_length [OF assms(1)] assms(2-) aux_prefix_string [of "length cs" k "f String" bytes] by simp

lemma narrow_char: "take_bit 7 c = c AND 0x7f" for c :: u32
  by (simp add: take_bit_eq_mask mask_numeral)

lemma value_meant_bytes:
  assumes "value_meant T v = Some bytes"
  shows "value_bytes T v = Some bytes"
proof (cases v)
  case (V_plain pl)
  then show ?thesis using assms by (cases T) (simp_all add: value_meant_def value_bytes_def)
next
  case (V_array data num)
  obtain U where T: "T = F_Array U" using assms by (cases T) (simp_all add: value_meant_def V_array)
  let ?n = "nat num * TFieldType_Size U"
  have b: "0 \<le> num" "?n \<le> length data" "bytes = take ?n data" "?n < 512 * 1024"
    using assms by (auto simp: value_meant_def V_array T split: if_splits)
  obtain j where "TFieldType_Size U = 0 \<or> TFieldType_Size U = 2 ^ j" using field_size_power by blast
  from array_size_exact [OF b(1,4) this] b show ?thesis by (simp add: value_bytes_def V_array T aux_prefix_def)
next
  case (V_ansi String Length)
  have T: "T = F_AnsiString" using assms by (cases T) (simp_all add: value_meant_def V_ansi)
  obtain cs where cs: "string_meant Length String = Some cs" "bytes = cs" "length cs < 512 * 1024"
    using assms by (auto simp: value_meant_def V_ansi T bind_eq_Some_conv)
  note l = string_meant_length [OF cs(1)]
  show ?thesis
    using string_meant_bytes [OF cs(1), of "\<lambda>x. x" bytes 1] l cs(2,3) by (simp add: value_bytes_def V_ansi T)
next
  case (V_wide String Length)
  consider "T = F_AnsiString" | "T = F_WideString" using assms by (cases T) (simp_all add: value_meant_def V_wide)
  then show ?thesis
  proof cases
    case 1
    let ?f = "map (\<lambda>c :: u32. ucast (c AND 0x7f) :: u8)"
    obtain cs where cs: "string_meant Length String = Some cs" "bytes = ?f cs" "length cs < 512 * 1024"
      using assms by (auto simp: value_meant_def V_wide 1 bind_eq_Some_conv narrow_char)
    note l = string_meant_length [OF cs(1)]
    have "?f (take (length cs) String) = bytes" using l cs(2) by metis
    then show ?thesis
      using string_meant_bytes [OF cs(1), of ?f bytes 1] l cs(2,3) by (simp add: value_bytes_def V_wide 1 take_map)
  next
    case 2
    let ?f = "\<lambda>cs. concat (map le32 cs)"
    obtain cs where cs: "string_meant Length String = Some cs" "bytes = ?f cs" "length (?f cs) < 512 * 1024"
      using assms unfolding value_meant_def V_wide 2 by (auto simp: bind_eq_Some_conv)
    note l = string_meant_length [OF cs(1)]
    have "?f (take (length cs) String) = bytes" using l cs(2) by metis
    then show ?thesis
      using string_meant_bytes [OF cs(1), of ?f bytes 4] l cs(2,3)
      by (simp add: value_bytes_def V_wide 2 concat_le32_take sizeof_WIDECHAR_def)
  qed
qed

lemma FFieldSet_value:
  "FFieldSet env t sc fm v s =
     (case value_bytes (fm_type fm) v of None \<Rightarrow> None
      | Some bytes \<Rightarrow>
          if is_aux_field (fm_type fm) then Field_WriteAuxData env t (fm_Index fm mod 256) bytes s
          else Some (store_at (Buffer sc) (Ptr sc + int (fm_Offset fm)) bytes s))"
  by (cases "fm_type fm"; cases v)
    (simp_all add: FFieldSet_def value_bytes_def Field_WriteStringAnsi_def Field_WriteStringAnsi_wide_def
      Field_WriteStringWide_def NumFieldsShift_def Let_def split: option.splits Option.bind_splits)

lemma aux_prefix_length:
  assumes "aux_prefix Size data = Some bytes" and "Size AND (of_nat SizeLimit - 1) = Size"
  shows "length bytes < 2 ^ 19"
proof -
  have l: "length bytes = unat Size" using assms(1) by (auto simp: aux_prefix_def split: if_splits)
  have "of_nat SizeLimit - 1 = (0x7ffff :: u32)" by (simp add: SizeLimit_def SizeShift_def FieldShift_def FieldBits_def)
  then have "Size \<le> 0x7ffff" using assms(2) by (metis word_and_le1)
  then have "unat Size \<le> unat (0x7ffff :: u32)" by (simp only: word_le_nat_alt)
  then show ?thesis by (simp add: l)
qed

lemma value_bytes_length:
  assumes "value_bytes T v = Some bytes"
  shows "if is_aux_field T then length bytes < 2 ^ 19 else length bytes = TFieldType_Size T"
proof -
  have a: "length bytes < 2 ^ 19" if "aux_prefix (array_size n k) data = Some bytes" for n k data
    using that by (rule aux_prefix_length) (simp add: array_size_def and.assoc and.commute and.left_commute)
  have b: "length bytes < 2 ^ 19" if "aux_prefix (string_size n k) data = Some bytes" for n k data
    using that by (rule aux_prefix_length) (simp add: string_size_def and.assoc)
  show ?thesis
    using assms by (cases T; cases v) (auto simp: value_bytes_def dest: a b split: if_splits Option.bind_splits)
qed

text \<open>The effect of a list of settings: patches of the fields, and auxiliary data by field.\<close>

definition field_bytes :: "event_decl \<Rightarrow> nat \<Rightarrow> field_value \<Rightarrow> u8 list" where
  "field_bytes d k v = the (value_bytes (ed_types d ! k) v)"

definition set_ok :: "event_decl \<Rightarrow> (nat \<times> field_value) list \<Rightarrow> bool" where
  "set_ok d kvs \<longleftrightarrow> list_all (\<lambda>(k, v). k < length (ed_types d) \<and> value_bytes (ed_types d ! k) v \<noteq> None) kvs"

definition set_plain :: "event_decl \<Rightarrow> (nat \<times> field_value) list \<Rightarrow> u8 list \<Rightarrow> u8 list" where
  "set_plain d kvs pay = fold (\<lambda>(k, v) p. if is_aux_field (ed_types d ! k) then p
     else patch p (sizes (take k (ed_types d))) (field_bytes d k v)) kvs pay"

definition aux_of :: "nat \<Rightarrow> (nat \<times> u8 list) list \<Rightarrow> u8 list" where
  "aux_of i frs = concat (map snd (filter (\<lambda>f. fst f = i) frs))"

lemma set_plain_Cons: "set_plain d ((k, v) # kvs) pay = set_plain d kvs (if is_aux_field (ed_types d ! k) then pay
     else patch pay (sizes (take k (ed_types d))) (field_bytes d k v))"
  by (simp add: set_plain_def)

lemma frags_bytes_append [simp]: "frags_bytes (as @ bs) = frags_bytes as @ frags_bytes bs"
  by (simp add: frags_bytes_def)

lemma frags_bytes_one: "frags_bytes (map (Pair i) ds) = concat (map (fragment i) ds)"
  by (simp add: frags_bytes_def comp_def)

lemma aux_of_append [simp]: "aux_of i (as @ bs) = aux_of i as @ aux_of i bs"
  by (simp add: aux_of_def)

lemma aux_of_one: "aux_of j (map (Pair i) ds) = (if j = i then concat ds else [])"
  by (simp add: aux_of_def filter_map comp_def)

definition settings_of :: "event_decl \<Rightarrow> nat \<Rightarrow> (nat \<times> field_value) list \<Rightarrow> u8 list" where
  "settings_of d i kvs = concat (map (\<lambda>(k, v). if is_aux_field (ed_types d ! k) \<and> k = i then field_bytes d k v else []) kvs)"


lemma settings_of_Cons: "settings_of d i ((k, v) # kvs) =
    (if is_aux_field (ed_types d ! k) \<and> k = i then field_bytes d k v else []) @ settings_of d i kvs"
  by (simp add: settings_of_def)

lemma set_fields_open:
  assumes "open_event s t bs a later c0 ptr (EventProps_Size d) pre pay (frags_bytes frs0)"
    and "blocks_ok env s n (bs @ a # later)" and n: "1 \<le> n" and "set_ok d kvs" and l: "length (ed_types d) \<le> 32"
    and sc: "sc = \<lparr>Ptr = ptr, Buffer = a\<rparr>" and "frags_ok frs0"
  shows "\<exists>s' later' frs. set_fields env t d sc kvs s = Some s' \<and>
    open_event s' t bs a (later @ later') c0 ptr (EventProps_Size d) pre (set_plain d kvs pay) (frags_bytes (frs0 @ frs)) \<and>
    blocks_ok env s' n (bs @ a # later @ later') \<and> frags_ok (frs0 @ frs) \<and>
    (\<forall>i. aux_of i frs = settings_of d i kvs) \<and>
    (\<not> list_ex is_aux_field (ed_types d) \<longrightarrow> frs = [] \<and> later' = []) \<and>
    thread_time s' t = thread_time s t \<and> GLogSerial s' = GLogSerial s"
  using assms(1,2,4,7)
proof (induction kvs arbitrary: s later pay frs0)
  case Nil
  then show ?case
    by (intro exI [of _ s] exI [of _ "[]"]) (simp add: set_plain_def settings_of_def aux_of_def)
next
  case (Cons kv kvs)
  obtain k v where kv: "kv = (k, v)" by (cases kv)
  have k: "k < length (ed_types d)" and vb: "value_bytes (ed_types d ! k) v \<noteq> None" and ok: "set_ok d kvs"
    using Cons.prems(3) by (auto simp: set_ok_def kv)
  then obtain bytes where vb: "value_bytes (ed_types d ! k) v = Some bytes" by auto
  have fb: "field_bytes d k v = bytes" by (simp add: field_bytes_def vb)
  note vl = value_bytes_length [OF vb]
  let ?fm = "fst (ed_metas d) ! k"
  have fm: "fm_type ?fm = ed_types d ! k" "fm_Offset ?fm = sizes (take k (ed_types d))" "fm_Index ?fm mod 256 = k"
    using ed_metas_spec(5-7) [OF k] k l by simp_all
  have ld: "load (fst (ed_metas d)) k = Some ?fm" using k by (simp add: load_def ed_metas_spec(1))
  show ?case
  proof (cases "is_aux_field (ed_types d ! k)")
    case False
    have "sizes (take k (ed_types d)) + length bytes \<le> EventProps_Size d"
      using vl False sizes_take_Suc [OF k] sizes_take_le [of "Suc k" "ed_types d"] by (simp add: ed_metas_spec(2))
    from store_field [OF Cons.prems(1) this]
    have ev: "open_event (store_at a (ptr + int (sizes (take k (ed_types d)))) bytes s) t bs a later c0 ptr (EventProps_Size d) pre
        (patch pay (sizes (take k (ed_types d))) bytes) (frags_bytes frs0)" .
    have st: "set_fields env t d sc ((k, v) # kvs) s =
        set_fields env t d sc kvs (store_at a (ptr + int (sizes (take k (ed_types d)))) bytes s)"
      using False by (simp add: ld FFieldSet_value fm vb sc)
    show ?thesis
      using Cons.IH [OF ev _ ok Cons.prems(4)] Cons.prems(2) False
      unfolding kv st by (simp add: set_plain_Cons settings_of_Cons fb)
  next
    case True
    obtain s1 l1 ds where w: "Field_WriteAuxData env t k bytes s = Some s1"
        "open_event s1 t bs a (later @ l1) c0 ptr (EventProps_Size d) pre pay (frags_bytes frs0 @ concat (map (fragment k) ds))"
        "blocks_ok env s1 n (bs @ a # later @ l1)" "concat ds = bytes" "[] \<notin> set ds"
        "thread_time s1 t = thread_time s t" "GLogSerial s1 = GLogSerial s"
      using Field_WriteAuxData_fragments [OF Cons.prems(1,2) n, of k bytes] by blast
    have st: "set_fields env t d sc ((k, v) # kvs) s = set_fields env t d sc kvs s1"
      using True by (simp add: ld FFieldSet_value fm vb w(1))
    have "length x < 2 ^ 19" if "x \<in> set ds" for x
    proof -
      have "length x \<le> length (concat ds)" using that by (auto simp: length_concat intro: member_le_sum_list)
      then show ?thesis using w(4) vl True by simp
    qed
    then have fo: "frags_ok (frs0 @ map (Pair k) ds)"
      using Cons.prems(4) k l by (auto simp: frags_ok_def list_all_iff)
    have ev: "open_event s1 t bs a (later @ l1) c0 ptr (EventProps_Size d) pre pay (frags_bytes (frs0 @ map (Pair k) ds))"
      using w(2) by (simp add: frags_bytes_one)
    have bl: "blocks_ok env s1 n (bs @ a # later @ l1)" by (rule w(3))
    obtain s' l2 frs where ih: "set_fields env t d sc kvs s1 = Some s'"
        "open_event s' t bs a ((later @ l1) @ l2) c0 ptr (EventProps_Size d) pre (set_plain d kvs pay) (frags_bytes ((frs0 @ map (Pair k) ds) @ frs))"
        "blocks_ok env s' n (bs @ a # (later @ l1) @ l2)" "frags_ok ((frs0 @ map (Pair k) ds) @ frs)"
        "\<forall>i. aux_of i frs = settings_of d i kvs" "thread_time s' t = thread_time s1 t" "GLogSerial s' = GLogSerial s1"
      using Cons.IH [OF ev _ ok fo] bl by auto
    have ex: "list_ex is_aux_field (ed_types d)" using True k by (auto simp: list_ex_iff)
    show ?thesis
      unfolding kv st using ih w(4,6,7) True ex
      by (intro exI [of _ s'] exI [of _ "l1 @ l2"] exI [of _ "map (Pair k) ds @ frs"])
        (simp add: set_plain_Cons settings_of_Cons fb aux_of_one)
  qed
qed

section \<open>A whole statement\<close>

lemma flags_has_aux:
  assumes "length (ed_types d) \<le> 32" and "list_ex is_aux_field (ed_types d)"
  shows "EventFlags d AND Flag_MaybeHasAux \<noteq> 0"
proof -
  have "filter is_aux_field (ed_types d) \<noteq> []" using assms(2) by (auto simp: list_ex_iff filter_empty_conv)
  then have "0 < auxs (ed_types d)" by (simp add: auxs_def)
  moreover have "auxs (ed_types d) \<le> 32" using assms(1) by (simp add: auxs_def order.trans [OF length_filter_le])
  ultimately have "EventProps_NumAuxFields d \<noteq> 0" using assms(1) by (simp add: ed_metas_spec(4))
  then have "bit (EventFlags d AND Flag_MaybeHasAux) 1"
    by (simp add: EventFlags_def Flag_MaybeHasAux_def bit_simps bit_numeral_rec)
  then show ?thesis by (metis bit_0_eq bot_apply bot_bool_def)
qed

definition log_ok :: "nat \<Rightarrow> event_decl \<Rightarrow> (nat \<times> field_value) list \<Rightarrow> bool" where
  "log_ok m d kvs \<longleftrightarrow> header_size (EventFlags d) + EventProps_Size d \<le> m \<and> set_ok d kvs \<and> distinct (map fst kvs) \<and>
     length (ed_types d) \<le> NumFieldsMax"

lemma UE_TRACE_LOG_stream:
  assumes ok: "thread_log s t bs" and blk: "blocks_ok env s m bs" and lg: "log_ok m d kvs"
  shows "\<exists>s' new pay frs. UE_TRACE_LOG env t d Uid True kvs s = Some s' \<and> thread_log s' t (bs @ new) \<and>
    blocks_ok env s' m (bs @ new) \<and>
    stream s' (bs @ new) = stream s bs @ event_header (EventFlags d) Uid (GLogSerial s) @ set_plain d kvs pay @
      frags_bytes frs @ (if EventFlags d AND Flag_MaybeHasAux \<noteq> 0 then [6] else []) \<and>
    length pay = EventProps_Size d \<and> length (set_plain d kvs pay) = EventProps_Size d \<and> frags_ok frs \<and>
    (\<forall>i. aux_of i frs = settings_of d i kvs) \<and> (EventFlags d AND Flag_MaybeHasAux = 0 \<longrightarrow> frs = []) \<and>
    thread_time s' t = thread_time s t \<and> GLogSerial s' = serial_after (EventFlags d) (GLogSerial s)"
proof -
  have lg': "header_size (EventFlags d) + EventProps_Size d \<le> m" "set_ok d kvs" "length (ed_types d) \<le> 32"
    using lg by (simp_all add: log_ok_def NumFieldsMax_def FieldBits_def)
  have m: "1 \<le> m" using lg'(1) by (simp add: header_size_def sizeof_FEventHeader_def sizeof_FEventHeaderSync_def split: if_splits)
  obtain sc s1 bs1 new1 pay where e: "FLogScope_EnterImpl env t (EventFlags d) Uid (EventProps_Size d) s = (sc, s1)"
      "open_event s1 t bs1 (Buffer sc) [] (Ptr sc - int (header_size (EventFlags d))) (Ptr sc) (EventProps_Size d)
        (stream s bs @ event_header (EventFlags d) Uid (GLogSerial s)) pay []"
      "bs @ new1 = bs1 @ [Buffer sc]" "blocks_ok env s1 m (bs @ new1)" "thread_time s1 t = thread_time s t"
      "GLogSerial s1 = serial_after (EventFlags d) (GLogSerial s)"
    using EnterImpl_open [OF ok blk lg'(1), of Uid] by blast
  have fb: "frags_bytes [] = []" "frags_ok []" by (simp_all add: frags_bytes_def frags_ok_def)
  have sc: "sc = \<lparr>Ptr = Ptr sc, Buffer = Buffer sc\<rparr>" by simp
  obtain s2 later frs where f: "set_fields env t d sc kvs s1 = Some s2"
      "open_event s2 t bs1 (Buffer sc) later (Ptr sc - int (header_size (EventFlags d))) (Ptr sc) (EventProps_Size d)
        (stream s bs @ event_header (EventFlags d) Uid (GLogSerial s)) (set_plain d kvs pay) (frags_bytes frs)"
      "blocks_ok env s2 m (bs1 @ Buffer sc # later)" "frags_ok frs" "\<forall>i. aux_of i frs = settings_of d i kvs"
      "\<not> list_ex is_aux_field (ed_types d) \<longrightarrow> frs = [] \<and> later = []"
      "thread_time s2 t = thread_time s1 t" "GLogSerial s2 = GLogSerial s1"
    using set_fields_open [OF e(2) [folded fb(1)] _ m lg'(2,3) sc fb(2), of env] e(3,4) by auto
  define ma where "ma = (EventFlags d AND Flag_MaybeHasAux \<noteq> 0)"
  have no: "later = [] \<and> frs = []" if "\<not> ma" using that f(6) flags_has_aux [OF lg'(3)] by (auto simp: ma_def)
  have no': "\<not> ma \<Longrightarrow> later = []" using no by blast
  obtain s3 where g: "log_scope_end t ma sc s2 = Some s3" "thread_log s3 t (bs1 @ Buffer sc # later)"
      "stream s3 (bs1 @ Buffer sc # later) = (stream s bs @ event_header (EventFlags d) Uid (GLogSerial s)) @
        set_plain d kvs pay @ frags_bytes frs @ (if ma then [6] else [])"
      "blocks_ok env s3 m (bs1 @ Buffer sc # later)" "thread_time s3 t = thread_time s2 t" "GLogSerial s3 = GLogSerial s2"
    using log_scope_end_log [OF f(2) refl no'] f(3) by blast
  have st: "UE_TRACE_LOG env t d Uid True kvs s = Some s3"
    using g(1) by (simp add: UE_TRACE_LOG_def e(1) f(1) ma_def)
  have ch: "bs1 @ Buffer sc # later = bs @ new1 @ later" using e(3) by simp
  show ?thesis
    using g f(4,5,7,8) e(5,6) no open_event_pay [OF e(2)] open_event_pay [OF f(2)]
    by (intro exI [of _ s3] exI [of _ "new1 @ later"] exI [of _ pay] exI [of _ frs]) (simp add: st ch ma_def)
qed

section \<open>The fields that are read\<close>

lemma patch_get: "off + length v \<le> length p \<Longrightarrow> take (length v) (drop off (patch p off v)) = v"
  by (simp add: patch_def)

lemma patch_length: "off + length v \<le> length p \<Longrightarrow> length (patch p off v) = length p"
  by (simp add: patch_def)

lemma patch_other:
  assumes "off + length v \<le> length p" and "i + n \<le> off \<or> off + length v \<le> i"
  shows "take n (drop i (patch p off v)) = take n (drop i p)"
  using assms(2)
proof
  assume "i + n \<le> off"
  then show ?thesis
    using assms(1) by (intro nth_equalityI) (auto simp: patch_def nth_append)
next
  assume "off + length v \<le> i"
  then have "drop i (patch p off v) = drop i p" using assms(1) by (simp add: patch_def)
  then show ?thesis by simp
qed

lemma slots_apart:
  assumes "j \<noteq> k" and "j < length Ts" and "k < length Ts"
  shows "sizes (take j Ts) + TFieldType_Size (Ts ! j) \<le> sizes (take k Ts) \<or>
    sizes (take k Ts) + TFieldType_Size (Ts ! k) \<le> sizes (take j Ts)"
proof (cases "j < k")
  case True
  then show ?thesis using sizes_take_mono [of "Suc j" k Ts] sizes_take_Suc [OF assms(2)] by simp
next
  case False
  then show ?thesis using assms sizes_take_mono [of "Suc k" j Ts] sizes_take_Suc [OF assms(3)] by simp
qed

lemma slot_inside: "k < length Ts \<Longrightarrow> sizes (take k Ts) + TFieldType_Size (Ts ! k) \<le> sizes Ts"
  using sizes_take_Suc [of k Ts] sizes_take_le [of "Suc k" Ts] by simp

lemma field_bytes_length:
  "value_bytes (ed_types d ! k) v \<noteq> None \<Longrightarrow> \<not> is_aux_field (ed_types d ! k) \<Longrightarrow>
    length (field_bytes d k v) = TFieldType_Size (ed_types d ! k)"
proof -
  assume "value_bytes (ed_types d ! k) v \<noteq> None" and na: "\<not> is_aux_field (ed_types d ! k)"
  then obtain y where y: "value_bytes (ed_types d ! k) v = Some y" by auto
  show "length (field_bytes d k v) = TFieldType_Size (ed_types d ! k)"
    using value_bytes_length [OF y] na by (simp add: field_bytes_def y)
qed

lemma set_plain_other:
  assumes "set_ok d kvs" and "k \<notin> fst ` set kvs" and "k < length (ed_types d)" and "length pay = sizes (ed_types d)"
  shows "take (TFieldType_Size (ed_types d ! k)) (drop (sizes (take k (ed_types d))) (set_plain d kvs pay)) =
    take (TFieldType_Size (ed_types d ! k)) (drop (sizes (take k (ed_types d))) pay)"
  using assms
proof (induction kvs arbitrary: pay)
  case Nil
  then show ?case by (simp add: set_plain_def)
next
  case (Cons kv kvs)
  obtain j v where kv: "kv = (j, v)" by (cases kv)
  have j: "j < length (ed_types d)" "value_bytes (ed_types d ! j) v \<noteq> None" "set_ok d kvs" "k \<noteq> j" "k \<notin> fst ` set kvs"
    using Cons.prems by (auto simp: set_ok_def kv)
  show ?case
  proof (cases "is_aux_field (ed_types d ! j)")
    case True
    then show ?thesis using Cons.IH [OF j(3,5) Cons.prems(3,4)] by (simp add: kv set_plain_Cons)
  next
    case False
    note fl = field_bytes_length [OF j(2) False]
    have fit: "sizes (take j (ed_types d)) + length (field_bytes d j v) \<le> length pay"
      using slot_inside [OF j(1)] Cons.prems(4) by (simp add: fl)
    have "length (patch pay (sizes (take j (ed_types d))) (field_bytes d j v)) = sizes (ed_types d)"
      using patch_length [OF fit] Cons.prems(4) by simp
    from Cons.IH [OF j(3,5) Cons.prems(3) this] show ?thesis
      using False patch_other [OF fit, of "sizes (take k (ed_types d))" "TFieldType_Size (ed_types d ! k)"]
        slots_apart [OF j(4) Cons.prems(3) j(1)] by (simp add: kv set_plain_Cons fl)
  qed
qed

lemma set_plain_get:
  assumes "set_ok d kvs" and "distinct (map fst kvs)" and "(k, v) \<in> set kvs" and "\<not> is_aux_field (ed_types d ! k)"
    and "length pay = sizes (ed_types d)"
  shows "take (TFieldType_Size (ed_types d ! k)) (drop (sizes (take k (ed_types d))) (set_plain d kvs pay)) = field_bytes d k v"
  using assms
proof (induction kvs arbitrary: pay)
  case (Cons kv kvs)
  obtain j w where kv: "kv = (j, w)" by (cases kv)
  have j: "j < length (ed_types d)" "value_bytes (ed_types d ! j) w \<noteq> None" "set_ok d kvs" "j \<notin> fst ` set kvs" "distinct (map fst kvs)"
    using Cons.prems by (auto simp: set_ok_def kv)
  let ?p = "if is_aux_field (ed_types d ! j) then pay else patch pay (sizes (take j (ed_types d))) (field_bytes d j w)"
  have fit: "sizes (take j (ed_types d)) + length (field_bytes d j w) \<le> length pay" if "\<not> is_aux_field (ed_types d ! j)"
    using slot_inside [OF j(1)] Cons.prems(5) by (simp add: field_bytes_length [OF j(2) that])
  have pl: "length ?p = sizes (ed_types d)" 
  proof (cases "is_aux_field (ed_types d ! j)")
    case False
    then show ?thesis using patch_length [OF fit [OF False]] Cons.prems(5) by simp
  qed (simp add: Cons.prems(5))
  show ?case
  proof (cases "(k, v) = (j, w)")
    case True
    then have na: "\<not> is_aux_field (ed_types d ! j)" using Cons.prems(4) by simp
    have "take (TFieldType_Size (ed_types d ! j)) (drop (sizes (take j (ed_types d))) ?p) = field_bytes d j w"
      using patch_get [OF fit [OF na]] na by (simp add: field_bytes_length [OF j(2) na])
    then show ?thesis
      using True set_plain_other [OF j(3,4,1) pl] by (simp add: kv set_plain_Cons)
  next
    case False
    then have "(k, v) \<in> set kvs" using Cons.prems(3) by (auto simp: kv)
    from Cons.IH [OF j(3,5) this Cons.prems(4) pl] show ?thesis by (simp add: kv set_plain_Cons)
  qed
qed simp

lemma settings_of_get:
  assumes "distinct (map fst kvs)" and "(k, v) \<in> set kvs" and "is_aux_field (ed_types d ! k)"
  shows "settings_of d k kvs = field_bytes d k v"
  using assms
proof (induction kvs)
  case (Cons kv kvs)
  obtain j w where kv: "kv = (j, w)" by (cases kv)
  have none: "settings_of d k kvs = []" if "k \<notin> fst ` set kvs" for k
    using that by (force simp: settings_of_def)
  show ?case
  proof (cases "(k, v) = (j, w)")
    case True
    then show ?thesis using Cons.prems none [of j] by (auto simp: kv settings_of_Cons image_iff)
  next
    case False
    then have "(k, v) \<in> set kvs" using Cons.prems(2) by (auto simp: kv)
    moreover from this have "k \<noteq> j" using Cons.prems(1) by (force simp: kv)
    ultimately show ?thesis using Cons by (simp add: kv settings_of_Cons)
  qed
qed simp

text \<open>A field of the event that is read has the value that the statement gave it.\<close>

definition field_read_ok :: "event_decl \<Rightarrow> u8 list \<Rightarrow> (nat \<times> u8 list) list \<Rightarrow> nat \<times> field_value \<Rightarrow> bool" where
  "field_read_ok d pay frs kv \<longleftrightarrow>
     (let (k, v) = kv; T = ed_types d ! k in
      if is_aux_field T then Some (aux_of k frs) = value_meant T v
      else Some (take (TFieldType_Size T) (drop (sizes (take k (ed_types d))) pay)) = value_meant T v)"

text \<open>Every setting has such a value, by the data alone.\<close>

definition set_meant :: "event_decl \<Rightarrow> (nat \<times> field_value) list \<Rightarrow> bool" where
  "set_meant d kvs \<longleftrightarrow> list_all (\<lambda>(k, v). value_meant (ed_types d ! k) v \<noteq> None) kvs"

lemma fields_read_ok:
  assumes "log_ok m d kvs" and "length pay = EventProps_Size d" and "\<forall>i. aux_of i frs = settings_of d i kvs"
    and "set_meant d kvs"
  shows "list_all (field_read_ok d (set_plain d kvs pay) frs) kvs"
  unfolding list_all_iff
proof
  fix kv assume kv: "kv \<in> set kvs"
  obtain k v where e: "kv = (k, v)" by (cases kv)
  have o: "set_ok d kvs" "distinct (map fst kvs)" using assms(1) by (simp_all add: log_ok_def)
  obtain y where y: "value_meant (ed_types d ! k) v = Some y"
    using assms(4) kv by (auto simp: set_meant_def list_all_iff e)
  have b: "Some (field_bytes d k v) = value_meant (ed_types d ! k) v"
    using value_meant_bytes [OF y] y by (simp add: field_bytes_def)
  show "field_read_ok d (set_plain d kvs pay) frs kv"
    using set_plain_get [OF o, of k v pay] settings_of_get [OF o(2), of k v d] kv assms(2,3) b
    by (simp add: e field_read_ok_def ed_metas_spec(2))
qed

section \<open>The statements of a thread\<close>

datatype log_action = A_log event_decl u32 "(nat \<times> field_value) list" | A_enter | A_leave | A_enter_T u64 | A_leave_T u64

fun run_action :: "(nat \<Rightarrow> new_block) \<Rightarrow> nat \<Rightarrow> log_action \<Rightarrow> log_state \<Rightarrow> log_state option" where
  "run_action env t (A_log d Uid kvs) s = UE_TRACE_LOG env t d Uid True kvs s"
| "run_action env t A_enter s = Some (FLogScope_ScopedEnter env t s)"
| "run_action env t A_leave s = Some (FScopedLogScope_leave env t True s)"
| "run_action env t (A_enter_T now) s = Some (FLogScope_ScopedStampedEnter env t now s)"
| "run_action env t (A_leave_T now) s = FScopedStampedLogScope_leave env t True now s"

fun run_actions :: "(nat \<Rightarrow> new_block) \<Rightarrow> nat \<Rightarrow> log_action list \<Rightarrow> log_state \<Rightarrow> log_state option" where
  "run_actions env t [] s = Some s"
| "run_actions env t (a # as) s = do { s \<leftarrow> run_action env t a s; run_actions env t as s }"

text \<open>
  What the statements rely on: events that fit a fresh block, array and string data of less than
  512 KiB, descriptions known to the reader,
  and fewer than 2 to the 56 ticks between two stamps, which is all that a stamp can hold.
\<close>

fun time_after :: "log_action \<Rightarrow> u64 \<Rightarrow> u64" where
  "time_after (A_enter_T now) base = now"
| "time_after (A_leave_T now) base = now"
| "time_after _ base = base"

fun serial_next :: "log_action \<Rightarrow> u32 \<Rightarrow> u32" where
  "serial_next (A_log d Uid kvs) ser = serial_after (EventFlags d) ser"
| "serial_next _ ser = ser"

fun action_ok :: "nat \<Rightarrow> (u16 \<Rightarrow> event_type option) \<Rightarrow> u64 \<Rightarrow> log_action \<Rightarrow> bool" where
  "action_ok m types base (A_log d Uid kvs) \<longleftrightarrow> log_ok m d kvs \<and> set_meant d kvs \<and> types (event_uid Uid) = Some (type_of_event d)"
| "action_ok m types base (A_enter_T now) \<longleftrightarrow> now - base < 2 ^ 56"
| "action_ok m types base (A_leave_T now) \<longleftrightarrow> now - base < 2 ^ 56"
| "action_ok m types base _ \<longleftrightarrow> True"

fun actions_ok :: "nat \<Rightarrow> (u16 \<Rightarrow> event_type option) \<Rightarrow> u64 \<Rightarrow> log_action list \<Rightarrow> bool" where
  "actions_ok m types base [] \<longleftrightarrow> True"
| "actions_ok m types base (a # as) \<longleftrightarrow> action_ok m types base a \<and> actions_ok m types (time_after a base) as"

text \<open>
  What the items that are read must say, with the time of the last stamp and the serial number
  before them: stamps add up to the times of the statements.
\<close>

fun item_means :: "u64 \<Rightarrow> u32 \<Rightarrow> log_action \<Rightarrow> log_item \<Rightarrow> bool" where
  "item_means base ser (A_log d Uid kvs) (I_event u sn pay frs) \<longleftrightarrow>
     u = event_uid Uid \<and> sn = event_serial (EventFlags d) ser \<and> length pay = EventProps_Size d \<and>
     list_all (field_read_ok d pay frs) kvs"
| "item_means base ser A_enter I_enter \<longleftrightarrow> True"
| "item_means base ser A_leave I_leave \<longleftrightarrow> True"
| "item_means base ser (A_enter_T now) (I_enter_T dt) \<longleftrightarrow> base + dt = now"
| "item_means base ser (A_leave_T now) (I_leave_T dt) \<longleftrightarrow> base + dt = now"
| "item_means _ _ _ _ \<longleftrightarrow> False"

fun items_mean :: "u64 \<Rightarrow> u32 \<Rightarrow> log_action list \<Rightarrow> log_item list \<Rightarrow> bool" where
  "items_mean base ser [] [] \<longleftrightarrow> True"
| "items_mean base ser (a # as) (i # is) \<longleftrightarrow>
     item_means base ser a i \<and> items_mean (time_after a base) (serial_next a ser) as is"
| "items_mean _ _ _ _ \<longleftrightarrow> False"

fun read_items :: "(u16 \<Rightarrow> event_type option) \<Rightarrow> nat \<Rightarrow> u8 list \<Rightarrow> (log_item list \<times> u8 list) option" where
  "read_items types 0 bs = Some ([], bs)"
| "read_items types (Suc n) bs = do {
     (i, bs) \<leftarrow> read_item types bs;
     (is, bs) \<leftarrow> read_items types n bs;
     Some (i # is, bs) }"

lemma thread_log_cur: "thread_log s t bs \<Longrightarrow> GTlsWriteBuffer s t = Some (last bs) \<and> thread_time s t = PrevTimestamp (buf_at s (last bs))"
  by (simp add: thread_log_def chain_ok_def thread_time_def)

lemma buffer_for_time:
  assumes "thread_log s t bs" and "thread_log s' t bs'" and "PrevTimestamp (buf_at s' (last bs')) = PrevTimestamp (buf_at s (last bs))"
  shows "thread_time s' t = thread_time s t"
  using thread_log_cur [OF assms(1)] thread_log_cur [OF assms(2)] assms(3) by simp

text \<open>Taking a stamp changes the time of the current buffer only.\<close>

lemma GetTimestamp_log:
  assumes ok: "thread_log s t bs" and b: "b = last bs"
  shows "Writer_GetTimestamp now b s = (now - thread_time s t, upd_buf b (\<lambda>x. x\<lparr>PrevTimestamp := now\<rparr>) s)"
    and "thread_log (upd_buf b (\<lambda>x. x\<lparr>PrevTimestamp := now\<rparr>) s) t bs"
    and "stream (upd_buf b (\<lambda>x. x\<lparr>PrevTimestamp := now\<rparr>) s) bs = stream s bs"
    and "thread_time (upd_buf b (\<lambda>x. x\<lparr>PrevTimestamp := now\<rparr>) s) t = now"
    and "blocks_ok env (upd_buf b (\<lambda>x. x\<lparr>PrevTimestamp := now\<rparr>) s) m bs = blocks_ok env s m bs"
proof -
  let ?s = "upd_buf b (\<lambda>x. x\<lparr>PrevTimestamp := now\<rparr>) s"
  have cur: "thread_time s t = PrevTimestamp (buf_at s b)" and tls: "GTlsWriteBuffer s t = Some b"
    using thread_log_cur [OF ok] b by simp_all
  have u: "upd_buf b (\<lambda>x. x\<lparr>PrevTimestamp := PrevTimestamp x + (now - PrevTimestamp (buf_at s b))\<rparr>) s = ?s"
    by (simp add: upd_buf_def)
  show "Writer_GetTimestamp now b s = (now - thread_time s t, ?s)"
    by (simp add: Writer_GetTimestamp_def cur Let_def u)
  have ch: "chain_ok s t bs" using ok by (simp add: thread_log_def)
  have bf: "buf_at ?s = (buf_at s)(b := (buf_at s b)\<lparr>PrevTimestamp := now\<rparr>)" by (simp add: upd_buf_def)
  have bin: "b \<in> set bs" using chain_ok_ne [OF ch] b by simp
  have i: "buf_inv (buf_at s b)" by (rule chain_ok_inv [OF ch bin])
  have "chain_ok ?s t bs"
    by (rule chain_ok_upd [OF ch _ bf]) (use i bin in \<open>simp_all add: buf_inv_def\<close>)
  then show "thread_log ?s t bs" using ok by (simp add: thread_log_def bf)
  have "unsent (buf_at ?s c) = unsent (buf_at s c)" for c
    by (simp add: bf unsent_def bytes_between_def)
  then show "stream ?s bs = stream s bs" by (simp add: stream_def)
  show "thread_time ?s t = now" by (simp add: thread_time_def tls bf)
  show "blocks_ok env ?s m bs = blocks_ok env s m bs" by (rule blocks_ok_cong) (simp_all add: bf)
qed

lemma scope_mark_log:
  assumes ok: "thread_log s t bs" and blk: "blocks_ok env s m bs" and m: "8 \<le> m"
  shows "\<exists>s' new. scope_mark env t known s = s' \<and> thread_log s' t (bs @ new) \<and> blocks_ok env s' m (bs @ new) \<and>
    stream s' (bs @ new) = stream s bs @ [ucast (push_bit UidShift known)] \<and> thread_time s' t = thread_time s t \<and>
    GLogSerial s' = GLogSerial s"
proof -
  have m1: "1 \<le> m" using m by simp
  obtain b s1 new where bf: "buffer_for env t 1 s = (b, s1)" "thread_log s1 t (bs @ new)" "last (bs @ new) = b"
    "blocks_ok env s1 m (bs @ new)" "stream s1 (bs @ new) = stream s bs" "Cursor (buf_at s1 b) + int 1 \<le> 0"
    "PrevTimestamp (buf_at s1 b) = PrevTimestamp (buf_at s (last bs))" "GLogSerial s1 = GLogSerial s"
    using buffer_for_log [OF ok blk m1] by metis
  define k where "k = [ucast (push_bit UidShift known) :: u8]"
  have fit: "Cursor (buf_at s1 b) + int (length k) \<le> 8" using bf(6) by (simp add: k_def)
  have tm: "thread_time s1 t = thread_time s t" by (rule buffer_for_time [OF ok bf(2)]) (simp add: bf(3,7))
  show ?thesis
    using log_mark [OF bf(2,3) fit] bf(4,5,8) tm
    by (intro exI [of _ "commit b (emit b k s1)"] exI [of _ new]) (simp add: scope_mark_def bf(1) [simplified] k_def append_assoc [symmetric] del: append_assoc)
qed

lemma stamped_log:
  assumes ok: "thread_log s t bs" and b: "last bs = b" and fit: "Cursor (buf_at s b) + int 8 \<le> 0"
  shows "thread_log (commit b (emit b (stamp_bytes w k) s)) t bs"
    and "stream (commit b (emit b (stamp_bytes w k) s)) bs = stream s bs @ stamp_bytes w k"
  by (rule log_mark [OF ok b], use fit in \<open>simp add: stamp_bytes_def\<close>)+

lemma run_action_log:
  assumes ok: "thread_log s t bs" and blk: "blocks_ok env s m bs" and m: "8 \<le> m"
    and act: "action_ok m types (thread_time s t) act"
  shows "\<exists>s' new bytes item. run_action env t act s = Some s' \<and> thread_log s' t (bs @ new) \<and> blocks_ok env s' m (bs @ new) \<and>
    stream s' (bs @ new) = stream s bs @ bytes \<and> (\<forall>rest. read_item types (bytes @ rest) = Some (item, rest)) \<and>
    item_means (thread_time s t) (GLogSerial s) act item \<and>
    thread_time s' t = time_after act (thread_time s t) \<and> GLogSerial s' = serial_next act (GLogSerial s)"
proof (cases act)
  case (A_log d Uid kvs)
  have lg: "log_ok m d kvs" and mt: "set_meant d kvs" and ty: "types (event_uid Uid) = Some (type_of_event d)" using act by (simp_all add: A_log)
  obtain s' new pay frs where r: "UE_TRACE_LOG env t d Uid True kvs s = Some s'" "thread_log s' t (bs @ new)"
    "blocks_ok env s' m (bs @ new)"
    "stream s' (bs @ new) = stream s bs @ event_header (EventFlags d) Uid (GLogSerial s) @ set_plain d kvs pay @
      frags_bytes frs @ (if EventFlags d AND Flag_MaybeHasAux \<noteq> 0 then [6] else [])"
    "length pay = EventProps_Size d" "length (set_plain d kvs pay) = EventProps_Size d" "frags_ok frs"
    "\<forall>i. aux_of i frs = settings_of d i kvs" "EventFlags d AND Flag_MaybeHasAux = 0 \<longrightarrow> frs = []"
    "thread_time s' t = thread_time s t" "GLogSerial s' = serial_after (EventFlags d) (GLogSerial s)"
    using UE_TRACE_LOG_stream [OF ok blk lg, of Uid] by blast
  have no: "EventFlags d AND Flag_MaybeHasAux = 0 \<Longrightarrow> frs = []" using r(9) by blast
  have rb: "read_item types (event_header (EventFlags d) Uid (GLogSerial s) @ set_plain d kvs pay @ frags_bytes frs @
      (if EventFlags d AND Flag_MaybeHasAux \<noteq> 0 then [6] else []) @ rest) =
    Some (I_event (event_uid Uid) (event_serial (EventFlags d) (GLogSerial s)) (set_plain d kvs pay) frs, rest)" for rest
    by (rule read_event_back) (use ty r(6,7) no in simp_all)
  note fo = fields_read_ok [OF lg r(5,8) mt]
  show ?thesis
    unfolding A_log using r(1-4,6,10,11) rb fo
    by (intro exI [of _ s'] exI [of _ new] exI [of _ "event_header (EventFlags d) Uid (GLogSerial s) @ set_plain d kvs pay @
          frags_bytes frs @ (if EventFlags d AND Flag_MaybeHasAux \<noteq> 0 then [6] else [])"]
        exI [of _ "I_event (event_uid Uid) (event_serial (EventFlags d) (GLogSerial s)) (set_plain d kvs pay) frs"])
      (simp only: run_action.simps item_means.simps time_after.simps serial_next.simps append_assoc simp_thms)
next
  case A_enter
  obtain s' new where r: "scope_mark env t Uid_EnterScope s = s'" "thread_log s' t (bs @ new)" "blocks_ok env s' m (bs @ new)"
    "stream s' (bs @ new) = stream s bs @ [ucast (push_bit UidShift Uid_EnterScope)]" "thread_time s' t = thread_time s t"
    "GLogSerial s' = GLogSerial s"
    using scope_mark_log [OF ok blk m, of Uid_EnterScope] by blast
  then show ?thesis
    by (intro exI [of _ s'] exI [of _ new] exI [of _ "[8]"] exI [of _ I_enter])
      (simp add: A_enter FLogScope_ScopedEnter_def read_scope_back UidShift_def Uid_EnterScope_def)
next
  case A_leave
  obtain s' new where r: "scope_mark env t Uid_LeaveScope s = s'" "thread_log s' t (bs @ new)" "blocks_ok env s' m (bs @ new)"
    "stream s' (bs @ new) = stream s bs @ [ucast (push_bit UidShift Uid_LeaveScope)]" "thread_time s' t = thread_time s t"
    "GLogSerial s' = GLogSerial s"
    using scope_mark_log [OF ok blk m, of Uid_LeaveScope] by blast
  then show ?thesis
    by (intro exI [of _ s'] exI [of _ new] exI [of _ "[10]"] exI [of _ I_leave])
      (simp add: A_leave FScopedLogScope_leave_def read_scope_back UidShift_def Uid_LeaveScope_def)
next
  case (A_enter_T now)
  define dt where "dt = now - thread_time s t"
  have dt: "dt < 2 ^ 56" using act by (simp add: A_enter_T dt_def)
  obtain b s1 new where bf: "buffer_for env t 8 s = (b, s1)" "thread_log s1 t (bs @ new)" "last (bs @ new) = b"
    "blocks_ok env s1 m (bs @ new)" "stream s1 (bs @ new) = stream s bs" "Cursor (buf_at s1 b) + int 8 \<le> 0"
    "PrevTimestamp (buf_at s1 b) = PrevTimestamp (buf_at s (last bs))" "GLogSerial s1 = GLogSerial s"
    using buffer_for_log [OF ok blk m] by metis
  have tm: "thread_time s1 t = thread_time s t" by (rule buffer_for_time [OF ok bf(2)]) (simp add: bf(3,7))
  define s2 where "s2 = upd_buf b (\<lambda>x. x\<lparr>PrevTimestamp := now\<rparr>) s1"
  note gt = GetTimestamp_log [where now = now, OF bf(2) bf(3) [symmetric], folded s2_def]
  have c2: "Cursor (buf_at s2 b) + int 8 \<le> 0" using bf(6) by (simp add: s2_def upd_buf_def)
  note st = stamped_log [OF gt(2) bf(3) c2, of dt Uid_EnterScope_T]
  define s3 where "s3 = commit b (emit b (stamp_bytes dt Uid_EnterScope_T) s2)"
  have s3: "thread_log s3 t (bs @ new)" "stream s3 (bs @ new) = stream s bs @ stamp_bytes dt Uid_EnterScope_T"
    unfolding s3_def st(2) gt(3) bf(5) by (rule st(1), rule refl)
  have e: "FLogScope_ScopedStampedEnter env t now s = s3"
    by (simp add: FLogScope_ScopedStampedEnter_def bf(1) gt(1) tm dt_def [symmetric] s3_def)
  have b3: "blocks_ok env s3 m (bs @ new)" using bf(4) gt(5) by (simp add: s3_def)
  have t3: "thread_time s3 t = now" "GLogSerial s3 = GLogSerial s" using gt(4) bf(8) by (simp_all add: s3_def s2_def)
  show ?thesis
    using s3 b3 t3 e read_stamp_back(1) [OF dt]
    by (intro exI [of _ s3] exI [of _ new] exI [of _ "stamp_bytes dt Uid_EnterScope_T"] exI [of _ "I_enter_T dt"])
      (simp add: A_enter_T dt_def)
next
  case (A_leave_T now)
  define dt where "dt = now - thread_time s t"
  have dt: "dt < 2 ^ 56" using act by (simp add: A_leave_T dt_def)
  define c where "c = last bs"
  define s1 where "s1 = upd_buf c (\<lambda>x. x\<lparr>PrevTimestamp := now\<rparr>) s"
  note gt = GetTimestamp_log [where now = now, OF ok c_def, folded s1_def]
  have blk1: "blocks_ok env s1 m bs" using blk gt(5) by simp
  obtain b s2 new where bf: "buffer_for env t 8 s1 = (b, s2)" "thread_log s2 t (bs @ new)" "last (bs @ new) = b"
    "blocks_ok env s2 m (bs @ new)" "stream s2 (bs @ new) = stream s1 bs" "Cursor (buf_at s2 b) + int 8 \<le> 0"
    "PrevTimestamp (buf_at s2 b) = PrevTimestamp (buf_at s1 (last bs))" "GLogSerial s2 = GLogSerial s1"
    using buffer_for_log [OF gt(2) blk1 m] by metis
  have tm: "thread_time s2 t = thread_time s1 t" by (rule buffer_for_time [OF gt(2) bf(2)]) (simp add: bf(3,7))
  note st = stamped_log [OF bf(2,3,6), of dt Uid_LeaveScope_T]
  define s3 where "s3 = commit b (emit b (stamp_bytes dt Uid_LeaveScope_T) s2)"
  have s3: "thread_log s3 t (bs @ new)" "stream s3 (bs @ new) = stream s bs @ stamp_bytes dt Uid_LeaveScope_T"
    unfolding s3_def st(2) bf(5) gt(3) by (rule st(1), rule refl)
  have tls: "GTlsWriteBuffer s t = Some c" using thread_log_cur [OF ok] by (simp add: c_def)
  have e: "FScopedStampedLogScope_leave env t True now s = Some s3"
    by (simp add: FScopedStampedLogScope_leave_def tls gt(1) bf(1) dt_def [symmetric] s3_def)
  have b3: "blocks_ok env s3 m (bs @ new)" using bf(4) by (simp add: s3_def)
  have t3: "thread_time s3 t = now" "GLogSerial s3 = GLogSerial s" using gt(4) bf(8) tm by (simp_all add: s3_def s1_def)
  show ?thesis
    using s3 b3 t3 e read_stamp_back(2) [OF dt]
    by (intro exI [of _ s3] exI [of _ new] exI [of _ "stamp_bytes dt Uid_LeaveScope_T"] exI [of _ "I_leave_T dt"])
      (simp add: A_leave_T dt_def)
qed

section \<open>The properties\<close>

lemma run_actions_log:
  assumes "thread_log s t bs" and "blocks_ok env s m bs" and m: "8 \<le> m" and "actions_ok m types (thread_time s t) acts"
  shows "\<exists>s' new bytes items. run_actions env t acts s = Some s' \<and> thread_log s' t (bs @ new) \<and>
    stream s' (bs @ new) = stream s bs @ bytes \<and>
    (\<forall>rest. read_items types (length acts) (bytes @ rest) = Some (items, rest)) \<and>
    items_mean (thread_time s t) (GLogSerial s) acts items"
  using assms(1,2,4)
proof (induction acts arbitrary: s bs)
  case Nil
  then show ?case by (intro exI [of _ s] exI [of _ "[]"]) simp
next
  case (Cons a as)
  have a: "action_ok m types (thread_time s t) a" and as: "actions_ok m types (time_after a (thread_time s t)) as"
    using Cons.prems(3) by simp_all
  obtain s1 n1 b1 i1 where r: "run_action env t a s = Some s1" "thread_log s1 t (bs @ n1)" "blocks_ok env s1 m (bs @ n1)"
      "stream s1 (bs @ n1) = stream s bs @ b1" "\<forall>rest. read_item types (b1 @ rest) = Some (i1, rest)"
      "item_means (thread_time s t) (GLogSerial s) a i1" "thread_time s1 t = time_after a (thread_time s t)"
      "GLogSerial s1 = serial_next a (GLogSerial s)"
    using run_action_log [OF Cons.prems(1,2) m a] by blast
  have as1: "actions_ok m types (thread_time s1 t) as" using as r(7) by simp
  obtain s2 n2 b2 i2 where q: "run_actions env t as s1 = Some s2" "thread_log s2 t ((bs @ n1) @ n2)"
      "stream s2 ((bs @ n1) @ n2) = stream s1 (bs @ n1) @ b2"
      "\<forall>rest. read_items types (length as) (b2 @ rest) = Some (i2, rest)"
      "items_mean (thread_time s1 t) (GLogSerial s1) as i2"
    using Cons.IH [OF r(2,3) as1] by blast
  have "stream s2 (bs @ n1 @ n2) = stream s bs @ b1 @ b2"
    using q(3) unfolding r(4) by simp
  then show ?case
    using q(1,2,4,5) r(1,5,6,7,8)
    by (intro exI [of _ s2] exI [of _ "n1 @ n2"] exI [of _ "b1 @ b2"] exI [of _ "i1 # i2"]) simp
qed

text \<open>C4: What a thread traces is read back: after any sequence of log statements and scopes, each
  with its fields, the data of each array and string less than 512 KiB (the code cuts the upper bits
  off a longer size), the statements have ended, everything is committed, and what they added to the stream of the thread reads as one item for each statement,
  with its event number, serial number, the values of its fields (plain values, whole arrays, strings
  by their length or up to the ending zero, narrowed characters by their lower seven bits) and, for stamped scopes, times
  that add up to those of the statements. New buffers may be taken anywhere.\<close>

theorem thread_statements_read_back:
  assumes "thread_log s t bs" and "blocks_ok env s m bs" and "8 \<le> m" and "actions_ok m types (thread_time s t) acts"
  shows "\<exists>s' new bytes items. run_actions env t acts s = Some s' \<and> thread_log s' t (bs @ new) \<and>
    stream s' (bs @ new) = stream s bs @ bytes \<and> read_items types (length acts) bytes = Some (items, []) \<and>
    items_mean (thread_time s t) (GLogSerial s) acts items"
proof -
  obtain s' new bytes items where r: "run_actions env t acts s = Some s'" "thread_log s' t (bs @ new)"
    "stream s' (bs @ new) = stream s bs @ bytes"
    "\<forall>rest. read_items types (length acts) (bytes @ rest) = Some (items, rest)"
    "items_mean (thread_time s t) (GLogSerial s) acts items"
    using run_actions_log [OF assms] by blast
  have "read_items types (length acts) bytes = Some (items, [])" using r(4) [rule_format, of "[]"] by simp
  then show ?thesis using r by blast
qed

lemma length_event_header: "length (event_header Flags Uid ser) = header_size Flags"
  by (simp add: event_header_def header_size_def sizeof_FEventHeader_def sizeof_FEventHeaderSync_def)

lemma open_event_drain:
  assumes ev: "open_event s t bs a later (ptr - int (length hdr)) ptr sz (before @ hdr) pay aux"
  shows "fst (Writer_DrainBuffer tid a s) \<and> stream s bs @ concat (map snd (fst (snd (Writer_DrainBuffer tid a s)))) = before"
proof -
  let ?x = "buf_at s a" and ?c = "ptr - int (length hdr)"
  note ch = open_event_chain [OF ev]
  have i: "buf_inv ?x" by (rule chain_ok_inv [OF ch]) simp
  have c': "Committed ?x = ?c" "?c < ptr" "ptr + int sz \<le> Cursor ?x" using ev unfolding open_event_def by blast+
  then have c: "Committed ?x = ?c" "?c < Cursor ?x" by linarith+
  have r: "Reaped ?x \<le> ?c" "?c \<le> ptr" using i c by (simp_all add: buf_inv_def)
  have "EtxOffset ?x = - 64 \<or> EtxOffset ?x = - Cursor ?x"
    using ch by (cases "later = []") (simp_all add: chain_ok_def open_buf_def closed_buf_def butlast_append)
  moreover have "Cursor ?x \<le> 8" using i by (simp add: buf_inv_def)
  ultimately have use: "0 - EtxOffset ?x > ?c" using c by auto
  have "stream s bs @ bytes_between ?x (Reaped ?x) ?c @ bytes_between ?x ?c ptr = before @ hdr"
    using ev bytes_between_split [OF r] by (simp add: open_event_def)
  moreover have "length (bytes_between ?x ?c ptr) = length hdr" by (simp add: bytes_between_def)
  ultimately have "stream s bs @ bytes_between ?x (Reaped ?x) ?c = before"
    by (metis append_assoc append_eq_append_conv)
  then show ?thesis
    using use c by (auto simp: Writer_DrainBuffer_def drain_reap_def drain_in_use_def Let_def upd_buf_def)
qed

text \<open>
  An example for the witnesses: a thread with one buffer of 64 bytes and blocks of 64 bytes to
  come, and an event with a number and a string.
\<close>

definition example_buffer :: write_buffer where
  "example_buffer = \<lparr>PrevTimestamp = 100, NextThread = None, NextBuffer = None, Cursor = - 64, Committed = - 64,
     Reaped = - 64, EtxOffset = - 64, bufSize = 64, ThreadId = 1, bmem = (\<lambda>_. 0)\<rparr>"

definition example_log :: log_state where
  "example_log = \<lparr>buf_at = (\<lambda>_. example_buffer), GTlsWriteBuffer = (\<lambda>_. Some 0), GNewThreadList = None,
     GActiveThreadList = None, GLogSerial = 7, blocks_taken = 0\<rparr>"

definition example_blocks :: "nat \<Rightarrow> new_block" where
  "example_blocks i = \<lparr>nb_addr = Suc i, nb_redirected = [], nb_tid = 1, nb_now = 0, nb_timing = []\<rparr>"

definition example_decl :: event_decl where
  "example_decl = \<lparr>ed_fields = [F_Uint32, F_AnsiString], ed_definition = None, ed_flags = 0\<rparr>"

definition example_set :: "(nat \<times> field_value) list" where
  "example_set = [(1, V_ansi (replicate 100 65) 100), (0, V_plain [1, 2, 3, 4])]"

definition example_types :: "u16 \<Rightarrow> event_type option" where
  "example_types Uid = (if Uid = 16 then Some (type_of_event example_decl) else None)"

lemma example_log_ok: "thread_log example_log 0 [0]" and example_blocks_ok: "blocks_ok example_blocks example_log 9 [0]"
  by (simp_all add: thread_log_def chain_ok_def example_log_def example_buffer_def buf_inv_def open_buf_def
      blocks_ok_def example_blocks_def)

lemma example_time: "thread_time example_log 0 = 100"
  by (simp add: thread_time_def example_log_def example_buffer_def)

lemma example_event_ok: "log_ok 9 example_decl example_set"
proof -
  have t: "ed_types example_decl = [F_Uint32, F_AnsiString]" by (simp add: ed_types_def example_decl_def)
  have "ed_flags example_decl = 0" by (simp add: example_decl_def)
  then have "EventFlags example_decl = 2"
    by (simp add: EventFlags_def ed_metas_spec(4) t Flag_MaybeHasAux_def)
  then have "header_size (EventFlags example_decl) = 5"
    by (simp add: header_size_def Flag_NoSync_def sizeof_FEventHeaderSync_def)
  moreover have "EventProps_Size example_decl = 4" by (simp add: ed_metas_spec(2) t)
  moreover have "value_bytes F_AnsiString (V_ansi (replicate 100 65) 100) = Some (replicate 100 65)"
    by (simp add: value_bytes_def string_length_def aux_prefix_def string_size_def SizeLimit_def SizeShift_def
        FieldShift_def FieldBits_def)
  ultimately show ?thesis
    by (simp add: log_ok_def set_ok_def t example_set_def NumFieldsMax_def FieldBits_def value_bytes_def)
qed

lemma example_uid: "event_uid 33 = 16"
  by (simp add: event_uid_def UidShift_def Flag_TwoByteUid_def)

theorem thread_statements_read_back_witness:
  "\<exists>s' new bytes items. run_actions example_blocks 0 [A_enter_T 150, A_log example_decl 33 example_set, A_leave_T 400] example_log = Some s' \<and>
    thread_log s' 0 ([0] @ new) \<and> stream s' ([0] @ new) = stream example_log [0] @ bytes \<and>
    read_items example_types (length [A_enter_T 150, A_log example_decl 33 example_set, A_leave_T 400]) bytes = Some (items, []) \<and>
    items_mean 100 (GLogSerial example_log) [A_enter_T 150, A_log example_decl 33 example_set, A_leave_T 400] items"
proof -
  have "set_meant example_decl example_set"
    by (simp add: set_meant_def example_set_def ed_types_def example_decl_def value_meant_def string_meant_def)
  then have "actions_ok 9 example_types 100 [A_enter_T 150, A_log example_decl 33 example_set, A_leave_T 400]"
    by (simp add: example_event_ok example_uid example_types_def)
  then show ?thesis
    using thread_statements_read_back [OF example_log_ok example_blocks_ok, of example_types
        "[A_enter_T 150, A_log example_decl 33 example_set, A_leave_T 400]"]
    unfolding example_time by simp
qed

lemma field_type_code:
  "TFieldType_Size T = (if is_aux_field T then 0 else 2 ^ unat (TFieldType_Tid T AND 3)) \<and>
    is_aux_field T = (TFieldType_Tid T AND Field_Array \<noteq> 0)"
proof (cases T)
  case (F_Array U)
  have "bit (TFieldType_Tid U OR Field_Array) 7" by (simp add: Field_Array_def bit_simps bit_numeral_rec)
  then have "bit (TFieldType_Tid T AND Field_Array) 7" by (simp add: F_Array Field_Array_def bit_simps bit_numeral_rec)
  then show ?thesis by (auto simp: F_Array)
qed (simp_all add: Field_Pod_def Field_Integer_def Field_8_def Field_16_def Field_32_def Field_64_def Field_Ptr_def
    Field_Signed_def Field_Float_def Field_String_def Field_Array_def)

text \<open>C5: While a statement is under way nothing of its event can be sent: with any of its fields set,
  also with array and string data that have filled further buffers, the worker that drains the chain
  up to the buffer of the event gets exactly what was there before the statement, and stops there.\<close>

theorem event_hidden_until_end:
  assumes ok: "thread_log s t bs" and blk: "blocks_ok env s m bs" and lg: "log_ok m d kvs"
  shows "\<exists>sc s1 s2 bs1 later new. FLogScope_EnterImpl env t (EventFlags d) Uid (EventProps_Size d) s = (sc, s1) \<and>
    set_fields env t d sc kvs s1 = Some s2 \<and> chain_ok s2 t (bs1 @ Buffer sc # later) \<and> bs @ new = bs1 @ Buffer sc # later \<and>
    fst (Writer_DrainBuffer tid (Buffer sc) s2) \<and>
    stream s2 bs1 @ concat (map snd (fst (snd (Writer_DrainBuffer tid (Buffer sc) s2)))) = stream s bs"
proof -
  have lg': "header_size (EventFlags d) + EventProps_Size d \<le> m" "set_ok d kvs" "length (ed_types d) \<le> 32"
    using lg by (simp_all add: log_ok_def NumFieldsMax_def FieldBits_def)
  have m: "1 \<le> m" using lg'(1) by (simp add: header_size_def sizeof_FEventHeader_def sizeof_FEventHeaderSync_def split: if_splits)
  define h where "h = int (header_size (EventFlags d))"
  define hdr where "hdr = event_header (EventFlags d) Uid (GLogSerial s)"
  obtain sc s1 bs1 new1 pay where e: "FLogScope_EnterImpl env t (EventFlags d) Uid (EventProps_Size d) s = (sc, s1)"
      "open_event s1 t bs1 (Buffer sc) [] (Ptr sc - h) (Ptr sc) (EventProps_Size d) (stream s bs @ hdr) pay []"
      "bs @ new1 = bs1 @ [Buffer sc]" "blocks_ok env s1 m (bs @ new1)"
    using EnterImpl_open [OF ok blk lg'(1), of Uid] unfolding h_def hdr_def by blast
  have fb: "frags_bytes [] = []" "frags_ok []" by (simp_all add: frags_bytes_def frags_ok_def)
  have sc: "sc = \<lparr>Ptr = Ptr sc, Buffer = Buffer sc\<rparr>" by simp
  obtain s2 later frs where f: "set_fields env t d sc kvs s1 = Some s2"
      "open_event s2 t bs1 (Buffer sc) later (Ptr sc - h) (Ptr sc) (EventProps_Size d) (stream s bs @ hdr)
        (set_plain d kvs pay) (frags_bytes frs)"
    using set_fields_open [OF e(2) [folded fb(1)] _ m lg'(2,3) sc fb(2), of env] e(3,4) by auto
  have "h = int (length hdr)" by (simp add: h_def hdr_def length_event_header)
  then have dr: "fst (Writer_DrainBuffer tid (Buffer sc) s2) \<and>
      stream s2 bs1 @ concat (map snd (fst (snd (Writer_DrainBuffer tid (Buffer sc) s2)))) = stream s bs"
    using f(2) by (intro open_event_drain) simp
  have "bs @ new1 @ later = bs1 @ Buffer sc # later" using e(3) by simp
  then show ?thesis
    using e(1) f(1) open_event_chain [OF f(2)] dr by blast
qed

theorem event_hidden_until_end_witness:
  "\<exists>sc s1 s2 bs1 later new. FLogScope_EnterImpl example_blocks 0 (EventFlags example_decl) 33 (EventProps_Size example_decl) example_log = (sc, s1) \<and>
    set_fields example_blocks 0 example_decl sc example_set s1 = Some s2 \<and> chain_ok s2 0 (bs1 @ Buffer sc # later) \<and>
    [0] @ new = bs1 @ Buffer sc # later \<and> fst (Writer_DrainBuffer 5 (Buffer sc) s2) \<and>
    stream s2 bs1 @ concat (map snd (fst (snd (Writer_DrainBuffer 5 (Buffer sc) s2)))) = stream example_log [0]"
  by (rule event_hidden_until_end [OF example_log_ok example_blocks_ok example_event_ok])

text \<open>C22: The typedefs of an event lay its fields out one after the other: the slot of a field begins
  where the one before it ends or later, lies inside the size of the event, and has the size that
  the type code announces (none for data that follows the event); the number of a field is its
  position, and an event with such data is flagged for it.\<close>

theorem event_layout_typed:
  assumes "j < k" and "k < length (ed_types d)" and "length (ed_types d) \<le> NumFieldsMax"
    and "fst (ed_metas d) = fms"
  shows "fm_Offset (fms ! j) + TFieldType_Size (fm_type (fms ! j)) \<le> fm_Offset (fms ! k) \<and>
    fm_Offset (fms ! k) + TFieldType_Size (fm_type (fms ! k)) \<le> EventProps_Size d \<and>
    fm_type (fms ! k) = ed_types d ! k \<and> fm_Index (fms ! k) mod 2 ^ NumFieldsShift = k \<and>
    TFieldType_Size (fm_type (fms ! k)) =
      (if is_aux_field (fm_type (fms ! k)) then 0 else 2 ^ unat (TFieldType_Tid (fm_type (fms ! k)) AND 3)) \<and>
    is_aux_field (fm_type (fms ! k)) = (TFieldType_Tid (fm_type (fms ! k)) AND Field_Array \<noteq> 0) \<and>
    (is_aux_field (fm_type (fms ! k)) \<longrightarrow> EventFlags d AND Flag_MaybeHasAux \<noteq> 0)"
proof -
  have l: "length (ed_types d) \<le> 32" using assms(3) by (simp add: NumFieldsMax_def FieldBits_def)
  have j: "j < length (ed_types d)" using assms(1,2) by simp
  note mj = ed_metas_spec(5,6) [OF j] and mk = ed_metas_spec(5-7) [OF assms(2)]
  have ty: "TFieldType_Size T = (if is_aux_field T then 0 else 2 ^ unat (TFieldType_Tid T AND 3)) \<and>
      is_aux_field T = (TFieldType_Tid T AND Field_Array \<noteq> 0)" for T
    by (rule field_type_code)
  have "sizes (take j (ed_types d)) + TFieldType_Size (ed_types d ! j) \<le> sizes (take k (ed_types d))"
    using sizes_take_mono [of "Suc j" k "ed_types d"] sizes_take_Suc [OF j] assms(1) by simp
  moreover have "is_aux_field (ed_types d ! k) \<longrightarrow> EventFlags d AND Flag_MaybeHasAux \<noteq> 0"
    using flags_has_aux [OF l] nth_mem [OF assms(2)] unfolding list_ex_iff by blast
  ultimately show ?thesis
    using mj mk slot_inside [OF assms(2)] ty [of "ed_types d ! k"] l assms(2)
    by (simp add: assms(4) [symmetric] ed_metas_spec(2) NumFieldsShift_def)
qed

theorem event_layout_typed_witness:
  "fm_Offset (fst (ed_metas example_decl) ! 0) + 4 \<le> fm_Offset (fst (ed_metas example_decl) ! 1) \<and>
    fm_Index (fst (ed_metas example_decl) ! 1) mod 2 ^ NumFieldsShift = 1 \<and>
    EventFlags example_decl AND Flag_MaybeHasAux \<noteq> 0"
proof -
  have t: "ed_types example_decl = [F_Uint32, F_AnsiString]" by (simp add: ed_types_def example_decl_def)
  have ty: "fm_type (fst (ed_metas example_decl) ! 0) = F_Uint32" "fm_type (fst (ed_metas example_decl) ! 1) = F_AnsiString"
    by (simp_all add: ed_metas_spec(5) t)
  show ?thesis
    using event_layout_typed [of 0 1 example_decl "fst (ed_metas example_decl)"]
    by (simp add: t ty NumFieldsMax_def FieldBits_def)
qed

end
