(* ===== verification/SharedBuffers.thy ===== *)
theory SharedBuffers
  imports Wire
begin

text \<open>
  The shared buffers of important events (Private/Trace/Important/SharedBuffer.cpp and the
  entry and exit of a scope in Detail/Important/ImportantLogScope.inl). All threads reserve
  space in one buffer by an atomic addition to its Cursor, which packs the bytes left above ten
  bits that count users down from 1023; the thread that finds too little space installs the
  next buffer, and the worker sends and frees buffers that nobody uses. Cursor is an int32 and its
  additions wrap around; the properties say for which numbers of threads and sizes they do not.
\<close>

section \<open>Buffers\<close>

text \<open>The value of 32 bits, signed and unsigned.\<close>

definition int32 :: "int \<Rightarrow> int" where "int32 x = signed_take_bit 31 x"
definition uint32 :: "int \<Rightarrow> int" where "uint32 x = take_bit 32 x"

record shared_buffer =
  s_cursor :: int
  s_size :: int
  s_final :: int
  s_next :: "nat option"

record shared_state =
  sb_at :: "nat \<Rightarrow> shared_buffer"
  GSharedBuffer :: nat
  GTailBuffer :: nat
  GTailPreSent :: int

definition CursorShift :: nat where "CursorShift = 10"
definition RefBit :: int where "RefBit = 1"
definition RefInit :: int where "RefInit = 2 ^ CursorShift - 1"
definition GBlockSize :: int where "GBlockSize = 1024"
definition sizeof_FSharedBuffer :: int where "sizeof_FSharedBuffer = 24"

lemmas shared_consts = CursorShift_def RefBit_def RefInit_def GBlockSize_def sizeof_FSharedBuffer_def

text \<open>The size of the block for a buffer with room for \<open>SizeHint\<close> bytes, and the buffer in it.\<close>

definition shared_block_size :: "int \<Rightarrow> int" where
  "shared_block_size SizeHint =
     (let OverheadSize = sizeof_FSharedBuffer + 4 in
      if uint32 (SizeHint + OverheadSize) > GBlockSize
      then let b = uint32 (GBlockSize + (SizeHint + OverheadSize - GBlockSize) + (GBlockSize - 1))
           in b AND NOT (GBlockSize - 1)
      else GBlockSize)"

definition Writer_CreateSharedBuffer :: "int \<Rightarrow> shared_buffer" where
  "Writer_CreateSharedBuffer SizeHint =
     (let size = uint32 (shared_block_size SizeHint - sizeof_FSharedBuffer - 4)
      in \<lparr>s_cursor = int32 (push_bit CursorShift size OR RefInit), s_size = size, s_final = 0, s_next = None\<rparr>)"

definition upd_sb :: "nat \<Rightarrow> (shared_buffer \<Rightarrow> shared_buffer) \<Rightarrow> 'a shared_state_scheme \<Rightarrow> 'a shared_state_scheme" where
  "upd_sb b f s = s\<lparr>sb_at := (sb_at s)(b := f (sb_at s b))\<rparr>"

section \<open>Reserving and releasing space\<close>

definition NegSizeAndRef :: "int \<Rightarrow> int" where
  "NegSizeAndRef AllocSize = int32 (0 - int32 (push_bit CursorShift AllocSize OR RefBit))"

definition atomic_add_cursor :: "nat \<Rightarrow> int \<Rightarrow> 'a shared_state_scheme \<Rightarrow> int \<times> 'a shared_state_scheme" where
  "atomic_add_cursor b v s = (s_cursor (sb_at s b), upd_sb b (\<lambda>x. x\<lparr>s_cursor := int32 (s_cursor x + v)\<rparr>) s)"

definition release_ref :: "nat \<Rightarrow> 'a shared_state_scheme \<Rightarrow> 'a shared_state_scheme" where
  "release_ref b s = snd (atomic_add_cursor b RefBit s)"

text \<open>
  What the addition yields: a region (its distance from the end of the buffer), the task to
  install the next buffer, or a wait for the thread that does.
\<close>

datatype claim_result = Claimed int | Owner int | Waiter

definition claim_region :: "nat \<Rightarrow> int \<Rightarrow> 'a shared_state_scheme \<Rightarrow> claim_result \<times> 'a shared_state_scheme" where
  "claim_region b AllocSize s =
     (let (RegionStart, s) = atomic_add_cursor b (NegSizeAndRef AllocSize) s in
      (if int32 (RegionStart + NegSizeAndRef AllocSize) < 0
       then (if 0 \<le> RegionStart then Owner RegionStart else Waiter)
       else Claimed (drop_bit CursorShift RegionStart), s))"

text \<open>The owner's part of Writer_NextSharedBuffer; the new buffer is at the address \<open>nb\<close>.\<close>

definition install_next :: "nat \<Rightarrow> int \<Rightarrow> int \<Rightarrow> nat \<Rightarrow> 'a shared_state_scheme \<Rightarrow> 'a shared_state_scheme" where
  "install_next b RegionStart AllocSize nb s =
     (let size = drop_bit CursorShift (int32 (0 - NegSizeAndRef AllocSize));
          s = upd_sb nb (\<lambda>_. Writer_CreateSharedBuffer size) s;
          s = upd_sb b (\<lambda>x. x\<lparr>s_next := Some nb, s_final := drop_bit CursorShift RegionStart\<rparr>) s
      in s\<lparr>GSharedBuffer := nb\<rparr>)"

section \<open>The worker\<close>

definition no_users :: "int \<Rightarrow> bool" where
  "no_users cursor \<longleftrightarrow> (cursor + 1) AND RefInit = 0"

text \<open>
  Writer_RetireSharedBufferImpl: the range of the buffer that is sent, as offsets from its
  start, then the state; the buffer itself is freed.
\<close>

definition Writer_RetireSharedBufferImpl :: "'a shared_state_scheme \<Rightarrow> ((int \<times> int) option \<times> 'a shared_state_scheme) option" where
  "Writer_RetireSharedBufferImpl s =
     (let x = sb_at s (GTailBuffer s); upto_ofs = s_size x - s_final x in
      case s_next x of None \<Rightarrow> None
      | Some n \<Rightarrow> Some (if upto_ofs - GTailPreSent s \<noteq> 0 then Some (GTailPreSent s, upto_ofs) else None,
            s\<lparr>GTailBuffer := n, GTailPreSent := 0\<rparr>))"

definition Writer_SendHead :: "nat \<Rightarrow> int \<Rightarrow> 'a shared_state_scheme \<Rightarrow> (int \<times> int) option \<times> 'a shared_state_scheme" where
  "Writer_SendHead h cursor s =
     (let PreSentBias = uint32 (s_size (sb_at s h) - GTailPreSent s); sendable = uint32 (PreSentBias - cursor) in
      if sendable \<noteq> 0
      then (Some (GTailPreSent s, GTailPreSent s + sendable), s\<lparr>GTailPreSent := uint32 (GTailPreSent s + sendable)\<rparr>)
      else (None, s))"

datatype update_result = Upd_spin | Upd_again | Upd_done

text \<open>
  One turn of the loop of Writer_UpdateSharedBuffers for the head buffer \<open>h\<close> it has loaded,
  with the buffer it freed, if any, and the range it sent. A turn that waits for users to leave
  is \<open>Upd_spin\<close>.
\<close>

definition Writer_UpdateSharedBuffers_turn ::
  "nat \<Rightarrow> 'a shared_state_scheme \<Rightarrow> (update_result \<times> nat option \<times> (int \<times> int) option \<times> 'a shared_state_scheme) option" where
  "Writer_UpdateSharedBuffers_turn h s =
     (let tl_b = GTailBuffer s in
      if tl_b \<noteq> h then
        (if no_users (s_cursor (sb_at s tl_b)) then do {
           (r, s) \<leftarrow> Writer_RetireSharedBufferImpl s; Some (Upd_again, Some tl_b, r, s) }
         else Some (Upd_spin, None, None, s))
      else
        let cursor = s_cursor (sb_at s h) in
        if \<not> no_users cursor then Some (Upd_spin, None, None, s)
        else let c = drop_bit CursorShift cursor in
          if c < 0 then do {
            (r, s) \<leftarrow> Writer_RetireSharedBufferImpl s; Some (Upd_done, Some tl_b, r, s) }
          else let (r, s) = Writer_SendHead h c s in Some (Upd_done, None, r, s))"

definition Writer_InitializeSharedBuffers :: "nat \<Rightarrow> 'a shared_state_scheme \<Rightarrow> 'a shared_state_scheme" where
  "Writer_InitializeSharedBuffers b s =
     (upd_sb b (\<lambda>_. Writer_CreateSharedBuffer 0) s)\<lparr>GTailBuffer := b, GTailPreSent := 0, GSharedBuffer := b\<rparr>"

section \<open>Arithmetic of the packed cursor\<close>

text \<open>
  A cursor with \<open>rem\<close> bytes left and \<open>n\<close> users is \<open>rem * 1024 + 1023 - n\<close>.
\<close>

lemma int32_id: "- (2 ^ 31) \<le> x \<Longrightarrow> x < 2 ^ 31 \<Longrightarrow> int32 x = x"
  by (simp add: int32_def signed_take_bit_int_eq_self)

lemma uint32_id: "0 \<le> x \<Longrightarrow> x < 2 ^ 32 \<Longrightarrow> uint32 x = x"
  by (simp add: uint32_def take_bit_int_eq_self)

lemma push_bit_or_ref: "push_bit CursorShift a OR RefBit = a * 1024 + 1"
proof -
  have "push_bit 10 a AND (1::int) = 0"
    by (rule bit_eqI) (auto simp: bit_simps)
  then have "push_bit 10 a OR 1 = push_bit 10 a + (1::int)"
    by (rule disjunctive_add_eq_or [symmetric])
  then show ?thesis by (simp add: shared_consts push_bit_eq_mult)
qed

lemma and_mask10: "x AND 1023 = x mod 1024" for x :: int
proof -
  have "x AND mask 10 = x mod 1024"
    by (simp only: take_bit_eq_mask [symmetric] take_bit_eq_mod) simp
  moreover have "mask 10 = (1023::int)" by (simp add: mask_eq_exp_minus_1)
  ultimately show ?thesis by simp
qed

lemma push_bit_or_init: "push_bit CursorShift a OR RefInit = a * 1024 + 1023"
proof -
  have "push_bit 10 a AND (1023::int) = 0"
    unfolding and_mask10 by (simp add: push_bit_eq_mult)
  then have "push_bit 10 a OR 1023 = push_bit 10 a + (1023::int)"
    by (rule disjunctive_add_eq_or [symmetric])
  then show ?thesis by (simp add: shared_consts push_bit_eq_mult)
qed

text \<open>Sizes below 2 MiB have room in the packed cursor.\<close>

definition size_fits :: "int \<Rightarrow> bool" where
  "size_fits a \<longleftrightarrow> 0 \<le> a \<and> a \<le> 2 ^ 21 - 1024"

lemma NegSizeAndRef_eq: "size_fits a \<Longrightarrow> NegSizeAndRef a = - (a * 1024 + 1)"
  by (simp add: NegSizeAndRef_def push_bit_or_ref size_fits_def int32_id)

lemma drop_cursor: "0 \<le> n \<Longrightarrow> n \<le> 1023 \<Longrightarrow> drop_bit CursorShift (r * 1024 + 1023 - n) = r" for r n :: int
  by (simp add: shared_consts drop_bit_eq_div)

lemma drop_NegSize: "size_fits a \<Longrightarrow> drop_bit CursorShift (int32 (0 - NegSizeAndRef a)) = a"
  by (simp add: NegSizeAndRef_eq shared_consts drop_bit_eq_div int32_id size_fits_def)

lemma no_users_iff:
  assumes "0 \<le> n" "n \<le> 1023"
  shows "no_users (r * 1024 + 1023 - n) \<longleftrightarrow> n = 0"
proof -
  have e: "r * 1024 + 1023 - n + 1 = - n + (r + 1) * 1024" by (simp add: algebra_simps)
  have i: "RefInit = 1023" by (simp add: shared_consts)
  have "no_users (r * 1024 + 1023 - n) \<longleftrightarrow> (- n + (r + 1) * 1024) mod 1024 = 0"
    unfolding no_users_def i e and_mask10 ..
  also have "\<dots> \<longleftrightarrow> (- n) mod 1024 = 0" by (simp only: mod_mult_self1)
  also have "\<dots> \<longleftrightarrow> n = 0" using assms by (auto simp: zmod_zminus1_eq_if mod_pos_pos_trivial)
  finally show ?thesis .
qed

text \<open>A new buffer has at least the room asked for.\<close>

lemma and_not_mask10: "x AND NOT 1023 = x - x mod 1024" for x :: int
proof -
  have "x = (x AND NOT 1023) OR (x AND 1023)" by (rule bit_eqI) (auto simp: bit_simps)
  moreover have "(x AND NOT 1023) AND (x AND 1023) = 0" by (rule bit_eqI) (auto simp: bit_simps)
  ultimately have "x = (x AND NOT 1023) + (x AND 1023)"
    using disjunctive_add_eq_or [of "x AND NOT 1023" "x AND 1023"] by simp
  then show ?thesis unfolding and_mask10 by simp
qed

lemma Writer_CreateSharedBuffer_room:
  assumes "size_fits hint"
  shows "hint \<le> s_size (Writer_CreateSharedBuffer hint)"
    "s_size (Writer_CreateSharedBuffer hint) < 2 ^ 21"
    "s_cursor (Writer_CreateSharedBuffer hint) = s_size (Writer_CreateSharedBuffer hint) * 1024 + 1023"
    "s_next (Writer_CreateSharedBuffer hint) = None" "0 < s_size (Writer_CreateSharedBuffer hint)"
proof -
  have m: "x AND - 1024 = x - x mod 1024" for x :: int using and_not_mask10 [of x] by simp
  have "x - x mod 1024 > x - 1024" for x :: int by (simp add: algebra_simps)
  from this [of "hint + 1051"]
  have "hint + 28 \<le> shared_block_size hint" "1024 \<le> shared_block_size hint"
    "shared_block_size hint < 2 ^ 21 + 28"
    using assms unfolding shared_block_size_def Let_def shared_consts size_fits_def
    by (auto simp: m uint32_id)
  then show "hint \<le> s_size (Writer_CreateSharedBuffer hint)" "s_size (Writer_CreateSharedBuffer hint) < 2 ^ 21"
    "s_cursor (Writer_CreateSharedBuffer hint) = s_size (Writer_CreateSharedBuffer hint) * 1024 + 1023"
    "s_next (Writer_CreateSharedBuffer hint) = None" "0 < s_size (Writer_CreateSharedBuffer hint)"
    by (auto simp: Writer_CreateSharedBuffer_def Let_def push_bit_or_init sizeof_FSharedBuffer_def uint32_id int32_id)
qed

section \<open>Threads and the worker\<close>

text \<open>
  A thread in a scope of an important event has read GSharedBuffer (\<open>P_loaded\<close>), holds a
  region (\<open>P_in\<close>, by its distance from the end of the buffer and its size), installs the next
  buffer (\<open>P_owner\<close>), waits for that (\<open>P_waiter\<close>) or is about to leave a buffer for the next
  one (\<open>P_leaving\<close>). The fields below \<open>whead\<close> record what happened and direct no step: the
  addresses used and freed, the bytes not handed out, the regions handed out, the ranges sent,
  whether a thread ever counted itself into a buffer that was freed before, the threads that
  found too little space in a buffer, and the largest size asked for.
\<close>

datatype scope_pc =
    P_idle
  | P_loaded nat int
  | P_in nat int int
  | P_owner nat int int
  | P_waiter nat int
  | P_leaving nat nat int

record shared_conc = shared_state +
  pc_of :: "nat \<Rightarrow> scope_pc"
  whead :: "nat option"
  used_bufs :: "nat set"
  freed_bufs :: "nat set"
  mark :: "nat \<Rightarrow> int"
  claims :: "(nat \<times> int \<times> int) list"
  ranges_sent :: "(nat \<times> int \<times> int) list"
  late_claim :: bool
  failed :: "nat \<Rightarrow> nat set"
  max_alloc :: int

definition set_pc :: "nat \<Rightarrow> scope_pc \<Rightarrow> shared_conc \<Rightarrow> shared_conc" where
  "set_pc t p s = s\<lparr>pc_of := (pc_of s)(t := p)\<rparr>"

fun after_claim :: "nat \<Rightarrow> nat \<Rightarrow> int \<Rightarrow> claim_result \<Rightarrow> shared_conc \<Rightarrow> shared_conc" where
  "after_claim t b a (Claimed off) s =
     (set_pc t (P_in b off a) s)\<lparr>mark := (mark s)(b := off - a),
        claims := claims s @ [(b, s_size (sb_at s b) - off, s_size (sb_at s b) - off + a)]\<rparr>"
| "after_claim t b a (Owner r) s =
     (set_pc t (P_owner b r a) s)\<lparr>failed := (failed s)(b := insert t (failed s b))\<rparr>"
| "after_claim t b a Waiter s =
     (set_pc t (P_waiter b a) s)\<lparr>failed := (failed s)(b := insert t (failed s b))\<rparr>"

text \<open>
  The steps of threads below \<open>N\<close>. An address is handed out once by the allocator. A turn of the
  worker reads the cursor of one buffer only, and what else it reads is not written any more.
\<close>

inductive sb_work :: "shared_conc \<Rightarrow> shared_conc \<Rightarrow> bool" where
  look: "whead s = None \<Longrightarrow> sb_work s (s\<lparr>whead := Some (GSharedBuffer s)\<rparr>)"
| turn: "whead s = Some h \<Longrightarrow> Writer_UpdateSharedBuffers_turn h s = Some (u, fr, r, s1) \<Longrightarrow>
     sb_work s (s1\<lparr>whead := (if u = Upd_done then None else Some h),
       freed_bufs := freed_bufs s \<union> set_option fr,
       ranges_sent := ranges_sent s @ (case r of None \<Rightarrow> [] | Some (lo, hi) \<Rightarrow> [(GTailBuffer s, lo, hi)])\<rparr>)"

inductive sb_step :: "nat \<Rightarrow> shared_conc \<Rightarrow> shared_conc \<Rightarrow> bool" for N where
  enter: "t < N \<Longrightarrow> pc_of s t = P_idle \<Longrightarrow> 0 < a \<Longrightarrow>
     sb_step N s ((set_pc t (P_loaded (GSharedBuffer s) a) s)\<lparr>max_alloc := max (max_alloc s) a\<rparr>)"
| claim: "t < N \<Longrightarrow> pc_of s t = P_loaded b a \<Longrightarrow> claim_region b a s = (r, s1) \<Longrightarrow>
     sb_step N s ((after_claim t b a r s1)\<lparr>late_claim := late_claim s \<or> b \<in> freed_bufs s\<rparr>)"
| install: "t < N \<Longrightarrow> pc_of s t = P_owner b r a \<Longrightarrow> nb \<notin> used_bufs s \<Longrightarrow>
     sb_step N s ((set_pc t (P_leaving b nb a) (install_next b r a nb s))
       \<lparr>used_bufs := insert nb (used_bufs s),
        mark := (mark s)(nb := s_size (sb_at (install_next b r a nb s) nb))\<rparr>)"
| wait: "t < N \<Longrightarrow> pc_of s t = P_waiter b a \<Longrightarrow> GSharedBuffer s \<noteq> b \<Longrightarrow>
     sb_step N s (set_pc t (P_leaving b (GSharedBuffer s) a) s)"
| leave: "t < N \<Longrightarrow> pc_of s t = P_leaving b nb a \<Longrightarrow>
     sb_step N s (set_pc t (P_loaded nb a) (release_ref b s))"
| exit: "t < N \<Longrightarrow> pc_of s t = P_in b off a \<Longrightarrow>
     sb_step N s (set_pc t P_idle (release_ref b s))"
| work: "sb_work s s' \<Longrightarrow> sb_step N s s'"

inductive sb_reachable :: "nat \<Rightarrow> shared_conc \<Rightarrow> shared_conc \<Rightarrow> bool" for N s0 where
  sb_start: "sb_reachable N s0 s0"
| sb_next: "sb_reachable N s0 s \<Longrightarrow> sb_step N s s' \<Longrightarrow> sb_reachable N s0 s'"

definition shared_init :: "nat \<Rightarrow> (nat \<Rightarrow> shared_buffer) \<Rightarrow> shared_conc" where
  "shared_init b m = Writer_InitializeSharedBuffers b
     \<lparr>sb_at = m, GSharedBuffer = b, GTailBuffer = b, GTailPreSent = 0, pc_of = (\<lambda>_. P_idle),
      whead = None, used_bufs = {b}, freed_bufs = {},
      mark = (\<lambda>_. s_size (Writer_CreateSharedBuffer 0)), claims = [], ranges_sent = [], late_claim = False,
      failed = (\<lambda>_. {}), max_alloc = 0\<rparr>"

section \<open>The invariant\<close>

fun pc_buf :: "scope_pc \<Rightarrow> nat option" where
  "pc_buf (P_in b off a) = Some b"
| "pc_buf (P_owner b r a) = Some b"
| "pc_buf (P_waiter b a) = Some b"
| "pc_buf (P_leaving b nb a) = Some b"
| "pc_buf p = None"

definition held_by :: "nat \<Rightarrow> shared_conc \<Rightarrow> nat \<Rightarrow> nat set" where
  "held_by N s b = {t. t < N \<and> pc_buf (pc_of s t) = Some b}"

definition owned :: "nat \<Rightarrow> shared_conc \<Rightarrow> bool" where
  "owned N s \<longleftrightarrow> (\<exists>t<N. \<exists>b r a. pc_of s t = P_owner b r a)"

definition filled :: "shared_conc \<Rightarrow> nat \<Rightarrow> int" where
  "filled s b = s_size (sb_at s b) - mark s b"

definition bytes_of :: "(nat \<times> int \<times> int) list \<Rightarrow> (nat \<times> int) list" where
  "bytes_of rs = concat (map (\<lambda>(b, lo, hi). map (Pair b) [lo..hi - 1]) rs)"

definition pending :: "shared_conc \<Rightarrow> nat list \<Rightarrow> (nat \<times> int \<times> int) list" where
  "pending s bs = (hd bs, GTailPreSent s, filled s (hd bs)) # map (\<lambda>b. (b, 0, filled s b)) (tl bs)"

fun nexts :: "(nat \<Rightarrow> shared_buffer) \<Rightarrow> nat list \<Rightarrow> bool" where
  "nexts m (b # c # bs) \<longleftrightarrow> s_next (m b) = Some c \<and> nexts m (c # bs)"
| "nexts m [b] \<longleftrightarrow> s_next (m b) = None"
| "nexts m [] \<longleftrightarrow> True"

definition chain_ok :: "shared_conc \<Rightarrow> nat list \<Rightarrow> bool" where
  "chain_ok s bs \<longleftrightarrow> bs \<noteq> [] \<and> distinct bs \<and> hd bs = GTailBuffer s \<and> last bs = GSharedBuffer s \<and>
     used_bufs s = freed_bufs s \<union> set bs \<and> freed_bufs s \<inter> set bs = {} \<and> nexts (sb_at s) bs"

definition cursor_ok :: "nat \<Rightarrow> shared_conc \<Rightarrow> nat \<Rightarrow> bool" where
  "cursor_ok N s b \<longleftrightarrow> 0 \<le> mark s b \<and> mark s b \<le> s_size (sb_at s b) \<and>
     (\<exists>r. s_cursor (sb_at s b) = r * 1024 + 1023 - int (card (held_by N s b)) \<and>
       (if b = GSharedBuffer s \<and> \<not> owned N s then r = mark s b else r < 0) \<and>
       (b \<noteq> GSharedBuffer s \<longrightarrow> s_final (sb_at s b) = mark s b))"

definition spc_ok :: "shared_conc \<Rightarrow> nat list \<Rightarrow> nat \<Rightarrow> bool" where
  "spc_ok s bs t \<longleftrightarrow> (case pc_of s t of
       P_idle \<Rightarrow> True
     | P_loaded b a \<Rightarrow> b \<in> used_bufs s \<and> 0 < a
     | P_in b off a \<Rightarrow> b \<in> set bs \<and> 0 < a \<and> mark s b \<le> off - a \<and> off \<le> s_size (sb_at s b) \<and>
         (b, s_size (sb_at s b) - off, s_size (sb_at s b) - off + a) \<in> set (claims s) \<and>
         (b = GTailBuffer s \<longrightarrow> GTailPreSent s \<le> s_size (sb_at s b) - off)
     | P_owner b r a \<Rightarrow> b = GSharedBuffer s \<and> 0 < a \<and> drop_bit CursorShift r = mark s b
     | P_waiter b a \<Rightarrow> b \<in> set bs \<and> 0 < a
     | P_leaving b nb a \<Rightarrow> b \<in> set bs \<and> 0 < a \<and> nb \<in> used_bufs s)"

definition regions_apart :: "shared_conc \<Rightarrow> bool" where
  "regions_apart s \<longleftrightarrow> (\<forall>t u b off a off' a'. t \<noteq> u \<and> pc_of s t = P_in b off a \<and> pc_of s u = P_in b off' a' \<longrightarrow>
     off \<le> off' - a' \<or> off' \<le> off - a)"

definition one_owner :: "shared_conc \<Rightarrow> bool" where
  "one_owner s \<longleftrightarrow> (\<forall>t u b r a b' r' a'. pc_of s t = P_owner b r a \<and> pc_of s u = P_owner b' r' a' \<longrightarrow> t = u)"

definition bytes_ok :: "shared_conc \<Rightarrow> nat list \<Rightarrow> bool" where
  "bytes_ok s bs \<longleftrightarrow> 0 \<le> GTailPreSent s \<and> GTailPreSent s \<le> filled s (hd bs) \<and>
     bytes_of (claims s) = bytes_of (ranges_sent s) @ bytes_of (pending s bs) \<and>
     (\<forall>(b, i) \<in> set (bytes_of (ranges_sent s)). b \<in> freed_bufs s \<or> b = GTailBuffer s \<and> i < GTailPreSent s)"

definition sb_inv :: "nat \<Rightarrow> shared_conc \<Rightarrow> nat list \<Rightarrow> bool" where
  "sb_inv N s bs \<longleftrightarrow> chain_ok s bs \<and> (\<forall>b\<in>set bs. cursor_ok N s b) \<and> (\<forall>t. spc_ok s bs t) \<and>
     (\<forall>t. N \<le> t \<longrightarrow> pc_of s t = P_idle) \<and> regions_apart s \<and> one_owner s \<and> bytes_ok s bs \<and>
     (\<forall>h. whead s = Some h \<longrightarrow> h \<in> set bs)"

text \<open>
  The cursor does not get too small: a thread that finds too little space in a buffer never asks
  that buffer again.
\<close>

definition pc_bound :: "shared_conc \<Rightarrow> nat \<Rightarrow> bool" where
  "pc_bound s t \<longleftrightarrow> (case pc_of s t of
       P_loaded b a \<Rightarrow> t \<notin> failed s b \<and> a \<le> max_alloc s
     | P_owner b r a \<Rightarrow> a \<le> max_alloc s
     | P_waiter b a \<Rightarrow> a \<le> max_alloc s
     | P_leaving b nb a \<Rightarrow> t \<notin> failed s nb \<and> a \<le> max_alloc s
     | _ \<Rightarrow> True)"

definition cursor_bound :: "nat \<Rightarrow> shared_conc \<Rightarrow> nat \<Rightarrow> bool" where
  "cursor_bound N s b \<longleftrightarrow> s_size (sb_at s b) < 2 ^ 21 \<and>
     1023 - int (card (held_by N s b)) - 1024 * (max_alloc s * int (card (failed s b))) \<le> s_cursor (sb_at s b)"

definition bound_inv :: "nat \<Rightarrow> shared_conc \<Rightarrow> nat list \<Rightarrow> bool" where
  "bound_inv N s bs \<longleftrightarrow> (\<forall>b\<in>set bs. cursor_bound N s b) \<and> (\<forall>t. pc_bound s t) \<and>
     (\<forall>t\<in>failed s (GSharedBuffer s). pc_buf (pc_of s t) = Some (GSharedBuffer s) \<and>
        (\<forall>b off a. pc_of s t \<noteq> P_in b off a)) \<and>
     (\<forall>b. failed s b \<subseteq> {..<N}) \<and> (\<forall>b. b \<notin> used_bufs s \<longrightarrow> failed s b = {}) \<and> 0 \<le> max_alloc s \<and>
     (\<forall>t b nb a. pc_of s t = P_leaving b nb a \<longrightarrow> b \<noteq> GSharedBuffer s)"

text \<open>\<open>N\<close> threads that ask for the largest size at once do not make a cursor wrap around.\<close>

definition claims_fit :: "nat \<Rightarrow> shared_conc \<Rightarrow> bool" where
  "claims_fit N s \<longleftrightarrow> N \<le> 1023 \<and> int N * max_alloc s \<le> 2 ^ 21 - 1024 \<and> max_alloc s \<le> 2 ^ 21 - 1024"

lemmas sb_inv_defs = sb_inv_def chain_ok_def spc_ok_def regions_apart_def one_owner_def bytes_ok_def

lemma finite_held [simp]: "finite (held_by N s b)"
  by (simp add: held_by_def)

lemma held_by_set_pc:
  assumes "t < N"
  shows "held_by N (set_pc t p s) b =
     (if pc_buf p = Some b then insert t (held_by N s b) else held_by N s b - {t})"
  using assms by (auto simp: held_by_def set_pc_def)

lemma set_pc_simps [simp]:
  "sb_at (set_pc t p s) = sb_at s" "GSharedBuffer (set_pc t p s) = GSharedBuffer s"
  "GTailBuffer (set_pc t p s) = GTailBuffer s" "GTailPreSent (set_pc t p s) = GTailPreSent s"
  "whead (set_pc t p s) = whead s" "used_bufs (set_pc t p s) = used_bufs s"
  "freed_bufs (set_pc t p s) = freed_bufs s" "mark (set_pc t p s) = mark s"
  "claims (set_pc t p s) = claims s" "ranges_sent (set_pc t p s) = ranges_sent s"
  "late_claim (set_pc t p s) = late_claim s" "failed (set_pc t p s) = failed s"
  "max_alloc (set_pc t p s) = max_alloc s" "pc_of (set_pc t p s) = (pc_of s)(t := p)"
  by (simp_all add: set_pc_def)

lemma held_card: 
  assumes "t < N" "pc_buf (pc_of s t) = None"
  shows "card (held_by N s b) < N"
proof -
  have "held_by N s b \<subseteq> {..<N} - {t}" using assms(2) by (auto simp: held_by_def)
  then have "card (held_by N s b) \<le> card ({..<N} - {t})" by (rule card_mono [rotated]) simp
  also have "\<dots> < N" using assms(1) by (simp add: card_Diff_singleton)
  finally show ?thesis .
qed

lemma nexts_cong: "(\<And>b. b \<in> set bs \<Longrightarrow> s_next (m' b) = s_next (m b)) \<Longrightarrow> nexts m' bs = nexts m bs"
  by (induction m bs rule: nexts.induct) auto

lemma nexts_snoc:
  "bs \<noteq> [] \<Longrightarrow> distinct (bs @ [c]) \<Longrightarrow> nexts m bs \<Longrightarrow>
     (\<And>b. b \<in> set (butlast bs) \<Longrightarrow> s_next (m' b) = s_next (m b)) \<Longrightarrow>
     s_next (m' (last bs)) = Some c \<Longrightarrow> s_next (m' c) = None \<Longrightarrow> nexts m' (bs @ [c])"
proof (induction m bs rule: nexts.induct)
  case (1 m b d bs)
  have "nexts m' ((d # bs) @ [c])" using 1 by (intro "1.IH") auto
  then show ?case using 1 by auto
qed auto

lemma cursor_ok_cong:
  "mark s' b = mark s b \<Longrightarrow> sb_at s' b = sb_at s b \<Longrightarrow> held_by N s' b = held_by N s b \<Longrightarrow>
   GSharedBuffer s' = GSharedBuffer s \<Longrightarrow> owned N s' = owned N s \<Longrightarrow> cursor_ok N s' b = cursor_ok N s b"
  by (simp only: cursor_ok_def)

lemma pending_cong:
  "(\<And>b. b \<in> set bs \<Longrightarrow> filled s' b = filled s b) \<Longrightarrow> bs \<noteq> [] \<Longrightarrow> GTailPreSent s' = GTailPreSent s \<Longrightarrow>
   pending s' bs = pending s bs"
  by (cases bs) (auto simp: pending_def)

lemma bytes_ok_cong:
  "(\<And>b. b \<in> set bs \<Longrightarrow> filled s' b = filled s b) \<Longrightarrow> bs \<noteq> [] \<Longrightarrow> GTailPreSent s' = GTailPreSent s \<Longrightarrow>
   GTailBuffer s' = GTailBuffer s \<Longrightarrow> claims s' = claims s \<Longrightarrow> ranges_sent s' = ranges_sent s \<Longrightarrow>
   freed_bufs s' = freed_bufs s \<Longrightarrow> bytes_ok s' bs = bytes_ok s bs"
  using pending_cong [of bs s' s] by (simp add: bytes_ok_def)

text \<open>A step of a thread that keeps its buffer and neither takes nor gives up ownership or a region.\<close>

lemma owned_set_pc:
  assumes "t < N" "\<And>b r a. pc_of s t \<noteq> P_owner b r a" "\<And>b r a. p \<noteq> P_owner b r a"
  shows "owned N (set_pc t p s) = owned N s"
  using assms unfolding owned_def by (auto split: if_splits) (metis fun_upd_other)+

lemma plain_step:
  assumes inv: "sb_inv N s bs" and t: "t < N"
    and own: "\<And>b r a. pc_of s t \<noteq> P_owner b r a" "\<And>b r a. p \<noteq> P_owner b r a" "\<And>b off a. p \<noteq> P_in b off a"
    and buf: "pc_buf p = pc_buf (pc_of s t)"
    and ok: "spc_ok (set_pc t p s) bs t"
  shows "sb_inv N (set_pc t p s) bs"
proof -
  have h: "held_by N (set_pc t p s) b = held_by N s b" for b
    using t buf by (auto simp: held_by_def)
  have o: "owned N (set_pc t p s) = owned N s" by (rule owned_set_pc [OF t own(1,2)])
  have c: "cursor_ok N (set_pc t p s) b = cursor_ok N s b" for b
    by (rule cursor_ok_cong) (simp_all add: h o)
  have b: "bytes_ok (set_pc t p s) bs = bytes_ok s bs"
    using inv by (intro bytes_ok_cong) (auto simp: sb_inv_def chain_ok_def filled_def)
  have ch: "chain_ok (set_pc t p s) bs = chain_ok s bs" by (simp add: chain_ok_def)
  have sp: "spc_ok (set_pc t p s) bs u" for u
  proof (cases "u = t")
    case True then show ?thesis using ok by simp
  next
    case False
    moreover have "spc_ok s bs u" using inv by (simp add: sb_inv_def)
    ultimately show ?thesis by (auto simp: spc_ok_def split: scope_pc.splits)
  qed
  have ra: "regions_apart (set_pc t p s)"
    using inv own(3) unfolding sb_inv_def regions_apart_def by (auto split: if_splits)
  have oo: "one_owner (set_pc t p s)"
    using inv own(2) unfolding sb_inv_def one_owner_def by (auto split: if_splits)
  show ?thesis using inv t sp ra oo unfolding sb_inv_def by (auto simp: c b ch)
qed

lemma chain_ends:
  assumes "sb_inv N s bs"
  shows "GSharedBuffer s \<in> set bs" "GTailBuffer s \<in> set bs" "GSharedBuffer s \<in> used_bufs s" "bs \<noteq> []"
proof -
  have "bs \<noteq> []" "hd bs = GTailBuffer s" "last bs = GSharedBuffer s" "used_bufs s = freed_bufs s \<union> set bs"
    using assms by (auto simp: sb_inv_def chain_ok_def)
  then show "GSharedBuffer s \<in> set bs" "GTailBuffer s \<in> set bs" "GSharedBuffer s \<in> used_bufs s" "bs \<noteq> []"
    by (metis last_in_set hd_in_set UnI2)+
qed

lemma spc: "sb_inv N s bs \<Longrightarrow> spc_ok s bs t"
  by (simp add: sb_inv_def)

lemma step_enter:
  assumes "sb_inv N s bs" "t < N" "pc_of s t = P_idle" "0 < a"
  shows "sb_inv N (set_pc t (P_loaded (GSharedBuffer s) a) s) bs"
  using assms chain_ends [OF assms(1)] by (intro plain_step) (auto simp: spc_ok_def)

lemma step_wait:
  assumes "sb_inv N s bs" "t < N" "pc_of s t = P_waiter b a"
  shows "sb_inv N (set_pc t (P_leaving b (GSharedBuffer s) a) s) bs"
  using assms chain_ends [OF assms(1)] spc [OF assms(1), of t]
  by (intro plain_step) (auto simp: spc_ok_def)

text \<open>A thread gives its use of a buffer back.\<close>

lemma release_ref_simps [simp]:
  "GSharedBuffer (release_ref b s) = GSharedBuffer s" "GTailBuffer (release_ref b s) = GTailBuffer s"
  "GTailPreSent (release_ref b s) = GTailPreSent s" "shared_state.more (release_ref b s) = shared_state.more s"
  "sb_at (release_ref b s) = (sb_at s)(b := (sb_at s b)\<lparr>s_cursor := int32 (s_cursor (sb_at s b) + 1)\<rparr>)"
  by (simp_all add: release_ref_def atomic_add_cursor_def upd_sb_def RefBit_def)

lemma release_conc [simp]:
  fixes s :: shared_conc shows
  "pc_of (release_ref b s) = pc_of s" "whead (release_ref b s) = whead s"
  "used_bufs (release_ref b s) = used_bufs s" "freed_bufs (release_ref b s) = freed_bufs s"
  "mark (release_ref b s) = mark s" "claims (release_ref b s) = claims s"
  "ranges_sent (release_ref b s) = ranges_sent s" "late_claim (release_ref b s) = late_claim s"
  "failed (release_ref b s) = failed s" "max_alloc (release_ref b s) = max_alloc s"
  by (simp_all add: release_ref_def atomic_add_cursor_def upd_sb_def)

lemma release_step:
  assumes inv: "sb_inv N s bs" and t: "t < N" and N: "N \<le> 1023"
    and buf: "pc_buf (pc_of s t) = Some b" "pc_buf p = None"
    and own: "\<And>b r a. pc_of s t \<noteq> P_owner b r a"
    and wrap [simp]: "int32 (s_cursor (sb_at s b) + 1) = s_cursor (sb_at s b) + 1"
    and ok: "spc_ok (set_pc t p (release_ref b s)) bs t"
  shows "sb_inv N (set_pc t p (release_ref b s)) bs"
proof -
  let ?s = "set_pc t p (release_ref b s)"
  have po: "p \<noteq> P_owner b' r a" "p \<noteq> P_in b' r a" for b' r a using buf(2) by auto
  have o: "owned N ?s = owned N s"
    using owned_set_pc [OF t, of "release_ref b s" p] own po by (simp add: owned_def)
  have h: "held_by N ?s c = (if c = b then held_by N s b - {t} else held_by N s c)" for c
    using t buf by (auto simp: held_by_def)
  have tb: "t \<in> held_by N s b" using t buf by (simp add: held_by_def)
  have c: "cursor_ok N ?s c" if "cursor_ok N s c" for c
  proof (cases "c = b")
    case False
    then show ?thesis using that cursor_ok_cong [of ?s c s N] by (simp add: h o)
  next
    case True
    have "int (card (held_by N s b - {t})) = int (card (held_by N s b)) - 1"
      using tb card_gt_0_iff [of "held_by N s b"] by (auto simp: card_Diff_singleton of_nat_diff)
    then show ?thesis using that True unfolding cursor_ok_def by (auto simp: h o)
  qed
  have b: "bytes_ok ?s bs = bytes_ok s bs"
    using inv by (intro bytes_ok_cong) (auto simp: sb_inv_def chain_ok_def filled_def)
  have ch: "chain_ok ?s bs"
    using inv nexts_cong [of bs "sb_at ?s" "sb_at s"] by (auto simp: sb_inv_def chain_ok_def)
  have sp: "spc_ok ?s bs u" for u
  proof (cases "u = t")
    case True then show ?thesis using ok by simp
  next
    case False 
    moreover have "spc_ok s bs u" using inv by (simp add: sb_inv_def)
    ultimately show ?thesis by (auto simp: spc_ok_def split: scope_pc.splits)
  qed
  have ra: "regions_apart ?s"
    using inv po unfolding sb_inv_def regions_apart_def by (auto split: if_splits)
  have oo: "one_owner ?s"
    using inv po unfolding sb_inv_def one_owner_def by (auto split: if_splits)
  show ?thesis using inv t sp ra oo c ch unfolding sb_inv_def by (auto simp: b)
qed

lemma step_leave:
  assumes "int32 (s_cursor (sb_at s b) + 1) = s_cursor (sb_at s b) + 1"
  assumes "sb_inv N s bs" "t < N" "N \<le> 1023" "pc_of s t = P_leaving b nb a"
  shows "sb_inv N (set_pc t (P_loaded nb a) (release_ref b s)) bs"
  using assms spc [OF assms(2), of t] by (intro release_step) (auto simp: spc_ok_def)

lemma step_exit:
  assumes "int32 (s_cursor (sb_at s b) + 1) = s_cursor (sb_at s b) + 1"
  assumes "sb_inv N s bs" "t < N" "N \<le> 1023" "pc_of s t = P_in b off a"
  shows "sb_inv N (set_pc t P_idle (release_ref b s)) bs"
  using assms by (intro release_step) (auto simp: spc_ok_def)

lemma ghost_simps:
  "cursor_ok N (s\<lparr>whead := w\<rparr>) b = cursor_ok N s b" "cursor_ok N (s\<lparr>late_claim := l\<rparr>) b = cursor_ok N s b"
  "cursor_ok N (s\<lparr>max_alloc := m\<rparr>) b = cursor_ok N s b" "spc_ok (s\<lparr>max_alloc := m\<rparr>) bs t = spc_ok s bs t"
  "spc_ok (s\<lparr>whead := w\<rparr>) bs t = spc_ok s bs t" "spc_ok (s\<lparr>late_claim := l\<rparr>) bs t = spc_ok s bs t"
  by (simp_all only: cursor_ok_def held_by_def owned_def, cases "pc_of s t")
     (auto simp: spc_ok_def cursor_ok_def held_by_def owned_def split: scope_pc.splits)

lemmas sb_inv_ghost = sb_inv_def ghost_simps chain_ok_def regions_apart_def one_owner_def bytes_ok_def
  pending_def filled_def

lemma sb_inv_whead:
  "sb_inv N s bs \<Longrightarrow> (\<And>h. w = Some h \<Longrightarrow> h \<in> set bs) \<Longrightarrow> sb_inv N (s\<lparr>whead := w\<rparr>) bs"
  by (auto simp: sb_inv_ghost)

lemma sb_inv_late: "sb_inv N s bs \<Longrightarrow> sb_inv N (s\<lparr>late_claim := l\<rparr>) bs"
  by (auto simp: sb_inv_ghost)

lemma sb_inv_max: "sb_inv N s bs \<Longrightarrow> sb_inv N (s\<lparr>max_alloc := m\<rparr>) bs"
  by (auto simp: sb_inv_ghost)

section \<open>The next buffer is installed\<close>

lemma install_next_simps:
  "GSharedBuffer (install_next b r a nb s) = nb" "GTailBuffer (install_next b r a nb s) = GTailBuffer s"
  "GTailPreSent (install_next b r a nb s) = GTailPreSent s"
  "shared_state.more (install_next b r a nb s) = shared_state.more s"
  "size_fits a \<Longrightarrow> nb \<noteq> b \<Longrightarrow> sb_at (install_next b r a nb s) = (sb_at s)(nb := Writer_CreateSharedBuffer a,
     b := (sb_at s b)\<lparr>s_next := Some nb, s_final := drop_bit CursorShift r\<rparr>)"
  by (auto simp: install_next_def upd_sb_def Let_def drop_NegSize [simplified])

lemma install_conc [simp]:
  fixes s :: shared_conc shows
  "pc_of (install_next b r a nb s) = pc_of s" "whead (install_next b r a nb s) = whead s"
  "used_bufs (install_next b r a nb s) = used_bufs s" "freed_bufs (install_next b r a nb s) = freed_bufs s"
  "mark (install_next b r a nb s) = mark s" "claims (install_next b r a nb s) = claims s"
  "ranges_sent (install_next b r a nb s) = ranges_sent s" "late_claim (install_next b r a nb s) = late_claim s"
  "failed (install_next b r a nb s) = failed s" "max_alloc (install_next b r a nb s) = max_alloc s"
  by (simp_all add: install_next_def upd_sb_def Let_def)

lemma bytes_of_simps [simp]:
  "bytes_of [] = []" "bytes_of (x # xs) = map (Pair (fst x)) [fst (snd x)..snd (snd x) - 1] @ bytes_of xs"
  "bytes_of (xs @ ys) = bytes_of xs @ bytes_of ys"
  by (simp_all add: bytes_of_def split: prod.splits)

lemma step_install:
  assumes inv: "sb_inv N s bs" and t: "t < N" and pc: "pc_of s t = P_owner b r a" and nb: "nb \<notin> used_bufs s"
    and fit: "size_fits a"
  shows "sb_inv N ((set_pc t (P_leaving b nb a) (install_next b r a nb s))
       \<lparr>used_bufs := insert nb (used_bufs s),
        mark := (mark s)(nb := s_size (sb_at (install_next b r a nb s) nb))\<rparr>) (bs @ [nb])"
    (is "sb_inv N ?s _")
proof -
  have spct: "GSharedBuffer s = b" "0 < a" "drop_bit CursorShift r = mark s b"
    using spc [OF inv, of t] pc by (auto simp: spc_ok_def)
  note ends = chain_ends [OF inv]
  have bnb: "nb \<noteq> b" "nb \<notin> set bs" "nb \<notin> freed_bufs s" using ends spct nb inv by (auto simp: sb_inv_def chain_ok_def)
  note sim = install_next_simps(1-3) install_next_simps(5) [OF fit bnb(1)]
  note room = Writer_CreateSharedBuffer_room [OF fit]
  define s' where "s' = ?s"
  have fld [simp]: "sb_at s' = (sb_at s)(nb := Writer_CreateSharedBuffer a,
       b := (sb_at s b)\<lparr>s_next := Some nb, s_final := drop_bit CursorShift r\<rparr>)"
    "GSharedBuffer s' = nb" "GTailBuffer s' = GTailBuffer s" "GTailPreSent s' = GTailPreSent s"
    "pc_of s' = (pc_of s)(t := P_leaving b nb a)" "whead s' = whead s" "used_bufs s' = insert nb (used_bufs s)"
    "freed_bufs s' = freed_bufs s" "mark s' = (mark s)(nb := s_size (Writer_CreateSharedBuffer a))"
    "claims s' = claims s" "ranges_sent s' = ranges_sent s"
    using bnb by (simp_all add: s'_def sim)
  have ow: "\<not> owned N s'"
    using inv t pc unfolding owned_def sb_inv_def one_owner_def by (auto split: if_splits)
  have ow0: "owned N s" using t pc unfolding owned_def by blast
  have hb: "held_by N s' c = held_by N s c" for c using t pc by (auto simp: held_by_def)
  have hnb: "held_by N s nb = {}"
  proof -
    have "pc_buf (pc_of s u) \<noteq> Some nb" for u
      using spc [OF inv, of u] bnb ends by (cases "pc_of s u") (auto simp: spc_ok_def)
    then show ?thesis by (simp add: held_by_def)
  qed
  have c: "cursor_ok N s' c" if "c \<in> set bs" for c
  proof -
    have "c \<noteq> nb" using that bnb by auto
    have "cursor_ok N s c" using inv that by (simp add: sb_inv_def)
    then show ?thesis using \<open>c \<noteq> nb\<close> ow0 spct unfolding cursor_ok_def hb
      by (auto simp: sim)
  qed
  have cn: "cursor_ok N s' nb"
    unfolding cursor_ok_def hb hnb using ow room spct(2) bnb by (auto simp: sim)
  have n: "nexts (sb_at s) bs" "distinct bs" "last bs = b" using inv spct by (auto simp: sb_inv_def chain_ok_def)
  have "b \<notin> set (butlast bs)"
    using n ends(4) by (metis append_butlast_last_id distinct_append disjoint_insert(2) list.set(2) inf_commute not_distinct_conv_prefix)
  then have "nexts (sb_at s') (bs @ [nb])"
    using n bnb ends(4) room(4) spct(2)
    by (intro nexts_snoc [of bs nb "sb_at s"]) (auto simp: sim dest: in_set_butlastD)
  then have ch: "chain_ok s' (bs @ [nb])"
    using inv bnb ends(4) by (auto simp: sb_inv_def chain_ok_def sim)
  have f: "filled s' c = filled s c" if "c \<in> set bs" for c
    using that bnb by (auto simp: filled_def sim)
  have "filled s' nb = 0" using bnb by (simp add: filled_def sim)
  then have "bytes_of (pending s' (bs @ [nb])) = bytes_of (pending s' bs)"
    using ends(4) by (cases bs) (simp_all add: pending_def)
  also have "pending s' bs = pending s bs"
    using f ends(4) by (intro pending_cong) (auto simp: sim)
  finally have b: "bytes_ok s' (bs @ [nb])"
    using inv ends(4) f by (auto simp: sb_inv_def bytes_ok_def sim)
  have sp: "spc_ok s' (bs @ [nb]) u" for u
  proof (cases "u = t")
    case True then show ?thesis using spct ends by (auto simp: spc_ok_def)
  next
    case False
    moreover have "spc_ok s bs u" using spc [OF inv] .
    moreover have "\<not> (\<exists>b r a. pc_of s u = P_owner b r a)"
      using False inv pc by (auto simp: sb_inv_def one_owner_def)
    ultimately show ?thesis using bnb by (auto simp: spc_ok_def sim split: scope_pc.splits)
  qed
  have ra: "regions_apart s'"
    using inv unfolding sb_inv_def regions_apart_def by (auto split: if_splits)
  have oo: "one_owner s'"
    using inv unfolding sb_inv_def one_owner_def by (auto split: if_splits)
  have rest: "\<forall>u. N \<le> u \<longrightarrow> pc_of s' u = P_idle" "\<forall>h. whead s' = Some h \<longrightarrow> h \<in> set (bs @ [nb])"
    using inv t by (auto simp: sb_inv_def)
  show ?thesis using c cn ch b sp ra oo rest unfolding sb_inv_def s'_def [symmetric] by auto
qed

section \<open>A thread asks for a region\<close>

lemma claim_region_conc:
  fixes s :: shared_conc
  assumes "claim_region b a s = (r, s1)" "size_fits a"
    and w: "int32 (s_cursor (sb_at s b) + (- (a * 1024) - 1)) = s_cursor (sb_at s b) + (- (a * 1024) - 1)"
  shows "s1 = s\<lparr>sb_at := (sb_at s)(b := (sb_at s b)\<lparr>s_cursor := s_cursor (sb_at s b) + (- (a * 1024) - 1)\<rparr>)\<rparr>"
    "r = (let c = s_cursor (sb_at s b) in
          if c + (- (a * 1024) - 1) < 0 then if 0 \<le> c then Owner c else Waiter
          else Claimed (drop_bit CursorShift c))"
  using assms(1) w by (auto simp: claim_region_def atomic_add_cursor_def upd_sb_def
    NegSizeAndRef_eq [OF assms(2)] Let_def split: if_splits)

text \<open>The three outcomes, for a buffer of the chain.\<close>

lemma claim_cases:
  assumes inv: "sb_inv N s bs" and t: "t < N" "N \<le> 1023" and pc: "pc_of s t = P_loaded b a" and b: "b \<in> set bs"
    and cl: "claim_region b a s = (r, s1)" "size_fits a"
      "int32 (s_cursor (sb_at s b) + (- (a * 1024) - 1)) = s_cursor (sb_at s b) + (- (a * 1024) - 1)"
  shows "(r = Claimed (mark s b) \<and> b = GSharedBuffer s \<and> \<not> owned N s \<and> a \<le> mark s b) \<or>
    (\<exists>c. r = Owner c \<and> b = GSharedBuffer s \<and> \<not> owned N s \<and> mark s b < a \<and> drop_bit CursorShift c = mark s b) \<or>
    (r = Waiter \<and> (b = GSharedBuffer s \<longrightarrow> owned N s))"
proof -
  have card: "card (held_by N s b) \<le> 1022" using held_card [of t N s b] t pc by simp
  have a: "0 < a" using spc [OF inv, of t] pc by (simp add: spc_ok_def)
  have "cursor_ok N s b" using inv b by (simp add: sb_inv_def)
  then obtain k where k: "s_cursor (sb_at s b) = k * 1024 + 1023 - int (card (held_by N s b))"
    "if b = GSharedBuffer s \<and> \<not> owned N s then k = mark s b else k < 0" "0 \<le> mark s b"
    unfolding cursor_ok_def by blast
  have d: "drop_bit CursorShift (s_cursor (sb_at s b)) = k"
    unfolding k(1) by (rule drop_cursor) (use card in auto)
  show ?thesis
  proof (cases "b = GSharedBuffer s \<and> \<not> owned N s")
    case False
    then have "k \<le> - 1" using k by auto
    then have "s_cursor (sb_at s b) < 0" using k(1) by linarith
    then show ?thesis using claim_region_conc(2) [OF cl] a False by (auto simp: Let_def)
  next
    case True
    then have "k = mark s b" using k by simp
    then have "0 \<le> s_cursor (sb_at s b)" using k card by linarith
    moreover have "s_cursor (sb_at s b) + (- (a * 1024) - 1) < 0 \<longleftrightarrow> mark s b < a"
      using k(1) card \<open>k = mark s b\<close> by linarith
    ultimately show ?thesis using claim_region_conc(2) [OF cl] True d \<open>k = mark s b\<close>
      by (auto simp: Let_def)
  qed
qed

lemma upto_join: "lo \<le> m \<Longrightarrow> m \<le> hi \<Longrightarrow> [lo..hi - 1] = [lo..m - 1] @ [m..hi - (1::int)]"
  using upto_split1 [of lo m "hi - 1"] upto_split2 [of lo "m - 1" "hi - 1"] by (cases "m = hi") auto

lemma pending_grow:
  assumes "bs \<noteq> []" "distinct bs" "last bs = b" "hd bs = b \<longrightarrow> p \<le> f" "0 \<le> f" "0 \<le> a"
    "GTailPreSent s = p" "GTailPreSent s' = p" "filled s b = f" "filled s' b = f + a"
    "\<And>c. c \<in> set bs \<Longrightarrow> c \<noteq> b \<Longrightarrow> filled s' c = filled s c"
  shows "bytes_of (pending s' bs) = bytes_of (pending s bs) @ map (Pair b) [f..f + a - 1]"
proof (cases "hd bs = b")
  case True
  then have "bs = [b]" using assms(1-3)
    by (cases bs) (auto split: if_splits dest: last_in_set)
  then show ?thesis using assms upto_join [of p f "f + a"] by (simp add: pending_def)
next
  case False
  then obtain x ys where bs: "bs = x # ys @ [b]" 
    using assms(1,3) by (cases bs; cases "tl bs" rule: rev_cases) auto
  have "map (\<lambda>c. (c, 0, filled s' c)) ys = map (\<lambda>c. (c, 0, filled s c)) ys"
    using assms(2,11) bs by auto
  then have "bytes_of (map (\<lambda>c. (c, 0, filled s' c)) ys) = bytes_of (map (\<lambda>c. (c, 0, filled s c)) ys)"
    by (rule arg_cong)
  moreover have "filled s' x = filled s x" using assms(2,11) bs by auto
  ultimately show ?thesis using assms(5-10) bs upto_join [of 0 f "f + a"] by (simp add: pending_def)
qed

lemma claim_step_fields:
  assumes "s1 = s\<lparr>sb_at := m\<rparr>"
  shows "sb_at (after_claim t b a r s1) = m" "GSharedBuffer (after_claim t b a r s1) = GSharedBuffer s"
    "GTailBuffer (after_claim t b a r s1) = GTailBuffer s" "GTailPreSent (after_claim t b a r s1) = GTailPreSent s"
    "whead (after_claim t b a r s1) = whead s" "used_bufs (after_claim t b a r s1) = used_bufs s"
    "freed_bufs (after_claim t b a r s1) = freed_bufs s" "ranges_sent (after_claim t b a r s1) = ranges_sent s"
    "pc_of (after_claim t b a r s1) = (pc_of s)(t := (case r of Claimed off \<Rightarrow> P_in b off a | Owner c \<Rightarrow> P_owner b c a | Waiter \<Rightarrow> P_waiter b a))"
    "mark (after_claim t b a r s1) = (case r of Claimed off \<Rightarrow> (mark s)(b := off - a) | _ \<Rightarrow> mark s)"
    "claims (after_claim t b a r s1) = (case r of Claimed off \<Rightarrow>
       claims s @ [(b, s_size (m b) - off, s_size (m b) - off + a)] | _ \<Rightarrow> claims s)"
  using assms by (cases r; simp add: set_pc_def)+

lemma step_claim:
  assumes inv: "sb_inv N s bs" and t: "t < N" "N \<le> 1023" and pc: "pc_of s t = P_loaded b a" and b: "b \<in> set bs"
    and cl: "claim_region b a s = (r, s1)" "size_fits a"
      "int32 (s_cursor (sb_at s b) + (- (a * 1024) - 1)) = s_cursor (sb_at s b) + (- (a * 1024) - 1)"
  shows "sb_inv N (after_claim t b a r s1) bs"
proof -
  define s' where "s' = after_claim t b a r s1"
  let ?c = "s_cursor (sb_at s b)"
  note fld [simp] = claim_step_fields [OF claim_region_conc(1) [OF cl], of t b a r, folded s'_def]
  note cases = claim_cases [OF inv t pc b cl]
  note ends = chain_ends [OF inv]
  have a: "0 < a" using spc [OF inv, of t] pc by (simp add: spc_ok_def)
  have held: "held_by N s' c = (if c = b then insert t (held_by N s b) else held_by N s c)" for c
    using t pc by (cases r) (auto simp: held_by_def)
  have "t \<notin> held_by N s b" using pc by (simp add: held_by_def)
  then have card: "card (held_by N s' b) = card (held_by N s b) + 1" by (simp add: held)
  have ow: "owned N s' \<longleftrightarrow> (case r of Owner _ \<Rightarrow> True | _ \<Rightarrow> owned N s)"
    using t pc by (cases r) (auto simp: owned_def, (metis scope_pc.distinct)+)
  have c: "cursor_ok N s' d" if "d \<in> set bs" for d
  proof (cases "d = b")
    case False
    have "cursor_ok N s d" using inv that by (simp add: sb_inv_def)
    moreover have "owned N s' = owned N s \<or> (\<exists>c. r = Owner c) \<and> b = GSharedBuffer s" using cases by (auto simp: ow)
    ultimately show ?thesis using False unfolding cursor_ok_def
      by (cases r) (auto simp: held)
  next
    case True
    have "cursor_ok N s b" using inv b by (simp add: sb_inv_def)
    then obtain k where k: "?c = k * 1024 + 1023 - int (card (held_by N s b))"
      "if b = GSharedBuffer s \<and> \<not> owned N s then k = mark s b else k < 0" "0 \<le> mark s b" "mark s b \<le> s_size (sb_at s b)"
      "b \<noteq> GSharedBuffer s \<longrightarrow> s_final (sb_at s b) = mark s b"
      unfolding cursor_ok_def by blast
    have "?c + (- (a * 1024) - 1) = (k - a) * 1024 + 1023 - int (card (held_by N s' b))" using k(1) card by simp
    moreover have "if b = GSharedBuffer s \<and> \<not> owned N s' then k - a = mark s' b else k - a < 0"
      "0 \<le> mark s' b" "mark s' b \<le> s_size (sb_at s b)"
      using cases k a by (auto simp: ow)
    moreover have "b \<noteq> GSharedBuffer s \<longrightarrow> mark s' b = mark s b" using cases by auto
    moreover have "s_cursor (sb_at s' b) = ?c + (- (a * 1024) - 1)" "s_size (sb_at s' b) = s_size (sb_at s b)"
      "s_final (sb_at s' b) = s_final (sb_at s b)" by simp_all
    ultimately show ?thesis unfolding True cursor_ok_def fld(2)
      using k(5) by (intro conjI exI [of _ "k - a"]) presburger+
  qed
  have ch: "chain_ok s' bs"
    using inv nexts_cong [of bs "sb_at s'" "sb_at s"] by (auto simp: sb_inv_def chain_ok_def)
  have sp: "spc_ok s' bs u" for u
  proof (cases "u = t")
    case True
    have "0 \<le> mark s b" "mark s b \<le> s_size (sb_at s b)" using inv b by (auto simp: sb_inv_def cursor_ok_def)
    moreover have "b = GTailBuffer s \<longrightarrow> GTailPreSent s \<le> s_size (sb_at s b) - mark s b"
      using inv by (auto simp: sb_inv_def bytes_ok_def chain_ok_def filled_def)
    ultimately show ?thesis using True a b cases by (auto simp: spc_ok_def)
  next
    case False
    moreover have "spc_ok s bs u" by (rule spc [OF inv])
    moreover have "mark s' d \<le> mark s d" for d using cases a by auto
    moreover have "(\<exists>c r a. pc_of s u = P_owner c r a) \<longrightarrow> mark s' = mark s"
    proof
      assume "\<exists>c r a. pc_of s u = P_owner c r a"
      moreover from this have "u < N" using inv by (metis not_le sb_inv_def scope_pc.distinct(5))
      ultimately have "owned N s" by (auto simp: owned_def)
      then show "mark s' = mark s" using cases by auto
    qed
    moreover have "set (claims s) \<subseteq> set (claims s')" by (auto split: claim_result.splits)
    moreover have "s_size (sb_at s' d) = s_size (sb_at s d)" for d by simp
    ultimately show ?thesis
      by (cases "pc_of s u") (auto simp: spc_ok_def simp del: fld(1,10,11) intro: order_trans)
  qed
  have ra: "regions_apart s'"
  proof (cases r)
    case (Claimed off)
    have "off \<le> off' - a'" if "pc_of s u = P_in b off' a'" for u off' a'
      using spc [OF inv, of u] that cases Claimed by (auto simp: spc_ok_def)
    moreover have "regions_apart s" using inv by (simp add: sb_inv_def)
    ultimately show ?thesis using Claimed unfolding regions_apart_def by auto
  next
    case Owner
    then show ?thesis using inv unfolding sb_inv_def regions_apart_def by auto
  next
    case Waiter
    then show ?thesis using inv unfolding sb_inv_def regions_apart_def by auto
  qed
  have none: "pc_of s u \<noteq> P_owner c k d" if "\<not> owned N s" for u c k d
  proof (cases "u < N")
    case True
    then show ?thesis using that unfolding owned_def by blast
  next
    case False
    then have "pc_of s u = P_idle" using inv unfolding sb_inv_def by simp
    then show ?thesis by simp
  qed
  have oo: "one_owner s'"
  proof (cases r)
    case (Owner c)
    then have "pc_of s u \<noteq> P_owner c k d" for u c k d using cases none by auto
    then show ?thesis by (auto simp: one_owner_def Owner)
  qed (use inv in \<open>auto simp: sb_inv_def one_owner_def\<close>)
  have bo: "bytes_ok s bs" "0 \<le> mark s b" "mark s b \<le> s_size (sb_at s b)" "distinct bs" "last bs = GSharedBuffer s"
    using inv b by (auto simp: sb_inv_def cursor_ok_def chain_ok_def)
  have bk: "bytes_ok s' bs"
  proof (cases r)
    case (Claimed off)
    then have m: "mark s' = (mark s)(b := mark s b - a)" "off = mark s b" "b = GSharedBuffer s" using cases by auto
    have "bytes_of (pending s' bs) = bytes_of (pending s bs) @ map (Pair b) [filled s b..filled s b + a - 1]"
      by (rule pending_grow [where p = "GTailPreSent s"])
         (use bo m ends a in \<open>auto simp: filled_def bytes_ok_def\<close>)
    moreover have "bytes_of (claims s') = bytes_of (claims s) @ map (Pair b) [filled s b..filled s b + a - 1]"
      using Claimed m(2) by (simp add: filled_def)
    moreover have "filled s (hd bs) \<le> filled s' (hd bs)" using m a by (simp add: filled_def)
    ultimately show ?thesis using bo(1) unfolding bytes_ok_def by auto
  next
    case Owner
    then have "bytes_ok s' bs = bytes_ok s bs" using ends by (intro bytes_ok_cong) (auto simp: filled_def)
    then show ?thesis using bo by simp
  next
    case Waiter
    then have "bytes_ok s' bs = bytes_ok s bs" using ends by (intro bytes_ok_cong) (auto simp: filled_def)
    then show ?thesis using bo by simp
  qed
  have rest: "\<forall>u. N \<le> u \<longrightarrow> pc_of s' u = P_idle" "\<forall>h. whead s' = Some h \<longrightarrow> h \<in> set bs"
    using inv t by (auto simp: sb_inv_def)
  show ?thesis using c ch sp ra oo bk rest unfolding sb_inv_def s'_def [symmetric] by blast
qed

section \<open>A turn of the worker\<close>

lemma retire_eval:
  fixes s :: shared_conc
  assumes "s_next (sb_at s (GTailBuffer s)) = Some n" "s_final (sb_at s (GTailBuffer s)) = mark s (GTailBuffer s)"
  shows "Writer_RetireSharedBufferImpl s =
    Some (if filled s (GTailBuffer s) \<noteq> GTailPreSent s then Some (GTailPreSent s, filled s (GTailBuffer s)) else None,
      s\<lparr>GTailBuffer := n, GTailPreSent := 0\<rparr>)"
  using assms by (auto simp: Writer_RetireSharedBufferImpl_def filled_def Let_def)

text \<open>The tail gives way to the next buffer; nobody uses it.\<close>

lemma retire_inv:
  assumes inv: "sb_inv N s bs" and bs: "bs = b # n # cs" and free: "held_by N s b = {}"
    and s': "s' = s\<lparr>GTailBuffer := n, GTailPreSent := 0, whead := w, freed_bufs := insert b (freed_bufs s),
       ranges_sent := ranges_sent s @ (if filled s b \<noteq> GTailPreSent s then [(b, GTailPreSent s, filled s b)] else [])\<rparr>"
    and w: "\<And>h. w = Some h \<Longrightarrow> h \<in> set (n # cs)"
  shows "sb_inv N s' (n # cs)"
proof -
  have fld [simp]: "sb_at s' = sb_at s" "GSharedBuffer s' = GSharedBuffer s" "GTailBuffer s' = n" "GTailPreSent s' = 0"
    "pc_of s' = pc_of s" "whead s' = w" "used_bufs s' = used_bufs s" "freed_bufs s' = insert b (freed_bufs s)"
    "mark s' = mark s" "claims s' = claims s" 
    by (simp_all add: s')
  have rs: "bytes_of (ranges_sent s') = bytes_of (ranges_sent s) @ map (Pair b) [GTailPreSent s..filled s b - 1]"
    by (simp add: s')
  have ch: "chain_ok s bs" and b: "GTailBuffer s = b" using inv bs by (auto simp: sb_inv_def chain_ok_def)
  have ch': "chain_ok s' (n # cs)" using ch bs by (auto simp: chain_ok_def)
  have c: "cursor_ok N s' d" if "d \<in> set (n # cs)" for d
    using inv bs that cursor_ok_cong [of s' d s N] by (auto simp: sb_inv_def held_by_def owned_def)
  have nb: "pc_buf (pc_of s t) \<noteq> Some b" for t
  proof (cases "t < N")
    case True then show ?thesis using free by (auto simp: held_by_def)
  next
    case False then show ?thesis using inv by (simp add: sb_inv_def)
  qed
  have bS: "GSharedBuffer s \<noteq> b" using ch bs last_in_set [of "n # cs"] by (auto simp: chain_ok_def)
  have sp: "spc_ok s' (n # cs) t" for t
    using spc [OF inv, of t] nb [of t] bs bS by (cases "pc_of s t") (auto simp: spc_ok_def)
  have p: "bytes_of (pending s bs) = map (Pair b) [GTailPreSent s..filled s b - 1] @ bytes_of (pending s' (n # cs))"
    using bs by (simp add: pending_def filled_def)
  have "0 \<le> filled s n" using inv bs by (auto simp: sb_inv_def cursor_ok_def filled_def)
  then have bk: "bytes_ok s' (n # cs)"
    using inv b unfolding sb_inv_def bytes_ok_def rs p by (auto simp: filled_def)
  show ?thesis using inv c ch' sp bk w unfolding sb_inv_def by (auto simp: regions_apart_def one_owner_def)
qed

lemma sb_inv_second:
  assumes "sb_inv N s bs" "b \<in> set bs" "GTailBuffer s \<noteq> b"
  shows "\<exists>n cs. bs = GTailBuffer s # n # cs \<and> b \<in> set (n # cs) \<and> s_next (sb_at s (GTailBuffer s)) = Some n \<and>
    s_final (sb_at s (GTailBuffer s)) = mark s (GTailBuffer s) \<and> GTailBuffer s \<noteq> GSharedBuffer s"
proof -
  have ch: "chain_ok s bs" using assms by (simp add: sb_inv_def)
  then obtain n cs where bs: "bs = GTailBuffer s # n # cs" using assms(2,3)
    by (cases bs; cases "tl bs") (auto simp: chain_ok_def)
  then have "GTailBuffer s \<noteq> GSharedBuffer s" using ch last_in_set [of "n # cs"] by (auto simp: chain_ok_def)
  moreover have "cursor_ok N s (GTailBuffer s)" using assms(1) bs by (simp add: sb_inv_def)
  ultimately show ?thesis using ch bs assms(2,3) by (auto simp: chain_ok_def cursor_ok_def)
qed

lemma held_le: "card (held_by N s b) \<le> N"
  using card_mono [of "{..<N}" "held_by N s b"] by (auto simp: held_by_def)

lemma users_gone:
  assumes "sb_inv N s bs" "b \<in> set bs" "N \<le> 1023"
  shows "no_users (s_cursor (sb_at s b)) \<longleftrightarrow> held_by N s b = {}"
proof -
  have "cursor_ok N s b" using assms by (simp add: sb_inv_def)
  then obtain r where "s_cursor (sb_at s b) = r * 1024 + 1023 - int (card (held_by N s b))"
    unfolding cursor_ok_def by blast
  then show ?thesis using no_users_iff [of "int (card (held_by N s b))" r] held_le [of N s b] assms(3) by simp
qed

text \<open>The three kinds of turn: it waits, it retires the tail, or it sends what the head has.\<close>

lemma turn_cases:
  assumes inv: "sb_inv N s bs" and N: "N \<le> 1023" and h: "h \<in> set bs" "s_size (sb_at s h) < 2 ^ 21"
  shows "(Writer_UpdateSharedBuffers_turn h s = Some (Upd_spin, None, None, s) \<and> held_by N s (GTailBuffer s) \<noteq> {}) \<or>
    (\<exists>n cs. bs = GTailBuffer s # n # cs \<and> held_by N s (GTailBuffer s) = {} \<and>
       (h \<noteq> GTailBuffer s \<longrightarrow> h \<in> set (n # cs)) \<and>
       Writer_UpdateSharedBuffers_turn h s =
         Some (if h = GTailBuffer s then Upd_done else Upd_again, Some (GTailBuffer s),
           if filled s (GTailBuffer s) \<noteq> GTailPreSent s then Some (GTailPreSent s, filled s (GTailBuffer s)) else None,
           s\<lparr>GTailBuffer := n, GTailPreSent := 0\<rparr>)) \<or>
    (held_by N s (GTailBuffer s) = {} \<and> h = GTailBuffer s \<and> GTailBuffer s = GSharedBuffer s \<and> bs = [h] \<and>
       Writer_UpdateSharedBuffers_turn h s =
         Some (Upd_done, None, if filled s h \<noteq> GTailPreSent s then Some (GTailPreSent s, filled s h) else None,
           s\<lparr>GTailPreSent := filled s h\<rparr>))"
proof (cases "h = GTailBuffer s")
  case False
  then obtain n cs where n: "bs = GTailBuffer s # n # cs" "h \<in> set (n # cs)"
    "s_next (sb_at s (GTailBuffer s)) = Some n" "s_final (sb_at s (GTailBuffer s)) = mark s (GTailBuffer s)"
    using sb_inv_second [OF inv h(1)] by metis
  show ?thesis
    using False n users_gone [OF inv chain_ends(2) [OF inv] N] retire_eval [OF n(3,4)]
    by (auto simp: Writer_UpdateSharedBuffers_turn_def Let_def)
next
  case True
  note u = users_gone [OF inv h(1) N]
  show ?thesis
  proof (cases "held_by N s h = {}")
    case False
    then show ?thesis using True u by (simp add: Writer_UpdateSharedBuffers_turn_def Let_def)
  next
    case free: True
    have "cursor_ok N s h" using inv h(1) by (simp add: sb_inv_def)
    then obtain r where r: "s_cursor (sb_at s h) = r * 1024 + 1023"
      "if h = GSharedBuffer s \<and> \<not> owned N s then r = mark s h else r < 0" "0 \<le> mark s h"
      using free unfolding cursor_ok_def by auto
    have d: "drop_bit CursorShift (s_cursor (sb_at s h)) = r" using drop_cursor [of 0 r] r(1) by simp
    show ?thesis
    proof (cases "h = GSharedBuffer s")
      case False
      then obtain n cs where n: "bs = GTailBuffer s # n # cs"
        "s_next (sb_at s (GTailBuffer s)) = Some n" "s_final (sb_at s (GTailBuffer s)) = mark s (GTailBuffer s)"
        using sb_inv_second [OF inv chain_ends(1) [OF inv]] True by metis
      have "r < 0" using r False by simp
      then show ?thesis
        using True n free u d retire_eval [OF n(2,3)]
        by (auto simp: Writer_UpdateSharedBuffers_turn_def Let_def)
    next
      case head: True
      have "\<not> owned N s"
      proof
        assume "owned N s"
        then obtain t b c a where t: "t < N" "pc_of s t = P_owner b c a" by (auto simp: owned_def)
        then have "b = h" using spc [OF inv, of t] head by (simp add: spc_ok_def)
        then show False using t free by (auto simp: held_by_def)
      qed
      then have "r = mark s h" using r head by simp
      moreover have one: "bs = [h]"
        using inv True head by (cases bs) (auto simp: sb_inv_def chain_ok_def split: if_splits dest: last_in_set)
      moreover have "0 \<le> GTailPreSent s" "GTailPreSent s \<le> filled s h" "mark s h \<le> s_size (sb_at s h)"
        using inv True one by (auto simp: sb_inv_def bytes_ok_def cursor_ok_def)
      then have "uint32 (s_size (sb_at s h) - GTailPreSent s) = s_size (sb_at s h) - GTailPreSent s"
        "uint32 (s_size (sb_at s h) - GTailPreSent s - mark s h) = s_size (sb_at s h) - GTailPreSent s - mark s h"
        "uint32 (filled s h) = filled s h"
        using r(3) h(2) by (auto simp: filled_def intro!: uint32_id)
      ultimately show ?thesis
        using True head free u d r(3)
        by (auto simp: Writer_UpdateSharedBuffers_turn_def Writer_SendHead_def filled_def Let_def)
    qed
  qed
qed

lemma send_inv:
  assumes inv: "sb_inv N s [h]" and tail: "h = GTailBuffer s" and free: "held_by N s h = {}"
    and s': "s' = s\<lparr>GTailPreSent := filled s h, whead := None,
       ranges_sent := ranges_sent s @ (if filled s h \<noteq> GTailPreSent s then [(h, GTailPreSent s, filled s h)] else [])\<rparr>"
  shows "sb_inv N s' [h]"
proof -
  have fld [simp]: "sb_at s' = sb_at s" "GSharedBuffer s' = GSharedBuffer s" "GTailBuffer s' = GTailBuffer s"
    "GTailPreSent s' = filled s h" "pc_of s' = pc_of s" "whead s' = None" "used_bufs s' = used_bufs s"
    "freed_bufs s' = freed_bufs s" "mark s' = mark s" "claims s' = claims s"
    by (simp_all add: s')
  have rs: "bytes_of (ranges_sent s') = bytes_of (ranges_sent s) @ map (Pair h) [GTailPreSent s..filled s h - 1]"
    by (simp add: s')
  have f: "filled s' h = filled s h" by (simp add: filled_def)
  have "bytes_ok s [h]" using inv by (simp add: sb_inv_def)
  then have bk: "bytes_ok s' [h]"
    unfolding bytes_ok_def rs by (auto simp: pending_def tail f [unfolded tail])
  have nb: "pc_buf (pc_of s t) \<noteq> Some h" for t
  proof (cases "t < N")
    case True then show ?thesis using free by (auto simp: held_by_def)
  next
    case False then show ?thesis using inv by (simp add: sb_inv_def)
  qed
  have sp: "spc_ok s' [h] t" for t
    using spc [OF inv, of t] nb [of t] tail by (cases "pc_of s t") (auto simp: spc_ok_def)
  have "cursor_ok N s' h" using inv cursor_ok_cong [of s' h s N]
    by (auto simp: sb_inv_def held_by_def owned_def)
  then show ?thesis using inv sp bk unfolding sb_inv_def
    by (auto simp: chain_ok_def regions_apart_def one_owner_def)
qed

text \<open>
  A step of the worker keeps the invariant; when nobody uses a buffer it also gets on: it sends
  all there is, or the chain becomes shorter.
\<close>

lemma work_step:
  assumes inv: "sb_inv N s bs" and N: "N \<le> 1023" and h: "whead s = Some h" "s_size (sb_at s h) < 2 ^ 21"
    and t: "Writer_UpdateSharedBuffers_turn h s = Some (u, fr, r, s1)"
  defines "s' \<equiv> s1\<lparr>whead := (if u = Upd_done then None else Some h),
       freed_bufs := freed_bufs s \<union> set_option fr,
       ranges_sent := ranges_sent s @ (case r of None \<Rightarrow> [] | Some (lo, hi) \<Rightarrow> [(GTailBuffer s, lo, hi)])\<rparr>"
  shows "\<exists>bs'. sb_inv N s' bs' \<and> set bs' \<subseteq> set bs \<and> sb_at s' = sb_at s \<and> used_bufs s' = used_bufs s \<and>
    failed s' = failed s \<and> max_alloc s' = max_alloc s \<and> pc_of s' = pc_of s \<and> claims s' = claims s \<and> late_claim s' = late_claim s \<and>
    GSharedBuffer s' = GSharedBuffer s \<and>
    ((\<forall>t. pc_of s t = P_idle) \<longrightarrow>
       (if h = GTailBuffer s then whead s' = None else whead s' = Some h \<and> length bs' < length bs) \<and>
       (h = GTailBuffer s \<and> h = GSharedBuffer s \<longrightarrow> bytes_of (ranges_sent s') = bytes_of (claims s)))"
proof -
  have hb: "h \<in> set bs" using inv h(1) by (simp add: sb_inv_def)
  consider
    (spin) "u = Upd_spin" "fr = None" "r = None" "s1 = s" "held_by N s (GTailBuffer s) \<noteq> {}"
  | (retire) n cs where "bs = GTailBuffer s # n # cs" "held_by N s (GTailBuffer s) = {}"
      "h \<noteq> GTailBuffer s \<longrightarrow> h \<in> set (n # cs)" "u = (if h = GTailBuffer s then Upd_done else Upd_again)"
      "fr = Some (GTailBuffer s)"
      "r = (if filled s (GTailBuffer s) \<noteq> GTailPreSent s then Some (GTailPreSent s, filled s (GTailBuffer s)) else None)"
      "s1 = s\<lparr>GTailBuffer := n, GTailPreSent := 0\<rparr>"
  | (send) "held_by N s (GTailBuffer s) = {}" "h = GTailBuffer s" "GTailBuffer s = GSharedBuffer s" "bs = [h]"
      "u = Upd_done" "fr = None" "r = (if filled s h \<noteq> GTailPreSent s then Some (GTailPreSent s, filled s h) else None)"
      "s1 = s\<lparr>GTailPreSent := filled s h\<rparr>"
    using turn_cases [OF inv N hb h(2)] unfolding t option.inject prod.inject by blast
  then show ?thesis
  proof cases
    case spin
    then have "s' = s" using h(1) by (cases s) (simp add: s'_def)
    moreover have "\<not> (\<forall>t. pc_of s t = P_idle)"
    proof
      assume "\<forall>t. pc_of s t = P_idle"
      then show False using spin(5) by (simp add: held_by_def)
    qed
    ultimately show ?thesis using inv by auto
  next
    case retire
    let ?w = "if h = GTailBuffer s then None else Some h"
    have e: "s' = s\<lparr>GTailBuffer := n, GTailPreSent := 0, whead := ?w, freed_bufs := insert (GTailBuffer s) (freed_bufs s),
       ranges_sent := ranges_sent s @ (if filled s (GTailBuffer s) \<noteq> GTailPreSent s
         then [(GTailBuffer s, GTailPreSent s, filled s (GTailBuffer s))] else [])\<rparr>"
      unfolding s'_def retire(4-7) by auto
    have "sb_inv N s' (n # cs)"
      by (rule retire_inv [OF inv retire(1,2) e]) (use retire(3) in \<open>auto split: if_splits\<close>)
    moreover have "GTailBuffer s \<noteq> GSharedBuffer s"
      using inv retire(1) last_in_set [of "n # cs"] by (auto simp: sb_inv_def chain_ok_def)
    ultimately show ?thesis using retire(1) e by (intro exI [of _ "n # cs"]) auto
  next
    case send
    have e: "s' = s\<lparr>GTailPreSent := filled s h, whead := None,
       ranges_sent := ranges_sent s @ (if filled s h \<noteq> GTailPreSent s then [(h, GTailPreSent s, filled s h)] else [])\<rparr>"
      unfolding s'_def send(5-8) using send(2) by (cases s) auto
    have "sb_inv N s' [h]"
      by (rule send_inv [OF _ send(2) _ e]) (use inv send in auto)
    moreover have "bytes_of (claims s) = bytes_of (ranges_sent s) @ map (Pair h) [GTailPreSent s..filled s h - 1]"
      using inv send(4) by (simp add: sb_inv_def bytes_ok_def pending_def)
    then have "bytes_of (ranges_sent s') = bytes_of (claims s)" using e by simp
    ultimately show ?thesis using e send by (intro exI [of _ "[h]"]) auto
  qed
qed

section \<open>The cursor does not wrap around\<close>

lemma cursor_range:
  assumes "cursor_ok N s b" "cursor_bound N s b"
  shows "s_cursor (sb_at s b) + int (card (held_by N s b)) < 2 ^ 31"
proof -
  obtain r where "s_cursor (sb_at s b) = r * 1024 + 1023 - int (card (held_by N s b))"
    "if b = GSharedBuffer s \<and> \<not> owned N s then r = mark s b else r < 0" "0 \<le> mark s b"
    "mark s b \<le> s_size (sb_at s b)"
    using assms(1) unfolding cursor_ok_def by blast
  moreover have "s_size (sb_at s b) < 2 ^ 21" using assms(2) by (simp add: cursor_bound_def)
  ultimately show ?thesis by (simp split: if_splits)
qed

lemma failed_le:
  assumes "bound_inv N s bs"
  shows "card (failed s b) \<le> N" "finite (failed s b)"
proof -
  have "failed s b \<subseteq> {..<N}" using assms by (simp add: bound_inv_def)
  then show "card (failed s b) \<le> N" "finite (failed s b)"
    using card_mono [of "{..<N}" "failed s b"] finite_subset by auto
qed

lemma max_le:
  assumes "claims_fit N s" "0 \<le> max_alloc s" "k \<le> N"
  shows "max_alloc s * int k \<le> 2 ^ 21 - 1024"
proof -
  have "max_alloc s * int k \<le> max_alloc s * int N" using assms(2,3) by (intro mult_left_mono) auto
  also have "\<dots> = int N * max_alloc s" by (rule mult.commute)
  also have "\<dots> \<le> 2 ^ 21 - 1024" using assms(1) by (simp add: claims_fit_def)
  finally show ?thesis .
qed

lemma release_no_wrap:
  assumes inv: "sb_inv N s bs" "bound_inv N s bs" "claims_fit N s" and b: "b \<in> set bs" "t \<in> held_by N s b"
  shows "int32 (s_cursor (sb_at s b) + 1) = s_cursor (sb_at s b) + 1"
proof (rule int32_id)
  have c: "cursor_ok N s b" "cursor_bound N s b" using inv b by (auto simp: sb_inv_def bound_inv_def)
  have "0 < card (held_by N s b)" using b(2) by (auto simp: card_gt_0_iff)
  then show "s_cursor (sb_at s b) + 1 < 2 ^ 31" using cursor_range [OF c] by linarith
  have "max_alloc s * int (card (failed s b)) \<le> 2 ^ 21 - 1024"
    using failed_le [OF inv(2)] inv(2) by (intro max_le [OF inv(3)]) (auto simp: bound_inv_def)
  moreover have "card (held_by N s b) \<le> 1023" using held_le [of N s b] inv(3) by (simp add: claims_fit_def)
  ultimately show "- (2 ^ 31) \<le> s_cursor (sb_at s b) + 1" using c(2) by (simp add: cursor_bound_def)
qed

lemma claim_no_wrap:
  assumes inv: "sb_inv N s bs" "bound_inv N s bs" "claims_fit N s" and b: "b \<in> set bs"
    and t: "t < N" "pc_of s t = P_loaded b a"
  shows "int32 (s_cursor (sb_at s b) + (- (a * 1024) - 1)) = s_cursor (sb_at s b) + (- (a * 1024) - 1)"
    "size_fits a" "0 < a" "a \<le> max_alloc s"
proof -
  have "pc_bound s t" using inv(2) by (simp add: bound_inv_def)
  then have f: "t \<notin> failed s b" "a \<le> max_alloc s" using t by (simp_all add: pc_bound_def)
  show a: "0 < a" "a \<le> max_alloc s" using spc [OF inv(1), of t] t f by (simp_all add: spc_ok_def)
  then show "size_fits a" using inv(3) by (simp add: size_fits_def claims_fit_def)
  have c: "cursor_ok N s b" "cursor_bound N s b" using inv b by (auto simp: sb_inv_def bound_inv_def)
  have "failed s b \<subseteq> {..<N} - {t}" using f inv(2) unfolding bound_inv_def by blast
  then have "card (failed s b) \<le> card ({..<N} - {t})" by (intro card_mono) auto
  also have "\<dots> = N - 1" using t by simp
  finally have k: "card (failed s b) + 1 \<le> N" using t by simp
  have "max_alloc s * int (card (failed s b) + 1) \<le> 2 ^ 21 - 1024"
    by (rule max_le [OF inv(3) _ k]) (use a in linarith)
  then have "max_alloc s * int (card (failed s b)) + max_alloc s \<le> 2 ^ 21 - 1024"
    by (simp only: of_nat_add of_nat_1 distrib_left mult_1_right)
  moreover have "card (held_by N s b) \<le> 1022"
    using held_card [of t N s b] t inv(3) by (simp add: claims_fit_def)
  ultimately have "- (2 ^ 31) \<le> s_cursor (sb_at s b) + (- (a * 1024) - 1)"
    using c(2) a by (simp add: cursor_bound_def)
  moreover have "s_cursor (sb_at s b) + (- (a * 1024) - 1) < 2 ^ 31" using cursor_range [OF c] a by linarith
  ultimately show "int32 (s_cursor (sb_at s b) + (- (a * 1024) - 1)) = s_cursor (sb_at s b) + (- (a * 1024) - 1)"
    by (rule int32_id)
qed

text \<open>Every step keeps the bound.\<close>

lemma bound_enter:
  assumes inv: "sb_inv N s bs" "bound_inv N s bs" and t: "t < N" "pc_of s t = P_idle" "0 < a"
  shows "bound_inv N ((set_pc t (P_loaded (GSharedBuffer s) a) s)\<lparr>max_alloc := max (max_alloc s) a\<rparr>) bs"
    (is "bound_inv N ?s bs")
proof -
  have h: "held_by N ?s b = held_by N s b" for b using t by (auto simp: held_by_def)
  have c: "cursor_bound N ?s b" if "cursor_bound N s b" for b
  proof -
    have "max_alloc s * int (card (failed s b)) \<le> max (max_alloc s) a * int (card (failed s b))"
      by (intro mult_right_mono) auto
    then show ?thesis using that unfolding cursor_bound_def h by simp
  qed
  have "t \<notin> failed s (GSharedBuffer s)" using inv(2) t(2) unfolding bound_inv_def by fastforce
  then have p: "pc_bound ?s u" if "pc_bound s u" for u
    using that by (cases "u = t"; cases "pc_of s u") (auto simp: pc_bound_def max_def)
  show ?thesis using inv(2) c p t unfolding bound_inv_def
    by (auto split: if_splits)
qed

lemma bound_wait:
  assumes inv: "sb_inv N s bs" "bound_inv N s bs" and t: "t < N" "pc_of s t = P_waiter b a" "GSharedBuffer s \<noteq> b"
  shows "bound_inv N (set_pc t (P_leaving b (GSharedBuffer s) a) s) bs" (is "bound_inv N ?s bs")
proof -
  have h: "held_by N ?s c = held_by N s c" for c using t by (auto simp: held_by_def)
  have c: "cursor_bound N ?s c = cursor_bound N s c" for c by (simp add: cursor_bound_def h)
  have "t \<notin> failed s (GSharedBuffer s)" using inv(2) t(2,3) unfolding bound_inv_def by fastforce
  moreover have "pc_bound s t" using inv(2) by (simp add: bound_inv_def)
  ultimately have p: "pc_bound ?s u" if "pc_bound s u" for u
    using that t by (cases "u = t"; cases "pc_of s u") (auto simp: pc_bound_def)
  have "t \<notin> failed s (GSharedBuffer s)" by fact
  then show ?thesis using inv(2) p t unfolding bound_inv_def c
    by (auto split: if_splits)
qed

text \<open>A thread gives its use of a buffer back.\<close>

lemma bound_release:
  assumes inv: "sb_inv N s bs" "bound_inv N s bs" "claims_fit N s"
    and t: "t < N" "pc_buf (pc_of s t) = Some b" "pc_buf p = None" "b \<in> set bs"
    and p: "\<And>nb a. p = P_loaded nb a \<Longrightarrow> t \<notin> failed s nb \<and> a \<le> max_alloc s"
    and g: "t \<notin> failed s (GSharedBuffer s)"
  shows "bound_inv N (set_pc t p (release_ref b s)) bs" (is "bound_inv N ?s bs")
proof -
  have tb: "t \<in> held_by N s b" using t by (simp add: held_by_def)
  note w = release_no_wrap [OF inv t(4) tb]
  have h: "held_by N ?s c = (if c = b then held_by N s b - {t} else held_by N s c)" for c
    using t by (auto simp: held_by_def)
  have "int (card (held_by N s b - {t})) = int (card (held_by N s b)) - 1"
    using tb card_gt_0_iff [of "held_by N s b"] by (auto simp: card_Diff_singleton of_nat_diff)
  then have c: "cursor_bound N ?s d" if "cursor_bound N s d" for d
    using that unfolding cursor_bound_def h by (auto simp: w)
  have pb: "pc_bound ?s u" if "pc_bound s u" for u
  proof (cases "u = t")
    case True
    then show ?thesis using p t(3) by (cases p) (auto simp: pc_bound_def)
  next
    case False
    then show ?thesis using that by (cases "pc_of s u") (auto simp: pc_bound_def)
  qed
  show ?thesis using inv(2) c pb t g unfolding bound_inv_def
    by (auto split: if_splits)
qed

lemma bound_leave:
  assumes inv: "sb_inv N s bs" "bound_inv N s bs" "claims_fit N s" and t: "t < N" "pc_of s t = P_leaving b nb a"
  shows "bound_inv N (set_pc t (P_loaded nb a) (release_ref b s)) bs" "b \<in> set bs" "t \<in> held_by N s b"
proof -
  have n: "b \<noteq> GSharedBuffer s" using inv(2) t(2) unfolding bound_inv_def by blast
  then have "t \<notin> failed s (GSharedBuffer s)" using inv(2) t(2) unfolding bound_inv_def by fastforce
  moreover have "pc_bound s t" using inv(2) by (simp add: bound_inv_def)
  moreover show b: "b \<in> set bs" using spc [OF inv(1), of t] t by (simp add: spc_ok_def)
  ultimately show "bound_inv N (set_pc t (P_loaded nb a) (release_ref b s)) bs"
    using t by (intro bound_release [OF inv]) (auto simp: pc_bound_def)
  show "t \<in> held_by N s b" using t by (simp add: held_by_def)
qed

lemma bound_exit:
  assumes inv: "sb_inv N s bs" "bound_inv N s bs" "claims_fit N s" and t: "t < N" "pc_of s t = P_in b off a"
  shows "bound_inv N (set_pc t P_idle (release_ref b s)) bs" "b \<in> set bs" "t \<in> held_by N s b"
proof -
  have "t \<notin> failed s (GSharedBuffer s)" using inv(2) t(2) unfolding bound_inv_def by fastforce
  moreover show b: "b \<in> set bs" using spc [OF inv(1), of t] t by (simp add: spc_ok_def)
  ultimately show "bound_inv N (set_pc t P_idle (release_ref b s)) bs"
    using t by (intro bound_release [OF inv]) auto
  show "t \<in> held_by N s b" using t by (simp add: held_by_def)
qed

lemma bound_install:
  assumes inv: "sb_inv N s bs" "bound_inv N s bs" and t: "t < N" "pc_of s t = P_owner b r a"
    and nb: "nb \<notin> used_bufs s" and fit: "size_fits a"
  shows "bound_inv N ((set_pc t (P_leaving b nb a) (install_next b r a nb s))
       \<lparr>used_bufs := insert nb (used_bufs s),
        mark := (mark s)(nb := s_size (sb_at (install_next b r a nb s) nb))\<rparr>) (bs @ [nb])"
    (is "bound_inv N ?s _")
proof -
  note ends = chain_ends [OF inv(1)]
  have b: "b = GSharedBuffer s" using spc [OF inv(1), of t] t by (simp add: spc_ok_def)
  have bnb: "nb \<noteq> b" "nb \<notin> set bs" using ends b nb inv(1) by (auto simp: sb_inv_def chain_ok_def)
  note sim = install_next_simps(1-3) install_next_simps(5) [OF fit bnb(1)]
  note room = Writer_CreateSharedBuffer_room [OF fit]
  define s' where "s' = ?s"
  have fld [simp]: "sb_at s' = (sb_at s)(nb := Writer_CreateSharedBuffer a,
       b := (sb_at s b)\<lparr>s_next := Some nb, s_final := drop_bit CursorShift r\<rparr>)"
    "GSharedBuffer s' = nb" "pc_of s' = (pc_of s)(t := P_leaving b nb a)" "used_bufs s' = insert nb (used_bufs s)"
    "failed s' = failed s" "max_alloc s' = max_alloc s"
    using bnb by (simp_all add: s'_def sim)
  have fn: "failed s nb = {}" using inv(2) nb by (simp add: bound_inv_def)
  have h: "held_by N s' c = held_by N s c" for c using t by (auto simp: held_by_def)
  have hnb: "held_by N s nb = {}"
  proof -
    have "pc_buf (pc_of s u) \<noteq> Some nb" for u
      using spc [OF inv(1), of u] bnb ends by (cases "pc_of s u") (auto simp: spc_ok_def b)
    then show ?thesis by (simp add: held_by_def)
  qed
  have c: "cursor_bound N s' c" if "c \<in> set bs" for c
  proof -
    have "cursor_bound N s c" using inv(2) that by (simp add: bound_inv_def)
    moreover have "c \<noteq> nb" using that bnb by auto
    ultimately show ?thesis by (auto simp: cursor_bound_def h)
  qed
  have cn: "cursor_bound N s' nb" using room bnb by (simp add: cursor_bound_def h hnb fn)
  have "pc_bound s t" using inv(2) by (simp add: bound_inv_def)
  then have p: "pc_bound s' u" if "pc_bound s u" for u
    using that t fn by (cases "u = t"; cases "pc_of s u") (auto simp: pc_bound_def)
  have lv: "b' \<noteq> nb" if "pc_of s u = P_leaving b' nb' a'" for u b' nb' a'
    using spc [OF inv(1), of u] that bnb by (auto simp: spc_ok_def)
  have "b' \<noteq> nb" if "pc_of s' u = P_leaving b' nb' a'" for u b' nb' a'
    using that lv bnb(1) by (simp split: if_splits)
  then have "bound_inv N s' (bs @ [nb])"
    using inv(2) c cn p fn bnb(1) unfolding bound_inv_def fld(2) by (auto simp del: fld(1,3))
  then show ?thesis by (simp add: s'_def)
qed

lemma bound_claim:
  assumes inv: "sb_inv N s bs" "bound_inv N s bs" "claims_fit N s"
    and t: "t < N" "pc_of s t = P_loaded b a" "b \<in> set bs" and cl: "claim_region b a s = (r, s1)"
  shows "bound_inv N ((after_claim t b a r s1)\<lparr>late_claim := l\<rparr>) bs" (is "bound_inv N ?s _")
proof -
  note w = claim_no_wrap [OF inv t(3) t(1,2)]
  note sim = claim_region_conc [OF cl w(2,1)]
  have N: "N \<le> 1023" using inv(3) by (simp add: claims_fit_def)
  note cases = claim_cases [OF inv(1) t(1) N t(2,3) cl w(2,1)]
  define s' where "s' = ?s"
  have p0: "pc_bound s t" using inv(2) by (simp add: bound_inv_def)
  then have tf: "t \<notin> failed s b" using t by (simp add: pc_bound_def)
  define got where "got \<longleftrightarrow> (\<exists>off. r = Claimed off)"
  have fld [simp]: "sb_at s' = (sb_at s)(b := (sb_at s b)\<lparr>s_cursor := s_cursor (sb_at s b) + (- (a * 1024) - 1)\<rparr>)"
    "GSharedBuffer s' = GSharedBuffer s" "used_bufs s' = used_bufs s" "max_alloc s' = max_alloc s"
    "failed s' = (if got then failed s else (failed s)(b := insert t (failed s b)))"
    unfolding s'_def got_def sim(1) by (cases r; simp add: set_pc_def)+
  have pc [simp]: "pc_of s' = (pc_of s)(t := (case r of Claimed off \<Rightarrow> P_in b off a | Owner c \<Rightarrow> P_owner b c a | Waiter \<Rightarrow> P_waiter b a))"
    unfolding s'_def sim(1) by (cases r) (simp_all add: set_pc_def)
  have held: "held_by N s' c = (if c = b then insert t (held_by N s b) else held_by N s c)" for c
    using t by (cases r) (auto simp: held_by_def)
  have "t \<notin> held_by N s b" using t by (simp add: held_by_def)
  then have card: "card (held_by N s' b) = card (held_by N s b) + 1" by (simp add: held)
  have c: "cursor_bound N s' d" if d: "d \<in> set bs" for d
  proof (cases "d = b")
    case False
    have "cursor_bound N s d" using inv(2) d by (simp add: bound_inv_def)
    then show ?thesis using False by (simp add: cursor_bound_def held)
  next
    case True
    have cb: "cursor_bound N s b" "cursor_ok N s b" using inv t(3) by (auto simp: bound_inv_def sb_inv_def)
    have m0: "0 \<le> max_alloc s * int (card (failed s b))" using inv(2) by (simp add: bound_inv_def)
    show ?thesis
    proof (cases got)
      case got: True
      then have o: "b = GSharedBuffer s" "\<not> owned N s" "a \<le> mark s b" using cases by (auto simp: got_def)
      then have "s_cursor (sb_at s b) = mark s b * 1024 + 1023 - int (card (held_by N s b))"
        using cb(2) by (auto simp: cursor_ok_def)
      then have "1023 - int (card (held_by N s' b)) - 1024 * (max_alloc s * int (card (failed s b))) \<le>
        s_cursor (sb_at s b) + (- (a * 1024) - 1)"
        using o(3) m0 card by linarith
      then show ?thesis using True got cb(1) unfolding cursor_bound_def by simp
    next
      case got: False
      have "int (card (insert t (failed s b))) = int (card (failed s b)) + 1"
        using tf failed_le [OF inv(2)] by simp
      then have "max_alloc s * int (card (insert t (failed s b))) = max_alloc s * int (card (failed s b)) + max_alloc s"
        by (simp add: distrib_left)
      then have "1023 - int (card (held_by N s' b)) - 1024 * (max_alloc s * int (card (insert t (failed s b)))) \<le>
        s_cursor (sb_at s b) + (- (a * 1024) - 1)"
        using w(4) cb(1) card unfolding cursor_bound_def by linarith
      then show ?thesis using True got cb(1) unfolding cursor_bound_def by simp
    qed
  qed
  have p: "pc_bound s' u" if "pc_bound s u" for u
    using that w(4) t(2) by (cases "u = t"; cases r; cases "pc_of s u") (auto simp: pc_bound_def got_def)
  have g: "pc_buf (pc_of s' u) = Some (GSharedBuffer s') \<and> (\<forall>b off a. pc_of s' u \<noteq> P_in b off a)"
    if "u \<in> failed s' (GSharedBuffer s')" for u
  proof (cases "u \<in> failed s (GSharedBuffer s)")
    case True
    then have "pc_buf (pc_of s u) = Some (GSharedBuffer s)" "\<forall>b off a. pc_of s u \<noteq> P_in b off a"
      using inv(2) by (auto simp: bound_inv_def)
    moreover from this have "u \<noteq> t" using t(2) by auto
    ultimately show ?thesis by simp
  next
    case False
    then have "u = t" "b = GSharedBuffer s" "\<not> got" using that by (auto split: if_splits)
    then show ?thesis by (cases r) (auto simp: got_def)
  qed
  have k: "b \<in> used_bufs s" using inv(1) t(3) by (auto simp: sb_inv_def chain_ok_def)
  have lv: "b' \<noteq> GSharedBuffer s'" if "pc_of s' u = P_leaving b' nb' a'" for u b' nb' a'
  proof -
    have "pc_of s u = P_leaving b' nb' a'" using that by (auto split: if_splits claim_result.splits)
    then show ?thesis using inv(2) unfolding bound_inv_def fld(2) by blast
  qed
  have "bound_inv N s' bs"
    using inv(2) c p g lv t(1) k unfolding bound_inv_def by (auto split: if_splits)
  then show ?thesis by (simp add: s'_def)
qed

text \<open>A step of the worker; both invariants together.\<close>

definition safe_inv :: "nat \<Rightarrow> shared_conc \<Rightarrow> nat list \<Rightarrow> bool" where
  "safe_inv N s bs \<longleftrightarrow> sb_inv N s bs \<and> bound_inv N s bs"

lemma head_size:
  assumes "sb_inv N s bs" "bound_inv N s bs" "whead s = Some h"
  shows "s_size (sb_at s h) < 2 ^ 21"
proof -
  have "h \<in> set bs" using assms by (simp add: sb_inv_def)
  then show ?thesis using assms(2) by (simp add: bound_inv_def cursor_bound_def)
qed

lemma bound_cong:
  assumes "bound_inv N s bs" "set bs' \<subseteq> set bs" "sb_at s' = sb_at s" "used_bufs s' = used_bufs s"
    "failed s' = failed s" "max_alloc s' = max_alloc s" "pc_of s' = pc_of s" "GSharedBuffer s' = GSharedBuffer s"
  shows "bound_inv N s' bs'"
proof -
  have c: "cursor_bound N s' b = cursor_bound N s b" for b using assms by (simp add: cursor_bound_def held_by_def)
  have p: "pc_bound s' t = pc_bound s t" for t by (simp only: pc_bound_def assms)
  show ?thesis using assms(1,2) unfolding bound_inv_def c p assms(4-8) by blast
qed

lemma sb_step_inv:
  assumes st: "sb_step N s s'" and inv: "safe_inv N s bs" and fit: "claims_fit N s" "claims_fit N s'"
    and l: "\<not> late_claim s'"
  shows "\<exists>bs'. safe_inv N s' bs'"
  using st
proof cases
  note inv = inv [unfolded safe_inv_def, THEN conjunct1] inv [unfolded safe_inv_def, THEN conjunct2]
  have N: "N \<le> 1023" using fit by (simp add: claims_fit_def)
  {
    case (enter t a)
    then show ?thesis using bound_enter [OF inv enter(2-4)] sb_inv_max [OF step_enter [OF inv(1) enter(2-4)]]
      unfolding safe_inv_def by blast
  next
    case (claim t b a r s1)
    have "b \<in> used_bufs s" using spc [OF inv(1), of t] claim by (simp add: spc_ok_def)
    moreover have "b \<notin> freed_bufs s" using l claim by simp
    ultimately have b: "b \<in> set bs" using inv(1) by (auto simp: sb_inv_def chain_ok_def)
    note w = claim_no_wrap [OF inv fit(1) b claim(2,3)]
    show ?thesis using sb_inv_late [OF step_claim [OF inv(1) claim(2) N claim(3) b claim(4) w(2,1)]]
        bound_claim [OF inv fit(1) claim(2,3) b claim(4)] claim(1) unfolding safe_inv_def by blast
  next
    case (install t b r a nb)
    have "pc_bound s t" using inv(2) by (simp add: bound_inv_def)
    then have "a \<le> max_alloc s" using install by (simp add: pc_bound_def)
    moreover have "0 < a" using spc [OF inv(1), of t] install by (simp add: spc_ok_def)
    ultimately have f: "size_fits a" using fit(1) by (simp add: size_fits_def claims_fit_def)
    show ?thesis using step_install [OF inv(1) install(2-4) f] bound_install [OF inv install(2-4) f] install(1)
      unfolding safe_inv_def by blast
  next
    case (wait t b a)
    then show ?thesis using step_wait [OF inv(1) wait(2,3)] bound_wait [OF inv wait(2-4)] unfolding safe_inv_def by blast
  next
    case (leave t b nb a)
    note bd = bound_leave [OF inv fit(1) leave(2,3)]
    show ?thesis using step_leave [OF release_no_wrap [OF inv fit(1) bd(2,3)] inv(1) leave(2) N leave(3)] bd(1) leave(1)
      unfolding safe_inv_def by blast
  next
    case (exit t b off a)
    note bd = bound_exit [OF inv fit(1) exit(2,3)]
    show ?thesis using step_exit [OF release_no_wrap [OF inv fit(1) bd(2,3)] inv(1) exit(2) N exit(3)] bd(1) exit(1)
      unfolding safe_inv_def by blast
  next
    case work
    then show ?thesis
    proof cases
      case look
      have "bound_inv N (s\<lparr>whead := Some (GSharedBuffer s)\<rparr>) bs"
        by (rule bound_cong [OF inv(2) subset_refl]) simp_all
      then show ?thesis using sb_inv_whead [OF inv(1), of "Some (GSharedBuffer s)"] chain_ends(1) [OF inv(1)] look
        unfolding safe_inv_def by auto
    next
      case (turn h u fr r s1)
      obtain bs' where bs': "sb_inv N s' bs'" "set bs' \<subseteq> set bs" "sb_at s' = sb_at s" "used_bufs s' = used_bufs s"
        "failed s' = failed s" "max_alloc s' = max_alloc s" "pc_of s' = pc_of s" "GSharedBuffer s' = GSharedBuffer s"
        using work_step [OF inv(1) N turn(2) head_size [OF inv turn(2)] turn(3)] turn(1) by blast
      show ?thesis using bs'(1) bound_cong [OF inv(2) bs'(2-8)] unfolding safe_inv_def by blast
    qed
  }
qed

lemma sb_step_mono: "sb_step N s s' \<Longrightarrow> (late_claim s \<longrightarrow> late_claim s') \<and> max_alloc s \<le> max_alloc s'"
proof (induction rule: sb_step.induct)
  case (claim t s b a r s1)
  have "max_alloc s1 = max_alloc s"
    using claim(3) by (auto simp: claim_region_def atomic_add_cursor_def upd_sb_def Let_def)
  then show ?case by (cases r) simp_all
next
  case (work s s')
  then show ?case
  proof (induction rule: sb_work.induct)
    case (turn s h u fr r s1)
    have "late_claim s1 = late_claim s" "max_alloc s1 = max_alloc s"
      using turn(2) by (auto simp: Writer_UpdateSharedBuffers_turn_def Writer_RetireSharedBufferImpl_def
        Writer_SendHead_def Let_def split: if_splits option.splits)
    then show ?case using turn by simp
  qed simp
qed auto

lemma claims_fit_mono:
  assumes "claims_fit N s'" "max_alloc s \<le> max_alloc s'"
  shows "claims_fit N s"
proof -
  have "int N * max_alloc s \<le> int N * max_alloc s'" using assms(2) by (intro mult_left_mono) auto
  then show ?thesis using assms unfolding claims_fit_def by linarith
qed

lemma size_fits_0: "size_fits 0"
  by (simp add: size_fits_def)

lemma shared_init_inv: "safe_inv N (shared_init b m) [b]"
  using Writer_CreateSharedBuffer_room [OF size_fits_0]
  by (auto simp: shared_init_def Writer_InitializeSharedBuffers_def upd_sb_def sb_inv_defs cursor_ok_def
    held_by_def owned_def pending_def filled_def safe_inv_def bound_inv_def cursor_bound_def pc_bound_def)

lemma sb_reachable_inv:
  assumes "sb_reachable N (shared_init b m) s" "claims_fit N s" "\<not> late_claim s"
  shows "\<exists>bs. safe_inv N s bs"
  using assms
proof (induction rule: sb_reachable.induct)
  case sb_start
  then show ?case using shared_init_inv by blast
next
  case (sb_next s s')
  then have "\<not> late_claim s" "claims_fit N s"
    using sb_step_mono [OF sb_next(2)] claims_fit_mono by blast+
  then show ?case using sb_next sb_step_inv by blast
qed

text \<open>When no thread is in a scope, the worker's loop ends and has sent everything.\<close>

lemma work_drains:
  assumes "N \<le> 1023" "safe_inv N s bs" "\<forall>t. pc_of s t = P_idle" "whead s = Some (GSharedBuffer s)"
  shows "\<exists>s'. sb_work\<^sup>*\<^sup>* s s' \<and> whead s' = None \<and> bytes_of (ranges_sent s') = bytes_of (claims s)"
  using assms(2-4)
proof (induction "length bs" arbitrary: s bs rule: less_induct)
  case less
  let ?h = "GSharedBuffer s"
  have inv: "sb_inv N s bs" "bound_inv N s bs" using less.prems(1) by (simp_all add: safe_inv_def)
  have h: "?h \<in> set bs" using less.prems(3) inv(1) by (auto simp: sb_inv_def)
  note sz = head_size [OF inv less.prems(3)]
  have "held_by N s (GTailBuffer s) = {}" using less.prems by (simp add: held_by_def)
  then obtain u fr r s1 where t: "Writer_UpdateSharedBuffers_turn ?h s = Some (u, fr, r, s1)"
    using turn_cases [OF inv(1) assms(1) h sz] by blast
  let ?s = "s1\<lparr>whead := (if u = Upd_done then None else Some ?h),
       freed_bufs := freed_bufs s \<union> set_option fr,
       ranges_sent := ranges_sent s @ (case r of None \<Rightarrow> [] | Some (lo, hi) \<Rightarrow> [(GTailBuffer s, lo, hi)])\<rparr>"
  have w: "sb_work s ?s" using less.prems(3) t by (rule sb_work.turn)
  obtain bs' where bs0: "sb_inv N ?s bs'" "set bs' \<subseteq> set bs" "sb_at ?s = sb_at s" "used_bufs ?s = used_bufs s"
    "failed ?s = failed s" "max_alloc ?s = max_alloc s" and bs'': "pc_of ?s = pc_of s" "claims ?s = claims s" "GSharedBuffer ?s = ?h"
    "if ?h = GTailBuffer s then whead ?s = None else whead ?s = Some ?h \<and> length bs' < length bs"
    "?h = GTailBuffer s \<longrightarrow> bytes_of (ranges_sent ?s) = bytes_of (claims s)"
    using work_step [OF inv(1) assms(1) less.prems(3) sz t] less.prems(2) by blast
  have "safe_inv N ?s bs'" using bs0(1) bound_cong [OF inv(2) bs0(2-6) bs''(1,3)] by (simp add: safe_inv_def)
  note bs' = this bs''
  show ?case
  proof (cases "?h = GTailBuffer s")
    case True
    then show ?thesis using w bs' by (metis r_into_rtranclp)
  next
    case False
    then have "whead ?s = Some (GSharedBuffer ?s)" "length bs' < length bs" "\<forall>t. pc_of ?s t = P_idle"
      unfolding bs'(2,4) using bs'(5) less.prems(2) by simp_all
    from less.hyps [OF this(2) bs'(1) this(3,1)]
    obtain s2 where "sb_work\<^sup>*\<^sup>* ?s s2" "whead s2 = None" "bytes_of (ranges_sent s2) = bytes_of (claims s)"
      unfolding bs'(3) by blast
    then show ?thesis using converse_rtranclp_into_rtranclp [of sb_work, OF w] by blast
  qed
qed

section \<open>Properties\<close>

text \<open>
  C9: however scopes of important events and the worker interleave, as long as no thread comes
  too late to a buffer, and as the number of threads times the largest size they ask for is at most
  2 MiB less 1 KiB, so that the packed cursor does not wrap around: what the worker sends is a prefix of the regions in the order they were
  handed out; the region of a thread in a scope lies inside its buffer, is not sent yet, shares
  no byte with the region of another thread, and its buffer is not freed; and once all threads
  have left their scopes the worker's loop ends with everything sent exactly once.
\<close>

theorem shared_buffers_deliver:
  assumes "claims_fit N s" "sb_reachable N (shared_init b m) s" "\<not> late_claim s"
  shows "(\<exists>rest. bytes_of (claims s) = bytes_of (ranges_sent s) @ rest) \<and>
    (\<forall>t c off a. pc_of s t = P_in c off a \<longrightarrow>
       c \<notin> freed_bufs s \<and> a \<le> off \<and> off \<le> s_size (sb_at s c) \<and>
       (c, s_size (sb_at s c) - off, s_size (sb_at s c) - off + a) \<in> set (claims s) \<and>
       (\<forall>i. s_size (sb_at s c) - off \<le> i \<and> i < s_size (sb_at s c) - off + a \<longrightarrow>
          (c, i) \<notin> set (bytes_of (ranges_sent s)))) \<and>
    (\<forall>t u c off a off' a'. t \<noteq> u \<and> pc_of s t = P_in c off a \<and> pc_of s u = P_in c off' a' \<longrightarrow>
       off \<le> off' - a' \<or> off' \<le> off - a) \<and>
    ((\<forall>t. pc_of s t = P_idle) \<and> whead s = None \<longrightarrow>
       (\<exists>s'. sb_work\<^sup>*\<^sup>* s s' \<and> whead s' = None \<and> bytes_of (ranges_sent s') = bytes_of (claims s)))"
proof (intro conjI)
  obtain bs where safe: "safe_inv N s bs" using sb_reachable_inv [OF assms(2,1,3)] by blast
  then have inv: "sb_inv N s bs" and bd: "bound_inv N s bs" by (simp_all add: safe_inv_def)
  have N: "N \<le> 1023" using assms(1) by (simp add: claims_fit_def)
  have bk: "bytes_ok s bs" and ch: "chain_ok s bs" and ra: "regions_apart s" using inv by (simp_all add: sb_inv_def)
  show "\<exists>rest. bytes_of (claims s) = bytes_of (ranges_sent s) @ rest"
    using bk by (auto simp: bytes_ok_def)
  show "\<forall>t u c off a off' a'. t \<noteq> u \<and> pc_of s t = P_in c off a \<and> pc_of s u = P_in c off' a' \<longrightarrow>
       off \<le> off' - a' \<or> off' \<le> off - a"
    using ra unfolding regions_apart_def by blast
  show "\<forall>t c off a. pc_of s t = P_in c off a \<longrightarrow>
       c \<notin> freed_bufs s \<and> a \<le> off \<and> off \<le> s_size (sb_at s c) \<and>
       (c, s_size (sb_at s c) - off, s_size (sb_at s c) - off + a) \<in> set (claims s) \<and>
       (\<forall>i. s_size (sb_at s c) - off \<le> i \<and> i < s_size (sb_at s c) - off + a \<longrightarrow>
          (c, i) \<notin> set (bytes_of (ranges_sent s)))"
  proof (intro allI impI)
    fix t c off a assume "pc_of s t = P_in c off a"
    then have p: "c \<in> set bs" "mark s c \<le> off - a" "off \<le> s_size (sb_at s c)"
      "(c, s_size (sb_at s c) - off, s_size (sb_at s c) - off + a) \<in> set (claims s)"
      "c = GTailBuffer s \<longrightarrow> GTailPreSent s \<le> s_size (sb_at s c) - off"
      using spc [OF inv, of t] by (auto simp: spc_ok_def)
    moreover have "0 \<le> mark s c" using inv p(1) by (simp add: sb_inv_def cursor_ok_def)
    moreover have "c \<notin> freed_bufs s" using ch p(1) by (auto simp: chain_ok_def)
    moreover from this have "(c, i) \<notin> set (bytes_of (ranges_sent s))" if "s_size (sb_at s c) - off \<le> i" for i
      using bk that p(5) by (auto simp: bytes_ok_def)
    ultimately show "c \<notin> freed_bufs s \<and> a \<le> off \<and> off \<le> s_size (sb_at s c) \<and>
       (c, s_size (sb_at s c) - off, s_size (sb_at s c) - off + a) \<in> set (claims s) \<and>
       (\<forall>i. s_size (sb_at s c) - off \<le> i \<and> i < s_size (sb_at s c) - off + a \<longrightarrow>
          (c, i) \<notin> set (bytes_of (ranges_sent s)))" by auto
  qed
  let ?l = "s\<lparr>whead := Some (GSharedBuffer s)\<rparr>"
  show "(\<forall>t. pc_of s t = P_idle) \<and> whead s = None \<longrightarrow>
       (\<exists>s'. sb_work\<^sup>*\<^sup>* s s' \<and> whead s' = None \<and> bytes_of (ranges_sent s') = bytes_of (claims s))"
  proof
    assume q: "(\<forall>t. pc_of s t = P_idle) \<and> whead s = None"
    have "sb_inv N ?l bs" using sb_inv_whead [OF inv] chain_ends(1) [OF inv] by auto
    moreover have "bound_inv N ?l bs" by (rule bound_cong [OF bd subset_refl]) simp_all
    ultimately have "safe_inv N ?l bs" by (simp add: safe_inv_def)
    then obtain s' where "sb_work\<^sup>*\<^sup>* ?l s'" "whead s' = None" "bytes_of (ranges_sent s') = bytes_of (claims s)"
      using work_drains [OF N, of ?l bs] q by auto
    then show "\<exists>s'. sb_work\<^sup>*\<^sup>* s s' \<and> whead s' = None \<and> bytes_of (ranges_sent s') = bytes_of (claims s)"
      using converse_rtranclp_into_rtranclp [of sb_work, OF sb_work.look] q by blast
  qed
qed

definition sample_shared :: shared_conc where
  "sample_shared = shared_init 0 (\<lambda>_. Writer_CreateSharedBuffer 0)"

lemma create_sample:
  "Writer_CreateSharedBuffer 0 = \<lparr>s_cursor = 1020927, s_size = 996, s_final = 0, s_next = None\<rparr>"
  by (simp add: Writer_CreateSharedBuffer_def push_bit_or_init shared_block_size_def sizeof_FSharedBuffer_def
    GBlockSize_def uint32_id int32_id)

lemma sample_shared_eq:
  "sample_shared = \<lparr>sb_at = (\<lambda>_. \<lparr>s_cursor = 1020927, s_size = 996, s_final = 0, s_next = None\<rparr>), GSharedBuffer = 0,
     GTailBuffer = 0, GTailPreSent = 0, pc_of = (\<lambda>_. P_idle), whead = None, used_bufs = {0}, freed_bufs = {},
     mark = (\<lambda>_. 996), claims = [], ranges_sent = [], late_claim = False,
     failed = (\<lambda>_. {}), max_alloc = 0\<rparr>"
  by (simp add: sample_shared_def shared_init_def Writer_InitializeSharedBuffers_def upd_sb_def create_sample fun_eq_iff)

lemma sample_scope_sizes: "size_fits 8" "size_fits 100" "size_fits 1000"
  by (simp_all add: size_fits_def)

lemma sample_scope:
  "\<exists>s. sb_reachable 3 sample_shared s \<and> \<not> late_claim s \<and> claims_fit 3 s \<and> pc_of s 2 = P_in 0 996 100 \<and>
     claims s = [(0, 0, 100)]"
proof -
  let ?s1 = "(set_pc 2 (P_loaded (GSharedBuffer sample_shared) 100) sample_shared)
    \<lparr>max_alloc := max (max_alloc sample_shared) 100\<rparr>"
  have "sb_step 3 sample_shared ?s1"
    by (rule sb_step.enter) (simp_all add: sample_shared_eq)
  then have 1: "sb_reachable 3 sample_shared ?s1" using sb_reachable.intros by metis
  obtain r s2 where c: "claim_region 0 100 ?s1 = (r, s2)" by fastforce
  note sim = claim_region_conc [OF c sample_scope_sizes(2)]
  have r: "r = Claimed 996" and s2: "pc_of s2 = pc_of ?s1" "claims s2 = []" "s_size (sb_at s2 0) = 996"
      "max_alloc s2 = 100"
    using sim by (simp_all add: sample_shared_eq CursorShift_def drop_bit_eq_div int32_id)
  have "sb_step 3 ?s1 ((after_claim 2 0 100 r s2)\<lparr>late_claim := late_claim ?s1 \<or> 0 \<in> freed_bufs ?s1\<rparr>)"
    by (rule sb_step.claim [OF _ _ c]) (simp_all add: sample_shared_eq)
  with 1 have "sb_reachable 3 sample_shared ((after_claim 2 0 100 r s2)\<lparr>late_claim := late_claim ?s1 \<or> 0 \<in> freed_bufs ?s1\<rparr>)"
    by (rule sb_next)
  then show ?thesis using r s2 by (intro exI conjI) (assumption, auto simp: sample_shared_eq claims_fit_def)
qed

lemma shared_buffers_deliver_witness:
  "\<exists>s. sb_reachable 3 sample_shared s \<and> pc_of s 2 = P_in 0 996 100 \<and> 0 \<notin> freed_bufs s \<and>
     996 \<le> s_size (sb_at s 0)"
proof -
  obtain s where s: "sb_reachable 3 sample_shared s" "\<not> late_claim s" "claims_fit 3 s" "pc_of s 2 = P_in 0 996 100"
    using sample_scope by blast
  show ?thesis
    using shared_buffers_deliver [of 3 s 0 "\<lambda>_. Writer_CreateSharedBuffer 0"] s
    by (auto simp: sample_shared_def)
qed

text \<open>
  C40: nothing keeps a buffer alive for a thread that has read GSharedBuffer and not yet counted
  itself in: another thread fills the buffer and installs the next one, the worker frees the
  first, and the addition of the late thread goes to freed memory.
\<close>

lemma shared_buffer_freed_before_claim:
  "\<exists>s s'. sb_reachable 3 sample_shared s \<and> pc_of s 0 = P_loaded 0 8 \<and> 0 \<in> freed_bufs s \<and>
     sb_step 3 s s' \<and> s_cursor (sb_at s' 0) = s_cursor (sb_at s 0) + NegSizeAndRef 8"
proof -
  let ?s1 = "(set_pc 0 (P_loaded (GSharedBuffer sample_shared) 8) sample_shared)
    \<lparr>max_alloc := max (max_alloc sample_shared) 8\<rparr>"
  let ?s2 = "(set_pc 2 (P_loaded (GSharedBuffer ?s1) 1000) ?s1)\<lparr>max_alloc := max (max_alloc ?s1) 1000\<rparr>"
  have "sb_step 3 sample_shared ?s1" by (rule sb_step.enter) (simp_all add: sample_shared_eq)
  then have 1: "sb_reachable 3 sample_shared ?s1" using sb_reachable.intros by metis
  have "sb_step 3 ?s1 ?s2" by (rule sb_step.enter) (simp_all add: sample_shared_eq)
  with 1 have 2: "sb_reachable 3 sample_shared ?s2" by (rule sb_next)
  have c: "claim_region 0 1000 ?s2 = (Owner 1020927, ?s2\<lparr>sb_at := (sb_at ?s2)(0 := (sb_at ?s2 0)\<lparr>s_cursor := -3074\<rparr>)\<rparr>)"
    (is "_ = (_, ?t)")
    by (simp add: claim_region_def atomic_add_cursor_def upd_sb_def NegSizeAndRef_eq sample_scope_sizes int32_id
      sample_shared_eq Let_def set_pc_def)
  let ?s3 = "(after_claim 2 0 1000 (Owner 1020927) ?t)\<lparr>late_claim := late_claim ?s2 \<or> 0 \<in> freed_bufs ?s2\<rparr>"
  have "sb_step 3 ?s2 ?s3" by (rule sb_step.claim [OF _ _ c]) (simp_all add: sample_shared_eq)
  with 2 have 3: "sb_reachable 3 sample_shared ?s3" by (rule sb_next)
  obtain s3 where s3: "s3 = ?s3" by simp
  have f3 [simp]: "pc_of s3 = (\<lambda>_. P_idle)(0 := P_loaded 0 8, 2 := P_owner 0 1020927 1000)" "used_bufs s3 = {0}"
    "freed_bufs s3 = {}" "GTailBuffer s3 = 0" "GTailPreSent s3 = 0" "whead s3 = None"
    "sb_at s3 0 = \<lparr>s_cursor = -3074, s_size = 996, s_final = 0, s_next = None\<rparr>"
    unfolding s3 by (auto simp: sample_shared_eq)
  let ?s4 = "(set_pc 2 (P_leaving 0 5 1000) (install_next 0 1020927 1000 5 s3))
       \<lparr>used_bufs := insert 5 (used_bufs s3),
        mark := (mark s3)(5 := s_size (sb_at (install_next 0 1020927 1000 5 s3) 5))\<rparr>"
  have "sb_step 3 s3 ?s4" by (rule sb_step.install) auto
  with 3 have 4: "sb_reachable 3 sample_shared ?s4" unfolding s3 by (rule sb_next)
  obtain s4 where s4: "s4 = ?s4" by simp
  have f4 [simp]: "pc_of s4 = (\<lambda>_. P_idle)(0 := P_loaded 0 8, 2 := P_leaving 0 5 1000)"
    "freed_bufs s4 = {}" "GTailBuffer s4 = 0" "GTailPreSent s4 = 0" "whead s4 = None" "GSharedBuffer s4 = 5"
    "sb_at s4 0 = \<lparr>s_cursor = -3074, s_size = 996, s_final = 996, s_next = Some 5\<rparr>"
    unfolding s4 by (auto simp: install_next_simps drop_bit_eq_div CursorShift_def sample_scope_sizes)
  let ?s5 = "set_pc 2 (P_loaded 5 1000) (release_ref 0 s4)"
  have "sb_step 3 s4 ?s5" by (rule sb_step.leave) auto
  with 4 have 5: "sb_reachable 3 sample_shared ?s5" unfolding s4 by (rule sb_next)
  let ?s6 = "?s5\<lparr>whead := Some (GSharedBuffer ?s5)\<rparr>"
  have "sb_step 3 ?s5 ?s6" by (rule sb_step.work, rule sb_work.look) simp
  with 5 have 6: "sb_reachable 3 sample_shared ?s6" by (rule sb_next)
  have u: "no_users (-3073)" using no_users_iff [of 0 "-4"] by simp
  have t: "Writer_UpdateSharedBuffers_turn 5 ?s6 = Some (Upd_again, Some 0, None, ?s6\<lparr>GTailBuffer := 5, GTailPreSent := 0\<rparr>)"
    using u by (simp add: int32_id Writer_UpdateSharedBuffers_turn_def Writer_RetireSharedBufferImpl_def Let_def)
  obtain s7 where 7: "sb_reachable 3 sample_shared s7" "freed_bufs s7 = {0}" "pc_of s7 0 = P_loaded 0 8" "s_cursor (sb_at s7 0) = -3073"
  proof (rule that)
    show "sb_reachable 3 sample_shared (?s6\<lparr>GTailBuffer := 5, GTailPreSent := 0\<rparr>\<lparr>whead := (if Upd_again = Upd_done then None else Some 5),
       freed_bufs := freed_bufs ?s6 \<union> set_option (Some 0),
       ranges_sent := ranges_sent ?s6 @ (case None of None \<Rightarrow> [] | Some (lo, hi) \<Rightarrow> [(GTailBuffer ?s6, lo, hi)])\<rparr>)"
      by (rule sb_next [OF 6], rule sb_step.work, rule sb_work.turn [OF _ t]) simp
  qed (simp_all add: int32_id)
  obtain r s8 where c8: "claim_region 0 8 s7 = (r, s8)" by fastforce
  have "sb_step 3 s7 ((after_claim 0 0 8 r s8)\<lparr>late_claim := late_claim s7 \<or> 0 \<in> freed_bufs s7\<rparr>)"
    by (rule sb_step.claim [OF _ 7(3) c8]) simp
  moreover have "sb_at s8 0 = (sb_at s7 0)\<lparr>s_cursor := s_cursor (sb_at s7 0) + NegSizeAndRef 8\<rparr>"
    using claim_region_conc(1) [OF c8 sample_scope_sizes(1)] 7(4) by (simp add: NegSizeAndRef_eq sample_scope_sizes int32_id)
  moreover have "sb_at (after_claim 0 0 8 r s8) = sb_at s8" by (cases r) simp_all
  ultimately show ?thesis using 7 by (intro exI [of _ s7] exI conjI) (assumption | simp)+
qed

end
