(* ===== verification/Linked.thy ===== *)
theory Linked
  imports Internal
begin

text \<open>
  Doubly linked lists threaded through a store, as mimalloc keeps its pages in queues and its
  free slices in span queues: the relation between the next and prev fields of the nodes, the
  first and last pointers of a queue, and the list of the nodes. The lemmas are the four ways
  in which the code changes such a list: pushing at either end, unlinking a node and
  appending another list.
\<close>

section \<open>The linked-list relation\<close>

definition headp :: "'p list \<Rightarrow> 'p option \<Rightarrow> 'p option" where
  "headp xs e = (case xs of [] \<Rightarrow> e | x # _ \<Rightarrow> Some x)"

definition lastp :: "'p list \<Rightarrow> 'p option \<Rightarrow> 'p option" where
  "lastp xs b = (if xs = [] then b else Some (last xs))"

fun chain :: "('p \<Rightarrow> 'p option) \<Rightarrow> ('p \<Rightarrow> 'p option) \<Rightarrow> 'p option \<Rightarrow> 'p list \<Rightarrow> 'p option \<Rightarrow> bool" where
  "chain nx pv b [] e = True"
| "chain nx pv b (x # xs) e = (pv x = b \<and> nx x = headp xs e \<and> chain nx pv (Some x) xs e)"

definition linked ::
  "('p \<Rightarrow> 'p option) \<Rightarrow> ('p \<Rightarrow> 'p option) \<Rightarrow> 'p option \<Rightarrow> 'p option \<Rightarrow> 'p list \<Rightarrow> bool" where
  "linked nx pv f l xs \<longleftrightarrow> distinct xs \<and> chain nx pv None xs None \<and> f = headp xs None \<and> l = lastp xs None"

lemma headp_simps [simp]:
  "headp [] e = e" "headp (x # xs) e = Some x" "headp (xs @ ys) e = headp xs (headp ys e)"
  by (simp_all add: headp_def split: list.splits)

lemma lastp_simps [simp]:
  "lastp [] b = b" "lastp (x # xs) b = lastp xs (Some x)" "lastp (xs @ ys) b = lastp ys (lastp xs b)"
  by (auto simp: lastp_def)

lemma headp_None_iff [simp]: "headp xs None = None \<longleftrightarrow> xs = []"
  by (simp add: headp_def split: list.splits)

lemma headp_Some_in: "headp xs None = Some x \<Longrightarrow> x \<in> set xs"
  by (auto simp: headp_def split: list.splits)

lemma lastp_None_iff [simp]: "lastp xs None = None \<longleftrightarrow> xs = []"
  by (simp add: lastp_def)

lemma lastp_Some [simp]: "lastp xs (Some x) = Some (last (x # xs))"
  by (simp add: lastp_def)

lemma headp_Some [simp]: "headp xs (Some x) = Some (hd (xs @ [x]))"
  by (simp add: headp_def split: list.splits)

lemma lastp_Some_in: "lastp xs None = Some x \<Longrightarrow> x \<in> set xs"
  by (auto simp: lastp_def split: if_splits)

lemma headp_nonempty: "xs \<noteq> [] \<Longrightarrow> headp xs e = Some (hd xs)"
  by (cases xs) simp_all

lemma lastp_nonempty: "xs \<noteq> [] \<Longrightarrow> lastp xs b = Some (last xs)"
  by (simp add: lastp_def)

lemma chain_append: "chain nx pv b (xs @ ys) e \<longleftrightarrow> chain nx pv b xs (headp ys e) \<and> chain nx pv (lastp xs b) ys e"
  by (induction xs arbitrary: b) auto

lemma chain_cong:
  "(\<And>x. x \<in> set xs \<Longrightarrow> nx x = nx' x \<and> pv x = pv' x) \<Longrightarrow> chain nx pv b xs e = chain nx' pv' b xs e"
  by (induction xs arbitrary: b) simp_all

lemma linked_cong:
  "(\<And>x. x \<in> set xs \<Longrightarrow> nx x = nx' x \<and> pv x = pv' x) \<Longrightarrow> linked nx pv f l xs = linked nx' pv' f l xs"
  using chain_cong [of xs nx nx' pv pv'] by (simp add: linked_def)

lemma linked_Nil [simp]: "linked nx pv f l [] \<longleftrightarrow> f = None \<and> l = None"
  by (auto simp: linked_def)

lemma linked_empty_iff: "linked nx pv f l xs \<Longrightarrow> f = None \<longleftrightarrow> xs = []" "linked nx pv f l xs \<Longrightarrow> l = None \<longleftrightarrow> xs = []"
  by (auto simp: linked_def)

lemma linked_first: "linked nx pv f l (x # xs) \<Longrightarrow> f = Some x \<and> pv x = None \<and> nx x = headp xs None"
  by (simp add: linked_def)

lemma chain_next_in: "chain nx pv b xs e \<Longrightarrow> x \<in> set xs \<Longrightarrow> nx x = Some y \<Longrightarrow> y \<in> set xs \<or> e = Some y"
proof (induction xs arbitrary: b)
  case (Cons z zs)
  then show ?case by (cases zs) auto
qed simp

lemma chain_prev_in: "chain nx pv b xs e \<Longrightarrow> x \<in> set xs \<Longrightarrow> pv x = Some y \<Longrightarrow> y \<in> set xs \<or> b = Some y"
  by (induction xs arbitrary: b) auto

lemma linked_neighbours_in:
  assumes "linked nx pv f l xs" "x \<in> set xs"
  shows "nx x = Some y \<Longrightarrow> y \<in> set xs" and "pv x = Some y \<Longrightarrow> y \<in> set xs"
  using assms chain_next_in [of nx pv None xs None x y] chain_prev_in [of nx pv None xs None x y]
  by (auto simp: linked_def)

text \<open>A node without a predecessor is the first one, a node without a successor the last.\<close>

lemma linked_ends:
  assumes "linked nx pv f l xs" "x \<in> set xs"
  shows "pv x = None \<longleftrightarrow> f = Some x" and "nx x = None \<longleftrightarrow> l = Some x"
proof -
  obtain us vs where xs: "xs = us @ x # vs" using assms(2) by (meson split_list)
  have a: "pv x = lastp us None" "nx x = headp vs None" "f = headp xs None" "l = lastp xs None" "distinct xs"
    using assms(1) by (auto simp: linked_def xs chain_append)
  show "pv x = None \<longleftrightarrow> f = Some x"
    using a(1,3,5) by (cases us) (auto simp: xs)
  show "nx x = None \<longleftrightarrow> l = Some x"
    using a(2,4,5) unfolding xs by (cases vs rule: rev_cases) auto
qed

section \<open>Changing a linked list\<close>

lemma linked_push_front:
  assumes "linked nx pv f l xs" "p \<notin> set xs"
    and "nx' p = f" "pv' p = None"
    and "\<And>x. x \<in> set xs \<Longrightarrow> nx' x = nx x"
    and "\<And>x. x \<in> set xs \<Longrightarrow> pv' x = (if f = Some x then Some p else pv x)"
    and "l' = (if f = None then Some p else l)"
  shows "linked nx' pv' (Some p) l' (p # xs)"
proof -
  have "chain nx' pv' (Some p) xs None"
  proof (cases xs)
    case (Cons y ys)
    then have "f = Some y" "y \<notin> set ys" using assms(1) by (auto simp: linked_def)
    moreover have "chain nx' pv' (Some y) ys None = chain nx pv (Some y) ys None"
      using assms(5,6) Cons \<open>f = Some y\<close> \<open>y \<notin> set ys\<close> by (intro chain_cong) auto
    ultimately show ?thesis using assms(1,5,6) Cons by (auto simp: linked_def)
  qed simp
  then show ?thesis using assms by (cases xs) (auto simp: linked_def)
qed

lemma linked_push_back:
  assumes "linked nx pv f l xs" "p \<notin> set xs"
    and "pv' p = l" "nx' p = None"
    and "\<And>x. x \<in> set xs \<Longrightarrow> pv' x = pv x"
    and "\<And>x. x \<in> set xs \<Longrightarrow> nx' x = (if l = Some x then Some p else nx x)"
    and "f' = (if l = None then Some p else f)"
  shows "linked nx' pv' f' (Some p) (xs @ [p])"
proof (cases xs rule: rev_cases)
  case (snoc ys y)
  then have l: "l = Some y" "y \<notin> set ys" using assms(1) by (auto simp: linked_def)
  have "chain nx' pv' None ys (Some y) = chain nx pv None ys (Some y)"
    using assms(5,6) snoc l by (intro chain_cong) auto
  then show ?thesis using assms l snoc by (auto simp: linked_def chain_append)
qed (use assms in \<open>auto simp: linked_def\<close>)

lemma linked_unlink:
  assumes "linked nx pv f l (us @ p # vs)"
    and "\<And>x. x \<in> set (us @ vs) \<Longrightarrow> nx' x = (if pv p = Some x then nx p else nx x)"
    and "\<And>x. x \<in> set (us @ vs) \<Longrightarrow> pv' x = (if nx p = Some x then pv p else pv x)"
    and "f' = (if f = Some p then nx p else f)" "l' = (if l = Some p then pv p else l)"
  shows "linked nx' pv' f' l' (us @ vs)"
proof -
  have c: "chain nx pv None us (Some p)" "chain nx pv (Some p) vs None"
    "pv p = lastp us None" "nx p = headp vs None" "distinct (us @ p # vs)"
    "f = headp us (Some p)" "l = lastp vs (Some p)"
    using assms(1) by (auto simp: linked_def chain_append)
  have "chain nx' pv' None us (headp vs None)"
  proof (cases us rule: rev_cases)
    case (snoc ys y)
    then have pv: "pv p = Some y" using c(3) by simp
    have "chain nx' pv' None ys (Some y) = chain nx pv None ys (Some y)"
      using assms(2,3) snoc c pv by (intro chain_cong conjI) (auto dest!: headp_Some_in)
    moreover have "nx p \<noteq> Some y" using c snoc by (auto dest!: headp_Some_in)
    ultimately show ?thesis using assms(2,3) c snoc pv by (auto simp: chain_append)
  qed simp
  moreover have "chain nx' pv' (lastp us None) vs None"
  proof (cases vs)
    case (Cons y ys)
    then have nx: "nx p = Some y" using c(4) by simp
    have "chain nx' pv' (Some y) ys None = chain nx pv (Some y) ys None"
      using assms(2,3) Cons c nx by (intro chain_cong conjI) (auto dest!: lastp_Some_in)
    moreover have "pv p \<noteq> Some y" using c Cons by (auto dest!: lastp_Some_in)
    ultimately show ?thesis using assms(2,3) c Cons nx by auto
  qed simp
  moreover have "f' = headp (us @ vs) None" using c assms(4) by (cases us) auto
  moreover have "l' = lastp (us @ vs) None"
    using c assms(5) by (cases vs rule: rev_cases) auto
  ultimately show ?thesis using c(5) by (auto simp: linked_def chain_append)
qed

lemma linked_append:
  assumes "linked nx pv f l xs" "linked nx pv f2 l2 ys" "xs \<noteq> []" "ys \<noteq> []" "set xs \<inter> set ys = {}"
    and "\<And>x. x \<in> set (xs @ ys) \<Longrightarrow> nx' x = (if l = Some x then f2 else nx x)"
    and "\<And>x. x \<in> set (xs @ ys) \<Longrightarrow> pv' x = (if f2 = Some x then l else pv x)"
  shows "linked nx' pv' f l2 (xs @ ys)"
proof -
  obtain us x where xs: "xs = us @ [x]" using assms(3) by (cases xs rule: rev_cases) auto
  obtain y vs where ys: "ys = y # vs" using assms(4) by (cases ys) auto
  have l: "l = Some x" "f2 = Some y" using assms(1,2) by (auto simp: linked_def xs ys)
  have "chain nx' pv' None us (Some x) = chain nx pv None us (Some x)"
    using assms(1,5,6,7) l by (intro chain_cong) (auto simp: xs ys linked_def)
  moreover have "chain nx' pv' (Some y) vs None = chain nx pv (Some y) vs None"
    using assms(2,5,6,7) l by (intro chain_cong) (auto simp: xs ys linked_def)
  ultimately show ?thesis using assms l
    by (auto simp: linked_def chain_append xs ys)
qed
end
