(* ===== verification/MiState.thy ===== *)
theory MiState
  imports Linked
begin

text \<open>
  The data of mimalloc's page and heap layer (include/mimalloc/types.h, src/init.c): pages,
  page queues, heaps and the store they live in, with the accessors of
  include/mimalloc/internal.h. A page is named by its place, the entry of the slices array of
  a segment (mi_slice_t is mi_page_t in the code); the read-only page that marks an empty
  entry of the direct array has a name of its own. A heap is named by a number. A null
  pointer is None for pages and heaps and 0 for blocks, which are addresses.
  Counters of 16 and 32 bits are natural numbers; where the code subtracts from one, the
  wrap-around is written out.
\<close>

section \<open>Types\<close>

datatype page_ptr = Page_empty | Slice nat nat

type_synonym heap_ptr = nat
type_synonym block_ptr = usize

record mi_page =
  slice_count :: nat
  slice_offset :: nat
  is_committed :: bool
  is_zero_init :: bool
  capacity :: nat
  reserved :: nat
  in_full :: bool
  has_aligned :: bool
  free_is_zero :: bool
  retire_expire :: nat
  free :: block_ptr
  used :: nat
  xblock_size :: usize
  local_free :: block_ptr
  xthread_free :: usize
  xheap :: "heap_ptr option"
  pnext :: "page_ptr option"
  pprev :: "page_ptr option"

record mi_page_queue =
  qfirst :: "page_ptr option"
  qlast :: "page_ptr option"
  block_size :: usize

record mi_heap =
  pages_free_direct :: "page_ptr list"
  pages :: "mi_page_queue list"
  thread_delayed_free :: block_ptr
  page_count :: nat
  page_retired_min :: nat
  page_retired_max :: nat
  no_reclaim :: bool

text \<open>The store: every page structure by its place, every heap by its name.\<close>

record mi_store =
  page_at :: "page_ptr \<Rightarrow> mi_page"
  heap_at :: "heap_ptr \<Rightarrow> mi_heap"

definition upd_page :: "page_ptr \<Rightarrow> (mi_page \<Rightarrow> mi_page) \<Rightarrow> 'a mi_store_scheme \<Rightarrow> 'a mi_store_scheme" where
  "upd_page p f s = s\<lparr>page_at := (page_at s)(p := f (page_at s p))\<rparr>"

definition upd_heap :: "heap_ptr \<Rightarrow> (mi_heap \<Rightarrow> mi_heap) \<Rightarrow> 'a mi_store_scheme \<Rightarrow> 'a mi_store_scheme" where
  "upd_heap h f s = s\<lparr>heap_at := (heap_at s)(h := f (heap_at s h))\<rparr>"

text \<open>A queue pointer is a heap and the index of the queue in its pages array.\<close>

type_synonym queue_ptr = "heap_ptr \<times> nat"

definition queue_at :: "queue_ptr \<Rightarrow> 'a mi_store_scheme \<Rightarrow> mi_page_queue" where
  "queue_at q s = pages (heap_at s (fst q)) ! snd q"

definition upd_queue ::
  "queue_ptr \<Rightarrow> (mi_page_queue \<Rightarrow> mi_page_queue) \<Rightarrow> 'a mi_store_scheme \<Rightarrow> 'a mi_store_scheme" where
  "upd_queue q f s =
     upd_heap (fst q) (\<lambda>h. h\<lparr>pages := (pages h)[snd q := f (pages h ! snd q)]\<rparr>) s"

section \<open>Initial values (init.c)\<close>

definition MI_SMALL_WSIZE_MAX :: nat where [simp]: "MI_SMALL_WSIZE_MAX = 128"
definition MI_SMALL_SIZE_MAX :: nat where [simp]: "MI_SMALL_SIZE_MAX = MI_SMALL_WSIZE_MAX * 8"
definition MI_PAGES_DIRECT :: nat where [simp]: "MI_PAGES_DIRECT = MI_SMALL_WSIZE_MAX + 1"

text \<open>The block sizes of MI_PAGE_QUEUES_EMPTY, in words.\<close>

definition mi_queue_wsizes :: "nat list" where
  "mi_queue_wsizes =
    [1,
     1, 2, 3, 4, 5, 6, 7, 8,
     10, 12, 14, 16, 20, 24, 28, 32,
     40, 48, 56, 64, 80, 96, 112, 128,
     160, 192, 224, 256, 320, 384, 448, 512,
     640, 768, 896, 1024, 1280, 1536, 1792, 2048,
     2560, 3072, 3584, 4096, 5120, 6144, 7168, 8192,
     10240, 12288, 14336, 16384, 20480, 24576, 28672, 32768,
     40960, 49152, 57344, 65536, 81920, 98304, 114688, 131072,
     163840, 196608, 229376, 262144, 327680, 393216, 458752, 524288,
     MI_MEDIUM_OBJ_WSIZE_MAX + 1,
     MI_MEDIUM_OBJ_WSIZE_MAX + 2]"

definition mi_page_empty :: mi_page where
  "mi_page_empty = \<lparr>slice_count = 0, slice_offset = 0, is_committed = False, is_zero_init = False,
     capacity = 0, reserved = 0, in_full = False, has_aligned = False, free_is_zero = False,
     retire_expire = 0, free = 0, used = 0, xblock_size = 0, local_free = 0, xthread_free = 0,
     xheap = None, pnext = None, pprev = None\<rparr>"

definition mi_heap_empty :: mi_heap where
  "mi_heap_empty = \<lparr>pages_free_direct = replicate MI_PAGES_DIRECT Page_empty,
     pages = map (\<lambda>w. \<lparr>qfirst = None, qlast = None, block_size = of_nat (w * 8)\<rparr>) mi_queue_wsizes,
     thread_delayed_free = 0, page_count = 0, page_retired_min = MI_BIN_FULL, page_retired_max = 0,
     no_reclaim = False\<rparr>"

section \<open>Accessors of pages (internal.h)\<close>

definition mi_page_thread_free :: "mi_page \<Rightarrow> block_ptr" where
  "mi_page_thread_free page = xthread_free page AND NOT 3"

definition mi_page_thread_free_flag :: "mi_page \<Rightarrow> mi_delayed" where
  "mi_page_thread_free_flag page = mi_delayed_of (xthread_free page AND 3)"

definition mi_page_all_free :: "mi_page \<Rightarrow> bool" where
  "mi_page_all_free page \<longleftrightarrow> used page = 0"

definition mi_page_has_any_available :: "mi_page \<Rightarrow> bool" where
  "mi_page_has_any_available page \<longleftrightarrow> used page < reserved page \<or> mi_page_thread_free page \<noteq> 0"

definition mi_page_immediate_available :: "mi_page \<Rightarrow> bool" where
  "mi_page_immediate_available page \<longleftrightarrow> free page \<noteq> 0"

text \<open>The subtraction is on uint32_t; page is None for a null pointer.\<close>

definition mi_page_mostly_used :: "mi_page option \<Rightarrow> bool" where
  "mi_page_mostly_used p =
     (case p of None \<Rightarrow> True
      | Some page \<Rightarrow> (reserved page + 2 ^ 32 - used page) mod 2 ^ 32 \<le> reserved page div 8)"

definition mi_page_is_in_full :: "mi_page \<Rightarrow> bool" where
  "mi_page_is_in_full page = in_full page"

definition mi_page_set_in_full :: "page_ptr \<Rightarrow> bool \<Rightarrow> 'a mi_store_scheme \<Rightarrow> 'a mi_store_scheme" where
  "mi_page_set_in_full p b s = upd_page p (\<lambda>page. page\<lparr>in_full := b\<rparr>) s"

definition mi_page_set_has_aligned :: "page_ptr \<Rightarrow> bool \<Rightarrow> 'a mi_store_scheme \<Rightarrow> 'a mi_store_scheme" where
  "mi_page_set_has_aligned p b s = upd_page p (\<lambda>page. page\<lparr>has_aligned := b\<rparr>) s"

definition mi_page_set_heap :: "page_ptr \<Rightarrow> heap_ptr option \<Rightarrow> 'a mi_store_scheme \<Rightarrow> 'a mi_store_scheme" where
  "mi_page_set_heap p h s = upd_page p (\<lambda>page. page\<lparr>xheap := h\<rparr>) s"

section \<open>Reading after writing\<close>

named_theorems store_simps

lemma page_at_upd_page [store_simps]:
  "page_at (upd_page p f s) q = (if q = p then f (page_at s p) else page_at s q)"
  "heap_at (upd_page p f s) = heap_at s"
  by (simp_all add: upd_page_def)

lemma heap_at_upd_heap [store_simps]:
  "heap_at (upd_heap h g s) k = (if k = h then g (heap_at s h) else heap_at s k)"
  "page_at (upd_heap h g s) = page_at s"
  by (simp_all add: upd_heap_def)

lemma queue_at_upd_page [store_simps]: "queue_at q (upd_page p f s) = queue_at q s"
  by (simp add: queue_at_def store_simps)

lemma upd_queue_other [store_simps]: "page_at (upd_queue q f s) = page_at s"
  by (simp add: upd_queue_def store_simps)

lemma heap_at_upd_queue [store_simps]:
  "heap_at (upd_queue q f s) k =
     (if k = fst q then (heap_at s k)\<lparr>pages := (pages (heap_at s k))[snd q := f (queue_at q s)]\<rparr>
      else heap_at s k)"
  by (simp add: upd_queue_def store_simps queue_at_def)

lemma queue_at_upd_queue [store_simps]:
  "snd q < length (pages (heap_at s (fst q))) \<Longrightarrow>
   queue_at r (upd_queue q f s) = (if r = q then f (queue_at q s) else queue_at r s)"
  by (auto simp: queue_at_def store_simps prod_eq_iff nth_list_update)

lemma queue_at_upd_heap [store_simps]:
  "queue_at r (upd_heap h g s) = (if fst r = h then pages (g (heap_at s h)) ! snd r else queue_at r s)"
  by (simp add: queue_at_def store_simps)

lemma length_pages_upd_queue [store_simps]:
  "length (pages (heap_at (upd_queue q f s) k)) = length (pages (heap_at s k))"
  by (simp add: store_simps)

end
