(* ===== verification/PageQueue.thy ===== *)
theory PageQueue
  imports MiState
begin

text \<open>
  mimalloc's page queues (src/page-queue.c): the size classes (bins), the doubly linked queue
  of the pages of each class, and the direct array that leads from a small size to the first
  page of its class. On this platform MI_MAX_ALIGN_SIZE is twice the word size, so that
  MI_ALIGN2W is defined. The functions take the store and return it changed; a queue is named
  by a heap and an index.
\<close>

section \<open>Queue queries and bins\<close>

definition mi_page_queue_is_huge :: "mi_page_queue \<Rightarrow> bool" where
  "mi_page_queue_is_huge pq \<longleftrightarrow> block_size pq = of_nat (MI_MEDIUM_OBJ_SIZE_MAX + 8)"

definition mi_page_queue_is_full :: "mi_page_queue \<Rightarrow> bool" where
  "mi_page_queue_is_full pq \<longleftrightarrow> block_size pq = of_nat (MI_MEDIUM_OBJ_SIZE_MAX + 2 * 8)"

definition mi_page_queue_is_special :: "mi_page_queue \<Rightarrow> bool" where
  "mi_page_queue_is_special pq \<longleftrightarrow> block_size pq > of_nat MI_MEDIUM_OBJ_SIZE_MAX"

text \<open>The result is at most 4 * 63, so that the conversions to uint8_t lose nothing.\<close>

definition mi_bin :: "usize \<Rightarrow> nat" where
  "mi_bin sz =
     (let wsize = mi_wsize_from_size sz
      in if wsize \<le> 1 then 1
         else if wsize \<le> 8 then unat ((wsize + 1) AND NOT 1)
         else if wsize > of_nat MI_MEDIUM_OBJ_WSIZE_MAX then MI_BIN_HUGE
         else let wsize = wsize - 1; b = mi_bsr wsize
              in 4 * b + unat (drop_bit (b - 2) wsize AND 0x03) - 3)"

definition mi_bin_size :: "nat \<Rightarrow> usize" where
  "mi_bin_size bin = block_size (pages mi_heap_empty ! bin)"

text \<open>The page size of the operating system is a parameter.\<close>

definition mi_good_size :: "usize \<Rightarrow> usize \<Rightarrow> usize" where
  "mi_good_size os_page_size sz =
     (if sz \<le> of_nat MI_MEDIUM_OBJ_SIZE_MAX then mi_bin_size (mi_bin sz)
      else mi_align_up sz os_page_size)"

text \<open>None is the dereference of a page whose heap is null.\<close>

definition mi_page_queue_of :: "page_ptr \<Rightarrow> 'a mi_store_scheme \<Rightarrow> queue_ptr option" where
  "mi_page_queue_of p s =
     (let page = page_at s p;
          bin = (if mi_page_is_in_full page then MI_BIN_FULL else mi_bin (xblock_size page))
      in case xheap page of None \<Rightarrow> None | Some heap \<Rightarrow> Some (heap, bin))"

definition mi_heap_page_queue_of :: "heap_ptr \<Rightarrow> page_ptr \<Rightarrow> 'a mi_store_scheme \<Rightarrow> queue_ptr" where
  "mi_heap_page_queue_of heap p s =
     (heap, if mi_page_is_in_full (page_at s p) then MI_BIN_FULL else mi_bin (xblock_size (page_at s p)))"

definition mi_page_queue :: "heap_ptr \<Rightarrow> usize \<Rightarrow> queue_ptr" where
  "mi_page_queue heap sz = (heap, mi_bin sz)"

section \<open>The direct array\<close>

text \<open>
  The loop that walks back from pq - 1 over the queues of the same bin; sizes are the block
  sizes of the heap's queues and the argument the index of prev.
\<close>

fun first_update_prev :: "usize list \<Rightarrow> nat \<Rightarrow> nat \<Rightarrow> nat" where
  "first_update_prev sizes bin 0 = 0"
| "first_update_prev sizes bin (Suc n) =
     (if bin = mi_bin (sizes ! Suc n) then first_update_prev sizes bin n else Suc n)"

definition first_update_start :: "usize list \<Rightarrow> nat \<Rightarrow> usize \<Rightarrow> nat \<Rightarrow> nat" where
  "first_update_start sizes b sz idx =
     (if idx \<le> 1 then 0
      else let prev = first_update_prev sizes (mi_bin sz) (b - 1);
               start = 1 + unat (mi_wsize_from_size (sizes ! prev))
           in if start > idx then idx else start)"

definition set_range :: "'p list \<Rightarrow> nat \<Rightarrow> nat \<Rightarrow> 'p \<Rightarrow> 'p list" where
  "set_range xs start idx v = fold (\<lambda>sz xs. xs[sz := v]) [start..<Suc idx] xs"

definition mi_heap_queue_first_update :: "heap_ptr \<Rightarrow> queue_ptr \<Rightarrow> 'a mi_store_scheme \<Rightarrow> 'a mi_store_scheme" where
  "mi_heap_queue_first_update heap q s =
     (let pq = queue_at q s; sz = block_size pq
      in if sz > of_nat MI_SMALL_SIZE_MAX then s
         else
           let page = (case qfirst pq of None \<Rightarrow> Page_empty | Some p \<Rightarrow> p);
               idx = unat (mi_wsize_from_size sz);
               pages_free = pages_free_direct (heap_at s heap)
           in if pages_free ! idx = page then s
              else
                let start = first_update_start (map block_size (pages (heap_at s (fst q)))) (snd q) sz idx
                in upd_heap heap (\<lambda>h. h\<lparr>pages_free_direct := set_range pages_free start idx page\<rparr>) s)"

section \<open>Removing, pushing and moving pages\<close>

text \<open>
  The statements that take a page out of its queue, shared by mi_page_queue_remove and
  mi_page_queue_enqueue_from: the neighbours are joined, then the last and the first pointer
  of the queue, and the direct array when the first page changed.
\<close>

definition mi_page_unlink :: "heap_ptr \<Rightarrow> queue_ptr \<Rightarrow> page_ptr \<Rightarrow> 'a mi_store_scheme \<Rightarrow> 'a mi_store_scheme" where
  "mi_page_unlink heap queue p s =
     (let s = (case pprev (page_at s p) of None \<Rightarrow> s
               | Some r \<Rightarrow> upd_page r (\<lambda>x. x\<lparr>pnext := pnext (page_at s p)\<rparr>) s);
          s = (case pnext (page_at s p) of None \<Rightarrow> s
               | Some r \<Rightarrow> upd_page r (\<lambda>x. x\<lparr>pprev := pprev (page_at s p)\<rparr>) s);
          s = (if Some p = qlast (queue_at queue s)
               then upd_queue queue (\<lambda>q. q\<lparr>qlast := pprev (page_at s p)\<rparr>) s else s)
      in if Some p = qfirst (queue_at queue s)
         then mi_heap_queue_first_update heap queue
                (upd_queue queue (\<lambda>q. q\<lparr>qfirst := pnext (page_at s p)\<rparr>) s)
         else s)"

definition mi_page_queue_remove :: "queue_ptr \<Rightarrow> page_ptr \<Rightarrow> 'a mi_store_scheme \<Rightarrow> 'a mi_store_scheme option" where
  "mi_page_queue_remove queue p s =
     (case xheap (page_at s p) of None \<Rightarrow> None
      | Some heap \<Rightarrow>
          let s = mi_page_unlink heap queue p s;
              s = upd_heap heap (\<lambda>h. h\<lparr>page_count := page_count h - 1\<rparr>) s;
              s = upd_page p (\<lambda>x. x\<lparr>pnext := None, pprev := None\<rparr>) s
          in Some (mi_page_set_in_full p False s))"

definition mi_page_queue_push :: "heap_ptr \<Rightarrow> queue_ptr \<Rightarrow> page_ptr \<Rightarrow> 'a mi_store_scheme \<Rightarrow> 'a mi_store_scheme" where
  "mi_page_queue_push heap queue p s =
     (let s = mi_page_set_in_full p (mi_page_queue_is_full (queue_at queue s)) s;
          s = upd_page p (\<lambda>x. x\<lparr>pnext := qfirst (queue_at queue s), pprev := None\<rparr>) s;
          s = (case qfirst (queue_at queue s) of
                 Some f \<Rightarrow> upd_queue queue (\<lambda>q. q\<lparr>qfirst := Some p\<rparr>)
                              (upd_page f (\<lambda>x. x\<lparr>pprev := Some p\<rparr>) s)
               | None \<Rightarrow> upd_queue queue (\<lambda>q. q\<lparr>qfirst := Some p, qlast := Some p\<rparr>) s);
          s = mi_heap_queue_first_update heap queue s
      in upd_heap heap (\<lambda>h. h\<lparr>page_count := page_count h + 1\<rparr>) s)"

definition mi_page_queue_enqueue_from ::
  "queue_ptr \<Rightarrow> queue_ptr \<Rightarrow> page_ptr \<Rightarrow> 'a mi_store_scheme \<Rightarrow> 'a mi_store_scheme option" where
  "mi_page_queue_enqueue_from to from_q p s =
     (case xheap (page_at s p) of None \<Rightarrow> None
      | Some heap \<Rightarrow>
          let s = mi_page_unlink heap from_q p s;
              s = upd_page p (\<lambda>x. x\<lparr>pprev := qlast (queue_at to s), pnext := None\<rparr>) s;
              s = (case qlast (queue_at to s) of
                     Some l \<Rightarrow> upd_queue to (\<lambda>q. q\<lparr>qlast := Some p\<rparr>)
                                  (upd_page l (\<lambda>x. x\<lparr>pnext := Some p\<rparr>) s)
                   | None \<Rightarrow> mi_heap_queue_first_update heap to
                               (upd_queue to (\<lambda>q. q\<lparr>qfirst := Some p, qlast := Some p\<rparr>) s))
          in Some (mi_page_set_in_full p (mi_page_queue_is_full (queue_at to s)) s))"

section \<open>Size classes\<close>

text \<open>The class of a size in words, by search in the table of block sizes.\<close>

definition bin_index :: "nat \<Rightarrow> nat" where
  "bin_index w =
     (if w \<le> 1 then 1 else if w \<le> 8 then (w + 1) div 2 * 2
      else if w > MI_MEDIUM_OBJ_WSIZE_MAX then MI_BIN_HUGE
      else 9 + length (takeWhile (\<lambda>x. x < w) (drop 9 mi_queue_wsizes)))"

lemma length_queue_wsizes [simp]: "length mi_queue_wsizes = 75"
  by (simp add: mi_queue_wsizes_def)

lemma queue_wsizes_step:
  assumes "b \<in> {3..13}" "q \<in> {0..3}"
  shows "mi_queue_wsizes ! (4 * b + q - 3) = (5 + q) * 2 ^ (b - 2)
   \<and> mi_queue_wsizes ! (4 * b + q - 4) = (4 + q) * 2 ^ (b - 2)"
proof -
  have "b \<in> set [3, 4, 5, 6, 7, 8, 9, 10, 11, 12, 13]" "q \<in> set [0, 1, 2, 3]"
    using assms by (simp_all, presburger+)
  moreover have "\<forall>b \<in> set [3, 4, 5, 6, 7, 8, 9, 10, 11, 12, 13]. \<forall>q \<in> set [0, 1, 2, 3].
     mi_queue_wsizes ! (4 * b + q - 3) = (5 + q) * 2 ^ (b - 2)
     \<and> mi_queue_wsizes ! (4 * b + q - 4) = (4 + q) * 2 ^ (b - 2)"
    by (simp add: mi_queue_wsizes_def)
  ultimately show ?thesis by blast
qed

lemma queue_wsizes_sorted: "sorted_wrt (<) (drop 1 (take 73 mi_queue_wsizes))"
  by (simp add: mi_queue_wsizes_def sorted_wrt1 sorted_wrt2 transp_on_less del: sorted_wrt.simps(2))

lemma queue_wsizes_mono: "1 \<le> i \<Longrightarrow> i < j \<Longrightarrow> j < 73 \<Longrightarrow> mi_queue_wsizes ! i < mi_queue_wsizes ! j"
  using sorted_wrt_nth_less [OF queue_wsizes_sorted, of "i - 1" "j - 1"] by simp

lemma queue_wsizes_mono_le: "1 \<le> i \<Longrightarrow> i \<le> j \<Longrightarrow> j < 73 \<Longrightarrow> mi_queue_wsizes ! i \<le> mi_queue_wsizes ! j"
  using queue_wsizes_mono [of i j] by (cases "i = j") simp_all

lemma bin_index_eqI:
  assumes "9 \<le> k" "k \<le> 52" "mi_queue_wsizes ! (k - 1) < w" "w \<le> mi_queue_wsizes ! k"
  shows "bin_index w = k"
proof -
  have "mi_queue_wsizes ! k \<le> mi_queue_wsizes ! 52" "mi_queue_wsizes ! 8 \<le> mi_queue_wsizes ! (k - 1)"
    using assms(1,2) by (auto intro: queue_wsizes_mono_le)
  moreover have "mi_queue_wsizes ! 52 = 16384" "mi_queue_wsizes ! 8 = 8" by (simp_all add: mi_queue_wsizes_def)
  ultimately have w: "8 < w" "w \<le> 16384" using assms(3,4) by linarith+
  have "takeWhile (\<lambda>x. x < w) (drop 9 mi_queue_wsizes) = take (k - 9) (drop 9 mi_queue_wsizes)"
  proof (rule takeWhile_eq_take_P_nth)
    fix i assume i: "i < k - 9" "i < length (drop 9 mi_queue_wsizes)"
    then have "mi_queue_wsizes ! (9 + i) \<le> mi_queue_wsizes ! (k - 1)"
      using assms(2) by (intro queue_wsizes_mono_le) auto
    then show "drop 9 mi_queue_wsizes ! i < w" using i assms(3) by simp
  next
    assume "k - 9 < length (drop 9 mi_queue_wsizes)"
    then show "\<not> drop 9 mi_queue_wsizes ! (k - 9) < w" using assms(1,4) by simp
  qed
  then show ?thesis using w assms(1,2) by (simp add: bin_index_def)
qed

lemma unat_wsize: "unat sz + 7 < 2 ^ 64 \<Longrightarrow> unat (mi_wsize_from_size sz) = (unat sz + 7) div 8"
  unfolding mi_wsize_from_size_def
  by (simp add: unat_div_distrib unat_word_ariths(1) flip: add_diff_eq)

lemma bsr_bin:
  assumes "8 < w" "w \<le> 16384" "unat x = w - 1"
  obtains b q where "b \<in> {3..13}" "q \<in> {0..3}" "mi_bsr x = b"
    "unat (drop_bit (b - 2) x AND 0x03) = q"
    "(4 + q) * 2 ^ (b - 2) < w" "w \<le> (5 + q) * 2 ^ (b - 2)"
proof -
  have nz: "x \<noteq> 0" using assms by auto
  define b where "b = mi_bsr x"
  note lu = mi_bsr_bounds [OF nz, folded b_def]
  have "\<not> b < 3"
  proof
    assume "b < 3"
    then have "(2::nat) ^ Suc b \<le> 2 ^ 3" by (intro power_increasing) auto
    then show False using lu(2) assms by simp
  qed
  moreover have "\<not> 13 < b"
  proof
    assume "13 < b"
    then have "(2::nat) ^ 14 \<le> 2 ^ b" by (intro power_increasing) auto
    then show False using lu(1) assms by simp
  qed
  ultimately have b: "b \<in> {3..13}" by auto
  define c where "c = unat x div 2 ^ (b - 2)"
  have p: "(2::nat) ^ b = 4 * 2 ^ (b - 2)" "(2::nat) ^ Suc b = 8 * 2 ^ (b - 2)"
  proof -
    obtain n where "b = n + 2" using b by (metis add.commute atLeastAtMost_iff le_Suc_ex
        le_trans numeral_le_iff semiring_norm(68) semiring_norm(72))
    then show "(2::nat) ^ b = 4 * 2 ^ (b - 2)" "(2::nat) ^ Suc b = 8 * 2 ^ (b - 2)" by simp_all
  qed
  have c: "4 \<le> c" "c < 8"
    using lu p unfolding c_def by (simp_all add: less_eq_div_iff_mult_less_eq div_less_iff_less_mult)
  have "unat (drop_bit (b - 2) x AND 0x03) = c mod 4"
  proof -
    have "drop_bit (b - 2) x AND 0x03 = take_bit 2 (drop_bit (b - 2) x)"
      by (simp add: take_bit_eq_mask mask_eq_exp_minus_1)
    then show ?thesis by (simp add: unsigned_take_bit_eq unat_drop_bit_usize c_def take_bit_eq_mod unat_mod_distrib)
  qed
  moreover have "c mod 4 = c - 4" using c by (simp add: mod_if)
  ultimately have q: "unat (drop_bit (b - 2) x AND 0x03) = c - 4" by simp
  have "c * 2 ^ (b - 2) \<le> unat x" "unat x < (c + 1) * 2 ^ (b - 2)"
    unfolding c_def by (simp_all add: dividend_less_div_times)
  then show ?thesis using that [OF b _ b_def [symmetric] q] c assms by simp
qed

lemma mi_bin_index:
  assumes "unat sz + 7 < 2 ^ 64"
  shows "mi_bin sz = bin_index ((unat sz + 7) div 8)"
proof -
  define w where "w = (unat sz + 7) div 8"
  have u: "unat (mi_wsize_from_size sz) = w" using unat_wsize [OF assms] by (simp add: w_def)
  have w: "w < 2 ^ 61" using assms by (simp add: w_def)
  consider "w \<le> 1" | "1 < w" "w \<le> 8" | "16384 < w" | "8 < w" "w \<le> 16384" by linarith
  then show ?thesis unfolding w_def [symmetric]
  proof cases
    case 1
    then show "mi_bin sz = bin_index w"
      using u by (simp add: mi_bin_def bin_index_def word_le_nat_alt)
  next
    case 2
    have "mi_bin sz = unat ((mi_wsize_from_size sz + 1) AND NOT (2 ^ 1 - 1))"
      using u 2 by (simp add: mi_bin_def Let_def word_le_nat_alt)
    also have "\<dots> = (w + 1) div 2 * 2"
      using u w by (subst and_not_mask_div) (simp_all add: unat_word_ariths(1))
    finally show "mi_bin sz = bin_index w" using 2 by (simp add: bin_index_def)
  next
    case 3
    then show "mi_bin sz = bin_index w"
      using u by (simp add: mi_bin_def bin_index_def word_le_nat_alt word_less_nat_alt)
  next
    case 4
    have x: "unat (mi_wsize_from_size sz - 1) = w - 1"
      using u 4 by (subst unat_minus_one) (auto simp: unat_eq_zero [symmetric])
    obtain b q where bq: "b \<in> {3..13}" "q \<in> {0..3}" "mi_bsr (mi_wsize_from_size sz - 1) = b"
      "unat (drop_bit (b - 2) (mi_wsize_from_size sz - 1) AND 0x03) = q"
      "(4 + q) * 2 ^ (b - 2) < w" "w \<le> (5 + q) * 2 ^ (b - 2)"
      using bsr_bin [OF 4 x] by metis
    have "mi_bin sz = 4 * b + q - 3"
      using u 4 bq(3,4) by (simp add: mi_bin_def Let_def word_le_nat_alt word_less_nat_alt)
    also have "\<dots> = bin_index w"
    proof (rule bin_index_eqI [symmetric])
      have "3 \<le> b" "b \<le> 13" "q \<le> 3" using bq(1,2) by simp_all
      then show "9 \<le> 4 * b + q - 3" "4 * b + q - 3 \<le> 52" by linarith+
      have "4 * b + q - 3 - 1 = 4 * b + q - 4" by simp
      then show "mi_queue_wsizes ! (4 * b + q - 3 - 1) < w" "w \<le> mi_queue_wsizes ! (4 * b + q - 3)"
        using queue_wsizes_step [OF bq(1,2)] bq(5,6) by simp_all
    qed
    finally show "mi_bin sz = bin_index w" .
  qed
qed

lemma bin_index_bracket:
  assumes "8 < w" "w \<le> 16384"
  shows "9 \<le> bin_index w" "bin_index w \<le> 52"
    "mi_queue_wsizes ! (bin_index w - 1) < w" "w \<le> mi_queue_wsizes ! bin_index w"
    "4 * mi_queue_wsizes ! bin_index w \<le> 5 * w"
proof -
  have x: "unat (of_nat (w - 1) :: usize) = w - 1"
    using assms by (intro unat_of_nat_usize) simp
  obtain b q where bq: "b \<in> {3..13}" "q \<in> {0..3}"
    "(4 + q) * 2 ^ (b - 2) < w" "w \<le> (5 + q) * 2 ^ (b - 2)"
    using bsr_bin [OF assms x] by metis
  define k where "k = 4 * b + q - 3"
  have "3 \<le> b" "b \<le> 13" "q \<le> 3" using bq(1,2) by simp_all
  then have k: "9 \<le> k" "k \<le> 52" "k - 1 = 4 * b + q - 4" unfolding k_def by linarith+
  have br: "mi_queue_wsizes ! (k - 1) < w" "w \<le> mi_queue_wsizes ! k"
    "4 * mi_queue_wsizes ! k \<le> 5 * w"
    using queue_wsizes_step [OF bq(1,2)] bq(3,4) k unfolding k_def [symmetric]
    by (simp_all add: algebra_simps)
  then show "9 \<le> bin_index w" "bin_index w \<le> 52"
    "mi_queue_wsizes ! (bin_index w - 1) < w" "w \<le> mi_queue_wsizes ! bin_index w"
    "4 * mi_queue_wsizes ! bin_index w \<le> 5 * w"
    using bin_index_eqI [OF k(1,2) br(1,2)] k by simp_all
qed

lemma nat_le_8_cases: "w \<le> 8 \<Longrightarrow> w \<in> {0, 1, 2, 3, 4, 5, 6, 7, 8 :: nat}"
  by simp presburger

lemma bin_index_small: "w \<le> 8 \<Longrightarrow> bin_index w \<le> 8" "w \<le> 8 \<Longrightarrow> 1 \<le> bin_index w"
  using nat_le_8_cases [of w] by (auto simp: bin_index_def)

lemma bin_index_fits:
  assumes "w \<le> 16384"
  shows "w \<le> mi_queue_wsizes ! bin_index w" "1 \<le> bin_index w" "bin_index w \<le> 52"
    "5 \<le> w \<Longrightarrow> 4 * mi_queue_wsizes ! bin_index w \<le> 5 * w"
proof -
  have "w \<le> mi_queue_wsizes ! bin_index w \<and> 1 \<le> bin_index w \<and> bin_index w \<le> 52
    \<and> (5 \<le> w \<longrightarrow> 4 * mi_queue_wsizes ! bin_index w \<le> 5 * w)"
  proof (cases "w \<le> 8")
    case True
    then show ?thesis using nat_le_8_cases [OF True]
      by (auto simp: bin_index_def mi_queue_wsizes_def)
  next
    case False
    then show ?thesis using bin_index_bracket [of w] assms by simp
  qed
  then show "w \<le> mi_queue_wsizes ! bin_index w" "1 \<le> bin_index w" "bin_index w \<le> 52"
    "5 \<le> w \<Longrightarrow> 4 * mi_queue_wsizes ! bin_index w \<le> 5 * w" by simp_all
qed

lemma bin_index_mono: "v \<le> w \<Longrightarrow> w \<le> 16384 \<Longrightarrow> bin_index v \<le> bin_index w"
proof -
  assume vw: "v \<le> w" "w \<le> 16384"
  consider "w \<le> 8" | "v \<le> 8" "8 < w" | "8 < v" by linarith
  then show ?thesis
  proof cases
    case 1
    have "(v + 1) div 2 * 2 \<le> (w + 1) div 2 * 2" using vw(1) by (intro mult_right_mono div_le_mono) auto
    moreover have "bin_index u = (if u \<le> 1 then 1 else (u + 1) div 2 * 2)" if "u \<le> 8" for u
      using that by (simp add: bin_index_def)
    ultimately show ?thesis using 1 vw bin_index_small(2) [OF 1] by (auto simp: div_greater_zero_iff Suc_le_eq)
  next
    case 2
    then show ?thesis using bin_index_small(1) [of v] bin_index_bracket(1) [of w] vw by simp
  next
    case 3
    then have v: "8 < v" "v \<le> 16384" and w: "8 < w" using vw by simp_all
    show ?thesis
    proof (rule ccontr)
      assume "\<not> bin_index v \<le> bin_index w"
      then have "mi_queue_wsizes ! bin_index w \<le> mi_queue_wsizes ! (bin_index v - 1)"
        using bin_index_bracket [OF v] bin_index_bracket [OF w vw(2)]
        by (intro queue_wsizes_mono_le) auto
      then show False using bin_index_bracket [OF v] bin_index_bracket [OF w vw(2)] vw by simp
    qed
  qed
qed

lemma bin_index_table:
  assumes "w \<le> 16384"
  shows "bin_index (mi_queue_wsizes ! bin_index w) = bin_index w"
proof (cases "w \<le> 8")
  case True
  then have "bin_index w \<in> {1, 2, 4, 6, 8}"
    using nat_le_8_cases [OF True] by (auto simp: bin_index_def)
  moreover have "mi_queue_wsizes ! b = b \<and> bin_index b = b" if "b \<in> {1, 2, 4, 6, 8}" for b
    using that by (elim insertE) (simp_all add: bin_index_def mi_queue_wsizes_def)
  ultimately show ?thesis by simp
next
  case False
  then have w: "8 < w" by simp
  show ?thesis
    using bin_index_bracket [OF w assms] queue_wsizes_mono [of "bin_index w - 1" "bin_index w"]
    by (intro bin_index_eqI) auto
qed

lemma queue_wsizes_le: "b \<le> 52 \<Longrightarrow> mi_queue_wsizes ! b \<le> 16384"
proof -
  assume "b \<le> 52"
  have "mi_queue_wsizes ! 52 = 16384" "mi_queue_wsizes ! 0 = 1" by (simp_all add: mi_queue_wsizes_def)
  then show ?thesis using queue_wsizes_mono_le [of b 52] \<open>b \<le> 52\<close> by (cases "b = 0") simp_all
qed

lemma unat_of_words: "w \<le> 2 ^ 60 \<Longrightarrow> unat (of_nat (w * 8) :: usize) = w * 8"
  by (intro unat_of_nat_usize) simp

lemma unat_mi_bin_size: "b \<le> 52 \<Longrightarrow> unat (mi_bin_size b) = mi_queue_wsizes ! b * 8"
  using queue_wsizes_le [of b] unfolding mi_bin_size_def mi_heap_empty_def
  by (simp add: unat_of_words del: of_nat_mult)

lemma mi_bin_of_words: "w \<le> 2 ^ 59 \<Longrightarrow> mi_bin (of_nat (w * 8)) = bin_index w"
  by (subst mi_bin_index) (simp_all add: unat_of_words del: of_nat_mult)

section \<open>The direct array follows the queues\<close>

definition queue_sizes :: "usize list" where
  "queue_sizes = map (\<lambda>w. of_nat (w * 8)) mi_queue_wsizes"

text \<open>The queues that some size is assigned to, and the two special ones.\<close>

definition active_bin :: "nat \<Rightarrow> bool" where
  "active_bin b \<longleftrightarrow> b \<in> {1, 2, 4, 6, 8} \<or> 9 \<le> b \<and> b \<le> 52 \<or> b = MI_BIN_HUGE \<or> b = MI_BIN_FULL"

lemma active_bin_index: "active_bin (bin_index w)"
proof -
  consider "w \<le> 8" | "8 < w" "w \<le> 16384" | "16384 < w" by linarith
  then show ?thesis
  proof cases
    case 1
    then show ?thesis using nat_le_8_cases [OF 1] by (auto simp: bin_index_def active_bin_def)
  next
    case 2
    then show ?thesis using bin_index_bracket [OF 2] by (simp add: active_bin_def)
  qed (simp add: bin_index_def active_bin_def)
qed

text \<open>Sizes of at least SIZE_MAX - 6 wrap around to 0 words.\<close>

lemma mi_bin_wrap: "\<not> unat sz + 7 < 2 ^ 64 \<Longrightarrow> mi_bin sz = 1"
proof -
  assume "\<not> unat sz + 7 < 2 ^ 64"
  then have "(unat sz + 7) mod 2 ^ 64 < 8" using unat_usize_lt [of sz] by (simp add: le_mod_geq)
  then have "unat (sz + 7) < 8" by (simp add: unat_word_ariths(1))
  then have "unat ((sz + 7) div 8) = 0" by (simp add: unat_div_distrib)
  then have "mi_wsize_from_size sz = 0"
    by (simp add: mi_wsize_from_size_def unat_eq_zero flip: add_diff_eq)
  then show ?thesis by (simp add: mi_bin_def)
qed

lemma active_mi_bin: "active_bin (mi_bin sz)"
proof (cases "unat sz + 7 < 2 ^ 64")
  case True
  then show ?thesis using mi_bin_index active_bin_index by simp
qed (simp add: mi_bin_wrap active_bin_def)

lemma queue_sizes_nth: "b < 75 \<Longrightarrow> queue_sizes ! b = of_nat (mi_queue_wsizes ! b * 8)"
  by (simp add: queue_sizes_def)

lemma queue_wsizes_lt: "b < 75 \<Longrightarrow> mi_queue_wsizes ! b < 2 ^ 20"
proof -
  have "list_all (\<lambda>w. w < 2 ^ 20) mi_queue_wsizes" by (simp add: mi_queue_wsizes_def)
  then show "b < 75 \<Longrightarrow> ?thesis" by (simp add: list_all_length)
qed

lemma mi_bin_queue_sizes: "b < 75 \<Longrightarrow> mi_bin (queue_sizes ! b) = bin_index (mi_queue_wsizes ! b)"
  using queue_wsizes_lt [of b] by (simp add: queue_sizes_nth mi_bin_of_words del: of_nat_mult)

lemma unat_queue_sizes: "b < 75 \<Longrightarrow> unat (queue_sizes ! b) = mi_queue_wsizes ! b * 8"
  using queue_wsizes_lt [of b] by (simp add: queue_sizes_nth unat_of_words del: of_nat_mult)

lemma wsize_queue_sizes: "b < 75 \<Longrightarrow> unat (mi_wsize_from_size (queue_sizes ! b)) = mi_queue_wsizes ! b"
  using queue_wsizes_lt [of b] by (simp add: unat_wsize unat_queue_sizes)

lemma bin_index_wsizes:
  assumes "9 \<le> b" "b \<le> 52"
  shows "bin_index (mi_queue_wsizes ! b) = b"
  using assms queue_wsizes_mono [of "b - 1" b] by (intro bin_index_eqI) auto

lemma first_update_prev_unfold:
  "first_update_prev sizes bin n =
     (if n = 0 then 0 else if bin = mi_bin (sizes ! n) then first_update_prev sizes bin (n - 1) else n)"
  by (cases n) simp_all

text \<open>The sizes that share a bin: from first_update_start to the block size of the queue.\<close>

lemma first_update_range:
  assumes "active_bin b" "b \<le> 52" "w \<le> 16384"
  shows "bin_index w = b \<longleftrightarrow>
     first_update_start queue_sizes b (queue_sizes ! b) (mi_queue_wsizes ! b) \<le> w \<and> w \<le> mi_queue_wsizes ! b"
proof (cases "9 \<le> b")
  case True
  obtain c where c: "b = Suc c" "8 \<le> c" using True by (cases b) auto
  have "bin_index (mi_queue_wsizes ! c) \<noteq> b"
  proof (cases "c = 8")
    case True
    then show ?thesis using c by (simp add: mi_queue_wsizes_def bin_index_def)
  next
    case False
    then show ?thesis using bin_index_wsizes [of c] c assms by simp
  qed
  then have prev: "first_update_prev queue_sizes b c = c"
    using c assms(2) mi_bin_queue_sizes [of c] by (cases c) auto
  have ws: "mi_queue_wsizes ! c < mi_queue_wsizes ! b" "8 \<le> mi_queue_wsizes ! c"
    using queue_wsizes_mono [of c b] queue_wsizes_mono_le [of 8 c] c assms(2)
    by (simp_all add: mi_queue_wsizes_def)
  have start: "first_update_start queue_sizes b (queue_sizes ! b) (mi_queue_wsizes ! b) = 1 + mi_queue_wsizes ! c"
    using prev ws c assms(2) mi_bin_queue_sizes [of b] wsize_queue_sizes [of c] bin_index_wsizes [of b] True
    by (simp add: first_update_start_def)
  show ?thesis
  proof
    assume "bin_index w = b"
    moreover from this have "8 < w" using bin_index_small(1) [of w] True by (cases "w \<le> 8") auto
    ultimately show "first_update_start queue_sizes b (queue_sizes ! b) (mi_queue_wsizes ! b) \<le> w
        \<and> w \<le> mi_queue_wsizes ! b"
      using bin_index_bracket [of w] assms(3) c start by auto
  next
    assume "first_update_start queue_sizes b (queue_sizes ! b) (mi_queue_wsizes ! b) \<le> w
        \<and> w \<le> mi_queue_wsizes ! b"
    then show "bin_index w = b" using start c True assms(2) by (intro bin_index_eqI) auto
  qed
next
  case False
  then have b: "b \<in> {1, 2, 4, 6, 8}" using assms(1,2) by (auto simp: active_bin_def)
  have bins: "mi_bin (queue_sizes ! n) = bin_index (mi_queue_wsizes ! n)" if "n \<le> 8" for n
    using that mi_bin_queue_sizes [of n] by simp
  have ws: "mi_queue_wsizes ! n = (if n = 0 then 1 else n)" if "n \<le> 8" for n
    using that nat_le_8_cases [OF that] by (auto simp: mi_queue_wsizes_def)
  have wsz: "unat (mi_wsize_from_size (queue_sizes ! n)) = (if n = 0 then 1 else n)" if "n \<le> 8" for n
    using that wsize_queue_sizes [of n] ws by simp
  have start: "first_update_start queue_sizes b (queue_sizes ! b) (mi_queue_wsizes ! b) = (if b = 1 then 0 else if b = 2 then 2 else b - 1)"
    using b by (elim insertE; simp add: first_update_start_def ws bins wsz bin_index_def
        first_update_prev_unfold [of _ _ 7] first_update_prev_unfold [of _ _ 6]
        first_update_prev_unfold [of _ _ 5] first_update_prev_unfold [of _ _ 4]
        first_update_prev_unfold [of _ _ 3] first_update_prev_unfold [of _ _ 2]
        first_update_prev_unfold [of _ _ 1])
  show ?thesis
  proof (cases "w \<le> 8")
    case True
    show ?thesis unfolding start using b ws nat_le_8_cases [OF True]
      by (elim insertE; simp add: bin_index_def)
  next
    case False
    then have "9 \<le> bin_index w" using bin_index_bracket(1) [of w] assms(3) by simp
    then show ?thesis unfolding start using b ws False by auto
  qed
qed

lemma length_set_range [simp]: "length (set_range xs a b v) = length xs"
proof -
  have "length (fold (\<lambda>sz xs. xs[sz := v]) is xs) = length xs" for "is"
    by (induction "is" arbitrary: xs) simp_all
  then show ?thesis by (simp add: set_range_def)
qed

lemma nth_set_range:
  "i < length xs \<Longrightarrow> set_range xs a b v ! i = (if a \<le> i \<and> i \<le> b then v else xs ! i)"
proof -
  have "fold (\<lambda>sz xs. xs[sz := v]) is xs ! i = (if i \<in> set is then v else xs ! i)"
    if "i < length xs" for "is" using that
    by (induction "is" arbitrary: xs) (auto simp: nth_list_update)
  then show "i < length xs \<Longrightarrow> ?thesis" by (simp add: set_range_def less_Suc_eq_le del: upt_Suc)
qed

definition direct_page :: "'a mi_store_scheme \<Rightarrow> heap_ptr \<Rightarrow> nat \<Rightarrow> page_ptr" where
  "direct_page s h b = (case qfirst (queue_at (h, b) s) of None \<Rightarrow> Page_empty | Some p \<Rightarrow> p)"

definition direct_ok :: "heap_ptr \<Rightarrow> 'a mi_store_scheme \<Rightarrow> bool" where
  "direct_ok h s \<longleftrightarrow> length (pages_free_direct (heap_at s h)) = MI_PAGES_DIRECT
     \<and> (\<forall>w \<le> MI_SMALL_WSIZE_MAX. pages_free_direct (heap_at s h) ! w = direct_page s h (bin_index w))"

lemma bin_index_small_size:
  assumes "w \<le> 128" shows "mi_queue_wsizes ! bin_index w \<le> 128" "bin_index w \<le> 24"
proof -
  have "bin_index 128 = 24" by (rule bin_index_eqI) (simp_all add: mi_queue_wsizes_def)
  moreover have "mi_queue_wsizes ! 24 = 128" by (simp add: mi_queue_wsizes_def)
  ultimately show "bin_index w \<le> 24" "mi_queue_wsizes ! bin_index w \<le> 128"
    using bin_index_mono [OF assms] bin_index_fits(2) [of w] assms
      queue_wsizes_mono_le [of "bin_index w" 24] by auto
qed

lemma active_bin_wsizes: "active_bin b \<Longrightarrow> b \<le> 52 \<Longrightarrow> bin_index (mi_queue_wsizes ! b) = b"
proof (cases "9 \<le> b")
  case False
  assume "active_bin b" "b \<le> 52"
  then have "b \<in> {1, 2, 4, 6, 8}" using False by (auto simp: active_bin_def)
  then show ?thesis by (elim insertE) (simp_all add: mi_queue_wsizes_def bin_index_def)
qed (rule bin_index_wsizes)

lemma first_update_other:
  "page_at (mi_heap_queue_first_update h q s) = page_at s"
  "k \<noteq> h \<Longrightarrow> heap_at (mi_heap_queue_first_update h q s) k = heap_at s k"
  "queue_at r (mi_heap_queue_first_update h q s) = queue_at r s"
  "pages (heap_at (mi_heap_queue_first_update h q s) k) = pages (heap_at s k)"
  "page_count (heap_at (mi_heap_queue_first_update h q s) k) = page_count (heap_at s k)"
  "length (pages_free_direct (heap_at (mi_heap_queue_first_update h q s) k))
     = length (pages_free_direct (heap_at s k))"
  by (auto simp: mi_heap_queue_first_update_def Let_def store_simps queue_at_def)

lemma direct_page_first_update: "direct_page (mi_heap_queue_first_update h q s) = direct_page s"
  by (intro ext) (simp add: direct_page_def first_update_other)

lemma first_update_direct:
  assumes sizes: "map block_size (pages (heap_at s h)) = queue_sizes"
    and len: "length (pages_free_direct (heap_at s h)) = MI_PAGES_DIRECT"
    and b: "active_bin b"
    and others: "\<And>w. w \<le> 128 \<Longrightarrow> bin_index w \<noteq> b \<Longrightarrow>
           pages_free_direct (heap_at s h) ! w = direct_page s h (bin_index w)"
    and uniform: "\<And>w. w \<le> 128 \<Longrightarrow> bin_index w = b \<Longrightarrow> pages_free_direct (heap_at s h) ! w = x"
  shows "direct_ok h (mi_heap_queue_first_update h (h, b) s)"
proof -
  define s' where "s' = mi_heap_queue_first_update h (h, b) s"
  have b75: "b < 75" using b by (auto simp: active_bin_def)
  have blk: "block_size (queue_at (h, b) s) = queue_sizes ! b"
    using arg_cong [OF sizes, of "\<lambda>l. l ! b"] arg_cong [OF sizes, of length] b75
    by (simp add: queue_at_def queue_sizes_def)
  have small: "queue_sizes ! b > of_nat MI_SMALL_SIZE_MAX \<longleftrightarrow> 128 < mi_queue_wsizes ! b"
    using unat_queue_sizes [OF b75] by (simp add: word_less_nat_alt)
  have dp: "direct_page s h b = (case qfirst (queue_at (h, b) s) of None \<Rightarrow> Page_empty | Some p \<Rightarrow> p)"
    by (simp add: direct_page_def)
  have "pages_free_direct (heap_at s' h) ! w = direct_page s h (bin_index w)" if w: "w \<le> 128" for w
  proof (cases "128 < mi_queue_wsizes ! b")
    case True
    then have "bin_index w \<noteq> b" using bin_index_small_size [OF w] by auto
    then show ?thesis using others [OF w] True small blk
      by (simp add: s'_def mi_heap_queue_first_update_def)
  next
    case False
    let ?d = "pages_free_direct (heap_at s h)"
    have "mi_queue_wsizes ! 73 = 16385" "mi_queue_wsizes ! 74 = 16386" by (simp_all add: mi_queue_wsizes_def)
    then have b52: "b \<le> 52" using b False by (auto simp: active_bin_def)
    then have b52: "b \<le> 52" "bin_index (mi_queue_wsizes ! b) = b"
      using active_bin_wsizes [OF b] by simp_all
    note range = first_update_range [OF b b52(1)]
    have idx: "unat (mi_wsize_from_size (queue_sizes ! b)) = mi_queue_wsizes ! b"
      by (rule wsize_queue_sizes [OF b75])
    show ?thesis
    proof (cases "?d ! (mi_queue_wsizes ! b) = direct_page s h b")
      case True
      then have "s' = s" using blk False small idx
        by (simp add: s'_def mi_heap_queue_first_update_def Let_def dp)
      moreover have "x = direct_page s h b"
        using uniform [of "mi_queue_wsizes ! b"] False b52 True by simp
      ultimately show ?thesis using others [OF w] uniform [OF w] by (cases "bin_index w = b") auto
    next
      case upd: False
      have "pages_free_direct (heap_at s' h) = set_range ?d
          (first_update_start queue_sizes b (queue_sizes ! b) (mi_queue_wsizes ! b))
          (mi_queue_wsizes ! b) (direct_page s h b)"
        using blk False small idx upd sizes
        by (simp add: s'_def mi_heap_queue_first_update_def Let_def dp store_simps)
      then show ?thesis using range [of w] w len others [OF w]
        by (auto simp: nth_set_range)
    qed
  qed
  then show ?thesis using len
    by (simp add: direct_ok_def s'_def first_update_other direct_page_first_update)
qed

lemma first_update_unchanged_direct:
  "h \<noteq> k \<Longrightarrow> direct_ok k (mi_heap_queue_first_update h q s) = direct_ok k s"
  by (simp add: direct_ok_def first_update_other direct_page_first_update)

section \<open>Well-formed heaps\<close>

definition queue_list :: "'a mi_store_scheme \<Rightarrow> queue_ptr \<Rightarrow> page_ptr list \<Rightarrow> bool" where
  "queue_list s q xs \<longleftrightarrow> linked (\<lambda>p. pnext (page_at s p)) (\<lambda>p. pprev (page_at s p))
     (qfirst (queue_at q s)) (qlast (queue_at q s)) xs"

text \<open>
  Q gives the pages of every queue: they are linked in that order, every page is in the queue
  that mi_page_queue_of computes for it, the direct array follows the first pages and the page
  count is the number of all pages.
\<close>

definition heap_wf :: "heap_ptr \<Rightarrow> 'a mi_store_scheme \<Rightarrow> (nat \<Rightarrow> page_ptr list) \<Rightarrow> bool" where
  "heap_wf h s Q \<longleftrightarrow>
     map block_size (pages (heap_at s h)) = queue_sizes \<and> direct_ok h s
     \<and> (\<forall>b < 75. queue_list s (h, b) (Q b) \<and> (\<forall>p \<in> set (Q b). mi_page_queue_of p s = Some (h, b)))
     \<and> page_count (heap_at s h) = (\<Sum>b < 75. length (Q b))"

lemma heap_wfD:
  assumes "heap_wf h s Q"
  shows "map block_size (pages (heap_at s h)) = queue_sizes" "direct_ok h s"
    "b < 75 \<Longrightarrow> queue_list s (h, b) (Q b)"
    "b < 75 \<Longrightarrow> p \<in> set (Q b) \<Longrightarrow> mi_page_queue_of p s = Some (h, b)"
    "page_count (heap_at s h) = (\<Sum>b < 75. length (Q b))"
  using assms by (simp_all add: heap_wf_def)

lemma length_queue_sizes [simp]: "length queue_sizes = 75"
  by (simp add: queue_sizes_def)

lemma sizes_length: "map block_size (pages (heap_at s h)) = queue_sizes \<Longrightarrow> length (pages (heap_at s h)) = 75"
  by (metis length_map length_queue_sizes)

lemma sizes_queue: "map block_size (pages (heap_at s h)) = queue_sizes \<Longrightarrow> b < 75 \<Longrightarrow>
   block_size (queue_at (h, b) s) = queue_sizes ! b"
  using sizes_length [of s h] by (auto simp: queue_at_def dest: arg_cong [where f = "\<lambda>l. l ! b"])

lemma is_full_iff: "map block_size (pages (heap_at s h)) = queue_sizes \<Longrightarrow> b < 75 \<Longrightarrow>
   mi_page_queue_is_full (queue_at (h, b) s) \<longleftrightarrow> b = MI_BIN_FULL"
proof -
  assume a: "map block_size (pages (heap_at s h)) = queue_sizes" "b < 75"
  have "mi_queue_wsizes ! b = 16386 \<longleftrightarrow> b = 74"
  proof
    assume e: "mi_queue_wsizes ! b = 16386"
    show "b = 74"
    proof (rule ccontr)
      assume "b \<noteq> 74"
      then consider "b = 0" | "1 \<le> b" "b \<le> 52" | "53 \<le> b" "b < 73" | "b = 73" using a(2) by linarith
      then show False
        using e queue_wsizes_mono_le [of b 52] queue_wsizes_mono_le [of 53 b]
        by cases (simp_all add: mi_queue_wsizes_def)
    qed
  qed (simp add: mi_queue_wsizes_def)
  then show ?thesis
    using unat_queue_sizes [OF a(2)] sizes_queue [OF a]
    by (simp add: mi_page_queue_is_full_def word_unat_eq_iff)
qed

lemma queue_of_active: "mi_page_queue_of p s = Some (h, b) \<Longrightarrow> active_bin b"
  using active_mi_bin by (auto simp: mi_page_queue_of_def Let_def active_bin_def split: option.splits if_splits)

lemma heap_wf_disjoint:
  "heap_wf h s Q \<Longrightarrow> b < 75 \<Longrightarrow> c < 75 \<Longrightarrow> p \<in> set (Q b) \<Longrightarrow> p \<in> set (Q c) \<Longrightarrow> b = c"
  using heap_wfD(4) [of h s Q b p] heap_wfD(4) [of h s Q c p] by simp

text \<open>Changing other fields than the links, the heap, the full flag and the block size.\<close>

lemma queue_list_cong:
  "(\<And>p. p \<in> set xs \<Longrightarrow> pnext (page_at s' p) = pnext (page_at s p) \<and> pprev (page_at s' p) = pprev (page_at s p))
   \<Longrightarrow> qfirst (queue_at q s') = qfirst (queue_at q s) \<Longrightarrow> qlast (queue_at q s') = qlast (queue_at q s)
   \<Longrightarrow> queue_list s' q xs = queue_list s q xs"
  unfolding queue_list_def
  using linked_cong [of xs "\<lambda>p. pnext (page_at s' p)" "\<lambda>p. pnext (page_at s p)"
      "\<lambda>p. pprev (page_at s' p)" "\<lambda>p. pprev (page_at s p)"] by metis

lemma queue_of_cong:
  "xheap (page_at s' p) = xheap (page_at s p) \<Longrightarrow> in_full (page_at s' p) = in_full (page_at s p) \<Longrightarrow>
   xblock_size (page_at s' p) = xblock_size (page_at s p) \<Longrightarrow> mi_page_queue_of p s' = mi_page_queue_of p s"
  by (simp add: mi_page_queue_of_def mi_page_is_in_full_def Let_def split: option.split)

section \<open>Taking a page out of its queue\<close>

lemma unlink_page_at:
  assumes "pprev (page_at s p) \<noteq> Some p" "pnext (page_at s p) \<noteq> Some p"
  shows "page_at (mi_page_unlink h q p s) x = (page_at s x)
     \<lparr>pnext := if pprev (page_at s p) = Some x then pnext (page_at s p) else pnext (page_at s x),
      pprev := if pnext (page_at s p) = Some x then pprev (page_at s p) else pprev (page_at s x)\<rparr>"
  using assms
  by (auto simp: mi_page_unlink_def Let_def first_update_other store_simps split: option.splits)

lemma unlink_queue_at:
  assumes "pprev (page_at s p) \<noteq> Some p" "pnext (page_at s p) \<noteq> Some p"
    "b < length (pages (heap_at s h))"
  shows "queue_at r (mi_page_unlink h (h, b) p s) = (if r = (h, b) then (queue_at r s)
     \<lparr>qfirst := if qfirst (queue_at r s) = Some p then pnext (page_at s p) else qfirst (queue_at r s),
      qlast := if qlast (queue_at r s) = Some p then pprev (page_at s p) else qlast (queue_at r s)\<rparr>
     else queue_at r s)"
  using assms
  by (auto simp: mi_page_unlink_def Let_def first_update_other store_simps split: option.splits)

lemma block_sizes_upd_queue:
  "(\<And>q. block_size (f q) = block_size q) \<Longrightarrow>
   map block_size (pages (heap_at (upd_queue q f s) k)) = map block_size (pages (heap_at s k))"
proof (rule nth_equalityI)
  fix i
  assume f: "\<And>q. block_size (f q) = block_size q"
    and i: "i < length (map block_size (pages (heap_at (upd_queue q f s) k)))"
  then show "map block_size (pages (heap_at (upd_queue q f s) k)) ! i
      = map block_size (pages (heap_at s k)) ! i"
    by (cases "snd q = i") (auto simp: store_simps queue_at_def)
qed (simp add: store_simps)

lemma unlink_heap:
  shows "k \<noteq> h \<Longrightarrow> heap_at (mi_page_unlink h (h, b) p s) k = heap_at s k"
    and "page_count (heap_at (mi_page_unlink h (h, b) p s) k) = page_count (heap_at s k)"
    and "length (pages_free_direct (heap_at (mi_page_unlink h (h, b) p s) k))
      = length (pages_free_direct (heap_at s k))"
  by (auto simp: mi_page_unlink_def Let_def first_update_other store_simps split: option.splits)

lemma unlink_sizes:
  "map block_size (pages (heap_at (mi_page_unlink h (h, b) p s) k)) = map block_size (pages (heap_at s k))"
  by (auto simp: mi_page_unlink_def Let_def first_update_other block_sizes_upd_queue page_at_upd_page
      simp del: map_eq_conv split: option.splits)

lemma unlink_direct:
  assumes "map block_size (pages (heap_at s h)) = queue_sizes" "direct_ok h s" "active_bin b"
    and "pprev (page_at s p) \<noteq> Some p" "pnext (page_at s p) \<noteq> Some p"
  shows "direct_ok h (mi_page_unlink h (h, b) p s)"
proof -
  define s1 where "s1 = (case pprev (page_at s p) of None \<Rightarrow> s
               | Some r \<Rightarrow> upd_page r (\<lambda>x. x\<lparr>pnext := pnext (page_at s p)\<rparr>) s)"
  define s2 where "s2 = (case pnext (page_at s1 p) of None \<Rightarrow> s1
               | Some r \<Rightarrow> upd_page r (\<lambda>x. x\<lparr>pprev := pprev (page_at s1 p)\<rparr>) s1)"
  define s3 where "s3 = (if Some p = qlast (queue_at (h, b) s2)
               then upd_queue (h, b) (\<lambda>q. q\<lparr>qlast := pprev (page_at s2 p)\<rparr>) s2 else s2)"
  have u: "mi_page_unlink h (h, b) p s = (if Some p = qfirst (queue_at (h, b) s3)
         then mi_heap_queue_first_update h (h, b)
                (upd_queue (h, b) (\<lambda>q. q\<lparr>qfirst := pnext (page_at s3 p)\<rparr>) s3)
         else s3)"
    unfolding mi_page_unlink_def Let_def s3_def s2_def s1_def by (rule refl)
  have b: "b < length (pages (heap_at s h))"
    using sizes_length [OF assms(1)] assms(3) by (auto simp: active_bin_def)
  have len: "length (pages (heap_at s3 h)) = length (pages (heap_at s h))"
    by (auto simp: s1_def s2_def s3_def store_simps split: option.splits)
  have "map block_size (pages (heap_at s3 h)) = map block_size (pages (heap_at s h))"
    by (auto simp: s1_def s2_def s3_def page_at_upd_page block_sizes_upd_queue
        simp del: map_eq_conv split: option.splits)
  then have sz: "map block_size (pages (heap_at s3 h)) = queue_sizes" using assms(1) by simp
  have pf: "pages_free_direct (heap_at s3 h) = pages_free_direct (heap_at s h)"
    by (auto simp: s1_def s2_def s3_def store_simps split: option.splits)
  have dp: "direct_page s3 h c = direct_page s h c" for c
    using b by (auto simp: direct_page_def s1_def s2_def s3_def store_simps split: option.splits)
  show ?thesis
  proof (cases "Some p = qfirst (queue_at (h, b) s3)")
    case True
    define s4 where "s4 = upd_queue (h, b) (\<lambda>q. q\<lparr>qfirst := pnext (page_at s3 p)\<rparr>) s3"
    have "direct_ok h (mi_heap_queue_first_update h (h, b) s4)"
    proof (rule first_update_direct [where x = "direct_page s h b"])
      show "map block_size (pages (heap_at s4 h)) = queue_sizes"
        unfolding s4_def by (subst block_sizes_upd_queue) (simp_all add: sz)
      have pf4: "pages_free_direct (heap_at s4 h) = pages_free_direct (heap_at s h)"
        using pf by (simp add: s4_def store_simps)
      then show "length (pages_free_direct (heap_at s4 h)) = MI_PAGES_DIRECT"
        using assms(2) by (simp add: direct_ok_def)
      show "pages_free_direct (heap_at s4 h) ! w = direct_page s4 h (bin_index w)"
        if "w \<le> 128" "bin_index w \<noteq> b" for w
        using that assms(2) pf4 dp b len
        by (simp add: direct_ok_def direct_page_def s4_def store_simps)
      show "pages_free_direct (heap_at s4 h) ! w = direct_page s h b"
        if "w \<le> 128" "bin_index w = b" for w
        using that assms(2) pf4 by (simp add: direct_ok_def)
    qed (rule assms(3))
    then show ?thesis using True by (simp add: u s4_def)
  next
    case False
    then show ?thesis using assms(2) pf dp by (simp add: u direct_ok_def)
  qed
qed

lemma queue_list_links:
  assumes "queue_list s q xs" "p \<in> set xs"
  shows "pprev (page_at s p) \<noteq> Some p" "pnext (page_at s p) \<noteq> Some p"
proof -
  obtain us vs where xs: "xs = us @ p # vs" using assms(2) by (meson split_list)
  have "pprev (page_at s p) = lastp us None" "pnext (page_at s p) = headp vs None" "distinct xs"
    using assms(1) by (simp_all add: queue_list_def linked_def xs chain_append)
  then show "pprev (page_at s p) \<noteq> Some p" "pnext (page_at s p) \<noteq> Some p"
    by (auto simp: xs dest!: lastp_Some_in headp_Some_in)
qed

lemma unlink_queue_list:
  assumes "heap_wf h s Q" "b < 75" "p \<in> set (Q b)" "c < 75"
  shows "queue_list (mi_page_unlink h (h, b) p s) (h, c) (if c = b then remove1 p (Q b) else Q c)"
proof -
  note ql = heap_wfD(3) [OF assms(1)]
  note ln = queue_list_links [OF ql [OF assms(2)] assms(3)]
  note pa = unlink_page_at [OF ln, where h = h and q = "(h, b)"]
  have bl: "b < length (pages (heap_at s h))"
    using sizes_length [OF heap_wfD(1) [OF assms(1)]] assms(2) by simp
  note qa = unlink_queue_at [OF ln bl]
  obtain us vs where xs: "Q b = us @ p # vs" using assms(3) by (meson split_list)
  have lk: "linked (\<lambda>p. pnext (page_at s p)) (\<lambda>p. pprev (page_at s p))
     (qfirst (queue_at (h, b) s)) (qlast (queue_at (h, b) s)) (us @ p # vs)"
    using ql [OF assms(2)] by (simp add: queue_list_def xs)
  show ?thesis
  proof (cases "c = b")
    case True
    have "remove1 p (Q b) = us @ vs" using lk by (auto simp: xs linked_def remove1_append)
    moreover have "linked (\<lambda>p'. pnext (page_at (mi_page_unlink h (h, b) p s) p'))
        (\<lambda>p'. pprev (page_at (mi_page_unlink h (h, b) p s) p'))
        (qfirst (queue_at (h, b) (mi_page_unlink h (h, b) p s)))
        (qlast (queue_at (h, b) (mi_page_unlink h (h, b) p s))) (us @ vs)"
      by (rule linked_unlink [OF lk]) (simp_all add: pa qa)
    ultimately show ?thesis using True by (simp add: queue_list_def)
  next
    case False
    have nb: "pprev (page_at s p) = Some x \<Longrightarrow> x \<in> set (Q b)" "pnext (page_at s p) = Some x \<Longrightarrow> x \<in> set (Q b)" for x
      using linked_neighbours_in [OF lk, of p x] xs by auto
    have "queue_list (mi_page_unlink h (h, b) p s) (h, c) (Q c) = queue_list s (h, c) (Q c)"
      using False nb heap_wf_disjoint [OF assms(1,2,4)] by (intro queue_list_cong) (auto simp: pa qa)
    then show ?thesis using False ql [OF assms(4)] by simp
  qed
qed

lemma sum_queue_update:
  "b < 75 \<Longrightarrow> (\<Sum>c < 75. length ((Q(b := xs)) c)) + length (Q b) = (\<Sum>c < 75. length (Q c)) + length xs"
  for Q :: "nat \<Rightarrow> 'p list"
  by (subst (1 2) sum.remove [of _ b]) auto

lemma direct_ok_cong:
  "pages_free_direct (heap_at s' h) = pages_free_direct (heap_at s h) \<Longrightarrow>
   pages (heap_at s' h) = pages (heap_at s h) \<Longrightarrow> direct_ok h s' = direct_ok h s"
  by (simp add: direct_ok_def direct_page_def queue_at_def)

lemma queue_of_upd [store_simps]:
  "mi_page_queue_of x (upd_heap k f s) = mi_page_queue_of x s"
  "mi_page_queue_of x (upd_queue q g s) = mi_page_queue_of x s"
  "mi_page_queue_of x (mi_heap_queue_first_update k q s) = mi_page_queue_of x s"
  "x \<noteq> p \<Longrightarrow> mi_page_queue_of x (upd_page p u s) = mi_page_queue_of x s"
  by (rule queue_of_cong; simp add: store_simps first_update_other)+

lemma queue_of_unlink:
  "pprev (page_at s p) \<noteq> Some p \<Longrightarrow> pnext (page_at s p) \<noteq> Some p \<Longrightarrow>
   mi_page_queue_of x (mi_page_unlink h q p s) = mi_page_queue_of x s"
  by (rule queue_of_cong) (simp_all add: unlink_page_at)

lemma queue_list_distinct: "queue_list s q xs \<Longrightarrow> distinct xs"
  by (simp add: queue_list_def linked_def)

lemma queue_of_heap: "mi_page_queue_of p s = Some (h, b) \<Longrightarrow> xheap (page_at s p) = Some h"
  by (auto simp: mi_page_queue_of_def Let_def split: option.splits)

text \<open>The state in which a page has been taken out, whatever happens to the page itself.\<close>

lemma unlink_wf:
  assumes wf: "heap_wf h s Q" and b: "b < 75" and p: "p \<in> set (Q b)"
    and s': "\<And>x. x \<noteq> p \<Longrightarrow> page_at s' x = page_at (mi_page_unlink h (h, b) p s) x"
      "pages (heap_at s' h) = pages (heap_at (mi_page_unlink h (h, b) p s) h)"
      "pages_free_direct (heap_at s' h) = pages_free_direct (heap_at (mi_page_unlink h (h, b) p s) h)"
      "page_count (heap_at s' h) = page_count (heap_at s h) - 1"
  shows "heap_wf h s' (Q(b := remove1 p (Q b)))" "c < 75 \<Longrightarrow> p \<notin> set ((Q(b := remove1 p (Q b))) c)"
proof -
  let ?u = "mi_page_unlink h (h, b) p s"
  note D = heap_wfD [OF wf]
  note ln = queue_list_links [OF D(3) [OF b] p]
  have q: "queue_at (h, c) s' = queue_at (h, c) ?u" for c using s'(2) by (simp add: queue_at_def)
  show notin: "p \<notin> set ((Q(b := remove1 p (Q b))) c)" if "c < 75" for c
    using queue_list_distinct [OF D(3) [OF b]] heap_wf_disjoint [OF wf b that p] by auto
  have "queue_list s' (h, c) ((Q(b := remove1 p (Q b))) c)" if c: "c < 75" for c
  proof -
    have "queue_list ?u (h, c) ((Q(b := remove1 p (Q b))) c)"
      using unlink_queue_list [OF wf b p c] by (cases "c = b") simp_all
    moreover have "x \<noteq> p" if "x \<in> set ((Q(b := remove1 p (Q b))) c)" for x
      using notin [OF c] that by metis
    ultimately show ?thesis
      using queue_list_cong [of "(Q(b := remove1 p (Q b))) c" s' ?u "(h, c)"] q s'(1) by metis
  qed
  moreover have "mi_page_queue_of x s' = Some (h, c)"
    if c: "c < 75" "x \<in> set ((Q(b := remove1 p (Q b))) c)" for c x
  proof -
    have "x \<noteq> p" using notin [OF c(1)] c(2) by metis
    moreover have "x \<in> set (Q c)"
      using c(2) set_remove1_subset [of p "Q b"] by (auto split: if_splits)
    ultimately show ?thesis
      using D(4) [OF c(1)] s'(1) queue_of_unlink [OF ln] queue_of_cong [of s' x ?u] by metis
  qed
  moreover have "map block_size (pages (heap_at s' h)) = queue_sizes"
    using D(1) by (simp only: s'(2) unlink_sizes)
  moreover have "direct_ok h s'"
    using unlink_direct [OF D(1,2) queue_of_active [OF D(4) [OF b p]] ln]
      direct_ok_cong [OF s'(3,2)] by simp
  moreover have "page_count (heap_at s' h) = (\<Sum>c < 75. length ((Q(b := remove1 p (Q b))) c))"
  proof -
    have "length (remove1 p (Q b)) + 1 = length (Q b)"
      using length_pos_if_in_set [OF p] by (simp add: length_remove1 p)
    then show ?thesis using sum_queue_update [OF b, of Q "remove1 p (Q b)"]
      unfolding s'(4) D(5) by linarith
  qed
  ultimately show "heap_wf h s' (Q(b := remove1 p (Q b)))" unfolding heap_wf_def by blast
qed

lemma page_queue_remove:
  assumes wf: "heap_wf h s Q" and b: "b < 75" and p: "p \<in> set (Q b)"
  obtains s' where "mi_page_queue_remove (h, b) p s = Some s'"
    "heap_wf h s' (Q(b := remove1 p (Q b)))"
    "page_at s' p = (page_at s p)\<lparr>pnext := None, pprev := None, in_full := False\<rparr>"
    "\<And>k. k \<noteq> h \<Longrightarrow> heap_at s' k = heap_at s k"
proof -
  note D = heap_wfD [OF wf]
  note ln = queue_list_links [OF D(3) [OF b] p]
  note hp = queue_of_heap [OF D(4) [OF b p]]
  define s' where "s' = mi_page_set_in_full p False
     (upd_page p (\<lambda>x. x\<lparr>pnext := None, pprev := None\<rparr>)
       (upd_heap h (\<lambda>h. h\<lparr>page_count := page_count h - 1\<rparr>) (mi_page_unlink h (h, b) p s)))"
  have "mi_page_queue_remove (h, b) p s = Some s'"
    by (simp add: mi_page_queue_remove_def hp s'_def Let_def)
  moreover have "heap_wf h s' (Q(b := remove1 p (Q b)))"
    by (rule unlink_wf [OF wf b p])
      (simp_all add: s'_def mi_page_set_in_full_def store_simps unlink_heap)
  moreover have "page_at s' p = (page_at s p)\<lparr>pnext := None, pprev := None, in_full := False\<rparr>"
    using ln by (simp add: s'_def mi_page_set_in_full_def store_simps unlink_page_at)
  moreover have "heap_at s' k = heap_at s k" if "k \<noteq> h" for k
    using that by (simp add: s'_def mi_page_set_in_full_def store_simps unlink_heap)
  ultimately show ?thesis using that by blast
qed

lemma mi_bin_le_huge: "mi_bin sz \<le> MI_BIN_HUGE"
proof -
  have "mi_bin sz \<noteq> MI_BIN_FULL"
  proof (cases "unat sz + 7 < 2 ^ 64")
    case True
    then have e: "mi_bin sz = bin_index ((unat sz + 7) div 8)" by (rule mi_bin_index)
    show ?thesis
    proof (cases "(unat sz + 7) div 8 \<le> 16384")
      case True
      then show ?thesis using bin_index_fits(3) [OF True] e by simp
    qed (simp add: e bin_index_def)
  next
    case False
    then show ?thesis by (simp add: mi_bin_wrap)
  qed
  then show ?thesis using active_mi_bin [of sz] by (auto simp: active_bin_def)
qed

section \<open>Putting a page into a queue\<close>

lemma insert_wf:
  assumes wf: "heap_wf h s Q" and b: "b < 75"
    and ys: "set ys = insert p (set (Q b))" "length ys = Suc (length (Q b))"
    and ql: "\<And>c. c < 75 \<Longrightarrow> queue_list s' (h, c) ((Q(b := ys)) c)"
    and own: "\<And>x. x \<noteq> p \<Longrightarrow> mi_page_queue_of x s' = mi_page_queue_of x s"
      "mi_page_queue_of p s' = Some (h, b)"
    and new: "\<And>c. c < 75 \<Longrightarrow> p \<notin> set (Q c)"
    and rest: "map block_size (pages (heap_at s' h)) = queue_sizes" "direct_ok h s'"
      "page_count (heap_at s' h) = page_count (heap_at s h) + 1"
  shows "heap_wf h s' (Q(b := ys))"
proof -
  note D = heap_wfD [OF wf]
  have "mi_page_queue_of x s' = Some (h, c)" if c: "c < 75" "x \<in> set ((Q(b := ys)) c)" for c x
  proof (cases "x = p")
    case True
    then have "c = b" using c new by (metis fun_upd_other)
    then show ?thesis using own(2) True by simp
  next
    case False
    then have "x \<in> set (Q c)" using c ys(1) by (auto split: if_splits)
    then show ?thesis using D(4) [OF c(1)] own(1) [OF False] by simp
  qed
  moreover have "page_count (heap_at s' h) = (\<Sum>c < 75. length ((Q(b := ys)) c))"
    using sum_queue_update [OF b, of Q ys] rest(3) D(5) ys(2) by simp
  ultimately show ?thesis using ql rest(1,2) unfolding heap_wf_def by blast
qed

text \<open>The direct array after the first page of queue b has changed, on a state that agrees on the rest.\<close>

lemma first_update_direct_ok:
  assumes "direct_ok h s" "active_bin b" "map block_size (pages (heap_at s' h)) = queue_sizes"
    "pages_free_direct (heap_at s' h) = pages_free_direct (heap_at s h)"
    "\<And>c. c \<noteq> b \<Longrightarrow> qfirst (queue_at (h, c) s') = qfirst (queue_at (h, c) s)"
  shows "direct_ok h (mi_heap_queue_first_update h (h, b) s')"
  using assms by (intro first_update_direct [where x = "direct_page s h b"])
    (auto simp: direct_ok_def direct_page_def)

lemma page_queue_push:
  assumes wf: "heap_wf h s Q" and b: "b < 75" and new: "\<And>c. c < 75 \<Longrightarrow> p \<notin> set (Q c)"
    and own: "xheap (page_at s p) = Some h" "b = MI_BIN_FULL \<or> b = mi_bin (xblock_size (page_at s p))"
  shows "heap_wf h (mi_page_queue_push h (h, b) p s) (Q(b := p # Q b))"
    and "k \<noteq> h \<Longrightarrow> heap_at (mi_page_queue_push h (h, b) p s) k = heap_at s k"
proof -
  note D = heap_wfD [OF wf]
  have lk: "linked (\<lambda>p. pnext (page_at s p)) (\<lambda>p. pprev (page_at s p))
     (qfirst (queue_at (h, b) s)) (qlast (queue_at (h, b) s)) (Q b)"
    using D(3) [OF b] by (simp add: queue_list_def)
  have bl: "b < length (pages (heap_at s h))" using sizes_length [OF D(1)] b by simp
  have fp: "qfirst (queue_at (h, b) s) \<noteq> Some p"
    using lk new [OF b] by (auto simp: linked_def dest!: headp_Some_in)
  have bin: "mi_bin (xblock_size (page_at s p)) \<noteq> MI_BIN_FULL"
    using mi_bin_le_huge [of "xblock_size (page_at s p)"] by simp
  have act: "active_bin b" using own(2) active_mi_bin by (auto simp: active_bin_def)
  define s0 where "s0 = mi_page_set_in_full p (mi_page_queue_is_full (queue_at (h, b) s)) s"
  have q0: "queue_at r s0 = queue_at r s" for r
    by (simp add: s0_def mi_page_set_in_full_def store_simps)
  define s1 where "s1 = upd_page p (\<lambda>x. x\<lparr>pnext := qfirst (queue_at (h, b) s0), pprev := None\<rparr>) s0"
  define s2 where "s2 = (case qfirst (queue_at (h, b) s1) of
                 Some f \<Rightarrow> upd_queue (h, b) (\<lambda>q. q\<lparr>qfirst := Some p\<rparr>)
                              (upd_page f (\<lambda>x. x\<lparr>pprev := Some p\<rparr>) s1)
               | None \<Rightarrow> upd_queue (h, b) (\<lambda>q. q\<lparr>qfirst := Some p, qlast := Some p\<rparr>) s1)"
  define s3 where "s3 = upd_heap h (\<lambda>h. h\<lparr>page_count := page_count h + 1\<rparr>)
     (mi_heap_queue_first_update h (h, b) s2)"
  have push: "mi_page_queue_push h (h, b) p s = s3"
    unfolding mi_page_queue_push_def Let_def s3_def s2_def s1_def s0_def by (rule refl)
  have q1: "queue_at r s1 = queue_at r s" for r
    by (simp add: s1_def store_simps q0)
  have pa: "page_at s2 x = (if x = p
      then (page_at s p)\<lparr>pnext := qfirst (queue_at (h, b) s), pprev := None, in_full := b = MI_BIN_FULL\<rparr>
      else (page_at s x)\<lparr>pprev := if qfirst (queue_at (h, b) s) = Some x then Some p else pprev (page_at s x)\<rparr>)" for x
    using fp is_full_iff [OF D(1) b]
    by (auto simp: s2_def q1 q0 store_simps s1_def s0_def mi_page_set_in_full_def split: option.splits)
  have qa: "queue_at r s2 = (if r = (h, b) then (queue_at r s)\<lparr>qfirst := Some p,
      qlast := if qfirst (queue_at r s) = None then Some p else qlast (queue_at r s)\<rparr> else queue_at r s)" for r
    using bl by (auto simp: s2_def q1 q0 store_simps s1_def s0_def mi_page_set_in_full_def split: option.splits)
  have hp: "k \<noteq> h \<Longrightarrow> heap_at s2 k = heap_at s k" "page_count (heap_at s2 k) = page_count (heap_at s k)"
    "pages_free_direct (heap_at s2 k) = pages_free_direct (heap_at s k)" for k
    by (auto simp: s2_def store_simps s1_def q0 s0_def mi_page_set_in_full_def split: option.splits)
  have "map block_size (pages (heap_at s2 h)) = map block_size (pages (heap_at s h))"
    by (auto simp: s2_def page_at_upd_page block_sizes_upd_queue s1_def q0 s0_def mi_page_set_in_full_def
        simp del: map_eq_conv split: option.splits)
  then have sz: "map block_size (pages (heap_at s2 h)) = queue_sizes" using D(1) by simp
  show "k \<noteq> h \<Longrightarrow> heap_at (mi_page_queue_push h (h, b) p s) k = heap_at s k"
    using hp(1) by (simp add: push s3_def store_simps first_update_other)
  have pa3: "page_at s3 = page_at s2" and qa3: "queue_at r s3 = queue_at r s2" for r
    by (auto simp: s3_def store_simps first_update_other queue_at_def)
  show "heap_wf h (mi_page_queue_push h (h, b) p s) (Q(b := p # Q b))"
    unfolding push
  proof (rule insert_wf [OF wf b, where p = p])
    fix c :: nat assume c: "c < 75"
    show "queue_list s3 (h, c) ((Q(b := p # Q b)) c)"
    proof (cases "c = b")
      case True
      have "linked (\<lambda>x. pnext (page_at s3 x)) (\<lambda>x. pprev (page_at s3 x))
         (Some p) (qlast (queue_at (h, b) s3)) (p # Q b)"
        by (rule linked_push_front [OF lk new [OF b]])
          (use new [OF b] in \<open>auto simp: pa3 qa3 pa qa\<close>)
      then show ?thesis using True by (simp add: queue_list_def qa3 qa)
    next
      case False
      have "x \<noteq> p \<and> qfirst (queue_at (h, b) s) \<noteq> Some x" if "x \<in> set (Q c)" for x
        using that new [OF c] heap_wf_disjoint [OF wf b c _ that] False lk
        by (auto simp: linked_def dest!: headp_Some_in)
      then have "queue_list s3 (h, c) (Q c) = queue_list s (h, c) (Q c)"
        using False by (intro queue_list_cong) (auto simp: pa3 qa3 pa qa)
      then show ?thesis using False D(3) [OF c] by simp
    qed
  next
    show "mi_page_queue_of x s3 = mi_page_queue_of x s" if "x \<noteq> p" for x
      using that by (intro queue_of_cong) (simp_all add: pa3 pa)
    show "mi_page_queue_of p s3 = Some (h, b)"
      using own bin by (auto simp: mi_page_queue_of_def Let_def mi_page_is_in_full_def pa3 pa)
    show "map block_size (pages (heap_at s3 h)) = queue_sizes"
      using sz by (simp add: s3_def store_simps first_update_other)
    have "direct_ok h (mi_heap_queue_first_update h (h, b) s2)"
      by (rule first_update_direct_ok [OF D(2) act sz]) (simp_all add: hp qa)
    then show "direct_ok h s3"
      by (subst direct_ok_cong) (auto simp: s3_def store_simps)
    show "page_count (heap_at s3 h) = page_count (heap_at s h) + 1"
      by (simp add: s3_def store_simps first_update_other hp)
  qed (use new in auto)
qed

lemma page_queue_enqueue_from:
  assumes wf: "heap_wf h s Q" and b: "b < 75" and p: "p \<in> set (Q b)" and t: "t < 75" "t \<noteq> b"
    and own: "t = MI_BIN_FULL \<or> t = mi_bin (xblock_size (page_at s p))"
  obtains s' where "mi_page_queue_enqueue_from (h, t) (h, b) p s = Some s'"
    "heap_wf h s' (Q(b := remove1 p (Q b), t := Q t @ [p]))"
    "\<And>k. k \<noteq> h \<Longrightarrow> heap_at s' k = heap_at s k"
proof -
  note D = heap_wfD [OF wf]
  note ln = queue_list_links [OF D(3) [OF b] p]
  note hp = queue_of_heap [OF D(4) [OF b p]]
  define Q1 where "Q1 = Q(b := remove1 p (Q b))"
  define u where "u = mi_page_unlink h (h, b) p s"
  text \<open>The page count is only adjusted to make the intermediate state well-formed.\<close>
  define u1 where "u1 = upd_heap h (\<lambda>h. h\<lparr>page_count := page_count h - 1\<rparr>) u"
  have wf1: "heap_wf h u1 Q1"
    unfolding Q1_def by (rule unlink_wf [OF wf b p]) (simp_all add: u1_def u_def store_simps unlink_heap)
  have new: "p \<notin> set (Q1 c)" if "c < 75" for c
    unfolding Q1_def by (rule unlink_wf(2) [OF wf b p, where s' = u1])
      (simp_all add: u1_def u_def store_simps unlink_heap that)
  note D1 = heap_wfD [OF wf1]
  have Qt: "Q1 t = Q t" using t by (simp add: Q1_def)
  have pu: "page_at u1 = page_at u" by (simp add: u1_def store_simps)
  have qu: "queue_at r u1 = queue_at r u" for r by (simp add: u1_def queue_at_def store_simps)
  have szu: "map block_size (pages (heap_at u h)) = queue_sizes"
    using D(1) unfolding u_def by (simp only: unlink_sizes)
  have tl: "t < length (pages (heap_at u h))" using sizes_length [OF szu] t by simp
  have up: "xheap (page_at u p) = Some h" "xblock_size (page_at u p) = xblock_size (page_at s p)"
    using hp ln by (simp_all add: u_def unlink_page_at)
  have lk: "linked (\<lambda>p. pnext (page_at u p)) (\<lambda>p. pprev (page_at u p))
     (qfirst (queue_at (h, t) u)) (qlast (queue_at (h, t) u)) (Q t)"
    using D1(3) [OF t(1)] unfolding Qt queue_list_def qu by (simp add: u1_def store_simps)
  have lp: "qlast (queue_at (h, t) u) \<noteq> Some p"
    using lk new [OF t(1)] unfolding Qt by (auto simp: linked_def dest!: lastp_Some_in)
  have fe: "qfirst (queue_at (h, t) u) = None \<longleftrightarrow> qlast (queue_at (h, t) u) = None"
    using linked_empty_iff [OF lk] by simp
  have act: "active_bin t" using own active_mi_bin by (auto simp: active_bin_def)
  define s1 where "s1 = upd_page p (\<lambda>x. x\<lparr>pprev := qlast (queue_at (h, t) u), pnext := None\<rparr>) u"
  define s2 where "s2 = (case qlast (queue_at (h, t) s1) of
                     Some l \<Rightarrow> upd_queue (h, t) (\<lambda>q. q\<lparr>qlast := Some p\<rparr>)
                                  (upd_page l (\<lambda>x. x\<lparr>pnext := Some p\<rparr>) s1)
                   | None \<Rightarrow> mi_heap_queue_first_update h (h, t)
                               (upd_queue (h, t) (\<lambda>q. q\<lparr>qfirst := Some p, qlast := Some p\<rparr>) s1))"
  define s3 where "s3 = mi_page_set_in_full p (mi_page_queue_is_full (queue_at (h, t) s2)) s2"
  have res: "mi_page_queue_enqueue_from (h, t) (h, b) p s = Some s3"
    unfolding mi_page_queue_enqueue_from_def hp option.case Let_def s3_def s2_def s1_def u_def by (rule refl)
  have q1: "queue_at r s1 = queue_at r u" for r by (simp add: s1_def store_simps)
  have pa: "page_at s2 x = (if x = p
      then (page_at u p)\<lparr>pnext := None, pprev := qlast (queue_at (h, t) u)\<rparr>
      else (page_at u x)\<lparr>pnext := if qlast (queue_at (h, t) u) = Some x then Some p else pnext (page_at u x)\<rparr>)" for x
    using lp by (auto simp: s2_def q1 store_simps first_update_other s1_def split: option.splits)
  have qa: "queue_at r s2 = (if r = (h, t) then (queue_at r u)\<lparr>qlast := Some p,
      qfirst := if qlast (queue_at r u) = None then Some p else qfirst (queue_at r u)\<rparr> else queue_at r u)" for r
    using tl by (auto simp: s2_def q1 store_simps first_update_other s1_def split: option.splits)
  have hq: "k \<noteq> h \<Longrightarrow> heap_at s2 k = heap_at u k" "page_count (heap_at s2 k) = page_count (heap_at u k)" for k
    by (auto simp: s2_def store_simps first_update_other s1_def split: option.splits)
  have s1h: "heap_at s1 = heap_at u" by (simp add: s1_def store_simps)
  have sz: "map block_size (pages (heap_at s2 h)) = queue_sizes"
    unfolding szu [symmetric]
    by (auto simp: s2_def page_at_upd_page first_update_other block_sizes_upd_queue s1h
        simp del: map_eq_conv split: option.splits)
  have dir: "direct_ok h u" using D1(2) by (subst (asm) direct_ok_cong [of _ _ u]) (simp_all add: u1_def store_simps)
  have "direct_ok h s2"
  proof (cases "qlast (queue_at (h, t) s1)")
    case None
    have "map block_size (pages (heap_at (upd_queue (h, t) (\<lambda>q. q\<lparr>qfirst := Some p, qlast := Some p\<rparr>) s1) h))
        = queue_sizes"
      by (subst block_sizes_upd_queue) (simp_all add: s1h szu)
    then have "direct_ok h (mi_heap_queue_first_update h (h, t)
        (upd_queue (h, t) (\<lambda>q. q\<lparr>qfirst := Some p, qlast := Some p\<rparr>) s1))"
      by (rule first_update_direct_ok [OF dir act]) (use tl in \<open>simp_all add: store_simps s1h q1\<close>)
    then show ?thesis using None by (simp add: s2_def)
  next
    case (Some l)
    then show ?thesis using dir tl
      by (simp add: s2_def direct_ok_def direct_page_def store_simps s1h q1)
  qed
  then have dir3: "direct_ok h s3"
    by (subst direct_ok_cong [of _ _ s2]) (simp_all add: s3_def mi_page_set_in_full_def store_simps)
  have full: "mi_page_queue_is_full (queue_at (h, t) s2) \<longleftrightarrow> t = MI_BIN_FULL"
    by (rule is_full_iff [OF sz t(1)])
  have links3: "pnext (page_at s3 x) = pnext (page_at s2 x)" "pprev (page_at s3 x) = pprev (page_at s2 x)"
    "queue_at r s3 = queue_at r s2" for x r
    by (simp_all add: s3_def mi_page_set_in_full_def store_simps)
  have "heap_wf h s3 (Q1(t := Q t @ [p]))"
  proof (rule insert_wf [OF wf1 t(1), where p = p])
    fix c :: nat assume c: "c < 75"
    show "queue_list s3 (h, c) ((Q1(t := Q t @ [p])) c)"
    proof (cases "c = t")
      case True
      have "linked (\<lambda>x. pnext (page_at s3 x)) (\<lambda>x. pprev (page_at s3 x))
         (if qlast (queue_at (h, t) u) = None then Some p else qfirst (queue_at (h, t) u)) (Some p) (Q t @ [p])"
        by (rule linked_push_back [OF lk])
          (use new [OF t(1)] in \<open>auto simp: links3 pa Qt\<close>)
      then show ?thesis using True by (simp add: queue_list_def links3 qa)
    next
      case False
      have "x \<noteq> p \<and> qlast (queue_at (h, t) u) \<noteq> Some x" if "x \<in> set (Q1 c)" for x
        using that new [OF c] heap_wf_disjoint [OF wf1 t(1) c _ that] False lk Qt
        by (auto simp: linked_def dest!: lastp_Some_in)
      then have "queue_list s3 (h, c) (Q1 c) = queue_list u1 (h, c) (Q1 c)"
        using False by (intro queue_list_cong) (auto simp: links3 pa qa qu pu)
      then show ?thesis using False D1(3) [OF c] by simp
    qed
  next
    show "mi_page_queue_of x s3 = mi_page_queue_of x u1" if "x \<noteq> p" for x
      using that by (intro queue_of_cong) (simp_all add: s3_def mi_page_set_in_full_def store_simps pa u1_def)
    show "mi_page_queue_of p s3 = Some (h, t)"
      using own up mi_bin_le_huge [of "xblock_size (page_at s p)"] full
      by (auto simp: mi_page_queue_of_def Let_def mi_page_is_in_full_def s3_def mi_page_set_in_full_def
          store_simps pa)
    show "map block_size (pages (heap_at s3 h)) = queue_sizes"
      using sz by (simp add: s3_def mi_page_set_in_full_def store_simps)
    show "page_count (heap_at s3 h) = page_count (heap_at u1 h) + 1"
    proof -
      have "page_count (heap_at u h) = page_count (heap_at s h)" by (simp add: u_def unlink_heap)
      moreover have "0 < page_count (heap_at s h)"
        unfolding D(5) using p b by (intro sum_pos2 [of _ b]) (auto simp: length_pos_if_in_set)
      ultimately show ?thesis by (simp add: s3_def mi_page_set_in_full_def store_simps hq u1_def)
    qed
  qed (use new dir3 Qt in auto)
  then show ?thesis using that [OF res] hq(1)
    by (simp add: Q1_def s3_def mi_page_set_in_full_def store_simps u_def unlink_heap)
qed

section \<open>The delayed-free flag of a page (page.c)\<close>

text \<open>
  The loop of _mi_page_try_use_delayed_free against other threads: every element of the list is
  one iteration, with the value that the atomic load observes and whether the compare-and-swap
  succeeds. The result is the return value and the word that was written, if any; None means
  that the list of iterations ends while the loop is still running.
\<close>

fun try_use_delayed :: "(usize \<times> bool) list \<Rightarrow> mi_delayed \<Rightarrow> bool \<Rightarrow> nat \<Rightarrow> (bool \<times> usize option) option" where
  "try_use_delayed [] delay override_never yield_count = None"
| "try_use_delayed ((tfree, cas_ok) # obs) delay override_never yield_count =
     (let tfreex = mi_tf_set_delayed tfree delay;
          old_delay = mi_tf_delayed tfree
      in if old_delay = MI_DELAYED_FREEING then
           if yield_count \<ge> 4 then Some (False, None)
           else try_use_delayed obs delay override_never (yield_count + 1)
         else if delay = old_delay then Some (True, None)
         else if \<not> override_never \<and> old_delay = MI_NEVER_DELAYED_FREE then Some (True, None)
         else if cas_ok then Some (True, Some tfreex)
         else try_use_delayed obs delay override_never yield_count)"

text \<open>Without interference every iteration sees the word of the page, and five are enough.\<close>

definition mi_page_try_use_delayed_free ::
  "page_ptr \<Rightarrow> mi_delayed \<Rightarrow> bool \<Rightarrow> 'a mi_store_scheme \<Rightarrow> (bool \<times> 'a mi_store_scheme) option" where
  "mi_page_try_use_delayed_free p delay override_never s =
     (case try_use_delayed (replicate 5 (xthread_free (page_at s p), True)) delay override_never 0 of
        None \<Rightarrow> None
      | Some (ok, None) \<Rightarrow> Some (ok, s)
      | Some (ok, Some w) \<Rightarrow> Some (ok, upd_page p (\<lambda>x. x\<lparr>xthread_free := w\<rparr>) s))"

text \<open>
  _mi_page_use_delayed_free repeats the call until it succeeds; None is the case in which it
  waits for another thread to reset MI_DELAYED_FREEING.
\<close>

definition mi_page_use_delayed_free ::
  "page_ptr \<Rightarrow> mi_delayed \<Rightarrow> bool \<Rightarrow> 'a mi_store_scheme \<Rightarrow> 'a mi_store_scheme option" where
  "mi_page_use_delayed_free p delay override_never s =
     (case mi_page_try_use_delayed_free p delay override_never s of
        Some (True, s') \<Rightarrow> Some s' | _ \<Rightarrow> None)"

section \<open>Appending a queue\<close>

partial_function (option) mi_page_queue_append_loop ::
  "heap_ptr \<Rightarrow> page_ptr option \<Rightarrow> nat \<Rightarrow> 'a mi_store_scheme \<Rightarrow> (nat \<times> 'a mi_store_scheme) option" where
  "mi_page_queue_append_loop heap page count s =
     (case page of
        None \<Rightarrow> Some (count, s)
      | Some p \<Rightarrow>
          (case mi_page_use_delayed_free p MI_USE_DELAYED_FREE False
                  (upd_page p (\<lambda>x. x\<lparr>xheap := Some heap\<rparr>) s) of
             None \<Rightarrow> None
           | Some s \<Rightarrow> mi_page_queue_append_loop heap (pnext (page_at s p)) (count + 1) s))"

definition mi_page_queue_append ::
  "heap_ptr \<Rightarrow> queue_ptr \<Rightarrow> queue_ptr \<Rightarrow> 'a mi_store_scheme \<Rightarrow> (nat \<times> 'a mi_store_scheme) option" where
  "mi_page_queue_append heap pq app s =
     (case qfirst (queue_at app s) of
        None \<Rightarrow> Some (0, s)
      | Some f \<Rightarrow>
          (case mi_page_queue_append_loop heap (Some f) 0 s of
             None \<Rightarrow> None
           | Some (count, s) \<Rightarrow>
               (case qlast (queue_at pq s) of
                  None \<Rightarrow> Some (count, mi_heap_queue_first_update heap pq
                     (upd_queue pq (\<lambda>q. q\<lparr>qfirst := qfirst (queue_at app s), qlast := qlast (queue_at app s)\<rparr>) s))
                | Some l \<Rightarrow> Some (count,
                     upd_queue pq (\<lambda>q. q\<lparr>qlast := qlast (queue_at app s)\<rparr>)
                       (upd_page f (\<lambda>x. x\<lparr>pprev := Some l\<rparr>)
                         (upd_page l (\<lambda>x. x\<lparr>pnext := Some f\<rparr>) s))))))"

lemma try_use_delayed_steady:
  "mi_page_try_use_delayed_free p delay ov s = Some
     (let w = xthread_free (page_at s p); old = mi_tf_delayed w
      in if old = MI_DELAYED_FREEING then (False, s)
         else if delay = old \<or> \<not> ov \<and> old = MI_NEVER_DELAYED_FREE then (True, s)
         else (True, upd_page p (\<lambda>x. x\<lparr>xthread_free := mi_tf_set_delayed w delay\<rparr>) s))"
  by (simp add: mi_page_try_use_delayed_free_def Let_def numeral_eq_Suc)

definition settled :: "'a mi_store_scheme \<Rightarrow> page_ptr \<Rightarrow> bool" where
  "settled s p \<longleftrightarrow> mi_tf_delayed (xthread_free (page_at s p)) \<noteq> MI_DELAYED_FREEING"

lemma use_delayed_free_settled:
  assumes "settled s p"
  obtains s' where "mi_page_use_delayed_free p delay ov s = Some s'"
    "\<And>x. x \<noteq> p \<Longrightarrow> page_at s' x = page_at s x" "heap_at s' = heap_at s"
    "page_at s' p = (page_at s p)\<lparr>xthread_free := xthread_free (page_at s' p)\<rparr>"
proof -
  let ?w = "xthread_free (page_at s p)"
  show ?thesis
  proof (cases "delay = mi_tf_delayed ?w \<or> \<not> ov \<and> mi_tf_delayed ?w = MI_NEVER_DELAYED_FREE")
    case True
    then show ?thesis using that [of s] assms
      by (simp add: mi_page_use_delayed_free_def try_use_delayed_steady settled_def)
  next
    case False
    then show ?thesis
      using that [of "upd_page p (\<lambda>x. x\<lparr>xthread_free := mi_tf_set_delayed ?w delay\<rparr>) s"] assms
      by (auto simp: mi_page_use_delayed_free_def try_use_delayed_steady settled_def store_simps Let_def)
  qed
qed

lemma append_loop:
  assumes "chain (\<lambda>p. pnext (page_at s p)) pv b ys None" "distinct ys" "\<And>p. p \<in> set ys \<Longrightarrow> settled s p"
  shows "\<exists>s'. mi_page_queue_append_loop heap (headp ys None) n s = Some (n + length ys, s')
     \<and> heap_at s' = heap_at s \<and> (\<forall>x. x \<notin> set ys \<longrightarrow> page_at s' x = page_at s x)
     \<and> (\<forall>x \<in> set ys. page_at s' x = (page_at s x)\<lparr>xheap := Some heap, xthread_free := xthread_free (page_at s' x)\<rparr>)"
  using assms
proof (induction ys arbitrary: b n s)
  case Nil
  show ?case by (simp add: mi_page_queue_append_loop.simps)
next
  case (Cons y ys)
  define s1 where "s1 = upd_page y (\<lambda>x. x\<lparr>xheap := Some heap\<rparr>) s"
  have "settled s1 y" using Cons.prems(3) by (simp add: settled_def s1_def store_simps)
  then obtain s2 where s2: "mi_page_use_delayed_free y MI_USE_DELAYED_FREE False s1 = Some s2"
    "\<And>x. x \<noteq> y \<Longrightarrow> page_at s2 x = page_at s1 x" "heap_at s2 = heap_at s1"
    "page_at s2 y = (page_at s1 y)\<lparr>xthread_free := xthread_free (page_at s2 y)\<rparr>"
    by (rule use_delayed_free_settled [where delay = MI_USE_DELAYED_FREE and ov = False]) (rule that; assumption)
  have other: "page_at s2 x = page_at s x" if "x \<noteq> y" for x
    using s2(2) [OF that] that by (simp add: s1_def store_simps)
  have "pnext (page_at s2 y) = pnext (page_at s1 y)" by (subst s2(4)) simp
  then have nxt: "pnext (page_at s2 y) = headp ys None"
    using Cons.prems(1) by (simp add: s1_def store_simps)
  have "chain (\<lambda>p. pnext (page_at s2 p)) pv (Some y) ys None = chain (\<lambda>p. pnext (page_at s p)) pv (Some y) ys None"
    by (rule chain_cong) (metis Cons.prems(2) distinct.simps(2) other)
  then have ch: "chain (\<lambda>p. pnext (page_at s2 p)) pv (Some y) ys None" using Cons.prems(1) by simp
  have "settled s2 p" if "p \<in> set ys" for p
    unfolding settled_def using that Cons.prems(2) Cons.prems(3) [of p] other [of p]
    by (cases "p = y") (simp_all add: settled_def)
  from Cons.IH [OF ch _ this, of "n + 1"] Cons.prems(2) obtain s' where
    IH: "mi_page_queue_append_loop heap (headp ys None) (n + 1) s2 = Some (n + 1 + length ys, s')"
      "heap_at s' = heap_at s2" "\<forall>x. x \<notin> set ys \<longrightarrow> page_at s' x = page_at s2 x"
      "\<forall>x \<in> set ys. page_at s' x = (page_at s2 x)\<lparr>xheap := Some heap, xthread_free := xthread_free (page_at s' x)\<rparr>"
    by auto
  have "mi_page_queue_append_loop heap (headp (y # ys) None) n s = Some (n + length (y # ys), s')"
    using s2(1) nxt IH(1) by (subst mi_page_queue_append_loop.simps) (simp add: s1_def)
  moreover have "page_at s' x = page_at s x" if "x \<notin> set (y # ys)" for x
    using IH(3) that other [of x] by simp
  moreover have "page_at s' y = (page_at s y)\<lparr>xheap := Some heap, xthread_free := xthread_free (page_at s' y)\<rparr>"
  proof -
    have "page_at s' y = page_at s2 y" using IH(3) Cons.prems(2) by simp
    then show ?thesis by (metis s2(4) s1_def page_at_upd_page(1))
  qed
  moreover have "page_at s' x = (page_at s x)\<lparr>xheap := Some heap, xthread_free := xthread_free (page_at s' x)\<rparr>"
    if "x \<in> set ys" for x
    using IH(4) that other Cons.prems(2) by (metis distinct.simps(2))
  ultimately show ?case using IH(2) s2(3) by (intro exI [of _ s']) (auto simp: s1_def store_simps)
qed

lemma splice_wf:
  assumes wf: "heap_wf h s Q" and b: "b < 75"
    and zs: "set zs = set ys \<union> set (Q b)" "length zs = length ys + length (Q b)"
    and ql: "\<And>c. c < 75 \<Longrightarrow> queue_list s' (h, c) ((Q(b := zs)) c)"
    and own: "\<And>x. x \<notin> set ys \<Longrightarrow> mi_page_queue_of x s' = mi_page_queue_of x s"
      "\<And>x. x \<in> set ys \<Longrightarrow> mi_page_queue_of x s' = Some (h, b)"
    and new: "\<And>c x. c < 75 \<Longrightarrow> x \<in> set ys \<Longrightarrow> x \<notin> set (Q c)"
    and rest: "map block_size (pages (heap_at s' h)) = queue_sizes" "direct_ok h s'"
      "page_count (heap_at s' h) = page_count (heap_at s h) + length ys"
  shows "heap_wf h s' (Q(b := zs))"
proof -
  note D = heap_wfD [OF wf]
  have "mi_page_queue_of x s' = Some (h, c)" if c: "c < 75" "x \<in> set ((Q(b := zs)) c)" for c x
  proof (cases "x \<in> set ys")
    case True
    then have "c = b" using c new by (metis fun_upd_other)
    then show ?thesis using own(2) True by simp
  next
    case False
    then have "x \<in> set (Q c)" using c zs(1) by (auto split: if_splits)
    then show ?thesis using D(4) [OF c(1)] own(1) [OF False] by simp
  qed
  moreover have "page_count (heap_at s' h) = (\<Sum>c < 75. length ((Q(b := zs)) c))"
    using sum_queue_update [OF b, of Q zs] rest(3) D(5) zs(2) by simp
  ultimately show ?thesis using ql rest(1,2) unfolding heap_wf_def by blast
qed

lemma page_queue_append:
  assumes wf: "heap_wf h s Q" and b: "b < 75" "active_bin b" and ys: "queue_list s (k, b) ys" and k: "k \<noteq> h"
    and own: "\<And>p. p \<in> set ys \<Longrightarrow> settled s p \<and> mi_page_queue_of p s = Some (k, b)"
  obtains s' where "mi_page_queue_append h (h, b) (k, b) s = Some (length ys, s')"
    "heap_wf h (upd_heap h (\<lambda>x. x\<lparr>page_count := page_count x + length ys\<rparr>) s') (Q(b := Q b @ ys))"
    "\<And>j. j \<noteq> h \<Longrightarrow> heap_at s' j = heap_at s j"
    "\<And>x. x \<notin> set ys \<Longrightarrow> x \<notin> set (Q b) \<Longrightarrow> page_at s' x = page_at s x"
    "\<And>x. settled s x \<Longrightarrow> x \<notin> set ys \<Longrightarrow> settled s' x"
proof (cases "ys = []")
  case True
  have e: "upd_heap h (\<lambda>x. x) s = s" by (simp add: upd_heap_def)
  show ?thesis
    by (rule that [of s]) (use True ys wf in \<open>simp_all add: mi_page_queue_append_def queue_list_def e\<close>)
next
  case False
  note D = heap_wfD [OF wf]
  have bl: "b < length (pages (heap_at s h))" using sizes_length [OF D(1)] b by simp
  have new: "x \<notin> set (Q c)" if "c < 75" "x \<in> set ys" for c x
    using D(4) [OF that(1)] own [OF that(2)] k by fastforce
  have ly: "linked (\<lambda>p. pnext (page_at s p)) (\<lambda>p. pprev (page_at s p))
     (qfirst (queue_at (k, b) s)) (qlast (queue_at (k, b) s)) ys" using ys by (simp add: queue_list_def)
  have lx: "linked (\<lambda>p. pnext (page_at s p)) (\<lambda>p. pprev (page_at s p))
     (qfirst (queue_at (h, b) s)) (qlast (queue_at (h, b) s)) (Q b)" using D(3) [OF b(1)] by (simp add: queue_list_def)
  have fy: "qfirst (queue_at (k, b) s) = Some (hd ys)" "headp ys None = Some (hd ys)"
    "qlast (queue_at (k, b) s) = Some (last ys)"
    using ly False by (auto simp: linked_def headp_nonempty lastp_nonempty)
  obtain s1 where s1: "mi_page_queue_append_loop h (Some (hd ys)) 0 s = Some (length ys, s1)"
    "heap_at s1 = heap_at s" "\<And>x. x \<notin> set ys \<Longrightarrow> page_at s1 x = page_at s x"
    "\<And>x. x \<in> set ys \<Longrightarrow> page_at s1 x = (page_at s x)\<lparr>xheap := Some h, xthread_free := xthread_free (page_at s1 x)\<rparr>"
    using append_loop [of s "\<lambda>p. pprev (page_at s p)" None ys h 0] ly own fy(2)
    by (auto simp: linked_def)
  have q1: "queue_at r s1 = queue_at r s" for r by (simp add: queue_at_def s1(2))
  have links1: "pnext (page_at s1 x) = pnext (page_at s x) \<and> pprev (page_at s1 x) = pprev (page_at s x)
      \<and> in_full (page_at s1 x) = in_full (page_at s x) \<and> xblock_size (page_at s1 x) = xblock_size (page_at s x)" for x
  proof (cases "x \<in> set ys")
    case True
    show ?thesis by (subst (1 2 3 4) s1(4) [OF True]) simp
  qed (simp add: s1(3))
  define s2 where "s2 = (case qlast (queue_at (h, b) s1) of
                  None \<Rightarrow> mi_heap_queue_first_update h (h, b)
                     (upd_queue (h, b) (\<lambda>q. q\<lparr>qfirst := qfirst (queue_at (k, b) s1), qlast := qlast (queue_at (k, b) s1)\<rparr>) s1)
                | Some l \<Rightarrow>
                     upd_queue (h, b) (\<lambda>q. q\<lparr>qlast := qlast (queue_at (k, b) s1)\<rparr>)
                       (upd_page (hd ys) (\<lambda>x. x\<lparr>pprev := Some l\<rparr>)
                         (upd_page l (\<lambda>x. x\<lparr>pnext := Some (hd ys)\<rparr>) s1)))"
  have res: "mi_page_queue_append h (h, b) (k, b) s = Some (length ys, s2)"
    using k by (simp add: mi_page_queue_append_def fy s1(1) s2_def q1 store_simps split: option.splits)
  define L where "L = qlast (queue_at (h, b) s)"
  have Le: "L = None \<longleftrightarrow> Q b = []" "qfirst (queue_at (h, b) s) = None \<longleftrightarrow> Q b = []" "L = lastp (Q b) None"
    using linked_empty_iff [OF lx] lx by (auto simp: L_def linked_def)
  have hd0: "pprev (page_at s (hd ys)) = None" using ly False by (cases ys) (auto dest: linked_first)
  have pa: "page_at s2 x = (page_at s1 x)
     \<lparr>pnext := if L = Some x then Some (hd ys) else pnext (page_at s x),
      pprev := if x = hd ys then L else pprev (page_at s x)\<rparr>" for x
  proof (cases "qlast (queue_at (h, b) s)")
    case None
    have "(page_at s1 x)\<lparr>pnext := pnext (page_at s x), pprev := pprev (page_at s x)\<rparr> = page_at s1 x"
      using links1 [of x] by simp
    moreover have "(if x = hd ys then None else pprev (page_at s x)) = pprev (page_at s x)" using hd0 by simp
    ultimately show ?thesis using None
      by (simp only: s2_def L_def q1 option.case first_update_other upd_queue_other option.distinct if_False)
  next
    case (Some l)
    have e: "l = hd ys \<Longrightarrow> last (Q b) = hd ys \<Longrightarrow> Q b \<noteq> [] \<Longrightarrow> False"
      using new [OF b(1), of "hd ys"] False last_in_set [of "Q b"] by auto
    have l: "l \<noteq> hd ys" using Some Le(2) Le(3) e by (auto simp: L_def lastp_def split: if_splits)
    have ps: "pnext (page_at s x) = pnext (page_at s1 x)" "pprev (page_at s x) = pprev (page_at s1 x)"
      using links1 [of x] by simp_all
    show ?thesis unfolding ps using l
      by (cases "x = l"; cases "x = hd ys") (simp_all add: s2_def L_def q1 Some store_simps)
  qed
  have qa: "queue_at r s2 = (if r = (h, b) then (queue_at r s)
     \<lparr>qfirst := if L = None then Some (hd ys) else qfirst (queue_at r s), qlast := Some (last ys)\<rparr>
     else queue_at r s)" for r
    using bl fy by (auto simp: s2_def L_def q1 s1(2) store_simps first_update_other split: option.splits)
  have hq: "j \<noteq> h \<Longrightarrow> heap_at s2 j = heap_at s j" "page_count (heap_at s2 j) = page_count (heap_at s j)" for j
    by (auto simp: s2_def s1(2) store_simps first_update_other split: option.splits)
  have "map block_size (pages (heap_at s2 h)) = map block_size (pages (heap_at s h))"
    by (auto simp: s2_def page_at_upd_page first_update_other block_sizes_upd_queue s1(2)
        simp del: map_eq_conv split: option.splits)
  then have sz: "map block_size (pages (heap_at s2 h)) = queue_sizes" using D(1) by simp
  have dir: "direct_ok h s1" using D(2) by (subst direct_ok_cong [of _ _ s]) (simp_all add: s1(2))
  have dir2: "direct_ok h s2"
  proof (cases "qlast (queue_at (h, b) s1)")
    case None
    let ?s = "upd_queue (h, b) (\<lambda>q. q\<lparr>qfirst := qfirst (queue_at (k, b) s1), qlast := qlast (queue_at (k, b) s1)\<rparr>) s1"
    have "map block_size (pages (heap_at ?s h)) = queue_sizes"
      using D(1) by (subst block_sizes_upd_queue) (simp_all add: s1(2))
    then have "direct_ok h (mi_heap_queue_first_update h (h, b) ?s)"
      by (rule first_update_direct_ok [OF dir b(2)]) (use bl in \<open>simp_all add: store_simps s1(2)\<close>)
    then show ?thesis using None by (simp add: s2_def)
  next
    case (Some l)
    then show ?thesis using dir bl
      by (simp add: s2_def direct_ok_def direct_page_def store_simps s1(2))
  qed
  define s3 where "s3 = upd_heap h (\<lambda>x. x\<lparr>page_count := page_count x + length ys\<rparr>) s2"
  have p3: "page_at s3 = page_at s2" by (simp add: s3_def store_simps)
  have q3: "queue_at r s3 = queue_at r s2" for r by (simp add: s3_def queue_at_def store_simps)
  have notin: "x \<notin> set ys \<and> L \<noteq> Some x" if "c < 75" "c \<noteq> b" "x \<in> set (Q c)" for c x
    using new [OF that(1)] that heap_wf_disjoint [OF wf b(1) that(1) _ that(3)] Le(3)
    by (auto dest!: lastp_Some_in)
  have "heap_wf h s3 (Q(b := Q b @ ys))"
  proof (rule splice_wf [OF wf b(1), where ys = ys])
    fix c :: nat assume c: "c < 75"
    show "queue_list s3 (h, c) ((Q(b := Q b @ ys)) c)"
    proof (cases "c = b")
      case True
      have "linked (\<lambda>x. pnext (page_at s3 x)) (\<lambda>x. pprev (page_at s3 x))
         (if L = None then Some (hd ys) else qfirst (queue_at (h, b) s)) (Some (last ys)) (Q b @ ys)"
      proof (cases "Q b = []")
        case True
        have "linked (\<lambda>x. pnext (page_at s3 x)) (\<lambda>x. pprev (page_at s3 x)) (Some (hd ys)) (Some (last ys)) ys
          = linked (\<lambda>x. pnext (page_at s x)) (\<lambda>x. pprev (page_at s x)) (Some (hd ys)) (Some (last ys)) ys"
          using True Le hd0 by (intro linked_cong) (auto simp: p3 pa)
        then show ?thesis using True Le ly fy by simp
      next
        case False
        then have "linked (\<lambda>x. pnext (page_at s3 x)) (\<lambda>x. pprev (page_at s3 x))
           (qfirst (queue_at (h, b) s)) (qlast (queue_at (k, b) s)) (Q b @ ys)"
          by (intro linked_append [OF lx ly _ \<open>ys \<noteq> []\<close>])
            (use new [OF b(1)] Le in \<open>auto simp: p3 pa fy L_def\<close>)
        then show ?thesis using False Le fy by simp
      qed
      then show ?thesis using True by (simp add: queue_list_def q3 qa)
    next
      case False
      have "queue_list s3 (h, c) (Q c) = queue_list s (h, c) (Q c)"
        using False notin [OF c False] hd_in_set [OF \<open>ys \<noteq> []\<close>] by (intro queue_list_cong) (auto simp: p3 pa q3 qa)
      then show ?thesis using False D(3) [OF c] by simp
    qed
  next
    fix x assume x: "x \<notin> set ys"
    then show "mi_page_queue_of x s3 = mi_page_queue_of x s"
      by (intro queue_of_cong) (simp_all add: p3 pa s1(3))
  next
    fix x assume x: "x \<in> set ys"
    have "xheap (page_at s1 x) = Some h" by (subst s1(4) [OF x]) simp
    then show "mi_page_queue_of x s3 = Some (h, b)"
      using own [OF x] links1 [of x]
      by (auto simp: mi_page_queue_of_def Let_def mi_page_is_in_full_def p3 pa split: option.splits)
  next
    show "map block_size (pages (heap_at s3 h)) = queue_sizes" using sz by (simp add: s3_def store_simps)
    show "direct_ok h s3"
      using dir2 by (subst direct_ok_cong [of _ _ s2]) (simp_all add: s3_def store_simps)
    show "page_count (heap_at s3 h) = page_count (heap_at s h) + length ys"
      by (simp add: s3_def store_simps hq)
  qed (use new in auto)
  moreover have "page_at s2 x = page_at s x" if "x \<notin> set ys" "x \<notin> set (Q b)" for x
  proof -
    have "x \<noteq> hd ys" using that(1) hd_in_set [OF \<open>ys \<noteq> []\<close>] by metis
    moreover have "L \<noteq> Some x" using that(2) Le(3) lastp_Some_in by metis
    ultimately show ?thesis using pa [of x] s1(3) [OF that(1)] by simp
  qed
  moreover have "settled s2 x" if "settled s x" "x \<notin> set ys" for x
    using that by (simp add: settled_def pa s1(3))
  ultimately show ?thesis using that [OF res] hq(1) by (simp add: s3_def)
qed

section \<open>Initial heaps\<close>

lemma mi_bin_active_direct: "bin_index w < 75"
  using active_bin_index [of w] by (auto simp: active_bin_def)

lemma heap_wf_empty: "heap_at s h = mi_heap_empty \<Longrightarrow> heap_wf h s (\<lambda>_. [])"
  using mi_bin_active_direct
  by (simp add: heap_wf_def direct_ok_def direct_page_def queue_at_def queue_list_def
      mi_heap_empty_def queue_sizes_def nth_replicate)

text \<open>A heap with two pages of 64-byte blocks in queue 8, used to instantiate the properties.\<close>

definition sample_store :: "unit mi_store_scheme" where
  "sample_store = \<lparr>page_at = \<lambda>_. mi_page_empty\<lparr>xheap := Some 0, xblock_size := 64\<rparr>,
     heap_at = \<lambda>_. mi_heap_empty\<rparr>"

definition sample_two :: "unit mi_store_scheme" where
  "sample_two = mi_page_queue_push 0 (0, 8) (Slice 1 2) (mi_page_queue_push 0 (0, 8) (Slice 1 1) sample_store)"

lemma mi_bin_64: "mi_bin 64 = 8"
  by (simp add: mi_bin_index bin_index_def)

lemma push_page_fields:
  "xheap (page_at (mi_page_queue_push h q p s) x) = xheap (page_at s x)"
  "xblock_size (page_at (mi_page_queue_push h q p s) x) = xblock_size (page_at s x)"
  "xthread_free (page_at (mi_page_queue_push h q p s) x) = xthread_free (page_at s x)"
  by (auto simp: mi_page_queue_push_def Let_def store_simps first_update_other mi_page_set_in_full_def
      split: option.splits)

lemma sample_two_wf: "heap_wf 0 sample_two ((\<lambda>_. [])(8 := [Slice 1 2, Slice 1 1]))"
proof -
  have "heap_wf 0 (mi_page_queue_push 0 (0, 8) (Slice 1 1) sample_store) ((\<lambda>_. [])(8 := [Slice 1 1]))"
    using page_queue_push(1) [OF heap_wf_empty, of sample_store 0 8 "Slice 1 1"]
    by (simp add: sample_store_def mi_bin_64)
  from page_queue_push(1) [OF this, of 8 "Slice 1 2"]
  show ?thesis unfolding sample_two_def
    by (simp add: push_page_fields) (simp add: sample_store_def mi_bin_64)
qed

lemma sample_two_fields [simp]:
  "xheap (page_at sample_two x) = Some 0" "xblock_size (page_at sample_two x) = 64"
  "xthread_free (page_at sample_two x) = 0"
  by (simp_all add: sample_two_def push_page_fields sample_store_def mi_page_empty_def)

section \<open>Properties\<close>

text \<open>
  C37: every size up to MI_MEDIUM_OBJ_SIZE_MAX gets the bin with the smallest block that fits.
  The block size of mi_bin is at least the size, the bin is a real size class, any other bin
  whose block would also fit has a block at least as large unless no size is ever assigned to
  it, bins grow with sizes, and mi_good_size (the block size) is a fixed point, so that a page
  is found again in the queue of its own block size.
\<close>

theorem mi_bin_best_fit:
  assumes "unat sz \<le> MI_MEDIUM_OBJ_SIZE_MAX"
  shows "1 \<le> mi_bin sz \<and> mi_bin sz < MI_BIN_HUGE \<and> sz \<le> mi_bin_size (mi_bin sz)
     \<and> (\<forall>sz'. sz' \<le> sz \<longrightarrow> mi_bin sz' \<le> mi_bin sz)
     \<and> (\<forall>sz'. unat sz' \<le> MI_MEDIUM_OBJ_SIZE_MAX \<and> sz \<le> mi_bin_size (mi_bin sz')
            \<longrightarrow> mi_bin_size (mi_bin sz) \<le> mi_bin_size (mi_bin sz'))
     \<and> mi_bin (mi_bin_size (mi_bin sz)) = mi_bin sz
     \<and> mi_good_size page_size (mi_good_size page_size sz) = mi_good_size page_size sz"
proof -
  have idx: "mi_bin z = bin_index ((unat z + 7) div 8)" "(unat z + 7) div 8 \<le> 16384"
    if "unat z \<le> 131072" for z
    using that by (simp_all add: mi_bin_index)
  define w where "w = (unat sz + 7) div 8"
  define b where "b = mi_bin sz"
  have sz: "unat sz \<le> 131072" using assms by simp
  have b: "b = bin_index w" and w: "w \<le> 16384" using idx [OF sz] by (simp_all add: b_def w_def)
  note fits = bin_index_fits [OF w, folded b]
  have size: "unat (mi_bin_size c) = mi_queue_wsizes ! c * 8" if "c \<le> 52" for c
    by (rule unat_mi_bin_size [OF that])
  have le: "sz \<le> mi_bin_size b"
    using fits(1) size [OF fits(3)] by (simp add: word_le_nat_alt w_def)
  have small: "unat (mi_bin_size b) \<le> 131072"
    using size [OF fits(3)] queue_wsizes_le [OF fits(3)] by simp
  have idem: "mi_bin (mi_bin_size b) = b"
  proof -
    have "mi_bin (mi_bin_size b) = bin_index (mi_queue_wsizes ! b)"
      using idx(1) [OF small] size [OF fits(3)] by simp
    then show ?thesis using bin_index_table [OF w] b by simp
  qed
  have mono: "mi_bin sz' \<le> b" if "sz' \<le> sz" for sz'
  proof -
    have "unat sz' \<le> unat sz" using that by (simp add: word_le_nat_alt)
    then show ?thesis using idx [of sz'] sz w b
      by (simp, intro bin_index_mono) (simp_all add: w_def div_le_mono)
  qed
  have least: "mi_bin_size b \<le> mi_bin_size (mi_bin sz')"
    if "unat sz' \<le> 131072" "sz \<le> mi_bin_size (mi_bin sz')" for sz'
  proof -
    define c where "c = mi_bin sz'"
    have c: "c \<le> 52" "1 \<le> c" using bin_index_fits [OF idx(2) [OF that(1)]] idx(1) [OF that(1)] by (simp_all add: c_def)
    have c_idem: "bin_index (mi_queue_wsizes ! c) = c"
      using bin_index_table [OF idx(2) [OF that(1)]] idx(1) [OF that(1)] by (simp add: c_def)
    have "w \<le> mi_queue_wsizes ! c"
      using that(2) size [OF c(1)] by (simp add: word_le_nat_alt c_def [symmetric] w_def)
    then have "b \<le> c" using bin_index_mono [of w "mi_queue_wsizes ! c"] queue_wsizes_le [OF c(1)] c_idem b by simp
    then show ?thesis using queue_wsizes_mono_le [OF fits(2) \<open>b \<le> c\<close>] c size [OF c(1)] size [OF fits(3)]
      by (simp add: word_le_nat_alt c_def)
  qed
  have "mi_good_size page_size (mi_good_size page_size sz) = mi_good_size page_size sz"
    using sz small idem by (simp add: mi_good_size_def word_le_nat_alt b_def)
  then show ?thesis using fits(2,3) le idem mono least unfolding b_def [symmetric] by simp
qed

lemma mi_bin_best_fit_witness:
  "1 \<le> mi_bin 1000 \<and> mi_bin 1000 < MI_BIN_HUGE \<and> 1000 \<le> mi_bin_size (mi_bin 1000)
   \<and> mi_bin 999 \<le> mi_bin 1000
   \<and> mi_bin (mi_bin_size (mi_bin 1000)) = mi_bin 1000
   \<and> mi_good_size 4096 (mi_good_size 4096 1000) = mi_good_size 4096 1000"
proof -
  have "unat (1000 :: usize) \<le> MI_MEDIUM_OBJ_SIZE_MAX" "(999 :: usize) \<le> 1000" by simp_all
  then show ?thesis using mi_bin_best_fit [of 1000 4096] by blast
qed

text \<open>
  what rounding up to a bin can cost. From five words on a block is at most a quarter
  larger than the request (in words), so at most a fifth of it is unused; the comment at
  mi_bin promises about 12.5 percent in the worst case, and 4097 words are given a block of
  5120 words, of which 1023, nearly 20 percent, are unused.
\<close>

theorem mi_bin_waste:
  assumes "5 \<le> w" "w \<le> MI_MEDIUM_OBJ_WSIZE_MAX"
  shows "4 * unat (mi_bin_size (mi_bin (of_nat (w * 8)))) \<le> 5 * (w * 8)
     \<and> unat (mi_bin_size (mi_bin (of_nat (4097 * 8)))) = 5120 * 8"
proof -
  have "mi_bin (of_nat (w * 8)) = bin_index w" using assms by (intro mi_bin_of_words) simp
  moreover have w: "w \<le> 16384" using assms by simp
  moreover have "mi_bin (of_nat (4097 * 8)) = 45"
    by (subst mi_bin_of_words) (simp, rule bin_index_eqI, simp_all add: mi_queue_wsizes_def)
  moreover have "mi_queue_wsizes ! 45 = 5120" by (simp add: mi_queue_wsizes_def)
  ultimately show ?thesis
    using bin_index_fits(3,4) [OF w] assms(1) unat_mi_bin_size [of "bin_index w"] unat_mi_bin_size [of 45]
    by simp
qed

lemma mi_bin_waste_witness:
  "4 * unat (mi_bin_size (mi_bin (of_nat (9 * 8)))) \<le> 5 * (9 * 8)
   \<and> unat (mi_bin_size (mi_bin (of_nat (4097 * 8)))) = 5120 * 8"
  by (rule mi_bin_waste) simp_all

definition sample_queues :: "nat \<Rightarrow> page_ptr list" where
  "sample_queues = (\<lambda>_. [])(8 := [Slice 1 2, Slice 1 1])"

lemma sample_wf: "heap_wf 0 sample_two sample_queues"
  unfolding sample_queues_def by (rule sample_two_wf)

lemma sample_queues_simps [simp]:
  "sample_queues 8 = [Slice 1 2, Slice 1 1]" "b \<noteq> 8 \<Longrightarrow> sample_queues b = []"
  by (simp_all add: sample_queues_def)

lemma sample_queues_in: "p \<in> set (sample_queues c) \<Longrightarrow> p \<in> {Slice 1 2, Slice 1 1}"
  by (cases "c = 8") auto

text \<open>
  pushing a page keeps the heap well-formed and puts it at the front of its queue. For
  every size up to MI_SMALL_SIZE_MAX the direct array still leads to the first page of the
  size's queue (or to the empty page), pages_count is the number of queued pages, links, full
  flags and the queue that every page belongs to are right, and other heaps are not touched.
\<close>

theorem mi_page_queue_push_wf:
  assumes "heap_wf h s Q" "b < 75" "\<forall>c < 75. p \<notin> set (Q c)" "xheap (page_at s p) = Some h"
    "b = MI_BIN_FULL \<or> b = mi_bin (xblock_size (page_at s p))" "k \<noteq> h"
  shows "heap_wf h (mi_page_queue_push h (h, b) p s) (Q(b := p # Q b))
     \<and> heap_at (mi_page_queue_push h (h, b) p s) k = heap_at s k"
  using page_queue_push [OF assms(1,2) _ assms(4,5)] assms(3,6) by simp

lemma mi_page_queue_push_wf_witness:
  "heap_wf 0 (mi_page_queue_push 0 (0, 8) (Slice 3 0) sample_two)
     (sample_queues(8 := Slice 3 0 # sample_queues 8))
   \<and> heap_at (mi_page_queue_push 0 (0, 8) (Slice 3 0) sample_two) 5 = heap_at sample_two 5"
proof (rule mi_page_queue_push_wf [OF sample_wf])
  show "\<forall>c < 75. Slice 3 0 \<notin> set (sample_queues c)" by (auto simp: sample_queues_def)
qed (simp_all add: mi_bin_64)

text \<open>
  C36: removing a page of a well-formed heap succeeds wherever the page is in its queue, takes
  out exactly that page, keeps the heap well-formed (the direct array included when it was the
  first page), and leaves the page without links and not marked full.
\<close>

theorem mi_page_queue_remove_wf:
  assumes "heap_wf h s Q" "b < 75" "p \<in> set (Q b)"
  shows "\<exists>s'. mi_page_queue_remove (h, b) p s = Some s' \<and> heap_wf h s' (Q(b := remove1 p (Q b)))
     \<and> page_at s' p = (page_at s p)\<lparr>pnext := None, pprev := None, in_full := False\<rparr>
     \<and> (\<forall>k. k \<noteq> h \<longrightarrow> heap_at s' k = heap_at s k)"
  by (rule page_queue_remove [OF assms]) blast

lemma mi_page_queue_remove_wf_witness:
  "\<exists>s'. mi_page_queue_remove (0, 8) (Slice 1 1) sample_two = Some s'
     \<and> heap_wf 0 s' (sample_queues(8 := remove1 (Slice 1 1) (sample_queues 8)))
     \<and> heap_at s' 3 = heap_at sample_two 3"
proof -
  have "(8::nat) < 75" "Slice 1 1 \<in> set (sample_queues 8)" "(3::nat) \<noteq> 0" by simp_all
  then show ?thesis using mi_page_queue_remove_wf [OF sample_wf, of 8 "Slice 1 1"] by blast
qed

text \<open>
  moving a page between two queues of a heap (to the full queue when it has no free block,
  back to the queue of its size when a block is freed) appends it to the target queue, removes
  it from the source queue and keeps the heap well-formed; the number of pages is unchanged.
\<close>

theorem mi_page_queue_enqueue_from_wf:
  assumes "heap_wf h s Q" "b < 75" "p \<in> set (Q b)" "t < 75" "t \<noteq> b"
    "t = MI_BIN_FULL \<or> t = mi_bin (xblock_size (page_at s p))"
  shows "\<exists>s'. mi_page_queue_enqueue_from (h, t) (h, b) p s = Some s'
     \<and> heap_wf h s' (Q(b := remove1 p (Q b), t := Q t @ [p]))
     \<and> (\<forall>k. k \<noteq> h \<longrightarrow> heap_at s' k = heap_at s k)"
  by (rule page_queue_enqueue_from [OF assms]) blast

lemma mi_page_queue_enqueue_from_wf_witness:
  "\<exists>s'. mi_page_queue_enqueue_from (0, MI_BIN_FULL) (0, 8) (Slice 1 2) sample_two = Some s'
     \<and> heap_wf 0 s' (sample_queues(8 := remove1 (Slice 1 2) (sample_queues 8),
          MI_BIN_FULL := sample_queues MI_BIN_FULL @ [Slice 1 2]))
     \<and> heap_at s' 3 = heap_at sample_two 3"
proof -
  have "(8::nat) < 75" "Slice 1 2 \<in> set (sample_queues 8)" "MI_BIN_FULL < 75" "MI_BIN_FULL \<noteq> 8" "(3::nat) \<noteq> 0"
    by simp_all
  then show ?thesis
    using mi_page_queue_enqueue_from_wf [OF sample_wf, of 8 "Slice 1 2" MI_BIN_FULL] by blast
qed

text \<open>
  the delayed-free flag under interference. Whatever the other threads do to the word, a
  call that returns gives up only after it has seen MI_DELAYED_FREEING five times; when it
  writes, it writes the requested flag and keeps the block list of the value it replaced, which
  was not MI_DELAYED_FREEING and, unless override_never is set, not MI_NEVER_DELAYED_FREE.
\<close>

theorem try_use_delayed_interference:
  assumes "try_use_delayed obs delay override_never 0 = Some (ok, w)"
  shows "(\<not> ok \<longrightarrow> w = None \<and> 5 \<le> length (filter (\<lambda>(v, _). mi_tf_delayed v = MI_DELAYED_FREEING) obs))
     \<and> (\<forall>x. w = Some x \<longrightarrow> ok \<and> (\<exists>v. (v, True) \<in> set obs \<and> x = mi_tf_set_delayed v delay
           \<and> mi_tf_delayed v \<noteq> MI_DELAYED_FREEING \<and> mi_tf_delayed v \<noteq> delay
           \<and> (override_never \<or> mi_tf_delayed v \<noteq> MI_NEVER_DELAYED_FREE)))"
proof -
  have "(\<not> ok \<longrightarrow> w = None \<and> 5 \<le> y + length (filter (\<lambda>(v, _). mi_tf_delayed v = MI_DELAYED_FREEING) obs))
     \<and> (\<forall>x. w = Some x \<longrightarrow> ok \<and> (\<exists>v. (v, True) \<in> set obs \<and> x = mi_tf_set_delayed v delay
           \<and> mi_tf_delayed v \<noteq> MI_DELAYED_FREEING \<and> mi_tf_delayed v \<noteq> delay
           \<and> (override_never \<or> mi_tf_delayed v \<noteq> MI_NEVER_DELAYED_FREE)))"
    if "try_use_delayed obs delay override_never y = Some (ok, w)" "y \<le> 4" for y
    using that
  proof (induction obs arbitrary: y)
    case (Cons ob obs)
    obtain v cas where ob: "ob = (v, cas)" by fastforce
    show ?case
    proof (cases "mi_tf_delayed v = MI_DELAYED_FREEING")
      case True
      show ?thesis
      proof (cases "y \<ge> 4")
        case False
        then have "try_use_delayed obs delay override_never (y + 1) = Some (ok, w)"
          using Cons.prems True by (simp add: ob)
        from Cons.IH [OF this] False show ?thesis by (auto simp: ob True)
      qed (use Cons.prems True in \<open>auto simp: ob\<close>)
    next
      case False
      show ?thesis
      proof (cases "delay = mi_tf_delayed v \<or> \<not> override_never \<and> mi_tf_delayed v = MI_NEVER_DELAYED_FREE \<or> cas")
        case True
        then show ?thesis using Cons.prems False by (auto simp: ob Let_def split: if_splits)
      next
        case no: False
        then have "try_use_delayed obs delay override_never y = Some (ok, w)"
          using Cons.prems False by (auto simp: ob Let_def)
        from Cons.IH [OF this Cons.prems(2)] False show ?thesis by (auto simp: ob)
      qed
    qed
  qed simp
  from this [of 0] assms show ?thesis by simp
qed

lemma try_use_delayed_interference_witness:
  "\<exists>v. (v, True) \<in> set [(17, True), (18, False), (18, True)]
      \<and> (16 :: usize) = mi_tf_set_delayed v MI_USE_DELAYED_FREE
      \<and> mi_tf_delayed v \<noteq> MI_DELAYED_FREEING \<and> mi_tf_delayed v \<noteq> MI_USE_DELAYED_FREE"
proof -
  have "try_use_delayed [(17, True), (18, False), (18, True)] MI_USE_DELAYED_FREE False 0
      = Some (True, Some 16)"
    by (simp add: mi_tf_delayed_def mi_delayed_of_def mi_tf_set_delayed_def mi_tf_make_def mi_tf_block_def)
  from try_use_delayed_interference [OF this] show ?thesis by blast
qed

text \<open>
  when a heap takes over a queue of another heap, the call returns the number of pages
  taken, the pages follow the heap's own in their order, they all belong to the new heap and
  are found in its queue; with the count added (as the caller does) the heap is well-formed
  again. No other heap structure is written. None of the pages may be in the middle of a
  delayed free, for which the code would wait.
\<close>

theorem mi_page_queue_append_wf:
  assumes "heap_wf h s Q" "b < 75" "active_bin b" "queue_list s (k, b) ys" "k \<noteq> h"
    "\<forall>p \<in> set ys. settled s p \<and> mi_page_queue_of p s = Some (k, b)"
  shows "\<exists>s'. mi_page_queue_append h (h, b) (k, b) s = Some (length ys, s')
     \<and> heap_wf h (upd_heap h (\<lambda>x. x\<lparr>page_count := page_count x + length ys\<rparr>) s') (Q(b := Q b @ ys))
     \<and> (\<forall>j. j \<noteq> h \<longrightarrow> heap_at s' j = heap_at s j)"
  by (rule page_queue_append [OF assms(1-5)]) (use assms(6) in blast)+

lemma mi_page_queue_append_wf_witness:
  "\<exists>s'. mi_page_queue_append 1 (1, 8) (0, 8) sample_two = Some (length [Slice 1 2, Slice 1 1], s')
     \<and> heap_wf 1 (upd_heap 1 (\<lambda>x. x\<lparr>page_count := page_count x + length [Slice 1 2, Slice 1 1]\<rparr>) s')
         ((\<lambda>_. [])(8 := (\<lambda>_. []) (8 :: nat) @ [Slice 1 2, Slice 1 1]))
     \<and> heap_at s' 0 = heap_at sample_two 0"
proof -
  have k: "(0::nat) \<noteq> 1" by simp
  have ex: "\<exists>s'. mi_page_queue_append 1 (1, 8) (0, 8) sample_two = Some (length [Slice 1 2, Slice 1 1], s')
     \<and> heap_wf 1 (upd_heap 1 (\<lambda>x. x\<lparr>page_count := page_count x + length [Slice 1 2, Slice 1 1]\<rparr>) s')
         ((\<lambda>_. [])(8 := (\<lambda>_. []) (8 :: nat) @ [Slice 1 2, Slice 1 1]))
     \<and> (\<forall>j. j \<noteq> 1 \<longrightarrow> heap_at s' j = heap_at sample_two j)"
  proof (rule mi_page_queue_append_wf)
    have "heap_at sample_two 1 = mi_heap_empty"
    proof -
      have k: "k \<noteq> 0 \<Longrightarrow> heap_at (mi_page_queue_push 0 (0, 8) p s) k = heap_at s k" for k p and s :: "unit mi_store_scheme"
        by (auto simp: mi_page_queue_push_def Let_def store_simps first_update_other mi_page_set_in_full_def
            split: option.splits)
      show ?thesis by (simp add: sample_two_def k) (simp add: sample_store_def)
    qed
    then show "heap_wf 1 sample_two (\<lambda>_. [])" by (rule heap_wf_empty)
    show "queue_list sample_two (0, 8) [Slice 1 2, Slice 1 1]"
      using heap_wfD(3) [OF sample_two_wf, of 8] by simp
    show "\<forall>p \<in> set [Slice 1 2, Slice 1 1]. settled sample_two p \<and> mi_page_queue_of p sample_two = Some (0, 8)"
      using heap_wfD(4) [OF sample_two_wf, of 8]
      by (simp add: settled_def mi_tf_delayed_def mi_delayed_of_def)
  qed (simp_all add: active_bin_def)
  then show ?thesis using k by blast
qed

end
