(* ===== verification/PageFree.thy ===== *)
theory PageFree
  imports PageQueue
begin

text \<open>
  The free lists of a page (src/page.c, src/alloc.c) and the protocol by which other threads
  give blocks back. A page has three lists, threaded through the first words of its blocks:
  free (from which it allocates), local_free (freed by the owning thread) and the list in
  xthread_free (freed by other threads, with two flag bits); blocks freed in a full page go to
  the delayed list of the heap. The first part has the operations on one page, the second a
  step relation of the owning thread and any number of others, its invariant and properties.
  Free-list pointers are not encoded, as in a release build without MI_SECURE.
\<close>

section \<open>Operations on the lists of a page\<close>

record mi_mem = mi_store +
  block_next :: "block_ptr \<Rightarrow> block_ptr"

definition mi_block_set_next :: "block_ptr \<Rightarrow> block_ptr \<Rightarrow> 'a mi_mem_scheme \<Rightarrow> 'a mi_mem_scheme" where
  "mi_block_set_next b n s = s\<lparr>block_next := (block_next s)(b := n)\<rparr>"

definition sub32 :: "nat \<Rightarrow> nat \<Rightarrow> nat" where
  "sub32 x y = (x + (2 ^ 32 - y mod 2 ^ 32)) mod 2 ^ 32"

text \<open>The tail of the collected list and the number of blocks up to it, at most one too many.\<close>

function collect_tail :: "(block_ptr \<Rightarrow> block_ptr) \<Rightarrow> nat \<Rightarrow> block_ptr \<Rightarrow> nat \<Rightarrow> block_ptr \<times> nat" where
  "collect_tail nx max_count tail_b count =
     (if nx tail_b \<noteq> 0 \<and> count \<le> max_count then collect_tail nx max_count (nx tail_b) (count + 1)
      else (tail_b, count))"
  by auto
termination by (relation "measure (\<lambda>(nx, m, t, c). Suc m - c)") auto

definition mi_page_thread_free_collect :: "page_ptr \<Rightarrow> 'a mi_mem_scheme \<Rightarrow> 'a mi_mem_scheme" where
  "mi_page_thread_free_collect p s =
     (let tfree = xthread_free (page_at s p);
          head = mi_tf_block tfree;
          s = upd_page p (\<lambda>x. x\<lparr>xthread_free := mi_tf_set_block tfree 0\<rparr>) s
      in if head = 0 then s
         else
           let max_count = capacity (page_at s p);
               (tail_b, count) = collect_tail (block_next s) max_count head 1
           in if count > max_count then s
              else
                let s = mi_block_set_next tail_b (local_free (page_at s p)) s
                in upd_page p (\<lambda>x. x\<lparr>local_free := head, used := sub32 (used x) count\<rparr>) s)"

partial_function (option) list_tail :: "(block_ptr \<Rightarrow> block_ptr) \<Rightarrow> block_ptr \<Rightarrow> block_ptr option" where
  "list_tail nx b = (if nx b \<noteq> 0 then list_tail nx (nx b) else Some b)"

definition mi_page_free_collect :: "page_ptr \<Rightarrow> bool \<Rightarrow> 'a mi_mem_scheme \<Rightarrow> 'a mi_mem_scheme option" where
  "mi_page_free_collect p force s =
     (let s = (if force \<or> mi_page_thread_free (page_at s p) \<noteq> 0 then mi_page_thread_free_collect p s else s);
          page = page_at s p
      in if local_free page = 0 then Some s
         else if free page = 0 then
           Some (upd_page p (\<lambda>x. x\<lparr>free := local_free x, local_free := 0, free_is_zero := False\<rparr>) s)
         else if force then do {
           t \<leftarrow> list_tail (block_next s) (local_free page);
           Some (upd_page p (\<lambda>x. x\<lparr>free := local_free x, local_free := 0, free_is_zero := False\<rparr>)
                   (mi_block_set_next t (free page) s)) }
         else Some s)"

text \<open>The fast path of _mi_page_malloc; the result is 0 when the free list is empty.\<close>

definition mi_page_malloc :: "page_ptr \<Rightarrow> 'a mi_mem_scheme \<Rightarrow> block_ptr \<times> 'a mi_mem_scheme" where
  "mi_page_malloc p s =
     (let block = free (page_at s p)
      in if block = 0 then (0, s)
         else (block, upd_page p (\<lambda>x. x\<lparr>used := (used x + 1) mod 2 ^ 32, free := block_next s block\<rparr>) s))"

text \<open>The owning thread frees a block: it is pushed on local_free.\<close>

definition mi_free_block_push :: "page_ptr \<Rightarrow> block_ptr \<Rightarrow> 'a mi_mem_scheme \<Rightarrow> 'a mi_mem_scheme" where
  "mi_free_block_push p b s =
     (let s = mi_block_set_next b (local_free (page_at s p)) s
      in upd_page p (\<lambda>x. x\<lparr>local_free := b, used := sub32 (used x) 1\<rparr>) s)"

text \<open>
  New blocks at the end of the capacity, linked in order. start is the address of the page
  area; the loop runs from one block to the next until it is past the last one.
\<close>

definition mi_page_block_at :: "usize \<Rightarrow> usize \<Rightarrow> nat \<Rightarrow> block_ptr" where
  "mi_page_block_at page_start bsize i = page_start + of_nat i * bsize"

partial_function (option) extend_loop ::
  "usize \<Rightarrow> block_ptr \<Rightarrow> block_ptr \<Rightarrow> (block_ptr \<Rightarrow> block_ptr) \<Rightarrow> (block_ptr \<Rightarrow> block_ptr) option" where
  "extend_loop bsize block last_b nx =
     (if block \<le> last_b then extend_loop bsize (block + bsize) last_b (nx(block := block + bsize))
      else Some nx)"

definition mi_page_free_list_extend ::
  "(page_ptr \<Rightarrow> usize) \<Rightarrow> page_ptr \<Rightarrow> usize \<Rightarrow> nat \<Rightarrow> 'a mi_mem_scheme \<Rightarrow> 'a mi_mem_scheme option" where
  "mi_page_free_list_extend page_start p bsize ext s =
     (let page = page_at s p;
          start = mi_page_block_at (page_start p) bsize (capacity page);
          last_b = mi_page_block_at (page_start p) bsize (capacity page + ext - 1)
      in do {
        nx \<leftarrow> extend_loop bsize start last_b (block_next s);
        Some (upd_page p (\<lambda>x. x\<lparr>free := start\<rparr>)
                (mi_block_set_next last_b (free page) (s\<lparr>block_next := nx\<rparr>))) })"

definition MI_MAX_EXTEND_SIZE :: nat where "MI_MAX_EXTEND_SIZE = 4 * 1024"
definition MI_MIN_EXTEND :: nat where "MI_MIN_EXTEND = 4"

definition extend_count :: "mi_page \<Rightarrow> usize \<Rightarrow> nat" where
  "extend_count page bsize =
     (let ext = reserved page - capacity page;
          max_extend = (if MI_MAX_EXTEND_SIZE \<le> unat bsize then MI_MIN_EXTEND
                        else MI_MAX_EXTEND_SIZE div unat bsize);
          max_extend = (if max_extend < MI_MIN_EXTEND then MI_MIN_EXTEND else max_extend)
      in if ext > max_extend then max_extend else ext)"

text \<open>page_size is the size of the page area, used for huge pages.\<close>

definition mi_page_extend_free ::
  "(page_ptr \<Rightarrow> usize) \<Rightarrow> (page_ptr \<Rightarrow> usize) \<Rightarrow> page_ptr \<Rightarrow> 'a mi_mem_scheme \<Rightarrow> 'a mi_mem_scheme option" where
  "mi_page_extend_free page_start page_size p s =
     (let page = page_at s p in
      if free page \<noteq> 0 then Some s
      else if capacity page \<ge> reserved page then Some s
      else
        let bsize = (if unat (xblock_size page) < MI_HUGE_BLOCK_SIZE then xblock_size page else page_size p);
            ext = extend_count page bsize
        in do {
          s \<leftarrow> mi_page_free_list_extend page_start p bsize ext s;
          Some (upd_page p (\<lambda>x. x\<lparr>capacity := (capacity x + ext) mod 2 ^ 16\<rparr>) s) })"

definition mi_page_init ::
  "(page_ptr \<Rightarrow> usize) \<Rightarrow> (page_ptr \<Rightarrow> usize) \<Rightarrow> heap_ptr \<Rightarrow> page_ptr \<Rightarrow> usize \<Rightarrow> 'a mi_mem_scheme \<Rightarrow> 'a mi_mem_scheme option" where
  "mi_page_init page_start page_size heap p bsize s =
     (let s = mi_page_set_heap p (Some heap) s;
          s = upd_page p (\<lambda>x. x\<lparr>xblock_size := (if unat bsize < MI_HUGE_BLOCK_SIZE then bsize else of_nat MI_HUGE_BLOCK_SIZE)\<rparr>) s;
          s = upd_page p (\<lambda>x. x\<lparr>reserved := unat (page_size p div bsize) mod 2 ^ 16,
                free_is_zero := is_zero_init x\<rparr>) s
      in mi_page_extend_free page_start page_size p s)"

section \<open>Free lists as sets of blocks\<close>

text \<open>
  A list from h to the null pointer with the given blocks; the blocks are then distinct, so
  that a list is given by its head and its set.
\<close>

fun blist :: "(block_ptr \<Rightarrow> block_ptr) \<Rightarrow> block_ptr \<Rightarrow> block_ptr list \<Rightarrow> bool" where
  "blist nx h [] \<longleftrightarrow> h = 0"
| "blist nx h (b # bs) \<longleftrightarrow> h = b \<and> b \<noteq> 0 \<and> blist nx (nx b) bs"

definition pool :: "(block_ptr \<Rightarrow> block_ptr) \<Rightarrow> block_ptr \<Rightarrow> block_ptr set \<Rightarrow> bool" where
  "pool nx h S \<longleftrightarrow> (\<exists>bs. blist nx h bs \<and> set bs = S)"

lemma blist_fun: "blist nx h bs \<Longrightarrow> blist nx h cs \<Longrightarrow> bs = cs"
proof (induction bs arbitrary: h cs)
  case Nil then show ?case by (cases cs) auto
next
  case (Cons b bs) then show ?case by (cases cs) auto
qed

lemma blist_append: "blist nx h (bs @ c # cs) \<Longrightarrow> blist nx c (c # cs)"
  by (induction bs arbitrary: h) auto

lemma blist_distinct: "blist nx h bs \<Longrightarrow> distinct bs"
proof (induction bs arbitrary: h)
  case (Cons b bs)
  have "b \<notin> set bs"
  proof
    assume "b \<in> set bs"
    then obtain xs ys where bs: "bs = xs @ b # ys" by (meson split_list)
    then have "blist nx b (b # ys)" using Cons.prems blist_append [of nx h "b # xs" b ys] by simp
    moreover have "blist nx b (b # bs)" using Cons.prems by simp
    ultimately have "b # ys = b # bs" by (rule blist_fun)
    then have "length ys = length bs" by simp
    then show False using bs by simp
  qed
  then show ?case using Cons by auto
qed simp

lemma blist_cong: "(\<And>b. b \<in> set bs \<Longrightarrow> nx' b = nx b) \<Longrightarrow> blist nx' h bs = blist nx h bs"
  by (induction bs arbitrary: h) auto

lemma blist_upd: "b \<notin> set bs \<Longrightarrow> blist (nx(b := k)) h bs = blist nx h bs"
  by (rule blist_cong) auto

lemma blist_nonzero: "blist nx h bs \<Longrightarrow> 0 \<notin> set bs"
  by (induction bs arbitrary: h) auto

lemma pool_cong: "(\<And>b. b \<in> S \<Longrightarrow> nx' b = nx b) \<Longrightarrow> pool nx h S \<Longrightarrow> pool nx' h S"
  unfolding pool_def using blist_cong by metis

lemma pool_empty [simp]: "pool nx h {} \<longleftrightarrow> h = 0"
  by (auto simp: pool_def)

lemma pool_null: "pool nx 0 S \<longleftrightarrow> S = {}"
  unfolding pool_def by (metis blist.simps list.exhaust empty_set)

lemma pool_zero: "pool nx h S \<Longrightarrow> 0 \<notin> S"
  unfolding pool_def using blist_nonzero by blast

lemma pool_finite: "pool nx h S \<Longrightarrow> finite S"
  by (auto simp: pool_def)

lemma pool_head: "pool nx h S \<Longrightarrow> h \<noteq> 0 \<Longrightarrow> h \<in> S"
  unfolding pool_def by (metis blist.simps list.exhaust list.set_intros(1))

lemma pool_push:
  assumes "pool nx h S" "b \<notin> S" "b \<noteq> 0"
  shows "pool (nx(b := h)) b (insert b S)"
proof -
  obtain bs where "blist nx h bs" "set bs = S" using assms(1) by (auto simp: pool_def)
  then have "blist (nx(b := h)) b (b # bs)" using assms(2,3) by (auto simp: blist_upd)
  then show ?thesis using \<open>set bs = S\<close> unfolding pool_def by (intro exI [of _ "b # bs"]) simp
qed

lemma pool_pop:
  assumes "pool nx h S" "h \<noteq> 0"
  shows "pool nx (nx h) (S - {h})" "h \<in> S"
proof -
  obtain bs where bs: "blist nx h bs" "set bs = S" using assms(1) by (auto simp: pool_def)
  then obtain cs where "bs = h # cs" using assms(2) by (cases bs) auto
  then show "pool nx (nx h) (S - {h})" "h \<in> S"
    using bs blist_distinct [OF bs(1)] by (auto simp: pool_def)
qed

lemma blist_join:
  "blist nx h bs \<Longrightarrow> bs \<noteq> [] \<Longrightarrow> blist nx k cs \<Longrightarrow> set bs \<inter> set cs = {} \<Longrightarrow>
   blist (nx(last bs := k)) h (bs @ cs)"
proof (induction bs arbitrary: h)
  case (Cons b bs)
  show ?case
  proof (cases "bs = []")
    case True
    then show ?thesis using Cons.prems blist_upd [of b cs nx k k] by (simp add: fun_upd_def)
  next
    case False
    then have "b \<noteq> last bs" using blist_distinct [OF Cons.prems(1)] by auto
    then show ?thesis using Cons False by auto
  qed
qed simp

lemma pool_join:
  assumes "blist nx h bs" "bs \<noteq> []" "pool nx k S" "set bs \<inter> S = {}"
  shows "pool (nx(last bs := k)) h (set bs \<union> S)"
proof -
  obtain cs where "blist nx k cs" "set cs = S" using assms(3) by (auto simp: pool_def)
  then have "blist (nx(last bs := k)) h (bs @ cs)" using blist_join [OF assms(1,2)] assms(4) by simp
  then show ?thesis using \<open>set cs = S\<close> unfolding pool_def by (intro exI [of _ "bs @ cs"]) simp
qed

lemma list_tail_last: "blist nx h bs \<Longrightarrow> bs \<noteq> [] \<Longrightarrow> list_tail nx h = Some (last bs)"
proof (induction bs arbitrary: h)
  case (Cons b bs)
  show ?case
  proof (cases bs)
    case Nil
    then show ?thesis using Cons.prems by (auto simp: list_tail.simps [of nx b])
  next
    case (Cons c cs)
    then have "nx b \<noteq> 0" using Cons.prems by auto
    then show ?thesis using Cons.prems Cons Cons.IH [of "nx b"] by (auto simp: list_tail.simps [of nx b])
  qed
qed simp

lemma collect_tail_last:
  "blist nx h bs \<Longrightarrow> bs \<noteq> [] \<Longrightarrow> n + length bs \<le> m + 1 \<Longrightarrow> collect_tail nx m h n = (last bs, n + length bs - 1)"
proof (induction bs arbitrary: h n)
  case (Cons b bs)
  show ?case
  proof (cases bs)
    case Nil
    then show ?thesis using Cons.prems by simp
  next
    case (Cons c cs)
    then have "nx b \<noteq> 0" using Cons.prems by auto
    then show ?thesis using Cons.prems Cons Cons.IH [of "nx b" "n + 1"] by simp
  qed
qed simp

declare collect_tail.simps [simp del]

section \<open>The word with the list and the flag\<close>

definition aligned4 :: "block_ptr \<Rightarrow> bool" where
  "aligned4 b \<longleftrightarrow> b AND 3 = 0"

lemma bit_3i: "bit (3 :: int) n \<longleftrightarrow> n < 2"
  using bit_mask_iff [of 2 n, where 'a = int] by (auto simp: mask_eq_exp_minus_1)

lemma bit_m4i: "bit (-4 :: int) n \<longleftrightarrow> 2 \<le> n"
  using bit_not_iff [of "3 :: int" n] bit_3i [of n] by auto

lemma bit_2i: "bit (2 :: int) n \<longleftrightarrow> n = 1"
  using bit_exp_iff [of 1 n, where 'a = int] by auto

lemmas bit_34 = bit_3i bit_m4i bit_2i

lemma delayed_enc_low: "bit (mi_delayed_enc d) n \<Longrightarrow> n < 2"
  by (cases d) (simp_all add: bit_1_iff bit_34)

lemma delayed_enc_and: "mi_delayed_enc d AND 3 = mi_delayed_enc d" "mi_delayed_enc d AND - 4 = 0"
  by (rule bit_word_eqI; use delayed_enc_low [of d] in \<open>force simp: bit_simps bit_34\<close>)+

lemma delayed_of_enc: "mi_delayed_of (mi_delayed_enc d) = d"
  by (cases d) (simp_all add: mi_delayed_of_def)

lemma tf_make: "aligned4 b \<Longrightarrow> mi_tf_block (mi_tf_make b d) = b" "aligned4 b \<Longrightarrow> mi_tf_delayed (mi_tf_make b d) = d"
proof -
  assume a: "aligned4 b"
  have "b AND - 4 = b"
  proof (rule bit_word_eqI)
    fix n assume "n < LENGTH(64)"
    moreover have "\<not> bit (b AND 3) n" using a by (simp add: aligned4_def)
    ultimately show "bit (b AND - 4) n = bit b n" by (auto simp: bit_simps bit_34)
  qed
  then show "mi_tf_block (mi_tf_make b d) = b"
    by (simp add: mi_tf_block_def mi_tf_make_def bit.conj_disj_distrib2 delayed_enc_and)
  have "(b OR mi_delayed_enc d) AND 3 = mi_delayed_enc d"
    using a by (simp add: aligned4_def bit.conj_disj_distrib2 delayed_enc_and)
  then show "mi_tf_delayed (mi_tf_make b d) = d"
    by (simp add: mi_tf_delayed_def mi_tf_make_def delayed_of_enc)
qed

lemma aligned_tf_block: "aligned4 (mi_tf_block w)"
  by (simp add: aligned4_def mi_tf_block_def and.assoc)

lemma aligned_0 [simp]: "aligned4 0"
  by (simp add: aligned4_def)

lemma tf_set [simp]:
  "mi_tf_block (mi_tf_set_delayed w d) = mi_tf_block w" "mi_tf_delayed (mi_tf_set_delayed w d) = d"
  "aligned4 b \<Longrightarrow> mi_tf_block (mi_tf_set_block w b) = b"
  "aligned4 b \<Longrightarrow> mi_tf_delayed (mi_tf_set_block w b) = mi_tf_delayed w"
  by (simp_all add: mi_tf_set_delayed_def mi_tf_set_block_def tf_make aligned_tf_block)

lemma mi_page_thread_free_block: "mi_page_thread_free page = mi_tf_block (xthread_free page)"
  by (simp add: mi_page_thread_free_def mi_tf_block_def)

section \<open>The owning thread and the others\<close>

text \<open>
  Where a block is: on one of the lists of its page, on the delayed list of the heap, on the
  list that the owning thread has taken from there, with the owning thread or another thread
  that is freeing it, or with the program. This field is a record of what happened, it directs
  no step except that the program frees only what it holds.
\<close>

datatype place =
    Nowhere | In_free | In_local | In_thread | In_delayed | In_taken | In_owner | In_hand nat | Live

datatype owner_pc = O_idle | O_loop block_ptr | O_flagged block_ptr block_ptr | O_collected block_ptr block_ptr

datatype freer_pc = F_idle | F_free block_ptr | F_delayed block_ptr | F_reset block_ptr

record free_conc = mi_mem +
  opc :: owner_pc
  fpc :: "nat \<Rightarrow> freer_pc"
  loc :: "block_ptr \<Rightarrow> place"

text \<open>
  The page of a block and the area of a page are given by the segment; all pages are pages of
  one heap.
\<close>

record free_cfg =
  pg :: "block_ptr \<Rightarrow> page_ptr"
  hp :: heap_ptr
  area_start :: "page_ptr \<Rightarrow> usize"
  area_size :: "page_ptr \<Rightarrow> usize"
  own_pages :: "page_ptr set"

definition put :: "block_ptr \<Rightarrow> place \<Rightarrow> free_conc \<Rightarrow> free_conc" where
  "put b l s = s\<lparr>loc := (loc s)(b := l)\<rparr>"

definition collected_loc :: "free_cfg \<Rightarrow> page_ptr \<Rightarrow> bool \<Rightarrow> free_conc \<Rightarrow> block_ptr \<Rightarrow> place" where
  "collected_loc c p force s b =
     (if pg c b = p \<and> (loc s b = In_thread \<or> loc s b = In_local)
      then if force \<or> free (page_at s p) = 0 then In_free else In_local else loc s b)"

definition flag :: "'a mi_store_scheme \<Rightarrow> page_ptr \<Rightarrow> mi_delayed" where
  "flag s p = mi_tf_delayed (xthread_free (page_at s p))"

definition dlist :: "free_cfg \<Rightarrow> 'a mi_store_scheme \<Rightarrow> block_ptr" where
  "dlist c s = thread_delayed_free (heap_at s (hp c))"

definition set_dlist :: "free_cfg \<Rightarrow> block_ptr \<Rightarrow> 'a mi_store_scheme \<Rightarrow> 'a mi_store_scheme" where
  "set_dlist c b s = upd_heap (hp c) (\<lambda>x. x\<lparr>thread_delayed_free := b\<rparr>) s"

definition push_dlist :: "free_cfg \<Rightarrow> block_ptr \<Rightarrow> 'a mi_mem_scheme \<Rightarrow> 'a mi_mem_scheme" where
  "push_dlist c b s = set_dlist c b (mi_block_set_next b (dlist c s) s)"

definition set_tf :: "page_ptr \<Rightarrow> (usize \<Rightarrow> usize) \<Rightarrow> 'a mi_store_scheme \<Rightarrow> 'a mi_store_scheme" where
  "set_tf p f s = upd_page p (\<lambda>x. x\<lparr>xthread_free := f (xthread_free x)\<rparr>) s"

text \<open>
  The steps. The owning thread allocates, frees, collects, extends pages, marks a page as
  abandoned, and works through the delayed list as _mi_heap_delayed_free_partial and
  _mi_free_delayed_block do; the others free as _mi_free_block_mt does, every successful
  compare-and-swap one step.
\<close>

inductive fc_step :: "free_cfg \<Rightarrow> free_conc \<Rightarrow> free_conc \<Rightarrow> bool" for c where
  malloc: "opc s = O_idle \<Longrightarrow> p \<in> own_pages c \<Longrightarrow> mi_page_malloc p s = (b, s1) \<Longrightarrow> b \<noteq> 0 \<Longrightarrow>
     fc_step c s (put b Live s1)"
| free_local: "opc s = O_idle \<Longrightarrow> loc s b = Live \<Longrightarrow>
     fc_step c s (put b In_local (mi_free_block_push (pg c b) b s))"
| collect: "opc s = O_idle \<Longrightarrow> p \<in> own_pages c \<Longrightarrow> mi_page_free_collect p force s = Some s1 \<Longrightarrow>
     fc_step c s (s1\<lparr>loc := collected_loc c p force s\<rparr>)"
| grow: "opc s = O_idle \<Longrightarrow> p \<in> own_pages c \<Longrightarrow>
     mi_page_extend_free (area_start c) (area_size c) p s = Some s1 \<Longrightarrow>
     fc_step c s (s1\<lparr>loc := (\<lambda>b. if \<exists>i. capacity (page_at s p) \<le> i \<and> i < capacity (page_at s1 p) \<and>
         b = mi_page_block_at (area_start c p) (xblock_size (page_at s p)) i then In_free else loc s b)\<rparr>)"
| never: "opc s = O_idle \<Longrightarrow> p \<in> own_pages c \<Longrightarrow>
     mi_page_try_use_delayed_free p MI_NEVER_DELAYED_FREE False s = Some (True, s1) \<Longrightarrow> fc_step c s s1"
| take_delayed: "opc s = O_idle \<Longrightarrow>
     fc_step c s ((set_dlist c 0 s)\<lparr>opc := O_loop (dlist c s),
       loc := (\<lambda>b. if loc s b = In_delayed then In_taken else loc s b)\<rparr>)"
| flagged: "opc s = O_loop b \<Longrightarrow> b \<noteq> 0 \<Longrightarrow>
     mi_page_try_use_delayed_free (pg c b) MI_USE_DELAYED_FREE False s = Some (True, s1) \<Longrightarrow>
     fc_step c s ((put b In_owner s1)\<lparr>opc := O_flagged b (block_next s b)\<rparr>)"
| again: "opc s = O_loop b \<Longrightarrow> b \<noteq> 0 \<Longrightarrow>
     mi_page_try_use_delayed_free (pg c b) MI_USE_DELAYED_FREE False s = Some (False, s1) \<Longrightarrow>
     fc_step c s ((put b In_delayed (push_dlist c b s1))\<lparr>opc := O_loop (block_next s b)\<rparr>)"
| flagged_collect: "opc s = O_flagged b n \<Longrightarrow> mi_page_free_collect (pg c b) False s = Some s1 \<Longrightarrow>
     fc_step c s (s1\<lparr>opc := O_collected b n, loc := collected_loc c (pg c b) False s\<rparr>)"
| delayed_free: "opc s = O_collected b n \<Longrightarrow>
     fc_step c s ((put b In_local (mi_free_block_push (pg c b) b s))\<lparr>opc := O_loop n\<rparr>)"
| all_done: "opc s = O_loop 0 \<Longrightarrow> fc_step c s (s\<lparr>opc := O_idle\<rparr>)"
| f_start: "fpc s t = F_idle \<Longrightarrow> loc s b = Live \<Longrightarrow>
     fc_step c s ((put b (In_hand t) s)\<lparr>fpc := (fpc s)(t := F_free b)\<rparr>)"
| f_push: "fpc s t = F_free b \<Longrightarrow> flag s (pg c b) \<noteq> MI_USE_DELAYED_FREE \<Longrightarrow>
     fc_step c s ((put b In_thread (set_tf (pg c b) (\<lambda>w. mi_tf_set_block w b)
       (mi_block_set_next b (mi_page_thread_free (page_at s (pg c b))) s)))\<lparr>fpc := (fpc s)(t := F_idle)\<rparr>)"
| f_mark: "fpc s t = F_free b \<Longrightarrow> flag s (pg c b) = MI_USE_DELAYED_FREE \<Longrightarrow>
     fc_step c s ((set_tf (pg c b) (\<lambda>w. mi_tf_set_delayed w MI_DELAYED_FREEING) s)\<lparr>fpc := (fpc s)(t := F_delayed b)\<rparr>)"
| f_heap: "fpc s t = F_delayed b \<Longrightarrow>
     fc_step c s ((put b In_delayed (push_dlist c b s))\<lparr>fpc := (fpc s)(t := F_reset b)\<rparr>)"
| f_reset: "fpc s t = F_reset b \<Longrightarrow>
     fc_step c s ((set_tf (pg c b) (\<lambda>w. mi_tf_set_delayed w MI_NO_DELAYED_FREE) s)\<lparr>fpc := (fpc s)(t := F_idle)\<rparr>)"

inductive fc_reachable :: "free_cfg \<Rightarrow> free_conc \<Rightarrow> free_conc \<Rightarrow> bool" for c s0 where
  fc_start: "fc_reachable c s0 s0"
| fc_next: "fc_reachable c s0 s \<Longrightarrow> fc_step c s s' \<Longrightarrow> fc_reachable c s0 s'"

section \<open>The invariant\<close>

definition on_page :: "free_cfg \<Rightarrow> free_conc \<Rightarrow> page_ptr \<Rightarrow> place \<Rightarrow> block_ptr set" where
  "on_page c s p l = {b. pg c b = p \<and> loc s b = l}"

definition area_ok :: "free_cfg \<Rightarrow> mi_page \<Rightarrow> page_ptr \<Rightarrow> bool" where
  "area_ok c x p \<longleftrightarrow> reserved x < 2 ^ 16 \<and> 0 < unat (xblock_size x) \<and> unat (xblock_size x) < MI_HUGE_BLOCK_SIZE \<and>
     0 < unat (area_start c p) \<and> unat (area_start c p) + reserved x * unat (xblock_size x) < 2 ^ 64 \<and>
     aligned4 (area_start c p) \<and> aligned4 (xblock_size x) \<and>
     (\<forall>i < reserved x. pg c (mi_page_block_at (area_start c p) (xblock_size x) i) = p)"

definition page_inv :: "free_cfg \<Rightarrow> free_conc \<Rightarrow> page_ptr \<Rightarrow> bool" where
  "page_inv c s p \<longleftrightarrow> (let x = page_at s p in
     area_ok c x p \<and> capacity x \<le> reserved x \<and>
     {b. pg c b = p \<and> loc s b \<noteq> Nowhere} =
       mi_page_block_at (area_start c p) (xblock_size x) ` {..<capacity x} \<and>
     pool (block_next s) (free x) (on_page c s p In_free) \<and>
     pool (block_next s) (local_free x) (on_page c s p In_local) \<and>
     pool (block_next s) (mi_tf_block (xthread_free x)) (on_page c s p In_thread) \<and>
     used x = card {b. pg c b = p \<and> loc s b \<notin> {Nowhere, In_free, In_local}})"

definition owner_inv :: "free_conc \<Rightarrow> bool" where
  "owner_inv s \<longleftrightarrow> (case opc s of
       O_idle \<Rightarrow> (\<forall>b. loc s b \<noteq> In_taken \<and> loc s b \<noteq> In_owner)
     | O_loop n \<Rightarrow> pool (block_next s) n {b. loc s b = In_taken} \<and> (\<forall>b. loc s b \<noteq> In_owner)
     | O_flagged b n \<Rightarrow> pool (block_next s) n {b. loc s b = In_taken} \<and> (\<forall>d. loc s d = In_owner \<longleftrightarrow> d = b)
     | O_collected b n \<Rightarrow> pool (block_next s) n {b. loc s b = In_taken} \<and> (\<forall>d. loc s d = In_owner \<longleftrightarrow> d = b))"

definition hands_inv :: "free_conc \<Rightarrow> bool" where
  "hands_inv s \<longleftrightarrow> (\<forall>t b. loc s b = In_hand t \<longleftrightarrow> fpc s t = F_free b \<or> fpc s t = F_delayed b)"

definition reset_inv :: "free_cfg \<Rightarrow> free_conc \<Rightarrow> bool" where
  "reset_inv c s \<longleftrightarrow>
     (\<forall>t b. fpc s t = F_reset b \<longrightarrow> loc s b = In_delayed \<or> loc s b = In_taken) \<and>
     (\<forall>t b. fpc s t = F_delayed b \<or> fpc s t = F_reset b \<longrightarrow> flag s (pg c b) = MI_DELAYED_FREEING) \<and>
     (\<forall>t u b d. (fpc s t = F_delayed b \<or> fpc s t = F_reset b) \<and> (fpc s u = F_delayed d \<or> fpc s u = F_reset d) \<and>
        pg c b = pg c d \<longrightarrow> t = u) \<and>
     (\<forall>p\<in>own_pages c. flag s p = MI_DELAYED_FREEING \<longrightarrow> (\<exists>t b. (fpc s t = F_delayed b \<or> fpc s t = F_reset b) \<and> pg c b = p))"

text \<open>
  The owning thread will find out about blocks that other threads freed in the page: one of the
  page's blocks is on the delayed list, or was taken from there and is still to be freed.
\<close>

definition signalled :: "free_cfg \<Rightarrow> free_conc \<Rightarrow> page_ptr \<Rightarrow> bool" where
  "signalled c s p \<longleftrightarrow> (\<exists>b. pg c b = p \<and> (loc s b = In_delayed \<or> loc s b = In_taken))"

definition signal_inv :: "free_cfg \<Rightarrow> free_conc \<Rightarrow> bool" where
  "signal_inv c s \<longleftrightarrow> (\<forall>p\<in>own_pages c.
     (flag s p = MI_NO_DELAYED_FREE \<longrightarrow> signalled c s p) \<and>
     (on_page c s p In_thread \<noteq> {} \<longrightarrow> signalled c s p \<or> flag s p = MI_DELAYED_FREEING \<or>
        flag s p = MI_NEVER_DELAYED_FREE \<or> (\<exists>b n. opc s = O_flagged b n \<and> pg c b = p)))"

definition fc_inv :: "free_cfg \<Rightarrow> free_conc \<Rightarrow> bool" where
  "fc_inv c s \<longleftrightarrow> (\<forall>p\<in>own_pages c. page_inv c s p) \<and> (\<forall>b. loc s b \<noteq> Nowhere \<longrightarrow> pg c b \<in> own_pages c) \<and>
     pool (block_next s) (dlist c s) {b. loc s b = In_delayed} \<and>
     owner_inv s \<and> hands_inv s \<and> reset_inv c s \<and> signal_inv c s"

section \<open>What the operations do to the lists\<close>

lemma upd_page_next: "(upd_page p f s)\<lparr>block_next := nx\<rparr> = upd_page p f (s\<lparr>block_next := nx\<rparr>)"
  by (simp add: upd_page_def)

lemma upd_page_upd_page: "upd_page p f (upd_page p g s) = upd_page p (f \<circ> g) s"
  by (simp add: upd_page_def)

lemma upd_page_cong: "f (page_at s p) = g (page_at s p) \<Longrightarrow> upd_page p f s = upd_page p g s"
  by (simp add: upd_page_def)

lemma upd_page_mem [simp]: "block_next (upd_page p f s) = block_next s" "mi_mem.more (upd_page p f s) = mi_mem.more s"
  "block_next (upd_heap h g s) = block_next s" "mi_mem.more (upd_heap h g s) = mi_mem.more s"
  by (simp_all add: upd_page_def upd_heap_def)

lemma sub32_eq: "y \<le> x \<Longrightarrow> x < 2 ^ 32 \<Longrightarrow> sub32 x y = x - y"
proof -
  assume a: "y \<le> x" "x < 2 ^ 32"
  have e: "x + (2 ^ 32 - y mod 2 ^ 32) = (x - y) + 2 ^ 32" using a by simp
  show ?thesis unfolding sub32_def e mod_add_self2 using a by (intro mod_less) simp
qed

lemma thread_free_collect_spec:
  assumes T: "pool (block_next s) (mi_tf_block (xthread_free (page_at s p))) T"
    and L: "pool (block_next s) (local_free (page_at s p)) L" and d: "T \<inter> L = {}"
    and n: "card T \<le> capacity (page_at s p)" "card T \<le> used (page_at s p)" "used (page_at s p) < 2 ^ 32"
  shows "\<exists>l nx. mi_page_thread_free_collect p s =
      (upd_page p (\<lambda>x. x\<lparr>xthread_free := mi_tf_set_block (xthread_free x) 0, local_free := l, used := used x - card T\<rparr>) s)
        \<lparr>block_next := nx\<rparr> \<and> pool nx l (T \<union> L) \<and> (\<forall>b. b \<notin> T \<longrightarrow> nx b = block_next s b)"
proof (cases "mi_tf_block (xthread_free (page_at s p)) = 0")
  case True
  then have "T = {}" using T by (simp add: pool_null)
  have "mi_page_thread_free_collect p s = (upd_page p (\<lambda>x. x\<lparr>xthread_free := mi_tf_set_block (xthread_free x) 0,
      local_free := local_free (page_at s p), used := used x - card T\<rparr>) s)\<lparr>block_next := block_next s\<rparr>"
    using True \<open>T = {}\<close> by (simp add: mi_page_thread_free_collect_def Let_def upd_page_def)
  then show ?thesis using L \<open>T = {}\<close> by (intro exI conjI) auto
next
  case False
  let ?h = "mi_tf_block (xthread_free (page_at s p))"
  obtain bs where bs: "blist (block_next s) ?h bs" "set bs = T" using T by (auto simp: pool_def)
  then have ne: "bs \<noteq> []" using False by auto
  have len: "length bs = card T" using distinct_card [OF blist_distinct [OF bs(1)]] bs(2) by simp
  have ct: "collect_tail (block_next s) (capacity (page_at s p)) ?h 1 = (last bs, card T)"
    using collect_tail_last [OF bs(1) ne, of 1 "capacity (page_at s p)"] n(1) len by simp
  let ?nx = "(block_next s)(last bs := local_free (page_at s p))"
  have "mi_page_thread_free_collect p s = (upd_page p (\<lambda>x. x\<lparr>xthread_free := mi_tf_set_block (xthread_free x) 0,
      local_free := ?h, used := used x - card T\<rparr>) s)\<lparr>block_next := ?nx\<rparr>"
    using False n ct
    by (simp add: mi_page_thread_free_collect_def Let_def upd_page_def mi_block_set_next_def sub32_eq)
  moreover have "pool ?nx ?h (T \<union> L)" using pool_join [OF bs(1) ne L] bs(2) d by simp
  moreover have "\<forall>b. b \<notin> T \<longrightarrow> ?nx b = block_next s b" using bs(2) ne by auto
  ultimately show ?thesis by blast
qed

lemma store_comm:
  "s\<lparr>block_next := n, page_at := m\<rparr> = s\<lparr>page_at := m, block_next := n\<rparr>" for s :: "'a mi_mem_scheme"
  by (cases s) simp

lemma page_comm:
  "x\<lparr>xthread_free := a, used := b, free := d, local_free := l, free_is_zero := e\<rparr> =
   x\<lparr>xthread_free := a, local_free := l, free := d, used := b, free_is_zero := e\<rparr>" for x :: mi_page
  by (cases x) simp

lemma free_collect_spec:
  assumes F: "pool (block_next s) (free (page_at s p)) F"
    and L: "pool (block_next s) (local_free (page_at s p)) L"
    and T: "pool (block_next s) (mi_tf_block (xthread_free (page_at s p))) T"
    and d: "T \<inter> L = {}" "F \<inter> (T \<union> L) = {}"
    and n: "card T \<le> capacity (page_at s p)" "card T \<le> used (page_at s p)" "used (page_at s p) < 2 ^ 32"
  shows "\<exists>f l x nx z. mi_page_free_collect p force s =
      Some ((upd_page p (\<lambda>y. y\<lparr>xthread_free := x, local_free := l, free := f, used := used y - card T, free_is_zero := z\<rparr>) s)
        \<lparr>block_next := nx\<rparr>) \<and> mi_tf_block x = 0 \<and> mi_tf_delayed x = mi_tf_delayed (xthread_free (page_at s p)) \<and>
      (if force \<or> free (page_at s p) = 0 then pool nx f (F \<union> L \<union> T) \<and> l = 0 else pool nx f F \<and> pool nx l (L \<union> T)) \<and>
      (\<forall>b. b \<notin> L \<union> T \<longrightarrow> nx b = block_next s b)"
proof -
  let ?s = "if force \<or> mi_page_thread_free (page_at s p) \<noteq> 0 then mi_page_thread_free_collect p s else s"
  obtain l x nx where s1: "?s = (upd_page p (\<lambda>y. y\<lparr>xthread_free := x, local_free := l, used := used y - card T\<rparr>) s)\<lparr>block_next := nx\<rparr>"
    "pool nx l (T \<union> L)" "\<forall>b. b \<notin> T \<longrightarrow> nx b = block_next s b" "mi_tf_block x = 0"
    "mi_tf_delayed x = mi_tf_delayed (xthread_free (page_at s p))"
  proof (cases "force \<or> mi_page_thread_free (page_at s p) \<noteq> 0")
    case True
    obtain l nx where 1: "mi_page_thread_free_collect p s =
      (upd_page p (\<lambda>x. x\<lparr>xthread_free := mi_tf_set_block (xthread_free x) 0, local_free := l, used := used x - card T\<rparr>) s)
        \<lparr>block_next := nx\<rparr>" "pool nx l (T \<union> L)" "\<forall>b. b \<notin> T \<longrightarrow> nx b = block_next s b"
      using thread_free_collect_spec [OF T L d(1) n] by blast
    show ?thesis
      by (rule that [where x = "mi_tf_set_block (xthread_free (page_at s p)) 0" and l = l and nx = nx])
         (use 1 True in \<open>auto simp: upd_page_def\<close>)
  next
    case False
    then have "T = {}" using T by (simp add: pool_null mi_page_thread_free_block)
    then show ?thesis using False L
      by (intro that [where x = "xthread_free (page_at s p)" and l = "local_free (page_at s p)" and nx = "block_next s"])
         (auto simp: upd_page_def mi_page_thread_free_block)
  qed
  have p1: "local_free (page_at ?s p) = l" "free (page_at ?s p) = free (page_at s p)" "block_next ?s = nx"
    unfolding s1(1) by (simp_all add: upd_page_def)
  have Fn: "pool nx (free (page_at s p)) F" by (rule pool_cong [OF _ F]) (use s1(3) d in auto)
  let ?z = "if l = 0 \<or> free (page_at s p) \<noteq> 0 \<and> \<not> force then free_is_zero (page_at s p) else False"
  consider "l = 0" | "l \<noteq> 0" "free (page_at s p) = 0" | "l \<noteq> 0" "free (page_at s p) \<noteq> 0" "force"
    | "l \<noteq> 0" "free (page_at s p) \<noteq> 0" "\<not> force" by blast
  then show ?thesis
  proof cases
    case 1
    then have "T \<union> L = {}" using s1(2) by (simp add: pool_null)
    have "mi_page_free_collect p force s = Some ((upd_page p (\<lambda>y. y\<lparr>xthread_free := x, local_free := l,
        free := free (page_at s p), used := used y - card T, free_is_zero := ?z\<rparr>) s)\<lparr>block_next := nx\<rparr>)"
      unfolding mi_page_free_collect_def Let_def using 1 p1 s1(1) by (auto simp: upd_page_def)
    then show ?thesis using 1 s1 Fn \<open>T \<union> L = {}\<close> by (intro exI conjI) (assumption, auto)
  next
    case 2
    then have "F = {}" using F by (simp add: pool_null)
    have "mi_page_free_collect p force s = Some ((upd_page p (\<lambda>y. y\<lparr>xthread_free := x, local_free := 0,
        free := l, used := used y - card T, free_is_zero := ?z\<rparr>) s)\<lparr>block_next := nx\<rparr>)"
      unfolding mi_page_free_collect_def Let_def using 2 p1 s1(1) by (auto simp: upd_page_def store_comm page_comm)
    then show ?thesis using 2 s1 \<open>F = {}\<close> by (intro exI conjI) (assumption, auto simp: Un_commute)
  next
    case 3
    obtain bs where bs: "blist nx l bs" "set bs = T \<union> L" using s1(2) by (auto simp: pool_def)
    then have ne: "bs \<noteq> []" using 3 by auto
    let ?nx = "nx(last bs := free (page_at s p))"
    have "mi_page_free_collect p force s = Some ((upd_page p (\<lambda>y. y\<lparr>xthread_free := x, local_free := 0,
        free := l, used := used y - card T, free_is_zero := ?z\<rparr>) s)\<lparr>block_next := ?nx\<rparr>)"
      unfolding mi_page_free_collect_def Let_def using 3 p1 s1(1) list_tail_last [OF bs(1) ne]
      by (simp add: upd_page_def mi_block_set_next_def store_comm page_comm)
    moreover have "pool ?nx l ((T \<union> L) \<union> F)" using pool_join [OF bs(1) ne Fn] bs(2) d by auto
    moreover have "(T \<union> L) \<union> F = F \<union> L \<union> T" by auto
    moreover have "\<forall>b. b \<notin> L \<union> T \<longrightarrow> ?nx b = block_next s b" using s1(3) bs(2) ne by auto
    ultimately show ?thesis using 3 s1(4,5) by (intro exI conjI) (assumption, auto)
  next
    case 4
    have "mi_page_free_collect p force s = Some ((upd_page p (\<lambda>y. y\<lparr>xthread_free := x, local_free := l,
        free := free (page_at s p), used := used y - card T, free_is_zero := ?z\<rparr>) s)\<lparr>block_next := nx\<rparr>)"
      unfolding mi_page_free_collect_def Let_def using 4 p1 s1(1) by (auto simp: upd_page_def)
    moreover have "pool nx l (L \<union> T)" using s1(2) by (simp add: Un_commute)
    ultimately show ?thesis using 4 s1 Fn by (intro exI conjI) (assumption, auto)
  qed
qed

text \<open>Blocks of an area do not wrap, are distinct, aligned and not null.\<close>

definition area_block :: "free_cfg \<Rightarrow> mi_page \<Rightarrow> page_ptr \<Rightarrow> nat \<Rightarrow> block_ptr" where
  "area_block c x p = mi_page_block_at (area_start c p) (xblock_size x)"

lemma unat_area_block:
  assumes "area_ok c x p" "i \<le> reserved x"
  shows "unat (area_block c x p i) = unat (area_start c p) + i * unat (xblock_size x)"
    "unat (area_start c p) + i * unat (xblock_size x) < 2 ^ 64"
proof -
  have "i * unat (xblock_size x) \<le> reserved x * unat (xblock_size x)" using assms(2) by simp
  then show b: "unat (area_start c p) + i * unat (xblock_size x) < 2 ^ 64"
    using assms(1) unfolding area_ok_def by linarith
  have "area_block c x p i = of_nat (unat (area_start c p) + i * unat (xblock_size x))"
    by (simp add: area_block_def mi_page_block_at_def)
  then show "unat (area_block c x p i) = unat (area_start c p) + i * unat (xblock_size x)"
    using b by (simp only: unat_of_nat_usize)
qed

lemma area_block_inj:
  assumes "area_ok c x p"
  shows "inj_on (area_block c x p) {..reserved x}"
proof (rule inj_onI)
  fix i j assume "i \<in> {..reserved x}" "j \<in> {..reserved x}" "area_block c x p i = area_block c x p j"
  then have "i * unat (xblock_size x) = j * unat (xblock_size x)"
    using unat_area_block(1) [OF assms] by (metis add_left_imp_eq atMost_iff)
  then show "i = j" using assms by (simp add: area_ok_def)
qed

lemma area_block_nonzero:
  assumes "area_ok c x p" "i \<le> reserved x"
  shows "area_block c x p i \<noteq> 0"
proof -
  have "0 < unat (area_block c x p i)" using unat_area_block(1) [OF assms] assms(1) by (simp add: area_ok_def)
  then show ?thesis by auto
qed

lemma aligned4_iff: "aligned4 b \<longleftrightarrow> 4 dvd unat b"
proof -
  have "b AND 3 = take_bit 2 b" by (simp add: take_bit_eq_mask mask_eq_exp_minus_1)
  then have "unat (b AND 3) = take_bit 2 (unat b)" by (simp only: unsigned_take_bit_eq)
  then have "unat (b AND 3) = unat b mod 4" by (simp add: take_bit_eq_mod)
  then show ?thesis by (simp add: aligned4_def dvd_eq_mod_eq_0 flip: unat_eq_0)
qed

lemma area_block_aligned:
  assumes "area_ok c x p" "i \<le> reserved x"
  shows "aligned4 (area_block c x p i)"
  using unat_area_block(1) [OF assms] assms(1) by (auto simp: aligned4_iff area_ok_def)

lemma area_block_page: "area_ok c x p \<Longrightarrow> i < reserved x \<Longrightarrow> pg c (area_block c x p i) = p"
  by (simp add: area_ok_def area_block_def)

lemma area_block_Suc: "area_block c x p (Suc i) = area_block c x p i + xblock_size x"
  by (simp add: area_block_def mi_page_block_at_def algebra_simps)

lemma area_block_le:
  assumes "area_ok c x p" "i \<le> reserved x" "j \<le> reserved x"
  shows "area_block c x p i \<le> area_block c x p j \<longleftrightarrow> i \<le> j"
  using unat_area_block(1) [OF assms(1)] assms by (simp add: word_le_nat_alt area_ok_def)

lemma extend_loop_spec:
  assumes a: "area_ok c x p" "n < reserved x" and i: "i \<le> Suc n"
  shows "extend_loop (xblock_size x) (area_block c x p i) (area_block c x p n) nx =
    Some (\<lambda>b. if b \<in> area_block c x p ` {i..n} then b + xblock_size x else nx b)"
  using i
proof (induction "Suc n - i" arbitrary: i nx)
  case 0
  then have "i = Suc n" by simp
  then have "\<not> area_block c x p i \<le> area_block c x p n" using area_block_le [OF a(1)] a(2) by simp
  then show ?case using \<open>i = Suc n\<close> by (simp add: extend_loop.simps)
next
  case (Suc k)
  let ?B = "area_block c x p"
  have le: "?B i \<le> ?B n" using area_block_le [OF a(1)] a(2) Suc by simp
  have "extend_loop (xblock_size x) (?B i) (?B n) nx =
      extend_loop (xblock_size x) (?B (Suc i)) (?B n) (nx(?B i := ?B i + xblock_size x))"
    using le by (simp add: extend_loop.simps [of _ "?B i"] area_block_Suc)
  also have "\<dots> = Some (\<lambda>b. if b \<in> ?B ` {Suc i..n} then b + xblock_size x
      else (nx(?B i := ?B i + xblock_size x)) b)"
    by (rule Suc.hyps) (use Suc in auto)
  also have "\<dots> = Some (\<lambda>b. if b \<in> ?B ` {i..n} then b + xblock_size x else nx b)"
  proof -
    have "{i..n} = insert i {Suc i..n}" using Suc by auto
    then show ?thesis by (auto simp: fun_eq_iff)
  qed
  finally show ?case .
qed

lemma blist_area:
  assumes "area_ok c x p" "m \<le> n" "n \<le> reserved x"
    "\<And>i. m \<le> i \<Longrightarrow> Suc i < n \<Longrightarrow> nx (area_block c x p i) = area_block c x p (Suc i)"
    "m < n \<Longrightarrow> nx (area_block c x p (n - 1)) = 0"
  shows "m < n \<Longrightarrow> blist nx (area_block c x p m) (map (area_block c x p) [m..<n])"
  using assms(2,4,5)
proof (induction "n - m" arbitrary: m)
  case (Suc k)
  have nz: "area_block c x p m \<noteq> 0" by (rule area_block_nonzero [OF assms(1)]) (use Suc.prems assms(3) in simp)
  have u: "[m..<n] = m # [Suc m..<n]" using Suc.prems by (simp add: upt_conv_Cons)
  show ?case
  proof (cases "Suc m < n")
    case True
    then show ?thesis using Suc.hyps(1) [of "Suc m"] Suc.hyps(2) Suc.prems nz by (simp add: u)
  next
    case False
    then have "n = Suc m" using Suc.prems by simp
    then show ?thesis using Suc.prems nz by (simp add: u)
  qed
qed simp

lemma extend_count_bounds:
  assumes "capacity x < reserved x"
  shows "0 < extend_count x bs" "extend_count x bs \<le> reserved x - capacity x"
  using assms by (auto simp: extend_count_def Let_def MI_MIN_EXTEND_def)

lemma extend_free_spec:
  assumes a: "area_ok c (page_at s p) p" and cap: "capacity (page_at s p) < reserved (page_at s p)"
    and f: "free (page_at s p) = 0"
  defines "x \<equiv> page_at s p"
  defines "e \<equiv> extend_count x (xblock_size x)"
  shows "\<exists>nx. mi_page_extend_free (area_start c) (area_size c) p s =
      Some ((upd_page p (\<lambda>y. y\<lparr>free := area_block c x p (capacity x), capacity := capacity x + e\<rparr>) s)\<lparr>block_next := nx\<rparr>) \<and>
    pool nx (area_block c x p (capacity x)) (area_block c x p ` {capacity x..<capacity x + e}) \<and>
    (\<forall>b. b \<notin> area_block c x p ` {capacity x..<capacity x + e} \<longrightarrow> nx b = block_next s b)"
proof -
  let ?B = "area_block c x p" and ?m = "capacity x"
  have e: "0 < e" "?m + e \<le> reserved x" using extend_count_bounds [of x "xblock_size x"] cap by (auto simp: e_def x_def)
  have a': "area_ok c x p" using a by (simp add: x_def)
  let ?nw = "\<lambda>b. if b \<in> ?B ` {?m..?m + e - 1} then b + xblock_size x else block_next s b"
  let ?nx = "?nw(?B (?m + e - 1) := 0)"
  have lp: "extend_loop (xblock_size x) (?B ?m) (?B (?m + e - 1)) (block_next s) = Some ?nw"
    by (rule extend_loop_spec [OF a']) (use e in auto)
  have sm: "(?m + e) mod 2 ^ 16 = ?m + e" using e a' by (simp add: area_ok_def)
  have eq: "mi_page_extend_free (area_start c) (area_size c) p s =
      Some ((upd_page p (\<lambda>y. y\<lparr>free := ?B ?m, capacity := ?m + e\<rparr>) s)\<lparr>block_next := ?nx\<rparr>)"
    unfolding mi_page_extend_free_def mi_page_free_list_extend_def Let_def
    using lp cap f a' sm
    by (simp add: area_ok_def x_def [symmetric] e_def [symmetric] area_block_def [symmetric] mi_block_set_next_def upd_page_def store_comm)
  have im: "?B ` {?m..?m + e - 1} = ?B ` {?m..<?m + e}" using e by (intro arg_cong2 [where f = image]) auto
  have inj: "?B i = ?B j \<longleftrightarrow> i = j" if "i \<le> reserved x" "j \<le> reserved x" for i j
    using area_block_inj [OF a'] that by (auto simp: inj_on_def)
  have "blist ?nx (?B ?m) (map ?B [?m..<?m + e])"
  proof (rule blist_area [OF a'])
    fix i assume i: "?m \<le> i" "Suc i < ?m + e"
    then have "?B i \<noteq> ?B (?m + e - 1)" using inj [of i "?m + e - 1"] e by simp
    moreover have "?B i \<in> ?B ` {?m..?m + e - 1}" using i by (intro imageI) simp
    ultimately show "?nx (?B i) = ?B (Suc i)" by (simp add: area_block_Suc)
  qed (use e in auto)
  then have "pool ?nx (?B ?m) (?B ` {?m..<?m + e})" unfolding pool_def by (intro exI conjI) (assumption, simp)
  moreover have "\<forall>b. b \<notin> ?B ` {?m..<?m + e} \<longrightarrow> ?nx b = block_next s b"
  proof (intro allI impI)
    fix b assume b: "b \<notin> ?B ` {?m..<?m + e}"
    moreover have "?B (?m + e - 1) \<in> ?B ` {?m..<?m + e}" using e by (intro imageI) simp
    ultimately have "b \<noteq> ?B (?m + e - 1)" by blast
    then show "?nx b = block_next s b" using b im by simp
  qed
  ultimately show ?thesis using eq by blast
qed

section \<open>Preservation\<close>

definition outside :: "place \<Rightarrow> bool" where
  "outside l \<longleftrightarrow> l \<noteq> Nowhere \<and> l \<noteq> In_free \<and> l \<noteq> In_local \<and> l \<noteq> In_thread"

lemma page_inv_keep:
  assumes inv: "page_inv c s p"
    and w: "page_at s' p = (page_at s p)\<lparr>xthread_free := w\<rparr>" "mi_tf_block w = mi_tf_block (xthread_free (page_at s p))"
    and l: "\<And>b. pg c b = p \<Longrightarrow> loc s' b = loc s b \<or> outside (loc s b) \<and> outside (loc s' b)"
    and n: "\<And>b. pg c b = p \<Longrightarrow> loc s b \<in> {In_free, In_local, In_thread} \<Longrightarrow> block_next s' b = block_next s b"
  shows "page_inv c s' p"
proof -
  have on: "on_page c s' p l = on_page c s p l" if "\<not> outside l" for l
    unfolding on_page_def by (rule Collect_cong) (metis l that)
  have out: "\<not> outside Nowhere" "\<not> outside In_free" "\<not> outside In_local" "\<not> outside In_thread" by (simp_all add: outside_def)
  have "{b. pg c b = p \<and> loc s' b \<noteq> Nowhere} = {b. pg c b = p \<and> loc s b \<noteq> Nowhere}"
    using l out(1) by (metis (lifting))
  moreover have "{b. pg c b = p \<and> loc s' b \<notin> {Nowhere, In_free, In_local}} = {b. pg c b = p \<and> loc s b \<notin> {Nowhere, In_free, In_local}}"
  proof (rule Collect_cong)
    fix b show "(pg c b = p \<and> loc s' b \<notin> {Nowhere, In_free, In_local}) = (pg c b = p \<and> loc s b \<notin> {Nowhere, In_free, In_local})"
      using l [of b] by (cases "loc s' b = loc s b") (auto simp: outside_def)
  qed
  moreover have "pool (block_next s') h (on_page c s' p l) = pool (block_next s) h (on_page c s p l)"
    if "l \<in> {In_free, In_local, In_thread}" for h l
  proof -
    have "\<not> outside l" using that out by auto
    moreover have "block_next s' b = block_next s b" if "b \<in> on_page c s p l" for b
      using n [of b] that \<open>l \<in> _\<close> by (simp add: on_page_def)
    ultimately show ?thesis
      using pool_cong [of "on_page c s p l" "block_next s'" "block_next s"]
        pool_cong [of "on_page c s p l" "block_next s" "block_next s'"] by (auto simp: on)
  qed
  moreover have "area_ok c (page_at s' p) p = area_ok c (page_at s p) p" by (simp add: w area_ok_def)
  ultimately show ?thesis using inv w unfolding page_inv_def Let_def by simp
qed

lemma page_inv_same:
  assumes "page_inv c s p" "page_at s' p = page_at s p"
    "\<And>b. pg c b = p \<Longrightarrow> loc s' b = loc s b \<or> outside (loc s b) \<and> outside (loc s' b)"
    "\<And>b. pg c b = p \<Longrightarrow> loc s b \<in> {In_free, In_local, In_thread} \<Longrightarrow> block_next s' b = block_next s b"
  shows "page_inv c s' p"
  by (rule page_inv_keep [OF assms(1), where w = "xthread_free (page_at s p)"]) (use assms in auto)

lemma page_blocks:
  assumes "page_inv c s p" "pg c b = p" "loc s b \<noteq> Nowhere"
  shows "aligned4 b" "b \<noteq> 0" "\<exists>i<capacity (page_at s p). b = area_block c (page_at s p) p i"
proof -
  have a: "area_ok c (page_at s p) p" "capacity (page_at s p) \<le> reserved (page_at s p)"
    and "{b. pg c b = p \<and> loc s b \<noteq> Nowhere} = area_block c (page_at s p) p ` {..<capacity (page_at s p)}"
    using assms(1) by (auto simp: page_inv_def Let_def area_block_def)
  then show i: "\<exists>i<capacity (page_at s p). b = area_block c (page_at s p) p i" using assms(2,3) by blast
  then show "aligned4 b" "b \<noteq> 0" using area_block_aligned [OF a(1)] area_block_nonzero [OF a(1)] a(2) by auto
qed

lemma fc_block:
  assumes "fc_inv c s" "loc s b \<noteq> Nowhere"
  shows "pg c b \<in> own_pages c" "aligned4 b" "b \<noteq> 0" "page_inv c s (pg c b)"
proof -
  show p: "pg c b \<in> own_pages c" using assms by (simp add: fc_inv_def)
  then show "page_inv c s (pg c b)" using assms by (simp add: fc_inv_def)
  then show "aligned4 b" "b \<noteq> 0" using page_blocks assms(2) by blast+
qed

lemma page_counts:
  assumes "page_inv c s p"
  shows "finite {b. pg c b = p \<and> loc s b \<noteq> Nowhere}" "used (page_at s p) < 2 ^ 16" "capacity (page_at s p) < 2 ^ 16"
    "used (page_at s p) \<le> capacity (page_at s p)"
proof -
  have a: "{b. pg c b = p \<and> loc s b \<noteq> Nowhere} = area_block c (page_at s p) p ` {..<capacity (page_at s p)}"
    "used (page_at s p) = card {b. pg c b = p \<and> loc s b \<notin> {Nowhere, In_free, In_local}}"
    "capacity (page_at s p) < 2 ^ 16"
    using assms by (auto simp: page_inv_def Let_def area_block_def area_ok_def)
  then show f: "finite {b. pg c b = p \<and> loc s b \<noteq> Nowhere}" by simp
  have "used (page_at s p) \<le> card {b. pg c b = p \<and> loc s b \<noteq> Nowhere}"
    unfolding a(2) by (rule card_mono [OF f]) auto
  also have "\<dots> \<le> capacity (page_at s p)" unfolding a(1) using card_image_le [of "{..<capacity (page_at s p)}"] by simp
  finally show "used (page_at s p) \<le> capacity (page_at s p)" .
  then show "used (page_at s p) < 2 ^ 16" "capacity (page_at s p) < 2 ^ 16" using a(3) by auto
qed

text \<open>A block leaves the free list of its page for the program, or comes back to local_free.\<close>

lemma page_inv_malloc:
  assumes inv: "page_inv c s p" and f: "free (page_at s p) = b" "b \<noteq> 0"
    and s': "page_at s' p = (page_at s p)\<lparr>used := (used (page_at s p) + 1) mod 2 ^ 32, free := block_next s b\<rparr>"
      "block_next s' = block_next s" "loc s' = (loc s)(b := Live)"
  shows "page_inv c s' p \<and> pg c b = p \<and> loc s b = In_free"
proof -
  note cnt = page_counts [OF inv]
  have "pool (block_next s) b (on_page c s p In_free)" using inv f by (simp add: page_inv_def Let_def)
  note pop = pool_pop [OF this f(2)]
  have b: "pg c b = p" "loc s b = In_free" using pop(2) by (auto simp: on_page_def)
  have on: "on_page c s' p In_free = on_page c s p In_free - {b}" "on_page c s' p In_local = on_page c s p In_local"
    "on_page c s' p In_thread = on_page c s p In_thread" using b by (auto simp: on_page_def s')
  have all: "{d. pg c d = p \<and> loc s' d \<noteq> Nowhere} = {d. pg c d = p \<and> loc s d \<noteq> Nowhere}" using b by (auto simp: s')
  define U where "U = {d. pg c d = p \<and> loc s d \<notin> {Nowhere, In_free, In_local}}"
  have U: "{d. pg c d = p \<and> loc s' d \<notin> {Nowhere, In_free, In_local}} = insert b U" using b by (auto simp: s' U_def)
  have "finite U" unfolding U_def using cnt(1) by (rule rev_finite_subset) auto
  then have "card (insert b U) = Suc (card U)" using b by (simp add: U_def)
  moreover have "(used (page_at s p) + 1) mod 2 ^ 32 = used (page_at s p) + 1" using cnt(2) by simp
  moreover have "used (page_at s p) = card U" using inv by (simp add: page_inv_def Let_def U_def)
  ultimately have "page_inv c s' p"
    using inv pop(1) unfolding page_inv_def Let_def on all U s'(1,2) by (simp add: area_ok_def)
  then show ?thesis using b by simp
qed

lemma page_inv_free:
  assumes inv: "page_inv c s p" and b: "pg c b = p" "outside (loc s b)"
    and s': "page_at s' p = (page_at s p)\<lparr>local_free := b, used := sub32 (used (page_at s p)) 1\<rparr>"
      "block_next s' = (block_next s)(b := local_free (page_at s p))" "loc s' = (loc s)(b := In_local)"
  shows "page_inv c s' p"
proof -
  note cnt = page_counts [OF inv]
  have l: "loc s b \<noteq> In_free" "loc s b \<noteq> In_local" "loc s b \<noteq> In_thread" "loc s b \<noteq> Nowhere" using b(2) by (simp_all add: outside_def)
  have on: "on_page c s' p In_free = on_page c s p In_free" "on_page c s' p In_local = insert b (on_page c s p In_local)"
    "on_page c s' p In_thread = on_page c s p In_thread" using b l by (auto simp: on_page_def s')
  have all: "{d. pg c d = p \<and> loc s' d \<noteq> Nowhere} = {d. pg c d = p \<and> loc s d \<noteq> Nowhere}" using l by (auto simp: s')
  define U where "U = {d. pg c d = p \<and> loc s d \<notin> {Nowhere, In_free, In_local}}"
  have U: "{d. pg c d = p \<and> loc s' d \<notin> {Nowhere, In_free, In_local}} = U - {b}" by (auto simp: s' U_def)
  have "finite U" unfolding U_def using cnt(1) by (rule rev_finite_subset) auto
  moreover have "b \<in> U" using b l by (simp add: U_def)
  ultimately have "card (U - {b}) = card U - 1" "0 < card U" by (auto simp: card_gt_0_iff)
  moreover have u: "used (page_at s p) = card U" using inv by (simp add: page_inv_def Let_def U_def)
  ultimately have sub: "sub32 (used (page_at s p)) 1 = card (U - {b})" using sub32_eq [of 1 "card U"] cnt(2) by simp
  have pl: "pool (block_next s) h S \<Longrightarrow> b \<notin> S \<Longrightarrow> pool (block_next s') h S" for h S
    by (erule pool_cong [rotated]) (auto simp: s')
  have "pool (block_next s') b (insert b (on_page c s p In_local))"
    unfolding s'(2) using inv l page_blocks(2) [OF inv b(1) l(4)]
    by (intro pool_push) (auto simp: page_inv_def Let_def on_page_def)
  then show ?thesis
    using inv l pl unfolding page_inv_def Let_def on all U sub s'(1) by (simp add: area_ok_def on_page_def)
qed

text \<open>Another thread puts a block on the page's list.\<close>

lemma page_inv_push:
  assumes inv: "page_inv c s p" and b: "pg c b = p" "outside (loc s b)"
    and s': "page_at s' p = (page_at s p)\<lparr>xthread_free := mi_tf_set_block (xthread_free (page_at s p)) b\<rparr>"
      "block_next s' = (block_next s)(b := mi_tf_block (xthread_free (page_at s p)))" "loc s' = (loc s)(b := In_thread)"
  shows "page_inv c s' p"
proof -
  have l: "loc s b \<noteq> In_free" "loc s b \<noteq> In_local" "loc s b \<noteq> In_thread" "loc s b \<noteq> Nowhere" using b(2) by (simp_all add: outside_def)
  have al: "aligned4 b" "b \<noteq> 0" using page_blocks [OF inv b(1) l(4)] by simp_all
  have on: "on_page c s' p In_free = on_page c s p In_free" "on_page c s' p In_local = on_page c s p In_local"
    "on_page c s' p In_thread = insert b (on_page c s p In_thread)" using b l by (auto simp: on_page_def s')
  have all: "{d. pg c d = p \<and> loc s' d \<noteq> Nowhere} = {d. pg c d = p \<and> loc s d \<noteq> Nowhere}" using l by (auto simp: s')
  have U: "{d. pg c d = p \<and> loc s' d \<notin> {Nowhere, In_free, In_local}} = {d. pg c d = p \<and> loc s d \<notin> {Nowhere, In_free, In_local}}"
    using l by (auto simp: s')
  have pl: "pool (block_next s) h S \<Longrightarrow> b \<notin> S \<Longrightarrow> pool (block_next s') h S" for h S
    by (erule pool_cong [rotated]) (auto simp: s')
  have "pool (block_next s') b (insert b (on_page c s p In_thread))"
    unfolding s'(2) using inv l al(2) by (intro pool_push) (auto simp: page_inv_def Let_def on_page_def)
  then show ?thesis
    using inv l pl al unfolding page_inv_def Let_def on all U s'(1) by (simp add: area_ok_def on_page_def)
qed

lemma page_inv_collect:
  assumes inv: "page_inv c s p"
  shows "\<exists>f l x nx z k. mi_page_free_collect p force s =
      Some ((upd_page p (\<lambda>y. y\<lparr>xthread_free := x, local_free := l, free := f, used := used y - k, free_is_zero := z\<rparr>) s)
        \<lparr>block_next := nx\<rparr>) \<and>
     mi_tf_block x = 0 \<and> mi_tf_delayed x = flag s p \<and>
     (\<forall>b. \<not> (pg c b = p \<and> (loc s b = In_thread \<or> loc s b = In_local)) \<longrightarrow> nx b = block_next s b) \<and>
     (\<forall>s'. page_at s' p = (page_at s p)\<lparr>xthread_free := x, local_free := l, free := f,
         used := used (page_at s p) - k, free_is_zero := z\<rparr> \<longrightarrow>
       block_next s' = nx \<longrightarrow> loc s' = collected_loc c p force s \<longrightarrow> page_inv c s' p)"
proof -
  define F L T where "F = on_page c s p In_free" and "L = on_page c s p In_local" and "T = on_page c s p In_thread"
  note cnt = page_counts [OF inv]
  define U where "U = {d. pg c d = p \<and> loc s d \<notin> {Nowhere, In_free, In_local}}"
  have fU: "finite U" unfolding U_def using cnt(1) by (rule rev_finite_subset) auto
  have TU: "T \<subseteq> U" by (auto simp: T_def U_def on_page_def)
  have u: "used (page_at s p) = card U" using inv by (simp add: page_inv_def Let_def U_def)
  have "card T \<le> card U" using card_mono [OF fU TU] .
  then have n: "card T \<le> capacity (page_at s p)" "card T \<le> used (page_at s p)" "used (page_at s p) < 2 ^ 32"
    using u cnt by auto
  have d: "T \<inter> L = {}" "F \<inter> (T \<union> L) = {}" by (auto simp: F_def L_def T_def on_page_def)
  have pools: "pool (block_next s) (free (page_at s p)) F" "pool (block_next s) (local_free (page_at s p)) L"
    "pool (block_next s) (mi_tf_block (xthread_free (page_at s p))) T"
    using inv by (simp_all add: page_inv_def Let_def F_def L_def T_def)
  let ?all = "force \<or> free (page_at s p) = 0"
  obtain f l x nx z where r: "mi_page_free_collect p force s =
      Some ((upd_page p (\<lambda>y. y\<lparr>xthread_free := x, local_free := l, free := f, used := used y - card T, free_is_zero := z\<rparr>) s)
        \<lparr>block_next := nx\<rparr>)" "mi_tf_block x = 0" "mi_tf_delayed x = mi_tf_delayed (xthread_free (page_at s p))"
      "if ?all then pool nx f (F \<union> L \<union> T) \<and> l = 0 else pool nx f F \<and> pool nx l (L \<union> T)"
      "\<forall>b. b \<notin> L \<union> T \<longrightarrow> nx b = block_next s b"
    using free_collect_spec [OF pools d n] by blast
  have pi: "page_inv c s' p"
    if s': "page_at s' p = (page_at s p)\<lparr>xthread_free := x, local_free := l, free := f,
         used := used (page_at s p) - card T, free_is_zero := z\<rparr>"
       "block_next s' = nx" "loc s' = collected_loc c p force s" for s'
  proof -
    have on: "on_page c s' p In_free = (if ?all then F \<union> L \<union> T else F)" "on_page c s' p In_local = (if ?all then {} else L \<union> T)"
      "on_page c s' p In_thread = {}"
      unfolding on_page_def s'(3) collected_loc_def F_def L_def T_def by auto
    have all: "{d. pg c d = p \<and> loc s' d \<noteq> Nowhere} = {d. pg c d = p \<and> loc s d \<noteq> Nowhere}"
      unfolding s'(3) collected_loc_def by auto
    have "{d. pg c d = p \<and> loc s' d \<notin> {Nowhere, In_free, In_local}} = U - T"
      unfolding s'(3) collected_loc_def U_def T_def on_page_def by auto
    then have c: "card {d. pg c d = p \<and> loc s' d \<notin> {Nowhere, In_free, In_local}} = card U - card T"
      using card_Diff_subset [OF _ TU] rev_finite_subset [OF fU TU] by simp
    show ?thesis
      using inv r(2,4) unfolding page_inv_def Let_def on all c s'(1,2) by (auto simp: area_ok_def u split: if_splits)
  qed
  have fr: "\<forall>b. \<not> (pg c b = p \<and> (loc s b = In_thread \<or> loc s b = In_local)) \<longrightarrow> nx b = block_next s b"
    using r(5) by (auto simp: L_def T_def on_page_def)
  show ?thesis
    by (intro exI conjI, rule r(1), rule r(2), use r(3) in \<open>simp add: flag_def\<close>, rule fr, use pi in blast)
qed

lemma page_inv_grow:
  assumes inv: "page_inv c s p" and cap: "capacity (page_at s p) < reserved (page_at s p)" and f: "free (page_at s p) = 0"
  shows "\<exists>nx e. mi_page_extend_free (area_start c) (area_size c) p s =
      Some ((upd_page p (\<lambda>y. y\<lparr>free := area_block c (page_at s p) p (capacity (page_at s p)),
        capacity := capacity (page_at s p) + e\<rparr>) s)\<lparr>block_next := nx\<rparr>) \<and>
     (\<forall>b. loc s b \<noteq> Nowhere \<longrightarrow> nx b = block_next s b) \<and>
     (\<forall>s'. page_at s' p = (page_at s p)\<lparr>free := area_block c (page_at s p) p (capacity (page_at s p)),
         capacity := capacity (page_at s p) + e\<rparr> \<longrightarrow> block_next s' = nx \<longrightarrow>
       loc s' = (\<lambda>b. if \<exists>i. capacity (page_at s p) \<le> i \<and> i < capacity (page_at s p) + e \<and>
          b = mi_page_block_at (area_start c p) (xblock_size (page_at s p)) i then In_free else loc s b) \<longrightarrow>
       page_inv c s' p \<and> (\<forall>b. loc s' b \<noteq> loc s b \<longrightarrow> pg c b = p \<and> loc s b = Nowhere \<and> loc s' b = In_free))"
proof -
  let ?x = "page_at s p"
  let ?m = "capacity ?x" and ?B = "area_block c ?x p"
  define e where "e = extend_count ?x (xblock_size ?x)"
  have a: "area_ok c ?x p" using inv by (simp add: page_inv_def Let_def)
  have e: "?m + e \<le> reserved ?x" using extend_count_bounds(2) [OF cap, of "xblock_size ?x"] cap unfolding e_def by linarith
  obtain nx where nx: "mi_page_extend_free (area_start c) (area_size c) p s =
      Some ((upd_page p (\<lambda>y. y\<lparr>free := ?B ?m, capacity := ?m + e\<rparr>) s)\<lparr>block_next := nx\<rparr>)"
    "pool nx (?B ?m) (?B ` {?m..<?m + e})" "\<forall>b. b \<notin> ?B ` {?m..<?m + e} \<longrightarrow> nx b = block_next s b"
    using extend_free_spec [OF a cap f] unfolding e_def by (auto simp: upd_page_def)
  have old: "{b. pg c b = p \<and> loc s b \<noteq> Nowhere} = ?B ` {..<?m}"
    using inv by (simp add: page_inv_def Let_def area_block_def)
  have new: "pg c b = p \<and> loc s b = Nowhere" if "b \<in> ?B ` {?m..<?m + e}" for b
  proof -
    obtain i where i: "b = ?B i" "?m \<le> i" "i < ?m + e" using \<open>b \<in> _\<close> by auto
    then have "pg c b = p" using area_block_page [OF a] e by simp
    moreover have "b \<notin> ?B ` {..<?m}"
    proof
      assume "b \<in> ?B ` {..<?m}"
      then obtain j where "b = ?B j" "j < ?m" by auto
      then have "i = j" using inj_onD [OF area_block_inj [OF a], of i j] i e by simp
      then show False using \<open>j < ?m\<close> i by simp
    qed
    ultimately show ?thesis using old by blast
  qed
  have keep: "\<forall>b. loc s b \<noteq> Nowhere \<longrightarrow> nx b = block_next s b" using nx(3) new by metis
  have pi: "page_inv c s' p \<and> (\<forall>b. loc s' b \<noteq> loc s b \<longrightarrow> pg c b = p \<and> loc s b = Nowhere \<and> loc s' b = In_free)"
    if s': "page_at s' p = ?x\<lparr>free := ?B ?m, capacity := ?m + e\<rparr>" "block_next s' = nx"
      "loc s' = (\<lambda>b. if \<exists>i. ?m \<le> i \<and> i < ?m + e \<and>
          b = mi_page_block_at (area_start c p) (xblock_size (page_at s p)) i then In_free else loc s b)" for s'
  proof -
    define N where "N = ?B ` {?m..<?m + e}"
    have new': "b \<in> N \<Longrightarrow> pg c b = p \<and> loc s b = Nowhere" for b using new unfolding N_def .
    have l: "loc s' b = (if b \<in> N then In_free else loc s b)" for b
      unfolding s'(3) area_block_def N_def by (auto simp: image_iff)
    have "on_page c s p In_free = {}" using inv f by (simp add: page_inv_def Let_def pool_null)
    then have none: "loc s b \<noteq> In_free" if "pg c b = p" for b using that by (auto simp: on_page_def)
    have on: "on_page c s' p In_free = N" "on_page c s' p In_local = on_page c s p In_local"
      "on_page c s' p In_thread = on_page c s p In_thread"
      unfolding on_page_def l by (rule set_eqI, use new' none in force)+
    have u: "{..<?m + e} = {..<?m} \<union> {?m..<?m + e}" by auto
    have all: "{d. pg c d = p \<and> loc s' d \<noteq> Nowhere} = ?B ` {..<?m + e}"
      unfolding u image_Un old [symmetric] N_def [symmetric] l by (rule set_eqI, use new' in force)
    have U: "{d. pg c d = p \<and> loc s' d \<notin> {Nowhere, In_free, In_local}} = {d. pg c d = p \<and> loc s d \<notin> {Nowhere, In_free, In_local}}"
      unfolding l by (rule set_eqI, use new' in force)
    have pl: "pool nx h S" if "pool (block_next s) h S" "\<forall>b\<in>S. loc s b \<noteq> Nowhere" for h S
      using that keep by (auto intro: pool_cong)
    have "pool nx (local_free ?x) (on_page c s p In_local)" "pool nx (mi_tf_block (xthread_free ?x)) (on_page c s p In_thread)"
      by (rule pl; use inv in \<open>auto simp: page_inv_def Let_def on_page_def\<close>)+
    then have "page_inv c s' p"
      using inv nx(2) e unfolding page_inv_def Let_def on all U s'(1,2) N_def by (simp add: area_ok_def area_block_def)
    then show ?thesis using new' unfolding l by auto
  qed
  show ?thesis
    by (intro exI [of _ nx] exI [of _ e] conjI, rule nx(1), rule keep, use pi in blast)
qed

lemma extend_free_none:
  "\<not> (capacity (page_at s p) < reserved (page_at s p) \<and> free (page_at s p) = 0) \<Longrightarrow>
   mi_page_extend_free start sz p s = Some s"
  by (auto simp: mi_page_extend_free_def Let_def)

text \<open>Steps in which blocks move only between the program and the lists of their pages.\<close>

definition special :: "place \<Rightarrow> bool" where
  "special l \<longleftrightarrow> l = In_delayed \<or> l = In_taken \<or> l = In_owner \<or> (\<exists>t. l = In_hand t)"

lemma free_quiet_step:
  assumes inv: "fc_inv c s"
    and same: "opc s' = opc s" "fpc s' = fpc s" "dlist c s' = dlist c s" "\<And>p. flag s' p = flag s p"
    and l: "\<And>b. special (loc s b) \<or> special (loc s' b) \<Longrightarrow> loc s' b = loc s b"
    and th: "\<And>b. loc s' b = In_thread \<Longrightarrow> loc s b = In_thread"
    and n: "\<And>b. special (loc s b) \<Longrightarrow> block_next s' b = block_next s b"
    and pages: "\<And>p. p \<in> own_pages c \<Longrightarrow> page_inv c s' p" "\<And>b. loc s' b \<noteq> Nowhere \<Longrightarrow> pg c b \<in> own_pages c"
  shows "fc_inv c s'"
proof -
  have sp: "loc s' b = k \<longleftrightarrow> loc s b = k" if "special k" for b k using l [of b] that by metis
  have k: "special In_delayed" "special In_taken" "special In_owner" "special (In_hand t)" for t
    by (simp_all add: special_def)
  have pl: "pool (block_next s') h {b. loc s' b = k}" if "pool (block_next s) h {b. loc s b = k}" "special k" for h k
  proof -
    have "pool (block_next s') h {b. loc s b = k}" by (rule pool_cong [OF _ that(1)]) (use n that(2) in auto)
    then show ?thesis using sp [OF that(2)] by simp
  qed
  have sg: "signalled c s' p = signalled c s p" for p by (simp add: signalled_def sp [OF k(1)] sp [OF k(2)])
  have "owner_inv s'"
    using inv k pl unfolding fc_inv_def owner_inv_def same(1) by (auto simp: sp split: owner_pc.splits)
  moreover have "hands_inv s'" using inv k unfolding fc_inv_def hands_inv_def same(2) by (simp add: sp)
  moreover have "reset_inv c s'" using inv k unfolding fc_inv_def reset_inv_def same(2,4) by (simp add: sp)
  moreover have "signal_inv c s'"
    using inv th unfolding fc_inv_def signal_inv_def same(1,4) sg on_page_def by blast
  moreover have "pool (block_next s') (dlist c s') {b. loc s' b = In_delayed}"
    using inv pl k unfolding fc_inv_def same(3) by blast
  ultimately show ?thesis using pages unfolding fc_inv_def by blast
qed

lemma own_page: "fc_inv c s \<Longrightarrow> p \<in> own_pages c \<Longrightarrow> page_inv c s p"
  by (simp add: fc_inv_def)

lemma put_simps [simp]:
  "page_at (put b l s) = page_at s" "heap_at (put b l s) = heap_at s" "block_next (put b l s) = block_next s"
  "opc (put b l s) = opc s" "fpc (put b l s) = fpc s" "loc (put b l s) = (loc s)(b := l)"
  "dlist c (put b l s) = dlist c s" "flag (put b l s) p = flag s p"
  by (simp_all add: put_def dlist_def flag_def)

lemma upd_page_conc [simp]:
  fixes s :: free_conc
  shows "opc (upd_page p f s) = opc s" "fpc (upd_page p f s) = fpc s" "loc (upd_page p f s) = loc s"
    "dlist c (upd_page p f s) = dlist c s" "page_at (upd_page p f s) = (page_at s)(p := f (page_at s p))"
    "heap_at (upd_page p f s) = heap_at s"
  by (simp_all add: upd_page_def dlist_def)

lemma set_next_simps [simp]:
  fixes s :: free_conc
  shows "page_at (mi_block_set_next b n s) = page_at s" "heap_at (mi_block_set_next b n s) = heap_at s"
    "block_next (mi_block_set_next b n s) = (block_next s)(b := n)"
    "opc (mi_block_set_next b n s) = opc s" "fpc (mi_block_set_next b n s) = fpc s" "loc (mi_block_set_next b n s) = loc s"
    "dlist c (mi_block_set_next b n s) = dlist c s"
  by (simp_all add: mi_block_set_next_def dlist_def)

lemma step_malloc:
  assumes inv: "fc_inv c s" and p: "p \<in> own_pages c" and m: "mi_page_malloc p s = (b, s1)" "b \<noteq> 0"
  shows "fc_inv c (put b Live s1)" "pg c b = p" "loc s b = In_free"
proof -
  have f: "free (page_at s p) = b" and s1: "s1 = upd_page p (\<lambda>x. x\<lparr>used := (used x + 1) mod 2 ^ 32, free := block_next s b\<rparr>) s"
    using m by (auto simp: mi_page_malloc_def Let_def split: if_splits)
  let ?s = "put b Live s1"
  have pi: "page_inv c ?s p \<and> pg c b = p \<and> loc s b = In_free"
    by (rule page_inv_malloc [OF own_page [OF inv p] f m(2)]) (simp_all add: s1)
  then show b: "pg c b = p" "loc s b = In_free" by simp_all
  have "page_inv c ?s q" if "q \<in> own_pages c" for q
  proof (cases "q = p")
    case True then show ?thesis using pi by simp
  next
    case False
    show ?thesis by (rule page_inv_same [OF own_page [OF inv that]]) (use False b in \<open>auto simp: s1\<close>)
  qed
  then show "fc_inv c ?s"
    by (intro free_quiet_step [OF inv]) (use inv b p in \<open>auto simp: s1 special_def flag_def fc_inv_def split: if_splits\<close>)
qed

lemma push_fields:
  fixes s :: free_conc
  shows "page_at (mi_free_block_push p b s) = (page_at s)(p := (page_at s p)\<lparr>local_free := b, used := sub32 (used (page_at s p)) 1\<rparr>)"
    "block_next (mi_free_block_push p b s) = (block_next s)(b := local_free (page_at s p))"
    "opc (mi_free_block_push p b s) = opc s" "fpc (mi_free_block_push p b s) = fpc s" "loc (mi_free_block_push p b s) = loc s"
    "dlist c (mi_free_block_push p b s) = dlist c s" "flag (mi_free_block_push p b s) q = flag s q"
  by (simp_all add: mi_free_block_push_def Let_def flag_def)

lemma push_pages:
  assumes inv: "fc_inv c s" and b: "outside (loc s b)" and q: "q \<in> own_pages c"
  shows "page_inv c (put b In_local (mi_free_block_push (pg c b) b s)) q"
proof (cases "q = pg c b")
  case True
  then show ?thesis
    using page_inv_free [OF own_page [OF inv q], of b "put b In_local (mi_free_block_push (pg c b) b s)"] b
    by (simp add: push_fields)
next
  case False
  show ?thesis
    by (rule page_inv_same [OF own_page [OF inv q]]) (use False b in \<open>auto simp: push_fields outside_def\<close>)
qed

lemma step_free_local:
  assumes inv: "fc_inv c s" and b: "loc s b = Live"
  shows "fc_inv c (put b In_local (mi_free_block_push (pg c b) b s))"
  by (intro free_quiet_step [OF inv] push_pages [OF inv])
     (use fc_block [OF inv, of b] inv b in \<open>auto simp: push_fields special_def outside_def fc_inv_def split: if_splits\<close>)

lemma collect_pages:
  assumes inv: "fc_inv c s" and p: "p \<in> own_pages c" and r: "mi_page_free_collect p force s = Some s1"
    and s': "page_at s' = page_at s1" "block_next s' = block_next s1" "loc s' = collected_loc c p force s"
  shows "\<And>q. q \<in> own_pages c \<Longrightarrow> page_inv c s' q" "\<And>q. flag s1 q = flag s q" "dlist c s1 = dlist c s"
    "opc s1 = opc s" "fpc s1 = fpc s" "\<And>b. special (loc s b) \<Longrightarrow> block_next s1 b = block_next s b"
    "\<And>b. loc s' b \<noteq> Nowhere \<longleftrightarrow> loc s b \<noteq> Nowhere" "\<And>b k. special k \<Longrightarrow> loc s' b = k \<longleftrightarrow> loc s b = k"
    "on_page c s' p In_thread = {}" "\<And>b. loc s' b = In_thread \<Longrightarrow> loc s b = In_thread"
proof -
  obtain f l x nx z k where c: "s1 = (upd_page p (\<lambda>y. y\<lparr>xthread_free := x, local_free := l, free := f, used := used y - k, free_is_zero := z\<rparr>) s)
        \<lparr>block_next := nx\<rparr>" "mi_tf_delayed x = flag s p"
     "\<forall>b. \<not> (pg c b = p \<and> (loc s b = In_thread \<or> loc s b = In_local)) \<longrightarrow> nx b = block_next s b"
     "\<forall>s'. page_at s' p = (page_at s p)\<lparr>xthread_free := x, local_free := l, free := f,
         used := used (page_at s p) - k, free_is_zero := z\<rparr> \<longrightarrow>
       block_next s' = nx \<longrightarrow> loc s' = collected_loc c p force s \<longrightarrow> page_inv c s' p"
    using page_inv_collect [OF own_page [OF inv p], of force] r by auto
  show "page_inv c s' q" if "q \<in> own_pages c" for q
  proof (cases "q = p")
    case True
    then show ?thesis using c(4) s' by (simp add: c(1))
  next
    case False
    show ?thesis
      by (rule page_inv_same [OF own_page [OF inv that]])
         (use False c(3) in \<open>auto simp: s' c(1) collected_loc_def\<close>)
  qed
  show "flag s1 q = flag s q" for q using c(2) by (simp add: c(1) flag_def)
  show "dlist c s1 = dlist c s" "opc s1 = opc s" "fpc s1 = fpc s" by (simp_all add: c(1) dlist_def upd_page_def)
  show "block_next s1 b = block_next s b" if "special (loc s b)" for b
    using that c(3) by (auto simp: c(1) special_def)
  show "loc s' b \<noteq> Nowhere \<longleftrightarrow> loc s b \<noteq> Nowhere" for b by (auto simp: s' collected_loc_def)
  show "loc s' b = k \<longleftrightarrow> loc s b = k" if "special k" for b k
    using that by (auto simp: s' collected_loc_def special_def)
  show "on_page c s' p In_thread = {}" by (auto simp: on_page_def s' collected_loc_def split: if_splits)
  show "loc s' b = In_thread \<Longrightarrow> loc s b = In_thread" for b by (auto simp: s' collected_loc_def split: if_splits)
qed

lemma step_collect:
  assumes inv: "fc_inv c s" and p: "p \<in> own_pages c" and r: "mi_page_free_collect p force s = Some s1"
  shows "fc_inv c (s1\<lparr>loc := collected_loc c p force s\<rparr>)" (is "fc_inv c ?s")
proof -
  note f = collect_pages [OF inv p r, of ?s]
  show ?thesis
  proof (rule free_quiet_step [OF inv])
    show "loc ?s b = loc s b" if sp: "special (loc s b) \<or> special (loc ?s b)" for b
    proof -
      have e: "loc ?s b = k \<longleftrightarrow> loc s b = k" if "special k" for k by (rule f(8)) (simp_all add: that)
      from sp show ?thesis
      proof
        assume "special (loc s b)" from e [OF this] show ?thesis by (rule iffD2) (rule refl)
      next
        assume "special (loc ?s b)" from e [OF this] have "loc s b = loc ?s b" by (rule iffD1) (rule refl)
        then show ?thesis by (rule sym)
      qed
    qed
    show "pg c b \<in> own_pages c" if "loc ?s b \<noteq> Nowhere" for b using that f(7) inv by (auto simp: fc_inv_def)
  qed (use f in \<open>auto simp: flag_def dlist_def\<close>)
qed

lemma step_grow:
  assumes inv: "fc_inv c s" and p: "p \<in> own_pages c"
    and r: "mi_page_extend_free (area_start c) (area_size c) p s = Some s1"
  shows "fc_inv c (s1\<lparr>loc := (\<lambda>b. if \<exists>i. capacity (page_at s p) \<le> i \<and> i < capacity (page_at s1 p) \<and>
         b = mi_page_block_at (area_start c p) (xblock_size (page_at s p)) i then In_free else loc s b)\<rparr>)" (is "fc_inv c ?s")
proof (cases "capacity (page_at s p) < reserved (page_at s p) \<and> free (page_at s p) = 0")
  case False
  then have "s1 = s" using r extend_free_none [of s p "area_start c" "area_size c"] by simp
  then have "?s = s" by (cases s) (auto simp: fun_eq_iff)
  then show ?thesis using inv by simp
next
  case True
  obtain nx e where g: "s1 = (upd_page p (\<lambda>y. y\<lparr>free := area_block c (page_at s p) p (capacity (page_at s p)),
        capacity := capacity (page_at s p) + e\<rparr>) s)\<lparr>block_next := nx\<rparr>"
     "\<forall>b. loc s b \<noteq> Nowhere \<longrightarrow> nx b = block_next s b"
     "\<forall>s'. page_at s' p = (page_at s p)\<lparr>free := area_block c (page_at s p) p (capacity (page_at s p)),
         capacity := capacity (page_at s p) + e\<rparr> \<longrightarrow> block_next s' = nx \<longrightarrow>
       loc s' = (\<lambda>b. if \<exists>i. capacity (page_at s p) \<le> i \<and> i < capacity (page_at s p) + e \<and>
          b = mi_page_block_at (area_start c p) (xblock_size (page_at s p)) i then In_free else loc s b) \<longrightarrow>
       page_inv c s' p \<and> (\<forall>b. loc s' b \<noteq> loc s b \<longrightarrow> pg c b = p \<and> loc s b = Nowhere \<and> loc s' b = In_free)"
    using page_inv_grow [OF own_page [OF inv p]] True r by auto
  have pi: "page_inv c ?s p" and l: "\<And>b. loc ?s b \<noteq> loc s b \<Longrightarrow> pg c b = p \<and> loc s b = Nowhere \<and> loc ?s b = In_free"
    using g(3) [rule_format, of ?s] by (auto simp: g(1))
  have fl: "opc ?s = opc s" "fpc ?s = fpc s" "dlist c ?s = dlist c s" "flag ?s q = flag s q" "block_next ?s = nx"
    "q \<noteq> p \<Longrightarrow> page_at ?s q = page_at s q" for q
    by (simp_all add: g(1) flag_def dlist_def)
  show ?thesis
  proof (rule free_quiet_step [OF inv fl(1-3)])
    show "flag ?s q = flag s q" for q by (rule fl(4))
    show "loc ?s b = loc s b" if "special (loc s b) \<or> special (loc ?s b)" for b
      using l [of b] that unfolding special_def by (cases "loc ?s b = loc s b") auto
    show "loc s b = In_thread" if "loc ?s b = In_thread" for b using l [of b] that by (cases "loc ?s b = loc s b") auto
    show "block_next ?s b = block_next s b" if "special (loc s b)" for b
    proof -
      have "loc s b \<noteq> Nowhere" using that by (auto simp: special_def)
      then show ?thesis unfolding fl(5) using g(2) by blast
    qed
    show "pg c b \<in> own_pages c" if "loc ?s b \<noteq> Nowhere" for b
    proof (cases "loc ?s b = loc s b")
      case True
      then have "loc s b \<noteq> Nowhere" using that by metis
      then show ?thesis by (rule fc_block(1) [OF inv])
    next
      case False
      then show ?thesis using l [OF False] p by metis
    qed
    show "page_inv c ?s q" if "q \<in> own_pages c" for q
    proof (cases "q = p")
      case False
      show ?thesis
      proof (rule page_inv_same [OF own_page [OF inv that] fl(6) [OF False]])
        fix b assume b: "pg c b = q"
        have "loc ?s b = loc s b"
        proof (rule ccontr)
          assume "loc ?s b \<noteq> loc s b"
          from l [OF this] b False show False by blast
        qed
        then show "loc ?s b = loc s b \<or> outside (loc s b) \<and> outside (loc ?s b)" by (rule disjI1)
        assume "loc s b \<in> {In_free, In_local, In_thread}"
        then have "loc s b \<noteq> Nowhere" by auto
        then show "block_next ?s b = block_next s b" unfolding fl(5) using g(2) by blast
      qed
    qed (use pi in simp)
  qed
qed

text \<open>Steps that change flags, the delayed list or the hands of other threads.\<close>

lemma fc_invD:
  assumes "fc_inv c s"
  shows "pool (block_next s) (dlist c s) {b. loc s b = In_delayed}" "owner_inv s" "hands_inv s" "reset_inv c s" "signal_inv c s"
    "\<And>b. loc s b \<noteq> Nowhere \<Longrightarrow> pg c b \<in> own_pages c"
  using assms by (simp_all add: fc_inv_def)

lemma tf_conc [simp]:
  fixes s :: free_conc
  shows "opc (set_tf p f s) = opc s" "fpc (set_tf p f s) = fpc s" "loc (set_tf p f s) = loc s"
    "dlist c (set_tf p f s) = dlist c s" "block_next (set_tf p f s) = block_next s" "heap_at (set_tf p f s) = heap_at s"
    "page_at (set_tf p f s) = (page_at s)(p := (page_at s p)\<lparr>xthread_free := f (xthread_free (page_at s p))\<rparr>)"
  by (simp_all add: set_tf_def)

lemma dlist_conc [simp]:
  fixes s :: free_conc
  shows "opc (set_dlist c b s) = opc s" "fpc (set_dlist c b s) = fpc s" "loc (set_dlist c b s) = loc s"
    "dlist c (set_dlist c b s) = b" "block_next (set_dlist c b s) = block_next s" "page_at (set_dlist c b s) = page_at s"
    "opc (push_dlist c b s) = opc s" "fpc (push_dlist c b s) = fpc s" "loc (push_dlist c b s) = loc s"
    "dlist c (push_dlist c b s) = b" "block_next (push_dlist c b s) = (block_next s)(b := dlist c s)"
    "page_at (push_dlist c b s) = page_at s"
  by (simp_all add: set_dlist_def push_dlist_def upd_heap_def dlist_def)

lemma flag_page_at: "page_at s' = page_at s \<Longrightarrow> flag s' p = flag s p"
  by (simp add: flag_def)

lemma try_use_cases:
  fixes s :: free_conc
  assumes "mi_page_try_use_delayed_free p d False s = Some (ok, s1)"
  shows "(\<not> ok \<and> flag s p = MI_DELAYED_FREEING \<and> s1 = s) \<or>
    (ok \<and> flag s p \<noteq> MI_DELAYED_FREEING \<and> (d = flag s p \<or> flag s p = MI_NEVER_DELAYED_FREE) \<and> s1 = s) \<or>
    (ok \<and> flag s p \<noteq> MI_DELAYED_FREEING \<and> s1 = set_tf p (\<lambda>w. mi_tf_set_delayed w d) s)"
  using assms unfolding try_use_delayed_steady by (auto simp: flag_def set_tf_def upd_page_def Let_def split: if_splits)

lemma pages_keep:
  assumes inv: "fc_inv c s" and q: "q \<in> own_pages c"
    and w: "page_at s' q = page_at s q \<or> (\<exists>d. page_at s' q = (page_at s q)\<lparr>xthread_free := mi_tf_set_delayed (xthread_free (page_at s q)) d\<rparr>)"
    and l: "\<And>b. loc s' b = loc s b \<or> outside (loc s b) \<and> outside (loc s' b)"
    and n: "\<And>b. \<not> outside (loc s b) \<Longrightarrow> block_next s' b = block_next s b"
  shows "page_inv c s' q"
proof -
  obtain w' where "page_at s' q = (page_at s q)\<lparr>xthread_free := w'\<rparr>" "mi_tf_block w' = mi_tf_block (xthread_free (page_at s q))"
    using w by (metis mi_page.surjective mi_page.update_convs(15) tf_set(1))
  then show ?thesis
    by (rule page_inv_keep [OF own_page [OF inv q]]) (use l n in \<open>auto simp: outside_def\<close>)
qed

lemma hands_keep:
  assumes "hands_inv s" "fpc s' = fpc s" "\<And>t b. loc s' b = In_hand t \<longleftrightarrow> loc s b = In_hand t"
  shows "hands_inv s'"
  using assms unfolding hands_inv_def by simp

lemma pending_flag: "reset_inv c s \<Longrightarrow> fpc s t = F_delayed d \<or> fpc s t = F_reset d \<Longrightarrow> flag s (pg c d) = MI_DELAYED_FREEING"
  unfolding reset_inv_def by blast

lemma pending_place: "reset_inv c s \<Longrightarrow> fpc s t = F_reset d \<Longrightarrow> loc s d = In_delayed \<or> loc s d = In_taken"
  unfolding reset_inv_def by blast

lemma reset_keep:
  assumes inv: "reset_inv c s" and "fpc s' = fpc s"
    and "\<And>t b. fpc s t = F_reset b \<Longrightarrow> loc s' b = In_delayed \<or> loc s' b = In_taken"
    and fl: "\<And>q. flag s' q = MI_DELAYED_FREEING \<longleftrightarrow> flag s q = MI_DELAYED_FREEING"
  shows "reset_inv c s'"
  using inv assms(3) unfolding reset_inv_def assms(2) fl by blast

lemma step_never:
  assumes inv: "fc_inv c s" and o: "opc s = O_idle" and p: "p \<in> own_pages c"
    and r: "mi_page_try_use_delayed_free p MI_NEVER_DELAYED_FREE False s = Some (True, s1)"
  shows "fc_inv c s1"
proof (cases "s1 = s")
  case True then show ?thesis using inv by simp
next
  case False
  then have s1: "s1 = set_tf p (\<lambda>w. mi_tf_set_delayed w MI_NEVER_DELAYED_FREE) s" and f: "flag s p \<noteq> MI_DELAYED_FREEING"
    using try_use_cases [OF r] by auto
  have fl: "flag s1 q = (if q = p then MI_NEVER_DELAYED_FREE else flag s q)" for q by (simp add: s1 flag_def)
  have sm: "opc s1 = opc s" "fpc s1 = fpc s" "loc s1 = loc s" "dlist c s1 = dlist c s" "block_next s1 = block_next s"
    by (simp_all add: s1)
  have "page_inv c s1 q" if "q \<in> own_pages c" for q
    by (rule pages_keep [OF inv that]) (auto simp: s1)
  moreover have "reset_inv c s1"
    by (rule reset_keep [OF fc_invD(4) [OF inv] sm(2)]) (use pending_place [OF fc_invD(4) [OF inv]] f in \<open>auto simp: sm fl\<close>)
  moreover have "signal_inv c s1"
    using fc_invD(5) [OF inv] unfolding signal_inv_def signalled_def on_page_def sm fl by auto
  ultimately show ?thesis
    using fc_invD [OF inv] unfolding fc_inv_def owner_inv_def hands_inv_def sm by blast
qed

lemma step_take:
  assumes inv: "fc_inv c s" and o: "opc s = O_idle"
  shows "fc_inv c ((set_dlist c 0 s)\<lparr>opc := O_loop (dlist c s),
       loc := (\<lambda>b. if loc s b = In_delayed then In_taken else loc s b)\<rparr>)" (is "fc_inv c ?s")
proof -
  obtain s' where s': "s' = ?s" by simp
  have sm: "opc s' = O_loop (dlist c s)" "fpc s' = fpc s" "dlist c s' = 0" "block_next s' = block_next s" "page_at s' = page_at s"
    "loc s' b = (if loc s b = In_delayed then In_taken else loc s b)" for b
    unfolding s' by (simp_all add: set_dlist_def upd_heap_def dlist_def)
  have fl: "flag s' q = flag s q" for q by (rule flag_page_at) (rule sm)
  have no: "loc s b \<noteq> In_taken" "loc s b \<noteq> In_owner" for b using fc_invD(2) [OF inv] o by (auto simp: owner_inv_def)
  have "page_inv c s' q" if "q \<in> own_pages c" for q
    by (rule pages_keep [OF inv that]) (auto simp: sm outside_def)
  moreover have "{b. loc s' b = In_delayed} = {}" "{b. loc s' b = In_taken} = {b. loc s b = In_delayed}" using no by (auto simp: sm)
  moreover have "owner_inv s'"
    using calculation(3) fc_invD(1) [OF inv] no unfolding owner_inv_def sm(1,4) by (simp add: sm(6))
  moreover have "hands_inv s'" by (rule hands_keep [OF fc_invD(3) [OF inv] sm(2)]) (simp add: sm(6))
  moreover have "reset_inv c s'"
    by (rule reset_keep [OF fc_invD(4) [OF inv] sm(2)]) (use pending_place [OF fc_invD(4) [OF inv]] in \<open>auto simp: sm(6) fl\<close>)
  moreover have "signal_inv c s'"
  proof -
    have "signalled c s q \<longrightarrow> signalled c s' q" for q unfolding signalled_def sm(6) by metis
    moreover have "on_page c s' q In_thread = on_page c s q In_thread" for q unfolding on_page_def sm(6) by auto
    ultimately show ?thesis using fc_invD(5) [OF inv] o unfolding signal_inv_def fl by auto
  qed
  moreover have "pg c b \<in> own_pages c" if "loc s' b \<noteq> Nowhere" for b
    using that fc_invD(6) [OF inv] by (auto simp: sm(6) split: if_splits)
  ultimately have "fc_inv c s'" unfolding fc_inv_def by (simp add: sm(3))
  then show ?thesis unfolding s' .
qed

lemma step_flagged:
  assumes inv: "fc_inv c s" and o: "opc s = O_loop b" and b: "b \<noteq> 0"
    and r: "mi_page_try_use_delayed_free (pg c b) MI_USE_DELAYED_FREE False s = Some (True, s1)"
  shows "fc_inv c ((put b In_owner s1)\<lparr>opc := O_flagged b (block_next s b)\<rparr>)" (is "fc_inv c ?s")
proof -
  obtain s' where s': "s' = ?s" by simp
  have f: "flag s (pg c b) \<noteq> MI_DELAYED_FREEING" and
    s1: "s1 = s \<and> (flag s (pg c b) = MI_USE_DELAYED_FREE \<or> flag s (pg c b) = MI_NEVER_DELAYED_FREE) \<or>
      s1 = set_tf (pg c b) (\<lambda>w. mi_tf_set_delayed w MI_USE_DELAYED_FREE) s"
    using try_use_cases [OF r] by auto
  have sm: "opc s' = O_flagged b (block_next s b)" "fpc s' = fpc s" "dlist c s' = dlist c s" "block_next s' = block_next s"
    "loc s' = (loc s)(b := In_owner)"
    using s1 unfolding s' by (auto simp: put_def dlist_def)
  have pa: "page_at s' q = page_at s q \<or> (\<exists>d. page_at s' q = (page_at s q)\<lparr>xthread_free := mi_tf_set_delayed (xthread_free (page_at s q)) d\<rparr>)" for q
    using s1 unfolding s' by (cases "q = pg c b") force+
  have fl: "flag s' (pg c b) = MI_USE_DELAYED_FREE \<or> flag s' (pg c b) = MI_NEVER_DELAYED_FREE" "q \<noteq> pg c b \<Longrightarrow> flag s' q = flag s q" for q
    using s1 unfolding s' by (auto simp: flag_def put_def)
  have ow: "pool (block_next s) b {d. loc s d = In_taken}" "\<And>d. loc s d \<noteq> In_owner" using fc_invD(2) [OF inv] o by (auto simp: owner_inv_def)
  note pop = pool_pop [OF ow(1) b]
  have bl: "loc s b = In_taken" using pop(2) by simp
  have "page_inv c s' q" if "q \<in> own_pages c" for q
    by (rule pages_keep [OF inv that pa]) (auto simp: sm outside_def bl)
  moreover have "owner_inv s'"
  proof -
    have "{d. loc s' d = In_taken} = {d. loc s d = In_taken} - {b}" by (auto simp: sm)
    then show ?thesis using pop(1) ow(2) unfolding owner_inv_def sm(1,4) by (auto simp: sm(5))
  qed
  moreover have "hands_inv s'" by (rule hands_keep [OF fc_invD(3) [OF inv] sm(2)]) (auto simp: sm(5) bl)
  moreover have "reset_inv c s'"
  proof (rule reset_keep [OF fc_invD(4) [OF inv] sm(2)])
    fix t d assume "fpc s t = F_reset d"
    then have "d \<noteq> b" "loc s d = In_delayed \<or> loc s d = In_taken"
      using pending_flag [OF fc_invD(4) [OF inv], of t d] pending_place [OF fc_invD(4) [OF inv], of t d] f by auto
    then show "loc s' d = In_delayed \<or> loc s' d = In_taken" by (simp add: sm(5))
  next
    fix q show "flag s' q = MI_DELAYED_FREEING \<longleftrightarrow> flag s q = MI_DELAYED_FREEING"
      using fl f by (cases "q = pg c b") auto
  qed
  moreover have "signal_inv c s'"
    unfolding signal_inv_def
  proof (intro ballI conjI impI)
    fix q assume q: "q \<in> own_pages c"
    have sg: "signalled c s q \<longrightarrow> signalled c s' q" if "q \<noteq> pg c b"
      using that unfolding signalled_def sm(5) by (metis fun_upd_other)
    have th: "on_page c s' q In_thread = on_page c s q In_thread" using bl by (auto simp: on_page_def sm(5))
    { assume "flag s' q = MI_NO_DELAYED_FREE"
      then show "signalled c s' q" using fl sg fc_invD(5) [OF inv] q unfolding signal_inv_def
        by (metis mi_delayed.distinct(11,3))
    next
      assume "on_page c s' q In_thread \<noteq> {}"
      then show "signalled c s' q \<or> flag s' q = MI_DELAYED_FREEING \<or> flag s' q = MI_NEVER_DELAYED_FREE \<or>
          (\<exists>b n. opc s' = O_flagged b n \<and> pg c b = q)"
        using fl(2) sg fc_invD(5) [OF inv] q o unfolding signal_inv_def th sm(1) by (cases "q = pg c b") auto }
  qed
  moreover have "pool (block_next s') (dlist c s') {d. loc s' d = In_delayed}"
  proof -
    have "{d. loc s' d = In_delayed} = {d. loc s d = In_delayed}" using bl by (auto simp: sm(5))
    then show ?thesis using fc_invD(1) [OF inv] by (simp add: sm)
  qed
  moreover have "pg c d \<in> own_pages c" if "loc s' d \<noteq> Nowhere" for d
    using that fc_invD(6) [OF inv] bl by (cases "d = b") (auto simp: sm(5))
  ultimately have "fc_inv c s'" unfolding fc_inv_def by blast
  then show ?thesis unfolding s' .
qed

lemma signal_keep:
  assumes inv: "signal_inv c s" and fl: "\<And>q. flag s' q = flag s q"
    and sg: "\<And>q. signalled c s q \<Longrightarrow> signalled c s' q"
    and th: "\<And>q. on_page c s' q In_thread \<subseteq> on_page c s q In_thread"
    and o: "\<And>q. on_page c s' q In_thread \<noteq> {} \<Longrightarrow> \<exists>b n. opc s = O_flagged b n \<and> pg c b = q \<Longrightarrow>
      \<exists>b n. opc s' = O_flagged b n \<and> pg c b = q"
  shows "signal_inv c s'"
  unfolding signal_inv_def fl
proof (intro ballI conjI impI)
  fix q assume q: "q \<in> own_pages c"
  { assume "flag s q = MI_NO_DELAYED_FREE"
    then show "signalled c s' q" using inv q sg unfolding signal_inv_def by blast
  next
    assume t: "on_page c s' q In_thread \<noteq> {}"
    then have "on_page c s q In_thread \<noteq> {}" using th by blast
    then show "signalled c s' q \<or> flag s q = MI_DELAYED_FREEING \<or> flag s q = MI_NEVER_DELAYED_FREE \<or>
        (\<exists>b n. opc s' = O_flagged b n \<and> pg c b = q)"
      using inv q sg o [OF t] unfolding signal_inv_def by blast }
qed

lemma pool_loc: "(\<And>b. loc s b = k \<Longrightarrow> nx b = block_next s b) \<Longrightarrow> pool (block_next s) h {b. loc s b = k} \<Longrightarrow>
  (\<And>b. loc' b = k \<longleftrightarrow> loc s b = k) \<Longrightarrow> pool nx h {b. loc' b = k}"
  using pool_cong [of "{b. loc s b = k}" nx "block_next s" h] by simp

lemma step_again:
  assumes inv: "fc_inv c s" and o: "opc s = O_loop b" and b: "b \<noteq> 0"
    and r: "mi_page_try_use_delayed_free (pg c b) MI_USE_DELAYED_FREE False s = Some (False, s1)"
  shows "fc_inv c ((put b In_delayed (push_dlist c b s1))\<lparr>opc := O_loop (block_next s b)\<rparr>)" (is "fc_inv c ?s")
proof -
  obtain s' where s': "s' = ?s" by simp
  have s1: "s1 = s" using try_use_cases [OF r] by auto
  have sm: "opc s' = O_loop (block_next s b)" "fpc s' = fpc s" "dlist c s' = b" "block_next s' = (block_next s)(b := dlist c s)"
    "loc s' = (loc s)(b := In_delayed)" "page_at s' = page_at s"
    unfolding s' s1 by (simp_all add: put_def dlist_def push_dlist_def set_dlist_def upd_heap_def mi_block_set_next_def)
  have fl: "flag s' q = flag s q" for q by (rule flag_page_at) (rule sm)
  have ow: "pool (block_next s) b {d. loc s d = In_taken}" "\<And>d. loc s d \<noteq> In_owner" using fc_invD(2) [OF inv] o by (auto simp: owner_inv_def)
  note pop = pool_pop [OF ow(1) b]
  have bl: "loc s b = In_taken" using pop(2) by simp
  have "page_inv c s' q" if "q \<in> own_pages c" for q
    by (rule pages_keep [OF inv that]) (auto simp: sm outside_def bl)
  moreover have "owner_inv s'"
  proof -
    have "{d. loc s' d = In_taken} = {d. loc s d = In_taken} - {b}" by (auto simp: sm)
    then have "pool (block_next s') (block_next s b) {d. loc s' d = In_taken}"
      using pool_cong [OF _ pop(1), of "block_next s'"] by (simp add: sm(4))
    then show ?thesis using ow(2) unfolding owner_inv_def sm(1) by (auto simp: sm(5))
  qed
  moreover have "hands_inv s'" by (rule hands_keep [OF fc_invD(3) [OF inv] sm(2)]) (auto simp: sm(5) bl)
  moreover have "reset_inv c s'"
    by (rule reset_keep [OF fc_invD(4) [OF inv] sm(2)]) (use pending_place [OF fc_invD(4) [OF inv]] in \<open>auto simp: sm(5) fl\<close>)
  moreover have "signal_inv c s'"
  proof (rule signal_keep [OF fc_invD(5) [OF inv] fl])
    fix q assume "signalled c s q"
    then show "signalled c s' q" unfolding signalled_def sm(5) by auto
  next
    fix q show "on_page c s' q In_thread \<subseteq> on_page c s q In_thread" by (auto simp: on_page_def sm(5))
  qed (simp add: o)
  moreover have "pool (block_next s') (dlist c s') {d. loc s' d = In_delayed}"
  proof -
    have "{d. loc s' d = In_delayed} = insert b {d. loc s d = In_delayed}" by (auto simp: sm(5))
    then show ?thesis using pool_push [OF fc_invD(1) [OF inv] _ b] bl by (simp add: sm)
  qed
  moreover have "pg c d \<in> own_pages c" if "loc s' d \<noteq> Nowhere" for d
    using that fc_invD(6) [OF inv] bl by (cases "d = b") (auto simp: sm(5))
  ultimately have "fc_inv c s'" unfolding fc_inv_def by blast
  then show ?thesis unfolding s' .
qed

lemma step_flagged_collect:
  assumes inv: "fc_inv c s" and o: "opc s = O_flagged b n" and r: "mi_page_free_collect (pg c b) False s = Some s1"
  shows "fc_inv c (s1\<lparr>opc := O_collected b n, loc := collected_loc c (pg c b) False s\<rparr>)" (is "fc_inv c ?s")
proof -
  obtain s' where s': "s' = ?s" by simp
  have ow: "pool (block_next s) n {d. loc s d = In_taken}" "\<And>d. loc s d = In_owner \<longleftrightarrow> d = b"
    using fc_invD(2) [OF inv] o by (auto simp: owner_inv_def)
  have p: "pg c b \<in> own_pages c" using fc_invD(6) [OF inv, of b] ow(2) [of b] by simp
  have e: "page_at s' = page_at s1" "block_next s' = block_next s1" "loc s' = collected_loc c (pg c b) False s"
    unfolding s' by simp_all
  note f = collect_pages [OF inv p r e]
  have sm: "opc s' = O_collected b n" "fpc s' = fpc s" "dlist c s' = dlist c s"
    using f(3,5) unfolding s' by (simp_all add: dlist_def)
  have fl: "flag s' q = flag s q" for q using f(2) [of q] unfolding s' by (simp add: flag_def)
  have k: "special In_delayed" "special In_taken" "special In_owner" "special (In_hand t)" for t by (simp_all add: special_def)
  have nx: "special (loc s d) \<Longrightarrow> block_next s' d = block_next s d" for d using f(6) e(2) by simp
  have "owner_inv s'"
    unfolding owner_inv_def sm(1) owner_pc.case f(8) [OF k(3)]
    using pool_loc [OF _ ow(1) f(8) [OF k(2)], of "block_next s'"] nx k ow(2) by simp
  moreover have "hands_inv s'" by (rule hands_keep [OF fc_invD(3) [OF inv] sm(2) f(8) [OF k(4)]])
  moreover have "reset_inv c s'"
    by (rule reset_keep [OF fc_invD(4) [OF inv] sm(2)])
       (use pending_place [OF fc_invD(4) [OF inv]] f(8) [OF k(1)] f(8) [OF k(2)] in \<open>auto simp: fl\<close>)
  moreover have "signal_inv c s'"
  proof (rule signal_keep [OF fc_invD(5) [OF inv] fl])
    fix q assume "signalled c s q"
    then show "signalled c s' q" unfolding signalled_def f(8) [OF k(1)] f(8) [OF k(2)] .
  next
    fix q show "on_page c s' q In_thread \<subseteq> on_page c s q In_thread" using f(10) by (auto simp: on_page_def)
  next
    fix q assume "on_page c s' q In_thread \<noteq> {}" "\<exists>b n. opc s = O_flagged b n \<and> pg c b = q"
    then show "\<exists>b n. opc s' = O_flagged b n \<and> pg c b = q" using f(9) o by simp
  qed
  moreover have "pool (block_next s') (dlist c s') {d. loc s' d = In_delayed}"
    unfolding sm(3) using pool_loc [OF _ fc_invD(1) [OF inv] f(8) [OF k(1)], of "block_next s'"] nx k by simp
  ultimately have "fc_inv c s'" unfolding fc_inv_def using f(1,7) fc_invD(6) [OF inv] by blast
  then show ?thesis unfolding s' .
qed

lemma step_delayed_free:
  assumes inv: "fc_inv c s" and o: "opc s = O_collected b n"
  shows "fc_inv c ((put b In_local (mi_free_block_push (pg c b) b s))\<lparr>opc := O_loop n\<rparr>)" (is "fc_inv c ?s")
proof -
  obtain s' where s': "s' = ?s" by simp
  have ow: "pool (block_next s) n {d. loc s d = In_taken}" "\<And>d. loc s d = In_owner \<longleftrightarrow> d = b"
    using fc_invD(2) [OF inv] o by (auto simp: owner_inv_def)
  have bl: "loc s b = In_owner" using ow(2) by simp
  let ?t = "put b In_local (mi_free_block_push (pg c b) b s)"
  have sm: "opc s' = O_loop n" "fpc s' = fpc s" "dlist c s' = dlist c s" "loc s' = (loc s)(b := In_local)"
    "page_at s' = page_at ?t" "block_next s' = (block_next s)(b := local_free (page_at s (pg c b)))"
    unfolding s' by (simp_all add: push_fields dlist_def put_def) (simp_all add: mi_free_block_push_def mi_block_set_next_def upd_page_def Let_def)
  have fl: "flag s' q = flag s q" for q unfolding flag_def sm(5) by (simp add: push_fields)
  have "page_inv c s' q" if "q \<in> own_pages c" for q
    by (rule page_inv_same [OF push_pages [OF inv _ that, of b]]) (use bl in \<open>simp_all add: sm outside_def push_fields\<close>)
  moreover have "owner_inv s'"
  proof -
    have "pool (block_next s') n {d. loc s' d = In_taken}"
      by (rule pool_loc [OF _ ow(1)]) (use bl in \<open>auto simp: sm(4,6)\<close>)
    moreover have "loc s' d \<noteq> In_owner" for d using ow(2) [of d] by (cases "d = b") (simp_all add: sm(4))
    ultimately show ?thesis unfolding owner_inv_def sm(1) owner_pc.case by blast
  qed
  moreover have "hands_inv s'" by (rule hands_keep [OF fc_invD(3) [OF inv] sm(2)]) (auto simp: sm(4) bl)
  moreover have "reset_inv c s'"
    by (rule reset_keep [OF fc_invD(4) [OF inv] sm(2)]) (use pending_place [OF fc_invD(4) [OF inv]] bl in \<open>force simp: sm(4) fl\<close>)+
  moreover have "signal_inv c s'"
  proof (rule signal_keep [OF fc_invD(5) [OF inv] fl])
    fix q assume "signalled c s q"
    then show "signalled c s' q" unfolding signalled_def sm(4) using bl by (metis fun_upd_apply place.distinct)
  next
    fix q show "on_page c s' q In_thread \<subseteq> on_page c s q In_thread" by (auto simp: on_page_def sm(4))
  qed (simp add: o)
  moreover have "pool (block_next s') (dlist c s') {d. loc s' d = In_delayed}"
    unfolding sm(3) by (rule pool_loc [OF _ fc_invD(1) [OF inv]]) (use bl in \<open>auto simp: sm(4,6)\<close>)
  moreover have "pg c d \<in> own_pages c" if "loc s' d \<noteq> Nowhere" for d
    using that fc_invD(6) [OF inv] bl by (cases "d = b") (auto simp: sm(4))
  ultimately have "fc_inv c s'" unfolding fc_inv_def by blast
  then show ?thesis unfolding s' .
qed

lemma step_all_done:
  assumes inv: "fc_inv c s" and o: "opc s = O_loop 0"
  shows "fc_inv c (s\<lparr>opc := O_idle\<rparr>)" (is "fc_inv c ?s")
proof -
  have ow: "loc s b \<noteq> In_taken" "loc s b \<noteq> In_owner" for b
    using fc_invD(2) [OF inv] o by (auto simp: owner_inv_def pool_null)
  have "page_inv c ?s q" if "q \<in> own_pages c" for q by (rule page_inv_same [OF own_page [OF inv that]]) auto
  moreover have "signal_inv c ?s"
    by (rule signal_keep [OF fc_invD(5) [OF inv]]) (use o in \<open>auto simp: flag_def signalled_def on_page_def\<close>)
  ultimately show ?thesis
    using fc_invD [OF inv] ow unfolding fc_inv_def
    by (auto simp: owner_inv_def hands_inv_def reset_inv_def dlist_def flag_def)
qed

lemma hands_live: "hands_inv s \<Longrightarrow> fpc s t = F_free b \<or> fpc s t = F_delayed b \<Longrightarrow> loc s b = In_hand t"
  unfolding hands_inv_def by blast

lemma hands_iff: "hands_inv s \<Longrightarrow> loc s b = In_hand t \<longleftrightarrow> fpc s t = F_free b \<or> fpc s t = F_delayed b"
  unfolding hands_inv_def by blast

text \<open>A freeing thread that is not past its compare-and-swap plays no part in the resets.\<close>

lemma reset_move:
  assumes inv: "reset_inv c s" and f: "fpc s' = (fpc s)(t := k)"
    and t: "\<And>b. fpc s t \<noteq> F_delayed b" "\<And>b. fpc s t \<noteq> F_reset b" and k: "\<And>b. k \<noteq> F_delayed b" "\<And>b. k \<noteq> F_reset b"
    and l: "\<And>t b. fpc s t = F_reset b \<Longrightarrow> loc s' b = In_delayed \<or> loc s' b = In_taken"
    and fl: "\<And>q. flag s' q = flag s q"
  shows "reset_inv c s'"
proof -
  have e: "fpc s' u = F_delayed b \<longleftrightarrow> fpc s u = F_delayed b" "fpc s' u = F_reset b \<longleftrightarrow> fpc s u = F_reset b" for u b
    using t k by (auto simp: f)
  show ?thesis using inv l unfolding reset_inv_def e fl by blast
qed

lemma owner_keep:
  assumes "owner_inv s" "opc s' = opc s" "\<And>b. loc s b = In_taken \<Longrightarrow> block_next s' b = block_next s b"
    "\<And>b. loc s' b = In_taken \<longleftrightarrow> loc s b = In_taken" "\<And>b. loc s' b = In_owner \<longleftrightarrow> loc s b = In_owner"
  shows "owner_inv s'"
proof -
  have "pool (block_next s) h {b. loc s b = In_taken} \<Longrightarrow> pool (block_next s') h {b. loc s' b = In_taken}" for h
    by (rule pool_loc) (use assms(3,4) in simp_all)
  then show ?thesis using assms(1) unfolding owner_inv_def assms(2,4,5) by (cases "opc s") simp_all
qed

lemma step_f_start:
  assumes inv: "fc_inv c s" and f: "fpc s t = F_idle" and b: "loc s b = Live"
  shows "fc_inv c ((put b (In_hand t) s)\<lparr>fpc := (fpc s)(t := F_free b)\<rparr>)" (is "fc_inv c ?s")
proof -
  obtain s' where s': "s' = ?s" by simp
  have sm: "opc s' = opc s" "fpc s' = (fpc s)(t := F_free b)" "dlist c s' = dlist c s" "block_next s' = block_next s"
    "loc s' = (loc s)(b := In_hand t)" "page_at s' = page_at s"
    unfolding s' by (simp_all add: put_def dlist_def)
  have fl: "flag s' q = flag s q" for q by (rule flag_page_at) (rule sm)
  have "page_inv c s' q" if "q \<in> own_pages c" for q
    by (rule pages_keep [OF inv that]) (auto simp: sm outside_def b)
  moreover have "owner_inv s'" by (rule owner_keep [OF fc_invD(2) [OF inv] sm(1)]) (auto simp: sm(4,5) b)
  moreover have "hands_inv s'"
    unfolding hands_inv_def
  proof (intro allI)
    fix u d show "loc s' d = In_hand u \<longleftrightarrow> fpc s' u = F_free d \<or> fpc s' u = F_delayed d"
      using hands_iff [OF fc_invD(3) [OF inv], where t = u and b = d] hands_iff [OF fc_invD(3) [OF inv], where t = t and b = d] f b
      unfolding sm(2,5) by (cases "u = t"; cases "d = b") auto
  qed
  moreover have "reset_inv c s'"
  proof (rule reset_move [OF fc_invD(4) [OF inv] sm(2)])
    fix u d assume "fpc s u = F_reset d"
    then have "loc s d = In_delayed \<or> loc s d = In_taken" by (rule pending_place [OF fc_invD(4) [OF inv]])
    then show "loc s' d = In_delayed \<or> loc s' d = In_taken" using b by (cases "d = b") (auto simp: sm(5))
  qed (simp_all add: f fl)
  moreover have "signal_inv c s'"
  proof (rule signal_keep [OF fc_invD(5) [OF inv] fl])
    fix q assume "signalled c s q"
    then show "signalled c s' q" unfolding signalled_def sm(5) using b by (metis fun_upd_apply place.distinct)
  next
    fix q show "on_page c s' q In_thread \<subseteq> on_page c s q In_thread" by (auto simp: on_page_def sm(5))
  qed (simp add: sm)
  moreover have "pool (block_next s') (dlist c s') {d. loc s' d = In_delayed}"
    unfolding sm(3) by (rule pool_loc [OF _ fc_invD(1) [OF inv]]) (use b in \<open>auto simp: sm(4,5)\<close>)
  moreover have "pg c d \<in> own_pages c" if "loc s' d \<noteq> Nowhere" for d
    using that fc_invD(6) [OF inv] b by (cases "d = b") (auto simp: sm(5))
  ultimately have "fc_inv c s'" unfolding fc_inv_def by blast
  then show ?thesis unfolding s' .
qed

lemma step_f_push:
  assumes inv: "fc_inv c s" and f: "fpc s t = F_free b" and fl0: "flag s (pg c b) \<noteq> MI_USE_DELAYED_FREE"
  shows "fc_inv c ((put b In_thread (set_tf (pg c b) (\<lambda>w. mi_tf_set_block w b)
       (mi_block_set_next b (mi_page_thread_free (page_at s (pg c b))) s)))\<lparr>fpc := (fpc s)(t := F_idle)\<rparr>)" (is "fc_inv c ?s")
proof -
  obtain s' where s': "s' = ?s" by simp
  let ?p = "pg c b"
  have b: "loc s b = In_hand t" using hands_live [OF fc_invD(3) [OF inv]] f by blast
  then have nn: "loc s b \<noteq> Nowhere" by simp
  note blk = fc_block [OF inv nn]
  have sm: "opc s' = opc s" "fpc s' = (fpc s)(t := F_idle)" "dlist c s' = dlist c s"
    "block_next s' = (block_next s)(b := mi_tf_block (xthread_free (page_at s ?p)))"
    "loc s' = (loc s)(b := In_thread)"
    "page_at s' = (page_at s)(?p := (page_at s ?p)\<lparr>xthread_free := mi_tf_set_block (xthread_free (page_at s ?p)) b\<rparr>)"
    unfolding s' by (simp_all add: put_def dlist_def set_tf_def mi_page_thread_free_block upd_page_def mi_block_set_next_def)
  have fl: "flag s' q = flag s q" for q using blk(2) by (simp add: flag_def sm(6))
  have "page_inv c s' q" if "q \<in> own_pages c" for q
  proof (cases "q = ?p")
    case True
    have "page_inv c s' ?p" by (rule page_inv_push [OF blk(4) refl]) (simp_all add: b outside_def sm)
    then show ?thesis by (simp add: True)
  next
    case False
    show ?thesis by (rule page_inv_same [OF own_page [OF inv that]]) (use False b in \<open>auto simp: sm\<close>)
  qed
  moreover have "owner_inv s'" by (rule owner_keep [OF fc_invD(2) [OF inv] sm(1)]) (auto simp: sm(4,5) b)
  moreover have "hands_inv s'"
    unfolding hands_inv_def
  proof (intro allI)
    fix u d show "loc s' d = In_hand u \<longleftrightarrow> fpc s' u = F_free d \<or> fpc s' u = F_delayed d"
      using hands_iff [OF fc_invD(3) [OF inv], where t = u and b = d] hands_iff [OF fc_invD(3) [OF inv], where t = t and b = d] f b
      unfolding sm(2,5) by (cases "u = t"; cases "d = b") auto
  qed
  moreover have "reset_inv c s'"
  proof (rule reset_move [OF fc_invD(4) [OF inv] sm(2)])
    fix u d assume "fpc s u = F_reset d"
    then have "loc s d = In_delayed \<or> loc s d = In_taken" by (rule pending_place [OF fc_invD(4) [OF inv]])
    then show "loc s' d = In_delayed \<or> loc s' d = In_taken" using b by (cases "d = b") (auto simp: sm(5))
  qed (simp_all add: f fl)
  moreover have "signal_inv c s'"
    unfolding signal_inv_def
  proof (intro ballI conjI impI)
    fix q assume q: "q \<in> own_pages c"
    have sg: "signalled c s q \<Longrightarrow> signalled c s' q"
      unfolding signalled_def sm(5) using b by (metis fun_upd_apply place.distinct)
    { assume "flag s' q = MI_NO_DELAYED_FREE"
      then show "signalled c s' q" using fl sg fc_invD(5) [OF inv] q unfolding signal_inv_def by metis
    next
      assume t: "on_page c s' q In_thread \<noteq> {}"
      show "signalled c s' q \<or> flag s' q = MI_DELAYED_FREEING \<or> flag s' q = MI_NEVER_DELAYED_FREE \<or>
          (\<exists>b n. opc s' = O_flagged b n \<and> pg c b = q)"
      proof (cases "q = ?p")
        case True
        then show ?thesis using fl0 fl sg fc_invD(5) [OF inv] q unfolding signal_inv_def by (cases "flag s q") auto
      next
        case False
        then have "on_page c s q In_thread \<noteq> {}" using t by (auto simp: on_page_def sm(5) split: if_splits)
        then show ?thesis using sg fc_invD(5) [OF inv] q unfolding signal_inv_def fl sm(1) by blast
      qed }
  qed
  moreover have "pool (block_next s') (dlist c s') {d. loc s' d = In_delayed}"
    unfolding sm(3) by (rule pool_loc [OF _ fc_invD(1) [OF inv]]) (use b in \<open>auto simp: sm(4,5)\<close>)
  moreover have "pg c d \<in> own_pages c" if "loc s' d \<noteq> Nowhere" for d
    using that fc_invD(6) [OF inv] blk(1) by (cases "d = b") (auto simp: sm(5))
  ultimately have "fc_inv c s'" unfolding fc_inv_def by blast
  then show ?thesis unfolding s' .
qed

lemma step_f_mark:
  assumes inv: "fc_inv c s" and f: "fpc s t = F_free b" and fl0: "flag s (pg c b) = MI_USE_DELAYED_FREE"
  shows "fc_inv c ((set_tf (pg c b) (\<lambda>w. mi_tf_set_delayed w MI_DELAYED_FREEING) s)\<lparr>fpc := (fpc s)(t := F_delayed b)\<rparr>)" (is "fc_inv c ?s")
proof -
  obtain s' where s': "s' = ?s" by simp
  let ?p = "pg c b"
  have b: "loc s b = In_hand t" using hands_live [OF fc_invD(3) [OF inv]] f by blast
  have sm: "opc s' = opc s" "fpc s' = (fpc s)(t := F_delayed b)" "dlist c s' = dlist c s"
    "block_next s' = block_next s" "loc s' = loc s"
    unfolding s' by (simp_all add: dlist_def set_tf_def)
  have pa: "page_at s' q = page_at s q \<or> (\<exists>d. page_at s' q = (page_at s q)\<lparr>xthread_free := mi_tf_set_delayed (xthread_free (page_at s q)) d\<rparr>)" for q
    unfolding s' by (cases "q = ?p") force+
  have fl: "flag s' q = (if q = ?p then MI_DELAYED_FREEING else flag s q)" for q
    unfolding s' by (simp add: flag_def)
  have np: "fpc s u = F_delayed d \<or> fpc s u = F_reset d \<Longrightarrow> pg c d \<noteq> ?p" for u d
    using pending_flag [OF fc_invD(4) [OF inv], of u d] fl0 by auto
  have pend: "fpc s' u = F_delayed d \<or> fpc s' u = F_reset d \<longleftrightarrow>
     (if u = t then d = b else fpc s u = F_delayed d \<or> fpc s u = F_reset d)" for u d
    unfolding sm(2) by auto
  have "page_inv c s' q" if "q \<in> own_pages c" for q
    by (rule pages_keep [OF inv that pa]) (auto simp: sm)
  moreover have "owner_inv s'" by (rule owner_keep [OF fc_invD(2) [OF inv] sm(1)]) (auto simp: sm(4,5))
  moreover have "hands_inv s'"
    unfolding hands_inv_def
  proof (intro allI)
    fix u d show "loc s' d = In_hand u \<longleftrightarrow> fpc s' u = F_free d \<or> fpc s' u = F_delayed d"
      using hands_iff [OF fc_invD(3) [OF inv], where t = u and b = d] f
      unfolding sm(2,5) by (cases "u = t") auto
  qed
  moreover have "reset_inv c s'"
    unfolding reset_inv_def pend
  proof (intro conjI allI impI ballI)
    fix u d assume "fpc s' u = F_reset d"
    then have "fpc s u = F_reset d" by (auto simp: sm(2) split: if_splits)
    then show "loc s' d = In_delayed \<or> loc s' d = In_taken" unfolding sm(5) by (rule pending_place [OF fc_invD(4) [OF inv]])
  next
    fix u d assume "if u = t then d = b else fpc s u = F_delayed d \<or> fpc s u = F_reset d"
    then show "flag s' (pg c d) = MI_DELAYED_FREEING"
      using pending_flag [OF fc_invD(4) [OF inv], of u d] by (cases "u = t") (auto simp: fl)
  next
    fix u v d e
    assume h: "(if u = t then d = b else fpc s u = F_delayed d \<or> fpc s u = F_reset d) \<and>
       (if v = t then e = b else fpc s v = F_delayed e \<or> fpc s v = F_reset e) \<and> pg c d = pg c e"
    show "u = v"
    proof (cases "u = t \<or> v = t")
      case True
      then show ?thesis using h np [of u d] np [of v e] by (auto split: if_splits)
    next
      case False
      then show ?thesis using h fc_invD(4) [OF inv] unfolding reset_inv_def by simp blast
    qed
  next
    fix q assume q: "q \<in> own_pages c" "flag s' q = MI_DELAYED_FREEING"
    show "\<exists>u d. (if u = t then d = b else fpc s u = F_delayed d \<or> fpc s u = F_reset d) \<and> pg c d = q"
    proof (cases "q = ?p")
      case True
      then show ?thesis by (intro exI [of _ t] exI [of _ b]) simp
    next
      case False
      then have "flag s q = MI_DELAYED_FREEING" using q by (simp add: fl)
      then obtain u d where "fpc s u = F_delayed d \<or> fpc s u = F_reset d" "pg c d = q"
        using q fc_invD(4) [OF inv] unfolding reset_inv_def by blast
      moreover have "u \<noteq> t" using calculation f by auto
      ultimately show ?thesis by (intro exI [of _ u] exI [of _ d]) simp
    qed
  qed
  moreover have "signal_inv c s'"
    using fc_invD(5) [OF inv] unfolding signal_inv_def signalled_def on_page_def sm fl by auto
  moreover have "pool (block_next s') (dlist c s') {d. loc s' d = In_delayed}"
    unfolding sm by (rule fc_invD(1) [OF inv])
  moreover have "pg c d \<in> own_pages c" if "loc s' d \<noteq> Nowhere" for d
    using that fc_invD(6) [OF inv] by (simp add: sm(5))
  ultimately have "fc_inv c s'" unfolding fc_inv_def by blast
  then show ?thesis unfolding s' .
qed

lemma step_f_heap:
  assumes inv: "fc_inv c s" and f: "fpc s t = F_delayed b"
  shows "fc_inv c ((put b In_delayed (push_dlist c b s))\<lparr>fpc := (fpc s)(t := F_reset b)\<rparr>)" (is "fc_inv c ?s")
proof -
  obtain s' where s': "s' = ?s" by simp
  have b: "loc s b = In_hand t" using hands_live [OF fc_invD(3) [OF inv]] f by blast
  then have nn: "loc s b \<noteq> Nowhere" by simp
  note blk = fc_block [OF inv nn]
  have sm: "opc s' = opc s" "fpc s' = (fpc s)(t := F_reset b)" "dlist c s' = b" "block_next s' = (block_next s)(b := dlist c s)"
    "loc s' = (loc s)(b := In_delayed)" "page_at s' = page_at s"
    unfolding s' by (simp_all add: put_def dlist_def push_dlist_def set_dlist_def upd_heap_def mi_block_set_next_def)
  have fl: "flag s' q = flag s q" for q by (rule flag_page_at) (rule sm)
  have pend: "fpc s' u = F_delayed d \<or> fpc s' u = F_reset d \<longleftrightarrow> fpc s u = F_delayed d \<or> fpc s u = F_reset d" for u d
    using f unfolding sm(2) by auto
  have "page_inv c s' q" if "q \<in> own_pages c" for q
    by (rule pages_keep [OF inv that]) (auto simp: sm outside_def b)
  moreover have "owner_inv s'" by (rule owner_keep [OF fc_invD(2) [OF inv] sm(1)]) (auto simp: sm(4,5) b)
  moreover have "hands_inv s'"
    unfolding hands_inv_def
  proof (intro allI)
    fix u d show "loc s' d = In_hand u \<longleftrightarrow> fpc s' u = F_free d \<or> fpc s' u = F_delayed d"
      using hands_iff [OF fc_invD(3) [OF inv], where t = u and b = d]
        hands_iff [OF fc_invD(3) [OF inv], where t = t and b = d] f b
      unfolding sm(2,5) by (cases "u = t"; cases "d = b") auto
  qed
  moreover have "reset_inv c s'"
  proof -
    have "loc s' d = In_delayed \<or> loc s' d = In_taken" if "fpc s' u = F_reset d" for u d
      using that pending_place [OF fc_invD(4) [OF inv], of u d] unfolding sm(2,5) by (auto split: if_splits)
    then show ?thesis using fc_invD(4) [OF inv] unfolding reset_inv_def pend fl by blast
  qed
  moreover have "signal_inv c s'"
  proof (rule signal_keep [OF fc_invD(5) [OF inv] fl])
    fix q assume "signalled c s q"
    then show "signalled c s' q" unfolding signalled_def sm(5) by auto
  next
    fix q show "on_page c s' q In_thread \<subseteq> on_page c s q In_thread" by (auto simp: on_page_def sm(5))
  qed (simp add: sm)
  moreover have "pool (block_next s') (dlist c s') {d. loc s' d = In_delayed}"
  proof -
    have "{d. loc s' d = In_delayed} = insert b {d. loc s d = In_delayed}" by (auto simp: sm(5))
    then show ?thesis using pool_push [OF fc_invD(1) [OF inv] _ blk(3)] b by (simp add: sm)
  qed
  moreover have "pg c d \<in> own_pages c" if "loc s' d \<noteq> Nowhere" for d
    using that fc_invD(6) [OF inv] blk(1) by (cases "d = b") (auto simp: sm(5))
  ultimately have "fc_inv c s'" unfolding fc_inv_def by blast
  then show ?thesis unfolding s' .
qed

lemma step_f_reset:
  assumes inv: "fc_inv c s" and f: "fpc s t = F_reset b"
  shows "fc_inv c ((set_tf (pg c b) (\<lambda>w. mi_tf_set_delayed w MI_NO_DELAYED_FREE) s)\<lparr>fpc := (fpc s)(t := F_idle)\<rparr>)" (is "fc_inv c ?s")
proof -
  obtain s' where s': "s' = ?s" by simp
  let ?p = "pg c b"
  have sg: "signalled c s ?p" using pending_place [OF fc_invD(4) [OF inv] f] unfolding signalled_def by blast
  have uq: "fpc s u = F_delayed d \<or> fpc s u = F_reset d \<Longrightarrow> pg c d = ?p \<Longrightarrow> u = t" for u d
    using fc_invD(4) [OF inv] f unfolding reset_inv_def by blast
  have sm: "opc s' = opc s" "fpc s' = (fpc s)(t := F_idle)" "dlist c s' = dlist c s"
    "block_next s' = block_next s" "loc s' = loc s"
    unfolding s' by (simp_all add: dlist_def set_tf_def)
  have pa: "page_at s' q = page_at s q \<or> (\<exists>d. page_at s' q = (page_at s q)\<lparr>xthread_free := mi_tf_set_delayed (xthread_free (page_at s q)) d\<rparr>)" for q
    unfolding s' by (cases "q = ?p") force+
  have fl: "flag s' q = (if q = ?p then MI_NO_DELAYED_FREE else flag s q)" for q
    unfolding s' by (simp add: flag_def)
  have pend: "fpc s' u = F_delayed d \<or> fpc s' u = F_reset d \<longleftrightarrow> u \<noteq> t \<and> (fpc s u = F_delayed d \<or> fpc s u = F_reset d)" for u d
    unfolding sm(2) by auto
  have "page_inv c s' q" if "q \<in> own_pages c" for q
    by (rule pages_keep [OF inv that pa]) (auto simp: sm)
  moreover have "owner_inv s'" by (rule owner_keep [OF fc_invD(2) [OF inv] sm(1)]) (auto simp: sm(4,5))
  moreover have "hands_inv s'"
    unfolding hands_inv_def
  proof (intro allI)
    fix u d show "loc s' d = In_hand u \<longleftrightarrow> fpc s' u = F_free d \<or> fpc s' u = F_delayed d"
      using hands_iff [OF fc_invD(3) [OF inv], where t = u and b = d] f
      unfolding sm(2,5) by (cases "u = t") auto
  qed
  moreover have "reset_inv c s'"
    unfolding reset_inv_def pend
  proof (intro conjI allI impI ballI)
    fix u d assume "fpc s' u = F_reset d"
    then have "fpc s u = F_reset d" by (auto simp: sm(2) split: if_splits)
    then show "loc s' d = In_delayed \<or> loc s' d = In_taken" unfolding sm(5) by (rule pending_place [OF fc_invD(4) [OF inv]])
  next
    fix u d assume h: "u \<noteq> t \<and> (fpc s u = F_delayed d \<or> fpc s u = F_reset d)"
    then have "pg c d \<noteq> ?p" using uq by blast
    then show "flag s' (pg c d) = MI_DELAYED_FREEING" using h pending_flag [OF fc_invD(4) [OF inv], of u d] by (simp add: fl)
  next
    fix u v d e
    assume "(u \<noteq> t \<and> (fpc s u = F_delayed d \<or> fpc s u = F_reset d)) \<and>
       (v \<noteq> t \<and> (fpc s v = F_delayed e \<or> fpc s v = F_reset e)) \<and> pg c d = pg c e"
    then show "u = v" using fc_invD(4) [OF inv] unfolding reset_inv_def by blast
  next
    fix q assume q: "q \<in> own_pages c" "flag s' q = MI_DELAYED_FREEING"
    then have "q \<noteq> ?p" "flag s q = MI_DELAYED_FREEING" by (auto simp: fl split: if_splits)
    then obtain u d where "fpc s u = F_delayed d \<or> fpc s u = F_reset d" "pg c d = q"
      using q fc_invD(4) [OF inv] unfolding reset_inv_def by blast
    moreover have "u \<noteq> t" using calculation f \<open>q \<noteq> ?p\<close> by auto
    ultimately show "\<exists>u d. (u \<noteq> t \<and> (fpc s u = F_delayed d \<or> fpc s u = F_reset d)) \<and> pg c d = q" by blast
  qed
  moreover have "signal_inv c s'"
    using fc_invD(5) [OF inv] sg unfolding signal_inv_def signalled_def on_page_def sm fl by auto
  moreover have "pool (block_next s') (dlist c s') {d. loc s' d = In_delayed}"
    unfolding sm by (rule fc_invD(1) [OF inv])
  moreover have "pg c d \<in> own_pages c" if "loc s' d \<noteq> Nowhere" for d
    using that fc_invD(6) [OF inv] by (simp add: sm(5))
  ultimately have "fc_inv c s'" unfolding fc_inv_def by blast
  then show ?thesis unfolding s' .
qed

theorem fc_step_inv:
  assumes "fc_step c s s'" "fc_inv c s"
  shows "fc_inv c s'"
  using assms
proof (cases rule: fc_step.cases)
  case (malloc p b s1) then show ?thesis using step_malloc(1) [OF assms(2)] by simp
next
  case (free_local b) then show ?thesis using step_free_local [OF assms(2)] by simp
next
  case (collect p force s1) then show ?thesis using step_collect [OF assms(2)] by simp
next
  case (grow p s1) then show ?thesis using step_grow [OF assms(2)] by simp
next
  case (never p) then show ?thesis using step_never [OF assms(2)] by simp
next
  case take_delayed then show ?thesis using step_take [OF assms(2)] by simp
next
  case (flagged b s1) then show ?thesis using step_flagged [OF assms(2)] by simp
next
  case (again b s1) then show ?thesis using step_again [OF assms(2)] by simp
next
  case (flagged_collect b n s1) then show ?thesis using step_flagged_collect [OF assms(2)] by simp
next
  case (delayed_free b n) then show ?thesis using step_delayed_free [OF assms(2)] by simp
next
  case all_done then show ?thesis using step_all_done [OF assms(2)] by simp
next
  case (f_start t b) then show ?thesis using step_f_start [OF assms(2)] by simp
next
  case (f_push t b) then show ?thesis using step_f_push [OF assms(2)] by simp
next
  case (f_mark t b) then show ?thesis using step_f_mark [OF assms(2)] by simp
next
  case (f_heap t b) then show ?thesis using step_f_heap [OF assms(2)] by simp
next
  case (f_reset t b) then show ?thesis using step_f_reset [OF assms(2)] by simp
qed

lemma fc_reachable_inv: "fc_reachable c s0 s \<Longrightarrow> fc_inv c s0 \<Longrightarrow> fc_inv c s"
  by (induction rule: fc_reachable.induct) (auto intro: fc_step_inv)

lemma fc_reachable_trans: "fc_reachable c s1 s2 \<Longrightarrow> fc_reachable c s0 s1 \<Longrightarrow> fc_reachable c s0 s2"
  by (induction rule: fc_reachable.induct) (auto intro: fc_next)

text \<open>The start: fresh pages without blocks, no thread in the middle of anything.\<close>

definition fresh_page :: "free_cfg \<Rightarrow> mi_page \<Rightarrow> page_ptr \<Rightarrow> bool" where
  "fresh_page c x p \<longleftrightarrow> area_ok c x p \<and> capacity x = 0 \<and> used x = 0 \<and> free x = 0 \<and> local_free x = 0 \<and> xthread_free x = 0"

definition fc_init :: "free_cfg \<Rightarrow> free_conc \<Rightarrow> bool" where
  "fc_init c s \<longleftrightarrow> (\<forall>p\<in>own_pages c. fresh_page c (page_at s p) p) \<and> dlist c s = 0 \<and>
     opc s = O_idle \<and> (\<forall>t. fpc s t = F_idle) \<and> (\<forall>b. loc s b = Nowhere)"

lemma tf_zero: "mi_tf_block 0 = 0" "mi_tf_delayed 0 = MI_USE_DELAYED_FREE"
  by (simp_all add: mi_tf_block_def mi_tf_delayed_def mi_delayed_of_def)

lemma fc_init_inv:
  assumes "fc_init c s"
  shows "fc_inv c s"
proof -
  have l: "loc s b = Nowhere" for b using assms by (simp add: fc_init_def)
  have w: "xthread_free (page_at s p) = 0" if "p \<in> own_pages c" for p using assms that by (simp add: fc_init_def fresh_page_def)
  have "page_inv c s p" if "p \<in> own_pages c" for p
    using assms that by (simp add: fc_init_def fresh_page_def page_inv_def Let_def on_page_def tf_zero)
  moreover have "flag s p = MI_USE_DELAYED_FREE" if "p \<in> own_pages c" for p using w [OF that] by (simp add: flag_def tf_zero)
  ultimately show ?thesis
    using assms unfolding fc_inv_def fc_init_def
    by (simp add: owner_inv_def hands_inv_def reset_inv_def signal_inv_def on_page_def)
qed

section \<open>Every freed block comes back\<close>

text \<open>
  An episode that changes neither what the program holds nor, apart from one, the freeing
  threads.
\<close>

definition runs :: "free_cfg \<Rightarrow> free_conc \<Rightarrow> free_conc \<Rightarrow> bool" where
  "runs c s s' \<longleftrightarrow> fc_reachable c s s' \<and> (\<forall>b. loc s' b = Live \<longleftrightarrow> loc s b = Live)"

lemma runs_refl: "runs c s s"
  by (simp add: runs_def fc_start)

lemma runs_trans: "runs c s s1 \<Longrightarrow> runs c s1 s2 \<Longrightarrow> runs c s s2"
  unfolding runs_def by (auto intro: fc_reachable_trans)

lemma runs_step: "fc_step c s s' \<Longrightarrow> (\<And>b. loc s' b = Live \<longleftrightarrow> loc s b = Live) \<Longrightarrow> runs c s s'"
  unfolding runs_def by (auto intro: fc_next fc_start)

lemma runs_inv: "runs c s s' \<Longrightarrow> fc_inv c s \<Longrightarrow> fc_inv c s'"
  unfolding runs_def by (auto intro: fc_reachable_inv)

lemma finish_reset:
  assumes "fpc s t = F_reset b"
  shows "\<exists>s'. runs c s s' \<and> fpc s' = (fpc s)(t := F_idle)"
  by (rule exI, rule conjI, rule runs_step, rule fc_step.f_reset, rule assms) simp_all

lemma finish_delayed:
  assumes "fc_inv c s" "fpc s t = F_delayed b"
  shows "\<exists>s'. runs c s s' \<and> fpc s' = (fpc s)(t := F_idle)"
proof -
  let ?s = "(put b In_delayed (push_dlist c b s))\<lparr>fpc := (fpc s)(t := F_reset b)\<rparr>"
  have b: "loc s b = In_hand t" using hands_live [OF fc_invD(3) [OF assms(1)]] assms(2) by blast
  have r: "runs c s ?s" by (rule runs_step [OF fc_step.f_heap [OF assms(2)]]) (use b in simp)
  obtain s' where "runs c ?s s'" "fpc s' = (fpc ?s)(t := F_idle)" using finish_reset [of ?s t b c] by auto
  then show ?thesis using runs_trans [OF r] by (intro exI [of _ s']) simp
qed

lemma finish_free:
  assumes "fc_inv c s" "fpc s t = F_free b"
  shows "\<exists>s'. runs c s s' \<and> fpc s' = (fpc s)(t := F_idle)"
proof -
  have b: "loc s b = In_hand t" using hands_live [OF fc_invD(3) [OF assms(1)]] assms(2) by blast
  show ?thesis
  proof (cases "flag s (pg c b) = MI_USE_DELAYED_FREE")
    case True
    let ?s = "(set_tf (pg c b) (\<lambda>w. mi_tf_set_delayed w MI_DELAYED_FREEING) s)\<lparr>fpc := (fpc s)(t := F_delayed b)\<rparr>"
    have r: "runs c s ?s" by (rule runs_step [OF fc_step.f_mark [OF assms(2) True]]) simp
    obtain s' where "runs c ?s s'" "fpc s' = (fpc ?s)(t := F_idle)"
      using finish_delayed [OF runs_inv [OF r assms(1)], of t b] by auto
    then show ?thesis using runs_trans [OF r] by (intro exI [of _ s']) simp
  next
    case False
    show ?thesis
      by (rule exI, rule conjI, rule runs_step, rule fc_step.f_push, rule assms(2), rule False) (use b in \<open>simp_all\<close>)
  qed
qed

lemma finish_freers:
  assumes "finite {t. fpc s t \<noteq> F_idle}" "fc_inv c s"
  shows "\<exists>s'. runs c s s' \<and> (\<forall>t. fpc s' t = F_idle)"
  using assms
proof (induction "card {t. fpc s t \<noteq> F_idle}" arbitrary: s)
  case 0
  then show ?case using runs_refl by auto
next
  case (Suc n)
  then obtain t where t: "fpc s t \<noteq> F_idle" by (metis (mono_tags, lifting) Collect_empty_eq card.empty nat.distinct(1))
  have "\<exists>s1. runs c s s1 \<and> fpc s1 = (fpc s)(t := F_idle)"
    using t finish_free [OF Suc.prems(2)] finish_delayed [OF Suc.prems(2)] finish_reset by (cases "fpc s t") auto
  then obtain s1 where s1: "runs c s s1" "fpc s1 = (fpc s)(t := F_idle)" by blast
  have e: "{u. fpc s1 u \<noteq> F_idle} = {u. fpc s u \<noteq> F_idle} - {t}" by (auto simp: s1(2))
  have "card {u. fpc s1 u \<noteq> F_idle} = n" using Suc.hyps(2) Suc.prems(1) t unfolding e by simp
  moreover have "finite {u. fpc s1 u \<noteq> F_idle}" using Suc.prems(1) unfolding e by simp
  ultimately obtain s' where "runs c s1 s'" "\<forall>t. fpc s' t = F_idle"
    using Suc.hyps(1) [of s1] runs_inv [OF s1(1) Suc.prems(2)] by blast
  then show ?case using runs_trans [OF s1(1)] by blast
qed

lemma grow_frame:
  fixes s :: free_conc
  assumes "mi_page_extend_free st sz p s = Some s1"
  shows "fpc s1 = fpc s" "opc s1 = opc s"
  using assms
  by (auto simp: mi_page_extend_free_def mi_page_free_list_extend_def mi_block_set_next_def upd_page_def Let_def
      split: if_splits option.splits bind_splits)

lemma try_use_frame:
  fixes s :: free_conc
  assumes "mi_page_try_use_delayed_free p d False s = Some (ok, s1)"
  shows "fpc s1 = fpc s"
  using try_use_cases [OF assms] by auto

lemma step_frame:
  assumes "fc_step c s s'" "fc_inv c s"
  shows "\<exists>t. \<forall>u. u \<noteq> t \<longrightarrow> fpc s' u = fpc s u"
  using assms(1)
proof (cases rule: fc_step.cases)
  case (malloc p b s1)
  then show ?thesis by (auto simp: mi_page_malloc_def Let_def split: if_splits)
next
  case (collect p force s1)
  then have "fpc s' = fpc s" using collect_pages(5) [OF assms(2) collect(3,4), of s'] by simp
  then show ?thesis by simp
next
  case (flagged_collect b n s1)
  have ow: "loc s b = In_owner" using fc_invD(2) [OF assms(2)] flagged_collect(2) by (simp add: owner_inv_def)
  have "pg c b \<in> own_pages c" by (rule fc_invD(6) [OF assms(2)]) (simp add: ow)
  then have "fpc s' = fpc s" using collect_pages(5) [OF assms(2) _ flagged_collect(3), of s'] flagged_collect(1) by simp
  then show ?thesis by simp
next
  case (grow p s1)
  then show ?thesis using grow_frame(1) [OF grow(4)] by simp
next
  case (never p)
  then show ?thesis using try_use_frame [OF never(3)] by simp
next
  case (flagged b s1)
  then show ?thesis using try_use_frame [OF flagged(4)] by simp
next
  case (again b s1)
  then show ?thesis using try_use_frame [OF again(4)] by simp
qed (auto simp: push_fields)

lemma freers_finite:
  "fc_reachable c s0 s \<Longrightarrow> finite {t. fpc s0 t \<noteq> F_idle} \<Longrightarrow> fc_inv c s0 \<Longrightarrow> finite {t. fpc s t \<noteq> F_idle}"
proof (induction rule: fc_reachable.induct)
  case (fc_next s s')
  obtain t where "\<forall>u. u \<noteq> t \<longrightarrow> fpc s' u = fpc s u"
    using step_frame [OF fc_next.hyps(2) fc_reachable_inv [OF fc_next.hyps(1) fc_next.prems(2)]] by blast
  then have "{u. fpc s' u \<noteq> F_idle} \<subseteq> insert t {u. fpc s u \<noteq> F_idle}" by auto
  moreover have "finite (insert t {u. fpc s u \<noteq> F_idle})" using fc_next.IH fc_next.prems by simp
  ultimately show ?case by (rule rev_finite_subset [rotated])
qed simp

text \<open>The owning thread, when no other thread is in the middle of a free.\<close>

definition calm :: "free_conc \<Rightarrow> bool" where
  "calm s \<longleftrightarrow> (\<forall>t. fpc s t = F_idle)"

lemma calm_flag: "fc_inv c s \<Longrightarrow> calm s \<Longrightarrow> p \<in> own_pages c \<Longrightarrow> flag s p \<noteq> MI_DELAYED_FREEING"
  using fc_invD(4) [of c s] unfolding reset_inv_def calm_def by auto

lemma try_use_calm:
  assumes "flag s p \<noteq> MI_DELAYED_FREEING"
  shows "\<exists>s1. mi_page_try_use_delayed_free p d ov s = Some (True, s1)"
proof (cases "d = flag s p \<or> \<not> ov \<and> flag s p = MI_NEVER_DELAYED_FREE")
  case True
  then show ?thesis using assms unfolding try_use_delayed_steady flag_def Let_def by (intro exI [of _ s]) auto
next
  case False
  then show ?thesis
    using assms unfolding try_use_delayed_steady flag_def Let_def
    by (intro exI [of _ "upd_page p (\<lambda>x. x\<lparr>xthread_free := mi_tf_set_delayed (xthread_free (page_at s p)) d\<rparr>) s"]) auto
qed

lemma owner_collected:
  assumes inv: "fc_inv c s" and o: "opc s = O_collected b n"
  shows "\<exists>s'. runs c s s' \<and> opc s' = O_loop n \<and> fpc s' = fpc s \<and>
    (\<forall>d. loc s' d = In_taken \<longleftrightarrow> loc s d = In_taken) \<and> (\<forall>d. loc s' d = In_delayed \<longleftrightarrow> loc s d = In_delayed)"
proof -
  let ?s = "(put b In_local (mi_free_block_push (pg c b) b s))\<lparr>opc := O_loop n\<rparr>"
  have ow: "loc s b = In_owner" using fc_invD(2) [OF inv] o by (simp add: owner_inv_def)
  have "runs c s ?s" by (rule runs_step [OF fc_step.delayed_free [OF o]]) (simp add: push_fields ow)
  then show ?thesis by (intro exI [of _ ?s]) (use ow in \<open>simp add: push_fields\<close>)
qed

lemma owner_flagged:
  assumes inv: "fc_inv c s" and o: "opc s = O_flagged b n"
  shows "\<exists>s'. runs c s s' \<and> opc s' = O_loop n \<and> fpc s' = fpc s \<and>
    (\<forall>d. loc s' d = In_taken \<longleftrightarrow> loc s d = In_taken) \<and> (\<forall>d. loc s' d = In_delayed \<longleftrightarrow> loc s d = In_delayed)"
proof -
  have ow: "loc s b = In_owner" using fc_invD(2) [OF inv] o by (simp add: owner_inv_def)
  have p: "pg c b \<in> own_pages c" by (rule fc_invD(6) [OF inv]) (simp add: ow)
  obtain s1 where r: "mi_page_free_collect (pg c b) False s = Some s1"
    using page_inv_collect [OF own_page [OF inv p], of False] by blast
  let ?s = "s1\<lparr>opc := O_collected b n, loc := collected_loc c (pg c b) False s\<rparr>"
  note f = collect_pages [OF inv p r, of ?s, simplified]
  have k: "special In_delayed" "special In_taken" by (simp_all add: special_def)
  have l: "runs c s ?s"
    by (rule runs_step [OF fc_step.flagged_collect [OF o r]]) (auto simp: collected_loc_def)
  obtain s' where "runs c ?s s'" "opc s' = O_loop n" "fpc s' = fpc ?s"
     "\<forall>d. loc s' d = In_taken \<longleftrightarrow> loc ?s d = In_taken" "\<forall>d. loc s' d = In_delayed \<longleftrightarrow> loc ?s d = In_delayed"
    using owner_collected [OF runs_inv [OF l inv], of b n] by auto
  then show ?thesis using runs_trans [OF l] f(5,8) k by (intro exI [of _ s']) simp
qed

lemma owner_loop_one:
  assumes inv: "fc_inv c s" and calm: "calm s" and o: "opc s = O_loop b" and b: "b \<noteq> 0"
  shows "\<exists>s'. runs c s s' \<and> opc s' = O_loop (block_next s b) \<and> fpc s' = fpc s \<and>
    (\<forall>d. loc s' d = In_taken \<longleftrightarrow> loc s d = In_taken \<and> d \<noteq> b) \<and> (\<forall>d. loc s' d = In_delayed \<longleftrightarrow> loc s d = In_delayed) \<and> loc s b = In_taken"
proof -
  have "pool (block_next s) b {d. loc s d = In_taken}" using fc_invD(2) [OF inv] o by (simp add: owner_inv_def)
  then have bl: "loc s b = In_taken" using pool_head b by blast
  have p: "pg c b \<in> own_pages c" by (rule fc_invD(6) [OF inv]) (simp add: bl)
  obtain s1 where r: "mi_page_try_use_delayed_free (pg c b) MI_USE_DELAYED_FREE False s = Some (True, s1)"
    using try_use_calm [OF calm_flag [OF inv calm p]] by blast
  have s1: "loc s1 = loc s" "fpc s1 = fpc s" using try_use_cases [OF r] by auto
  let ?s = "(put b In_owner s1)\<lparr>opc := O_flagged b (block_next s b)\<rparr>"
  have l: "runs c s ?s" by (rule runs_step [OF fc_step.flagged [OF o b r]]) (use bl in \<open>simp add: s1\<close>)
  obtain s' where "runs c ?s s'" "opc s' = O_loop (block_next s b)" "fpc s' = fpc ?s"
     "\<forall>d. loc s' d = In_taken \<longleftrightarrow> loc ?s d = In_taken" "\<forall>d. loc s' d = In_delayed \<longleftrightarrow> loc ?s d = In_delayed"
    using owner_flagged [OF runs_inv [OF l inv], of b "block_next s b"] by auto
  then show ?thesis using runs_trans [OF l] bl by (intro exI [of _ s']) (auto simp: s1)
qed

lemma owner_loop:
  assumes "fc_inv c s" "calm s" "opc s = O_loop b"
  shows "\<exists>s'. runs c s s' \<and> opc s' = O_idle \<and> calm s' \<and>
    (\<forall>d. loc s' d \<noteq> In_taken \<and> loc s' d \<noteq> In_owner) \<and> (\<forall>d. loc s' d = In_delayed \<longleftrightarrow> loc s d = In_delayed)"
  using assms
proof (induction "card {d. loc s d = In_taken}" arbitrary: s b rule: less_induct)
  case less
  have pl: "pool (block_next s) b {d. loc s d = In_taken}" "\<forall>d. loc s d \<noteq> In_owner"
    using fc_invD(2) [OF less.prems(1)] less.prems(3) by (simp_all add: owner_inv_def)
  show ?case
  proof (cases "b = 0")
    case True
    have "runs c s (s\<lparr>opc := O_idle\<rparr>)" by (rule runs_step [OF fc_step.all_done]) (use less.prems(3) True in simp_all)
    then show ?thesis using pl less.prems(2) True by (intro exI [of _ "s\<lparr>opc := O_idle\<rparr>"]) (auto simp: calm_def pool_null)
  next
    case False
    obtain s1 where s1: "runs c s s1" "opc s1 = O_loop (block_next s b)" "fpc s1 = fpc s"
      "\<forall>d. loc s1 d = In_taken \<longleftrightarrow> loc s d = In_taken \<and> d \<noteq> b" "\<forall>d. loc s1 d = In_delayed \<longleftrightarrow> loc s d = In_delayed" "loc s b = In_taken"
      using owner_loop_one [OF less.prems False] by blast
    have e: "{d. loc s1 d = In_taken} = {d. loc s d = In_taken} - {b}" using s1(4) by auto
    have "card {d. loc s1 d = In_taken} < card {d. loc s d = In_taken}"
      unfolding e by (rule card_Diff1_less [OF pool_finite [OF pl(1)]]) (use s1(6) in simp)
    moreover have "calm s1" using less.prems(2) s1(3) by (simp add: calm_def)
    ultimately obtain s' where "runs c s1 s'" "opc s' = O_idle" "calm s'"
      "\<forall>d. loc s' d \<noteq> In_taken \<and> loc s' d \<noteq> In_owner" "\<forall>d. loc s' d = In_delayed \<longleftrightarrow> loc s1 d = In_delayed"
      using less.hyps [of s1, OF _ runs_inv [OF s1(1) less.prems(1)] _ s1(2)] by blast
    then show ?thesis using runs_trans [OF s1(1)] s1(5) by (intro exI [of _ s']) simp
  qed
qed

lemma owner_idle:
  assumes inv: "fc_inv c s" and calm: "calm s"
  shows "\<exists>s'. runs c s s' \<and> opc s' = O_idle \<and> calm s'"
proof -
  have "\<exists>s1 n. runs c s s1 \<and> (opc s1 = O_idle \<or> opc s1 = O_loop n) \<and> fpc s1 = fpc s"
  proof (cases "opc s")
    case (O_flagged b n) then show ?thesis using owner_flagged [OF inv] by blast
  next
    case (O_collected b n) then show ?thesis using owner_collected [OF inv] by blast
  qed (use runs_refl in blast)+
  then obtain s1 n where s1: "runs c s s1" "opc s1 = O_idle \<or> opc s1 = O_loop n" "fpc s1 = fpc s" by blast
  have c1: "calm s1" using calm s1(3) by (simp add: calm_def)
  show ?thesis
  proof (cases "opc s1 = O_idle")
    case True then show ?thesis using s1(1) c1 by blast
  next
    case False
    then show ?thesis using owner_loop [OF runs_inv [OF s1(1) inv] c1, of n] s1(2) runs_trans [OF s1(1)] by blast
  qed
qed

lemma owner_drain:
  assumes inv: "fc_inv c s" and calm: "calm s"
  shows "\<exists>s'. runs c s s' \<and> opc s' = O_idle \<and> calm s' \<and> (\<forall>b. loc s' b \<noteq> In_delayed \<and> loc s' b \<noteq> In_taken \<and> loc s' b \<noteq> In_owner)"
proof -
  obtain s1 where s1: "runs c s s1" "opc s1 = O_idle" "calm s1" using owner_idle [OF assms] by blast
  let ?s = "(set_dlist c 0 s1)\<lparr>opc := O_loop (dlist c s1),
       loc := (\<lambda>b. if loc s1 b = In_delayed then In_taken else loc s1 b)\<rparr>"
  have r: "runs c s1 ?s" by (rule runs_step [OF fc_step.take_delayed [OF s1(2)]]) auto
  have "calm ?s" using s1(3) by (simp add: calm_def set_dlist_def upd_heap_def)
  then obtain s' where "runs c ?s s'" "opc s' = O_idle" "calm s'" "\<forall>d. loc s' d \<noteq> In_taken \<and> loc s' d \<noteq> In_owner"
    "\<forall>d. loc s' d = In_delayed \<longleftrightarrow> loc ?s d = In_delayed"
    using owner_loop [of c ?s "dlist c s1"] runs_inv [OF r runs_inv [OF s1(1) inv]] by auto
  then show ?thesis using runs_trans [OF s1(1) runs_trans [OF r]] by (intro exI [of _ s']) auto
qed

lemma owner_collect_page:
  assumes inv: "fc_inv c s" and calm: "calm s" and o: "opc s = O_idle" and p: "p \<in> own_pages c"
  shows "\<exists>s'. runs c s s' \<and> opc s' = O_idle \<and> calm s' \<and>
    (\<forall>b. loc s' b = (if pg c b = p \<and> (loc s b = In_thread \<or> loc s b = In_local) then In_free else loc s b))"
proof -
  obtain s1 where r: "mi_page_free_collect p True s = Some s1" using page_inv_collect [OF own_page [OF inv p], of True] by blast
  let ?s = "s1\<lparr>loc := collected_loc c p True s\<rparr>"
  have "runs c s ?s" by (rule runs_step [OF fc_step.collect [OF o p r]]) (auto simp: collected_loc_def)
  moreover have "opc ?s = O_idle" "calm ?s"
    using collect_pages(4,5) [OF inv p r, of ?s] o calm by (simp_all add: calm_def)
  ultimately show ?thesis by (intro exI [of _ ?s]) (simp add: collected_loc_def)
qed

lemma owner_collect_pages:
  assumes "finite Q" "Q \<subseteq> own_pages c" "fc_inv c s" "calm s" "opc s = O_idle"
  shows "\<exists>s'. runs c s s' \<and> opc s' = O_idle \<and> calm s' \<and>
    (\<forall>b. loc s' b = (if pg c b \<in> Q \<and> (loc s b = In_thread \<or> loc s b = In_local) then In_free else loc s b))"
  using assms
proof (induction Q arbitrary: s rule: finite_induct)
  case empty
  then show ?case using runs_refl by auto
next
  case (insert p Q)
  obtain s1 where s1: "runs c s s1" "opc s1 = O_idle" "calm s1"
    "\<forall>b. loc s1 b = (if pg c b = p \<and> (loc s b = In_thread \<or> loc s b = In_local) then In_free else loc s b)"
    using owner_collect_page [of c s p] insert.prems by auto
  have "Q \<subseteq> own_pages c" using insert.prems by simp
  then obtain s' where s': "runs c s1 s'" "opc s' = O_idle" "calm s'"
    "\<forall>b. loc s' b = (if pg c b \<in> Q \<and> (loc s1 b = In_thread \<or> loc s1 b = In_local) then In_free else loc s1 b)"
    using insert.IH [of s1] runs_inv [OF s1(1) insert.prems(2)] s1(2,3) by blast
  then show ?case using runs_trans [OF s1(1)] s1(4) by (intro exI [of _ s']) auto
qed

lemma everything_back:
  assumes inv: "fc_inv c s" and fin: "finite (own_pages c)" "finite {t. fpc s t \<noteq> F_idle}"
  shows "\<exists>s'. runs c s s' \<and> opc s' = O_idle \<and> calm s' \<and> (\<forall>b. loc s' b = Nowhere \<or> loc s' b = In_free \<or> loc s' b = Live)"
proof -
  obtain s1 where s1: "runs c s s1" "calm s1" using finish_freers [OF fin(2) inv] unfolding calm_def by blast
  obtain s2 where s2: "runs c s1 s2" "opc s2 = O_idle" "calm s2"
    "\<forall>b. loc s2 b \<noteq> In_delayed \<and> loc s2 b \<noteq> In_taken \<and> loc s2 b \<noteq> In_owner"
    using owner_drain [OF runs_inv [OF s1(1) inv] s1(2)] by blast
  have inv2: "fc_inv c s2" by (rule runs_inv [OF s2(1) runs_inv [OF s1(1) inv]])
  obtain s3 where s3: "runs c s2 s3" "opc s3 = O_idle" "calm s3"
    "\<forall>b. loc s3 b = (if pg c b \<in> own_pages c \<and> (loc s2 b = In_thread \<or> loc s2 b = In_local) then In_free else loc s2 b)"
    using owner_collect_pages [OF fin(1) order.refl inv2 s2(3,2)] by blast
  have "loc s3 b = Nowhere \<or> loc s3 b = In_free \<or> loc s3 b = Live" for b
  proof (cases "loc s2 b")
    case (In_hand t)
    then show ?thesis using hands_iff [OF fc_invD(3) [OF inv2], of b t] s2(3) by (simp add: calm_def)
  next
    case In_delayed then show ?thesis using s2(4) by simp
  next
    case In_taken then show ?thesis using s2(4) by simp
  next
    case In_owner then show ?thesis using s2(4) by simp
  next
    case In_thread
    then have "pg c b \<in> own_pages c" using fc_invD(6) [OF inv2, of b] by simp
    then show ?thesis using s3(4) In_thread by simp
  next
    case In_local
    then have "pg c b \<in> own_pages c" using fc_invD(6) [OF inv2, of b] by simp
    then show ?thesis using s3(4) In_local by simp
  qed (use s3(4) in simp_all)
  then show ?thesis using runs_trans [OF s1(1) runs_trans [OF s2(1) s3(1)]] s3(2,3) by blast
qed

text \<open>One page with room for four blocks of 16 bytes, used to instantiate the properties.\<close>

definition sample_cfg :: free_cfg where
  "sample_cfg = \<lparr>pg = \<lambda>_. Slice 1 1, hp = 0, area_start = \<lambda>_. 65536, area_size = \<lambda>_. 64, own_pages = {Slice 1 1}\<rparr>"

definition sample_mem :: free_conc where
  "sample_mem = \<lparr>page_at = \<lambda>_. mi_page_empty\<lparr>xheap := Some 0, xblock_size := 16, reserved := 4\<rparr>,
     heap_at = \<lambda>_. mi_heap_empty, block_next = \<lambda>_. 0, opc = O_idle, fpc = \<lambda>_. F_idle, loc = \<lambda>_. Nowhere\<rparr>"

lemma sample_mem_init: "fc_init sample_cfg sample_mem"
  by (simp add: fc_init_def sample_cfg_def sample_mem_def fresh_page_def area_ok_def aligned4_def dlist_def
      mi_page_empty_def mi_heap_empty_def MI_HUGE_BLOCK_SIZE_def)

lemma sample_grow:
  "\<exists>s1. mi_page_extend_free (area_start sample_cfg) (area_size sample_cfg) (Slice 1 1) sample_mem = Some s1 \<and>
     page_at s1 (Slice 1 1) = mi_page_empty\<lparr>xheap := Some 0, xblock_size := 16, reserved := 4, free := 65536, capacity := 4\<rparr> \<and>
     opc s1 = O_idle \<and> fpc s1 = (\<lambda>_. F_idle)"
proof -
  have a: "area_ok sample_cfg (page_at sample_mem (Slice 1 1)) (Slice 1 1)"
    using sample_mem_init by (simp add: fc_init_def fresh_page_def sample_cfg_def)
  have f: "capacity (page_at sample_mem (Slice 1 1)) < reserved (page_at sample_mem (Slice 1 1))"
    "free (page_at sample_mem (Slice 1 1)) = 0" by (simp_all add: sample_mem_def mi_page_empty_def)
  have e: "extend_count (page_at sample_mem (Slice 1 1)) 16 = 4"
    by (simp add: extend_count_def sample_mem_def mi_page_empty_def MI_MIN_EXTEND_def MI_MAX_EXTEND_SIZE_def)
  show ?thesis
    using extend_free_spec [OF a f]
    by (auto simp: sample_mem_def sample_cfg_def upd_page_def mi_page_empty_def area_block_def mi_page_block_at_def e [unfolded sample_mem_def mi_page_empty_def, simplified])
qed


lemma sample_busy:
  "\<exists>s. fc_reachable sample_cfg sample_mem s \<and> fpc s 7 = F_delayed 65536 \<and> loc s 65536 = In_hand 7 \<and>
     used (page_at s (Slice 1 1)) = 1"
proof -
  obtain s1 where s1: "mi_page_extend_free (area_start sample_cfg) (area_size sample_cfg) (Slice 1 1) sample_mem = Some s1"
    "page_at s1 (Slice 1 1) = mi_page_empty\<lparr>xheap := Some 0, xblock_size := 16, reserved := 4, free := 65536, capacity := 4\<rparr>"
    "opc s1 = O_idle" "fpc s1 = (\<lambda>_. F_idle)"
    using sample_grow by blast
  have own: "Slice 1 1 \<in> own_pages sample_cfg" "pg sample_cfg b = Slice 1 1" for b by (simp_all add: sample_cfg_def)
  have o: "opc sample_mem = O_idle" by (simp add: sample_mem_def)
  obtain s2 where s2: "fc_step sample_cfg sample_mem s2" "page_at s2 = page_at s1" "opc s2 = O_idle" "fpc s2 = (\<lambda>_. F_idle)"
    using fc_step.grow [OF o own(1) s1(1)] s1(3,4) by fastforce
  have f: "free (page_at s2 (Slice 1 1)) = 65536" "used (page_at s2 (Slice 1 1)) = 0" "xthread_free (page_at s2 (Slice 1 1)) = 0"
    unfolding s2(2) s1(2) by (simp_all add: mi_page_empty_def)
  obtain s3 where s3: "mi_page_malloc (Slice 1 1) s2 = (65536, s3)" "used (page_at s3 (Slice 1 1)) = 1"
      "xthread_free (page_at s3 (Slice 1 1)) = 0" "fpc s3 = (\<lambda>_. F_idle)"
  proof (rule that)
    show "mi_page_malloc (Slice 1 1) s2 = (65536, upd_page (Slice 1 1)
        (\<lambda>x. x\<lparr>used := (used x + 1) mod 2 ^ 32, free := block_next s2 65536\<rparr>) s2)"
      unfolding mi_page_malloc_def f Let_def by simp
  qed (simp_all only: upd_page_conc fun_upd_same f s2(4) mi_page.simps, simp_all add: f del: One_nat_def)
  let ?s4 = "put 65536 Live s3"
  have s4: "fc_step sample_cfg s2 ?s4" by (rule fc_step.malloc [OF s2(3) own(1) s3(1)]) simp
  let ?s5 = "(put 65536 (In_hand 7) ?s4)\<lparr>fpc := (fpc ?s4)(7 := F_free 65536)\<rparr>"
  have s5: "fc_step sample_cfg ?s4 ?s5" by (rule fc_step.f_start) (simp_all add: s3(4))
  let ?s6 = "(set_tf (pg sample_cfg 65536) (\<lambda>w. mi_tf_set_delayed w MI_DELAYED_FREEING) ?s5)\<lparr>fpc := (fpc ?s5)(7 := F_delayed 65536)\<rparr>"
  have s6: "fc_step sample_cfg ?s5 ?s6"
    by (rule fc_step.f_mark) (simp_all add: own(2) flag_def s3(3) tf_zero del: One_nat_def)
  have "fc_reachable sample_cfg sample_mem ?s6"
    by (intro fc_next [OF fc_next [OF fc_next [OF fc_next [OF fc_start s2(1)] s4] s5] s6])
  then show ?thesis by (intro exI [of _ ?s6]) (simp add: own(2) s3(2) del: One_nat_def)
qed

section \<open>Properties\<close>

text \<open>
  C2: the free lists of a page are exact. After any interleaving of the steps of the owning
  thread and of any number of threads that free its blocks, the free, local_free and thread
  free list of every page are ended, unshared lists of exactly the blocks that belong there;
  used counts exactly the blocks that are neither free nor back with the owning thread, so it
  never wraps around although several lists are counted late; and no more blocks than the
  capacity have been linked. The delayed list of the heap holds exactly the blocks handed over.
\<close>

theorem page_free_lists_exact:
  assumes "fc_init c s0" "fc_reachable c s0 s" "p \<in> own_pages c"
  shows "pool (block_next s) (free (page_at s p)) (on_page c s p In_free) \<and>
    pool (block_next s) (local_free (page_at s p)) (on_page c s p In_local) \<and>
    pool (block_next s) (mi_page_thread_free (page_at s p)) (on_page c s p In_thread) \<and>
    pool (block_next s) (dlist c s) {b. loc s b = In_delayed} \<and>
    used (page_at s p) = card {b. pg c b = p \<and> loc s b \<notin> {Nowhere, In_free, In_local}} \<and>
    used (page_at s p) \<le> capacity (page_at s p) \<and> capacity (page_at s p) \<le> reserved (page_at s p)"
proof -
  have inv: "fc_inv c s" by (rule fc_reachable_inv [OF assms(2) fc_init_inv [OF assms(1)]])
  have pi: "page_inv c s p" by (rule own_page [OF inv assms(3)])
  show ?thesis
    using pi page_counts(4) [OF pi] fc_invD(1) [OF inv]
    by (simp add: page_inv_def Let_def mi_page_thread_free_block)
qed

lemma page_free_lists_exact_witness:
  "\<exists>s. fpc s 7 = F_delayed 65536 \<and> used (page_at s (Slice 1 1)) = 1 \<and>
     pool (block_next s) (free (page_at s (Slice 1 1))) (on_page sample_cfg s (Slice 1 1) In_free)"
proof -
  have own: "Slice 1 1 \<in> own_pages sample_cfg" by (simp add: sample_cfg_def)
  obtain s where s: "fc_reachable sample_cfg sample_mem s" "fpc s 7 = F_delayed 65536" "used (page_at s (Slice 1 1)) = 1"
    using sample_busy by blast
  show ?thesis using page_free_lists_exact [OF sample_mem_init s(1) own] s by blast
qed

lemma page_used:
  assumes inv: "fc_inv c s" and l: "outside (loc s b)"
  shows "0 < used (page_at s (pg c b))"
proof -
  have nn: "loc s b \<noteq> Nowhere" using l by (simp add: outside_def)
  note pi = fc_block(4) [OF inv nn]
  have "finite {d. pg c d = pg c b \<and> loc s d \<notin> {Nowhere, In_free, In_local}}"
    by (rule rev_finite_subset [OF page_counts(1) [OF pi]]) auto
  moreover have "b \<in> {d. pg c d = pg c b \<and> loc s d \<notin> {Nowhere, In_free, In_local}}" using l by (simp add: outside_def)
  moreover have "used (page_at s (pg c b)) = card {d. pg c d = pg c b \<and> loc s d \<notin> {Nowhere, In_free, In_local}}"
    using pi by (simp add: page_inv_def Let_def)
  ultimately show ?thesis using card_gt_0_iff by fastforce
qed

text \<open>
  C13: the protocol is safe. In every reachable state, allocation hands out only a block of the
  page that nobody has; no two threads free the same block; while a thread is freeing a block,
  up to its last access to the page, the page counts as in use, so that the owning thread does
  not return it, and between its two accesses to the flag it shows MI_DELAYED_FREEING, so that
  the page is not abandoned either; and when blocks are on the thread free list of a page and
  no flag change or collection is under way, a block of the page is on the delayed list or
  still to be freed from there, unless the flag forbids that: the owning thread is told.
\<close>

theorem page_free_protocol_safe:
  assumes "fc_init c s0" "fc_reachable c s0 s"
  shows "(\<forall>p\<in>own_pages c. \<forall>b s1. mi_page_malloc p s = (b, s1) \<longrightarrow> b \<noteq> 0 \<longrightarrow>
       pg c b = p \<and> loc s b = In_free \<and> used (page_at s1 p) = used (page_at s p) + 1) \<and>
    (\<forall>t b. fpc s t \<in> {F_free b, F_delayed b, F_reset b} \<longrightarrow> 0 < used (page_at s (pg c b)) \<and> pg c b \<in> own_pages c) \<and>
    (\<forall>t u b. fpc s t \<in> {F_free b, F_delayed b} \<longrightarrow> fpc s u \<in> {F_free b, F_delayed b, F_reset b} \<longrightarrow> t = u) \<and>
    (\<forall>t b. fpc s t \<in> {F_delayed b, F_reset b} \<longrightarrow> flag s (pg c b) = MI_DELAYED_FREEING) \<and>
    (\<forall>p\<in>own_pages c. mi_page_thread_free (page_at s p) \<noteq> 0 \<longrightarrow>
       flag s p \<in> {MI_USE_DELAYED_FREE, MI_NO_DELAYED_FREE} \<longrightarrow> \<not> (\<exists>b n. opc s = O_flagged b n) \<longrightarrow>
       (\<exists>b. pg c b = p \<and> loc s b \<in> {In_delayed, In_taken}))"
proof -
  have inv: "fc_inv c s" by (rule fc_reachable_inv [OF assms(2) fc_init_inv [OF assms(1)]])
  have m: "pg c b = p \<and> loc s b = In_free \<and> used (page_at s1 p) = used (page_at s p) + 1"
    if "p \<in> own_pages c" "mi_page_malloc p s = (b, s1)" "b \<noteq> 0" for p b s1
    using step_malloc(2,3) [OF inv that] page_counts(2) [OF own_page [OF inv that(1)]] that(2,3)
    by (auto simp: mi_page_malloc_def Let_def split: if_splits)
  have hand: "loc s b = In_hand t" if "fpc s t \<in> {F_free b, F_delayed b}" for t b
    using that hands_live [OF fc_invD(3) [OF inv]] by blast
  have res: "loc s b = In_delayed \<or> loc s b = In_taken" if "fpc s t = F_reset b" for t b
    by (rule pending_place [OF fc_invD(4) [OF inv] that])
  have out: "outside (loc s b)" if "fpc s t \<in> {F_free b, F_delayed b, F_reset b}" for t b
  proof (cases "fpc s t = F_reset b")
    case True then show ?thesis using res [OF True] by (auto simp: outside_def)
  next
    case False then show ?thesis using hand [of t b] that by (auto simp: outside_def)
  qed
  have u: "0 < used (page_at s (pg c b)) \<and> pg c b \<in> own_pages c" if "fpc s t \<in> {F_free b, F_delayed b, F_reset b}" for t b
  proof
    show "0 < used (page_at s (pg c b))" by (rule page_used [OF inv out [OF that]])
    show "pg c b \<in> own_pages c" by (rule fc_invD(6) [OF inv]) (use out [OF that] in \<open>simp add: outside_def\<close>)
  qed
  have two: "t = v" if "fpc s t \<in> {F_free b, F_delayed b}" "fpc s v \<in> {F_free b, F_delayed b, F_reset b}" for t v b
    using hand [OF that(1)] hand [of v b] res [of v b] that(2) by auto
  have fl: "flag s (pg c b) = MI_DELAYED_FREEING" if "fpc s t \<in> {F_delayed b, F_reset b}" for t b
    using that pending_flag [OF fc_invD(4) [OF inv], of t b] by blast
  have sg: "\<exists>b. pg c b = p \<and> loc s b \<in> {In_delayed, In_taken}"
    if "p \<in> own_pages c" "mi_page_thread_free (page_at s p) \<noteq> 0" "flag s p \<in> {MI_USE_DELAYED_FREE, MI_NO_DELAYED_FREE}"
      "\<not> (\<exists>b n. opc s = O_flagged b n)" for p
  proof -
    have "pool (block_next s) (mi_tf_block (xthread_free (page_at s p))) (on_page c s p In_thread)"
      using own_page [OF inv that(1)] by (simp add: page_inv_def Let_def)
    then have "on_page c s p In_thread \<noteq> {}" using that(2) unfolding mi_page_thread_free_block by (metis pool_empty)
    then show ?thesis using fc_invD(5) [OF inv] that unfolding signal_inv_def signalled_def by fastforce
  qed
  show ?thesis
    by (intro conjI) (use m in blast, use u in blast, use two in blast, use fl in blast, use sg in blast)
qed

lemma page_free_protocol_safe_witness:
  "\<exists>s :: free_conc. fpc s 7 = F_delayed 65536 \<and> flag s (pg sample_cfg 65536) = MI_DELAYED_FREEING \<and> 0 < used (page_at s (pg sample_cfg 65536))"
proof -
  obtain s where s: "fc_reachable sample_cfg sample_mem s" "fpc s 7 = F_delayed 65536" using sample_busy by blast
  have m: "fpc s 7 \<in> {F_free 65536, F_delayed 65536, F_reset 65536}" "fpc s 7 \<in> {F_delayed 65536, F_reset 65536}"
    using s(2) by simp_all
  note t = page_free_protocol_safe [OF sample_mem_init s(1)]
  note u = t [THEN conjunct2, THEN conjunct1, rule_format, OF m(1)]
    and f = t [THEN conjunct2, THEN conjunct2, THEN conjunct2, THEN conjunct1, rule_format, OF m(2)]
  show ?thesis using s(2) u f by blast
qed

text \<open>
  C14: no freed block is lost. From every reachable state, with any number of threads in the
  middle of freeing and the owning thread anywhere in its work on the delayed list, there is a
  continuation in which nothing is allocated or freed anew, after which every block is either
  still held by the program or back on the free list of its page, and used of every page is the
  number of the blocks that the program holds; so no step of the protocol blocks and an empty
  page is recognised as empty.
\<close>

theorem freed_blocks_come_back:
  assumes "fc_init c s0" "fc_reachable c s0 s" "finite (own_pages c)"
  shows "\<exists>s'. fc_reachable c s s' \<and> opc s' = O_idle \<and> (\<forall>t. fpc s' t = F_idle) \<and>
    (\<forall>b. loc s' b = Live \<longleftrightarrow> loc s b = Live) \<and> (\<forall>b. loc s' b \<in> {Nowhere, In_free, Live}) \<and>
    (\<forall>p\<in>own_pages c. used (page_at s' p) = card {b. pg c b = p \<and> loc s b = Live} \<and>
       pool (block_next s') (free (page_at s' p)) {b. pg c b = p \<and> loc s' b = In_free})"
proof -
  have inv0: "fc_inv c s0" by (rule fc_init_inv [OF assms(1)])
  have inv: "fc_inv c s" by (rule fc_reachable_inv [OF assms(2) inv0])
  have "{t. fpc s0 t \<noteq> F_idle} = {}" using assms(1) by (simp add: fc_init_def)
  then have "finite {t. fpc s t \<noteq> F_idle}" using freers_finite [OF assms(2) _ inv0] by simp
  then obtain s' where s': "runs c s s'" "opc s' = O_idle" "calm s'" "\<forall>b. loc s' b = Nowhere \<or> loc s' b = In_free \<or> loc s' b = Live"
    using everything_back [OF inv assms(3)] by blast
  have lv: "loc s' b = Live \<longleftrightarrow> loc s b = Live" for b using s'(1) by (simp add: runs_def)
  have inv': "fc_inv c s'" by (rule runs_inv [OF s'(1) inv])
  have "used (page_at s' p) = card {b. pg c b = p \<and> loc s b = Live} \<and>
       pool (block_next s') (free (page_at s' p)) {b. pg c b = p \<and> loc s' b = In_free}" if "p \<in> own_pages c" for p
  proof -
    have "loc s' b \<notin> {Nowhere, In_free, In_local} \<longleftrightarrow> loc s b = Live" for b
      unfolding lv [symmetric] using s'(4) [rule_format, of b] by auto
    then show ?thesis using own_page [OF inv' that] by (simp add: page_inv_def Let_def on_page_def)
  qed
  then show ?thesis using s' lv unfolding runs_def calm_def by (intro exI [of _ s']) auto
qed

lemma freed_blocks_come_back_witness:
  "\<exists>s s'. fpc s 7 = F_delayed 65536 \<and> loc s 65536 = In_hand 7 \<and> fc_reachable sample_cfg s s' \<and> fpc s' 7 = F_idle \<and>
     loc s' 65536 \<in> {Nowhere, In_free, Live} \<and> opc s' = O_idle"
proof -
  have fin: "finite (own_pages sample_cfg)" by (simp add: sample_cfg_def)
  obtain s where s: "fc_reachable sample_cfg sample_mem s" "fpc s 7 = F_delayed 65536" "loc s 65536 = In_hand 7"
    using sample_busy by blast
  obtain s' where "fc_reachable sample_cfg s s'" "opc s' = O_idle" "\<forall>t. fpc s' t = F_idle" "\<forall>b. loc s' b \<in> {Nowhere, In_free, Live}"
    using freed_blocks_come_back [OF sample_mem_init s(1) fin] by blast
  then show ?thesis using s by blast
qed

end
