(* ===== verification/SegmentMap.thy ===== *)
theory SegmentMap
  imports Arena
begin

text \<open>
  The map of segments (src/segment-map.c): one bit per MI_SEGMENT_SIZE bytes of address space,
  set where a segment begins, and the search for the segment of a pointer. Segments are named
  by their number; each atomic update of a word is one step. Pointers are addresses, None is a
  read or write outside the map.
\<close>

section \<open>The map\<close>

definition MI_MAX_ADDRESS :: nat where [simp]: "MI_MAX_ADDRESS = 40 * 2 ^ 40"
definition MI_SEGMENT_MAP_BITS :: nat where [simp]: "MI_SEGMENT_MAP_BITS = MI_MAX_ADDRESS div MI_SEGMENT_SIZE"
definition MI_SEGMENT_MAP_SIZE :: nat where [simp]: "MI_SEGMENT_MAP_SIZE = MI_SEGMENT_MAP_BITS div 8"
definition MI_SEGMENT_MAP_WSIZE :: nat where [simp]: "MI_SEGMENT_MAP_WSIZE = MI_SEGMENT_MAP_SIZE div MI_INTPTR_SIZE"

text \<open>The index of the word and the index of the bit.\<close>

definition mi_segment_map_index_of :: "nat \<Rightarrow> nat \<times> nat" where
  "mi_segment_map_index_of n =
     (if seg_addr n \<ge> MI_MAX_ADDRESS then (MI_SEGMENT_MAP_WSIZE, 0)
      else let segindex = seg_addr n div MI_SEGMENT_SIZE
        in (segindex div MI_INTPTR_BITS, segindex mod MI_INTPTR_BITS))"

definition mi_segment_map_allocated_at :: "nat \<Rightarrow> usize list \<Rightarrow> usize list option" where
  "mi_segment_map_allocated_at n mp =
     (case mi_segment_map_index_of n of (index, bitidx) \<Rightarrow>
        if index = MI_SEGMENT_MAP_WSIZE then Some mp
        else do { msk \<leftarrow> load mp index; store mp index (msk OR push_bit bitidx 1) })"

definition mi_segment_map_freed_at :: "nat \<Rightarrow> usize list \<Rightarrow> usize list option" where
  "mi_segment_map_freed_at n mp =
     (case mi_segment_map_index_of n of (index, bitidx) \<Rightarrow>
        if index = MI_SEGMENT_MAP_WSIZE then Some mp
        else do { msk \<leftarrow> load mp index; store mp index (msk AND NOT (push_bit bitidx 1)) })"

text \<open>The downward search: the index at which the loop stops and the word it read there.\<close>

fun map_scan_down :: "usize list \<Rightarrow> nat \<Rightarrow> (nat \<times> usize) option" where
  "map_scan_down mp 0 = None"
| "map_scan_down mp (Suc loindex) = do {
     lomask \<leftarrow> load mp loindex;
     if lomask \<noteq> 0 \<and> loindex > 0 then map_scan_down mp loindex else Some (loindex, lomask) }"

text \<open>
  The number of the segment of a pointer, None for a null result; the header of the segment that
  was found is read through seg_at and cookie_ok, which says whether its cookie is right.
\<close>

definition mi_segment_of ::
  "(nat \<Rightarrow> bool) \<Rightarrow> (nat \<Rightarrow> mi_segment) \<Rightarrow> usize list \<Rightarrow> nat \<Rightarrow> nat option option" where
  "mi_segment_of cookie_ok seg_at mp p =
     (if p = 0 then Some None
      else let segment = (p - 1) div MI_SEGMENT_SIZE;
               (index, bitidx) = mi_segment_map_index_of segment
        in do {
          msk \<leftarrow> load mp index;
          if msk AND push_bit bitidx 1 \<noteq> 0 then Some (Some segment)
          else if index = MI_SEGMENT_MAP_WSIZE then Some None
          else let lobits = msk AND (push_bit bitidx 1 - 1)
            in do {
              lo \<leftarrow> (if lobits \<noteq> 0 then Some (Some (index, mi_bsr lobits))
                    else if index = 0 then Some None
                    else do {
                      (loindex, lomask) \<leftarrow> map_scan_down mp index;
                      if lomask = 0 then Some None else Some (Some (loindex, mi_bsr lomask)) });
              case lo of None \<Rightarrow> Some None
              | Some (loindex, lobitidx) \<Rightarrow>
                  let diff = (index - loindex) * (8 * MI_INTPTR_SIZE) + bitidx - lobitidx;
                      segment = segment - diff
                  in if segment = 0 then Some None
                     else if \<not> cookie_ok segment then Some None
                     else if seg_addr segment + mi_segment_size (seg_at segment) \<le> p then Some None
                     else Some (Some segment) } })"

definition mi_is_valid_pointer :: "(nat \<Rightarrow> bool) \<Rightarrow> (nat \<Rightarrow> mi_segment) \<Rightarrow> usize list \<Rightarrow> mi_arenas \<Rightarrow> nat \<Rightarrow> bool option" where
  "mi_is_valid_pointer cookie_ok seg_at mp st p = do {
     r \<leftarrow> mi_segment_of cookie_ok seg_at mp p;
     Some (r \<noteq> None \<or> mi_arena_contains p st) }"

section \<open>The map as a set of segments\<close>

definition map_bit :: "usize list \<Rightarrow> nat \<Rightarrow> bool" where
  "map_bit mp n \<longleftrightarrow> n < MI_SEGMENT_MAP_BITS \<and> bit (mp ! (n div 64)) (n mod 64)"

definition map_ok :: "usize list \<Rightarrow> bool" where
  "map_ok mp \<longleftrightarrow> length mp = MI_SEGMENT_MAP_WSIZE + 1 \<and> mp ! MI_SEGMENT_MAP_WSIZE = 0"

lemma map_index:
  "n < MI_SEGMENT_MAP_BITS \<Longrightarrow> mi_segment_map_index_of n = (n div 64, n mod 64) \<and> n div 64 < MI_SEGMENT_MAP_WSIZE"
  "\<not> n < MI_SEGMENT_MAP_BITS \<Longrightarrow> mi_segment_map_index_of n = (MI_SEGMENT_MAP_WSIZE, 0)"
  by (auto simp: mi_segment_map_index_of_def seg_addr_def Let_def)

lemma bit_push1: "bit (2 ^ b :: usize) k \<longleftrightarrow> k = b \<and> b < 64"
  by (auto simp: bit_exp_iff)

lemma map_write:
  assumes "map_ok mp" "n < MI_SEGMENT_MAP_BITS"
    and "\<And>k. bit w k \<longleftrightarrow> (if k = n mod 64 then v else bit (mp ! (n div 64)) k)"
  shows "map_ok (mp[n div 64 := w])" "map_bit (mp[n div 64 := w]) m \<longleftrightarrow> (if m = n then v else map_bit mp m)"
proof -
  have i: "n div 64 < MI_SEGMENT_MAP_WSIZE" using map_index(1) [OF assms(2)] by blast
  then show "map_ok (mp[n div 64 := w])" using assms(1) by (simp add: map_ok_def)
  have e: "m div 64 = n div 64 \<and> m mod 64 = n mod 64 \<longleftrightarrow> m = n" by (metis div_mult_mod_eq)
  show "map_bit (mp[n div 64 := w]) m \<longleftrightarrow> (if m = n then v else map_bit mp m)"
    using i assms e by (auto simp: map_bit_def nth_list_update map_ok_def)
qed

lemma allocated_at_spec:
  assumes "map_ok mp"
  shows "\<exists>mp'. mi_segment_map_allocated_at n mp = Some mp' \<and> map_ok mp' \<and>
    (\<forall>m. map_bit mp' m \<longleftrightarrow> map_bit mp m \<or> m = n \<and> n < MI_SEGMENT_MAP_BITS)"
proof (cases "n < MI_SEGMENT_MAP_BITS")
  case True
  note i = map_index(1) [OF True]
  have l: "n div 64 < length mp" using assms i by (simp add: map_ok_def)
  have w: "bit (mp ! (n div 64) OR push_bit (n mod 64) 1) k \<longleftrightarrow> (if k = n mod 64 then True else bit (mp ! (n div 64)) k)" for k
    by (simp add: bit_or_iff bit_push1)
  define v where "v = mp ! (n div 64) OR push_bit (n mod 64) 1"
  have "mi_segment_map_allocated_at n mp = Some (mp[n div 64 := v])"
    using i l by (simp add: mi_segment_map_allocated_at_def load_in store_in v_def)
  moreover note map_write [OF assms True w, folded v_def]
  ultimately show ?thesis using True by (intro exI [of _ "mp[n div 64 := v]"]) simp
next
  case False
  then have "mi_segment_map_allocated_at n mp = Some mp"
    using map_index(2) [OF False] by (simp add: mi_segment_map_allocated_at_def)
  then show ?thesis using assms False by blast
qed

lemma freed_at_spec:
  assumes "map_ok mp"
  shows "\<exists>mp'. mi_segment_map_freed_at n mp = Some mp' \<and> map_ok mp' \<and> (\<forall>m. map_bit mp' m \<longleftrightarrow> map_bit mp m \<and> m \<noteq> n)"
proof (cases "n < MI_SEGMENT_MAP_BITS")
  case True
  note i = map_index(1) [OF True]
  have l: "n div 64 < length mp" using assms i by (simp add: map_ok_def)
  have w: "bit (mp ! (n div 64) AND NOT (push_bit (n mod 64) 1)) k \<longleftrightarrow> (if k = n mod 64 then False else bit (mp ! (n div 64)) k)" for k
    using bit_usize_lt [of "mp ! (n div 64)" k] by (auto simp: bit_and_iff bit_not_iff bit_push1)
  define v where "v = mp ! (n div 64) AND NOT (push_bit (n mod 64) 1)"
  have "mi_segment_map_freed_at n mp = Some (mp[n div 64 := v])"
    using i l by (simp add: mi_segment_map_freed_at_def load_in store_in v_def)
  moreover note map_write [OF assms True w, folded v_def]
  ultimately show ?thesis by (intro exI [of _ "mp[n div 64 := v]"]) simp
next
  case False
  then have "mi_segment_map_freed_at n mp = Some mp"
    using map_index(2) [OF False] by (simp add: mi_segment_map_freed_at_def)
  then show ?thesis using assms False by (auto simp: map_bit_def)
qed

section \<open>Searching\<close>

lemma lobits_bsr:
  assumes "w AND (2 ^ b - 1) \<noteq> (0 :: usize)" "b < 64"
  shows "mi_bsr (w AND (2 ^ b - 1)) < b" "bit w (mi_bsr (w AND (2 ^ b - 1)))"
    "\<And>k. bit w k \<Longrightarrow> k < b \<Longrightarrow> k \<le> mi_bsr (w AND (2 ^ b - 1))"
proof -
  have m: "bit (w AND (2 ^ b - 1)) k \<longleftrightarrow> bit w k \<and> k < b" for k
    using assms(2) by (auto simp: bit_and_iff bit_mask_iff simp flip: mask_eq_exp_minus_1)
  note s = mi_bsr_spec [OF assms(1)]
  show "mi_bsr (w AND (2 ^ b - 1)) < b" "bit w (mi_bsr (w AND (2 ^ b - 1)))" using s(2) unfolding m by simp_all
  show "k \<le> mi_bsr (w AND (2 ^ b - 1))" if "bit w k" "k < b" for k
    using s(3) [of k] that m [of k] by (meson not_le)
qed

lemma lobits_zero:
  assumes "w AND (2 ^ b - 1) = (0 :: usize)" "b < 64" "bit w k"
  shows "b \<le> k"
proof (rule ccontr)
  assume "\<not> b \<le> k"
  then have "bit (w AND (2 ^ b - 1)) k"
    using assms(2,3) by (auto simp: bit_and_iff bit_mask_iff simp flip: mask_eq_exp_minus_1)
  then show False using assms(1) by simp
qed

lemma scan_down_spec:
  "0 < i \<Longrightarrow> i \<le> length mp \<Longrightarrow> \<exists>lo. map_scan_down mp i = Some (lo, mp ! lo) \<and> lo < i \<and> (mp ! lo = 0 \<or> lo = 0)"
proof (induction i)
  case (Suc i)
  then show ?case
  proof (cases "mp ! i \<noteq> 0 \<and> i > 0")
    case True
    then obtain lo where "map_scan_down mp i = Some (lo, mp ! lo)" "lo < i" "mp ! lo = 0 \<or> lo = 0" using Suc by auto
    then show ?thesis using True Suc.prems by (intro exI [of _ lo]) (simp add: load_in)
  next
    case False
    then show ?thesis using Suc.prems by (intro exI [of _ i]) (auto simp: load_in)
  qed
qed simp

text \<open>
  What the search is about: every segment in the map has its header with the right cookie and
  no two overlap.
\<close>

definition segs_ok :: "(nat \<Rightarrow> bool) \<Rightarrow> (nat \<Rightarrow> mi_segment) \<Rightarrow> usize list \<Rightarrow> bool" where
  "segs_ok cookie_ok seg_at mp \<longleftrightarrow> map_ok mp \<and> (\<forall>n. map_bit mp n \<longrightarrow> 0 < n \<and> cookie_ok n) \<and>
     (\<forall>n m. map_bit mp n \<longrightarrow> map_bit mp m \<longrightarrow> n < m \<longrightarrow> seg_addr n + mi_segment_size (seg_at n) \<le> seg_addr m)"

definition inside_segment :: "(nat \<Rightarrow> mi_segment) \<Rightarrow> nat \<Rightarrow> nat \<Rightarrow> bool" where
  "inside_segment seg_at n p \<longleftrightarrow> seg_addr n < p \<and> p < seg_addr n + mi_segment_size (seg_at n)"

definition ptr_seg :: "nat \<Rightarrow> nat" where "ptr_seg p = (p - 1) div MI_SEGMENT_SIZE"

lemma ptr_seg_bounds: "0 < p \<Longrightarrow> seg_addr (ptr_seg p) < p" "0 < p \<Longrightarrow> p \<le> seg_addr (ptr_seg p + 1)"
proof -
  assume "0 < p"
  then have "p - 1 < p" "p = (p - 1) + 1" by simp_all
  moreover have "(p - 1) div MI_SEGMENT_SIZE * MI_SEGMENT_SIZE \<le> p - 1" by (rule div_times_less_eq_dividend)
  moreover have "p - 1 < ((p - 1) div MI_SEGMENT_SIZE + 1) * MI_SEGMENT_SIZE"
    using dividend_less_div_times [of MI_SEGMENT_SIZE "p - 1"] by (simp add: algebra_simps)
  ultimately show "seg_addr (ptr_seg p) < p" "p \<le> seg_addr (ptr_seg p + 1)"
    unfolding ptr_seg_def seg_addr_def by linarith+
qed

lemma seg_addr_mono: "n \<le> m \<Longrightarrow> seg_addr n \<le> seg_addr m"
  by (simp add: seg_addr_def)

text \<open>No segment begins between the one that holds a pointer and the pointer.\<close>

lemma none_between:
  assumes "segs_ok cookie_ok seg_at mp" "inside_segment seg_at n p" "map_bit mp n" "n < m" "m \<le> ptr_seg p" "0 < p"
  shows "\<not> map_bit mp m"
proof
  assume "map_bit mp m"
  then have "seg_addr n + mi_segment_size (seg_at n) \<le> seg_addr m" using assms(1,3,4) by (simp add: segs_ok_def)
  also have "\<dots> \<le> seg_addr (ptr_seg p)" by (rule seg_addr_mono [OF assms(5)])
  also have "\<dots> < p" by (rule ptr_seg_bounds(1) [OF assms(6)])
  finally show False using assms(2) by (simp add: inside_segment_def)
qed

definition found :: "(nat \<Rightarrow> bool) \<Rightarrow> (nat \<Rightarrow> mi_segment) \<Rightarrow> nat \<Rightarrow> nat \<Rightarrow> nat option" where
  "found cookie_ok seg_at p m =
     (if m = 0 \<or> \<not> cookie_ok m \<or> seg_addr m + mi_segment_size (seg_at m) \<le> p then None else Some m)"

text \<open>The four ways in which the search ends.\<close>

lemma segment_of_cases:
  assumes ok: "map_ok mp" and p: "0 < p"
  shows "(map_bit mp (ptr_seg p) \<and> mi_segment_of cookie_ok seg_at mp p = Some (Some (ptr_seg p))) \<or>
    (\<not> map_bit mp (ptr_seg p) \<and> ptr_seg p < MI_SEGMENT_MAP_BITS \<and>
       (\<exists>m. m < ptr_seg p \<and> m div 64 = ptr_seg p div 64 \<and> map_bit mp m \<and> (\<forall>j. m < j \<longrightarrow> j < ptr_seg p \<longrightarrow> \<not> map_bit mp j) \<and>
          mi_segment_of cookie_ok seg_at mp p = Some (found cookie_ok seg_at p m))) \<or>
    (\<not> map_bit mp (ptr_seg p) \<and> ptr_seg p < MI_SEGMENT_MAP_BITS \<and>
       (\<forall>j. j < ptr_seg p \<longrightarrow> j div 64 = ptr_seg p div 64 \<longrightarrow> \<not> map_bit mp j) \<and>
       (\<exists>lo. lo < ptr_seg p div 64 \<and> map_scan_down mp (ptr_seg p div 64) = Some (lo, mp ! lo) \<and> mp ! lo \<noteq> 0 \<and> lo = 0 \<and>
          map_bit mp (mi_bsr (mp ! lo)) \<and> mi_bsr (mp ! lo) < 64 \<and>
          mi_segment_of cookie_ok seg_at mp p = Some (found cookie_ok seg_at p (mi_bsr (mp ! lo))))) \<or>
    (\<not> map_bit mp (ptr_seg p) \<and> mi_segment_of cookie_ok seg_at mp p = Some None \<and>
       (ptr_seg p < MI_SEGMENT_MAP_BITS \<longrightarrow> (\<forall>j. j < ptr_seg p \<longrightarrow> j div 64 = ptr_seg p div 64 \<longrightarrow> \<not> map_bit mp j)))"
proof (cases "ptr_seg p < MI_SEGMENT_MAP_BITS")
  case False
  have w: "mp ! MI_SEGMENT_MAP_WSIZE AND 1 = 0" using ok by (simp add: map_ok_def)
  have "mi_segment_of cookie_ok seg_at mp p = Some None"
    using map_index(2) [OF False] ok p w
    by (simp add: mi_segment_of_def ptr_seg_def load_in map_ok_def)
  then show ?thesis using False by (auto simp: map_bit_def)
next
  case True
  define n where "n = ptr_seg p"
  define i b w where "i = n div 64" and "b = n mod 64" and "w = mp ! i"
  have ib: "mi_segment_map_index_of n = (i, b)" "i < MI_SEGMENT_MAP_WSIZE" using map_index(1) [OF True] by (simp_all add: n_def i_def b_def)
  have b: "b < 64" and nib: "n = i * 64 + b" by (simp_all add: b_def i_def)
  have l: "i < length mp" using ok ib by (simp add: map_ok_def)
  have lw: "load mp i = Some w" using l by (simp add: load_in w_def)
  have mb: "map_bit mp n \<longleftrightarrow> w AND push_bit b 1 \<noteq> 0"
  proof -
    have "w AND push_bit b 1 \<noteq> 0 \<longleftrightarrow> bit w b"
      using b by (auto simp: word_and_eq_zero_iff bit_push1)
    then show ?thesis using True by (simp add: map_bit_def w_def i_def b_def n_def)
  qed
  have mbj: "map_bit mp (i * 64 + k) \<longleftrightarrow> bit w k" if "k < b" for k
    using that b True by (auto simp: map_bit_def w_def nib n_def [symmetric])
  define lob where "lob = w AND (push_bit b 1 - 1)"
  have st: "mi_segment_of cookie_ok seg_at mp p =
    (if map_bit mp n then Some (Some n)
     else do {
       lo \<leftarrow> (if lob \<noteq> 0 then Some (Some (i, mi_bsr lob)) else if i = 0 then Some None
            else do { (loindex, lomask) \<leftarrow> map_scan_down mp i;
                      if lomask = 0 then Some None else Some (Some (loindex, mi_bsr lomask)) });
       case lo of None \<Rightarrow> Some None
       | Some (loindex, lobitidx) \<Rightarrow> Some (found cookie_ok seg_at p (n - ((i - loindex) * 64 + b - lobitidx))) })"
    using p ib lw mb unfolding mi_segment_of_def Let_def n_def [unfolded ptr_seg_def, symmetric] lob_def
    by (auto simp: found_def split: option.splits intro!: Option.bind_cong)
  have lo: "lob = w AND (2 ^ b - 1)" by (simp add: lob_def)
  show ?thesis
  proof (cases "map_bit mp n")
    case True
    then show ?thesis using st by (simp add: n_def)
  next
    case nm: False
    show ?thesis
    proof (cases "lob = 0")
      case False
      define k where "k = mi_bsr lob"
      note bs = lobits_bsr [OF False [unfolded lo] b, folded lo, folded k_def]
      have "mi_segment_of cookie_ok seg_at mp p = Some (found cookie_ok seg_at p (n - (b - k)))"
        using st nm False by (simp add: k_def)
      moreover have "n - (b - k) = i * 64 + k" using bs(1) nib by simp
      moreover have "\<not> map_bit mp j" if "i * 64 + k < j" "j < n" for j
      proof -
        define d where "d = j - i * 64"
        have d: "j = i * 64 + d" "k < d" "d < b" using that nib by (auto simp: d_def)
        then show ?thesis using mbj [OF d(3)] bs(3) [of d] by auto
      qed
      ultimately have "\<exists>m. m < n \<and> m div 64 = n div 64 \<and> map_bit mp m \<and> (\<forall>j. m < j \<longrightarrow> j < n \<longrightarrow> \<not> map_bit mp j) \<and>
          mi_segment_of cookie_ok seg_at mp p = Some (found cookie_ok seg_at p m)"
        using bs(1,2) b nib mbj [OF bs(1)] by (intro exI [of _ "i * 64 + k"]) simp
      then show ?thesis using nm True unfolding n_def by blast
    next
      case lz: True
      have none: "\<forall>j. j < n \<longrightarrow> j div 64 = n div 64 \<longrightarrow> \<not> map_bit mp j"
      proof (intro allI impI)
        fix j assume j: "j < n" "j div 64 = n div 64"
        define d where "d = j mod 64"
        have je: "j = i * 64 + d" using j(2) div_mult_mod_eq [of j 64] by (simp add: d_def i_def)
        then have "d < b" using j(1) nib by simp
        note je this
        then show "\<not> map_bit mp j" using je mbj [of d] lobits_zero [OF lz [unfolded lo] b, of d] by auto
      qed
      show ?thesis
      proof (cases "i = 0")
        case True
        then have "mi_segment_of cookie_ok seg_at mp p = Some None" using st nm lz by simp
        then show ?thesis using nm none unfolding n_def by blast
      next
        case False
        then obtain lo where sc: "map_scan_down mp i = Some (lo, mp ! lo)" "lo < i" "mp ! lo = 0 \<or> lo = 0"
          using scan_down_spec [of i mp] l by auto
        show ?thesis
        proof (cases "mp ! lo = 0")
          case True
          then have "mi_segment_of cookie_ok seg_at mp p = Some None" using st nm lz False sc(1) by simp
          then show ?thesis using nm none unfolding n_def by blast
        next
          case nz: False
          then have "lo = 0" using sc(3) by simp
          note bs = mi_bsr_spec [OF nz]
          have "mi_segment_of cookie_ok seg_at mp p = Some (found cookie_ok seg_at p (n - (i * 64 + b - mi_bsr (mp ! lo))))"
            using st nm lz False sc(1) nz \<open>lo = 0\<close> by simp
          moreover have "n - (i * 64 + b - mi_bsr (mp ! lo)) = mi_bsr (mp ! lo)" using bs(1) sc(2) nib by simp
          moreover have "map_bit mp (mi_bsr (mp ! lo))" using bs(1,2) \<open>lo = 0\<close> by (simp add: map_bit_def)
          ultimately have "\<exists>lo. lo < n div 64 \<and> map_scan_down mp (n div 64) = Some (lo, mp ! lo) \<and> mp ! lo \<noteq> 0 \<and> lo = 0 \<and>
              map_bit mp (mi_bsr (mp ! lo)) \<and> mi_bsr (mp ! lo) < 64 \<and>
              mi_segment_of cookie_ok seg_at mp p = Some (found cookie_ok seg_at p (mi_bsr (mp ! lo)))"
            using sc(1,2) nz bs(1) \<open>lo = 0\<close> unfolding i_def by (intro exI [of _ lo]) simp
          then show ?thesis using nm none True unfolding n_def by blast
        qed
      qed
    qed
  qed
qed

lemma found_Some: "found cookie_ok seg_at p m = Some n \<Longrightarrow> n = m \<and> 0 < m \<and> p < seg_addr m + mi_segment_size (seg_at m)"
  by (auto simp: found_def split: if_splits)

lemma found_inside: "segs_ok cookie_ok seg_at mp \<Longrightarrow> map_bit mp m \<Longrightarrow> inside_segment seg_at m p \<Longrightarrow> found cookie_ok seg_at p m = Some m"
  by (auto simp: found_def segs_ok_def inside_segment_def)

lemma bit_before:
  assumes "segs_ok cookie_ok seg_at mp" "inside_segment seg_at n p" "map_bit mp n" "0 < p"
  shows "n \<le> ptr_seg p"
proof (rule ccontr)
  assume "\<not> n \<le> ptr_seg p"
  then have "seg_addr (ptr_seg p + 1) \<le> seg_addr n" by (intro seg_addr_mono) simp
  then show False using ptr_seg_bounds(2) [OF assms(4)] assms(2) by (simp add: inside_segment_def)
qed

section \<open>Properties\<close>

text \<open>
  C38: the search in the map of segments never reads outside the map and never gives a wrong
  segment: what it gives is in the map and holds the pointer (by its size, or in its first
  MI_SEGMENT_SIZE bytes). It does find the segment of every pointer whose own MI_SEGMENT_SIZE
  bytes and the beginning of the segment have their bits in the same word of the map.
\<close>

theorem mi_segment_of_sound:
  assumes ok: "segs_ok cookie_ok seg_at mp" and p: "0 < p"
  shows "\<exists>r. mi_segment_of cookie_ok seg_at mp p = Some r \<and>
    (\<forall>n. r = Some n \<longrightarrow> map_bit mp n \<and> seg_addr n < p \<and> (p \<le> seg_addr (n + 1) \<or> inside_segment seg_at n p)) \<and>
    (\<forall>n. map_bit mp n \<and> inside_segment seg_at n p \<and> n div 64 = ptr_seg p div 64 \<longrightarrow> r = Some n)"
proof -
  have mok: "map_ok mp" using ok by (simp add: segs_ok_def)
  define g where "g = ptr_seg p"
  note gb = ptr_seg_bounds [OF p, folded g_def]
  have below: "seg_addr m < p" if "m < g" for m using seg_addr_mono [of m g] gb(1) that by linarith
  have eqn: "n = m" if "map_bit mp n" "inside_segment seg_at n p" "n div 64 = g div 64" "\<not> map_bit mp g"
    "map_bit mp m" "m < g" "\<forall>j. m < j \<longrightarrow> j < g \<longrightarrow> \<not> map_bit mp j" for n m
  proof -
    have "n < g" using bit_before [OF ok that(2,1) p] that(1,4) unfolding g_def by (metis order_le_less)
    moreover have "\<not> n < m" using none_between [OF ok that(2,1) _ _ p, of m] that(5,6) unfolding g_def by auto
    ultimately show ?thesis using that(1,7) by (meson linorder_neqE_nat)
  qed
  from segment_of_cases [OF mok p, of cookie_ok seg_at, folded g_def]
  consider (fast) "map_bit mp g" "mi_segment_of cookie_ok seg_at mp p = Some (Some g)"
    | (same) m where "\<not> map_bit mp g" "m < g" "m div 64 = g div 64" "map_bit mp m" "\<forall>j. m < j \<longrightarrow> j < g \<longrightarrow> \<not> map_bit mp j"
       "mi_segment_of cookie_ok seg_at mp p = Some (found cookie_ok seg_at p m)"
    | (first) lo where "\<not> map_bit mp g" "\<forall>j. j < g \<longrightarrow> j div 64 = g div 64 \<longrightarrow> \<not> map_bit mp j" "lo < g div 64"
       "map_bit mp (mi_bsr (mp ! lo))" "mi_bsr (mp ! lo) < 64"
       "mi_segment_of cookie_ok seg_at mp p = Some (found cookie_ok seg_at p (mi_bsr (mp ! lo)))"
    | (none) "\<not> map_bit mp g" "mi_segment_of cookie_ok seg_at mp p = Some None"
       "g < MI_SEGMENT_MAP_BITS \<longrightarrow> (\<forall>j. j < g \<longrightarrow> j div 64 = g div 64 \<longrightarrow> \<not> map_bit mp j)"
    by blast
  then show ?thesis
  proof cases
    case fast
    have "n = g" if "map_bit mp n" "inside_segment seg_at n p" for n
      using none_between [OF ok that(2,1) _ _ p, of g] bit_before [OF ok that(2,1) p] fast(1) unfolding g_def
      by (metis order_le_less order_refl)
    then show ?thesis using fast gb unfolding g_def by (intro exI [of _ "Some g"]) (auto simp: g_def)
  next
    case same
    show ?thesis
    proof (intro exI [of _ "found cookie_ok seg_at p m"] conjI allI impI, rule same(6))
      fix n assume "found cookie_ok seg_at p m = Some n"
      from found_Some [OF this] show "map_bit mp n" "seg_addr n < p" "p \<le> seg_addr (n + 1) \<or> inside_segment seg_at n p"
        using same(4) below [OF same(2)] by (auto simp: inside_segment_def)
    next
      fix n assume n: "map_bit mp n \<and> inside_segment seg_at n p \<and> n div 64 = ptr_seg p div 64"
      then have "n = m" using eqn [of n m] same unfolding g_def by blast
      then show "found cookie_ok seg_at p m = Some n" using found_inside [OF ok same(4)] n by simp
    qed
  next
    case first
    have lt: "mi_bsr (mp ! lo) < g" using first(3,5) by (metis div_less gr_implies_not0 not_less_iff_gr_or_eq order.strict_trans)
    show ?thesis
    proof (intro exI [of _ "found cookie_ok seg_at p (mi_bsr (mp ! lo))"] conjI allI impI, rule first(6))
      fix n assume "found cookie_ok seg_at p (mi_bsr (mp ! lo)) = Some n"
      from found_Some [OF this] show "map_bit mp n" "seg_addr n < p" "p \<le> seg_addr (n + 1) \<or> inside_segment seg_at n p"
        using first(4) below [OF lt] by (auto simp: inside_segment_def)
    next
      fix n assume n: "map_bit mp n \<and> inside_segment seg_at n p \<and> n div 64 = ptr_seg p div 64"
      then have "n \<le> g" using bit_before [OF ok _ _ p] unfolding g_def by blast
      then show "found cookie_ok seg_at p (mi_bsr (mp ! lo)) = Some n" using n first(1,2) unfolding g_def by (metis order_le_less)
    qed
  next
    case none
    have "\<not> (map_bit mp n \<and> inside_segment seg_at n p \<and> n div 64 = g div 64)" for n
    proof
      assume n: "map_bit mp n \<and> inside_segment seg_at n p \<and> n div 64 = g div 64"
      then have "n < g" using bit_before [OF ok _ _ p, of n] none(1) unfolding g_def by (metis order_le_less)
      moreover have "g < MI_SEGMENT_MAP_BITS"
      proof -
        have "g div 64 < MI_SEGMENT_MAP_BITS div 64" using n by (auto simp: map_bit_def)
        then show ?thesis by simp
      qed
      ultimately show False using none(3) n by blast
    qed
    then show ?thesis using none(2) unfolding g_def by (intro exI [of _ None]) auto
  qed
qed

text \<open>
  Pointers deep inside a huge segment are not found. If the segment of a pointer begins in
  an earlier word of the map than the pointer's, and not in the first word, the result is NULL:
  the loop that should go down to the next word that is not zero goes on while the word is not
  zero, so it passes the word that has the segment, or stops at an empty word above it.
\<close>

theorem mi_segment_of_misses:
  assumes ok: "segs_ok cookie_ok seg_at mp" and n: "map_bit mp n" "inside_segment seg_at n p"
    and w: "64 \<le> n" "n div 64 < ptr_seg p div 64"
  shows "mi_segment_of cookie_ok seg_at mp p = Some None"
proof -
  have p: "0 < p" using n(2) by (simp add: inside_segment_def)
  have mok: "map_ok mp" using ok by (simp add: segs_ok_def)
  define g where "g = ptr_seg p"
  have ng: "n < g" using w(2) unfolding g_def by (metis div_le_mono not_le)
  have no: "\<not> map_bit mp m" if "n < m" "m \<le> g" for m using none_between [OF ok n(2,1)] that p unfolding g_def by blast
  have miss: "found cookie_ok seg_at p m = None" if "map_bit mp m" "m < n" for m
  proof -
    have "seg_addr m + mi_segment_size (seg_at m) \<le> seg_addr n" using ok n(1) that by (simp add: segs_ok_def)
    then show ?thesis using n(2) by (auto simp: found_def inside_segment_def)
  qed
  from segment_of_cases [OF mok p, of cookie_ok seg_at, folded g_def]
  consider (fast) "map_bit mp g"
    | (same) m where "m < g" "m div 64 = g div 64" "map_bit mp m"
    | (first) lo where "map_bit mp (mi_bsr (mp ! lo))" "mi_bsr (mp ! lo) < 64"
       "mi_segment_of cookie_ok seg_at mp p = Some (found cookie_ok seg_at p (mi_bsr (mp ! lo)))"
    | (none) "mi_segment_of cookie_ok seg_at mp p = Some None"
    by blast
  then show ?thesis
  proof cases
    case fast then show ?thesis using no [of g] ng by simp
  next
    case same
    have "n < m" using same(2) w(2) unfolding g_def by (metis div_le_mono not_le)
    then show ?thesis using no [of m] same by simp
  next
    case first
    have "mi_bsr (mp ! lo) < n" using first(2) w(1) by linarith
    then show ?thesis using first(1,3) miss by simp
  qed
qed

text \<open>One huge segment of 100 times MI_SEGMENT_SIZE, used to instantiate the properties.\<close>

definition sample_map :: "usize list" where
  "sample_map = (replicate (MI_SEGMENT_MAP_WSIZE + 1) 0)[1 := push_bit 36 1]"

definition sample_huge :: "nat \<Rightarrow> mi_segment" where
  "sample_huge n = sample_seg\<lparr>kind := MI_SEGMENT_HUGE, segment_slices := 512 * 100\<rparr>"

lemma one_word: "k < n \<Longrightarrow> ((replicate n 0)[1 := v]) ! k = (if k = 1 then v else (0 :: usize))"
  by (simp add: nth_list_update)

lemma sample_map_nth: "k < MI_SEGMENT_MAP_WSIZE + 1 \<Longrightarrow> sample_map ! k = (if k = 1 then push_bit 36 1 else 0)"
  unfolding sample_map_def by (rule one_word)

lemma sample_map_bit: "map_bit sample_map n \<longleftrightarrow> n = 100"
proof -
  have e: "n div 64 = 1 \<and> n mod 64 = 36 \<longleftrightarrow> n = 100"
  proof
    assume "n div 64 = 1 \<and> n mod 64 = 36"
    then have "n = 1 * 64 + 36" using div_mult_mod_eq [of n 64] by metis
    then show "n = 100" by simp
  qed simp
  have b: "bit (push_bit 36 1 :: usize) k \<longleftrightarrow> k = 36" for k unfolding push_bit_of_1 bit_push1 by simp
  show ?thesis
  proof (cases "n < MI_SEGMENT_MAP_BITS")
    case True
    then have "n div 64 < MI_SEGMENT_MAP_WSIZE + 1" by simp
    then have "sample_map ! (n div 64) = (if n div 64 = 1 then push_bit 36 1 else 0)" by (rule sample_map_nth)
    then have "bit (sample_map ! (n div 64)) (n mod 64) \<longleftrightarrow> n div 64 = 1 \<and> n mod 64 = 36" using b [of "n mod 64"] by (cases "n div 64 = 1") (simp_all only: if_True if_False bit_0_eq, simp_all)
    then show ?thesis using True e unfolding map_bit_def by blast
  next
    case False
    then show ?thesis by (auto simp: map_bit_def)
  qed
qed

lemma sample_map_ok: "segs_ok (\<lambda>_. True) sample_huge sample_map"
proof -
  have "length sample_map = MI_SEGMENT_MAP_WSIZE + 1" unfolding sample_map_def length_list_update length_replicate ..
  moreover have "sample_map ! MI_SEGMENT_MAP_WSIZE = 0" using sample_map_nth [of MI_SEGMENT_MAP_WSIZE] by simp
  ultimately show ?thesis by (simp add: segs_ok_def sample_map_bit map_ok_def)
qed

lemma sample_inside: "inside_segment sample_huge 100 (seg_addr 101 + 8)" "inside_segment sample_huge 100 (seg_addr 150 + 8)"
  "ptr_seg (seg_addr 101 + 8) = 101" "ptr_seg (seg_addr 150 + 8) = 150"
  by (simp_all add: inside_segment_def sample_huge_def mi_segment_size_def seg_addr_def ptr_seg_def)

lemma mi_segment_of_sound_witness:
  "mi_segment_of (\<lambda>_. True) sample_huge sample_map (seg_addr 101 + 8) = Some (Some 100)"
proof -
  have "0 < seg_addr 101 + 8" by simp
  then show ?thesis
    using mi_segment_of_sound [OF sample_map_ok, of "seg_addr 101 + 8"] sample_inside sample_map_bit by auto
qed

lemma mi_segment_of_misses_witness:
  "inside_segment sample_huge 100 (seg_addr 150 + 8) \<and>
   mi_segment_of (\<lambda>_. True) sample_huge sample_map (seg_addr 150 + 8) = Some None"
  using mi_segment_of_misses [OF sample_map_ok _ sample_inside(2)] sample_inside sample_map_bit by simp

end
