(* ===== verification/Spans.thy ===== *)
theory Spans
  imports SegmentMap PageFree
begin

text \<open>
  The slices of segments (src/segment.c). A segment is divided into slices; a span of slices is
  a page or free, and the free spans of a thread's segments are kept in queues by their size.
  The slices are the page structures of MiState: slice i of segment n is Slice n i. The state
  has the segment headers, the span queues and counters of the thread (mi_segments_tld_t), the
  map of segments and the arenas. None is an access outside the slices or the span queues of
  the code, or a loop that does not end.
\<close>

section \<open>State\<close>

record span_queue =
  sq_first :: "page_ptr option"
  sq_last :: "page_ptr option"
  sq_slice_count :: nat

record seg_state = mi_mem +
  seg_at :: "nat \<Rightarrow> mi_segment"
  spans :: "span_queue list"
  tld_count :: usize
  tld_peak_count :: usize
  tld_current_size :: usize
  tld_peak_size :: usize
  seg_map :: "usize list"
  ars :: mi_arenas

definition MI_SEGMENT_BIN_MAX :: nat where [simp]: "MI_SEGMENT_BIN_MAX = 35"

text \<open>The size of mi_slice_t, in which slice offsets are measured.\<close>

definition sizeof_mi_slice :: nat where [simp]: "sizeof_mi_slice = 80"

definition mi_span_queues_empty :: "span_queue list" where
  "mi_span_queues_empty = map (\<lambda>c. \<lparr>sq_first = None, sq_last = None, sq_slice_count = c\<rparr>)
    [1, 1, 2, 3, 4, 5, 6, 7, 10, 12, 14, 16, 20, 24, 28, 32, 40,
     48, 56, 64, 80, 96, 112, 128, 160, 192, 224, 256, 320, 384, 448, 512, 640, 768, 896, 1024]"

definition upd_seg :: "nat \<Rightarrow> (mi_segment \<Rightarrow> mi_segment) \<Rightarrow> 'a seg_state_scheme \<Rightarrow> 'a seg_state_scheme" where
  "upd_seg n f s = s\<lparr>seg_at := (seg_at s)(n := f (seg_at s n))\<rparr>"

definition upd_span :: "nat \<Rightarrow> (span_queue \<Rightarrow> span_queue) \<Rightarrow> 'a seg_state_scheme \<Rightarrow> 'a seg_state_scheme" where
  "upd_span q f s = s\<lparr>spans := (spans s)[q := f (spans s ! q)]\<rparr>"

text \<open>The array of slices has one more entry than MI_SLICES_PER_SEGMENT.\<close>

definition upd_slice :: "nat \<Rightarrow> nat \<Rightarrow> (mi_page \<Rightarrow> mi_page) \<Rightarrow> 'a seg_state_scheme \<Rightarrow> 'a seg_state_scheme option" where
  "upd_slice n i f s = (if i \<le> MI_SLICES_PER_SEGMENT then Some (upd_page (Slice n i) f s) else None)"

definition slice_at :: "nat \<Rightarrow> nat \<Rightarrow> 'a seg_state_scheme \<Rightarrow> mi_page option" where
  "slice_at n i s = (if i \<le> MI_SLICES_PER_SEGMENT then Some (page_at s (Slice n i)) else None)"

fun slice_seg :: "page_ptr \<Rightarrow> nat" where
  "slice_seg (Slice n i) = n" | "slice_seg Page_empty = 0"

fun mi_slice_index :: "page_ptr \<Rightarrow> nat" where
  "mi_slice_index (Slice n i) = i" | "mi_slice_index Page_empty = 0"

text \<open>The first slice of a span; None where the byte offset does not lead to a slice.\<close>

definition mi_slice_first :: "nat \<Rightarrow> nat \<Rightarrow> 'a seg_state_scheme \<Rightarrow> nat option" where
  "mi_slice_first n i s = do {
     sl \<leftarrow> slice_at n i s;
     if slice_offset sl mod sizeof_mi_slice = 0 \<and> slice_offset sl div sizeof_mi_slice \<le> i
     then Some (i - slice_offset sl div sizeof_mi_slice) else None }"

section \<open>Bins and queues\<close>

definition mi_slice_bin8 :: "nat \<Rightarrow> nat" where
  "mi_slice_bin8 count =
     (if count \<le> 1 then count
      else let count = count - 1; sb = mi_bsr (of_nat count)
        in if sb \<le> 2 then count + 1
           else 4 * sb + unat (drop_bit (sb - 2) (of_nat count :: usize) AND 0x03) - 4)"

definition mi_slice_bin :: "nat \<Rightarrow> nat" where
  "mi_slice_bin count = mi_slice_bin8 count"

definition mi_span_queue_push :: "nat \<Rightarrow> page_ptr \<Rightarrow> 'a seg_state_scheme \<Rightarrow> 'a seg_state_scheme" where
  "mi_span_queue_push q p s =
     (let first = sq_first (spans s ! q);
          s = upd_page p (\<lambda>x. x\<lparr>pprev := None, pnext := first\<rparr>) s;
          s = upd_span q (\<lambda>x. x\<lparr>sq_first := Some p\<rparr>) s;
          s = (case first of
                 Some f \<Rightarrow> upd_page f (\<lambda>x. x\<lparr>pprev := Some p\<rparr>) s
               | None \<Rightarrow> upd_span q (\<lambda>x. x\<lparr>sq_last := Some p\<rparr>) s)
      in upd_page p (\<lambda>x. x\<lparr>xblock_size := 0\<rparr>) s)"

definition mi_span_queue_for :: "nat \<Rightarrow> 'a seg_state_scheme \<Rightarrow> nat option" where
  "mi_span_queue_for count s =
     (let bin = mi_slice_bin count in if bin < length (spans s) then Some bin else None)"

definition mi_span_queue_delete :: "nat \<Rightarrow> page_ptr \<Rightarrow> 'a seg_state_scheme \<Rightarrow> 'a seg_state_scheme" where
  "mi_span_queue_delete q p s =
     (let s = (case pprev (page_at s p) of Some b \<Rightarrow> upd_page b (\<lambda>x. x\<lparr>pnext := pnext (page_at s p)\<rparr>) s | None \<Rightarrow> s);
          s = (if sq_first (spans s ! q) = Some p then upd_span q (\<lambda>x. x\<lparr>sq_first := pnext (page_at s p)\<rparr>) s else s);
          s = (case pnext (page_at s p) of Some b \<Rightarrow> upd_page b (\<lambda>x. x\<lparr>pprev := pprev (page_at s p)\<rparr>) s | None \<Rightarrow> s);
          s = (if sq_last (spans s ! q) = Some p then upd_span q (\<lambda>x. x\<lparr>sq_last := pprev (page_at s p)\<rparr>) s else s)
      in upd_page p (\<lambda>x. x\<lparr>pprev := None, pnext := None, xblock_size := 1\<rparr>) s)"

definition mi_slice_is_used :: "mi_page \<Rightarrow> bool" where
  "mi_slice_is_used sl \<longleftrightarrow> xblock_size sl > 0"

definition mi_segment_is_abandoned :: "mi_segment \<Rightarrow> bool" where
  "mi_segment_is_abandoned seg \<longleftrightarrow> thread_id seg = 0"

text \<open>The memory of a segment, changed by an operation of Commit.\<close>

definition with_seg_os ::
  "nat \<Rightarrow> (mi_segment \<Rightarrow> mi_os \<Rightarrow> (mi_segment \<times> mi_os) option) \<Rightarrow> 'a seg_state_scheme \<Rightarrow> 'a seg_state_scheme option" where
  "with_seg_os n f s = do {
     (seg, os) \<leftarrow> f (seg_at s n) (ar_os (ars s));
     Some (s\<lparr>seg_at := (seg_at s)(n := seg), ars := (ars s)\<lparr>ar_os := os\<rparr>\<rparr>) }"

section \<open>Spans\<close>

definition mi_slice_start :: "nat \<Rightarrow> nat \<Rightarrow> nat" where
  "mi_slice_start n i = seg_addr n + i * MI_SEGMENT_SLICE_SIZE"

text \<open>Start and size of the page area that begins at a slice.\<close>

definition mi_segment_page_start_from_slice :: "nat \<Rightarrow> nat \<Rightarrow> usize \<Rightarrow> mi_page \<Rightarrow> nat \<times> nat" where
  "mi_segment_page_start_from_slice n i xblock sl =
     (let psize = slice_count sl * MI_SEGMENT_SLICE_SIZE;
          b = unat xblock;
          start_offset = (if b \<ge> MI_INTPTR_SIZE then (if b \<le> 64 then 3 * b else if b \<le> 512 then b else 0) else 0)
      in (seg_addr n + (i * MI_SEGMENT_SLICE_SIZE + start_offset), psize - start_offset))"

definition mi_segment_page_start :: "nat \<Rightarrow> nat \<Rightarrow> mi_page \<Rightarrow> nat \<times> nat" where
  "mi_segment_page_start n i page = mi_segment_page_start_from_slice n i (xblock_size page) page"

definition mi_segment_span_free ::
  "os_env \<Rightarrow> nat \<Rightarrow> nat \<Rightarrow> nat \<Rightarrow> bool \<Rightarrow> 'a seg_state_scheme \<Rightarrow> 'a seg_state_scheme option" where
  "mi_segment_span_free env n slice_index count purge s = do {
     sq \<leftarrow> (if kind (seg_at s n) = MI_SEGMENT_HUGE \<or> mi_segment_is_abandoned (seg_at s n) then Some None
           else do { q \<leftarrow> mi_span_queue_for count s; Some (Some q) });
     let count = (if count = 0 then 1 else count);
     s \<leftarrow> upd_slice n slice_index (\<lambda>x. x\<lparr>slice_count := count mod 2 ^ 32, slice_offset := 0\<rparr>) s;
     s \<leftarrow> (if count > 1 then
             upd_slice n (slice_index + count - 1)
               (\<lambda>x. x\<lparr>slice_count := 0, slice_offset := (sizeof_mi_slice * (count - 1)) mod 2 ^ 32, xblock_size := 0\<rparr>) s
           else Some s);
     s \<leftarrow> (if purge then
             with_seg_os n (mi_segment_schedule_purge env n (mi_slice_start n slice_index) (count * MI_SEGMENT_SLICE_SIZE)) s
           else Some s);
     (case sq of
        Some q \<Rightarrow> Some (mi_span_queue_push q (Slice n slice_index) s)
      | None \<Rightarrow> Some (upd_page (Slice n slice_index) (\<lambda>x. x\<lparr>xblock_size := 0\<rparr>) s)) }"

definition mi_segment_span_remove_from_queue :: "page_ptr \<Rightarrow> 'a seg_state_scheme \<Rightarrow> 'a seg_state_scheme option" where
  "mi_segment_span_remove_from_queue p s = do {
     q \<leftarrow> mi_span_queue_for (slice_count (page_at s p)) s;
     Some (mi_span_queue_delete q p s) }"

text \<open>The result is the index of the first slice of the free span.\<close>

definition mi_segment_span_free_coalesce ::
  "os_env \<Rightarrow> nat \<Rightarrow> nat \<Rightarrow> 'a seg_state_scheme \<Rightarrow> (nat \<times> 'a seg_state_scheme) option" where
  "mi_segment_span_free_coalesce env n i s =
     (let segment = seg_at s n;
          is_abandoned = mi_segment_is_abandoned segment
      in if kind segment = MI_SEGMENT_HUGE
         then Some (i, upd_page (Slice n i) (\<lambda>x. x\<lparr>xblock_size := 0\<rparr>) s)
         else do {
           slice \<leftarrow> slice_at n i s;
           let count = slice_count slice;
           let next = i + slice_count slice;
           (count, s) \<leftarrow>
             (if next < slice_entries segment then do {
                nsl \<leftarrow> slice_at n next s;
                if xblock_size nsl = 0 then do {
                  s \<leftarrow> (if \<not> is_abandoned then mi_segment_span_remove_from_queue (Slice n next) s else Some s);
                  Some (count + slice_count nsl, s) }
                else Some (count, s) }
              else Some (count, s));
           (i, count, s) \<leftarrow>
             (if i > 0 then do {
                prev \<leftarrow> mi_slice_first n (i - 1) s;
                psl \<leftarrow> slice_at n prev s;
                if xblock_size psl = 0 then do {
                  s \<leftarrow> (if \<not> is_abandoned then mi_segment_span_remove_from_queue (Slice n prev) s else Some s);
                  Some (prev, count + slice_count psl, s) }
                else Some (i, count, s) }
              else Some (i, count, s));
           s \<leftarrow> mi_segment_span_free env n i count True s;
           Some (i, s) })"


text \<open>The back offsets of the slices i + 1 to i + extra, in this order.\<close>

fun set_back_offsets :: "nat \<Rightarrow> nat \<Rightarrow> nat \<Rightarrow> 'a seg_state_scheme \<Rightarrow> 'a seg_state_scheme option" where
  "set_back_offsets n i 0 s = Some s"
| "set_back_offsets n i (Suc k) s = do {
     s \<leftarrow> set_back_offsets n i k s;
     upd_slice n (i + Suc k)
       (\<lambda>x. x\<lparr>slice_offset := (sizeof_mi_slice * Suc k) mod 2 ^ 32, slice_count := 0, xblock_size := 1\<rparr>) s }"

text \<open>The result is whether the span became a page, Slice n slice_index.\<close>

definition mi_segment_span_allocate ::
  "os_env \<Rightarrow> nat \<Rightarrow> nat \<Rightarrow> nat \<Rightarrow> 'a seg_state_scheme \<Rightarrow> (bool \<times> 'a seg_state_scheme) option" where
  "mi_segment_span_allocate env n slice_index count s = do {
     slice \<leftarrow> slice_at n slice_index s;
     (ok, seg, os) \<leftarrow> mi_segment_ensure_committed env n (fst (mi_segment_page_start_from_slice n slice_index 0 slice))
                        (count * MI_SEGMENT_SLICE_SIZE) (seg_at s n) (ar_os (ars s));
     let s = s\<lparr>seg_at := (seg_at s)(n := seg), ars := (ars s)\<lparr>ar_os := os\<rparr>\<rparr>;
     if \<not> ok then Some (False, s)
     else do {
       let bsize = count * MI_SEGMENT_SLICE_SIZE;
       s \<leftarrow> upd_slice n slice_index (\<lambda>x. x\<lparr>slice_offset := 0, slice_count := count mod 2 ^ 32,
               xblock_size := of_nat (if bsize \<ge> MI_HUGE_BLOCK_SIZE then MI_HUGE_BLOCK_SIZE else bsize)\<rparr>) s;
       let extra = (if count = 0 then SIZE_MAX else count - 1);
       let extra = (if extra > MI_MAX_SLICE_OFFSET then MI_MAX_SLICE_OFFSET else extra);
       let entries = slice_entries (seg_at s n);
       let extra = (if slice_index + extra \<ge> entries then entries - slice_index - 1 else extra);
       s \<leftarrow> set_back_offsets n slice_index extra s;
       let last_i = int slice_index + int count - 1;
       let last_i = (if last_i > int entries then int entries else last_i);
       s \<leftarrow> (if last_i > int slice_index then
               upd_slice n (nat last_i) (\<lambda>x. x\<lparr>slice_offset := (sizeof_mi_slice * (nat last_i - slice_index)) mod 2 ^ 32,
                 slice_count := 0, xblock_size := 1\<rparr>) s
             else Some s);
       s \<leftarrow> upd_slice n slice_index (\<lambda>x. x\<lparr>is_committed := True\<rparr>) s;
       Some (True, upd_seg n (\<lambda>x. x\<lparr>seg_used := seg_used x + 1\<rparr>) s) } }"

definition mi_segment_slice_split ::
  "os_env \<Rightarrow> nat \<Rightarrow> nat \<Rightarrow> nat \<Rightarrow> 'a seg_state_scheme \<Rightarrow> 'a seg_state_scheme option" where
  "mi_segment_slice_split env n i count s = do {
     slice \<leftarrow> slice_at n i s;
     if slice_count slice \<le> count then Some s
     else do {
       let next_index = i + count;
       let next_count = slice_count slice - count;
       s \<leftarrow> mi_segment_span_free env n next_index next_count False s;
       upd_slice n i (\<lambda>x. x\<lparr>slice_count := count mod 2 ^ 32\<rparr>) s } }"

section \<open>Finding a span\<close>

text \<open>The first span of a queue that is large enough and in memory that suits the arena.\<close>

partial_function (option) span_find ::
  "int \<Rightarrow> nat \<Rightarrow> page_ptr option \<Rightarrow> 'a seg_state_scheme \<Rightarrow> page_ptr option option" where
  "span_find req count sl s =
     (case sl of None \<Rightarrow> Some None
      | Some p \<Rightarrow>
          if slice_count (page_at s p) \<ge> count \<and> mi_arena_memid_is_suitable (memid (seg_at s (slice_seg p))) req
          then Some (Some p)
          else span_find req count (pnext (page_at s p)) s)"

text \<open>The queues from sq up.\<close>

function span_search :: "int \<Rightarrow> nat \<Rightarrow> nat \<Rightarrow> 'a seg_state_scheme \<Rightarrow> (nat \<times> page_ptr) option option" where
  "span_search req count sq s =
     (if sq \<le> MI_SEGMENT_BIN_MAX then do {
        r \<leftarrow> span_find req count (sq_first (spans s ! sq)) s;
        case r of Some p \<Rightarrow> Some (Some (sq, p)) | None \<Rightarrow> span_search req count (sq + 1) s }
      else Some None)"
  by auto
termination by (relation "measure (\<lambda>(req, count, sq, s). Suc MI_SEGMENT_BIN_MAX - sq)") auto

declare span_search.simps [simp del]

definition mi_segments_page_find_and_allocate ::
  "os_env \<Rightarrow> nat \<Rightarrow> int \<Rightarrow> 'a seg_state_scheme \<Rightarrow> (page_ptr option \<times> 'a seg_state_scheme) option" where
  "mi_segments_page_find_and_allocate env count req_arena_id s = do {
     sq \<leftarrow> mi_span_queue_for count s;
     let count = (if count = 0 then 1 else count);
     r \<leftarrow> span_search req_arena_id count sq s;
     case r of None \<Rightarrow> Some (None, s)
     | Some (sq, p) \<Rightarrow>
         let n = slice_seg p; i = mi_slice_index p; s = mi_span_queue_delete sq p s
         in do {
           s \<leftarrow> (if slice_count (page_at s p) > count then mi_segment_slice_split env n i count s else Some s);
           (ok, s) \<leftarrow> mi_segment_span_allocate env n i (slice_count (page_at s p)) s;
           if ok then Some (Some p, s)
           else do {
             (_, s) \<leftarrow> mi_segment_span_free_coalesce env n i s;
             Some (None, s) } } }"

section \<open>Allocating and freeing segments\<close>

text \<open>The size of mi_segment_t.\<close>

definition sizeof_mi_segment :: nat where "sizeof_mi_segment = 41304"

text \<open>The number of slices of a segment, the size of the header and the slices for the header.\<close>

definition mi_segment_calculate_slices :: "os_env \<Rightarrow> nat \<Rightarrow> nat \<times> nat \<times> nat" where
  "mi_segment_calculate_slices env required =
     (let isize = align_up sizeof_mi_segment (mi_os_page_size env);
          pre_size = isize;
          isize = align_up isize MI_SEGMENT_SLICE_SIZE;
          info_slices = isize div MI_SEGMENT_SLICE_SIZE;
          segment_size = (if required = 0 then MI_SEGMENT_SIZE else align_up (required + isize) MI_SEGMENT_SLICE_SIZE)
      in (segment_size div MI_SEGMENT_SLICE_SIZE, pre_size, info_slices))"

definition mi_segments_track_size :: "int \<Rightarrow> 'a seg_state_scheme \<Rightarrow> 'a seg_state_scheme" where
  "mi_segments_track_size sz s =
     (let s = s\<lparr>tld_count := tld_count s + (if sz \<ge> 0 then 1 else - 1)\<rparr>;
          s = (if tld_count s > tld_peak_count s then s\<lparr>tld_peak_count := tld_count s\<rparr> else s);
          s = s\<lparr>tld_current_size := tld_current_size s + of_int sz\<rparr>
      in if tld_current_size s > tld_peak_size s then s\<lparr>tld_peak_size := tld_current_size s\<rparr> else s)"

text \<open>
  The segment, its slices and the slices of its header; None for a null pointer. The header is
  written into the new memory; a segment that does not begin at a multiple of MI_SEGMENT_SIZE
  is undefined, since every later access finds the header by masking.
\<close>

definition mi_segment_os_alloc ::
  "os_env \<Rightarrow> nat \<Rightarrow> nat \<Rightarrow> bool \<Rightarrow> int \<Rightarrow> nat \<times> nat \<Rightarrow> bool \<Rightarrow> 'a seg_state_scheme \<Rightarrow>
     ((nat option \<times> nat \<times> nat) \<times> 'a seg_state_scheme) option" where
  "mi_segment_os_alloc env required page_alignment eager_delayed req_arena_id sizes commit s =
     (case sizes of (seg_slices, info_slices) \<Rightarrow>
        let allow_large = \<not> eager_delayed;
            (alignment, align_offset, seg_slices, info_slices) =
              (if page_alignment > 0 then
                 let info_size = info_slices * MI_SEGMENT_SLICE_SIZE;
                     align_offset = align_up info_size MI_SEGMENT_SIZE;
                     extra = align_offset - info_size
                 in case mi_segment_calculate_slices env (required + extra) of (sls, pre, info) \<Rightarrow>
                      (page_alignment, align_offset, sls, info)
               else (MI_SEGMENT_SIZE, 0, seg_slices, info_slices));
            seg_size = seg_slices * MI_SEGMENT_SLICE_SIZE
        in do {
          ((p, mid), ar) \<leftarrow> mi_arena_alloc_aligned env seg_size alignment align_offset commit allow_large req_arena_id (ars s);
          let s = s\<lparr>ars := ar\<rparr>;
          if p = 0 then Some ((None, seg_slices, info_slices), s)
          else do {
            (ok, cm, s) \<leftarrow>
              (if initially_committed mid then Some (True, mi_commit_mask_create_full, s)
               else do {
                 let commit_needed = divide_up (info_slices * MI_SEGMENT_SLICE_SIZE) MI_COMMIT_SIZE;
                 cm \<leftarrow> mi_commit_mask_create 0 commit_needed;
                 (case mi_os_commit env p (commit_needed * MI_COMMIT_SIZE) (ar_os (ars s)) of ((ok, is_zero), os) \<Rightarrow>
                    let s = s\<lparr>ars := (ars s)\<lparr>ar_os := os\<rparr>\<rparr>
                    in if ok then Some (True, cm, s)
                       else do { ar \<leftarrow> mi_arena_free env p seg_size 0 mid (ars s); Some (False, cm, s\<lparr>ars := ar\<rparr>) }) });
            if \<not> ok then Some ((None, seg_slices, info_slices), s)
            else if p mod MI_SEGMENT_SIZE \<noteq> 0 then None
            else let n = p div MI_SEGMENT_SIZE;
                     s = upd_seg n (\<lambda>x. x\<lparr>memid := mid, allow_decommit := \<not> is_pinned mid,
                           allow_purge := \<not> is_pinned mid \<and> optv env mi_option_purge_delay \<ge> 0,
                           segment_size := seg_size, commit_mask := cm, purge_expire := 0,
                           purge_mask := mi_commit_mask_create_empty, abandoned_next := 0\<rparr>) s;
                     s = mi_segments_track_size (int seg_size) s
              in do { mp \<leftarrow> mi_segment_map_allocated_at n (seg_map s);
                      Some ((Some n, seg_slices, info_slices), s\<lparr>seg_map := mp\<rparr>) } } })"

text \<open>The zeroed part of a header: everything from next to the last slice.\<close>

definition zero_segment :: "nat \<Rightarrow> 'a seg_state_scheme \<Rightarrow> 'a seg_state_scheme" where
  "zero_segment n s =
     (upd_seg n (\<lambda>x. x\<lparr>abandoned := 0, abandoned_visits := 0, seg_used := 0, segment_slices := 0, segment_info_slices := 0,
        kind := MI_SEGMENT_NORMAL, slice_entries := 0, thread_id := 0\<rparr>) s)
       \<lparr>page_at := (\<lambda>p. case p of Slice m i \<Rightarrow> if m = n then mi_page_empty else page_at s p | Page_empty \<Rightarrow> page_at s p)\<rparr>"

text \<open>
  Memory that the arena reports as zero is zero, so the header is zeroed in either case.
  The result is the segment and, for a huge one, the index of its page.
\<close>

definition mi_segment_alloc ::
  "os_env \<Rightarrow> nat \<Rightarrow> nat \<Rightarrow> nat \<Rightarrow> nat \<Rightarrow> int \<Rightarrow> 'a seg_state_scheme \<Rightarrow> ((nat \<times> nat option) option \<times> 'a seg_state_scheme) option" where
  "mi_segment_alloc env tid thread_count required page_alignment req_arena_id s =
     (case mi_segment_calculate_slices env required of (seg_slices, pre_size, info_slices) \<Rightarrow>
        let eager_delay = (thread_count > 1 \<and> tld_count s < of_int (optv env mi_option_eager_commit_delay));
            eager = (\<not> eager_delay \<and> optv env mi_option_eager_commit \<noteq> 0);
            commit = (eager \<or> required > 0)
        in do {
          ((r, seg_slices, info_slices), s) \<leftarrow>
             mi_segment_os_alloc env required page_alignment eager_delay req_arena_id (seg_slices, info_slices) commit s;
          case r of None \<Rightarrow> Some (None, s)
          | Some n \<Rightarrow> do {
              let s = zero_segment n s;
              let entries = (if seg_slices > MI_SLICES_PER_SEGMENT then MI_SLICES_PER_SEGMENT else seg_slices);
              let s = upd_seg n (\<lambda>x. x\<lparr>segment_slices := seg_slices, segment_info_slices := info_slices, thread_id := tid,
                        slice_entries := entries, kind := (if required = 0 then MI_SEGMENT_NORMAL else MI_SEGMENT_HUGE)\<rparr>) s;
              (ok, s) \<leftarrow> mi_segment_span_allocate env n 0 info_slices s;
              if \<not> ok then Some (None, s)
              else do {
                let s = upd_seg n (\<lambda>x. x\<lparr>seg_used := 0\<rparr>) s;
                if kind (seg_at s n) = MI_SEGMENT_NORMAL then do {
                  s \<leftarrow> mi_segment_span_free env n info_slices (slice_entries (seg_at s n) - info_slices) False s;
                  Some (Some (n, None), s) }
                else do {
                  (ok, s) \<leftarrow> mi_segment_span_allocate env n info_slices (seg_slices - info_slices) s;
                  Some (Some (n, if ok then Some info_slices else None), s) } } } })"

definition mi_segment_os_free :: "os_env \<Rightarrow> nat \<Rightarrow> 'a seg_state_scheme \<Rightarrow> 'a seg_state_scheme option" where
  "mi_segment_os_free env n s = do {
     let s = upd_seg n (\<lambda>x. x\<lparr>thread_id := 0\<rparr>) s;
     mp \<leftarrow> mi_segment_map_freed_at n (seg_map s);
     let s = mi_segments_track_size (- int (mi_segment_size (seg_at s n))) (s\<lparr>seg_map := mp\<rparr>);
     let sz = mi_segment_size (seg_at s n);
     let csize = mi_commit_mask_committed_size (commit_mask (seg_at s n)) sz;
     ar \<leftarrow> mi_arena_free env (seg_addr n) sz csize (memid (seg_at s n)) (ars s);
     Some (s\<lparr>ars := ar\<rparr>) }"

text \<open>The loop over the spans of a segment that takes the free ones out of their queues.\<close>

partial_function (option) segment_free_loop :: "nat \<Rightarrow> nat \<Rightarrow> 'a seg_state_scheme \<Rightarrow> 'a seg_state_scheme option" where
  "segment_free_loop n i s =
     (if i < slice_entries (seg_at s n) then do {
        slice \<leftarrow> slice_at n i s;
        s \<leftarrow> (if xblock_size slice = 0 \<and> kind (seg_at s n) \<noteq> MI_SEGMENT_HUGE
             then mi_segment_span_remove_from_queue (Slice n i) s else Some s);
        segment_free_loop n (i + slice_count slice) s }
      else Some s)"

definition mi_segment_free :: "os_env \<Rightarrow> nat \<Rightarrow> 'a seg_state_scheme \<Rightarrow> 'a seg_state_scheme option" where
  "mi_segment_free env n s = do {
     s \<leftarrow> segment_free_loop n 0 s;
     mi_segment_os_free env n s }"

text \<open>Decrementing a size_t.\<close>

definition dec_size :: "nat \<Rightarrow> nat" where
  "dec_size x = (if x = 0 then SIZE_MAX else x - 1)"

text \<open>A page is cleared, except for the fields of the segment, and its span freed.\<close>

definition mi_segment_page_clear :: "os_env \<Rightarrow> nat \<Rightarrow> nat \<Rightarrow> 'a seg_state_scheme \<Rightarrow> (nat \<times> 'a seg_state_scheme) option" where
  "mi_segment_page_clear env n i s = do {
     page \<leftarrow> slice_at n i s;
     let s = (if allow_decommit (seg_at s n) \<and> optv env mi_option_deprecated_page_reset \<noteq> 0 then
                (case mi_segment_page_start n i page of (start, psize) \<Rightarrow>
                   s\<lparr>ars := (ars s)\<lparr>ar_os := snd (mi_os_reset env start psize (ar_os (ars s)))\<rparr>\<rparr>)
              else s);
     s \<leftarrow> upd_slice n i (\<lambda>x. mi_page_empty\<lparr>slice_count := slice_count x, slice_offset := slice_offset x,
            is_committed := is_committed x, xblock_size := 1\<rparr>) s;
     (i, s) \<leftarrow> mi_segment_span_free_coalesce env n i s;
     Some (i, upd_seg n (\<lambda>x. x\<lparr>seg_used := dec_size (seg_used x)\<rparr>) s) }"

section \<open>The spans of a segment as a list\<close>

text \<open>A span of c slices at index i, in use or free, and a list of spans from i to e.\<close>

definition span_ok :: "(nat \<Rightarrow> mi_page) \<Rightarrow> nat \<Rightarrow> nat \<Rightarrow> bool \<Rightarrow> bool" where
  "span_ok f i c u \<longleftrightarrow> slice_count (f i) = c \<and> slice_offset (f i) = 0 \<and> (xblock_size (f i) \<noteq> 0 \<longleftrightarrow> u) \<and>
     (1 < c \<longrightarrow> slice_offset (f (i + c - 1)) = sizeof_mi_slice * (c - 1) \<and> slice_count (f (i + c - 1)) = 0 \<and>
        (xblock_size (f (i + c - 1)) \<noteq> 0 \<longleftrightarrow> u)) \<and>
     (u \<longrightarrow> (\<forall>k. 1 \<le> k \<and> k < c \<and> k \<le> MI_MAX_SLICE_OFFSET \<longrightarrow>
        slice_offset (f (i + k)) = sizeof_mi_slice * k \<and> slice_count (f (i + k)) = 0 \<and> xblock_size (f (i + k)) = 1))"

fun tiled :: "(nat \<Rightarrow> mi_page) \<Rightarrow> nat \<Rightarrow> (nat \<times> bool) list \<Rightarrow> nat \<Rightarrow> bool" where
  "tiled f i [] e \<longleftrightarrow> i = e"
| "tiled f i ((c, u) # L) e \<longleftrightarrow> 0 < c \<and> span_ok f i c u \<and> tiled f (i + c) L e"

definition slices_of :: "(nat \<times> bool) list \<Rightarrow> nat" where
  "slices_of L = sum_list (map fst L)"

text \<open>Where the free spans begin.\<close>

fun frees :: "nat \<Rightarrow> (nat \<times> bool) list \<Rightarrow> nat set" where
  "frees i [] = {}"
| "frees i ((c, u) # L) = (if u then frees (i + c) L else insert i (frees (i + c) L))"

lemma slices_simps [simp]: "slices_of [] = 0" "slices_of (x # L) = fst x + slices_of L" "slices_of (A @ B) = slices_of A + slices_of B"
  by (simp_all add: slices_of_def)

lemma tiled_append: "tiled f i (A @ B) e \<longleftrightarrow> tiled f i A (i + slices_of A) \<and> tiled f (i + slices_of A) B e"
  by (induction A arbitrary: i) (auto simp: add.assoc)

lemma tiled_end: "tiled f i L e \<Longrightarrow> e = i + slices_of L"
proof (induction L arbitrary: i)
  case (Cons x L) then show ?case using Cons.IH [of "i + fst x"] by (cases x) (auto simp: add.assoc)
qed simp

definition same_slice :: "mi_page \<Rightarrow> mi_page \<Rightarrow> bool" where
  "same_slice x y \<longleftrightarrow> slice_count x = slice_count y \<and> slice_offset x = slice_offset y \<and> xblock_size x = xblock_size y"

lemma same_slice_refl [simp]: "same_slice x x"
  by (simp add: same_slice_def)

lemma span_ok_cong:
  assumes "0 < c" "\<And>j. i \<le> j \<Longrightarrow> j < i + c \<Longrightarrow> same_slice (f j) (g j)"
  shows "span_ok f i c u = span_ok g i c u"
proof -
  have "same_slice (f i) (g i)" "1 < c \<Longrightarrow> same_slice (f (i + c - 1)) (g (i + c - 1))" using assms by simp_all
  moreover have "k < c \<Longrightarrow> same_slice (f (i + k)) (g (i + k))" for k using assms(2) [of "i + k"] by simp
  ultimately show ?thesis unfolding span_ok_def same_slice_def by auto
qed

lemma tiled_cong: "(\<And>j. i \<le> j \<Longrightarrow> j < e \<Longrightarrow> same_slice (f j) (g j)) \<Longrightarrow> tiled f i L e = tiled g i L e"
proof (induction L arbitrary: i)
  case (Cons x L)
  obtain c u where x: "x = (c, u)" by (cases x)
  show ?case
  proof (cases "0 < c \<and> i + c \<le> e")
    case True
    then have "span_ok f i c u = span_ok g i c u" using Cons.prems by (intro span_ok_cong) auto
    moreover have "tiled f (i + c) L e = tiled g (i + c) L e" using Cons.prems by (intro Cons.IH) simp
    ultimately show ?thesis by (simp add: x)
  next
    case False
    then show ?thesis using tiled_end [of f "i + c" L e] tiled_end [of g "i + c" L e] by (auto simp: x)
  qed
qed simp

lemma frees_append: "frees i (A @ B) = frees i A \<union> frees (i + slices_of A) B"
  by (induction A arbitrary: i) (auto simp: add.assoc)

lemma frees_free:
  "tiled f i L e \<Longrightarrow> j \<in> frees i L \<Longrightarrow> i \<le> j \<and> j < e \<and> xblock_size (f j) = 0 \<and> slice_offset (f j) = 0 \<and> 0 < slice_count (f j) \<and> j + slice_count (f j) \<le> e"
proof (induction L arbitrary: i)
  case (Cons x L)
  obtain c u where x: "x = (c, u)" by (cases x)
  have t: "0 < c" "span_ok f i c u" "tiled f (i + c) L e" using Cons.prems(1) by (simp_all add: x)
  show ?case
  proof (cases "j \<in> frees (i + c) L")
    case True
    then show ?thesis using Cons.IH [OF t(3)] t(1) by fastforce
  next
    case False
    then have "j = i" "\<not> u" using Cons.prems(2) by (auto simp: x split: if_splits)
    then show ?thesis using t tiled_end [OF t(3)] by (auto simp: span_ok_def)
  qed
qed simp

text \<open>A span of the list by its position.\<close>

lemma tiled_at: "tiled f i (A @ (c, u) # B) e \<longleftrightarrow>
    tiled f i A (i + slices_of A) \<and> 0 < c \<and> span_ok f (i + slices_of A) c u \<and> tiled f (i + slices_of A + c) B e"
  by (simp add: tiled_append)

section \<open>Bins\<close>

lemma unat_and_3: "unat (b AND 3 :: usize) = unat b mod 4"
proof -
  have "b AND 3 = take_bit 2 b" by (simp add: take_bit_eq_mask mask_eq_exp_minus_1)
  then have "unat (b AND 3) = take_bit 2 (unat b)" by (simp only: unsigned_take_bit_eq)
  then show ?thesis by (simp add: take_bit_eq_mod)
qed

lemma mi_slice_bin_bound:
  assumes "c \<le> 512"
  shows "mi_slice_bin c < 36"
proof (cases "c \<le> 1")
  case False
  define w where "w = (of_nat (c - 1) :: usize)"
  have w: "unat w = c - 1" unfolding w_def using assms by (intro unat_of_nat_usize) simp
  then have nz: "w \<noteq> 0" using False by auto
  note b = mi_bsr_bounds [OF nz]
  have "(2 :: nat) ^ mi_bsr w < 2 ^ 9" using b(1) w assms False by simp
  then have m: "mi_bsr w < 9" by (rule power_less_imp_less_exp [rotated]) simp
  have "unat (drop_bit (mi_bsr w - 2) w AND 3) \<le> 3"
    unfolding unat_and_3 by (simp add: less_Suc_eq_le [symmetric])
  then have t: "unat (drop_bit (mi_bsr w - 2) w AND 3) \<le> 3" .
  have e: "mi_slice_bin c = (if mi_bsr w \<le> 2 then c - 1 + 1 else 4 * mi_bsr w + unat (drop_bit (mi_bsr w - 2) w AND 3) - 4)"
    unfolding mi_slice_bin_def mi_slice_bin8_def Let_def w_def [symmetric] using False by simp
  show ?thesis
  proof (cases "mi_bsr w \<le> 2")
    case True
    then have "(2 :: nat) ^ Suc (mi_bsr w) \<le> 2 ^ 3" by (intro power_increasing) simp_all
    then show ?thesis using e True b(2) w by simp
  next
    case False
    then show ?thesis using e m t by simp
  qed
qed (simp add: mi_slice_bin_def mi_slice_bin8_def)

section \<open>The queues\<close>

text \<open>Queue b holds the free spans of the set whose size belongs to bin b.\<close>

definition bin_at :: "'a seg_state_scheme \<Rightarrow> page_ptr \<Rightarrow> nat" where
  "bin_at s p = mi_slice_bin (slice_count (page_at s p))"

definition queue_linked :: "'a seg_state_scheme \<Rightarrow> nat \<Rightarrow> page_ptr list \<Rightarrow> bool" where
  "queue_linked s b ps \<longleftrightarrow> linked (\<lambda>p. pnext (page_at s p)) (\<lambda>p. pprev (page_at s p)) (sq_first (spans s ! b)) (sq_last (spans s ! b)) ps"

lemma queue_first_in: "queue_linked s b ps \<Longrightarrow> sq_first (spans s ! b) = Some x \<Longrightarrow> x \<in> set ps"
  unfolding queue_linked_def linked_def by (metis headp_Some_in)

lemma queue_last_in: "queue_linked s b ps \<Longrightarrow> sq_last (spans s ! b) = Some x \<Longrightarrow> x \<in> set ps"
  unfolding queue_linked_def linked_def by (metis lastp_Some_in)

definition queues_ok :: "'a seg_state_scheme \<Rightarrow> page_ptr set \<Rightarrow> bool" where
  "queues_ok s FS \<longleftrightarrow> length (spans s) = MI_SEGMENT_BIN_MAX + 1 \<and>
     (\<forall>b \<le> MI_SEGMENT_BIN_MAX. \<exists>ps. queue_linked s b ps \<and> set ps = {p \<in> FS. bin_at s p = b})"

lemma upd_seg_simps [simp]:
  "page_at (upd_seg n f s) = page_at s" "spans (upd_seg n f s) = spans s" "ars (upd_seg n f s) = ars s"
  "seg_map (upd_seg n f s) = seg_map s" "heap_at (upd_seg n f s) = heap_at s" "block_next (upd_seg n f s) = block_next s"
  "seg_at (upd_seg n f s) = (seg_at s)(n := f (seg_at s n))"
  by (simp_all add: upd_seg_def)

lemma upd_span_simps [simp]:
  "page_at (upd_span q g s) = page_at s" "seg_at (upd_span q g s) = seg_at s" "ars (upd_span q g s) = ars s"
  "seg_map (upd_span q g s) = seg_map s" "heap_at (upd_span q g s) = heap_at s" "block_next (upd_span q g s) = block_next s"
  "spans (upd_span q g s) = (spans s)[q := g (spans s ! q)]"
  by (simp_all add: upd_span_def)

lemma upd_page_seg [simp]:
  fixes s :: "'a seg_state_scheme"
  shows "spans (upd_page p g s) = spans s" "seg_at (upd_page p g s) = seg_at s" "ars (upd_page p g s) = ars s"
    "seg_map (upd_page p g s) = seg_map s" "page_at (upd_page p g s) = (page_at s)(p := g (page_at s p))"
    "heap_at (upd_page p g s) = heap_at s"
  by (simp_all add: upd_page_def)

text \<open>What queue operations change: links of free spans, and the block size of the span itself.\<close>

definition only_links :: "'a seg_state_scheme \<Rightarrow> 'a seg_state_scheme \<Rightarrow> page_ptr set \<Rightarrow> page_ptr \<Rightarrow> bool" where
  "only_links s s' FS p \<longleftrightarrow> seg_at s' = seg_at s \<and> ars s' = ars s \<and> seg_map s' = seg_map s \<and> heap_at s' = heap_at s \<and>
     block_next s' = block_next s \<and>
     (\<forall>q. q \<noteq> p \<longrightarrow> (q \<in> FS \<and> (\<exists>a b. page_at s' q = (page_at s q)\<lparr>pnext := a, pprev := b\<rparr>)) \<or> page_at s' q = page_at s q) \<and>
     (\<exists>a b x. page_at s' p = (page_at s p)\<lparr>pnext := a, pprev := b, xblock_size := x\<rparr>)"

lemma page_same: "x = x\<lparr>pnext := pnext x, pprev := pprev x\<rparr>"
  by (cases x) simp

lemma queue_push:
  assumes q: "queues_ok s FS" and p: "p \<notin> FS" and b: "bin_at s p = b" "b \<le> MI_SEGMENT_BIN_MAX"
  shows "queues_ok (mi_span_queue_push b p s) (insert p FS)" "only_links s (mi_span_queue_push b p s) FS p"
    "xblock_size (page_at (mi_span_queue_push b p s) p) = 0"
proof -
  obtain s' where s': "s' = mi_span_queue_push b p s" by simp
  have len: "b < length (spans s)" using q b by (simp add: queues_ok_def)
  define f where "f = sq_first (spans s ! b)"
  have sm: "spans s' = (spans s)[b := (spans s ! b)\<lparr>sq_first := Some p, sq_last := (if f = None then Some p else sq_last (spans s ! b))\<rparr>]"
    using len unfolding s' mi_span_queue_push_def Let_def f_def by (auto split: option.splits)
  obtain ps where ps: "queue_linked s b ps" "set ps = {x \<in> FS. bin_at s x = b}" using q b unfolding queues_ok_def by blast
  have fF: "x \<in> FS" if "f = Some x" for x
  proof -
    have "x \<in> set ps" using queue_first_in [OF ps(1)] that by (simp add: f_def)
    then show ?thesis using ps(2) by blast
  qed
  have pg: "page_at s' x = (if x = p then (page_at s p)\<lparr>pprev := None, pnext := f, xblock_size := 0\<rparr>
      else if f = Some x then (page_at s x)\<lparr>pprev := Some p\<rparr> else page_at s x)" for x
    using p fF unfolding s' mi_span_queue_push_def Let_def f_def by (auto split: option.splits)
  have bin: "bin_at s' x = bin_at s x" for x by (simp add: bin_at_def pg)
  have "\<exists>qs. queue_linked s' c qs \<and> set qs = {x \<in> insert p FS. bin_at s' x = c}" if c: "c \<le> MI_SEGMENT_BIN_MAX" for c
  proof (cases "c = b")
    case True
    have "queue_linked s' b (p # ps)"
      unfolding queue_linked_def
    proof -
      have np: "p \<notin> set ps" using ps(2) p by blast
      have "linked (\<lambda>x. pnext (page_at s' x)) (\<lambda>x. pprev (page_at s' x)) (Some p)
          (if f = None then Some p else sq_last (spans s ! b)) (p # ps)"
        by (rule linked_push_front [OF ps(1) [unfolded queue_linked_def, folded f_def] np]) (use np in \<open>auto simp: pg\<close>)
      then show "linked (\<lambda>x. pnext (page_at s' x)) (\<lambda>x. pprev (page_at s' x)) (sq_first (spans s' ! b)) (sq_last (spans s' ! b)) (p # ps)"
        using len by (simp add: sm)
    qed
    moreover have "set (p # ps) = {x \<in> insert p FS. bin_at s' x = b}" using ps(2) b by (auto simp: bin)
    ultimately show ?thesis using True by blast
  next
    case False
    obtain qs where qs: "queue_linked s c qs" "set qs = {x \<in> FS. bin_at s x = c}" using q c unfolding queues_ok_def by blast
    have "x \<noteq> p \<and> f \<noteq> Some x" if "x \<in> set qs" for x
    proof
      show "x \<noteq> p" using that qs(2) p by blast
      show "f \<noteq> Some x"
      proof
        assume "f = Some x"
        then have "x \<in> set ps" using queue_first_in [OF ps(1)] by (simp add: f_def)
        then show False using ps(2) qs(2) that False by auto
      qed
    qed
    then have "linked (\<lambda>x. pnext (page_at s x)) (\<lambda>x. pprev (page_at s x)) (sq_first (spans s ! c)) (sq_last (spans s ! c)) qs =
        linked (\<lambda>x. pnext (page_at s' x)) (\<lambda>x. pprev (page_at s' x)) (sq_first (spans s ! c)) (sq_last (spans s ! c)) qs"
      by (intro linked_cong) (simp add: pg)
    then have "queue_linked s' c qs" using qs(1) False unfolding queue_linked_def by (simp add: sm)
    moreover have "set qs = {x \<in> insert p FS. bin_at s' x = c}" using qs(2) b False by (auto simp: bin)
    ultimately show ?thesis by blast
  qed
  moreover have "length (spans s') = MI_SEGMENT_BIN_MAX + 1" using q by (simp add: sm queues_ok_def)
  ultimately have "queues_ok s' (insert p FS)" unfolding queues_ok_def by blast
  then show "queues_ok (mi_span_queue_push b p s) (insert p FS)" unfolding s' .
  have "(q \<in> FS \<and> (\<exists>a c. page_at s' q = (page_at s q)\<lparr>pnext := a, pprev := c\<rparr>)) \<or> page_at s' q = page_at s q" if "q \<noteq> p" for q
  proof (cases "f = Some q")
    case True
    have "page_at s' q = (page_at s q)\<lparr>pnext := pnext (page_at s q), pprev := Some p\<rparr>" using that True by (simp add: pg)
    then show ?thesis using fF [OF True] by blast
  next
    case False then show ?thesis using that by (simp add: pg)
  qed
  moreover have "\<exists>a c x. page_at s' p = (page_at s p)\<lparr>pnext := a, pprev := c, xblock_size := x\<rparr>"
    by (intro exI [of _ f] exI [of _ None] exI [of _ 0]) (simp add: pg)
  moreover have "seg_at s' = seg_at s \<and> ars s' = ars s \<and> seg_map s' = seg_map s \<and> heap_at s' = heap_at s \<and> block_next s' = block_next s"
    unfolding s' mi_span_queue_push_def Let_def by (simp split: option.splits)
  ultimately show "only_links s (mi_span_queue_push b p s) FS p" unfolding only_links_def s' by blast
  show "xblock_size (page_at (mi_span_queue_push b p s) p) = 0" using pg [of p] unfolding s' by simp
qed

lemma queue_delete:
  assumes q: "queues_ok s FS" and p: "p \<in> FS" and b: "bin_at s p = b" "b \<le> MI_SEGMENT_BIN_MAX"
  shows "queues_ok (mi_span_queue_delete b p s) (FS - {p})" "only_links s (mi_span_queue_delete b p s) FS p"
    "xblock_size (page_at (mi_span_queue_delete b p s) p) = 1"
proof -
  obtain s' where s': "s' = mi_span_queue_delete b p s" by simp
  have len: "b < length (spans s)" using q b by (simp add: queues_ok_def)
  obtain ps where ps: "queue_linked s b ps" "set ps = {x \<in> FS. bin_at s x = b}" using q b unfolding queues_ok_def by blast
  have pin: "p \<in> set ps" using ps(2) p b by simp
  define nx pv where "nx = pnext (page_at s p)" and "pv = pprev (page_at s p)"
  have nbr: "x \<in> set ps \<and> x \<noteq> p" if "nx = Some x \<or> pv = Some x" for x
  proof -
    obtain us vs where "ps = us @ p # vs" using pin by (meson split_list)
    then have "nx = headp vs None" "pv = lastp us None" "p \<notin> set us" "p \<notin> set vs"
      using ps(1) unfolding queue_linked_def linked_def nx_def pv_def by (auto simp: chain_append)
    then show ?thesis using that \<open>ps = _\<close> by (auto dest: headp_Some_in lastp_Some_in)
  qed
  have ne: "nx \<noteq> Some p" "pv \<noteq> Some p" using nbr by blast+
  have sm: "spans s' = (spans s)[b := (spans s ! b)\<lparr>sq_first := (if sq_first (spans s ! b) = Some p then nx else sq_first (spans s ! b)),
      sq_last := (if sq_last (spans s ! b) = Some p then pv else sq_last (spans s ! b))\<rparr>]"
    using len ne unfolding s' mi_span_queue_delete_def Let_def nx_def pv_def
    by (simp split: option.splits)
  have pg: "page_at s' x = (if x = p then (page_at s p)\<lparr>pprev := None, pnext := None, xblock_size := 1\<rparr>
      else (page_at s x)\<lparr>pnext := (if pv = Some x then nx else pnext (page_at s x)),
         pprev := (if nx = Some x then pv else pprev (page_at s x))\<rparr>)" for x
    using ne unfolding s' mi_span_queue_delete_def Let_def nx_def pv_def
    by (cases "page_at s x") (auto split: option.splits)
  have bin: "bin_at s' x = bin_at s x" for x by (simp add: bin_at_def pg)
  have "\<exists>qs. queue_linked s' c qs \<and> set qs = {x \<in> FS - {p}. bin_at s' x = c}" if c: "c \<le> MI_SEGMENT_BIN_MAX" for c
  proof (cases "c = b")
    case True
    obtain us vs where sp: "ps = us @ p # vs" using pin by (meson split_list)
    have d: "distinct ps" using ps(1) by (simp add: queue_linked_def linked_def)
    have "linked (\<lambda>x. pnext (page_at s' x)) (\<lambda>x. pprev (page_at s' x)) (if sq_first (spans s ! b) = Some p then nx else sq_first (spans s ! b))
        (if sq_last (spans s ! b) = Some p then pv else sq_last (spans s ! b)) (us @ vs)"
      by (rule linked_unlink [OF ps(1) [unfolded queue_linked_def sp]])
         (use d sp in \<open>auto simp: pg nx_def [symmetric] pv_def [symmetric]\<close>)
    then have "queue_linked s' b (us @ vs)" using len by (simp add: queue_linked_def sm)
    moreover have "set (us @ vs) = {x \<in> FS - {p}. bin_at s' x = b}"
    proof -
      have "set (us @ vs) = set ps - {p}" using d by (auto simp: sp)
      then show ?thesis using ps(2) by (auto simp: bin)
    qed
    ultimately show ?thesis using True by blast
  next
    case False
    obtain qs where qs: "queue_linked s c qs" "set qs = {x \<in> FS. bin_at s x = c}" using q c unfolding queues_ok_def by blast
    have "x \<noteq> p \<and> nx \<noteq> Some x \<and> pv \<noteq> Some x" if "x \<in> set qs" for x
    proof -
      have "x \<notin> set ps" using ps(2) qs(2) that False by auto
      then show ?thesis using nbr pin by blast
    qed
    then have "linked (\<lambda>x. pnext (page_at s x)) (\<lambda>x. pprev (page_at s x)) (sq_first (spans s ! c)) (sq_last (spans s ! c)) qs =
        linked (\<lambda>x. pnext (page_at s' x)) (\<lambda>x. pprev (page_at s' x)) (sq_first (spans s ! c)) (sq_last (spans s ! c)) qs"
      by (intro linked_cong) (simp add: pg)
    then have "queue_linked s' c qs" using qs(1) False unfolding queue_linked_def by (simp add: sm)
    moreover have "set qs = {x \<in> FS - {p}. bin_at s' x = c}" using qs(2) b False by (auto simp: bin)
    ultimately show ?thesis by blast
  qed
  moreover have "length (spans s') = MI_SEGMENT_BIN_MAX + 1" using q by (simp add: sm queues_ok_def)
  ultimately have "queues_ok s' (FS - {p})" unfolding queues_ok_def by blast
  then show "queues_ok (mi_span_queue_delete b p s) (FS - {p})" unfolding s' .
  have "(q \<in> FS \<and> (\<exists>a c. page_at s' q = (page_at s q)\<lparr>pnext := a, pprev := c\<rparr>)) \<or> page_at s' q = page_at s q" if "q \<noteq> p" for q
  proof (cases "nx = Some q \<or> pv = Some q")
    case True
    then have "q \<in> FS" using nbr ps(2) by blast
    moreover have "\<exists>a c. page_at s' q = (page_at s q)\<lparr>pnext := a, pprev := c\<rparr>" unfolding pg if_not_P [OF that] by blast
    ultimately show ?thesis by blast
  next
    case False then show ?thesis using that by (simp add: pg)
  qed
  moreover have "\<exists>a c x. page_at s' p = (page_at s p)\<lparr>pnext := a, pprev := c, xblock_size := x\<rparr>"
    by (intro exI [of _ None] exI [of _ 1]) (simp add: pg)
  moreover have "seg_at s' = seg_at s \<and> ars s' = ars s \<and> seg_map s' = seg_map s \<and> heap_at s' = heap_at s \<and> block_next s' = block_next s"
    unfolding s' mi_span_queue_delete_def Let_def by (simp split: option.splits)
  ultimately show "only_links s (mi_span_queue_delete b p s) FS p" unfolding only_links_def s' by blast
  show "xblock_size (page_at (mi_span_queue_delete b p s) p) = 1" using pg [of p] unfolding s' by simp
qed

lemma queues_ok_cong:
  assumes "queues_ok s FS" "spans s' = spans s"
    "\<And>p. p \<in> FS \<Longrightarrow> pnext (page_at s' p) = pnext (page_at s p) \<and> pprev (page_at s' p) = pprev (page_at s p) \<and>
       slice_count (page_at s' p) = slice_count (page_at s p)"
  shows "queues_ok s' FS"
  unfolding queues_ok_def
proof (intro conjI allI impI)
  fix b assume b: "b \<le> MI_SEGMENT_BIN_MAX"
  obtain ps where ps: "queue_linked s b ps" "set ps = {p \<in> FS. bin_at s p = b}" using assms(1) b unfolding queues_ok_def by blast
  have "x \<in> set ps \<Longrightarrow> x \<in> FS" for x using ps(2) by blast
  then have "linked (\<lambda>x. pnext (page_at s x)) (\<lambda>x. pprev (page_at s x)) (sq_first (spans s ! b)) (sq_last (spans s ! b)) ps =
      linked (\<lambda>x. pnext (page_at s' x)) (\<lambda>x. pprev (page_at s' x)) (sq_first (spans s ! b)) (sq_last (spans s ! b)) ps"
    by (intro linked_cong) (simp add: assms(3))
  then have "queue_linked s' b ps" using ps(1) by (simp add: queue_linked_def assms(2))
  moreover have "set ps = {p \<in> FS. bin_at s' p = b}" using ps(2) assms(3) by (auto simp: bin_at_def)
  ultimately show "\<exists>ps. queue_linked s' b ps \<and> set ps = {p \<in> FS. bin_at s' p = b}" by blast
qed (use assms in \<open>simp add: queues_ok_def\<close>)

text \<open>
  What an operation on the slices lo to hi of segment n changes: these slices, the links of free
  spans elsewhere, the masks of the segment and the memory of the operating system.
\<close>

definition links_only :: "mi_page \<Rightarrow> mi_page \<Rightarrow> bool" where
  "links_only x y \<longleftrightarrow> y = x\<lparr>pnext := pnext y, pprev := pprev y\<rparr>"

lemma links_only_refl [simp]: "links_only x x"
  by (simp add: links_only_def)

lemma links_onlyI: "links_only x (x\<lparr>pnext := a, pprev := b\<rparr>)"
  by (simp add: links_only_def)

lemma links_only_trans: "links_only x y \<Longrightarrow> links_only y z \<Longrightarrow> links_only x z"
  unfolding links_only_def by (cases x; cases y; cases z) simp

lemma links_only_same: "links_only x y \<Longrightarrow> same_slice y x"
  unfolding links_only_def by (cases x; cases y) (simp add: same_slice_def)

definition touches :: "'a seg_state_scheme \<Rightarrow> 'a seg_state_scheme \<Rightarrow> nat \<Rightarrow> nat \<Rightarrow> nat \<Rightarrow> page_ptr set \<Rightarrow> bool" where
  "touches s s' n lo hi FS \<longleftrightarrow>
     (\<forall>p. (\<exists>i. p = Slice n i \<and> lo \<le> i \<and> i < hi) \<or> (p \<in> FS \<and> links_only (page_at s p) (page_at s' p)) \<or> page_at s' p = page_at s p) \<and>
     (\<forall>m. m \<noteq> n \<longrightarrow> seg_at s' m = seg_at s m) \<and> only_masks (seg_at s n) (seg_at s' n) \<and>
     (seg_ok (seg_at s n) \<longrightarrow> seg_ok (seg_at s' n)) \<and>
     (\<exists>os. ars s' = (ars s)\<lparr>ar_os := os\<rparr>) \<and> seg_map s' = seg_map s \<and> heap_at s' = heap_at s \<and> block_next s' = block_next s"

lemma only_masks_refl: "only_masks x x"
  by (simp add: only_masks_def)

lemma touches_refl: "touches s s n lo hi FS"
  unfolding touches_def using only_masks_refl by (auto intro: exI [of _ "ar_os (ars s)"])

lemma touches_trans:
  assumes a: "touches s s1 n lo hi FS" and b: "touches s1 s2 n lo hi FS1"
    and fs: "\<And>p. p \<in> FS1 \<Longrightarrow> p \<in> FS \<or> (\<exists>i. p = Slice n i \<and> lo \<le> i \<and> i < hi)"
  shows "touches s s2 n lo hi FS"
  unfolding touches_def
proof (intro conjI allI)
  fix p
  show "(\<exists>i. p = Slice n i \<and> lo \<le> i \<and> i < hi) \<or> (p \<in> FS \<and> links_only (page_at s p) (page_at s2 p)) \<or> page_at s2 p = page_at s p"
  proof (cases "\<exists>i. p = Slice n i \<and> lo \<le> i \<and> i < hi")
    case False
    then have "p \<in> FS \<and> links_only (page_at s p) (page_at s1 p) \<or> page_at s1 p = page_at s p"
      "p \<in> FS1 \<and> links_only (page_at s1 p) (page_at s2 p) \<or> page_at s2 p = page_at s1 p"
      using a b unfolding touches_def by blast+
    then show ?thesis using fs [of p] False links_only_trans [of "page_at s p" "page_at s1 p" "page_at s2 p"] by auto
  qed simp
next
  show "only_masks (seg_at s n) (seg_at s2 n)" using a b only_masks_trans unfolding touches_def by blast
  show "\<exists>os. ars s2 = (ars s)\<lparr>ar_os := os\<rparr>" using a b unfolding touches_def by fastforce
qed (use a b in \<open>simp_all add: touches_def\<close>)

lemma touches_mono: "touches s s' n lo hi FS \<Longrightarrow> lo' \<le> lo \<Longrightarrow> hi \<le> hi' \<Longrightarrow> touches s s' n lo' hi' FS"
  unfolding touches_def by (meson le_trans less_le_trans)

lemma only_links_touches: "only_links s s' FS (Slice n i) \<Longrightarrow> lo \<le> i \<Longrightarrow> i < hi \<Longrightarrow> touches s s' n lo hi FS"
  unfolding only_links_def touches_def
  using only_masks_refl [of "seg_at s n"] by (auto intro: exI [of _ "ar_os (ars s)"] simp: links_onlyI)


lemma with_seg_touches:
  assumes "f (seg_at s n) (ar_os (ars s)) = Some (seg, os)" "only_masks (seg_at s n) seg" "seg_ok (seg_at s n) \<longrightarrow> seg_ok seg"
  shows "\<exists>s'. with_seg_os n f s = Some s' \<and> touches s s' n lo hi FS \<and> page_at s' = page_at s \<and> spans s' = spans s"
  unfolding with_seg_os_def assms(1) touches_def using assms(2,3) by auto

lemma masks_fields:
  assumes "only_masks a b"
  shows "thread_id b = thread_id a" "kind b = kind a" "slice_entries b = slice_entries a" "seg_used b = seg_used a"
    "memid b = memid a" "abandoned b = abandoned a" "segment_slices b = segment_slices a" "segment_info_slices b = segment_info_slices a"
    "abandoned_visits b = abandoned_visits a" "abandoned_next b = abandoned_next a" "allow_decommit b = allow_decommit a"
    "segment_size b = segment_size a"
  using assms unfolding only_masks_def by (cases a; cases b; simp)+

lemma upd_slice_touches:
  assumes "i \<le> 512" "lo \<le> i" "i < hi"
  shows "upd_slice n i f s = Some (upd_page (Slice n i) f s)" "touches s (upd_page (Slice n i) f s) n lo hi FS"
  using assms only_masks_refl by (auto simp: upd_slice_def touches_def intro: exI [of _ "ar_os (ars s)"])

abbreviation in_use :: "'a seg_state_scheme \<Rightarrow> nat \<Rightarrow> bool" where
  "in_use s n \<equiv> \<not> mi_segment_is_abandoned (seg_at s n)"

lemma span_free_spec:
  assumes ok: "seg_ok (seg_at s n)" and r: "0 < c" "i + c \<le> 512"
    and q: "queues_ok s FS" and new: "\<And>j. i \<le> j \<Longrightarrow> j < i + c \<Longrightarrow> Slice n j \<notin> FS"
  shows "\<exists>s'. mi_segment_span_free env n i c pu s = Some s' \<and> touches s s' n i (i + c) FS \<and>
    span_ok (\<lambda>j. page_at s' (Slice n j)) i c False \<and>
    queues_ok s' (if in_use s n then insert (Slice n i) FS else FS)"
proof -
  have kd: "kind (seg_at s n) = MI_SEGMENT_NORMAL" using ok by (simp add: seg_ok_def)
  let ?p = "Slice n i"
  have c32: "c mod 2 ^ 32 = c" "(sizeof_mi_slice * (c - 1)) mod 2 ^ 32 = sizeof_mi_slice * (c - 1)" using r by simp_all
  have b: "mi_slice_bin c \<le> MI_SEGMENT_BIN_MAX" using mi_slice_bin_bound [of c] r by simp
  define s1 where "s1 = upd_page ?p (\<lambda>x. x\<lparr>slice_count := c, slice_offset := 0\<rparr>) s"
  define s2 where "s2 = (if c > 1 then upd_page (Slice n (i + c - 1))
      (\<lambda>x. x\<lparr>slice_count := 0, slice_offset := sizeof_mi_slice * (c - 1), xblock_size := 0\<rparr>) s1 else s1)"
  have t1: "touches s s1 n i (i + c) FS" "upd_slice n i (\<lambda>x. x\<lparr>slice_count := c, slice_offset := 0\<rparr>) s = Some s1"
    unfolding s1_def using upd_slice_touches [of i i "i + c"] r by simp_all
  have t2: "touches s s2 n i (i + c) FS"
    "(if c > 1 then upd_slice n (i + c - 1) (\<lambda>x. x\<lparr>slice_count := 0, slice_offset := sizeof_mi_slice * (c - 1), xblock_size := 0\<rparr>) s1
      else Some s1) = Some s2"
    using touches_trans [OF t1(1) upd_slice_touches(2) [of "i + c - 1" i "i + c" s1 n _ FS]]
      t1(1) r unfolding s2_def by (auto simp: upd_slice_def)
  have q2: "queues_ok s2 FS"
    by (rule queues_ok_cong [OF q]) (use new r in \<open>auto simp: s1_def s2_def\<close>)
  have sc: "slice_count (page_at s2 ?p) = c" "slice_offset (page_at s2 ?p) = 0"
    "1 < c \<Longrightarrow> slice_offset (page_at s2 (Slice n (i + c - 1))) = sizeof_mi_slice * (c - 1) \<and>
      slice_count (page_at s2 (Slice n (i + c - 1))) = 0 \<and> xblock_size (page_at s2 (Slice n (i + c - 1))) = 0"
    using r by (auto simp: s1_def s2_def)
  have sg2: "seg_at s2 = seg_at s" "spans s2 = spans s" by (auto simp: s1_def s2_def)
  have inseg: "in_segment n (mi_slice_start n i) (c * MI_SEGMENT_SLICE_SIZE)"
    using r by (simp add: mi_slice_start_def)
  obtain s3 where s3: "(if pu then with_seg_os n (mi_segment_schedule_purge env n (mi_slice_start n i) (c * MI_SEGMENT_SLICE_SIZE)) s2 else Some s2) = Some s3"
      "touches s2 s3 n i (i + c) FS" "page_at s3 = page_at s2" "spans s3 = spans s2"
  proof (cases pu)
    case True
    obtain seg os where "mi_segment_schedule_purge env n (mi_slice_start n i) (c * MI_SEGMENT_SLICE_SIZE) (seg_at s2 n) (ar_os (ars s2)) = Some (seg, os)"
       "seg_ok seg" "only_masks (seg_at s2 n) seg"
      using schedule_purge_masks [OF ok inseg, of env "ar_os (ars s2)"] unfolding sg2 by blast
    then have "\<exists>s'. with_seg_os n (mi_segment_schedule_purge env n (mi_slice_start n i) (c * MI_SEGMENT_SLICE_SIZE)) s2 = Some s' \<and>
        touches s2 s' n i (i + c) FS \<and> page_at s' = page_at s2 \<and> spans s' = spans s2"
      by (intro with_seg_touches) auto
    then show ?thesis using that unfolding if_P [OF True] by blast
  next
    case False then show ?thesis using that [OF _ touches_refl] by simp
  qed
  have t3: "touches s s3 n i (i + c) FS" by (rule touches_trans [OF t2(1) s3(2)]) simp
  have q3: "queues_ok s3 FS" by (rule queues_ok_cong [OF q2]) (simp_all add: s3)
  have pn: "?p \<notin> FS" using new [of i] r by simp
  have bp: "bin_at s3 ?p = mi_slice_bin c" by (simp add: bin_at_def s3 sc)
  define s4 where "s4 = (if in_use s n then mi_span_queue_push (mi_slice_bin c) ?p s3 else upd_page ?p (\<lambda>x. x\<lparr>xblock_size := 0\<rparr>) s3)"
  have ab: "mi_segment_is_abandoned (seg_at s n) = mi_segment_is_abandoned (seg_at s3 n)"
    using masks_fields(1) t3 unfolding touches_def mi_segment_is_abandoned_def by metis
  have eq: "mi_segment_span_free env n i c pu s = Some s4"
    using t1(2) t2(2) s3(1) r kd b q unfolding mi_segment_span_free_def s4_def
    by (auto simp: c32 [simplified] mi_span_queue_for_def queues_ok_def Let_def)
  have t34: "touches s3 s4 n i (i + c) FS"
    unfolding s4_def using only_links_touches [OF queue_push(2) [OF q3 pn bp b], of i "i + c"]
      upd_slice_touches(2) [of i i "i + c"] r by auto
  have q4: "queues_ok s4 (if in_use s n then insert ?p FS else FS)"
    unfolding s4_def using queue_push(1) [OF q3 pn bp b] queues_ok_cong [OF q3, of "upd_page ?p (\<lambda>x. x\<lparr>xblock_size := 0\<rparr>) s3"] pn by auto
  have x4: "xblock_size (page_at s4 ?p) = 0" unfolding s4_def using queue_push(3) [OF q3 pn bp b] by auto
  have p4: "slice_count (page_at s4 ?p) = c \<and> slice_offset (page_at s4 ?p) = 0"
  proof (cases "in_use s n")
    case True
    then have "only_links s3 s4 FS ?p" unfolding s4_def using queue_push(2) [OF q3 pn bp b] by simp
    then obtain a d e where "page_at s4 ?p = (page_at s3 ?p)\<lparr>pnext := a, pprev := d, xblock_size := e\<rparr>" unfolding only_links_def by blast
    then show ?thesis by (simp add: s3 sc)
  next
    case False then show ?thesis by (simp add: s4_def s3 sc)
  qed
  have l4: "page_at s4 (Slice n (i + c - 1)) = page_at s2 (Slice n (i + c - 1))" if "1 < c"
  proof (cases "in_use s n")
    case True
    then have "only_links s3 s4 FS ?p" unfolding s4_def using queue_push(2) [OF q3 pn bp b] by simp
    moreover have "Slice n (i + c - 1) \<notin> FS" "Slice n (i + c - 1) \<noteq> ?p" using new that by auto
    ultimately show ?thesis unfolding only_links_def s3(3) by blast
  next
    case False then show ?thesis using that by (simp add: s4_def s3)
  qed
  have "span_ok (\<lambda>j. page_at s4 (Slice n j)) i c False"
    using p4 x4 l4 sc(3) unfolding span_ok_def by auto
  then show ?thesis using eq q4 touches_trans [OF t3 t34] by auto
qed

section \<open>Coalescing\<close>

text \<open>A free span of c slices between the spans A and B is merged with its free neighbours.\<close>

definition left_free :: "(nat \<times> bool) list \<Rightarrow> bool" where
  "left_free A \<longleftrightarrow> A \<noteq> [] \<and> \<not> snd (last A)"

definition right_free :: "(nat \<times> bool) list \<Rightarrow> bool" where
  "right_free B \<longleftrightarrow> B \<noteq> [] \<and> \<not> snd (hd B)"

definition left_count :: "(nat \<times> bool) list \<Rightarrow> nat" where
  "left_count A = (if left_free A then fst (last A) else 0)"

definition right_count :: "(nat \<times> bool) list \<Rightarrow> nat" where
  "right_count B = (if right_free B then fst (hd B) else 0)"

definition left_rest :: "(nat \<times> bool) list \<Rightarrow> (nat \<times> bool) list" where
  "left_rest A = (if left_free A then butlast A else A)"

definition right_rest :: "(nat \<times> bool) list \<Rightarrow> (nat \<times> bool) list" where
  "right_rest B = (if right_free B then List.tl B else B)"

definition merge_span :: "(nat \<times> bool) list \<Rightarrow> nat \<Rightarrow> (nat \<times> bool) list \<Rightarrow> (nat \<times> bool) list" where
  "merge_span A c B = left_rest A @ (left_count A + c + right_count B, False) # right_rest B"

lemma left_split: "A = left_rest A @ (if left_free A then [(left_count A, False)] else [])"
proof (cases "left_free A")
  case True
  then have "A = butlast A @ [last A]" "last A = (fst (last A), False)" by (auto simp: left_free_def prod_eq_iff)
  then show ?thesis using True by (simp add: left_rest_def left_count_def)
qed (simp add: left_rest_def)

lemma right_split: "B = (if right_free B then [(right_count B, False)] else []) @ right_rest B"
proof (cases "right_free B")
  case True
  then have "B = List.hd B # List.tl B" "List.hd B = (fst (List.hd B), False)" by (auto simp: right_free_def prod_eq_iff)
  then show ?thesis using True by (simp add: right_rest_def right_count_def)
qed (simp add: right_rest_def)

lemma touches_slice:
  assumes "touches s s' n lo hi FS" "\<not> (lo \<le> j \<and> j < hi)"
  shows "same_slice (page_at s' (Slice n j)) (page_at s (Slice n j))"
proof -
  have "(Slice n j \<in> FS \<and> links_only (page_at s (Slice n j)) (page_at s' (Slice n j))) \<or> page_at s' (Slice n j) = page_at s (Slice n j)"
    using assms(1) [unfolded touches_def, THEN conjunct1, THEN spec, of "Slice n j"] assms(2) by auto
  then show ?thesis using links_only_same by auto
qed

lemma touches_seg:
  assumes "touches s s' n lo hi FS"
  shows "in_use s' m = in_use s m" "slice_entries (seg_at s' m) = slice_entries (seg_at s m)" "kind (seg_at s' m) = kind (seg_at s m)"
    "seg_ok (seg_at s m) \<Longrightarrow> seg_ok (seg_at s' m)" "seg_used (seg_at s' m) = seg_used (seg_at s m)"
proof -
  have "m \<noteq> n \<Longrightarrow> seg_at s' m = seg_at s m" and o: "only_masks (seg_at s n) (seg_at s' n)" "seg_ok (seg_at s n) \<longrightarrow> seg_ok (seg_at s' n)"
    using assms unfolding touches_def by blast+
  then show "in_use s' m = in_use s m" "slice_entries (seg_at s' m) = slice_entries (seg_at s m)" "kind (seg_at s' m) = kind (seg_at s m)"
    "seg_ok (seg_at s m) \<Longrightarrow> seg_ok (seg_at s' m)" "seg_used (seg_at s' m) = seg_used (seg_at s m)"
    using masks_fields [OF o(1)] by (cases "m = n"; simp add: mi_segment_is_abandoned_def)+
qed

lemma span_remove:
  assumes q: "queues_ok s FS" and p: "p \<in> FS" and c: "slice_count (page_at s p) \<le> 512"
  shows "\<exists>s'. mi_segment_span_remove_from_queue p s = Some s' \<and> queues_ok s' (FS - {p}) \<and> only_links s s' FS p"
proof -
  have b: "bin_at s p \<le> MI_SEGMENT_BIN_MAX" using mi_slice_bin_bound [OF c] by (simp add: bin_at_def)
  have "mi_segment_span_remove_from_queue p s = Some (mi_span_queue_delete (bin_at s p) p s)"
    using b q by (simp add: mi_segment_span_remove_from_queue_def mi_span_queue_for_def queues_ok_def bin_at_def Let_def)
  then show ?thesis using queue_delete(1,2) [OF q p refl b] by blast
qed

text \<open>Taking a neighbour out of its queue.\<close>

lemma take_span:
  assumes q: "queues_ok s FS" and j: "Slice n j \<in> FS \<or> \<not> in_use s n" and d: "slice_count (page_at s (Slice n j)) = d" "0 < d" "d \<le> 512"
  shows "\<exists>s'. (if \<not> mi_segment_is_abandoned (seg_at s n) then mi_segment_span_remove_from_queue (Slice n j) s else Some s) = Some s' \<and>
    touches s s' n j (j + d) FS \<and> queues_ok s' (if in_use s n then FS - {Slice n j} else FS)"
proof (cases "in_use s n")
  case True
  then obtain s' where "mi_segment_span_remove_from_queue (Slice n j) s = Some s'" "queues_ok s' (FS - {Slice n j})" "only_links s s' FS (Slice n j)"
    using span_remove [OF q, of "Slice n j"] j d by auto
  then show ?thesis using only_links_touches [of s s' FS n j j "j + d"] d True by auto
next
  case False
  then show ?thesis using q touches_refl by auto
qed

lemma coalesce_right:
  assumes ent: "slice_entries (seg_at s n) = 512" and t: "tiled (\<lambda>j. page_at s (Slice n j)) k B 512"
    and q: "queues_ok s FS" and fr: "in_use s n \<Longrightarrow> right_free B \<Longrightarrow> Slice n k \<in> FS"
  shows "\<exists>s'. (if k < slice_entries (seg_at s n) then do {
                nsl \<leftarrow> slice_at n k s;
                if xblock_size nsl = 0 then do {
                  s \<leftarrow> (if \<not> mi_segment_is_abandoned (seg_at s n) then mi_segment_span_remove_from_queue (Slice n k) s else Some s);
                  Some (c + slice_count nsl, s) }
                else Some (c, s) }
              else Some (c, s)) = Some (c + right_count B, s') \<and>
     touches s s' n k (k + right_count B) FS \<and>
     queues_ok s' (if in_use s n \<and> right_free B then FS - {Slice n k} else FS)"
proof (cases B)
  case Nil
  then show ?thesis using t q ent touches_refl by (auto simp: right_count_def right_free_def)
next
  case (Cons x B')
  obtain d u where x: "x = (d, u)" by (cases x)
  have d: "0 < d" "span_ok (\<lambda>j. page_at s (Slice n j)) k d u" "tiled (\<lambda>j. page_at s (Slice n j)) (k + d) B' 512"
    using t by (simp_all add: Cons x)
  have le: "k + d \<le> 512" using tiled_end [OF d(3)] by simp
  have sl: "slice_at n k s = Some (page_at s (Slice n k))" using le d(1) by (simp add: slice_at_def)
  show ?thesis
  proof (cases u)
    case True
    have nz: "xblock_size (page_at s (Slice n k)) \<noteq> 0" using d(2) True by (simp add: span_ok_def)
    have "right_count B = 0" "\<not> right_free B" using True by (simp_all add: Cons x right_count_def right_free_def)
    then show ?thesis using le d(1) ent sl nz q touches_refl by (intro exI [of _ s]) auto
  next
    case False
    have z: "xblock_size (page_at s (Slice n k)) = 0" "slice_count (page_at s (Slice n k)) = d" using d(2) False by (simp_all add: span_ok_def)
    have rc: "right_count B = d" "right_free B" using False by (simp_all add: Cons x right_count_def right_free_def)
    obtain s' where s': "(if \<not> mi_segment_is_abandoned (seg_at s n) then mi_segment_span_remove_from_queue (Slice n k) s else Some s) = Some s'"
       "touches s s' n k (k + d) FS" "queues_ok s' (if in_use s n then FS - {Slice n k} else FS)"
      using take_span [OF q, of n k d] fr rc(2) z(2) d(1) le by auto
    show ?thesis
      by (rule exI [of _ s'], use le d(1) ent sl z rc s' in \<open>simp del: not_not\<close>)
  qed
qed

lemma slice_first_span:
  assumes "span_ok (\<lambda>j. page_at s (Slice n j)) i d u" "0 < d" "i + d \<le> 512"
  shows "mi_slice_first n (i + d - 1) s = Some i"
proof -
  have "slice_offset (page_at s (Slice n (i + d - 1))) = sizeof_mi_slice * (d - 1)"
    using assms(1,2) by (cases "d = 1") (auto simp: span_ok_def)
  moreover have "d - 1 \<le> i + d - 1" "i + d - 1 - (d - 1) = i" "i + d - 1 \<le> 512" using assms(2,3) by simp_all
  ultimately show ?thesis by (simp add: mi_slice_first_def slice_at_def)
qed

lemma coalesce_left:
  assumes t: "tiled (\<lambda>j. page_at s (Slice n j)) 0 A i" and le: "i \<le> 512"
    and q: "queues_ok s FS" and fr: "in_use s n \<Longrightarrow> left_free A \<Longrightarrow> Slice n (i - left_count A) \<in> FS"
  shows "\<exists>s'. (if i > 0 then do {
                prev \<leftarrow> mi_slice_first n (i - 1) s;
                psl \<leftarrow> slice_at n prev s;
                if xblock_size psl = 0 then do {
                  s \<leftarrow> (if \<not> mi_segment_is_abandoned (seg_at s n) then mi_segment_span_remove_from_queue (Slice n prev) s else Some s);
                  Some (prev, c + slice_count psl, s) }
                else Some (i, c, s) }
              else Some (i, c, s)) = Some (i - left_count A, c + left_count A, s') \<and>
     touches s s' n (i - left_count A) i FS \<and>
     queues_ok s' (if in_use s n \<and> left_free A then FS - {Slice n (i - left_count A)} else FS)"
proof (cases A rule: rev_cases)
  case Nil
  then show ?thesis using t q touches_refl by (auto simp: left_count_def left_free_def)
next
  case (snoc A' x)
  obtain d u where x: "x = (d, u)" by (cases x)
  define k where "k = slices_of A'"
  have d: "0 < d" "span_ok (\<lambda>j. page_at s (Slice n j)) k d u" "i = k + d"
    using t by (auto simp: snoc x tiled_append k_def)
  have sf: "mi_slice_first n (i - 1) s = Some k" using slice_first_span [OF d(2,1)] d(3) le by simp
  have sl: "slice_at n k s = Some (page_at s (Slice n k))" using le d(1,3) by (simp add: slice_at_def)
  show ?thesis
  proof (cases u)
    case True
    have nz: "xblock_size (page_at s (Slice n k)) \<noteq> 0" using d(2) True by (simp add: span_ok_def)
    have "left_count A = 0" "\<not> left_free A" using True by (simp_all add: snoc x left_count_def left_free_def)
    then show ?thesis using d(1,3) sf sl nz q touches_refl by (intro exI [of _ s]) auto
  next
    case False
    have z: "xblock_size (page_at s (Slice n k)) = 0" "slice_count (page_at s (Slice n k)) = d" using d(2) False by (simp_all add: span_ok_def)
    have lc: "left_count A = d" "left_free A" using False by (simp_all add: snoc x left_count_def left_free_def)
    have k: "i - left_count A = k" using d(3) lc by simp
    obtain s' where s': "(if \<not> mi_segment_is_abandoned (seg_at s n) then mi_segment_span_remove_from_queue (Slice n k) s else Some s) = Some s'"
       "touches s s' n k (k + d) FS" "queues_ok s' (if in_use s n then FS - {Slice n k} else FS)"
      using take_span [OF q, of n k d] fr lc(2) k z(2) d(1,3) le by auto
    show ?thesis
      unfolding k by (rule exI [of _ s'], use d(1,3) sf sl z lc s' in \<open>simp del: not_not\<close>)
  qed
qed

lemma coalesce_spec:
  assumes ok: "seg_ok (seg_at s n)" and ent: "slice_entries (seg_at s n) = 512"
    and tA: "tiled (\<lambda>j. page_at s (Slice n j)) 0 A i" and tB: "tiled (\<lambda>j. page_at s (Slice n j)) (i + c) B 512"
    and c: "0 < c" "slice_count (page_at s (Slice n i)) = c"
    and q: "queues_ok s FS" and FS: "\<And>j. Slice n j \<in> FS \<longleftrightarrow> in_use s n \<and> (j \<in> frees 0 A \<or> j \<in> frees (i + c) B)"
  shows "\<exists>s'. mi_segment_span_free_coalesce env n i s = Some (i - left_count A, s') \<and>
    touches s s' n (i - left_count A) (i + c + right_count B) FS \<and>
    tiled (\<lambda>j. page_at s' (Slice n j)) 0 (merge_span A c B) 512 \<and>
    queues_ok s' (FS - range (Slice n) \<union> (if in_use s n then Slice n ` frees 0 (merge_span A c B) else {}))"
proof -
  let ?l = "left_count A" and ?r = "right_count B"
  let ?i = "i - ?l" and ?c = "c + ?r + ?l"
  have kd: "kind (seg_at s n) = MI_SEGMENT_NORMAL" using ok by (simp add: seg_ok_def)
  have i: "i = slices_of A" using tiled_end [OF tA] by simp
  have iA: "i = slices_of (left_rest A) + ?l"
    using arg_cong [OF left_split [of A], of slices_of] by (simp add: i left_count_def split: if_splits)
  have eB: "512 = i + c + slices_of B" using tiled_end [OF tB] .
  have rB: "slices_of B = ?r + slices_of (right_rest B)"
    using arg_cong [OF right_split [of B], of slices_of] by (simp add: right_count_def split: if_splits)
  define f where "f = (\<lambda>j. page_at s (Slice n j))"
  have fA: "tiled f 0 (left_rest A) ?i"
    using tA left_split [of A] iA unfolding f_def [symmetric] by (metis add_diff_cancel_right' tiled_append add_0)
  have fB: "tiled f (i + c + ?r) (right_rest B) 512"
  proof -
    have "tiled f (i + c) ((if right_free B then [(?r, False)] else []) @ right_rest B) 512"
      using tB right_split [of B] unfolding f_def by simp
    then show ?thesis by (auto simp: tiled_append right_count_def split: if_splits)
  qed
  have frA: "frees 0 A = frees 0 (left_rest A) \<union> (if left_free A then {?i} else {})"
    using arg_cong [OF left_split [of A], of "frees 0"] iA by (auto simp: frees_append split: if_splits)
  have frB: "frees (i + c) B = (if right_free B then {i + c} else {}) \<union> frees (i + c + ?r) (right_rest B)"
    using arg_cong [OF right_split [of B], of "frees (i + c)"] by (auto simp: frees_append right_count_def split: if_splits)
  have lA: "j < ?i" if "j \<in> frees 0 (left_rest A)" for j using frees_free [OF fA that] by simp
  have lB: "i + c + ?r \<le> j" if "j \<in> frees (i + c + ?r) (right_rest B)" for j using frees_free [OF fB that] by simp
  have le: "i + c \<le> 512" using eB by simp
  have sl: "slice_at n i s = Some (page_at s (Slice n i))" using le by (simp add: slice_at_def)
  note qB = coalesce_right [OF ent tB q, of c]
  obtain s1 where s1: "(if i + c < slice_entries (seg_at s n) then do {
                nsl \<leftarrow> slice_at n (i + c) s;
                if xblock_size nsl = 0 then do {
                  s \<leftarrow> (if \<not> mi_segment_is_abandoned (seg_at s n) then mi_segment_span_remove_from_queue (Slice n (i + c)) s else Some s);
                  Some (c + slice_count nsl, s) }
                else Some (c, s) }
              else Some (c, s)) = Some (c + ?r, s1)"
     "touches s s1 n (i + c) (i + c + ?r) FS" "queues_ok s1 (if in_use s n \<and> right_free B then FS - {Slice n (i + c)} else FS)"
    using qB FS [of "i + c"] frB by auto
  define FS1 where "FS1 = (if in_use s n \<and> right_free B then FS - {Slice n (i + c)} else FS)"
  have ab1: "mi_segment_is_abandoned (seg_at s1 n) = mi_segment_is_abandoned (seg_at s n)" using touches_seg(1) [OF s1(2), of n] by blast
  have tA1: "tiled (\<lambda>j. page_at s1 (Slice n j)) 0 A i"
  proof -
    have "tiled (\<lambda>j. page_at s1 (Slice n j)) 0 A i = tiled (\<lambda>j. page_at s (Slice n j)) 0 A i"
      by (rule tiled_cong, rule touches_slice [OF s1(2)]) simp
    then show ?thesis using tA by simp
  qed
  have frl: "Slice n ?i \<in> FS1" if "in_use s n" "left_free A"
    using that FS [of ?i] frA le c(1) by (auto simp: FS1_def)
  note qA = coalesce_left [OF tA1 _ s1(3) [folded FS1_def], of "c + ?r"]
  obtain s2 where s2: "(if i > 0 then do {
                prev \<leftarrow> mi_slice_first n (i - 1) s1;
                psl \<leftarrow> slice_at n prev s1;
                if xblock_size psl = 0 then do {
                  s \<leftarrow> (if \<not> mi_segment_is_abandoned (seg_at s n) then mi_segment_span_remove_from_queue (Slice n prev) s1 else Some s1);
                  Some (prev, c + ?r + slice_count psl, s) }
                else Some (i, c + ?r, s1) }
              else Some (i, c + ?r, s1)) = Some (?i, ?c, s2)"
     "touches s1 s2 n ?i i FS1" "queues_ok s2 (if in_use s n \<and> left_free A then FS1 - {Slice n ?i} else FS1)"
    using qA frl le unfolding ab1 by auto
  define FS2 where "FS2 = (if in_use s n \<and> left_free A then FS1 - {Slice n ?i} else FS1)"
  have sub: "FS2 \<subseteq> FS" "FS1 \<subseteq> FS" by (auto simp: FS2_def FS1_def)
  have m2: "Slice n j \<in> FS2 \<longleftrightarrow> in_use s n \<and> (j \<in> frees 0 (left_rest A) \<or> j \<in> frees (i + c + ?r) (right_rest B))" for j
  proof (cases "in_use s n")
    case True
    have "Slice n j \<in> FS2 \<longleftrightarrow> Slice n j \<in> FS \<and> \<not> (right_free B \<and> j = i + c) \<and> \<not> (left_free A \<and> j = ?i)"
      using True by (auto simp: FS2_def FS1_def)
    moreover have "?r > 0" if "right_free B" using that tB by (cases B; cases "List.hd B") (auto simp: right_count_def right_free_def)
    ultimately show ?thesis
      unfolding FS frA frB using True lA [of j] lB [of j] iA c(1) by (auto split: if_splits)
  next
    case False
    then show ?thesis using FS [of j] by (simp add: FS2_def FS1_def)
  qed
  have t12: "touches s s2 n ?i (i + c + ?r) FS"
    by (rule touches_trans [OF touches_mono [OF s1(2)] touches_mono [OF s2(2)]]) (use sub in auto)
  have ok2: "seg_ok (seg_at s2 n)" using touches_seg(4) [OF t12 ok] .
  have ab2: "mi_segment_is_abandoned (seg_at s2 n) = mi_segment_is_abandoned (seg_at s n)" using touches_seg(1) [OF t12, of n] by blast
  have e: "?i + ?c = i + c + ?r" using iA by simp
  have new: "Slice n j \<notin> FS2" if "?i \<le> j" "j < ?i + ?c" for j
    using that m2 [of j] lA [of j] lB [of j] e by auto
  obtain s3 where s3: "mi_segment_span_free env n ?i ?c True s2 = Some s3" "touches s2 s3 n ?i (?i + ?c) FS2"
    "span_ok (\<lambda>j. page_at s3 (Slice n j)) ?i ?c False" "queues_ok s3 (if in_use s n then insert (Slice n ?i) FS2 else FS2)"
    using span_free_spec [where c = ?c and i = ?i and env = env and pu = True, OF ok2 _ _ s2(3) [folded FS2_def] new] c(1) e eB rB unfolding ab2 by auto
  have t3: "touches s s3 n ?i (i + c + ?r) FS"
    by (rule touches_trans [OF t12 s3(2) [unfolded e]]) (use sub in auto)
  have eq: "mi_segment_span_free_coalesce env n i s = Some (?i, s3)"
    unfolding mi_segment_span_free_coalesce_def Let_def
    by (simp only: kd mi_segment_kind.distinct if_False sl c(2) Option.bind.simps s1(1) s2(1) s3(1) prod.case)
  have keep: "same_slice (page_at s3 (Slice n j)) (f j)" if "\<not> (?i \<le> j \<and> j < i + c + ?r)" for j
    unfolding f_def by (rule touches_slice [OF t3 that])
  have "tiled (\<lambda>j. page_at s3 (Slice n j)) 0 (left_rest A) ?i"
    using fA tiled_cong [of 0 ?i "\<lambda>j. page_at s3 (Slice n j)" f "left_rest A"] keep by simp
  moreover have "tiled (\<lambda>j. page_at s3 (Slice n j)) (i + c + ?r) (right_rest B) 512"
    using fB tiled_cong [of "i + c + ?r" 512 "\<lambda>j. page_at s3 (Slice n j)" f "right_rest B"] keep by simp
  moreover have "slices_of (left_rest A) = ?i" "?i + (?l + c + ?r) = i + c + ?r" "?l + c + ?r = ?c" using iA by simp_all
  ultimately have "tiled (\<lambda>j. page_at s3 (Slice n j)) 0 (merge_span A c B) 512"
    using s3(3) c(1) unfolding merge_span_def tiled_at by (simp add: ac_simps)
  moreover have "(if in_use s n then insert (Slice n ?i) FS2 else FS2) =
      FS - range (Slice n) \<union> (if in_use s n then Slice n ` frees 0 (merge_span A c B) else {})"
  proof -
    have fm: "frees 0 (merge_span A c B) = insert ?i (frees 0 (left_rest A) \<union> frees (i + c + ?r) (right_rest B))"
      using iA by (simp add: merge_span_def frees_append e [symmetric] add_ac)
    have o: "p \<in> FS2 \<longleftrightarrow> p \<in> FS" if "p \<notin> range (Slice n)" for p using that by (auto simp: FS2_def FS1_def)
    show ?thesis
    proof (rule set_eqI)
      fix p
      show "p \<in> (if in_use s n then insert (Slice n ?i) FS2 else FS2) \<longleftrightarrow>
        p \<in> FS - range (Slice n) \<union> (if in_use s n then Slice n ` frees 0 (merge_span A c B) else {})"
      proof (cases "p \<in> range (Slice n)")
        case True
        then obtain j where "p = Slice n j" by blast
        then show ?thesis using m2 [of j] unfolding fm by (auto simp: image_iff)
      next
        case False
        then show ?thesis using o [OF False] by auto
      qed
    qed
  qed
  ultimately show ?thesis using eq t3 s3(4) by (intro exI [of _ s3]) simp
qed

section \<open>Making a span a page\<close>

text \<open>Only the slices lo to hi change.\<close>

definition exact :: "'a seg_state_scheme \<Rightarrow> 'a seg_state_scheme \<Rightarrow> nat \<Rightarrow> nat \<Rightarrow> nat \<Rightarrow> bool" where
  "exact s s' n lo hi \<longleftrightarrow> (\<forall>p. (\<forall>j. lo \<le> j \<longrightarrow> j < hi \<longrightarrow> p \<noteq> Slice n j) \<longrightarrow> page_at s' p = page_at s p) \<and>
     spans s' = spans s \<and> seg_at s' = seg_at s \<and> ars s' = ars s \<and> seg_map s' = seg_map s \<and> heap_at s' = heap_at s \<and>
     block_next s' = block_next s"

lemma exact_trans: "exact s s1 n lo hi \<Longrightarrow> exact s1 s2 n lo hi \<Longrightarrow> exact s s2 n lo hi"
  unfolding exact_def by simp

lemma exact_refl: "exact s s n lo hi"
  by (simp add: exact_def)

lemma exact_mono: "exact s s' n lo hi \<Longrightarrow> lo' \<le> lo \<Longrightarrow> hi \<le> hi' \<Longrightarrow> exact s s' n lo' hi'"
  unfolding exact_def by auto

lemma upd_slice_in: "i \<le> 512 \<Longrightarrow> upd_slice n i f s = Some (upd_page (Slice n i) f s)"
  by (simp add: upd_slice_def)

lemma upd_page_exact: "lo \<le> i \<Longrightarrow> i < hi \<Longrightarrow> exact s (upd_page (Slice n i) f s) n lo hi"
  by (simp add: exact_def)

lemma exact_touches: "exact s s' n lo hi \<Longrightarrow> touches s s' n lo hi FS"
  unfolding exact_def touches_def using only_masks_refl by (auto intro: exI [of _ "ar_os (ars s)"])

lemma exact_queues:
  assumes e: "exact s s' n lo hi" and q: "queues_ok s FS" and new: "\<And>j. lo \<le> j \<Longrightarrow> j < hi \<Longrightarrow> Slice n j \<notin> FS"
  shows "queues_ok s' FS"
proof (rule queues_ok_cong [OF q])
  show "spans s' = spans s" using e by (simp add: exact_def)
  fix p assume "p \<in> FS"
  then have "page_at s' p = page_at s p" using e [unfolded exact_def, THEN conjunct1, rule_format, of p] new by metis
  then show "pnext (page_at s' p) = pnext (page_at s p) \<and> pprev (page_at s' p) = pprev (page_at s p) \<and>
     slice_count (page_at s' p) = slice_count (page_at s p)" by simp
qed

lemma set_back_offsets_spec:
  "i + k \<le> 512 \<Longrightarrow> \<exists>s'. set_back_offsets n i k s = Some s' \<and> exact s s' n (i + 1) (i + k + 1) \<and>
    (\<forall>j. 1 \<le> j \<longrightarrow> j \<le> k \<longrightarrow> slice_offset (page_at s' (Slice n (i + j))) = sizeof_mi_slice * j \<and>
       slice_count (page_at s' (Slice n (i + j))) = 0 \<and> xblock_size (page_at s' (Slice n (i + j))) = 1)"
proof (induction k)
  case 0
  then show ?case using exact_refl by auto
next
  case (Suc k)
  then obtain s1 where s1: "set_back_offsets n i k s = Some s1" "exact s s1 n (i + 1) (i + k + 1)"
    "\<forall>j. 1 \<le> j \<longrightarrow> j \<le> k \<longrightarrow> slice_offset (page_at s1 (Slice n (i + j))) = sizeof_mi_slice * j \<and>
       slice_count (page_at s1 (Slice n (i + j))) = 0 \<and> xblock_size (page_at s1 (Slice n (i + j))) = 1" by auto
  have m: "(sizeof_mi_slice * Suc k) mod 2 ^ 32 = sizeof_mi_slice * Suc k" using Suc.prems by simp
  let ?f = "\<lambda>x. x\<lparr>slice_offset := sizeof_mi_slice * Suc k, slice_count := 0, xblock_size := 1\<rparr>"
  let ?s = "upd_page (Slice n (i + Suc k)) ?f s1"
  have e: "set_back_offsets n i (Suc k) s = Some ?s"
    unfolding set_back_offsets.simps s1(1) Option.bind.simps m using Suc.prems by (simp add: upd_slice_def)
  have "exact s ?s n (i + 1) (i + Suc k + 1)"
    by (rule exact_trans [OF exact_mono [OF s1(2)]]) (auto simp: exact_def)
  then show ?case using e s1(3) by (intro exI [of _ ?s]) (auto simp: le_Suc_eq)
qed

lemma span_allocate_spec:
  assumes ok: "seg_ok (seg_at s n)" and ent: "slice_entries (seg_at s n) = 512"
    and c: "0 < c" "i + c \<le> 512" and q: "queues_ok s FS" and new: "\<And>j. i \<le> j \<Longrightarrow> j < i + c \<Longrightarrow> Slice n j \<notin> FS"
  shows "\<exists>r s1. mi_segment_span_allocate env n i c s = Some (r, if r then upd_seg n (\<lambda>x. x\<lparr>seg_used := seg_used x + 1\<rparr>) s1 else s1) \<and>
    touches s s1 n i (i + c) FS \<and> queues_ok s1 FS \<and>
    (if r then span_ok (\<lambda>j. page_at s1 (Slice n j)) i c True \<and> is_committed (page_at s1 (Slice n i)) \<and>
         xblock_size (page_at s1 (Slice n i)) = of_nat (c * MI_SEGMENT_SLICE_SIZE)
     else page_at s1 = page_at s)"
proof -
  have inseg: "in_segment n (seg_addr n + i * MI_SEGMENT_SLICE_SIZE) (c * MI_SEGMENT_SLICE_SIZE)" using c by simp
  have sl: "slice_at n i s = Some (page_at s (Slice n i))" using c by (simp add: slice_at_def)
  obtain r seg os where en: "mi_segment_ensure_committed env n (seg_addr n + i * MI_SEGMENT_SLICE_SIZE) (c * MI_SEGMENT_SLICE_SIZE)
      (seg_at s n) (ar_os (ars s)) = Some (r, seg, os)" "seg_ok seg" "only_masks (seg_at s n) seg"
    using ensure_committed_masks [OF ok inseg] by blast
  define s1 where "s1 = s\<lparr>seg_at := (seg_at s)(n := seg), ars := (ars s)\<lparr>ar_os := os\<rparr>\<rparr>"
  have t1: "touches s s1 n i (i + c) FS" "page_at s1 = page_at s" "spans s1 = spans s"
    unfolding touches_def s1_def using en by auto
  have q1: "queues_ok s1 FS" by (rule queues_ok_cong [OF q]) (simp_all add: t1)
  have ad: "fst (mi_segment_page_start_from_slice n i 0 x) = seg_addr n + i * MI_SEGMENT_SLICE_SIZE" for x
    by (simp add: mi_segment_page_start_from_slice_def Let_def)
  show ?thesis
  proof (cases r)
    case False
    have "mi_segment_span_allocate env n i c s = Some (False, s1)"
      unfolding mi_segment_span_allocate_def using sl en(1) False by (simp add: ad [simplified] s1_def Let_def)
    then show ?thesis using t1 q1 False by (intro exI [of _ False] exI [of _ s1]) simp
  next
    case True
    let ?f0 = "\<lambda>x. x\<lparr>slice_offset := 0, slice_count := c, xblock_size := of_nat (c * MI_SEGMENT_SLICE_SIZE)\<rparr>"
    define s2 where "s2 = upd_page (Slice n i) ?f0 s1"
    have e2: "exact s1 s2 n i (i + c)" unfolding s2_def by (rule upd_page_exact) (use c in simp_all)
    have p2: "page_at s2 (Slice n i) = ?f0 (page_at s1 (Slice n i))" by (simp add: s2_def)
    have lt: "\<not> MI_HUGE_BLOCK_SIZE \<le> c * MI_SEGMENT_SLICE_SIZE" using c by simp
    define k where "k = (if c - 1 > MI_MAX_SLICE_OFFSET then MI_MAX_SLICE_OFFSET else c - 1)"
    have k: "k < c" "i + k \<le> 512" "\<not> i + k \<ge> 512" using c unfolding k_def by auto
    obtain s3 where s3: "set_back_offsets n i k s2 = Some s3" "exact s2 s3 n (i + 1) (i + k + 1)"
      "\<And>j. 1 \<le> j \<Longrightarrow> j \<le> k \<Longrightarrow> slice_offset (page_at s3 (Slice n (i + j))) = sizeof_mi_slice * j \<and>
         slice_count (page_at s3 (Slice n (i + j))) = 0 \<and> xblock_size (page_at s3 (Slice n (i + j))) = 1"
      using set_back_offsets_spec [OF k(2), of n s2] by blast
    have e3: "exact s2 s3 n i (i + c)" by (rule exact_mono [OF s3(2)]) (use k in auto)
    have p3: "page_at s3 (Slice n i) = page_at s2 (Slice n i)" using s3(2) unfolding exact_def by auto
    let ?f4 = "\<lambda>x. x\<lparr>slice_offset := sizeof_mi_slice * (c - 1), slice_count := 0, xblock_size := 1\<rparr>"
    define s4 where "s4 = (if 1 < c then upd_page (Slice n (i + c - 1)) ?f4 s3 else s3)"
    have e4: "exact s3 s4 n i (i + c)"
    proof (cases "1 < c")
      case True
      show ?thesis unfolding s4_def if_P [OF True] by (rule upd_page_exact) (use True in simp_all)
    qed (simp add: s4_def exact_refl)
    have p4: "page_at s4 (Slice n i) = page_at s3 (Slice n i)" by (auto simp: s4_def)
    define s5 where "s5 = upd_page (Slice n i) (\<lambda>x. x\<lparr>is_committed := True\<rparr>) s4"
    have e5: "exact s4 s5 n i (i + c)" unfolding s5_def by (rule upd_page_exact) (use c in simp_all)
    have ex: "exact s1 s5 n i (i + c)" by (rule exact_trans [OF exact_trans [OF exact_trans [OF e2 e3] e4] e5])
    have g2: "seg_at s2 = seg_at s1" using e2 unfolding exact_def by blast
    have sg: "slice_entries (seg_at s2 n) = 512" unfolding g2 using ent masks_fields(3) [OF en(3)] by (simp add: s1_def)
    have eq: "mi_segment_span_allocate env n i c s = Some (True, upd_seg n (\<lambda>x. x\<lparr>seg_used := seg_used x + 1\<rparr>) s5)"
    proof -
      have u1: "upd_slice n i (\<lambda>x. x\<lparr>slice_offset := 0, slice_count := c mod 2 ^ 32, xblock_size := of_nat
          (if c * MI_SEGMENT_SLICE_SIZE \<ge> MI_HUGE_BLOCK_SIZE then MI_HUGE_BLOCK_SIZE else c * MI_SEGMENT_SLICE_SIZE)\<rparr>) s1 = Some s2"
      proof -
        have "c mod 2 ^ 32 = c" using c by simp
        then show ?thesis unfolding if_not_P [OF lt] s2_def using upd_slice_in [of i n ?f0 s1] c by simp
      qed
      have u3: "(if i + (if (if c = 0 then SIZE_MAX else c - 1) > MI_MAX_SLICE_OFFSET then MI_MAX_SLICE_OFFSET else (if c = 0 then SIZE_MAX else c - 1)) \<ge> 512
          then 512 - i - 1 else (if (if c = 0 then SIZE_MAX else c - 1) > MI_MAX_SLICE_OFFSET then MI_MAX_SLICE_OFFSET else (if c = 0 then SIZE_MAX else c - 1))) = k"
      proof -
        have e: "(if c = 0 then SIZE_MAX else c - 1) = c - 1" using c by simp
        show ?thesis unfolding e k_def [symmetric] if_not_P [OF k(3)] ..
      qed
      have l: "\<not> int i + int c - 1 > int 512" "int i + int c - 1 > int i \<longleftrightarrow> 1 < c" "nat (int i + int c - 1) = i + c - 1"
        "i + c - 1 - i = c - 1" "sizeof_mi_slice * (c - 1) mod 2 ^ 32 = sizeof_mi_slice * (c - 1)"
        using c by auto
      have u4: "(if 1 < c then upd_slice n (i + c - 1) ?f4 s3 else Some s3) = Some s4"
        unfolding s4_def using upd_slice_in [of "i + c - 1" n ?f4 s3] c by simp
      have u5: "upd_slice n i (\<lambda>x. x\<lparr>is_committed := True\<rparr>) s4 = Some s5" unfolding s5_def using c by (intro upd_slice_in) simp
      show ?thesis
        unfolding mi_segment_span_allocate_def Let_def sl Option.bind.simps ad en(1) prod.case if_not_P [OF not_not [THEN iffD2, OF True]]
          s1_def [symmetric] u1 sg u3 s3(1) if_not_P [OF l(1)] l(2,3,4,5) u4 u5 ..
    qed
    have sp: "span_ok (\<lambda>j. page_at s5 (Slice n j)) i c True"
    proof -
      have 1: "slice_count (page_at s5 (Slice n i)) = c" "slice_offset (page_at s5 (Slice n i)) = 0"
        "xblock_size (page_at s5 (Slice n i)) = of_nat (c * MI_SEGMENT_SLICE_SIZE)"
        by (simp_all add: s5_def p4 p3 p2)
      have nz: "(of_nat (c * MI_SEGMENT_SLICE_SIZE) :: usize) \<noteq> 0"
      proof
        assume "(of_nat (c * MI_SEGMENT_SLICE_SIZE) :: usize) = 0"
        then have "unat (of_nat (c * MI_SEGMENT_SLICE_SIZE) :: usize) = 0" by simp
        moreover have "unat (of_nat (c * MI_SEGMENT_SLICE_SIZE) :: usize) = c * MI_SEGMENT_SLICE_SIZE"
          by (rule unat_of_nat_usize) (use c in simp)
        ultimately show False using c by simp
      qed
      have 2: "page_at s5 (Slice n (i + j)) = (if 1 < c \<and> j = c - 1 then ?f4 (page_at s3 (Slice n (i + j))) else page_at s3 (Slice n (i + j)))" if "1 \<le> j" for j
        using that by (auto simp: s5_def s4_def)
      show ?thesis
        unfolding span_ok_def 1 using nz 2 s3(3) k_def 2 [of "c - 1"] by (auto split: if_splits)
    qed
    have "is_committed (page_at s5 (Slice n i)) \<and> xblock_size (page_at s5 (Slice n i)) = of_nat (c * MI_SEGMENT_SLICE_SIZE)"
      by (simp add: s5_def p4 p3 p2)
    then show ?thesis
      using eq sp True touches_trans [OF t1(1) exact_touches [OF ex, of FS]] exact_queues [OF ex q1 new]
      by (intro exI [of _ True] exI [of _ s5]) simp
  qed
qed

lemma slice_split_spec:
  assumes ok: "seg_ok (seg_at s n)" and c: "0 < k" "k < c" "i + c \<le> 512" and sc: "slice_count (page_at s (Slice n i)) = c"
    and q: "queues_ok s FS" and new: "\<And>j. i \<le> j \<Longrightarrow> j < i + c \<Longrightarrow> Slice n j \<notin> FS" and u: "in_use s n"
  shows "\<exists>s'. mi_segment_slice_split env n i k s = Some s' \<and> touches s s' n i (i + c) FS \<and>
    slice_count (page_at s' (Slice n i)) = k \<and> span_ok (\<lambda>j. page_at s' (Slice n j)) (i + k) (c - k) False \<and>
    queues_ok s' (insert (Slice n (i + k)) FS)"
proof -
  have r: "0 < c - k" "i + k + (c - k) \<le> 512" "i + k + (c - k) = i + c" using c by simp_all
  obtain s1 where s1: "mi_segment_span_free env n (i + k) (c - k) False s = Some s1" "touches s s1 n (i + k) (i + c) FS"
    "span_ok (\<lambda>j. page_at s1 (Slice n j)) (i + k) (c - k) False" "queues_ok s1 (insert (Slice n (i + k)) FS)"
    using span_free_spec [where i = "i + k" and c = "c - k" and env = env and pu = False, OF ok r(1,2) q] new u r(3) by auto
  have t1: "touches s s1 n i (i + c) FS" by (rule touches_mono [OF s1(2)]) simp_all
  let ?f = "\<lambda>x. x\<lparr>slice_count := k\<rparr>"
  let ?s = "upd_page (Slice n i) ?f s1"
  have e: "mi_segment_slice_split env n i k s = Some ?s"
    using c sc s1(1) by (simp add: mi_segment_slice_split_def slice_at_def upd_slice_def Let_def)
  have sp: "span_ok (\<lambda>j. page_at ?s (Slice n j)) (i + k) (c - k) False"
    using s1(3) span_ok_cong [OF r(1), of "i + k" "\<lambda>j. page_at ?s (Slice n j)" "\<lambda>j. page_at s1 (Slice n j)" False] c(1) by simp
  have ex: "exact s1 ?s n i (i + c)" by (rule upd_page_exact) (use c in simp_all)
  have "touches s ?s n i (i + c) FS" by (rule touches_trans [OF t1 exact_touches [OF ex, of FS]]) simp
  moreover have "queues_ok ?s (insert (Slice n (i + k)) FS)"
    by (rule exact_queues [OF upd_page_exact [of i i "i + 1"] s1(4)]) (use new c in auto)
  ultimately show ?thesis using e sp by (intro exI [of _ ?s]) simp
qed

end
