(* ===== verification/Segments.thy ===== *)
theory Segments
  imports Spans
begin

text \<open>
  The segments that a thread owns (src/segment.c), over the operations of Spans. spans_inv says
  that every owned segment is exactly divided into spans and that the queues hold exactly the
  free ones; the lemmas show it for allocating and clearing pages and for new and freed
  segments, and seg_reach collects these steps.
\<close>

section \<open>The segments of a thread\<close>

text \<open>No two free spans are neighbours.\<close>

definition coalesced :: "(nat \<times> bool) list \<Rightarrow> bool" where
  "coalesced L \<longleftrightarrow> successively (\<lambda>x y. snd x \<or> snd y) L"

definition used_spans :: "(nat \<times> bool) list \<Rightarrow> nat" where
  "used_spans L = length (filter snd L)"

text \<open>Where the pages begin.\<close>

fun pages_of :: "nat \<Rightarrow> (nat \<times> bool) list \<Rightarrow> nat set" where
  "pages_of i [] = {}"
| "pages_of i ((c, u) # L) = (if u then insert i (pages_of (i + c) L) else pages_of (i + c) L)"

text \<open>
  A segment with the spans L. The first span is the header of the segment, which is not counted
  as used.
\<close>

definition seg_wf :: "'a seg_state_scheme \<Rightarrow> nat \<Rightarrow> (nat \<times> bool) list \<Rightarrow> bool" where
  "seg_wf s n L \<longleftrightarrow> seg_ok (seg_at s n) \<and> slice_entries (seg_at s n) = 512 \<and>
     tiled (\<lambda>j. page_at s (Slice n j)) 0 L 512 \<and> coalesced L \<and> L \<noteq> [] \<and> snd (hd L) \<and>
     seg_used (seg_at s n) + 1 = used_spans L"

definition free_slices :: "(nat \<Rightarrow> (nat \<times> bool) list option) \<Rightarrow> page_ptr set" where
  "free_slices lay = {Slice n j | n j L. lay n = Some L \<and> j \<in> frees 0 L}"

definition used_pages :: "(nat \<Rightarrow> (nat \<times> bool) list option) \<Rightarrow> page_ptr set" where
  "used_pages lay = {Slice n j | n j L. lay n = Some L \<and> j \<in> pages_of 0 L}"

text \<open>The segments that the thread owns are those with a list of spans; their free spans are queued.\<close>

definition spans_inv :: "'a seg_state_scheme \<Rightarrow> (nat \<Rightarrow> (nat \<times> bool) list option) \<Rightarrow> bool" where
  "spans_inv s lay \<longleftrightarrow> (\<forall>n L. lay n = Some L \<longrightarrow> in_use s n \<and> seg_wf s n L) \<and> queues_ok s (free_slices lay)"

lemma coalesced_append:
  "coalesced (A @ B) \<longleftrightarrow> coalesced A \<and> coalesced B \<and> (A = [] \<or> B = [] \<or> snd (last A) \<or> snd (hd B))"
  by (auto simp: coalesced_def successively_append_iff)

lemma coalesced_Cons: "coalesced (x # B) \<longleftrightarrow> coalesced B \<and> (B = [] \<or> snd x \<or> snd (hd B))"
  using coalesced_append [of "[x]" B] by (simp add: coalesced_def)

lemma used_append [simp]: "used_spans (A @ B) = used_spans A + used_spans B" "used_spans [] = 0"
    "used_spans (x # B) = (if snd x then 1 else 0) + used_spans B"
  by (simp_all add: used_spans_def)

lemma pages_append: "pages_of i (A @ B) = pages_of i A \<union> pages_of (i + slices_of A) B"
  by (induction A arbitrary: i) (auto simp: add.assoc)

lemma pages_bounds: "j \<in> pages_of i L \<Longrightarrow> i \<le> j \<and> j \<le> i + slices_of L"
  by (induction i L rule: pages_of.induct) (fastforce split: if_splits)+

lemma pages_used: "tiled f i L e \<Longrightarrow> j \<in> pages_of i L \<Longrightarrow> i \<le> j \<and> j < e \<and> xblock_size (f j) \<noteq> 0"
proof (induction L arbitrary: i)
  case (Cons x L)
  obtain c u where x: "x = (c, u)" by (cases x)
  have t: "0 < c" "span_ok f i c u" "tiled f (i + c) L e" using Cons.prems(1) by (simp_all add: x)
  show ?case
  proof (cases "j \<in> pages_of (i + c) L")
    case True then show ?thesis using Cons.IH [OF t(3)] t(1) by fastforce
  next
    case False
    then have "j = i" u using Cons.prems(2) by (auto simp: x split: if_splits)
    then show ?thesis using t tiled_end [OF t(3)] by (auto simp: span_ok_def)
  qed
qed simp

lemma left_right_facts:
  assumes "coalesced A" "coalesced B"
  shows "left_rest A = [] \<or> snd (last (left_rest A))" "right_rest B = [] \<or> snd (hd (right_rest B))"
    "coalesced (left_rest A)" "coalesced (right_rest B)" "used_spans (left_rest A) = used_spans A" "used_spans (right_rest B) = used_spans B"
proof -
  show "used_spans (left_rest A) = used_spans A" using arg_cong [OF left_split [of A], of used_spans] by (simp split: if_splits)
  show "used_spans (right_rest B) = used_spans B" using arg_cong [OF right_split [of B], of used_spans] by (simp split: if_splits)
  have a: "coalesced (left_rest A @ (if left_free A then [(left_count A, False)] else []))" using assms(1) left_split [of A] by metis
  then show "coalesced (left_rest A)" unfolding coalesced_append by blast
  show "left_rest A = [] \<or> snd (last (left_rest A))"
    using a by (cases "left_free A") (auto simp: coalesced_append left_rest_def left_free_def)
  have b: "coalesced ((if right_free B then [(right_count B, False)] else []) @ right_rest B)" using assms(2) right_split [of B] by metis
  then show "coalesced (right_rest B)" unfolding coalesced_append by blast
  show "right_rest B = [] \<or> snd (hd (right_rest B))"
    using b by (cases "right_free B") (auto simp: coalesced_append right_rest_def right_free_def)
qed

lemma merge_span_wf:
  assumes "coalesced A" "coalesced B"
  shows "coalesced (merge_span A c B)" "used_spans (merge_span A c B) = used_spans A + used_spans B"
    "A \<noteq> [] \<Longrightarrow> snd (hd A) \<Longrightarrow> merge_span A c B \<noteq> [] \<and> snd (hd (merge_span A c B))"
proof -
  note f = left_right_facts [OF assms]
  show "coalesced (merge_span A c B)" unfolding merge_span_def coalesced_append coalesced_Cons using f by auto
  show "used_spans (merge_span A c B) = used_spans A + used_spans B" using f by (simp add: merge_span_def)
  assume h: "A \<noteq> []" "snd (hd A)"
  have "left_rest A \<noteq> []"
  proof
    assume e: "left_rest A = []"
    then have "A = (if left_free A then [(left_count A, False)] else [])" using left_split [of A] by simp
    then have "A = [] \<or> hd A = (left_count A, False)" by (metis list.sel(1))
    then show False using h by auto
  qed
  moreover from this have "hd (left_rest A) = hd A" using left_split [of A] by (metis hd_append2)
  ultimately show "merge_span A c B \<noteq> [] \<and> snd (hd (merge_span A c B))" using h(2) by (simp add: merge_span_def)
qed

lemma free_slices_upd: "free_slices (lay(n \<mapsto> L)) = free_slices lay - range (Slice n) \<union> Slice n ` frees 0 L"
  by (auto simp: free_slices_def)

lemma free_slices_in: "lay n = Some L \<Longrightarrow> Slice n j \<in> free_slices lay \<longleftrightarrow> j \<in> frees 0 L"
  by (auto simp: free_slices_def)

lemma seg_wf_other:
  assumes t: "touches s s' n lo hi FS" and m: "m \<noteq> n" and w: "seg_wf s m L"
  shows "seg_wf s' m L"
proof -
  have e: "seg_at s' m = seg_at s m" using t m unfolding touches_def by blast
  have "tiled (\<lambda>j. page_at s' (Slice m j)) 0 L 512 = tiled (\<lambda>j. page_at s (Slice m j)) 0 L 512"
  proof (rule tiled_cong)
    fix j
    have "(\<exists>i. Slice m j = Slice n i \<and> lo \<le> i \<and> i < hi) \<or> (Slice m j \<in> FS \<and> links_only (page_at s (Slice m j)) (page_at s' (Slice m j))) \<or>
        page_at s' (Slice m j) = page_at s (Slice m j)"
      using t [unfolded touches_def, THEN conjunct1, THEN spec, of "Slice m j"] .
    then show "same_slice (page_at s' (Slice m j)) (page_at s (Slice m j))" using m links_only_same by auto
  qed
  then show ?thesis using w unfolding seg_wf_def e by simp
qed

text \<open>An operation on segment n that leaves the other segments alone.\<close>

lemma spans_update:
  assumes inv: "spans_inv s lay" and n: "lay n = Some L" and t: "touches s s1 n lo hi FS"
    and s': "page_at s' = page_at s1" "spans s' = spans s1" "seg_at s' = (seg_at s1)(n := (seg_at s1 n)\<lparr>seg_used := v\<rparr>)"
    and L': "tiled (\<lambda>j. page_at s1 (Slice n j)) 0 L' 512" "coalesced L'" "L' \<noteq> []" "snd (hd L')" "v + 1 = used_spans L'"
    and q: "queues_ok s1 (free_slices (lay(n \<mapsto> L')))"
  shows "spans_inv s' (lay(n \<mapsto> L'))"
proof -
  have w: "in_use s n" "seg_wf s n L" using inv n by (auto simp: spans_inv_def)
  have 1: "seg_ok (seg_at s1 n)" "slice_entries (seg_at s1 n) = 512" "in_use s1 n"
    using touches_seg [OF t, of n] w by (auto simp: seg_wf_def)
  have 2: "in_use s' n" "seg_wf s' n L'"
    using 1 L' by (simp_all add: seg_wf_def s' seg_ok_def mi_segment_is_abandoned_def)
  have 3: "in_use s' m \<and> seg_wf s' m M" if m: "m \<noteq> n" "lay m = Some M" for m M
  proof -
    have "in_use s m" "seg_wf s m M" using inv m by (auto simp: spans_inv_def)
    then have "in_use s1 m" "seg_wf s1 m M" using touches_seg(1) [OF t] seg_wf_other [OF t m(1)] by auto
    then show ?thesis using m(1) by (simp add: seg_wf_def s')
  qed
  have 4: "queues_ok s' (free_slices (lay(n \<mapsto> L')))" by (rule queues_ok_cong [OF q]) (simp_all add: s')
  show ?thesis unfolding spans_inv_def using 2 3 4 by (auto split: if_splits)
qed

lemma used_not_free: "spans_inv s lay \<Longrightarrow> p \<in> used_pages lay \<Longrightarrow> p \<notin> free_slices lay"
  unfolding spans_inv_def seg_wf_def used_pages_def free_slices_def using pages_used frees_free by fastforce

lemma touches_pages:
  assumes "spans_inv s lay" "touches s s' n lo hi (free_slices lay)" "p \<in> used_pages lay" "\<And>j. p = Slice n j \<Longrightarrow> \<not> (lo \<le> j \<and> j < hi)"
  shows "page_at s' p = page_at s p"
  using assms(2) [unfolded touches_def, THEN conjunct1, THEN spec, of p] used_not_free [OF assms(1,3)] assms(4) by blast

text \<open>The pages of a segment lie outside the span that coalescing makes.\<close>

lemma pages_outside_merge:
  assumes t: "tiled f 0 (A @ (c, True) # B) 512" and j: "j \<in> pages_of 0 (A @ (c, True) # B)" "j \<noteq> slices_of A"
  shows "\<not> (slices_of A - left_count A \<le> j \<and> j < slices_of A + c + right_count B)"
proof -
  have tA: "tiled f 0 A (slices_of A)" and tB: "tiled f (slices_of A + c) B 512" using t by (simp_all add: tiled_append)
  consider "j \<in> pages_of 0 A" | "j \<in> pages_of (slices_of A + c) B" using j by (auto simp: pages_append)
  then show ?thesis
  proof cases
    case 1
    have e: "slices_of A = slices_of (left_rest A) + left_count A"
      using arg_cong [OF left_split [of A], of slices_of] by (simp add: left_count_def split: if_splits)
    have "j \<in> pages_of 0 (left_rest A)"
      using 1 arg_cong [OF left_split [of A], of "pages_of 0"] by (simp add: pages_append split: if_splits)
    moreover have "tiled f 0 (left_rest A) (slices_of (left_rest A))"
      using tA left_split [of A] by (metis tiled_append add_0)
    ultimately show ?thesis using pages_used [of f 0 "left_rest A" "slices_of (left_rest A)" j] e by simp
  next
    case 2
    have "j \<in> pages_of (slices_of A + c + right_count B) (right_rest B)"
      using 2 arg_cong [OF right_split [of B], of "pages_of (slices_of A + c)"]
      by (auto simp: pages_append right_count_def split: if_splits)
    then show ?thesis using pages_bounds [of j "slices_of A + c + right_count B" "right_rest B"] by simp
  qed
qed

lemma page_clear_spec:
  assumes inv: "spans_inv s lay" and n: "lay n = Some (A @ (c, True) # B)" and A: "A \<noteq> []"
  shows "\<exists>s'. mi_segment_page_clear env n (slices_of A) s = Some (slices_of A - left_count A, s') \<and>
     spans_inv s' (lay(n \<mapsto> merge_span A c B)) \<and>
     (\<forall>p \<in> used_pages lay. p \<noteq> Slice n (slices_of A) \<longrightarrow> page_at s' p = page_at s p)"
proof -
  let ?i = "slices_of A" and ?L = "A @ (c, True) # B"
  let ?FS = "free_slices lay"
  have w: "in_use s n" "seg_wf s n ?L" using inv n by (auto simp: spans_inv_def)
  have q: "queues_ok s ?FS" using inv by (simp add: spans_inv_def)
  have t: "tiled (\<lambda>j. page_at s (Slice n j)) 0 ?L 512" using w by (simp add: seg_wf_def)
  then have c: "0 < c" "tiled (\<lambda>j. page_at s (Slice n j)) 0 A ?i" "span_ok (\<lambda>j. page_at s (Slice n j)) ?i c True"
    "tiled (\<lambda>j. page_at s (Slice n j)) (?i + c) B 512" by (simp_all add: tiled_append)
  have le: "?i + c \<le> 512" using tiled_end [OF c(4)] by simp
  have sl: "slice_at n ?i s = Some (page_at s (Slice n ?i))" using le by (simp add: slice_at_def)
  define s0 where "s0 = (if allow_decommit (seg_at s n) \<and> optv env mi_option_deprecated_page_reset \<noteq> 0 then
        (case mi_segment_page_start n ?i (page_at s (Slice n ?i)) of (start, psize) \<Rightarrow>
           s\<lparr>ars := (ars s)\<lparr>ar_os := snd (mi_os_reset env start psize (ar_os (ars s)))\<rparr>\<rparr>) else s)"
  have f0: "page_at s0 = page_at s" "seg_at s0 = seg_at s" "spans s0 = spans s" by (simp_all add: s0_def split: prod.split)
  have "\<exists>os. ars s0 = (ars s)\<lparr>ar_os := os\<rparr>" by (auto simp: s0_def split: prod.split intro: exI [of _ "ar_os (ars s)"])
  then have t0: "touches s s0 n ?i (?i + c) ?FS"
    unfolding touches_def using only_masks_refl by (simp add: f0) (simp add: s0_def split: prod.split)
  let ?f = "\<lambda>x. mi_page_empty\<lparr>slice_count := slice_count x, slice_offset := slice_offset x,
            is_committed := is_committed x, xblock_size := 1\<rparr>"
  define s1 where "s1 = upd_page (Slice n ?i) ?f s0"
  have ex: "exact s0 s1 n ?i (?i + c)" unfolding s1_def by (rule upd_page_exact) (use c in simp_all)
  have t1: "touches s s1 n ?i (?i + c) ?FS" by (rule touches_trans [OF t0 exact_touches [OF ex, of ?FS]]) simp
  have u1: "upd_slice n ?i ?f s0 = Some s1" unfolding s1_def by (rule upd_slice_in) (use le in simp)
  have nin: "Slice n ?i \<notin> ?FS"
    by (rule used_not_free [OF inv]) (use n in \<open>auto simp: used_pages_def pages_append\<close>)
  have q1: "queues_ok s1 ?FS"
    by (rule queues_ok_cong [OF q]) (use nin in \<open>auto simp: s1_def f0\<close>)
  have g1: "seg_at s1 = seg_at s" by (simp add: s1_def f0)
  have keep: "same_slice (page_at s1 (Slice n j)) (page_at s (Slice n j))" if "\<not> (?i \<le> j \<and> j < ?i + c)" for j
    by (rule touches_slice [OF t1 that])
  have tA: "tiled (\<lambda>j. page_at s1 (Slice n j)) 0 A ?i"
    using c(2) tiled_cong [of 0 ?i "\<lambda>j. page_at s1 (Slice n j)" "\<lambda>j. page_at s (Slice n j)" A] keep by simp
  have tB: "tiled (\<lambda>j. page_at s1 (Slice n j)) (?i + c) B 512"
    using c(4) tiled_cong [of "?i + c" 512 "\<lambda>j. page_at s1 (Slice n j)" "\<lambda>j. page_at s (Slice n j)" B] keep by simp
  have cc: "slice_count (page_at s1 (Slice n ?i)) = c" using c(3) by (simp add: s1_def f0 span_ok_def)
  have ok1: "seg_ok (seg_at s1 n)" "slice_entries (seg_at s1 n) = 512" "in_use s1 n" using w by (simp_all add: g1 seg_wf_def)
  have fs: "Slice n j \<in> ?FS \<longleftrightarrow> in_use s1 n \<and> (j \<in> frees 0 A \<or> j \<in> frees (?i + c) B)" for j
    using ok1(3) free_slices_in [where lay = lay and n = n and L = ?L and j = j] n by (auto simp: frees_append)
  obtain s2 where s2: "mi_segment_span_free_coalesce env n ?i s1 = Some (?i - left_count A, s2)"
    "touches s1 s2 n (?i - left_count A) (?i + c + right_count B) ?FS"
    "tiled (\<lambda>j. page_at s2 (Slice n j)) 0 (merge_span A c B) 512"
    "queues_ok s2 (?FS - range (Slice n) \<union> (if in_use s1 n then Slice n ` frees 0 (merge_span A c B) else {}))"
    using coalesce_spec [OF ok1(1,2) tA tB c(1) cc q1 fs, of env] by blast
  have t2: "touches s s2 n (?i - left_count A) (?i + c + right_count B) ?FS"
    by (rule touches_trans [OF touches_mono [OF t1] s2(2)]) simp_all
  let ?s = "upd_seg n (\<lambda>x. x\<lparr>seg_used := dec_size (seg_used x)\<rparr>) s2"
  have eq: "mi_segment_page_clear env n ?i s = Some (?i - left_count A, ?s)"
    unfolding mi_segment_page_clear_def Let_def sl Option.bind.simps s0_def [symmetric] u1 s2(1) prod.case ..
  have co: "coalesced A" "coalesced B" "snd (hd A)" "seg_used (seg_at s n) = used_spans A + used_spans B"
    using w(2) A by (auto simp: seg_wf_def coalesced_append coalesced_Cons)
  have "used_spans A > 0" using A co(3) by (cases A) auto
  moreover have "seg_used (seg_at s2 n) = seg_used (seg_at s n)" using touches_seg(5) [OF t2] .
  ultimately have v: "dec_size (seg_used (seg_at s2 n)) + 1 = used_spans (merge_span A c B)"
    using co(4) merge_span_wf(2) [OF co(1,2)] by (simp add: dec_size_def)
  have inv': "spans_inv ?s (lay(n \<mapsto> merge_span A c B))"
  proof (rule spans_update [OF inv n t2 _ _ _ s2(3) _ _ _ v])
    show "queues_ok s2 (free_slices (lay(n \<mapsto> merge_span A c B)))" using s2(4) ok1(3) by (simp add: free_slices_upd)
  qed (use merge_span_wf [OF co(1,2)] A co(3) in simp_all)
  have pg: "page_at ?s p = page_at s p" if p: "p \<in> used_pages lay" "p \<noteq> Slice n ?i" for p
  proof -
    have "page_at s2 p = page_at s p"
    proof (rule touches_pages [OF inv t2 p(1)])
      fix j assume j: "p = Slice n j"
      then have "j \<in> pages_of 0 ?L" using p(1) n by (auto simp: used_pages_def)
      then show "\<not> (?i - left_count A \<le> j \<and> j < ?i + c + right_count B)"
        by (rule pages_outside_merge [OF t]) (use p(2) j in simp)
    qed
    then show ?thesis by simp
  qed
  then show ?thesis using eq inv' by (intro exI [of _ ?s]) simp
qed

section \<open>The search for a span\<close>

lemma mi_slice_bin_cases:
  assumes c: "2 \<le> c" "c \<le> 512"
  shows "\<exists>b. 2 ^ b \<le> c - 1 \<and> c - 1 < 2 ^ Suc b \<and> mi_slice_bin c = (if b \<le> 2 then c else 4 * b + (c - 1) div 2 ^ (b - 2) - 8) \<and>
    (2 \<le> b \<longrightarrow> 4 \<le> (c - 1) div 2 ^ (b - 2) \<and> (c - 1) div 2 ^ (b - 2) < 8)"
proof -
  define w where "w = (of_nat (c - 1) :: usize)"
  have w: "unat w = c - 1" unfolding w_def using c by (intro unat_of_nat_usize) simp
  then have nz: "w \<noteq> 0" using c by auto
  define b where "b = mi_bsr w"
  note bb = mi_bsr_bounds [OF nz, folded b_def, unfolded w]
  have q: "4 \<le> (c - 1) div 2 ^ (b - 2) \<and> (c - 1) div 2 ^ (b - 2) < 8" if "2 \<le> b"
  proof -
    define K where "K = (2 :: nat) ^ (b - 2)"
    have "2 ^ (x + 2) = 2 ^ x * (4 :: nat)" for x :: nat by simp
    from this [of "b - 2"] have k: "2 ^ b = K * 4" using that by (simp only: K_def le_add_diff_inverse2)
    then have k2: "2 ^ Suc b = 8 * K" by simp
    have k3: "0 < K" by (simp add: K_def)
    have "K * 4 div K \<le> (c - 1) div K" using bb(1) unfolding k by (rule div_le_mono)
    moreover have "(c - 1) div K < 8" using bb(2) unfolding k2 by (rule less_mult_imp_div_less)
    ultimately show ?thesis using k3 by (simp add: K_def [symmetric])
  qed
  have m: "unat (drop_bit (b - 2) w AND 3) = (c - 1) div 2 ^ (b - 2) mod 4"
    unfolding unat_and_3 unat_drop_bit_eq w by (simp only: drop_bit_eq_div)
  have "mi_slice_bin c = (if b \<le> 2 then c else 4 * b + (c - 1) div 2 ^ (b - 2) mod 4 - 4)"
    unfolding mi_slice_bin_def mi_slice_bin8_def Let_def w_def [symmetric] b_def [symmetric] m using c by simp
  moreover have "(c - 1) div 2 ^ (b - 2) mod 4 = (c - 1) div 2 ^ (b - 2) - 4" if "2 \<le> b"
  proof -
    have "x mod 4 = x - 4" if "4 \<le> x \<and> x < 8" for x :: nat using that by presburger
    then show ?thesis using q [OF that] by blast
  qed
  ultimately have "mi_slice_bin c = (if b \<le> 2 then c else 4 * b + (c - 1) div 2 ^ (b - 2) - 8)" using q by auto
  then show ?thesis using bb q by blast
qed

lemma mi_slice_bin_mono:
  assumes "c \<le> d" "d \<le> 512"
  shows "mi_slice_bin c \<le> mi_slice_bin d"
proof -
  consider "d \<le> 1" | "c \<le> 1" "2 \<le> d" | "2 \<le> c" by linarith
  then show ?thesis
  proof cases
    case 1 then show ?thesis using assms by (simp add: mi_slice_bin_def mi_slice_bin8_def)
  next
    case 2
    obtain b where "mi_slice_bin d = (if b \<le> 2 then d else 4 * b + (d - 1) div 2 ^ (b - 2) - 8)"
       "2 \<le> b \<longrightarrow> 4 \<le> (d - 1) div 2 ^ (b - 2) \<and> (d - 1) div 2 ^ (b - 2) < 8"
      using mi_slice_bin_cases [of d] 2 assms by blast
    moreover have "mi_slice_bin c = c" using 2 by (simp add: mi_slice_bin_def mi_slice_bin8_def)
    ultimately show ?thesis using 2 by (cases "b \<le> 2") auto
  next
    case 3
    have cd: "2 \<le> c" "c \<le> 512" "2 \<le> d" "d \<le> 512" using 3 assms by simp_all
    obtain b where b: "2 ^ b \<le> c - 1" "c - 1 < 2 ^ Suc b" "mi_slice_bin c = (if b \<le> 2 then c else 4 * b + (c - 1) div 2 ^ (b - 2) - 8)"
       "2 \<le> b \<longrightarrow> 4 \<le> (c - 1) div 2 ^ (b - 2) \<and> (c - 1) div 2 ^ (b - 2) < 8"
      using mi_slice_bin_cases [OF cd(1,2)] by blast
    obtain b' where b': "2 ^ b' \<le> d - 1" "d - 1 < 2 ^ Suc b'" "mi_slice_bin d = (if b' \<le> 2 then d else 4 * b' + (d - 1) div 2 ^ (b' - 2) - 8)"
       "2 \<le> b' \<longrightarrow> 4 \<le> (d - 1) div 2 ^ (b' - 2) \<and> (d - 1) div 2 ^ (b' - 2) < 8"
      using mi_slice_bin_cases [OF cd(3,4)] by blast
    have "2 ^ b < (2 :: nat) ^ Suc b'" using b(1) b'(2) assms by linarith
    then have "b < Suc b'" by (rule power_less_imp_less_exp [rotated]) simp
    then have le: "b \<le> b'" by simp
    consider "b' \<le> 2" | "b \<le> 2" "2 < b'" | "2 < b" "b = b'" | "2 < b" "b < b'" using le by linarith
    then show ?thesis
    proof cases
      case 1 then show ?thesis using b b' le assms by simp
    next
      case 2
      have "(2 :: nat) ^ Suc b \<le> 2 ^ 3" using 2(1) by (intro power_increasing) simp_all
      then have "c \<le> 8" using b(2) by simp
      moreover define q where "q = (d - 1) div 2 ^ (b' - 2)"
      moreover have "8 \<le> mi_slice_bin d" using b'(3,4) 2(2) unfolding q_def [symmetric] by auto
      moreover have "mi_slice_bin c = c" using b(3) 2(1) by simp
      ultimately show ?thesis by linarith
    next
      case 3
      define q q' where "q = (c - 1) div 2 ^ (b - 2)" and "q' = (d - 1) div 2 ^ (b' - 2)"
      have "q \<le> q'" unfolding q_def q'_def 3(2) using assms by (intro div_le_mono) simp
      then show ?thesis using b(3) b'(3) 3 unfolding q_def [symmetric] q'_def [symmetric] by auto
    next
      case 4
      define q q' where "q = (c - 1) div 2 ^ (b - 2)" and "q' = (d - 1) div 2 ^ (b' - 2)"
      show ?thesis using b(3,4) b'(3,4) 4 unfolding q_def [symmetric] q'_def [symmetric] by auto
    qed
  qed
qed

definition suits :: "int \<Rightarrow> nat \<Rightarrow> 'a seg_state_scheme \<Rightarrow> page_ptr \<Rightarrow> bool" where
  "suits req c s p \<longleftrightarrow> c \<le> slice_count (page_at s p) \<and> mi_arena_memid_is_suitable (memid (seg_at s (slice_seg p))) req"

lemma span_find_chain:
  "chain (\<lambda>p. pnext (page_at s p)) (\<lambda>p. pprev (page_at s p)) b ps None \<Longrightarrow>
     span_find req c (headp ps None) s = Some (List.find (suits req c s) ps)"
proof (induction ps arbitrary: b)
  case Nil show ?case by (subst span_find.simps) simp
next
  case (Cons p ps)
  then show ?case by (subst span_find.simps) (auto simp: suits_def [of req c s p, symmetric])
qed

lemma span_search_spec:
  assumes q: "queues_ok s FS"
  shows "\<exists>r. span_search req c k s = Some r \<and>
    (case r of Some (b, p) \<Rightarrow> p \<in> FS \<and> bin_at s p = b \<and> b \<le> MI_SEGMENT_BIN_MAX \<and> suits req c s p
     | None \<Rightarrow> \<forall>p \<in> FS. k \<le> bin_at s p \<and> bin_at s p \<le> MI_SEGMENT_BIN_MAX \<longrightarrow> \<not> suits req c s p)"
proof (induction "Suc MI_SEGMENT_BIN_MAX - k" arbitrary: k)
  case 0
  then show ?case by (subst span_search.simps) auto
next
  case (Suc x)
  have k: "k \<le> MI_SEGMENT_BIN_MAX" using Suc.hyps(2) by simp
  obtain ps where ps: "queue_linked s k ps" "set ps = {p \<in> FS. bin_at s p = k}" using q k unfolding queues_ok_def by blast
  have f: "span_find req c (sq_first (spans s ! k)) s = Some (List.find (suits req c s) ps)"
    using ps(1) span_find_chain [of s None ps req c] by (simp add: queue_linked_def linked_def)
  show ?case
  proof (cases "List.find (suits req c s) ps")
    case (Some p)
    then have "p \<in> set ps" "suits req c s p" by (auto simp: find_Some_iff)
    then show ?thesis using f Some k ps(2) by (subst span_search.simps) simp
  next
    case None
    have n: "\<not> suits req c s p" if "p \<in> FS" "bin_at s p = k" for p using None ps(2) that by (auto simp: find_None_iff)
    have e: "span_search req c k s = span_search req c (k + 1) s" using f None k by (subst span_search.simps) simp
    have sk: "x = Suc MI_SEGMENT_BIN_MAX - (k + 1)" using Suc.hyps(2) by simp
    obtain r where r: "span_search req c (k + 1) s = Some r"
      "case r of Some (b, p) \<Rightarrow> p \<in> FS \<and> bin_at s p = b \<and> b \<le> MI_SEGMENT_BIN_MAX \<and> suits req c s p
       | None \<Rightarrow> \<forall>p \<in> FS. k + 1 \<le> bin_at s p \<and> bin_at s p \<le> MI_SEGMENT_BIN_MAX \<longrightarrow> \<not> suits req c s p"
      using Suc.hyps(1) [OF sk] by blast
    have m: "k \<le> b \<longleftrightarrow> b = k \<or> k + 1 \<le> b" for b :: nat by linarith
    show ?thesis
      unfolding e r(1) using r(2) n by (intro exI [of _ r]) (auto simp: m split: option.splits)
  qed
qed

lemma commit_true:
  assumes "\<forall>p sz os. fst (fst (mi_os_commit env p sz os))" "mi_segment_ensure_committed env n p sz seg os = Some (r, seg', os')"
  shows r
proof -
  have "fst (fst (mi_os_commit env a b c))" for a b c using assms(1) by blast
  then show ?thesis
    using assms(2) unfolding mi_segment_ensure_committed_def mi_segment_commit_def
    by (auto simp: Let_def bind_eq_Some_conv split: if_splits prod.splits) (metis fst_conv)+
qed

lemma span_allocate_true:
  assumes "\<forall>p sz os. fst (fst (mi_os_commit env p sz os))" "mi_segment_span_allocate env n i c s = Some (r, s')"
  shows r
proof (rule ccontr)
  assume nr: "\<not> r"
  obtain sl where "slice_at n i s = Some sl" using assms(2) unfolding mi_segment_span_allocate_def by (auto simp: bind_eq_Some_conv)
  note a = assms(2) [unfolded mi_segment_span_allocate_def this Option.bind.simps]
  then obtain x where x: "mi_segment_ensure_committed env n (fst (mi_segment_page_start_from_slice n i 0 sl))
     (c * MI_SEGMENT_SLICE_SIZE) (seg_at s n) (ar_os (ars s)) = Some x"
    by (meson bind_eq_Some_conv)
  obtain ok seg os where e: "x = (ok, seg, os)" by (cases x)
  have ok: "ok" using commit_true [OF assms(1) x [unfolded e]] .
  show False using a nr unfolding x e Option.bind.simps prod.case if_not_P [OF not_not [THEN iffD2, OF ok]] Let_def
    by (auto simp: bind_eq_Some_conv)
qed

lemma frees_split: "j \<in> frees i L \<Longrightarrow> \<exists>A c B. L = A @ (c, False) # B \<and> j = i + slices_of A"
proof (induction i L rule: frees.induct)
  case (2 i c u L)
  show ?case
  proof (cases "j \<in> frees (i + c) L")
    case True
    then have "\<exists>A d B. L = A @ (d, False) # B \<and> j = i + c + slices_of A" using 2 by (cases u) simp_all
    then obtain A d B where "L = A @ (d, False) # B" "j = i + c + slices_of A" by blast
    then show ?thesis by (intro exI [of _ "(c, u) # A"] exI [of _ d] exI [of _ B]) simp
  next
    case False
    then have "j = i" "\<not> u" using 2(3) by (auto split: if_splits)
    then show ?thesis by (intro exI [of _ "[]"] exI [of _ c] exI [of _ L]) simp
  qed
qed simp

abbreviation rest_of :: "nat \<Rightarrow> nat \<Rightarrow> (nat \<times> bool) list" where
  "rest_of k c \<equiv> (if k < c then [(c - k, False)] else [])"

text \<open>The span at p becomes two, of which the second is queued.\<close>

lemma take_and_split:
  assumes inv: "spans_inv s lay" and n: "lay n = Some (A @ (c, False) # B)" and k: "0 < k" "k \<le> c"
  defines "i \<equiv> slices_of A" and "b \<equiv> mi_slice_bin c"
  shows "\<exists>s2. (let s1 = mi_span_queue_delete b (Slice n i) s in
       if slice_count (page_at s1 (Slice n i)) > k then mi_segment_slice_split env n i k s1 else Some s1) = Some s2 \<and>
     touches s s2 n i (i + c) (free_slices lay) \<and> slice_count (page_at s2 (Slice n i)) = k \<and>
     tiled (\<lambda>j. page_at s2 (Slice n j)) 0 A i \<and> tiled (\<lambda>j. page_at s2 (Slice n j)) (i + k) (rest_of k c @ B) 512 \<and>
     queues_ok s2 (free_slices (lay(n \<mapsto> A @ (k, True) # rest_of k c @ B)))"
proof -
  let ?p = "Slice n i" and ?FS = "free_slices lay" and ?L = "A @ (c, False) # B"
  have w: "in_use s n" "seg_wf s n ?L" using inv n by (auto simp: spans_inv_def)
  have q: "queues_ok s ?FS" using inv by (simp add: spans_inv_def)
  have t: "tiled (\<lambda>j. page_at s (Slice n j)) 0 A i" "0 < c" "span_ok (\<lambda>j. page_at s (Slice n j)) i c False"
    "tiled (\<lambda>j. page_at s (Slice n j)) (i + c) B 512" using w by (simp_all add: seg_wf_def tiled_append i_def)
  have le: "i + c \<le> 512" using tiled_end [OF t(4)] by simp
  have fs: "Slice n j \<in> ?FS \<longleftrightarrow> j \<in> frees 0 A \<or> j = i \<or> j \<in> frees (i + c) B" for j
    using free_slices_in [where lay = lay and n = n and L = ?L and j = j] n by (auto simp: frees_append i_def)
  have lA: "j < i" if "j \<in> frees 0 A" for j using frees_free [OF t(1) that] by simp
  have lB: "i + c \<le> j" if "j \<in> frees (i + c) B" for j using frees_free [OF t(4) that] by simp
  have sc: "slice_count (page_at s ?p) = c" using t(3) by (simp add: span_ok_def)
  have pin: "?p \<in> ?FS" using fs by simp
  have bb: "bin_at s ?p = b" "b \<le> MI_SEGMENT_BIN_MAX" using mi_slice_bin_bound [of c] le by (simp_all add: bin_at_def sc b_def)
  note d = queue_delete [OF q pin bb]
  define s1 where "s1 = mi_span_queue_delete b ?p s"
  have t1: "touches s s1 n i (i + c) ?FS" unfolding s1_def by (rule only_links_touches [OF d(2)]) (use t in simp_all)
  have q1: "queues_ok s1 (?FS - {?p})" unfolding s1_def by (rule d(1))
  have c1: "slice_count (page_at s1 ?p) = c"
    using d(2) sc unfolding only_links_def s1_def by auto
  have new: "Slice n j \<notin> ?FS - {?p}" if "i \<le> j" "j < i + c" for j using fs [of j] lA [of j] lB [of j] that by auto
  have FS': "free_slices (lay(n \<mapsto> A @ (k, True) # rest_of k c @ B)) = ?FS - {?p} \<union> (if k < c then {Slice n (i + k)} else {})" (is "?F = ?G")
  proof (rule set_eqI)
    fix p
    show "p \<in> ?F \<longleftrightarrow> p \<in> ?G"
    proof (cases "p \<in> range (Slice n)")
      case True
      then obtain j where j: "p = Slice n j" by blast
      have kc: "k + (c - k) = c" "\<not> k < c \<Longrightarrow> k = c" using k by simp_all
      have "p \<in> ?F \<longleftrightarrow> j \<in> frees 0 (A @ (k, True) # rest_of k c @ B)" unfolding j free_slices_upd by auto
      also have "\<dots> \<longleftrightarrow> j \<in> frees 0 A \<or> (k < c \<and> j = i + k) \<or> j \<in> frees (i + c) B"
        using kc by (auto simp: frees_append i_def add.assoc)
      also have "\<dots> \<longleftrightarrow> p \<in> ?G" unfolding j using fs [of j] lA [of j] lB [of j] k t(2) by auto
      finally show ?thesis .
    next
      case False
      then show ?thesis by (auto simp: free_slices_upd)
    qed
  qed
  have "\<exists>s2. (if slice_count (page_at s1 ?p) > k then mi_segment_slice_split env n i k s1 else Some s1) = Some s2 \<and>
     touches s s2 n i (i + c) ?FS \<and> slice_count (page_at s2 ?p) = k \<and> queues_ok s2 ?G \<and>
     (k < c \<longrightarrow> span_ok (\<lambda>j. page_at s2 (Slice n j)) (i + k) (c - k) False)"
  proof (cases "k < c")
    case True
    have "in_use s1 n" "seg_ok (seg_at s1 n)" using touches_seg [OF t1, of n] w by (simp_all add: seg_wf_def)
    then obtain s2 where s2: "mi_segment_slice_split env n i k s1 = Some s2" "touches s1 s2 n i (i + c) (?FS - {?p})"
      "slice_count (page_at s2 ?p) = k" "span_ok (\<lambda>j. page_at s2 (Slice n j)) (i + k) (c - k) False"
      "queues_ok s2 (insert (Slice n (i + k)) (?FS - {?p}))"
      using slice_split_spec [OF _ k(1) True le c1 q1 new, of env] by blast
    have "touches s s2 n i (i + c) ?FS" by (rule touches_trans [OF t1 s2(2)]) simp
    then show ?thesis using s2 True by (intro exI [of _ s2]) (simp add: c1)
  next
    case False
    then show ?thesis using t1 q1 c1 k by (intro exI [of _ s1]) auto
  qed
  then obtain s2 where s2: "(if slice_count (page_at s1 ?p) > k then mi_segment_slice_split env n i k s1 else Some s1) = Some s2"
     "touches s s2 n i (i + c) ?FS" "slice_count (page_at s2 ?p) = k" "queues_ok s2 ?G"
     "k < c \<longrightarrow> span_ok (\<lambda>j. page_at s2 (Slice n j)) (i + k) (c - k) False" by blast
  have keep: "same_slice (page_at s2 (Slice n j)) (page_at s (Slice n j))" if "\<not> (i \<le> j \<and> j < i + c)" for j
    by (rule touches_slice [OF s2(2) that])
  have tA: "tiled (\<lambda>j. page_at s2 (Slice n j)) 0 A i"
    using t(1) tiled_cong [of 0 i "\<lambda>j. page_at s2 (Slice n j)" "\<lambda>j. page_at s (Slice n j)" A] keep by simp
  have "tiled (\<lambda>j. page_at s2 (Slice n j)) (i + c) B 512"
    using t(4) tiled_cong [of "i + c" 512 "\<lambda>j. page_at s2 (Slice n j)" "\<lambda>j. page_at s (Slice n j)" B] keep by simp
  then have tB: "tiled (\<lambda>j. page_at s2 (Slice n j)) (i + k) (rest_of k c @ B) 512"
    using s2(5) k by (cases "k < c") (simp_all add: add.assoc)
  show ?thesis using s2 tA tB unfolding s1_def [symmetric] Let_def FS' by blast
qed


lemma merge_restore:
  assumes "coalesced (A @ (c, False) # B)" "0 < k" "k \<le> c"
  shows "left_count A = 0" "merge_span A k (rest_of k c @ B) = A @ (c, False) # B" "right_count (rest_of k c @ B) = c - k"
proof -
  have a: "\<not> left_free A" "\<not> right_free B" using assms(1) by (auto simp: coalesced_append coalesced_Cons left_free_def right_free_def)
  have l: "left_count A = 0" "left_rest A = A" using a by (simp_all add: left_count_def left_rest_def)
  have r: "right_count (rest_of k c @ B) = c - k" "right_rest (rest_of k c @ B) = B"
    using a(2) assms(3) by (cases "k < c"; auto simp: right_count_def right_rest_def right_free_def)+
  then show "left_count A = 0" "merge_span A k (rest_of k c @ B) = A @ (c, False) # B" "right_count (rest_of k c @ B) = c - k"
    using l assms by (simp_all add: merge_span_def)
qed

text \<open>A page of k slices out of the free span at p, or the layout as it was.\<close>

lemma allocate_at:
  assumes inv: "spans_inv s lay" and n: "lay n = Some (A @ (c, False) # B)" and k: "0 < k" "k \<le> c"
  defines "i \<equiv> slices_of A" and "b \<equiv> mi_slice_bin c"
  shows "\<exists>ok s2 s3 s'. (let s1 = mi_span_queue_delete b (Slice n i) s in
       if slice_count (page_at s1 (Slice n i)) > k then mi_segment_slice_split env n i k s1 else Some s1) = Some s2 \<and>
     mi_segment_span_allocate env n i (slice_count (page_at s2 (Slice n i))) s2 = Some (ok, s3) \<and>
     (if ok then s' = s3 else mi_segment_span_free_coalesce env n i s3 = Some (i, s')) \<and>
     (\<forall>p \<in> used_pages lay. page_at s' p = page_at s p) \<and>
     spans_inv s' (if ok then lay(n \<mapsto> A @ (k, True) # rest_of k c @ B) else lay) \<and>
     (ok \<longrightarrow> is_committed (page_at s' (Slice n i)) \<and> xblock_size (page_at s' (Slice n i)) = of_nat (k * MI_SEGMENT_SLICE_SIZE))"
proof -
  let ?p = "Slice n i" and ?FS = "free_slices lay" and ?L = "A @ (c, False) # B" and ?M = "A @ (k, True) # rest_of k c @ B"
  let ?FM = "free_slices (lay(n \<mapsto> ?M))"
  have w: "in_use s n" "seg_wf s n ?L" using inv n by (auto simp: spans_inv_def)
  have t: "tiled (\<lambda>j. page_at s (Slice n j)) 0 ?L 512" and co: "coalesced ?L" "snd (hd ?L)" "seg_used (seg_at s n) + 1 = used_spans A + used_spans B"
    using w by (simp_all add: seg_wf_def)
  have le: "i + c \<le> 512" using tiled_end [OF t] by (simp add: i_def)
  have ne: "A \<noteq> []" "snd (hd A)" using co(2) by (cases A; auto)+
  obtain s2 where s2: "(let s1 = mi_span_queue_delete b ?p s in
       if slice_count (page_at s1 ?p) > k then mi_segment_slice_split env n i k s1 else Some s1) = Some s2"
     "touches s s2 n i (i + c) ?FS" "slice_count (page_at s2 ?p) = k"
     "tiled (\<lambda>j. page_at s2 (Slice n j)) 0 A i" "tiled (\<lambda>j. page_at s2 (Slice n j)) (i + k) (rest_of k c @ B) 512" "queues_ok s2 ?FM"
    using take_and_split [OF inv n k, of env, folded i_def b_def] by blast
  have seg2: "in_use s2 n" "seg_ok (seg_at s2 n)" "slice_entries (seg_at s2 n) = 512"
    using touches_seg [OF s2(2), of n] w by (simp_all add: seg_wf_def)
  have m: "Slice n j \<in> ?FM \<longleftrightarrow> j \<in> frees 0 A \<or> j \<in> frees (i + k) (rest_of k c @ B)" for j
    by (auto simp: free_slices_upd frees_append [of _ A] i_def)
  have new: "Slice n j \<notin> ?FM" if "i \<le> j" "j < i + k" for j
    unfolding m using frees_free [OF s2(4), of j] frees_free [OF s2(5), of j] that by linarith
  have ik: "i + k \<le> 512" using le k by simp
  obtain ok s3 where s3: "mi_segment_span_allocate env n i k s2 = Some (ok, if ok then upd_seg n (\<lambda>x. x\<lparr>seg_used := seg_used x + 1\<rparr>) s3 else s3)"
    "touches s2 s3 n i (i + k) ?FM" "queues_ok s3 ?FM"
    "if ok then span_ok (\<lambda>j. page_at s3 (Slice n j)) i k True \<and> is_committed (page_at s3 ?p) \<and>
         xblock_size (page_at s3 ?p) = of_nat (k * MI_SEGMENT_SLICE_SIZE) else page_at s3 = page_at s2"
    using span_allocate_spec [OF seg2(2,3) k(1) ik s2(6) new, of env] by blast
  have sub: "p \<in> ?FS \<or> (\<exists>j. p = Slice n j \<and> i \<le> j \<and> j < i + c)" if "p \<in> ?FM" for p
  proof (cases "p \<in> range (Slice n)")
    case True
    then obtain j where j: "p = Slice n j" by blast
    have "j \<in> frees 0 ?L \<or> (i \<le> j \<and> j < i + c)"
      using that k unfolding j m by (auto simp: frees_append i_def add.assoc split: if_splits)
    then show ?thesis using free_slices_in [where lay = lay and n = n and L = ?L and j = j] n j by blast
  next
    case False
    then show ?thesis using that by (auto simp: free_slices_upd)
  qed
  have t3: "touches s s3 n i (i + c) ?FS"
    by (rule touches_trans [OF s2(2) touches_mono [OF s3(2)] sub]) (use k in simp_all)
  have pages: "page_at s' p = page_at s p" if "touches s s' n i (i + c) ?FS" "p \<in> used_pages lay" for s' p
  proof (rule touches_pages [OF inv that])
    fix j assume "p = Slice n j"
    then have "j \<in> pages_of 0 A \<or> j \<in> pages_of (i + c) B" using that(2) n by (auto simp: used_pages_def pages_append i_def)
    then show "\<not> (i \<le> j \<and> j < i + c)"
      using pages_used [OF s2(4), of j] pages_bounds [of j "i + c" B] by auto
  qed
  have keep: "same_slice (page_at s3 (Slice n j)) (page_at s2 (Slice n j))" if "\<not> (i \<le> j \<and> j < i + k)" for j
    by (rule touches_slice [OF s3(2) that])
  have tA: "tiled (\<lambda>j. page_at s3 (Slice n j)) 0 A i"
    using s2(4) tiled_cong [of 0 i "\<lambda>j. page_at s3 (Slice n j)" "\<lambda>j. page_at s2 (Slice n j)" A] keep by simp
  have tB: "tiled (\<lambda>j. page_at s3 (Slice n j)) (i + k) (rest_of k c @ B) 512"
    using s2(5) tiled_cong [of "i + k" 512 "\<lambda>j. page_at s3 (Slice n j)" "\<lambda>j. page_at s2 (Slice n j)" "rest_of k c @ B"] keep by simp
  have cM: "coalesced ?M" "used_spans ?M = used_spans A + used_spans B + 1"
    using co(1) by (auto simp: coalesced_append coalesced_Cons coalesced_def [of "[]"])
  show ?thesis
  proof (cases ok)
    case True
    let ?s = "upd_seg n (\<lambda>x. x\<lparr>seg_used := seg_used x + 1\<rparr>) s3"
    have tM: "tiled (\<lambda>j. page_at s3 (Slice n j)) 0 ?M 512"
      using tA tB s3(4) True k(1) unfolding tiled_at i_def [symmetric] by (simp add: i_def [symmetric])
    have "seg_used (seg_at s3 n) = seg_used (seg_at s n)" using touches_seg(5) [OF t3] .
    then have "spans_inv ?s (lay(n \<mapsto> ?M))"
      by (intro spans_update [OF inv n t3 _ _ _ tM cM(1) _ _ _ s3(3), where v = "seg_used (seg_at s3 n) + 1"])
         (use co(3) cM(2) ne in simp_all)
    moreover have "\<forall>p\<in>used_pages lay. page_at ?s p = page_at s p" using pages [OF t3] by simp
    ultimately show ?thesis
      using s2(1,3) s3(1,4) True by (intro exI [of _ True] exI [of _ s2] exI [of _ ?s]) simp
  next
    case False
    have seg3: "in_use s3 n" "seg_ok (seg_at s3 n)" "slice_entries (seg_at s3 n) = 512"
      using touches_seg [OF t3, of n] w by (simp_all add: seg_wf_def)
    have c3: "slice_count (page_at s3 ?p) = k" using s3(4) s2(3) False by simp
    note r = merge_restore [OF co(1) k]
    obtain s4 where s4: "mi_segment_span_free_coalesce env n i s3 = Some (i - left_count A, s4)"
      "touches s3 s4 n (i - left_count A) (i + k + right_count (rest_of k c @ B)) ?FM"
      "tiled (\<lambda>j. page_at s4 (Slice n j)) 0 (merge_span A k (rest_of k c @ B)) 512"
      "queues_ok s4 (?FM - range (Slice n) \<union> (if in_use s3 n then Slice n ` frees 0 (merge_span A k (rest_of k c @ B)) else {}))"
      using coalesce_spec [OF seg3(2,3) tA tB k(1) c3 s3(3), of env] m seg3(1) by blast
    have ik: "i + k + (c - k) = i + c" using k by simp
    have t4: "touches s s4 n i (i + c) ?FS"
      by (rule touches_trans [OF t3 s4(2) [unfolded r ik diff_zero] sub])
    have q4: "queues_ok s4 (free_slices (lay(n \<mapsto> ?L)))"
    proof -
      have "?FM - range (Slice n) = ?FS - range (Slice n)" unfolding free_slices_upd by blast
      then show ?thesis using s4(4) seg3(1) unfolding r free_slices_upd [of lay n ?L] by simp
    qed
    have e: "seg_at s4 = (seg_at s4)(n := (seg_at s4 n)\<lparr>seg_used := seg_used (seg_at s4 n)\<rparr>)" by simp
    have "spans_inv s4 (lay(n \<mapsto> ?L))"
      by (rule spans_update [OF inv n t4 refl refl e s4(3) [unfolded r] co(1) _ _ _ q4])
         (use touches_seg(5) [OF t4, of n] co ne in simp_all)
    moreover have "lay(n \<mapsto> ?L) = lay" using n by auto
    ultimately show ?thesis
      using s2(1,3) s3(1) s4(1) False pages [OF t4] unfolding r
      by (intro exI [of _ False] exI [of _ s2] exI [of _ s3] exI [of _ s4]) simp
  qed
qed

lemma find_and_allocate_spec:
  assumes inv: "spans_inv s lay" and c: "count \<le> 512"
  defines "k \<equiv> (if count = 0 then 1 else count)"
  shows "\<exists>r s'. mi_segments_page_find_and_allocate env count req s = Some (r, s') \<and>
    (\<forall>p \<in> used_pages lay. page_at s' p = page_at s p) \<and>
    (case r of
       Some p \<Rightarrow> \<exists>n A c B. lay n = Some (A @ (c, False) # B) \<and> p = Slice n (slices_of A) \<and> k \<le> c \<and>
         mi_arena_memid_is_suitable (memid (seg_at s n)) req \<and>
         spans_inv s' (lay(n \<mapsto> A @ (k, True) # rest_of k c @ B)) \<and>
         is_committed (page_at s' p) \<and> xblock_size (page_at s' p) = of_nat (k * MI_SEGMENT_SLICE_SIZE)
     | None \<Rightarrow> spans_inv s' lay \<and>
         ((\<forall>p sz os. fst (fst (mi_os_commit env p sz os))) \<longrightarrow>
            (\<forall>n A c B. lay n = Some (A @ (c, False) # B) \<longrightarrow> c < k \<or> \<not> mi_arena_memid_is_suitable (memid (seg_at s n)) req)))"
proof -
  let ?FS = "free_slices lay"
  have q: "queues_ok s ?FS" using inv by (simp add: spans_inv_def)
  have k: "0 < k" using c by (simp add: k_def)
  have qf: "mi_span_queue_for count s = Some (mi_slice_bin count)"
    using q mi_slice_bin_bound [OF c] by (simp add: mi_span_queue_for_def queues_ok_def Let_def)
  have at: "span_ok (\<lambda>j. page_at s (Slice n j)) (slices_of A) c False \<and> slices_of A + c \<le> 512" if "lay n = Some (A @ (c, False) # B)" for n A c B
  proof -
    have "tiled (\<lambda>j. page_at s (Slice n j)) 0 (A @ (c, False) # B) 512" using inv that by (auto simp: spans_inv_def seg_wf_def)
    then show ?thesis by (auto simp: tiled_at dest: tiled_end)
  qed
  obtain r where r: "span_search req k (mi_slice_bin count) s = Some r"
    "case r of Some (b, p) \<Rightarrow> p \<in> ?FS \<and> bin_at s p = b \<and> b \<le> MI_SEGMENT_BIN_MAX \<and> suits req k s p
     | None \<Rightarrow> \<forall>p \<in> ?FS. mi_slice_bin count \<le> bin_at s p \<and> bin_at s p \<le> MI_SEGMENT_BIN_MAX \<longrightarrow> \<not> suits req k s p"
    using span_search_spec [OF q, of req k "mi_slice_bin count"] by blast
  show ?thesis
  proof (cases r)
    case None
    have eq: "mi_segments_page_find_and_allocate env count req s = Some (None, s)"
      unfolding mi_segments_page_find_and_allocate_def k_def [symmetric] Let_def qf using r(1) None by simp
    have "c < k \<or> \<not> mi_arena_memid_is_suitable (memid (seg_at s n)) req" if l: "lay n = Some (A @ (c, False) # B)" for n A c B
    proof (rule ccontr)
      assume a: "\<not> ?thesis"
      let ?p = "Slice n (slices_of A)"
      have sc: "slice_count (page_at s ?p) = c" "c \<le> 512" using at [OF l] by (simp_all add: span_ok_def)
      have "count \<le> c" using a by (simp add: k_def split: if_splits)
      then have "mi_slice_bin count \<le> mi_slice_bin c" using sc(2) by (rule mi_slice_bin_mono)
      moreover have "mi_slice_bin c \<le> MI_SEGMENT_BIN_MAX" using mi_slice_bin_bound [OF sc(2)] by simp
      moreover have "?p \<in> ?FS" using l by (auto simp: free_slices_def frees_append)
      moreover have "suits req k s ?p" using a sc(1) by (simp add: suits_def)
      ultimately show False using r(2) None sc(1) by (auto simp: bin_at_def)
    qed
    then show ?thesis using eq inv by (intro exI [of _ None] exI [of _ s]) auto
  next
    case (Some x)
    obtain b p where x: "x = (b, p)" by (cases x)
    have p: "p \<in> ?FS" "bin_at s p = b" "suits req k s p" using r(2) Some x by auto
    obtain n j L where "p = Slice n j" "lay n = Some L" "j \<in> frees 0 L" using p(1) unfolding free_slices_def by blast
    then obtain A c B where l: "lay n = Some (A @ (c, False) # B)" "p = Slice n (slices_of A)" using frees_split [of j 0 L] by auto
    have sc: "slice_count (page_at s p) = c" using at [OF l(1)] l(2) by (simp add: span_ok_def)
    have kc: "k \<le> c" "mi_arena_memid_is_suitable (memid (seg_at s n)) req" using p(3) sc l(2) by (simp_all add: suits_def)
    have bb: "b = mi_slice_bin c" using p(2) sc by (simp add: bin_at_def)
    obtain ok s2 s3 s' where s': "(let s1 = mi_span_queue_delete (mi_slice_bin c) p s in
       if slice_count (page_at s1 p) > k then mi_segment_slice_split env n (slices_of A) k s1 else Some s1) = Some s2"
     "mi_segment_span_allocate env n (slices_of A) (slice_count (page_at s2 p)) s2 = Some (ok, s3)"
     "if ok then s' = s3 else mi_segment_span_free_coalesce env n (slices_of A) s3 = Some (slices_of A, s')"
     "\<forall>p \<in> used_pages lay. page_at s' p = page_at s p"
     "spans_inv s' (if ok then lay(n \<mapsto> A @ (k, True) # rest_of k c @ B) else lay)"
     "ok \<longrightarrow> is_committed (page_at s' p) \<and> xblock_size (page_at s' p) = of_nat (k * MI_SEGMENT_SLICE_SIZE)"
      using allocate_at [OF inv l(1) k kc(1), of env, folded l(2)] by blast
    have ix: "slice_seg p = n" "mi_slice_index p = slices_of A" using l(2) by simp_all
    have e: "mi_segments_page_find_and_allocate env count req s = Some (if ok then Some p else None, s')"
      unfolding mi_segments_page_find_and_allocate_def k_def [symmetric] qf Option.bind.simps Let_def
        r(1) [unfolded Some x bb] option.case prod.case ix s'(1) [unfolded Let_def] s'(2)
      using s'(3) by (cases ok) simp_all
    show ?thesis
    proof (cases ok)
      case True
      have 1: "spans_inv s' (lay(n \<mapsto> A @ (k, True) # rest_of k c @ B))"
        "is_committed (page_at s' p) \<and> xblock_size (page_at s' p) = of_nat (k * MI_SEGMENT_SLICE_SIZE)" using s'(5,6) True by simp_all
      show ?thesis
        by (intro exI [of _ "Some p"] exI [of _ s'] conjI, unfold option.case, rule e [unfolded if_P [OF True]], rule s'(4),
            intro exI [of _ n] exI [of _ A] exI [of _ c] exI [of _ B] conjI)
           (use l kc 1 in blast)+
    next
      case False
      then have "\<not> (\<forall>p sz os. fst (fst (mi_os_commit env p sz os)))" using span_allocate_true s'(2) by blast
      then show ?thesis using e s'(4,5) False by (intro exI [of _ None] exI [of _ s']) auto
    qed
  qed
qed

section \<open>New segments and the end of segments\<close>

lemma free_slices_del: "free_slices (lay(n := None)) = free_slices lay - range (Slice n)"
  by (auto simp: free_slices_def)

lemma spans_inv_cong:
  assumes inv: "spans_inv s lay" and e: "page_at s' = page_at s" "spans s' = spans s" "seg_at s' = seg_at s"
  shows "spans_inv s' lay"
proof -
  have "queues_ok s' (free_slices lay)"
    by (rule queues_ok_cong [of s]) (use inv e in \<open>simp_all add: spans_inv_def\<close>)
  then show ?thesis using inv unfolding spans_inv_def seg_wf_def e by simp
qed

text \<open>A segment that the thread does not own may change.\<close>

lemma spans_inv_other:
  assumes inv: "spans_inv s lay" and n: "lay n = None"
    and e: "\<And>m j. m \<noteq> n \<Longrightarrow> page_at s' (Slice m j) = page_at s (Slice m j)" "spans s' = spans s" "\<And>m. m \<noteq> n \<Longrightarrow> seg_at s' m = seg_at s m"
  shows "spans_inv s' lay"
proof -
  have f: "page_at s' p = page_at s p" if p: "p \<in> free_slices lay" for p
  proof -
    obtain m j L where m: "p = Slice m j" "lay m = Some L" using p unfolding free_slices_def by blast
    moreover have "m \<noteq> n" using m(2) n by auto
    ultimately show ?thesis using e(1) by simp
  qed
  have q: "queues_ok s' (free_slices lay)"
    by (rule queues_ok_cong [of s]) (use inv e(2) f in \<open>auto simp: spans_inv_def\<close>)
  have "in_use s' m \<and> seg_wf s' m L" if l: "lay m = Some L" for m L
  proof -
    have m: "m \<noteq> n" using l n by auto
    have "in_use s m" "seg_wf s m L" using inv l by (auto simp: spans_inv_def)
    then show ?thesis unfolding seg_wf_def e(1) [OF m] e(3) [OF m] by simp
  qed
  then show ?thesis using q unfolding spans_inv_def by blast
qed

lemma segment_free_loop_spec:
  assumes "tiled (\<lambda>j. page_at s (Slice n j)) i L 512" "kind (seg_at s n) = MI_SEGMENT_NORMAL" "slice_entries (seg_at s n) = 512"
    "queues_ok s FS" "Slice n ` frees i L \<subseteq> FS"
  shows "\<exists>s' . segment_free_loop n i s = Some s' \<and> queues_ok s' (FS - Slice n ` frees i L) \<and>
    (\<forall>p. p \<notin> FS \<longrightarrow> page_at s' p = page_at s p) \<and> (\<forall>p \<in> FS - range (Slice n). links_only (page_at s p) (page_at s' p)) \<and>
    seg_at s' = seg_at s \<and> ars s' = ars s \<and> seg_map s' = seg_map s"
  using assms
proof (induction L arbitrary: i s FS)
  case Nil
  then show ?case by (subst segment_free_loop.simps) simp
next
  case (Cons x L)
  obtain c u where x: "x = (c, u)" by (cases x)
  have t: "0 < c" "span_ok (\<lambda>j. page_at s (Slice n j)) i c u" "tiled (\<lambda>j. page_at s (Slice n j)) (i + c) L 512"
    using Cons.prems(1) by (simp_all add: x)
  have le: "i + c \<le> 512" using tiled_end [OF t(3)] by simp
  have sc: "slice_count (page_at s (Slice n i)) = c" "slice_at n i s = Some (page_at s (Slice n i))" "i < slice_entries (seg_at s n)"
    "xblock_size (page_at s (Slice n i)) = 0 \<longleftrightarrow> \<not> u"
    using t(1,2) le Cons.prems(3) by (auto simp: span_ok_def slice_at_def)
  show ?case
  proof (cases u)
    case True
    have "segment_free_loop n i s = segment_free_loop n (i + c) s"
      using sc True by (subst segment_free_loop.simps) simp
    moreover have "frees i (x # L) = frees (i + c) L" using True by (simp add: x)
    ultimately show ?thesis using Cons.IH [OF t(3) Cons.prems(2,3,4)] Cons.prems(5) by simp
  next
    case False
    have pin: "Slice n i \<in> FS" using Cons.prems(5) False by (simp add: x)
    have ni: "i \<notin> frees (i + c) L" using frees_free [OF t(3)] t(1) by fastforce
    obtain s1 where s1: "mi_segment_span_remove_from_queue (Slice n i) s = Some s1" "queues_ok s1 (FS - {Slice n i})" "only_links s s1 FS (Slice n i)"
      using span_remove [OF Cons.prems(4) pin] sc(1) le by auto
    have e: "segment_free_loop n i s = segment_free_loop n (i + c) s1"
      using sc False s1(1) Cons.prems(2) by (subst segment_free_loop.simps) simp
    have lk: "(q \<in> FS \<and> links_only (page_at s q) (page_at s1 q)) \<or> page_at s1 q = page_at s q" if "q \<noteq> Slice n i" for q
      using s1(3) that unfolding only_links_def by (metis links_onlyI)
    have sg: "seg_at s1 = seg_at s" "ars s1 = ars s" "seg_map s1 = seg_map s" using s1(3) by (simp_all add: only_links_def)
    have "tiled (\<lambda>j. page_at s1 (Slice n j)) (i + c) L 512 = tiled (\<lambda>j. page_at s (Slice n j)) (i + c) L 512"
    proof (rule tiled_cong)
      fix j assume "i + c \<le> j"
      then show "same_slice (page_at s1 (Slice n j)) (page_at s (Slice n j))"
        using lk [of "Slice n j"] t(1) links_only_same by auto
    qed
    then have t1: "tiled (\<lambda>j. page_at s1 (Slice n j)) (i + c) L 512" using t(3) by simp
    have sub: "Slice n ` frees (i + c) L \<subseteq> FS - {Slice n i}" using Cons.prems(5) False ni by (auto simp: x)
    obtain s' where s': "segment_free_loop n (i + c) s1 = Some s'" "queues_ok s' (FS - {Slice n i} - Slice n ` frees (i + c) L)"
      "\<forall>p. p \<notin> FS - {Slice n i} \<longrightarrow> page_at s' p = page_at s1 p"
      "\<forall>p \<in> FS - {Slice n i} - range (Slice n). links_only (page_at s1 p) (page_at s' p)"
      "seg_at s' = seg_at s1" "ars s' = ars s1" "seg_map s' = seg_map s1"
      using Cons.IH [OF t1 _ _ s1(2) sub] Cons.prems(2,3) unfolding sg by blast
    have "FS - Slice n ` frees i (x # L) = FS - {Slice n i} - Slice n ` frees (i + c) L" using False by (auto simp: x)
    moreover have "page_at s' p = page_at s p" if "p \<notin> FS" for p using s'(3) lk [of p] pin that by auto
    moreover have "links_only (page_at s p) (page_at s' p)" if p: "p \<in> FS - range (Slice n)" for p
    proof -
      have "p \<noteq> Slice n i" "p \<in> FS - {Slice n i} - range (Slice n)" using p by auto
      then show ?thesis using s'(4) lk [of p] links_only_trans by (metis links_only_refl)
    qed
    ultimately show ?thesis using e s' sg by (intro exI [of _ s']) simp
  qed
qed

lemma track_size_simps [simp]:
  "page_at (mi_segments_track_size z s) = page_at s" "spans (mi_segments_track_size z s) = spans s"
  "seg_at (mi_segments_track_size z s) = seg_at s" "ars (mi_segments_track_size z s) = ars s"
  "seg_map (mi_segments_track_size z s) = seg_map s"
  by (simp_all add: mi_segments_track_size_def Let_def)

lemma segment_free_spec:
  assumes inv: "spans_inv s lay" and n: "lay n = Some L" and f: "mi_segment_free env n s = Some s'"
  shows "spans_inv s' (lay(n := None))"
    "\<And>m j. m \<noteq> n \<Longrightarrow> Slice m j \<in> used_pages lay \<Longrightarrow> page_at s' (Slice m j) = page_at s (Slice m j)"
proof -
  let ?FS = "free_slices lay"
  have w: "seg_wf s n L" and q: "queues_ok s ?FS" using inv n by (auto simp: spans_inv_def)
  have sub: "Slice n ` frees 0 L \<subseteq> ?FS" using n by (auto simp: free_slices_def)
  have "tiled (\<lambda>j. page_at s (Slice n j)) 0 L 512" "kind (seg_at s n) = MI_SEGMENT_NORMAL" "slice_entries (seg_at s n) = 512"
    using w by (simp_all add: seg_wf_def seg_ok_def)
  from segment_free_loop_spec [OF this q sub]
  obtain s1 where s1: "segment_free_loop n 0 s = Some s1" "queues_ok s1 (?FS - Slice n ` frees 0 L)"
    "\<forall>p. p \<notin> ?FS \<longrightarrow> page_at s1 p = page_at s p" "\<forall>p \<in> ?FS - range (Slice n). links_only (page_at s p) (page_at s1 p)"
    "seg_at s1 = seg_at s" by blast
  have fs: "?FS - Slice n ` frees 0 L = free_slices (lay(n := None))"
    using free_slices_in [where lay = lay and n = n and L = L] n unfolding free_slices_del by auto
  have m1: "in_use s1 m \<and> seg_wf s1 m M" if m: "(lay(n := None)) m = Some M" for m M
  proof -
    have l: "m \<noteq> n" "lay m = Some M" using m by (auto split: if_splits)
    have w: "in_use s m" "seg_wf s m M" using inv l by (auto simp: spans_inv_def)
    have "tiled (\<lambda>j. page_at s1 (Slice m j)) 0 M 512 = tiled (\<lambda>j. page_at s (Slice m j)) 0 M 512"
    proof (rule tiled_cong)
      fix j
      show "same_slice (page_at s1 (Slice m j)) (page_at s (Slice m j))"
        using s1(3,4) l(1) links_only_same by (cases "Slice m j \<in> ?FS") auto
    qed
    then show ?thesis using w unfolding seg_wf_def s1(5) by simp
  qed
  have inv1: "spans_inv s1 (lay(n := None))" unfolding spans_inv_def using m1 s1(2) fs by auto
  have o: "mi_segment_os_free env n s1 = Some s'" using f s1(1) by (simp add: mi_segment_free_def)
  obtain mp ar where ma: "s' = (mi_segments_track_size (- int (mi_segment_size ((seg_at s1 n)\<lparr>thread_id := 0\<rparr>)))
       ((upd_seg n (\<lambda>x. x\<lparr>thread_id := 0\<rparr>) s1)\<lparr>seg_map := mp\<rparr>))\<lparr>ars := ar\<rparr>"
    using o unfolding mi_segment_os_free_def by (auto simp: Let_def bind_eq_Some_conv)
  have e: "page_at s' = page_at s1" "spans s' = spans s1" "seg_at s' = (seg_at s1)(n := (seg_at s1 n)\<lparr>thread_id := 0\<rparr>)"
    unfolding ma by simp_all
  show "spans_inv s' (lay(n := None))"
    by (rule spans_inv_other [OF inv1, where n = n]) (simp_all add: e)
  fix m j assume "m \<noteq> n" "Slice m j \<in> used_pages lay"
  then show "page_at s' (Slice m j) = page_at s (Slice m j)"
    using used_not_free [OF inv] s1(3) unfolding e by blast
qed

text \<open>Freeing is defined when the segment map has its size and the arenas accept the memory.\<close>

lemma segment_free_defined:
  assumes inv: "spans_inv s lay" and n: "lay n = Some L" and m: "map_ok (seg_map s)"
    and a: "mi_arena_free env (seg_addr n) (mi_segment_size (seg_at s n))
      (mi_commit_mask_committed_size (commit_mask (seg_at s n)) (mi_segment_size (seg_at s n))) (memid (seg_at s n)) (ars s) \<noteq> None"
  shows "\<exists>s'. mi_segment_free env n s = Some s'"
proof -
  let ?FS = "free_slices lay"
  have w: "seg_wf s n L" and q: "queues_ok s ?FS" using inv n by (auto simp: spans_inv_def)
  have sub: "Slice n ` frees 0 L \<subseteq> ?FS" using n by (auto simp: free_slices_def)
  have "tiled (\<lambda>j. page_at s (Slice n j)) 0 L 512" "kind (seg_at s n) = MI_SEGMENT_NORMAL" "slice_entries (seg_at s n) = 512"
    using w by (simp_all add: seg_wf_def seg_ok_def)
  from segment_free_loop_spec [OF this q sub]
  obtain s1 where s1: "segment_free_loop n 0 s = Some s1" "seg_at s1 = seg_at s" "ars s1 = ars s" "seg_map s1 = seg_map s" by blast
  obtain mp where mp: "mi_segment_map_freed_at n (seg_map s) = Some mp" using freed_at_spec [OF m] by blast
  obtain ar where ar: "mi_arena_free env (seg_addr n) (mi_segment_size (seg_at s n))
      (mi_commit_mask_committed_size (commit_mask (seg_at s n)) (mi_segment_size (seg_at s n))) (memid (seg_at s n)) (ars s) = Some ar"
    using a by blast
  have sz: "mi_segment_size (x\<lparr>thread_id := 0\<rparr>) = mi_segment_size x" for x by (simp add: mi_segment_size_def)
  have "mi_segment_os_free env n s1 \<noteq> None"
    using mp ar by (simp add: mi_segment_os_free_def Let_def s1 sz)
  then show ?thesis using s1(1) by (simp add: mi_segment_free_def)
qed

lemma os_alloc_run:
  assumes al: "mi_arena_alloc_aligned env (512 * MI_SEGMENT_SLICE_SIZE) MI_SEGMENT_SIZE 0 commit (\<not> ed) req (ars s) = Some ((p, mid), ar)"
    and p: "p \<noteq> 0"
  shows "mi_segment_os_alloc env 0 0 ed req (512, 1) commit s =
     (if initially_committed mid then Some (True, mi_commit_mask_create_full, (s\<lparr>ars := ar\<rparr>))
               else do {
                 let commit_needed = divide_up (1 * MI_SEGMENT_SLICE_SIZE) MI_COMMIT_SIZE;
                 cm \<leftarrow> mi_commit_mask_create 0 commit_needed;
                 (case mi_os_commit env p (commit_needed * MI_COMMIT_SIZE) (ar_os (ars (s\<lparr>ars := ar\<rparr>))) of ((ok, is_zero), os) \<Rightarrow>
                    let s = (s\<lparr>ars := ar\<rparr>)\<lparr>ars := (ars (s\<lparr>ars := ar\<rparr>))\<lparr>ar_os := os\<rparr>\<rparr>
                    in if ok then Some (True, cm, s)
                       else do { ar \<leftarrow> mi_arena_free env p (512 * MI_SEGMENT_SLICE_SIZE) 0 mid (ars s); Some (False, cm, s\<lparr>ars := ar\<rparr>) }) }) \<bind> (\<lambda>(ok, cm, s). if \<not> ok then Some ((None, 512, 1), s)
            else if p mod MI_SEGMENT_SIZE \<noteq> 0 then None
            else let n = p div MI_SEGMENT_SIZE;
                     s = upd_seg n (\<lambda>x. x\<lparr>memid := mid, allow_decommit := \<not> is_pinned mid,
                           allow_purge := \<not> is_pinned mid \<and> optv env mi_option_purge_delay \<ge> 0,
                           segment_size := 512 * MI_SEGMENT_SLICE_SIZE, commit_mask := cm, purge_expire := 0,
                           purge_mask := mi_commit_mask_create_empty, abandoned_next := 0\<rparr>) s;
                     s = mi_segments_track_size (int (512 * MI_SEGMENT_SLICE_SIZE)) s
              in do { mp \<leftarrow> mi_segment_map_allocated_at n (seg_map s);
                      Some ((Some n, 512, 1), s\<lparr>seg_map := mp\<rparr>) })"
  by (simp only: mi_segment_os_alloc_def prod.case Let_def less_irrefl if_False al Option.bind.simps if_not_P [OF p])

lemma os_alloc_none:
  assumes "mi_segment_os_alloc env 0 0 ed req (512, 1) commit s = Some ((None, a, b), s')"
  shows "page_at s' = page_at s" "spans s' = spans s" "seg_at s' = seg_at s"
proof -
  obtain p mid ar where al: "mi_arena_alloc_aligned env (512 * MI_SEGMENT_SLICE_SIZE) MI_SEGMENT_SIZE 0 commit (\<not> ed) req (ars s) = Some ((p, mid), ar)"
    using assms unfolding mi_segment_os_alloc_def by (auto simp: bind_eq_Some_conv)
  have "\<exists>ar'. s' = s\<lparr>ars := ar'\<rparr>"
  proof (cases "p = 0")
    case True
    then have "mi_segment_os_alloc env 0 0 ed req (512, 1) commit s = Some ((None, 512, 1), s\<lparr>ars := ar\<rparr>)"
      by (simp only: mi_segment_os_alloc_def prod.case Let_def less_irrefl if_False al Option.bind.simps if_True simp_thms)
    then have "s' = s\<lparr>ars := ar\<rparr>" using assms by simp
    then show ?thesis by blast
  next
    case p: False
    note run = assms [unfolded os_alloc_run [OF al p]]
    show ?thesis
    proof (cases "initially_committed mid")
      case True
      then show ?thesis using run p by (auto simp: bind_eq_Some_conv split: if_splits)
    next
      case False
      obtain ok z os where "mi_os_commit env p (divide_up (1 * MI_SEGMENT_SLICE_SIZE) MI_COMMIT_SIZE * MI_COMMIT_SIZE) (ar_os ar) = ((ok, z), os)"
        by (metis surj_pair)
      then show ?thesis using run p False by (cases ok) (auto simp: bind_eq_Some_conv split: if_splits)
    qed
  qed
  then show "page_at s' = page_at s" "spans s' = spans s" "seg_at s' = seg_at s" by auto
qed

lemma os_alloc_spec:
  assumes "mi_segment_os_alloc env 0 0 ed req (512, 1) commit s = Some ((Some n, a, b), s')"
  shows "a = 512" "b = 1" "page_at s' = page_at s" "spans s' = spans s" "\<And>m. m \<noteq> n \<Longrightarrow> seg_at s' m = seg_at s m"
    "cm_ok (commit_mask (seg_at s' n))" "purge_mask (seg_at s' n) = mi_commit_mask_create_empty"
proof -
  obtain p mid ar where al: "mi_arena_alloc_aligned env (512 * MI_SEGMENT_SLICE_SIZE) MI_SEGMENT_SIZE 0 commit (\<not> ed) req (ars s) = Some ((p, mid), ar)"
    using assms unfolding mi_segment_os_alloc_def by (auto simp: bind_eq_Some_conv)
  let ?s = "s\<lparr>ars := ar\<rparr>"
  have p: "p \<noteq> 0"
  proof
    assume "p = 0"
    then have "mi_segment_os_alloc env 0 0 ed req (512, 1) commit s = Some ((None, 512, 1), ?s)"
      by (simp only: mi_segment_os_alloc_def prod.case Let_def less_irrefl if_False al Option.bind.simps if_True simp_thms)
    then show False using assms by simp
  qed
  define D where "D = (if initially_committed mid then Some (True, mi_commit_mask_create_full, ?s)
               else do {
                 let commit_needed = divide_up (1 * MI_SEGMENT_SLICE_SIZE) MI_COMMIT_SIZE;
                 cm \<leftarrow> mi_commit_mask_create 0 commit_needed;
                 (case mi_os_commit env p (commit_needed * MI_COMMIT_SIZE) (ar_os (ars ?s)) of ((ok, is_zero), os) \<Rightarrow>
                    let s = ?s\<lparr>ars := (ars ?s)\<lparr>ar_os := os\<rparr>\<rparr>
                    in if ok then Some (True, cm, s)
                       else do { ar \<leftarrow> mi_arena_free env p (512 * MI_SEGMENT_SLICE_SIZE) 0 mid (ars s); Some (False, cm, s\<lparr>ars := ar\<rparr>) }) })"
  have D: "page_at s1 = page_at s \<and> spans s1 = spans s \<and> seg_at s1 = seg_at s \<and> cm_ok cm" if "D = Some (ok, cm, s1)" for ok cm s1
  proof (cases "initially_committed mid")
    case True
    have "D = Some (True, mi_commit_mask_create_full, ?s)" unfolding D_def by (rule if_P [OF True])
    then have "(ok, cm, s1) = (True, mi_commit_mask_create_full, ?s)" using that by simp
    then show ?thesis using claimed_full(2) by simp
  next
    case False
    have "cm_ok cm'" if "mi_commit_mask_create 0 (divide_up MI_SEGMENT_SLICE_SIZE MI_COMMIT_SIZE) = Some cm'" for cm'
    proof -
      have "divide_up MI_SEGMENT_SLICE_SIZE MI_COMMIT_SIZE = 1" by (simp add: divide_up_def)
      moreover have "(0 :: nat) + 1 \<le> 512" by simp
      then obtain cm where "mi_commit_mask_create 0 1 = Some cm" "cm_ok cm" by (rule create_spec)
      ultimately show ?thesis using that by simp
    qed
    moreover obtain ok' z os where "mi_os_commit env p (divide_up MI_SEGMENT_SLICE_SIZE MI_COMMIT_SIZE * MI_COMMIT_SIZE) (ar_os ar) = ((ok', z), os)"
      by (metis surj_pair)
    ultimately show ?thesis using that False unfolding D_def by (cases ok') (auto simp: Let_def bind_eq_Some_conv)
  qed
  have "mi_segment_os_alloc env 0 0 ed req (512, 1) commit s =
     D \<bind> (\<lambda>(ok, cm, s). if \<not> ok then Some ((None, 512, 1), s)
            else if p mod MI_SEGMENT_SIZE \<noteq> 0 then None
            else let n = p div MI_SEGMENT_SIZE;
                     s = upd_seg n (\<lambda>x. x\<lparr>memid := mid, allow_decommit := \<not> is_pinned mid,
                           allow_purge := \<not> is_pinned mid \<and> optv env mi_option_purge_delay \<ge> 0,
                           segment_size := 512 * MI_SEGMENT_SLICE_SIZE, commit_mask := cm, purge_expire := 0,
                           purge_mask := mi_commit_mask_create_empty, abandoned_next := 0\<rparr>) s;
                     s = mi_segments_track_size (int (512 * MI_SEGMENT_SLICE_SIZE)) s
              in do { mp \<leftarrow> mi_segment_map_allocated_at n (seg_map s);
                      Some ((Some n, 512, 1), s\<lparr>seg_map := mp\<rparr>) })"
    unfolding D_def by (rule os_alloc_run [OF al p])
  then obtain cm s1 mp where g: "D = Some (True, cm, s1)" "n = p div MI_SEGMENT_SIZE" "a = 512" "b = 1"
    "s' = (mi_segments_track_size (int (512 * MI_SEGMENT_SLICE_SIZE)) (upd_seg n (\<lambda>x. x\<lparr>memid := mid, allow_decommit := \<not> is_pinned mid,
                           allow_purge := \<not> is_pinned mid \<and> optv env mi_option_purge_delay \<ge> 0,
                           segment_size := 512 * MI_SEGMENT_SLICE_SIZE, commit_mask := cm, purge_expire := 0,
                           purge_mask := mi_commit_mask_create_empty, abandoned_next := 0\<rparr>) s1))\<lparr>seg_map := mp\<rparr>"
    using assms by (auto simp: bind_eq_Some_conv Let_def split: if_splits)
  show "a = 512" "b = 1" "page_at s' = page_at s" "spans s' = spans s" "\<And>m. m \<noteq> n \<Longrightarrow> seg_at s' m = seg_at s m"
    "cm_ok (commit_mask (seg_at s' n))" "purge_mask (seg_at s' n) = mi_commit_mask_create_empty"
    using D [OF g(1)] g(3,4) unfolding g(5) by simp_all
qed


lemma info_slices_1:
  assumes "mi_os_page_size env dvd 65536" "0 < mi_os_page_size env"
  shows "\<exists>pre. mi_segment_calculate_slices env 0 = (512, pre, 1)"
proof -
  let ?i = "align_up sizeof_mi_segment (mi_os_page_size env)"
  obtain k where k: "65536 = mi_os_page_size env * k" using assms(1) by blast
  have "mi_os_page_size env dvd ?i" "?i < sizeof_mi_segment + mi_os_page_size env" "sizeof_mi_segment \<le> ?i" using align_up_props [OF assms(2)] by blast+
  moreover have "sizeof_mi_segment \<le> 65536" by (simp add: sizeof_mi_segment_def)
  ultimately have "?i \<le> 65536" "0 < ?i"
  proof -
    assume a: "mi_os_page_size env dvd ?i" "?i < sizeof_mi_segment + mi_os_page_size env" "sizeof_mi_segment \<le> ?i"
    show "0 < ?i" using a(3) by (simp add: sizeof_mi_segment_def)
    show "?i \<le> 65536"
    proof (rule ccontr)
      assume n: "\<not> ?i \<le> 65536"
      have "mi_os_page_size env dvd ?i - 65536" using a(1) assms(1) by (rule dvd_diff_nat)
      moreover have "0 < ?i - 65536" using n by simp
      ultimately have "mi_os_page_size env \<le> ?i - 65536" by (rule dvd_imp_le)
      then show False using a(2) n by (simp add: sizeof_mi_segment_def)
    qed
  qed
  then have "(?i + 65536 - 1) div 65536 = 1" by (intro div_nat_eqI) simp_all
  then have "align_up ?i 65536 = 65536" by (simp add: align_up_def)
  then show ?thesis by (simp add: mi_segment_calculate_slices_def Let_def)
qed

lemma segment_alloc_spec:
  assumes inv: "spans_inv s lay" and n: "lay n = None" and tid: "tid \<noteq> 0"
    and pg: "mi_os_page_size env dvd 65536" "0 < mi_os_page_size env"
    and al: "mi_segment_alloc env tid tc 0 0 req s = Some (Some (n, h), s')"
  shows "h = None" "spans_inv s' (lay(n \<mapsto> [(1, True), (511, False)]))" "\<forall>p \<in> used_pages lay. page_at s' p = page_at s p"
proof -
  let ?FS = "free_slices lay"
  obtain pre where cs: "mi_segment_calculate_slices env 0 = (512, pre, 1)" using info_slices_1 [OF pg] by blast
  define ed where "ed = (tc > 1 \<and> tld_count s < of_int (optv env mi_option_eager_commit_delay))"
  define co where "co = ((\<not> ed \<and> optv env mi_option_eager_commit \<noteq> 0) \<or> (0 :: nat) > 0)"
  obtain r a b s1 where oa: "mi_segment_os_alloc env 0 0 ed req (512, 1) co s = Some ((r, a, b), s1)"
    using al unfolding mi_segment_alloc_def cs ed_def co_def Let_def prod.case by (auto simp: bind_eq_Some_conv)
  note al1 = al [unfolded mi_segment_alloc_def cs Let_def prod.case ed_def [symmetric] co_def [symmetric] oa Option.bind.simps]
  have r: "r = Some n"
    using al1 by (cases r) (auto simp: bind_eq_Some_conv split: if_splits)
  note o = os_alloc_spec [OF oa [unfolded r]]
  define s3 where "s3 = upd_seg n (\<lambda>x. x\<lparr>segment_slices := 512, segment_info_slices := 1, thread_id := tid,
                        slice_entries := 512, kind := MI_SEGMENT_NORMAL\<rparr>) (zero_segment n s1)"
  have z: "page_at (zero_segment n s1) (Slice m j) = page_at s1 (Slice m j)" if "m \<noteq> n" for m j
    using that by (simp add: zero_segment_def)
  have inv3: "spans_inv s3 lay"
    by (rule spans_inv_other [OF inv n]) (simp_all add: s3_def o zero_segment_def)
  have f3: "seg_ok (seg_at s3 n)" "slice_entries (seg_at s3 n) = 512" "in_use s3 n"
    using o(6,7) tid claimed_empty by (simp_all add: s3_def zero_segment_def seg_ok_def mi_segment_is_abandoned_def)
  have q3: "queues_ok s3 ?FS" using inv3 by (simp add: spans_inv_def)
  have new: "Slice n j \<notin> ?FS" for j using n by (auto simp: free_slices_def)
  have c1: "0 < (1 :: nat)" "0 + 1 \<le> (512 :: nat)" by simp_all
  obtain ok s4 where s4: "mi_segment_span_allocate env n 0 1 s3 = Some (ok, if ok then upd_seg n (\<lambda>x. x\<lparr>seg_used := seg_used x + 1\<rparr>) s4 else s4)"
     "touches s3 s4 n 0 (0 + 1) ?FS" "queues_ok s4 ?FS" "if ok then span_ok (\<lambda>j. page_at s4 (Slice n j)) 0 1 True \<and> is_committed (page_at s4 (Slice n 0)) \<and>
         xblock_size (page_at s4 (Slice n 0)) = of_nat (1 * MI_SEGMENT_SLICE_SIZE) else page_at s4 = page_at s3"
    using span_allocate_spec [OF f3(1,2) c1 q3 new, of env] by blast
  have m: "(if 512 > MI_SLICES_PER_SEGMENT then MI_SLICES_PER_SEGMENT else 512) = 512" by simp
  note al2 = al1 [unfolded r option.case o(1,2) m simp_thms if_True s3_def [symmetric] s4(1) Option.bind.simps prod.case]
  have ok: ok using al2 by (cases ok) auto
  define s5 where "s5 = upd_seg n (\<lambda>x. x\<lparr>seg_used := 0\<rparr>) (upd_seg n (\<lambda>x. x\<lparr>seg_used := seg_used x + 1\<rparr>) s4)"
  have f4: "seg_ok (seg_at s4 n)" "slice_entries (seg_at s4 n) = 512" "in_use s4 n" "kind (seg_at s4 n) = MI_SEGMENT_NORMAL"
    using touches_seg [OF s4(2), of n] f3 by (simp_all add: seg_ok_def)
  have s5: "page_at s5 = page_at s4" "spans s5 = spans s4" "seg_at s5 = (seg_at s4)(n := (seg_at s4 n)\<lparr>seg_used := 0\<rparr>)"
    by (simp_all add: s5_def)
  have f5: "seg_ok (seg_at s5 n)" "slice_entries (seg_at s5 n) = 512" "in_use s5 n" "kind (seg_at s5 n) = MI_SEGMENT_NORMAL"
    using f4 by (simp_all add: s5 seg_ok_def mi_segment_is_abandoned_def)
  have q5: "queues_ok s5 ?FS" by (rule queues_ok_cong [OF s4(3)]) (simp_all add: s5)
  obtain s6 where s6: "mi_segment_span_free env n 1 511 False s5 = Some s6" "touches s5 s6 n 1 (1 + 511) ?FS"
     "span_ok (\<lambda>j. page_at s6 (Slice n j)) 1 511 False" "queues_ok s6 (if in_use s5 n then insert (Slice n 1) ?FS else ?FS)"
    using span_free_spec [OF f5(1) _ _ q5 new, of 511 1 env False] by auto
  have h: "s' = s6" "h = None"
    using al2 ok unfolding if_not_P [OF not_not [THEN iffD2, OF ok]] if_P [OF ok] s5_def [symmetric] f5(2,4) simp_thms if_True
    using s6(1) by (auto simp: s5_def [symmetric])
  show "h = None" by (rule h(2))
  have sm: "same_slice (page_at s6 (Slice n 0)) (page_at s4 (Slice n 0))" using touches_slice [OF s6(2), of 0] by (simp add: s5)
  have sp: "span_ok (\<lambda>j. page_at s6 (Slice n j)) 0 1 True"
    using s4(4) ok span_ok_cong [of 1 0 "\<lambda>j. page_at s6 (Slice n j)" "\<lambda>j. page_at s4 (Slice n j)" True] sm by auto
  have wn: "in_use s6 n" "seg_wf s6 n [(1, True), (511, False)]"
    using touches_seg [OF s6(2), of n] f5 sp s6(3) by (simp_all add: seg_wf_def coalesced_def s5 used_spans_def)
  have wm: "in_use s6 m \<and> seg_wf s6 m L" if l: "m \<noteq> n" "lay m = Some L" for m L
  proof -
    have "in_use s3 m" "seg_wf s3 m L" using inv3 l by (auto simp: spans_inv_def)
    then have "in_use s4 m" "seg_wf s4 m L" using touches_seg(1) [OF s4(2)] seg_wf_other [OF s4(2) l(1)] by auto
    then have "in_use s5 m" "seg_wf s5 m L" using l(1) by (simp_all add: seg_wf_def s5)
    then show ?thesis using touches_seg(1) [OF s6(2)] seg_wf_other [OF s6(2) l(1)] by auto
  qed
  have fs: "free_slices (lay(n \<mapsto> [(1, True), (511, False)])) = insert (Slice n 1) ?FS"
    using new unfolding free_slices_upd by auto
  show "spans_inv s' (lay(n \<mapsto> [(1, True), (511, False)]))"
    unfolding spans_inv_def h(1) fs using wn wm s6(4) f5(3) by (auto split: if_splits)
  show "\<forall>p \<in> used_pages lay. page_at s' p = page_at s p"
  proof
    fix p assume p: "p \<in> used_pages lay"
    then obtain m j L where "p = Slice m j" "lay m = Some L" unfolding used_pages_def by blast
    then have mj: "p = Slice m j" "m \<noteq> n" using n by auto
    have "page_at s6 p = page_at s5 p"
      using s6(2) [unfolded touches_def, THEN conjunct1, THEN spec, of p] used_not_free [OF inv p] mj by blast
    also have "\<dots> = page_at s4 p" by (simp add: s5)
    also have "\<dots> = page_at s3 p"
      using s4(2) [unfolded touches_def, THEN conjunct1, THEN spec, of p] used_not_free [OF inv p] mj by blast
    also have "\<dots> = page_at s p" using mj by (simp add: s3_def z o)
    finally show "page_at s' p = page_at s p" by (simp add: h)
  qed
qed

text \<open>Allocating a segment is defined when the memory for it can be asked for, and is not owned yet.\<close>

lemma segment_alloc_defined:
  assumes inv: "spans_inv s lay" and tid: "tid \<noteq> 0" and pg: "mi_os_page_size env dvd 65536" "0 < mi_os_page_size env"
    and oa: "\<And>ed co. \<exists>r a b s1. mi_segment_os_alloc env 0 0 ed req (512, 1) co s = Some ((r, a, b), s1) \<and> (\<forall>n. r = Some n \<longrightarrow> lay n = None)"
  shows "\<exists>r s'. mi_segment_alloc env tid tc 0 0 req s = Some (r, s')"
proof -
  obtain pre where cs: "mi_segment_calculate_slices env 0 = (512, pre, 1)" using info_slices_1 [OF pg] by blast
  define ed where "ed = (tc > 1 \<and> tld_count s < of_int (optv env mi_option_eager_commit_delay))"
  define co where "co = ((\<not> ed \<and> optv env mi_option_eager_commit \<noteq> 0) \<or> (0 :: nat) > 0)"
  obtain r a b s1 where r: "mi_segment_os_alloc env 0 0 ed req (512, 1) co s = Some ((r, a, b), s1)" "\<forall>n. r = Some n \<longrightarrow> lay n = None"
    using oa by blast
  show ?thesis
  proof (cases r)
    case None
    have "mi_segment_alloc env tid tc 0 0 req s = Some (None, s1)"
      by (simp only: mi_segment_alloc_def cs Let_def prod.case ed_def [symmetric] co_def [symmetric] r(1) None
        Option.bind.simps option.case)
    then show ?thesis by blast
  next
    case (Some n)
    have n: "lay n = None" using r(2) Some by blast
    note o = os_alloc_spec [OF r(1) [unfolded Some]]
    define s3 where "s3 = upd_seg n (\<lambda>x. x\<lparr>segment_slices := 512, segment_info_slices := 1, thread_id := tid,
                        slice_entries := 512, kind := MI_SEGMENT_NORMAL\<rparr>) (zero_segment n s1)"
    have z: "page_at (zero_segment n s1) (Slice m j) = page_at s1 (Slice m j)" if "m \<noteq> n" for m j
      using that by (simp add: zero_segment_def)
    have inv3: "spans_inv s3 lay"
      by (rule spans_inv_other [OF inv n]) (simp_all add: s3_def o zero_segment_def)
    have f3: "seg_ok (seg_at s3 n)" "slice_entries (seg_at s3 n) = 512"
      using o(6,7) tid claimed_empty by (simp_all add: s3_def zero_segment_def seg_ok_def)
    have q3: "queues_ok s3 (free_slices lay)" using inv3 by (simp add: spans_inv_def)
    have new: "Slice n j \<notin> free_slices lay" for j using n by (auto simp: free_slices_def)
    have c1: "0 < (1 :: nat)" "0 + 1 \<le> (512 :: nat)" by simp_all
    obtain ok s4 where s4: "mi_segment_span_allocate env n 0 1 s3 = Some (ok, if ok then upd_seg n (\<lambda>x. x\<lparr>seg_used := seg_used x + 1\<rparr>) s4 else s4)"
       "touches s3 s4 n 0 (0 + 1) (free_slices lay)" "queues_ok s4 (free_slices lay)"
      using span_allocate_spec [OF f3(1,2) c1 q3 new, of env] by blast
    have m: "(if 512 > MI_SLICES_PER_SEGMENT then MI_SLICES_PER_SEGMENT else 512) = 512" by simp
    note run = mi_segment_alloc_def cs Let_def prod.case ed_def [symmetric] co_def [symmetric] r(1) [unfolded Some o(1,2)]
      Option.bind.simps option.case m simp_thms if_True s3_def [symmetric] s4(1)
    show ?thesis
    proof (cases ok)
      case False
      have "mi_segment_alloc env tid tc 0 0 req s = Some (None, s4)"
        by (simp only: run if_P [OF False] if_not_P [OF False])
      then show ?thesis by blast
    next
      case ok: True
      define s5 where "s5 = upd_seg n (\<lambda>x. x\<lparr>seg_used := 0\<rparr>) (upd_seg n (\<lambda>x. x\<lparr>seg_used := seg_used x + 1\<rparr>) s4)"
      have f4: "seg_ok (seg_at s4 n)" "slice_entries (seg_at s4 n) = 512" "kind (seg_at s4 n) = MI_SEGMENT_NORMAL"
        using touches_seg [OF s4(2), of n] f3 by (simp_all add: seg_ok_def)
      have f5: "seg_ok (seg_at s5 n)" "slice_entries (seg_at s5 n) = 512" "kind (seg_at s5 n) = MI_SEGMENT_NORMAL"
        using f4 by (simp_all add: s5_def seg_ok_def)
      have q5: "queues_ok s5 (free_slices lay)" by (rule queues_ok_cong [OF s4(3)]) (simp_all add: s5_def)
      have c511: "0 < (511 :: nat)" "1 + 511 \<le> (512 :: nat)" by simp_all
      obtain s6 where s6: "mi_segment_span_free env n 1 511 False s5 = Some s6"
        using span_free_spec [OF f5(1) c511 q5 new, of env False] by blast
      have d: "512 - 1 = (511 :: nat)" by simp
      have "mi_segment_alloc env tid tc 0 0 req s = Some (Some (n, None), s6)"
        by (simp only: run if_P [OF ok] if_not_P [OF not_not [THEN iffD2, OF ok]] s5_def [symmetric] f5(2,3) d s6)
      then show ?thesis by blast
    qed
  qed
qed

section \<open>Every state of a thread's segments\<close>

text \<open>
  The states that a thread reaches from its empty span queues, with the segments it owns and the
  pages it has been given: allocating segments (which the system never places over owned ones)
  and pages, whatever the owner of a page writes into the page structure outside the fields of
  the span, clearing a page, and freeing a segment without pages. An allocation for which there
  is no memory is a step as well. Huge segments and abandoned ones are not among the steps.
\<close>

inductive seg_reach :: "os_env \<Rightarrow> nat \<Rightarrow> 'a seg_state_scheme \<Rightarrow> nat set \<Rightarrow> page_ptr set \<Rightarrow> bool" for env tid where
  start: "spans s = mi_span_queues_empty \<Longrightarrow> seg_reach env tid s {} {}"
| segment: "seg_reach env tid s Os P \<Longrightarrow> mi_segment_alloc env tid tc 0 0 req s = Some (Some (n, h), s') \<Longrightarrow> n \<notin> Os \<Longrightarrow>
    seg_reach env tid s' (insert n Os) P"
| no_segment: "seg_reach env tid s Os P \<Longrightarrow> mi_segment_os_alloc env 0 0 ed req (512, 1) co s = Some ((None, a, b), s') \<Longrightarrow>
    seg_reach env tid s' Os P"
| page: "seg_reach env tid s Os P \<Longrightarrow> count \<le> 512 \<Longrightarrow> mi_segments_page_find_and_allocate env count req s = Some (Some p, s') \<Longrightarrow>
    seg_reach env tid s' Os (insert p P)"
| no_page: "seg_reach env tid s Os P \<Longrightarrow> count \<le> 512 \<Longrightarrow> mi_segments_page_find_and_allocate env count req s = Some (None, s') \<Longrightarrow>
    seg_reach env tid s' Os P"
| use: "seg_reach env tid s Os P \<Longrightarrow> spans s' = spans s \<Longrightarrow> seg_at s' = seg_at s \<Longrightarrow> (\<forall>p. p \<notin> P \<longrightarrow> page_at s' p = page_at s p) \<Longrightarrow>
    (\<forall>p \<in> P. slice_count (page_at s' p) = slice_count (page_at s p) \<and> slice_offset (page_at s' p) = slice_offset (page_at s p) \<and>
       xblock_size (page_at s' p) \<noteq> 0) \<Longrightarrow> seg_reach env tid s' Os P"
| clear: "seg_reach env tid s Os P \<Longrightarrow> Slice n i \<in> P \<Longrightarrow> mi_segment_page_clear env n i s = Some (j, s') \<Longrightarrow>
    seg_reach env tid s' Os (P - {Slice n i})"
| release: "seg_reach env tid s Os P \<Longrightarrow> n \<in> Os \<Longrightarrow> (\<forall>i. Slice n i \<notin> P) \<Longrightarrow> mi_segment_free env n s = Some s' \<Longrightarrow>
    seg_reach env tid s' (Os - {n}) P"

lemma tiled_heads:
  assumes "tiled f i L e" "\<And>j. i \<le> j \<Longrightarrow> j < e \<Longrightarrow> j \<notin> pages_of i L \<Longrightarrow> same_slice (g j) (f j)"
    "\<And>j. j \<in> pages_of i L \<Longrightarrow> slice_count (g j) = slice_count (f j) \<and> slice_offset (g j) = slice_offset (f j) \<and> xblock_size (g j) \<noteq> 0"
  shows "tiled g i L e"
  using assms
proof (induction L arbitrary: i)
  case (Cons x L)
  obtain c u where x: "x = (c, u)" by (cases x)
  have t: "0 < c" "span_ok f i c u" "tiled f (i + c) L e" using Cons.prems(1) by (simp_all add: x)
  have le: "i + c \<le> e" using tiled_end [OF t(3)] by simp
  have pb: "i + c \<le> j" if "j \<in> pages_of (i + c) L" for j using pages_bounds [OF that] by simp
  have in1: "same_slice (g (i + k)) (f (i + k))" if "0 < k" "k < c" for k
  proof -
    have "i + k \<notin> pages_of i (x # L)" using pb [of "i + k"] that by (auto simp: x split: if_splits)
    then show ?thesis using Cons.prems(2) [of "i + k"] that le by simp
  qed
  have hd1: "slice_count (g i) = slice_count (f i) \<and> slice_offset (g i) = slice_offset (f i) \<and> (xblock_size (g i) \<noteq> 0 \<longleftrightarrow> xblock_size (f i) \<noteq> 0)"
  proof (cases u)
    case True
    then show ?thesis using Cons.prems(3) [of i] t(2) by (simp add: x span_ok_def)
  next
    case False
    then have "i \<notin> pages_of i (x # L)" using pb [of i] t(1) by (auto simp: x)
    then show ?thesis using Cons.prems(2) [of i] t(1) le by (simp add: same_slice_def)
  qed
  have "span_ok g i c u"
    using t(2) hd1 in1 [of "c - 1"] in1 unfolding span_ok_def same_slice_def by auto
  moreover have "tiled g (i + c) L e"
  proof (rule Cons.IH [OF t(3)])
    fix j assume j: "i + c \<le> j" "j < e" "j \<notin> pages_of (i + c) L"
    then have "j \<notin> pages_of i (x # L)" using t(1) by (auto simp: x)
    then show "same_slice (g j) (f j)" using Cons.prems(2) [of j] j by simp
  next
    fix j assume "j \<in> pages_of (i + c) L"
    then show "slice_count (g j) = slice_count (f j) \<and> slice_offset (g j) = slice_offset (f j) \<and> xblock_size (g j) \<noteq> 0"
      using Cons.prems(3) [of j] by (simp add: x)
  qed
  ultimately show ?case using t(1) by (simp add: x)
qed simp

lemma pages_split: "j \<in> pages_of i L \<Longrightarrow> \<exists>A c B. L = A @ (c, True) # B \<and> j = i + slices_of A"
proof (induction i L rule: pages_of.induct)
  case (2 i c u L)
  show ?case
  proof (cases "j \<in> pages_of (i + c) L")
    case True
    then have "\<exists>A d B. L = A @ (d, True) # B \<and> j = i + c + slices_of A" using 2 by (cases u) simp_all
    then obtain A d B where "L = A @ (d, True) # B" "j = i + c + slices_of A" by blast
    then show ?thesis by (intro exI [of _ "(c, u) # A"] exI [of _ d] exI [of _ B]) simp
  next
    case False
    then have "j = i" "u" using 2(3) by (auto split: if_splits)
    then show ?thesis by (intro exI [of _ "[]"] exI [of _ c] exI [of _ L]) simp
  qed
qed simp

lemma pages_card: "tiled f i L e \<Longrightarrow> finite (pages_of i L) \<and> card (pages_of i L) = used_spans L"
proof (induction L arbitrary: i)
  case (Cons x L)
  obtain c u where x: "x = (c, u)" by (cases x)
  have t: "0 < c" "tiled f (i + c) L e" using Cons.prems by (simp_all add: x)
  have "i \<notin> pages_of (i + c) L" using pages_bounds [of i "i + c" L] t(1) by auto
  then show ?case using Cons.IH [OF t(2)] by (simp add: x)
qed (simp add: used_spans_def)

lemma used_pages_upd: "used_pages (lay(n \<mapsto> L)) = used_pages lay - range (Slice n) \<union> Slice n ` pages_of 0 L"
  by (auto simp: used_pages_def)

lemma used_pages_in: "lay n = Some L \<Longrightarrow> Slice n j \<in> used_pages lay \<longleftrightarrow> j \<in> pages_of 0 L"
  by (auto simp: used_pages_def)

text \<open>The header and the pages that were given out are the pages of the spans.\<close>

definition seg_inv :: "'a seg_state_scheme \<Rightarrow> nat set \<Rightarrow> page_ptr set \<Rightarrow> (nat \<Rightarrow> (nat \<times> bool) list option) \<Rightarrow> bool" where
  "seg_inv s Os P lay \<longleftrightarrow> spans_inv s lay \<and> dom lay = Os \<and> used_pages lay = P \<union> (\<lambda>n. Slice n 0) ` Os \<and> (\<forall>n. Slice n 0 \<notin> P)"

lemma merge_pages:
  assumes "tiled f 0 (A @ (c, True) # B) 512"
  shows "pages_of 0 (merge_span A c B) = pages_of 0 (A @ (c, True) # B) - {slices_of A}"
proof -
  have tA: "tiled f 0 A (slices_of A)" and tB: "tiled f (slices_of A + c) B 512" and c: "0 < c" using assms by (simp_all add: tiled_append)
  have e: "slices_of A = slices_of (left_rest A) + left_count A"
    using arg_cong [OF left_split [of A], of slices_of] by (simp add: left_count_def split: if_splits)
  have 1: "pages_of 0 (left_rest A) = pages_of 0 A"
    using arg_cong [OF left_split [of A], of "pages_of 0"] by (simp add: pages_append split: if_splits)
  have 2: "pages_of (slices_of A + c + right_count B) (right_rest B) = pages_of (slices_of A + c) B"
    using arg_cong [OF right_split [of B], of "pages_of (slices_of A + c)"]
    by (simp add: pages_append right_count_def split: if_splits)
  have "slices_of A \<notin> pages_of 0 A" using pages_used [OF tA] by blast
  moreover have "slices_of A \<notin> pages_of (slices_of A + c) B" using pages_used [OF tB] c by fastforce
  moreover have "pages_of 0 (merge_span A c B) = pages_of 0 (left_rest A) \<union> pages_of (slices_of A + c + right_count B) (right_rest B)"
    unfolding merge_span_def pages_append using e by (simp add: add.assoc)
  ultimately show ?thesis unfolding 1 2 by (auto simp: pages_append)
qed

lemma start_inv: "spans s = mi_span_queues_empty \<Longrightarrow> seg_inv s {} {} Map.empty"
proof -
  assume s: "spans s = mi_span_queues_empty"
  have len: "length mi_span_queues_empty = 36" by (simp add: mi_span_queues_empty_def)
  have e: "sq_first (mi_span_queues_empty ! b) = None \<and> sq_last (mi_span_queues_empty ! b) = None" if "b < 36" for b
    using that unfolding mi_span_queues_empty_def by (subst nth_map, simp)+ simp
  have "queue_linked s b []" if "b \<le> 35" for b
    using e [of b] that by (simp add: queue_linked_def linked_def s)
  then have "queues_ok s {}" unfolding queues_ok_def s len by (auto intro: exI [of _ "[]"])
  then show ?thesis by (simp add: seg_inv_def spans_inv_def free_slices_def used_pages_def)
qed


lemma head_page:
  assumes "spans_inv s lay" "lay n = Some L"
  shows "Slice n 0 \<in> used_pages lay"
proof -
  have "L \<noteq> []" "snd (hd L)" using assms by (auto simp: spans_inv_def seg_wf_def)
  then have "0 \<in> pages_of 0 L" by (cases L; cases "hd L") auto
  then show ?thesis using assms(2) by (auto simp: used_pages_def)
qed

text \<open>A page that was given out, in the spans of its segment.\<close>

lemma given_page:
  assumes i: "seg_inv s Os P lay" and p: "Slice n i \<in> P"
  shows "\<exists>A c B. n \<in> Os \<and> lay n = Some (A @ (c, True) # B) \<and> i = slices_of A \<and> A \<noteq> []"
proof -
  have "Slice n i \<in> used_pages lay" "Slice n i \<noteq> Slice n 0" using i p unfolding seg_inv_def by (blast, metis)
  then obtain L where L: "lay n = Some L" "i \<in> pages_of 0 L" "i \<noteq> 0" by (auto simp: used_pages_def)
  then obtain A c B where a: "L = A @ (c, True) # B" "i = slices_of A" using pages_split [of i 0 L] by auto
  then have "A \<noteq> []" using L(3) by auto
  then show ?thesis using a L(1) i unfolding seg_inv_def by blast
qed

lemma step_segment:
  assumes i: "seg_inv s Os P lay" and n: "n \<notin> Os" and tid: "tid \<noteq> 0"
    and pg: "mi_os_page_size env dvd 65536" "0 < mi_os_page_size env"
    and al: "mi_segment_alloc env tid tc 0 0 req s = Some (Some (n, h), s')"
  shows "seg_inv s' (insert n Os) P (lay(n \<mapsto> [(1, True), (511, False)]))"
proof -
  have inv: "spans_inv s lay" and d: "dom lay = Os" and u: "used_pages lay = P \<union> (\<lambda>n. Slice n 0) ` Os" "\<forall>n. Slice n 0 \<notin> P"
    using i by (auto simp: seg_inv_def)
  have l: "lay n = None" using d n by auto
  have "used_pages lay - range (Slice n) = used_pages lay" using l by (auto simp: used_pages_def)
  then have "used_pages (lay(n \<mapsto> [(1, True), (511, False)])) = P \<union> (\<lambda>n. Slice n 0) ` insert n Os"
    unfolding used_pages_upd u(1) by auto
  then show ?thesis using segment_alloc_spec(2) [OF inv l tid pg al] d u(2) by (simp add: seg_inv_def)
qed

lemma find_some:
  assumes inv: "spans_inv s lay" and c: "count \<le> 512"
    and al: "mi_segments_page_find_and_allocate env count req s = Some (Some p, s')"
  defines "k \<equiv> (if count = 0 then 1 else count)"
  shows "\<exists>n A c B. lay n = Some (A @ (c, False) # B) \<and> p = Slice n (slices_of A) \<and> k \<le> c \<and>
         spans_inv s' (lay(n \<mapsto> A @ (k, True) # rest_of k c @ B))"
proof -
  obtain r s'' where sp: "mi_segments_page_find_and_allocate env count req s = Some (r, s'')"
    "case r of
       Some p \<Rightarrow> \<exists>n A c B. lay n = Some (A @ (c, False) # B) \<and> p = Slice n (slices_of A) \<and> k \<le> c \<and>
         mi_arena_memid_is_suitable (memid (seg_at s n)) req \<and>
         spans_inv s'' (lay(n \<mapsto> A @ (k, True) # rest_of k c @ B)) \<and>
         is_committed (page_at s'' p) \<and> xblock_size (page_at s'' p) = of_nat (k * MI_SEGMENT_SLICE_SIZE)
     | None \<Rightarrow> spans_inv s'' lay \<and>
         ((\<forall>p sz os. fst (fst (mi_os_commit env p sz os))) \<longrightarrow>
            (\<forall>n A c B. lay n = Some (A @ (c, False) # B) \<longrightarrow> c < k \<or> \<not> mi_arena_memid_is_suitable (memid (seg_at s n)) req))"
    using find_and_allocate_spec [OF inv c, of env req, folded k_def] by blast
  have e: "r = Some p" "s'' = s'" using sp(1) al by simp_all
  show ?thesis using sp(2) unfolding e option.case by blast
qed

lemma step_page:
  assumes i: "seg_inv s Os P lay" and c: "count \<le> 512"
    and al: "mi_segments_page_find_and_allocate env count req s = Some (r, s')"
  shows "\<exists>lay'. seg_inv s' Os (case r of Some p \<Rightarrow> insert p P | None \<Rightarrow> P) lay'"
proof (cases r)
  case None
  have inv: "spans_inv s lay" using i by (simp add: seg_inv_def)
  have "spans_inv s' lay" using find_and_allocate_spec [OF inv c, of env req] al None by auto
  then show ?thesis using i None unfolding seg_inv_def by auto
next
  case (Some p)
  define k where "k = (if count = 0 then 1 else count)"
  have inv: "spans_inv s lay" using i by (simp add: seg_inv_def)
  obtain n A d B where a: "lay n = Some (A @ (d, False) # B)" "p = Slice n (slices_of A)" "k \<le> d"
    "spans_inv s' (lay(n \<mapsto> A @ (k, True) # rest_of k d @ B))"
    using find_some [OF inv c al [unfolded Some], folded k_def] by blast
  let ?M = "A @ (k, True) # rest_of k d @ B"
  have "snd (hd (A @ (d, False) # B))" using inv a(1) unfolding spans_inv_def seg_wf_def by blast
  then have ne: "A \<noteq> []" by (cases A) auto
  then have nz: "slices_of A \<noteq> 0"
  proof -
    have "tiled (\<lambda>j. page_at s (Slice n j)) 0 (A @ (d, False) # B) 512" using inv a(1) by (auto simp: spans_inv_def seg_wf_def)
    then show ?thesis using ne by (cases A) (auto split: prod.splits)
  qed
  have kd: "slices_of A + k + (d - k) = slices_of A + d" "\<not> k < d \<Longrightarrow> k = d" using a(3) by auto
  have "pages_of 0 ?M = insert (slices_of A) (pages_of 0 (A @ (d, False) # B))"
    using kd by (auto simp: pages_append)
  moreover have "Slice n ` pages_of 0 (A @ (d, False) # B) = used_pages lay \<inter> range (Slice n)"
    using used_pages_in [where lay = lay and n = n and L = "A @ (d, False) # B"] a(1) by auto
  ultimately have up: "used_pages (lay(n \<mapsto> ?M)) = insert p (used_pages lay)" unfolding used_pages_upd a(2) by auto
  moreover have "dom (lay(n \<mapsto> ?M)) = Os" using i a(1) by (auto simp: seg_inv_def)
  moreover have "Slice m 0 \<notin> insert p P" for m using i nz a(2) by (auto simp: seg_inv_def)
  ultimately have "seg_inv s' Os (insert p P) (lay(n \<mapsto> ?M))" using i a(4) by (simp add: seg_inv_def)
  then show ?thesis using Some by auto
qed

lemma step_use:
  assumes i: "seg_inv s Os P lay" and e: "spans s' = spans s" "seg_at s' = seg_at s" "\<forall>p. p \<notin> P \<longrightarrow> page_at s' p = page_at s p"
    "\<forall>p \<in> P. slice_count (page_at s' p) = slice_count (page_at s p) \<and> slice_offset (page_at s' p) = slice_offset (page_at s p) \<and>
       xblock_size (page_at s' p) \<noteq> 0"
  shows "seg_inv s' Os P lay"
proof -
  have inv: "spans_inv s lay" and P: "P \<subseteq> used_pages lay" using i by (auto simp: seg_inv_def)
  have f: "page_at s' p = page_at s p" if "p \<in> free_slices lay" for p
    using used_not_free [OF inv, of p] P that e(3) by blast
  have q0: "queues_ok s (free_slices lay)" using inv by (simp add: spans_inv_def)
  have q: "queues_ok s' (free_slices lay)"
    by (rule queues_ok_cong [OF q0 e(1)]) (simp add: f)
  have "in_use s' n \<and> seg_wf s' n L" if l: "lay n = Some L" for n L
  proof -
    have w: "in_use s n" "seg_wf s n L" using inv l by (auto simp: spans_inv_def)
    have t: "tiled (\<lambda>j. page_at s (Slice n j)) 0 L 512" using w by (simp add: seg_wf_def)
    have "tiled (\<lambda>j. page_at s' (Slice n j)) 0 L 512"
    proof (rule tiled_heads [OF t])
      fix j assume "j \<notin> pages_of 0 L"
      then have "Slice n j \<notin> P" using P used_pages_in [where lay = lay and n = n and L = L and j = j] l by blast
      then show "same_slice (page_at s' (Slice n j)) (page_at s (Slice n j))" using e(3) by simp
    next
      fix j assume "j \<in> pages_of 0 L"
      then have "xblock_size (page_at s (Slice n j)) \<noteq> 0" using pages_used [OF t] by blast
      then show "slice_count (page_at s' (Slice n j)) = slice_count (page_at s (Slice n j)) \<and>
          slice_offset (page_at s' (Slice n j)) = slice_offset (page_at s (Slice n j)) \<and> xblock_size (page_at s' (Slice n j)) \<noteq> 0"
        using e(3,4) by (cases "Slice n j \<in> P") auto
    qed
    then show ?thesis using w by (simp add: seg_wf_def e(2))
  qed
  then have "spans_inv s' lay" using q unfolding spans_inv_def by blast
  then show ?thesis using i by (simp add: seg_inv_def)
qed

lemma step_clear:
  assumes i: "seg_inv s Os P lay" and p: "Slice n i \<in> P"
  shows "\<exists>j s' lay'. mi_segment_page_clear env n i s = Some (j, s') \<and> seg_inv s' Os (P - {Slice n i}) lay'"
proof -
  have inv: "spans_inv s lay" using i by (simp add: seg_inv_def)
  obtain A c B where a: "n \<in> Os" "lay n = Some (A @ (c, True) # B)" "i = slices_of A" "A \<noteq> []" using given_page [OF assms] by blast
  obtain s' where s': "mi_segment_page_clear env n i s = Some (i - left_count A, s')" "spans_inv s' (lay(n \<mapsto> merge_span A c B))"
    using page_clear_spec [OF inv a(2,4), of env] unfolding a(3) by blast
  have t: "tiled (\<lambda>j. page_at s (Slice n j)) 0 (A @ (c, True) # B) 512" using inv a(2) by (auto simp: spans_inv_def seg_wf_def)
  have "Slice n ` pages_of 0 (A @ (c, True) # B) = used_pages lay \<inter> range (Slice n)"
    using used_pages_in [where lay = lay and n = n and L = "A @ (c, True) # B"] a(2) by auto
  then have "Slice n ` pages_of 0 (merge_span A c B) = used_pages lay \<inter> range (Slice n) - {Slice n i}"
    unfolding merge_pages [OF t] a(3) by auto
  then have up: "used_pages (lay(n \<mapsto> merge_span A c B)) = used_pages lay - {Slice n i}" unfolding used_pages_upd by auto
  have "Slice n i \<notin> (\<lambda>n. Slice n 0) ` Os" using i p unfolding seg_inv_def by (metis imageE page_ptr.inject(1))
  then have up2: "used_pages (lay(n \<mapsto> merge_span A c B)) = (P - {Slice n i}) \<union> (\<lambda>n. Slice n 0) ` Os"
    unfolding up using i by (auto simp: seg_inv_def)
  have "dom (lay(n \<mapsto> merge_span A c B)) = Os" using i a(1) by (auto simp: seg_inv_def)
  then have "seg_inv s' Os (P - {Slice n i}) (lay(n \<mapsto> merge_span A c B))"
    using i s'(2) up2 unfolding seg_inv_def by blast
  then show ?thesis using s'(1) by blast
qed

lemma step_release:
  assumes i: "seg_inv s Os P lay" and n: "n \<in> Os" "\<forall>i. Slice n i \<notin> P" and f: "mi_segment_free env n s = Some s'"
  shows "seg_inv s' (Os - {n}) P (lay(n := None))"
proof -
  have inv: "spans_inv s lay" using i by (simp add: seg_inv_def)
  obtain L where l: "lay n = Some L" using i n by (auto simp: seg_inv_def)
  have "used_pages (lay(n := None)) = used_pages lay - range (Slice n)" by (auto simp: used_pages_def)
  then have "used_pages (lay(n := None)) = P \<union> (\<lambda>n. Slice n 0) ` (Os - {n})" using i n(2) unfolding seg_inv_def by auto
  moreover have "dom (lay(n := None)) = Os - {n}" using i by (auto simp: seg_inv_def)
  ultimately show ?thesis using i segment_free_spec(1) [OF inv l f] by (simp add: seg_inv_def)
qed

lemma seg_reach_inv:
  assumes "seg_reach env tid s Os P" "tid \<noteq> 0" "mi_os_page_size env dvd 65536" "0 < mi_os_page_size env"
  shows "\<exists>lay. seg_inv s Os P lay"
  using assms
proof (induction rule: seg_reach.induct)
  case start then show ?case using start_inv by blast
next
  case segment then show ?case using step_segment by blast
next
  case (no_segment s Os P ed req co a b s')
  then obtain lay where i: "seg_inv s Os P lay" by blast
  note o = os_alloc_none [OF no_segment.hyps(2)]
  have "spans_inv s' lay" using i spans_inv_cong [OF _ o] by (simp add: seg_inv_def)
  then show ?case using i unfolding seg_inv_def by blast
next
  case page then show ?case using step_page [OF _ page.hyps(2,3)] by fastforce
next
  case no_page then show ?case using step_page [OF _ no_page.hyps(2,3)] by fastforce
next
  case (use s Os P s')
  then obtain lay where "seg_inv s Os P lay" by blast
  from step_use [OF this use.hyps(2-5)] show ?case by blast
next
  case (clear s Os P n i j s')
  then show ?case using step_clear by (metis option.inject prod.inject)
next
  case release then show ?case using step_release by blast
qed

text \<open>The page of a pointer into segment n, as the index of its first slice.\<close>

definition mi_segment_page_of :: "nat \<Rightarrow> nat \<Rightarrow> 'a seg_state_scheme \<Rightarrow> nat option" where
  "mi_segment_page_of n p s = mi_slice_first n (drop_bit MI_SEGMENT_SLICE_SHIFT (p - seg_addr n)) s"

lemma span_inner:
  assumes "span_ok (\<lambda>j. page_at s (Slice n j)) i c True" "i + c \<le> 512" "k < c" "k \<le> MI_MAX_SLICE_OFFSET \<or> k = c - 1"
  shows "mi_slice_first n (i + k) s = Some i"
proof -
  have "slice_offset (page_at s (Slice n (i + k))) = sizeof_mi_slice * k"
  proof (cases "k = 0")
    case True then show ?thesis using assms(1) by (simp add: span_ok_def)
  next
    case False
    consider "k \<le> MI_MAX_SLICE_OFFSET" | "k = c - 1" using assms(4) by blast
    then show ?thesis
    proof cases
      case 1
      then show ?thesis using assms(1,3) False unfolding span_ok_def by (metis Suc_leI neq0_conv One_nat_def)
    next
      case 2
      then have "1 < c" "i + k = i + c - 1" using False assms(3) by auto
      then show ?thesis using assms(1) 2 unfolding span_ok_def by simp
    qed
  qed
  then show ?thesis using assms(2,3) by (simp add: mi_slice_first_def slice_at_def)
qed

lemma pages_apart:
  assumes "tiled f i L e" "a \<in> pages_of i L" "b \<in> pages_of i L" "a < b"
  shows "a + slice_count (f a) \<le> b"
  using assms
proof (induction L arbitrary: i)
  case (Cons x L)
  obtain c u where x: "x = (c, u)" by (cases x)
  have t: "0 < c" "span_ok f i c u" "tiled f (i + c) L e" using Cons.prems(1) by (simp_all add: x)
  have pb: "i + c \<le> j" if "j \<in> pages_of (i + c) L" for j using pages_bounds [OF that] by simp
  have b: "b \<in> pages_of (i + c) L" using Cons.prems(2,3,4) pb [of a] t(1) by (auto simp: x split: if_splits)
  show ?case
  proof (cases "a \<in> pages_of (i + c) L")
    case True
    then show ?thesis using Cons.IH [OF t(3)] b Cons.prems(4) by blast
  next
    case False
    then have "a = i" using Cons.prems(2) by (auto simp: x split: if_splits)
    then show ?thesis using t(2) pb [OF b] by (simp add: span_ok_def)
  qed
qed simp

section \<open>Properties\<close>

text \<open>
  C18: A request for count slices (one for count 0) is carved out of the front of one free span
  that is large enough and whose memory suits the requested arena: the page gets exactly its
  slices, the rest of the span is queued again, and no page in use changes. When the memory
  cannot be committed, or no span fits, the spans and queues are as before.
\<close>

theorem mi_segments_page_find_and_allocate_carves:
  assumes "spans_inv s lay" "count \<le> 512" "mi_segments_page_find_and_allocate env count req s = Some (r, s')"
  shows "(\<forall>p \<in> used_pages lay. page_at s' p = page_at s p) \<and>
    (case r of
       Some p \<Rightarrow> \<exists>n A c B. lay n = Some (A @ (c, False) # B) \<and> p = Slice n (slices_of A) \<and> max 1 count \<le> c \<and>
         mi_arena_memid_is_suitable (memid (seg_at s n)) req \<and>
         spans_inv s' (lay(n \<mapsto> A @ (max 1 count, True) # (if max 1 count < c then [(c - max 1 count, False)] else []) @ B)) \<and>
         is_committed (page_at s' p) \<and> xblock_size (page_at s' p) = of_nat (max 1 count * MI_SEGMENT_SLICE_SIZE)
     | None \<Rightarrow> spans_inv s' lay)"
proof -
  have k: "(if count = 0 then 1 else count) = max 1 count" by simp
  obtain r' s'' where "mi_segments_page_find_and_allocate env count req s = Some (r', s'')"
    and u: "\<forall>p \<in> used_pages lay. page_at s'' p = page_at s p"
    and c: "case r' of
       Some p \<Rightarrow> \<exists>n A c B. lay n = Some (A @ (c, False) # B) \<and> p = Slice n (slices_of A) \<and> max 1 count \<le> c \<and>
         mi_arena_memid_is_suitable (memid (seg_at s n)) req \<and>
         spans_inv s'' (lay(n \<mapsto> A @ (max 1 count, True) # rest_of (max 1 count) c @ B)) \<and>
         is_committed (page_at s'' p) \<and> xblock_size (page_at s'' p) = of_nat (max 1 count * MI_SEGMENT_SLICE_SIZE)
     | None \<Rightarrow> spans_inv s'' lay \<and>
         ((\<forall>p sz os. fst (fst (mi_os_commit env p sz os))) \<longrightarrow>
            (\<forall>n A c B. lay n = Some (A @ (c, False) # B) \<longrightarrow> c < max 1 count \<or> \<not> mi_arena_memid_is_suitable (memid (seg_at s n)) req))"
    using find_and_allocate_spec [OF assms(1,2), of env req, unfolded k] by blast
  then have e: "r' = r" "s'' = s'" using assms(3) by simp_all
  show ?thesis using u c unfolding e by (cases r) (simp_all only: option.case simp_thms)
qed

text \<open>
  C20: The search for a span never runs into undefined behaviour and, when memory can be
  committed, it finds a page whenever some owned segment in suitable memory has a free span of
  at least count slices: the bins are searched from the first that can hold such a span, and the
  bin of a span grows with its size.
\<close>

theorem mi_segments_page_find_and_allocate_complete:
  assumes "spans_inv s lay" "count \<le> 512" "\<forall>p sz os. fst (fst (mi_os_commit env p sz os))"
    "lay n = Some L" "(c, False) \<in> set L" "max 1 count \<le> c" "mi_arena_memid_is_suitable (memid (seg_at s n)) req"
  shows "\<exists>p s'. mi_segments_page_find_and_allocate env count req s = Some (Some p, s')"
proof -
  have k: "(if count = 0 then 1 else count) = max 1 count" by simp
  obtain A B where L: "lay n = Some (A @ (c, False) # B)" using assms(4,5) by (metis split_list)
  obtain r s' where r: "mi_segments_page_find_and_allocate env count req s = Some (r, s')"
    and f: "case r of
       Some p \<Rightarrow> \<exists>n A c B. lay n = Some (A @ (c, False) # B) \<and> p = Slice n (slices_of A) \<and> max 1 count \<le> c \<and>
         mi_arena_memid_is_suitable (memid (seg_at s n)) req \<and>
         spans_inv s' (lay(n \<mapsto> A @ (max 1 count, True) # rest_of (max 1 count) c @ B)) \<and>
         is_committed (page_at s' p) \<and> xblock_size (page_at s' p) = of_nat (max 1 count * MI_SEGMENT_SLICE_SIZE)
     | None \<Rightarrow> spans_inv s' lay \<and>
         ((\<forall>p sz os. fst (fst (mi_os_commit env p sz os))) \<longrightarrow>
            (\<forall>n A c B. lay n = Some (A @ (c, False) # B) \<longrightarrow> c < max 1 count \<or> \<not> mi_arena_memid_is_suitable (memid (seg_at s n)) req))"
    using find_and_allocate_spec [OF assms(1,2), of env req, unfolded k] by blast
  have "r \<noteq> None"
  proof
    assume "r = None"
    from f [unfolded this option.case] have "c < max 1 count \<or> \<not> mi_arena_memid_is_suitable (memid (seg_at s n)) req"
      using assms(3) L by blast
    then show False using assms(6,7) leD by blast
  qed
  then show ?thesis using r by (cases r) blast+
qed

text \<open>
  C19: Clearing a page gives its slices back, merged with the free spans on either side, so that
  again no two free spans are neighbours; exactly the merged span is queued, the count of pages
  in use goes down by one, and no other page changes.
\<close>

theorem mi_segment_page_clear_coalesces:
  assumes "spans_inv s lay" "lay n = Some (A @ (c, True) # B)" "A \<noteq> []"
  shows "\<exists>s'. mi_segment_page_clear env n (slices_of A) s = Some (slices_of A - left_count A, s') \<and>
     spans_inv s' (lay(n \<mapsto> merge_span A c B)) \<and>
     (\<forall>p \<in> used_pages lay. p \<noteq> Slice n (slices_of A) \<longrightarrow> page_at s' p = page_at s p)"
  using page_clear_spec [OF assms] .

text \<open>The pages that were given out, in the layout that a reachable state has.\<close>

lemma given_in_layout:
  assumes "seg_inv s Os P lay" "lay n = Some L" "Slice n i \<in> P"
  shows "i \<in> pages_of 0 L"
proof -
  have "Slice n i \<in> used_pages lay" using assms(1,3) by (auto simp: seg_inv_def)
  then show ?thesis using assms(2) by (auto simp: used_pages_def)
qed

lemma layout_tiled:
  "seg_inv s Os P lay \<Longrightarrow> lay n = Some L \<Longrightarrow> tiled (\<lambda>j. page_at s (Slice n j)) 0 L 512"
  by (auto simp: seg_inv_def spans_inv_def seg_wf_def)

lemma given_count:
  assumes i: "seg_inv s Os P lay" and n: "n \<in> Os"
  shows "seg_used (seg_at s n) = card {i. Slice n i \<in> P}"
proof -
  have inv: "spans_inv s lay" and d: "dom lay = Os" and u: "used_pages lay = P \<union> (\<lambda>n. Slice n 0) ` Os" and z: "\<And>n. Slice n 0 \<notin> P"
    using i by (auto simp: seg_inv_def)
  obtain L where l: "lay n = Some L" using n d by auto
  have "Slice n i \<in> P \<longleftrightarrow> i \<in> pages_of 0 L - {0}" for i
  proof -
    have "Slice n i \<in> used_pages lay \<longleftrightarrow> i \<in> pages_of 0 L" using l by (auto simp: used_pages_def)
    moreover have "Slice n i \<in> (\<lambda>n. Slice n 0) ` Os \<longleftrightarrow> i = 0" using n by auto
    ultimately show ?thesis using u z by auto
  qed
  then have "{i. Slice n i \<in> P} = pages_of 0 L - {0}" by blast
  moreover have "0 \<in> pages_of 0 L" using head_page [OF inv l] l by (auto simp: used_pages_def)
  moreover have "seg_used (seg_at s n) + 1 = used_spans L" using inv l by (auto simp: spans_inv_def seg_wf_def)
  ultimately show ?thesis using pages_card [OF layout_tiled [OF i l]] by simp
qed

lemma given_apart:
  assumes i: "seg_inv s Os P lay" and a: "Slice n i \<in> P" "Slice n j \<in> P" "i < j"
  shows "i + slice_count (page_at s (Slice n i)) \<le> j"
proof -
  obtain L where l: "lay n = Some L" using given_page [OF i a(1)] by blast
  show ?thesis using pages_apart [OF layout_tiled [OF i l] given_in_layout [OF i l a(1)] given_in_layout [OF i l a(2)] a(3)] .
qed


text \<open>
  The page of a pointer is found from the pointer alone: in a reachable state every address
  in the first 256 slices of a page (where a block can begin for alignments up to half a segment)
  or in its last slice leads to the page, through the back offsets of its slices.
\<close>

theorem mi_segment_page_of_finds:
  assumes "seg_reach env tid s Os P" "tid \<noteq> 0" "mi_os_page_size env dvd 65536" "0 < mi_os_page_size env"
    "Slice n i \<in> P" "k < slice_count (page_at s (Slice n i))" "k < 256 \<or> k = slice_count (page_at s (Slice n i)) - 1" "ofs < MI_SEGMENT_SLICE_SIZE"
  shows "mi_segment_page_of n (seg_addr n + (i + k) * MI_SEGMENT_SLICE_SIZE + ofs) s = Some i"
proof -
  obtain lay where inv: "seg_inv s Os P lay" using seg_reach_inv [OF assms(1-4)] by blast
  obtain A c B where a: "lay n = Some (A @ (c, True) # B)" "i = slices_of A" using given_page [OF inv assms(5)] by blast
  have "tiled (\<lambda>j. page_at s (Slice n j)) 0 (A @ (c, True) # B) 512"
    using inv a(1) unfolding seg_inv_def spans_inv_def seg_wf_def by blast
  then have t: "span_ok (\<lambda>j. page_at s (Slice n j)) (slices_of A) c True" "tiled (\<lambda>j. page_at s (Slice n j)) (slices_of A + c) B 512"
    by (simp_all only: tiled_at add_0)
  have sp: "span_ok (\<lambda>j. page_at s (Slice n j)) i c True" and le: "i + c \<le> 512" using t(1) tiled_end [OF t(2)] a(2) by simp_all
  have c: "slice_count (page_at s (Slice n i)) = c" using sp by (simp add: span_ok_def)
  have "drop_bit MI_SEGMENT_SLICE_SHIFT ((i + k) * MI_SEGMENT_SLICE_SIZE + ofs) = i + k" using assms(8) by (simp add: drop_bit_eq_div)
  moreover have "mi_slice_first n (i + k) s = Some i" by (rule span_inner [OF sp le]) (use assms(6,7) c in auto)
  ultimately show ?thesis by (simp add: mi_segment_page_of_def add.assoc del: MI_SEGMENT_SLICE_SIZE_def)
qed

definition sample_start :: seg_state where
  "sample_start = \<lparr>page_at = \<lambda>_. mi_page_empty, heap_at = \<lambda>_. mi_heap_empty, block_next = \<lambda>_. 0, seg_at = \<lambda>_. sample_seg,
     spans = mi_span_queues_empty, tld_count = 0, tld_peak_count = 0, tld_current_size = 0, tld_peak_size = 0,
     seg_map = [0, 0], ars = \<lparr>arena_ptr = \<lambda>_. None, arena_mem = \<lambda>_. sample_arena, arena_count = 0, static_base = 0, static_top = 0,
       ar_os = sample_st\<rparr>\<rparr>"

text \<open>A system whose memory begins at the first segment, with all options off.\<close>

definition sample_seg_os :: os_env where
  "sample_seg_os = sample_os\<lparr>optv := \<lambda>_. 0, prim_alloc := \<lambda>log sz al c la. (False, True, MI_SEGMENT_SIZE)\<rparr>"

lemma sample_seg_os_simps [simp]: "optv sample_seg_os = (\<lambda>_. 0)" "page_size sample_seg_os = 4096" "large_page_size sample_seg_os = 0"
  "prim_alloc sample_seg_os = (\<lambda>log sz al c la. (False, True, 33554432))" "prim_numa_node_count sample_seg_os = 1"
  "prim_commit sample_seg_os = (\<lambda>log p n. (0, False))"
  by (simp_all add: sample_seg_os_def sample_os_def)

lemma sample_commits: "\<forall>p sz os. fst (fst (mi_os_commit sample_seg_os p sz os))"
  by (simp add: mi_os_commit_def Let_def split: prod.split)

lemma sample_arena_alloc:
  "\<exists>mid ar. mi_arena_alloc_aligned sample_seg_os 33554432 33554432 0 False True 0 (ars sample_start) = Some ((33554432, mid), ar) \<and> \<not> initially_committed mid"
  by (simp add: mi_arena_alloc_aligned_def sample_start_def mi_os_numa_node_get_def mi_os_numa_node_count_get_def sample_st_def
    mi_arena_try_alloc_def mi_arena_reserve_def Let_def mi_os_alloc_aligned_def mi_os_prim_alloc_aligned_def mi_os_prim_alloc_def
    mi_os_good_alloc_size_def mi_os_page_size_def align_up_def SIZE_MAX_def
    mi_arena_id_none_def mi_memid_create_os_def mi_memid_create_def)


lemma sample_os_alloc:
  "\<exists>s1. mi_segment_os_alloc sample_seg_os 0 0 False 0 (512, 1) False sample_start = Some ((Some 1, 512, 1), s1)"
proof -
  obtain mid ar where al: "mi_arena_alloc_aligned sample_seg_os 33554432 33554432 0 False True 0 (ars sample_start) = Some ((33554432, mid), ar)"
    and ic: "\<not> initially_committed mid" using sample_arena_alloc by blast
  obtain cm where cm: "mi_commit_mask_create 0 1 = Some cm" by (rule create_spec [of 0 1]) simp
  obtain os z where co: "mi_os_commit sample_seg_os 33554432 65536 (ar_os ar) = ((True, z), os)"
    using sample_commits by (metis surj_pair fst_conv)
  have mp: "\<exists>mp. mi_segment_map_allocated_at 1 [0, 0] = Some mp"
    by (simp add: mi_segment_map_allocated_at_def mi_segment_map_index_of_def load_def store_def seg_addr_def Let_def)
  have sm: "seg_map sample_start = [0, 0]" by (simp add: sample_start_def)
  show ?thesis using al ic cm co mp
    by (auto simp: mi_segment_os_alloc_def divide_up_def Let_def sm)
qed


lemma segment_alloc_run:
  assumes inv: "spans_inv s lay" and n: "lay n = None" and tid: "tid \<noteq> 0"
    and pg: "mi_os_page_size env dvd 65536" "0 < mi_os_page_size env"
    and oa: "mi_segment_os_alloc env 0 0 (tc > 1 \<and> tld_count s < of_int (optv env mi_option_eager_commit_delay)) req (512, 1)
      (\<not> (tc > 1 \<and> tld_count s < of_int (optv env mi_option_eager_commit_delay)) \<and> optv env mi_option_eager_commit \<noteq> 0) s = Some ((Some n, a, b), s1)"
    and cm: "\<forall>p sz os. fst (fst (mi_os_commit env p sz os))"
  shows "\<exists>s'. mi_segment_alloc env tid tc 0 0 req s = Some (Some (n, None), s')"
proof -
  obtain pre where cs: "mi_segment_calculate_slices env 0 = (512, pre, 1)" using info_slices_1 [OF pg] by blast
  note o = os_alloc_spec [OF oa]
  define s3 where "s3 = upd_seg n (\<lambda>x. x\<lparr>segment_slices := 512, segment_info_slices := 1, thread_id := tid,
                        slice_entries := 512, kind := MI_SEGMENT_NORMAL\<rparr>) (zero_segment n s1)"
  have z: "page_at (zero_segment n s1) (Slice m j) = page_at s1 (Slice m j)" if "m \<noteq> n" for m j
    using that by (simp add: zero_segment_def)
  have inv3: "spans_inv s3 lay"
    by (rule spans_inv_other [OF inv n]) (simp_all add: s3_def o zero_segment_def)
  have f3: "seg_ok (seg_at s3 n)" "slice_entries (seg_at s3 n) = 512" "in_use s3 n"
    using o(6,7) tid claimed_empty by (simp_all add: s3_def zero_segment_def seg_ok_def mi_segment_is_abandoned_def)
  have q3: "queues_ok s3 (free_slices lay)" using inv3 by (simp add: spans_inv_def)
  have new: "Slice n j \<notin> free_slices lay" for j using n by (auto simp: free_slices_def)
  have c1: "0 < (1 :: nat)" "0 + 1 \<le> (512 :: nat)" by simp_all
  obtain ok s4 where s4: "mi_segment_span_allocate env n 0 1 s3 = Some (ok, if ok then upd_seg n (\<lambda>x. x\<lparr>seg_used := seg_used x + 1\<rparr>) s4 else s4)"
     "touches s3 s4 n 0 (0 + 1) (free_slices lay)" "queues_ok s4 (free_slices lay)"
    using span_allocate_spec [OF f3(1,2) c1 q3 new, of env] by blast
  have ok: ok using span_allocate_true [OF cm s4(1)] .
  define s5 where "s5 = upd_seg n (\<lambda>x. x\<lparr>seg_used := 0\<rparr>) (upd_seg n (\<lambda>x. x\<lparr>seg_used := seg_used x + 1\<rparr>) s4)"
  have f4: "seg_ok (seg_at s4 n)" "slice_entries (seg_at s4 n) = 512" "kind (seg_at s4 n) = MI_SEGMENT_NORMAL"
    using touches_seg [OF s4(2), of n] f3 by (simp_all add: seg_ok_def)
  have f5: "seg_ok (seg_at s5 n)" "slice_entries (seg_at s5 n) = 512" "kind (seg_at s5 n) = MI_SEGMENT_NORMAL"
    using f4 by (simp_all add: s5_def seg_ok_def)
  have q5: "queues_ok s5 (free_slices lay)" by (rule queues_ok_cong [OF s4(3)]) (simp_all add: s5_def)
  have c511: "0 < (511 :: nat)" "1 + 511 \<le> (512 :: nat)" by simp_all
  obtain s6 where s6: "mi_segment_span_free env n 1 511 False s5 = Some s6"
    using span_free_spec [OF f5(1) c511 q5 new, of env False] by blast
  have m: "(if 512 > MI_SLICES_PER_SEGMENT then MI_SLICES_PER_SEGMENT else 512) = 512" by simp
  have d: "512 - 1 = (511 :: nat)" by simp
  have oa': "mi_segment_os_alloc env 0 0 (tc > 1 \<and> tld_count s < of_int (optv env mi_option_eager_commit_delay)) req (512, 1)
      ((\<not> (tc > 1 \<and> tld_count s < of_int (optv env mi_option_eager_commit_delay)) \<and> optv env mi_option_eager_commit \<noteq> 0) \<or> 0 < (0 :: nat)) s = Some ((Some n, 512, 1), s1)"
    using oa o(1,2) by simp
  have "mi_segment_alloc env tid tc 0 0 req s = Some (Some (n, None), s6)"
    by (simp only: mi_segment_alloc_def cs Let_def prod.case oa' Option.bind.simps option.case m simp_thms if_True s3_def [symmetric] s4(1)
        if_P [OF ok] if_not_P [OF not_not [THEN iffD2, OF ok]] s5_def [symmetric] f5(2,3) d s6)
  then show ?thesis by blast
qed

text \<open>A new segment, and a page of four slices in it.\<close>

definition sample_lay :: "nat \<Rightarrow> (nat \<times> bool) list option" where
  "sample_lay = [1 \<mapsto> [(1, True), (511, False)]]"

lemma sample_new_segment:
  "\<exists>(s :: seg_state) req. seg_reach sample_seg_os 1 s {1} {} \<and> spans_inv s sample_lay \<and>
     mi_arena_memid_is_suitable (memid (seg_at s 1)) req"
proof -
  have s0: "spans sample_start = mi_span_queues_empty" "tld_count sample_start = 0" by (simp_all add: sample_start_def)
  have inv: "spans_inv sample_start Map.empty" using start_inv [OF s0(1)] by (simp add: seg_inv_def)
  have pg: "mi_os_page_size sample_seg_os dvd 65536" "0 < mi_os_page_size sample_seg_os" by (simp_all add: mi_os_page_size_def)
  obtain s1 where "mi_segment_os_alloc sample_seg_os 0 0 False 0 (512, 1) False sample_start = Some ((Some 1, 512, 1), s1)"
    using sample_os_alloc by blast
  then have "\<exists>s'. mi_segment_alloc sample_seg_os 1 1 0 0 0 sample_start = Some (Some (1, None), s')"
    using segment_alloc_run [OF inv, where n = 1 and tid = 1 and env = sample_seg_os and tc = 1 and req = 0 and a = 512 and b = 1] pg sample_commits by simp
  then obtain s' where s': "mi_segment_alloc sample_seg_os 1 1 0 0 0 sample_start = Some (Some (1, None), s')" by blast
  have r1: "seg_reach sample_seg_os 1 s' {1} {}" using seg_reach.segment [OF seg_reach.start [OF s0(1)] s'] by simp
  have i1: "spans_inv s' sample_lay"
    using segment_alloc_spec(2) [OF inv _ _ pg s'] by (simp add: sample_lay_def)
  obtain req where "mi_arena_memid_is_suitable (memid (seg_at s' 1)) req"
    unfolding mi_arena_memid_is_suitable_def mi_arena_id_is_suitable_def by metis
  then show ?thesis using r1 i1 by blast
qed

lemma sample_page:
  "\<exists>(s :: seg_state) i. seg_reach sample_seg_os 1 s {1} {Slice 1 i}"
proof -
  obtain s' :: seg_state and req where s': "seg_reach sample_seg_os 1 s' {1} {}" "spans_inv s' sample_lay"
     "mi_arena_memid_is_suitable (memid (seg_at s' 1)) req" using sample_new_segment by blast
  have k: "(if (4 :: nat) = 0 then 1 else 4) = (4 :: nat)" and c4: "(4 :: nat) \<le> 512" by simp_all
  obtain r s2 where r: "mi_segments_page_find_and_allocate sample_seg_os 4 req s' = Some (r, s2)"
    "case r of
       Some p \<Rightarrow> \<exists>n A c B. sample_lay n = Some (A @ (c, False) # B) \<and> p = Slice n (slices_of A) \<and> 4 \<le> c \<and>
         mi_arena_memid_is_suitable (memid (seg_at s' n)) req \<and>
         spans_inv s2 (sample_lay(n \<mapsto> A @ (4, True) # rest_of 4 c @ B)) \<and>
         is_committed (page_at s2 p) \<and> xblock_size (page_at s2 p) = of_nat (4 * MI_SEGMENT_SLICE_SIZE)
     | None \<Rightarrow> spans_inv s2 sample_lay \<and>
         ((\<forall>p sz os. fst (fst (mi_os_commit sample_seg_os p sz os))) \<longrightarrow>
            (\<forall>n A c B. sample_lay n = Some (A @ (c, False) # B) \<longrightarrow> c < 4 \<or> \<not> mi_arena_memid_is_suitable (memid (seg_at s' n)) req))"
    using find_and_allocate_spec [OF s'(2) c4, of sample_seg_os req, unfolded k] by blast
  have "r \<noteq> None"
  proof
    assume "r = None"
    from r(2) [unfolded this option.case] sample_commits
    have u: "\<forall>n A c B. sample_lay n = Some (A @ (c, False) # B) \<longrightarrow> c < 4 \<or> \<not> mi_arena_memid_is_suitable (memid (seg_at s' n)) req" by blast
    have "sample_lay 1 = Some ([(1, True)] @ (511, False) # [])" by (simp add: sample_lay_def)
    with u have "511 < (4 :: nat) \<or> \<not> mi_arena_memid_is_suitable (memid (seg_at s' 1)) req" by blast
    then show False using s'(3) by simp
  qed
  then obtain p where p: "r = Some p" by blast
  obtain n A c B where n: "sample_lay n = Some (A @ (c, False) # B)" "p = Slice n (slices_of A)"
    using r(2) unfolding p option.case by blast
  have "n = 1" using n(1) by (simp add: sample_lay_def split: if_splits)
  then show ?thesis using seg_reach.page [OF s'(1) c4 r(1) [unfolded p]] n(2) by blast
qed

theorem mi_segments_page_find_and_allocate_carves_witness:
  "\<exists>(s :: seg_state) r s'. mi_segments_page_find_and_allocate sample_seg_os 4 0 s = Some (r, s') \<and>
     (r = None \<and> spans_inv s' sample_lay \<or> r \<noteq> None \<and> is_committed (page_at s' (the r)))"
proof -
  obtain s :: seg_state where s: "spans_inv s sample_lay" using sample_new_segment by blast
  have c4: "(4 :: nat) \<le> 512" by simp
  obtain r s' where r: "mi_segments_page_find_and_allocate sample_seg_os 4 0 s = Some (r, s')"
    using find_and_allocate_spec [OF s c4, of sample_seg_os 0] by blast
  note f = mi_segments_page_find_and_allocate_carves [OF s c4 r]
  have "r = None \<and> spans_inv s' sample_lay \<or> r \<noteq> None \<and> is_committed (page_at s' (the r))"
    using f [THEN conjunct2] by (cases r) auto
  then show ?thesis using r by blast
qed

theorem mi_segments_page_find_and_allocate_complete_witness:
  "\<exists>(s :: seg_state) req p s'. mi_segments_page_find_and_allocate sample_seg_os 511 req s = Some (Some p, s')"
proof -
  obtain s :: seg_state and req where s: "spans_inv s sample_lay" "mi_arena_memid_is_suitable (memid (seg_at s 1)) req"
    using sample_new_segment by blast
  show ?thesis
    using mi_segments_page_find_and_allocate_complete [OF s(1) _ sample_commits, of 511 1 "[(1, True), (511, False)]" 511 req] s(2) by (auto simp: sample_lay_def)
qed

theorem mi_segment_page_clear_coalesces_witness:
  "\<exists>(s :: seg_state) lay i j s'. mi_segment_page_clear sample_seg_os 1 i s = Some (j, s') \<and> spans_inv s' lay"
proof -
  obtain s :: seg_state and i where r: "seg_reach sample_seg_os 1 s {1} {Slice 1 i}" using sample_page by blast
  obtain lay where l: "seg_inv s {1} {Slice 1 i} lay"
    using seg_reach_inv [OF r] by (auto simp: mi_os_page_size_def)
  obtain A c B where a: "lay 1 = Some (A @ (c, True) # B)" "i = slices_of A" "A \<noteq> []" using given_page [OF l] by blast
  have inv: "spans_inv s lay" using l by (simp add: seg_inv_def)
  show ?thesis using mi_segment_page_clear_coalesces [OF inv a(1,3), of sample_seg_os] by blast
qed


theorem mi_segment_page_of_finds_witness:
  "\<exists>(s :: seg_state) i. mi_segment_page_of 1 (seg_addr 1 + i * MI_SEGMENT_SLICE_SIZE + 100) s = Some i \<and> 0 < i"
proof -
  obtain s :: seg_state and i where r: "seg_reach sample_seg_os 1 s {1} {Slice 1 i}" using sample_page by blast
  have pg: "mi_os_page_size sample_seg_os dvd 65536" "0 < mi_os_page_size sample_seg_os" by (simp_all add: mi_os_page_size_def)
  obtain lay where l: "seg_inv s {1} {Slice 1 i} lay" using seg_reach_inv [OF r _ pg] by auto
  obtain A c B where a: "lay 1 = Some (A @ (c, True) # B)" "i = slices_of A" "A \<noteq> []" using given_page [OF l] by blast
  have "tiled (\<lambda>j. page_at s (Slice 1 j)) 0 (A @ (c, True) # B) 512"
    using l a(1) unfolding seg_inv_def spans_inv_def seg_wf_def by blast
  then have c: "0 < c" "slice_count (page_at s (Slice 1 i)) = c" unfolding tiled_at a(2) by (simp_all add: span_ok_def)
  have "0 < i" using l by (metis seg_inv_def insertI1 neq0_conv)
  then show ?thesis using mi_segment_page_of_finds [OF r _ pg, of 1 i 0 100] c by auto
qed

end
