(* ===== verification/Channels.thy ===== *)
theory Channels
  imports Chains "HOL-Library.Multiset"
begin

text \<open>
  The channels of the trace log (Private/Trace/Channel.cpp): the length and the hash of a
  channel's name, the lists of new and of announced channels, the iterator that announces the
  new ones and puts them on the other list when it is destroyed, finding and toggling channels,
  and Writer_AnnounceChannels of Private/Trace/Writer.cpp.
\<close>

section \<open>Names\<close>

text \<open>Names are C strings without their final zero; characters are signed.\<close>

definition channel_suffix :: "u8 list" where
  "channel_suffix = [67, 104, 97, 110, 110, 101, 108]"

definition GetChannelNameLength :: "u8 list \<Rightarrow> nat" where
  "GetChannelNameLength name =
     (let Len = length name
      in if Len > 7 then if drop (Len - 7) name = channel_suffix then Len - 7 else Len else Len)"

fun channel_hash_loop :: "u32 \<Rightarrow> u8 list \<Rightarrow> u32" where
  "channel_hash_loop r [] = r"
| "channel_hash_loop r (c # cs) = channel_hash_loop ((r XOR (scast c OR 0x20)) * 0x01000193) cs"

definition GetChannelHash :: "u8 list \<Rightarrow> nat \<Rightarrow> u32" where
  "GetChannelHash input n =
     (let n = (if n > 0 \<and> (scast (input ! (n - 1)) :: u32) OR 0x20 = 115 then n - 1 else n)
      in channel_hash_loop 0x811c9dc5 (take n input))"

section \<open>Channels\<close>

record channel =
  ch_next :: u64
  ch_name :: "u8 list"
  ch_len :: nat
  ch_hash :: u32
  ch_enabled :: int
  ch_readonly :: bool

datatype channel_event = Ev_ChannelAnnounce u32 bool bool "u8 list" | Ev_ChannelToggle u32 bool

record channels =
  ch_at :: "u64 \<Rightarrow> channel"
  GHeadChannel :: u64
  GNewChannelList :: u64
  GChannelsInitialized :: bool
  ch_log :: "channel_event list"

definition upd_channel :: "u64 \<Rightarrow> (channel \<Rightarrow> channel) \<Rightarrow> channels \<Rightarrow> channels" where
  "upd_channel n f s = s\<lparr>ch_at := (ch_at s)(n := f (ch_at s n))\<rparr>"

definition FChannel_IsEnabled :: "channel \<Rightarrow> bool" where
  "FChannel_IsEnabled c \<longleftrightarrow> ch_enabled c \<ge> 0"

definition FChannel_or :: "channel \<Rightarrow> channel \<Rightarrow> bool" where
  "FChannel_or c d \<longleftrightarrow> FChannel_IsEnabled c \<and> FChannel_IsEnabled d"

definition FChannel_Setup :: "u64 \<Rightarrow> u8 list \<Rightarrow> bool \<Rightarrow> channels \<Rightarrow> channels" where
  "FChannel_Setup n name readonly s =
     (let len = GetChannelNameLength name;
          s = upd_channel n (\<lambda>c. c\<lparr>ch_name := name, ch_len := len, ch_hash := GetChannelHash name len, ch_readonly := readonly\<rparr>) s;
          s = upd_channel n (\<lambda>c. c\<lparr>ch_next := GNewChannelList s\<rparr>) s;
          s = s\<lparr>GNewChannelList := n\<rparr>
      in if GChannelsInitialized s then upd_channel n (\<lambda>c. c\<lparr>ch_enabled := -1\<rparr>) s else s)"

definition FChannel_Announce :: "u64 \<Rightarrow> channels \<Rightarrow> channels" where
  "FChannel_Announce n s =
     (let c = ch_at s n
      in s\<lparr>ch_log := ch_log s @ [Ev_ChannelAnnounce (ch_hash c) (FChannel_IsEnabled c) (ch_readonly c) (take (ch_len c) (ch_name c))]\<rparr>)"

definition FChannel_Toggle :: "bool \<Rightarrow> u64 \<Rightarrow> channels \<Rightarrow> bool \<times> channels" where
  "FChannel_Toggle b n s =
     (let s = upd_channel n (\<lambda>c. c\<lparr>ch_enabled := (if b then 1 else -1)\<rparr>) s;
          s = s\<lparr>ch_log := ch_log s @ [Ev_ChannelToggle (ch_hash (ch_at s n)) (FChannel_IsEnabled (ch_at s n))]\<rparr>
      in (FChannel_IsEnabled (ch_at s n), s))"

section \<open>The iterator of the new channels\<close>

text \<open>The next channel, the first one, and the last one seen so far.\<close>

type_synonym channel_iter = "u64 \<times> u64 \<times> u64"

definition FChannel_ReadNew :: "channels \<Rightarrow> channel_iter \<times> channels" where
  "FChannel_ReadNew s =
     (let List = GNewChannelList s
      in if List = 0 then ((0, 0, 0), s) else ((List, List, List), s\<lparr>GNewChannelList := 0\<rparr>))"

definition Iter_GetNext :: "channel_iter \<Rightarrow> channels \<Rightarrow> u64 \<times> channel_iter" where
  "Iter_GetNext it s =
     (case it of (i0, i1, i2) \<Rightarrow>
        if i0 = 0 then (0, it)
        else let n = ch_next (ch_at s i0) in (i0, n, i1, if n \<noteq> 0 then n else i2))"

definition Iter_destroy :: "channel_iter \<Rightarrow> channels \<Rightarrow> channels" where
  "Iter_destroy it s =
     (case it of (i0, i1, i2) \<Rightarrow>
        if i2 = 0 then s
        else (upd_channel i2 (\<lambda>c. c\<lparr>ch_next := GHeadChannel s\<rparr>) s)\<lparr>GHeadChannel := i1\<rparr>)"

partial_function (option) announce_loop :: "channel_iter \<Rightarrow> channels \<Rightarrow> (channel_iter \<times> channels) option" where
  "announce_loop it s =
     (case Iter_GetNext it s of (c, it) \<Rightarrow>
        if c = 0 then Some (it, s) else announce_loop it (FChannel_Announce c s))"

definition Writer_AnnounceChannels :: "channels \<Rightarrow> channels option" where
  "Writer_AnnounceChannels s =
     (case FChannel_ReadNew s of (it, s) \<Rightarrow> do { (it, s) \<leftarrow> announce_loop it s; Some (Iter_destroy it s) })"

section \<open>Walking the two lists\<close>

text \<open>A walk does not end on a list that is not one; then the result is None.\<close>

partial_function (option) toggle_list :: "bool \<Rightarrow> u64 \<Rightarrow> channels \<Rightarrow> channels option" where
  "toggle_list b c s =
     (if c = 0 then Some s
      else let s = snd (FChannel_Toggle b c s) in toggle_list b (ch_next (ch_at s c)) s)"

definition FChannel_ToggleAll :: "bool \<Rightarrow> channels \<Rightarrow> channels option" where
  "FChannel_ToggleAll b s =
     (let new = GNewChannelList s; hd = GHeadChannel s
      in do { s \<leftarrow> toggle_list b new s; toggle_list b hd s })"

definition FChannel_Initialize :: "channels \<Rightarrow> channels option" where
  "FChannel_Initialize s = do { s \<leftarrow> FChannel_ToggleAll False s; Some (s\<lparr>GChannelsInitialized := True\<rparr>) }"

partial_function (option) find_list :: "u32 \<Rightarrow> u64 \<Rightarrow> channels \<Rightarrow> u64 option" where
  "find_list h c s =
     (if c = 0 then Some 0 else if ch_hash (ch_at s c) = h then Some c else find_list h (ch_next (ch_at s c)) s)"

definition FChannel_FindChannel :: "u8 list \<Rightarrow> channels \<Rightarrow> u64 option" where
  "FChannel_FindChannel name s =
     (let h = GetChannelHash name (GetChannelNameLength name)
      in do { c \<leftarrow> find_list h (GNewChannelList s) s;
              if c \<noteq> 0 then Some c else find_list h (GHeadChannel s) s })"

partial_function (option) enumerate_list :: "(u8 list \<Rightarrow> bool \<Rightarrow> 'w \<Rightarrow> 'w) \<Rightarrow> u64 \<Rightarrow> channels \<Rightarrow> 'w \<Rightarrow> 'w option" where
  "enumerate_list f c s w =
     (if c = 0 then Some w
      else enumerate_list f (ch_next (ch_at s c)) s (f (ch_name (ch_at s c)) (FChannel_IsEnabled (ch_at s c)) w))"

definition FChannel_EnumerateChannels :: "(u8 list \<Rightarrow> bool \<Rightarrow> 'w \<Rightarrow> 'w) \<Rightarrow> channels \<Rightarrow> 'w \<Rightarrow> 'w option" where
  "FChannel_EnumerateChannels f s w =
     do { w \<leftarrow> enumerate_list f (GNewChannelList s) s w; enumerate_list f (GHeadChannel s) s w }"

definition FChannel_ToggleName :: "u8 list \<Rightarrow> bool \<Rightarrow> channels \<Rightarrow> (bool \<times> channels) option" where
  "FChannel_ToggleName name b s =
     do { c \<leftarrow> FChannel_FindChannel name s; if c \<noteq> 0 then Some (FChannel_Toggle b c s) else Some (False, s) }"

section \<open>Names that match\<close>

text \<open>
  The hash of a name sees only its canonical form: the suffix "Channel" and then a final s are
  taken off, and the bit that tells upper from lower case is set everywhere.
\<close>

definition canonical_name :: "u8 list \<Rightarrow> u8 list" where
  "canonical_name name =
     (let low = map (\<lambda>c. c OR 0x20) (take (GetChannelNameLength name) name)
      in if low \<noteq> [] \<and> last low = 115 then butlast low else low)"

definition name_hash :: "u8 list \<Rightarrow> u32" where
  "name_hash name = GetChannelHash name (GetChannelNameLength name)"

lemma bit_case: "bit (0x20 :: 'a::len word) k \<longleftrightarrow> k = 5 \<and> 5 < LENGTH('a)"
proof -
  have "(0x20 :: 'a word) = push_bit 5 1" by simp
  then show ?thesis by (auto simp only: bit_push_bit_iff bit_1_iff possible_bit_word)
qed

lemma scast_or: "(scast (c :: u8) :: u32) OR 0x20 = scast (c OR 0x20)"
proof -
  have b: "bit (0x20 :: u8) k \<longleftrightarrow> k = 5" "bit (0x20 :: u32) k \<longleftrightarrow> k = 5" for k by (simp_all only: bit_case) simp_all
  show ?thesis
  proof (rule bit_word_eqI)
    fix n assume "n < LENGTH(32)"
    then show "bit ((scast c :: u32) OR 0x20) n = bit (scast (c OR 0x20) :: u32) n"
      by (cases "n < 7") (simp_all only: bit_signed_iff bit_or_iff b possible_bit_word len_num1 len_bit0, simp_all)
  qed
qed

lemma scast_u8_inject: "(scast (c :: u8) :: u32) = 115 \<longleftrightarrow> c = 115"
proof
  assume "(scast c :: u32) = 115"
  then have "(ucast (scast c :: u32) :: u8) = ucast (115 :: u32)" by simp
  moreover have "(ucast (scast c :: u32) :: u8) = c" by (rule bit_word_eqI) (auto simp: bit_simps)
  ultimately show "c = 115" by simp
qed simp

lemma hash_loop_low: "channel_hash_loop r cs = channel_hash_loop r (map (\<lambda>c. c OR 0x20) cs)"
  by (induction cs arbitrary: r) (simp_all add: scast_or or.assoc)

lemma name_hash_canonical: "name_hash name = channel_hash_loop 0x811c9dc5 (canonical_name name)"
proof -
  let ?n = "GetChannelNameLength name"
  have le: "?n \<le> length name" by (simp add: GetChannelNameLength_def Let_def)
  have last: "(scast (name ! (?n - 1)) :: u32) OR 0x20 = 115 \<longleftrightarrow> last (map (\<lambda>c. c OR 0x20) (take ?n name)) = 115" if "0 < ?n"
  proof -
    have "last (map (\<lambda>c. c OR 0x20) (take ?n name)) = (name ! (?n - 1)) OR 0x20"
    proof -
      have "take ?n name \<noteq> []" using that le by auto
      then show ?thesis using that le by (simp add: last_map last_conv_nth [of "take ?n name"] min_def)
    qed
    then show ?thesis by (simp add: scast_or scast_u8_inject)
  qed
  have tk: "take (?n - 1) name = butlast (take ?n name)" using le by (simp add: butlast_take)
  have ne: "map (\<lambda>c. c OR 0x20) (take ?n name) = [] \<longleftrightarrow> ?n = 0" using le by auto
  have bl: "butlast (map (\<lambda>c. c OR 0x20) (take ?n name)) = map (\<lambda>c. c OR 0x20) (take (?n - 1) name)" unfolding tk by (rule map_butlast [symmetric])
  show ?thesis
    unfolding name_hash_def GetChannelHash_def canonical_name_def Let_def ne bl
    using last hash_loop_low [of _ "take ?n name"] hash_loop_low [of _ "take (?n - 1) name"] by (cases "?n = 0") auto
qed

section \<open>The lists\<close>

abbreviation chans_from :: "(u64 \<Rightarrow> channel) \<Rightarrow> u64 \<Rightarrow> u64 list \<Rightarrow> bool" where
  "chans_from ca \<equiv> slist (\<lambda>n. ch_next (ca n))"

lemma find_list_spec:
  "chans_from (ch_at s) a xs \<Longrightarrow> find_list h a s = Some (case List.find (\<lambda>c. ch_hash (ch_at s c) = h) xs of None \<Rightarrow> 0 | Some c \<Rightarrow> c)"
proof (induction xs arbitrary: a)
  case Nil
  then show ?case by (subst find_list.simps) simp
next
  case (Cons x xs)
  then show ?case by (subst find_list.simps) auto
qed

lemma enumerate_list_spec:
  "chans_from (ch_at s) a xs \<Longrightarrow> enumerate_list f a s w = Some (fold (\<lambda>c. f (ch_name (ch_at s c)) (FChannel_IsEnabled (ch_at s c))) xs w)"
proof (induction xs arbitrary: a w)
  case Nil
  then show ?case by (subst enumerate_list.simps) simp
next
  case (Cons x xs)
  then show ?case by (subst enumerate_list.simps) auto
qed

text \<open>What toggling leaves as it is.\<close>

definition same_lists :: "channels \<Rightarrow> channels \<Rightarrow> bool" where
  "same_lists s t \<longleftrightarrow> GHeadChannel t = GHeadChannel s \<and> GNewChannelList t = GNewChannelList s \<and>
     GChannelsInitialized t = GChannelsInitialized s \<and>
     (\<forall>n. ch_next (ch_at t n) = ch_next (ch_at s n) \<and> ch_name (ch_at t n) = ch_name (ch_at s n) \<and> ch_hash (ch_at t n) = ch_hash (ch_at s n))"

lemma same_lists_refl [simp]: "same_lists s s"
  by (simp add: same_lists_def)

lemma same_lists_trans: "same_lists s t \<Longrightarrow> same_lists t u \<Longrightarrow> same_lists s u"
  by (auto simp: same_lists_def)

lemma Toggle_same: "same_lists s (snd (FChannel_Toggle b c s))"
  by (simp add: same_lists_def FChannel_Toggle_def upd_channel_def Let_def)

lemma Toggle_enabled:
  "ch_enabled (ch_at (snd (FChannel_Toggle b c s)) n) = (if n = c then (if b then 1 else -1) else ch_enabled (ch_at s n))"
  "ch_log (snd (FChannel_Toggle b c s)) = ch_log s @ [Ev_ChannelToggle (ch_hash (ch_at s c)) b]"
  by (simp_all add: FChannel_Toggle_def upd_channel_def FChannel_IsEnabled_def Let_def)

lemma toggle_list_spec:
  "chans_from (ch_at s) a xs \<Longrightarrow> \<exists>t. toggle_list b a s = Some t \<and> same_lists s t \<and>
     (\<forall>n. ch_enabled (ch_at t n) = (if n \<in> set xs then (if b then 1 else -1) else ch_enabled (ch_at s n))) \<and>
     ch_log t = ch_log s @ map (\<lambda>n. Ev_ChannelToggle (ch_hash (ch_at s n)) b) xs"
proof (induction xs arbitrary: a s)
  case Nil
  then show ?case by (subst toggle_list.simps) simp
next
  case (Cons x xs)
  let ?s = "snd (FChannel_Toggle b x s)"
  have a: "a = x" "x \<noteq> 0" "chans_from (ch_at s) (ch_next (ch_at s x)) xs" using Cons.prems by simp_all
  have nx: "ch_next (ch_at ?s n) = ch_next (ch_at s n)" "ch_hash (ch_at ?s n) = ch_hash (ch_at s n)" for n
    using Toggle_same [of s b x] by (simp_all add: same_lists_def)
  have "chans_from (ch_at ?s) (ch_next (ch_at ?s x)) xs" using a(3) by (simp add: nx)
  from Cons.IH [OF this] obtain t where t: "toggle_list b (ch_next (ch_at ?s x)) ?s = Some t" "same_lists ?s t"
    "\<forall>n. ch_enabled (ch_at t n) = (if n \<in> set xs then (if b then 1 else -1) else ch_enabled (ch_at ?s n))"
    "ch_log t = ch_log ?s @ map (\<lambda>n. Ev_ChannelToggle (ch_hash (ch_at ?s n)) b) xs" by blast
  have "toggle_list b a s = Some t" using a t(1) by (subst toggle_list.simps) (simp add: Let_def)
  then show ?case using t same_lists_trans [OF Toggle_same t(2)] by (simp add: Toggle_enabled nx)
qed

lemma announce_loop_spec:
  "chans_from (ch_at s) i0 rest \<Longrightarrow> \<exists>t. announce_loop (i0, i1, i2) s = Some ((0, i1, if rest = [] \<or> butlast rest = [] then i2 else last rest), t) \<and>
     t = s\<lparr>ch_log := ch_log t\<rparr> \<and> ch_log t = ch_log s @ map (\<lambda>n. Ev_ChannelAnnounce (ch_hash (ch_at s n)) (FChannel_IsEnabled (ch_at s n)) (ch_readonly (ch_at s n))
       (take (ch_len (ch_at s n)) (ch_name (ch_at s n)))) rest"
proof (induction rest arbitrary: i0 i2 s)
  case Nil
  then show ?case by (subst announce_loop.simps) (simp add: Iter_GetNext_def)
next
  case (Cons x xs)
  let ?s = "FChannel_Announce x s" and ?n = "ch_next (ch_at s x)"
  have i0: "i0 = x" "x \<noteq> 0" "chans_from (ch_at ?s) ?n xs" and at: "ch_at ?s = ch_at s"
    using Cons.prems by (simp_all add: FChannel_Announce_def Let_def)
  let ?i2 = "if ?n \<noteq> 0 then ?n else i2"
  obtain t where t: "announce_loop (?n, i1, ?i2) ?s = Some ((0, i1, if xs = [] \<or> butlast xs = [] then ?i2 else last xs), t)"
    "t = ?s\<lparr>ch_log := ch_log t\<rparr>" "ch_log t = ch_log ?s @ map (\<lambda>n. Ev_ChannelAnnounce (ch_hash (ch_at s n)) (FChannel_IsEnabled (ch_at s n)) (ch_readonly (ch_at s n))
       (take (ch_len (ch_at s n)) (ch_name (ch_at s n)))) xs"
    using Cons.IH [OF i0(3), of ?i2] unfolding at by blast
  have l: "announce_loop (i0, i1, i2) s = announce_loop (?n, i1, ?i2) ?s"
    using i0 by (subst announce_loop.simps) (simp add: Iter_GetNext_def Let_def)
  have i2: "(if xs = [] \<or> butlast xs = [] then ?i2 else last xs) = (if x # xs = [] \<or> butlast (x # xs) = [] then i2 else last (x # xs))"
    using i0(3) slist_start [OF i0(3)] by (cases xs) auto
  show ?case
  proof (intro exI [of _ t] conjI)
    show "announce_loop (i0, i1, i2) s = Some ((0, i1, if x # xs = [] \<or> butlast (x # xs) = [] then i2 else last (x # xs)), t)"
      unfolding l t(1) i2 ..
    show "t = s\<lparr>ch_log := ch_log t\<rparr>" by (subst t(2)) (simp add: FChannel_Announce_def Let_def)
    show "ch_log t = ch_log s @ map (\<lambda>n. Ev_ChannelAnnounce (ch_hash (ch_at s n)) (FChannel_IsEnabled (ch_at s n)) (ch_readonly (ch_at s n))
       (take (ch_len (ch_at s n)) (ch_name (ch_at s n)))) (x # xs)"
      unfolding t(3) by (simp add: FChannel_Announce_def Let_def)
  qed
qed

section \<open>Channels over time\<close>

text \<open>
  Channels are set up once each by any thread, and toggled; the writer announces the new ones.
  The channels set up and the channels announced are kept in order.
\<close>

record channel_run =
  run_channels :: channels
  run_iter :: "channel_iter option"
  run_announced :: "u64 list"
  run_setups :: "u64 list"

inductive channel_step :: "channel_run \<Rightarrow> channel_run \<Rightarrow> bool" where
  set_up: "n \<noteq> 0 \<Longrightarrow> n \<notin> set (run_setups r) \<Longrightarrow>
    channel_step r (r\<lparr>run_channels := FChannel_Setup n name readonly (run_channels r), run_setups := n # run_setups r\<rparr>)"
| toggle_name: "FChannel_ToggleName name b (run_channels r) = Some (e, s) \<Longrightarrow> channel_step r (r\<lparr>run_channels := s\<rparr>)"
| toggle_all: "FChannel_ToggleAll b (run_channels r) = Some s \<Longrightarrow> channel_step r (r\<lparr>run_channels := s\<rparr>)"
| initialize: "FChannel_Initialize (run_channels r) = Some s \<Longrightarrow> channel_step r (r\<lparr>run_channels := s\<rparr>)"
| read_new: "run_iter r = None \<Longrightarrow> FChannel_ReadNew (run_channels r) = (it, s) \<Longrightarrow> channel_step r (r\<lparr>run_channels := s, run_iter := Some it\<rparr>)"
| announce: "run_iter r = Some it \<Longrightarrow> Iter_GetNext it (run_channels r) = (c, it') \<Longrightarrow> c \<noteq> 0 \<Longrightarrow>
    channel_step r (r\<lparr>run_channels := FChannel_Announce c (run_channels r), run_iter := Some it', run_announced := run_announced r @ [c]\<rparr>)"
| destroy: "run_iter r = Some it \<Longrightarrow> Iter_GetNext it (run_channels r) = (0, it') \<Longrightarrow>
    channel_step r (r\<lparr>run_channels := Iter_destroy it' (run_channels r), run_iter := None\<rparr>)"

inductive channel_reach :: "channel_run \<Rightarrow> channel_run \<Rightarrow> bool" where
  start: "channel_reach r r"
| step: "channel_reach r r' \<Longrightarrow> channel_step r' r'' \<Longrightarrow> channel_reach r r''"

definition channel_initial :: "channel_run \<Rightarrow> bool" where
  "channel_initial r \<longleftrightarrow> GHeadChannel (run_channels r) = 0 \<and> GNewChannelList (run_channels r) = 0 \<and>
     run_iter r = None \<and> run_announced r = [] \<and> run_setups r = []"

fun iter_ok :: "channels \<Rightarrow> channel_iter option \<Rightarrow> u64 list \<Rightarrow> u64 list \<Rightarrow> bool" where
  "iter_ok s None pre rest = (pre = [] \<and> rest = [])"
| "iter_ok s (Some (i0, i1, i2)) pre rest = (chans_from (ch_at s) i1 (pre @ rest) \<and> chans_from (ch_at s) i0 rest \<and>
     i2 = (if rest \<noteq> [] then hd rest else if pre \<noteq> [] then last pre else 0))"

definition channels_ok :: "channel_run \<Rightarrow> u64 list \<Rightarrow> u64 list \<Rightarrow> u64 list \<Rightarrow> u64 list \<Rightarrow> bool" where
  "channels_ok r new old pre rest \<longleftrightarrow> distinct (run_setups r) \<and> 0 \<notin> set (run_setups r) \<and>
     (\<forall>n \<in> set (run_setups r). ch_hash (ch_at (run_channels r) n) = name_hash (ch_name (ch_at (run_channels r) n))) \<and>
     chans_from (ch_at (run_channels r)) (GNewChannelList (run_channels r)) new \<and>
     chans_from (ch_at (run_channels r)) (GHeadChannel (run_channels r)) old \<and>
     iter_ok (run_channels r) (run_iter r) pre rest \<and>
     mset (run_announced r) = mset old + mset pre \<and>
     mset (run_setups r) = mset new + mset old + mset pre + mset rest"

lemma channels_ok_sets:
  assumes "channels_ok r new old pre rest"
  shows "set (run_setups r) = set new \<union> set old \<union> set pre \<union> set rest" "distinct (new @ old @ pre @ rest)"
proof -
  have m: "mset (new @ old @ pre @ rest) = mset (run_setups r)" using assms by (simp add: channels_ok_def)
  show "set (run_setups r) = set new \<union> set old \<union> set pre \<union> set rest" using mset_eq_setD [OF m] by auto
  show "distinct (new @ old @ pre @ rest)" using mset_eq_imp_distinct_iff [OF m] assms by (simp add: channels_ok_def)
qed

text \<open>Steps that leave the lists of channels as they are.\<close>

lemma channels_ok_same:
  assumes "channels_ok r new old pre rest" "same_lists (run_channels r) s"
  shows "channels_ok (r\<lparr>run_channels := s\<rparr>) new old pre rest"
proof -
  have e: "ch_next (ch_at s n) = ch_next (ch_at (run_channels r) n)" "ch_name (ch_at s n) = ch_name (ch_at (run_channels r) n)"
    "ch_hash (ch_at s n) = ch_hash (ch_at (run_channels r) n)" "GHeadChannel s = GHeadChannel (run_channels r)"
    "GNewChannelList s = GNewChannelList (run_channels r)" for n
    using assms(2) by (simp_all add: same_lists_def)
  have "iter_ok s (run_iter r) pre rest = iter_ok (run_channels r) (run_iter r) pre rest"
    by (cases "run_iter r" ; cases "the (run_iter r)") (simp_all add: e)
  then show ?thesis using assms(1) by (simp add: channels_ok_def e)
qed

lemma ToggleAll_spec:
  assumes "chans_from (ch_at s) (GNewChannelList s) new" "chans_from (ch_at s) (GHeadChannel s) old"
  shows "\<exists>t. FChannel_ToggleAll b s = Some t \<and> same_lists s t \<and>
    (\<forall>n. ch_enabled (ch_at t n) = (if n \<in> set (new @ old) then (if b then 1 else -1) else ch_enabled (ch_at s n))) \<and>
    ch_log t = ch_log s @ map (\<lambda>n. Ev_ChannelToggle (ch_hash (ch_at s n)) b) (new @ old)"
proof -
  obtain u where u: "toggle_list b (GNewChannelList s) s = Some u" "same_lists s u"
    "\<forall>n. ch_enabled (ch_at u n) = (if n \<in> set new then (if b then 1 else -1) else ch_enabled (ch_at s n))"
    "ch_log u = ch_log s @ map (\<lambda>n. Ev_ChannelToggle (ch_hash (ch_at s n)) b) new"
    using toggle_list_spec [OF assms(1)] by blast
  have e: "ch_next (ch_at u n) = ch_next (ch_at s n)" "ch_hash (ch_at u n) = ch_hash (ch_at s n)" for n using u(2) by (simp_all add: same_lists_def)
  have "chans_from (ch_at u) (GHeadChannel s) old" using assms(2) by (simp add: e)
  from toggle_list_spec [OF this, of b]
  obtain t where t: "toggle_list b (GHeadChannel s) u = Some t" "same_lists u t"
    "\<forall>n. ch_enabled (ch_at t n) = (if n \<in> set old then (if b then 1 else -1) else ch_enabled (ch_at u n))"
    "ch_log t = ch_log u @ map (\<lambda>n. Ev_ChannelToggle (ch_hash (ch_at u n)) b) old" by blast
  have "FChannel_ToggleAll b s = Some t" by (simp add: FChannel_ToggleAll_def u(1) t(1))
  then show ?thesis using same_lists_trans [OF u(2) t(2)] u(3,4) t(3,4) e by auto
qed

lemma FindChannel_spec:
  assumes "chans_from (ch_at s) (GNewChannelList s) new" "chans_from (ch_at s) (GHeadChannel s) old"
  shows "FChannel_FindChannel name s = Some (case List.find (\<lambda>c. ch_hash (ch_at s c) = name_hash name) (new @ old) of None \<Rightarrow> 0 | Some c \<Rightarrow> c)"
proof -
  have f: "List.find P (new @ old) = (case List.find P new of None \<Rightarrow> List.find P old | Some c \<Rightarrow> Some c)" for P
    by (induction new) auto
  have nz: "List.find P new = Some c \<Longrightarrow> c \<noteq> 0" for P c
    using slist_nonnull [OF assms(1)] by (metis find_Some_iff nth_mem)
  show ?thesis unfolding FChannel_FindChannel_def Let_def f name_hash_def [symmetric]
    using find_list_spec [OF assms(1)] find_list_spec [OF assms(2)] nz by (auto split: option.splits)
qed

lemma Iter_destroy_spec:
  assumes "chans_from (ch_at s) i1 pre" "chans_from (ch_at s) (GHeadChannel s) old" "distinct (pre @ old)" "pre \<noteq> []"
  shows "chans_from (ch_at (Iter_destroy (0, i1, last pre) s)) (GHeadChannel (Iter_destroy (0, i1, last pre) s)) (pre @ old)"
    "n \<notin> set pre \<Longrightarrow> ch_next (ch_at (Iter_destroy (0, i1, last pre) s) n) = ch_next (ch_at s n)"
proof -
  have nz: "last pre \<noteq> 0" using slist_nonnull [OF assms(1)] last_in_set [OF assms(4)] by metis
  then have d: "Iter_destroy (0, i1, last pre) s = (upd_channel (last pre) (\<lambda>c. c\<lparr>ch_next := GHeadChannel s\<rparr>) s)\<lparr>GHeadChannel := i1\<rparr>"
    by (simp add: Iter_destroy_def)
  show "chans_from (ch_at (Iter_destroy (0, i1, last pre) s)) (GHeadChannel (Iter_destroy (0, i1, last pre) s)) (pre @ old)"
    unfolding d by (simp add: upd_channel_def, rule slist_link [OF assms(1,4,2,3)]) simp_all
  show "n \<notin> set pre \<Longrightarrow> ch_next (ch_at (Iter_destroy (0, i1, last pre) s) n) = ch_next (ch_at s n)"
    using last_in_set [OF assms(4)] unfolding d by (auto simp: upd_channel_def)
qed

lemma Iter_destroy_keeps:
  "ch_name (ch_at (Iter_destroy it s) n) = ch_name (ch_at s n)" "ch_hash (ch_at (Iter_destroy it s) n) = ch_hash (ch_at s n)"
  "GNewChannelList (Iter_destroy it s) = GNewChannelList s"
  by (cases it; simp add: Iter_destroy_def upd_channel_def)+

lemma step_set_up:
  assumes ok: "channels_ok r new old pre rest" and n: "n \<noteq> 0" "n \<notin> set (run_setups r)"
  shows "channels_ok (r\<lparr>run_channels := FChannel_Setup n name readonly (run_channels r), run_setups := n # run_setups r\<rparr>) (n # new) old pre rest"
proof -
  let ?s = "run_channels r" and ?t = "FChannel_Setup n name readonly (run_channels r)"
  have t: "ch_next (ch_at ?t m) = (if m = n then GNewChannelList ?s else ch_next (ch_at ?s m))"
    "ch_hash (ch_at ?t m) = (if m = n then name_hash name else ch_hash (ch_at ?s m))"
    "ch_name (ch_at ?t m) = (if m = n then name else ch_name (ch_at ?s m))"
    "GNewChannelList ?t = n" "GHeadChannel ?t = GHeadChannel ?s" for m
    by (simp_all add: FChannel_Setup_def upd_channel_def name_hash_def Let_def)
  have out: "n \<notin> set new" "n \<notin> set old" "n \<notin> set pre" "n \<notin> set rest" using n(2) channels_ok_sets(1) [OF ok] by auto
  have c: "chans_from (ch_at ?t) a xs = chans_from (ch_at ?s) a xs" if "n \<notin> set xs" for a xs
    by (rule slist_cong) (use that t(1) in auto)
  have it: "iter_ok ?t (run_iter r) pre rest = iter_ok ?s (run_iter r) pre rest"
    by (cases "run_iter r"; cases "the (run_iter r)") (simp_all add: c out)
  show ?thesis using ok n unfolding channels_ok_def by (simp add: c out it t(2,3,4,5)) (simp add: t(1))
qed

lemma step_read_new:
  assumes ok: "channels_ok r new old pre rest" and i: "run_iter r = None" and rd: "FChannel_ReadNew (run_channels r) = (it, s)"
  shows "channels_ok (r\<lparr>run_channels := s, run_iter := Some it\<rparr>) [] old [] new"
proof -
  have pr: "pre = []" "rest = []" using ok i by (simp_all add: channels_ok_def)
  have nw: "chans_from (ch_at (run_channels r)) (GNewChannelList (run_channels r)) new" using ok by (simp add: channels_ok_def)
  have s: "s = (run_channels r)\<lparr>GNewChannelList := 0\<rparr>" "it = (GNewChannelList (run_channels r), GNewChannelList (run_channels r), GNewChannelList (run_channels r))"
    using rd by (auto simp: FChannel_ReadNew_def Let_def split: if_splits)
  have "GNewChannelList (run_channels r) = (if new \<noteq> [] then hd new else 0)" using nw by (cases new) auto
  then show ?thesis using ok pr nw unfolding channels_ok_def s by simp
qed

lemma step_announce:
  assumes ok: "channels_ok r new old pre rest" and i: "run_iter r = Some it" and g: "Iter_GetNext it (run_channels r) = (c, it')" "c \<noteq> 0"
  shows "\<exists>rest'. channels_ok (r\<lparr>run_channels := FChannel_Announce c (run_channels r), run_iter := Some it', run_announced := run_announced r @ [c]\<rparr>)
    new old (pre @ [c]) rest'"
proof -
  obtain i0 i1 i2 where it: "it = (i0, i1, i2)" by (cases it)
  have io: "chans_from (ch_at (run_channels r)) i1 (pre @ rest)" "chans_from (ch_at (run_channels r)) i0 rest"
    "i2 = (if rest \<noteq> [] then hd rest else if pre \<noteq> [] then last pre else 0)" using ok i it by (simp_all add: channels_ok_def)
  have "i0 \<noteq> 0" using g it by (auto simp: Iter_GetNext_def)
  then obtain xs where r: "rest = i0 # xs" using io(2) by (cases rest) auto
  define n where "n = ch_next (ch_at (run_channels r) i0)"
  have it': "c = i0" "it' = (n, i1, if n \<noteq> 0 then n else i2)" using g it \<open>i0 \<noteq> 0\<close> by (auto simp: Iter_GetNext_def n_def Let_def)
  have xs: "chans_from (ch_at (run_channels r)) n xs" using io(2) r by (simp add: n_def)
  have "(if n \<noteq> 0 then n else i2) = (if xs \<noteq> [] then hd xs else i0)" using xs io(3) r by (cases xs) auto
  then show ?thesis using ok it' io(1) xs r unfolding channels_ok_def
    by (intro exI [of _ xs]) (simp add: FChannel_Announce_def Let_def)
qed

lemma step_destroy:
  assumes ok: "channels_ok r new old pre rest" and i: "run_iter r = Some it" and g: "Iter_GetNext it (run_channels r) = (0, it')"
  shows "channels_ok (r\<lparr>run_channels := Iter_destroy it' (run_channels r), run_iter := None\<rparr>) new (pre @ old) [] []"
proof -
  obtain i0 i1 i2 where it: "it = (i0, i1, i2)" by (cases it)
  have io: "chans_from (ch_at (run_channels r)) i1 (pre @ rest)" "chans_from (ch_at (run_channels r)) i0 rest"
    "i2 = (if rest \<noteq> [] then hd rest else if pre \<noteq> [] then last pre else 0)" using ok i it by (simp_all add: channels_ok_def)
  have z: "i0 = 0" "it' = it" using g it by (auto simp: Iter_GetNext_def Let_def split: if_splits)
  then have r: "rest = []" using slist_start [OF io(2)] by simp
  have dist: "distinct (pre @ old)" "distinct (new @ old @ pre @ rest)" using channels_ok_sets(2) [OF ok] by auto
  show ?thesis
  proof (cases "pre = []")
    case True
    then show ?thesis using ok z it io(3) r unfolding channels_ok_def by (simp add: Iter_destroy_def)
  next
    case False
    let ?t = "Iter_destroy it' (run_channels r)"
    have t: "?t = Iter_destroy (0, i1, last pre) (run_channels r)" using z it io(3) r False by simp
    have o: "chans_from (ch_at (run_channels r)) (GHeadChannel (run_channels r)) old" using ok by (simp add: channels_ok_def)
    have p: "chans_from (ch_at (run_channels r)) i1 pre" using io(1) r by simp
    have hd: "chans_from (ch_at ?t) (GHeadChannel ?t) (pre @ old)" unfolding t by (rule Iter_destroy_spec(1) [OF p o dist(1) False])
    have nx: "ch_next (ch_at ?t n) = ch_next (ch_at (run_channels r) n)" if "n \<notin> set pre" for n
      unfolding t by (rule Iter_destroy_spec(2) [OF p o dist(1) False that])
    have "chans_from (ch_at ?t) (GNewChannelList (run_channels r)) new = chans_from (ch_at (run_channels r)) (GNewChannelList (run_channels r)) new"
      by (rule slist_cong) (use nx dist(2) in auto)
    then show ?thesis using ok hd r unfolding channels_ok_def by (simp add: Iter_destroy_keeps)
  qed
qed

lemma same_initialized: "same_lists s t \<Longrightarrow> channels_ok (r\<lparr>run_channels := t\<rparr>) new old pre rest \<Longrightarrow>
    channels_ok (r\<lparr>run_channels := t\<lparr>GChannelsInitialized := b\<rparr>\<rparr>) new old pre rest"
  by (cases "run_iter r"; cases "the (run_iter r)") (simp_all add: channels_ok_def)

lemma channel_step_ok:
  "channel_step r r' \<Longrightarrow> channels_ok r new old pre rest \<Longrightarrow> \<exists>new old pre rest. channels_ok r' new old pre rest"
proof (induction rule: channel_step.induct)
  case (set_up n r name readonly)
  then show ?case using step_set_up by blast
next
  case (toggle_name name b r e s)
  have l: "chans_from (ch_at (run_channels r)) (GNewChannelList (run_channels r)) new" "chans_from (ch_at (run_channels r)) (GHeadChannel (run_channels r)) old"
    using toggle_name.prems by (simp_all add: channels_ok_def)
  have "same_lists (run_channels r) s"
    using toggle_name.hyps FindChannel_spec [OF l, of name] Toggle_same [of "run_channels r" b]
    by (auto simp: FChannel_ToggleName_def split: if_splits option.splits) (metis snd_conv)+
  then show ?case using channels_ok_same [OF toggle_name.prems] by blast
next
  case (toggle_all b r s)
  have l: "chans_from (ch_at (run_channels r)) (GNewChannelList (run_channels r)) new" "chans_from (ch_at (run_channels r)) (GHeadChannel (run_channels r)) old"
    using toggle_all.prems by (simp_all add: channels_ok_def)
  have "same_lists (run_channels r) s" using ToggleAll_spec [OF l, of b] toggle_all.hyps by auto
  then show ?case using channels_ok_same [OF toggle_all.prems] by blast
next
  case (initialize r s)
  have l: "chans_from (ch_at (run_channels r)) (GNewChannelList (run_channels r)) new" "chans_from (ch_at (run_channels r)) (GHeadChannel (run_channels r)) old"
    using initialize.prems by (simp_all add: channels_ok_def)
  obtain t where t: "FChannel_ToggleAll False (run_channels r) = Some t" "same_lists (run_channels r) t" using ToggleAll_spec [OF l, of False] by blast
  then have "s = t\<lparr>GChannelsInitialized := True\<rparr>" using initialize.hyps by (simp add: FChannel_Initialize_def)
  then show ?case using same_initialized [OF t(2) channels_ok_same [OF initialize.prems t(2)]] by blast
next
  case (read_new r it s)
  then show ?case using step_read_new by blast
next
  case (announce r it c it')
  then show ?case using step_announce by blast
next
  case (destroy r it it')
  then show ?case using step_destroy by blast
qed

lemma channel_reach_ok: "channel_reach r r' \<Longrightarrow> channel_initial r \<Longrightarrow> \<exists>new old pre rest. channels_ok r' new old pre rest"
proof (induction rule: channel_reach.induct)
  case (start r)
  then have "channels_ok r [] [] [] []" by (simp add: channel_initial_def channels_ok_def)
  then show ?case by blast
next
  case (step r r' r'')
  then show ?case using channel_step_ok by blast
qed

text \<open>
  C23: However set-ups, toggles and the writer's announcements interleave, FindChannel returns. What
  it finds is a channel that was set up and whose name has the same hash; and it finds one whenever
  a channel was set up whose name agrees up to letter case, the suffix "Channel" and a final s, except
  while the writer announces: then the channels that it announces are on neither list, and a
  channel that is missed is one of these.
\<close>

theorem FindChannel_finds:
  assumes "channel_initial r" "channel_reach r q"
  shows "\<exists>c. FChannel_FindChannel name (run_channels q) = Some c \<and>
    (c \<noteq> 0 \<longrightarrow> c \<in> set (run_setups q) \<and> ch_hash (ch_at (run_channels q) c) = name_hash (ch_name (ch_at (run_channels q) c)) \<and>
       name_hash (ch_name (ch_at (run_channels q) c)) = name_hash name) \<and>
    (c = 0 \<longrightarrow> (\<forall>n. n \<in> set (run_setups q) \<and> canonical_name (ch_name (ch_at (run_channels q) n)) = canonical_name name \<longrightarrow>
       (\<exists>i0 i1 i2 xs. run_iter q = Some (i0, i1, i2) \<and> chans_from (ch_at (run_channels q)) i1 xs \<and> n \<in> set xs)))"
proof -
  obtain new old pre rest where ok: "channels_ok q new old pre rest" using channel_reach_ok [OF assms(2,1)] by blast
  let ?s = "run_channels q"
  have l: "chans_from (ch_at ?s) (GNewChannelList ?s) new" "chans_from (ch_at ?s) (GHeadChannel ?s) old"
    "\<forall>n \<in> set (run_setups q). ch_hash (ch_at ?s n) = name_hash (ch_name (ch_at ?s n))" "iter_ok ?s (run_iter q) pre rest"
    using ok by (simp_all add: channels_ok_def)
  note sets = channels_ok_sets(1) [OF ok]
  show ?thesis
  proof (cases "List.find (\<lambda>c. ch_hash (ch_at ?s c) = name_hash name) (new @ old)")
    case None
    then have none: "\<forall>n \<in> set (new @ old). ch_hash (ch_at ?s n) \<noteq> name_hash name" by (auto simp: find_None_iff)
    have "\<exists>i0 i1 i2 xs. run_iter q = Some (i0, i1, i2) \<and> chans_from (ch_at ?s) i1 xs \<and> n \<in> set xs"
      if n: "n \<in> set (run_setups q)" "canonical_name (ch_name (ch_at ?s n)) = canonical_name name" for n
    proof -
      have "ch_hash (ch_at ?s n) = name_hash name" using l(3) n by (simp add: name_hash_canonical)
      then have "n \<in> set (pre @ rest)" using none n(1) sets by auto
      then show ?thesis using l(4) by (cases "run_iter q"; cases "the (run_iter q)") auto
    qed
    then show ?thesis using FindChannel_spec [OF l(1,2), of name] None by auto
  next
    case (Some c)
    then have c: "c \<in> set (new @ old)" "ch_hash (ch_at ?s c) = name_hash name" by (metis (mono_tags, lifting) find_Some_iff nth_mem)+
    then have "c \<in> set (run_setups q)" "c \<noteq> 0" using sets ok by (auto simp: channels_ok_def)
    then show ?thesis using FindChannel_spec [OF l(1,2), of name] Some c(2) l(3) by (intro exI [of _ c]) simp
  qed
qed

text \<open>
  C21: When the writer is not announcing, every channel that was set up has been announced exactly
  once or is still on the list of new channels; and ToggleAll then reaches every channel that was
  set up, and no other, with one event each. While the writer announces, the channels it has still
  to announce are on neither list, and ToggleAll misses them.
\<close>

theorem channels_announced_once:
  assumes "channel_initial r" "channel_reach r q" "run_iter q = None"
  shows "\<exists>new t. chans_from (ch_at (run_channels q)) (GNewChannelList (run_channels q)) new \<and> distinct (run_setups q) \<and>
    mset (run_announced q) + mset new = mset (run_setups q) \<and>
    FChannel_ToggleAll b (run_channels q) = Some t \<and>
    (\<forall>n. ch_enabled (ch_at t n) = (if n \<in> set (run_setups q) then (if b then 1 else -1) else ch_enabled (ch_at (run_channels q) n))) \<and>
    length (ch_log t) = length (ch_log (run_channels q)) + length (run_setups q)"
proof -
  obtain new old pre rest where ok: "channels_ok q new old pre rest" using channel_reach_ok [OF assms(2,1)] by blast
  have l: "chans_from (ch_at (run_channels q)) (GNewChannelList (run_channels q)) new" "chans_from (ch_at (run_channels q)) (GHeadChannel (run_channels q)) old"
    "pre = []" "rest = []" "mset (run_announced q) = mset old" "mset (run_setups q) = mset new + mset old" "distinct (run_setups q)"
    using ok assms(3) by (simp_all add: channels_ok_def)
  obtain t where t: "FChannel_ToggleAll b (run_channels q) = Some t"
    "\<forall>n. ch_enabled (ch_at t n) = (if n \<in> set (new @ old) then (if b then 1 else -1) else ch_enabled (ch_at (run_channels q) n))"
    "ch_log t = ch_log (run_channels q) @ map (\<lambda>n. Ev_ChannelToggle (ch_hash (ch_at (run_channels q) n)) b) (new @ old)"
    using ToggleAll_spec [OF l(1,2), of b] by blast
  have "set (run_setups q) = set (new @ old)" using channels_ok_sets(1) [OF ok] l(3,4) by simp
  moreover have "length (run_setups q) = length (new @ old)" using l(6) by (metis mset_append mset_eq_length)
  ultimately show ?thesis using t l by (intro exI [of _ new] exI [of _ t]) (simp add: add.commute)
qed

definition sample_run :: channel_run where
  "sample_run = \<lparr>run_channels = \<lparr>ch_at = \<lambda>_. \<lparr>ch_next = 0, ch_name = [], ch_len = 0, ch_hash = 0, ch_enabled = 0, ch_readonly = False\<rparr>,
     GHeadChannel = 0, GNewChannelList = 0, GChannelsInitialized = False, ch_log = []\<rparr>, run_iter = None, run_announced = [], run_setups = []\<rparr>"

definition sample_run1 :: channel_run where
  "sample_run1 = sample_run\<lparr>run_channels := FChannel_Setup 9 [76, 111, 103] False (run_channels sample_run), run_setups := [9]\<rparr>"

lemma sample_run1_reach: "channel_initial sample_run \<and> channel_reach sample_run sample_run1 \<and> run_iter sample_run1 = None"
proof -
  have "channel_step sample_run sample_run1"
    using channel_step.set_up [of 9 sample_run "[76, 111, 103]" False] by (simp add: sample_run1_def sample_run_def)
  then show ?thesis using channel_reach.step [OF channel_reach.start] by (simp add: channel_initial_def sample_run1_def sample_run_def)
qed

text \<open>The name "Log" is found as "LOGSChannel".\<close>

lemma FindChannel_finds_witness:
  "\<exists>c. FChannel_FindChannel [76, 79, 71, 83, 67, 104, 97, 110, 110, 101, 108] (run_channels sample_run1) = Some c \<and> c \<noteq> 0"
proof -
  have s: "channel_initial sample_run" "channel_reach sample_run sample_run1" "run_iter sample_run1 = None" using sample_run1_reach by simp_all
  have "9 \<in> set (run_setups sample_run1)" by (simp add: sample_run1_def)
  moreover have "canonical_name (ch_name (ch_at (run_channels sample_run1) 9)) = canonical_name [76, 79, 71, 83, 67, 104, 97, 110, 110, 101, 108]"
    by code_simp
  ultimately show ?thesis
    using FindChannel_finds [OF s(1,2), of "[76, 79, 71, 83, 67, 104, 97, 110, 110, 101, 108]"] s(3) by (metis option.distinct(1))
qed

lemma channels_announced_once_witness:
  "\<exists>t. FChannel_ToggleAll True (run_channels sample_run1) = Some t \<and> ch_enabled (ch_at t 9) = 1"
proof -
  have s: "channel_initial sample_run" "channel_reach sample_run sample_run1" "run_iter sample_run1 = None" using sample_run1_reach by simp_all
  have "9 \<in> set (run_setups sample_run1)" by (simp add: sample_run1_def)
  then show ?thesis using channels_announced_once [OF s, of True] by auto
qed

text \<open>Without other threads in between, Writer_AnnounceChannels announces all the new channels.\<close>

lemma Writer_AnnounceChannels_spec:
  assumes "chans_from (ch_at s) (GNewChannelList s) new" "chans_from (ch_at s) (GHeadChannel s) old" "distinct (new @ old)"
  shows "\<exists>t. Writer_AnnounceChannels s = Some t \<and> GNewChannelList t = 0 \<and> chans_from (ch_at t) (GHeadChannel t) (new @ old) \<and>
    ch_log t = ch_log s @ map (\<lambda>n. Ev_ChannelAnnounce (ch_hash (ch_at s n)) (FChannel_IsEnabled (ch_at s n)) (ch_readonly (ch_at s n))
       (take (ch_len (ch_at s n)) (ch_name (ch_at s n)))) new"
proof -
  let ?i = "GNewChannelList s" and ?s = "s\<lparr>GNewChannelList := 0\<rparr>"
  have rd: "FChannel_ReadNew s = ((?i, ?i, ?i), ?s)" by (simp add: FChannel_ReadNew_def Let_def)
  have n: "chans_from (ch_at ?s) ?i new" using assms(1) by simp
  have e: "ch_at ?s = ch_at s" "ch_log ?s = ch_log s" by simp_all
  obtain t where t: "announce_loop (?i, ?i, ?i) ?s = Some ((0, ?i, if new = [] \<or> butlast new = [] then ?i else last new), t)"
    "t = ?s\<lparr>ch_log := ch_log t\<rparr>" "ch_log t = ch_log s @ map (\<lambda>n. Ev_ChannelAnnounce (ch_hash (ch_at s n)) (FChannel_IsEnabled (ch_at s n)) (ch_readonly (ch_at s n))
       (take (ch_len (ch_at s n)) (ch_name (ch_at s n)))) new"
    using announce_loop_spec [OF n, of ?i ?i] unfolding e by blast
  have f: "ch_at t = ch_at s" "GHeadChannel t = GHeadChannel s" "GNewChannelList t = 0" by (subst t(2), simp)+
  have w: "Writer_AnnounceChannels s = Some (Iter_destroy (0, ?i, if new = [] \<or> butlast new = [] then ?i else last new) t)"
    by (simp add: Writer_AnnounceChannels_def rd t(1))
  show ?thesis
  proof (cases "new = []")
    case True
    then have "?i = 0" using assms(1) by simp
    then show ?thesis using w assms(2) True f t(3) by (simp add: Iter_destroy_def)
  next
    case False
    have e: "(if new = [] \<or> butlast new = [] then ?i else last new) = last new"
      using assms(1) False by (cases new) auto
    have "chans_from (ch_at t) ?i new" "chans_from (ch_at t) (GHeadChannel t) old" using assms f by simp_all
    note d = Iter_destroy_spec(1) [OF this assms(3) False]
    have "ch_log (Iter_destroy (0, ?i, last new) t) = ch_log t" by (simp add: Iter_destroy_def upd_channel_def)
    then show ?thesis using w d f t(3) unfolding e by (simp add: Iter_destroy_keeps)
  qed
qed

end
