(* ===== verification/Control.thy ===== *)
theory Control
  imports Prelude "HOL-Library.Multiset"
begin

text \<open>
  The control port of the trace log (Private/Trace/Control.cpp): the table of commands, the
  states of the listening socket, and the parser of the commands that a server sends. The
  sockets are parameters; what a command does is a function on a state of any type.
\<close>

section \<open>Commands\<close>

record 'w control_command =
  cmd_hash :: u32
  cmd_thunk :: "u8 list list \<Rightarrow> 'w \<Rightarrow> 'w"

definition FControlCommands_Max :: nat where "FControlCommands_Max = 8"

text \<open>Characters are signed, and are widened with their sign.\<close>

fun control_hash :: "u32 \<Rightarrow> u8 list \<Rightarrow> u32" where
  "control_hash h [] = h"
| "control_hash h (c # cs) = control_hash ((h * 33) XOR scast c) cs"

definition Writer_ControlHash :: "u8 list \<Rightarrow> u32" where
  "Writer_ControlHash word = control_hash 5381 word"

definition Writer_ControlAddCommand ::
  "u8 list \<Rightarrow> (u8 list list \<Rightarrow> 'w \<Rightarrow> 'w) \<Rightarrow> 'w control_command list \<Rightarrow> bool \<times> 'w control_command list" where
  "Writer_ControlAddCommand name thunk cmds =
     (if length cmds \<ge> FControlCommands_Max then (False, cmds)
      else (True, cmds @ [\<lparr>cmd_hash = Writer_ControlHash name, cmd_thunk = thunk\<rparr>]))"

definition Writer_ControlDispatch :: "'w control_command list \<Rightarrow> u8 list list \<Rightarrow> 'w \<Rightarrow> bool \<times> 'w" where
  "Writer_ControlDispatch cmds argv w =
     (case argv of [] \<Rightarrow> (False, w)
      | word # args \<Rightarrow>
          (case List.find (\<lambda>c. cmd_hash c = Writer_ControlHash word) cmds of
             Some c \<Rightarrow> (True, cmd_thunk c args w)
           | None \<Rightarrow> (False, w)))"

section \<open>The parser\<close>

datatype parse_state = CrLfSkip | WhitespaceSkip | Word

text \<open>The buffer up to Head, the arguments as offsets into it, and the offset Spent.\<close>

record control_parse =
  cp_bytes :: "u8 list"
  cp_state :: parse_state
  cp_args :: "nat list"
  cp_spent :: nat

definition is_newline :: "u8 \<Rightarrow> bool" where "is_newline c \<longleftrightarrow> c = 10 \<or> c = 13"
definition is_blank :: "u8 \<Rightarrow> bool" where "is_blank c \<longleftrightarrow> c = 32 \<or> c = 0"

text \<open>The C string that begins at an offset.\<close>

definition c_string :: "u8 list \<Rightarrow> nat \<Rightarrow> u8 list" where
  "c_string b i = takeWhile (\<lambda>c. c \<noteq> 0) (drop i b)"

definition parse_word :: "(u8 list list \<Rightarrow> 'w \<Rightarrow> 'w) \<Rightarrow> nat \<Rightarrow> control_parse \<times> 'w \<Rightarrow> control_parse \<times> 'w" where
  "parse_word dispatch i = (\<lambda>(p, w).
     let c = cp_bytes p ! i
     in if is_blank c then (p\<lparr>cp_bytes := (cp_bytes p)[i := 0], cp_state := WhitespaceSkip\<rparr>, w)
        else if is_newline c then
          let b = (cp_bytes p)[i := 0]
          in (\<lparr>cp_bytes = b, cp_state = CrLfSkip, cp_args = [], cp_spent = i + 1\<rparr>,
              dispatch (map (c_string b) (cp_args p)) w)
        else (p, w))"

definition parse_blank :: "(u8 list list \<Rightarrow> 'w \<Rightarrow> 'w) \<Rightarrow> nat \<Rightarrow> control_parse \<times> 'w \<Rightarrow> control_parse \<times> 'w" where
  "parse_blank dispatch i = (\<lambda>(p, w).
     if is_blank (cp_bytes p ! i) then (p, w)
     else let p = (if length (cp_args p) < 16 then p\<lparr>cp_args := cp_args p @ [i]\<rparr> else p)
          in parse_word dispatch i (p\<lparr>cp_state := Word\<rparr>, w))"

definition parse_char :: "(u8 list list \<Rightarrow> 'w \<Rightarrow> 'w) \<Rightarrow> nat \<Rightarrow> control_parse \<times> 'w \<Rightarrow> control_parse \<times> 'w" where
  "parse_char dispatch i = (\<lambda>(p, w).
     (case cp_state p of
        CrLfSkip \<Rightarrow> if is_newline (cp_bytes p ! i) then (p, w)
                   else parse_blank dispatch i (p\<lparr>cp_state := WhitespaceSkip\<rparr>, w)
      | WhitespaceSkip \<Rightarrow> parse_blank dispatch i (p, w)
      | Word \<Rightarrow> parse_word dispatch i (p, w)))"

definition parse_buffer :: "(u8 list list \<Rightarrow> 'w \<Rightarrow> 'w) \<Rightarrow> u8 list \<Rightarrow> 'w \<Rightarrow> control_parse \<times> 'w" where
  "parse_buffer dispatch b w =
     fold (parse_char dispatch) [0..<length b] (\<lparr>cp_bytes = b, cp_state = CrLfSkip, cp_args = [], cp_spent = 0\<rparr>, w)"

section \<open>Receiving\<close>

text \<open>
  The data of the socket comes in pieces; no more data is the empty list, and a piece without
  data stands for a failed read. A read takes at most the room in the buffer, and fails when
  there is none. The result is whether the socket is still open, and the state; data that is
  left in the buffer, a local variable, is dropped.
\<close>

definition control_buffer_size :: nat where "control_buffer_size = 512"

function control_recv ::
  "(u8 list list \<Rightarrow> 'w \<Rightarrow> 'w) \<Rightarrow> u8 list \<Rightarrow> u8 list list \<Rightarrow> 'w \<Rightarrow> bool \<times> u8 list list \<times> 'w" where
  "control_recv dispatch buf pieces w =
     (case pieces of [] \<Rightarrow> (True, [], w)
      | x # xs \<Rightarrow>
          let size = control_buffer_size - length buf;
              got = take size x
          in if got = [] then (False, pieces, w)
             else let (p, w) = parse_buffer dispatch (buf @ got) w
               in control_recv dispatch (drop (cp_spent p) (cp_bytes p)) (if size < length x then drop size x # xs else xs) w)"
  by auto
termination
  by (relation "measure (\<lambda>(d, buf, pieces, w). sum_list (map length pieces))") (auto simp: min_def split: if_splits)

declare control_recv.simps [simp del]

section \<open>The control socket\<close>

datatype EControlState = Closed | Listening | Accepted | Failed

datatype control_event = Ev_listen u16 u64 | Ev_accept int u64 | Ev_close u64

text \<open>
  TcpSocketListen, TcpSocketAccept and the data that a socket has, which may depend on all that
  was done before, and the clock.
\<close>

record control_env =
  tcp_listen :: "control_event list \<Rightarrow> u16 \<Rightarrow> u64"
  tcp_accept :: "control_event list \<Rightarrow> u64 \<Rightarrow> int \<times> u64"
  tcp_data :: "control_event list \<Rightarrow> u64 \<Rightarrow> u8 list list"
  timestamp :: "control_event list \<Rightarrow> u64"

record 'w control =
  GControlCommands :: "'w control_command list"
  GControlListen :: u64
  GControlSocket :: u64
  GControlState :: EControlState
  GControlPort :: u16
  control_log :: "control_event list"
  control_world :: 'w

definition TcpSocketListen :: "control_env \<Rightarrow> u16 \<Rightarrow> 'w control \<Rightarrow> 'w control" where
  "TcpSocketListen env port s =
     (let h = tcp_listen env (control_log s) port
      in s\<lparr>GControlListen := h, control_log := control_log s @ [Ev_listen port h]\<rparr>)"

fun listen_loop :: "control_env \<Rightarrow> nat \<Rightarrow> u32 \<Rightarrow> 'w control \<Rightarrow> 'w control" where
  "listen_loop env 0 seed s = s"
| "listen_loop env (Suc n) seed s =
     (if GControlListen s \<noteq> 0 then s
      else let port = ucast ((seed AND 0x1fff) + 0x8000);
               s = TcpSocketListen env port s
           in if GControlListen s \<noteq> 0 then s\<lparr>GControlPort := port\<rparr>
              else listen_loop env n (seed * 13) s)"

definition Writer_ControlListen :: "control_env \<Rightarrow> 'w control \<Rightarrow> bool \<times> 'w control" where
  "Writer_ControlListen env s =
     (let s = TcpSocketListen env (GControlPort s) s;
          s = (if GControlListen s = 0 then listen_loop env 10 (ucast (timestamp env (control_log s))) s else s)
      in if GControlListen s = 0 then (False, s\<lparr>GControlState := Failed\<rparr>)
         else (True, s\<lparr>GControlState := Listening\<rparr>))"

definition control_close :: "u64 \<Rightarrow> 'w control \<Rightarrow> 'w control" where
  "control_close h s = s\<lparr>control_log := control_log s @ [Ev_close h]\<rparr>"

definition Writer_ControlAccept :: "control_env \<Rightarrow> 'w control \<Rightarrow> bool \<times> 'w control" where
  "Writer_ControlAccept env s =
     (case tcp_accept env (control_log s) (GControlListen s) of (r, socket) \<Rightarrow>
        let s = s\<lparr>control_log := control_log s @ [Ev_accept r socket]\<rparr>
        in if r \<le> 0 then
             (False, if r = -1 then (control_close (GControlListen s) s)\<lparr>GControlListen := 0, GControlState := Failed\<rparr> else s)
           else (True, s\<lparr>GControlState := Accepted, GControlSocket := socket\<rparr>))"

definition Writer_ControlRecv :: "control_env \<Rightarrow> 'w control \<Rightarrow> 'w control" where
  "Writer_ControlRecv env s =
     (case control_recv (\<lambda>argv w. snd (Writer_ControlDispatch (GControlCommands s) argv w)) []
             (tcp_data env (control_log s) (GControlSocket s)) (control_world s) of (open, rest, w) \<Rightarrow>
        let s = s\<lparr>control_world := w\<rparr>
        in if open then s
           else (control_close (GControlSocket s) s)\<lparr>GControlSocket := 0, GControlState := Listening\<rparr>)"

definition Writer_UpdateControl :: "control_env \<Rightarrow> 'w control \<Rightarrow> 'w control" where
  "Writer_UpdateControl env s =
     (let accepted = (\<lambda>s. Writer_ControlRecv env s);
          listening = (\<lambda>s. case Writer_ControlAccept env s of (ok, s) \<Rightarrow> if ok then accepted s else s)
      in case GControlState s of
           Closed \<Rightarrow> (case Writer_ControlListen env s of (ok, s) \<Rightarrow> if ok then listening s else s)
         | Listening \<Rightarrow> listening s
         | Accepted \<Rightarrow> accepted s
         | Failed \<Rightarrow> s)"

definition Writer_ShutdownControl :: "'w control \<Rightarrow> 'w control" where
  "Writer_ShutdownControl s =
     (if GControlListen s \<noteq> 0 then (control_close (GControlListen s) s)\<lparr>GControlListen := 0\<rparr> else s)"

section \<open>The commands of the trace log\<close>

text \<open>What the commands ask for, in order.\<close>

datatype control_action = Act_SendTo "u8 list" | Act_WriteTo "u8 list" | Act_Stop | Act_Toggle "u8 list" bool

text \<open>The tokens of strtok: the longest pieces without the separator, the empty ones left out.\<close>

fun tokens :: "u8 \<Rightarrow> u8 list \<Rightarrow> u8 list \<Rightarrow> u8 list list" where
  "tokens sep cur [] = (if cur = [] then [] else [cur])"
| "tokens sep cur (c # cs) =
     (if c = sep then (if cur = [] then tokens sep [] cs else cur # tokens sep [] cs) else tokens sep (cur @ [c]) cs)"

definition cmd_SendTo :: "u8 list list \<Rightarrow> control_action list \<Rightarrow> control_action list" where
  "cmd_SendTo argv w = (case argv of [] \<Rightarrow> w | a # _ \<Rightarrow> w @ [Act_SendTo a])"

definition cmd_WriteTo :: "u8 list list \<Rightarrow> control_action list \<Rightarrow> control_action list" where
  "cmd_WriteTo argv w = (case argv of [] \<Rightarrow> w | a # _ \<Rightarrow> w @ [Act_WriteTo a])"

definition cmd_Stop :: "u8 list list \<Rightarrow> control_action list \<Rightarrow> control_action list" where
  "cmd_Stop argv w = w @ [Act_Stop]"

definition cmd_ToggleChannels :: "u8 list list \<Rightarrow> control_action list \<Rightarrow> control_action list" where
  "cmd_ToggleChannels argv w =
     (case argv of a # b # _ \<Rightarrow>
        let state = (case b of c # _ \<Rightarrow> c \<noteq> 48 | [] \<Rightarrow> True)
        in w @ map (\<lambda>n. Act_Toggle n state) (tokens 44 [] a)
      | _ \<Rightarrow> w)"

definition ascii :: "string \<Rightarrow> u8 list" where
  "ascii s = map (\<lambda>c. of_nat (of_char c)) s"

definition Writer_InitializeControl :: "control_action list control_command list \<Rightarrow> control_action list control_command list" where
  "Writer_InitializeControl cmds =
     (let cmds = snd (Writer_ControlAddCommand (ascii ''SendTo'') cmd_SendTo cmds);
          cmds = snd (Writer_ControlAddCommand (ascii ''WriteTo'') cmd_WriteTo cmds);
          cmds = snd (Writer_ControlAddCommand (ascii ''Stop'') cmd_Stop cmds)
      in snd (Writer_ControlAddCommand (ascii ''ToggleChannels'') cmd_ToggleChannels cmds))"

section \<open>What the parser computes\<close>

text \<open>
  The words of a line: the complete ones and the one that has begun. A line that ends with a
  blank has an empty word at its end; only the first 16 words count.
\<close>

definition word_step :: "u8 list list \<times> u8 list option \<Rightarrow> u8 \<Rightarrow> u8 list list \<times> u8 list option" where
  "word_step = (\<lambda>(ws, cur) c.
     if is_blank c then (case cur of None \<Rightarrow> (ws, None) | Some w \<Rightarrow> (ws @ [w], None))
     else (ws, Some (case cur of None \<Rightarrow> [c] | Some w \<Rightarrow> w @ [c])))"

definition line_words :: "u8 list \<Rightarrow> u8 list list \<times> u8 list option" where
  "line_words l = foldl word_step ([], None) l"

definition line_args :: "u8 list \<Rightarrow> u8 list list" where
  "line_args l = (case line_words l of (ws, cur) \<Rightarrow> take 16 (ws @ [case cur of None \<Rightarrow> [] | Some w \<Rightarrow> w]))"

text \<open>The pending bytes and the commands after one more byte; line ends before a line are skipped.\<close>

definition line_step :: "u8 list \<times> u8 list list list \<Rightarrow> u8 \<Rightarrow> u8 list \<times> u8 list list list" where
  "line_step = (\<lambda>(acc, cmds) c.
     let l = dropWhile is_newline acc
     in if is_newline c \<and> l \<noteq> [] then ([], cmds @ [line_args l]) else (acc @ [c], cmds))"

definition line_run :: "u8 list \<Rightarrow> u8 list \<times> u8 list list list" where
  "line_run bs = foldl line_step ([], []) bs"

lemma line_run_simps [simp]: "line_run [] = ([], [])" "line_run (bs @ [c]) = line_step (line_run bs) c"
  by (simp_all add: line_run_def)

lemma line_words_simps [simp]: "line_words [] = ([], None)" "line_words (l @ [c]) = word_step (line_words l) c"
  by (simp_all add: line_words_def)

lemma newline_not_blank: "is_newline c \<Longrightarrow> \<not> is_blank c"
  by (auto simp: is_newline_def is_blank_def)

text \<open>A word in the buffer, ended by a zero.\<close>

definition word_in :: "u8 list \<Rightarrow> nat \<Rightarrow> u8 list \<Rightarrow> bool" where
  "word_in b i w \<longleftrightarrow> i + length w < length b \<and> (\<forall>k < length w. b ! (i + k) = w ! k) \<and> b ! (i + length w) = 0 \<and> 0 \<notin> set w"

lemma takeWhile_word: "0 \<notin> set w \<Longrightarrow> takeWhile (\<lambda>c. c \<noteq> 0) (w @ 0 # r) = (w :: u8 list)"
  by (induction w) auto

lemma c_string_word: "word_in b i w \<Longrightarrow> c_string b i = w"
proof -
  assume w: "word_in b i w"
  have "drop i b = w @ 0 # drop (Suc (i + length w)) b"
    by (rule nth_equalityI) (use w in \<open>auto simp: word_in_def nth_append nth_Cons' add.assoc\<close>)
  then show ?thesis using w by (simp add: c_string_def word_in_def takeWhile_word)
qed

lemma word_in_later: "word_in b i w \<Longrightarrow> i + length w < j \<Longrightarrow> word_in (b[j := x]) i w"
  by (auto simp: word_in_def nth_list_update)

text \<open>The buffer and the arguments after the bytes up to i, with the words found so far.\<close>

definition words_in :: "u8 list \<Rightarrow> nat \<Rightarrow> u8 list list \<Rightarrow> u8 list option \<Rightarrow> control_parse \<Rightarrow> bool" where
  "words_in b i ws cur p \<longleftrightarrow> length (cp_bytes p) = length b \<and> drop i (cp_bytes p) = drop i b \<and>
     (\<exists>ss. cp_args p = take 16 ss \<and> length ss = length ws + (if cur = None then 0 else 1) \<and>
        (\<forall>k < length ws. ss ! k + length (ws ! k) < i \<and> word_in (cp_bytes p) (ss ! k) (ws ! k)) \<and>
        (\<forall>w. cur = Some w \<longrightarrow> ss ! length ws + length w = i \<and> (\<forall>k < length w. cp_bytes p ! (ss ! length ws + k) = w ! k) \<and> 0 \<notin> set w))"

lemma words_at:
  assumes "words_in b i ws cur p" "i < length b"
  shows "cp_bytes p ! i = b ! i \<and> drop (Suc i) (cp_bytes p) = drop (Suc i) b"
proof -
  have e: "length (cp_bytes p) = length b" "drop i (cp_bytes p) = drop i b" using assms by (simp_all add: words_in_def)
  have "cp_bytes p ! i # drop (Suc i) (cp_bytes p) = b ! i # drop (Suc i) b"
    using Cons_nth_drop_Suc [of i b] Cons_nth_drop_Suc [of i "cp_bytes p"] e assms(2) by simp
  then show ?thesis by simp
qed

lemma words_begin:
  assumes "words_in b i ws None p"
  shows "words_in b i ws (Some []) (if length (cp_args p) < 16 then p\<lparr>cp_args := cp_args p @ [i]\<rparr> else p)"
proof -
  obtain ss where ss: "cp_args p = take 16 ss" "length ss = length ws"
    "\<forall>k < length ws. ss ! k + length (ws ! k) < i \<and> word_in (cp_bytes p) (ss ! k) (ws ! k)"
    using assms unfolding words_in_def by auto
  have "length (cp_args p) < 16 \<longleftrightarrow> length ss < 16" "take 16 (ss @ [i]) = (if length ss < 16 then take 16 ss @ [i] else take 16 ss)"
    by (auto simp: ss(1) min_def)
  then show ?thesis using assms ss unfolding words_in_def
    by (auto intro!: exI [of _ "ss @ [i]"] simp: nth_append)
qed

lemma words_blank:
  assumes w: "words_in b i ws (Some w) p" and i: "i < length b"
  shows "words_in b (Suc i) (ws @ [w]) None (p\<lparr>cp_bytes := (cp_bytes p)[i := 0]\<rparr>)"
proof -
  obtain ss where ss: "cp_args p = take 16 ss" "length ss = length ws + 1" "length (cp_bytes p) = length b"
    "\<forall>k < length ws. ss ! k + length (ws ! k) < i \<and> word_in (cp_bytes p) (ss ! k) (ws ! k)"
    "ss ! length ws + length w = i" "\<forall>k < length w. cp_bytes p ! (ss ! length ws + k) = w ! k" "0 \<notin> set w"
    using w unfolding words_in_def by auto
  have "word_in ((cp_bytes p)[i := 0]) (ss ! length ws) w" using ss(3,5,6,7) i by (auto simp: word_in_def nth_list_update)
  moreover have "ss ! k + length (ws ! k) < Suc i \<and> word_in ((cp_bytes p)[i := 0]) (ss ! k) (ws ! k)" if "k < length ws" for k
    using ss(4) word_in_later that by fastforce
  ultimately show ?thesis
    using ss words_at [OF w i] unfolding words_in_def by (auto intro!: exI [of _ ss] simp: nth_append less_Suc_eq)
qed

lemma words_more:
  assumes w: "words_in b i ws (Some w) p" and i: "i < length b" and c: "\<not> is_blank (b ! i)"
  shows "words_in b (Suc i) ws (Some (w @ [b ! i])) p"
proof -
  obtain ss where ss: "cp_args p = take 16 ss" "length ss = length ws + 1" "length (cp_bytes p) = length b"
    "\<forall>k < length ws. ss ! k + length (ws ! k) < i \<and> word_in (cp_bytes p) (ss ! k) (ws ! k)"
    "ss ! length ws + length w = i" "\<forall>k < length w. cp_bytes p ! (ss ! length ws + k) = w ! k" "0 \<notin> set w"
    using w unfolding words_in_def by auto
  have "b ! i \<noteq> 0" using c by (auto simp: is_blank_def)
  then show ?thesis using ss words_at [OF w i] unfolding words_in_def
    by (auto intro!: exI [of _ ss] simp: nth_append less_Suc_eq)
qed

lemma words_skip: "words_in b i ws None p \<Longrightarrow> i < length b \<Longrightarrow> words_in b (Suc i) ws None p"
  using words_at [of b i ws None p] unfolding words_in_def by fastforce

lemma words_end:
  assumes w: "words_in b i ws (Some w) p" and i: "i < length b"
  shows "map (c_string ((cp_bytes p)[i := 0])) (cp_args p) = take 16 (ws @ [w])"
proof -
  obtain ss where ss: "cp_args p = take 16 ss" "length ss = length ws + 1"
    "\<forall>k < Suc (length ws). word_in ((cp_bytes p)[i := 0]) (ss ! k) ((ws @ [w]) ! k)"
    using words_blank [OF w i] unfolding words_in_def by auto
  have "map (c_string ((cp_bytes p)[i := 0])) ss = ws @ [w]"
    by (rule nth_equalityI) (use ss(2,3) c_string_word in \<open>auto simp del: nth_append\<close>)
  then show ?thesis unfolding ss(1) by (metis take_map)
qed


definition alike :: "u8 list \<Rightarrow> u8 list \<Rightarrow> bool" where
  "alike x y \<longleftrightarrow> list_all2 (\<lambda>c d. c = d \<or> is_blank c \<and> is_blank d) x y"

lemma alike_simps [simp]: "alike [] []" "alike x x" "alike x y \<Longrightarrow> c = d \<or> is_blank c \<and> is_blank d \<Longrightarrow> alike (x @ [c]) (y @ [d])"
  by (auto simp: alike_def intro: list_all2_appendI list.rel_refl)

text \<open>The parser after the first i bytes of the buffer b, of which acc are pending.\<close>

definition parsed :: "u8 list \<Rightarrow> nat \<Rightarrow> u8 list \<Rightarrow> control_parse \<Rightarrow> bool" where
  "parsed b i acc p \<longleftrightarrow> cp_spent p + length acc = i \<and> alike acc (take (length acc) (drop (cp_spent p) (cp_bytes p))) \<and>
     words_in b i (fst (line_words (dropWhile is_newline acc))) (snd (line_words (dropWhile is_newline acc))) p \<and>
     cp_state p = (if dropWhile is_newline acc = [] then CrLfSkip
       else if snd (line_words (dropWhile is_newline acc)) = None then WhitespaceSkip else Word)"

lemma pending_more:
  assumes s: "s + length acc = i" "alike acc (take (length acc) (drop s xs))" and i: "i < length xs"
    and c: "c = ys ! i \<or> is_blank c \<and> is_blank (ys ! i)" and ys: "take i ys = take i xs" "length ys = length xs"
  shows "alike (acc @ [c]) (take (length (acc @ [c])) (drop s ys))"
proof -
  have "take (Suc (length acc)) (drop s ys) = take (length acc) (drop s ys) @ [drop s ys ! length acc]"
    by (rule take_Suc_conv_app_nth) (use s i ys in auto)
  moreover have "take (length acc) (drop s ys) = take (length acc) (drop s xs)"
    using ys(1) s(1) by (metis add.commute take_drop)
  ultimately show ?thesis using s c i ys by (simp add: add.commute)
qed

lemma words_in_state [simp]: "words_in b i ws cur (p\<lparr>cp_state := t\<rparr>) = words_in b i ws cur p"
  by (simp add: words_in_def)

lemma parse_word_step:
  assumes w: "words_in b i ws (Some x) p" and i: "i < length b"
  shows "if is_newline (b ! i) then parse_word d i (p, w) = (\<lparr>cp_bytes = (cp_bytes p)[i := 0], cp_state = CrLfSkip, cp_args = [], cp_spent = i + 1\<rparr>,
       d (take 16 (ws @ [x])) w)
     else \<exists>p'. parse_word d i (p, w) = (p', w) \<and> words_in b (Suc i) (fst (word_step (ws, Some x) (b ! i))) (snd (word_step (ws, Some x) (b ! i))) p' \<and>
       cp_spent p' = cp_spent p \<and> cp_state p' = (if is_blank (b ! i) then WhitespaceSkip else cp_state p) \<and>
       cp_bytes p' = (if is_blank (b ! i) then (cp_bytes p)[i := 0] else cp_bytes p)"
  using words_at [OF w i] words_blank [OF w i] words_more [OF w i] words_end [OF w i] newline_not_blank
  by (auto simp: parse_word_def word_step_def Let_def)

text \<open>The state before the word case: a word has begun at or before i.\<close>

lemma parse_to_word:
  assumes p: "parsed b i acc p" and i: "i < length b" and c: "\<not> is_newline (b ! i) \<or> dropWhile is_newline acc \<noteq> []"
    and nb: "\<not> is_blank (b ! i) \<or> snd (line_words (dropWhile is_newline acc)) \<noteq> None"
  defines "ws \<equiv> fst (line_words (dropWhile is_newline acc))"
    and "x \<equiv> (case snd (line_words (dropWhile is_newline acc)) of None \<Rightarrow> [] | Some x \<Rightarrow> x)"
  shows "\<exists>p'. parse_char d i (p, w) = parse_word d i (p', w) \<and> words_in b i ws (Some x) p' \<and> cp_spent p' = cp_spent p \<and>
    cp_bytes p' = cp_bytes p \<and> cp_state p' = Word"
proof -
  let ?l = "dropWhile is_newline acc"
  have w: "words_in b i ws (snd (line_words ?l)) p" and st: "cp_state p = (if ?l = [] then CrLfSkip
       else if snd (line_words ?l) = None then WhitespaceSkip else Word)" using p by (simp_all add: parsed_def ws_def)
  have at: "cp_bytes p ! i = b ! i" using words_at [OF w i] by simp
  show ?thesis
  proof (cases "snd (line_words ?l)")
    case (Some y)
    then have "?l \<noteq> []" by (metis line_words_simps(1) option.distinct(1) snd_conv)
    then show ?thesis using Some w st by (intro exI [of _ p]) (simp add: parse_char_def x_def)
  next
    case None
    have c2: "\<not> is_blank (b ! i)" using nb None by simp
    let ?p = "(if length (cp_args p) < 16 then p\<lparr>cp_args := cp_args p @ [i]\<rparr> else p)"
    have b: "words_in b i ws (Some []) ?p" using words_begin [of b i ws p] w None by simp
    have pb: "parse_blank d i (p\<lparr>cp_state := t\<rparr>, w) = parse_word d i (?p\<lparr>cp_state := Word\<rparr>, w)" for t
      using c2 at by (simp add: parse_blank_def)
    have "parse_blank d i (p, w) = parse_word d i (?p\<lparr>cp_state := Word\<rparr>, w)"
      using c2 at by (simp add: parse_blank_def)
    then have "parse_char d i (p, w) = parse_word d i (?p\<lparr>cp_state := Word\<rparr>, w)"
      using st None c at pb by (auto simp: parse_char_def)
    then show ?thesis using b None by (intro exI [of _ "?p\<lparr>cp_state := Word\<rparr>"]) (simp add: x_def)
  qed
qed

lemma parse_line_end:
  assumes p: "parsed b i acc p" and i: "i < length b" and c: "is_newline (b ! i)" "dropWhile is_newline acc \<noteq> []"
  shows "\<exists>p'. parse_char d i (p, w) = (p', d (line_args (dropWhile is_newline acc)) w) \<and> parsed b (Suc i) [] p'"
proof -
  let ?l = "dropWhile is_newline acc"
  define ws x where "ws = fst (line_words ?l)" and "x = (case snd (line_words ?l) of None \<Rightarrow> [] | Some x \<Rightarrow> x)"
  obtain p' where p': "parse_char d i (p, w) = parse_word d i (p', w)" "words_in b i ws (Some x) p'"
    using parse_to_word [OF p i, of d w] c newline_not_blank unfolding ws_def x_def by blast
  let ?q = "\<lparr>cp_bytes = (cp_bytes p')[i := 0], cp_state = CrLfSkip, cp_args = [], cp_spent = i + 1\<rparr>"
  have "parse_char d i (p, w) = (?q, d (take 16 (ws @ [x])) w)"
    using parse_word_step [OF p'(2) i, of d w] c(1) p'(1) by simp
  moreover have "take 16 (ws @ [x]) = line_args ?l" by (simp add: line_args_def ws_def x_def split_beta)
  moreover have "words_in b (Suc i) [] None ?q"
    using words_at [OF p'(2) i] p'(2) by (simp add: words_in_def)
  ultimately show ?thesis by (intro exI [of _ ?q]) (simp add: parsed_def)
qed

lemma parse_goes_on:
  assumes p: "parsed b i acc p" and i: "i < length b" and c: "\<not> is_newline (b ! i) \<or> dropWhile is_newline acc = []"
  shows "\<exists>p'. parse_char d i (p, w) = (p', w) \<and> parsed b (Suc i) (acc @ [b ! i]) p'"
proof -
  let ?l = "dropWhile is_newline acc"
  have pd: "cp_spent p + length acc = i" "alike acc (take (length acc) (drop (cp_spent p) (cp_bytes p)))"
    "words_in b i (fst (line_words ?l)) (snd (line_words ?l)) p"
    and st: "cp_state p = (if ?l = [] then CrLfSkip else if snd (line_words ?l) = None then WhitespaceSkip else Word)"
    using p by (simp_all add: parsed_def)
  have len: "length (cp_bytes p) = length b" using pd(3) by (simp add: words_in_def)
  have at: "cp_bytes p ! i = b ! i" "drop (Suc i) (cp_bytes p) = drop (Suc i) b" using words_at [OF pd(3) i] by simp_all
  show ?thesis
  proof (cases "is_newline (b ! i)")
    case True
    have l: "?l = []" using c True by simp
    have l2: "dropWhile is_newline (acc @ [b ! i]) = []" using l True by (simp add: dropWhile_append)
    have "parse_char d i (p, w) = (p, w)" using st l at True by (simp add: parse_char_def)
    moreover have "words_in b (Suc i) [] None p" using words_skip [OF _ i] pd(3) l by simp
    moreover have "alike (acc @ [b ! i]) (take (length (acc @ [b ! i])) (drop (cp_spent p) (cp_bytes p)))"
      by (rule pending_more [OF pd(1,2)]) (use i len at in simp_all)
    ultimately show ?thesis using pd(1) st l unfolding parsed_def l2 by (intro exI [of _ p]) simp
  next
    case False
    have l2: "dropWhile is_newline (acc @ [b ! i]) = ?l @ [b ! i]"
      using False by (cases "?l = []") (auto simp: dropWhile_append dropWhile_eq_Nil_conv)
    show ?thesis
    proof (cases "is_blank (b ! i) \<and> snd (line_words ?l) = None")
      case True
      let ?p = "p\<lparr>cp_state := WhitespaceSkip\<rparr>"
      have "parse_char d i (p, w) = (?p, w)" using st at False True by (auto simp: parse_char_def parse_blank_def)
      moreover have "words_in b (Suc i) (fst (line_words ?l)) None ?p" using words_skip [OF _ i] pd(3) True by simp
      moreover have "line_words (?l @ [b ! i]) = (fst (line_words ?l), None)"
        using True by (cases "line_words ?l") (simp add: word_step_def)
      moreover have "alike (acc @ [b ! i]) (take (length (acc @ [b ! i])) (drop (cp_spent p) (cp_bytes p)))"
        by (rule pending_more [OF pd(1,2)]) (use i len at in simp_all)
      ultimately show ?thesis using pd(1) unfolding parsed_def l2 by (intro exI [of _ ?p]) simp
    next
      case ne: False
      define ws x where "ws = fst (line_words ?l)" and "x = (case snd (line_words ?l) of None \<Rightarrow> [] | Some x \<Rightarrow> x)"
      have "\<not> is_newline (b ! i) \<or> ?l \<noteq> []" "\<not> is_blank (b ! i) \<or> snd (line_words ?l) \<noteq> None" using False ne by (simp, (use ne in argo))
      from parse_to_word [OF p i this, of d w, folded ws_def x_def]
      obtain q where q: "parse_char d i (p, w) = parse_word d i (q, w)" "words_in b i ws (Some x) q" "cp_spent q = cp_spent p"
        "cp_bytes q = cp_bytes p" "cp_state q = Word"
        by blast
      obtain p' where p': "parse_word d i (q, w) = (p', w)" "words_in b (Suc i) (fst (word_step (ws, Some x) (b ! i))) (snd (word_step (ws, Some x) (b ! i))) p'"
        "cp_spent p' = cp_spent q" "cp_state p' = (if is_blank (b ! i) then WhitespaceSkip else cp_state q)"
        "cp_bytes p' = (if is_blank (b ! i) then (cp_bytes q)[i := 0] else cp_bytes q)"
        using parse_word_step [OF q(2) i, of d w] False by auto
      have ww: "line_words (?l @ [b ! i]) = word_step (ws, Some x) (b ! i)"
        using ne by (cases "line_words ?l") (auto simp: word_step_def ws_def x_def split: option.splits)
      have "alike (acc @ [b ! i]) (take (length (acc @ [b ! i])) (drop (cp_spent p) (cp_bytes p')))"
        by (rule pending_more [OF pd(1,2)]) (use i len at p'(5) q(4) in \<open>auto simp: is_blank_def\<close>)
      moreover have "snd (word_step (ws, Some x) (b ! i)) = None \<longleftrightarrow> is_blank (b ! i)" by (simp add: word_step_def)
      ultimately show ?thesis
        using q(1,3,5) p' pd(1) unfolding parsed_def l2 ww by (intro exI [of _ p']) simp
    qed
  qed
qed

lemma dropWhile_nil_append: "dropWhile P xs = [] \<Longrightarrow> dropWhile P (xs @ ys) = dropWhile P ys"
  by (auto simp: dropWhile_append)

lemma dropWhile_cons_append: "dropWhile P xs \<noteq> [] \<Longrightarrow> dropWhile P (xs @ ys) = dropWhile P xs @ ys"
  by (induction xs) auto

lemma parse_buffer_run:
  assumes "i \<le> length b"
  shows "\<exists>p. fold (parse_char d) [0..<i] (\<lparr>cp_bytes = b, cp_state = CrLfSkip, cp_args = [], cp_spent = 0\<rparr>, w) =
     (p, fold d (snd (line_run (take i b))) w) \<and> parsed b i (fst (line_run (take i b))) p"
  using assms
proof (induction i)
  case 0
  then show ?case by (simp add: parsed_def words_in_def)
next
  case (Suc i)
  let ?acc = "fst (line_run (take i b))" and ?cmds = "snd (line_run (take i b))"
  let ?l = "dropWhile is_newline ?acc"
  obtain p where p: "fold (parse_char d) [0..<i] (\<lparr>cp_bytes = b, cp_state = CrLfSkip, cp_args = [], cp_spent = 0\<rparr>, w) = (p, fold d ?cmds w)"
    "parsed b i ?acc p" using Suc by auto
  have i: "i < length b" using Suc.prems by simp
  have r: "line_run (take (Suc i) b) = line_step (?acc, ?cmds) (b ! i)" unfolding take_Suc_conv_app_nth [OF i] line_run_simps prod.collapse ..
  show ?case
  proof (cases "is_newline (b ! i) \<and> ?l \<noteq> []")
    case True
    obtain p' where "parse_char d i (p, fold d ?cmds w) = (p', d (line_args ?l) (fold d ?cmds w))" "parsed b (Suc i) [] p'"
      using parse_line_end [OF p(2) i True [THEN conjunct1] True [THEN conjunct2], of d "fold d ?cmds w"] by (elim exE conjE)
    moreover have e: "line_step (?acc, ?cmds) (b ! i) = ([], ?cmds @ [line_args ?l])"
      unfolding line_step_def Let_def prod.case if_P [OF True] ..
    ultimately show ?thesis unfolding r e using p(1) by simp
  next
    case False
    then have c: "\<not> is_newline (b ! i) \<or> ?l = []" by argo
    obtain p' where "parse_char d i (p, fold d ?cmds w) = (p', fold d ?cmds w)" "parsed b (Suc i) (?acc @ [b ! i]) p'"
      using parse_goes_on [OF p(2) i c, of d "fold d ?cmds w"] by (elim exE conjE)
    moreover have e: "line_step (?acc, ?cmds) (b ! i) = (?acc @ [b ! i], ?cmds)"
      unfolding line_step_def Let_def prod.case if_not_P [OF False] ..
    ultimately show ?thesis unfolding r e using p(1) by simp
  qed
qed

lemma parse_buffer_spec:
  "\<exists>p. parse_buffer d b w = (p, fold d (snd (line_run b)) w) \<and> alike (fst (line_run b)) (drop (cp_spent p) (cp_bytes p))"
proof -
  obtain p where p: "parse_buffer d b w = (p, fold d (snd (line_run b)) w)" "parsed b (length b) (fst (line_run b)) p"
    using parse_buffer_run [of "length b" b d w] by (auto simp: parse_buffer_def)
  then have "length (cp_bytes p) = length b" by (simp add: parsed_def words_in_def)
  moreover have "cp_spent p + length (fst (line_run b)) = length b" using p(2) by (simp add: parsed_def)
  ultimately have "take (length (fst (line_run b))) (drop (cp_spent p) (cp_bytes p)) = drop (cp_spent p) (cp_bytes p)"
    by simp
  then show ?thesis using p by (auto simp: parsed_def)
qed

section \<open>Pieces\<close>

definition pending :: "u8 list \<Rightarrow> bool" where
  "pending acc \<longleftrightarrow> (\<forall>c \<in> set (dropWhile is_newline acc). \<not> is_newline c)"

lemma line_step_acc:
  "line_step (acc, cmds) c = (fst (line_step (acc, []) c), cmds @ snd (line_step (acc, []) c))"
  by (simp add: line_step_def Let_def)

lemma line_run_acc: "foldl line_step (acc, cmds) xs = (fst (foldl line_step (acc, []) xs), cmds @ snd (foldl line_step (acc, []) xs))"
proof (induction xs arbitrary: acc cmds)
  case (Cons x xs)
  obtain a c where s: "line_step (acc, []) x = (a, c)" by fastforce
  have "foldl line_step (acc, cmds) (x # xs) = foldl line_step (a, cmds @ c) xs" by (simp add: line_step_acc [of acc cmds] s)
  also have "\<dots> = (fst (foldl line_step (a, []) xs), cmds @ c @ snd (foldl line_step (a, []) xs))" by (subst Cons.IH) simp
  also have "\<dots> = (fst (foldl line_step (a, c) xs), cmds @ snd (foldl line_step (a, c) xs))" by (subst (3 4) Cons.IH) simp
  finally show ?case by (simp add: s)
qed simp

lemma pending_run: "pending (fst (line_run bs))"
proof (induction bs rule: rev_induct)
  case (snoc c bs)
  obtain acc cmds where r: "line_run bs = (acc, cmds)" by fastforce
  have p: "\<forall>c \<in> set (dropWhile is_newline acc). \<not> is_newline c" using snoc r by (simp add: pending_def)
  show ?case
  proof (cases "dropWhile is_newline acc = []")
    case True
    have "dropWhile is_newline (acc @ [c]) = dropWhile is_newline [c]"
      by (rule dropWhile_nil_append [OF True])
    then show ?thesis by (simp add: r line_step_def Let_def pending_def True del: dropWhile_eq_Nil_conv)
  next
    case False
    then show ?thesis using p dropWhile_cons_append [OF False, of "[c]"]
      by (auto simp: r line_step_def Let_def pending_def simp del: dropWhile_eq_Nil_conv)
  qed
qed (simp add: pending_def)

lemma run_pending: "pending acc \<Longrightarrow> line_run acc = (acc, [])"
proof (induction acc rule: rev_induct)
  case (snoc c acc)
  have "pending acc \<and> (dropWhile is_newline acc = [] \<or> \<not> is_newline c)"
  proof (cases "dropWhile is_newline acc = []")
    case False
    then show ?thesis using snoc.prems dropWhile_cons_append [OF False, of "[c]"] by (simp add: pending_def)
  qed (simp add: pending_def del: dropWhile_eq_Nil_conv)
  then show ?case using snoc.IH by (auto simp: line_step_def Let_def simp del: dropWhile_eq_Nil_conv)
qed simp

lemma run_split: "line_run (xs @ ys) = (fst (line_run (fst (line_run xs) @ ys)), snd (line_run xs) @ snd (line_run (fst (line_run xs) @ ys)))"
proof -
  obtain a c where r: "line_run xs = (a, c)" by fastforce
  have "line_run (a @ ys) = foldl line_step (a, []) ys"
    using run_pending [of a] pending_run [of xs] r by (simp add: line_run_def)
  then show ?thesis using r line_run_acc [of a c ys] by (simp add: line_run_def)
qed

text \<open>The zeros that the parser writes change nothing.\<close>

lemma alike_newline: "alike x y \<Longrightarrow> alike (dropWhile is_newline x) (dropWhile is_newline y)"
  unfolding alike_def
  by (induction x y rule: list_all2_induct) (auto dest: newline_not_blank)

lemma alike_words: "alike x y \<Longrightarrow> line_words x = line_words y"
proof (induction x arbitrary: y rule: rev_induct)
  case Nil then show ?case by (simp add: alike_def)
next
  case (snoc c x)
  then obtain y' d where y: "y = y' @ [d]" "alike x y'" "c = d \<or> is_blank c \<and> is_blank d"
    by (auto simp: alike_def list_all2_append1 list_all2_Cons1)
  then have "line_words x = line_words y'" using snoc.IH by blast
  then show ?case using y by (cases "line_words y'") (auto simp: word_step_def)
qed

lemma alike_run: "alike x y \<Longrightarrow> alike (fst (line_run x)) (fst (line_run y)) \<and> snd (line_run x) = snd (line_run y)"
proof (induction x arbitrary: y rule: rev_induct)
  case Nil then show ?case by (simp add: alike_def)
next
  case (snoc c x)
  then obtain y' d where y: "y = y' @ [d]" "alike x y'" "c = d \<or> is_blank c \<and> is_blank d"
    by (auto simp: alike_def list_all2_append1 list_all2_Cons1)
  obtain a cs a' cs' where r: "line_run x = (a, cs)" "line_run y' = (a', cs')" by fastforce
  have i: "alike a a'" "cs = cs'" using snoc.IH [OF y(2)] r by simp_all
  have l: "alike (dropWhile is_newline a) (dropWhile is_newline a')" by (rule alike_newline [OF i(1)])
  have e: "dropWhile is_newline a = [] \<longleftrightarrow> dropWhile is_newline a' = []" using l by (auto simp: alike_def simp del: dropWhile_eq_Nil_conv)
  have n: "is_newline c = is_newline d" using y(3) newline_not_blank by blast
  have "line_args (dropWhile is_newline a) = line_args (dropWhile is_newline a')" using alike_words [OF l] by (simp add: line_args_def)
  then show ?case using r y(1,3) i e n by (auto simp: line_step_def Let_def simp del: dropWhile_eq_Nil_conv)
qed

lemma alike_trans: "alike x y \<Longrightarrow> alike y z \<Longrightarrow> alike x z"
  unfolding alike_def by (rule list_all2_trans [where ?P1.0 = "\<lambda>c d. c = d \<or> is_blank c \<and> is_blank d" and ?P2.0 = "\<lambda>c d. c = d \<or> is_blank c \<and> is_blank d"]) auto

lemma alike_length: "alike x y \<Longrightarrow> length x = length y"
  by (simp add: alike_def list_all2_lengthD)

lemma alike_append: "alike x y \<Longrightarrow> alike (x @ z) (y @ z)"
  unfolding alike_def by (rule list_all2_appendI) (auto intro: list.rel_refl)

section \<open>Receiving in pieces\<close>

definition fits :: "u8 list \<Rightarrow> u8 list \<Rightarrow> bool" where
  "fits acc bs \<longleftrightarrow> (\<forall>n. length (fst (line_run (acc @ take n bs))) < control_buffer_size)"

lemma fits_later: "fits acc (xs @ ys) \<Longrightarrow> fits (fst (line_run (acc @ xs))) ys"
  unfolding fits_def
proof
  fix n assume a: "\<forall>n. length (fst (line_run (acc @ take n (xs @ ys)))) < control_buffer_size"
  have "acc @ take (length xs + n) (xs @ ys) = (acc @ xs) @ take n ys" by simp
  then show "length (fst (line_run (fst (line_run (acc @ xs)) @ take n ys))) < control_buffer_size"
    using a [rule_format, of "length xs + n"] run_split [of "acc @ xs" "take n ys"] by simp
qed

lemma control_recv_spec:
  "pending acc \<Longrightarrow> alike acc buf \<Longrightarrow> [] \<notin> set pieces \<Longrightarrow> fits acc (concat pieces) \<Longrightarrow>
   control_recv d buf pieces w = (True, [], fold d (snd (line_run (acc @ concat pieces))) w)"
proof (induction d buf pieces w arbitrary: acc rule: control_recv.induct)
  case (1 d buf pieces w)
  show ?case
  proof (cases pieces)
    case Nil
    then show ?thesis using run_pending [OF "1.prems"(1)] by (simp add: control_recv.simps)
  next
    case (Cons x xs)
    let ?n = "control_buffer_size - length buf"
    let ?rest = "if ?n < length x then drop ?n x # xs else xs"
    have "length acc < control_buffer_size"
      using "1.prems"(4) [unfolded fits_def, rule_format, of 0] run_pending [OF "1.prems"(1)] by simp
    then have n: "0 < ?n" using alike_length [OF "1.prems"(2)] by simp
    then have got: "take ?n x \<noteq> []" using "1.prems"(3) Cons by auto
    have whole: "concat pieces = take ?n x @ concat ?rest" by (simp add: Cons)
    obtain p where p: "parse_buffer d (buf @ take ?n x) w = (p, fold d (snd (line_run (buf @ take ?n x))) w)"
      "alike (fst (line_run (buf @ take ?n x))) (drop (cp_spent p) (cp_bytes p))"
      using parse_buffer_spec [of d "buf @ take ?n x" w] by blast
    have al: "alike (fst (line_run (acc @ take ?n x))) (fst (line_run (buf @ take ?n x)))"
      "snd (line_run (buf @ take ?n x)) = snd (line_run (acc @ take ?n x))"
      using alike_run [OF alike_append [OF "1.prems"(2), of "take ?n x"]] by simp_all
    have "control_recv d buf pieces w =
        control_recv d (drop (cp_spent p) (cp_bytes p)) ?rest (fold d (snd (line_run (acc @ take ?n x))) w)"
      unfolding Cons control_recv.simps [of d buf "x # xs" w] list.case Let_def if_not_P [OF got] p(1) al(2) prod.case ..
    also have "\<dots> = (True, [], fold d (snd (line_run (fst (line_run (acc @ take ?n x)) @ concat ?rest)))
        (fold d (snd (line_run (acc @ take ?n x))) w))"
    proof (rule "1.IH" [OF Cons refl refl got p(1) [symmetric, unfolded al(2), simplified, THEN sym, symmetric] refl])
      show "pending (fst (line_run (acc @ take ?n x)))" by (rule pending_run)
      show "alike (fst (line_run (acc @ take ?n x))) (drop (cp_spent p) (cp_bytes p))" by (rule alike_trans [OF al(1) p(2)])
      show "[] \<notin> set ?rest" using "1.prems"(3) Cons by auto
      show "fits (fst (line_run (acc @ take ?n x))) (concat ?rest)"
        by (rule fits_later) (use "1.prems"(4) whole in simp)
    qed
    also have "\<dots> = (True, [], fold d (snd (line_run (acc @ concat pieces))) w)"
      using run_split [of "acc @ take ?n x" "concat ?rest"] whole by simp
    finally show ?thesis .
  qed
qed

section \<open>The commands as a server sends them\<close>

fun join_words :: "u8 list list \<Rightarrow> u8 list" where
  "join_words [] = []"
| "join_words [w] = w"
| "join_words (w # ws) = w @ 32 # join_words ws"

definition command_ok :: "u8 list list \<Rightarrow> bool" where
  "command_ok ws \<longleftrightarrow> ws \<noteq> [] \<and> length ws \<le> 16 \<and> length (join_words ws) \<le> 510 \<and>
     (\<forall>w \<in> set ws. w \<noteq> [] \<and> (\<forall>c \<in> set w. \<not> is_blank c \<and> \<not> is_newline c))"

definition command_lines :: "u8 list list list \<Rightarrow> u8 list" where
  "command_lines cmds = concat (map (\<lambda>ws. join_words ws @ [13, 10]) cmds)"

lemma line_words_word: "w \<noteq> [] \<Longrightarrow> \<forall>c \<in> set w. \<not> is_blank c \<Longrightarrow> foldl word_step (ws, None) w = (ws, Some w)"
proof (induction w rule: rev_nonempty_induct)
  case (snoc c w)
  then show ?case by (simp add: word_step_def)
qed (simp add: word_step_def)

lemma line_words_join:
  "ws \<noteq> [] \<Longrightarrow> \<forall>w \<in> set ws. w \<noteq> [] \<and> (\<forall>c \<in> set w. \<not> is_blank c) \<Longrightarrow>
   foldl word_step (vs, None) (join_words ws) = (vs @ butlast ws, Some (last ws))"
proof (induction ws arbitrary: vs rule: join_words.induct)
  case (3 w v ws)
  have b: "is_blank 32" by (simp add: is_blank_def)
  have "foldl word_step (vs, None) (w @ 32 # join_words (v # ws)) = foldl word_step (vs @ [w], None) (join_words (v # ws))"
    using line_words_word [of w vs] "3.prems" b by (simp add: word_step_def)
  then show ?case using "3.IH" [of "vs @ [w]"] "3.prems" by simp
qed (simp_all add: line_words_word)

lemma line_args_join: "command_ok ws \<Longrightarrow> line_args (join_words ws) = ws"
proof -
  assume ok: "command_ok ws"
  then have "line_words (join_words ws) = (butlast ws, Some (last ws))"
    using line_words_join [of ws "[]"] by (simp add: line_words_def command_ok_def)
  moreover have "butlast ws @ [last ws] = ws" "take 16 ws = ws" using ok by (simp_all add: command_ok_def)
  ultimately show ?thesis unfolding line_args_def by simp
qed

lemma join_words_clean: "\<forall>w \<in> set ws. \<forall>c \<in> set w. \<not> is_newline c \<Longrightarrow> \<forall>c \<in> set (join_words ws). \<not> is_newline c"
proof (induction ws rule: join_words.induct)
  case (3 w v ws)
  have "\<not> is_newline 32" "\<forall>c \<in> set w. \<not> is_newline c" using "3.prems" by (simp_all add: is_newline_def)
  moreover have "\<forall>c \<in> set (join_words (v # ws)). \<not> is_newline c" using "3.prems" by (intro "3.IH") (simp add: list.set)
  ultimately show ?case unfolding join_words.simps set_append list.set ball_Un by blast
qed simp_all

lemma join_words_nonempty: "ws \<noteq> [] \<Longrightarrow> [] \<notin> set ws \<Longrightarrow> join_words ws \<noteq> []"
  by (induction ws rule: join_words.induct) auto

lemma line_run_text:
  "\<forall>c \<in> set nl. is_newline c \<Longrightarrow> \<forall>c \<in> set xs. \<not> is_newline c \<Longrightarrow> foldl line_step (nl, cs) xs = (nl @ xs, cs)"
  by (induction xs rule: rev_induct) (simp_all add: line_step_def)

lemma line_run_line:
  assumes "\<forall>c \<in> set nl. is_newline c" "\<forall>c \<in> set l. \<not> is_newline c" "l \<noteq> []"
  shows "foldl line_step (nl, cs) (l @ [13]) = ([], cs @ [line_args l])" "foldl line_step (nl, cs) (l @ [13, 10]) = ([10], cs @ [line_args l])"
proof -
  have "dropWhile is_newline nl = []" using assms(1) by simp
  then have d: "dropWhile is_newline (nl @ l) = dropWhile is_newline l" by (rule dropWhile_nil_append)
  have l: "dropWhile is_newline l = l" using assms(2,3) by (cases l) auto
  have n: "is_newline 13" by (simp add: is_newline_def)
  have "foldl line_step (nl, cs) (l @ [13]) = line_step (nl @ l, cs) 13"
    by (simp add: line_run_text [OF assms(1,2)])
  also have "\<dots> = ([], cs @ [line_args l])"
    unfolding line_step_def Let_def prod.case d l using assms(3) n by simp
  finally show e: "foldl line_step (nl, cs) (l @ [13]) = ([], cs @ [line_args l])" .
  have "foldl line_step (nl, cs) (l @ [13, 10]) = line_step (foldl line_step (nl, cs) (l @ [13])) 10" by simp
  then show "foldl line_step (nl, cs) (l @ [13, 10]) = ([10], cs @ [line_args l])"
    unfolding e by (simp add: line_step_def)
qed

lemma command_ok_line:
  assumes "command_ok ws"
  shows "\<forall>c \<in> set (join_words ws). \<not> is_newline c" "join_words ws \<noteq> []" "length (join_words ws) \<le> 510"
  using assms join_words_clean [of ws] join_words_nonempty [of ws] by (auto simp: command_ok_def)

lemma command_prefix:
  assumes n: "\<forall>c \<in> set nl. is_newline c" and nl: "length nl \<le> 1" and ok: "command_ok ws"
  shows "length (fst (foldl line_step (nl, cs) (take m (join_words ws @ [13, 10])))) \<le> 511"
proof -
  let ?l = "join_words ws"
  consider "m \<le> length ?l" | "m = length ?l + 1" | "m \<ge> length ?l + 2" by linarith
  then show ?thesis
  proof cases
    case 1
    have "\<forall>c \<in> set (take m ?l). \<not> is_newline c" using command_ok_line(1) [OF ok] by (meson in_set_takeD)
    then show ?thesis using 1 line_run_text [OF n] command_ok_line(3) [OF ok] nl by simp
  next
    case 2
    then have "take m (?l @ [13, 10]) = ?l @ [13]" by simp
    then show ?thesis using line_run_line(1) [OF n command_ok_line(1,2) [OF ok]] by simp
  next
    case 3
    then have "take m (?l @ [13, 10]) = ?l @ [13, 10]" by simp
    then show ?thesis using line_run_line(2) [OF n command_ok_line(1,2) [OF ok]] by simp
  qed
qed

lemma command_lines_run:
  "\<forall>ws \<in> set cmds. command_ok ws \<Longrightarrow> line_run (command_lines cmds) = (if cmds = [] then [] else [10], cmds)"
proof (induction cmds rule: rev_induct)
  case (snoc ws cmds)
  have n: "\<forall>c \<in> set (if cmds = [] then [] else [10]). is_newline c" by (simp add: is_newline_def)
  have ok: "command_ok ws" using snoc.prems by simp
  have "line_run (command_lines (cmds @ [ws])) = foldl line_step (line_run (command_lines cmds)) (join_words ws @ [13, 10])"
    by (simp add: line_run_def command_lines_def)
  also have "\<dots> = ([10], cmds @ [ws])"
    using snoc line_run_line(2) [OF n command_ok_line(1,2) [OF ok]] line_args_join [OF ok] by simp
  finally show ?case by simp
qed (simp add: command_lines_def)

lemma command_lines_fit: "\<forall>ws \<in> set cmds. command_ok ws \<Longrightarrow> fits [] (command_lines cmds)"
proof (induction cmds rule: rev_induct)
  case (snoc ws cmds)
  have ok: "command_ok ws" and oks: "\<forall>ws \<in> set cmds. command_ok ws" using snoc.prems by simp_all
  have "length (fst (line_run (take n (command_lines (cmds @ [ws]))))) < control_buffer_size" for n
  proof (cases "n \<le> length (command_lines cmds)")
    case True
    then show ?thesis using snoc.IH [OF oks] by (simp add: fits_def command_lines_def)
  next
    case False
    let ?nl = "if cmds = [] then [] else [10] :: u8 list" and ?l = "join_words ws" and ?m = "n - length (command_lines cmds)"
    have "line_run (take n (command_lines (cmds @ [ws]))) = foldl line_step (line_run (command_lines cmds)) (take ?m (?l @ [13, 10]))"
      using False by (simp add: line_run_def command_lines_def)
    then have r: "line_run (take n (command_lines (cmds @ [ws]))) = foldl line_step (?nl, cmds) (take ?m (?l @ [13, 10]))"
      by (simp add: command_lines_run [OF oks])
    have "length (fst (foldl line_step (?nl, cmds) (take ?m (?l @ [13, 10])))) \<le> 511"
      by (rule command_prefix [OF _ _ ok]) (simp_all add: is_newline_def)
    then show ?thesis unfolding r by (simp add: control_buffer_size_def)
  qed
  then show ?case by (simp add: fits_def)
qed (simp add: fits_def command_lines_def control_buffer_size_def)

section \<open>The handles\<close>

text \<open>The handles that were opened and closed, and those the state keeps.\<close>

fun event_opened :: "control_event \<Rightarrow> u64 multiset" where
  "event_opened (Ev_listen port h) = (if h = 0 then {#} else {#h#})"
| "event_opened (Ev_accept r h) = (if r \<le> 0 then {#} else {#h#})"
| "event_opened (Ev_close h) = {#}"

fun event_closed :: "control_event \<Rightarrow> u64 multiset" where
  "event_closed (Ev_close h) = {#h#}"
| "event_closed (Ev_listen port h) = {#}"
| "event_closed (Ev_accept r h) = {#}"

definition control_held :: "'w control \<Rightarrow> u64 multiset" where
  "control_held s = (if GControlListen s = 0 then {#} else {#GControlListen s#}) +
     (if GControlState s = Accepted then {#GControlSocket s#} else {#})"

definition handles_kept :: "'w control \<Rightarrow> bool" where
  "handles_kept s \<longleftrightarrow>
     sum_list (map event_opened (control_log s)) = sum_list (map event_closed (control_log s)) + control_held s"

definition control_ok :: "'w control \<Rightarrow> bool" where
  "control_ok s \<longleftrightarrow> handles_kept s \<and> (GControlListen s \<noteq> 0 \<longleftrightarrow> GControlState s \<in> {Listening, Accepted})"

text \<open>The runs of the control port from its initial state, shutdown at their end.\<close>

inductive control_reach :: "control_env \<Rightarrow> 'w control \<Rightarrow> 'w control \<Rightarrow> bool" for env where
  init: "control_reach env s s"
| update: "control_reach env s t \<Longrightarrow> control_reach env s (Writer_UpdateControl env t)"

definition control_initial :: "'w control \<Rightarrow> bool" where
  "control_initial s \<longleftrightarrow> GControlListen s = 0 \<and> GControlSocket s = 0 \<and> GControlState s = Closed \<and> control_log s = []"

lemma listen_loop_ok:
  "handles_kept s \<Longrightarrow> GControlState s = Closed \<Longrightarrow> handles_kept (listen_loop env n seed s) \<and> GControlState (listen_loop env n seed s) = Closed"
proof (induction n arbitrary: seed s)
  case (Suc n)
  then show ?case
    by (auto simp: TcpSocketListen_def handles_kept_def control_held_def Let_def)
qed simp

lemma Writer_ControlListen_ok:
  assumes "control_ok s" "GControlState s = Closed"
  shows "control_ok (snd (Writer_ControlListen env s)) \<and>
    GControlState (snd (Writer_ControlListen env s)) = (if fst (Writer_ControlListen env s) then Listening else Failed)"
proof -
  let ?s = "TcpSocketListen env (GControlPort s) s"
  have s: "handles_kept ?s" "GControlState ?s = Closed"
    using assms by (auto simp: control_ok_def TcpSocketListen_def handles_kept_def control_held_def Let_def)
  let ?t = "if GControlListen ?s = 0 then listen_loop env 10 (ucast (timestamp env (control_log ?s))) ?s else ?s"
  have "handles_kept ?t" "GControlState ?t = Closed" using s listen_loop_ok [OF s] by simp_all
  then show ?thesis unfolding Writer_ControlListen_def Let_def
    by (simp add: control_ok_def handles_kept_def control_held_def)
qed

lemma Writer_ControlAccept_ok:
  assumes "control_ok s" "GControlState s = Listening"
  shows "control_ok (snd (Writer_ControlAccept env s)) \<and>
    (fst (Writer_ControlAccept env s) \<longrightarrow> GControlState (snd (Writer_ControlAccept env s)) = Accepted)"
proof -
  obtain r h where r: "tcp_accept env (control_log s) (GControlListen s) = (r, h)" by fastforce
  then show ?thesis using assms
    by (cases "r = -1") (auto simp: Let_def Writer_ControlAccept_def control_close_def control_ok_def handles_kept_def control_held_def)
qed

lemma Writer_ControlRecv_ok: "control_ok s \<Longrightarrow> GControlState s = Accepted \<Longrightarrow> control_ok (Writer_ControlRecv env s)"
  by (simp add: Writer_ControlRecv_def control_close_def control_ok_def handles_kept_def control_held_def split_beta Let_def)

lemma Writer_UpdateControl_ok: "control_ok s \<Longrightarrow> control_ok (Writer_UpdateControl env s)"
  using Writer_ControlListen_ok [of s env] Writer_ControlAccept_ok [of s env] Writer_ControlRecv_ok [of s env]
    Writer_ControlAccept_ok [of "snd (Writer_ControlListen env s)" env]
    Writer_ControlRecv_ok [of "snd (Writer_ControlAccept env s)" env]
    Writer_ControlRecv_ok [of "snd (Writer_ControlAccept env (snd (Writer_ControlListen env s)))" env]
  by (cases "GControlState s") (auto simp: Writer_UpdateControl_def Let_def split_beta)

text \<open>
  C27: However listening, accepting and reading go, after any number of updates the handles that
  the control port opened are the ones it closed, once each, and the ones it still has: the
  listening socket, which it has exactly while it listens or serves, and the accepted one. A
  shutdown then closes the listening socket, so that at most the accepted one is left.
\<close>

theorem control_handles:
  assumes "control_initial s" "control_reach env s t"
  shows "sum_list (map event_opened (control_log t)) = sum_list (map event_closed (control_log t)) +
      (if GControlListen t = 0 then {#} else {#GControlListen t#}) +
      (if GControlState t = Accepted then {#GControlSocket t#} else {#}) \<and>
    (GControlListen t \<noteq> 0 \<longleftrightarrow> GControlState t = Listening \<or> GControlState t = Accepted) \<and>
    (let u = Writer_ShutdownControl t
     in sum_list (map event_opened (control_log u)) = sum_list (map event_closed (control_log u)) +
        (if GControlState t = Accepted then {#GControlSocket t#} else {#}))"
proof -
  have "control_ok t" using assms(2,1)
  proof induction
    case (init s)
    then show ?case by (simp add: control_initial_def control_ok_def handles_kept_def control_held_def)
  qed (rule Writer_UpdateControl_ok)
  then show ?thesis
    by (auto simp: control_ok_def handles_kept_def control_held_def Writer_ShutdownControl_def control_close_def Let_def)
qed

definition sample_control_env :: control_env where
  "sample_control_env = \<lparr>tcp_listen = (\<lambda>log port. 3), tcp_accept = (\<lambda>log h. (1, 4)),
     tcp_data = (\<lambda>log h. [ascii ''Se'', ascii ''ndTo a b'' @ [13], [10], ascii ''Stop'' @ [13, 10]]), timestamp = (\<lambda>log. 0)\<rparr>"

definition sample_control :: "control_action list control" where
  "sample_control = \<lparr>GControlCommands = Writer_InitializeControl [], GControlListen = 0, GControlSocket = 0,
     GControlState = Closed, GControlPort = 1985, control_log = [], control_world = []\<rparr>"

lemma control_handles_witness:
  "\<exists>t. control_reach sample_control_env sample_control t \<and> (GControlListen t \<noteq> 0 \<longleftrightarrow> GControlState t = Listening \<or> GControlState t = Accepted)"
proof -
  have "control_initial sample_control" by (simp add: control_initial_def sample_control_def)
  moreover have r: "control_reach sample_control_env sample_control (Writer_UpdateControl sample_control_env sample_control)"
    by (rule control_reach.intros)+
  ultimately show ?thesis using control_handles [OF _ r] r by blast
qed

section \<open>Commands through the port\<close>

lemma Writer_ControlRecv_commands:
  assumes "\<forall>ws \<in> set cmds. command_ok ws" "[] \<notin> set (tcp_data env (control_log s) (GControlSocket s))"
    "concat (tcp_data env (control_log s) (GControlSocket s)) = command_lines cmds"
  shows "Writer_ControlRecv env s =
    s\<lparr>control_world := fold (\<lambda>argv w. snd (Writer_ControlDispatch (GControlCommands s) argv w)) cmds (control_world s)\<rparr>"
proof -
  let ?d = "\<lambda>argv w. snd (Writer_ControlDispatch (GControlCommands s) argv w)"
  have "control_recv ?d [] (tcp_data env (control_log s) (GControlSocket s)) (control_world s) =
      (True, [], fold ?d (snd (line_run ([] @ concat (tcp_data env (control_log s) (GControlSocket s))))) (control_world s))"
    by (rule control_recv_spec) (use assms command_lines_fit [OF assms(1)] in \<open>simp_all add: pending_def\<close>)
  then show ?thesis using command_lines_run [OF assms(1)] assms(3) by (simp add: Writer_ControlRecv_def)
qed



section \<open>Data that is not a command\<close>

lemma run_all: "snd (line_run bs) = [] \<Longrightarrow> fst (line_run bs) = bs"
proof (induction bs rule: rev_induct)
  case (snoc c bs)
  obtain acc cmds where r: "line_run bs = (acc, cmds)" by fastforce
  then show ?case using snoc by (auto simp: line_step_def Let_def split: if_splits)
qed simp

lemma control_recv_overrun:
  "pending acc \<Longrightarrow> alike acc buf \<Longrightarrow> snd (line_run (acc @ concat pieces)) = [] \<Longrightarrow> control_buffer_size < length (acc @ concat pieces) \<Longrightarrow>
   length acc \<le> control_buffer_size \<Longrightarrow>
   fst (control_recv d buf pieces w) = False \<and> snd (snd (control_recv d buf pieces w)) = w"
proof (induction d buf pieces w arbitrary: acc rule: control_recv.induct)
  case (1 d buf pieces w)
  show ?case
  proof (cases pieces)
    case Nil
    then show ?thesis using "1.prems" by simp
  next
    case (Cons x xs)
    let ?n = "control_buffer_size - length buf"
    let ?rest = "if ?n < length x then drop ?n x # xs else xs"
    show ?thesis
    proof (cases "take ?n x = []")
      case True
      then show ?thesis unfolding Cons control_recv.simps [of d buf "x # xs" w] list.case Let_def if_P [OF True] by simp
    next
      case got: False
      have whole: "concat pieces = take ?n x @ concat ?rest" by (simp add: Cons)
      obtain p where p: "parse_buffer d (buf @ take ?n x) w = (p, fold d (snd (line_run (buf @ take ?n x))) w)"
        "alike (fst (line_run (buf @ take ?n x))) (drop (cp_spent p) (cp_bytes p))"
        using parse_buffer_spec [of d "buf @ take ?n x" w] by blast
      have none: "snd (line_run (acc @ take ?n x)) = []" using "1.prems"(3) run_split [of "acc @ take ?n x" "concat ?rest"] whole by simp
      have al: "alike (fst (line_run (acc @ take ?n x))) (fst (line_run (buf @ take ?n x)))" "snd (line_run (buf @ take ?n x)) = []"
        using alike_run [OF alike_append [OF "1.prems"(2), of "take ?n x"]] none by simp_all
      have acc: "fst (line_run (acc @ take ?n x)) = acc @ take ?n x" by (rule run_all [OF none])
      have "control_recv d buf pieces w = control_recv d (drop (cp_spent p) (cp_bytes p)) ?rest w"
        unfolding Cons control_recv.simps [of d buf "x # xs" w] list.case Let_def if_not_P [OF got] p(1) al(2) prod.case fold.simps id_apply ..
      moreover have "fst (control_recv d (drop (cp_spent p) (cp_bytes p)) ?rest w) = False \<and>
          snd (snd (control_recv d (drop (cp_spent p) (cp_bytes p)) ?rest w)) = w"
      proof (rule "1.IH" [OF Cons refl refl got p(1) [symmetric, unfolded al(2) fold.simps id_apply, THEN sym, symmetric] refl])
        show "pending (acc @ take ?n x)" using pending_run [of "acc @ take ?n x"] acc by simp
        show "alike (acc @ take ?n x) (drop (cp_spent p) (cp_bytes p))" using alike_trans [OF al(1) p(2)] acc by simp
        show "snd (line_run ((acc @ take ?n x) @ concat ?rest)) = []" using "1.prems"(3) whole by simp
        show "control_buffer_size < length ((acc @ take ?n x) @ concat ?rest)" using "1.prems"(4) whole by simp
        show "length (acc @ take ?n x) \<le> control_buffer_size" using "1.prems"(5) alike_length [OF "1.prems"(2)] by simp
      qed
      ultimately show ?thesis by simp
    qed
  qed
qed

lemma line_run_kept:
  "(\<forall>c \<in> set bs. \<not> is_newline c) \<or> (\<forall>c \<in> set bs. is_newline c) \<Longrightarrow> line_run bs = (bs, [])"
proof (induction bs rule: rev_induct)
  case (snoc c bs)
  then have "line_run bs = (bs, [])" by auto
  then show ?case using snoc.prems by (auto simp: line_step_def Let_def)
qed simp

text \<open>
  More than 512 bytes without a line end, or as many line ends without a word, fill the
  buffer of the port: nothing is carried out and the port closes the server's connection and
  listens again.
\<close>

theorem Writer_UpdateControl_overrun:
  assumes "GControlState s = Accepted" "bs = concat (tcp_data env (control_log s) (GControlSocket s))"
    "(\<forall>c \<in> set bs. \<not> is_newline c) \<or> (\<forall>c \<in> set bs. is_newline c)" "512 < length bs"
  shows "Writer_UpdateControl env s =
    s\<lparr>control_log := control_log s @ [Ev_close (GControlSocket s)], GControlSocket := 0, GControlState := Listening\<rparr>"
proof -
  let ?d = "\<lambda>argv w. snd (Writer_ControlDispatch (GControlCommands s) argv w)"
  have "fst (control_recv ?d [] (tcp_data env (control_log s) (GControlSocket s)) (control_world s)) = False \<and>
      snd (snd (control_recv ?d [] (tcp_data env (control_log s) (GControlSocket s)) (control_world s))) = control_world s"
    by (rule control_recv_overrun [where acc = "[]"]) (use line_run_kept [OF assms(3)] assms(2,4) in \<open>simp_all add: pending_def control_buffer_size_def\<close>)
  then show ?thesis using assms(1)
    by (cases "control_recv ?d [] (tcp_data env (control_log s) (GControlSocket s)) (control_world s)")
      (simp add: Writer_UpdateControl_def Writer_ControlRecv_def control_close_def)
qed

lemma Writer_UpdateControl_overrun_witness:
  "GControlState (Writer_UpdateControl (sample_control_env\<lparr>tcp_data := \<lambda>log h. [replicate 600 97]\<rparr>) (sample_control\<lparr>GControlState := Accepted\<rparr>)) = Listening"
proof -
  have "\<not> is_newline 97" by (simp add: is_newline_def)
  then show ?thesis
    using Writer_UpdateControl_overrun [of "sample_control\<lparr>GControlState := Accepted\<rparr>" "replicate 600 97"
      "sample_control_env\<lparr>tcp_data := \<lambda>log h. [replicate 600 97]\<rparr>"] by simp
qed

end
