(* ===== verification/Tail.thy ===== *)
theory Tail
  imports Send
begin

text \<open>
  The tail buffer (Private/Trace/Tail.cpp): a ring of whole packets that keeps the newest part
  of the trace, FPacketRing, and the functions of the writer on it. The ring's memory is a list
  of bytes, None when Data is a null pointer; uint32 counters are natural numbers with their
  wrap-around written out. None as a result is undefined behaviour (an access outside the
  ring, a null packet written to) or a loop that does not end.
\<close>

section \<open>The ring\<close>

record packet_ring =
  ring_data :: "u8 list option"
  ring_size :: nat
  ring_cursor :: nat
  ring_left :: nat
  ring_right :: nat

definition ring_Reset :: "packet_ring \<Rightarrow> packet_ring" where
  "ring_Reset r = r\<lparr>ring_cursor := 0, ring_left := ring_size r, ring_right := ring_size r\<rparr>"

text \<open>Writer_MemoryAllocate hands out \<open>InSize\<close> bytes of unknown contents, here \<open>mem\<close>.\<close>

definition ring_Initialize :: "nat \<Rightarrow> u8 list \<Rightarrow> packet_ring \<Rightarrow> packet_ring" where
  "ring_Initialize InSize mem r = ring_Reset (r\<lparr>ring_data := Some mem, ring_size := InSize\<rparr>)"

definition ring_Shutdown :: "packet_ring \<Rightarrow> packet_ring" where
  "ring_Shutdown r = r\<lparr>ring_data := None\<rparr>"

definition ring_GetSize :: "packet_ring \<Rightarrow> nat" where
  "ring_GetSize r = ring_size r"

definition ring_IsActive :: "packet_ring \<Rightarrow> bool" where
  "ring_IsActive r \<longleftrightarrow> ring_data r \<noteq> None"

definition mem_read :: "u8 list \<Rightarrow> nat \<Rightarrow> nat \<Rightarrow> u8 list option" where
  "mem_read d i n = (if i + n \<le> length d then Some (take n (drop i d)) else None)"

definition mem_write :: "u8 list \<Rightarrow> nat \<Rightarrow> u8 list \<Rightarrow> u8 list option" where
  "mem_write d i xs =
     (if i + length xs \<le> length d then Some (take i d @ xs @ drop (i + length xs) d) else None)"

definition ring_GetBackPackets :: "packet_ring \<Rightarrow> nat \<times> nat" where
  "ring_GetBackPackets r = (ring_left r, (ring_right r + 2 ^ 32 - ring_left r) mod 2 ^ 32)"

definition ring_GetFrontPackets :: "packet_ring \<Rightarrow> nat \<times> nat" where
  "ring_GetFrontPackets r = (0, ring_cursor r)"

definition ring_BackUp :: "nat \<Rightarrow> packet_ring \<Rightarrow> packet_ring" where
  "ring_BackUp InSize r = r\<lparr>ring_cursor := (ring_cursor r + 2 ^ 32 - InSize) mod 2 ^ 32\<rparr>"

partial_function (option) ring_discard :: "u8 list \<Rightarrow> nat \<Rightarrow> nat \<Rightarrow> nat \<Rightarrow> nat option" where
  "ring_discard d NextCursor lft rgt =
     (if NextCursor \<le> lft then Some lft
      else if rgt \<le> lft then Some lft
      else do {
        size \<leftarrow> packet_size_at d lft;
        ring_discard d NextCursor ((lft + size) mod 2 ^ 32) rgt })"

definition ring_AppendImpl :: "nat \<Rightarrow> packet_ring \<Rightarrow> (nat option \<times> packet_ring) option" where
  "ring_AppendImpl InSize r =
     (if ring_size r < InSize then Some (None, ring_Reset r)
      else do {
        d \<leftarrow> ring_data r;
        let NextCursor = (ring_cursor r + InSize) mod 2 ^ 32;
        let (r, NextCursor) =
          (if ring_size r < NextCursor
           then (r\<lparr>ring_left := 0, ring_right := ring_cursor r, ring_cursor := 0\<rparr>, InSize)
           else (r, NextCursor));
        left \<leftarrow> ring_discard d NextCursor (ring_left r) (ring_right r);
        d \<leftarrow> mem_write d (ring_cursor r) (le16 (of_nat InSize));
        Some (Some (ring_cursor r),
          r\<lparr>ring_data := Some d, ring_left := left, ring_cursor := NextCursor\<rparr>) })"

section \<open>The writer's functions\<close>

text \<open>
  Append followed by the stores through the packet pointer. The bytes that the encoder may
  leave behind its output, inside the room it was given, are not modelled: they are in the
  part of the ring that BackUp returns.
\<close>

definition Writer_TailAppend ::
  "trace_env \<Rightarrow> u32 \<Rightarrow> u8 list \<Rightarrow> packet_ring \<times> 'a trace_link_scheme \<Rightarrow>
     (packet_ring \<times> 'a trace_link_scheme) option" where
  "Writer_TailAppend env ThreadId data rs =
     (let (r, s) = rs; Size = length data in
      if \<not> ring_IsActive r then Some (r, Writer_SendData env ThreadId data s)
      else if ring_GetSize r < (Size + sizeof_FTidPacketEncoded) mod 2 ^ 32
      then Some (ring_Reset r, Writer_SendData env ThreadId data s)
      else
        let tid = (ucast (ThreadId AND ucast ThreadIdMask) :: u16) in
        if Size \<le> 384 then do {
          (p, r) \<leftarrow> ring_AppendImpl (Size + sizeof_FTidPacket) r;
          p \<leftarrow> p;
          d \<leftarrow> ring_data r;
          d \<leftarrow> mem_write d (p + 2) (le16 tid);
          d \<leftarrow> mem_write d (p + sizeof_FTidPacket) data;
          n \<leftarrow> packet_size_at d p;
          pkt \<leftarrow> mem_read d p n;
          Some (r\<lparr>ring_data := Some d\<rparr>, Writer_SendDataRaw env pkt s) }
        else do {
          let EncodeMaxSize = GetEncodeMaxSize Size;
          (p, r) \<leftarrow> ring_AppendImpl (EncodeMaxSize + sizeof_FTidPacketEncoded) r;
          p \<leftarrow> p;
          d \<leftarrow> ring_data r;
          d \<leftarrow> mem_write d (p + 2) (le16 (tid OR EncodedMarker));
          d \<leftarrow> mem_write d (p + 4) (le16 (of_nat Size));
          let out = Encode env data EncodeMaxSize;
          d \<leftarrow> mem_write d (p + 6) out;
          let BackUp = EncodeMaxSize - length out;
          let r = ring_BackUp BackUp r;
          n \<leftarrow> packet_size_at d p;
          d \<leftarrow> mem_write d p (le16 (of_nat n - of_nat BackUp));
          n \<leftarrow> packet_size_at d p;
          pkt \<leftarrow> mem_read d p n;
          Some (r\<lparr>ring_data := Some d\<rparr>, Writer_SendDataRaw env pkt s) })"

definition send_range :: "trace_env \<Rightarrow> u8 list \<Rightarrow> nat \<times> nat \<Rightarrow> 'a trace_link_scheme \<Rightarrow> 'a trace_link_scheme option" where
  "send_range env d rg s =
     (if snd rg = 0 then Some s
      else do { xs \<leftarrow> mem_read d (fst rg) (snd rg); Some (Writer_SendDataRaw env xs s) })"

definition Writer_TailOnConnect :: "trace_env \<Rightarrow> packet_ring \<Rightarrow> 'a trace_link_scheme \<Rightarrow> 'a trace_link_scheme option" where
  "Writer_TailOnConnect env r s =
     (case ring_data r of None \<Rightarrow> Some s
      | Some d \<Rightarrow> do {
          s \<leftarrow> send_range env d (ring_GetBackPackets r) s;
          send_range env d (ring_GetFrontPackets r) s })"

text \<open>
  The size is rounded up to 1 KiB in unsigned arithmetic, stored back as an int32 and raised to
  128 KiB; the allocated memory is \<open>mem\<close>.
\<close>

definition tail_buffer_size :: "u32 \<Rightarrow> u32" where
  "tail_buffer_size BufferSize =
     (let Rounding = push_bit 10 1 - 1;
          b = (BufferSize + Rounding) AND NOT Rounding
      in if sint b < 128 * 1024 then 128 * 1024 else b)"

definition Writer_InitializeTail :: "u32 \<Rightarrow> (nat \<Rightarrow> u8 list) \<Rightarrow> packet_ring \<Rightarrow> packet_ring" where
  "Writer_InitializeTail BufferSize mem r =
     (if sint BufferSize \<le> 0 then r
      else let n = unat (tail_buffer_size BufferSize) in ring_Initialize n (mem n) r)"

definition Writer_IsTailing :: "packet_ring \<Rightarrow> bool" where
  "Writer_IsTailing r = ring_IsActive r"

definition Writer_ShutdownTail :: "packet_ring \<Rightarrow> packet_ring" where
  "Writer_ShutdownTail r = ring_Shutdown r"

definition ring_null :: packet_ring where
  "ring_null = \<lparr>ring_data = None, ring_size = 0, ring_cursor = 0, ring_left = 0, ring_right = 0\<rparr>"

section \<open>The ring holds whole packets, oldest first\<close>

text \<open>
  \<open>ring_ok M r bk fr\<close>: the range from Left to Right is the packets \<open>bk\<close>, the range up to Cursor
  the packets \<open>fr\<close>, each of at most \<open>M\<close> bytes; the two ranges do not overlap, and the older range
  was cut off at most \<open>M\<close> bytes before the end of the ring.
\<close>

definition packets_ok :: "nat \<Rightarrow> u8 list list \<Rightarrow> bool" where
  "packets_ok M ps \<longleftrightarrow> (\<forall>p \<in> set ps. packet_ok p \<and> length p \<le> M)"

definition ring_ok :: "nat \<Rightarrow> packet_ring \<Rightarrow> u8 list list \<Rightarrow> u8 list list \<Rightarrow> bool" where
  "ring_ok M r bk fr \<longleftrightarrow>
     (\<exists>d. ring_data r = Some d \<and> length d = ring_size r \<and> ring_size r < 2 ^ 31 \<and>
        ring_cursor r \<le> ring_size r \<and> ring_left r \<le> ring_right r \<and> ring_right r \<le> ring_size r \<and>
        ring_size r \<le> ring_right r + M \<and> take (ring_cursor r) d = concat fr \<and>
        take (ring_right r - ring_left r) (drop (ring_left r) d) = concat bk \<and>
        (bk \<noteq> [] \<longrightarrow> ring_cursor r \<le> ring_left r)) \<and> packets_ok M (bk @ fr)"

lemma packets_ok_simps [simp]:
  "packets_ok M []"
  "packets_ok M (p # ps) \<longleftrightarrow> packet_ok p \<and> length p \<le> M \<and> packets_ok M ps"
  "packets_ok M (ps @ qs) \<longleftrightarrow> packets_ok M ps \<and> packets_ok M qs"
  by (auto simp: packets_ok_def)

lemma packets_ok_drop: "packets_ok M ps \<Longrightarrow> packets_ok M (drop k ps)"
  by (auto simp: packets_ok_def dest: in_set_dropD)

lemma mem_write_Some: "i + length xs \<le> length d \<Longrightarrow>
    mem_write d i xs = Some (take i d @ xs @ drop (i + length xs) d)"
  by (simp add: mem_write_def)

lemma mem_read_Some: "i + n \<le> length d \<Longrightarrow> mem_read d i n = Some (take n (drop i d))"
  by (simp add: mem_read_def)

text \<open>Old packets are dropped one by one until the range starts behind the new cursor.\<close>

lemma ring_discard_packets:
  assumes "take (R - L) (drop L d) = concat bk" and "L \<le> R" and "R \<le> length d"
    and "R < 2 ^ 32" and "packets_ok M bk"
  shows "\<exists>k L'. ring_discard d N L R = Some L' \<and> k \<le> length bk \<and> L \<le> L' \<and> L' \<le> R \<and>
     take (R - L') (drop L' d) = concat (drop k bk) \<and> (N \<le> L' \<or> drop k bk = []) \<and>
     (0 < k \<longrightarrow> L' < N + M) \<and> (k = 0 \<longrightarrow> L' = L) \<and> L' = L + length (concat (take k bk)) \<and>
     (\<forall>j < k. L + length (concat (take j bk)) < N)"
  using assms
proof (induction bk arbitrary: L)
  case Nil
  then have "R = L" by (auto dest!: arg_cong [of _ _ length])
  then show ?case
    by (intro exI [of _ 0] exI [of _ L]) (auto simp: ring_discard.simps)
next
  case (Cons p bk)
  have lp: "0 < length p" and ok: "packet_ok p" "length p \<le> M" "packets_ok M bk"
    using Cons.prems(5) packet_ok_pos by auto
  have len: "R - L = length p + length (concat bk)"
    using Cons.prems(1,3) by (auto dest!: arg_cong [of _ _ length])
  show ?case
  proof (cases "N \<le> L")
    case True
    then show ?thesis using Cons.prems
      by (intro exI [of _ 0] exI [of _ L]) (auto simp: ring_discard.simps)
  next
    case False
    have split: "d = take L d @ p @ (concat bk @ drop (R - L) (drop L d))"
      using append_take_drop_id [of L d] append_take_drop_id [of "R - L" "drop L d"] Cons.prems(1)
      by simp
    have "packet_size_at (take L d @ p @ (concat bk @ drop (R - L) (drop L d))) (length (take L d)) =
        Some (length p)"
      by (rule packet_size_at_packet [OF ok(1)])
    then have sz: "packet_size_at d L = Some (length p)"
      using split Cons.prems(2,3) by simp
    have lt: "L < R" using lp len by linarith
    have mod: "(L + length p) mod 2 ^ 32 = L + length p"
      using Cons.prems(4) len lt by simp
    have step: "ring_discard d N L R = ring_discard d N (L + length p) R"
      using False lt sz mod by (subst ring_discard.simps) simp
    have "R - (L + length p) = length (concat bk)"
      using len by (simp add: diff_diff_left [symmetric] del: diff_diff_left)
    then have "take (R - (L + length p)) (drop (L + length p) d) =
        drop (length p) (take (R - L) (drop L d))"
      using len by (simp add: drop_take add.commute)
    then have rest: "take (R - (L + length p)) (drop (L + length p) d) = concat bk"
      using Cons.prems(1) by simp
    have le: "L + length p \<le> R" using len lt by simp
    obtain k L' where k: "ring_discard d N (L + length p) R = Some L'" "k \<le> length bk"
        "L + length p \<le> L'" "L' \<le> R" "take (R - L') (drop L' d) = concat (drop k bk)"
        "N \<le> L' \<or> drop k bk = []" "0 < k \<longrightarrow> L' < N + M" "k = 0 \<longrightarrow> L' = L + length p"
        "L' = L + length p + length (concat (take k bk))" "\<forall>j < k. L + length p + length (concat (take j bk)) < N"
      using Cons.IH [OF rest le Cons.prems(3,4) ok(3)] by (elim exE conjE) (rule that; assumption)
    have "L' < N + M"
      using k(7,8) False ok(2) by (cases "k = 0") auto
    moreover have "\<forall>j < Suc k. L + length (concat (take j (p # bk))) < N"
    proof (intro allI impI)
      fix j assume "j < Suc k"
      then show "L + length (concat (take j (p # bk))) < N" using k(10) False by (cases j) (auto simp: add.assoc)
    qed
    ultimately show ?thesis
      using k step by (intro exI [of _ "Suc k"] exI [of _ L']) auto
  qed
qed

text \<open>
  \<open>ring_room M r bk fr p n\<close>: the ring between Append and the stores of its caller. The packets
  \<open>fr\<close> end where the new packet starts, at \<open>p\<close>; the \<open>n\<close> bytes from there are free.
\<close>

definition ring_room :: "nat \<Rightarrow> packet_ring \<Rightarrow> u8 list list \<Rightarrow> u8 list list \<Rightarrow> nat \<Rightarrow> nat \<Rightarrow> bool" where
  "ring_room M r bk fr p n \<longleftrightarrow>
     (\<exists>d. ring_data r = Some d \<and> length d = ring_size r \<and> ring_size r < 2 ^ 31 \<and>
        ring_cursor r = p + n \<and> p + n \<le> ring_size r \<and>
        ring_left r \<le> ring_right r \<and> ring_right r \<le> ring_size r \<and>
        ring_size r \<le> ring_right r + M \<and> take p d = concat fr \<and>
        take (ring_right r - ring_left r) (drop (ring_left r) d) = concat bk \<and>
        (bk \<noteq> [] \<longrightarrow> p + n \<le> ring_left r)) \<and> packets_ok M (bk @ fr)"

lemma mem_write_frame:
  assumes "i + length xs \<le> length d"
  shows "\<exists>e. mem_write d i xs = Some e \<and> length e = length d \<and> take (length xs) (drop i e) = xs \<and>
     (\<forall>j m. m = 0 \<or> i + length xs \<le> j \<or> j + m \<le> i \<longrightarrow> take m (drop j e) = take m (drop j d))"
proof -
  let ?e = "take i d @ xs @ drop (i + length xs) d"
  have "take m (drop j ?e) = take m (drop j d)" if "i + length xs \<le> j \<or> j + m \<le> i" for j m
    using that assms by (auto simp: drop_append min_def drop_take)
  then show ?thesis
    using assms by (intro exI [of _ ?e]) (auto simp: mem_write_def)
qed

text \<open>
  Giving up the \<open>j\<close> oldest packets makes room for \<open>n\<close> bytes: behind the cursor, where the older
  range must not overlap them, or, when they would run off the end of the ring, at its start, where
  the older range is gone and the packets before the cursor are the ones in the way.
\<close>

definition tail_fits :: "nat \<Rightarrow> packet_ring \<Rightarrow> u8 list list \<Rightarrow> u8 list list \<Rightarrow> nat \<Rightarrow> bool" where
  "tail_fits n r bk fr j \<longleftrightarrow>
     (if ring_cursor r + n \<le> ring_size r
      then ring_cursor r + n \<le> ring_left r + length (concat (take j bk)) \<or> length bk \<le> j
      else length bk \<le> j \<and>
        (n \<le> length (concat (take (j - length bk) fr)) \<or> length fr \<le> j - length bk))"

lemma ring_AppendImpl_room:
  assumes ok: "ring_ok M r bk fr" and n: "2 \<le> n" "n \<le> ring_size r" "n \<le> M"
  shows "\<exists>r' p bk' fr' k. ring_AppendImpl n r = Some (Some p, r') \<and> ring_room M r' bk' fr' p n \<and>
     bk' @ fr' = drop k (bk @ fr) \<and> ring_size r' = ring_size r \<and>
     (\<exists>d. ring_data r' = Some d \<and> take 2 (drop p d) = le16 (of_nat n)) \<and>
     (0 < k \<longrightarrow> ring_size r \<le> length (concat (bk' @ fr')) + n + 2 * M) \<and>
     tail_fits n r bk fr k \<and> (\<forall>j < k. \<not> tail_fits n r bk fr j)"
proof -
  obtain d where d: "ring_data r = Some d" "length d = ring_size r" "ring_size r < 2 ^ 31"
      "ring_cursor r \<le> ring_size r" "ring_left r \<le> ring_right r" "ring_right r \<le> ring_size r"
      "ring_size r \<le> ring_right r + M" "take (ring_cursor r) d = concat fr"
      "take (ring_right r - ring_left r) (drop (ring_left r) d) = concat bk"
      "bk \<noteq> [] \<longrightarrow> ring_cursor r \<le> ring_left r" and p: "packets_ok M (bk @ fr)"
    using ok unfolding ring_ok_def by (elim exE conjE) (rule that; assumption)
  let ?C = "ring_cursor r" and ?w = "le16 (of_nat n) :: u8 list"
  have nc: "(?C + n) mod 2 ^ 32 = ?C + n"
    using d(3,4) n(2) by simp
  have lc: "length (concat fr) = ?C"
    using d(2,4) by (simp flip: d(8))
  have lenc: "length (concat ps) = R - L"
    if "take (R - L) (drop L d) = concat ps" "R \<le> length d" for R L ps
    using that(2) by (simp flip: that(1))
  show ?thesis
  proof (cases "ring_size r < ?C + n")
    case False
    have a: "ring_right r \<le> length d" "ring_right r < 2 ^ 32" "packets_ok M bk"
      using d(2,3,6) p by simp_all
    obtain k L' where k: "ring_discard d (?C + n) (ring_left r) (ring_right r) = Some L'"
        "k \<le> length bk" "ring_left r \<le> L'" "L' \<le> ring_right r"
        "take (ring_right r - L') (drop L' d) = concat (drop k bk)"
        "?C + n \<le> L' \<or> drop k bk = []" "0 < k \<longrightarrow> L' < (?C + n) + M" "k = 0 \<longrightarrow> L' = ring_left r"
        "L' = ring_left r + length (concat (take k bk))" "\<forall>j < k. ring_left r + length (concat (take j bk)) < ?C + n"
      using ring_discard_packets [OF d(9,5) a, of "?C + n"] by (elim exE conjE) (rule that; assumption)
    obtain e where e: "mem_write d ?C ?w = Some e" "length e = length d"
        "take (length ?w) (drop ?C e) = ?w"
        "\<forall>j m. m = 0 \<or> ?C + length ?w \<le> j \<or> j + m \<le> ?C \<longrightarrow> take m (drop j e) = take m (drop j d)"
      using mem_write_frame [of ?C ?w d] False n(1) d(2) by auto
    let ?r = "r\<lparr>ring_data := Some e, ring_left := L', ring_cursor := ?C + n\<rparr>"
    have ap: "ring_AppendImpl n r = Some (Some ?C, ?r)"
      using n(2) d(1) nc False k(1) e(1) by (simp add: ring_AppendImpl_def Let_def)
    have "take ?C e = take ?C d"
      using e(4) [THEN spec [of _ 0], THEN spec [of _ ?C]] by simp
    then have fr: "take ?C e = concat fr" using d(8) by simp
    have "ring_right r - L' = 0 \<or> ?C + length ?w \<le> L'"
      using k(5,6) lenc [OF k(5)] n(1) d(2,6) by auto
    then have bk: "take (ring_right r - L') (drop L' e) = concat (drop k bk)"
      using e(4) k(5) by metis
    have room: "ring_room M ?r (drop k bk) fr ?C n"
      unfolding ring_room_def
      by (intro conjI exI [of _ e])
        (use d(2-7) e(2) fr False n bk k(3-6) p packets_ok_drop [of M bk k] in auto)
    have kept: "ring_size r \<le> length (concat (drop k bk @ fr)) + n + 2 * M" if "0 < k"
    proof -
      have "length (concat (drop k bk)) = ring_right r - L'"
        using lenc [OF k(5)] d(2,6) by simp
      then have "length (concat (drop k bk @ fr)) = ring_right r - L' + ?C" using lc by simp
      then show ?thesis using k(7) that k(4) d(7) by linarith
    qed
    have fits: "tail_fits n r bk fr k" "\<forall>j < k. \<not> tail_fits n r bk fr j"
      using False k(2,6,9,10) by (auto simp: tail_fits_def)
    show ?thesis
      by (intro exI [of _ ?r] exI [of _ ?C] exI [of _ "drop k bk"] exI [of _ fr] exI [of _ k])
        (use ap room kept k(2) e(3) fits in simp_all)
  next
    case True
    have a: "0 \<le> ?C" "?C \<le> length d" "?C < 2 ^ 32" "packets_ok M fr"
      using d(2,3,4) p by simp_all
    have bk0: "take (?C - 0) (drop 0 d) = concat fr" using d(8) by simp
    obtain k L' where k: "ring_discard d n 0 ?C = Some L'"
        "k \<le> length fr" "0 \<le> L'" "L' \<le> ?C"
        "take (?C - L') (drop L' d) = concat (drop k fr)"
        "n \<le> L' \<or> drop k fr = []" "0 < k \<longrightarrow> L' < n + M" "k = 0 \<longrightarrow> L' = 0"
        "L' = 0 + length (concat (take k fr))" "\<forall>j < k. 0 + length (concat (take j fr)) < n"
      using ring_discard_packets [OF bk0 a, of n] by (elim exE conjE) (rule that; assumption)
    obtain e where e: "mem_write d 0 ?w = Some e" "length e = length d"
        "take (length ?w) (drop 0 e) = ?w"
        "\<forall>j m. m = 0 \<or> 0 + length ?w \<le> j \<or> j + m \<le> 0 \<longrightarrow> take m (drop j e) = take m (drop j d)"
      using mem_write_frame [of 0 ?w d] n(1,2) d(2) by auto
    let ?r = "r\<lparr>ring_data := Some e, ring_left := L', ring_right := ?C, ring_cursor := n\<rparr>"
    have ap: "ring_AppendImpl n r = Some (Some 0, ?r)"
      using n(2) d(1) nc True k(1) e(1) by (simp add: ring_AppendImpl_def Let_def)
    have "?C - L' = 0 \<or> 0 + length ?w \<le> L'"
      using k(5,6) lenc [OF k(5)] n(1) d(2,4) by auto
    then have bk: "take (?C - L') (drop L' e) = concat (drop k fr)"
      using e(4) k(5) by metis
    have room: "ring_room M ?r (drop k fr) [] 0 n"
      unfolding ring_room_def
      by (intro conjI exI [of _ e])
        (use d(2-7) e(2) True n bk k(3-6) p packets_ok_drop [of M fr k] in auto)
    have kept: "ring_size r \<le> length (concat (drop k fr)) + n + 2 * M"
    proof -
      have "length (concat (drop k fr)) = ?C - L'"
        using lenc [OF k(5)] d(2,4) by simp
      then show ?thesis using k(7,8) True k(4) n by (cases "k = 0") auto
    qed
    have fits: "tail_fits n r bk fr (length bk + k)" using True k(2,6,9) by (auto simp: tail_fits_def)
    have least: "\<not> tail_fits n r bk fr j" if "j < length bk + k" for j
    proof
      assume a: "tail_fits n r bk fr j"
      define i where "i = j - length bk"
      have i: "length bk \<le> j" "n \<le> length (concat (take i fr)) \<or> length fr \<le> i"
        using a True by (auto simp: tail_fits_def i_def)
      then have "i < k" using that by (auto simp: i_def)
      then have "length (concat (take i fr)) < n" using k(10) by simp
      then show False using i(2) \<open>i < k\<close> k(2) by linarith
    qed
    show ?thesis
      by (intro exI [of _ ?r] exI [of _ 0] exI [of _ "drop k fr"] exI [of _ "[]"]
          exI [of _ "length bk + k"])
        (use ap room kept k(2) e(3) fits least in simp_all)
  qed
qed

text \<open>The stores of the caller, seen on the bytes of the new packet alone.\<close>

lemma mem_write_region:
  assumes "i + length xs \<le> length R" and "j = length A + i"
  shows "mem_write (A @ R @ B) j xs = Some (A @ (take i R @ xs @ drop (i + length xs) R) @ B)"
  using assms by (simp add: mem_write_def add.assoc)

lemma mem_read_region: "mem_read (A @ R @ B) (length A) (length R) = Some R"
  by (simp add: mem_read_def)

lemma ring_okI:
  assumes "ring_data r = Some d" "length d = ring_size r" "ring_size r < 2 ^ 31"
    "ring_cursor r \<le> ring_size r" "ring_left r \<le> ring_right r" "ring_right r \<le> ring_size r"
    "ring_size r \<le> ring_right r + M" "take (ring_cursor r) d = concat fr"
    "take (ring_right r - ring_left r) (drop (ring_left r) d) = concat bk"
    "bk \<noteq> [] \<longrightarrow> ring_cursor r \<le> ring_left r" "packets_ok M (bk @ fr)"
  shows "ring_ok M r bk fr"
  unfolding ring_ok_def using assms by blast

lemma ring_room_fill:
  assumes room: "ring_room M r bk fr p n" and d: "ring_data r = Some d"
  shows "\<exists>A R B. d = A @ R @ B \<and> length A = p \<and> length R = n \<and>
    (\<forall>pkt rest. length (pkt @ rest) = n \<longrightarrow> packet_ok pkt \<longrightarrow> length pkt \<le> M \<longrightarrow>
       ring_ok M (r\<lparr>ring_data := Some (A @ (pkt @ rest) @ B), ring_cursor := p + length pkt\<rparr>) bk (fr @ [pkt]))"
proof -
  have f: "length d = ring_size r" "ring_size r < 2 ^ 31" "p + n \<le> ring_size r"
      "ring_left r \<le> ring_right r" "ring_right r \<le> ring_size r" "ring_size r \<le> ring_right r + M"
      "take p d = concat fr" "take (ring_right r - ring_left r) (drop (ring_left r) d) = concat bk"
      "bk \<noteq> [] \<longrightarrow> p + n \<le> ring_left r" "packets_ok M (bk @ fr)"
    using room d unfolding ring_room_def by auto
  let ?A = "take p d" and ?R = "take n (drop p d)" and ?B = "drop (p + n) d"
  have "?A @ ?R @ ?B = d"
    by (metis append_take_drop_id drop_drop add.commute)
  moreover have "ring_ok M (r\<lparr>ring_data := Some (?A @ (pkt @ rest) @ ?B), ring_cursor := p + length pkt\<rparr>) bk (fr @ [pkt])"
    if pk: "length (pkt @ rest) = n" "packet_ok pkt" "length pkt \<le> M" for pkt rest
  proof -
    let ?e = "?A @ (pkt @ rest) @ ?B"
    have le: "length ?e = ring_size r" using f(1,3) pk(1) by simp
    have lA: "length ?A = p" using f(1,3) by simp
    have tk: "take (p + length pkt) ?e = concat (fr @ [pkt])"
      using lA f(7) by (simp add: take_add)
    have lo: "take (ring_right r - ring_left r) (drop (ring_left r) ?e) = concat bk"
    proof (cases "bk = []")
      case True
      then have "ring_right r - ring_left r = 0" using f(5,8,1) by (auto dest!: arg_cong [of _ _ length])
      then show ?thesis using True by simp
    next
      case False
      have "drop (p + n) ?e = ?B" using lA pk(1) by simp
      moreover have q: "p + n \<le> ring_left r" using f(9) False by simp
      have "drop (ring_left r) ?e = drop (ring_left r - (p + n)) (drop (p + n) ?e)"
        by (simp only: drop_drop le_add_diff_inverse2 [OF q])
      ultimately have "drop (ring_left r) ?e = drop (ring_left r - (p + n)) ?B" by simp
      also have "\<dots> = drop (ring_left r) d" using f(9) False by simp
      finally show ?thesis using f(8) by simp
    qed
    have ft: "p + length pkt \<le> ring_size r" "bk \<noteq> [] \<longrightarrow> p + length pkt \<le> ring_left r"
      "packets_ok M (bk @ fr @ [pkt])"
      using f(3,9,10) pk by auto
    let ?r = "r\<lparr>ring_data := Some ?e, ring_cursor := p + length pkt\<rparr>"
    have sel: "ring_data ?r = Some ?e" "ring_size ?r = ring_size r" "ring_cursor ?r = p + length pkt"
      "ring_left ?r = ring_left r" "ring_right ?r = ring_right r"
      by simp_all
    show ?thesis
      by (rule ring_okI [OF sel(1)]; (unfold sel(2-5))?; fact le f(2) ft(1) f(4) f(5) f(6) tk lo ft(2) ft(3))
  qed
  ultimately show ?thesis
    using f(1,3) by (intro exI [of _ ?A] exI [of _ ?R] exI [of _ ?B]) simp
qed

lemma unat_of_nat16: "n < 2 ^ 16 \<Longrightarrow> unat (of_nat n :: u16) = n"
  by (simp add: unat_of_nat)

text \<open>The packet that Writer_TailAppend puts into the ring and sends.\<close>

definition tail_packet :: "trace_env \<Rightarrow> u32 \<Rightarrow> u8 list \<Rightarrow> u8 list" where
  "tail_packet env t data =
     (let tid = ucast (t AND ucast ThreadIdMask) in
      if length data \<le> 384 then tid_packet (of_nat (length data + 4)) tid data
      else let out = encode env data (LZ4_COMPRESSBOUND (length data))
           in tid_packet_encoded (of_nat (length out + 6)) (tid OR EncodedMarker) (of_nat (length data)) out)"

definition tail_room :: "u8 list \<Rightarrow> nat" where
  "tail_room data = (if length data \<le> 384 then length data + 4 else LZ4_COMPRESSBOUND (length data) + 6)"

lemma tail_packet_means:
  assumes "codec_ok env dec" and "tail_room data < 2 ^ 16" and l: "length data < 2 ^ 16"
  shows "packet_means dec (ucast t) data (tail_packet env t data) \<and>
     length (tail_packet env t data) \<le> tail_room data"
proof (cases "length data \<le> 384")
  case True
  have "packet_means dec (ucast (t AND ucast ThreadIdMask)) data
      (tid_packet (of_nat (length data + 4)) (ucast (t AND ucast ThreadIdMask)) data)"
    by (rule tid_packet_means) (use True tid_mask_low(2) in simp_all)
  then show ?thesis
    using True tid_mask_low(4)
    by (simp add: tail_packet_def packet_means_def tail_room_def tid_packet_def)
next
  case False
  let ?out = "encode env data (LZ4_COMPRESSBOUND (length data))"
  have b: "LZ4_COMPRESSBOUND (length data) + 6 < 2 ^ 16"
    using assms(2) False by (simp add: tail_room_def)
  have "data \<noteq> []" using False by auto
  then have "?out \<noteq> []" using assms(1) l by (simp add: codec_ok_def)
  then have d: "dec ?out = Some data" and lo: "length ?out \<le> LZ4_COMPRESSBOUND (length data)"
    using assms(1) by (auto simp: codec_ok_def)
  have mk: "(ucast (t AND ucast ThreadIdMask) OR EncodedMarker :: u16) =
      EncodedMarker OR ucast (t AND ucast ThreadIdMask)"
    by (rule or.commute)
  have "packet_means dec (EncodedMarker OR ucast (t AND ucast ThreadIdMask)) data
      (tid_packet_encoded (of_nat (length ?out + 6))
        (EncodedMarker OR ucast (t AND ucast ThreadIdMask)) (of_nat (length data)) ?out)"
    by (rule tid_packet_encoded_means) (use d lo b l tid_mask_low(3) in simp_all)
  then show ?thesis
    using False mk lo tid_mask_low(5)
    by (simp add: tail_packet_def packet_means_def tail_room_def tid_packet_encoded_def Let_def)
qed

lemma region_steps:
  fixes A R B :: "u8 list"
  assumes "length R = n" and "2 \<le> n" and "take 2 R = w"
  shows "R = w @ drop 2 R"
  using assms append_take_drop_id [of 2 R] by simp

lemma Writer_TailAppend_encoded:
  assumes "\<not> length data \<le> 384" and "ring_data r = Some d0"
    and "\<not> ring_size r < (length data + 6) mod 2 ^ 32"
    and "E = LZ4_COMPRESSBOUND (length data)" and "out = encode env data E"
    and "k = E - length out" and "ring_AppendImpl (E + 6) r = Some (Some p, r1)"
    and "ring_data r1 = Some d1"
    and "mem_write d1 (p + 2) (le16 (ucast (t AND ucast ThreadIdMask) OR EncodedMarker)) = Some d2"
    and "mem_write d2 (p + 4) (le16 (of_nat (length data))) = Some d3"
    and "mem_write d3 (p + 6) out = Some d4" and "packet_size_at d4 p = Some n"
    and "mem_write d4 p (le16 (of_nat n - of_nat k)) = Some d5"
    and "packet_size_at d5 p = Some m" and "mem_read d5 p m = Some pkt"
  shows "Writer_TailAppend env t data (r, s) =
    Some ((ring_BackUp k r1)\<lparr>ring_data := Some d5\<rparr>, Writer_SendDataRaw env pkt s)"
  using assms
  by (simp add: Writer_TailAppend_def ring_IsActive_def ring_GetSize_def Let_def Encode_def
      GetEncodeMaxSize_def sizeof_FTidPacketEncoded_def sizeof_FTidPacket_def)

text \<open>
  What the stores do to the room: the packet is complete, what is behind it is left over.
\<close>

lemma Writer_TailAppend_room:
  assumes act: "ring_data r = Some d0" and sz: "length data + 6 \<le> ring_size r" "ring_size r < 2 ^ 31"
    and fit: "tail_room data < 2 ^ 16" "length data < 2 ^ 16"
    and out: "length (encode env data (LZ4_COMPRESSBOUND (length data))) \<le> LZ4_COMPRESSBOUND (length data)"
    and app: "ring_AppendImpl (tail_room data) r = Some (Some (length A), r')"
    and d: "ring_data r' = Some (A @ R @ B)" "length R = tail_room data"
      "take 2 R = le16 (of_nat (tail_room data))" "ring_cursor r' = length A + tail_room data"
      "length A + tail_room data < 2 ^ 32"
  shows "\<exists>rest. length (tail_packet env t data @ rest) = tail_room data \<and>
     Writer_TailAppend env t data (r, s) =
       Some (r'\<lparr>ring_data := Some (A @ (tail_packet env t data @ rest) @ B),
                ring_cursor := length A + length (tail_packet env t data)\<rparr>,
             Writer_SendDataRaw env (tail_packet env t data) s)"
proof (cases "length data \<le> 384")
  case True
  let ?n = "length data + 4" and ?tid = "ucast (t AND ucast ThreadIdMask) :: u16"
  have n: "tail_room data = ?n" using True by (simp add: tail_room_def)
  have R: "R = le16 (of_nat ?n) @ drop 2 R"
    using d(2,3) n append_take_drop_id [of 2 R] by simp
  let ?R1 = "le16 (of_nat ?n) @ le16 ?tid @ drop 4 R" and ?p = "tid_packet (of_nat ?n) ?tid data"
  have "take 2 R @ le16 ?tid @ drop 4 R = ?R1"
    using d(3) n by simp
  then have w1: "mem_write (A @ R @ B) (length A + 2) (le16 ?tid) = Some (A @ ?R1 @ B)"
    using d(2) n by (subst mem_write_region [where i = 2]) simp_all
  have "drop (4 + length data) ?R1 = []" and "take 4 ?R1 = le16 (of_nat ?n) @ le16 ?tid"
    using d(2) n by (simp_all add: drop_append)
  then have w2: "mem_write (A @ ?R1 @ B) (length A + 4) data = Some (A @ ?p @ B)"
    using d(2) n by (subst mem_write_region [where i = 4]) (simp_all add: tid_packet_def)
  have ok: "packet_ok ?p"
    by (rule tid_packet_ok) (use True in simp)
  have lp: "length ?p = ?n" by (simp add: tid_packet_def)
  have tp: "tail_packet env t data = ?p" using True by (simp add: tail_packet_def)
  have rd: "packet_size_at (A @ ?p @ B) (length A) = Some ?n"
    using packet_size_at_packet [OF ok] lp by simp
  have rr: "mem_read (A @ ?p @ B) (length A) ?n = Some ?p"
    using mem_read_region [of A ?p B] lp by simp
  have "\<not> ring_size r < (length data + 6) mod 2 ^ 32" using sz by simp
  then have "Writer_TailAppend env t data (r, s) =
      Some (r'\<lparr>ring_data := Some (A @ ?p @ B)\<rparr>, Writer_SendDataRaw env ?p s)"
    using True act app d(1) w1 w2 rd rr n
    by (simp add: Writer_TailAppend_def ring_IsActive_def ring_GetSize_def Let_def
        sizeof_FTidPacketEncoded_def sizeof_FTidPacket_def)
  moreover have "r'\<lparr>ring_data := Some (A @ ?p @ B)\<rparr> =
      r'\<lparr>ring_data := Some (A @ (?p @ []) @ B), ring_cursor := length A + length ?p\<rparr>"
    using d(4) n lp by simp
  ultimately show ?thesis
    using lp n tp by (intro exI [of _ "[]"]) simp
next
  case False
  let ?E = "LZ4_COMPRESSBOUND (length data)" and ?tid = "ucast (t AND ucast ThreadIdMask) OR EncodedMarker :: u16"
  let ?n = "?E + 6" and ?out = "encode env data ?E"
  let ?m = "length ?out + 6" and ?k = "?E - length ?out"
  let ?p = "tid_packet_encoded (of_nat ?m) ?tid (of_nat (length data)) ?out"
  have n: "tail_room data = ?n" using False by (simp add: tail_room_def)
  have R: "R = le16 (of_nat ?n) @ drop 2 R"
    using d(2,3) n append_take_drop_id [of 2 R] by simp
  let ?R1 = "le16 (of_nat ?n) @ le16 ?tid @ drop 4 R"
  let ?R2 = "le16 (of_nat ?n) @ le16 ?tid @ le16 (of_nat (length data)) @ drop 6 R"
  let ?rest = "drop ?m R"
  let ?R3 = "le16 (of_nat ?n) @ le16 ?tid @ le16 (of_nat (length data)) @ ?out @ ?rest"
  have "take 2 R @ le16 ?tid @ drop 4 R = ?R1"
    using d(3) n by simp
  then have w1: "mem_write (A @ R @ B) (length A + 2) (le16 ?tid) = Some (A @ ?R1 @ B)"
    using d(2) n by (subst mem_write_region [where i = 2]) simp_all
  have w2: "mem_write (A @ ?R1 @ B) (length A + 4) (le16 (of_nat (length data))) = Some (A @ ?R2 @ B)"
    using d(2) n by (subst mem_write_region [where i = 4]) simp_all
  have w3: "mem_write (A @ ?R2 @ B) (length A + 6) ?out = Some (A @ ?R3 @ B)"
    using d(2) n out by (subst mem_write_region [where i = 6]) (simp_all add: add.commute)
  have sz3: "packet_size_at (A @ ?R3 @ B) (length A) = Some ?n"
  proof -
    have "packet_ok ?R3"
      using d(2) n out fit(1) by (simp add: packet_ok_def add.commute)
    moreover have "length ?R3 = ?n" using d(2) n out by simp
    ultimately show ?thesis using packet_size_at_packet [of ?R3 A B] by simp
  qed
  have sub: "(of_nat ?n - of_nat ?k :: u16) = of_nat ?m"
  proof -
    have "(of_nat ?n - of_nat ?k :: u16) = of_nat (?n - ?k)"
      by (rule of_nat_diff [symmetric]) simp
    also have "?n - ?k = ?m" using out by simp
    finally show ?thesis .
  qed
  have w4: "mem_write (A @ ?R3 @ B) (length A) (le16 (of_nat ?m)) = Some (A @ (?p @ ?rest) @ B)"
    by (subst mem_write_region [where i = 0]) (simp_all add: tid_packet_encoded_def)
  have ok: "packet_ok ?p"
    by (rule tid_packet_encoded_ok) (use n fit(1) out in simp)
  have lp: "length ?p = ?m" by (simp add: tid_packet_encoded_def)
  have tp: "tail_packet env t data = ?p" using False by (simp add: tail_packet_def Let_def)
  have rd: "packet_size_at (A @ (?p @ ?rest) @ B) (length A) = Some ?m"
    using packet_size_at_packet [OF ok, of A "?rest @ B"] lp by simp
  have rr: "mem_read (A @ (?p @ ?rest) @ B) (length A) ?m = Some ?p"
    using mem_read_region [of A ?p "?rest @ B"] lp by simp
  have nb: "\<not> ring_size r < (length data + 6) mod 2 ^ 32" using sz by simp
  have bk: "ring_BackUp ?k r' = r'\<lparr>ring_cursor := length A + length ?p\<rparr>"
  proof -
    have "(length A + ?n + 2 ^ 32 - ?k) mod 2 ^ 32 = length A + ?m"
    proof -
      have "length A + ?n + 2 ^ 32 - ?k = length A + ?m + 2 ^ 32" using out by simp
      moreover have "(length A + ?m + 2 ^ 32) mod 2 ^ 32 = length A + ?m"
        using d(5) n out by (subst mod_add_self2) (rule mod_less, simp)
      ultimately show ?thesis by (simp only:)
    qed
    then show ?thesis using d(4) n lp by (simp add: ring_BackUp_def)
  qed
  have app': "ring_AppendImpl (?E + 6) r = Some (Some (length A), r')"
    using app n by (simp only:)
  have w4': "mem_write (A @ ?R3 @ B) (length A) (le16 (of_nat ?n - of_nat ?k)) = Some (A @ (?p @ ?rest) @ B)"
    using w4 sub by (simp only:)
  have "Writer_TailAppend env t data (r, s) =
      Some ((ring_BackUp ?k r')\<lparr>ring_data := Some (A @ (?p @ ?rest) @ B)\<rparr>, Writer_SendDataRaw env ?p s)"
    by (rule Writer_TailAppend_encoded [OF False act nb refl refl refl app' d(1) w1 w2 w3 sz3 w4' rd rr])
  moreover have "(ring_BackUp ?k r')\<lparr>ring_data := Some (A @ (?p @ ?rest) @ B)\<rparr> =
      r'\<lparr>ring_data := Some (A @ (?p @ ?rest) @ B), ring_cursor := length A + length ?p\<rparr>"
    unfolding bk by simp
  ultimately have "Writer_TailAppend env t data (r, s) =
      Some (r'\<lparr>ring_data := Some (A @ (?p @ ?rest) @ B), ring_cursor := length A + length ?p\<rparr>,
            Writer_SendDataRaw env ?p s)" by (simp only:)
  moreover have "length (?p @ ?rest) = tail_room data"
    using lp n out d(2) by simp
  ultimately show ?thesis
    unfolding tp by blast
qed

text \<open>Sending the two ranges on a new connection.\<close>

definition send_chunks :: "trace_env \<Rightarrow> u8 list list \<Rightarrow> 'a trace_link_scheme \<Rightarrow> 'a trace_link_scheme" where
  "send_chunks env = fold (\<lambda>xs s. if xs = [] then s else Writer_SendDataRaw env xs s)"

lemma Writer_TailOnConnect_packets:
  assumes "ring_ok M r bk fr"
  shows "Writer_TailOnConnect env r s = Some (send_chunks env [concat bk, concat fr] s)"
proof -
  obtain d where d: "ring_data r = Some d" "length d = ring_size r" "ring_size r < 2 ^ 31"
      "ring_cursor r \<le> ring_size r" "ring_left r \<le> ring_right r" "ring_right r \<le> ring_size r"
      "take (ring_cursor r) d = concat fr"
      "take (ring_right r - ring_left r) (drop (ring_left r) d) = concat bk"
    using assms unfolding ring_ok_def by (elim exE conjE) (rule that; assumption)
  have e: "(ring_right r + 2 ^ 32 - ring_left r) mod 2 ^ 32 = ring_right r - ring_left r"
  proof -
    have "ring_right r + 2 ^ 32 - ring_left r = ring_right r - ring_left r + 2 ^ 32"
      using d(5) by simp
    moreover have "(ring_right r - ring_left r + 2 ^ 32) mod 2 ^ 32 = ring_right r - ring_left r"
      using d(3,6) by (subst mod_add_self2) (rule mod_less, simp)
    ultimately show ?thesis by (simp only:)
  qed
  have b: "send_range env d (ring_GetBackPackets r) s =
      Some (if concat bk = [] then s else Writer_SendDataRaw env (concat bk) s)" for s :: "'a trace_link_scheme"
  proof -
    have "mem_read d (ring_left r) (ring_right r - ring_left r) = Some (concat bk)"
      using d(2,5,6,8) by (simp add: mem_read_def)
    moreover have "concat bk = [] \<longleftrightarrow> ring_right r - ring_left r = 0"
      using d(2,5,6) by (simp only: flip: d(8)) auto
    ultimately show ?thesis
      unfolding send_range_def ring_GetBackPackets_def fst_conv snd_conv e by simp
  qed
  have f: "send_range env d (ring_GetFrontPackets r) s =
      Some (if concat fr = [] then s else Writer_SendDataRaw env (concat fr) s)" for s :: "'a trace_link_scheme"
  proof -
    have "mem_read d 0 (ring_cursor r) = Some (concat fr)"
      using d(2,4,7) by (simp add: mem_read_def)
    moreover have "concat fr = [] \<longleftrightarrow> ring_cursor r = 0"
      using d(2,4) by (simp only: flip: d(7)) auto
    ultimately show ?thesis
      unfolding send_range_def ring_GetFrontPackets_def fst_conv snd_conv by simp
  qed
  show ?thesis
    using d(1) by (simp add: Writer_TailOnConnect_def b f send_chunks_def del: concat_eq_Nil_conv)
qed

text \<open>
  C15: The tail buffer keeps the newest packets, whole and in order. Appending a piece of trace
  to a ring that holds the packets \<open>bk @ fr\<close> returns, sends one packet that says what was
  traced, and leaves a ring with that packet at the end and only the oldest \<open>k\<close> packets gone: \<open>k\<close> is
  the least number whose removal makes room for the packet where it has to go, and
  any packet is dropped only when at least the size of the ring less three times the largest
  packet is kept. A new connection then gets exactly the packets in the ring, oldest first.
\<close>

theorem Writer_TailAppend_keeps_newest:
  assumes codec: "codec_ok env dec" and ring: "ring_ok M r bk fr"
    and l: "length data < 2 ^ 16" "length data + 6 \<le> ring_size r"
    and room: "tail_room data \<le> ring_size r" "tail_room data \<le> M" "M < 2 ^ 16"
  shows "\<exists>r' p bk' fr' k.
    Writer_TailAppend env t data (r, s) = Some (r', Writer_SendDataRaw env p s) \<and>
    packet_means dec (ucast t) data p \<and>
    ring_ok M r' bk' fr' \<and> ring_size r' = ring_size r \<and>
    bk' @ fr' = drop k (bk @ fr) @ [p] \<and>
    tail_fits (tail_room data) r bk fr k \<and> (\<forall>j < k. \<not> tail_fits (tail_room data) r bk fr j) \<and>
    (0 < k \<longrightarrow> ring_size r \<le> length (concat (bk' @ fr')) + 3 * M) \<and>
    Writer_TailOnConnect env r' s0 = Some (send_chunks env [concat bk', concat fr'] s0)"
proof -
  let ?n = "tail_room data" and ?pk = "tail_packet env t data"
  have n: "2 \<le> ?n" "?n < 2 ^ 16" using room by (auto simp: tail_room_def)
  obtain r1 p bk' fr' k d where a: "ring_AppendImpl ?n r = Some (Some p, r1)"
      "ring_room M r1 bk' fr' p ?n" "bk' @ fr' = drop k (bk @ fr)" "ring_size r1 = ring_size r"
      "ring_data r1 = Some d" "take 2 (drop p d) = le16 (of_nat ?n)"
      "0 < k \<longrightarrow> ring_size r \<le> length (concat (bk' @ fr')) + ?n + 2 * M"
      "tail_fits ?n r bk fr k" "\<forall>j < k. \<not> tail_fits ?n r bk fr j"
    using ring_AppendImpl_room [OF ring n(1) room(1,2)] by (elim exE conjE) (rule that; assumption)
  obtain A R B where f: "d = A @ R @ B" "length A = p" "length R = ?n" and
      fill: "\<And>pkt rest. length (pkt @ rest) = ?n \<Longrightarrow> packet_ok pkt \<Longrightarrow> length pkt \<le> M \<Longrightarrow>
        ring_ok M (r1\<lparr>ring_data := Some (A @ (pkt @ rest) @ B), ring_cursor := p + length pkt\<rparr>) bk' (fr' @ [pkt])"
    using ring_room_fill [OF a(2,5)] by metis
  have means: "packet_means dec (ucast t) data ?pk" and lp: "length ?pk \<le> ?n"
    using tail_packet_means [OF codec n(2) l(1)] by auto
  have sz: "ring_size r < 2 ^ 31" "ring_cursor r1 = p + ?n" "p + ?n \<le> ring_size r"
    using ring a(2,4) by (auto simp: ring_ok_def ring_room_def)
  have out: "length (encode env data (LZ4_COMPRESSBOUND (length data))) \<le> LZ4_COMPRESSBOUND (length data)"
    using codec by (simp add: codec_ok_def)
  obtain d0 where act: "ring_data r = Some d0"
    using ring by (auto simp: ring_ok_def)
  have app: "ring_AppendImpl ?n r = Some (Some (length A), r1)" and dr: "ring_data r1 = Some (A @ R @ B)"
    and t2: "take 2 R = le16 (of_nat ?n)"
    and cur: "ring_cursor r1 = length A + ?n" and lt: "length A + ?n < 2 ^ 32"
    using a(1,5,6) f sz n(1) by simp_all
  obtain rest where rest: "length (?pk @ rest) = ?n"
      "Writer_TailAppend env t data (r, s) =
         Some (r1\<lparr>ring_data := Some (A @ (?pk @ rest) @ B), ring_cursor := length A + length ?pk\<rparr>,
               Writer_SendDataRaw env ?pk s)"
    using Writer_TailAppend_room [OF act l(2) sz(1) n(2) l(1) out app dr f(3) t2 cur lt, of t s]
    by (elim exE conjE) (rule that; assumption)
  let ?r = "r1\<lparr>ring_data := Some (A @ (?pk @ rest) @ B), ring_cursor := length A + length ?pk\<rparr>"
  have ok: "ring_ok M ?r bk' (fr' @ [?pk])"
    using fill [OF rest(1)] means lp room(2) f(2) by (simp add: packet_means_def)
  have "0 < k \<longrightarrow> ring_size r \<le> length (concat (bk' @ fr' @ [?pk])) + 3 * M"
    using a(7) room(2) by auto
  then show ?thesis
    using rest(2) means ok a(3,4,8,9) Writer_TailOnConnect_packets [OF ok]
    by (intro exI [of _ ?r] exI [of _ ?pk] exI [of _ bk'] exI [of _ "fr' @ [?pk]"] exI [of _ k] conjI)
      simp_all
qed

text \<open>The ring starts empty, with at least 128 KiB.\<close>

lemma ring_Initialize_ok:
  assumes "length mem = n" and "n < 2 ^ 31"
  shows "ring_ok M (ring_Initialize n mem r) [] []"
  using assms by (simp add: ring_ok_def ring_Initialize_def ring_Reset_def)

lemma tail_buffer_size_ge: "128 * 1024 \<le> unat (tail_buffer_size b) \<and> unat (tail_buffer_size b) < 2 ^ 31"
proof -
  have "sint (tail_buffer_size b) \<ge> 128 * 1024"
    by (simp add: tail_buffer_size_def Let_def)
  moreover have lt: "sint (tail_buffer_size b) < 2 ^ 31"
    using sint_lt [of "tail_buffer_size b"] by simp
  ultimately have "uint (tail_buffer_size b) = sint (tail_buffer_size b)"
    by (simp add: uint_sint take_bit_int_eq_self)
  then show ?thesis
    using \<open>sint (tail_buffer_size b) \<ge> 128 * 1024\<close> lt by (simp add: unat_eq_nat_uint le_nat_iff nat_less_iff)
qed

definition sample_ring :: packet_ring where
  "sample_ring = ring_Initialize 24 (replicate 24 0) ring_null"

theorem Writer_TailAppend_keeps_newest_witness:
  "\<exists>r p bk fr. Writer_TailAppend stored_env 2 [1, 2, 3, 4, 5, 6, 7, 8] (sample_ring, sample_link) =
       Some (r, Writer_SendDataRaw stored_env p sample_link) \<and>
     packet_means stored_dec 2 [1, 2, 3, 4, 5, 6, 7, 8] p \<and> ring_ok 18 r bk fr \<and> bk @ fr = [p] \<and>
     Writer_TailOnConnect stored_env r sample_link =
       Some (send_chunks stored_env [concat bk, concat fr] sample_link)"
proof -
  have ok: "ring_ok 18 sample_ring [] []"
    unfolding sample_ring_def by (rule ring_Initialize_ok) simp_all
  have sz: "ring_size sample_ring = 24"
    by (simp add: sample_ring_def ring_Initialize_def ring_Reset_def)
  let ?a = "[1, 2, 3, 4, 5, 6, 7, 8] :: u8 list"
  have h: "length ?a < 2 ^ 16" "length ?a + 6 \<le> ring_size sample_ring"
    "tail_room ?a \<le> ring_size sample_ring" "tail_room ?a \<le> 18" "(18::nat) < 2 ^ 16"
    by (simp_all add: tail_room_def sz)
  obtain r p bk fr k where r: "Writer_TailAppend stored_env 2 ?a (sample_ring, sample_link) =
        Some (r, Writer_SendDataRaw stored_env p sample_link)"
      "packet_means stored_dec (ucast (2::u32)) ?a p" "ring_ok 18 r bk fr"
      "bk @ fr = drop k ([] @ []) @ [p]"
      "Writer_TailOnConnect stored_env r sample_link =
         Some (send_chunks stored_env [concat bk, concat fr] sample_link)"
    using Writer_TailAppend_keeps_newest [OF stored_codec_ok ok h, of 2 sample_link sample_link]
    by (elim exE conjE) (rule that; assumption)
  then show ?thesis
    by (intro exI [of _ r] exI [of _ p] exI [of _ bk] exI [of _ fr]) simp
qed

end
