(* ===== verification/Cache.thy ===== *)
theory Cache
  imports Tail
begin

text \<open>
  The cache of important events (Private/Trace/Important/Cache.cpp): a collector of 1 KiB that
  fills with the data of important events, and a chain of buffers of 64 KiB that keep the
  encoded collectors, so that a connection made later still receives all of it. A buffer is
  named by its address; None is undefined behaviour (a null pointer, an access outside a
  buffer, a read of the wrong member of the union).
\<close>

section \<open>Buffers\<close>

text \<open>
  A buffer is named by a number, its address. Next and TailNext share a union: TailNext is the
  place where the buffer will be linked in, the head of the list or the Next of another buffer.
\<close>

datatype link_place = Head_place | Next_of nat
datatype cache_link = Next_link "nat option" | Tail_next link_place

record cache_buffer =
  cb_link :: cache_link
  cb_size :: nat
  cb_remaining :: nat
  cb_data :: "u8 list"

record trace_cache =
  GCacheCollector :: "nat option"
  GCacheActiveBuffer :: "nat option"
  GCacheHeadBuffer :: "nat option"
  cb_at :: "nat \<Rightarrow> cache_buffer"
  cb_fresh :: nat

definition GCacheBufferSize :: nat where "GCacheBufferSize = 64 * 1024"
definition GCacheCollectorSize :: nat where "GCacheCollectorSize = 1024"

definition upd_cb :: "nat \<Rightarrow> (cache_buffer \<Rightarrow> cache_buffer) \<Rightarrow> trace_cache \<Rightarrow> trace_cache" where
  "upd_cb b f c = c\<lparr>cb_at := (cb_at c)(b := f (cb_at c b))\<rparr>"

text \<open>Allocation takes a fresh address; what the memory holds is the parameter \<open>mem\<close>.\<close>

definition Writer_CacheCreateBuffer ::
  "(nat \<Rightarrow> nat \<Rightarrow> u8 list) \<Rightarrow> nat \<Rightarrow> trace_cache \<Rightarrow> nat \<times> trace_cache" where
  "Writer_CacheCreateBuffer mem Size c =
     (let b = cb_fresh c in
      (b, c\<lparr>cb_at := (cb_at c)(b := \<lparr>cb_link = Next_link None, cb_size = Size,
              cb_remaining = Size, cb_data = mem b Size\<rparr>), cb_fresh := Suc b\<rparr>))"

definition store_place :: "link_place \<Rightarrow> nat \<Rightarrow> trace_cache \<Rightarrow> trace_cache" where
  "store_place pl b c =
     (case pl of Head_place \<Rightarrow> c\<lparr>GCacheHeadBuffer := Some b\<rparr>
      | Next_of a \<Rightarrow> upd_cb a (\<lambda>x. x\<lparr>cb_link := Next_link (Some b)\<rparr>) c)"

definition cb_used :: "cache_buffer \<Rightarrow> nat" where
  "cb_used x = (cb_size x + 2 ^ 32 - cb_remaining x) mod 2 ^ 32"

definition retire_active :: "(nat \<Rightarrow> nat \<Rightarrow> u8 list) \<Rightarrow> trace_cache \<Rightarrow> trace_cache option" where
  "retire_active mem c = do {
     a \<leftarrow> GCacheActiveBuffer c;
     pl \<leftarrow> (case cb_link (cb_at c a) of Tail_next pl \<Rightarrow> Some pl | Next_link _ \<Rightarrow> None);
     let c = store_place pl a c;
     let c = upd_cb a (\<lambda>x. x\<lparr>cb_link := Next_link None\<rparr>) c;
     let (n, c) = Writer_CacheCreateBuffer mem GCacheBufferSize c;
     let c = upd_cb n (\<lambda>x. x\<lparr>cb_link := Tail_next (Next_of a)\<rparr>) c;
     Some (c\<lparr>GCacheActiveBuffer := Some n\<rparr>) }"

definition commit_packet :: "trace_env \<Rightarrow> nat \<Rightarrow> nat \<Rightarrow> nat \<Rightarrow> trace_cache \<Rightarrow> trace_cache option" where
  "commit_packet env InputSize EncodeMaxSize Collector c = do {
     a \<leftarrow> GCacheActiveBuffer c;
     let used = cb_used (cb_at c a);
     input \<leftarrow> mem_read (cb_data (cb_at c Collector)) 0 InputSize;
     let out = Encode env input EncodeMaxSize;
     d \<leftarrow> mem_write (cb_data (cb_at c a)) used
            (tid_packet_encoded (of_nat (length out + sizeof_FTidPacketEncoded))
               (EncodedMarker OR ucast ETransportTid_Importants) (of_nat InputSize) out);
     let size = sizeof_FTidPacketEncoded + length out;
     Some (upd_cb a (\<lambda>x. x\<lparr>cb_data := d,
             cb_remaining := (cb_remaining x + 2 ^ 32 - size) mod 2 ^ 32\<rparr>) c) }"

definition Writer_CacheCommit ::
  "trace_env \<Rightarrow> (nat \<Rightarrow> nat \<Rightarrow> u8 list) \<Rightarrow> nat \<Rightarrow> trace_cache \<Rightarrow> trace_cache option" where
  "Writer_CacheCommit env mem Collector c = do {
     let InputSize = cb_used (cb_at c Collector);
     let EncodeMaxSize = GetEncodeMaxSize InputSize;
     a \<leftarrow> GCacheActiveBuffer c;
     c \<leftarrow> (if cb_remaining (cb_at c a) < EncodeMaxSize + sizeof_FTidPacketEncoded
           then retire_active mem c else Some c);
     commit_packet env InputSize EncodeMaxSize Collector c }"

text \<open>The copy loop: fill the collector, commit it when it is full, until all is copied.\<close>

partial_function (option) cache_copy ::
  "trace_env \<Rightarrow> (nat \<Rightarrow> nat \<Rightarrow> u8 list) \<Rightarrow> nat \<Rightarrow> u8 list \<Rightarrow> trace_cache \<Rightarrow> trace_cache option" where
  "cache_copy env mem col data c = do {
     let x = cb_at c col;
     let StepSize = (if length data < cb_remaining x then length data else cb_remaining x);
     d \<leftarrow> mem_write (cb_data x) (cb_used x) (take StepSize data);
     let c = upd_cb col (\<lambda>x. x\<lparr>cb_data := d, cb_remaining := cb_remaining x - StepSize\<rparr>) c;
     c \<leftarrow> (if cb_remaining (cb_at c col) = 0 then do {
             c \<leftarrow> Writer_CacheCommit env mem col c;
             Some (upd_cb col (\<lambda>x. x\<lparr>cb_remaining := cb_size x\<rparr>) c) }
           else Some c);
     if length data - StepSize = 0 then Some c
     else cache_copy env mem col (drop StepSize data) c }"

definition Writer_CacheData ::
  "trace_env \<Rightarrow> (nat \<Rightarrow> nat \<Rightarrow> u8 list) \<Rightarrow> u8 list \<Rightarrow> trace_cache \<times> 'a trace_link_scheme \<Rightarrow>
     (trace_cache \<times> 'a trace_link_scheme) option" where
  "Writer_CacheData env mem data cs =
     (let (c, s) = cs; s = Writer_SendData env ETransportTid_Importants data s in
      case GCacheCollector c of None \<Rightarrow> Some (c, s)
      | Some col \<Rightarrow> do { c \<leftarrow> cache_copy env mem col data c; Some (c, s) })"

partial_function (option) send_cached ::
  "trace_env \<Rightarrow> trace_cache \<Rightarrow> nat option \<Rightarrow> 'a trace_link_scheme \<Rightarrow> 'a trace_link_scheme option" where
  "send_cached env c b s =
     (case b of None \<Rightarrow> Some s
      | Some b \<Rightarrow> do {
          xs \<leftarrow> mem_read (cb_data (cb_at c b)) 0 (cb_used (cb_at c b));
          let s = Writer_SendDataRaw env xs s;
          next_b \<leftarrow> (case cb_link (cb_at c b) of Next_link n \<Rightarrow> Some n | Tail_next _ \<Rightarrow> None);
          send_cached env c next_b s })"

definition Writer_CacheOnConnect ::
  "trace_env \<Rightarrow> trace_cache \<Rightarrow> 'a trace_link_scheme \<Rightarrow> 'a trace_link_scheme option" where
  "Writer_CacheOnConnect env c s =
     (case GCacheCollector c of None \<Rightarrow> Some s
      | Some col \<Rightarrow> do {
          s \<leftarrow> send_cached env c (GCacheHeadBuffer c) s;
          a \<leftarrow> GCacheActiveBuffer c;
          s \<leftarrow> (if cb_used (cb_at c a) = 0 then Some s
                else do { xs \<leftarrow> mem_read (cb_data (cb_at c a)) 0 (cb_used (cb_at c a));
                          Some (Writer_SendDataRaw env xs s) });
          if cb_used (cb_at c col) = 0 then Some s
          else do { xs \<leftarrow> mem_read (cb_data (cb_at c col)) 0 (cb_used (cb_at c col));
                    Some (Writer_SendData env ETransportTid_Importants xs s) } })"

definition Writer_InitializeCache :: "(nat \<Rightarrow> nat \<Rightarrow> u8 list) \<Rightarrow> trace_cache \<Rightarrow> trace_cache" where
  "Writer_InitializeCache mem c =
     (let (col, c) = Writer_CacheCreateBuffer mem GCacheCollectorSize c;
          c = c\<lparr>GCacheCollector := Some col\<rparr>;
          (a, c) = Writer_CacheCreateBuffer mem GCacheBufferSize c;
          c = c\<lparr>GCacheActiveBuffer := Some a\<rparr>
      in upd_cb a (\<lambda>x. x\<lparr>cb_link := Tail_next Head_place\<rparr>) c)"

text \<open>The buffers that Writer_ShutdownCache frees, in the order it frees them.\<close>

partial_function (option) cache_list :: "trace_cache \<Rightarrow> nat option \<Rightarrow> nat list option" where
  "cache_list c b =
     (case b of None \<Rightarrow> Some []
      | Some b \<Rightarrow> do {
          next_b \<leftarrow> (case cb_link (cb_at c b) of Next_link n \<Rightarrow> Some n | Tail_next _ \<Rightarrow> None);
          bs \<leftarrow> cache_list c next_b;
          Some (b # bs) })"

definition Writer_ShutdownCache :: "trace_cache \<Rightarrow> nat option list option" where
  "Writer_ShutdownCache c = do {
     bs \<leftarrow> cache_list c (GCacheHeadBuffer c);
     Some (map Some bs @ [GCacheActiveBuffer c, GCacheCollector c]) }"


section \<open>What the cache holds\<close>

text \<open>
  A buffer holds a list of pieces of trace when its used part is one packet for each of them.
\<close>

definition buf_holds :: "(u8 list \<Rightarrow> u8 list option) \<Rightarrow> cache_buffer \<Rightarrow> u8 list list \<Rightarrow> bool" where
  "buf_holds dec x ds \<longleftrightarrow>
     length (cb_data x) = cb_size x \<and> cb_size x < 2 ^ 32 \<and> cb_remaining x \<le> cb_size x \<and>
     (\<exists>ps. take (cb_size x - cb_remaining x) (cb_data x) = concat ps \<and>
           list_all2 (\<lambda>p d. packet_means dec 1 d p) ps ds)"

primrec cchain :: "trace_cache \<Rightarrow> nat option \<Rightarrow> nat list \<Rightarrow> bool" where
  "cchain c p [] \<longleftrightarrow> p = None"
| "cchain c p (b # bs) \<longleftrightarrow> p = Some b \<and> (\<exists>n. cb_link (cb_at c b) = Next_link n \<and> cchain c n bs)"

definition cache_inv ::
  "(u8 list \<Rightarrow> u8 list option) \<Rightarrow> trace_cache \<Rightarrow> nat \<Rightarrow> nat \<Rightarrow> nat list \<Rightarrow> u8 list list list \<Rightarrow>
     u8 list list \<Rightarrow> u8 list \<Rightarrow> bool" where
  "cache_inv dec c col a bs dss ds cs \<longleftrightarrow>
     GCacheCollector c = Some col \<and> GCacheActiveBuffer c = Some a \<and> distinct (col # a # bs) \<and>
     (\<forall>b \<in> set (col # a # bs). b < cb_fresh c) \<and> cchain c (GCacheHeadBuffer c) bs \<and>
     cb_link (cb_at c a) = Tail_next (if bs = [] then Head_place else Next_of (last bs)) \<and>
     list_all2 (\<lambda>b ds. buf_holds dec (cb_at c b) ds) bs dss \<and>
     buf_holds dec (cb_at c a) ds \<and> cb_size (cb_at c a) = GCacheBufferSize \<and>
     length (cb_data (cb_at c col)) = GCacheCollectorSize \<and> cb_size (cb_at c col) = GCacheCollectorSize \<and>
     cb_remaining (cb_at c col) \<le> GCacheCollectorSize \<and>
     take (GCacheCollectorSize - cb_remaining (cb_at c col)) (cb_data (cb_at c col)) = cs"

lemma cb_used_eq: "cb_remaining x \<le> cb_size x \<Longrightarrow> cb_size x < 2 ^ 32 \<Longrightarrow>
    cb_used x = cb_size x - cb_remaining x"
proof -
  assume a: "cb_remaining x \<le> cb_size x" "cb_size x < 2 ^ 32"
  then have "cb_size x + 2 ^ 32 - cb_remaining x = cb_size x - cb_remaining x + 2 ^ 32" by simp
  moreover have "(cb_size x - cb_remaining x + 2 ^ 32) mod 2 ^ 32 = cb_size x - cb_remaining x"
    using a by (subst mod_add_self2) (rule mod_less, simp)
  ultimately show ?thesis by (simp only: cb_used_def)
qed

lemma cchain_frame:
  "\<lbrakk>\<And>b. b \<in> set bs \<Longrightarrow> cb_link (cb_at c' b) = cb_link (cb_at c b)\<rbrakk> \<Longrightarrow> cchain c' p bs \<longleftrightarrow> cchain c p bs"
  by (induction bs arbitrary: p) auto

text \<open>Linking a buffer in at the end of the chain.\<close>

lemma cchain_store_place:
  assumes "cchain c p bs" and "distinct (a # bs)" and "bs \<noteq> []"
    and "cb_link (cb_at c' (last bs)) = Next_link (Some a)" and "cb_link (cb_at c' a) = Next_link None"
    and "\<And>b. b \<in> set (butlast bs) \<Longrightarrow> cb_link (cb_at c' b) = cb_link (cb_at c b)"
  shows "cchain c' p (bs @ [a])"
  using assms
proof (induction bs arbitrary: p)
  case (Cons b bs)
  then show ?case by (cases bs) (auto split: if_splits)
qed simp

lemma buf_holds_link [simp]: "buf_holds dec (x\<lparr>cb_link := l\<rparr>) ds = buf_holds dec x ds"
  by (simp add: buf_holds_def)

lemma buf_holds_fresh:
  assumes "\<forall>b n. length (mem b n) = n"
  shows "buf_holds dec \<lparr>cb_link = l, cb_size = GCacheBufferSize, cb_remaining = GCacheBufferSize,
           cb_data = mem b GCacheBufferSize\<rparr> []"
  using assms by (simp add: buf_holds_def GCacheBufferSize_def)

lemma retire_active_inv:
  assumes inv: "cache_inv dec c col a bs dss ds cs" and mem: "\<forall>b n. length (mem b n) = n"
  shows "\<exists>c'. retire_active mem c = Some c' \<and>
     cache_inv dec c' col (cb_fresh c) (bs @ [a]) (dss @ [ds]) [] cs \<and>
     cb_at c' col = cb_at c col \<and> cb_remaining (cb_at c' (cb_fresh c)) = GCacheBufferSize"
proof -
  have i: "GCacheCollector c = Some col" "GCacheActiveBuffer c = Some a" "distinct (col # a # bs)"
      "\<forall>b \<in> set (col # a # bs). b < cb_fresh c" "cchain c (GCacheHeadBuffer c) bs"
      "cb_link (cb_at c a) = Tail_next (if bs = [] then Head_place else Next_of (last bs))"
      "list_all2 (\<lambda>b ds. buf_holds dec (cb_at c b) ds) bs dss" "buf_holds dec (cb_at c a) ds"
    using inv unfolding cache_inv_def by blast+
  obtain pl where pl: "pl = (if bs = [] then Head_place else Next_of (last bs))" by simp
  have i6: "cb_link (cb_at c a) = Tail_next pl" using i(6) pl by simp
  let ?n = "cb_fresh c"
  let ?c1 = "store_place pl a c"
  let ?c2 = "upd_cb a (\<lambda>x. x\<lparr>cb_link := Next_link None\<rparr>) ?c1"
  let ?c3 = "snd (Writer_CacheCreateBuffer mem GCacheBufferSize ?c2)"
  let ?c4 = "upd_cb ?n (\<lambda>x. x\<lparr>cb_link := Tail_next (Next_of a)\<rparr>) ?c3"
  let ?c' = "?c4\<lparr>GCacheActiveBuffer := Some ?n\<rparr>"
  have fr: "cb_fresh ?c1 = ?n" "cb_fresh ?c2 = ?n"
    by (simp_all add: store_place_def upd_cb_def split: link_place.split)
  have cr: "fst (Writer_CacheCreateBuffer mem GCacheBufferSize ?c2) = ?n"
    using fr by (simp add: Writer_CacheCreateBuffer_def Let_def)
  have run: "retire_active mem c = Some ?c'"
    using i(2) i6 cr by (simp add: retire_active_def Let_def case_prod_beta)
  have neq: "col \<noteq> ?n" "a \<noteq> ?n" "col \<noteq> a" "?n \<notin> set bs" "a \<notin> set bs" "col \<notin> set bs" "distinct bs"
    using i(3,4) by auto
  have at: "cb_at ?c' b = (if b = ?n then \<lparr>cb_link = Tail_next (Next_of a), cb_size = GCacheBufferSize,
              cb_remaining = GCacheBufferSize, cb_data = mem ?n GCacheBufferSize\<rparr>
            else if b = a then (cb_at c a)\<lparr>cb_link := Next_link None\<rparr>
            else if bs \<noteq> [] \<and> b = last bs then (cb_at c b)\<lparr>cb_link := Next_link (Some a)\<rparr>
            else cb_at c b)" for b
    using fr neq pl by (auto simp: Writer_CacheCreateBuffer_def upd_cb_def store_place_def Let_def last_in_set)
  have hd: "GCacheHeadBuffer ?c' = (if bs = [] then Some a else GCacheHeadBuffer c)"
      "GCacheCollector ?c' = Some col" "GCacheActiveBuffer ?c' = Some ?n" "cb_fresh ?c' = Suc ?n"
    using i(1) fr pl by (simp_all add: Writer_CacheCreateBuffer_def upd_cb_def store_place_def Let_def)
  have lastne: "col \<noteq> last bs" "a \<noteq> last bs" "?n \<noteq> last bs" if "bs \<noteq> []"
    using neq that last_in_set by metis+
  have chain: "cchain ?c' (GCacheHeadBuffer ?c') (bs @ [a])"
  proof (cases "bs = []")
    case True
    then show ?thesis using hd(1) at [of a] neq by simp
  next
    case False
    have "cb_link (cb_at ?c' b) = cb_link (cb_at c b)" if "b \<in> set (butlast bs)" for b
    proof -
      have "b \<noteq> last bs"
        using that neq(7) False by (metis append_butlast_last_id distinct_append disjoint_iff list.set_intros(1))
      then show ?thesis using at [of b] neq in_set_butlastD [OF that] by auto
    qed
    moreover have "cb_link (cb_at ?c' (last bs)) = Next_link (Some a)"
      using at [of "last bs"] lastne [OF False] False by simp
    moreover have "cb_link (cb_at ?c' a) = Next_link None"
      using at [of a] neq(2) by simp
    ultimately show ?thesis
      unfolding hd(1) using False neq(5,7)
      by (simp only: if_False) (rule cchain_store_place [OF i(5)], simp, blast+)
  qed
  have bufs: "list_all2 (\<lambda>b ds. buf_holds dec (cb_at ?c' b) ds) (bs @ [a]) (dss @ [ds])"
  proof -
    have "list_all2 (\<lambda>b ds. buf_holds dec (cb_at ?c' b) ds) bs dss"
      using i(7)
    proof (rule list.rel_mono_strong)
      fix b e assume "b \<in> set bs" and "buf_holds dec (cb_at c b) e"
      then show "buf_holds dec (cb_at ?c' b) e"
        using at [of b] neq by auto
    qed
    then show ?thesis using i(8) at [of a] neq by (simp add: list_all2_appendI)
  qed
  have colat: "cb_at ?c' col = cb_at c col"
    using at [of col] neq lastne by auto
  have "cache_inv dec ?c' col ?n (bs @ [a]) (dss @ [ds]) [] cs"
    unfolding cache_inv_def
    using hd chain bufs colat at [of ?n] neq i(4) inv buf_holds_fresh [OF mem]
    by (auto simp: cache_inv_def)
  then show ?thesis
    using run colat at [of ?n] by (intro exI [of _ ?c']) simp
qed

lemma take_written: "length xs = u \<Longrightarrow> take (u + length p) (xs @ p @ r) = xs @ p"
  by simp

lemma buf_holds_append:
  assumes holds: "buf_holds dec x ds" and means: "packet_means dec 1 d p"
    and len: "length p \<le> cb_remaining x"
  shows "\<exists>e. mem_write (cb_data x) (cb_used x) p = Some e \<and>
     buf_holds dec (x\<lparr>cb_data := e, cb_remaining := cb_remaining x - length p\<rparr>) (ds @ [d])"
proof -
  obtain ps where h: "length (cb_data x) = cb_size x" "cb_size x < 2 ^ 32" "cb_remaining x \<le> cb_size x"
      "take (cb_size x - cb_remaining x) (cb_data x) = concat ps"
      "list_all2 (\<lambda>p d. packet_means dec 1 d p) ps ds"
    using holds by (auto simp: buf_holds_def)
  let ?u = "cb_size x - cb_remaining x"
  have u: "cb_used x = ?u" using cb_used_eq [OF h(3,2)] .
  have fit: "?u + length p \<le> length (cb_data x)" using h(1,3) len by linarith
  obtain e where e: "e = take ?u (cb_data x) @ p @ drop (?u + length p) (cb_data x)" by simp
  have w: "mem_write (cb_data x) ?u p = Some e" unfolding e using fit by (rule mem_write_Some)
  have le: "length e = cb_size x" unfolding e using fit h(1) by simp
  have "cb_size x - (cb_remaining x - length p) = ?u + length p" using h(3) len by linarith
  then have "take (cb_size x - (cb_remaining x - length p)) e = take ?u (cb_data x) @ p"
    unfolding e using take_written [of "take ?u (cb_data x)" ?u p] h(1) by simp
  then have "take (cb_size x - (cb_remaining x - length p)) e = concat (ps @ [p])"
    using h(4) by simp
  moreover have "list_all2 (\<lambda>p d. packet_means dec 1 d p) (ps @ [p]) (ds @ [d])"
    using h(5) means by (simp add: list_all2_appendI)
  ultimately have "buf_holds dec (x\<lparr>cb_data := e, cb_remaining := cb_remaining x - length p\<rparr>) (ds @ [d])"
    unfolding buf_holds_def using le h(2,3)
    by (intro conjI exI [of _ "ps @ [p]"]) simp_all
  then show ?thesis using w u by auto
qed

lemma important_tid: "(EncodedMarker OR ucast ETransportTid_Importants) AND ThreadIdMask = 1 AND ThreadIdMask"
    "(EncodedMarker OR ucast ETransportTid_Importants) AND EncodedMarker \<noteq> 0"
  by (simp_all add: wire_consts)

lemma important_packet_means:
  assumes "codec_ok env dec" and "cs \<noteq> []" and "length cs \<le> GCacheCollectorSize"
  defines "out \<equiv> encode env cs (GetEncodeMaxSize (length cs))"
  defines "p \<equiv> tid_packet_encoded (of_nat (length out + 6)) (EncodedMarker OR ucast ETransportTid_Importants)
    (of_nat (length cs)) out"
  shows "packet_means dec 1 cs p \<and> length p = length out + 6 \<and> length out \<le> GetEncodeMaxSize (length cs)"
proof -
  have l: "length cs \<le> 1024" using assms(3) by (simp add: GCacheCollectorSize_def)
  have "out \<noteq> []" using assms(1,2) l
    by (simp add: out_def codec_ok_def GetEncodeMaxSize_def)
  then have d: "dec out = Some cs" and lo: "length out \<le> GetEncodeMaxSize (length cs)"
    using assms(1) by (auto simp: codec_ok_def out_def)
  have b: "GetEncodeMaxSize (length cs) \<le> 1024 + 4 + 16"
    using l by (simp add: GetEncodeMaxSize_def LZ4_COMPRESSBOUND_def)
  have "packet_means dec (EncodedMarker OR ucast ETransportTid_Importants) cs p"
    unfolding p_def by (rule tid_packet_encoded_means) (use d lo b l important_tid(2) in simp_all)
  then show ?thesis
    using lo important_tid(1) by (simp add: packet_means_def p_def tid_packet_encoded_def)
qed

lemma commit_packet_inv:
  assumes codec: "codec_ok env dec" and inv: "cache_inv dec c col a bs dss ds cs" and ne: "cs \<noteq> []"
    and room: "GetEncodeMaxSize (length cs) + 6 \<le> cb_remaining (cb_at c a)"
  shows "\<exists>c'. commit_packet env (length cs) (GetEncodeMaxSize (length cs)) col c = Some c' \<and>
     cache_inv dec c' col a bs dss (ds @ [cs]) cs \<and> cb_at c' col = cb_at c col"
proof -
  have i: "GCacheCollector c = Some col" "GCacheActiveBuffer c = Some a" "distinct (col # a # bs)"
      "cchain c (GCacheHeadBuffer c) bs"
      "list_all2 (\<lambda>b ds. buf_holds dec (cb_at c b) ds) bs dss" "buf_holds dec (cb_at c a) ds"
      "length (cb_data (cb_at c col)) = GCacheCollectorSize" "cb_remaining (cb_at c col) \<le> GCacheCollectorSize"
      "take (GCacheCollectorSize - cb_remaining (cb_at c col)) (cb_data (cb_at c col)) = cs"
      "\<forall>b \<in> set (col # a # bs). b < cb_fresh c" "cb_size (cb_at c a) = GCacheBufferSize"
      "cb_link (cb_at c a) = Tail_next (if bs = [] then Head_place else Next_of (last bs))"
      "cb_size (cb_at c col) = GCacheCollectorSize"
    using inv unfolding cache_inv_def by blast+
  have lc: "length cs = GCacheCollectorSize - cb_remaining (cb_at c col)"
    using i(7) by (simp flip: i(9))
  then have rd: "mem_read (cb_data (cb_at c col)) 0 (length cs) = Some cs"
    using i(7,9) by (simp add: mem_read_def)
  let ?x = "cb_at c a" and ?out = "encode env cs (GetEncodeMaxSize (length cs))"
  let ?p = "tid_packet_encoded (of_nat (length ?out + 6)) (EncodedMarker OR ucast ETransportTid_Importants)
    (of_nat (length cs)) ?out"
  have p: "packet_means dec 1 cs ?p" "length ?p = length ?out + 6" "length ?out \<le> GetEncodeMaxSize (length cs)"
    using important_packet_means [OF codec ne] lc by auto
  then obtain e where e: "mem_write (cb_data ?x) (cb_used ?x) ?p = Some e"
      "buf_holds dec (?x\<lparr>cb_data := e, cb_remaining := cb_remaining ?x - length ?p\<rparr>) (ds @ [cs])"
    using buf_holds_append [OF i(6) p(1)] room by auto
  have rem: "(cb_remaining ?x + 2 ^ 32 - (6 + length ?out)) mod 2 ^ 32 = cb_remaining ?x - length ?p"
  proof -
    have "cb_remaining ?x < 2 ^ 32" using i(6) by (auto simp: buf_holds_def)
    then have "(cb_remaining ?x - length ?p + 2 ^ 32) mod 2 ^ 32 = cb_remaining ?x - length ?p"
      by (subst mod_add_self2) (rule mod_less, simp)
    moreover have "cb_remaining ?x + 2 ^ 32 - (6 + length ?out) = cb_remaining ?x - length ?p + 2 ^ 32"
      using p(2,3) room by simp
    ultimately show ?thesis by (simp only:)
  qed
  let ?c' = "upd_cb a (\<lambda>x. x\<lparr>cb_data := e,
      cb_remaining := (cb_remaining x + 2 ^ 32 - (6 + length ?out)) mod 2 ^ 32\<rparr>) c"
  have run: "commit_packet env (length cs) (GetEncodeMaxSize (length cs)) col c = Some ?c'"
    using i(2) rd e(1) by (simp add: commit_packet_def Encode_def sizeof_FTidPacketEncoded_def Let_def add.commute)
  have at: "cb_at ?c' b = (if b = a then ?x\<lparr>cb_data := e, cb_remaining := cb_remaining ?x - length ?p\<rparr>
      else cb_at c b)" for b
    using rem by (simp add: upd_cb_def)
  have ne2: "a \<noteq> col" "a \<notin> set bs" using i(3) by auto
  have chain: "cchain ?c' (GCacheHeadBuffer ?c') bs"
  proof -
    have "cb_link (cb_at ?c' b) = cb_link (cb_at c b)" for b using at [of b] by simp
    then have "cchain ?c' p bs = cchain c p bs" for p by (rule cchain_frame)
    then show ?thesis using i(4) by (simp add: upd_cb_def)
  qed
  have bufs: "list_all2 (\<lambda>b ds. buf_holds dec (cb_at ?c' b) ds) bs dss"
    using i(5)
  proof (rule list.rel_mono_strong)
    fix b f assume "b \<in> set bs" and "buf_holds dec (cb_at c b) f"
    then show "buf_holds dec (cb_at ?c' b) f" using at [of b] ne2 by auto
  qed
  have "cache_inv dec ?c' col a bs dss (ds @ [cs]) cs"
    unfolding cache_inv_def
  proof (intro conjI)
    show "buf_holds dec (cb_at ?c' a) (ds @ [cs])" unfolding at using e(2) by simp
    show "cb_link (cb_at ?c' a) = Tail_next (if bs = [] then Head_place else Next_of (last bs))"
      unfolding at using i(12) by simp
    show "cb_size (cb_at ?c' a) = GCacheBufferSize" unfolding at using i(11) by simp
    have "cb_at ?c' col = cb_at c col" using at [of col] ne2 by simp
    then show "length (cb_data (cb_at ?c' col)) = GCacheCollectorSize"
      "cb_size (cb_at ?c' col) = GCacheCollectorSize"
      "cb_remaining (cb_at ?c' col) \<le> GCacheCollectorSize"
      "take (GCacheCollectorSize - cb_remaining (cb_at ?c' col)) (cb_data (cb_at ?c' col)) = cs"
      using i(7,8,9,13) by simp_all
  qed (use chain bufs i(1,2,3,10) in \<open>simp_all add: upd_cb_def\<close>)
  then show ?thesis using run at [of col] ne2 by (intro exI [of _ ?c']) simp
qed

lemma Writer_CacheCommit_inv:
  assumes codec: "codec_ok env dec" and mem: "\<forall>b n. length (mem b n) = n"
    and inv: "cache_inv dec c col a bs dss ds cs" and ne: "cs \<noteq> []"
  shows "\<exists>c' a' bs' dss' ds'. Writer_CacheCommit env mem col c = Some c' \<and>
     cache_inv dec c' col a' bs' dss' ds' cs \<and> cb_at c' col = cb_at c col \<and>
     concat dss' @ ds' = (concat dss @ ds) @ [cs]"
proof -
  have i: "GCacheActiveBuffer c = Some a"
      "length (cb_data (cb_at c col)) = GCacheCollectorSize" "cb_size (cb_at c col) = GCacheCollectorSize"
      "cb_remaining (cb_at c col) \<le> GCacheCollectorSize"
      "take (GCacheCollectorSize - cb_remaining (cb_at c col)) (cb_data (cb_at c col)) = cs"
    using inv unfolding cache_inv_def by blast+
  have lc: "length cs = GCacheCollectorSize - cb_remaining (cb_at c col)"
    using i(2) by (simp flip: i(5))
  have "cb_used (cb_at c col) = cb_size (cb_at c col) - cb_remaining (cb_at c col)"
    by (rule cb_used_eq) (use i(3,4) in \<open>simp_all add: GCacheCollectorSize_def\<close>)
  then have used: "cb_used (cb_at c col) = length cs" using lc i(3) by simp
  have l: "length cs \<le> 1024" using lc by (simp add: GCacheCollectorSize_def)
  then have "length cs div 255 \<le> 1024 div 255" by (rule div_le_mono)
  then have b: "GetEncodeMaxSize (length cs) + 6 \<le> GCacheBufferSize"
    using l by (simp add: GetEncodeMaxSize_def LZ4_COMPRESSBOUND_def GCacheBufferSize_def GCacheCollectorSize_def)
  let ?M = "GetEncodeMaxSize (length cs)"
  show ?thesis
  proof (cases "cb_remaining (cb_at c a) < ?M + sizeof_FTidPacketEncoded")
    case False
    then have "?M + 6 \<le> cb_remaining (cb_at c a)" by (simp add: sizeof_FTidPacketEncoded_def)
    from commit_packet_inv [OF codec inv ne this] obtain c' where c':
        "commit_packet env (length cs) ?M col c = Some c'"
        "cache_inv dec c' col a bs dss (ds @ [cs]) cs" "cb_at c' col = cb_at c col" by blast
    have "Writer_CacheCommit env mem col c = Some c'"
      using False c'(1) i(1) used by (simp add: Writer_CacheCommit_def Let_def)
    then show ?thesis using c' by (metis append.assoc)
  next
    case True
    obtain c1 where c1: "retire_active mem c = Some c1"
        "cache_inv dec c1 col (cb_fresh c) (bs @ [a]) (dss @ [ds]) [] cs"
        "cb_at c1 col = cb_at c col" "cb_remaining (cb_at c1 (cb_fresh c)) = GCacheBufferSize"
      using retire_active_inv [OF inv mem] by blast
    have "?M + 6 \<le> cb_remaining (cb_at c1 (cb_fresh c))" using b c1(4) by simp
    from commit_packet_inv [OF codec c1(2) ne this] obtain c' where c':
        "commit_packet env (length cs) ?M col c1 = Some c'"
        "cache_inv dec c' col (cb_fresh c) (bs @ [a]) (dss @ [ds]) ([] @ [cs]) cs"
        "cb_at c' col = cb_at c1 col" by blast
    have "Writer_CacheCommit env mem col c = Some c'"
      using True c1(1) c'(1) i(1) used by (simp add: Writer_CacheCommit_def Let_def)
    moreover have "concat (dss @ [ds]) @ ([] @ [cs]) = (concat dss @ ds) @ [cs]" by simp
    ultimately show ?thesis using c' c1(3) by metis
  qed
qed

text \<open>Updates of the collector alone.\<close>

lemma cache_inv_collector:
  assumes inv: "cache_inv dec c col a bs dss ds cs"
    and x: "length (cb_data x) = GCacheCollectorSize" "cb_size x = GCacheCollectorSize"
      "cb_remaining x \<le> GCacheCollectorSize"
      "take (GCacheCollectorSize - cb_remaining x) (cb_data x) = cs'"
  shows "cache_inv dec (upd_cb col (\<lambda>_. x) c) col a bs dss ds cs'"
proof -
  let ?c' = "upd_cb col (\<lambda>_. x) c"
  have i: "GCacheCollector c = Some col" "GCacheActiveBuffer c = Some a" "distinct (col # a # bs)"
      "\<forall>b \<in> set (col # a # bs). b < cb_fresh c" "cchain c (GCacheHeadBuffer c) bs"
      "cb_link (cb_at c a) = Tail_next (if bs = [] then Head_place else Next_of (last bs))"
      "list_all2 (\<lambda>b ds. buf_holds dec (cb_at c b) ds) bs dss" "buf_holds dec (cb_at c a) ds"
      "cb_size (cb_at c a) = GCacheBufferSize"
    using inv unfolding cache_inv_def by blast+
  have at: "cb_at ?c' b = (if b = col then x else cb_at c b)" for b by (simp add: upd_cb_def)
  have ne: "a \<noteq> col" "col \<notin> set bs" using i(3) by auto
  have "cchain ?c' p bs = cchain c p bs" for p
    by (rule cchain_frame) (use at ne in auto)
  then have chain: "cchain ?c' (GCacheHeadBuffer ?c') bs" using i(5) by (simp add: upd_cb_def)
  have bufs: "list_all2 (\<lambda>b ds. buf_holds dec (cb_at ?c' b) ds) bs dss"
    using i(7)
  proof (rule list.rel_mono_strong)
    fix b f assume "b \<in> set bs" and "buf_holds dec (cb_at c b) f"
    then show "buf_holds dec (cb_at ?c' b) f" using at [of b] ne by auto
  qed
  show ?thesis
    unfolding cache_inv_def
    by (intro conjI) (use chain bufs i x ne in \<open>simp_all add: upd_cb_def\<close>)
qed

lemma take_append_write:
  assumes "length d = n" "u + length xs \<le> n"
  shows "take (u + length xs) (take u d @ xs @ drop (u + length xs) d) = take u d @ xs"
  using assms by (cases xs) (simp_all add: min_def)

lemma cache_copy_step:
  assumes "n = (if length data < cb_remaining (cb_at c col) then length data else cb_remaining (cb_at c col))"
    and "mem_write (cb_data (cb_at c col)) (cb_used (cb_at c col)) (take n data) = Some d"
    and "c1 = upd_cb col (\<lambda>x. x\<lparr>cb_data := d, cb_remaining := cb_remaining x - n\<rparr>) c"
    and "(if cb_remaining (cb_at c1 col) = 0 then do {
             c \<leftarrow> Writer_CacheCommit env mem col c1;
             Some (upd_cb col (\<lambda>x. x\<lparr>cb_remaining := cb_size x\<rparr>) c) }
           else Some c1) = Some c2"
  shows "cache_copy env mem col data c =
     (if length data - n = 0 then Some c2 else cache_copy env mem col (drop n data) c2)"
  unfolding cache_copy.simps [of env mem col data c] Let_def assms(1) [symmetric] assms(2)
    Option.bind.bind_lunit assms(3) [symmetric] assms(4)
  by (rule refl)

text \<open>Everything that is copied ends up in packets or in the collector, in order.\<close>

lemma cache_copy_inv:
  assumes "codec_ok env dec" and "\<forall>b n. length (mem b n) = n"
    and "cache_inv dec c col a bs dss ds cs" and "length cs < GCacheCollectorSize"
  shows "\<exists>c' a' bs' dss' ds' cs'. cache_copy env mem col data c = Some c' \<and>
     cache_inv dec c' col a' bs' dss' ds' cs' \<and> length cs' < GCacheCollectorSize \<and>
     concat (concat dss' @ ds') @ cs' = concat (concat dss @ ds) @ cs @ data"
  using assms(3,4)
proof (induction data arbitrary: c a bs dss ds cs rule: length_induct)
  case (1 data)
  let ?x = "cb_at c col" and ?S = GCacheCollectorSize
  have i: "length (cb_data ?x) = ?S" "cb_size ?x = ?S" "cb_remaining ?x \<le> ?S"
      "take (?S - cb_remaining ?x) (cb_data ?x) = cs"
    using "1.prems"(1) unfolding cache_inv_def by blast+
  have lc: "length cs = ?S - cb_remaining ?x" using i(1) by (simp flip: i(4))
  have r0: "0 < cb_remaining ?x" using lc "1.prems"(2) by linarith
  have "cb_used ?x = cb_size ?x - cb_remaining ?x"
    by (rule cb_used_eq) (use i(2,3) in \<open>simp_all add: GCacheCollectorSize_def\<close>)
  then have used: "cb_used ?x = length cs" using lc i(2) by simp
  define n where "n = (if length data < cb_remaining ?x then length data else cb_remaining ?x)"
  have n: "n \<le> length data" "n \<le> cb_remaining ?x" by (auto simp: n_def)
  have ln: "length (take n data) = n" using n(1) by simp
  have fit: "length cs + length (take n data) \<le> length (cb_data ?x)" using lc ln n(2) i(1,3) by linarith
  obtain e where e: "e = take (length cs) (cb_data ?x) @ take n data @ drop (length cs + length (take n data)) (cb_data ?x)"
    by simp
  have w: "mem_write (cb_data ?x) (cb_used ?x) (take n data) = Some e"
    unfolding e used using fit by (rule mem_write_Some)
  have le: "length e = ?S" unfolding e using fit i(1) by simp
  let ?y = "?x\<lparr>cb_data := e, cb_remaining := cb_remaining ?x - n\<rparr>"
  let ?c1 = "upd_cb col (\<lambda>x. x\<lparr>cb_data := e, cb_remaining := cb_remaining x - n\<rparr>) c"
  have c1: "?c1 = upd_cb col (\<lambda>_. ?y) c" by (simp add: upd_cb_def)
  have tk: "take (?S - cb_remaining ?y) (cb_data ?y) = cs @ take n data"
  proof -
    have "?S - (cb_remaining ?x - n) = length cs + length (take n data)" using lc ln n(2) i(3) by linarith
    moreover have "take (length cs) (cb_data ?x) = cs" using i(4) lc by simp
    ultimately show ?thesis
      using take_append_write [OF i(1), of "length cs" "take n data"] fit i(1) by (simp add: e)
  qed
  have inv1: "cache_inv dec ?c1 col a bs dss ds (cs @ take n data)"
    unfolding c1 by (rule cache_inv_collector [OF "1.prems"(1)]) (use le i tk in simp_all)
  have at1: "cb_at ?c1 col = ?y" by (simp add: upd_cb_def)
  have len1: "length (cs @ take n data) = ?S - cb_remaining ?y"
    using lc ln n(2) i(3) by simp
  show ?case
  proof (cases "cb_remaining ?x - n = 0")
    case False
    then have all: "n = length data" and more: "length (cs @ take n data) < ?S"
      using len1 i(3) n r0 by (auto simp: n_def split: if_splits)
    have "cache_copy env mem col data c = Some ?c1"
      using False all at1 by (subst cache_copy_step [OF n_def w refl]) simp_all
    moreover have "concat (concat dss @ ds) @ (cs @ take n data) = concat (concat dss @ ds) @ cs @ data"
      using all by simp
    ultimately show ?thesis using inv1 more by (intro exI conjI)
  next
    case True
    have ne: "cs @ take n data \<noteq> []" using len1 True by (auto simp: GCacheCollectorSize_def)
    obtain c2 a2 bs2 dss2 ds2 where c2: "Writer_CacheCommit env mem col ?c1 = Some c2"
        "cache_inv dec c2 col a2 bs2 dss2 ds2 (cs @ take n data)" "cb_at c2 col = cb_at ?c1 col"
        "concat dss2 @ ds2 = (concat dss @ ds) @ [cs @ take n data]"
      using Writer_CacheCommit_inv [OF assms(1,2) inv1 ne] by (elim exE conjE) (rule that; assumption)
    let ?z = "?y\<lparr>cb_remaining := cb_size ?y\<rparr>"
    let ?c3 = "upd_cb col (\<lambda>x. x\<lparr>cb_remaining := cb_size x\<rparr>) c2"
    have c3: "?c3 = upd_cb col (\<lambda>_. ?z) c2" using c2(3) at1 by (simp add: upd_cb_def)
    have inv3: "cache_inv dec ?c3 col a2 bs2 dss2 ds2 []"
      unfolding c3 by (rule cache_inv_collector [OF c2(2)]) (use le i in simp_all)
    have step: "cache_copy env mem col data c =
        (if length data - n = 0 then Some ?c3 else cache_copy env mem col (drop n data) ?c3)"
      by (rule cache_copy_step [OF n_def w refl]) (use True at1 c2(1) in simp)
    have all: "concat (concat dss2 @ ds2) = concat (concat dss @ ds) @ cs @ take n data"
      by (simp add: c2(4) del: concat_append) simp
    show ?thesis
    proof (cases "length data - n = 0")
      case T: True
      then show ?thesis
        using step inv3 all n(1)
        by (intro exI [of _ ?c3] exI [of _ a2] exI [of _ bs2] exI [of _ dss2] exI [of _ ds2] exI [of _ "[]"])
          (simp add: GCacheCollectorSize_def)
    next
      case F: False
      have "0 < n" using True r0 n by simp
      then have "length (drop n data) < length data" using F by simp
      with "1.IH" inv3 obtain c' a' bs' dss' ds' cs' where
          "cache_copy env mem col (drop n data) ?c3 = Some c'" "cache_inv dec c' col a' bs' dss' ds' cs'"
          "length cs' < ?S" "concat (concat dss' @ ds') @ cs' = concat (concat dss2 @ ds2) @ [] @ drop n data"
        by (metis (no_types, lifting) list.size(3) zero_less_numeral GCacheCollectorSize_def)
      moreover have "concat (concat dss2 @ ds2) @ drop n data = concat (concat dss @ ds) @ cs @ data"
        by (simp only: all append.assoc append_take_drop_id)
      ultimately show ?thesis
        using step F
        by (intro exI [of _ c'] exI [of _ a'] exI [of _ bs'] exI [of _ dss'] exI [of _ ds'] exI [of _ cs'])
          simp
    qed
  qed
qed


section \<open>The cache as one sequence of bytes\<close>

text \<open>
  \<open>cache_holds dec c all\<close>: the cache stands for the bytes \<open>all\<close>, some of them in packets and
  the rest, less than the collector's size, not yet encoded.
\<close>

definition cache_holds :: "(u8 list \<Rightarrow> u8 list option) \<Rightarrow> trace_cache \<Rightarrow> u8 list \<Rightarrow> bool" where
  "cache_holds dec c all \<longleftrightarrow> (\<exists>col a bs dss ds cs. cache_inv dec c col a bs dss ds cs \<and>
     length cs < GCacheCollectorSize \<and> all = concat (concat dss @ ds) @ cs)"

text \<open>A stream of bytes that reads as packets of important data.\<close>

definition important_stream :: "(u8 list \<Rightarrow> u8 list option) \<Rightarrow> u8 list \<Rightarrow> u8 list list \<Rightarrow> bool" where
  "important_stream dec xs ds \<longleftrightarrow>
     (\<exists>ps. xs = concat ps \<and> list_all2 (\<lambda>p d. packet_means dec 1 d p) ps ds)"

lemma important_stream_append:
  "important_stream dec xs ds \<Longrightarrow> important_stream dec ys es \<Longrightarrow> important_stream dec (xs @ ys) (ds @ es)"
  unfolding important_stream_def by (metis concat_append list_all2_appendI)

lemma buf_holds_stream:
  assumes "buf_holds dec x ds"
  shows "\<exists>xs. mem_read (cb_data x) 0 (cb_used x) = Some xs \<and> important_stream dec xs ds \<and>
     (cb_used x = 0 \<longrightarrow> xs = [])"
proof -
  obtain ps where h: "length (cb_data x) = cb_size x" "cb_size x < 2 ^ 32" "cb_remaining x \<le> cb_size x"
      "take (cb_size x - cb_remaining x) (cb_data x) = concat ps"
      "list_all2 (\<lambda>p d. packet_means dec 1 d p) ps ds"
    using assms by (auto simp: buf_holds_def)
  then show ?thesis
    using cb_used_eq [OF h(3,2)] by (auto simp: mem_read_def important_stream_def)
qed

lemma send_cached_chain:
  assumes "cchain c p bs" and "list_all2 (\<lambda>b ds. buf_holds dec (cb_at c b) ds) bs dss"
  shows "\<exists>xss. send_cached env c p s = Some (fold (Writer_SendDataRaw env) xss s) \<and>
     important_stream dec (concat xss) (concat dss)"
  using assms
proof (induction bs arbitrary: p dss s)
  case Nil
  then show ?case
    by (intro exI [of _ "[]"]) (simp add: send_cached.simps important_stream_def)
next
  case (Cons b bs)
  obtain ds dss' where d: "dss = ds # dss'" "buf_holds dec (cb_at c b) ds"
      "list_all2 (\<lambda>b ds. buf_holds dec (cb_at c b) ds) bs dss'"
    using Cons.prems(2) by (auto simp: list_all2_Cons1)
  obtain n where n: "p = Some b" "cb_link (cb_at c b) = Next_link n" "cchain c n bs"
    using Cons.prems(1) by auto
  obtain xs where xs: "mem_read (cb_data (cb_at c b)) 0 (cb_used (cb_at c b)) = Some xs"
      "important_stream dec xs ds"
    using buf_holds_stream [OF d(2)] by blast
  obtain xss where xss: "send_cached env c n (Writer_SendDataRaw env xs s) =
        Some (fold (Writer_SendDataRaw env) xss (Writer_SendDataRaw env xs s))"
      "important_stream dec (concat xss) (concat dss')"
    using Cons.IH [OF n(3) d(3)] by blast
  have "send_cached env c p s = Some (fold (Writer_SendDataRaw env) (xs # xss) s)"
    using n xs(1) xss(1) by (subst send_cached.simps) (simp add: Let_def)
  moreover have "important_stream dec (concat (xs # xss)) (concat dss)"
    using important_stream_append [OF xs(2) xss(2)] d(1) by simp
  ultimately show ?case by blast
qed

text \<open>
  C16: The cache of important events loses nothing. Handing data to the cache returns, sends it
  on the current connection, and the cache then stands for all it stood for before followed by
  the new data. A connection made at any later time is sent, in this order: raw packets, as
  stored, that decode to a prefix of everything cached, and one last packet with the rest.
\<close>

theorem Writer_CacheData_complete:
  assumes codec: "codec_ok env dec" and mem: "\<forall>b n. length (mem b n) = n"
    and holds: "cache_holds dec c all"
  shows "\<exists>c'. Writer_CacheData env mem data (c, s) =
            Some (c', Writer_SendData env ETransportTid_Importants data s) \<and>
     cache_holds dec c' (all @ data) \<and>
     (\<exists>xss ds rest. Writer_CacheOnConnect env c' s' =
          Some (let s1 = fold (Writer_SendDataRaw env) xss s' in
                if rest = [] then s1 else Writer_SendData env ETransportTid_Importants rest s1) \<and>
        important_stream dec (concat xss) ds \<and> concat ds @ rest = all @ data)"
proof -
  obtain col a bs dss ds cs where h: "cache_inv dec c col a bs dss ds cs"
      "length cs < GCacheCollectorSize" "all = concat (concat dss @ ds) @ cs"
    using holds unfolding cache_holds_def by blast
  obtain c' a' bs' dss' ds' cs' where n: "cache_copy env mem col data c = Some c'"
      "cache_inv dec c' col a' bs' dss' ds' cs'" "length cs' < GCacheCollectorSize"
      "concat (concat dss' @ ds') @ cs' = concat (concat dss @ ds) @ cs @ data"
    using cache_copy_inv [OF codec mem h(1,2), of data] by (elim exE conjE) (rule that; assumption)
  have all: "concat (concat dss' @ ds') @ cs' = all @ data" using n(4) h(3) by simp
  have col: "GCacheCollector c = Some col" using h(1) by (simp add: cache_inv_def)
  have run: "Writer_CacheData env mem data (c, s) =
      Some (c', Writer_SendData env ETransportTid_Importants data s)"
    using col n(1) by (simp add: Writer_CacheData_def Let_def)
  have i: "GCacheCollector c' = Some col" "GCacheActiveBuffer c' = Some a'"
      "cchain c' (GCacheHeadBuffer c') bs'"
      "list_all2 (\<lambda>b ds. buf_holds dec (cb_at c' b) ds) bs' dss'" "buf_holds dec (cb_at c' a') ds'"
      "length (cb_data (cb_at c' col)) = GCacheCollectorSize" "cb_size (cb_at c' col) = GCacheCollectorSize"
      "cb_remaining (cb_at c' col) \<le> GCacheCollectorSize"
      "take (GCacheCollectorSize - cb_remaining (cb_at c' col)) (cb_data (cb_at c' col)) = cs'"
    using n(2) unfolding cache_inv_def by blast+
  obtain xss where xss: "send_cached env c' (GCacheHeadBuffer c') s' =
        Some (fold (Writer_SendDataRaw env) xss s')" "important_stream dec (concat xss) (concat dss')"
    using send_cached_chain [OF i(3,4)] by blast
  obtain xs where xs: "mem_read (cb_data (cb_at c' a')) 0 (cb_used (cb_at c' a')) = Some xs"
      "important_stream dec xs ds'" "cb_used (cb_at c' a') = 0 \<longrightarrow> xs = []"
    using buf_holds_stream [OF i(5)] by (elim exE conjE) (rule that; assumption)
  have lc: "length cs' = GCacheCollectorSize - cb_remaining (cb_at c' col)"
    using i(6) by (simp flip: i(9))
  have "cb_used (cb_at c' col) = cb_size (cb_at c' col) - cb_remaining (cb_at c' col)"
    by (rule cb_used_eq) (use i(7,8) in \<open>simp_all add: GCacheCollectorSize_def\<close>)
  then have used: "cb_used (cb_at c' col) = length cs'" using lc i(7) by simp
  have rd: "mem_read (cb_data (cb_at c' col)) 0 (length cs') = Some cs'"
    unfolding mem_read_def lc using i(6,9) by simp
  let ?xss = "if cb_used (cb_at c' a') = 0 then xss else xss @ [xs]"
  have st: "important_stream dec (concat ?xss) (concat dss' @ ds')"
    using important_stream_append [OF xss(2) xs(2)] xs(3) by auto
  have con: "Writer_CacheOnConnect env c' s' =
      Some (let s1 = fold (Writer_SendDataRaw env) ?xss s' in
            if cs' = [] then s1 else Writer_SendData env ETransportTid_Importants cs' s1)"
    using i(1,2) xss(1) xs(1) used rd by (simp add: Writer_CacheOnConnect_def Let_def)
  have "cache_holds dec c' (all @ data)"
    unfolding cache_holds_def using n(2,3) all by metis
  with run con st all show ?thesis
    by (intro exI [of _ c'] conjI exI [of _ ?xss] exI [of _ "concat dss' @ ds'"] exI [of _ cs'])
qed

text \<open>An initialised cache stands for nothing.\<close>

definition cache_null :: trace_cache where
  "cache_null = \<lparr>GCacheCollector = None, GCacheActiveBuffer = None, GCacheHeadBuffer = None,
     cb_at = (\<lambda>_. \<lparr>cb_link = Next_link None, cb_size = 0, cb_remaining = 0, cb_data = []\<rparr>), cb_fresh = 0\<rparr>"

lemma Writer_InitializeCache_holds:
  assumes "\<forall>b n. length (mem b n) = n" and "GCacheHeadBuffer c = None"
  shows "cache_holds dec (Writer_InitializeCache mem c) []"
proof -
  have "cache_inv dec (Writer_InitializeCache mem c) (cb_fresh c) (Suc (cb_fresh c)) [] [] [] []"
    using assms by (simp add: cache_inv_def Writer_InitializeCache_def Writer_CacheCreateBuffer_def
        upd_cb_def Let_def buf_holds_def GCacheBufferSize_def)
  then show ?thesis
    unfolding cache_holds_def
    by (intro exI [of _ "cb_fresh c"] exI [of _ "Suc (cb_fresh c)"] exI [of _ "[]"])
      (simp add: GCacheCollectorSize_def)
qed

theorem Writer_CacheData_complete_witness:
  "\<exists>c'. Writer_CacheData stored_env (\<lambda>_ n. replicate n 0) (replicate 1500 7)
          (Writer_InitializeCache (\<lambda>_ n. replicate n 0) cache_null, sample_link) =
        Some (c', Writer_SendData stored_env ETransportTid_Importants (replicate 1500 7) sample_link) \<and>
     cache_holds stored_dec c' (replicate 1500 7)"
proof -
  have mem: "\<forall>b n. length ((\<lambda>_ n. replicate n 0) b n :: u8 list) = n" by simp
  have "cache_holds stored_dec (Writer_InitializeCache (\<lambda>_ n. replicate n 0) cache_null) []"
    by (rule Writer_InitializeCache_holds) (simp_all add: cache_null_def)
  from Writer_CacheData_complete [OF stored_codec_ok mem this, of "replicate 1500 7" sample_link sample_link]
  show ?thesis unfolding append_Nil by (elim exE conjE) (intro exI conjI, assumption+)
qed

end
