(* ===== verification/Connection.thy ===== *)
theory Connection
  imports Events Channels Control Cache Tail
begin


text \<open>
  Connections of the trace log (Private/Trace/Writer.cpp): Writer_SendTo, Writer_WriteTo and
  Writer_Stop, the update of the connection with its prologue and what is sent first, one
  update of the worker, and snapshots. The state puts the components together; what the
  threads have traced by the time of an update is an input of it: the pieces of
  the shared buffers and of the thread buffers, as the theories of these buffers hand them on.
\<close>

section \<open>State and environment\<close>

record trace_writer = trace_link +
  tw_events :: event_lists
  tw_channels :: channels
  tw_cache :: trace_cache
  tw_tail :: packet_ring
  GOnConnection :: bool
  tw_opened :: "u64 list"

text \<open>
  Opening a connection or a file may depend on all that was written before; 0 is a failure. The
  handles that were opened are kept in the state.
\<close>

record open_env =
  tcp_connect :: "io_event list \<Rightarrow> u8 list \<Rightarrow> u16 \<Rightarrow> u64"
  file_open :: "io_event list \<Rightarrow> u8 list \<Rightarrow> u64"

text \<open>What the threads have traced: important data, and pieces with their thread numbers.\<close>

record update_input =
  in_shared :: "u8 list list"
  in_drained :: "(u16 \<times> u8 list) list"
  in_local :: "(u16 \<times> u8 list) list"
  in_junk :: "u64 \<Rightarrow> nat \<Rightarrow> u8"
  in_memory :: "nat \<Rightarrow> nat \<Rightarrow> u8 list"
  in_port :: u16

definition opened :: "u64 \<Rightarrow> trace_writer \<Rightarrow> trace_writer" where
  "opened h s = (if h = 0 then s else s\<lparr>tw_opened := tw_opened s @ [h]\<rparr>)"

section \<open>Asking for a connection\<close>

definition Writer_SendTo :: "open_env \<Rightarrow> u8 list \<Rightarrow> u32 \<Rightarrow> trace_writer \<Rightarrow> bool \<times> trace_writer" where
  "Writer_SendTo oenv Host Port s =
     (if GPendingDataHandle s \<noteq> 0 \<or> GDataHandle s \<noteq> 0 then (False, s)
      else
        let Port = (if Port \<noteq> 0 then Port else 1981);
            DataHandle = tcp_connect oenv (io_log s) Host (ucast Port);
            s = opened DataHandle s
        in if DataHandle = 0 then (False, s) else (True, s\<lparr>GPendingDataHandle := DataHandle\<rparr>))"

definition Writer_WriteTo :: "open_env \<Rightarrow> u8 list \<Rightarrow> trace_writer \<Rightarrow> bool \<times> trace_writer" where
  "Writer_WriteTo oenv Path s =
     (if GPendingDataHandle s \<noteq> 0 \<or> GDataHandle s \<noteq> 0 then (False, s)
      else
        let DataHandle = file_open oenv (io_log s) Path;
            s = opened DataHandle s
        in if DataHandle = 0 then (False, s) else (True, s\<lparr>GPendingDataHandle := DataHandle\<rparr>))"

definition Writer_IsTracing :: "'a trace_link_scheme \<Rightarrow> bool" where
  "Writer_IsTracing s \<longleftrightarrow> GDataHandle s \<noteq> 0 \<or> GPendingDataHandle s \<noteq> 0"

definition Writer_Stop :: "'a trace_link_scheme \<Rightarrow> bool \<times> 'a trace_link_scheme" where
  "Writer_Stop s =
     (if GPendingDataHandle s \<noteq> 0 \<or> GDataHandle s = 0 then (False, s)
      else (True, s\<lparr>GPendingDataHandle := NOT 0\<rparr>))"

section \<open>A new connection\<close>

definition handshake :: "u16 \<Rightarrow> u8 list" where
  "handshake ControlPort =
     le32 (0x32 OR push_bit 8 0x43 OR push_bit 16 0x52 OR push_bit 24 0x54) @
     le16 4 @ le16 (2 OR push_bit 8 0) @ le16 ControlPort"

definition transport_header :: "u8 list" where
  "transport_header = [ETransport_TidPacketSync, EProtocol_Id]"

definition Writer_SessionPrologue :: "trace_env \<Rightarrow> u16 \<Rightarrow> 'a trace_link_scheme \<Rightarrow> bool \<times> 'a trace_link_scheme" where
  "Writer_SessionPrologue env port s =
     (if GDataHandle s = 0 then (False, s)
      else
        let (ok1, s) = IoWrite env (GDataHandle s) (handshake port) s;
            (ok2, s) = IoWrite env (GDataHandle s) transport_header s
        in if ok1 \<and> ok2 then (True, s)
           else (False, (IoClose (GDataHandle s) s)\<lparr>GDataHandle := 0\<rparr>))"

definition describe_events :: "trace_env \<Rightarrow> update_input \<Rightarrow> u64 \<Rightarrow> trace_writer \<Rightarrow> trace_writer option" where
  "describe_events env u it s = do {
     (e, s) \<leftarrow> Writer_DescribeEvents env (in_junk u) it (tw_events s) s;
     Some (s\<lparr>tw_events := e\<rparr>) }"

definition read_new_events :: "trace_writer \<Rightarrow> (u64 \<times> trace_writer) option" where
  "read_new_events s = do { (it, e) \<leftarrow> FEventNode_ReadNew (tw_events s); Some (it, s\<lparr>tw_events := e\<rparr>) }"

text \<open>The pieces of thread buffers go to the tail, which sends them on.\<close>

fun tail_append_all :: "trace_env \<Rightarrow> (u16 \<times> u8 list) list \<Rightarrow> trace_writer \<Rightarrow> trace_writer option" where
  "tail_append_all env [] s = Some s"
| "tail_append_all env ((tid, data) # ps) s = do {
     (r, s) \<leftarrow> Writer_TailAppend env (ucast tid) data (tw_tail s, s);
     tail_append_all env ps (s\<lparr>tw_tail := r\<rparr>) }"

text \<open>
  Before the callback the thread's own pieces are drained without a handle. What the callback
  traces stays in the thread's buffer.
\<close>

definition Writer_CallbackOnConnect :: "trace_env \<Rightarrow> update_input \<Rightarrow> trace_writer \<Rightarrow> trace_writer option" where
  "Writer_CallbackOnConnect env u s =
     (if \<not> GOnConnection s then Some s
      else do {
        let DataHandle = GDataHandle s;
        s \<leftarrow> tail_append_all env (in_local u) (s\<lparr>GDataHandle := 0\<rparr>);
        Some (s\<lparr>GDataHandle := DataHandle\<rparr>) })"

definition CloseInertia :: u64 where "CloseInertia = 2"

definition Writer_UpdateConnection :: "trace_env \<Rightarrow> update_input \<Rightarrow> trace_writer \<Rightarrow> (bool \<times> trace_writer) option" where
  "Writer_UpdateConnection env u s =
     (if GPendingDataHandle s = 0 then Some (False, s)
      else if GPendingDataHandle s \<ge> NOT 0 - CloseInertia then
        let s = s\<lparr>GPendingDataHandle := GPendingDataHandle s - 1\<rparr>
        in Some (True, if GPendingDataHandle s = NOT 0 - CloseInertia
             then (Writer_Close s)\<lparr>GPendingDataHandle := 0\<rparr> else s)
      else if GDataHandle s \<noteq> 0 then
        Some (False, (IoClose (GPendingDataHandle s) s)\<lparr>GPendingDataHandle := 0\<rparr>)
      else do {
        let s = s\<lparr>GDataHandle := GPendingDataHandle s, GPendingDataHandle := 0\<rparr>;
        let (ok, s) = Writer_SessionPrologue env (in_port u) s;
        if \<not> ok then Some (False, s)
        else do {
          let s = s\<lparr>BytesSent := 0, BytesTraced := 0\<rparr>;
          e \<leftarrow> FEventNode_OnConnect (tw_events s);
          (it, s) \<leftarrow> read_new_events (s\<lparr>tw_events := e\<rparr>);
          s \<leftarrow> describe_events env u it s;
          s \<leftarrow> Writer_CacheOnConnect env (tw_cache s) s;
          s \<leftarrow> Writer_CallbackOnConnect env u s;
          s \<leftarrow> Writer_TailOnConnect env (tw_tail s) s;
          Some (True, s\<lparr>GSyncPacketCountdown := GNumSyncPackets\<rparr>) } })"

section \<open>One update of the worker\<close>

definition Writer_DescribeAnnounce :: "trace_env \<Rightarrow> update_input \<Rightarrow> trace_writer \<Rightarrow> trace_writer option" where
  "Writer_DescribeAnnounce env u s =
     (if GDataHandle s = 0 then Some s
      else do {
        c \<leftarrow> Writer_AnnounceChannels (tw_channels s);
        (it, s) \<leftarrow> read_new_events (s\<lparr>tw_channels := c\<rparr>);
        describe_events env u it s })"

fun cache_data_all :: "trace_env \<Rightarrow> update_input \<Rightarrow> u8 list list \<Rightarrow> trace_writer \<Rightarrow> trace_writer option" where
  "cache_data_all env u [] s = Some s"
| "cache_data_all env u (d # ds) s = do {
     (c, s) \<leftarrow> Writer_CacheData env (in_memory u) d (tw_cache s, s);
     cache_data_all env u ds (s\<lparr>tw_cache := c\<rparr>) }"

text \<open>The commands that came in are carried out after the data was parsed; none of them looks at the parser.\<close>

fun run_action :: "open_env \<Rightarrow> control_action \<Rightarrow> trace_writer \<Rightarrow> trace_writer option" where
  "run_action oenv (Act_SendTo host) s = Some (snd (Writer_SendTo oenv host 0 s))"
| "run_action oenv (Act_WriteTo path) s = Some (snd (Writer_WriteTo oenv path s))"
| "run_action oenv Act_Stop s = Some (snd (Writer_Stop s))"
| "run_action oenv (Act_Toggle name b) s = do {
     (e, c) \<leftarrow> FChannel_ToggleName name b (tw_channels s); Some (s\<lparr>tw_channels := c\<rparr>) }"

fun run_actions :: "open_env \<Rightarrow> control_action list \<Rightarrow> trace_writer \<Rightarrow> trace_writer option" where
  "run_actions oenv [] s = Some s"
| "run_actions oenv (a # as) s = do { s \<leftarrow> run_action oenv a s; run_actions oenv as s }"

definition Writer_WorkerUpdateInternal ::
  "control_env \<Rightarrow> open_env \<Rightarrow> trace_env \<Rightarrow> update_input \<Rightarrow> control_action list control \<times> trace_writer \<Rightarrow>
   (control_action list control \<times> trace_writer) option" where
  "Writer_WorkerUpdateInternal cenv oenv env u cs = do {
     let (c, s) = cs;
     let c = Writer_UpdateControl cenv (c\<lparr>control_world := []\<rparr>);
     s \<leftarrow> run_actions oenv (control_world c) s;
     (r, s) \<leftarrow> Writer_UpdateConnection env u s;
     s \<leftarrow> Writer_DescribeAnnounce env u s;
     s \<leftarrow> cache_data_all env u (in_shared u) s;
     s \<leftarrow> tail_append_all env (in_drained u) s;
     Some (c, Writer_SendSync env s) }"

section \<open>Snapshots\<close>

fun send_syncs :: "nat \<Rightarrow> trace_env \<Rightarrow> 'a trace_link_scheme \<Rightarrow> 'a trace_link_scheme" where
  "send_syncs 0 env s = s"
| "send_syncs (Suc n) env s =
     (if GSyncPacketCountdown s > 0 then send_syncs n env (Writer_SendSync env s) else s)"

text \<open>What is stashed while the snapshot is written, and put back at every return.\<close>

definition unstash :: "trace_writer \<Rightarrow> trace_writer \<Rightarrow> trace_writer" where
  "unstash s t = t\<lparr>GDataHandle := GDataHandle s, GPendingDataHandle := GPendingDataHandle s,
     GSyncPacketCountdown := GSyncPacketCountdown s, BytesSent := BytesSent s, BytesTraced := BytesTraced s\<rparr>"

text \<open>
  The snapshot after the update of the worker, with the input u of that moment. Each sync
  packet lowers the countdown, so as many turns as there are packets end the loop.
\<close>

definition write_snapshot :: "open_env \<Rightarrow> trace_env \<Rightarrow> update_input \<Rightarrow> u8 list \<Rightarrow> trace_writer \<Rightarrow> (bool \<times> trace_writer) option" where
  "write_snapshot oenv env u Path s0 = do {
     let s = s0\<lparr>GDataHandle := 0, GPendingDataHandle := 0, GSyncPacketCountdown := GNumSyncPackets, BytesSent := 0, BytesTraced := 0\<rparr>;
     let h = file_open oenv (io_log s) Path;
     let s = (opened h s)\<lparr>GDataHandle := h\<rparr>;
     let (ok, s) = Writer_SessionPrologue env (in_port u) s;
     if \<not> ok then Some (False, unstash s0 s)
     else do {
       s \<leftarrow> describe_events env u (FEventNode_Read (tw_events s)) s;
       s \<leftarrow> Writer_CacheOnConnect env (tw_cache s) s;
       s \<leftarrow> Writer_CallbackOnConnect env u s;
       s \<leftarrow> Writer_TailOnConnect env (tw_tail s) s;
       let s = s\<lparr>GSyncPacketCountdown := GNumSyncPackets\<rparr>;
       let s = send_syncs (nat GNumSyncPackets) env s;
       Some (True, unstash s0 (Writer_Close s)) } }"

text \<open>Waiting for the worker may time out.\<close>

definition Writer_WriteSnapshotTo ::
  "control_env \<Rightarrow> open_env \<Rightarrow> trace_env \<Rightarrow> update_input \<Rightarrow> update_input \<Rightarrow> bool \<Rightarrow> u8 list \<Rightarrow>
   control_action list control \<times> trace_writer \<Rightarrow> (bool \<times> control_action list control \<times> trace_writer) option" where
  "Writer_WriteSnapshotTo cenv oenv env u u' timed_out Path cs =
     (if \<not> Writer_IsTailing (tw_tail (snd cs)) then Some (False, cs)
      else if timed_out then Some (False, cs)
      else do {
        (c, s) \<leftarrow> Writer_WorkerUpdateInternal cenv oenv env u cs;
        (ok, s) \<leftarrow> write_snapshot oenv env u' Path s;
        Some (ok, c, s) })"


section \<open>Handles\<close>

text \<open>The handles that a log closes; closing the null handle closes nothing.\<close>

definition one_handle :: "u64 \<Rightarrow> u64 multiset" where
  "one_handle h = (if h = 0 then {#} else {#h#})"

fun closed_of :: "io_event \<Rightarrow> u64 multiset" where
  "closed_of (Io_close h) = one_handle h"
| "closed_of (Io_write h d) = {#}"

definition closed_handles :: "io_event list \<Rightarrow> u64 multiset" where
  "closed_handles log = sum_list (map closed_of log)"

lemma closed_handles_simps [simp]:
  "closed_handles [] = {#}" "closed_handles (log @ log') = closed_handles log + closed_handles log'"
  "closed_handles (e # log) = closed_of e + closed_handles log"
  by (simp_all add: closed_handles_def)

text \<open>What sending may do to the connection: lose the handle and close it.\<close>

definition traffic :: "'a trace_link_scheme \<Rightarrow> 'a trace_link_scheme \<Rightarrow> bool" where
  "traffic s t \<longleftrightarrow> closed_handles (io_log t) + one_handle (GDataHandle t) = closed_handles (io_log s) + one_handle (GDataHandle s) \<and>
     (GDataHandle t = GDataHandle s \<or> GDataHandle t = 0) \<and> GPendingDataHandle t = GPendingDataHandle s \<and>
     trace_link.more t = trace_link.more s \<and> (\<exists>l. io_log t = io_log s @ l)"

named_theorems sends

lemma traffic_refl [sends, simp]: "traffic s s"
  by (simp add: traffic_def)

lemma traffic_trans: "traffic s t \<Longrightarrow> traffic t u \<Longrightarrow> traffic s u"
  by (auto simp: traffic_def)

lemma traffic_impl [sends]: "traffic s (Writer_SendDataImpl env d s)"
  by (simp add: traffic_def Writer_SendDataImpl_log one_handle_def)

lemma traffic_raw [sends]: "traffic s (Writer_SendDataRaw env d s)"
  by (simp add: Writer_SendDataRaw_def traffic_impl)

lemma traffic_data [sends]: "traffic s (Writer_SendData env t d s)"
  by (simp add: Writer_SendData_packet traffic_impl)

lemma traffic_sync [sends]: "traffic s (Writer_SendSync env s)"
  using traffic_impl [of s env "le16 4 @ le16 (ucast ETransportTid_Sync)"] by (auto simp: Writer_SendSync_def Let_def traffic_def)

lemma traffic_send_cached: "send_cached env c b s = Some t \<Longrightarrow> traffic s t"
proof (rule send_cached.raw_induct [of "\<lambda>env c b s t. traffic s t", rotated])
  fix f and env :: trace_env and c b and s t :: "'a trace_link_scheme"
  assume IH: "\<And>env c b s t. f env c b s = Some t \<Longrightarrow> traffic s t"
    and st: "(case b of None \<Rightarrow> Some s | Some b \<Rightarrow> do {
          xs \<leftarrow> mem_read (cb_data (cb_at c b)) 0 (cb_used (cb_at c b));
          let s = Writer_SendDataRaw env xs s;
          next_b \<leftarrow> (case cb_link (cb_at c b) of Next_link n \<Rightarrow> Some n | Tail_next _ \<Rightarrow> None);
          f env c next_b s }) = Some t"
  show "traffic s t"
  proof (cases b)
    case None
    then show ?thesis using st by simp
  next
    case (Some x)
    then obtain xs n where "f env c n (Writer_SendDataRaw env xs s) = Some t"
      using st by (auto simp: Let_def bind_eq_Some_conv)
    then show ?thesis using IH traffic_trans [OF traffic_raw] by blast
  qed
qed

lemma traffic_cache [sends]: "Writer_CacheOnConnect env c s = Some t \<Longrightarrow> traffic s t"
  unfolding Writer_CacheOnConnect_def
  by (auto simp: bind_eq_Some_conv split: option.splits if_splits
      dest!: traffic_send_cached intro: traffic_trans traffic_trans [OF traffic_raw traffic_data] traffic_raw traffic_data
      traffic_trans [OF traffic_trans [OF _ traffic_raw] traffic_data])

lemma traffic_range: "send_range env d r s = Some t \<Longrightarrow> traffic s t"
  by (auto simp: send_range_def bind_eq_Some_conv split: if_splits intro: traffic_raw)

lemma traffic_tail [sends]: "Writer_TailOnConnect env r s = Some t \<Longrightarrow> traffic s t"
  by (auto simp: Writer_TailOnConnect_def bind_eq_Some_conv split: option.splits dest!: traffic_range intro: traffic_trans)

lemma traffic_append [sends]: "Writer_TailAppend env tid d (r, s) = Some (r', t) \<Longrightarrow> traffic s t"
  by (auto simp: Writer_TailAppend_def Let_def bind_eq_Some_conv split: if_splits prod.splits intro: traffic_raw traffic_data)

lemma traffic_cache_data [sends]: "Writer_CacheData env mem d (c, s) = Some (c', t) \<Longrightarrow> traffic s t"
  by (auto simp: Writer_CacheData_def Let_def bind_eq_Some_conv split: option.splits prod.splits intro: traffic_data)

lemma traffic_describe_loop: "describe_loop env junk it data e s = Some y \<Longrightarrow> traffic s (snd (snd y))"
proof (rule describe_loop.raw_induct [of "\<lambda>env junk it data e s y. traffic s (snd (snd y))", rotated])
  fix f and env :: trace_env and junk it data e and s :: "'a trace_link_scheme" and y
  assume IH: "\<And>env junk it data e s y. f env junk it data e s = Some y \<Longrightarrow> traffic s (snd (snd y))"
    and st: "(case FIter_GetNext it e of (Event, it, e) \<Rightarrow>
        if Event = 0 then Some (data, e, s)
        else let d = Describe (junk Event) (ev_node e Event)
          in if 4 + length data + length d > redirect_capacity then None
             else if length (data @ d) \<ge> redirect_capacity - 512
               then f env junk it [] e (Writer_SendData env ETransportTid_Events (data @ d) s)
             else f env junk it (data @ d) e s) = Some y"
  obtain ev it' e' where g: "FIter_GetNext it e = (ev, it', e')" by (metis prod_cases3)
  let ?d = "data @ Describe (junk ev) (ev_node e' ev)"
  show "traffic s (snd (snd y))"
  proof (cases "ev = 0")
    case True
    then show ?thesis using st g by auto
  next
    case False
    then have "f env junk it' [] e' (Writer_SendData env ETransportTid_Events ?d s) = Some y \<or> f env junk it' ?d e' s = Some y"
      using st g by (auto simp: Let_def split: if_splits)
    then show ?thesis using IH traffic_trans [OF traffic_data] by blast
  qed
qed

lemma traffic_describe [sends]: "Writer_DescribeEvents env junk it e s = Some (e', t) \<Longrightarrow> traffic s t"
  by (auto simp: Writer_DescribeEvents_def bind_eq_Some_conv split: if_splits dest!: traffic_describe_loop intro: traffic_trans traffic_data)

section \<open>What the operations do with handles\<close>

text \<open>The pending handle, when it is one and not a request to close, which the three largest numbers are.\<close>

definition pending_handle :: "'a trace_link_scheme \<Rightarrow> u64 multiset" where
  "pending_handle s = (if GPendingDataHandle s \<in> {- 1, - 2, - 3} then {#} else one_handle (GPendingDataHandle s))"

definition handles_ok :: "trace_writer \<Rightarrow> bool" where
  "handles_ok s \<longleftrightarrow> mset (tw_opened s) = closed_handles (io_log s) + one_handle (GDataHandle s) + pending_handle s"

definition opens_ok :: "open_env \<Rightarrow> bool" where
  "opens_ok oenv \<longleftrightarrow> (\<forall>log host port. tcp_connect oenv log host port \<notin> {- 1, - 2, - 3}) \<and>
     (\<forall>log path. file_open oenv log path \<notin> {- 1, - 2, - 3})"

text \<open>A piece of the state's history: the handles stay accounted for and no connection is asked for.\<close>

definition pumped :: "trace_writer \<Rightarrow> trace_writer \<Rightarrow> bool" where
  "pumped s t \<longleftrightarrow> closed_handles (io_log t) + one_handle (GDataHandle t) = closed_handles (io_log s) + one_handle (GDataHandle s) \<and>
     (GDataHandle t = GDataHandle s \<or> GDataHandle t = 0) \<and> GPendingDataHandle t = GPendingDataHandle s \<and>
     tw_opened t = tw_opened s \<and> GOnConnection t = GOnConnection s \<and> (\<exists>l. io_log t = io_log s @ l)"

lemma pumped_refl [simp]: "pumped s s"
  by (simp add: pumped_def)

lemma pumped_trans: "pumped s t \<Longrightarrow> pumped t u \<Longrightarrow> pumped s u"
  by (auto simp: pumped_def)

lemma traffic_pumped: "traffic s t \<Longrightarrow> pumped s t"
  by (cases s; cases t) (auto simp: traffic_def pumped_def)

lemma pumped_fields [simp]:
  "pumped s (t\<lparr>tw_events := e\<rparr>) = pumped s t" "pumped s (t\<lparr>tw_channels := c\<rparr>) = pumped s t"
  "pumped s (t\<lparr>tw_cache := k\<rparr>) = pumped s t" "pumped s (t\<lparr>tw_tail := r\<rparr>) = pumped s t"
  "pumped (s\<lparr>tw_events := e\<rparr>) t = pumped s t" "pumped (s\<lparr>tw_channels := c\<rparr>) t = pumped s t"
  "pumped (s\<lparr>tw_cache := k\<rparr>) t = pumped s t" "pumped (s\<lparr>tw_tail := r\<rparr>) t = pumped s t"
  "pumped s (t\<lparr>GSyncPacketCountdown := n\<rparr>) = pumped s t" "pumped s (t\<lparr>BytesSent := b\<rparr>) = pumped s t" "pumped s (t\<lparr>BytesTraced := b\<rparr>) = pumped s t"
  by (simp_all add: pumped_def)

lemma pumped_read_new: "read_new_events s = Some (it, t) \<Longrightarrow> pumped s t"
  by (auto simp: read_new_events_def bind_eq_Some_conv)

lemma pumped_describe: "describe_events env u it s = Some t \<Longrightarrow> pumped s t"
  by (auto simp: describe_events_def bind_eq_Some_conv dest!: traffic_describe traffic_pumped)

lemma pumped_append_all: "tail_append_all env ps s = Some t \<Longrightarrow> pumped s t"
proof (induction env ps s arbitrary: t rule: tail_append_all.induct)
  case (2 env tid data ps s)
  then obtain r s' where a: "Writer_TailAppend env (ucast tid) data (tw_tail s, s) = Some (r, s')" "tail_append_all env ps (s'\<lparr>tw_tail := r\<rparr>) = Some t"
    by (auto simp: bind_eq_Some_conv)
  have "pumped s' t" using "2.IH" [OF a(1) refl a(2)] by simp
  then show ?case using traffic_pumped [OF traffic_append [OF a(1)]] pumped_trans by blast
qed simp

lemma pumped_cache_all: "cache_data_all env u ds s = Some t \<Longrightarrow> pumped s t"
proof (induction env u ds s arbitrary: t rule: cache_data_all.induct)
  case (2 env u d ds s)
  then obtain c s' where a: "Writer_CacheData env (in_memory u) d (tw_cache s, s) = Some (c, s')" "cache_data_all env u ds (s'\<lparr>tw_cache := c\<rparr>) = Some t"
    by (auto simp: bind_eq_Some_conv)
  have "pumped s' t" using "2.IH" [OF a(1) refl a(2)] by simp
  then show ?case using traffic_pumped [OF traffic_cache_data [OF a(1)]] pumped_trans by blast
qed simp

text \<open>Without a handle nothing is closed, so putting the handle back loses nothing.\<close>

lemma pumped_callback: "Writer_CallbackOnConnect env u s = Some t \<Longrightarrow> pumped s t"
proof (cases "GOnConnection s")
  case True
  assume "Writer_CallbackOnConnect env u s = Some t"
  then obtain t' where t: "tail_append_all env (in_local u) (s\<lparr>GDataHandle := 0\<rparr>) = Some t'" "t = t'\<lparr>GDataHandle := GDataHandle s\<rparr>"
    using True by (auto simp: Writer_CallbackOnConnect_def bind_eq_Some_conv Let_def)
  then show ?thesis using pumped_append_all [OF t(1)] by (auto simp: pumped_def one_handle_def)
qed (simp add: Writer_CallbackOnConnect_def)

lemma pumped_announce: "Writer_DescribeAnnounce env u s = Some t \<Longrightarrow> pumped s t"
proof (cases "GDataHandle s = 0")
  case False
  assume "Writer_DescribeAnnounce env u s = Some t"
  then obtain c it s' where "read_new_events (s\<lparr>tw_channels := c\<rparr>) = Some (it, s')" "describe_events env u it s' = Some t"
    using False by (auto simp: Writer_DescribeAnnounce_def bind_eq_Some_conv)
  then show ?thesis using pumped_read_new pumped_describe pumped_trans by fastforce
qed (simp add: Writer_DescribeAnnounce_def)

lemma closing_cases: "NOT 0 - CloseInertia \<le> p \<longleftrightarrow> p = - 1 \<or> p = - 2 \<or> p = - 3"
proof -
  have e: "(NOT 0 - CloseInertia :: u64) = - 3" by (simp add: CloseInertia_def)
  have "p = - 1 \<or> p = - 2 \<or> p = - 3" if "- 3 \<le> p"
  proof -
    have "unat (- 3 :: u64) \<le> unat p" using that by (simp add: word_le_nat_alt)
    then have "18446744073709551613 \<le> unat p" by simp
    moreover have "unat p < 18446744073709551616" using unsigned_less [of p] by simp
    ultimately have "unat p = 18446744073709551613 \<or> unat p = 18446744073709551614 \<or> unat p = 18446744073709551615" by linarith
    then have "unat p = unat (- 3 :: u64) \<or> unat p = unat (- 2 :: u64) \<or> unat p = unat (- 1 :: u64)" by (simp add: unsigned_minus_1_eq_mask mask_eq_exp_minus_1)
    then show ?thesis unfolding word_unat_eq_iff [symmetric] by blast
  qed
  then show ?thesis unfolding e by (auto simp: word_le_nat_alt unsigned_minus_1_eq_mask mask_eq_exp_minus_1)
qed

text \<open>No pending handle is the one that the countdown to a close ends with.\<close>

definition connection_ok :: "trace_writer \<Rightarrow> bool" where
  "connection_ok s \<longleftrightarrow> handles_ok s \<and> GPendingDataHandle s \<noteq> - 3"

lemma pumped_ok: "pumped s t \<Longrightarrow> connection_ok s \<Longrightarrow> connection_ok t"
  by (simp add: pumped_def connection_ok_def handles_ok_def pending_handle_def)

lemma pending_handle_simps:
  "GPendingDataHandle s = 0 \<Longrightarrow> pending_handle s = {#}"
  "GPendingDataHandle s = - 1 \<Longrightarrow> pending_handle s = {#}" "GPendingDataHandle s = - 2 \<Longrightarrow> pending_handle s = {#}"
  "GPendingDataHandle s \<notin> {- 1, - 2, - 3} \<Longrightarrow> pending_handle s = one_handle (GPendingDataHandle s)"
  by (simp_all add: pending_handle_def one_handle_def)

lemma Writer_SendTo_ok: "opens_ok oenv \<Longrightarrow> connection_ok s \<Longrightarrow> connection_ok (snd (Writer_SendTo oenv Host Port s))"
proof -
  assume o: "opens_ok oenv" and s: "connection_ok s"
  let ?h = "tcp_connect oenv (io_log s) Host (ucast (if Port \<noteq> 0 then Port else 1981))"
  have h: "?h \<notin> {- 1, - 2, - 3}" "?h \<noteq> - 3" using o by (auto simp: opens_ok_def)
  have m3: "(0 :: u64) \<noteq> - 3" by simp
  show ?thesis
  proof (cases "GPendingDataHandle s \<noteq> 0 \<or> GDataHandle s \<noteq> 0")
    case True
    then show ?thesis using s by (simp add: Writer_SendTo_def)
  next
    case False
    then have "snd (Writer_SendTo oenv Host Port s) = (if ?h = 0 then s else s\<lparr>tw_opened := tw_opened s @ [?h], GPendingDataHandle := ?h\<rparr>)"
      by (simp add: Writer_SendTo_def opened_def Let_def)
    moreover have "pending_handle (s\<lparr>tw_opened := tw_opened s @ [?h], GPendingDataHandle := ?h\<rparr>) = one_handle ?h"
      using pending_handle_simps(4) [of "s\<lparr>tw_opened := tw_opened s @ [?h], GPendingDataHandle := ?h\<rparr>"] h(1) by simp
    ultimately show ?thesis using s False h pending_handle_simps(1) [of s]
      by (auto simp: connection_ok_def handles_ok_def one_handle_def)
  qed
qed

lemma Writer_WriteTo_ok: "opens_ok oenv \<Longrightarrow> connection_ok s \<Longrightarrow> connection_ok (snd (Writer_WriteTo oenv Path s))"
proof -
  assume o: "opens_ok oenv" and s: "connection_ok s"
  let ?h = "file_open oenv (io_log s) Path"
  have h: "?h \<notin> {- 1, - 2, - 3}" "?h \<noteq> - 3" using o by (auto simp: opens_ok_def)
  have m3: "(0 :: u64) \<noteq> - 3" by simp
  show ?thesis
  proof (cases "GPendingDataHandle s \<noteq> 0 \<or> GDataHandle s \<noteq> 0")
    case True
    then show ?thesis using s by (simp add: Writer_WriteTo_def)
  next
    case False
    then have "snd (Writer_WriteTo oenv Path s) = (if ?h = 0 then s else s\<lparr>tw_opened := tw_opened s @ [?h], GPendingDataHandle := ?h\<rparr>)"
      by (simp add: Writer_WriteTo_def opened_def Let_def)
    moreover have "pending_handle (s\<lparr>tw_opened := tw_opened s @ [?h], GPendingDataHandle := ?h\<rparr>) = one_handle ?h"
      using pending_handle_simps(4) [of "s\<lparr>tw_opened := tw_opened s @ [?h], GPendingDataHandle := ?h\<rparr>"] h(1) by simp
    ultimately show ?thesis using s False h pending_handle_simps(1) [of s]
      by (auto simp: connection_ok_def handles_ok_def one_handle_def)
  qed
qed

lemma Writer_Stop_ok: "connection_ok s \<Longrightarrow> connection_ok (snd (Writer_Stop s))"
  using pending_handle_simps(1) [of s] pending_handle_simps(2) [of "s\<lparr>GPendingDataHandle := - 1\<rparr>"]
  by (auto simp: Writer_Stop_def connection_ok_def handles_ok_def)

lemma run_action_ok: "opens_ok oenv \<Longrightarrow> connection_ok s \<Longrightarrow> run_action oenv a s = Some t \<Longrightarrow> connection_ok t"
proof (cases a)
  case (Act_Toggle name b)
  assume "connection_ok s" "run_action oenv a s = Some t"
  then show ?thesis using Act_Toggle pumped_ok [of s t] by (auto simp: bind_eq_Some_conv)
qed (auto simp: Writer_SendTo_ok Writer_WriteTo_ok Writer_Stop_ok)

lemma run_actions_ok: "opens_ok oenv \<Longrightarrow> connection_ok s \<Longrightarrow> run_actions oenv as s = Some t \<Longrightarrow> connection_ok t"
  by (induction oenv as s arbitrary: t rule: run_actions.induct) (auto simp: bind_eq_Some_conv dest: run_action_ok)

lemma Writer_Close_closes:
  "closed_handles (io_log (Writer_Close s)) = closed_handles (io_log s) + one_handle (GDataHandle s)"
  "GDataHandle (Writer_Close s) = 0" "GPendingDataHandle (Writer_Close s) = GPendingDataHandle s"
  "trace_link.more (Writer_Close s) = trace_link.more s"
  by (simp_all add: Writer_Close_def IoClose_def one_handle_def)

lemma more_opened: "trace_link.more t = trace_link.more s \<Longrightarrow> tw_opened t = tw_opened s"
  by (cases s; cases t) simp

text \<open>The prologue keeps the handle or closes it.\<close>

lemma traffic_prologue: "Writer_SessionPrologue env port s = (ok, t) \<Longrightarrow> traffic s t"
  by (auto simp: Writer_SessionPrologue_def IoWrite_def IoClose_def Let_def traffic_def one_handle_def split: if_splits)

lemma Writer_UpdateConnection_ok:
  assumes ok: "connection_ok s" and up: "Writer_UpdateConnection env u s = Some (r, t)"
  shows "connection_ok t"
proof -
  let ?p = "GPendingDataHandle s"
  consider "?p = 0" | "?p \<noteq> 0" "NOT 0 - CloseInertia \<le> ?p" | "?p \<noteq> 0" "\<not> NOT 0 - CloseInertia \<le> ?p" "GDataHandle s \<noteq> 0"
    | "?p \<noteq> 0" "\<not> NOT 0 - CloseInertia \<le> ?p" "GDataHandle s = 0" by blast
  then show ?thesis
  proof cases
    case 1
    then show ?thesis using ok up by (simp add: Writer_UpdateConnection_def)
  next
    case 2
    then consider "?p = - 1" | "?p = - 2" using closing_cases ok by (auto simp: connection_ok_def)
    then show ?thesis
    proof cases
      case 1
      have "t = s\<lparr>GPendingDataHandle := - 2\<rparr>"
        using up 2 1 by (simp add: Writer_UpdateConnection_def CloseInertia_def Let_def)
      then show ?thesis using ok pending_handle_simps(2) [of s] pending_handle_simps(3) [of t] 1
        by (simp add: connection_ok_def handles_ok_def)
    next
      case m2: 2
      have "t = (Writer_Close (s\<lparr>GPendingDataHandle := - 3\<rparr>))\<lparr>GPendingDataHandle := 0\<rparr>"
        using up 2 m2 by (simp add: Writer_UpdateConnection_def CloseInertia_def Let_def)
      moreover have "tw_opened (Writer_Close (s\<lparr>GPendingDataHandle := - 3\<rparr>)) = tw_opened s"
        using more_opened [OF Writer_Close_closes(4) [of "s\<lparr>GPendingDataHandle := - 3\<rparr>"]] by simp
      ultimately show ?thesis using ok pending_handle_simps(3) [of s] pending_handle_simps(1) [of t] m2
        by (simp add: connection_ok_def handles_ok_def Writer_Close_closes one_handle_def)
    qed
  next
    case 3
    have "t = (IoClose ?p s)\<lparr>GPendingDataHandle := 0\<rparr>"
      using up 3 by (simp add: Writer_UpdateConnection_def)
    then show ?thesis using ok 3 pending_handle_simps(1) [of t] pending_handle_simps(4) [of s] closing_cases [of ?p]
      by (simp add: connection_ok_def handles_ok_def IoClose_def)
  next
    case 4
    let ?s = "s\<lparr>GDataHandle := ?p, GPendingDataHandle := 0\<rparr>"
    have s: "connection_ok ?s" using ok 4 pending_handle_simps(1) [of ?s] pending_handle_simps(4) [of s] closing_cases [of ?p]
      by (simp add: connection_ok_def handles_ok_def one_handle_def)
    obtain b s1 where p: "Writer_SessionPrologue env (in_port u) ?s = (b, s1)" by fastforce
    have s1: "pumped ?s s1" by (rule traffic_pumped [OF traffic_prologue [OF p]])
    show ?thesis
    proof (cases b)
      case False
      then have "t = s1" using up 4 p by (simp add: Writer_UpdateConnection_def)
      then show ?thesis using pumped_ok [OF s1 s] by simp
    next
      case True
      let ?s1 = "s1\<lparr>BytesSent := 0, BytesTraced := 0\<rparr>"
      obtain e it s2 s3 s4 s5 s6 where r: "FEventNode_OnConnect (tw_events ?s1) = Some e"
        "read_new_events (?s1\<lparr>tw_events := e\<rparr>) = Some (it, s2)" "describe_events env u it s2 = Some s3"
        "Writer_CacheOnConnect env (tw_cache s3) s3 = Some s4" "Writer_CallbackOnConnect env u s4 = Some s5"
        "Writer_TailOnConnect env (tw_tail s5) s5 = Some s6" "t = s6\<lparr>GSyncPacketCountdown := GNumSyncPackets\<rparr>"
        using up 4 p True by (auto simp: Writer_UpdateConnection_def bind_eq_Some_conv Let_def)
      have "pumped ?s s2" using pumped_trans [OF s1, of s2] pumped_read_new [OF r(2)] by (simp add: pumped_def)
      then have "pumped ?s s3" using pumped_trans pumped_describe [OF r(3)] by blast
      then have "pumped ?s s4" using pumped_trans traffic_pumped [OF traffic_cache [OF r(4)]] by blast
      then have "pumped ?s s5" using pumped_trans pumped_callback [OF r(5)] by blast
      then have "pumped ?s s6" using pumped_trans traffic_pumped [OF traffic_tail [OF r(6)]] by blast
      then have "pumped ?s t" using r(7) by simp
      then show ?thesis using pumped_ok s by blast
    qed
  qed
qed

lemma Writer_WorkerUpdateInternal_ok:
  assumes "opens_ok oenv" "connection_ok s" "Writer_WorkerUpdateInternal cenv oenv env u (c, s) = Some (c', t)"
  shows "connection_ok t"
proof -
  obtain as r s1 s2 s3 s4 s5 where r: "run_actions oenv as s = Some s1" "Writer_UpdateConnection env u s1 = Some (r, s2)"
    "Writer_DescribeAnnounce env u s2 = Some s3" "cache_data_all env u (in_shared u) s3 = Some s4"
    "tail_append_all env (in_drained u) s4 = Some s5" "t = Writer_SendSync env s5"
    using assms(3) by (auto simp: Writer_WorkerUpdateInternal_def bind_eq_Some_conv Let_def)
  have "connection_ok s2" using run_actions_ok [OF assms(1,2) r(1)] Writer_UpdateConnection_ok r(2) by blast
  moreover have "pumped s2 t"
    using pumped_announce [OF r(3)] pumped_cache_all [OF r(4)] pumped_append_all [OF r(5)] traffic_pumped [OF traffic_sync [of s5 env]]
    unfolding r(6) by (blast intro: pumped_trans)
  ultimately show ?thesis using pumped_ok by blast
qed

lemma pumped_syncs: "pumped s (send_syncs n env s)"
proof (induction n arbitrary: s)
  case (Suc n)
  show ?case using pumped_trans [OF traffic_pumped [OF traffic_sync [of s env]] Suc] by simp
qed simp

text \<open>A snapshot opens one file at most, closes it, and leaves the connection as it was.\<close>

lemma write_snapshot_frame:
  assumes "write_snapshot oenv env u Path s = Some (ok, t)"
  defines "h \<equiv> file_open oenv (io_log s) Path"
  shows "GDataHandle t = GDataHandle s \<and> GPendingDataHandle t = GPendingDataHandle s \<and> GSyncPacketCountdown t = GSyncPacketCountdown s \<and>
    BytesSent t = BytesSent s \<and> BytesTraced t = BytesTraced s \<and> GOnConnection t = GOnConnection s \<and>
    mset (tw_opened t) = mset (tw_opened s) + one_handle h \<and>
    closed_handles (io_log t) = closed_handles (io_log s) + one_handle h"
proof -
  let ?s = "s\<lparr>GDataHandle := 0, GPendingDataHandle := 0, GSyncPacketCountdown := GNumSyncPackets, BytesSent := 0, BytesTraced := 0\<rparr>"
  let ?s1 = "(opened h ?s)\<lparr>GDataHandle := h\<rparr>"
  have o: "io_log ?s1 = io_log s" "GDataHandle ?s1 = h" "mset (tw_opened ?s1) = mset (tw_opened s) + one_handle h" "GOnConnection ?s1 = GOnConnection s"
    by (simp_all add: opened_def one_handle_def)
  obtain b s2 where p: "Writer_SessionPrologue env (in_port u) ?s1 = (b, s2)" by fastforce
  have s2: "pumped ?s1 s2" by (rule traffic_pumped [OF traffic_prologue [OF p]])
  show ?thesis
  proof (cases b)
    case False
    have "GDataHandle s2 = 0" using p False by (auto simp: Writer_SessionPrologue_def IoWrite_def Let_def split: if_splits)
    moreover have "t = unstash s s2" using assms(1) p False unfolding h_def by (simp add: write_snapshot_def Let_def)
    ultimately show ?thesis using s2 o by (simp add: unstash_def pumped_def one_handle_def)
  next
    case True
    obtain s3 s4 s5 s6 where r: "describe_events env u (FEventNode_Read (tw_events s2)) s2 = Some s3"
      "Writer_CacheOnConnect env (tw_cache s3) s3 = Some s4" "Writer_CallbackOnConnect env u s4 = Some s5"
      "Writer_TailOnConnect env (tw_tail s5) s5 = Some s6"
      "t = unstash s (Writer_Close (send_syncs (nat GNumSyncPackets) env (s6\<lparr>GSyncPacketCountdown := GNumSyncPackets\<rparr>)))"
      using assms(1) p True unfolding h_def by (auto simp: write_snapshot_def bind_eq_Some_conv Let_def)
    define s7 where "s7 = send_syncs (nat GNumSyncPackets) env (s6\<lparr>GSyncPacketCountdown := GNumSyncPackets\<rparr>)"
    have "pumped ?s1 s6"
      using s2 pumped_describe [OF r(1)] traffic_pumped [OF traffic_cache [OF r(2)]] pumped_callback [OF r(3)] traffic_pumped [OF traffic_tail [OF r(4)]]
      by (blast intro: pumped_trans)
    then have "pumped ?s1 (s6\<lparr>GSyncPacketCountdown := GNumSyncPackets\<rparr>)" by simp
    then have s7: "pumped ?s1 s7" unfolding s7_def using pumped_syncs pumped_trans by blast
    have "tw_opened (Writer_Close s7) = tw_opened s7" "GOnConnection (Writer_Close s7) = GOnConnection s7"
      by (simp_all add: Writer_Close_def IoClose_def)
    then show ?thesis using s7 o unfolding r(5) s7_def [symmetric]
      by (simp add: unstash_def Writer_Close_closes pumped_def)
  qed
qed

lemma Writer_WriteSnapshotTo_ok:
  assumes "opens_ok oenv" "connection_ok s" "Writer_WriteSnapshotTo cenv oenv env u u' to Path (c, s) = Some (ok, c', t)"
  shows "connection_ok t"
proof (cases "\<not> Writer_IsTailing (tw_tail s) \<or> to")
  case True
  then show ?thesis using assms(2,3) by (auto simp: Writer_WriteSnapshotTo_def split: if_splits)
next
  case False
  then obtain s1 where r: "Writer_WorkerUpdateInternal cenv oenv env u (c, s) = Some (c', s1)" "write_snapshot oenv env u' Path s1 = Some (ok, t)"
    using assms(3) by (auto simp: Writer_WriteSnapshotTo_def bind_eq_Some_conv)
  have "connection_ok s1" by (rule Writer_WorkerUpdateInternal_ok [OF assms(1,2) r(1)])
  then show ?thesis using write_snapshot_frame [OF r(2)]
    by (auto simp: connection_ok_def handles_ok_def pending_handle_def)
qed

section \<open>The life of a connection\<close>

text \<open>Any thread asks for connections and for their end; the worker updates; snapshots are taken.\<close>

inductive writer_reach :: "control_env \<Rightarrow> open_env \<Rightarrow> trace_env \<Rightarrow> trace_writer \<Rightarrow> control_action list control \<times> trace_writer \<Rightarrow> bool"
  for cenv oenv env s where
  start: "writer_reach cenv oenv env s (c, s)"
| send_to: "writer_reach cenv oenv env s (c, t) \<Longrightarrow> writer_reach cenv oenv env s (c, snd (Writer_SendTo oenv Host Port t))"
| write_to: "writer_reach cenv oenv env s (c, t) \<Longrightarrow> writer_reach cenv oenv env s (c, snd (Writer_WriteTo oenv Path t))"
| stop: "writer_reach cenv oenv env s (c, t) \<Longrightarrow> writer_reach cenv oenv env s (c, snd (Writer_Stop t))"
| update: "writer_reach cenv oenv env s (c, t) \<Longrightarrow> Writer_WorkerUpdateInternal cenv oenv env u (c, t) = Some (c', t') \<Longrightarrow>
    writer_reach cenv oenv env s (c', t')"
| snapshot: "writer_reach cenv oenv env s (c, t) \<Longrightarrow> Writer_WriteSnapshotTo cenv oenv env u u' to Path (c, t) = Some (ok, c', t') \<Longrightarrow>
    writer_reach cenv oenv env s (c', t')"

definition writer_initial :: "trace_writer \<Rightarrow> bool" where
  "writer_initial s \<longleftrightarrow> GDataHandle s = 0 \<and> GPendingDataHandle s = 0 \<and> io_log s = [] \<and> tw_opened s = []"

lemma writer_reach_ok:
  "writer_reach cenv oenv env s ct \<Longrightarrow> opens_ok oenv \<Longrightarrow> writer_initial s \<Longrightarrow> connection_ok (snd ct)"
proof (induction rule: writer_reach.induct)
  case (start c)
  then show ?case by (simp add: writer_initial_def connection_ok_def handles_ok_def pending_handle_def one_handle_def)
next
  case (update c t u c' t')
  then show ?case using Writer_WorkerUpdateInternal_ok by fastforce
next
  case (snapshot c t u u' to Path ok c' t')
  then show ?case using Writer_WriteSnapshotTo_ok by fastforce
qed (simp_all add: Writer_SendTo_ok Writer_WriteTo_ok Writer_Stop_ok)

text \<open>
  C7: Over any run of connection requests, stops, updates and snapshots, with any failures of the
  platform's writes and whatever the threads trace, every handle that was opened has been closed
  exactly once, or is the handle in use, or the one that waits for the next update.
\<close>

theorem connection_handles:
  assumes "opens_ok oenv" "writer_initial s" "writer_reach cenv oenv env s (c, t)"
  shows "mset (tw_opened t) = closed_handles (io_log t) + one_handle (GDataHandle t) +
    (if GPendingDataHandle t \<in> {- 1, - 2, - 3} then {#} else one_handle (GPendingDataHandle t))"
  using writer_reach_ok [OF assms(3,1,2)] by (simp add: connection_ok_def handles_ok_def pending_handle_def)

text \<open>
  C25: Writer_Stop takes effect after two updates of the connection, whatever is sent between
  them: then there is no connection and no request, the handle has been closed once (by the stop,
  or before it by a failed write), and in the meantime no other connection can be asked for.
\<close>

theorem Writer_Stop_closes:
  assumes "Writer_Stop s = (True, s0)" "traffic s0 s1" "Writer_UpdateConnection env u1 s1 = Some (r1, s2)"
    "traffic s2 s3" "Writer_UpdateConnection env u2 s3 = Some (r2, s4)"
  shows "GDataHandle s4 = 0 \<and> GPendingDataHandle s4 = 0 \<and>
    closed_handles (io_log s4) = closed_handles (io_log s) + {#GDataHandle s#} \<and>
    Writer_SendTo oenv Host Port s1 = (False, s1) \<and> Writer_WriteTo oenv Path s3 = (False, s3) \<and>
    (GDataHandle s3 \<noteq> 0 \<longrightarrow> io_log s4 = io_log s3 @ [Io_close (GDataHandle s)])"
proof -
  have s: "GDataHandle s \<noteq> 0" "s0 = s\<lparr>GPendingDataHandle := - 1\<rparr>" using assms(1) by (auto simp: Writer_Stop_def split: if_splits)
  have s1: "GPendingDataHandle s1 = - 1" "closed_handles (io_log s1) + one_handle (GDataHandle s1) = closed_handles (io_log s) + one_handle (GDataHandle s)"
    "GDataHandle s1 = GDataHandle s \<or> GDataHandle s1 = 0"
    using assms(2) s(2) by (simp_all add: traffic_def)
  have s2: "s2 = s1\<lparr>GPendingDataHandle := - 2\<rparr>"
    using assms(3) s1(1) closing_cases [of "- 1"] by (simp add: Writer_UpdateConnection_def CloseInertia_def Let_def)
  have s3: "GPendingDataHandle s3 = - 2" "closed_handles (io_log s3) + one_handle (GDataHandle s3) = closed_handles (io_log s) + one_handle (GDataHandle s)"
    "GDataHandle s3 = GDataHandle s \<or> GDataHandle s3 = 0"
    using assms(4) s2 s1 by (auto simp: traffic_def)
  have s4: "s4 = (Writer_Close (s3\<lparr>GPendingDataHandle := - 3\<rparr>))\<lparr>GPendingDataHandle := 0\<rparr>"
    using assms(5) s3(1) closing_cases [of "- 2"] by (simp add: Writer_UpdateConnection_def CloseInertia_def Let_def)
  have "closed_handles (io_log s4) = closed_handles (io_log s) + one_handle (GDataHandle s)"
    using s3(2) by (simp add: s4 Writer_Close_closes)
  moreover have "io_log s4 = io_log s3 @ [Io_close (GDataHandle s)]" if "GDataHandle s3 \<noteq> 0"
    using that s3(3) by (simp add: s4 Writer_Close_def IoClose_def)
  ultimately show ?thesis using s s1(1) s3(1)
    by (simp add: s4 Writer_Close_closes one_handle_def Writer_SendTo_def Writer_WriteTo_def)
qed

text \<open>
  C26: A snapshot leaves the connection as it was: the handle, the pending request, the countdown of
  sync packets and the statistics; the file it opens, if any, is closed exactly once, also when a
  write fails, and no other handle is opened or closed.
\<close>

theorem write_snapshot_keeps_connection:
  assumes "write_snapshot oenv env u Path s = Some (ok, t)"
  shows "GDataHandle t = GDataHandle s \<and> GPendingDataHandle t = GPendingDataHandle s \<and> GSyncPacketCountdown t = GSyncPacketCountdown s \<and>
    BytesSent t = BytesSent s \<and> BytesTraced t = BytesTraced s \<and>
    mset (tw_opened t) = mset (tw_opened s) + one_handle (file_open oenv (io_log s) Path) \<and>
    closed_handles (io_log t) = closed_handles (io_log s) + one_handle (file_open oenv (io_log s) Path)"
  using write_snapshot_frame [OF assms] by simp


section \<open>What a connection begins with\<close>

lemma connect_lists:
  assumes n: "nodes_from (ev_node e) (GNewEventList e) new" "nodes_from (ev_node e) (GEventListHead e) known"
    "known \<noteq> [] \<longrightarrow> GEventListTail e = last known" "distinct (known @ new)"
  shows "\<exists>e1 it e2. FEventNode_OnConnect e = Some e1 \<and> FEventNode_ReadNew e1 = Some (it, e2) \<and> nodes_from (ev_node e2) it (known @ new) \<and>
    (\<forall>x. en_info (ev_node e2 x) = en_info (ev_node e x) \<and> en_uid (ev_node e2 x) = en_uid (ev_node e x))"
proof (cases "known = []")
  case True
  then have h: "GEventListHead e = 0" using n(2) by simp
  show ?thesis
  proof (cases "GNewEventList e = 0")
    case True
    then show ?thesis using h n(1) \<open>known = []\<close> by (simp add: FEventNode_OnConnect_def FEventNode_ReadNew_def Let_def)
  next
    case False
    then show ?thesis using h n(1) \<open>known = []\<close> by (simp add: FEventNode_OnConnect_def FEventNode_ReadNew_def Let_def)
  qed
next
  case False
  have h: "GEventListHead e \<noteq> 0" using slist_start [OF n(2)] False by simp
  have t: "GEventListTail e = last known" "last known \<noteq> 0" using n(3) False slist_nonnull [OF n(2)] last_in_set [OF False] by metis+
  let ?e1 = "(set_next (last known) (GNewEventList e) (e\<lparr>GNewEventList := GEventListHead e\<rparr>))\<lparr>GEventListHead := 0, GEventListTail := 0\<rparr>"
  have oc: "FEventNode_OnConnect e = Some ?e1"
    using h t by (simp add: FEventNode_OnConnect_def onconnect_exchange_def onconnect_link_def)
  have rn: "FEventNode_ReadNew ?e1 = Some (GEventListHead e, ?e1\<lparr>GNewEventList := 0, GEventListHead := GEventListHead e\<rparr>)"
    using h by (simp add: FEventNode_ReadNew_def set_next_def Let_def)
  have nd: "ev_node (?e1\<lparr>GNewEventList := 0, GEventListHead := GEventListHead e\<rparr>) =
      (ev_node e)(last known := (ev_node e (last known))\<lparr>en_next := GNewEventList e\<rparr>)" by (simp add: set_next_def)
  have "nodes_from (ev_node (?e1\<lparr>GNewEventList := 0, GEventListHead := GEventListHead e\<rparr>)) (GEventListHead e) (known @ new)"
    unfolding nd by (rule slist_link [OF n(2) False n(1,4)]) simp_all
  then show ?thesis using oc rn unfolding nd [symmetric] by (auto simp: set_next_def)
qed

lemma Describe_cong: "en_info e = en_info e' \<Longrightarrow> en_uid e = en_uid e' \<Longrightarrow> Describe junk e = Describe junk e'"
  by (simp add: Describe_def)

lemma pumped_log: "pumped s t \<Longrightarrow> \<exists>l. io_log t = io_log s @ l"
  by (simp add: pumped_def)

text \<open>
  C6: Provided that every description takes at most 509 bytes: a new connection begins with the
  handshake and the transport header, and right after them come packets of the events' thread that
  decode to the descriptions of all listed events (those with a number of their own), those of earlier
  connections first; only then the cached, traced and tail data follow. Three sync packets are due
  afterwards, and the statistics begin again at this connection. A longer description need not fit
  in what the code leaves free in the redirected buffer, of which 4 bytes are kept for the header of
  a packet; it may then be traced into a block that is not sent, and the statement says nothing of that.
\<close>

theorem connection_begins_with:
  assumes h: "GPendingDataHandle s = h" "h \<notin> {0, - 1, - 2, - 3}" "GDataHandle s = 0"
    and io: "\<forall>log data. io_ok env log h data" "codec_ok env dec"
    and n: "nodes_from (ev_node (tw_events s)) (GNewEventList (tw_events s)) new" "nodes_from (ev_node (tw_events s)) (GEventListHead (tw_events s)) known"
    "known \<noteq> [] \<longrightarrow> GEventListTail (tw_events s) = last known" "distinct (known @ new)"
    and small: "list_all (\<lambda>x. length (Describe (in_junk u x) (ev_node (tw_events s) x)) \<le> 509) (known @ new)"
    and up: "Writer_UpdateConnection env u s = Some (r, t)"
  shows "\<exists>chunks ps rest. r \<and> io_log t = io_log s @ map (Io_write h) (handshake (in_port u) # transport_header # ps) @ rest \<and>
    list_all2 (packet_means dec (ucast ETransportTid_Events)) chunks ps \<and>
    concat chunks = concat (map (\<lambda>x. Describe (in_junk u x) (ev_node (tw_events s) x)) (known @ new)) \<and>
    GSyncPacketCountdown t = 3 \<and> tw_opened t = tw_opened s"
proof -
  let ?s = "s\<lparr>GDataHandle := h, GPendingDataHandle := 0\<rparr>"
  define s1 where "s1 = ?s\<lparr>io_log := io_log s @ [Io_write h (handshake (in_port u)), Io_write h transport_header]\<rparr>"
  have p: "Writer_SessionPrologue env (in_port u) ?s = (True, s1)"
    using h(2) io(1) by (simp add: Writer_SessionPrologue_def IoWrite_def Let_def s1_def)
  obtain e1 it e2 where e: "FEventNode_OnConnect (tw_events s) = Some e1" "FEventNode_ReadNew e1 = Some (it, e2)"
    "nodes_from (ev_node e2) it (known @ new)"
    "\<forall>x. en_info (ev_node e2 x) = en_info (ev_node (tw_events s) x) \<and> en_uid (ev_node e2 x) = en_uid (ev_node (tw_events s) x)"
    using connect_lists [OF n] by blast
  have dc: "Describe (in_junk u x) (ev_node e2 x) = Describe (in_junk u x) (ev_node (tw_events s) x)" for x
    using e(4) by (intro Describe_cong) simp_all
  define s2 where "s2 = s1\<lparr>BytesSent := 0, BytesTraced := 0, tw_events := e2\<rparr>"
  have rn: "read_new_events (s1\<lparr>BytesSent := 0, BytesTraced := 0, tw_events := e1\<rparr>) = Some (it, s2)"
    using e(2) by (simp add: read_new_events_def s2_def)
  have c: "\<not> NOT 0 - CloseInertia \<le> h" using h(2) closing_cases [of h] by simp
  obtain s3 s4 s5 s6 where st: "describe_events env u it s2 = Some s3"
    "Writer_CacheOnConnect env (tw_cache s3) s3 = Some s4" "Writer_CallbackOnConnect env u s4 = Some s5"
    "Writer_TailOnConnect env (tw_tail s5) s5 = Some s6" "r" "t = s6\<lparr>GSyncPacketCountdown := GNumSyncPackets\<rparr>"
    using up h c p e(1) rn by (auto simp: Writer_UpdateConnection_def bind_eq_Some_conv Let_def s1_def)
  have s2: "GDataHandle s2 = h" "io_log s2 = io_log s @ map (Io_write h) [handshake (in_port u), transport_header]" "tw_opened s2 = tw_opened s"
    by (simp_all add: s2_def s1_def)
  have "list_all (\<lambda>x. length (Describe (in_junk u x) (ev_node e2 x)) \<le> 509) (known @ new)" using small by (simp add: dc)
  from Writer_DescribeEvents_spec [OF e(3) this, of env s2]
  obtain chunks where w: "Writer_DescribeEvents env (in_junk u) it e2 s2 = Some (tail_at (known @ new) e2, fold (Writer_SendData env ETransportTid_Events) chunks s2)"
    "concat chunks = described_bytes (in_junk u) (ev_node e2) (known @ new)" "list_all (\<lambda>c. c \<noteq> [] \<and> length c \<le> 4092) chunks" by blast
  have "list_all (\<lambda>c. length c \<le> 4092) chunks" using w(3) by (auto simp: list_all_iff)
  moreover have "h \<noteq> 0" using h(2) by simp
  ultimately obtain ps where ps: "io_log (fold (Writer_SendData env ETransportTid_Events) chunks s2) = io_log s2 @ map (Io_write h) ps"
    "list_all2 (packet_means dec (ucast ETransportTid_Events)) chunks ps"
    using Events.send_chunks [OF io(2,1) _ s2(1)] by blast
  have s3: "s3 = (fold (Writer_SendData env ETransportTid_Events) chunks s2)\<lparr>tw_events := tail_at (known @ new) e2\<rparr>"
    using st(1) w(1) by (simp add: describe_events_def s2_def)
  have "pumped s3 s6" using traffic_pumped [OF traffic_cache [OF st(2)]] pumped_callback [OF st(3)] traffic_pumped [OF traffic_tail [OF st(4)]]
    by (blast intro: pumped_trans)
  then obtain rest where rest: "io_log s6 = io_log s3 @ rest" "tw_opened s6 = tw_opened s3" by (auto simp: pumped_def)
  have "io_log s3 = io_log s2 @ map (Io_write h) ps" using ps(1) by (simp add: s3)
  moreover have "tw_opened s3 = tw_opened s" using pumped_describe [OF st(1)] s2(3) by (simp add: pumped_def)
  ultimately show ?thesis using rest s2 st(5,6) ps(2) w(2)
    by (intro exI [of _ chunks] exI [of _ ps] exI [of _ rest]) (simp add: described_bytes_def dc GNumSyncPackets_def)
qed


section \<open>Samples\<close>

definition sample_writer :: trace_writer where
  "sample_writer = \<lparr>GDataHandle = 0, GPendingDataHandle = 0, GSyncPacketCountdown = 0, BytesSent = 0, BytesTraced = 0, io_log = [],
     tw_events = sample_lists, tw_channels = run_channels sample_run, tw_cache = cache_null, tw_tail = ring_null,
     GOnConnection = False, tw_opened = []\<rparr>"

definition sample_opens :: open_env where
  "sample_opens = \<lparr>tcp_connect = \<lambda>log host port. 7, file_open = \<lambda>log path. 8\<rparr>"

definition sample_input :: update_input where
  "sample_input = \<lparr>in_shared = [], in_drained = [], in_local = [], in_junk = \<lambda>_ _. 0, in_memory = \<lambda>_ _. [], in_port = 1985\<rparr>"

lemma sample_writer_fields [simp]:
  "GDataHandle sample_writer = 0" "GPendingDataHandle sample_writer = 0" "io_log sample_writer = []" "tw_opened sample_writer = []"
  "tw_events sample_writer = sample_lists" "tw_cache sample_writer = cache_null" "tw_tail sample_writer = ring_null" "GOnConnection sample_writer = False"
  by (simp_all add: sample_writer_def)

lemma connection_handles_witness:
  "\<exists>t. writer_reach sample_control_env sample_opens stored_env sample_writer (sample_control, t) \<and> tw_opened t = [7] \<and>
     {#7#} = closed_handles (io_log t) + one_handle (GDataHandle t) +
       (if GPendingDataHandle t \<in> {- 1, - 2, - 3} then {#} else one_handle (GPendingDataHandle t))"
proof -
  let ?t = "snd (Writer_SendTo sample_opens [97] 0 sample_writer)"
  have o: "opens_ok sample_opens" by (simp add: opens_ok_def sample_opens_def)
  have i: "writer_initial sample_writer" by (simp add: writer_initial_def)
  have r: "writer_reach sample_control_env sample_opens stored_env sample_writer (sample_control, ?t)"
    by (rule writer_reach.send_to [OF writer_reach.start])
  have "tw_opened ?t = [7]" by (simp add: Writer_SendTo_def opened_def sample_opens_def)
  then show ?thesis using connection_handles [OF o i r] r by (intro exI [of _ ?t]) simp
qed

lemma Writer_Stop_closes_witness:
  "\<exists>s2 s4. Writer_UpdateConnection stored_env sample_input (snd (Writer_Stop (sample_writer\<lparr>GDataHandle := 7\<rparr>))) = Some (True, s2) \<and>
     Writer_UpdateConnection stored_env sample_input s2 = Some (True, s4) \<and> io_log s4 = [Io_close 7]"
proof -
  let ?s = "sample_writer\<lparr>GDataHandle := 7\<rparr>"
  have st: "Writer_Stop ?s = (True, ?s\<lparr>GPendingDataHandle := - 1\<rparr>)" by (simp add: Writer_Stop_def)
  have u1: "Writer_UpdateConnection stored_env sample_input (?s\<lparr>GPendingDataHandle := - 1\<rparr>) = Some (True, ?s\<lparr>GPendingDataHandle := - 2\<rparr>)"
    using closing_cases [of "- 1"] by (simp add: Writer_UpdateConnection_def CloseInertia_def Let_def)
  obtain s4 where u2: "Writer_UpdateConnection stored_env sample_input (?s\<lparr>GPendingDataHandle := - 2\<rparr>) = Some (True, s4)"
    using closing_cases [of "- 2"] by (simp add: Writer_UpdateConnection_def CloseInertia_def Let_def)
  have "io_log s4 = io_log (?s\<lparr>GPendingDataHandle := - 2\<rparr>) @ [Io_close (GDataHandle ?s)]"
    using Writer_Stop_closes [OF st traffic_refl u1 traffic_refl u2] by simp
  then show ?thesis using st u1 u2 by simp
qed

text \<open>Without cache, tail and callback, a connection only describes the events.\<close>

lemma describe_events_returns:
  assumes "nodes_from (ev_node (tw_events s)) it xs" "list_all (\<lambda>x. length (Describe (in_junk u x) (ev_node (tw_events s) x)) \<le> 509) xs"
  shows "\<exists>t. describe_events env u it s = Some t \<and> tw_cache t = tw_cache s \<and> tw_tail t = tw_tail s \<and> GOnConnection t = GOnConnection s"
proof -
  obtain e l where l: "Writer_DescribeEvents env (in_junk u) it (tw_events s) s = Some (e, l)"
    using Writer_DescribeEvents_spec [OF assms, of env s] by blast
  have "trace_link.more l = trace_link.more s" using traffic_describe [OF l] by (simp add: traffic_def)
  then have "tw_cache l = tw_cache s" "tw_tail l = tw_tail s" "GOnConnection l = GOnConnection s" by (cases s; cases l; simp)+
  then show ?thesis using l by (simp add: describe_events_def)
qed

lemma write_snapshot_keeps_connection_witness:
  "\<exists>t. write_snapshot sample_opens stored_env sample_input [98] (sample_writer\<lparr>GDataHandle := 7\<rparr>) = Some (True, t) \<and>
     GDataHandle t = 7 \<and> closed_handles (io_log t) = {#8#}"
proof -
  let ?s = "sample_writer\<lparr>GDataHandle := 7\<rparr>"
  let ?s1 = "sample_writer\<lparr>GSyncPacketCountdown := GNumSyncPackets, GDataHandle := 8, tw_opened := [8]\<rparr>"
  let ?s2 = "?s1\<lparr>io_log := [Io_write 8 (handshake 1985), Io_write 8 transport_header]\<rparr>"
  have p: "Writer_SessionPrologue stored_env 1985 ?s1 = (True, ?s2)"
    by (simp add: Writer_SessionPrologue_def IoWrite_def stored_env_def)
  have r: "FEventNode_Read sample_lists = 200" by code_simp
  have n: "nodes_from (ev_node sample_lists) 200 [200, 100]" by code_simp
  have d: "list_all (\<lambda>x. length (Describe (in_junk sample_input x) (ev_node sample_lists x)) \<le> 509) [200, 100]" by code_simp
  obtain s3 where s3: "describe_events stored_env sample_input 200 ?s2 = Some s3" "tw_cache s3 = cache_null" "tw_tail s3 = ring_null" "\<not> GOnConnection s3"
    using describe_events_returns [of ?s2 200 "[200, 100]" sample_input stored_env] n d by auto
  have "\<exists>t. write_snapshot sample_opens stored_env sample_input [98] ?s = Some (True, t)"
    using p r s3 by (simp add: write_snapshot_def opened_def sample_opens_def sample_input_def sample_writer_def
      Writer_CacheOnConnect_def cache_null_def Writer_CallbackOnConnect_def Writer_TailOnConnect_def ring_null_def Let_def)
  then obtain t where t: "write_snapshot sample_opens stored_env sample_input [98] ?s = Some (True, t)" by blast
  from write_snapshot_keeps_connection [OF this] show ?thesis
    using t by (intro exI [of _ t]) (simp add: sample_opens_def one_handle_def)
qed

lemma connection_begins_with_witness:
  "\<exists>t ps rest. Writer_UpdateConnection stored_env sample_input (sample_writer\<lparr>GPendingDataHandle := 7\<rparr>) = Some (True, t) \<and>
     io_log t = map (Io_write 7) (handshake 1985 # transport_header # ps) @ rest"
proof -
  let ?s = "sample_writer\<lparr>GPendingDataHandle := 7\<rparr>"
  have n: "nodes_from (ev_node sample_lists) (GNewEventList sample_lists) [200, 100]" "nodes_from (ev_node sample_lists) (GEventListHead sample_lists) []"
    "distinct ([] @ [200, 100 :: u64])" by code_simp+
  have d: "list_all (\<lambda>x. length (Describe (in_junk sample_input x) (ev_node sample_lists x)) \<le> 509) ([] @ [200, 100])" by code_simp
  have oc: "FEventNode_OnConnect sample_lists = Some sample_lists" using n(2) by (simp add: FEventNode_OnConnect_def)
  obtain e2 where rn: "FEventNode_ReadNew sample_lists = Some (200, e2)" "ev_node e2 = ev_node sample_lists"
    using n(1,2) by (auto simp: FEventNode_ReadNew_def Let_def)
  let ?s1 = "?s\<lparr>GDataHandle := 7, GPendingDataHandle := 0\<rparr>"
  let ?s2 = "?s1\<lparr>io_log := [Io_write 7 (handshake 1985), Io_write 7 transport_header]\<rparr>"
  have p: "Writer_SessionPrologue stored_env 1985 ?s1 = (True, ?s2)"
    by (simp add: Writer_SessionPrologue_def IoWrite_def stored_env_def)
  let ?s3 = "?s2\<lparr>BytesSent := 0, BytesTraced := 0, tw_events := e2\<rparr>"
  obtain s4 where s4: "describe_events stored_env sample_input 200 ?s3 = Some s4" "tw_cache s4 = cache_null" "tw_tail s4 = ring_null" "\<not> GOnConnection s4"
    using describe_events_returns [of ?s3 200 "[200, 100]" sample_input stored_env] n(1) d rn(2) by auto
  have c: "\<not> NOT 0 - CloseInertia \<le> (7 :: u64)" unfolding closing_cases by simp
  have "\<exists>t. Writer_UpdateConnection stored_env sample_input ?s = Some (True, t)"
    using p s4 rn(1) oc c by (simp add: Writer_UpdateConnection_def read_new_events_def sample_input_def
      Writer_CacheOnConnect_def cache_null_def Writer_CallbackOnConnect_def Writer_TailOnConnect_def ring_null_def Let_def)
  then obtain t where t: "Writer_UpdateConnection stored_env sample_input ?s = Some (True, t)" by blast
  have "\<exists>chunks ps rest. True \<and> io_log t = io_log ?s @ map (Io_write 7) (handshake (in_port sample_input) # transport_header # ps) @ rest \<and>
    list_all2 (packet_means stored_dec (ucast ETransportTid_Events)) chunks ps \<and>
    concat chunks = concat (map (\<lambda>x. Describe (in_junk sample_input x) (ev_node (tw_events ?s) x)) ([] @ [200, 100])) \<and>
    GSyncPacketCountdown t = 3 \<and> tw_opened t = tw_opened ?s"
    by (rule connection_begins_with [OF _ _ _ _ stored_codec_ok _ _ _ _ _ t]) (use n d in \<open>simp_all add: stored_env_def\<close>)
  then show ?thesis using t by (auto simp: sample_input_def)
qed

end
