(* ===== verification/Spec2Isabelle.thy ===== *)
theory Spec2Isabelle
  imports Arena ChaCha LogStream SharedBuffers PageFree Segments Connection
begin

text \<open>
  Verification development of the native core of std_utrace: the in-tree memory allocator
  (src/src/mimalloc, C) and the trace log of the Unreal engine that records events and sends
  them to a trace server (src/src/Runtime/TraceLog, C++). Both are modelled as functions on
  explicit states, with the names of the source.

  \<^bold>\<open>Conventions.\<close> A record stands for a struct and its fields keep their names where
  Isabelle allows it. Machine words are 64-bit and 32-bit words (usize, u32) with their
  wrap-around; counters of 16 and 32 bits inside mimalloc structures are natural numbers with
  the reduction written out where the code can wrap. A function that can fail as the C code
  fails (null, false) returns what the code returns; None is undefined behaviour of the C code
  (a read or write outside an array, a null dereference) or, in the loops made with
  partial_function, not returning. So a theorem that some call is Some y says that the code
  runs without undefined behaviour and ends. Loops with a bound that the code itself has are
  recursive functions on that bound; no other fuel is used, except in mi_option_get, where three
  levels of mutual recursion through the warning message are proved to be enough.
  Configuration: a 64-bit release build of mimalloc (no MI_SECURE, no padding, no encoded free
  lists, MI_DEBUG 0) and the Unix build of the trace log with packets of version 4.

  \<^bold>\<open>Theories of the allocator.\<close>

  Prelude holds the types of machine words, checked array access and lemmas on words that the
  other theories share.

  Internal (include/mimalloc/internal.h, types.h) has the size constants, alignment, overflow
  checks, pointer encoding, the word of a page that holds a list and a flag, bit scans.

  Bitmap (bitmap.c) has all operations on the atomic bitmaps, within a field and across fields.
  What other threads do between reading and writing a field is an argument of the search. The
  lemmas relate every operation to the set of claimed bits; the properties are completeness of
  the search, exact effects of claiming and clearing, and the roll-back after a lost race.

  ChaCha (random.c) has the random numbers: the block function, agreement with RFC 8439,
  the order of the stream, distinctness of block inputs, seeding.

  Options (options.c) has reading, parsing, setting and caching options, with the environment
  and the output function as parameters. Os (os.c) has sizes, alignment, allocation, freeing,
  commit, decommit, reset and purge over the primitives of the system, which are an
  environment with documented behaviour.

  CommitMask and Commit (segment.c) have the commit masks of a segment and the delayed purges
  with them. Arena (arena.c) has the arenas: claiming and freeing blocks, commit, delayed purge.

  MiState and Linked hold the data of pages, queues and heaps (types.h, init.c) and lemmas
  about doubly linked lists. PageQueue (page-queue.c) has the bins, the queues of a heap and the
  direct array with the well-formedness of a heap as invariant of every operation.

  PageFree (page.c, alloc.c) has the three free lists of a page and the protocol in which other
  threads give back blocks: a step relation in which every atomic exchange is one step. Its
  invariant fc_inv says where every block is and what the flag of a page means; the properties
  are that the lists and the count are exact, that no block is handed out twice, that the page
  is kept until the last access of a freeing thread, and that no freed block is lost.

  SegmentMap (segment-map.c) has the bit map of segments, its updates and the search for the
  segment of a pointer; what stands in the header of a segment is an argument of the search.

  Spans (segment.c) has the slices of segments, the queues of free spans and the operations that
  allocate and free segments and pages; Segments has their correctness. A layout of a segment is
  a list of spans, in use or free; spans_inv says that the slices, the queues and the counts
  agree with a layout for each segment. seg_reach are the states that one thread reaches by
  allocating segments (also when that fails), freeing empty ones, finding and clearing pages;
  the properties are that seg_reach keeps the invariant, that the operations are defined there,
  and what finding and clearing a page do to the layout.

  Bytes at the operating system. The state of Os keeps a log of the calls made. From the calls
  that an operation adds to it, did_commit says that at least the given bytes were committed, by
  calls that succeeded, and nothing was given up; gave_up_within says that nothing but the given
  bytes was decommitted, reset or freed. The properties of Commit and Arena state both beside
  the masks and bitmaps that the code keeps.

  \<^bold>\<open>Theories of the trace log.\<close>

  Wire and Send (Transport.h, Writer.cpp) have the packets and Writer_SendData, with the
  compressor as a parameter: what is sent decodes to the data. Tail (Tail.cpp) has the ring
  that keeps the newest packets before a connection is made, a refinement of a queue from which
  an append drops the least number of packets that makes room. Cache (Cache.cpp) has the cache
  of important events. ThreadBuffers (TlsBuffer.cpp, WriteBuffer) has the buffers of the threads
  and the worker that drains them, and SharedBuffers (SharedBuffer.cpp, ImportantLogScope.inl)
  the buffers shared by all threads, both as step relations of threads and worker; the properties
  say what is sent in every interleaving and that everything committed is sent in the end. The
  cursors of SharedBuffers are int32 with wrap-around (int32, uint32); claims_fit bounds the
  number of threads in a scope and the largest size of an event so that no cursor wraps, and
  late_claim names the interleavings in which a thread comes to a buffer that is already freed.

  Chains has the singly linked lists of nodes by address that events and channels share.
  Events (EventNode.cpp) has the numbers and lists of events, their descriptions and
  Writer_DescribeEvents; pump_reach are the states in which initialising threads interleave with
  the writer. The reader read_event is the specification of the description; its flags are
  specified bit by bit (flags_meant). Channels (Channel.cpp) has setting up, announcing,
  finding and toggling channels; channel_reach interleaves the threads with the writer.
  Control (Control.cpp) has the sockets of the control port, the parser of commands and the
  commands; control_reach are its runs, over an environment that gives the answers of sockets.
  Connection (Writer.cpp) puts these together: requests for a connection, its prologue, one
  update of the worker, stopping and snapshots. writer_reach are its runs. The data that threads
  have traced by an update is an input of the update, the timeout that ends an inactive
  connection is a parameter, and commands that the control port parsed run after the parsing.

  LogScope (LogScope.inl, Field.h, Field.cpp, Trace.h) has what the macros of an event expand to:
  the layout of its fields, entering, setting fields, arrays and strings over any number of
  buffers, and the end, with plain and stamped scopes. LogStream has its correctness. The chain
  of buffers of a thread (thread_log) stands for one stream of bytes, which read_items reads back;
  value_meant says, from the data of a statement alone, what the reader must get.

  \<^bold>\<open>How the parts interact.\<close> Arena uses Bitmap for its blocks and Os for memory. Commit
  gives memory of a segment back through Os. Spans takes its memory from Arena, commits it with
  Commit and enters its segments in SegmentMap. PageFree works on the pages and the heap of
  MiState and takes the flag operation from PageQueue. LogScope writes into the buffers of
  ThreadBuffers, whose worker sends what is committed; ThreadBuffers and SharedBuffers hand
  their data to Send, whose packets Tail keeps and Cache stores. Connection describes the events
  of Events before it sends Cache and Tail, and the commands of Control open and close connections.

  \<^bold>\<open>Bounds.\<close> Descriptions of events take at most 509 bytes where a property says that they
  reach the connection; data of one array or string is less than 512 KiB; commands of the control
  port are at most 16 words and 510 bytes and come whole in one update; shared buffers have at most
  1023 threads in scopes with the product of threads and largest size at most 2 MiB less 1 KiB.
  Each is a bound that the code has or needs, stated in the property.

  \<^bold>\<open>Not modelled.\<close> Of the allocator: the primitives of the operating systems (prim), heaps
  as a whole, thread start and exit, abandoned and huge segments, the choice of a page for an
  allocation, aligned and posix entry points, statistics and messages. Of the trace log: the pool of
  blocks behind the buffers, starting and stopping the worker thread and the lock around its update,
  the thread and session names of Trace.cpp, sockets and files of the platforms, and the vendored LZ4
  and xhook. The profiler on top (Runtime/Profiler, inc/utrace.h) is glue that emits events through
  the macros modelled here. The other users of a word in memory appear only where a step relation or
  an interference argument says so; weak memory orders do not.
\<close>

end
